(* ===== verification/Fw_Prelude.thy ===== *)
theory Fw_Prelude
  imports "HOL-Library.Word"
begin

text \<open>
  Shared material of the development: the machine integers of the firmware
  (\<open>uint8_t\<close>, \<open>uint16_t\<close>, \<open>uint32_t\<close>), the collections of rewrite rules, the lemmas on
  words, lists and iteration that several components use, and the library functions of C
  that the firmware calls on character buffers.
\<close>

unbundle bit_operations_syntax

section \<open>Machine integers\<close>

type_synonym u8 = "8 word"
type_synonym u16 = "16 word"
type_synonym u32 = "32 word"

named_theorems fw_bits \<open>bit tests and bit updates of machine words\<close>
named_theorems fw_inv \<open>preservation of component invariants\<close>

lemma word_and_push_bit_1 [fw_bits]: "(w AND push_bit i 1 = 0) \<longleftrightarrow> \<not> bit w i"
  for w :: "'a::len word"
  by (simp add: and_exp_eq_0_iff_not_bit flip: push_bit_eq_mult)

lemma word_and_1_eq_0 [fw_bits]: "(w AND 1 = 0) \<longleftrightarrow> \<not> bit w 0"
  for w :: "'a::len word"
  using word_and_push_bit_1 [of w 0] by simp

lemma bit_or_push_bit_1 [fw_bits]:
  "bit (w OR push_bit i 1) j \<longleftrightarrow> bit w j \<or> (i = j \<and> j < LENGTH('a))"
  for w :: "'a::len word"
  by (auto simp: bit_simps)

lemma bit_and_not_push_bit_1 [fw_bits]:
  "bit (w AND NOT (push_bit i 1)) j \<longleftrightarrow> bit w j \<and> i \<noteq> j"
  for w :: "'a::len word"
  by (auto simp: bit_simps dest: bit_imp_le_length)

lemma bit_or_exp [fw_bits]:
  "bit (w OR 2 ^ i) j \<longleftrightarrow> bit w j \<or> (i = j \<and> j < LENGTH('a))"
  for w :: "'a::len word"
  by (auto simp: bit_simps)

lemma bit_and_not_exp [fw_bits]:
  "bit (w AND NOT (2 ^ i)) j \<longleftrightarrow> bit w j \<and> i \<noteq> j"
  for w :: "'a::len word"
  by (auto simp: bit_simps dest: bit_imp_le_length)

lemma bit_drop_bit_0 [fw_bits]: "bit (drop_bit i w) 0 \<longleftrightarrow> bit w i"
  for w :: "'a::len word"
  by (simp add: bit_drop_bit_eq)

lemma bit_word_double [fw_bits]:
  "bit (w * 2) j \<longleftrightarrow> j \<noteq> 0 \<and> j < LENGTH('a) \<and> bit w (j - 1)"
  for w :: "'a::len word"
  using bit_double_iff [of w j] by (auto simp: mult.commute)

lemma u8_high_bits [simp]: "8 \<le> n \<Longrightarrow> \<not> bit w n" for w :: u8
  by (auto dest: bit_imp_le_length)

lemma u8_eq_bits: "(v = w) \<longleftrightarrow> (\<forall>i < 8. bit v i = bit w i)" for v w :: u8
  by (auto intro: bit_word_eqI)

lemma unat_le_255: "unat w \<le> 255" for w :: u8
proof -
  have "unat w < 2 ^ LENGTH(8)" by (rule unsigned_less)
  then show ?thesis by simp
qed

lemma unat_Suc_u8: "w < 255 \<Longrightarrow> unat (w + 1) = Suc (unat w)" for w :: u8
  by (simp add: unat_word_ariths word_less_nat_alt)

text \<open>A saturating counter, the idiom \<open>if (t < 255) t++\<close> of the firmware.\<close>

definition sat_inc :: "u8 \<Rightarrow> u8" where
  "sat_inc t = (if t < 255 then t + 1 else t)"

lemma unat_sat_inc: "unat (sat_inc t) = min (Suc (unat t)) 255"
proof (cases "t < 255")
  case True
  then have "unat t < 255" by (simp add: word_less_nat_alt)
  with True show ?thesis by (simp add: sat_inc_def unat_Suc_u8 min_def)
next
  case False
  then have "255 \<le> unat t" by (simp add: word_less_nat_alt)
  with unat_le_255 [of t] False show ?thesis by (simp add: sat_inc_def)
qed

section \<open>Lists and iteration\<close>

lemma nth_list_update_if: "i < length xs \<Longrightarrow> xs[i := v] ! j = (if i = j then v else xs ! j)"
  by (simp add: nth_list_update)

lemma list_all_update: "list_all P xs \<Longrightarrow> P v \<Longrightarrow> list_all P (xs[i := v])"
  by (auto simp: list_all_iff dest: subsetD [OF set_update_subset_insert])

lemma list_all_nth: "list_all P xs \<Longrightarrow> i < length xs \<Longrightarrow> P (xs ! i)"
  by (simp add: list_all_length)

lemma tl_drop_Suc: "tl (drop n xs) = drop (Suc n) xs"
  by (simp add: drop_Suc tl_drop)

lemma length_2_conv: "length xs = 2 \<longleftrightarrow> (\<exists>a b. xs = [a, b])"
  by (auto simp: numeral_2_eq_2 length_Suc_conv)

lemma length_3_conv: "length xs = 3 \<longleftrightarrow> (\<exists>a b c. xs = [a, b, c])"
  by (auto simp: numeral_3_eq_3 length_Suc_conv)

lemma funpow_invariant:
  assumes "P x" and "\<And>y. P y \<Longrightarrow> P (f y)"
  shows "P ((f ^^ n) x)"
  using assms(1) by (induction n) (auto intro: assms(2))

text \<open>Running a list of inputs through a step function, first input first.\<close>

definition run :: "('i \<Rightarrow> 's \<Rightarrow> 's) \<Rightarrow> 'i list \<Rightarrow> 's \<Rightarrow> 's" where
  "run f is s = fold f is s"

lemma run_Nil [simp]: "run f [] s = s"
  by (simp add: run_def)

lemma run_Cons [simp]: "run f (i # is) s = run f is (f i s)"
  by (simp add: run_def)

lemma run_append [simp]: "run f (is @ js) s = run f js (run f is s)"
  by (simp add: run_def)

lemma run_replicate: "run f (replicate n i) s = (f i ^^ n) s"
  by (induction n arbitrary: s) (simp_all add: funpow_swap1)

lemma run_invariant:
  assumes "P s" and "\<And>i s. P s \<Longrightarrow> P (f i s)"
  shows "P (run f is s)"
  using assms(1) by (induction "is" arbitrary: s) (auto intro: assms(2))

end
