(* ===== verification/Rt_Kservice.thy ===== *)
theory Rt_Kservice
  imports Fw_Prelude
begin

text \<open>
  The memory and string services of the kernel (\<open>rt-thread/src/kservice.c\<close>) that the
  application calls on its buffers. Memory is a function from addresses to bytes; addresses
  and counts are natural numbers below the 32-bit limit. The target is little-endian with
  four-byte \<open>long\<close>. Loops that stop at a NUL byte may run past any bound, so they are
  partial functions and their termination is a property of the memory. The theory shows
  that the word-at-a-time routines are the byte-wise ones, which overlaps they tolerate,
  and what the string routines return.
\<close>

type_synonym mem = "nat \<Rightarrow> u8"

text \<open>\<open>RT_ALIGN\<close> of \<open>rtdef.h\<close> with the alignment of four bytes that the kernel uses.\<close>

definition RT_ALIGN :: "u32 \<Rightarrow> u32" where
  "RT_ALIGN sz = (sz + 4 - 1) AND NOT (4 - 1)"

section \<open>Reference operations\<close>

definition mem_set :: "mem \<Rightarrow> nat \<Rightarrow> u8 \<Rightarrow> nat \<Rightarrow> mem" where
  "mem_set m p d n = (\<lambda>a. if p \<le> a \<and> a < p + n then d else m a)"

definition mem_copy :: "mem \<Rightarrow> nat \<Rightarrow> nat \<Rightarrow> nat \<Rightarrow> mem" where
  "mem_copy m d s n = (\<lambda>a. if d \<le> a \<and> a < d + n then m (s + (a - d)) else m a)"

definition mem_bytes :: "mem \<Rightarrow> nat \<Rightarrow> nat \<Rightarrow> u8 list" where
  "mem_bytes m a n = map m [a..<a + n]"

lemma length_mem_bytes [simp]: "length (mem_bytes m a n) = n"
  by (simp add: mem_bytes_def)

lemma nth_mem_bytes [simp]: "i < n \<Longrightarrow> mem_bytes m a n ! i = m (a + i)"
  by (simp add: mem_bytes_def)

lemma mem_set_0 [simp]: "mem_set m p d 0 = m"
  by (auto simp: mem_set_def fun_eq_iff)

lemma mem_copy_0 [simp]: "mem_copy m d s 0 = m"
  by (auto simp: mem_copy_def fun_eq_iff)

lemma mem_set_add: "mem_set (mem_set m p d k) (p + k) d n = mem_set m p d (k + n)"
  by (auto simp: mem_set_def fun_eq_iff)

lemma mem_copy_add:
  assumes "d \<le> s \<or> s + k + n \<le> d"
  shows "mem_copy (mem_copy m d s k) (d + k) (s + k) n = mem_copy m d s (k + n)"
  using assms by (auto simp: mem_copy_def fun_eq_iff)

section \<open>Words in memory\<close>

definition store_long :: "mem \<Rightarrow> nat \<Rightarrow> u32 \<Rightarrow> mem" where
  "store_long m a w = m(a := ucast w, a + 1 := ucast (drop_bit 8 w),
     a + 2 := ucast (drop_bit 16 w), a + 3 := ucast (drop_bit 24 w))"

definition load_long :: "mem \<Rightarrow> nat \<Rightarrow> u32" where
  "load_long m a = ucast (m a) OR push_bit 8 (ucast (m (a + 1)))
     OR push_bit 16 (ucast (m (a + 2))) OR push_bit 24 (ucast (m (a + 3)))"

lemma store_load_long: "store_long m d (load_long m s) = mem_copy m d s 4"
proof -
  have "ucast (load_long m s) = m s" "ucast (drop_bit 8 (load_long m s)) = m (s + 1)"
    "ucast (drop_bit 16 (load_long m s)) = m (s + 2)" "ucast (drop_bit 24 (load_long m s)) = m (s + 3)"
    by (auto simp: load_long_def bit_simps intro!: bit_eqI)
  moreover have "d \<le> a \<and> a < d + 4 \<longleftrightarrow> a = d \<or> a = d + 1 \<or> a = d + 2 \<or> a = d + 3" for a
    by linarith
  ultimately show ?thesis
    by (auto simp: store_long_def mem_copy_def fun_eq_iff)
qed

section \<open>rt_memset\<close>

text \<open>\<open>memset_bytes\<close>: \<open>while (count--) *m++ = (char)d\<close>.\<close>

fun memset_bytes :: "mem \<Rightarrow> nat \<Rightarrow> u8 \<Rightarrow> nat \<Rightarrow> mem" where
  "memset_bytes m p d 0 = m"
| "memset_bytes m p d (Suc n) = memset_bytes (m(p := d)) (Suc p) d n"

fun memset_blocks :: "mem \<Rightarrow> nat \<Rightarrow> u32 \<Rightarrow> nat \<Rightarrow> mem \<times> nat \<times> nat" where
  "memset_blocks m p buffer count =
     (if count \<ge> 4 * 4
      then memset_blocks
        (store_long (store_long (store_long (store_long m p buffer)
            (p + 4) buffer) (p + 8) buffer) (p + 12) buffer)
        (p + 16) buffer (count - 4 * 4)
      else (m, p, count))"

fun memset_longs :: "mem \<Rightarrow> nat \<Rightarrow> u32 \<Rightarrow> nat \<Rightarrow> mem \<times> nat \<times> nat" where
  "memset_longs m p buffer count =
     (if count \<ge> 4 then memset_longs (store_long m p buffer) (p + 4) buffer (count - 4)
      else (m, p, count))"

declare memset_blocks.simps [simp del] memset_longs.simps [simp del]

definition memset_pattern :: "u32 \<Rightarrow> u32" where
  "memset_pattern d =
     (let buffer = push_bit 8 d OR d in buffer OR push_bit 16 buffer)"

definition rt_memset :: "mem \<Rightarrow> nat \<Rightarrow> u32 \<Rightarrow> nat \<Rightarrow> mem" where
  "rt_memset m s c count =
     (let d = c AND 0xff in
      if \<not> count < 4 \<and> s mod 4 = 0
      then let (m1, p1, count1) = memset_blocks m s (memset_pattern d) count;
               (m2, p2, count2) = memset_longs m1 p1 (memset_pattern d) count1
           in memset_bytes m2 p2 (ucast d) count2
      else memset_bytes m s (ucast d) count)"

lemma memset_bytes_eq: "memset_bytes m p d n = mem_set m p d n"
proof (induction m p d n rule: memset_bytes.induct)
  case (2 m p d n)
  have "m(p := d) = mem_set m p d 1" by (auto simp: mem_set_def)
  with 2 show ?case using mem_set_add [of m p d 1 n] by simp
qed simp

lemma bit_memset_pattern:
  "bit (memset_pattern d) j \<longleftrightarrow> bit d j \<or> (8 \<le> j \<and> j < 32 \<and> bit d (j - 8)) \<or>
     (16 \<le> j \<and> j < 32 \<and> (bit d (j - 16) \<or> (24 \<le> j \<and> bit d (j - 24))))"
  by (auto simp: memset_pattern_def Let_def bit_simps)

lemma pattern_byte:
  assumes d: "\<And>j. bit d j \<Longrightarrow> j < 8"
  shows "ucast (memset_pattern d) = (ucast d :: u8)"
    and "ucast (drop_bit 8 (memset_pattern d)) = (ucast d :: u8)"
    and "ucast (drop_bit 16 (memset_pattern d)) = (ucast d :: u8)"
    and "ucast (drop_bit 24 (memset_pattern d)) = (ucast d :: u8)"
proof -
  have no: "\<not> bit d (8 + n)" "\<not> bit d (16 + n)" "\<not> bit d (24 + n)" for n
    using d [of "8 + n"] d [of "16 + n"] d [of "24 + n"] by auto
  show "ucast (memset_pattern d) = (ucast d :: u8)"
    by (rule bit_eqI) (auto simp: bit_simps bit_memset_pattern)
  show "ucast (drop_bit 8 (memset_pattern d)) = (ucast d :: u8)"
    by (rule bit_eqI) (auto simp: bit_simps bit_memset_pattern no)
  show "ucast (drop_bit 16 (memset_pattern d)) = (ucast d :: u8)"
    by (rule bit_eqI) (auto simp: bit_simps bit_memset_pattern no)
  show "ucast (drop_bit 24 (memset_pattern d)) = (ucast d :: u8)"
    by (rule bit_eqI) (auto simp: bit_simps bit_memset_pattern no)
qed

lemma mod4_cells: "p \<le> a \<and> a < p + 4 \<longleftrightarrow> a = p \<or> a = p + 1 \<or> a = p + 2 \<or> a = p + 3" for p :: nat
  by linarith

lemma and_255_take_bit: "c AND 255 = take_bit 8 c" for c :: u32
  by (simp add: take_bit_eq_mask mask_eq_exp_minus_1)

lemma bit_and_255: "bit (c AND 255) j \<Longrightarrow> j < 8" for c :: u32
  by (simp add: and_255_take_bit bit_take_bit_iff)

lemma ucast_and_255: "ucast (c AND 255) = (ucast c :: u8)" for c :: u32
  unfolding and_255_take_bit by (rule bit_eqI) (simp add: bit_ucast_iff bit_take_bit_iff)

lemma store_pattern:
  "store_long m p (memset_pattern (c AND 0xff)) = mem_set m p (ucast (c AND 0xff)) 4"
  using pattern_byte [of "c AND 255", OF bit_and_255]
  by (auto simp: store_long_def mem_set_def fun_eq_iff mod4_cells)

lemma memset_blocks_eq:
  "\<exists>k \<le> count. memset_blocks m p (memset_pattern (c AND 0xff)) count =
     (mem_set m p (ucast (c AND 0xff)) k, p + k, count - k)"
proof (induction count arbitrary: m p rule: less_induct)
  case (less count)
  show ?case
  proof (cases "16 \<le> count")
    case True
    let ?s = "\<lambda>m p n. mem_set m p (ucast (c AND 0xff)) n"
    have s16: "?s (?s (?s (?s m p 4) (p + 4) 4) (p + 8) 4) (p + 12) 4 = ?s m p 16"
      by (auto simp: mem_set_def fun_eq_iff)
    from True less.IH [of "count - 16" "?s m p 16" "p + 16"] obtain k where k: "k \<le> count - 16"
      "memset_blocks (?s m p 16) (p + 16) (memset_pattern (c AND 0xff)) (count - 16) =
        (?s (?s m p 16) (p + 16) k, p + 16 + k, count - 16 - k)" by auto
    with True show ?thesis
      by (intro exI [of _ "16 + k"])
        (simp add: memset_blocks.simps [of m p] store_pattern s16 mem_set_add)
  next
    case False
    then show ?thesis by (intro exI [of _ 0]) (simp add: memset_blocks.simps)
  qed
qed

lemma memset_longs_eq:
  "\<exists>k \<le> count. memset_longs m p (memset_pattern (c AND 0xff)) count =
     (mem_set m p (ucast (c AND 0xff)) k, p + k, count - k)"
proof (induction count arbitrary: m p rule: less_induct)
  case (less count)
  show ?case
  proof (cases "4 \<le> count")
    case True
    let ?s = "\<lambda>m p n. mem_set m p (ucast (c AND 0xff)) n"
    from True less.IH [of "count - 4" "?s m p 4" "p + 4"] obtain k where k: "k \<le> count - 4"
      "memset_longs (?s m p 4) (p + 4) (memset_pattern (c AND 0xff)) (count - 4) =
        (?s (?s m p 4) (p + 4) k, p + 4 + k, count - 4 - k)" by auto
    with True show ?thesis
      by (intro exI [of _ "4 + k"])
        (simp add: memset_longs.simps [of m p] store_pattern mem_set_add)
  next
    case False
    then show ?thesis by (intro exI [of _ 0]) (simp add: memset_longs.simps)
  qed
qed

lemma rt_memset_eq: "rt_memset m s c count = mem_set m s (ucast c) count"
proof -
  obtain k where k: "k \<le> count" "memset_blocks m s (memset_pattern (c AND 0xff)) count =
      (mem_set m s (ucast (c AND 0xff)) k, s + k, count - k)"
    using memset_blocks_eq [of count m s c] by auto
  obtain l where l: "l \<le> count - k"
    "memset_longs (mem_set m s (ucast (c AND 0xff)) k) (s + k) (memset_pattern (c AND 0xff)) (count - k) =
      (mem_set (mem_set m s (ucast (c AND 0xff)) k) (s + k) (ucast (c AND 0xff)) l, s + k + l, count - k - l)"
    using memset_longs_eq [of "count - k" "mem_set m s (ucast (c AND 0xff)) k" "s + k" c] by auto
  show ?thesis
    using k l mem_set_add [of m s "ucast c" "k + l" "count - k - l"]
    by (simp add: rt_memset_def Let_def ucast_and_255 memset_bytes_eq mem_set_add add.assoc)
qed

section \<open>rt_memcpy, rt_memmove, rt_memcmp\<close>

fun memcpy_bytes :: "mem \<Rightarrow> nat \<Rightarrow> nat \<Rightarrow> nat \<Rightarrow> mem" where
  "memcpy_bytes m d s 0 = m"
| "memcpy_bytes m d s (Suc len) = memcpy_bytes (m(d := m s)) (Suc d) (Suc s) len"

fun memcpy_blocks :: "mem \<Rightarrow> nat \<Rightarrow> nat \<Rightarrow> nat \<Rightarrow> mem \<times> nat \<times> nat \<times> nat" where
  "memcpy_blocks m d s len =
     (if len \<ge> 16
      then let m1 = store_long m d (load_long m s);
               m2 = store_long m1 (d + 4) (load_long m1 (s + 4));
               m3 = store_long m2 (d + 8) (load_long m2 (s + 8));
               m4 = store_long m3 (d + 12) (load_long m3 (s + 12))
           in memcpy_blocks m4 (d + 16) (s + 16) (len - 16)
      else (m, d, s, len))"

fun memcpy_longs :: "mem \<Rightarrow> nat \<Rightarrow> nat \<Rightarrow> nat \<Rightarrow> mem \<times> nat \<times> nat \<times> nat" where
  "memcpy_longs m d s len =
     (if len \<ge> 4 then memcpy_longs (store_long m d (load_long m s)) (d + 4) (s + 4) (len - 4)
      else (m, d, s, len))"

declare memcpy_blocks.simps [simp del] memcpy_longs.simps [simp del]

definition rt_memcpy :: "mem \<Rightarrow> nat \<Rightarrow> nat \<Rightarrow> nat \<Rightarrow> mem" where
  "rt_memcpy m dst src count =
     (if \<not> count < 16 \<and> src mod 4 = 0 \<and> dst mod 4 = 0
      then let (m1, d1, s1, len1) = memcpy_blocks m dst src count;
               (m2, d2, s2, len2) = memcpy_longs m1 d1 s1 len1
           in memcpy_bytes m2 d2 s2 len2
      else memcpy_bytes m dst src count)"

text \<open>\<open>memmove_down\<close>: \<open>while (n--) *(--tmp) = *(--s)\<close> with both pointers past the end.\<close>

fun memmove_down :: "mem \<Rightarrow> nat \<Rightarrow> nat \<Rightarrow> nat \<Rightarrow> mem" where
  "memmove_down m tmp s 0 = m"
| "memmove_down m tmp s (Suc n) = memmove_down (m(tmp - 1 := m (s - 1))) (tmp - 1) (s - 1) n"

definition rt_memmove :: "mem \<Rightarrow> nat \<Rightarrow> nat \<Rightarrow> nat \<Rightarrow> mem" where
  "rt_memmove m dest src n =
     (if src < dest \<and> dest < src + n then memmove_down m (dest + n) (src + n) n
      else memcpy_bytes m dest src n)"

fun rt_memcmp :: "mem \<Rightarrow> nat \<Rightarrow> nat \<Rightarrow> nat \<Rightarrow> int" where
  "rt_memcmp m su1 su2 0 = 0"
| "rt_memcmp m su1 su2 (Suc count) =
     (let res = uint (m su1) - uint (m su2)
      in if res \<noteq> 0 then res else rt_memcmp m (Suc su1) (Suc su2) count)"

lemma memcpy_bytes_eq:
  "d \<le> s \<or> s + n \<le> d \<Longrightarrow> memcpy_bytes m d s n = mem_copy m d s n"
proof (induction m d s n rule: memcpy_bytes.induct)
  case (2 m d s n)
  have "m(d := m s) = mem_copy m d s 1" by (auto simp: mem_copy_def fun_eq_iff)
  with 2 show ?case using mem_copy_add [of d s 1 n m] by auto
qed simp

lemma mem_copy_16:
  assumes "d \<le> s \<or> s + 16 \<le> d"
  shows "mem_copy (mem_copy (mem_copy (mem_copy m d s 4) (d + 4) (s + 4) 4)
      (d + 8) (s + 8) 4) (d + 12) (s + 12) 4 = mem_copy m d s 16"
  using assms mem_copy_add [of d s 4 4 m] mem_copy_add [of d s 8 4 m] mem_copy_add [of d s 12 4 m]
  by (auto simp: add.commute)

lemma memcpy_blocks_eq:
  assumes "d \<le> s \<or> s + len \<le> d"
  shows "\<exists>k \<le> len. memcpy_blocks m d s len = (mem_copy m d s k, d + k, s + k, len - k)"
  using assms
proof (induction len arbitrary: m d s rule: less_induct)
  case (less len)
  show ?case
  proof (cases "16 \<le> len")
    case True
    with less.prems less.IH [of "len - 16" "d + 16" "s + 16" "mem_copy m d s 16"] obtain k where
      k: "k \<le> len - 16" "memcpy_blocks (mem_copy m d s 16) (d + 16) (s + 16) (len - 16) =
        (mem_copy (mem_copy m d s 16) (d + 16) (s + 16) k, d + 16 + k, s + 16 + k, len - 16 - k)"
      by auto
    have "mem_copy (mem_copy m d s 16) (d + 16) (s + 16) k = mem_copy m d s (16 + k)"
      using less.prems True k(1) by (intro mem_copy_add) linarith
    moreover have "d \<le> s \<or> s + 16 \<le> d" using less.prems True by linarith
    note mem_copy_16 [OF this, of m]
    ultimately show ?thesis
      using True k
      by (intro exI [of _ "16 + k"]) (simp add: memcpy_blocks.simps [of m d s] store_load_long Let_def)
  next
    case False
    then show ?thesis by (intro exI [of _ 0]) (simp add: memcpy_blocks.simps)
  qed
qed

lemma memcpy_longs_eq:
  assumes "d \<le> s \<or> s + len \<le> d"
  shows "\<exists>k \<le> len. memcpy_longs m d s len = (mem_copy m d s k, d + k, s + k, len - k)"
  using assms
proof (induction len arbitrary: m d s rule: less_induct)
  case (less len)
  show ?case
  proof (cases "4 \<le> len")
    case True
    with less.prems less.IH [of "len - 4" "d + 4" "s + 4" "mem_copy m d s 4"] obtain k where
      k: "k \<le> len - 4" "memcpy_longs (mem_copy m d s 4) (d + 4) (s + 4) (len - 4) =
        (mem_copy (mem_copy m d s 4) (d + 4) (s + 4) k, d + 4 + k, s + 4 + k, len - 4 - k)"
      by auto
    have "mem_copy (mem_copy m d s 4) (d + 4) (s + 4) k = mem_copy m d s (4 + k)"
      using less.prems True k(1) by (intro mem_copy_add) linarith
    then show ?thesis
      using True k
      by (intro exI [of _ "4 + k"]) (simp add: memcpy_longs.simps [of m d s] store_load_long)
  next
    case False
    then show ?thesis by (intro exI [of _ 0]) (simp add: memcpy_longs.simps)
  qed
qed

lemma rt_memcpy_eq:
  assumes "dst \<le> src \<or> src + count \<le> dst"
  shows "rt_memcpy m dst src count = mem_copy m dst src count"
proof -
  obtain k where k: "k \<le> count"
    "memcpy_blocks m dst src count = (mem_copy m dst src k, dst + k, src + k, count - k)"
    using memcpy_blocks_eq [OF assms, of m] by auto
  have "dst + k \<le> src + k \<or> src + k + (count - k) \<le> dst + k" using assms k by linarith
  from memcpy_longs_eq [OF this, of "mem_copy m dst src k"] obtain l where l: "l \<le> count - k"
    "memcpy_longs (mem_copy m dst src k) (dst + k) (src + k) (count - k) =
      (mem_copy (mem_copy m dst src k) (dst + k) (src + k) l, dst + k + l, src + k + l, count - k - l)"
    by auto
  have c1: "mem_copy (mem_copy m dst src k) (dst + k) (src + k) l = mem_copy m dst src (k + l)"
    using assms k(1) l(1) by (intro mem_copy_add) linarith
  have c2: "memcpy_bytes (mem_copy m dst src (k + l)) (dst + (k + l)) (src + (k + l)) (count - (k + l)) =
      mem_copy (mem_copy m dst src (k + l)) (dst + (k + l)) (src + (k + l)) (count - (k + l))"
    using assms k(1) l(1) by (intro memcpy_bytes_eq) linarith
  have c3: "mem_copy (mem_copy m dst src (k + l)) (dst + (k + l)) (src + (k + l)) (count - (k + l)) =
      mem_copy m dst src (k + l + (count - (k + l)))"
    using assms k(1) l(1) by (intro mem_copy_add) linarith
  show ?thesis
    using k l c1 c2 c3 memcpy_bytes_eq [OF assms]
    by (simp add: rt_memcpy_def add.assoc)
qed

lemma memmove_down_eq:
  assumes "s \<le> d"
  shows "memmove_down m (d + n) (s + n) n = mem_copy m d s n"
proof (induction n arbitrary: m)
  case (Suc n)
  have "memmove_down m (d + Suc n) (s + Suc n) (Suc n) =
      mem_copy (m(d + n := m (s + n))) d s n"
    using Suc.IH [of "m(d + n := m (s + n))"] by (simp del: fun_upd_apply)
  also have "\<dots> = mem_copy m d s (Suc n)"
    using assms by (auto simp: mem_copy_def fun_eq_iff less_Suc_eq)
  finally show ?case .
qed simp

lemma rt_memmove_eq: "rt_memmove m dest src n = mem_copy m dest src n"
  by (auto simp: rt_memmove_def memmove_down_eq intro!: memcpy_bytes_eq)

lemma mem_bytes_Suc: "mem_bytes m a (Suc n) = m a # mem_bytes m (Suc a) n"
  unfolding mem_bytes_def by (subst upt_conv_Cons) auto

lemma mem_bytes_0 [simp]: "mem_bytes m a 0 = []"
  by (simp add: mem_bytes_def)

section \<open>NUL-terminated strings\<close>

text \<open>\<open>cstr m a xs\<close>: the bytes from \<open>a\<close> on are the string \<open>xs\<close> with its terminator.\<close>

primrec cstr :: "mem \<Rightarrow> nat \<Rightarrow> u8 list \<Rightarrow> bool" where
  "cstr m a [] \<longleftrightarrow> m a = 0"
| "cstr m a (x # xs) \<longleftrightarrow> m a = x \<and> x \<noteq> 0 \<and> cstr m (Suc a) xs"

text \<open>The scan \<open>for (sc = s; *sc != '\0'; ++sc)\<close> has no bound: no result without a NUL.\<close>

partial_function (option) strlen_scan :: "mem \<Rightarrow> nat \<Rightarrow> nat option" where
  "strlen_scan m sc = (if m sc \<noteq> 0 then strlen_scan m (Suc sc) else Some sc)"

definition rt_strlen :: "mem \<Rightarrow> nat \<Rightarrow> nat option" where
  "rt_strlen m s = map_option (\<lambda>sc. sc - s) (strlen_scan m s)"

function strnlen_scan :: "mem \<Rightarrow> nat \<Rightarrow> nat \<Rightarrow> nat \<Rightarrow> nat" where
  "strnlen_scan m s maxlen sc =
     (if m sc \<noteq> 0 \<and> sc - s < maxlen then strnlen_scan m s maxlen (Suc sc) else sc)"
  by pat_completeness auto
termination by (relation "measure (\<lambda>(m, s, maxlen, sc). s + maxlen - sc)") auto

declare strnlen_scan.simps [simp del]

definition rt_strnlen :: "mem \<Rightarrow> nat \<Rightarrow> nat \<Rightarrow> nat" where
  "rt_strnlen m s maxlen = strnlen_scan m s maxlen s - s"

text \<open>\<open>l2 \<ge> 1\<close> at the only call, so \<open>l1 \<ge> l2\<close> fails when \<open>l1\<close> is 0.\<close>

fun strstr_loop :: "mem \<Rightarrow> nat \<Rightarrow> nat \<Rightarrow> nat \<Rightarrow> nat \<Rightarrow> nat option" where
  "strstr_loop m s1 s2 0 l2 = None"
| "strstr_loop m s1 s2 (Suc l1) l2 =
     (if Suc l1 \<ge> l2
      then if rt_memcmp m s1 s2 l2 = 0 then Some s1 else strstr_loop m (Suc s1) s2 l1 l2
      else None)"

text \<open>Outer \<open>None\<close>: a scan did not end; inner \<open>None\<close>: \<open>RT_NULL\<close>.\<close>

definition rt_strstr :: "mem \<Rightarrow> nat \<Rightarrow> nat \<Rightarrow> nat option option" where
  "rt_strstr m s1 s2 =
     (case rt_strlen m s2 of None \<Rightarrow> None
      | Some l2 \<Rightarrow>
          if l2 = 0 then Some (Some s1)
          else case rt_strlen m s1 of None \<Rightarrow> None
               | Some l1 \<Rightarrow> Some (strstr_loop m s1 s2 l1 l2))"

definition to_lower :: "u8 \<Rightarrow> int" where
  "to_lower c = (let ca = uint c in if ca \<ge> 65 \<and> ca \<le> 90 then ca + (97 - 65) else ca)"

partial_function (option) rt_strcasecmp :: "mem \<Rightarrow> nat \<Rightarrow> nat \<Rightarrow> u32 option" where
  "rt_strcasecmp m a b =
     (let ca = to_lower (m a); cb = to_lower (m b)
      in if ca = cb \<and> ca \<noteq> 0 then rt_strcasecmp m (Suc a) (Suc b)
         else Some (word_of_int (ca - cb)))"

text \<open>\<open>while (--n != 0) *d++ = 0\<close>, entered with the count already decremented.\<close>

fun strncpy_pad :: "mem \<Rightarrow> nat \<Rightarrow> nat \<Rightarrow> mem" where
  "strncpy_pad m d 0 = m"
| "strncpy_pad m d (Suc n) = strncpy_pad (m(d := 0)) (Suc d) n"

fun strncpy_loop :: "mem \<Rightarrow> nat \<Rightarrow> nat \<Rightarrow> nat \<Rightarrow> mem" where
  "strncpy_loop m d s 0 = m"
| "strncpy_loop m d s (Suc n) =
     (let c = m s; m' = m(d := c)
      in if c = 0 then strncpy_pad m' (Suc d) n else strncpy_loop m' (Suc d) (Suc s) n)"

definition rt_strncpy :: "mem \<Rightarrow> nat \<Rightarrow> nat \<Rightarrow> nat \<Rightarrow> mem" where
  "rt_strncpy m dst src n = (if n \<noteq> 0 then strncpy_loop m dst src n else m)"

text \<open>\<open>char\<close> is unsigned on the target; \<open>__res\<close> is a \<open>signed char\<close>, so the difference is cut
  to eight bits.\<close>

fun rt_strncmp :: "mem \<Rightarrow> nat \<Rightarrow> nat \<Rightarrow> nat \<Rightarrow> int" where
  "rt_strncmp m cs ct 0 = 0"
| "rt_strncmp m cs ct (Suc count) =
     (let res = sint (m cs - m ct)
      in if res \<noteq> 0 \<or> m cs = 0 then res
         else if count = 0 then res else rt_strncmp m (Suc cs) (Suc ct) count)"

partial_function (option) rt_strcmp :: "mem \<Rightarrow> nat \<Rightarrow> nat \<Rightarrow> int option" where
  "rt_strcmp m cs ct =
     (if m cs \<noteq> 0 \<and> m cs = m ct then rt_strcmp m (Suc cs) (Suc ct)
      else Some (uint (m cs) - uint (m ct)))"

section \<open>What the string services compute\<close>

lemma strlen_scan_cstr: "cstr m a xs \<Longrightarrow> strlen_scan m a = Some (a + length xs)"
  by (induction xs arbitrary: a) (auto simp: strlen_scan.simps)

lemma rt_strlen_cstr: "cstr m a xs \<Longrightarrow> rt_strlen m a = Some (length xs)"
  by (simp add: rt_strlen_def strlen_scan_cstr)

lemma strnlen_scan_eq:
  "s \<le> sc \<Longrightarrow> sc \<le> s + maxlen \<Longrightarrow>
     strnlen_scan m s maxlen sc =
     sc + length (takeWhile (\<lambda>c. c \<noteq> 0) (mem_bytes m sc (s + maxlen - sc)))"
proof (induction m s maxlen sc rule: strnlen_scan.induct)
  case (1 m s maxlen sc)
  show ?case
  proof (cases "m sc \<noteq> 0 \<and> sc - s < maxlen")
    case True
    with 1 have "s + maxlen - sc = Suc (s + maxlen - Suc sc)" by linarith
    with 1 True show ?thesis
      by (simp add: strnlen_scan.simps [of m s maxlen sc] mem_bytes_Suc)
  next
    case False
    with 1 show ?thesis
      by (cases "s + maxlen - sc") (auto simp: strnlen_scan.simps [of m s maxlen sc] mem_bytes_Suc)
  qed
qed

lemma rt_strnlen_eq: "rt_strnlen m s n = length (takeWhile (\<lambda>c. c \<noteq> 0) (mem_bytes m s n))"
  by (simp add: rt_strnlen_def strnlen_scan_eq)

lemma uint_eq_uint: "uint x = uint y \<longleftrightarrow> x = y" for x y :: u8
  by (metis word_uint_eqI)

lemma sint_eq_0: "sint w = 0 \<longleftrightarrow> w = 0" for w :: u8
  by (simp add: signed_eq_0_iff)

lemma rt_memcmp_eq_0: "rt_memcmp m a b n = 0 \<longleftrightarrow> mem_bytes m a n = mem_bytes m b n"
  by (induction m a b n rule: rt_memcmp.induct) (auto simp: mem_bytes_Suc Let_def uint_eq_uint)

lemma cstr_bytes: "cstr m a xs \<Longrightarrow> mem_bytes m a (length xs) = xs"
  by (induction xs arbitrary: a) (auto simp: mem_bytes_Suc)

lemma strstr_loop_Some:
  "strstr_loop m s1 s2 l1 l2 = Some p \<Longrightarrow>
     s1 \<le> p \<and> p + l2 \<le> s1 + l1 \<and> mem_bytes m p l2 = mem_bytes m s2 l2 \<and>
     (\<forall>q. s1 \<le> q \<longrightarrow> q < p \<longrightarrow> mem_bytes m q l2 \<noteq> mem_bytes m s2 l2)"
proof (induction m s1 s2 l1 l2 rule: strstr_loop.induct)
  case (2 m s1 s2 l1 l2)
  then show ?case
    by (auto simp: rt_memcmp_eq_0 split: if_splits) (metis Suc_leI le_neq_implies_less)
qed simp

lemma strstr_loop_None:
  "0 < l2 \<Longrightarrow> strstr_loop m s1 s2 l1 l2 = None \<Longrightarrow> s1 \<le> q \<Longrightarrow> q + l2 \<le> s1 + l1 \<Longrightarrow>
     mem_bytes m q l2 \<noteq> mem_bytes m s2 l2"
proof (induction m s1 s2 l1 l2 rule: strstr_loop.induct)
  case (2 m s1 s2 l1 l2)
  then show ?case
    by (cases "q = s1") (auto simp: rt_memcmp_eq_0 split: if_splits)
qed simp

lemma strncpy_pad_eq: "strncpy_pad m d n = mem_set m d 0 n"
proof (induction m d n rule: strncpy_pad.induct)
  case (2 m d n)
  have "m(d := 0) = mem_set m d 0 1" by (auto simp: mem_set_def)
  with 2 show ?case using mem_set_add [of m d 0 1 n] by simp
qed simp

lemma rt_strncmp_eq_0:
  "rt_strncmp m a b n = 0 \<longleftrightarrow>
     takeWhile (\<lambda>c. c \<noteq> 0) (mem_bytes m a n) = takeWhile (\<lambda>c. c \<noteq> 0) (mem_bytes m b n)"
  by (induction m a b n rule: rt_strncmp.induct) (auto simp: mem_bytes_Suc Let_def sint_eq_0)

lemma mem_bytes_cong: "(\<And>i. a \<le> i \<Longrightarrow> i < a + n \<Longrightarrow> m i = m' i) \<Longrightarrow> mem_bytes m a n = mem_bytes m' a n"
  by (simp add: mem_bytes_def)

lemma strncpy_loop_eq:
  "d + n \<le> s \<or> s + n \<le> d \<Longrightarrow>
     strncpy_loop m d s n =
     (let k = length (takeWhile (\<lambda>c. c \<noteq> 0) (mem_bytes m s n))
      in mem_set (mem_copy m d s k) (d + k) 0 (n - k))"
proof (induction m d s n rule: strncpy_loop.induct)
  case (2 m d s n)
  have up: "m(d := m s) = mem_copy m d s 1" by (auto simp: mem_copy_def fun_eq_iff)
  show ?case
  proof (cases "m s = 0")
    case True
    then have "m(d := m s) = mem_set m d 0 1" by (auto simp: mem_set_def fun_eq_iff)
    with True show ?thesis
      using mem_set_add [of m d 0 1 n] by (simp add: strncpy_pad_eq mem_bytes_Suc)
  next
    case False
    let ?k = "length (takeWhile (\<lambda>c. c \<noteq> 0) (mem_bytes m (Suc s) n))"
    have "mem_bytes (m(d := m s)) (Suc s) n = mem_bytes m (Suc s) n"
      using 2(2) by (intro mem_bytes_cong) auto
    moreover have "Suc d + n \<le> Suc s \<or> Suc s + n \<le> Suc d" using 2(2) by linarith
    moreover have "?k \<le> n"
      using length_takeWhile_le [of "\<lambda>c. c \<noteq> 0" "mem_bytes m (Suc s) n"] by simp
    then have "mem_copy (mem_copy m d s 1) (d + 1) (s + 1) ?k = mem_copy m d s (1 + ?k)"
      using 2(2) by (intro mem_copy_add) linarith
    ultimately show ?thesis
      using False 2(1) [OF refl refl False] by (simp add: up Let_def mem_bytes_Suc)
  qed
qed simp

lemma rt_strcmp_lex:
  "cstr m a xs \<Longrightarrow> cstr m b ys \<Longrightarrow>
     \<exists>r. rt_strcmp m a b = Some r \<and> (r < 0 \<longleftrightarrow> ord_class.lexordp xs ys) \<and> (r = 0 \<longleftrightarrow> xs = ys)"
proof (induction xs arbitrary: a b ys)
  case Nil
  then show ?case
    by (cases ys) (auto simp: rt_strcmp.simps [of m a b] unsigned_eq_0_iff order.strict_iff_order)
next
  case (Cons x xs)
  show ?case
  proof (cases ys)
    case Nil
    with Cons.prems show ?thesis by (auto simp: rt_strcmp.simps [of m a b] unsigned_eq_0_iff)
  next
    case (Cons y zs)
    with Cons.prems Cons.IH [of "Suc a" "Suc b" zs] uint_eq_uint [of "m a" "m b"] show ?thesis
      by (cases "m a = m b") (auto simp: rt_strcmp.simps [of m a b] word_less_def)
  qed
qed

section \<open>Properties\<close>

text \<open>
  \<open>rt_memset\<close> writes the low byte of \<open>c\<close> to exactly the \<open>count\<close> bytes from \<open>s\<close> on
  and nothing else, whatever the alignment and however the count splits into the four-long
  blocks, the single longs and the byte tail.
\<close>

theorem rt_memset_correct:
  "rt_memset m s c count = (\<lambda>a. if s \<le> a \<and> a < s + count then ucast c else m a)"
  by (simp add: rt_memset_eq mem_set_def)

text \<open>
  \<open>rt_memcpy\<close> copies \<open>count\<close> bytes exactly when the destination starts at or below
  the source or the regions do not overlap upwards; the long-wise path and the byte-wise path
  agree there.
\<close>

theorem rt_memcpy_correct:
  assumes "dst \<le> src \<or> src + count \<le> dst"
  shows "rt_memcpy m dst src count =
    (\<lambda>a. if dst \<le> a \<and> a < dst + count then m (src + (a - dst)) else m a)"
  using rt_memcpy_eq [OF assms] by (simp add: mem_copy_def)

theorem rt_memcpy_correct_witness:
  "rt_memcpy (\<lambda>a. of_nat a) 100 200 23 122 = (222 :: u8) \<and>
   rt_memcpy (\<lambda>a. of_nat a) 100 200 23 123 = (123 :: u8)"
  using rt_memcpy_correct [of 100 200 23 "\<lambda>a. of_nat a"] by simp

text \<open>
  \<open>rt_memmove\<close> copies \<open>n\<close> bytes for every overlap of source and destination: the
  destination ends up with what the source held before the call.
\<close>

theorem rt_memmove_correct:
  "mem_bytes (rt_memmove m dest src n) dest n = mem_bytes m src n \<and>
   (\<forall>a. a < dest \<or> dest + n \<le> a \<longrightarrow> rt_memmove m dest src n a = m a)"
  by (auto simp: rt_memmove_eq mem_copy_def intro!: nth_equalityI)

theorem rt_memmove_correct_witness:
  "mem_bytes (rt_memmove (\<lambda>a. of_nat a) 12 10 5) 12 5 = [10, 11, 12, 13, 14] \<and>
   rt_memmove (\<lambda>a. of_nat a) 12 10 5 17 = 17"
  using rt_memmove_correct [of "\<lambda>a. of_nat a" 12 10 5]
  by (simp add: mem_bytes_def upt_rec)

text \<open>
  On disjoint regions \<open>rt_strncpy\<close> copies the source string up to its NUL and pads
  with NULs to \<open>n\<close> bytes; the destination holds a terminator exactly when the source string
  is shorter than \<open>n\<close>.
\<close>

theorem rt_strncpy_correct:
  assumes "dst + n \<le> src \<or> src + n \<le> dst"
  shows "rt_strncpy m dst src n =
      (\<lambda>a. if dst \<le> a \<and> a < dst + n
           then if a - dst < rt_strnlen m src n then m (src + (a - dst)) else 0
           else m a) \<and>
    ((\<exists>i < n. rt_strncpy m dst src n (dst + i) = 0) \<longleftrightarrow> rt_strnlen m src n < n)"
proof -
  let ?k = "rt_strnlen m src n"
  have k: "?k \<le> n"
    using length_takeWhile_le [of "\<lambda>c. c \<noteq> 0" "mem_bytes m src n"] by (simp add: rt_strnlen_eq)
  have nz: "m (src + i) \<noteq> 0" if "i < ?k" for i
    using that k set_takeWhileD [of "mem_bytes m src n ! i" "\<lambda>c. c \<noteq> 0" "mem_bytes m src n"]
    by (metis (no_types, lifting) nth_mem_bytes nth_mem order_less_le_trans rt_strnlen_eq takeWhile_nth)
  have eq: "rt_strncpy m dst src n = mem_set (mem_copy m dst src ?k) (dst + ?k) 0 (n - ?k)"
    using strncpy_loop_eq [OF assms, of m] by (simp add: rt_strncpy_def rt_strnlen_eq Let_def)
  have f: "rt_strncpy m dst src n =
      (\<lambda>a. if dst \<le> a \<and> a < dst + n then if a - dst < ?k then m (src + (a - dst)) else 0 else m a)"
    unfolding eq using k by (auto simp: mem_set_def mem_copy_def fun_eq_iff)
  have "(\<exists>i < n. rt_strncpy m dst src n (dst + i) = 0) \<longleftrightarrow> ?k < n"
    unfolding f using nz k by (auto intro: exI [of _ ?k])
  with f show ?thesis by simp
qed

theorem rt_strncpy_correct_witness:
  "rt_strncpy ((\<lambda>_. 7)(40 := 104, 41 := 105, 42 := 0)) 10 40 5 14 = 0"
  using rt_strncpy_correct [of 10 5 40 "(\<lambda>_. 7)(40 := 104, 41 := 105, 42 := 0)"]
  by (simp add: rt_strnlen_eq mem_bytes_def upt_rec)

text \<open>
  On two terminated strings \<open>rt_strcmp\<close> returns, and its sign is the lexicographic
  order of the unsigned bytes, zero exactly for equal strings.
\<close>

theorem rt_strcmp_order:
  assumes "cstr m a xs" and "cstr m b ys"
  shows "\<exists>r. rt_strcmp m a b = Some r \<and> (r < 0 \<longleftrightarrow> ord_class.lexordp xs ys) \<and> (r = 0 \<longleftrightarrow> xs = ys)"
  using rt_strcmp_lex [OF assms] .

theorem rt_strcmp_order_witness:
  "\<exists>r < 0. rt_strcmp ((\<lambda>_. 0)(0 := 97, 1 := 98, 10 := 97, 11 := 99)) 0 10 = Some r"
  using rt_strcmp_order [of "(\<lambda>_. 0)(0 := 97, 1 := 98, 10 := 97, 11 := 99)" 0 "[97, 98]" 10 "[97, 99]"]
  by auto

text \<open>
  On two terminated strings \<open>rt_strstr\<close> returns the address of the first occurrence
  of the second string inside the first, and null exactly when there is none.
\<close>

theorem rt_strstr_first:
  assumes "cstr m s1 xs" and "cstr m s2 ys"
  shows "\<exists>r. rt_strstr m s1 s2 = Some r \<and>
    (case r of
       None \<Rightarrow> \<forall>q. s1 \<le> q \<longrightarrow> q + length ys \<le> s1 + length xs \<longrightarrow> mem_bytes m q (length ys) \<noteq> ys
     | Some p \<Rightarrow> s1 \<le> p \<and> p + length ys \<le> s1 + length xs \<and> mem_bytes m p (length ys) = ys \<and>
         (\<forall>q. s1 \<le> q \<longrightarrow> q < p \<longrightarrow> mem_bytes m q (length ys) \<noteq> ys))"
proof (cases "ys = []")
  case True
  with rt_strlen_cstr [OF assms(2)] show ?thesis by (simp add: rt_strstr_def)
next
  case False
  let ?r = "strstr_loop m s1 s2 (length xs) (length ys)"
  have "rt_strstr m s1 s2 = Some ?r"
    using False assms by (simp add: rt_strstr_def rt_strlen_cstr)
  then show ?thesis
    using False strstr_loop_Some [of m s1 s2 "length xs" "length ys"]
      strstr_loop_None [of "length ys" m s1 s2 "length xs"] cstr_bytes [OF assms(2)]
    by (cases ?r) auto
qed

theorem rt_strstr_first_witness:
  "rt_strstr ((\<lambda>_. 0)(1 := 97, 2 := 98, 3 := 98, 10 := 98)) 1 10 = Some (Some 2)"
proof -
  let ?m = "(\<lambda>_. 0 :: u8)(1 := 97, 2 := 98, 3 := 98, 10 := 98)"
  obtain r where r: "rt_strstr ?m 1 10 = Some r"
    "(case r of
       None \<Rightarrow> \<forall>q. 1 \<le> q \<longrightarrow> q + length [98 :: u8] \<le> 1 + length [97, 98, 98 :: u8] \<longrightarrow>
         mem_bytes ?m q (length [98 :: u8]) \<noteq> [98]
     | Some p \<Rightarrow> 1 \<le> p \<and> p + length [98 :: u8] \<le> 1 + length [97, 98, 98 :: u8] \<and>
         mem_bytes ?m p (length [98 :: u8]) = [98] \<and>
         (\<forall>q. 1 \<le> q \<longrightarrow> q < p \<longrightarrow> mem_bytes ?m q (length [98 :: u8]) \<noteq> [98]))"
    using rt_strstr_first [of ?m 1 "[97, 98, 98]" 10 "[98]"] by auto
  then obtain p where p: "r = Some p" "1 \<le> p" "p \<le> 3" "?m p = 98"
      "\<forall>q. 1 \<le> q \<longrightarrow> q < p \<longrightarrow> ?m q \<noteq> 98"
    by (cases r) (auto simp: mem_bytes_def dest: spec [of _ 2])
  then have "p = 2" by (cases "p = 1"; cases "p = 3") (auto dest!: spec [of _ 2])
  with r p show ?thesis by simp
qed

end
