(* ===== verification/C_Buffers.thy ===== *)
theory C_Buffers
  imports Rt_Kservice
begin

text \<open>
  Character buffers and byte images, as the application components use them: C string
  functions on a \<open>char\<close> array held as a byte list, \<open>atoi\<close>, the \<open>%08X\<close> conversion, and
  little-endian images of 16- and 32-bit fields. Lemma \<open>strncpy_into_memory\<close> ties
  \<open>strncpy_into\<close> to the kernel routine on memory.
\<close>

section \<open>Strings in arrays\<close>

text \<open>A C string is given without its terminator; \<open>c_string\<close> says that it contains none.\<close>

definition c_bytes :: "string \<Rightarrow> u8 list" where
  "c_bytes s = map (\<lambda>c. word_of_nat (of_char c)) s"

lemma length_c_bytes [simp]: "length (c_bytes s) = length s"
  by (simp add: c_bytes_def)

definition c_string :: "u8 list \<Rightarrow> bool" where
  "c_string s \<longleftrightarrow> 0 \<notin> set s"

text \<open>What a reader of the array sees: up to the first NUL. Without one the reader runs past
  the end of the array, which \<open>terminated\<close> excludes.\<close>

definition buf_string :: "u8 list \<Rightarrow> u8 list" where
  "buf_string buf = takeWhile (\<lambda>c. c \<noteq> 0) buf"

definition terminated :: "u8 list \<Rightarrow> bool" where
  "terminated buf \<longleftrightarrow> 0 \<in> set buf"

definition strncpy_into :: "u8 list \<Rightarrow> u8 list \<Rightarrow> nat \<Rightarrow> u8 list" where
  "strncpy_into buf s n = take n s @ replicate (n - length s) 0 @ drop n buf"

definition strcpy_into :: "u8 list \<Rightarrow> u8 list \<Rightarrow> u8 list" where
  "strcpy_into buf s = s @ [0] @ drop (length s + 1) buf"

definition memset_buf :: "u8 list \<Rightarrow> u8 \<Rightarrow> nat \<Rightarrow> u8 list" where
  "memset_buf buf c n = replicate n c @ drop n buf"

lemma length_strncpy_into [simp]: "n \<le> length buf \<Longrightarrow> length (strncpy_into buf s n) = length buf"
  by (simp add: strncpy_into_def min_def)

lemma length_memset_buf [simp]: "n \<le> length buf \<Longrightarrow> length (memset_buf buf c n) = length buf"
  by (simp add: memset_buf_def)

lemma length_strcpy_into [simp]: "length s < length buf \<Longrightarrow> length (strcpy_into buf s) = length buf"
  by (simp add: strcpy_into_def)

lemma takeWhile_no_zero: "c_string s \<Longrightarrow> takeWhile (\<lambda>c. c \<noteq> 0) s = s"
  by (auto simp: c_string_def takeWhile_eq_all_conv)

lemma buf_string_append: "c_string s \<Longrightarrow> buf_string (s @ 0 # r) = s"
  unfolding buf_string_def c_string_def by (induction s) auto

lemma c_string_take: "c_string s \<Longrightarrow> c_string (take n s)"
  by (auto simp: c_string_def dest: in_set_takeD)

lemma buf_string_strcpy: "c_string s \<Longrightarrow> buf_string (strcpy_into buf s) = s"
  by (simp add: strcpy_into_def buf_string_append)

text \<open>Into an array of exactly \<open>n\<close> bytes: the first \<open>n\<close> characters arrive, and the terminator
  does exactly when the string is shorter.\<close>

lemma buf_string_strncpy:
  assumes "c_string s" and "length buf = n"
  shows "buf_string (strncpy_into buf s n) = take n s"
proof (cases "length s < n")
  case True
  then obtain k where "n - length s = Suc k" by (metis Suc_diff_Suc)
  with True assms show ?thesis
    using buf_string_append [OF assms(1), of "replicate k 0"] by (simp add: strncpy_into_def)
next
  case False
  with assms takeWhile_no_zero [OF c_string_take [OF assms(1), of n]] show ?thesis
    by (simp add: strncpy_into_def buf_string_def)
qed

lemma terminated_strncpy:
  assumes "c_string s" and "length buf = n"
  shows "terminated (strncpy_into buf s n) \<longleftrightarrow> length s < n"
  using assms c_string_take [OF assms(1), of n]
  by (auto simp: terminated_def strncpy_into_def c_string_def)

lemma cstr_c_string: "cstr m a xs \<Longrightarrow> c_string xs"
  by (induction xs arbitrary: a) (auto simp: c_string_def)

lemma cstr_mem_bytes: "cstr m a xs \<Longrightarrow> n \<le> length xs \<Longrightarrow> mem_bytes m a n = take n xs"
proof (induction n arbitrary: a xs)
  case (Suc n)
  then show ?case by (cases xs) (auto simp: mem_bytes_Suc)
qed simp

lemma strnlen_cstr:
  assumes "cstr m a xs"
  shows "rt_strnlen m a n = min n (length xs)"
  using assms
proof (induction n arbitrary: a xs)
  case 0
  then show ?case by (simp add: rt_strnlen_eq)
next
  case (Suc n)
  then show ?case
    by (cases xs) (auto simp: rt_strnlen_eq mem_bytes_Suc)
qed

text \<open>The kernel's \<open>rt_strncpy\<close> leaves in the destination what \<open>strncpy_into\<close> says.\<close>

lemma strncpy_into_memory:
  assumes src: "cstr m src s" and dis: "dst + n \<le> src \<or> src + n \<le> dst"
  shows "mem_bytes (rt_strncpy m dst src n) dst n = strncpy_into (mem_bytes m dst n) s n"
proof (rule nth_equalityI)
  have len: "length (strncpy_into (mem_bytes m dst n) s n) = n" by simp
  then show "length (mem_bytes (rt_strncpy m dst src n) dst n) =
      length (strncpy_into (mem_bytes m dst n) s n)" by simp
  fix i assume "i < length (mem_bytes (rt_strncpy m dst src n) dst n)"
  then have i: "i < n" by simp
  have eq: "rt_strncpy m dst src n (dst + i) = (if i < length s then m (src + i) else 0)"
    using i strncpy_loop_eq [OF dis, of m] strnlen_cstr [OF src, of n]
    by (simp add: rt_strncpy_def rt_strnlen_eq Let_def mem_set_def mem_copy_def min_def)
  have "i < length s \<Longrightarrow> m (src + i) = s ! i"
    using cstr_mem_bytes [OF src order_refl] nth_mem_bytes [of i "length s" m src] by simp
  with eq i show "mem_bytes (rt_strncpy m dst src n) dst n ! i = strncpy_into (mem_bytes m dst n) s n ! i"
    by (auto simp: strncpy_into_def nth_append)
qed

section \<open>Numbers in text\<close>

text \<open>\<open>atoi\<close>: white space, a sign, then decimal digits up to the first other character.\<close>

definition is_digit :: "u8 \<Rightarrow> bool" where
  "is_digit c \<longleftrightarrow> 48 \<le> c \<and> c \<le> 57"

definition is_blank :: "u8 \<Rightarrow> bool" where
  "is_blank c \<longleftrightarrow> c = 32 \<or> (9 \<le> c \<and> c \<le> 13)"

fun digits_value :: "int \<Rightarrow> u8 list \<Rightarrow> int" where
  "digits_value acc [] = acc"
| "digits_value acc (c # cs) =
     (if is_digit c then digits_value (acc * 10 + (uint c - 48)) cs else acc)"

definition atoi :: "u8 list \<Rightarrow> int" where
  "atoi s = (case dropWhile is_blank s of
       [] \<Rightarrow> 0
     | c # cs \<Rightarrow>
         if c = 45 then - digits_value 0 cs
         else if c = 43 then digits_value 0 cs
         else digits_value 0 (c # cs))"

definition hex_digit :: "nat \<Rightarrow> u8" where
  "hex_digit n = (if n < 10 then 48 + of_nat n else 65 + of_nat (n - 10))"

text \<open>\<open>%08X\<close>: eight upper-case hexadecimal digits, most significant first.\<close>

definition hex8 :: "u32 \<Rightarrow> u8 list" where
  "hex8 w = map (\<lambda>i. hex_digit (unat w div 16 ^ i mod 16)) [7, 6, 5, 4, 3, 2, 1, 0]"

lemma length_hex8 [simp]: "length (hex8 w) = 8"
  by (simp add: hex8_def)

text \<open>\<open>snprintf\<close> of an already formatted text into a buffer of \<open>n\<close> bytes.\<close>

definition snprintf_into :: "u8 list \<Rightarrow> nat \<Rightarrow> u8 list \<Rightarrow> u8 list" where
  "snprintf_into buf n s = strcpy_into buf (take (n - 1) s)"

section \<open>Little-endian images\<close>

definition le16 :: "u16 \<Rightarrow> u8 list" where
  "le16 w = [ucast w, ucast (drop_bit 8 w)]"

definition le32 :: "u32 \<Rightarrow> u8 list" where
  "le32 w = [ucast w, ucast (drop_bit 8 w), ucast (drop_bit 16 w), ucast (drop_bit 24 w)]"

definition of_le16 :: "u8 list \<Rightarrow> u16" where
  "of_le16 bs = ucast (bs ! 0) OR push_bit 8 (ucast (bs ! 1))"

definition of_le32 :: "u8 list \<Rightarrow> u32" where
  "of_le32 bs = ucast (bs ! 0) OR push_bit 8 (ucast (bs ! 1))
     OR push_bit 16 (ucast (bs ! 2)) OR push_bit 24 (ucast (bs ! 3))"

lemma length_le16 [simp]: "length (le16 w) = 2"
  by (simp add: le16_def)

lemma length_le32 [simp]: "length (le32 w) = 4"
  by (simp add: le32_def)

lemma of_le16_le16 [simp]: "of_le16 (le16 w) = w"
  by (rule bit_eqI) (auto simp: of_le16_def le16_def bit_simps)

lemma of_le32_le32 [simp]: "of_le32 (le32 w) = w"
proof (rule bit_eqI)
  fix n assume "possible_bit TYPE(32 word) n"
  then have n: "n < 32" by simp
  consider "n < 8" | "8 \<le> n" "n < 16" | "16 \<le> n" "n < 24" | "24 \<le> n" by linarith
  then show "bit (of_le32 (le32 w)) n = bit w n"
    by cases (use n in \<open>auto simp: of_le32_def le32_def bit_simps\<close>)
qed

lemma le16_of_le16: "length bs = 2 \<Longrightarrow> le16 (of_le16 bs) = bs"
  by (auto simp: length_2_conv of_le16_def le16_def bit_simps intro!: bit_eqI)

lemma le32_of_le32:
  assumes "length bs = 4"
  shows "le32 (of_le32 bs) = bs"
proof -
  obtain a b c d where bs: "bs = [a, b, c, d]"
    using assms by (auto simp: numeral_eq_Suc length_Suc_conv)
  show ?thesis
    unfolding bs by (auto simp: of_le32_def le32_def bit_simps intro!: bit_eqI)
qed

end
