(* ===== verification/Hal.thy ===== *)
theory Hal
  imports C_Buffers
begin

text \<open>
  The hardware helpers (\<open>applications/hal.c\<close>, \<open>hal.h\<close>): reading the unique device number and
  restarting the application from its vector table. The address space is the byte memory of
  the kernel services.
\<close>

definition STM32_UNIQUE_ID_SIZE :: nat where "STM32_UNIQUE_ID_SIZE = 12"

definition UID_BASE :: nat where "UID_BASE = 0x1FFF7A10"

text \<open>The copy loop: \<open>addr\<close> walks with the index.\<close>

fun read_uniqueid_loop :: "mem \<Rightarrow> nat \<Rightarrow> nat \<Rightarrow> u8 list" where
  "read_uniqueid_loop m addr 0 = []"
| "read_uniqueid_loop m addr (Suc n) = m addr # read_uniqueid_loop m (Suc addr) n"

definition hal_read_uniqueid :: "mem \<Rightarrow> u8 list" where
  "hal_read_uniqueid m = read_uniqueid_loop m UID_BASE STM32_UNIQUE_ID_SIZE"

text \<open>The stack pointer and the entry point taken from the vector table at \<open>0x08010000\<close>.\<close>

definition hal_app_reset :: "mem \<Rightarrow> u32 \<times> u32" where
  "hal_app_reset m = (load_long m 0x08010000, load_long m (0x08010000 + 4))"

lemma read_uniqueid_loop_eq: "read_uniqueid_loop m a n = mem_bytes m a n"
  by (induction m a n rule: read_uniqueid_loop.induct) (simp_all add: mem_bytes_Suc)

lemma hal_read_uniqueid_eq: "hal_read_uniqueid m = mem_bytes m UID_BASE 12"
  by (simp add: hal_read_uniqueid_def read_uniqueid_loop_eq STM32_UNIQUE_ID_SIZE_def)

end
