(* ===== verification/Rt_Ipc.thy ===== *)
theory Rt_Ipc
  imports Fw_Prelude
begin

text \<open>
  Semaphores of the kernel (\<open>rt-thread/src/ipc.c\<close>): the list of suspended threads, taking,
  releasing, resetting and deleting, and the timeout of a waiting thread
  (\<open>rt_thread_timeout\<close> of \<open>thread.c\<close>). Each operation runs with interrupts disabled, so it is
  one step. \<open>rt_sem_take\<close> is split at \<open>rt_schedule\<close>: the step that suspends the caller and
  \<open>rt_sem_take_return\<close>, which the thread runs once it is resumed. The theory shows that a
  positive value and waiting threads exclude each other, that permits are conserved, and in
  which order waiters are woken.
\<close>

section \<open>Threads and semaphores\<close>

definition RT_EOK :: int where "RT_EOK = 0"
definition RT_ERROR :: int where "RT_ERROR = 1"
definition RT_ETIMEOUT :: int where "RT_ETIMEOUT = 2"
definition RT_IPC_FLAG_FIFO :: u8 where "RT_IPC_FLAG_FIFO = 0"
definition RT_IPC_FLAG_PRIO :: u8 where "RT_IPC_FLAG_PRIO = 1"
definition RT_IPC_CMD_RESET :: int where "RT_IPC_CMD_RESET = 1"
definition RT_WAITING_FOREVER :: int where "RT_WAITING_FOREVER = -1"

lemmas rt_codes = RT_EOK_def RT_ERROR_def RT_ETIMEOUT_def RT_IPC_FLAG_FIFO_def
  RT_IPC_FLAG_PRIO_def RT_IPC_CMD_RESET_def RT_WAITING_FOREVER_def

record rt_thread =
  thread_id :: nat
  current_priority :: u8
  thread_error :: int

record rt_semaphore =
  suspend_thread :: "rt_thread list"
  sem_flag :: u8
  sem_value :: u16

section \<open>The suspend list\<close>

text \<open>The priority search: before the first thread with a strictly larger priority number.\<close>

fun insert_prio :: "'a rt_thread_scheme \<Rightarrow> 'a rt_thread_scheme list \<Rightarrow> 'a rt_thread_scheme list" where
  "insert_prio thread [] = [thread]"
| "insert_prio thread (sthread # rest) =
     (if current_priority thread < current_priority sthread then thread # sthread # rest
      else sthread # insert_prio thread rest)"

definition rt_ipc_list_suspend :: "'a rt_thread_scheme list \<Rightarrow> 'a rt_thread_scheme \<Rightarrow> u8 \<Rightarrow> 'a rt_thread_scheme list" where
  "rt_ipc_list_suspend xs thread flag =
     (if flag = RT_IPC_FLAG_FIFO then xs @ [thread]
      else if flag = RT_IPC_FLAG_PRIO then insert_prio thread xs
      else xs)"

text \<open>Called on a nonempty list: the thread made ready and the remaining list.\<close>

definition rt_ipc_list_resume :: "'a rt_thread_scheme list \<Rightarrow> 'a rt_thread_scheme list \<times> 'a rt_thread_scheme" where
  "rt_ipc_list_resume xs = (tl xs, hd xs)"

text \<open>The threads made ready, in order, each with error \<open>-RT_ERROR\<close>; the list ends empty.\<close>

fun rt_ipc_list_resume_all :: "'a rt_thread_scheme list \<Rightarrow> 'a rt_thread_scheme list \<times> 'a rt_thread_scheme list" where
  "rt_ipc_list_resume_all [] = ([], [])"
| "rt_ipc_list_resume_all (thread # rest) =
     (let (xs, ready) = rt_ipc_list_resume_all rest
      in (xs, thread\<lparr>thread_error := - RT_ERROR\<rparr> # ready))"

section \<open>Semaphore operations\<close>

text \<open>The assertion \<open>value < 0x10000\<close> is the type of \<open>v\<close>.\<close>

definition rt_sem_init :: "u16 \<Rightarrow> u8 \<Rightarrow> rt_semaphore" where
  "rt_sem_init v flag = \<lparr>suspend_thread = [], sem_flag = flag, sem_value = v\<rparr>"

text \<open>\<open>rt_object_allocate\<close> may fail: \<open>allocated\<close> says whether it did not.\<close>

definition rt_sem_create :: "bool \<Rightarrow> u16 \<Rightarrow> u8 \<Rightarrow> rt_semaphore option" where
  "rt_sem_create allocated v flag = (if allocated then Some (rt_sem_init v flag) else None)"

datatype take_result =
    Take_return int                        \<comment> \<open>returns this code at once\<close>
  | Take_suspended "int option"            \<comment> \<open>suspended, with the timer started if waiting is bounded\<close>

definition rt_sem_take :: "rt_semaphore \<Rightarrow> int \<Rightarrow> rt_thread \<Rightarrow> rt_semaphore \<times> take_result" where
  "rt_sem_take sem time self =
     (if sem_value sem > 0 then (sem\<lparr>sem_value := sem_value sem - 1\<rparr>, Take_return RT_EOK)
      else if time = 0 then (sem, Take_return (- RT_ETIMEOUT))
      else let thread = self\<lparr>thread_error := RT_EOK\<rparr>
        in (sem\<lparr>suspend_thread := rt_ipc_list_suspend (suspend_thread sem) thread (sem_flag sem)\<rparr>,
            Take_suspended (if time > 0 then Some time else None)))"

definition rt_sem_take_return :: "rt_thread \<Rightarrow> int" where
  "rt_sem_take_return thread =
     (if thread_error thread \<noteq> RT_EOK then thread_error thread else RT_EOK)"

definition rt_sem_trytake :: "rt_semaphore \<Rightarrow> rt_thread \<Rightarrow> rt_semaphore \<times> take_result" where
  "rt_sem_trytake sem self = rt_sem_take sem 0 self"

text \<open>The second result is the thread resumed, if any (\<open>need_schedule\<close>).\<close>

definition rt_sem_release :: "rt_semaphore \<Rightarrow> rt_semaphore \<times> rt_thread option" where
  "rt_sem_release sem =
     (if suspend_thread sem \<noteq> []
      then let (xs, thread) = rt_ipc_list_resume (suspend_thread sem)
        in (sem\<lparr>suspend_thread := xs\<rparr>, Some thread)
      else (sem\<lparr>sem_value := sem_value sem + 1\<rparr>, None))"

definition rt_sem_control :: "rt_semaphore \<Rightarrow> int \<Rightarrow> u32 \<Rightarrow> rt_semaphore \<times> rt_thread list \<times> int" where
  "rt_sem_control sem cmd arg =
     (if cmd = RT_IPC_CMD_RESET
      then let (xs, ready) = rt_ipc_list_resume_all (suspend_thread sem)
        in (sem\<lparr>suspend_thread := xs, sem_value := ucast arg\<rparr>, ready, RT_EOK)
      else (sem, [], - RT_ERROR))"

text \<open>The object is gone afterwards: only the resumed threads remain.\<close>

definition rt_sem_delete :: "rt_semaphore \<Rightarrow> rt_thread list \<times> int" where
  "rt_sem_delete sem = (snd (rt_ipc_list_resume_all (suspend_thread sem)), RT_EOK)"

definition rt_sem_detach :: "rt_semaphore \<Rightarrow> rt_thread list \<times> int" where
  "rt_sem_detach sem = (snd (rt_ipc_list_resume_all (suspend_thread sem)), RT_EOK)"

text \<open>The timer of a waiting thread: \<open>rt_thread_timeout\<close> unlinks it with \<open>-RT_ETIMEOUT\<close>.\<close>

definition rt_thread_timeout :: "rt_semaphore \<Rightarrow> rt_thread \<Rightarrow> rt_semaphore \<times> rt_thread" where
  "rt_thread_timeout sem thread =
     (sem\<lparr>suspend_thread := remove1 thread (suspend_thread sem)\<rparr>,
      thread\<lparr>thread_error := - RT_ETIMEOUT\<rparr>)"

section \<open>Steps\<close>

text \<open>An event is an operation with what it granted: \<open>granted\<close> permits given to a caller or to
  a waiter, \<open>released\<close> permits put back.\<close>

datatype sem_event = Ev_take | Ev_fail | Ev_wait | Ev_release | Ev_handover | Ev_timeout

inductive sem_step :: "rt_semaphore \<Rightarrow> sem_event \<Rightarrow> rt_semaphore \<Rightarrow> bool" where
  take: "rt_sem_take s t thr = (s', Take_return RT_EOK) \<Longrightarrow> sem_step s Ev_take s'"
| fail: "rt_sem_take s t thr = (s', Take_return (- RT_ETIMEOUT)) \<Longrightarrow> sem_step s Ev_fail s'"
| wait: "rt_sem_take s t thr = (s', Take_suspended tm) \<Longrightarrow> sem_step s Ev_wait s'"
| release: "rt_sem_release s = (s', None) \<Longrightarrow> sem_step s Ev_release s'"
| handover: "rt_sem_release s = (s', Some thr) \<Longrightarrow> sem_step s Ev_handover s'"
| timeout: "thr \<in> set (suspend_thread s) \<Longrightarrow> rt_thread_timeout s thr = (s', thr') \<Longrightarrow>
    sem_step s Ev_timeout s'"

inductive_cases sem_stepE: "sem_step s e s'"

inductive sem_trace :: "rt_semaphore \<Rightarrow> sem_event list \<Rightarrow> rt_semaphore \<Rightarrow> bool" where
  trace_Nil: "sem_trace s [] s"
| trace_snoc: "sem_trace s es s' \<Longrightarrow> sem_step s' e s'' \<Longrightarrow> sem_trace s (es @ [e]) s''"

definition count_ev :: "sem_event \<Rightarrow> sem_event list \<Rightarrow> nat" where
  "count_ev e es = length (filter (\<lambda>x. x = e) es)"

definition sem_inv :: "rt_semaphore \<Rightarrow> bool" where
  "sem_inv s \<longleftrightarrow> sem_value s = 0 \<or> suspend_thread s = []"

definition prio_sorted :: "'a rt_thread_scheme list \<Rightarrow> bool" where
  "prio_sorted xs \<longleftrightarrow> sorted (map current_priority xs)"

lemma set_insert_prio [simp]: "set (insert_prio t xs) = insert t (set xs)"
  by (induction xs) auto

lemma prio_sorted_insert: "prio_sorted xs \<Longrightarrow> prio_sorted (insert_prio t xs)"
  by (induction xs) (auto simp: prio_sorted_def)

lemma insert_prio_stable:
  "prio_sorted xs \<Longrightarrow>
     filter (\<lambda>u. current_priority u = p) (insert_prio t xs) =
     filter (\<lambda>u. current_priority u = p) xs @ (if current_priority t = p then [t] else [])"
proof (induction xs)
  case (Cons x xs)
  show ?case
  proof (cases "current_priority t < current_priority x")
    case True
    with Cons.prems have "filter (\<lambda>u. current_priority u = current_priority t) (x # xs) = []"
      by (auto simp: prio_sorted_def filter_empty_conv)
    with True show ?thesis by auto
  next
    case False
    with Cons show ?thesis by (auto simp: prio_sorted_def)
  qed
qed simp

lemma resume_all_eq:
  "rt_ipc_list_resume_all xs = ([], map (\<lambda>t. t\<lparr>thread_error := - RT_ERROR\<rparr>) xs)"
  by (induction xs) auto

lemma sem_inv_step: "sem_step s e s' \<Longrightarrow> sem_inv s \<Longrightarrow> sem_inv s'"
  by (induction rule: sem_step.induct)
    (auto simp: sem_inv_def rt_sem_take_def rt_sem_release_def rt_thread_timeout_def
      rt_ipc_list_resume_def Let_def word_gt_0 split: if_splits)

lemma sem_value_step:
  "sem_step s e s' \<Longrightarrow>
     sem_value s' = sem_value s + (if e = Ev_release then 1 else 0) - (if e = Ev_take then 1 else 0)"
  by (induction rule: sem_step.induct)
    (auto simp: rt_sem_take_def rt_sem_release_def rt_thread_timeout_def
      rt_ipc_list_resume_def Let_def rt_codes split: if_splits)

lemma sem_flag_step: "sem_step s e s' \<Longrightarrow> sem_flag s' = sem_flag s"
  by (induction rule: sem_step.induct)
    (auto simp: rt_sem_take_def rt_sem_release_def rt_thread_timeout_def
      rt_ipc_list_resume_def Let_def split: if_splits)

lemma prio_sorted_remove1: "prio_sorted xs \<Longrightarrow> prio_sorted (remove1 t xs)"
  unfolding prio_sorted_def
proof (induction xs)
  case (Cons x xs)
  then show ?case using set_remove1_subset [of t xs] by auto
qed simp

lemma prio_sorted_step:
  "sem_step s e s' \<Longrightarrow> sem_flag s = RT_IPC_FLAG_PRIO \<Longrightarrow> prio_sorted (suspend_thread s) \<Longrightarrow>
     prio_sorted (suspend_thread s')"
proof (induction rule: sem_step.induct)
  case (handover s s' thr)
  then show ?case
    by (cases "suspend_thread s")
      (auto simp: rt_sem_release_def rt_ipc_list_resume_def Let_def prio_sorted_def)
qed (auto simp: rt_sem_take_def rt_sem_release_def rt_thread_timeout_def rt_ipc_list_suspend_def
      rt_ipc_list_resume_def rt_codes Let_def prio_sorted_insert prio_sorted_remove1 split: if_splits)

lemma sem_trace_prio:
  "sem_trace s es s' \<Longrightarrow> sem_flag s = RT_IPC_FLAG_PRIO \<Longrightarrow> prio_sorted (suspend_thread s) \<Longrightarrow>
     sem_flag s' = RT_IPC_FLAG_PRIO \<and> prio_sorted (suspend_thread s')"
  by (induction rule: sem_trace.induct) (auto simp: sem_flag_step dest: prio_sorted_step)

lemma count_ev_snoc [simp]: "count_ev e (es @ [x]) = count_ev e es + (if x = e then 1 else 0)"
  by (simp add: count_ev_def)

lemma sem_trace_inv: "sem_trace s es s' \<Longrightarrow> sem_inv s \<Longrightarrow> sem_inv s'"
  by (induction rule: sem_trace.induct) (auto dest: sem_inv_step)

lemma sem_trace_value:
  "sem_trace s es s' \<Longrightarrow>
     sem_value s' + of_nat (count_ev Ev_take es) = sem_value s + of_nat (count_ev Ev_release es)"
  by (induction rule: sem_trace.induct)
    (auto simp: count_ev_def [of _ "[]"] sem_value_step algebra_simps)

lemma sem_take_positive: "sem_step s Ev_take s' \<Longrightarrow> sem_value s > 0"
  by (auto elim!: sem_stepE simp: rt_sem_take_def Let_def rt_codes split: if_splits)

lemma sem_trace_permits:
  "sem_trace s es s' \<Longrightarrow> unat (sem_value s) + count_ev Ev_release es < 2 ^ 16 \<Longrightarrow>
     unat (sem_value s') + count_ev Ev_take es = unat (sem_value s) + count_ev Ev_release es"
proof (induction rule: sem_trace.induct)
  case (trace_Nil s)
  then show ?case by (simp add: count_ev_def)
next
  case (trace_snoc s es s' e s'')
  have v: "sem_value s'' = sem_value s' + (if e = Ev_release then 1 else 0) - (if e = Ev_take then 1 else 0)"
    using sem_value_step [OF trace_snoc.hyps(2)] .
  have ih: "unat (sem_value s') + count_ev Ev_take es = unat (sem_value s) + count_ev Ev_release es"
    using trace_snoc by (auto split: if_splits)
  consider "e = Ev_take" | "e = Ev_release" | "e \<noteq> Ev_take" "e \<noteq> Ev_release" by blast
  then show ?case
  proof cases
    case 1
    with sem_take_positive [of s' s''] trace_snoc.hyps(2) have "sem_value s' \<noteq> 0" by auto
    then have "unat (sem_value s' - 1) + 1 = unat (sem_value s')"
      using unat_minus_one [of "sem_value s'"] unat_gt_0 [of "sem_value s'"] by linarith
    with 1 v ih show ?thesis by simp
  next
    case 2
    with trace_snoc.prems ih have "unat (sem_value s') + 1 < 2 ^ 16" by simp
    then have "unat (sem_value s' + 1) = unat (sem_value s') + 1"
      by (simp add: unat_word_ariths)
    with 2 v ih show ?thesis by simp
  next
    case 3
    with v ih show ?thesis by simp
  qed
qed

section \<open>Properties\<close>

text \<open>
  Claim C26: along every sequence of takes, failed takes, waits, releases, hand-overs and
  timeouts, threads wait only while the value is 0, and the value plus the permits taken at
  once equals the initial value plus the permits put back. The value is 16 bits wide, so the
  equation holds on numbers as long as initial value and releases stay below 65536.
\<close>

theorem sem_permits_conserved:
  assumes "sem_trace s es s'" and "sem_inv s"
    and "unat (sem_value s) + count_ev Ev_release es < 2 ^ 16"
  shows "(sem_value s' = 0 \<or> suspend_thread s' = []) \<and>
    unat (sem_value s') + count_ev Ev_take es = unat (sem_value s) + count_ev Ev_release es"
  using sem_trace_inv [OF assms(1,2)] sem_trace_permits [OF assms(1,3)] by (simp add: sem_inv_def)

definition sample_thread :: "nat \<Rightarrow> u8 \<Rightarrow> rt_thread" where
  "sample_thread i p = \<lparr>thread_id = i, current_priority = p, thread_error = 0\<rparr>"

lemma sample_trace:
  "sem_trace (rt_sem_init 1 0) [Ev_take, Ev_wait, Ev_handover, Ev_release]
     (rt_sem_init 1 0)"
proof -
  let ?a = "rt_sem_init 1 0"
  let ?b = "?a\<lparr>sem_value := 0\<rparr>"
  let ?c = "?b\<lparr>suspend_thread := [sample_thread 2 9]\<rparr>"
  have 1: "sem_step ?a Ev_take ?b"
    by (rule sem_step.take [of _ 0 "sample_thread 1 9"]) (simp add: rt_sem_take_def rt_sem_init_def)
  have 2: "sem_step ?b Ev_wait ?c"
    by (rule sem_step.wait [of _ 5 "sample_thread 2 9" _ "Some 5"])
      (simp add: rt_sem_take_def rt_sem_init_def rt_ipc_list_suspend_def rt_codes sample_thread_def)
  have 3: "sem_step ?c Ev_handover ?b"
    by (rule sem_step.handover [of _ _ "sample_thread 2 9"])
      (simp add: rt_sem_release_def rt_ipc_list_resume_def rt_sem_init_def)
  have 4: "sem_step ?b Ev_release ?a"
    by (rule sem_step.release) (simp add: rt_sem_release_def rt_sem_init_def)
  show ?thesis
    using trace_snoc [OF trace_snoc [OF trace_snoc [OF trace_snoc [OF trace_Nil 1] 2] 3] 4] by simp
qed

theorem sem_permits_conserved_witness:
  "unat (sem_value (rt_sem_init 1 0)) + 1 = 1 + count_ev Ev_release [Ev_take, Ev_wait, Ev_handover, Ev_release]"
  using sem_permits_conserved [OF sample_trace]
  by (simp add: sem_inv_def rt_sem_init_def count_ev_def)

text \<open>
  On a semaphore created with \<open>RT_IPC_FLAG_PRIO\<close> a release wakes a waiter of the
  highest priority (smallest number), and among equals the one that has waited longest: a
  new waiter goes behind all waiters of its own priority.
\<close>

theorem sem_wakes_highest_priority:
  assumes "sem_trace (rt_sem_init v RT_IPC_FLAG_PRIO) es s"
  shows "(\<forall>s' thr. rt_sem_release s = (s', Some thr) \<longrightarrow>
      suspend_thread s = thr # suspend_thread s' \<and>
      list_all (\<lambda>u. current_priority thr \<le> current_priority u) (suspend_thread s)) \<and>
    (\<forall>s' time thr tm p. rt_sem_take s time thr = (s', Take_suspended tm) \<longrightarrow>
      filter (\<lambda>u. current_priority u = p) (suspend_thread s') =
      filter (\<lambda>u. current_priority u = p) (suspend_thread s) @
        (if current_priority thr = p then [thr\<lparr>thread_error := RT_EOK\<rparr>] else []))"
proof -
  have flag: "sem_flag s = RT_IPC_FLAG_PRIO" and sorted: "prio_sorted (suspend_thread s)"
    using sem_trace_prio [OF assms] by (auto simp: rt_sem_init_def prio_sorted_def)
  have "suspend_thread s = thr # suspend_thread s' \<and>
      list_all (\<lambda>u. current_priority thr \<le> current_priority u) (suspend_thread s)"
    if "rt_sem_release s = (s', Some thr)" for s' thr
    using that sorted
    by (cases "suspend_thread s")
      (auto simp: rt_sem_release_def rt_ipc_list_resume_def Let_def prio_sorted_def list_all_iff)
  moreover have "suspend_thread s' = insert_prio (thr\<lparr>thread_error := RT_EOK\<rparr>) (suspend_thread s)"
    if "rt_sem_take s time thr = (s', Take_suspended tm)" for s' time thr tm
    using that flag
    by (auto simp: rt_sem_take_def Let_def rt_ipc_list_suspend_def rt_codes split: if_splits)
  moreover have "filter (\<lambda>u. current_priority u = p) (insert_prio (thr\<lparr>thread_error := RT_EOK\<rparr>) (suspend_thread s)) =
      filter (\<lambda>u. current_priority u = p) (suspend_thread s) @
        (if current_priority thr = p then [thr\<lparr>thread_error := RT_EOK\<rparr>] else [])" for thr p
    using insert_prio_stable [OF sorted, of p "thr\<lparr>thread_error := RT_EOK\<rparr>"] by simp
  ultimately show ?thesis by (intro conjI allI impI) metis+
qed

lemma sample_prio_trace:
  "sem_trace (rt_sem_init 0 RT_IPC_FLAG_PRIO) [Ev_wait, Ev_wait]
     \<lparr>suspend_thread = [sample_thread 2 5, sample_thread 1 9], sem_flag = RT_IPC_FLAG_PRIO, sem_value = 0\<rparr>"
proof -
  let ?a = "rt_sem_init 0 RT_IPC_FLAG_PRIO"
  let ?b = "?a\<lparr>suspend_thread := [sample_thread 1 9]\<rparr>"
  have 1: "sem_step ?a Ev_wait ?b"
    by (rule sem_step.wait [of _ "-1" "sample_thread 1 9" _ None])
      (simp add: rt_sem_take_def rt_sem_init_def rt_ipc_list_suspend_def rt_codes sample_thread_def)
  have 2: "sem_step ?b Ev_wait (?b\<lparr>suspend_thread := [sample_thread 2 5, sample_thread 1 9]\<rparr>)"
    by (rule sem_step.wait [of _ "-1" "sample_thread 2 5" _ None])
      (simp add: rt_sem_take_def rt_sem_init_def rt_ipc_list_suspend_def rt_codes sample_thread_def)
  show ?thesis using trace_snoc [OF trace_snoc [OF trace_Nil 1] 2] by (simp add: rt_sem_init_def)
qed

theorem sem_wakes_highest_priority_witness:
  "snd (rt_sem_release \<lparr>suspend_thread = [sample_thread 2 5, sample_thread 1 9],
     sem_flag = RT_IPC_FLAG_PRIO, sem_value = 0\<rparr>) = Some (sample_thread 2 5) \<and>
   current_priority (sample_thread 2 5) \<le> current_priority (sample_thread 1 9)"
  using sem_wakes_highest_priority [OF sample_prio_trace]
  by (auto simp: rt_sem_release_def rt_ipc_list_resume_def)

end
