(* ===== verification/Config.thy ===== *)
theory Config
  imports Hal Rt_Ipc
begin

text \<open>
  The persistent configuration (\<open>applications/config.c\<close>, \<open>config.h\<close>): the packed structure
  and its byte image, saving to and loading from the \<open>config\<close> flash partition, the default
  values, the start-up semaphore and the shell commands that change the configuration. The
  flash abstraction layer (\<open>fal\<close>) and the checksum library are not part of the repository:
  they are fields of \<open>config_env\<close>, and \<open>fal_law\<close> states what the code relies on. Console and
  log output is left out.
\<close>

section \<open>The configuration structure\<close>

definition SMOKE_NUM :: nat where "SMOKE_NUM = 20"

record config_smoke_t =
  cs_floor :: u8
  cs_room :: u8
  cs_temp_threshold :: u16
  cs_smoke_threshold :: u16
  cs_poll_time :: u8

record config_mqtt_t =
  host :: "u8 list"
  user :: "u8 list"
  password :: "u8 list"
  mqtt_id :: "u8 list"
  publish_topic :: "u8 list"
  subscribe_topic :: "u8 list"

record config_t =
  building_id :: "u8 list"
  mqtt :: config_mqtt_t
  update_uri :: "u8 list"
  ver :: u32
  temp_threshold :: u16
  smoke_threshold :: u16
  poll_time :: u8
  lora_freq :: u32
  smoke :: "config_smoke_t list"
  crc :: u8

text \<open>The declared array sizes.\<close>

definition config_wf :: "config_t \<Rightarrow> bool" where
  "config_wf c \<longleftrightarrow> length (building_id c) = 20 \<and> length (host (mqtt c)) = 100 \<and>
     length (user (mqtt c)) = 100 \<and> length (password (mqtt c)) = 100 \<and>
     length (mqtt_id (mqtt c)) = 100 \<and> length (publish_topic (mqtt c)) = 20 \<and>
     length (subscribe_topic (mqtt c)) = 20 \<and> length (update_uri c) = 50 \<and>
     length (smoke c) = SMOKE_NUM"

section \<open>The packed image\<close>

definition slice :: "nat \<Rightarrow> nat \<Rightarrow> 'a list \<Rightarrow> 'a list" where
  "slice k n xs = take n (drop k xs)"

definition smoke_encode :: "config_smoke_t \<Rightarrow> u8 list" where
  "smoke_encode s = [cs_floor s, cs_room s] @ le16 (cs_temp_threshold s) @
     le16 (cs_smoke_threshold s) @ [cs_poll_time s]"

definition smoke_decode :: "u8 list \<Rightarrow> config_smoke_t" where
  "smoke_decode bs = \<lparr>cs_floor = bs ! 0, cs_room = bs ! 1, cs_temp_threshold = of_le16 (slice 2 2 bs),
     cs_smoke_threshold = of_le16 (slice 4 2 bs), cs_poll_time = bs ! 6\<rparr>"

definition mqtt_encode :: "config_mqtt_t \<Rightarrow> u8 list" where
  "mqtt_encode m = host m @ user m @ password m @ mqtt_id m @ publish_topic m @ subscribe_topic m"

definition mqtt_decode :: "u8 list \<Rightarrow> config_mqtt_t" where
  "mqtt_decode bs = \<lparr>host = slice 0 100 bs, user = slice 100 100 bs, password = slice 200 100 bs,
     mqtt_id = slice 300 100 bs, publish_topic = slice 400 20 bs, subscribe_topic = slice 420 20 bs\<rparr>"

definition config_encode :: "config_t \<Rightarrow> u8 list" where
  "config_encode c = building_id c @ mqtt_encode (mqtt c) @ update_uri c @ le32 (ver c) @
     le16 (temp_threshold c) @ le16 (smoke_threshold c) @ [poll_time c] @ le32 (lora_freq c) @
     concat (map smoke_encode (smoke c)) @ [crc c]"

definition config_decode :: "u8 list \<Rightarrow> config_t" where
  "config_decode bs = \<lparr>building_id = slice 0 20 bs, mqtt = mqtt_decode (slice 20 440 bs),
     update_uri = slice 460 50 bs, ver = of_le32 (slice 510 4 bs),
     temp_threshold = of_le16 (slice 514 2 bs), smoke_threshold = of_le16 (slice 516 2 bs),
     poll_time = bs ! 518, lora_freq = of_le32 (slice 519 4 bs),
     smoke = map (\<lambda>i. smoke_decode (slice (523 + 7 * i) 7 bs)) [0..<SMOKE_NUM],
     crc = bs ! 663\<rparr>"

text \<open>\<open>sizeof(config_t)\<close> and \<open>offsetof(config_t, update_uri)\<close>.\<close>

definition CONFIG_SIZE :: nat where "CONFIG_SIZE = 664"
definition UPDATE_URI_OFFSET :: nat where "UPDATE_URI_OFFSET = 460"

lemma length_slice [simp]: "k + n \<le> length xs \<Longrightarrow> length (slice k n xs) = n"
  by (simp add: slice_def)

lemma slice_join: "k + n = m \<Longrightarrow> slice k n xs @ drop m xs = drop k xs"
  unfolding slice_def by (metis add.commute append_take_drop_id drop_drop)

lemma slice_slice: "i + n \<le> l \<Longrightarrow> slice i n (slice k l xs) = slice (k + i) n xs"
  by (simp add: slice_def take_drop min_def add.commute add.left_commute)

lemma slice_append_left: "length xs = k \<Longrightarrow> length ys = n \<Longrightarrow> slice k n (xs @ ys @ zs) = ys"
  by (simp add: slice_def)

lemma length_smoke_encode [simp]: "length (smoke_encode s) = 7"
  by (simp add: smoke_encode_def)

lemma smoke_decode_encode [simp]: "smoke_decode (smoke_encode s) = s"
  by (simp add: smoke_decode_def smoke_encode_def slice_def le16_def)
    (simp add: le16_def [symmetric])

lemma smoke_encode_decode: "length bs = 7 \<Longrightarrow> smoke_encode (smoke_decode bs) = bs"
  by (auto simp: smoke_encode_def smoke_decode_def le16_of_le16 slice_def numeral_eq_Suc length_Suc_conv)

lemma length_concat_smoke [simp]: "length (concat (map smoke_encode xs)) = 7 * length xs"
  by (induction xs) auto

lemma slice_concat_smoke:
  "i < length xs \<Longrightarrow> slice (7 * i) 7 (concat (map smoke_encode xs)) = smoke_encode (xs ! i)"
proof (induction xs arbitrary: i)
  case (Cons x xs)
  then show ?case by (cases i) (auto simp: slice_def)
qed simp

lemma concat_slices:
  "length bs = 7 * n \<Longrightarrow> concat (map (\<lambda>i. slice (7 * i) 7 bs) [0..<n]) = bs"
proof (induction n arbitrary: bs)
  case (Suc n)
  have "concat (map (\<lambda>i. slice (7 * i) 7 bs) [0..<n]) = concat (map (\<lambda>i. slice (7 * i) 7 (take (7 * n) bs)) [0..<n])"
    by (intro arg_cong [where f = concat] map_cong) (auto simp: slice_def take_drop min_def)
  also have "\<dots> = take (7 * n) bs" using Suc by simp
  finally show ?case using Suc.prems by (simp add: slice_def)
qed simp

lemma length_mqtt_encode:
  "config_wf c \<Longrightarrow> length (mqtt_encode (mqtt c)) = 440"
  by (simp add: config_wf_def mqtt_encode_def)

lemma mqtt_decode_encode: "config_wf c \<Longrightarrow> mqtt_decode (mqtt_encode (mqtt c)) = mqtt c"
  by (simp add: config_wf_def mqtt_decode_def mqtt_encode_def slice_def)

lemma length_config_encode: "config_wf c \<Longrightarrow> length (config_encode c) = CONFIG_SIZE"
  by (simp add: config_encode_def length_mqtt_encode config_wf_def CONFIG_SIZE_def SMOKE_NUM_def
      mqtt_encode_def)

lemma mqtt_encode_decode:
  assumes "length bs = 440"
  shows "mqtt_encode (mqtt_decode bs) = bs"
proof -
  have "slice 420 20 bs = drop 420 bs" using assms by (simp add: slice_def)
  then show ?thesis by (simp add: mqtt_encode_def mqtt_decode_def slice_join)
qed

lemma config_decode_encode:
  assumes wf: "config_wf c"
  shows "config_decode (config_encode c) = c"
proof -
  let ?m = "mqtt_encode (mqtt c)" and ?s = "concat (map smoke_encode (smoke c))"
  have l: "length ?m = 440" "length ?s = 140" "length (building_id c) = 20" "length (update_uri c) = 50"
      "length (smoke c) = 20"
    using wf by (auto simp: length_mqtt_encode config_wf_def SMOKE_NUM_def)
  have "slice (523 + 7 * i) 7 (config_encode c) = smoke_encode (smoke c ! i)" if "i < 20" for i
  proof -
    obtain p where "config_encode c = p @ ?s @ [crc c]" "length p = 523"
      using l that by (simp add: config_encode_def flip: append_assoc append_Cons)
    then have "slice (523 + 7 * i) 7 (config_encode c) = slice (7 * i) 7 ?s"
      using l that by (simp add: slice_def)
    then show ?thesis using slice_concat_smoke [of i "smoke c"] that l by simp
  qed
  then have "map (\<lambda>i. smoke_decode (slice (523 + 7 * i) 7 (config_encode c))) [0..<20] = smoke c"
    using l by (intro nth_equalityI) auto
  moreover have "config_encode c ! 518 = poll_time c" "config_encode c ! 663 = crc c"
    using l by (simp_all add: config_encode_def nth_append)
  moreover have "slice 510 4 (config_encode c) = le32 (ver c)"
      "slice 514 2 (config_encode c) = le16 (temp_threshold c)"
      "slice 516 2 (config_encode c) = le16 (smoke_threshold c)"
      "slice 519 4 (config_encode c) = le32 (lora_freq c)"
      "slice 0 20 (config_encode c) = building_id c"
      "slice 20 440 (config_encode c) = ?m" "slice 460 50 (config_encode c) = update_uri c"
    using l by (simp_all add: config_encode_def slice_def)
  ultimately show ?thesis
    using mqtt_decode_encode [OF wf] by (simp add: config_decode_def SMOKE_NUM_def)
qed

lemma config_encode_decode:
  assumes len: "length bs = CONFIG_SIZE"
  shows "config_encode (config_decode bs) = bs"
proof -
  have l: "length bs = 664" using len by (simp add: CONFIG_SIZE_def)
  have "concat (map smoke_encode (smoke (config_decode bs))) =
      concat (map (\<lambda>i. slice (7 * i) 7 (slice 523 140 bs)) [0..<20])"
    using l by (intro arg_cong [where f = concat] nth_equalityI)
      (auto simp: config_decode_def SMOKE_NUM_def smoke_encode_decode slice_slice)
  also have "\<dots> = slice 523 140 bs" using l by (intro concat_slices) simp
  finally have sm: "concat (map smoke_encode (smoke (config_decode bs))) = slice 523 140 bs" .
  have last: "[bs ! 663] = drop 663 bs" "[bs ! 518] = slice 518 1 bs"
    using l Cons_nth_drop_Suc [of 663 bs] Cons_nth_drop_Suc [of 518 bs, symmetric]
    by (simp_all add: slice_def)
  have "config_encode (config_decode bs) = slice 0 20 bs @ slice 20 440 bs @ slice 460 50 bs @
      slice 510 4 bs @ slice 514 2 bs @ slice 516 2 bs @ slice 518 1 bs @ slice 519 4 bs @
      slice 523 140 bs @ drop 663 bs"
    unfolding config_encode_def sm using l
    by (simp add: config_decode_def mqtt_encode_decode le32_of_le32 le16_of_le16 last
        del: append_Cons)
  then show ?thesis by (simp add: slice_join)
qed

section \<open>Saving and loading\<close>

record ('f, 'p) config_env =
  fal_partition_find :: "'f \<Rightarrow> string \<Rightarrow> 'p option"
  fal_partition_erase :: "'f \<Rightarrow> 'p \<Rightarrow> nat \<Rightarrow> nat \<Rightarrow> 'f \<times> int"
  fal_partition_write :: "'f \<Rightarrow> 'p \<Rightarrow> nat \<Rightarrow> u8 list \<Rightarrow> 'f \<times> int"
  fal_partition_read :: "'f \<Rightarrow> 'p \<Rightarrow> nat \<Rightarrow> nat \<Rightarrow> u8 list \<times> int"
  crc8_cal :: "u8 list \<Rightarrow> u8"
  crc32_cal :: "u8 list \<Rightarrow> u32"
  sys_mem :: mem

text \<open>What the code relies on: a successful erase and write at offset 0 are read back, and do
  not change the partition table. \<open>read_len\<close> covers failing reads, which still fill the
  destination structure.\<close>

definition fal_law :: "('f, 'p) config_env \<Rightarrow> bool" where
  "fal_law env \<longleftrightarrow>
     (\<forall>f p f1 r1 bs f2 r2 name.
        fal_partition_erase env f p 0 (128 * 1024) = (f1, r1) \<and> r1 \<ge> 0 \<and> length bs \<le> 128 * 1024 \<and>
        fal_partition_write env f1 p 0 bs = (f2, r2) \<and> r2 \<ge> 0 \<longrightarrow>
        (\<exists>r \<ge> 0. fal_partition_read env f2 p 0 (length bs) = (bs, r)) \<and>
        fal_partition_find env f2 name = fal_partition_find env f name)"

definition fal_read_length :: "('f, 'p) config_env \<Rightarrow> bool" where
  "fal_read_length env \<longleftrightarrow>
     (\<forall>f p k n. length (fst (fal_partition_read env f p k n)) = n)"

definition config_crc :: "('f, 'p) config_env \<Rightarrow> config_t \<Rightarrow> u8" where
  "config_crc env c = crc8_cal env (take (CONFIG_SIZE - 1) (config_encode c))"

text \<open>The find, erase, write sequence of \<open>config_save\<close> and \<open>config_timming_save\<close>: each failure
  ends it.\<close>

definition config_store :: "('f, 'p) config_env \<Rightarrow> config_t \<Rightarrow> 'f \<Rightarrow> 'f" where
  "config_store env c f =
     (case fal_partition_find env f ''config'' of
        None \<Rightarrow> f
      | Some part \<Rightarrow>
          let (f1, r1) = fal_partition_erase env f part 0 (128 * 1024)
          in if r1 < 0 then f1
             else fst (fal_partition_write env f1 part 0 (config_encode c)))"

definition config_save :: "('f, 'p) config_env \<Rightarrow> config_t \<times> 'f \<Rightarrow> config_t \<times> 'f" where
  "config_save env = (\<lambda>(c, f).
     let c1 = c\<lparr>crc := config_crc env c\<rparr> in (c1, config_store env c1 f))"

definition MQTT_HOST :: string where "MQTT_HOST = ''post-cn-zvp255j8c01.mqtt.aliyuncs.com''"
definition MQTT_USER :: string where
  "MQTT_USER = ''Signature|LTAI5tCymxkCDJzyhnisq9G4|post-cn-zvp255j8c01''"
definition MQTT_PASSWORD :: string where "MQTT_PASSWORD = ''hCRfYt/oTH9zhcQps8y/1Fz7Oh8=''"
definition MQTT_ID :: string where "MQTT_ID = ''GID_osomqtt@@@1_1_v1_440309010100001''"
definition MQTT_PUBLISH_TOPIC :: string where "MQTT_PUBLISH_TOPIC = ''ser''"
definition MQTT_SUBSCRIBE_TOPIC :: string where "MQTT_SUBSCRIBE_TOPIC = ''dev/''"
definition UPDATE_URI :: string where "UPDATE_URI = ''http://8.129.145.22:8080/pke_fire''"
definition VERSION :: u32 where "VERSION = 2021041512"

lemmas config_texts = MQTT_HOST_def MQTT_USER_def MQTT_PASSWORD_def MQTT_ID_def
  MQTT_PUBLISH_TOPIC_def MQTT_SUBSCRIBE_TOPIC_def UPDATE_URI_def

definition mqtt_default :: "config_mqtt_t \<Rightarrow> config_mqtt_t" where
  "mqtt_default m = m\<lparr>host := strcpy_into (host m) (c_bytes MQTT_HOST),
     user := strcpy_into (user m) (c_bytes MQTT_USER),
     password := strcpy_into (password m) (c_bytes MQTT_PASSWORD),
     mqtt_id := strcpy_into (mqtt_id m) (c_bytes MQTT_ID),
     publish_topic := strcpy_into (publish_topic m) (c_bytes MQTT_PUBLISH_TOPIC),
     subscribe_topic := strcpy_into (subscribe_topic m) (c_bytes MQTT_SUBSCRIBE_TOPIC)\<rparr>"

definition config_default_values :: "('f, 'p) config_env \<Rightarrow> config_t \<Rightarrow> config_t" where
  "config_default_values env c =
     (let c0 = config_decode (memset_buf (config_encode c) 0 (CONFIG_SIZE - 1));
          id_crc = crc32_cal env (hal_read_uniqueid (sys_mem env))
      in c0\<lparr>building_id := snprintf_into (building_id c0) 15 (hex8 id_crc),
            poll_time := 30, temp_threshold := 500, smoke_threshold := 10,
            lora_freq := 433300, ver := VERSION,
            update_uri := strcpy_into (update_uri c0) (c_bytes UPDATE_URI),
            mqtt := mqtt_default (mqtt c0)\<rparr>)"

definition config_default :: "('f, 'p) config_env \<Rightarrow> config_t \<times> 'f \<Rightarrow> config_t \<times> 'f" where
  "config_default env = (\<lambda>(c, f). config_save env (config_default_values env c, f))"

definition config_timming_save :: "('f, 'p) config_env \<Rightarrow> config_t \<times> 'f \<Rightarrow> config_t \<times> 'f" where
  "config_timming_save env = (\<lambda>(c, f).
     let v = config_crc env c
     in if v \<noteq> crc c then let c1 = c\<lparr>crc := v\<rparr> in (c1, config_store env c1 f) else (c, f))"

section \<open>The start-up semaphore\<close>

definition config_sem_init :: "bool \<Rightarrow> rt_semaphore option \<times> int" where
  "config_sem_init allocated =
     (case rt_sem_create allocated 0 RT_IPC_FLAG_FIFO of
        None \<Rightarrow> (None, RT_ERROR)
      | Some s \<Rightarrow> (Some s, RT_EOK))"

text \<open>The resumed thread is the third result; the kernel asserts that the pointer is not null.\<close>

definition config_post_config_sem :: "rt_semaphore \<Rightarrow> rt_semaphore \<times> rt_thread option \<times> int" where
  "config_post_config_sem sem = (let (s, t) = rt_sem_release sem in (s, t, RT_EOK))"

datatype wait_result =
    Wait_done "rt_thread list"          \<comment> \<open>taken and deleted; the threads its deletion resumed\<close>
  | Wait_blocked rt_semaphore

definition config_wait_config_sem :: "rt_semaphore \<Rightarrow> rt_thread \<Rightarrow> wait_result" where
  "config_wait_config_sem sem self =
     (case rt_sem_take sem RT_WAITING_FOREVER self of
        (s, Take_return _) \<Rightarrow> Wait_done (fst (rt_sem_delete s))
      | (s, Take_suspended _) \<Rightarrow> Wait_blocked s)"

definition config_init ::
  "('f, 'p) config_env \<Rightarrow> config_t \<times> 'f \<Rightarrow> rt_semaphore \<Rightarrow>
     (config_t \<times> 'f) \<times> rt_semaphore \<times> rt_thread option \<times> int" where
  "config_init env = (\<lambda>(c, f) sem.
     case fal_partition_find env f ''config'' of
       None \<Rightarrow> ((c, f), sem, None, RT_ERROR)
     | Some part \<Rightarrow>
         let (bs, r) = fal_partition_read env f part 0 CONFIG_SIZE;
             c1 = config_decode bs;
             cf = (if r < 0 then config_default env (c1, f)
                   else if config_crc env c1 \<noteq> crc c1 then config_default env (c1, f)
                   else (c1, f))
         in (cf, config_post_config_sem sem))"

section \<open>Shell commands\<close>

text \<open>\<open>argv\<close> is the list of words of the command line, the command name first. A command
  with one word only prints. \<open>set_chars\<close> is the clear and bounded copy all string commands
  share.\<close>

definition set_chars :: "u8 list \<Rightarrow> u8 list \<Rightarrow> nat \<Rightarrow> u8 list" where
  "set_chars buf arg n = strncpy_into (memset_buf buf 0 n) arg n"

definition config_set_host :: "u8 list list \<Rightarrow> config_t \<Rightarrow> config_t" where
  "config_set_host argv c =
     (if length argv = 2
      then c\<lparr>mqtt := (mqtt c)\<lparr>host := set_chars (host (mqtt c)) (argv ! 1) 100\<rparr>\<rparr> else c)"

definition config_set_user :: "u8 list list \<Rightarrow> config_t \<Rightarrow> config_t" where
  "config_set_user argv c =
     (if length argv = 2
      then c\<lparr>mqtt := (mqtt c)\<lparr>user := set_chars (user (mqtt c)) (argv ! 1) 100\<rparr>\<rparr> else c)"

definition config_set_passwd :: "u8 list list \<Rightarrow> config_t \<Rightarrow> config_t" where
  "config_set_passwd argv c =
     (if length argv = 2
      then c\<lparr>mqtt := (mqtt c)\<lparr>password := set_chars (password (mqtt c)) (argv ! 1) 100\<rparr>\<rparr> else c)"

definition config_set_id :: "u8 list list \<Rightarrow> config_t \<Rightarrow> config_t" where
  "config_set_id argv c =
     (if length argv = 2
      then c\<lparr>mqtt := (mqtt c)\<lparr>mqtt_id := set_chars (mqtt_id (mqtt c)) (argv ! 1) 100\<rparr>\<rparr> else c)"

definition config_set_publish_topic :: "u8 list list \<Rightarrow> config_t \<Rightarrow> config_t" where
  "config_set_publish_topic argv c =
     (if length argv = 2
      then c\<lparr>mqtt := (mqtt c)\<lparr>publish_topic := set_chars (publish_topic (mqtt c)) (argv ! 1) 20\<rparr>\<rparr>
      else c)"

definition config_set_subscribe_topic :: "u8 list list \<Rightarrow> config_t \<Rightarrow> config_t" where
  "config_set_subscribe_topic argv c =
     (if length argv = 2
      then c\<lparr>mqtt := (mqtt c)\<lparr>subscribe_topic := set_chars (subscribe_topic (mqtt c)) (argv ! 1) 20\<rparr>\<rparr>
      else c)"

definition config_set_buildingid :: "u8 list list \<Rightarrow> config_t \<Rightarrow> config_t" where
  "config_set_buildingid argv c =
     (if length argv = 2 then c\<lparr>building_id := set_chars (building_id c) (argv ! 1) 20\<rparr> else c)"

definition config_set_connect :: "u8 list list \<Rightarrow> config_t \<Rightarrow> config_t" where
  "config_set_connect argv c =
     (if length argv = 5
      then c\<lparr>building_id := set_chars (building_id c) (argv ! 1) 20,
             mqtt := (mqtt c)\<lparr>mqtt_id := set_chars (mqtt_id (mqtt c)) (argv ! 2) 100,
               user := set_chars (user (mqtt c)) (argv ! 3) 100,
               password := set_chars (password (mqtt c)) (argv ! 4) 100\<rparr>\<rparr>
      else c)"

definition config_set_smoke :: "u8 list list \<Rightarrow> config_t \<Rightarrow> config_t" where
  "config_set_smoke argv c =
     (if length argv = 4
      then c\<lparr>temp_threshold := word_of_int (atoi (argv ! 1)),
             smoke_threshold := word_of_int (atoi (argv ! 2)),
             poll_time := word_of_int (atoi (argv ! 3))\<rparr>
      else c)"

definition config_set_lora_freq :: "u8 list list \<Rightarrow> config_t \<Rightarrow> config_t" where
  "config_set_lora_freq argv c =
     (if length argv = 2 then c\<lparr>lora_freq := word_of_int (atoi (argv ! 1))\<rparr> else c)"

definition config_set_lora_updatetime :: "u8 list list \<Rightarrow> config_t \<Rightarrow> config_t" where
  "config_set_lora_updatetime argv c =
     (if length argv = 2 then c\<lparr>poll_time := word_of_int (atoi (argv ! 1))\<rparr> else c)"

text \<open>\<open>strcpy\<close> is not bounded: it writes the argument and its terminator over the image from
  \<open>update_uri\<close> on. \<open>None\<close>: the write leaves the structure.\<close>

definition config_set_update_uri :: "u8 list list \<Rightarrow> config_t \<Rightarrow> config_t option" where
  "config_set_update_uri argv c =
     (if length argv = 2
      then if UPDATE_URI_OFFSET + length (argv ! 1) + 1 \<le> CONFIG_SIZE
        then Some (config_decode
          (take UPDATE_URI_OFFSET (config_encode c) @
           strcpy_into (drop UPDATE_URI_OFFSET (config_encode c)) (argv ! 1)))
        else None
      else Some c)"

section \<open>Well-formedness\<close>

lemma config_wf_decode: "length bs = CONFIG_SIZE \<Longrightarrow> config_wf (config_decode bs)"
  by (simp add: config_wf_def config_decode_def mqtt_decode_def CONFIG_SIZE_def)

lemma config_wf_crc [simp]: "config_wf (c\<lparr>crc := v\<rparr>) \<longleftrightarrow> config_wf c"
  by (simp add: config_wf_def)

definition config_body :: "config_t \<Rightarrow> u8 list" where
  "config_body c = building_id c @ mqtt_encode (mqtt c) @ update_uri c @ le32 (ver c) @
     le16 (temp_threshold c) @ le16 (smoke_threshold c) @ [poll_time c] @ le32 (lora_freq c) @
     concat (map smoke_encode (smoke c))"

lemma config_encode_body: "config_encode c = config_body c @ [crc c]"
  by (simp add: config_encode_def config_body_def)

lemma config_crc_body: "config_wf c \<Longrightarrow> config_crc env c = crc8_cal env (config_body c)"
  using length_config_encode [of c] by (simp add: config_crc_def config_encode_body CONFIG_SIZE_def)

lemma config_body_crc [simp]: "config_body (c\<lparr>crc := v\<rparr>) = config_body c"
  by (simp add: config_body_def)

lemma config_crc_crc [simp]:
  "config_wf c \<Longrightarrow> config_crc env (c\<lparr>crc := v\<rparr>) = config_crc env c"
  by (simp add: config_crc_body)

lemma length_set_chars [simp]: "n \<le> length buf \<Longrightarrow> length (set_chars buf arg n) = length buf"
  by (simp add: set_chars_def)

lemma config_wf_default_values:
  assumes "config_wf c"
  shows "config_wf (config_default_values env c)"
proof -
  let ?c0 = "config_decode (memset_buf (config_encode c) 0 (CONFIG_SIZE - 1))"
  have "config_wf ?c0"
    using length_config_encode [OF assms] by (intro config_wf_decode) (simp add: CONFIG_SIZE_def)
  then show ?thesis
    by (simp add: config_wf_def config_default_values_def Let_def mqtt_default_def
        snprintf_into_def config_texts)
qed

text \<open>A configuration whose checksum matches its contents, as \<open>config_init\<close> requires.\<close>

definition config_valid :: "('f, 'p) config_env \<Rightarrow> config_t \<Rightarrow> bool" where
  "config_valid env c \<longleftrightarrow> config_wf c \<and> crc c = config_crc env c"

lemma config_valid_save:
  "config_wf c \<Longrightarrow> config_save env (c, f) = (c', f') \<Longrightarrow> config_valid env c'"
  by (auto simp: config_save_def config_valid_def Let_def)

lemma config_valid_timming_save:
  "config_wf c \<Longrightarrow> config_timming_save env (c, f) = (c', f') \<Longrightarrow> config_valid env c'"
  by (auto simp: config_timming_save_def config_valid_def Let_def split: if_splits)

lemma config_valid_default:
  "config_wf c \<Longrightarrow> config_default env (c, f) = (c', f') \<Longrightarrow> config_valid env c'"
  using config_valid_save [OF config_wf_default_values] by (simp add: config_default_def)

section \<open>The shell command contract\<close>

locale config_command =
  fixes cmd :: "u8 list list \<Rightarrow> config_t \<Rightarrow> config_t"
  assumes keeps_wf: "config_wf c \<Longrightarrow> config_wf (cmd argv c)"
    and keeps_crc: "crc (cmd argv c) = crc c"
    and prints_only: "length argv = 1 \<Longrightarrow> cmd argv c = c"
begin

text \<open>A command followed by the periodic save leaves a valid configuration.\<close>

lemma saved_valid:
  assumes "config_wf c" and "config_timming_save env (cmd argv c, f) = (c', f')"
  shows "config_valid env c'"
  using config_valid_timming_save [OF keeps_wf [OF assms(1)] assms(2)] .

end

lemmas config_commands = config_set_host_def config_set_user_def config_set_passwd_def
  config_set_id_def config_set_publish_topic_def config_set_subscribe_topic_def
  config_set_buildingid_def config_set_connect_def config_set_smoke_def
  config_set_lora_freq_def config_set_lora_updatetime_def

interpretation set_host: config_command config_set_host
  by unfold_locales (auto simp: config_commands config_wf_def)

interpretation set_user: config_command config_set_user
  by unfold_locales (auto simp: config_commands config_wf_def)

interpretation set_passwd: config_command config_set_passwd
  by unfold_locales (auto simp: config_commands config_wf_def)

interpretation set_id: config_command config_set_id
  by unfold_locales (auto simp: config_commands config_wf_def)

interpretation set_publish_topic: config_command config_set_publish_topic
  by unfold_locales (auto simp: config_commands config_wf_def)

interpretation set_subscribe_topic: config_command config_set_subscribe_topic
  by unfold_locales (auto simp: config_commands config_wf_def)

interpretation set_buildingid: config_command config_set_buildingid
  by unfold_locales (auto simp: config_commands config_wf_def)

interpretation set_connect: config_command config_set_connect
  by unfold_locales (auto simp: config_commands config_wf_def)

interpretation set_smoke: config_command config_set_smoke
  by unfold_locales (auto simp: config_commands config_wf_def)

interpretation set_lora_freq: config_command config_set_lora_freq
  by unfold_locales (auto simp: config_commands config_wf_def)

interpretation set_lora_updatetime: config_command config_set_lora_updatetime
  by unfold_locales (auto simp: config_commands config_wf_def)

text \<open>A shell session: commands by name, each with its words.\<close>

datatype config_cmd = Set_host | Set_user | Set_passwd | Set_id | Set_publish_topic
  | Set_subscribe_topic | Set_buildingid | Set_connect | Set_smoke | Set_lora_freq
  | Set_lora_updatetime

fun run_cmd :: "config_cmd \<Rightarrow> u8 list list \<Rightarrow> config_t \<Rightarrow> config_t" where
  "run_cmd Set_host = config_set_host"
| "run_cmd Set_user = config_set_user"
| "run_cmd Set_passwd = config_set_passwd"
| "run_cmd Set_id = config_set_id"
| "run_cmd Set_publish_topic = config_set_publish_topic"
| "run_cmd Set_subscribe_topic = config_set_subscribe_topic"
| "run_cmd Set_buildingid = config_set_buildingid"
| "run_cmd Set_connect = config_set_connect"
| "run_cmd Set_smoke = config_set_smoke"
| "run_cmd Set_lora_freq = config_set_lora_freq"
| "run_cmd Set_lora_updatetime = config_set_lora_updatetime"

lemma run_cmd_wf: "config_wf c \<Longrightarrow> config_wf (run_cmd k argv c)"
  by (cases k) (simp_all add: set_host.keeps_wf set_user.keeps_wf set_passwd.keeps_wf set_id.keeps_wf
      set_publish_topic.keeps_wf set_subscribe_topic.keeps_wf set_buildingid.keeps_wf
      set_connect.keeps_wf set_smoke.keeps_wf set_lora_freq.keeps_wf set_lora_updatetime.keeps_wf)

definition run_session :: "(config_cmd \<times> u8 list list) list \<Rightarrow> config_t \<Rightarrow> config_t" where
  "run_session = run (\<lambda>(k, argv). run_cmd k argv)"

lemma run_session_wf: "config_wf c \<Longrightarrow> config_wf (run_session ks c)"
  unfolding run_session_def by (rule run_invariant) (auto simp: run_cmd_wf split: prod.split)

section \<open>Storing and reading back\<close>

text \<open>\<open>store_ok\<close>: the partition exists and both flash operations report success.\<close>

definition store_ok :: "('f, 'p) config_env \<Rightarrow> config_t \<Rightarrow> 'f \<Rightarrow> bool" where
  "store_ok env c f =
     (case fal_partition_find env f ''config'' of
        None \<Rightarrow> False
      | Some part \<Rightarrow>
          let (f1, r1) = fal_partition_erase env f part 0 (128 * 1024)
          in r1 \<ge> 0 \<and> snd (fal_partition_write env f1 part 0 (config_encode c)) \<ge> 0)"

lemma config_init_after_store:
  assumes law: "fal_law env" and ok: "store_ok env c f" and valid: "config_valid env c"
  shows "config_init env (c0, config_store env c f) sem =
    ((c, config_store env c f), config_post_config_sem sem)"
proof -
  obtain part where part: "fal_partition_find env f ''config'' = Some part"
    using ok by (auto simp: store_ok_def split: option.splits)
  obtain f1 r1 where er: "fal_partition_erase env f part 0 (128 * 1024) = (f1, r1)" by fastforce
  obtain f2 r2 where wr: "fal_partition_write env f1 part 0 (config_encode c) = (f2, r2)" by fastforce
  have nn: "r1 \<ge> 0" "r2 \<ge> 0" using ok part er wr by (auto simp: store_ok_def)
  note e = part er wr nn
  have store: "config_store env c f = f2" using e by (simp add: config_store_def)
  have len: "length (config_encode c) = CONFIG_SIZE"
    using valid by (simp add: config_valid_def length_config_encode)
  obtain r where r: "r \<ge> 0" "fal_partition_read env f2 part 0 CONFIG_SIZE = (config_encode c, r)"
      "fal_partition_find env f2 ''config'' = Some part"
    using law [unfolded fal_law_def, rule_format, of f part f1 r1 "config_encode c" f2 r2 "''config''"]
      e len by (auto simp: CONFIG_SIZE_def)
  show ?thesis
    unfolding store using r valid by (simp add: config_init_def config_decode_encode config_valid_def)
qed

text \<open>A concrete flash for the examples: a byte memory with the one partition, whose erase
  sets all bytes to \<open>0xFF\<close>.\<close>

definition ram_flash :: "(mem, unit) config_env" where
  "ram_flash = \<lparr>fal_partition_find = (\<lambda>f name. if name = ''config'' then Some () else None),
     fal_partition_erase = (\<lambda>f p k n. (mem_set f k 255 n, int n)),
     fal_partition_write = (\<lambda>f p k bs. ((\<lambda>a. if k \<le> a \<and> a < k + length bs then bs ! (a - k) else f a),
       int (length bs))),
     fal_partition_read = (\<lambda>f p k n. (mem_bytes f k n, int n)),
     crc8_cal = (\<lambda>bs. fold (XOR) bs 0), crc32_cal = (\<lambda>bs. of_nat (length bs)), sys_mem = (\<lambda>_. 7)\<rparr>"

lemma ram_flash_law: "fal_law ram_flash"
  by (auto simp: fal_law_def ram_flash_def intro!: nth_equalityI)

lemma ram_flash_read: "fal_read_length ram_flash"
  by (simp add: fal_read_length_def ram_flash_def)

definition config_zero :: config_t where
  "config_zero = config_decode (replicate 664 0)"

lemma config_wf_zero: "config_wf config_zero"
  unfolding config_zero_def by (rule config_wf_decode) (simp add: CONFIG_SIZE_def)

lemma ram_flash_store_ok: "store_ok ram_flash c f"
  by (simp add: store_ok_def ram_flash_def)

text \<open>What a bounded copy of \<open>a\<close> into a field of \<open>n\<close> bytes leaves for its readers.\<close>

definition stores_string :: "u8 list \<Rightarrow> u8 list \<Rightarrow> nat \<Rightarrow> bool" where
  "stores_string buf a n \<longleftrightarrow> buf_string buf = take n a \<and> (terminated buf \<longleftrightarrow> length a < n)"

lemma stores_set_chars: "c_string a \<Longrightarrow> length buf = n \<Longrightarrow> stores_string (set_chars buf a n) a n"
  by (simp add: stores_string_def set_chars_def buf_string_strncpy terminated_strncpy)

section \<open>Properties\<close>

text \<open>
  Claim C4: a configuration that was saved successfully is exactly what the next start loads,
  with no change but the checksum, whatever the structure held in memory before.
\<close>

theorem config_survives_restart:
  assumes "fal_law env" and "config_wf c" and "config_save env (c, f) = (c1, f1)"
    and "store_ok env c1 f"
  shows "c1 = c\<lparr>crc := crc8_cal env (config_body c)\<rparr> \<and>
    config_init env (c0, f1) sem = ((c1, f1), config_post_config_sem sem)"
proof -
  have "c1 = c\<lparr>crc := crc8_cal env (config_body c)\<rparr>" "f1 = config_store env c1 f"
    using assms(2,3) by (auto simp: config_save_def Let_def config_crc_body)
  then show ?thesis
    using config_init_after_store [OF assms(1,4) config_valid_save [OF assms(2,3)]] by simp
qed

theorem config_survives_restart_witness:
  "fst (config_init ram_flash (config_zero\<lparr>ver := 9\<rparr>, snd (config_save ram_flash (config_zero, \<lambda>_. 1)))
     (rt_sem_init 0 0)) = config_save ram_flash (config_zero, \<lambda>_. 1)"
proof -
  obtain c1 f1 where "config_save ram_flash (config_zero, \<lambda>_. 1) = (c1, f1)" by fastforce
  with config_survives_restart [OF ram_flash_law config_wf_zero this ram_flash_store_ok] show ?thesis
    by simp
qed

text \<open>
  If the partition exists, \<open>config_init\<close> ends with a configuration whose array sizes
  and checksum are right, whatever bytes the flash held and whether or not the read
  succeeded: either the stored image or, when the read fails or the checksum is wrong, the
  defaults. It posts the start-up semaphore in every such case.
\<close>

theorem config_init_valid:
  assumes "fal_read_length env" and "fal_partition_find env f ''config'' = Some part"
    and "fal_partition_read env f part 0 CONFIG_SIZE = (bs, r)"
    and "config_init env (c, f) sem = ((c', f'), p)"
  shows "config_valid env c' \<and> p = config_post_config_sem sem \<and>
    (if r < 0 \<or> config_crc env (config_decode bs) \<noteq> bs ! 663
     then (c', f') = config_default env (config_decode bs, f)
     else config_encode c' = bs \<and> f' = f)"
proof -
  have len: "length bs = CONFIG_SIZE"
    using assms(1,3) unfolding fal_read_length_def by (metis fst_conv)
  note wf = config_wf_decode [OF len]
  have crc: "crc (config_decode bs) = bs ! 663" by (simp add: config_decode_def)
  show ?thesis
  proof (cases "r < 0 \<or> config_crc env (config_decode bs) \<noteq> bs ! 663")
    case True
    with assms crc have "(c', f') = config_default env (config_decode bs, f)" "p = config_post_config_sem sem"
      by (auto simp: config_init_def Let_def split: if_splits)
    with True config_valid_default [OF wf, of env f c' f'] show ?thesis by simp
  next
    case False
    with assms crc wf config_encode_decode [OF len] show ?thesis
      by (auto simp: config_init_def config_valid_def)
  qed
qed

theorem config_init_valid_witness:
  "config_valid ram_flash (fst (fst (config_init ram_flash (config_zero, \<lambda>_. 3) (rt_sem_init 0 0))))"
proof -
  obtain bs r where r: "fal_partition_read ram_flash (\<lambda>_. 3) () 0 CONFIG_SIZE = (bs, r)" by fastforce
  obtain c' f' p where i: "config_init ram_flash (config_zero, \<lambda>_. 3) (rt_sem_init 0 0) = ((c', f'), p)"
    by (metis surj_pair)
  have "fal_partition_find ram_flash (\<lambda>_. 3) ''config'' = Some ()" by (simp add: ram_flash_def)
  from config_init_valid [OF ram_flash_read this r i] i show ?thesis by simp
qed

text \<open>
  The string commands store their argument in a field of the declared size; the
  reader sees its first characters up to that size, but the terminator is there only when the
  argument is shorter: an argument of 100 (20 for topics and building number) or more
  characters leaves an unterminated string.
\<close>

theorem config_strings_stored:
  assumes "config_wf c" and "c_string a"
  shows "stores_string (host (mqtt (config_set_host [n, a] c))) a 100 \<and>
    stores_string (user (mqtt (config_set_user [n, a] c))) a 100 \<and>
    stores_string (password (mqtt (config_set_passwd [n, a] c))) a 100 \<and>
    stores_string (mqtt_id (mqtt (config_set_id [n, a] c))) a 100 \<and>
    stores_string (publish_topic (mqtt (config_set_publish_topic [n, a] c))) a 20 \<and>
    stores_string (subscribe_topic (mqtt (config_set_subscribe_topic [n, a] c))) a 20 \<and>
    stores_string (building_id (config_set_buildingid [n, a] c)) a 20"
  using assms by (simp add: config_commands config_wf_def stores_set_chars)

theorem config_strings_stored_witness:
  "\<not> terminated (host (mqtt (config_set_host [[], replicate 100 65] config_zero)))"
  using config_strings_stored [OF config_wf_zero, of "replicate 100 65" "[]"]
  by (simp add: c_string_def stores_string_def)

text \<open>
  \<open>config_set_update_uri\<close> copies without a bound. An argument shorter than 50
  characters changes only \<open>update_uri\<close>; a longer one runs over the firmware version and the
  fields behind it: from 54 characters on, the version is four of the argument's characters
  and the stored address is unterminated.
\<close>

theorem config_update_uri_overflow:
  assumes "config_wf c" and "c_string a"
  shows "(length a < 50 \<longrightarrow>
      (\<exists>u. config_set_update_uri [n, a] c = Some (c\<lparr>update_uri := u\<rparr>) \<and> buf_string u = a)) \<and>
    (54 \<le> length a \<and> length a < 204 \<longrightarrow>
      (\<exists>c'. config_set_update_uri [n, a] c = Some c' \<and> ver c' = of_le32 (slice 50 4 a) \<and>
        \<not> terminated (update_uri c')))"
proof (intro conjI impI)
  assume a: "length a < 50"
  let ?u = "strcpy_into (update_uri c) a"
  have l: "length (building_id c) = 20" "length (mqtt_encode (mqtt c)) = 440" "length (update_uri c) = 50"
    using assms(1) by (auto simp: config_wf_def length_mqtt_encode)
  have "take 460 (config_encode c) @ strcpy_into (drop 460 (config_encode c)) a =
      config_encode (c\<lparr>update_uri := ?u\<rparr>)"
    using l a by (simp add: config_encode_def strcpy_into_def)
  moreover have "config_wf (c\<lparr>update_uri := ?u\<rparr>)" using assms(1) a by (simp add: config_wf_def)
  ultimately have "config_set_update_uri [n, a] c = Some (c\<lparr>update_uri := ?u\<rparr>)"
    using a by (simp add: config_set_update_uri_def UPDATE_URI_OFFSET_def CONFIG_SIZE_def config_decode_encode)
  then show "\<exists>u. config_set_update_uri [n, a] c = Some (c\<lparr>update_uri := u\<rparr>) \<and> buf_string u = a"
    using buf_string_strcpy [OF assms(2)] by blast
next
  assume a: "54 \<le> length a \<and> length a < 204"
  let ?bs = "take 460 (config_encode c) @ strcpy_into (drop 460 (config_encode c)) a"
  have l: "length (config_encode c) = 664" using length_config_encode [OF assms(1)] by (simp add: CONFIG_SIZE_def)
  have "slice 510 4 ?bs = slice 50 4 a" "slice 460 50 ?bs = take 50 a"
    using l a by (simp_all add: slice_def strcpy_into_def)
  moreover have "0 \<notin> set (take 50 a)" using c_string_take [OF assms(2), of 50] by (simp add: c_string_def)
  ultimately have "ver (config_decode ?bs) = of_le32 (slice 50 4 a)"
    "\<not> terminated (update_uri (config_decode ?bs))"
    by (simp_all add: config_decode_def terminated_def)
  then show "\<exists>c'. config_set_update_uri [n, a] c = Some c' \<and> ver c' = of_le32 (slice 50 4 a) \<and>
      \<not> terminated (update_uri c')"
    using a by (simp add: config_set_update_uri_def UPDATE_URI_OFFSET_def CONFIG_SIZE_def)
qed

theorem config_update_uri_overflow_witness:
  "\<exists>c'. config_set_update_uri [[], replicate 60 65] config_zero = Some c' \<and>
     ver c' = of_le32 (replicate 4 65)"
  using config_update_uri_overflow [OF config_wf_zero, of "replicate 60 65" "[]"]
  by (auto simp: c_string_def slice_def)

text \<open>
  \<open>config_timming_save\<close> records the new checksum before it writes, so a second call
  does nothing, also when the first one failed to erase or write: the failed save is not
  repeated until the configuration changes again.
\<close>

theorem config_timming_save_once:
  assumes "config_wf c"
  shows "config_timming_save env (config_timming_save env (c, f)) = config_timming_save env (c, f)"
  using assms by (simp add: config_timming_save_def Let_def)

theorem config_timming_save_once_witness:
  "config_timming_save ram_flash (config_timming_save ram_flash (config_zero, \<lambda>_. 1)) =
     config_timming_save ram_flash (config_zero, \<lambda>_. 1)"
  using config_timming_save_once [OF config_wf_zero] .

text \<open>
  After any sequence of shell commands every array keeps its size, and the periodic
  save then leaves a configuration that the next start accepts as it is.
\<close>

theorem config_session_saved:
  assumes "config_wf c" and "config_timming_save env (run_session ks c, f) = (c', f')"
  shows "config_wf (run_session ks c) \<and> config_valid env c' \<and>
    config_body c' = config_body (run_session ks c)"
  using run_session_wf [OF assms(1)] config_valid_timming_save [OF _ assms(2)] assms(2)
  by (auto simp: config_timming_save_def Let_def split: if_splits)

theorem config_session_saved_witness:
  "config_valid ram_flash (fst (config_timming_save ram_flash
     (run_session [(Set_host, [[], [104, 105]]), (Set_smoke, [[], [53], [54], [55]])] config_zero, \<lambda>_. 1)))"
proof -
  obtain c' f' where t: "config_timming_save ram_flash
      (run_session [(Set_host, [[], [104, 105]]), (Set_smoke, [[], [53], [54], [55]])] config_zero, \<lambda>_. 1) = (c', f')"
    by fastforce
  from config_session_saved [OF config_wf_zero t] t show ?thesis by simp
qed

end
