(* ===== verification/Gpio.thy ===== *)
theory Gpio
  imports Fw_Prelude
begin

text \<open>
  The pins of the board. \<open>GET_PIN\<close> is the numbering of
  \<open>libraries/HAL_Drivers/drv_gpio.h\<close> (sixteen pins per port); the pin names are the macros
  of the application files. The pin driver itself (\<open>rt_pin_write\<close>, \<open>rt_pin_read\<close>) ends in
  the hardware, so the code that uses it takes two functions as parameters: \<open>wr e p v\<close> is
  the environment after the level \<open>v\<close> is driven on pin \<open>p\<close>, \<open>rd e p\<close> the level read.
  Where only the last level driven on each pin matters, the environment is a map from pins
  to levels, updated by \<open>set_level\<close>.
\<close>

definition GET_PIN :: "nat \<Rightarrow> nat \<Rightarrow> nat" where
  "GET_PIN port n = 16 * port + n"

abbreviation (input) PORT_A :: nat where "PORT_A \<equiv> 0"
abbreviation (input) PORT_B :: nat where "PORT_B \<equiv> 1"
abbreviation (input) PORT_C :: nat where "PORT_C \<equiv> 2"

section \<open>Pins of extio.c\<close>

definition EXTIO_CLK_PIN :: nat where "EXTIO_CLK_PIN = GET_PIN PORT_B 14"
definition EXTIO_PE_PIN :: nat where "EXTIO_PE_PIN = GET_PIN PORT_B 15"
definition EXTIO_LE_PIN :: nat where "EXTIO_LE_PIN = GET_PIN PORT_C 6"
definition EXTIO_SMOKE_PIN :: nat where "EXTIO_SMOKE_PIN = GET_PIN PORT_C 7"
definition EXTIO_ALARM_PIN :: nat where "EXTIO_ALARM_PIN = GET_PIN PORT_C 8"
definition EXTIO_POWERDOWN :: nat where "EXTIO_POWERDOWN = GET_PIN PORT_B 9"
definition EXTIO_EMERGENCY :: nat where "EXTIO_EMERGENCY = GET_PIN PORT_C 13"
definition EXTIO_DOOR_OPEN :: nat where "EXTIO_DOOR_OPEN = GET_PIN PORT_C 0"
definition EXTIO_MAIN_ALARM :: nat where "EXTIO_MAIN_ALARM = GET_PIN PORT_A 11"
definition EXTIO_DOOR_KEY_PIN :: nat where "EXTIO_DOOR_KEY_PIN = GET_PIN PORT_B 1"
definition EXTIO_SET_KEY_PIN :: nat where "EXTIO_SET_KEY_PIN = GET_PIN PORT_B 2"

lemmas pin_defs =
  GET_PIN_def EXTIO_CLK_PIN_def EXTIO_PE_PIN_def EXTIO_LE_PIN_def EXTIO_SMOKE_PIN_def
  EXTIO_ALARM_PIN_def EXTIO_POWERDOWN_def EXTIO_EMERGENCY_def EXTIO_DOOR_OPEN_def
  EXTIO_MAIN_ALARM_def EXTIO_DOOR_KEY_PIN_def EXTIO_SET_KEY_PIN_def

section \<open>Pin modes and levels\<close>

text \<open>The modes of \<open>pin.h\<close> and the level map.\<close>

datatype pin_mode =
  PIN_MODE_OUTPUT | PIN_MODE_INPUT | PIN_MODE_INPUT_PULLUP | PIN_MODE_INPUT_PULLDOWN
  | PIN_MODE_OUTPUT_OD

type_synonym levels = "nat \<Rightarrow> bool"

definition set_level :: "levels \<Rightarrow> nat \<Rightarrow> bool \<Rightarrow> levels" where
  "set_level m p v = m(p := v)"

lemma set_level_apply [simp]: "set_level m p v q = (if q = p then v else m q)"
  by (simp add: set_level_def)

end
