(* ===== verification/Extio.thy ===== *)
theory Extio
  imports Gpio
begin

text \<open>
  The extension board (\<open>applications/extio.c\<close>, \<open>extio.h\<close>): eight relay outputs behind a
  serial-in shift register, twenty-four inputs behind three parallel-in shift registers, two
  keys and two supervised lines, all scanned every 100 ticks by \<open>extio_task\<close>. The theory
  has the scan step by step, the models of the two kinds of shift register it talks to, and
  shows that the register ends with the relay byte, that the scan reads the inputs in
  order, what the debouncing of the inputs does for each channel, and how the key and line
  states follow the pins.
\<close>

section \<open>State\<close>

definition EXTIO_IN_MAX :: nat where "EXTIO_IN_MAX = 24"
definition EXTIO_OUT_MAX :: nat where "EXTIO_OUT_MAX = 8"
definition EXTIO_KEY_MAX :: nat where "EXTIO_KEY_MAX = 2"
definition EXTIO_CHECK_AMX :: nat where "EXTIO_CHECK_AMX = 2"

abbreviation (input) EXTIO_SET_KEY :: nat where "EXTIO_SET_KEY \<equiv> 0"
abbreviation (input) EXTIO_OPEN_KEY :: nat where "EXTIO_OPEN_KEY \<equiv> 1"
abbreviation (input) EXTIO_KEY_RELEASE :: u8 where "EXTIO_KEY_RELEASE \<equiv> 0"
abbreviation (input) EXTIO_KEY_PRESS :: u8 where "EXTIO_KEY_PRESS \<equiv> 1"
abbreviation (input) EXTIO_KEY_KEEP :: u8 where "EXTIO_KEY_KEEP \<equiv> 2"
abbreviation (input) EXTIO_CHECK_POWERDOWN :: nat where "EXTIO_CHECK_POWERDOWN \<equiv> 0"
abbreviation (input) EXTIO_CHECK_EMERGENCY :: nat where "EXTIO_CHECK_EMERGENCY \<equiv> 1"

record input_t =
  in_buf :: "u8 list"
  in_save :: "u8 list"
  in_timer :: "u8 list"

record output_t =
  out_byte :: "u8 list"

record key_t =
  k_sta :: "u8 list"
  k_flag :: "u8 list"
  k_time :: "u8 list"

record check_t =
  c_sta :: "u8 list"
  c_time :: "u8 list"

record extio_t =
  x_input :: input_t
  x_output :: output_t
  x_key :: key_t
  x_check :: check_t

text \<open>The accessor macros of \<open>extio.h\<close>.\<close>

definition is_smoke :: "extio_t \<Rightarrow> nat \<Rightarrow> bool" where
  "is_smoke x num \<longleftrightarrow>
     in_save (x_input x) ! ((num - 1) div 8) AND push_bit ((num - 1) mod 8) 1 = 0"

definition is_fire_machine :: "extio_t \<Rightarrow> bool" where
  "is_fire_machine x \<longleftrightarrow>
     in_save (x_input x) ! ((24 - 1) div 8) AND push_bit ((24 - 1) mod 8) 1 = 0"

definition set_alarm :: "nat \<Rightarrow> extio_t \<Rightarrow> extio_t" where
  "set_alarm num x = x\<lparr>x_output := (x_output x)\<lparr>out_byte :=
     (out_byte (x_output x))[(num - 1) div 8 :=
        out_byte (x_output x) ! ((num - 1) div 8) OR push_bit ((num - 1) mod 8) 1]\<rparr>\<rparr>"

definition clr_alarm :: "nat \<Rightarrow> extio_t \<Rightarrow> extio_t" where
  "clr_alarm num x = x\<lparr>x_output := (x_output x)\<lparr>out_byte :=
     (out_byte (x_output x))[(num - 1) div 8 :=
        out_byte (x_output x) ! ((num - 1) div 8) AND NOT (push_bit ((num - 1) mod 8) 1)]\<rparr>\<rparr>"

definition set_all_alarm :: "extio_t \<Rightarrow> extio_t" where
  "set_all_alarm x = x\<lparr>x_output := (x_output x)\<lparr>out_byte := (out_byte (x_output x))[0 := 0xff]\<rparr>\<rparr>"

definition clr_all_alarm :: "extio_t \<Rightarrow> extio_t" where
  "clr_all_alarm x = x\<lparr>x_output := (x_output x)\<lparr>out_byte := (out_byte (x_output x))[0 := 0x00]\<rparr>\<rparr>"

definition key_sta :: "extio_t \<Rightarrow> nat \<Rightarrow> u8" where
  "key_sta x num = k_sta (x_key x) ! num"

definition key_clr :: "nat \<Rightarrow> extio_t \<Rightarrow> extio_t" where
  "key_clr num x = x\<lparr>x_key := (x_key x)\<lparr>k_sta := (k_sta (x_key x))[num := EXTIO_KEY_RELEASE]\<rparr>\<rparr>"

definition is_check :: "extio_t \<Rightarrow> nat \<Rightarrow> bool" where
  "is_check x num \<longleftrightarrow> c_sta (x_check x) ! num = 1"

section \<open>Serial output\<close>

text \<open>\<open>extio_write\<close>: eight times the top bit on the data pin, a clock pulse, a shift.\<close>

fun extio_write_bits :: "('e \<Rightarrow> nat \<Rightarrow> bool \<Rightarrow> 'e) \<Rightarrow> nat \<Rightarrow> u8 \<Rightarrow> 'e \<Rightarrow> 'e" where
  "extio_write_bits wr 0 byte e = e"
| "extio_write_bits wr (Suc n) byte e =
     (let e1 = wr e EXTIO_ALARM_PIN (byte AND 0x80 \<noteq> 0);
          e2 = wr e1 EXTIO_CLK_PIN True;
          e3 = wr e2 EXTIO_CLK_PIN False
      in extio_write_bits wr n (push_bit 1 byte) e3)"

definition extio_write :: "('e \<Rightarrow> nat \<Rightarrow> bool \<Rightarrow> 'e) \<Rightarrow> u8 \<Rightarrow> 'e \<Rightarrow> 'e" where
  "extio_write wr byte e = extio_write_bits wr 8 byte e"

definition extio_output :: "('e \<Rightarrow> nat \<Rightarrow> bool \<Rightarrow> 'e) \<Rightarrow> extio_t \<Rightarrow> 'e \<Rightarrow> 'e" where
  "extio_output wr x e =
     (let e1 = fold (\<lambda>i e. extio_write wr (out_byte (x_output x) ! i) e)
                 [0..<EXTIO_OUT_MAX div 8] e;
          e2 = wr e1 EXTIO_LE_PIN True
      in wr e2 EXTIO_LE_PIN False)"

section \<open>Serial input\<close>

text \<open>
  \<open>extio_read\<close> runs with interrupts disabled. The first chip is sampled once before the
  first clock pulse, so it takes seven pulses for its eight bits.
\<close>

fun extio_read_bits ::
  "('e \<Rightarrow> nat \<Rightarrow> bool \<Rightarrow> 'e) \<Rightarrow> ('e \<Rightarrow> nat \<Rightarrow> bool) \<Rightarrow> nat \<Rightarrow> u8 \<Rightarrow> 'e \<Rightarrow> u8 \<times> 'e" where
  "extio_read_bits wr rd 0 byte e = (byte, e)"
| "extio_read_bits wr rd (Suc n) byte e =
     (let e1 = wr e EXTIO_CLK_PIN True;
          b1 = push_bit 1 byte;
          b2 = (if rd e1 EXTIO_SMOKE_PIN then b1 OR 0x01 else b1);
          e2 = wr e1 EXTIO_CLK_PIN False
      in extio_read_bits wr rd n b2 e2)"

definition extio_read ::
  "('e \<Rightarrow> nat \<Rightarrow> bool \<Rightarrow> 'e) \<Rightarrow> ('e \<Rightarrow> nat \<Rightarrow> bool) \<Rightarrow> bool \<Rightarrow> 'e \<Rightarrow> u8 \<times> 'e" where
  "extio_read wr rd first e =
     (if first
      then extio_read_bits wr rd 7 (if rd e EXTIO_SMOKE_PIN then 0 OR 0x01 else 0) e
      else extio_read_bits wr rd 8 0 e)"

text \<open>\<open>extio_input\<close>: latch the inputs, then fill \<open>buf\<close> from its last byte to its first.\<close>

definition extio_input ::
  "('e \<Rightarrow> nat \<Rightarrow> bool \<Rightarrow> 'e) \<Rightarrow> ('e \<Rightarrow> nat \<Rightarrow> bool) \<Rightarrow> extio_t \<Rightarrow> 'e \<Rightarrow> extio_t \<times> 'e" where
  "extio_input wr rd x e =
     (let e1 = wr (wr e EXTIO_PE_PIN False) EXTIO_PE_PIN True;
          (buf, e2) = fold (\<lambda>i (buf, e).
              let (b, e') = extio_read wr rd (i = 0) e
              in (buf[EXTIO_IN_MAX div 8 - 1 - i := b], e'))
            [0..<EXTIO_IN_MAX div 8] (in_buf (x_input x), e1)
      in (x\<lparr>x_input := (x_input x)\<lparr>in_buf := buf\<rparr>\<rparr>, e2))"

definition extio_door_open :: "('e \<Rightarrow> nat \<Rightarrow> bool \<Rightarrow> 'e) \<Rightarrow> bool \<Rightarrow> 'e \<Rightarrow> 'e" where
  "extio_door_open wr sta e = wr e EXTIO_DOOR_OPEN sta"

definition extio_main_alarm :: "('e \<Rightarrow> nat \<Rightarrow> bool \<Rightarrow> 'e) \<Rightarrow> bool \<Rightarrow> 'e \<Rightarrow> 'e" where
  "extio_main_alarm wr sta e = wr e EXTIO_MAIN_ALARM sta"

section \<open>Debouncing of the inputs\<close>

text \<open>One pass of the inner loop of \<open>extio_input_check\<close>: bit \<open>i\<close> of byte \<open>num\<close>.\<close>

definition input_check_bit :: "nat \<Rightarrow> nat \<Rightarrow> bool \<Rightarrow> input_t \<Rightarrow> input_t" where
  "input_check_bit num i differs s =
     (if differs
      then if in_timer s ! (num * 8 + i) < 30
        then s\<lparr>in_timer := (in_timer s)[num * 8 + i := in_timer s ! (num * 8 + i) + 1]\<rparr>
        else let s1 = s\<lparr>in_timer := (in_timer s)[num * 8 + i := 0]\<rparr>;
                 k = drop_bit i (in_buf s1 ! num)
             in if k AND 0x01 \<noteq> 0
                then s1\<lparr>in_save := (in_save s1)[num := in_save s1 ! num OR push_bit i 1]\<rparr>
                else s1\<lparr>in_save := (in_save s1)[num := in_save s1 ! num AND NOT (push_bit i 1)]\<rparr>
      else s\<lparr>in_timer := (in_timer s)[num * 8 + i := 0]\<rparr>)"

fun input_check_bits :: "nat \<Rightarrow> nat \<Rightarrow> nat \<Rightarrow> u8 \<Rightarrow> input_t \<Rightarrow> input_t" where
  "input_check_bits 0 num i io s = s"
| "input_check_bits (Suc n) num i io s =
     input_check_bits n num (Suc i) (drop_bit 1 io)
       (input_check_bit num i (io AND 0x01 \<noteq> 0) s)"

definition input_check_byte :: "nat \<Rightarrow> input_t \<Rightarrow> input_t" where
  "input_check_byte num s =
     (if in_buf s ! num \<noteq> in_save s ! num
      then input_check_bits 8 num 0 (in_buf s ! num XOR in_save s ! num) s
      else s)"

definition extio_input_check :: "extio_t \<Rightarrow> extio_t" where
  "extio_input_check x =
     x\<lparr>x_input := fold input_check_byte [0..<EXTIO_IN_MAX div 8] (x_input x)\<rparr>"

section \<open>Keys and supervised lines\<close>

text \<open>\<open>key_scan_one\<close> is the loop body of \<open>extio_key_scan\<close>; \<open>pressed\<close> is \<open>sta[i]==0\<close>.\<close>

definition key_scan_one :: "nat \<Rightarrow> bool \<Rightarrow> key_t \<Rightarrow> key_t" where
  "key_scan_one i pressed k =
     (if pressed
      then let k1 = (if k_time k ! i < 255
                     then k\<lparr>k_time := (k_time k)[i := k_time k ! i + 1]\<rparr> else k)
           in if 20 < k_time k1 ! i
              then k1\<lparr>k_sta := (k_sta k1)[i := EXTIO_KEY_KEEP]\<rparr> else k1
      else let k1 = (if k_sta k ! i = EXTIO_KEY_RELEASE \<and> 2 < k_time k ! i
                     then k\<lparr>k_sta := (k_sta k)[i := EXTIO_KEY_PRESS]\<rparr> else k)
           in k1\<lparr>k_time := (k_time k1)[i := 0]\<rparr>)"

definition extio_key_scan :: "('e \<Rightarrow> nat \<Rightarrow> bool) \<Rightarrow> 'e \<Rightarrow> extio_t \<Rightarrow> extio_t" where
  "extio_key_scan rd e x =
     (let sta = [rd e EXTIO_SET_KEY_PIN, rd e EXTIO_DOOR_KEY_PIN]
      in x\<lparr>x_key := fold (\<lambda>i. key_scan_one i (\<not> sta ! i)) [0..<EXTIO_KEY_MAX] (x_key x)\<rparr>)"

text \<open>\<open>check_one\<close> is the loop body of \<open>extio_check\<close>; \<open>low\<close> is \<open>sta[i]==0\<close>.\<close>

definition check_one :: "nat \<Rightarrow> bool \<Rightarrow> check_t \<Rightarrow> check_t" where
  "check_one i low c =
     (if low
      then let c1 = (if c_time c ! i < 255
                     then c\<lparr>c_time := (c_time c)[i := c_time c ! i + 1]\<rparr> else c)
           in if 10 < c_time c1 ! i
              then c1\<lparr>c_sta := (c_sta c1)[i := 1]\<rparr> else c1
      else c\<lparr>c_time := (c_time c)[i := 0], c_sta := (c_sta c)[i := 0]\<rparr>)"

definition extio_check :: "('e \<Rightarrow> nat \<Rightarrow> bool) \<Rightarrow> 'e \<Rightarrow> extio_t \<Rightarrow> extio_t" where
  "extio_check rd e x =
     (let sta = [\<not> rd e EXTIO_POWERDOWN, rd e EXTIO_EMERGENCY]
      in x\<lparr>x_check := fold (\<lambda>i. check_one i (\<not> sta ! i)) [0..<EXTIO_CHECK_AMX] (x_check x)\<rparr>)"

section \<open>The task and its initialisation\<close>

text \<open>One round of \<open>extio_task\<close>; \<open>fm\<close> says that \<open>FIRE_MACHINE\<close> is defined.\<close>

definition extio_round ::
  "bool \<Rightarrow> ('e \<Rightarrow> nat \<Rightarrow> bool \<Rightarrow> 'e) \<Rightarrow> ('e \<Rightarrow> nat \<Rightarrow> bool) \<Rightarrow> extio_t \<times> 'e \<Rightarrow> extio_t \<times> 'e" where
  "extio_round fm wr rd s =
     (let (x, e) = s;
          e1 = extio_output wr x e;
          (x2, e2) = (if fm then let (x1, e') = extio_input wr rd x e1
                                 in (extio_input_check x1, e') else (x, e1));
          x3 = extio_key_scan rd e2 x2
      in (extio_check rd e2 x3, e2))"

text \<open>
  \<open>extio_init\<close>: the state is cleared, both input images start at all ones (no detector
  active), the pins get their modes and levels in the order of the code. \<open>created\<close> says
  whether \<open>rt_thread_create\<close> returned a thread; the result is \<open>RT_EOK\<close> or \<open>RT_ERROR\<close>.
\<close>

definition extio_zero :: extio_t where
  "extio_zero =
     \<lparr>x_input = \<lparr>in_buf = replicate (EXTIO_IN_MAX div 8) 0xff,
                 in_save = replicate (EXTIO_IN_MAX div 8) 0xff,
                 in_timer = replicate EXTIO_IN_MAX 0\<rparr>,
      x_output = \<lparr>out_byte = replicate (EXTIO_OUT_MAX div 8) 0\<rparr>,
      x_key = \<lparr>k_sta = replicate EXTIO_KEY_MAX 0, k_flag = replicate EXTIO_KEY_MAX 0,
               k_time = replicate EXTIO_KEY_MAX 0\<rparr>,
      x_check = \<lparr>c_sta = replicate EXTIO_CHECK_AMX 0, c_time = replicate EXTIO_CHECK_AMX 0\<rparr>\<rparr>"

definition extio_init ::
  "('e \<Rightarrow> nat \<Rightarrow> bool \<Rightarrow> 'e) \<Rightarrow> ('e \<Rightarrow> nat \<Rightarrow> pin_mode \<Rightarrow> 'e) \<Rightarrow> bool \<Rightarrow> 'e
     \<Rightarrow> extio_t \<times> 'e \<times> int" where
  "extio_init wr md created e =
     (let e1 = wr (md e EXTIO_CLK_PIN PIN_MODE_OUTPUT_OD) EXTIO_CLK_PIN False;
          e2 = wr (md e1 EXTIO_PE_PIN PIN_MODE_OUTPUT_OD) EXTIO_PE_PIN False;
          e3 = wr (md e2 EXTIO_LE_PIN PIN_MODE_OUTPUT_OD) EXTIO_LE_PIN False;
          e4 = md e3 EXTIO_SMOKE_PIN PIN_MODE_INPUT;
          e5 = wr (md e4 EXTIO_ALARM_PIN PIN_MODE_OUTPUT_OD) EXTIO_ALARM_PIN False;
          e6 = wr (md e5 EXTIO_MAIN_ALARM PIN_MODE_OUTPUT) EXTIO_MAIN_ALARM False;
          e7 = wr (md e6 EXTIO_DOOR_OPEN PIN_MODE_OUTPUT_OD) EXTIO_DOOR_OPEN False;
          e8 = md (md e7 EXTIO_POWERDOWN PIN_MODE_INPUT) EXTIO_EMERGENCY PIN_MODE_INPUT;
          e9 = md (md e8 EXTIO_DOOR_KEY_PIN PIN_MODE_INPUT_PULLUP)
                 EXTIO_SET_KEY_PIN PIN_MODE_INPUT_PULLUP
      in (extio_zero, e9, if created then 0 else 1))"

section \<open>Well-formed states\<close>

text \<open>
  The array bounds of \<open>extio.h\<close> and the range of the input timers: every operation keeps
  them, so no index of the scan leaves its array.
\<close>

definition input_wf :: "input_t \<Rightarrow> bool" where
  "input_wf s \<longleftrightarrow> length (in_buf s) = 3 \<and> length (in_save s) = 3 \<and> length (in_timer s) = 24 \<and>
     list_all (\<lambda>t. t \<le> 30) (in_timer s)"

definition key_wf :: "key_t \<Rightarrow> bool" where
  "key_wf k \<longleftrightarrow> length (k_sta k) = 2 \<and> length (k_time k) = 2 \<and>
     list_all (\<lambda>v. v \<le> EXTIO_KEY_KEEP) (k_sta k)"

definition check_wf :: "check_t \<Rightarrow> bool" where
  "check_wf c \<longleftrightarrow> length (c_sta c) = 2 \<and> length (c_time c) = 2 \<and>
     list_all (\<lambda>v. v \<le> 1) (c_sta c)"

definition extio_wf :: "extio_t \<Rightarrow> bool" where
  "extio_wf x \<longleftrightarrow> input_wf (x_input x) \<and> length (out_byte (x_output x)) = 1 \<and>
     key_wf (x_key x) \<and> check_wf (x_check x)"

lemmas extio_sizes = EXTIO_IN_MAX_def EXTIO_OUT_MAX_def EXTIO_KEY_MAX_def EXTIO_CHECK_AMX_def

lemma input_wf_check_bit [fw_inv]:
  assumes "input_wf s"
  shows "input_wf (input_check_bit num i d s)"
proof -
  have "t < 30 \<Longrightarrow> t + 1 \<le> 30" for t :: u8
    by (simp add: word_le_nat_alt word_less_nat_alt unat_word_ariths)
  with assms show ?thesis
    by (simp add: input_wf_def input_check_bit_def Let_def list_all_update)
qed

lemma input_wf_check_bits [fw_inv]: "input_wf s \<Longrightarrow> input_wf (input_check_bits n num i io s)"
  by (induction n num i io s rule: input_check_bits.induct) (simp_all add: input_wf_check_bit)

lemma input_wf_check_byte [fw_inv]: "input_wf s \<Longrightarrow> input_wf (input_check_byte num s)"
  by (simp add: input_check_byte_def input_wf_check_bits)

lemma input_wf_fold_check_byte [fw_inv]:
  "input_wf s \<Longrightarrow> input_wf (fold input_check_byte ns s)"
  by (induction ns arbitrary: s) (simp_all add: input_wf_check_byte)

lemma key_wf_scan_one [fw_inv]: "key_wf k \<Longrightarrow> key_wf (key_scan_one i p k)"
  by (simp add: key_wf_def key_scan_one_def Let_def list_all_update)

lemma check_wf_one [fw_inv]: "check_wf c \<Longrightarrow> check_wf (check_one i l c)"
  by (simp add: check_wf_def check_one_def Let_def list_all_update)

lemma extio_wf_init [fw_inv]: "extio_wf extio_zero"
  by (simp add: extio_wf_def extio_zero_def input_wf_def key_wf_def check_wf_def extio_sizes list_all_iff)

text \<open>The scan leaves the parts it does not own alone.\<close>

lemma input_check_bits_buf [simp]: "in_buf (input_check_bits n num i io s) = in_buf s"
  by (induction n num i io s rule: input_check_bits.induct)
    (simp_all add: input_check_bit_def Let_def)

section \<open>The relay register\<close>

text \<open>
  A serial-in parallel-out register as the board has it: it shifts the data pin in at a
  rising clock edge and copies the shift stage to its outputs at a rising latch edge.
\<close>

record sreg =
  r_data :: bool
  r_clk :: bool
  r_le :: bool
  r_shift :: u8
  r_latch :: u8

definition sreg_wr :: "sreg \<Rightarrow> nat \<Rightarrow> bool \<Rightarrow> sreg" where
  "sreg_wr r p v =
     (if p = EXTIO_ALARM_PIN then r\<lparr>r_data := v\<rparr>
      else if p = EXTIO_CLK_PIN
      then (if v \<and> \<not> r_clk r
            then r\<lparr>r_clk := v, r_shift := push_bit 1 (r_shift r) OR of_bool (r_data r)\<rparr>
            else r\<lparr>r_clk := v\<rparr>)
      else if p = EXTIO_LE_PIN
      then (if v \<and> \<not> r_le r then r\<lparr>r_le := v, r_latch := r_shift r\<rparr> else r\<lparr>r_le := v\<rparr>)
      else r)"

lemma sreg_write_bit:
  assumes "\<not> r_clk r"
  shows "extio_write_bits sreg_wr (Suc n) byte r =
    extio_write_bits sreg_wr n (push_bit 1 byte)
      (r\<lparr>r_data := bit byte 7, r_shift := push_bit 1 (r_shift r) OR of_bool (bit byte 7)\<rparr>)"
proof -
  have "(byte AND 128 \<noteq> 0) = bit byte 7" for byte :: u8
    using word_and_push_bit_1 [of byte 7] by (simp add: push_bit_eq_mult)
  with assms show ?thesis
    by (cases r) (simp add: sreg_wr_def pin_defs)
qed

lemma sreg_write_bits:
  assumes "\<not> r_clk r" and "n \<le> 8"
  shows "\<not> r_clk (extio_write_bits sreg_wr n byte r) \<and>
    r_le (extio_write_bits sreg_wr n byte r) = r_le r \<and>
    r_latch (extio_write_bits sreg_wr n byte r) = r_latch r \<and>
    (\<forall>j < 8. bit (r_shift (extio_write_bits sreg_wr n byte r)) j =
       (if j < n then bit byte (8 - n + j) else bit (r_shift r) (j - n)))"
  using assms
proof (induction n arbitrary: byte r)
  case 0
  then show ?case by simp
next
  case (Suc n)
  let ?r = "r\<lparr>r_data := bit byte 7, r_shift := push_bit 1 (r_shift r) OR of_bool (bit byte 7)\<rparr>"
  have "\<not> r_clk ?r" and "n \<le> 8" using Suc.prems by simp_all
  note IH = Suc.IH [OF this, of "push_bit 1 byte"]
  show ?case
    unfolding sreg_write_bit [OF Suc.prems(1)]
  proof (intro conjI allI impI)
    fix j :: nat
    assume "j < 8"
    with IH have "bit (r_shift (extio_write_bits sreg_wr n (push_bit 1 byte) ?r)) j =
      (if j < n then bit (push_bit 1 byte) (8 - n + j) else bit (r_shift ?r) (j - n))" by blast
    also have "\<dots> = (if j < Suc n then bit byte (8 - Suc n + j) else bit (r_shift r) (j - Suc n))"
      using Suc.prems(2) \<open>j < 8\<close>
      by (auto simp: bit_simps fw_bits not_less less_Suc_eq le_Suc_eq Suc_diff_le)
    finally show "bit (r_shift (extio_write_bits sreg_wr n (push_bit 1 byte) ?r)) j =
      (if j < Suc n then bit byte (8 - Suc n + j) else bit (r_shift r) (j - Suc n))" .
  qed (use IH in simp_all)
qed

lemma sreg_write:
  assumes "\<not> r_clk r"
  shows "r_shift (extio_write sreg_wr byte r) = byte"
  using sreg_write_bits [OF assms order.refl, of byte]
  by (simp add: extio_write_def u8_eq_bits)

section \<open>The input registers\<close>

text \<open>
  A chain of parallel-in serial-out registers: a low level on the load pin copies the
  parallel inputs, a rising clock edge moves the next stage to the serial output, which is
  what the data pin reads.
\<close>

record pchain =
  p_par :: "bool list"
  p_sh :: "bool list"
  p_clk :: bool

definition pchain_wr :: "pchain \<Rightarrow> nat \<Rightarrow> bool \<Rightarrow> pchain" where
  "pchain_wr c p v =
     (if p = EXTIO_PE_PIN then (if v then c else c\<lparr>p_sh := p_par c\<rparr>)
      else if p = EXTIO_CLK_PIN
      then (if v \<and> \<not> p_clk c then c\<lparr>p_clk := v, p_sh := tl (p_sh c)\<rparr> else c\<lparr>p_clk := v\<rparr>)
      else c)"

definition pchain_rd :: "pchain \<Rightarrow> nat \<Rightarrow> bool" where
  "pchain_rd c p \<longleftrightarrow> p = EXTIO_SMOKE_PIN \<and> p_sh c \<noteq> [] \<and> hd (p_sh c)"

text \<open>Bits packed with the first one at the top, as \<open>byte <<= 1; byte |= b\<close> does.\<close>

definition pack_bits :: "u8 \<Rightarrow> bool list \<Rightarrow> u8" where
  "pack_bits w bs = fold (\<lambda>b w. push_bit 1 w OR of_bool b) bs w"

lemma bit_pack_bits:
  "length bs \<le> 8 \<Longrightarrow> j < 8 \<Longrightarrow>
     bit (pack_bits w bs) j =
       (if j < length bs then bs ! (length bs - 1 - j) else bit w (j - length bs))"
proof (induction bs arbitrary: w)
  case Nil
  then show ?case by (simp add: pack_bits_def)
next
  case (Cons b bs)
  then have "bit (pack_bits w (b # bs)) j =
    (if j < length bs then bs ! (length bs - 1 - j)
     else bit (push_bit 1 w OR of_bool b) (j - length bs))"
    by (simp add: pack_bits_def)
  with Cons.prems show ?case
    by (auto simp: bit_simps fw_bits nth_Cons' not_less less_Suc_eq)
qed

lemma pchain_read_bits:
  assumes "\<not> p_clk c" and "n < length (p_sh c)"
  shows "extio_read_bits pchain_wr pchain_rd n w c =
    (pack_bits w (take n (tl (p_sh c))), c\<lparr>p_sh := drop n (p_sh c)\<rparr>)"
  using assms
proof (induction n arbitrary: w c)
  case 0
  then show ?case by (simp add: pack_bits_def)
next
  case (Suc n)
  obtain a b bs where sh: "p_sh c = a # b # bs"
    using Suc.prems(2) by (cases "p_sh c"; cases "tl (p_sh c)") auto
  let ?c = "c\<lparr>p_sh := b # bs\<rparr>"
  have "extio_read_bits pchain_wr pchain_rd (Suc n) w c =
    extio_read_bits pchain_wr pchain_rd n (push_bit 1 w OR of_bool b) ?c"
    using Suc.prems(1) sh by (cases c) (simp add: pchain_wr_def pchain_rd_def pin_defs)
  also have "\<dots> = (pack_bits (push_bit 1 w OR of_bool b) (take n bs), ?c\<lparr>p_sh := drop n (b # bs)\<rparr>)"
    using Suc.IH [of ?c] Suc.prems sh by simp
  finally show ?case by (simp add: sh pack_bits_def)
qed

lemma pchain_read_first:
  assumes "\<not> p_clk c" and "8 \<le> length (p_sh c)"
  shows "extio_read pchain_wr pchain_rd True c =
    (pack_bits 0 (take 8 (p_sh c)), c\<lparr>p_sh := drop 7 (p_sh c)\<rparr>)"
proof (cases "p_sh c")
  case Nil
  with assms show ?thesis by simp
next
  case (Cons a as)
  moreover from Cons assms have "extio_read_bits pchain_wr pchain_rd 7 (of_bool a) c =
    (pack_bits (of_bool a) (take 7 as), c\<lparr>p_sh := drop 7 (p_sh c)\<rparr>)"
    by (subst pchain_read_bits) simp_all
  ultimately show ?thesis
    by (cases a) (simp_all add: extio_read_def pchain_rd_def pack_bits_def take_Cons')
qed

lemma pchain_read_next:
  assumes "\<not> p_clk c" and "8 < length (p_sh c)"
  shows "extio_read pchain_wr pchain_rd False c =
    (pack_bits 0 (take 8 (tl (p_sh c))), c\<lparr>p_sh := drop 8 (p_sh c)\<rparr>)"
  using pchain_read_bits [OF assms] by (simp add: extio_read_def)

lemma pchain_input:
  assumes "\<not> p_clk c" and "length (p_par c) = 24" and "length (in_buf (x_input x)) = 3"
  shows "in_buf (x_input (fst (extio_input pchain_wr pchain_rd x c))) =
    [pack_bits 0 (drop 16 (p_par c)), pack_bits 0 (take 8 (drop 8 (p_par c))),
     pack_bits 0 (take 8 (p_par c))]"
proof -
  let ?c = "\<lambda>n. c\<lparr>p_sh := drop n (p_par c)\<rparr>"
  have start: "pchain_wr (pchain_wr c EXTIO_PE_PIN False) EXTIO_PE_PIN True = ?c 0"
    by (simp add: pchain_wr_def)
  have r0: "extio_read pchain_wr pchain_rd True (?c 0) = (pack_bits 0 (take 8 (p_par c)), ?c 7)"
    using assms by (subst pchain_read_first) simp_all
  have r1: "extio_read pchain_wr pchain_rd False (?c 7) =
      (pack_bits 0 (take 8 (drop 8 (p_par c))), ?c 15)"
    using assms by (subst pchain_read_next) (simp_all add: tl_drop_Suc)
  have r2: "extio_read pchain_wr pchain_rd False (?c 15) =
      (pack_bits 0 (take 8 (drop 16 (p_par c))), ?c 23)"
    using assms by (subst pchain_read_next) (simp_all add: tl_drop_Suc)
  obtain u v w where buf: "in_buf (x_input x) = [u, v, w]"
    using assms(3) by (auto simp: length_3_conv)
  have "take 8 (drop 16 (p_par c)) = drop 16 (p_par c)" using assms(2) by simp
  moreover have "[0..<3] = [0, 1, 2::nat]" by (simp add: upt_rec)
  ultimately show ?thesis
    unfolding extio_input_def start
    using r0 r1 r2 by (simp add: extio_sizes buf)
qed

section \<open>Debouncing, channel by channel\<close>

text \<open>
  The view of one channel: the level just read, the level reported to the rest of the
  firmware, the timer. \<open>debounce\<close> is what a scan does to it, where \<open>byte_differs\<close> says
  whether any channel of the same byte differs from its reported level: only then does the
  code look at the channel at all.
\<close>

type_synonym channel = "bool \<times> bool \<times> u8"

definition input_chan :: "input_t \<Rightarrow> nat \<Rightarrow> nat \<Rightarrow> channel" where
  "input_chan s num i =
     (bit (in_buf s ! num) i, bit (in_save s ! num) i, in_timer s ! (num * 8 + i))"

fun debounce :: "bool \<Rightarrow> channel \<Rightarrow> channel" where
  "debounce byte_differs (b, s, t) =
     (if \<not> byte_differs then (b, s, t)
      else if b = s then (b, s, 0)
      else if t < 30 then (b, s, t + 1)
      else (b, b, 0))"

lemma chan_index_neq:
  "i < 8 \<Longrightarrow> i' < 8 \<Longrightarrow> (num' * 8 + i' = num * 8 + i) \<longleftrightarrow> (num' = num \<and> i' = i)" for i :: nat
proof
  assume lt: "i < 8" "i' < 8" and eq: "num' * 8 + i' = num * 8 + i"
  from eq have "(num' * 8 + i') div 8 = (num * 8 + i) div 8" by simp
  with lt have "num' = num" by simp
  with eq show "num' = num \<and> i' = i" by simp
qed simp

lemma input_check_bit_chan:
  assumes "input_wf s" and "num < 3" and "i < 8" and "num' < 3" and "i' < 8"
    and "d \<longleftrightarrow> bit (in_buf s ! num) i \<noteq> bit (in_save s ! num) i"
  shows "input_chan (input_check_bit num i d s) num' i' =
    (if num' = num \<and> i' = i then debounce True (input_chan s num i) else input_chan s num' i')"
proof -
  have len: "num < length (in_save s)" "num * 8 + i < length (in_timer s)"
    using assms by (auto simp: input_wf_def)
  note idx = chan_index_neq [OF assms(3,5), of num' num]
  show ?thesis
  proof (cases "num' = num \<and> i' = i")
    case True
    with assms(3,6) len show ?thesis
      by (simp add: input_chan_def input_check_bit_def Let_def fw_bits)
  next
    case False
    define a a' where "a = num * 8 + i" and "a' = num' * 8 + i'"
    from False idx have "a \<noteq> a'" by (metis a_def a'_def)
    with False len show ?thesis
      unfolding input_chan_def input_check_bit_def Let_def a_def [symmetric] a'_def [symmetric]
      by (auto simp: fw_bits nth_list_update)
  qed
qed

lemma input_check_bit_buf [simp]: "in_buf (input_check_bit num i d s) = in_buf s"
  by (simp add: input_check_bit_def Let_def)

lemma debounce_True_buf: "fst (debounce d c) = fst c"
  by (cases c) simp

lemma input_check_bits_chan:
  assumes "input_wf s" and "num < 3" and "i + n \<le> 8" and "num' < 3" and "i' < 8"
    and "\<And>j. j < n \<Longrightarrow> bit io j \<longleftrightarrow> bit (in_buf s ! num) (i + j) \<noteq> bit (in_save s ! num) (i + j)"
  shows "input_chan (input_check_bits n num i io s) num' i' =
    (if num' = num \<and> i \<le> i' \<and> i' < i + n then debounce True (input_chan s num i')
     else input_chan s num' i')"
  using assms(1,3,6)
proof (induction n arbitrary: i io s)
  case 0
  then show ?case by auto
next
  case (Suc n)
  let ?s = "input_check_bit num i (io AND 1 \<noteq> 0) s"
  have d: "(io AND 1 \<noteq> 0) \<longleftrightarrow> bit (in_buf s ! num) i \<noteq> bit (in_save s ! num) i"
    using Suc.prems(3) [of 0] by (simp add: word_and_1_eq_0)
  have chan: "input_chan ?s m j =
      (if m = num \<and> j = i then debounce True (input_chan s num i) else input_chan s m j)"
    if "m < 3" "j < 8" for m j
    using Suc.prems assms that d by (intro input_check_bit_chan) auto
  have "bit (drop_bit 1 io) j \<longleftrightarrow>
      bit (in_buf ?s ! num) (Suc i + j) \<noteq> bit (in_save ?s ! num) (Suc i + j)" if "j < n" for j
    using Suc.prems(2) Suc.prems(3) [of "Suc j"] that assms(2) chan [of num "Suc i + j"]
    by (simp add: bit_drop_bit_eq input_chan_def)
  then have "input_chan (input_check_bits n num (Suc i) (drop_bit 1 io) ?s) num' i' =
    (if num' = num \<and> Suc i \<le> i' \<and> i' < Suc i + n then debounce True (input_chan ?s num i')
     else input_chan ?s num' i')"
    using Suc.prems(1,2) by (intro Suc.IH) (simp_all add: input_wf_check_bit)
  with chan [OF assms(4,5)] chan [OF assms(2,5)] show ?case by auto
qed

lemma input_check_byte_chan:
  assumes "input_wf s" and "num < 3" and "num' < 3" and "i < 8"
  shows "input_chan (input_check_byte num s) num' i =
    (if num' = num then debounce (in_buf s ! num \<noteq> in_save s ! num) (input_chan s num i)
     else input_chan s num' i)"
proof (cases "in_buf s ! num = in_save s ! num")
  case True
  then show ?thesis
    by (cases "input_chan s num i") (simp add: input_check_byte_def)
next
  case False
  have "input_chan (input_check_bits 8 num 0 (in_buf s ! num XOR in_save s ! num) s) num' i =
    (if num' = num \<and> 0 \<le> i \<and> i < 0 + 8 then debounce True (input_chan s num i)
     else input_chan s num' i)"
    using assms by (intro input_check_bits_chan) (simp_all add: bit_simps)
  with False assms(4) show ?thesis by (simp add: input_check_byte_def)
qed

lemma input_check_byte_frame:
  assumes "input_wf s" and "num < 3" and "num' < 3" and "num' \<noteq> num"
  shows "in_buf (input_check_byte num s) ! num' = in_buf s ! num'"
    and "in_save (input_check_byte num s) ! num' = in_save s ! num'"
  using input_check_byte_chan [OF assms(1-3)] assms(4)
  by (simp_all add: u8_eq_bits input_chan_def)

lemma extio_input_check_chan:
  assumes "input_wf (x_input x)" and "num < 3" and "i < 8"
  shows "input_chan (x_input (extio_input_check x)) num i =
    debounce (in_buf (x_input x) ! num \<noteq> in_save (x_input x) ! num) (input_chan (x_input x) num i)"
proof -
  let ?s = "x_input x"
  let ?s0 = "input_check_byte 0 ?s" and ?s1 = "input_check_byte 1 (input_check_byte 0 ?s)"
  have wf: "input_wf ?s0" "input_wf ?s1"
    using assms(1) by (simp_all add: input_wf_check_byte)
  have fin: "x_input (extio_input_check x) = input_check_byte 2 ?s1"
    by (simp add: extio_input_check_def extio_sizes upt_rec numeral_2_eq_2)
  from assms(2) consider "num = 0" | "num = 1" | "num = 2" by linarith
  then show ?thesis
  proof cases
    case 1
    with assms wf show ?thesis
      by (simp add: fin input_check_byte_chan)
  next
    case 2
    with assms wf input_check_byte_frame [OF assms(1), of 0 1] show ?thesis
      by (simp add: fin input_check_byte_chan)
  next
    case 3
    with assms wf input_check_byte_frame [OF assms(1), of 0 2] input_check_byte_frame [OF wf(1), of 1 2]
    show ?thesis
      by (simp add: fin input_check_byte_chan)
  qed
qed

section \<open>Counting consecutive samples\<close>

text \<open>
  The keys and the supervised lines share a contract: a scan that finds the line low counts
  up to 255 and stays there, a scan that finds it high clears the count.
\<close>

locale low_counter =
  fixes scan :: "bool \<Rightarrow> 's \<Rightarrow> 's" and count :: "'s \<Rightarrow> u8" and inv :: "'s \<Rightarrow> bool"
  assumes inv_scan: "inv s \<Longrightarrow> inv (scan low s)"
    and count_low: "inv s \<Longrightarrow> count (scan True s) = sat_inc (count s)"
    and count_high: "inv s \<Longrightarrow> count (scan False s) = 0"
begin

lemma inv_hold: "inv s \<Longrightarrow> inv ((scan True ^^ n) s)"
  by (induction n) (simp_all add: inv_scan)

lemma count_hold: "inv s \<Longrightarrow> unat (count ((scan True ^^ n) s)) = min (unat (count s) + n) 255"
proof (induction n)
  case 0
  then show ?case using unat_le_255 [of "count s"] by simp
next
  case (Suc n)
  then show ?case
    by (simp add: count_low inv_hold unat_sat_inc)
qed

lemma count_after_high: "inv s \<Longrightarrow>
    unat (count (run scan (is @ [False] @ replicate n True) s)) = min n 255"
  by (simp add: run_replicate count_hold run_invariant [where P = inv] inv_scan count_high)

end

definition key_inv :: "nat \<Rightarrow> key_t \<Rightarrow> bool" where
  "key_inv i k \<longleftrightarrow> i < length (k_sta k) \<and> i < length (k_time k)"

definition check_inv :: "nat \<Rightarrow> check_t \<Rightarrow> bool" where
  "check_inv i c \<longleftrightarrow> i < length (c_sta c) \<and> i < length (c_time c)"

interpretation key_line: low_counter "key_scan_one i" "\<lambda>k. k_time k ! i" "key_inv i" for i
  by unfold_locales (auto simp: key_scan_one_def key_inv_def sat_inc_def Let_def)

interpretation check_line: low_counter "check_one i" "\<lambda>c. c_time c ! i" "check_inv i" for i
  by unfold_locales (auto simp: check_one_def check_inv_def sat_inc_def Let_def)

lemma key_sta_low:
  assumes "key_inv i k"
  shows "k_sta (key_scan_one i True k) ! i =
    (if 20 < unat (k_time (key_scan_one i True k) ! i) then EXTIO_KEY_KEEP else k_sta k ! i)"
  using assms by (simp add: key_scan_one_def key_inv_def Let_def word_less_nat_alt)

lemma key_sta_hold:
  assumes "key_inv i k" and "k_time k ! i = 0" and "k_sta k ! i = EXTIO_KEY_RELEASE"
  shows "k_sta ((key_scan_one i True ^^ n) k) ! i =
    (if 20 < n then EXTIO_KEY_KEEP else EXTIO_KEY_RELEASE)"
proof (induction n)
  case 0
  then show ?case using assms by simp
next
  case (Suc n)
  have "key_inv i ((key_scan_one i True ^^ n) k)"
    using assms(1) by (rule key_line.inv_hold)
  note step = key_sta_low [OF this]
  have "unat (k_time (key_scan_one i True ((key_scan_one i True ^^ n) k)) ! i) = min (Suc n) 255"
    using key_line.count_hold [OF assms(1), of "Suc n"] assms(2) by simp
  with step Suc.IH show ?case by simp
qed

lemma check_sta_low:
  assumes "check_inv i c"
  shows "c_sta (check_one i True c) ! i =
    (if 10 < unat (c_time (check_one i True c) ! i) then 1 else c_sta c ! i)"
  using assms by (simp add: check_one_def check_inv_def Let_def word_less_nat_alt)

lemma check_sta_hold:
  assumes "check_inv i c" and "c_time c ! i = 0" and "c_sta c ! i = 0"
  shows "c_sta ((check_one i True ^^ n) c) ! i = (if 10 < n then 1 else 0)"
proof (induction n)
  case 0
  then show ?case using assms by simp
next
  case (Suc n)
  have "check_inv i ((check_one i True ^^ n) c)"
    using assms(1) by (rule check_line.inv_hold)
  note step = check_sta_low [OF this]
  have "unat (c_time (check_one i True ((check_one i True ^^ n) c)) ! i) = min (Suc n) 255"
    using check_line.count_hold [OF assms(1), of "Suc n"] assms(2) by simp
  with step Suc.IH show ?case by simp
qed

section \<open>A whole round\<close>

lemma extio_input_buf:
  "\<exists>bs. length bs = length (in_buf (x_input x)) \<and>
     fst (extio_input wr rd x e) = x\<lparr>x_input := (x_input x)\<lparr>in_buf := bs\<rparr>\<rparr>"
proof -
  let ?f = "\<lambda>i (buf, e). let (b, e') = extio_read wr rd (i = 0) e
              in (buf[EXTIO_IN_MAX div 8 - 1 - i := b], e')"
  have "length (fst (fold ?f ns p)) = length (fst p)" for ns p
    by (induction ns arbitrary: p) (simp_all add: case_prod_beta Let_def)
  then show ?thesis
    by (fastforce simp: extio_input_def Let_def case_prod_beta)
qed

lemma extio_wf_input [fw_inv]: "extio_wf x \<Longrightarrow> extio_wf (fst (extio_input wr rd x e))"
  using extio_input_buf [of x wr rd e] by (auto simp: extio_wf_def input_wf_def)

lemma extio_wf_input_check [fw_inv]: "extio_wf x \<Longrightarrow> extio_wf (extio_input_check x)"
  by (simp add: extio_wf_def extio_input_check_def input_wf_fold_check_byte)

lemma extio_wf_key_scan [fw_inv]: "extio_wf x \<Longrightarrow> extio_wf (extio_key_scan rd e x)"
  by (simp add: extio_wf_def extio_key_scan_def extio_sizes numeral_2_eq_2 key_wf_scan_one Let_def)

lemma extio_wf_check [fw_inv]: "extio_wf x \<Longrightarrow> extio_wf (extio_check rd e x)"
  by (simp add: extio_wf_def extio_check_def extio_sizes numeral_2_eq_2 check_wf_one Let_def)

lemma extio_wf_round [fw_inv]:
  assumes "extio_wf x"
  shows "extio_wf (fst (extio_round fm wr rd (x, e)))"
proof -
  have "extio_wf (extio_input_check (fst (extio_input wr rd x e')))" for e'
    using assms by (simp add: extio_wf_input extio_wf_input_check)
  with assms show ?thesis
    by (simp add: extio_round_def Let_def case_prod_beta extio_wf_key_scan extio_wf_check)
qed

lemma extio_input_check_buf [simp]:
  "in_buf (x_input (extio_input_check x)) = in_buf (x_input x)"
proof -
  have "in_buf (fold input_check_byte ns s) = in_buf s" for ns s
    by (induction ns arbitrary: s) (simp_all add: input_check_byte_def)
  then show ?thesis by (simp add: extio_input_check_def)
qed

text \<open>A scan of the inputs that finds the bytes \<open>v\<close>.\<close>

definition scan_with :: "u8 list \<Rightarrow> extio_t \<Rightarrow> extio_t" where
  "scan_with v x = extio_input_check (x\<lparr>x_input := (x_input x)\<lparr>in_buf := v\<rparr>\<rparr>)"

definition glitch_round :: "u8 list \<Rightarrow> u8 list \<Rightarrow> extio_t \<Rightarrow> extio_t" where
  "glitch_round v g x = scan_with v (scan_with g x)"

lemma scan_with_wf [fw_inv]:
  "input_wf (x_input x) \<Longrightarrow> length v = 3 \<Longrightarrow> input_wf (x_input (scan_with v x))"
  using input_wf_fold_check_byte [of "(x_input x)\<lparr>in_buf := v\<rparr>"]
  by (simp add: scan_with_def extio_input_check_def input_wf_def)

lemma scan_with_chan:
  assumes "input_wf (x_input x)" and "length v = 3" and "num < 3" and "i < 8"
  shows "bit (in_save (x_input (scan_with v x)) ! num) i =
      fst (snd (debounce (v ! num \<noteq> in_save (x_input x) ! num)
        (bit (v ! num) i, bit (in_save (x_input x) ! num) i, in_timer (x_input x) ! (num * 8 + i))))"
    and "in_timer (x_input (scan_with v x)) ! (num * 8 + i) =
      snd (snd (debounce (v ! num \<noteq> in_save (x_input x) ! num)
        (bit (v ! num) i, bit (in_save (x_input x) ! num) i, in_timer (x_input x) ! (num * 8 + i))))"
proof -
  let ?x = "x\<lparr>x_input := (x_input x)\<lparr>in_buf := v\<rparr>\<rparr>"
  have "input_wf (x_input ?x)" using assms(1,2) by (simp add: input_wf_def)
  then have "input_chan (x_input (scan_with v x)) num i =
      debounce (v ! num \<noteq> in_save (x_input x) ! num) (input_chan (x_input ?x) num i)"
    unfolding scan_with_def using extio_input_check_chan [of ?x num i] assms(3,4) by simp
  then show "bit (in_save (x_input (scan_with v x)) ! num) i =
      fst (snd (debounce (v ! num \<noteq> in_save (x_input x) ! num)
        (bit (v ! num) i, bit (in_save (x_input x) ! num) i, in_timer (x_input x) ! (num * 8 + i))))"
    and "in_timer (x_input (scan_with v x)) ! (num * 8 + i) =
      snd (snd (debounce (v ! num \<noteq> in_save (x_input x) ! num)
        (bit (v ! num) i, bit (in_save (x_input x) ! num) i, in_timer (x_input x) ! (num * 8 + i))))"
    by (simp_all add: input_chan_def prod_eq_iff)
qed

lemma scan_agree:
  assumes "input_wf (x_input x)" and "length v = 3" and "num < 3" and "i < 8"
    and "in_save (x_input x) ! num = v ! num"
  shows "in_save (x_input (scan_with v x)) ! num = v ! num"
    and "in_timer (x_input (scan_with v x)) ! (num * 8 + i) = in_timer (x_input x) ! (num * 8 + i)"
  using scan_with_chan [OF assms(1-3)] assms(4,5) by (simp_all add: u8_eq_bits)

lemma scan_glitch:
  assumes "input_wf (x_input x)" and "length g = 3" and "num < 3" and "i < 8"
    and g: "\<And>j. j < 8 \<Longrightarrow> bit (g ! num) j = (bit (in_save (x_input x) ! num) j \<noteq> (j = i))"
    and "in_timer (x_input x) ! (num * 8 + i) = t"
  shows "in_save (x_input (scan_with g x)) ! num =
      (if t < 30 then in_save (x_input x) ! num else g ! num)"
    and "in_timer (x_input (scan_with g x)) ! (num * 8 + i) = (if t < 30 then t + 1 else 0)"
proof -
  have d: "g ! num \<noteq> in_save (x_input x) ! num" using g [OF assms(4)] by auto
  have save: "bit (in_save (x_input (scan_with g x)) ! num) j =
      (if j = i \<and> \<not> t < 30 then bit (g ! num) j else bit (in_save (x_input x) ! num) j)"
    if "j < 8" for j
    using scan_with_chan(1) [OF assms(1-3) that] d g [OF that] assms(6) by auto
  then show "in_save (x_input (scan_with g x)) ! num =
      (if t < 30 then in_save (x_input x) ! num else g ! num)"
    using g by (auto simp: u8_eq_bits)
  show "in_timer (x_input (scan_with g x)) ! (num * 8 + i) = (if t < 30 then t + 1 else 0)"
    using scan_with_chan(2) [OF assms(1-4)] d g [OF assms(4)] assms(6) by auto
qed

lemma hold_scans:
  assumes "input_wf (x_input x)" and "num < 3" and "i < 8"
    and "bit (in_buf (x_input x) ! num) i \<noteq> bit (in_save (x_input x) ! num) i"
    and "in_timer (x_input x) ! (num * 8 + i) = 0" and "n \<le> 30"
  shows "input_wf (x_input ((extio_input_check ^^ n) x)) \<and>
    in_buf (x_input ((extio_input_check ^^ n) x)) = in_buf (x_input x) \<and>
    input_chan (x_input ((extio_input_check ^^ n) x)) num i =
      (bit (in_buf (x_input x) ! num) i, bit (in_save (x_input x) ! num) i, of_nat n)"
  using assms(6)
proof (induction n)
  case 0
  then show ?case using assms by (simp add: input_chan_def)
next
  case (Suc n)
  let ?y = "(extio_input_check ^^ n) x"
  have lt: "(of_nat n :: u8) < 30" using Suc.prems by (simp add: word_less_nat_alt unat_of_nat)
  have IH: "input_wf (x_input ?y)" "in_buf (x_input ?y) = in_buf (x_input x)"
    "input_chan (x_input ?y) num i =
      (bit (in_buf (x_input x) ! num) i, bit (in_save (x_input x) ! num) i, of_nat n)"
    using Suc by simp_all
  then have "in_buf (x_input ?y) ! num \<noteq> in_save (x_input ?y) ! num"
    using assms(4) by (auto simp: input_chan_def)
  then have "input_chan (x_input (extio_input_check ?y)) num i =
      (bit (in_buf (x_input x) ! num) i, bit (in_save (x_input x) ! num) i, of_nat (Suc n))"
    using extio_input_check_chan [OF IH(1) assms(2,3)] IH(3) lt assms(4) by simp
  moreover have "input_wf (x_input (extio_input_check ?y))"
    using IH(1) by (simp add: extio_input_check_def input_wf_fold_check_byte)
  ultimately show ?case using IH(2) by simp
qed

section \<open>Properties\<close>

text \<open>
  After \<open>extio_output\<close> the relay register shows the output byte, bit for bit,
  whatever it held before, provided the clock and latch lines were low, as
  \<open>extio_init\<close> and every earlier call leave them.
\<close>

theorem relay_register_loaded:
  assumes "\<not> r_clk r" and "\<not> r_le r" and "extio_wf x"
  shows "r_latch (extio_output sreg_wr x r) = out_byte (x_output x) ! 0 \<and>
    \<not> r_clk (extio_output sreg_wr x r) \<and> \<not> r_le (extio_output sreg_wr x r)"
  using sreg_write [OF assms(1), of "out_byte (x_output x) ! 0"]
    sreg_write_bits [OF assms(1) order.refl, of "out_byte (x_output x) ! 0"] assms(2)
  by (simp add: extio_output_def extio_sizes sreg_wr_def pin_defs extio_write_def Let_def)

theorem relay_register_loaded_witness:
  "r_latch (extio_output sreg_wr (set_alarm 3 extio_zero)
      \<lparr>r_data = False, r_clk = False, r_le = False, r_shift = 0xAA, r_latch = 0x55\<rparr>) = 4"
proof -
  let ?x = "set_alarm 3 extio_zero"
  let ?r = "\<lparr>r_data = False, r_clk = False, r_le = False, r_shift = 0xAA, r_latch = 0x55\<rparr>"
  have "extio_wf ?x"
    using extio_wf_init by (simp add: extio_wf_def set_alarm_def)
  then have "r_latch (extio_output sreg_wr ?x ?r) = out_byte (x_output ?x) ! 0"
    using relay_register_loaded [of ?r ?x] by simp
  then show ?thesis
    by (simp add: set_alarm_def extio_zero_def extio_sizes)
qed

text \<open>
  \<open>extio_input\<close> reads the chain of input registers completely and in order: the
  first stage of the chain is the top bit of the last byte, the twenty-fourth the bottom
  bit of the first byte.
\<close>

theorem input_scan_order:
  assumes "\<not> p_clk c" and "length (p_par c) = 24" and "extio_wf x" and "num < 3" and "i < 8"
  shows "bit (in_buf (x_input (fst (extio_input pchain_wr pchain_rd x c))) ! num) i =
    p_par c ! (8 * (2 - num) + (7 - i))"
proof -
  have buf: "in_buf (x_input (fst (extio_input pchain_wr pchain_rd x c))) =
    [pack_bits 0 (drop 16 (p_par c)), pack_bits 0 (take 8 (drop 8 (p_par c))),
     pack_bits 0 (take 8 (p_par c))]"
    using assms by (intro pchain_input) (simp_all add: extio_wf_def input_wf_def)
  from assms(4) consider "num = 0" | "num = 1" | "num = 2" by linarith
  then show ?thesis
    by cases (use assms in \<open>simp_all add: buf bit_pack_bits\<close>)
qed

theorem input_scan_order_witness:
  "\<not> bit (in_buf (x_input (fst (extio_input pchain_wr pchain_rd extio_zero
     \<lparr>p_par = (replicate 24 True)[21 := False], p_sh = [], p_clk = False\<rparr>))) ! 0) 2"
proof -
  let ?c = "\<lparr>p_par = (replicate 24 True)[21 := False], p_sh = [], p_clk = False\<rparr>"
  have "bit (in_buf (x_input (fst (extio_input pchain_wr pchain_rd extio_zero ?c))) ! 0) 2 =
      p_par ?c ! (8 * (2 - 0) + (7 - 2))"
    by (rule input_scan_order) (simp_all add: extio_wf_init)
  then show ?thesis by simp
qed

text \<open>
  Claim C3: \<open>extio_input_check\<close>, which works on bytes with masks and shifts, is exactly
  \<open>debounce\<close> on each of the twenty-four channels, and keeps the array bounds and the
  timers within 30.
\<close>

theorem debounce_refines_channels:
  assumes "extio_wf x"
  shows "extio_wf (extio_input_check x) \<and>
    (\<forall>num < 3. \<forall>i < 8. input_chan (x_input (extio_input_check x)) num i =
       debounce (in_buf (x_input x) ! num \<noteq> in_save (x_input x) ! num)
         (input_chan (x_input x) num i))"
  using assms extio_wf_input_check [OF assms]
  by (simp add: extio_input_check_chan extio_wf_def)

theorem debounce_refines_channels_witness:
  "input_chan (x_input (extio_input_check (extio_zero\<lparr>x_input := (x_input extio_zero)
     \<lparr>in_buf := [0xfe, 0xff, 0xff]\<rparr>\<rparr>))) 0 0 = (False, True, 1)"
proof -
  let ?x = "extio_zero\<lparr>x_input := (x_input extio_zero)\<lparr>in_buf := [0xfe, 0xff, 0xff]\<rparr>\<rparr>"
  have "extio_wf ?x"
    using extio_wf_init by (simp add: extio_wf_def input_wf_def)
  then have "input_chan (x_input (extio_input_check ?x)) 0 0 =
      debounce (in_buf (x_input ?x) ! 0 \<noteq> in_save (x_input ?x) ! 0) (input_chan (x_input ?x) 0 0)"
    using debounce_refines_channels [of ?x] by simp
  then show ?thesis
    by (simp add: input_chan_def extio_zero_def extio_sizes)
qed

text \<open>
  An input that stays away from its reported level is taken over by the
  thirty-first scan and not before, however the other channels move.
\<close>

theorem debounce_stable_input:
  assumes "extio_wf x" and "num < 3" and "i < 8"
    and "bit (in_buf (x_input x) ! num) i \<noteq> bit (in_save (x_input x) ! num) i"
    and "in_timer (x_input x) ! (num * 8 + i) = 0"
  shows "(\<forall>n \<le> 30. bit (in_save (x_input ((extio_input_check ^^ n) x)) ! num) i =
             bit (in_save (x_input x) ! num) i) \<and>
    bit (in_save (x_input ((extio_input_check ^^ 31) x)) ! num) i = bit (in_buf (x_input x) ! num) i"
proof
  have wf: "input_wf (x_input x)" using assms(1) by (simp add: extio_wf_def)
  note scans = hold_scans [OF wf assms(2-5)]
  show "\<forall>n \<le> 30. bit (in_save (x_input ((extio_input_check ^^ n) x)) ! num) i =
             bit (in_save (x_input x) ! num) i"
    using scans by (auto simp: input_chan_def)
  let ?y = "(extio_input_check ^^ 30) x"
  have y: "input_wf (x_input ?y)" "in_buf (x_input ?y) = in_buf (x_input x)"
    "input_chan (x_input ?y) num i =
       (bit (in_buf (x_input x) ! num) i, bit (in_save (x_input x) ! num) i, 30)"
    using scans [of 30] by simp_all
  then have "in_buf (x_input ?y) ! num \<noteq> in_save (x_input ?y) ! num"
    using assms(4) by (auto simp: input_chan_def)
  then have "input_chan (x_input (extio_input_check ?y)) num i =
      (bit (in_buf (x_input x) ! num) i, bit (in_buf (x_input x) ! num) i, 0)"
    using extio_input_check_chan [OF y(1) assms(2,3)] y(3) assms(4) by simp
  moreover have "(extio_input_check ^^ 31) x = extio_input_check ?y"
    using funpow.simps(2) [of 30 extio_input_check] by (simp add: fun_eq_iff)
  ultimately show "bit (in_save (x_input ((extio_input_check ^^ 31) x)) ! num) i =
      bit (in_buf (x_input x) ! num) i"
    by (simp add: input_chan_def)
qed

theorem debounce_stable_input_witness:
  "\<not> bit (in_save (x_input ((extio_input_check ^^ 31) (extio_zero\<lparr>x_input := (x_input extio_zero)
     \<lparr>in_buf := [0xfe, 0xff, 0xff]\<rparr>\<rparr>))) ! 0) 0"
proof -
  let ?x = "extio_zero\<lparr>x_input := (x_input extio_zero)\<lparr>in_buf := [0xfe, 0xff, 0xff]\<rparr>\<rparr>"
  have "extio_wf ?x"
    using extio_wf_init by (simp add: extio_wf_def input_wf_def)
  moreover have "bit (in_buf (x_input ?x) ! 0) 0 \<noteq> bit (in_save (x_input ?x) ! 0) 0"
    by (simp add: extio_zero_def extio_sizes)
  moreover have "in_timer (x_input ?x) ! (0 * 8 + 0) = 0"
    by (simp add: extio_zero_def extio_sizes)
  ultimately show ?thesis
    using debounce_stable_input [of ?x 0 0] by simp
qed

text \<open>
  The timer of a channel survives scans in which its whole byte agrees with the
  reported byte. A channel that glitches for single scans, thirty-one times in all, with
  any agreement in between, is therefore reported as changed, although it never held the
  new level for two scans in a row.
\<close>

theorem glitches_accumulate:
  assumes "extio_wf x" and "num < 3" and "i < 8" and "v = in_save (x_input x)"
    and "in_timer (x_input x) ! (num * 8 + i) = 0"
    and "g = v[num := v ! num XOR push_bit i 1]"
  shows "(\<forall>n \<le> 30. in_save (x_input ((glitch_round v g ^^ n) x)) ! num = v ! num) \<and>
    bit (in_save (x_input (scan_with g ((glitch_round v g ^^ 30) x))) ! num) i \<noteq> bit (v ! num) i"
proof -
  let ?y = "\<lambda>n. (glitch_round v g ^^ n) x"
  have wf: "input_wf (x_input x)" and len: "length v = 3" "length g = 3"
    using assms by (simp_all add: extio_wf_def input_wf_def)
  have g: "bit (g ! num) j = (bit (v ! num) j \<noteq> (j = i))" if "j < 8" for j
    using that assms(2,3) len by (auto simp: assms(6) bit_simps)
  have inv: "input_wf (x_input (?y n)) \<and> in_save (x_input (?y n)) ! num = v ! num \<and>
      in_timer (x_input (?y n)) ! (num * 8 + i) = of_nat n" if "n \<le> 30" for n
    using that
  proof (induction n)
    case 0
    then show ?case using wf assms(4,5) by simp
  next
    case (Suc n)
    then have IH: "input_wf (x_input (?y n))" "in_save (x_input (?y n)) ! num = v ! num"
      "in_timer (x_input (?y n)) ! (num * 8 + i) = of_nat n" by simp_all
    have lt: "(of_nat n :: u8) < 30" using Suc.prems by (simp add: word_less_nat_alt unat_of_nat)
    let ?z = "scan_with g (?y n)"
    have z: "in_save (x_input ?z) ! num = v ! num" "in_timer (x_input ?z) ! (num * 8 + i) = of_nat (Suc n)"
      using scan_glitch [OF IH(1) len(2) assms(2,3) _ IH(3)] g IH(2) lt by simp_all
    have "input_wf (x_input ?z)" using IH(1) len by (simp add: scan_with_wf)
    from scan_agree [OF this len(1) assms(2,3) z(1)] z(2) scan_with_wf [OF this len(1)]
    show ?case by (simp add: glitch_round_def [of v g "?y n"])
  qed
  then have y: "input_wf (x_input (?y 30))" "in_save (x_input (?y 30)) ! num = v ! num"
    "in_timer (x_input (?y 30)) ! (num * 8 + i) = 30" by simp_all
  have "in_save (x_input (scan_with g (?y 30))) ! num = g ! num"
    using scan_glitch(1) [OF y(1) len(2) assms(2,3) _ y(3)] g y(2) by simp
  with inv g [OF assms(3)] show ?thesis by simp
qed

theorem glitches_accumulate_witness:
  "is_smoke (scan_with [0xfd, 0xff, 0xff]
     ((glitch_round [0xff, 0xff, 0xff] [0xfd, 0xff, 0xff] ^^ 30) extio_zero)) 2"
proof -
  have v: "in_save (x_input extio_zero) = [0xff, 0xff, 0xff]"
    and t: "in_timer (x_input extio_zero) ! (0 * 8 + 1) = 0"
    by (simp_all add: extio_zero_def extio_sizes numeral_3_eq_3)
  have g: "[0xfd, 0xff, 0xff] = [0xff, 0xff, 0xff :: u8][0 := [0xff, 0xff, 0xff] ! 0 XOR push_bit 1 1]"
    by simp
  from glitches_accumulate [OF extio_wf_init _ _ v [symmetric] t g]
  show ?thesis
    by (simp add: is_smoke_def word_and_push_bit_1 [of _ 1, simplified])
qed

text \<open>
  A key held down for \<open>n\<close> scans and then released is ignored for \<open>n \<le> 2\<close>, reported
  as pressed for \<open>3 \<le> n \<le> 20\<close>, and reported as kept down for longer holds; the release
  clears the counter.
\<close>

theorem key_press_classification:
  assumes "key_wf k" and "i < 2" and "k_time k ! i = 0" and "k_sta k ! i = EXTIO_KEY_RELEASE"
  shows "k_sta (key_scan_one i False ((key_scan_one i True ^^ n) k)) ! i =
      (if n \<le> 2 then EXTIO_KEY_RELEASE else if n \<le> 20 then EXTIO_KEY_PRESS else EXTIO_KEY_KEEP) \<and>
    k_time (key_scan_one i False ((key_scan_one i True ^^ n) k)) ! i = 0"
proof -
  let ?k = "(key_scan_one i True ^^ n) k"
  have inv: "key_inv i k" using assms(1,2) by (simp add: key_inv_def key_wf_def)
  have k: "key_inv i ?k" using inv by (rule key_line.inv_hold)
  have t: "unat (k_time ?k ! i) = min n 255"
    using key_line.count_hold [OF inv, of n] assms(3) by simp
  have "k_sta ?k ! i = (if 20 < n then EXTIO_KEY_KEEP else EXTIO_KEY_RELEASE)"
    using inv assms(3,4) by (rule key_sta_hold)
  with k t have "k_sta (key_scan_one i False ?k) ! i =
      (if n \<le> 2 then EXTIO_KEY_RELEASE else if n \<le> 20 then EXTIO_KEY_PRESS else EXTIO_KEY_KEEP)"
    by (auto simp: key_scan_one_def key_inv_def Let_def word_less_nat_alt)
  with key_line.count_high [OF k] show ?thesis by simp
qed

theorem key_press_classification_witness:
  "k_sta (key_scan_one EXTIO_OPEN_KEY False
     ((key_scan_one EXTIO_OPEN_KEY True ^^ 5) (x_key extio_zero))) ! EXTIO_OPEN_KEY = EXTIO_KEY_PRESS"
proof -
  have "key_wf (x_key extio_zero)" using extio_wf_init by (simp add: extio_wf_def)
  moreover have "k_time (x_key extio_zero) ! 1 = 0" "k_sta (x_key extio_zero) ! 1 = 0"
    by (simp_all add: extio_zero_def extio_sizes)
  ultimately show ?thesis
    using key_press_classification [of "x_key extio_zero" 1 5] by simp
qed

text \<open>
  A supervised line is reported active after eleven consecutive low samples and not
  before, and a single high sample clears the report at once, whatever the history.
\<close>

theorem check_line_delay:
  assumes "check_wf c" and "i < 2"
  shows "c_sta ((check_one i True ^^ n) (check_one i False c)) ! i = (if n \<le> 10 then 0 else 1)"
proof -
  let ?c = "check_one i False c"
  have "check_inv i c" using assms by (simp add: check_inv_def check_wf_def)
  then have "check_inv i ?c" "c_time ?c ! i = 0" "c_sta ?c ! i = 0"
    by (simp_all add: check_line.inv_scan check_line.count_high) (simp add: check_inv_def check_one_def)
  from check_sta_hold [OF this, of n] show ?thesis by simp
qed

theorem check_line_delay_witness:
  "is_check (extio_zero\<lparr>x_check := (check_one EXTIO_CHECK_EMERGENCY True ^^ 11)
     (check_one EXTIO_CHECK_EMERGENCY False (x_check extio_zero))\<rparr>) EXTIO_CHECK_EMERGENCY"
proof -
  have "check_wf (x_check extio_zero)" using extio_wf_init by (simp add: extio_wf_def)
  from check_line_delay [OF this, of 1 11] show ?thesis by (simp add: is_check_def)
qed

text \<open>
  Every round of \<open>extio_task\<close>, with or without the fire-machine inputs and
  whatever the pins do, keeps all arrays at their declared sizes, the input timers within
  30 and the key and line states within their enumerations.
\<close>

theorem extio_round_wf:
  assumes "extio_wf x"
  shows "extio_wf (fst (extio_round fm wr rd (x, e)))"
  using assms by (rule extio_wf_round)

theorem extio_round_wf_witness:
  "extio_wf (fst (extio_round True pchain_wr pchain_rd
     (extio_zero, \<lparr>p_par = replicate 24 True, p_sh = [], p_clk = False\<rparr>)))"
  by (rule extio_round_wf) (rule extio_wf_init)

end
