(* ===== verification/Nbiot.thy ===== *)
theory Nbiot
  imports Config Extio
begin

text \<open>
  The link to the server (\<open>applications/nb-iot.c\<close>, \<open>nb-iot.h\<close>): the commands received on the
  subscribed topic, the messages published, the start of the connection thread. The MQTT
  client, the JSON library and the network devices are not part of the repository: what they
  return is in \<open>nb_env\<close>, \<open>cJSON_Parse\<close> and \<open>cJSON_GetObjectItem\<close> are parameters. A published
  message is the list of members put into the JSON object, in order. A null pointer that the
  code would follow is the value \<open>None\<close>.
\<close>

section \<open>Messages and environment\<close>

definition DEVICE_TYPE :: int where "DEVICE_TYPE = 1"
definition CMD_UP_BUILDING :: int where "CMD_UP_BUILDING = 1"
definition CMD_UP_POWER :: int where "CMD_UP_POWER = 2"
definition CMD_UP_START :: int where "CMD_UP_START = 3"
definition CMD_UP_STATUS :: int where "CMD_UP_STATUS = 4"
definition STUS_OK :: int where "STUS_OK = 0"
definition STUS_RST :: int where "STUS_RST = 1"
definition STUS_OTA :: int where "STUS_OTA = 2"
definition CMD_DOWN_ALL_SMOKE :: int where "CMD_DOWN_ALL_SMOKE = 0"
definition CMD_DOWN_DOOR :: int where "CMD_DOWN_DOOR = 1"
definition CMD_DOWN_GET_SMOKE :: int where "CMD_DOWN_GET_SMOKE = 2"
definition CMD_DOWN_SET_SMOKE :: int where "CMD_DOWN_SET_SMOKE = 3"
definition CMD_DOWN_UPDATE :: int where "CMD_DOWN_UPDATE = 4"
definition CMD_DOWN_SETTING :: int where "CMD_DOWN_SETTING = 5"
definition CMD_DOWN_RESET :: int where "CMD_DOWN_RESET = 6"
definition CMD_DOWN_STATUS :: int where "CMD_DOWN_STATUS = 7"
definition CMD_DOWN_STOP :: int where "CMD_DOWN_STOP = 8"
definition CMD_DOWN_RUN :: int where "CMD_DOWN_RUN = 9"

lemmas nb_codes = DEVICE_TYPE_def CMD_UP_BUILDING_def CMD_UP_POWER_def CMD_UP_START_def
  CMD_UP_STATUS_def STUS_OK_def STUS_RST_def STUS_OTA_def CMD_DOWN_ALL_SMOKE_def CMD_DOWN_DOOR_def
  CMD_DOWN_GET_SMOKE_def CMD_DOWN_SET_SMOKE_def CMD_DOWN_UPDATE_def CMD_DOWN_SETTING_def
  CMD_DOWN_RESET_def CMD_DOWN_STATUS_def CMD_DOWN_STOP_def CMD_DOWN_RUN_def

datatype json_value = JNum int | JStr "u8 list"

type_synonym message = "(string \<times> json_value) list"

record building_status_t =
  bs_alarm :: u8
  bs_door_open :: u8
  bs_cause :: u8
  bs_floor :: u8
  bs_room :: u8
  bs_temperature :: u16
  bs_smoke :: u16
  bs_smoke_alarm :: u8
  bs_temp_alarmm :: u8

text \<open>What the network side gives: the connection flag, the return value of \<open>mqtt_publish\<close>, the
  code for a missing connection, the time, the build texts, the address of the first device
  that is up, the signal strength, the unique number's checksum, the build flag.\<close>

record nb_env =
  mqtt_connect_sta :: u8
  publish_ret :: int
  connect_failed :: int
  nb_time :: int
  version_text :: "u8 list"
  compile_text :: "u8 list"
  ip_text :: "u8 list option"
  rssi :: u8
  uid_crc32 :: u32
  fire_machine :: bool

section \<open>Publishing\<close>

definition message_head :: "int \<Rightarrow> config_t \<Rightarrow> message" where
  "message_head ty cfg = [(''type'', JNum ty), (''device_type'', JNum DEVICE_TYPE),
     (''building_id'', JStr (buf_string (building_id cfg)))]"

text \<open>The guard and the call all publishing functions share.\<close>

definition mqtt_send :: "nb_env \<Rightarrow> message \<Rightarrow> int \<times> message list" where
  "mqtt_send env m =
     (if mqtt_connect_sta env = 0 then (connect_failed env, []) else (publish_ret env, [m]))"

definition nb_iot_publish_building :: "nb_env \<Rightarrow> config_t \<Rightarrow> building_status_t \<Rightarrow> int \<times> message list" where
  "nb_iot_publish_building env cfg b = mqtt_send env
     (message_head CMD_UP_BUILDING cfg @
      [(''alarm'', JNum (uint (bs_alarm b))), (''door_open'', JNum (uint (bs_door_open b))),
       (''cause'', JNum (uint (bs_cause b))), (''temperature'', JNum (uint (bs_temperature b))),
       (''smoke'', JNum (uint (bs_smoke b))), (''smoke_alarm'', JNum (uint (bs_smoke_alarm b))),
       (''temp_alarm'', JNum (uint (bs_temp_alarmm b))), (''msg type'', JStr (c_bytes ''building'')),
       (''time'', JNum (nb_time env))])"

definition nb_iot_publish_powerdown :: "nb_env \<Rightarrow> config_t \<Rightarrow> u8 \<Rightarrow> int \<times> message list" where
  "nb_iot_publish_powerdown env cfg powerdown = mqtt_send env
     (message_head CMD_UP_POWER cfg @
      [(''powerdown'', JNum (uint powerdown)), (''msg type'', JStr (c_bytes ''power down'')),
       (''time'', JNum (nb_time env))])"

definition nb_iot_set_rssi :: "u8 \<Rightarrow> nb_env \<Rightarrow> nb_env" where
  "nb_iot_set_rssi s env = env\<lparr>rssi := s\<rparr>"

text \<open>The members of the start-up and status messages from the version to the serial number;
  the address of a device that is not there is not checked for.\<close>

definition version_members :: "nb_env \<Rightarrow> u8 list \<Rightarrow> message" where
  "version_members env ip =
     [(''version'', JStr (version_text env)), (''compile'', JStr (compile_text env)),
      (''ip_addrress'', JStr ip), (''rssi'', JNum (uint (rssi env))),
      (''serial_number'', JStr (hex8 (uid_crc32 env)))]"

definition nb_iot_publish_startup :: "nb_env \<Rightarrow> config_t \<Rightarrow> (int \<times> message list) option" where
  "nb_iot_publish_startup env cfg =
     (if mqtt_connect_sta env = 0 then Some (connect_failed env, [])
      else map_option (\<lambda>ip. mqtt_send env
        (message_head CMD_UP_START cfg @ version_members env ip @
         [(''msg type'', JStr (c_bytes ''start up'')),
          (''fire_machine'', JStr (c_bytes (if fire_machine env then ''need'' else ''no need''))),
          (''time'', JNum (nb_time env))])) (ip_text env))"

definition nb_iot_publish_status :: "nb_env \<Rightarrow> config_t \<Rightarrow> int \<Rightarrow> (int \<times> message list) option" where
  "nb_iot_publish_status env cfg status =
     (if mqtt_connect_sta env = 0 then Some (connect_failed env, [])
      else map_option (\<lambda>ip. mqtt_send env
        (message_head CMD_UP_STATUS cfg @ [(''status'', JNum status)] @ version_members env ip @
         [(''msg type'', JStr (c_bytes ''status'')), (''time'', JNum (nb_time env))])) (ip_text env))"

definition nb_iot_publish_run_stop :: "nb_env \<Rightarrow> config_t \<Rightarrow> int \<Rightarrow> int \<times> message list" where
  "nb_iot_publish_run_stop env cfg status = mqtt_send env
     (message_head CMD_UP_STATUS cfg @ [(''run_stop'', JNum status)])"

text \<open>The shell command: three fields set, the rest of the structure is uninitialised (\<open>junk\<close>).\<close>

definition mqtt_publish_building :: "nb_env \<Rightarrow> config_t \<Rightarrow> building_status_t \<Rightarrow> int \<times> message list" where
  "mqtt_publish_building env cfg junk =
     nb_iot_publish_building env cfg (junk\<lparr>bs_alarm := 0, bs_door_open := 0, bs_cause := 0\<rparr>)"

section \<open>Commands from the server\<close>

text \<open>A parsed item: its integer and, for strings, its text.\<close>

record json_item =
  valueint :: int
  valuestring :: "u8 list option"

text \<open>What a command changes, and what it asks for besides.\<close>

record nb_state =
  nb_config :: config_t
  nb_remote_open :: u8
  nb_run_stop_flag :: u8

datatype nb_effect = Eff_publish message | Eff_ota_init | Eff_cpu_reset

definition eff_publish :: "int \<times> message list \<Rightarrow> nb_effect list" where
  "eff_publish r = map Eff_publish (snd r)"

definition set_thresholds :: "(string \<Rightarrow> json_item option) \<Rightarrow> config_t \<Rightarrow> config_t" where
  "set_thresholds get c =
     (let c1 = (case get ''temp_threshold'' of None \<Rightarrow> c
                | Some i \<Rightarrow> c\<lparr>temp_threshold := word_of_int (valueint i)\<rparr>);
          c2 = (case get ''smoke_threshold'' of None \<Rightarrow> c1
                | Some i \<Rightarrow> c1\<lparr>smoke_threshold := word_of_int (valueint i)\<rparr>)
      in case get ''poll_time'' of None \<Rightarrow> c2
         | Some i \<Rightarrow> c2\<lparr>poll_time := word_of_int (valueint i)\<rparr>)"

text \<open>One member of the settings command; \<open>upd\<close> stores the text. A member that is no string has
  a null \<open>valuestring\<close>.\<close>

definition set_text :: "(string \<Rightarrow> json_item option) \<Rightarrow> string \<Rightarrow> (u8 list \<Rightarrow> config_t \<Rightarrow> config_t) \<Rightarrow>
    config_t \<Rightarrow> config_t option" where
  "set_text get name upd c =
     (case get name of None \<Rightarrow> Some c
      | Some i \<Rightarrow> map_option (\<lambda>t. upd t c) (valuestring i))"

definition set_user :: "u8 list \<Rightarrow> config_t \<Rightarrow> config_t" where
  "set_user t c = c\<lparr>mqtt := (mqtt c)\<lparr>user := set_chars (user (mqtt c)) t 100\<rparr>\<rparr>"
definition set_password :: "u8 list \<Rightarrow> config_t \<Rightarrow> config_t" where
  "set_password t c = c\<lparr>mqtt := (mqtt c)\<lparr>password := set_chars (password (mqtt c)) t 100\<rparr>\<rparr>"
definition set_client_id :: "u8 list \<Rightarrow> config_t \<Rightarrow> config_t" where
  "set_client_id t c = c\<lparr>mqtt := (mqtt c)\<lparr>mqtt_id := set_chars (mqtt_id (mqtt c)) t 100\<rparr>\<rparr>"
definition set_building_id :: "u8 list \<Rightarrow> config_t \<Rightarrow> config_t" where
  "set_building_id t c = c\<lparr>building_id := set_chars (building_id c) t 20\<rparr>"

definition set_settings :: "(string \<Rightarrow> json_item option) \<Rightarrow> config_t \<Rightarrow> config_t option" where
  "set_settings get c =
     Option.bind (set_text get ''user'' set_user c) (\<lambda>c1.
     Option.bind (set_text get ''password'' set_password c1) (\<lambda>c2.
     Option.bind (set_text get ''id'' set_client_id c2) (\<lambda>c3.
     set_text get ''building_id'' set_building_id c3)))"

text \<open>The member named \<open>name\<close> has the value 1.\<close>

definition is_one :: "(string \<Rightarrow> json_item option) \<Rightarrow> string \<Rightarrow> bool" where
  "is_one get name = (case get name of None \<Rightarrow> False | Some i \<Rightarrow> valueint i = 1)"

text \<open>The dispatch on \<open>type->valueint\<close>. The detector query only fills a local structure: its
  publishing call is commented out.\<close>

definition nb_dispatch :: "nb_env \<Rightarrow> (string \<Rightarrow> json_item option) \<Rightarrow> int \<Rightarrow> nb_state \<Rightarrow>
    (nb_state \<times> nb_effect list) option" where
  "nb_dispatch env get ty s =
     (let c = nb_config s in
      if ty = CMD_DOWN_ALL_SMOKE then Some (s\<lparr>nb_config := set_thresholds get c\<rparr>, [])
      else if ty = CMD_DOWN_DOOR then
        Some (case get ''open'' of None \<Rightarrow> s
              | Some i \<Rightarrow> s\<lparr>nb_remote_open := word_of_int (valueint i)\<rparr>, [])
      else if ty = CMD_DOWN_GET_SMOKE then Some (s, [])
      else if ty = CMD_DOWN_SET_SMOKE then Some (s\<lparr>nb_config := set_thresholds get c\<rparr>, [])
      else if ty = CMD_DOWN_UPDATE then
        if is_one get ''update''
        then map_option (\<lambda>r. (s, eff_publish r @ [Eff_ota_init])) (nb_iot_publish_status env c STUS_OTA)
        else Some (s, [])
      else if ty = CMD_DOWN_SETTING then
        map_option (\<lambda>c1. (s\<lparr>nb_config := c1\<rparr>, [])) (set_settings get c)
      else if ty = CMD_DOWN_RESET then
        if is_one get ''reset''
        then map_option (\<lambda>r. (s, eff_publish r @ [Eff_cpu_reset])) (nb_iot_publish_status env c STUS_RST)
        else Some (s, [])
      else if ty = CMD_DOWN_STATUS then
        if is_one get ''status''
        then map_option (\<lambda>r. (s, eff_publish r)) (nb_iot_publish_status env c STUS_OK)
        else Some (s, [])
      else if ty = CMD_DOWN_STOP then
        Some (s\<lparr>nb_run_stop_flag := 0\<rparr>, eff_publish (nb_iot_publish_run_stop env c 0))
      else if ty = CMD_DOWN_RUN then
        Some (s\<lparr>nb_run_stop_flag := 1\<rparr>, eff_publish (nb_iot_publish_run_stop env c 1))
      else Some (s, []))"

definition sub_topic_handle1 :: "nb_env \<Rightarrow> (u8 list \<Rightarrow> 'j option) \<Rightarrow> ('j \<Rightarrow> string \<Rightarrow> json_item option) \<Rightarrow>
    u8 list \<Rightarrow> nb_state \<Rightarrow> (nb_state \<times> nb_effect list) option" where
  "sub_topic_handle1 env cJSON_Parse cJSON_GetObjectItem payload s =
     (if payload \<noteq> []
      then case cJSON_Parse payload of
          None \<Rightarrow> Some (s, [])
        | Some root \<Rightarrow>
            (case cJSON_GetObjectItem root ''type'' of
               None \<Rightarrow> Some (s, [])
             | Some ty \<Rightarrow> nb_dispatch env (cJSON_GetObjectItem root) (valueint ty) s)
      else Some (s, []))"

section \<open>The connection thread\<close>

definition GREEN_LED_PIN :: nat where "GREEN_LED_PIN = GET_PIN PORT_C 5"

text \<open>Waiting for the link: the states of the link seen at each check; \<open>None\<close> if it does not come
  up among them. The result counts the blinks.\<close>

fun wait_link :: "bool list \<Rightarrow> nat option" where
  "wait_link [] = None"
| "wait_link (up # ups) = (if up then Some 0 else map_option Suc (wait_link ups))"

text \<open>\<open>rt_snprintf(topic_buf, 50, "%s%s", ...)\<close>.\<close>

definition subscribe_name :: "config_t \<Rightarrow> u8 list" where
  "subscribe_name cfg = take 49 (buf_string (subscribe_topic (mqtt cfg)) @ buf_string (building_id cfg))"

text \<open>The float product is never within rounding of an integer it does not equal, so the
  conversion is the integer quotient.\<close>

definition check_minute :: "u16 \<Rightarrow> nat" where
  "check_minute c = unat (drop_bit 8 c) * 59 div 255"
definition check_second :: "u16 \<Rightarrow> nat" where
  "check_second c = unat (c AND 0xff) * 59 div 255"

record nb_start =
  st_host :: "u8 list"
  st_user :: "u8 list"
  st_password :: "u8 list"
  st_client_id :: "u8 list"
  st_topic :: "u8 list"
  st_connect_sta :: u8
  st_led :: bool
  st_messages :: "message list"

text \<open>From the connection attempt to the start-up message; \<open>connected\<close> says whether
  \<open>mqtt_connect\<close> succeeded.\<close>

definition nb_iot_task_start :: "nb_env \<Rightarrow> config_t \<Rightarrow> bool \<Rightarrow> nb_start option" where
  "nb_iot_task_start env cfg connected =
     (let sta = (if connected then 1 else mqtt_connect_sta env); env1 = env\<lparr>mqtt_connect_sta := sta\<rparr>
      in map_option (\<lambda>r. \<lparr>st_host = buf_string (host (mqtt cfg)), st_user = buf_string (user (mqtt cfg)),
             st_password = buf_string (password (mqtt cfg)), st_client_id = buf_string (mqtt_id (mqtt cfg)),
             st_topic = subscribe_name cfg, st_connect_sta = sta, st_led = \<not> connected, st_messages = snd r\<rparr>)
           (if sta \<noteq> 0 then nb_iot_publish_startup env1 cfg else Some (0, [])))"

text \<open>The thread, released by the configuration semaphore: the modem device is looked up and
  followed without a check; the LED blinks once per failed check of the link and ten times
  more; then the connection is made. \<open>None\<close> is a fault or a link that stays down. The result has
  the values written to the LED, in order. What follows is a loop that only reads the clock.\<close>

definition nb_iot_task :: "nb_env \<Rightarrow> config_t \<Rightarrow> bool \<Rightarrow> bool list \<Rightarrow> bool \<Rightarrow> (bool list \<times> nb_start) option" where
  "nb_iot_task env cfg device_found link connected =
     (if \<not> device_found then None
      else Option.bind (wait_link link) (\<lambda>n.
        map_option (\<lambda>st. (concat (replicate (n + 10) [False, True]) @ [st_led st], st))
          (nb_iot_task_start env cfg connected)))"

definition nb_iot_init :: "bool \<Rightarrow> int" where
  "nb_iot_init created = (if created then RT_EOK else RT_ERROR)"

section \<open>What a command can change\<close>

lemma set_thresholds_wf: "config_wf c \<Longrightarrow> config_wf (set_thresholds get c)"
  by (auto simp: set_thresholds_def config_wf_def Let_def split: option.split)

lemma set_thresholds_crc: "crc (set_thresholds get c) = crc c"
  by (auto simp: set_thresholds_def Let_def split: option.split)

lemma set_text_Some:
  assumes "set_text get name upd c = Some c'" and "P c" and "\<And>t. P (upd t c)"
  shows "P c'"
  using assms by (auto simp: set_text_def split: option.splits)

lemma set_text_None:
  "set_text get name upd c = None \<longleftrightarrow> (\<exists>i. get name = Some i \<and> valuestring i = None)"
  by (auto simp: set_text_def split: option.splits)

lemmas set_members = set_user_def set_password_def set_client_id_def set_building_id_def

lemma set_settings_wf:
  assumes "set_settings get c = Some c'" and wf: "config_wf c"
  shows "config_wf c' \<and> crc c' = crc c"
proof -
  let ?P = "\<lambda>c'. config_wf c' \<and> crc c' = crc c"
  obtain c1 c2 c3 where s: "set_text get ''user'' set_user c = Some c1"
    "set_text get ''password'' set_password c1 = Some c2"
    "set_text get ''id'' set_client_id c2 = Some c3" "set_text get ''building_id'' set_building_id c3 = Some c'"
    using assms(1) by (auto simp: set_settings_def bind_eq_Some_conv)
  have "?P c1" by (rule set_text_Some [OF s(1)]) (use wf in \<open>auto simp: set_members config_wf_def\<close>)
  then have "?P c2" by (intro set_text_Some [OF s(2), of ?P]) (auto simp: set_members config_wf_def)
  then have "?P c3" by (intro set_text_Some [OF s(3), of ?P]) (auto simp: set_members config_wf_def)
  then show "?P c'" by (intro set_text_Some [OF s(4), of ?P]) (auto simp: set_members config_wf_def)
qed

lemma set_settings_None:
  "set_settings get c = None \<longleftrightarrow>
     (\<exists>n \<in> set [''user'', ''password'', ''id'', ''building_id'']. \<exists>i. get n = Some i \<and> valuestring i = None)"
proof -
  have t: "set_text get name upd c = None \<longleftrightarrow> (\<exists>i. get name = Some i \<and> valuestring i = None)" for name upd c
    by (rule set_text_None)
  show ?thesis
    unfolding set_settings_def bind_eq_None_conv t by auto
qed

lemma publish_status_None:
  "nb_iot_publish_status env c v = None \<longleftrightarrow> mqtt_connect_sta env \<noteq> 0 \<and> ip_text env = None"
  by (simp add: nb_iot_publish_status_def)

lemma dispatch_frame:
  assumes "nb_dispatch env get ty s = Some (s', effs)"
  shows "(nb_config s' \<noteq> nb_config s \<longrightarrow> ty \<in> {CMD_DOWN_ALL_SMOKE, CMD_DOWN_SET_SMOKE, CMD_DOWN_SETTING}) \<and>
    (nb_remote_open s' \<noteq> nb_remote_open s \<longrightarrow> ty = CMD_DOWN_DOOR \<and>
       (\<exists>i. get ''open'' = Some i \<and> nb_remote_open s' = word_of_int (valueint i))) \<and>
    (nb_run_stop_flag s' \<noteq> nb_run_stop_flag s \<longrightarrow>
       (ty = CMD_DOWN_STOP \<and> nb_run_stop_flag s' = 0) \<or> (ty = CMD_DOWN_RUN \<and> nb_run_stop_flag s' = 1))"
  using assms by (auto simp: nb_dispatch_def Let_def split: if_splits option.splits)

lemma dispatch_wf:
  assumes "nb_dispatch env get ty s = Some (s', effs)" and "config_wf (nb_config s)"
  shows "config_wf (nb_config s') \<and> crc (nb_config s') = crc (nb_config s)"
  using assms set_settings_wf [of get "nb_config s"]
  by (auto simp: nb_dispatch_def Let_def set_thresholds_wf set_thresholds_crc split: if_splits option.splits)

lemma dispatch_reset:
  assumes "nb_dispatch env get ty s = Some (s', effs)" and "Eff_cpu_reset \<in> set effs"
  shows "ty = CMD_DOWN_RESET \<and> is_one get ''reset''"
  using assms by (auto simp: nb_dispatch_def Let_def eff_publish_def split: if_splits option.splits)

lemma dispatch_offline:
  assumes "nb_dispatch env get ty s = Some (s', effs)" and "mqtt_connect_sta env = 0"
  shows "Eff_publish m \<notin> set effs"
  using assms
  by (auto simp: nb_dispatch_def Let_def eff_publish_def nb_iot_publish_status_def
      nb_iot_publish_run_stop_def mqtt_send_def split: if_splits option.splits)

lemma check_time_le: "check_minute c \<le> 59 \<and> check_second c \<le> 59"
proof -
  have "unat c < 2 ^ LENGTH(16)" by (rule unsigned_less)
  then have "unat (drop_bit 8 c) \<le> 255" by (simp add: drop_bit_eq_div unat_div)
  moreover have "unat (c AND 0xff) \<le> 255"
    using word_and_le1 [of c 255] by (simp add: word_le_nat_alt)
  moreover have "n * 59 div 255 \<le> 59" if "n \<le> 255" for n :: nat using that by simp
  ultimately show ?thesis by (simp add: check_minute_def check_second_def)
qed

section \<open>Properties\<close>

text \<open>A parser for the examples: a payload of one byte is a command with that code, whose
  members all have the value 1 and no text.\<close>

definition sample_parse :: "u8 list \<Rightarrow> u8 option" where
  "sample_parse bs = (case bs of [b] \<Rightarrow> Some b | _ \<Rightarrow> None)"

definition sample_get :: "u8 \<Rightarrow> string \<Rightarrow> json_item option" where
  "sample_get b name = Some \<lparr>valueint = (if name = ''type'' then uint b else 1), valuestring = None\<rparr>"

definition sample_nb_env :: nb_env where
  "sample_nb_env = \<lparr>mqtt_connect_sta = 1, publish_ret = 0, connect_failed = -1, nb_time = 0,
     version_text = [], compile_text = [], ip_text = None, rssi = 20, uid_crc32 = 5, fire_machine = True\<rparr>"

definition sample_nb_state :: nb_state where
  "sample_nb_state = \<lparr>nb_config = config_zero, nb_remote_open = 0, nb_run_stop_flag = 1\<rparr>"

text \<open>
  Claim C7: whatever the server sends and however it is parsed, a message changes the
  configuration only as a threshold or settings command, keeping every array size and the
  stored checksum; the door request only as a door command with an \<open>open\<close> member, to its low
  byte; the run flag only as a stop or run command; it resets the processor only as a reset
  command with \<open>reset\<close> 1; and while there is no connection it publishes nothing.
\<close>

theorem nb_command_scope:
  assumes "sub_topic_handle1 env parse get payload s = Some (s', effs)"
    and "config_wf (nb_config s)"
  shows "config_wf (nb_config s') \<and> crc (nb_config s') = crc (nb_config s) \<and>
    (s' \<noteq> s \<or> effs \<noteq> [] \<longrightarrow>
       (\<exists>root ty. parse payload = Some root \<and> get root ''type'' = Some ty \<and>
          (nb_config s' \<noteq> nb_config s \<longrightarrow>
             valueint ty \<in> {CMD_DOWN_ALL_SMOKE, CMD_DOWN_SET_SMOKE, CMD_DOWN_SETTING}) \<and>
          (nb_remote_open s' \<noteq> nb_remote_open s \<longrightarrow> valueint ty = CMD_DOWN_DOOR \<and>
             (\<exists>i. get root ''open'' = Some i \<and> nb_remote_open s' = word_of_int (valueint i))) \<and>
          (nb_run_stop_flag s' \<noteq> nb_run_stop_flag s \<longrightarrow>
             valueint ty = CMD_DOWN_STOP \<and> nb_run_stop_flag s' = 0 \<or>
             valueint ty = CMD_DOWN_RUN \<and> nb_run_stop_flag s' = 1) \<and>
          (Eff_cpu_reset \<in> set effs \<longrightarrow> valueint ty = CMD_DOWN_RESET \<and> is_one (get root) ''reset'') \<and>
          (mqtt_connect_sta env = 0 \<longrightarrow> (\<forall>m. Eff_publish m \<notin> set effs))))"
proof (cases "\<exists>root ty. payload \<noteq> [] \<and> parse payload = Some root \<and> get root ''type'' = Some ty")
  case True
  then obtain root ty where r: "parse payload = Some root" "get root ''type'' = Some ty"
      "nb_dispatch env (get root) (valueint ty) s = Some (s', effs)"
    using assms(1) by (auto simp: sub_topic_handle1_def)
  show ?thesis
    using r dispatch_wf [OF r(3) assms(2)] dispatch_frame [OF r(3)] dispatch_reset [OF r(3)]
      dispatch_offline [OF r(3)] by blast
next
  case False
  then have "s' = s" "effs = []"
    using assms(1) by (auto simp: sub_topic_handle1_def split: if_splits option.splits)
  with assms(2) show ?thesis by simp
qed

theorem nb_command_scope_witness:
  "config_wf (nb_config (fst (the (sub_topic_handle1 sample_nb_env sample_parse sample_get [1] sample_nb_state))))"
proof -
  obtain s' effs where "sub_topic_handle1 sample_nb_env sample_parse sample_get [1] sample_nb_state = Some (s', effs)"
    by (simp add: sub_topic_handle1_def sample_parse_def sample_get_def nb_dispatch_def nb_codes Let_def)
  moreover have "config_wf (nb_config sample_nb_state)" by (simp add: sample_nb_state_def config_wf_zero)
  ultimately show ?thesis using nb_command_scope by fastforce
qed

text \<open>
  Claim C8: the handler follows a null pointer exactly in two cases: a settings command with a
  \<open>user\<close>, \<open>password\<close>, \<open>id\<close> or \<open>building_id\<close> member that is not a string, and a status, update or
  reset request that is answered while connected but with no network device up.
\<close>

theorem nb_handler_faults:
  "sub_topic_handle1 env parse get payload s = None \<longleftrightarrow>
     payload \<noteq> [] \<and> (\<exists>root ty. parse payload = Some root \<and> get root ''type'' = Some ty \<and>
       (valueint ty = CMD_DOWN_SETTING \<and>
          (\<exists>n \<in> set [''user'', ''password'', ''id'', ''building_id'']. \<exists>i. get root n = Some i \<and> valuestring i = None) \<or>
        mqtt_connect_sta env \<noteq> 0 \<and> ip_text env = None \<and>
          (valueint ty = CMD_DOWN_UPDATE \<and> is_one (get root) ''update'' \<or>
           valueint ty = CMD_DOWN_RESET \<and> is_one (get root) ''reset'' \<or>
           valueint ty = CMD_DOWN_STATUS \<and> is_one (get root) ''status'')))"
proof -
  have d: "nb_dispatch env g t s = None \<longleftrightarrow>
      t = CMD_DOWN_SETTING \<and> set_settings g (nb_config s) = None \<or>
      mqtt_connect_sta env \<noteq> 0 \<and> ip_text env = None \<and>
        (t = CMD_DOWN_UPDATE \<and> is_one g ''update'' \<or> t = CMD_DOWN_RESET \<and> is_one g ''reset'' \<or>
         t = CMD_DOWN_STATUS \<and> is_one g ''status'')" for g t
    by (auto simp: nb_dispatch_def Let_def publish_status_None nb_codes)
  show ?thesis
    unfolding sub_topic_handle1_def using d set_settings_None
    by (auto split: option.splits)
qed

theorem nb_handler_faults_witness:
  "sub_topic_handle1 sample_nb_env sample_parse sample_get [5] sample_nb_state = None"
  unfolding nb_handler_faults by (auto simp: sample_parse_def sample_get_def nb_codes)

end
