(* ===== verification/Factory.thy ===== *)
theory Factory
  imports Extio Rt_Ipc C_Buffers
begin

text \<open>
  The factory test (\<open>applications/factory_test.c\<close>, \<open>factory_test.h\<close>): the list of threads to
  stop, the file, network, relay and input tests. The input test polls the extension board
  until every input has been seen; each poll gets the state of the board at that time. The
  verdicts of \<open>uassert_true\<close> are a list of booleans.
\<close>

definition SUSPEND_THREAD_MAX :: nat where "SUSPEND_THREAD_MAX = 10"

record factory_sta_t =
  suspend_cnt :: nat
  fac_thread :: "nat list"

definition factory_sta_zero :: factory_sta_t where
  "factory_sta_zero = \<lparr>suspend_cnt = 0, fac_thread = replicate SUSPEND_THREAD_MAX 0\<rparr>"

definition factory_suspend_thread :: "nat \<Rightarrow> factory_sta_t \<Rightarrow> factory_sta_t" where
  "factory_suspend_thread thread s =
     (if suspend_cnt s < SUSPEND_THREAD_MAX
      then s\<lparr>fac_thread := (fac_thread s)[suspend_cnt s := thread], suspend_cnt := suspend_cnt s + 1\<rparr>
      else s)"

text \<open>The threads deleted by the initialisation of the test case.\<close>

definition factory_test_tc_init :: "factory_sta_t \<Rightarrow> nat list \<times> int" where
  "factory_test_tc_init s = (take (suspend_cnt s) (fac_thread s), RT_EOK)"

definition factory_test_tc_cleanup :: int where
  "factory_test_tc_cleanup = RT_EOK"

text \<open>\<open>fd1\<close>, \<open>fd2\<close> are the results of the two \<open>open\<close> calls, \<open>buf\<close> what \<open>read\<close> left in the buffer.\<close>

definition factory_filesystem :: "int \<Rightarrow> int \<Rightarrow> u8 list \<Rightarrow> bool list" where
  "factory_filesystem fd1 fd2 buf =
     (if fd1 > 2 then [] else [False]) @
     (if fd2 > 2 then if buf_string buf = c_bytes ''1234567890'' then [True] else [False] else [False])"

definition factory_nbiot :: "bool list" where
  "factory_nbiot = [True]"

definition factory_alarm :: "('e \<Rightarrow> nat \<Rightarrow> bool \<Rightarrow> 'e) \<Rightarrow> extio_t \<times> 'e \<Rightarrow> (extio_t \<times> 'e) \<times> bool list" where
  "factory_alarm wr = (\<lambda>(x, e).
     let e1 = extio_main_alarm wr True e;
         x1 = fold set_alarm [1..<9] x;
         e2 = extio_door_open wr True e1;
         e3 = extio_main_alarm wr False e2;
         x2 = fold clr_alarm [1..<9] x1;
         e4 = extio_door_open wr False e3
     in ((x2, e4), [True]))"

text \<open>One poll of \<open>factory_input_test\<close>: the step, the input counter of step 4 and the board.
  Step 5 is the return.\<close>

definition input_test_poll :: "extio_t \<Rightarrow> nat \<times> nat \<Rightarrow> (nat \<times> nat) \<times> extio_t" where
  "input_test_poll x = (\<lambda>(step, i).
     if step = 0 then
       if key_sta x EXTIO_SET_KEY = EXTIO_KEY_PRESS then ((1, i), key_clr EXTIO_SET_KEY x) else ((0, i), x)
     else if step = 1 then
       if key_sta x EXTIO_OPEN_KEY = EXTIO_KEY_PRESS then ((2, i), key_clr EXTIO_OPEN_KEY x) else ((1, i), x)
     else if step = 2 then if is_check x EXTIO_CHECK_POWERDOWN then ((3, i), x) else ((2, i), x)
     else if step = 3 then if is_check x EXTIO_CHECK_EMERGENCY then ((4, 0), x) else ((3, i), x)
     else if step = 4 then
       if i < 24 then if \<not> is_smoke x (i + 1) then ((4, i + 1), x) else ((4, i), x) else ((5, i), x)
     else ((step, i), x))"

fun factory_input_test :: "extio_t list \<Rightarrow> nat \<times> nat \<Rightarrow> nat \<times> nat" where
  "factory_input_test [] st = st"
| "factory_input_test (x # xs) st = factory_input_test xs (fst (input_test_poll x st))"

text \<open>The whole test: \<open>None\<close> while the input test has not returned.\<close>

definition factory_testcase :: "('e \<Rightarrow> nat \<Rightarrow> bool \<Rightarrow> 'e) \<Rightarrow> int \<Rightarrow> int \<Rightarrow> u8 list \<Rightarrow> extio_t list \<Rightarrow>
    extio_t \<times> 'e \<Rightarrow> ((extio_t \<times> 'e) \<times> bool list) option" where
  "factory_testcase wr fd1 fd2 buf polls s =
     (let v1 = factory_filesystem fd1 fd2 buf; v2 = factory_nbiot; (s1, v3) = factory_alarm wr s
      in if fst (factory_input_test polls (0, 0)) = 5 then Some (s1, v1 @ v2 @ v3 @ [True]) else None)"

section \<open>Lemmas\<close>

lemma factory_suspend_bound:
  assumes "suspend_cnt s \<le> SUSPEND_THREAD_MAX" and "length (fac_thread s) = SUSPEND_THREAD_MAX"
  shows "suspend_cnt (run factory_suspend_thread ts s) \<le> SUSPEND_THREAD_MAX \<and>
    length (fac_thread (run factory_suspend_thread ts s)) = SUSPEND_THREAD_MAX"
  by (rule run_invariant) (use assms in \<open>auto simp: factory_suspend_thread_def\<close>)

text \<open>What has been seen by the time the test is at a step.\<close>

definition seen :: "extio_t list \<Rightarrow> (extio_t \<Rightarrow> bool) \<Rightarrow> bool" where
  "seen xs P \<longleftrightarrow> list_ex P xs"

definition test_progress :: "extio_t list \<Rightarrow> nat \<times> nat \<Rightarrow> bool" where
  "test_progress xs = (\<lambda>(step, i).
     (1 \<le> step \<longrightarrow> seen xs (\<lambda>x. key_sta x EXTIO_SET_KEY = EXTIO_KEY_PRESS)) \<and>
     (2 \<le> step \<longrightarrow> seen xs (\<lambda>x. key_sta x EXTIO_OPEN_KEY = EXTIO_KEY_PRESS)) \<and>
     (3 \<le> step \<longrightarrow> seen xs (\<lambda>x. is_check x EXTIO_CHECK_POWERDOWN)) \<and>
     (4 \<le> step \<longrightarrow> seen xs (\<lambda>x. is_check x EXTIO_CHECK_EMERGENCY) \<and>
        (\<forall>k < i. k < 24 \<longrightarrow> seen xs (\<lambda>x. \<not> is_smoke x (k + 1)))) \<and>
     (5 \<le> step \<longrightarrow> 24 \<le> i))"

lemma seen_snoc [simp]: "seen (xs @ [x]) P \<longleftrightarrow> seen xs P \<or> P x"
  by (simp add: seen_def)

lemma poll_progress:
  assumes "test_progress xs st"
  shows "test_progress (xs @ [x]) (fst (input_test_poll x st))"
proof -
  obtain step i where st: "st = (step, i)" by fastforce
  consider "step = 0" | "step = 1" | "step = 2" | "step = 3" | "step = 4" | "5 \<le> step" by linarith
  then show ?thesis
    using assms unfolding st
    by cases (auto simp: test_progress_def input_test_poll_def less_Suc_eq)
qed

lemma test_progress_run:
  "test_progress ys st \<Longrightarrow> test_progress (ys @ xs) (factory_input_test xs st)"
proof (induction xs arbitrary: ys st)
  case (Cons x xs)
  with Cons.IH [OF poll_progress [OF Cons.prems, of x]] show ?case by simp
qed simp

lemma out_one_set_alarm:
  "length (out_byte (x_output x)) = 1 \<Longrightarrow> length (out_byte (x_output (fold set_alarm ns x))) = 1"
  by (induction ns arbitrary: x) (simp_all add: set_alarm_def)

lemma fold_clr_alarm:
  assumes "length (out_byte (x_output x)) = 1" and "n \<le> 8"
  shows "\<exists>v. out_byte (x_output (fold clr_alarm [1..<Suc n] x)) = [v] \<and> (\<forall>j < n. \<not> bit v j)"
  using assms(2)
proof (induction n)
  case 0
  with assms(1) show ?case by (simp add: length_Suc_conv)
next
  case (Suc n)
  then obtain v where v: "out_byte (x_output (fold clr_alarm [1..<Suc n] x)) = [v]" "\<forall>j < n. \<not> bit v j"
    by auto
  have "fold clr_alarm [1..<Suc (Suc n)] x = clr_alarm (Suc n) (fold clr_alarm [1..<Suc n] x)" by simp
  with v Suc.prems have "out_byte (x_output (fold clr_alarm [1..<Suc (Suc n)] x)) = [v AND NOT (push_bit n 1)]"
    by (simp add: clr_alarm_def)
  moreover have "\<forall>j < Suc n. \<not> bit (v AND NOT (push_bit n 1)) j"
    using v(2) bit_and_not_push_bit_1 [of v n] by (auto simp: less_Suc_eq)
  ultimately show ?case by blast
qed

section \<open>Properties\<close>

text \<open>
  The factory test returns only after both keys were pressed, the power-down and the
  emergency line were active and each of the 24 inputs was seen released; its relay test ends
  with door, main alarm and all eight relay bits off, whatever they were before.
\<close>

theorem factory_test_complete:
  assumes "factory_testcase (\<lambda>e p v. set_level e p v) fd1 fd2 buf polls (x, e) = Some ((x', e'), verdicts)"
    and "length (out_byte (x_output x)) = 1"
  shows "seen polls (\<lambda>x. key_sta x EXTIO_SET_KEY = EXTIO_KEY_PRESS) \<and>
    seen polls (\<lambda>x. key_sta x EXTIO_OPEN_KEY = EXTIO_KEY_PRESS) \<and>
    seen polls (\<lambda>x. is_check x EXTIO_CHECK_POWERDOWN) \<and>
    seen polls (\<lambda>x. is_check x EXTIO_CHECK_EMERGENCY) \<and>
    (\<forall>k < 24. seen polls (\<lambda>x. \<not> is_smoke x (k + 1))) \<and>
    \<not> e' EXTIO_DOOR_OPEN \<and> \<not> e' EXTIO_MAIN_ALARM \<and> out_byte (x_output x') = [0]"
proof -
  have r: "fst (factory_input_test polls (0, 0)) = 5" "factory_alarm (\<lambda>e p v. set_level e p v) (x, e) = ((x', e'), [True])"
    using assms(1) by (auto simp: factory_testcase_def factory_alarm_def Let_def split: if_splits)
  have "test_progress [] (0, 0)" by (simp add: test_progress_def)
  from test_progress_run [OF this, of polls] r(1)
  have "test_progress polls (5, snd (factory_input_test polls (0, 0)))" by (metis append_Nil prod.collapse)
  moreover have "\<not> e' EXTIO_DOOR_OPEN \<and> \<not> e' EXTIO_MAIN_ALARM"
    using r(2) by (auto simp: factory_alarm_def extio_main_alarm_def extio_door_open_def Let_def pin_defs)
  moreover obtain v where "out_byte (x_output x') = [v]" "\<forall>j < 8. \<not> bit v j"
    using r(2) fold_clr_alarm [OF out_one_set_alarm [OF assms(2), of "[1..<9]"], of 8]
    by (auto simp: factory_alarm_def Let_def)
  then have "out_byte (x_output x') = [0]" by (simp add: u8_eq_bits [of v 0])
  ultimately show ?thesis by (auto simp: test_progress_def)
qed

text \<open>A board on which everything the test waits for is active, or released.\<close>

definition sample_board :: extio_t where
  "sample_board = extio_zero\<lparr>x_key := (x_key extio_zero)\<lparr>k_sta := [EXTIO_KEY_PRESS, EXTIO_KEY_PRESS]\<rparr>,
     x_check := (x_check extio_zero)\<lparr>c_sta := [1, 1]\<rparr>\<rparr>"

lemma sample_polls: "fst (factory_input_test (replicate 29 sample_board) (0, 0)) = 5"
proof -
  have b: "key_sta sample_board 0 = 1" "key_sta sample_board 1 = 1" "is_check sample_board 0" "is_check sample_board 1"
    by (simp_all add: key_sta_def is_check_def sample_board_def)
  have sm: "\<not> is_smoke sample_board (Suc k)" if "k < 24" for k
  proof -
    have "k div 8 < 3" "k mod 8 < 8" using that by linarith+
    then have "in_save (x_input sample_board) ! (k div 8) = 255"
      by (simp add: sample_board_def extio_zero_def EXTIO_IN_MAX_def)
    moreover have "bit (255 :: u8) (k mod 8)"
      using bit_mask_iff [of 8 "k mod 8", where ?'a = "8 word"] \<open>k mod 8 < 8\<close>
      by (simp add: mask_eq_exp_minus_1)
    ultimately show ?thesis using word_and_push_bit_1 [of "255 :: u8" "k mod 8"] by (simp add: is_smoke_def)
  qed
  have app: "factory_input_test (xs @ ys) st = factory_input_test ys (factory_input_test xs st)" for xs ys st
    by (induction xs arbitrary: st) simp_all
  have "factory_input_test (replicate n sample_board) (4, i) = (4, i + n)" if "i + n \<le> 24" for n i
    using that by (induction n arbitrary: i) (simp_all add: input_test_poll_def sm)
  from this [of 0 24] have s4: "factory_input_test (replicate 24 sample_board) (4, 0) = (4, 24)" by simp
  have s0: "factory_input_test (replicate 4 sample_board) (0, 0) = (4, 0)"
    using b by (simp add: numeral_eq_Suc input_test_poll_def)
  have "replicate 29 sample_board = replicate 4 sample_board @ replicate 24 sample_board @ [sample_board]"
    by (simp add: numeral_eq_Suc)
  then show ?thesis by (simp add: app s0 s4 input_test_poll_def)
qed

theorem factory_test_complete_witness:
  "seen (replicate 29 sample_board) (\<lambda>x. is_check x EXTIO_CHECK_EMERGENCY)"
proof -
  obtain x' e' v where "factory_testcase (\<lambda>e p v. set_level e p v) 3 3 (c_bytes ''1234567890'') (replicate 29 sample_board)
      (extio_zero, \<lambda>_. True) = Some ((x', e'), v)"
    using sample_polls by (auto simp: factory_testcase_def factory_alarm_def Let_def)
  from factory_test_complete [OF this] show ?thesis by (simp add: extio_zero_def EXTIO_OUT_MAX_def)
qed

end
