(* ===== verification/Misc.thy ===== *)
theory Misc
  imports Nbiot Factory
begin

text \<open>
  The door and alarm control (\<open>applications/misc.c\<close>, \<open>misc.h\<close>): one iteration of
  \<open>misc_task\<close> is \<open>misc_iter\<close>, put together from its parts in the order of the code. It reads
  the extension board, opens and locks the door, drives the alarms, publishes, follows the
  fire machine and saves the configuration. Between two iterations the other threads change
  the board and the door request: \<open>misc_step\<close> applies such a change first. The global
  variables and the locals of the task are one record. \<open>junk\<close> is the content of the
  uninitialised \<open>building_stus\<close>.
\<close>

section \<open>State\<close>

definition SMOKE_START :: nat where "SMOKE_START = 2"

record smoke_report_t =
  sr_update :: "u8 list"
  sr_poll_time :: nat
  powerdown_time :: nat
  powerdown_target :: bool
  powerdown_flag :: bool
  fire_machine_update :: bool

text \<open>Counters are numbers: the code compares or saturates them before they reach the end of
  their type.\<close>

record misc_t =
  remote_open :: u8
  smoke_open :: u8
  fire_machine_open :: bool
  key_open :: bool
  emergency_open :: bool
  run_stop_flag :: u8
  report :: smoke_report_t
  lock_time :: nat
  door_open :: bool
  save_time :: nat
  last_cause :: u8
  last_smoke_open :: u8

record ('e, 'f) misc_world =
  misc :: misc_t
  ext :: extio_t
  pins :: 'e
  stored :: "config_t \<times> 'f"

definition smoke_report_zero :: smoke_report_t where
  "smoke_report_zero = \<lparr>sr_update = replicate SMOKE_NUM 0, sr_poll_time = 0, powerdown_time = 0,
     powerdown_target = False, powerdown_flag = False, fire_machine_update = False\<rparr>"

definition misc_zero :: misc_t where
  "misc_zero = \<lparr>remote_open = 0, smoke_open = 0, fire_machine_open = False, key_open = False,
     emergency_open = False, run_stop_flag = 1, report = smoke_report_zero, lock_time = 0,
     door_open = False, save_time = 0, last_cause = 0, last_smoke_open = 0\<rparr>"

text \<open>\<open>misc_init\<close>: the report structure is cleared and the thread registered for the factory test.\<close>

definition misc_init :: "bool \<Rightarrow> nat \<Rightarrow> misc_t \<Rightarrow> factory_sta_t \<Rightarrow> misc_t \<times> factory_sta_t \<times> int" where
  "misc_init created thread m fac =
     (m\<lparr>report := smoke_report_zero\<rparr>, if created then factory_suspend_thread thread fac else fac,
      if created then RT_EOK else RT_ERROR)"

section \<open>Detectors and fire machine\<close>

definition misc_smoke_target :: "extio_t \<Rightarrow> bool" where
  "misc_smoke_target x =
     fold (\<lambda>i have. if is_smoke x i then True else have) [SMOKE_START..<Suc SMOKE_NUM] False"

definition misc_smoke_poll :: "extio_t \<Rightarrow> smoke_report_t \<Rightarrow> smoke_report_t" where
  "misc_smoke_poll x r =
     (if sr_poll_time r > 10
      then let r1 = r\<lparr>sr_poll_time := 0\<rparr> in
        if misc_smoke_target x \<or> is_fire_machine x
        then if \<not> powerdown_flag r1 then r1\<lparr>powerdown_target := True\<rparr> else r1
        else r1\<lparr>powerdown_target := False, powerdown_time := 0\<rparr>
      else r\<lparr>sr_poll_time := sr_poll_time r + 1\<rparr>)"

definition misc_smoke_report :: "extio_t \<Rightarrow> misc_t \<Rightarrow> misc_t" where
  "misc_smoke_report x m =
     (let r1 = misc_smoke_poll x (report m) in
      if powerdown_target r1
      then let r2 = (if powerdown_time r1 < 255 then r1\<lparr>powerdown_time := powerdown_time r1 + 1\<rparr> else r1) in
        if powerdown_time r2 > 50
        then let m1 = m\<lparr>smoke_open := 0\<rparr> in
          if is_fire_machine x
          then if \<not> fire_machine_update r2
               then m1\<lparr>report := r2\<lparr>fire_machine_update := True\<rparr>, fire_machine_open := True\<rparr>
               else m1\<lparr>report := r2\<rparr>
          else if fire_machine_update r2
               then m1\<lparr>report := r2\<lparr>fire_machine_update := False\<rparr>, fire_machine_open := False\<rparr>
               else m1\<lparr>report := r2\<rparr>
        else m\<lparr>report := r2\<rparr>
      else m\<lparr>report := r1\<rparr>)"

section \<open>The door\<close>

definition misc_read_inputs :: "('e, 'f) misc_world \<Rightarrow> ('e, 'f) misc_world" where
  "misc_read_inputs w = w\<lparr>misc := (misc w)\<lparr>key_open := key_sta (ext w) EXTIO_OPEN_KEY \<noteq> EXTIO_KEY_RELEASE,
        emergency_open := is_check (ext w) EXTIO_CHECK_EMERGENCY\<rparr>,
      ext := key_clr EXTIO_OPEN_KEY (ext w)\<rparr>"

definition misc_open_request :: "misc_t \<Rightarrow> bool" where
  "misc_open_request m \<longleftrightarrow> key_open m \<or> emergency_open m \<or> remote_open m \<noteq> 0 \<or> smoke_open m \<noteq> 0 \<or>
     fire_machine_open m"

text \<open>The reason in the order of the code: key, emergency, remote, smoke, fire machine.\<close>

definition open_cause :: "misc_t \<Rightarrow> u8 \<Rightarrow> u8" where
  "open_cause m other =
     (if key_open m then 1 else if emergency_open m then 2 else if remote_open m \<noteq> 0 then 3
      else if smoke_open m \<noteq> 0 then 4 else if fire_machine_open m then 5 else other)"

text \<open>Emergency, smoke and fire machine raise the alarms, if no earlier reason holds.\<close>

definition open_alarms :: "misc_t \<Rightarrow> bool" where
  "open_alarms m \<longleftrightarrow> open_cause m 0 = 2 \<or> open_cause m 0 = 4 \<or> open_cause m 0 = 5"

text \<open>The status published when the door opens; \<open>last_cause\<close> is read from the structure before
  its field is set.\<close>

definition open_status :: "building_status_t \<Rightarrow> misc_t \<Rightarrow> building_status_t" where
  "open_status junk m =
     (let b1 = junk\<lparr>bs_alarm := if smoke_open m \<noteq> 0 then 1 else 0, bs_door_open := 1\<rparr>;
          b2 = (if smoke_open m \<noteq> 0 \<and> unat (smoke_open m) \<le> SMOKE_NUM
                then b1\<lparr>bs_floor := smoke_open m, bs_room := 1, bs_temperature := 26, bs_smoke := 10,
                        bs_smoke_alarm := 1, bs_temp_alarmm := 0\<rparr> else b1);
          b3 = (if bs_cause junk \<noteq> 4 then b2\<lparr>bs_floor := 0, bs_room := 0\<rparr> else b2)
      in b3\<lparr>bs_cause := open_cause m (bs_cause b3)\<rparr>)"

definition misc_open :: "('e \<Rightarrow> nat \<Rightarrow> bool \<Rightarrow> 'e) \<Rightarrow> nb_env \<Rightarrow> building_status_t \<Rightarrow> ('e, 'f) misc_world \<Rightarrow>
    ('e, 'f) misc_world \<times> message list" where
  "misc_open wr nb junk w =
     (let m0 = (misc w)\<lparr>lock_time := 0\<rparr> in
      if \<not> door_open m0
      then let e1 = extio_door_open wr True (pins w);
               m1 = m0\<lparr>door_open := True, last_cause := bs_cause junk,
                  last_smoke_open := (if smoke_open m0 \<noteq> 0 \<and> unat (smoke_open m0) \<le> SMOKE_NUM
                                      then smoke_open m0 else last_smoke_open m0)\<rparr>;
               (x1, e2) = (if open_alarms m1 then (set_all_alarm (ext w), extio_main_alarm wr True e1)
                           else (ext w, e1));
               msgs = snd (nb_iot_publish_building nb (fst (stored w)) (open_status junk m1))
        in (w\<lparr>misc := m1\<lparr>key_open := False, emergency_open := False, remote_open := 0\<rparr>,
              ext := x1, pins := e2\<rparr>, msgs)
      else (w\<lparr>misc := m0\<rparr>, []))"

definition close_status :: "misc_t \<Rightarrow> building_status_t" where
  "close_status m = \<lparr>bs_alarm = smoke_open m, bs_door_open = 0, bs_cause = 0,
     bs_floor = if last_cause m = 4 then last_smoke_open m else 0,
     bs_room = if last_cause m = 4 then 1 else 0,
     bs_temperature = 0, bs_smoke = 0, bs_smoke_alarm = 0, bs_temp_alarmm = 0\<rparr>"

definition misc_close :: "('e \<Rightarrow> nat \<Rightarrow> bool \<Rightarrow> 'e) \<Rightarrow> nb_env \<Rightarrow> ('e, 'f) misc_world \<Rightarrow>
    ('e, 'f) misc_world \<times> message list" where
  "misc_close wr nb w =
     (let m = misc w in
      if door_open m \<and> \<not> misc_smoke_target (ext w)
      then let m1 = (if lock_time m < 0xfff then m\<lparr>lock_time := lock_time m + 1\<rparr> else m) in
        if lock_time m1 > 100
        then let e1 = extio_main_alarm wr False (extio_door_open wr False (pins w));
                 m2 = m1\<lparr>door_open := False, key_open := False, emergency_open := False,
                         remote_open := 0, fire_machine_open := False\<rparr>
          in (w\<lparr>misc := m2, ext := clr_all_alarm (ext w), pins := e1\<rparr>,
              snd (nb_iot_publish_building nb (fst (stored w)) (close_status m2)))
        else (w\<lparr>misc := m1\<rparr>, [])
      else (w, []))"

definition misc_door :: "('e \<Rightarrow> nat \<Rightarrow> bool \<Rightarrow> 'e) \<Rightarrow> nb_env \<Rightarrow> building_status_t \<Rightarrow> ('e, 'f) misc_world \<Rightarrow>
    ('e, 'f) misc_world \<times> message list" where
  "misc_door wr nb junk w =
     (if misc_open_request (misc w) then misc_open wr nb junk w else misc_close wr nb w)"

section \<open>Power, saving, the set key\<close>

definition misc_power :: "nb_env \<Rightarrow> ('e, 'f) misc_world \<Rightarrow> ('e, 'f) misc_world \<times> message list" where
  "misc_power nb w =
     (let down = is_check (ext w) EXTIO_CHECK_POWERDOWN; m = misc w; flag = powerdown_flag (report m) in
      if down \<and> \<not> flag
      then (w\<lparr>misc := m\<lparr>report := (report m)\<lparr>powerdown_flag := True\<rparr>\<rparr>\<rparr>,
            snd (nb_iot_publish_powerdown nb (fst (stored w)) 1))
      else if \<not> down \<and> flag
      then (w\<lparr>misc := m\<lparr>report := (report m)\<lparr>powerdown_flag := False\<rparr>\<rparr>\<rparr>,
            snd (nb_iot_publish_powerdown nb (fst (stored w)) 0))
      else (w, []))"

definition misc_save :: "('f, 'p) config_env \<Rightarrow> ('e, 'f) misc_world \<Rightarrow> ('e, 'f) misc_world" where
  "misc_save cenv w =
     (if save_time (misc w) > 10
      then w\<lparr>misc := (misc w)\<lparr>save_time := 0\<rparr>, stored := config_timming_save cenv (stored w)\<rparr>
      else w\<lparr>misc := (misc w)\<lparr>save_time := save_time (misc w) + 1\<rparr>\<rparr>)"

text \<open>The set key starts the factory test in this thread. \<open>factory\<close> is what the test leaves of
  the board and the pins when it returns; \<open>factory_outcome\<close> takes it from \<open>factory_testcase\<close>,
  for the file results and the polls of one run of the test.\<close>

definition factory_outcome :: "('e \<Rightarrow> nat \<Rightarrow> bool \<Rightarrow> 'e) \<Rightarrow> int \<Rightarrow> int \<Rightarrow> u8 list \<Rightarrow> extio_t list \<Rightarrow>
    extio_t \<times> 'e \<Rightarrow> extio_t \<times> 'e" where
  "factory_outcome wr fd1 fd2 buf polls s =
     (case factory_testcase wr fd1 fd2 buf polls s of None \<Rightarrow> s | Some (s1, verdicts) \<Rightarrow> s1)"

definition misc_set_key :: "(extio_t \<times> 'e \<Rightarrow> extio_t \<times> 'e) \<Rightarrow> ('e, 'f) misc_world \<Rightarrow> ('e, 'f) misc_world" where
  "misc_set_key factory w =
     (let w1 = (if key_sta (ext w) EXTIO_SET_KEY = EXTIO_KEY_PRESS
                then let (x1, e1) = factory (key_clr EXTIO_SET_KEY (ext w), pins w) in w\<lparr>ext := x1, pins := e1\<rparr>
                else w)
      in if key_sta (ext w1) EXTIO_SET_KEY = EXTIO_KEY_KEEP \<and> key_sta (ext w1) EXTIO_OPEN_KEY = EXTIO_KEY_KEEP
         then w1\<lparr>ext := key_clr EXTIO_OPEN_KEY (key_clr EXTIO_SET_KEY (ext w1))\<rparr>
         else w1)"

section \<open>The task\<close>

text \<open>The parts of the surroundings an iteration uses: the pin driver, the network, the flash,
  whether \<open>FIRE_MACHINE\<close> is defined, the uninitialised structure, the factory test.\<close>

record ('e, 'f, 'p) misc_env =
  wr_pin :: "'e \<Rightarrow> nat \<Rightarrow> bool \<Rightarrow> 'e"
  nb :: nb_env
  cenv :: "('f, 'p) config_env"
  FIRE_MACHINE :: bool
  junk :: building_status_t
  factory :: "extio_t \<times> 'e \<Rightarrow> extio_t \<times> 'e"

definition misc_iter :: "('e, 'f, 'p) misc_env \<Rightarrow> ('e, 'f) misc_world \<Rightarrow> ('e, 'f) misc_world \<times> message list" where
  "misc_iter env w =
     (if run_stop_flag (misc w) = 0 then (w, [])
      else let w1 = misc_read_inputs w;
               (w2, out1) = misc_door (wr_pin env) (nb env) (junk env) w1;
               (w3, out2) = misc_power (nb env) w2;
               w4 = (if FIRE_MACHINE env then w3\<lparr>misc := misc_smoke_report (ext w3) (misc w3)\<rparr> else w3);
               w5 = misc_save (cenv env) w4
           in (misc_set_key (factory env) w5, out1 @ out2))"

text \<open>What happens between two iterations: \<open>ev_ext\<close> is the work of the scan task on the board,
  \<open>ev_remote\<close> a door command of the server, if one came.\<close>

record between =
  ev_ext :: "extio_t \<Rightarrow> extio_t"
  ev_remote :: "u8 option"

definition misc_step :: "('e, 'f, 'p) misc_env \<Rightarrow> between \<Rightarrow> ('e, 'f) misc_world \<Rightarrow> ('e, 'f) misc_world" where
  "misc_step env b w = fst (misc_iter env
     (w\<lparr>ext := ev_ext b (ext w),
        misc := (case ev_remote b of None \<Rightarrow> misc w | Some r \<Rightarrow> (misc w)\<lparr>remote_open := r\<rparr>)\<rparr>))"

definition misc_door_open :: "('e \<Rightarrow> nat \<Rightarrow> bool \<Rightarrow> 'e) \<Rightarrow> u8 list list \<Rightarrow> 'e \<Rightarrow> 'e" where
  "misc_door_open wr argv e =
     (if length argv = 2
      then let e1 = (if argv ! 1 = c_bytes ''open'' then extio_door_open wr True e else e)
        in if argv ! 1 = c_bytes ''close'' then extio_door_open wr False e1 else e1
      else e)"

section \<open>What each part leaves alone\<close>

lemma misc_smoke_target_iff: "misc_smoke_target x \<longleftrightarrow> (\<exists>i. 2 \<le> i \<and> i \<le> 20 \<and> is_smoke x i)"
proof -
  have "fold (\<lambda>i have. if is_smoke x i then True else have) is b = (b \<or> list_ex (is_smoke x) is)" for "is" b
    by (induction "is" arbitrary: b) auto
  then have "misc_smoke_target x \<longleftrightarrow> list_ex (is_smoke x) [SMOKE_START..<Suc SMOKE_NUM]"
    by (simp add: misc_smoke_target_def del: upt_Suc)
  also have "\<dots> \<longleftrightarrow> (\<exists>i. 2 \<le> i \<and> i < Suc 20 \<and> is_smoke x i)"
    unfolding SMOKE_START_def SMOKE_NUM_def list_ex_iff set_upt Bex_def atLeastLessThan_iff by (simp only: conj_assoc)
  finally show ?thesis by (simp only: less_Suc_eq_le)
qed

lemma misc_power_eq: "\<exists>r. fst (misc_power n w) = w\<lparr>misc := (misc w)\<lparr>report := r\<rparr>\<rparr>"
  by (rule exI [of _ "report (misc (fst (misc_power n w)))"]) (simp add: misc_power_def Let_def)

lemma misc_save_eq: "\<exists>t s. misc_save c w = w\<lparr>misc := (misc w)\<lparr>save_time := t\<rparr>, stored := s\<rparr>"
proof -
  have "w\<lparr>misc := v\<rparr> = w\<lparr>misc := v, stored := stored w\<rparr>" for v by simp
  then show ?thesis unfolding misc_save_def by metis
qed

lemma misc_smoke_report_eq:
  "\<exists>r so fo. misc_smoke_report x m = m\<lparr>report := r, smoke_open := so, fire_machine_open := fo\<rparr> \<and>
     (so = 0 \<or> so = smoke_open m) \<and> (fo \<longrightarrow> fire_machine_open m \<or> is_fire_machine x)"
proof -
  obtain m' where m': "m' = misc_smoke_report x m" by simp
  have "m' = m\<lparr>report := report m', smoke_open := smoke_open m', fire_machine_open := fire_machine_open m'\<rparr>"
    unfolding m' by (simp add: misc_smoke_report_def Let_def)
  moreover have "smoke_open m' = 0 \<or> smoke_open m' = smoke_open m"
    "fire_machine_open m' \<longrightarrow> fire_machine_open m \<or> is_fire_machine x"
    unfolding m' by (simp_all add: misc_smoke_report_def Let_def)
  ultimately show ?thesis unfolding m' by blast
qed

text \<open>After the door part, an iteration changes only the report, the smoke and fire flags, the
  save counter and the stored configuration; and the board and pins only if the set key is
  not released.\<close>

lemma misc_iter_after_door:
  assumes run: "run_stop_flag (misc w) \<noteq> 0"
    and door: "misc_door (wr_pin env) (nb env) (junk env) (misc_read_inputs w) = (w2, out)"
  shows "\<exists>r t so fo st x e. fst (misc_iter env w) =
      w2\<lparr>misc := (misc w2)\<lparr>report := r, save_time := t, smoke_open := so, fire_machine_open := fo\<rparr>,
         stored := st, ext := x, pins := e\<rparr> \<and>
    (so = 0 \<or> so = smoke_open (misc w2)) \<and>
    (fo \<longrightarrow> fire_machine_open (misc w2) \<or> FIRE_MACHINE env \<and> is_fire_machine (ext w2)) \<and>
    (key_sta (ext w2) EXTIO_SET_KEY = EXTIO_KEY_RELEASE \<longrightarrow> x = ext w2 \<and> e = pins w2)"
proof -
  obtain w3 out2 where w3: "misc_power (nb env) w2 = (w3, out2)" by fastforce
  obtain r3 where r3: "w3 = w2\<lparr>misc := (misc w2)\<lparr>report := r3\<rparr>\<rparr>"
    using misc_power_eq [of "nb env" w2] w3 by auto
  let ?w4 = "if FIRE_MACHINE env then w3\<lparr>misc := misc_smoke_report (ext w3) (misc w3)\<rparr> else w3"
  obtain r so fo where w4: "?w4 = w2\<lparr>misc := (misc w2)\<lparr>report := r, smoke_open := so, fire_machine_open := fo\<rparr>\<rparr>"
    and so: "so = 0 \<or> so = smoke_open (misc w2)"
    and fo: "fo \<longrightarrow> fire_machine_open (misc w2) \<or> FIRE_MACHINE env \<and> is_fire_machine (ext w2)"
  proof (cases "FIRE_MACHINE env")
    case True
    obtain r' so' fo' where e: "misc_smoke_report (ext w3) (misc w3) =
        (misc w3)\<lparr>report := r', smoke_open := so', fire_machine_open := fo'\<rparr>"
      "so' = 0 \<or> so' = smoke_open (misc w3)"
      "fo' \<longrightarrow> fire_machine_open (misc w3) \<or> is_fire_machine (ext w3)"
      using misc_smoke_report_eq [of "ext w3" "misc w3"] by metis
    show ?thesis by (rule that [where r = r' and so = so' and fo = fo']) (use True e r3 in simp_all)
  next
    case False
    with r3 that [where r = r3 and so = "smoke_open (misc w2)" and fo = "fire_machine_open (misc w2)"] show ?thesis by simp
  qed
  obtain t st where w5: "misc_save (cenv env) ?w4 = ?w4\<lparr>misc := (misc ?w4)\<lparr>save_time := t\<rparr>, stored := st\<rparr>"
    using misc_save_eq by blast
  let ?w5 = "w2\<lparr>misc := (misc w2)\<lparr>report := r, smoke_open := so, fire_machine_open := fo, save_time := t\<rparr>, stored := st\<rparr>"
  define k where "k = misc_set_key (factory env) ?w5"
  have "fst (misc_iter env w) = k"
    using run door w3 w5 unfolding w4 k_def by (simp add: misc_iter_def Let_def w4)
  also have "k = w2\<lparr>misc := (misc w2)\<lparr>report := r, save_time := t, smoke_open := so, fire_machine_open := fo\<rparr>,
      stored := st, ext := ext k, pins := pins k\<rparr>"
    unfolding k_def by (simp add: misc_set_key_def Let_def split: prod.split)
  finally have final: "fst (misc_iter env w) = w2\<lparr>misc := (misc w2)\<lparr>report := r, save_time := t,
      smoke_open := so, fire_machine_open := fo\<rparr>, stored := st, ext := ext k, pins := pins k\<rparr>" .
  have "key_sta (ext w2) EXTIO_SET_KEY = EXTIO_KEY_RELEASE \<longrightarrow> ext k = ext w2 \<and> pins k = pins w2"
    unfolding k_def by (simp add: misc_set_key_def Let_def)
  with final so fo show ?thesis by blast
qed

section \<open>Quiet iterations\<close>

text \<open>No stored request, and nothing on the board that asks for one.\<close>

definition quiet :: "misc_t \<Rightarrow> bool" where
  "quiet m \<longleftrightarrow> remote_open m = 0 \<and> smoke_open m = 0 \<and> \<not> fire_machine_open m"

definition no_request :: "extio_t \<Rightarrow> bool" where
  "no_request x \<longleftrightarrow> key_sta x EXTIO_OPEN_KEY = EXTIO_KEY_RELEASE \<and> key_sta x EXTIO_SET_KEY = EXTIO_KEY_RELEASE \<and>
     \<not> is_check x EXTIO_CHECK_EMERGENCY \<and> \<not> is_fire_machine x"

definition board_idle :: "extio_t \<Rightarrow> bool" where
  "board_idle x \<longleftrightarrow> no_request x \<and> \<not> misc_smoke_target x"

lemma key_clr_frame [simp]:
  "x_input (key_clr k x) = x_input x" "x_check (key_clr k x) = x_check x" "x_output (key_clr k x) = x_output x"
  by (simp_all add: key_clr_def)

lemma key_sta_clr_other [simp]: "k \<noteq> j \<Longrightarrow> key_sta (key_clr k x) j = key_sta x j"
  by (simp add: key_sta_def key_clr_def)

lemma board_reads_clr [simp]:
  "is_smoke (key_clr k x) i = is_smoke x i" "is_fire_machine (key_clr k x) = is_fire_machine x"
  "is_check (key_clr k x) c = is_check x c" "misc_smoke_target (key_clr k x) = misc_smoke_target x"
  by (simp_all add: is_smoke_def is_fire_machine_def is_check_def misc_smoke_target_def)

lemma clr_all_alarm_reads [simp]:
  "key_sta (clr_all_alarm x) j = key_sta x j" "is_fire_machine (clr_all_alarm x) = is_fire_machine x"
  "key_sta (set_all_alarm x) j = key_sta x j" "is_fire_machine (set_all_alarm x) = is_fire_machine x"
  by (simp_all add: clr_all_alarm_def set_all_alarm_def key_sta_def is_fire_machine_def)

lemma misc_read_inputs_fields [simp]:
  "pins (misc_read_inputs w) = pins w" "stored (misc_read_inputs w) = stored w"
  "ext (misc_read_inputs w) = key_clr EXTIO_OPEN_KEY (ext w)"
  "remote_open (misc (misc_read_inputs w)) = remote_open (misc w)"
  "smoke_open (misc (misc_read_inputs w)) = smoke_open (misc w)"
  "fire_machine_open (misc (misc_read_inputs w)) = fire_machine_open (misc w)"
  "run_stop_flag (misc (misc_read_inputs w)) = run_stop_flag (misc w)"
  "door_open (misc (misc_read_inputs w)) = door_open (misc w)"
  "lock_time (misc (misc_read_inputs w)) = lock_time (misc w)"
  by (simp_all add: misc_read_inputs_def)

lemma no_open_request:
  "quiet (misc w) \<Longrightarrow> no_request (ext w) \<Longrightarrow> \<not> misc_open_request (misc (misc_read_inputs w))"
  by (simp add: quiet_def no_request_def misc_open_request_def misc_read_inputs_def)

text \<open>A quiet iteration keeps the flags clear and, but for locking, the pins.\<close>

lemma quiet_iter:
  assumes run: "run_stop_flag (misc w) \<noteq> 0" and q: "quiet (misc w)" and nr: "no_request (ext w)"
    and close: "misc_close (wr_pin env) (nb env) (misc_read_inputs w) = (w2, out)"
  shows "quiet (misc (fst (misc_iter env w))) \<and>
    run_stop_flag (misc (fst (misc_iter env w))) = run_stop_flag (misc w) \<and>
    door_open (misc (fst (misc_iter env w))) = door_open (misc w2) \<and>
    lock_time (misc (fst (misc_iter env w))) = lock_time (misc w2) \<and>
    pins (fst (misc_iter env w)) = pins w2 \<and> ext (fst (misc_iter env w)) = ext w2"
proof -
  have door: "misc_door (wr_pin env) (nb env) (junk env) (misc_read_inputs w) = (w2, out)"
    using close no_open_request [OF q nr] by (simp add: misc_door_def)
  have w2: "smoke_open (misc w2) = 0" "\<not> fire_machine_open (misc w2)" "remote_open (misc w2) = 0"
      "run_stop_flag (misc w2) = run_stop_flag (misc w)" "key_sta (ext w2) EXTIO_SET_KEY = EXTIO_KEY_RELEASE"
      "\<not> is_fire_machine (ext w2)"
    using close q nr by (auto simp: misc_close_def Let_def quiet_def no_request_def split: if_splits)
  obtain r t so fo st x e where i: "fst (misc_iter env w) =
      w2\<lparr>misc := (misc w2)\<lparr>report := r, save_time := t, smoke_open := so, fire_machine_open := fo\<rparr>,
         stored := st, ext := x, pins := e\<rparr>"
    "so = 0 \<or> so = smoke_open (misc w2)"
    "fo \<longrightarrow> fire_machine_open (misc w2) \<or> FIRE_MACHINE env \<and> is_fire_machine (ext w2)"
    "key_sta (ext w2) EXTIO_SET_KEY = EXTIO_KEY_RELEASE \<longrightarrow> x = ext w2 \<and> e = pins w2"
    using misc_iter_after_door [OF run door] by metis
  show ?thesis unfolding i(1) using i(2-4) w2 by (simp add: quiet_def)
qed

lemma close_idle:
  assumes "door_open (misc w)" and "board_idle (ext w)" and "lock_time (misc w) \<le> 100"
  shows "\<exists>w2 out. misc_close wr n (misc_read_inputs w) = (w2, out) \<and>
    (if lock_time (misc w) < 100
     then door_open (misc w2) \<and> lock_time (misc w2) = lock_time (misc w) + 1 \<and> pins w2 = pins w
     else \<not> door_open (misc w2) \<and> pins w2 = extio_main_alarm wr False (extio_door_open wr False (pins w)) \<and>
       ext w2 = clr_all_alarm (key_clr EXTIO_OPEN_KEY (ext w)))"
  using assms by (simp add: misc_close_def Let_def board_idle_def)

lemma close_shut:
  assumes "\<not> door_open (misc w)"
  shows "misc_close wr n (misc_read_inputs w) = (misc_read_inputs w, [])"
  using assms by (simp add: misc_close_def Let_def)

lemma misc_step_no_remote:
  "ev_remote b = None \<Longrightarrow> misc_step env b w = fst (misc_iter env (w\<lparr>ext := ev_ext b (ext w)\<rparr>))"
  by (simp add: misc_step_def)

definition idle_between :: "between \<Rightarrow> bool" where
  "idle_between b \<longleftrightarrow> ev_remote b = None \<and> (\<forall>x. board_idle (ev_ext b x))"

text \<open>The lock counter counts idle iterations.\<close>

lemma idle_run_counts:
  assumes "list_all idle_between bs" and "length bs + lock_time (misc w) \<le> 100"
    and "door_open (misc w)" and "quiet (misc w)" and "run_stop_flag (misc w) \<noteq> 0"
  shows "let w' = run (misc_step env) bs w in
    door_open (misc w') \<and> quiet (misc w') \<and> run_stop_flag (misc w') \<noteq> 0 \<and>
    lock_time (misc w') = lock_time (misc w) + length bs \<and> pins w' = pins w"
  using assms
proof (induction bs arbitrary: w)
  case (Cons b bs)
  let ?w = "w\<lparr>ext := ev_ext b (ext w)\<rparr>"
  have b: "ev_remote b = None" "board_idle (ext ?w)" "no_request (ext ?w)"
    using Cons.prems(1) by (auto simp: idle_between_def board_idle_def)
  obtain w2 out where c: "misc_close (wr_pin env) (nb env) (misc_read_inputs ?w) = (w2, out)"
    "door_open (misc w2)" "lock_time (misc w2) = lock_time (misc w) + 1" "pins w2 = pins w"
    using close_idle [of ?w "wr_pin env" "nb env"] b Cons.prems by auto
  have "quiet (misc ?w)" "run_stop_flag (misc ?w) \<noteq> 0" using Cons.prems by simp_all
  note step = quiet_iter [OF this(2,1) b(3) c(1)]
  with Cons.IH [of "misc_step env b w"] Cons.prems c b show ?case
    by (simp add: misc_step_no_remote Let_def)
qed (simp add: Let_def)

section \<open>Properties\<close>

definition level_env :: "bool \<Rightarrow> (levels, mem, unit) misc_env" where
  "level_env fm = \<lparr>wr_pin = set_level, nb = sample_nb_env, cenv = ram_flash, FIRE_MACHINE = fm,
     junk = close_status misc_zero, factory = factory_outcome set_level 3 3 [] (replicate 29 sample_board)\<rparr>"

definition sample_world :: "(levels, mem) misc_world" where
  "sample_world = \<lparr>misc = misc_zero, ext = extio_zero, pins = (\<lambda>_. False), stored = (config_zero, \<lambda>_. 0)\<rparr>"

lemma ext_zero_idle: "board_idle extio_zero"
proof -
  have sm: "\<not> is_smoke extio_zero (Suc k)" if "k < 24" for k
  proof -
    have "k div 8 < 3" "k mod 8 < 8" using that by linarith+
    then have "in_save (x_input extio_zero) ! (k div 8) = 255" by (simp add: extio_zero_def EXTIO_IN_MAX_def)
    moreover have "bit (255 :: u8) (k mod 8)"
      using bit_mask_iff [of 8 "k mod 8", where ?'a = "8 word"] \<open>k mod 8 < 8\<close> by (simp add: mask_eq_exp_minus_1)
    ultimately show ?thesis using word_and_push_bit_1 [of "255 :: u8" "k mod 8"] by (simp add: is_smoke_def)
  qed
  have "\<not> is_smoke extio_zero i" if "2 \<le> i" "i \<le> 20" for i
    using sm [of "i - 1"] that by simp
  then have "\<not> misc_smoke_target extio_zero" by (auto simp: misc_smoke_target_iff)
  moreover have "\<not> is_fire_machine extio_zero" using sm [of 23] by (simp add: is_smoke_def is_fire_machine_def)
  ultimately show ?thesis
    by (simp add: board_idle_def no_request_def key_sta_def is_check_def extio_zero_def
        EXTIO_KEY_MAX_def EXTIO_CHECK_AMX_def)
qed

text \<open>
  Claim C2: an open door with no request left stays open for exactly 100 idle iterations of
  the task and is locked in the 101st, which also switches off the main alarm and all relay
  outputs.
\<close>

theorem misc_door_relocks:
  assumes "wr_pin env = set_level" and "list_all idle_between bs"
    and "door_open (misc w)" and "lock_time (misc w) = 0" and "quiet (misc w)" and "run_stop_flag (misc w) \<noteq> 0"
    and "w' = run (misc_step env) bs w"
  shows "(length bs \<le> 100 \<longrightarrow> door_open (misc w') \<and> pins w' = pins w) \<and>
    (length bs = 101 \<and> length (out_byte (x_output (ext w'))) = 1 \<longrightarrow>
      \<not> door_open (misc w') \<and> \<not> pins w' EXTIO_DOOR_OPEN \<and> \<not> pins w' EXTIO_MAIN_ALARM \<and>
      out_byte (x_output (ext w')) = [0])"
proof (intro conjI impI)
  assume "length bs \<le> 100"
  then show "door_open (misc w')" "pins w' = pins w"
    using idle_run_counts [of bs w env] assms by (simp_all add: Let_def)
next
  assume a: "length bs = 101 \<and> length (out_byte (x_output (ext w'))) = 1"
  then obtain cs b where bs: "bs = cs @ [b]" "length cs = 100" by (cases bs rule: rev_cases) auto
  let ?v = "run (misc_step env) cs w"
  let ?u = "?v\<lparr>ext := ev_ext b (ext ?v)\<rparr>"
  have v: "door_open (misc ?v)" "quiet (misc ?v)" "run_stop_flag (misc ?v) \<noteq> 0" "lock_time (misc ?v) = 100"
    using idle_run_counts [of cs w env] bs assms(2-6) by (simp_all add: Let_def)
  have b: "ev_remote b = None" "board_idle (ext ?u)" "no_request (ext ?u)"
    using assms(2) bs by (auto simp: idle_between_def board_idle_def)
  obtain w2 out where c: "misc_close (wr_pin env) (nb env) (misc_read_inputs ?u) = (w2, out)"
    "\<not> door_open (misc w2)" "pins w2 = extio_main_alarm (wr_pin env) False (extio_door_open (wr_pin env) False (pins ?v))"
    "ext w2 = clr_all_alarm (key_clr EXTIO_OPEN_KEY (ext ?u))"
    using close_idle [of ?u "wr_pin env" "nb env"] v b by auto
  have "quiet (misc ?u)" "run_stop_flag (misc ?u) \<noteq> 0" using v by simp_all
  note step = quiet_iter [OF this(2,1) b(3) c(1)]
  have w': "w' = fst (misc_iter env ?u)" using assms(7) bs b(1) by (simp add: misc_step_no_remote)
  have "length (out_byte (x_output (ext ?u))) = 1" using a w' step c(4) by (simp add: clr_all_alarm_def)
  then have "out_byte (x_output (ext w')) = [0]"
    using w' step c(4) by (auto simp: clr_all_alarm_def length_Suc_conv)
  with w' step c(2,3) assms(1) show "\<not> door_open (misc w')" "\<not> pins w' EXTIO_DOOR_OPEN"
      "\<not> pins w' EXTIO_MAIN_ALARM" "out_byte (x_output (ext w')) = [0]"
    by (simp_all add: extio_main_alarm_def extio_door_open_def pin_defs)
qed

definition idle_sample :: between where
  "idle_sample = \<lparr>ev_ext = (\<lambda>_. extio_zero), ev_remote = None\<rparr>"

lemma idle_sample: "idle_between idle_sample"
  by (simp add: idle_between_def idle_sample_def ext_zero_idle)

theorem misc_door_relocks_witness:
  "door_open (misc (run (misc_step (level_env True)) (replicate 100 idle_sample)
     (sample_world\<lparr>misc := misc_zero\<lparr>door_open := True\<rparr>\<rparr>)))"
  using misc_door_relocks [of "level_env True" "replicate 100 idle_sample"
      "sample_world\<lparr>misc := misc_zero\<lparr>door_open := True\<rparr>\<rparr>", OF _ _ _ _ _ _ refl]
  by (simp add: level_env_def misc_zero_def quiet_def list_all_iff idle_sample)

text \<open>The iteration that opens the door.\<close>

lemma open_iter:
  assumes "wr_pin env = set_level" and "run_stop_flag (misc w) \<noteq> 0" and "\<not> door_open (misc w)"
    and "extio_wf (ext w)" and "key_sta (ext w) EXTIO_SET_KEY = EXTIO_KEY_RELEASE"
    and "m = misc (misc_read_inputs w)" and "misc_open_request m"
    and "misc_iter env w = (w', out)"
  shows "door_open (misc w') \<and> pins w' EXTIO_DOOR_OPEN \<and> remote_open (misc w') = 0 \<and>
    (open_alarms m \<longrightarrow> pins w' EXTIO_MAIN_ALARM \<and> out_byte (x_output (ext w')) = [255]) \<and>
    (mqtt_connect_sta (nb env) \<noteq> 0 \<longrightarrow>
      (\<exists>msg \<in> set out. (''cause'', JNum (uint (open_cause m 0))) \<in> set msg))"
proof -
  obtain w2 o2 where d: "misc_open (wr_pin env) (nb env) (junk env) (misc_read_inputs w) = (w2, o2)" by fastforce
  then have door: "misc_door (wr_pin env) (nb env) (junk env) (misc_read_inputs w) = (w2, o2)"
    using assms(6,7) by (simp add: misc_door_def)
  let ?m1 = "m\<lparr>lock_time := 0, door_open := True, last_cause := bs_cause (junk env),
      last_smoke_open := (if smoke_open m \<noteq> 0 \<and> unat (smoke_open m) \<le> SMOKE_NUM
         then smoke_open m else last_smoke_open m)\<rparr>"
  have cause: "open_cause ?m1 = open_cause m" "open_alarms ?m1 = open_alarms m" "open_cause m c = open_cause m 0" for c
    using assms(7) by (auto simp: open_cause_def open_alarms_def fun_eq_iff misc_open_request_def)
  have one: "length (out_byte (x_output (ext w))) = 1" using assms(4) by (simp add: extio_wf_def)
  have w2: "door_open (misc w2)" "remote_open (misc w2) = 0" "pins w2 EXTIO_DOOR_OPEN"
      "open_alarms m \<longrightarrow> pins w2 EXTIO_MAIN_ALARM \<and> out_byte (x_output (ext w2)) = [255]"
      "o2 = snd (nb_iot_publish_building (nb env) (fst (stored w)) (open_status (junk env) ?m1))"
    using d assms(1,3,5,6) cause one
    by (auto simp: misc_open_def Let_def extio_door_open_def extio_main_alarm_def pin_defs set_all_alarm_def
        length_Suc_conv split: if_splits)
  have set_key: "key_sta (ext w2) EXTIO_SET_KEY = EXTIO_KEY_RELEASE"
    using d assms(3,5) by (auto simp: misc_open_def Let_def split: if_splits)
  have msg: "mqtt_connect_sta (nb env) \<noteq> 0 \<Longrightarrow>
      \<exists>msg \<in> set o2. (''cause'', JNum (uint (open_cause m 0))) \<in> set msg"
    using cause(1) cause(3) [of "bs_cause (junk env)"] cause(3) [of 4] unfolding w2(5)
    by (simp add: nb_iot_publish_building_def mqtt_send_def open_status_def Let_def)
  have out: "set o2 \<subseteq> set out"
    using assms(2,8) door by (auto simp: misc_iter_def Let_def split: prod.splits)
  obtain r t so fo st x e where i: "fst (misc_iter env w) =
      w2\<lparr>misc := (misc w2)\<lparr>report := r, save_time := t, smoke_open := so, fire_machine_open := fo\<rparr>,
         stored := st, ext := x, pins := e\<rparr>" "x = ext w2 \<and> e = pins w2"
    using misc_iter_after_door [OF assms(2) door] set_key by metis
  have w': "w' = fst (misc_iter env w)" using assms(8) by simp
  show ?thesis unfolding w' i(1) using i(2) w2 msg out by auto
qed

text \<open>
  A request while the door is locked opens it in the same iteration, and raises main
  alarm and relays if the reason is the emergency line or the fire machine and no earlier one
  holds. While connected, one message reports the opening with the first reason in the order
  key, emergency, remote, smoke, fire machine.
\<close>

theorem misc_opens_on_request:
  assumes "wr_pin env = set_level" and "run_stop_flag (misc w) \<noteq> 0" and "\<not> door_open (misc w)"
    and "extio_wf (ext w)" and "key_sta (ext w) EXTIO_SET_KEY = EXTIO_KEY_RELEASE"
    and "m = misc (misc_read_inputs w)" and "misc_open_request m"
    and "misc_iter env w = (w', out)"
  shows "door_open (misc w') \<and> pins w' EXTIO_DOOR_OPEN \<and> remote_open (misc w') = 0 \<and>
    (open_alarms m \<longrightarrow> pins w' EXTIO_MAIN_ALARM \<and> out_byte (x_output (ext w')) = [255]) \<and>
    (mqtt_connect_sta (nb env) \<noteq> 0 \<longrightarrow>
      (\<exists>msg \<in> set out. (''cause'', JNum (uint (open_cause m 0))) \<in> set msg))"
  using assms by (rule open_iter)

definition emergency_board :: extio_t where
  "emergency_board = extio_zero\<lparr>x_check := (x_check extio_zero)\<lparr>c_sta := [0, 1]\<rparr>\<rparr>"

theorem misc_opens_on_request_witness:
  "pins (fst (misc_iter (level_env True) (sample_world\<lparr>ext := emergency_board\<rparr>))) EXTIO_MAIN_ALARM"
proof -
  let ?w = "sample_world\<lparr>ext := emergency_board\<rparr>"
  obtain w' out where i: "misc_iter (level_env True) ?w = (w', out)" by fastforce
  have c: "c_sta (x_check emergency_board) = [0, 1]" "c_time (x_check emergency_board) = c_time (x_check extio_zero)"
      "x_key emergency_board = x_key extio_zero" "x_input emergency_board = x_input extio_zero"
      "x_output emergency_board = x_output extio_zero"
    by (simp_all add: emergency_board_def)
  have wf: "extio_wf (ext ?w)"
    using extio_wf_init by (simp add: extio_wf_def check_wf_def c)
  have k: "key_sta (ext ?w) i = key_sta extio_zero i" for i by (simp add: key_sta_def c)
  have z: "key_sta extio_zero 0 = 0" "key_sta extio_zero 1 = 0"
    using ext_zero_idle by (simp_all add: board_idle_def no_request_def)
  have e: "emergency_open (misc (misc_read_inputs ?w))" "\<not> key_open (misc (misc_read_inputs ?w))"
    using k z by (simp_all add: misc_read_inputs_def is_check_def c)
  have h: "wr_pin (level_env True) = set_level" "run_stop_flag (misc ?w) \<noteq> 0" "\<not> door_open (misc ?w)"
      "key_sta (ext ?w) EXTIO_SET_KEY = EXTIO_KEY_RELEASE"
      "misc_open_request (misc (misc_read_inputs ?w))" "open_alarms (misc (misc_read_inputs ?w))"
    using e k z by (simp_all add: level_env_def sample_world_def misc_zero_def misc_open_request_def
        open_alarms_def open_cause_def)
  from misc_opens_on_request [OF h(1-3) wf h(4) refl h(5) i] h(6) i show ?thesis by simp
qed

definition silent_between :: "between \<Rightarrow> bool" where
  "silent_between b \<longleftrightarrow> ev_remote b = None \<and> (\<forall>x. no_request (ev_ext b x))"

text \<open>
  Smoke at the detector inputs never opens the door by itself. The reporting loop that
  would set \<open>smoke_open\<close> is commented out, so with keys, emergency line, fire machine and server
  silent the door stays locked and no pin moves, whatever the detectors report and for however
  long.
\<close>

theorem misc_detectors_never_open:
  assumes "list_all silent_between bs" and "\<not> door_open (misc w)" and "quiet (misc w)"
    and "w' = run (misc_step env) bs w"
  shows "\<not> door_open (misc w') \<and> pins w' = pins w"
proof -
  have "\<not> door_open (misc (run (misc_step env) bs w)) \<and> quiet (misc (run (misc_step env) bs w)) \<and>
      pins (run (misc_step env) bs w) = pins w"
    using assms(1-3)
  proof (induction bs arbitrary: w)
    case (Cons b bs)
    let ?w = "w\<lparr>ext := ev_ext b (ext w)\<rparr>"
    have b: "ev_remote b = None" "no_request (ext ?w)" using Cons.prems(1) by (auto simp: silent_between_def)
    have "\<not> door_open (misc (misc_step env b w)) \<and> quiet (misc (misc_step env b w)) \<and>
        pins (misc_step env b w) = pins w"
    proof (cases "run_stop_flag (misc w) = 0")
      case True
      with b Cons.prems show ?thesis by (simp add: misc_step_no_remote misc_iter_def)
    next
      case False
      have "quiet (misc ?w)" "\<not> door_open (misc ?w)" "run_stop_flag (misc ?w) \<noteq> 0" using Cons.prems False by simp_all
      with quiet_iter [where env = env, OF this(3,1) b(2) close_shut [OF this(2)]] Cons.prems b(1) show ?thesis
        by (simp add: misc_step_no_remote)
    qed
    with Cons.IH [of "misc_step env b w"] Cons.prems show ?case by simp
  qed simp
  with assms(4) show ?thesis by simp
qed

text \<open>A board with smoke at every detector and nothing else.\<close>

definition smoke_board :: extio_t where
  "smoke_board = extio_zero\<lparr>x_input := (x_input extio_zero)\<lparr>in_save := [0, 0, 0xf0]\<rparr>\<rparr>"

lemma smoke_board_silent: "no_request smoke_board"
proof -
  have "key_sta smoke_board i = key_sta extio_zero i" "is_check smoke_board i = is_check extio_zero i" for i
    by (simp_all add: key_sta_def is_check_def smoke_board_def)
  moreover have "\<not> is_fire_machine smoke_board" by (simp add: is_fire_machine_def smoke_board_def)
  ultimately show "no_request smoke_board"
    using ext_zero_idle by (simp add: board_idle_def no_request_def)
qed

lemma smoke_board_target: "misc_smoke_target smoke_board"
proof -
  have "is_smoke smoke_board 2" by (simp add: is_smoke_def smoke_board_def)
  then show ?thesis by (auto simp: misc_smoke_target_iff)
qed

theorem misc_detectors_never_open_witness:
  "\<not> pins (run (misc_step (level_env True)) (replicate 1000 \<lparr>ev_ext = (\<lambda>_. smoke_board), ev_remote = None\<rparr>)
       sample_world) EXTIO_DOOR_OPEN"
  using misc_detectors_never_open [of "replicate 1000 \<lparr>ev_ext = (\<lambda>_. smoke_board), ev_remote = None\<rparr>"
      sample_world, OF _ _ _ refl, of "level_env True"]
  by (simp add: list_all_iff silent_between_def smoke_board_silent quiet_def sample_world_def misc_zero_def)

text \<open>
  A remote open command that arrives while the door is open is never consumed: the
  request is cleared only when it opens a locked door or when the door is locked, and it keeps
  the door from being locked. Whatever the board shows, the door stays open until the server
  withdraws the command.
\<close>

theorem misc_remote_open_latches:
  assumes "door_open (misc w)" and "remote_open (misc w) \<noteq> 0"
    and "list_all (\<lambda>b. ev_remote b \<noteq> Some 0) bs" and "w' = run (misc_step env) bs w"
  shows "door_open (misc w') \<and> remote_open (misc w') \<noteq> 0"
proof -
  have "door_open (misc (run (misc_step env) bs w)) \<and> remote_open (misc (run (misc_step env) bs w)) \<noteq> 0"
    using assms(1-3)
  proof (induction bs arbitrary: w)
    case (Cons b bs)
    let ?w = "w\<lparr>ext := ev_ext b (ext w), misc := (case ev_remote b of None \<Rightarrow> misc w
        | Some r \<Rightarrow> (misc w)\<lparr>remote_open := r\<rparr>)\<rparr>"
    have h: "door_open (misc ?w)" "remote_open (misc ?w) \<noteq> 0"
      using Cons.prems by (auto split: option.split)
    have "door_open (misc (fst (misc_iter env ?w))) \<and> remote_open (misc (fst (misc_iter env ?w))) \<noteq> 0"
    proof (cases "run_stop_flag (misc ?w) = 0")
      case True
      with h show ?thesis by (simp add: misc_iter_def)
    next
      case False
      have "misc_door (wr_pin env) (nb env) (junk env) (misc_read_inputs ?w) =
          ((misc_read_inputs ?w)\<lparr>misc := (misc (misc_read_inputs ?w))\<lparr>lock_time := 0\<rparr>\<rparr>, [])"
        using h by (simp add: misc_door_def misc_open_request_def misc_open_def Let_def)
      from misc_iter_after_door [OF False this] h show ?thesis by auto
    qed
    then have "door_open (misc (misc_step env b w))" "remote_open (misc (misc_step env b w)) \<noteq> 0"
      by (simp_all add: misc_step_def)
    with Cons.IH Cons.prems(3) show ?case by simp
  qed simp
  with assms(4) show ?thesis by simp
qed

theorem misc_remote_open_latches_witness:
  "door_open (misc (run (misc_step (level_env True)) (replicate 1000 idle_sample)
     (sample_world\<lparr>misc := misc_zero\<lparr>door_open := True, remote_open := 1\<rparr>\<rparr>)))"
  using misc_remote_open_latches [of "sample_world\<lparr>misc := misc_zero\<lparr>door_open := True, remote_open := 1\<rparr>\<rparr>"
      "replicate 1000 idle_sample", OF _ _ _ refl, of "level_env True"]
  by (simp add: list_all_iff idle_sample_def)

text \<open>
  If the emergency line becomes active, or the fire machine reports, while the door is
  already open, no alarm is raised: the whole alarm branch is inside the test that the door was
  locked.
\<close>

theorem misc_alarm_missed_while_open:
  assumes "run_stop_flag (misc w) \<noteq> 0" and "door_open (misc w)"
    and "is_check (ext w) EXTIO_CHECK_EMERGENCY \<or> fire_machine_open (misc w)"
    and "key_sta (ext w) EXTIO_SET_KEY = EXTIO_KEY_RELEASE"
    and "misc_iter env w = (w', out)"
  shows "pins w' = pins w \<and> x_output (ext w') = x_output (ext w)"
proof -
  let ?w1 = "misc_read_inputs w"
  have "misc_open_request (misc ?w1)"
    using assms(3) by (auto simp: misc_open_request_def misc_read_inputs_def)
  then have door: "misc_door (wr_pin env) (nb env) (junk env) ?w1 = (?w1\<lparr>misc := (misc ?w1)\<lparr>lock_time := 0\<rparr>\<rparr>, [])"
    using assms(2) by (simp add: misc_door_def misc_open_def Let_def)
  have "key_sta (ext (?w1\<lparr>misc := (misc ?w1)\<lparr>lock_time := 0\<rparr>\<rparr>)) EXTIO_SET_KEY = EXTIO_KEY_RELEASE"
    using assms(4) by simp
  with misc_iter_after_door [OF assms(1) door] have
    "ext (fst (misc_iter env w)) = ext ?w1 \<and> pins (fst (misc_iter env w)) = pins ?w1" by auto
  with assms(5) show ?thesis by simp
qed

theorem misc_alarm_missed_while_open_witness:
  "\<not> pins (fst (misc_iter (level_env True) (sample_world\<lparr>misc := misc_zero\<lparr>door_open := True, fire_machine_open := True\<rparr>\<rparr>)))
       EXTIO_MAIN_ALARM"
proof -
  let ?w = "sample_world\<lparr>misc := misc_zero\<lparr>door_open := True, fire_machine_open := True\<rparr>\<rparr>"
  obtain w' out where i: "misc_iter (level_env True) ?w = (w', out)" by fastforce
  have "key_sta (ext ?w) EXTIO_SET_KEY = EXTIO_KEY_RELEASE"
    using ext_zero_idle by (simp add: board_idle_def no_request_def sample_world_def)
  with misc_alarm_missed_while_open [OF _ _ _ _ i] i show ?thesis
    by (simp add: misc_zero_def) (simp add: sample_world_def)
qed

end
