(* ===== verification/Fire_Alarm.thy ===== *)
theory Fire_Alarm
  imports Misc
begin

text \<open>
  From the pins to the alarm: the scan rounds of \<open>extio_task\<close> on a board whose pins are plain
  levels, and what the door and alarm control makes of them. The scan writes only the four
  pins of the shift registers, so the supervised lines and the keys keep the levels they are
  given.
\<close>

section \<open>The pins a round writes\<close>

definition shift_pins :: "nat set" where
  "shift_pins = {EXTIO_ALARM_PIN, EXTIO_CLK_PIN, EXTIO_LE_PIN, EXTIO_PE_PIN}"

lemma shift_pins_iff: "p \<notin> shift_pins \<longleftrightarrow>
    p \<noteq> EXTIO_ALARM_PIN \<and> p \<noteq> EXTIO_CLK_PIN \<and> p \<noteq> EXTIO_LE_PIN \<and> p \<noteq> EXTIO_PE_PIN"
  by (simp add: shift_pins_def)

lemma write_bits_frame: "p \<notin> shift_pins \<Longrightarrow> extio_write_bits set_level n byte e p = e p"
  by (induction n arbitrary: byte e) (simp_all add: shift_pins_iff Let_def)

lemma output_frame: "p \<notin> shift_pins \<Longrightarrow> extio_output set_level x e p = e p"
  by (simp add: extio_output_def extio_write_def write_bits_frame EXTIO_OUT_MAX_def Let_def)
    (simp add: shift_pins_iff)

lemma read_bits_frame: "p \<notin> shift_pins \<Longrightarrow> snd (extio_read_bits set_level rd n byte e) p = e p"
  by (induction n arbitrary: byte e) (simp_all add: shift_pins_iff Let_def)

lemma read_frame: "p \<notin> shift_pins \<Longrightarrow> snd (extio_read set_level rd first e) p = e p"
  by (simp add: extio_read_def read_bits_frame)

lemma read_fold_frame:
  assumes "p \<notin> shift_pins"
  shows "snd (fold (\<lambda>i (buf, e). (buf[g i := fst (extio_read set_level rd (i = 0) e)],
      snd (extio_read set_level rd (i = 0) e))) is (buf, e)) p = e p"
  by (induction "is" arbitrary: buf e) (simp_all add: read_frame [OF assms])

lemma input_frame:
  assumes "p \<notin> shift_pins"
  shows "snd (extio_input set_level rd x e) p = e p"
  using assms read_fold_frame [OF assms, of "\<lambda>i. EXTIO_IN_MAX div 8 - Suc i" rd]
  by (simp add: extio_input_def Let_def case_prod_beta' shift_pins_iff)

lemma line_pins: "EXTIO_EMERGENCY \<notin> shift_pins" "EXTIO_SET_KEY_PIN \<notin> shift_pins"
  "EXTIO_DOOR_KEY_PIN \<notin> shift_pins" "EXTIO_POWERDOWN \<notin> shift_pins"
  by (simp_all add: shift_pins_iff pin_defs)

section \<open>A round seen from the lines and the keys\<close>

lemma round_parts:
  "\<exists>x2 e2. extio_round fm set_level rd (x, e) = (extio_check rd e2 (extio_key_scan rd e2 x2), e2) \<and>
    x_check x2 = x_check x \<and> x_key x2 = x_key x \<and> (\<forall>p. p \<notin> shift_pins \<longrightarrow> e2 p = e p)"
proof -
  define e1 where "e1 = extio_output set_level x e"
  have e1: "p \<notin> shift_pins \<longrightarrow> e1 p = e p" for p by (simp add: e1_def output_frame)
  have keep: "x_check (fst (extio_input set_level rd x e1)) = x_check x"
    "x_key (fst (extio_input set_level rd x e1)) = x_key x"
    by (simp_all add: extio_input_def Let_def case_prod_beta)
  show ?thesis
  proof (cases fm)
    case True
    show ?thesis
      by (rule exI [of _ "extio_input_check (fst (extio_input set_level rd x e1))"],
          rule exI [of _ "snd (extio_input set_level rd x e1)"])
        (simp add: True extio_round_def Let_def case_prod_beta keep extio_input_check_def input_frame e1
          flip: e1_def)
  next
    case False
    then show ?thesis using e1 by (auto simp: extio_round_def Let_def simp flip: e1_def)
  qed
qed

lemma round_frame: "p \<notin> shift_pins \<Longrightarrow> snd (extio_round fm set_level rd (x, e)) p = e p"
  using round_parts [of fm rd x e] by auto

lemma round_check:
  assumes "\<not> e EXTIO_EMERGENCY"
  shows "\<exists>low. x_check (fst (extio_round fm set_level (\<lambda>e p. e p) (x, e))) =
    check_one 1 True (check_one 0 low (x_check x))"
  using assms round_parts [of fm "\<lambda>e p. e p" x e] line_pins
  by (auto simp: extio_check_def extio_key_scan_def EXTIO_CHECK_AMX_def upt_rec)

lemma round_key:
  assumes "e EXTIO_SET_KEY_PIN" and "e EXTIO_DOOR_KEY_PIN"
  shows "x_key (fst (extio_round fm set_level (\<lambda>e p. e p) (x, e))) =
    key_scan_one 1 False (key_scan_one 0 False (x_key x))"
  using assms round_parts [of fm "\<lambda>e p. e p" x e] line_pins
  by (auto simp: extio_check_def extio_key_scan_def EXTIO_KEY_MAX_def upt_rec)

text \<open>The state of a board whose emergency line has been low for \<open>n\<close> rounds with both keys up.\<close>

definition alarm_pending :: "nat \<Rightarrow> extio_t \<times> levels \<Rightarrow> bool" where
  "alarm_pending n = (\<lambda>(x, e).
     extio_wf x \<and> \<not> e EXTIO_EMERGENCY \<and> e EXTIO_SET_KEY_PIN \<and> e EXTIO_DOOR_KEY_PIN \<and>
     k_sta (x_key x) = [0, 0] \<and> k_time (x_key x) = [0, 0] \<and>
     min n 11 \<le> unat (c_time (x_check x) ! 1) \<and> (11 \<le> n \<longrightarrow> is_check x EXTIO_CHECK_EMERGENCY))"

lemma check_one_other: "c_time (check_one 0 low c) ! 1 = c_time c ! 1" "c_sta (check_one 0 low c) ! 1 = c_sta c ! 1"
  by (simp_all add: check_one_def Let_def)

lemma alarm_pending_step:
  assumes "alarm_pending n (x, e)"
  shows "alarm_pending (Suc n) (extio_round fm set_level (\<lambda>e p. e p) (x, e))"
proof -
  obtain x' e' where r: "extio_round fm set_level (\<lambda>e p. e p) (x, e) = (x', e')" by fastforce
  note a = assms [unfolded alarm_pending_def prod.case]
  have pin: "p \<notin> shift_pins \<Longrightarrow> e' p = e p" for p using round_frame [of p fm _ x e] r by (metis snd_conv)
  have wf: "extio_wf x'" using extio_wf_round [of x fm] a r by (metis fst_conv)
  obtain low where c: "x_check x' = check_one 1 True (check_one 0 low (x_check x))"
    using round_check [of e fm x] a r by (metis fst_conv)
  let ?c = "check_one 0 low (x_check x)"
  have inv: "check_inv 1 ?c" using a by (auto simp: extio_wf_def check_inv_def check_wf_def check_one_def Let_def)
  have t: "unat (c_time (x_check x') ! 1) = min (unat (c_time (x_check x) ! 1) + 1) 255"
    using check_line.count_hold [OF inv, of 1] by (simp add: c check_one_other [simplified])
  have s: "10 < unat (c_time (x_check x') ! 1) \<Longrightarrow> is_check x' EXTIO_CHECK_EMERGENCY"
    using check_sta_low [OF inv] by (simp add: c is_check_def)
  have k: "x_key x' = key_scan_one 1 False (key_scan_one 0 False (x_key x))"
    using round_key [of e fm x] a r by (metis fst_conv)
  have ks: "k_sta (x_key x') = [0, 0]" "k_time (x_key x') = [0, 0]"
    using a unfolding k by (simp_all add: key_scan_one_def Let_def)
  have "min (Suc n) 11 \<le> unat (c_time (x_check x') ! 1)" using a t by linarith
  then have "11 \<le> Suc n \<longrightarrow> is_check x' EXTIO_CHECK_EMERGENCY" using s by simp
  then show ?thesis
    using wf ks a \<open>min (Suc n) 11 \<le> _\<close> pin [OF line_pins(1)] pin [OF line_pins(2)] pin [OF line_pins(3)]
    by (simp add: r alarm_pending_def)
qed

lemma alarm_pending_rounds:
  assumes "alarm_pending 0 s"
  shows "alarm_pending n ((extio_round fm set_level (\<lambda>e p. e p) ^^ n) s)"
proof (induction n)
  case 0
  then show ?case using assms by simp
next
  case (Suc n)
  then show ?case using alarm_pending_step [of n] by (metis comp_apply funpow.simps(2) prod.collapse)
qed

end
