(* ===== verification/Lora.thy ===== *)
theory Lora
  imports Config Gpio
begin

text \<open>
  The radio link to the smoke detectors (\<open>applications/lora.c\<close>, \<open>lora.h\<close>, \<open>lora_model.h\<close>,
  \<open>protocol.h\<close>): the detector table, building and sending a frame, the byte-by-byte receiver,
  the treatment of a received frame, the thread loop around it with its semaphore, the module
  set-up and the shell commands. The checksum \<open>crc8_cal\<close> is a library function and a
  parameter. A store outside \<open>recv_buf\<close> is the value \<open>None\<close>.
\<close>

section \<open>Constants and state\<close>

definition HEADER1 :: u8 where "HEADER1 = 0xa5"
definition HEADER2 :: u8 where "HEADER2 = 0x5a"
definition CMD_REPORT :: u8 where "CMD_REPORT = 0x02"
definition CMD_SET :: u8 where "CMD_SET = 0x03"
definition CMD_BUILDING_ID :: u8 where "CMD_BUILDING_ID = 0x83"
definition DIR_TO_SMOKE :: u8 where "DIR_TO_SMOKE = 0x01"

lemmas proto_consts = HEADER1_def HEADER2_def CMD_REPORT_def CMD_SET_def CMD_BUILDING_ID_def
  DIR_TO_SMOKE_def

text \<open>\<open>protocol_t\<close> is packed: its \<open>len\<close> field is at 22, \<open>data\<close> at 23, its size is 24.\<close>

definition OFFSET_LEN :: nat where "OFFSET_LEN = 22"
definition OFFSET_DATA :: nat where "OFFSET_DATA = 23"
definition RECV_BUF_SIZE :: nat where "RECV_BUF_SIZE = 50"

definition proto_len :: "nat \<Rightarrow> nat" where "proto_len l = 24 + l"
definition proto_crc :: "nat \<Rightarrow> nat" where "proto_crc l = 24 + l - 1"

datatype err_sta_t = ERR_STA_OK | ERR_STA_CRC | ERR_STA_ID

record smoke_dev_t =
  sd_floor :: u8
  sd_room :: u8
  sd_smoke :: u16
  sd_temperature :: u16
  sd_battery :: u16
  sd_alarm_smoke :: u8
  sd_alarm_temperature :: u8
  sd_connect :: u8
  sd_active_time :: u8
  sd_err_sta :: err_sta_t

record lora_state_t =
  msgid :: u8
  alarm_set :: u8
  smoke_dev :: "smoke_dev_t list"
  smoke_num :: nat
  lora_debug :: u8

definition smoke_dev_zero :: smoke_dev_t where
  "smoke_dev_zero = \<lparr>sd_floor = 0, sd_room = 0, sd_smoke = 0, sd_temperature = 0, sd_battery = 0,
     sd_alarm_smoke = 0, sd_alarm_temperature = 0, sd_connect = 0, sd_active_time = 0,
     sd_err_sta = ERR_STA_OK\<rparr>"

definition lora_state_zero :: lora_state_t where
  "lora_state_zero = \<lparr>msgid = 0, alarm_set = 0, smoke_dev = replicate SMOKE_NUM smoke_dev_zero,
     smoke_num = 0, lora_debug = 0\<rparr>"

section \<open>The detector table\<close>

text \<open>The search loop from index \<open>i\<close>, with \<open>n\<close> iterations left. The pointer returned is the
  index. \<open>smoke_num\<close> stays below 256, so \<open>smoke_num++\<close> does not wrap.\<close>

fun search_smoke_loop :: "u8 \<Rightarrow> u8 \<Rightarrow> nat \<Rightarrow> nat \<Rightarrow> lora_state_t \<Rightarrow> lora_state_t \<times> nat option" where
  "search_smoke_loop floor room i 0 s = (s, None)"
| "search_smoke_loop floor room i (Suc n) s =
     (if sd_floor (smoke_dev s ! i) = floor \<and> sd_room (smoke_dev s ! i) = room then (s, Some i)
      else if i \<ge> smoke_num s
      then (s\<lparr>smoke_dev := (smoke_dev s)[i := smoke_dev_zero\<lparr>sd_floor := floor, sd_room := room\<rparr>],
              smoke_num := smoke_num s + 1\<rparr>, Some i)
      else search_smoke_loop floor room (Suc i) n s)"

definition lora_search_smoke :: "u8 \<Rightarrow> u8 \<Rightarrow> lora_state_t \<Rightarrow> lora_state_t \<times> nat option" where
  "lora_search_smoke floor room s =
     (if floor = 0 \<and> room = 0 then (s, None) else search_smoke_loop floor room 0 SMOKE_NUM s)"

section \<open>Sending\<close>

text \<open>The frame \<open>lora_send\<close> writes to the serial device, byte by byte.\<close>

definition frame_head :: "config_t \<Rightarrow> lora_state_t \<Rightarrow> u8 \<Rightarrow> u8 \<Rightarrow> u8 \<Rightarrow> u8 \<Rightarrow> u8 list" where
  "frame_head cfg s floor room cmd len =
     [0xa5, 0x5a, floor, room, msgid s, DIR_TO_SMOKE] @ take 15 (building_id cfg) @ [cmd, len]"

definition lora_send :: "(u8 list \<Rightarrow> u8) \<Rightarrow> config_t \<Rightarrow> lora_state_t \<Rightarrow> u8 \<Rightarrow> u8 \<Rightarrow> u8 \<Rightarrow> u8 list \<Rightarrow> u8 \<Rightarrow> u8 list" where
  "lora_send crc8 cfg s floor room cmd data len =
     (let buf = frame_head cfg s floor room cmd len @ (if len > 0 then take (unat len) data else [])
      in buf @ [crc8 buf])"

definition threshold_data :: "config_t \<Rightarrow> lora_state_t \<Rightarrow> u8 list" where
  "threshold_data cfg s =
     [ucast (drop_bit 8 (smoke_threshold cfg) AND 0xff), ucast (smoke_threshold cfg AND 0xff),
      ucast (drop_bit 8 (temp_threshold cfg) AND 0xff), ucast (temp_threshold cfg AND 0xff),
      poll_time cfg, alarm_set s]"

section \<open>Receiving\<close>

record recv_t =
  recv_step :: nat
  recv_buf :: "u8 list"
  recv_len :: nat
  data_len :: nat
  data_cnt :: nat

text \<open>\<open>recv_buf[recv_len++] = ch\<close>.\<close>

definition recv_store :: "u8 \<Rightarrow> recv_t \<Rightarrow> recv_t option" where
  "recv_store ch r =
     (if recv_len r < RECV_BUF_SIZE
      then Some (r\<lparr>recv_buf := (recv_buf r)[recv_len r := ch], recv_len := recv_len r + 1\<rparr>)
      else None)"

definition recv_reset :: "recv_t \<Rightarrow> recv_t" where
  "recv_reset r = r\<lparr>recv_step := 0, recv_len := 0\<rparr>"

text \<open>A report fills the detector entry: \<open>smoke_data_t\<close> at \<open>data\<close>, each 16-bit field swapped
  from the byte order of the wire.\<close>

definition swap16 :: "u16 \<Rightarrow> u16" where
  "swap16 w = drop_bit 8 w OR push_bit 8 (w AND 0xff)"

definition smoke_report :: "u8 list \<Rightarrow> smoke_dev_t \<Rightarrow> smoke_dev_t" where
  "smoke_report buf d = d\<lparr>sd_smoke := swap16 (of_le16 (slice 23 2 buf)),
     sd_temperature := swap16 (of_le16 (slice 25 2 buf)),
     sd_battery := swap16 (of_le16 (slice 27 2 buf)),
     sd_alarm_smoke := buf ! 29 AND 1,
     sd_alarm_temperature := drop_bit 1 (buf ! 29) AND 1,
     sd_active_time := 0xff, sd_err_sta := ERR_STA_OK\<rparr>"

text \<open>What happens to a frame with a correct checksum; the second result is what is sent.\<close>

definition lora_frame :: "(u8 list \<Rightarrow> u8) \<Rightarrow> config_t \<Rightarrow> u8 list \<Rightarrow> lora_state_t \<Rightarrow> lora_state_t \<times> u8 list list" where
  "lora_frame crc8 cfg buf s =
     (if take 15 (building_id cfg) = slice 6 15 buf
      then case lora_search_smoke (buf ! 2) (buf ! 3) s of
          (s1, None) \<Rightarrow> (s1, [])
        | (s1, Some i) \<Rightarrow>
            if buf ! 21 = CMD_REPORT \<or> buf ! 21 = CMD_SET
            then let s2 = s1\<lparr>smoke_dev := (smoke_dev s1)[i := smoke_report buf (smoke_dev s1 ! i)],
                             msgid := buf ! 4\<rparr>
              in (s2, if buf ! 21 = CMD_REPORT
                      then [lora_send crc8 cfg s2 (buf ! 2) (buf ! 3) (CMD_REPORT OR 0x80)
                              (threshold_data cfg s2) 6]
                      else [])
            else (s1, [])
      else (s, []))"

text \<open>One pass of the \<open>switch (recv_step)\<close> with the byte \<open>ch\<close>.\<close>

definition recv_byte :: "(u8 list \<Rightarrow> u8) \<Rightarrow> config_t \<Rightarrow> u8 \<Rightarrow> lora_state_t \<times> recv_t \<Rightarrow>
    (lora_state_t \<times> recv_t \<times> u8 list list) option" where
  "recv_byte crc8 cfg ch = (\<lambda>(s, r).
     if recv_step r = 0 then
       if ch = HEADER1
       then map_option (\<lambda>r1. (s, r1\<lparr>recv_step := 1\<rparr>, []))
              (recv_store ch (r\<lparr>recv_buf := replicate RECV_BUF_SIZE 0\<rparr>))
       else Some (s, r, [])
     else if recv_step r = 1 then
       if ch = HEADER2
       then map_option (\<lambda>r1. (s, r1\<lparr>recv_step := 2\<rparr>, [])) (recv_store ch r)
       else Some (s, recv_reset r, [])
     else if recv_step r = 2 then
       map_option (\<lambda>r1. (s, if recv_len r1 = OFFSET_LEN then r1\<lparr>recv_step := 3\<rparr> else r1, []))
         (recv_store ch r)
     else if recv_step r = 3 then
       map_option (\<lambda>r1.
           (s, if ch < 30
               then let r2 = r1\<lparr>data_len := unat ch\<rparr>
                 in if ch = 0 then r2\<lparr>recv_step := 5\<rparr> else r2\<lparr>recv_step := 4, data_cnt := 0\<rparr>
               else recv_reset r1, []))
         (recv_store ch r)
     else if recv_step r = 4 then
       map_option (\<lambda>r1.
           (s, let r2 = r1\<lparr>data_cnt := data_cnt r1 + 1\<rparr>
               in if data_cnt r2 = data_len r2 then r2\<lparr>recv_step := 5\<rparr> else r2, []))
         (recv_store ch r)
     else if recv_step r = 5 then
       map_option (\<lambda>r1.
           let (s1, out) = (if ch = crc8 (take (recv_len r1 - 1) (recv_buf r1))
                            then lora_frame crc8 cfg (recv_buf r1) s else (s, []))
           in (s1, recv_reset r1, out))
         (recv_store ch r)
     else Some (s, r, []))"

fun recv_bytes :: "(u8 list \<Rightarrow> u8) \<Rightarrow> config_t \<Rightarrow> u8 list \<Rightarrow> lora_state_t \<times> recv_t \<Rightarrow>
    (lora_state_t \<times> recv_t \<times> u8 list list) option" where
  "recv_bytes crc8 cfg [] (s, r) = Some (s, r, [])"
| "recv_bytes crc8 cfg (ch # chs) (s, r) =
     (case recv_byte crc8 cfg ch (s, r) of
        None \<Rightarrow> None
      | Some (s1, r1, out1) \<Rightarrow>
          (case recv_bytes crc8 cfg chs (s1, r1) of
             None \<Rightarrow> None
           | Some (s2, r2, out2) \<Rightarrow> Some (s2, r2, out1 @ out2)))"

section \<open>The receive thread\<close>

text \<open>The receive fifo of the serial device, the value of \<open>rx_sem\<close>, whether the thread waits on
  it, and the variable \<open>ch\<close>.\<close>

record serial_t =
  fifo :: "u8 list"
  rx_sem :: nat
  waiting :: bool
  ser_ch :: u8

text \<open>A byte arrives: the driver stores it and \<open>uart_input\<close> releases the semaphore.\<close>

definition uart_input :: "u8 \<Rightarrow> serial_t \<Rightarrow> serial_t" where
  "uart_input b p = (let p1 = p\<lparr>fifo := fifo p @ [b]\<rparr>
     in if waiting p1 then p1\<lparr>waiting := False\<rparr> else p1\<lparr>rx_sem := rx_sem p1 + 1\<rparr>)"

text \<open>One evaluation of \<open>rt_device_read(serial, -1, &ch, 1) != 1\<close>: a successful read leaves the
  inner loop, which the outer loop enters again; a failing one runs the receiver on \<open>ch\<close> and
  takes the semaphore.\<close>

definition serial_iter :: "(u8 list \<Rightarrow> u8) \<Rightarrow> config_t \<Rightarrow> lora_state_t \<times> recv_t \<times> serial_t \<Rightarrow>
    (lora_state_t \<times> recv_t \<times> serial_t \<times> u8 list list) option" where
  "serial_iter crc8 cfg = (\<lambda>(s, r, p).
     if waiting p then Some (s, r, p, [])
     else case fifo p of
         b # bs \<Rightarrow> Some (s, r, p\<lparr>fifo := bs, ser_ch := b\<rparr>, [])
       | [] \<Rightarrow>
           map_option (\<lambda>(s1, r1, out).
               (s1, r1, if rx_sem p > 0 then p\<lparr>rx_sem := rx_sem p - 1\<rparr> else p\<lparr>waiting := True\<rparr>, out))
             (recv_byte crc8 cfg (ser_ch p) (s, r)))"

text \<open>The thread runs until it waits: one iteration per byte of the fifo and per permit, and a
  last one.\<close>

fun serial_run :: "(u8 list \<Rightarrow> u8) \<Rightarrow> config_t \<Rightarrow> nat \<Rightarrow> lora_state_t \<times> recv_t \<times> serial_t \<Rightarrow>
    (lora_state_t \<times> recv_t \<times> serial_t \<times> u8 list list) option" where
  "serial_run crc8 cfg 0 (s, r, p) = Some (s, r, p, [])"
| "serial_run crc8 cfg (Suc n) (s, r, p) =
     (case serial_iter crc8 cfg (s, r, p) of
        None \<Rightarrow> None
      | Some (s1, r1, p1, out1) \<Rightarrow>
          (case serial_run crc8 cfg n (s1, r1, p1) of
             None \<Rightarrow> None
           | Some (s2, r2, p2, out2) \<Rightarrow> Some (s2, r2, p2, out1 @ out2)))"

definition serial_thread :: "(u8 list \<Rightarrow> u8) \<Rightarrow> config_t \<Rightarrow> lora_state_t \<times> recv_t \<times> serial_t \<Rightarrow>
    (lora_state_t \<times> recv_t \<times> serial_t \<times> u8 list list) option" where
  "serial_thread crc8 cfg = (\<lambda>(s, r, p).
     serial_run crc8 cfg (length (fifo p) + rx_sem p + 1) (s, r, p))"

section \<open>Module set-up\<close>

datatype air_rate_t = K0_81 | K1_41 | K2_60 | K4_56 | K9_11 | K18_23
datatype tx_power_t = tx_0db | tx_3db | tx_6db | tx_9db | tx_12db | tx_15db | tx_18db | tx_20db
datatype baudrate_t = br_1200 | br_2400 | br_4800 | br_9600 | br_19200 | br_38400 | br_57600 | br_115200
datatype verify_t = vf_none | vf_odd | vf_even
datatype wakeup_time_t = wt_50ms | wt_100ms | wt_200ms | wt_400ms | wt_600ms | wt_1s | wt_1_5s
  | wt_2s | wt_2_5s | wt_3s | wt_4s | wt_5s
datatype cad_time_t = fs_0ms | fs_5ms | fs_50ms | fs_100ms | fs_200ms | fs_400ms | fs_600ms
  | fs_1000ms | fs_1500ms | fs_2000ms | fs_2500ms | fs_3000ms | fs_4000ms
  | cs_0ms | cs_5ms | cs_50ms | cs_100ms | cs_200ms | cs_400ms | cs_600ms
  | cs_1000ms | cs_1500ms | cs_2000ms | cs_2500ms | cs_3000ms | cs_4000ms

text \<open>The enumerators by their C values (\<open>cs_0ms\<close> restarts at 0x80); enumerations take one byte on the target.\<close>

fun air_rate_code :: "air_rate_t \<Rightarrow> u8" where
  "air_rate_code K0_81 = 0" | "air_rate_code K1_41 = 1" | "air_rate_code K2_60 = 2"
| "air_rate_code K4_56 = 3" | "air_rate_code K9_11 = 4" | "air_rate_code K18_23 = 5"

fun tx_power_code :: "tx_power_t \<Rightarrow> u8" where
  "tx_power_code tx_0db = 0" | "tx_power_code tx_3db = 1" | "tx_power_code tx_6db = 2"
| "tx_power_code tx_9db = 3" | "tx_power_code tx_12db = 4" | "tx_power_code tx_15db = 5"
| "tx_power_code tx_18db = 6" | "tx_power_code tx_20db = 7"

fun baudrate_code :: "baudrate_t \<Rightarrow> u8" where
  "baudrate_code br_1200 = 0" | "baudrate_code br_2400 = 1" | "baudrate_code br_4800 = 2"
| "baudrate_code br_9600 = 3" | "baudrate_code br_19200 = 4" | "baudrate_code br_38400 = 5"
| "baudrate_code br_57600 = 6" | "baudrate_code br_115200 = 7"

fun verify_code :: "verify_t \<Rightarrow> u8" where
  "verify_code vf_none = 0" | "verify_code vf_odd = 1" | "verify_code vf_even = 2"

fun wakeup_time_code :: "wakeup_time_t \<Rightarrow> u8" where
  "wakeup_time_code wt_50ms = 0" | "wakeup_time_code wt_100ms = 1" | "wakeup_time_code wt_200ms = 2"
| "wakeup_time_code wt_400ms = 3" | "wakeup_time_code wt_600ms = 4" | "wakeup_time_code wt_1s = 5"
| "wakeup_time_code wt_1_5s = 6" | "wakeup_time_code wt_2s = 7" | "wakeup_time_code wt_2_5s = 8"
| "wakeup_time_code wt_3s = 9" | "wakeup_time_code wt_4s = 10" | "wakeup_time_code wt_5s = 11"

fun cad_time_code :: "cad_time_t \<Rightarrow> u8" where
  "cad_time_code fs_0ms = 0" | "cad_time_code fs_5ms = 1" | "cad_time_code fs_50ms = 2"
| "cad_time_code fs_100ms = 3" | "cad_time_code fs_200ms = 4" | "cad_time_code fs_400ms = 5"
| "cad_time_code fs_600ms = 6" | "cad_time_code fs_1000ms = 7" | "cad_time_code fs_1500ms = 8"
| "cad_time_code fs_2000ms = 9" | "cad_time_code fs_2500ms = 10" | "cad_time_code fs_3000ms = 11"
| "cad_time_code fs_4000ms = 12"
| "cad_time_code cs_0ms = 0x80" | "cad_time_code cs_5ms = 0x81" | "cad_time_code cs_50ms = 0x82"
| "cad_time_code cs_100ms = 0x83" | "cad_time_code cs_200ms = 0x84" | "cad_time_code cs_400ms = 0x85"
| "cad_time_code cs_600ms = 0x86" | "cad_time_code cs_1000ms = 0x87" | "cad_time_code cs_1500ms = 0x88"
| "cad_time_code cs_2000ms = 0x89" | "cad_time_code cs_2500ms = 0x8a" | "cad_time_code cs_3000ms = 0x8b"
| "cad_time_code cs_4000ms = 0x8c"

record lora_setup_t =
  header_id :: "u8 list"
  setup_version :: u8
  frequency :: "u8 list"
  air_rate :: air_rate_t
  tx_power :: tx_power_t
  baudrate :: baudrate_t
  verify :: verify_t
  wakeup_time :: wakeup_time_t
  cad_time :: cad_time_t

definition setup_image :: "lora_setup_t \<Rightarrow> u8 list" where
  "setup_image u = header_id u @ [setup_version u] @ frequency u @
     [air_rate_code (air_rate u), tx_power_code (tx_power u), baudrate_code (baudrate u),
      verify_code (verify u), wakeup_time_code (wakeup_time u), cad_time_code (cad_time u)]"

definition LORA_VER :: u8 where "LORA_VER = 0x93"
definition LORA_ID :: "u8 list" where "LORA_ID = [0xff, 0x56, 0xae, 0x35, 0xa9, 0x55]"

definition lora_set_freq :: "u32 \<Rightarrow> u8 list" where
  "lora_set_freq freq = [ucast (drop_bit 16 freq AND 0xff), ucast (drop_bit 8 freq AND 0xff),
     ucast (freq AND 0xff)]"

definition lora_setup_default :: lora_setup_t where
  "lora_setup_default = \<lparr>header_id = LORA_ID, setup_version = LORA_VER,
     frequency = lora_set_freq 433300, air_rate = K0_81, tx_power = tx_9db, baudrate = br_9600,
     verify = vf_none, wakeup_time = wt_50ms, cad_time = fs_50ms\<rparr>"

definition SETA_PIN :: nat where "SETA_PIN = GET_PIN PORT_C 8"
definition SETB_PIN :: nat where "SETB_PIN = GET_PIN PORT_B 14"

definition YM401_MODE3 :: "levels \<Rightarrow> levels" where
  "YM401_MODE3 l = set_level (set_level l SETA_PIN False) SETB_PIN False"
definition YM401_MODE2 :: "levels \<Rightarrow> levels" where
  "YM401_MODE2 l = set_level (set_level l SETA_PIN False) SETB_PIN True"
definition YM401_MODE1 :: "levels \<Rightarrow> levels" where
  "YM401_MODE1 l = set_level (set_level l SETA_PIN True) SETB_PIN False"
definition YM401_MODE0 :: "levels \<Rightarrow> levels" where
  "YM401_MODE0 l = set_level (set_level l SETA_PIN True) SETB_PIN True"

text \<open>The set-up exchange of the receive thread and of \<open>lora_set_band\<close>: mode pins low, the set-up
  frame with the configured frequency, mode pins high. The reply is only logged.\<close>

definition lora_setup_exchange :: "config_t \<Rightarrow> levels \<Rightarrow> levels \<times> u8 list" where
  "lora_setup_exchange cfg l =
     (YM401_MODE0 (YM401_MODE3 l),
      setup_image (lora_setup_default\<lparr>frequency := lora_set_freq (lora_freq cfg)\<rparr>))"

text \<open>The thread waits while no frequency is configured (\<open>None\<close>).\<close>

definition serial_thread_start :: "config_t \<Rightarrow> levels \<Rightarrow> (levels \<times> u8 list) option" where
  "serial_thread_start cfg l = (if lora_freq cfg = 0 then None else Some (lora_setup_exchange cfg l))"

definition lora_uart_init :: "bool \<Rightarrow> bool \<Rightarrow> lora_state_t \<times> int" where
  "lora_uart_init serial_found thread_created =
     (lora_state_zero, if \<not> serial_found then RT_ERROR else if thread_created then RT_EOK else RT_ERROR)"

definition lora_init :: "bool \<Rightarrow> bool \<Rightarrow> lora_state_t \<times> (nat \<times> pin_mode) list" where
  "lora_init serial_found thread_created =
     (fst (lora_uart_init serial_found thread_created),
      [(SETA_PIN, PIN_MODE_OUTPUT), (SETB_PIN, PIN_MODE_OUTPUT)])"

section \<open>Shell commands\<close>

definition band_table :: "u32 list" where
  "band_table = [412200, 419900, 426600, 433300, 440000, 447700, 454400, 461100, 467700, 474400,
     482200, 489900, 496600, 503300, 510000, 517700]"

definition lora_set_band :: "u8 list list \<Rightarrow> config_t \<Rightarrow> levels \<Rightarrow> config_t \<times> levels \<times> u8 list" where
  "lora_set_band argv cfg l =
     (if length argv = 2
      then let band = (word_of_int (atoi (argv ! 1)) :: u8)
        in if band \<ge> 1 \<and> band \<le> 16
           then let cfg1 = cfg\<lparr>lora_freq := band_table ! (unat band - 1)\<rparr>;
                    (l1, out) = lora_setup_exchange cfg1 l
                in (cfg1, l1, out)
           else (cfg, l, [])
      else (cfg, l, []))"

definition lora_set_building :: "(u8 list \<Rightarrow> u8) \<Rightarrow> config_t \<Rightarrow> lora_state_t \<Rightarrow> u8 list" where
  "lora_set_building crc8 cfg s = lora_send crc8 cfg s 0 0 CMD_BUILDING_ID (threshold_data cfg s) 6"

definition lora_debug_comm :: "u8 list list \<Rightarrow> lora_state_t \<Rightarrow> lora_state_t" where
  "lora_debug_comm argv s =
     (if length argv = 2
      then if argv ! 1 = c_bytes ''on'' then s\<lparr>lora_debug := 1\<rparr>
        else if argv ! 1 = c_bytes ''off'' then s\<lparr>lora_debug := 0\<rparr>
        else s
      else s)"

section \<open>The detector table as a map\<close>

definition smoke_key :: "smoke_dev_t \<Rightarrow> u8 \<times> u8" where
  "smoke_key d = (sd_floor d, sd_room d)"

definition lora_keys :: "lora_state_t \<Rightarrow> (u8 \<times> u8) list" where
  "lora_keys s = map smoke_key (take (smoke_num s) (smoke_dev s))"

text \<open>The registered detectors come first and have distinct, nonzero keys.\<close>

definition lora_wf :: "lora_state_t \<Rightarrow> bool" where
  "lora_wf s \<longleftrightarrow> length (smoke_dev s) = SMOKE_NUM \<and> smoke_num s \<le> SMOKE_NUM \<and>
     distinct (lora_keys s) \<and> (0, 0) \<notin> set (lora_keys s) \<and>
     (\<forall>i. smoke_num s \<le> i \<longrightarrow> i < SMOKE_NUM \<longrightarrow> smoke_key (smoke_dev s ! i) = (0, 0))"

lemma lora_wf_zero: "lora_wf lora_state_zero"
  by (simp add: lora_wf_def lora_keys_def lora_state_zero_def SMOKE_NUM_def smoke_key_def smoke_dev_zero_def)

lemma search_loop_found:
  assumes "n + i = SMOKE_NUM" and "i \<le> j" and "j < smoke_num s" and "j < SMOKE_NUM"
    and "smoke_key (smoke_dev s ! j) = (f, r)"
    and "\<And>k. i \<le> k \<Longrightarrow> k < j \<Longrightarrow> smoke_key (smoke_dev s ! k) \<noteq> (f, r)"
  shows "search_smoke_loop f r i n s = (s, Some j)"
  using assms
proof (induction n arbitrary: i)
  case (Suc n)
  show ?case
  proof (cases "i = j")
    case True
    with Suc.prems show ?thesis by (simp add: smoke_key_def)
  next
    case False
    with Suc.prems have "smoke_key (smoke_dev s ! i) \<noteq> (f, r)" "i < j" by simp_all
    with Suc.prems Suc.IH [of "Suc i"] show ?thesis by (auto simp: smoke_key_def)
  qed
qed simp

lemma search_loop_absent:
  assumes "n + i = SMOKE_NUM" and "i \<le> smoke_num s" and "smoke_num s \<le> SMOKE_NUM"
    and "\<And>k. i \<le> k \<Longrightarrow> k \<le> smoke_num s \<Longrightarrow> k < SMOKE_NUM \<Longrightarrow> smoke_key (smoke_dev s ! k) \<noteq> (f, r)"
  shows "search_smoke_loop f r i n s =
    (if smoke_num s < SMOKE_NUM
     then (s\<lparr>smoke_dev := (smoke_dev s)[smoke_num s := smoke_dev_zero\<lparr>sd_floor := f, sd_room := r\<rparr>],
             smoke_num := smoke_num s + 1\<rparr>, Some (smoke_num s))
     else (s, None))"
  using assms
proof (induction n arbitrary: i)
  case (Suc n)
  have ne: "smoke_key (smoke_dev s ! i) \<noteq> (f, r)" using Suc.prems by simp
  show ?case
  proof (cases "i = smoke_num s")
    case True
    with Suc.prems ne show ?thesis by (auto simp: smoke_key_def)
  next
    case False
    with Suc.prems ne Suc.IH [of "Suc i"] show ?thesis by (auto simp: smoke_key_def)
  qed
qed simp

lemma lora_keys_nth:
  "lora_wf s \<Longrightarrow> i < smoke_num s \<Longrightarrow> lora_keys s ! i = smoke_key (smoke_dev s ! i) \<and> length (lora_keys s) = smoke_num s"
  by (simp add: lora_keys_def lora_wf_def)

lemma search_present:
  assumes wf: "lora_wf s" and k: "(f, r) \<noteq> (0, 0)" and i: "i < smoke_num s" "lora_keys s ! i = (f, r)"
  shows "lora_search_smoke f r s = (s, Some i)"
proof -
  have n: "smoke_num s \<le> SMOKE_NUM" "distinct (lora_keys s)" "length (lora_keys s) = smoke_num s"
    using wf by (auto simp: lora_wf_def lora_keys_def)
  have "smoke_key (smoke_dev s ! j) \<noteq> (f, r)" if "j < i" for j
    using that i n lora_keys_nth [OF wf, of j] nth_eq_iff_index_eq [of "lora_keys s" j i] by auto
  then have "search_smoke_loop f r 0 SMOKE_NUM s = (s, Some i)"
    using i n lora_keys_nth [OF wf i(1)] by (intro search_loop_found) auto
  then show ?thesis using k by (auto simp: lora_search_smoke_def)
qed

lemma search_absent:
  assumes wf: "lora_wf s" and k: "(f, r) \<noteq> (0, 0)" "(f, r) \<notin> set (lora_keys s)"
  shows "lora_search_smoke f r s =
    (if smoke_num s < SMOKE_NUM
     then (s\<lparr>smoke_dev := (smoke_dev s)[smoke_num s := smoke_dev_zero\<lparr>sd_floor := f, sd_room := r\<rparr>],
             smoke_num := smoke_num s + 1\<rparr>, Some (smoke_num s))
     else (s, None))"
proof -
  have "smoke_key (smoke_dev s ! j) \<noteq> (f, r)" if "j \<le> smoke_num s" "j < SMOKE_NUM" for j
  proof (cases "j < smoke_num s")
    case True
    with k(2) lora_keys_nth [OF wf True] show ?thesis by (metis nth_mem)
  next
    case False
    with wf that k(1) show ?thesis by (simp add: lora_wf_def)
  qed
  then have "search_smoke_loop f r 0 SMOKE_NUM s = (if smoke_num s < SMOKE_NUM
     then (s\<lparr>smoke_dev := (smoke_dev s)[smoke_num s := smoke_dev_zero\<lparr>sd_floor := f, sd_room := r\<rparr>],
             smoke_num := smoke_num s + 1\<rparr>, Some (smoke_num s))
     else (s, None))"
    using wf by (intro search_loop_absent) (auto simp: lora_wf_def)
  then show ?thesis using k by (auto simp: lora_search_smoke_def)
qed

lemma lora_wf_add:
  assumes wf: "lora_wf s" and k: "(f, r) \<noteq> (0, 0)" "(f, r) \<notin> set (lora_keys s)" and n: "smoke_num s < SMOKE_NUM"
  shows "lora_wf (s\<lparr>smoke_dev := (smoke_dev s)[smoke_num s := smoke_dev_zero\<lparr>sd_floor := f, sd_room := r\<rparr>],
      smoke_num := smoke_num s + 1\<rparr>) \<and>
    lora_keys (s\<lparr>smoke_dev := (smoke_dev s)[smoke_num s := smoke_dev_zero\<lparr>sd_floor := f, sd_room := r\<rparr>],
      smoke_num := smoke_num s + 1\<rparr>) = lora_keys s @ [(f, r)]"
proof -
  let ?d = "smoke_dev_zero\<lparr>sd_floor := f, sd_room := r\<rparr>"
  let ?s = "s\<lparr>smoke_dev := (smoke_dev s)[smoke_num s := ?d], smoke_num := smoke_num s + 1\<rparr>"
  have len: "length (smoke_dev s) = SMOKE_NUM" using wf by (simp add: lora_wf_def)
  have "smoke_key ?d = (f, r)" by (simp add: smoke_key_def)
  then have keys: "lora_keys ?s = lora_keys s @ [(f, r)]"
    using n len by (simp add: lora_keys_def take_Suc_conv_app_nth)
  moreover have "smoke_key (smoke_dev ?s ! i) = (0, 0)" if "smoke_num ?s \<le> i" "i < SMOKE_NUM" for i
    using that wf by (simp add: lora_wf_def)
  then have "lora_wf ?s"
    using wf k n len unfolding lora_wf_def keys by simp
  ultimately show ?thesis by simp
qed

lemma search_smoke_spec:
  assumes "lora_wf s" and "(f, r) \<noteq> (0, 0)" and "lora_search_smoke f r s = (s', res)"
  shows "lora_wf s' \<and>
    (case res of
       None \<Rightarrow> s' = s \<and> smoke_num s = SMOKE_NUM \<and> (f, r) \<notin> set (lora_keys s)
     | Some i \<Rightarrow> i < smoke_num s' \<and> smoke_key (smoke_dev s' ! i) = (f, r) \<and>
         lora_search_smoke f r s' = (s', Some i) \<and>
         (\<forall>j < smoke_num s. smoke_dev s' ! j = smoke_dev s ! j))"
proof (cases "(f, r) \<in> set (lora_keys s)")
  case True
  then obtain i where i: "i < smoke_num s" "lora_keys s ! i = (f, r)"
    using assms(1) by (auto simp: in_set_conv_nth lora_keys_def lora_wf_def)
  with assms search_present [OF assms(1,2) i] lora_keys_nth [OF assms(1) i(1)] show ?thesis by auto
next
  case False
  show ?thesis
  proof (cases "smoke_num s < SMOKE_NUM")
    case True
    note add = lora_wf_add [OF assms(1,2) False True]
    have s': "s' = s\<lparr>smoke_dev := (smoke_dev s)[smoke_num s := smoke_dev_zero\<lparr>sd_floor := f, sd_room := r\<rparr>],
        smoke_num := smoke_num s + 1\<rparr>" "res = Some (smoke_num s)"
      using search_absent [OF assms(1,2) False] True assms(3) by auto
    have "length (lora_keys s) = smoke_num s" using assms(1) by (simp add: lora_keys_def lora_wf_def)
    with add s' have "lora_wf s'" and n: "smoke_num s < smoke_num s'"
      and k: "lora_keys s' ! smoke_num s = (f, r)"
      by (simp_all add: nth_append)
    with s' search_present [OF _ assms(2) n k] lora_keys_nth [OF _ n] show ?thesis by simp
  next
    case full: False
    with assms(1,3) False search_absent [OF assms(1,2) False] show ?thesis
      by (auto simp: lora_wf_def)
  qed
qed

section \<open>The receiver on a whole frame\<close>

text \<open>The bytes stored so far, with the rest of the buffer still cleared.\<close>

definition filled :: "u8 list \<Rightarrow> recv_t \<Rightarrow> bool" where
  "filled pre r \<longleftrightarrow> length pre \<le> RECV_BUF_SIZE \<and> recv_len r = length pre \<and>
     recv_buf r = pre @ replicate (RECV_BUF_SIZE - length pre) 0"

lemma recv_store_filled:
  assumes "filled pre r" and "length pre < RECV_BUF_SIZE"
  shows "\<exists>r1. recv_store ch r = Some r1 \<and> filled (pre @ [ch]) r1 \<and> recv_step r1 = recv_step r \<and>
    data_len r1 = data_len r \<and> data_cnt r1 = data_cnt r"
proof -
  obtain n where n: "RECV_BUF_SIZE - length pre = Suc n" using assms(2) by (metis Suc_diff_Suc)
  then have "RECV_BUF_SIZE - length (pre @ [ch]) = n" by simp
  with n assms show ?thesis by (auto simp: recv_store_def filled_def)
qed

lemma recv_store_full: "filled pre r \<Longrightarrow> length pre = RECV_BUF_SIZE \<Longrightarrow> recv_store ch r = None"
  by (simp add: recv_store_def filled_def)

lemma recv_bytes_append:
  "recv_bytes crc8 cfg xs (s, r) = Some (s1, r1, o1) \<Longrightarrow>
     recv_bytes crc8 cfg (xs @ ys) (s, r) =
     map_option (\<lambda>(s2, r2, o2). (s2, r2, o1 @ o2)) (recv_bytes crc8 cfg ys (s1, r1))"
proof (induction xs arbitrary: s r o1)
  case Nil
  then show ?case by (cases "recv_bytes crc8 cfg ys (s, r)") auto
next
  case (Cons x xs)
  obtain s' r' o' where b: "recv_byte crc8 cfg x (s, r) = Some (s', r', o')"
    using Cons.prems by (auto split: option.splits)
  with Cons.prems obtain o2 where "recv_bytes crc8 cfg xs (s', r') = Some (s1, r1, o2)" "o1 = o' @ o2"
    by (auto split: option.splits)
  with b Cons.IH [of s' r' o2] show ?case
    by (cases "recv_bytes crc8 cfg ys (s1, r1)") auto
qed

lemma recv_bytes_append_None:
  "recv_bytes crc8 cfg xs (s, r) = None \<Longrightarrow> recv_bytes crc8 cfg (xs @ ys) (s, r) = None"
  by (induction xs arbitrary: s r) (auto split: option.splits)

lemma recv_body:
  assumes "filled pre r" and "recv_step r = 2" and "xs \<noteq> []" and "length pre + length xs = OFFSET_LEN"
  shows "\<exists>r'. recv_bytes crc8 cfg xs (s, r) = Some (s, r', []) \<and> filled (pre @ xs) r' \<and> recv_step r' = 3"
  using assms
proof (induction xs arbitrary: pre r)
  case (Cons x xs)
  have "length pre < RECV_BUF_SIZE" using Cons.prems by (simp add: OFFSET_LEN_def RECV_BUF_SIZE_def)
  from recv_store_filled [OF Cons.prems(1) this, of x] obtain r1 where r1:
    "recv_store x r = Some r1" "filled (pre @ [x]) r1" "recv_step r1 = recv_step r" by auto
  then have l: "recv_len r1 = Suc (length pre)" by (simp add: filled_def)
  show ?case
  proof (cases "xs = []")
    case True
    with Cons.prems r1 l show ?thesis by (simp add: recv_byte_def filled_def)
  next
    case False
    then have "recv_len r1 \<noteq> OFFSET_LEN" using Cons.prems l by (cases xs) auto
    with Cons.prems r1 l have "recv_byte crc8 cfg x (s, r) = Some (s, r1, [])"
      by (auto simp: recv_byte_def)
    with Cons.IH [OF r1(2)] r1 Cons.prems \<open>xs \<noteq> []\<close> show ?thesis by auto
  qed
qed simp

lemma recv_data:
  assumes "filled pre r" and "recv_step r = 4" and "xs \<noteq> []" and "data_cnt r + length xs = data_len r"
  shows "if length pre + length xs \<le> RECV_BUF_SIZE
    then \<exists>r'. recv_bytes crc8 cfg xs (s, r) = Some (s, r', []) \<and> filled (pre @ xs) r' \<and> recv_step r' = 5
    else recv_bytes crc8 cfg xs (s, r) = None"
  using assms
proof (induction xs arbitrary: pre r)
  case (Cons x xs)
  show ?case
  proof (cases "length pre < RECV_BUF_SIZE")
    case False
    with Cons.prems(1) have "length pre = RECV_BUF_SIZE" by (simp add: filled_def)
    with recv_store_full [OF Cons.prems(1) this] Cons.prems show ?thesis by (simp add: recv_byte_def)
  next
    case True
    from recv_store_filled [OF Cons.prems(1) True, of x] obtain r1 where r1:
      "recv_store x r = Some r1" "filled (pre @ [x]) r1" "recv_step r1 = recv_step r"
      "data_len r1 = data_len r" "data_cnt r1 = data_cnt r" by auto
    let ?r2 = "r1\<lparr>data_cnt := data_cnt r1 + 1\<rparr>"
    have f2: "filled (pre @ [x]) ?r2" using r1(2) by (simp add: filled_def)
    show ?thesis
    proof (cases "xs = []")
      case True
      with \<open>length pre < RECV_BUF_SIZE\<close> Cons.prems r1 show ?thesis
        by (auto simp: recv_byte_def Let_def filled_def)
    next
      case False
      then have "data_cnt r1 + 1 \<noteq> data_len r1" using Cons.prems r1 by (cases xs) auto
      with Cons.prems r1 have "recv_byte crc8 cfg x (s, r) = Some (s, ?r2, [])"
        by (auto simp: recv_byte_def Let_def)
      with Cons.IH [OF f2] r1 Cons.prems \<open>xs \<noteq> []\<close> show ?thesis by (auto split: if_splits)
    qed
  qed
qed simp

lemma recv_idle_filled: "filled [] (r\<lparr>recv_buf := replicate RECV_BUF_SIZE 0\<rparr>) \<longleftrightarrow> recv_len r = 0"
  by (simp add: filled_def)

text \<open>From the idle state, the two header bytes, twenty more and the length byte.\<close>

lemma recv_head:
  assumes idle: "recv_step r = 0" "recv_len r = 0" and body: "length body = 20" and len: "len < 30"
  shows "\<exists>r'. recv_bytes crc8 cfg ([HEADER1, HEADER2] @ body @ [len]) (s, r) = Some (s, r', []) \<and>
    filled ([HEADER1, HEADER2] @ body @ [len]) r' \<and> data_len r' = unat len \<and>
    (if len = 0 then recv_step r' = 5 else recv_step r' = 4 \<and> data_cnt r' = 0)"
proof -
  let ?r0 = "r\<lparr>recv_buf := replicate RECV_BUF_SIZE 0\<rparr>"
  have f0: "filled [] ?r0" using idle by (simp add: recv_idle_filled)
  obtain r1 where r1: "recv_store HEADER1 ?r0 = Some r1" "filled [HEADER1] r1"
    using recv_store_filled [OF f0, of HEADER1] by (auto simp: RECV_BUF_SIZE_def)
  then have b1: "recv_byte crc8 cfg HEADER1 (s, r) = Some (s, r1\<lparr>recv_step := 1\<rparr>, [])"
    using idle by (simp add: recv_byte_def)
  have "filled [HEADER1] (r1\<lparr>recv_step := 1\<rparr>)" using r1(2) by (simp add: filled_def)
  from recv_store_filled [OF this, of HEADER2] obtain r2 where
    r2: "recv_store HEADER2 (r1\<lparr>recv_step := 1\<rparr>) = Some r2" "filled [HEADER1, HEADER2] r2"
    by (auto simp: RECV_BUF_SIZE_def)
  then have b2: "recv_byte crc8 cfg HEADER2 (s, r1\<lparr>recv_step := 1\<rparr>) = Some (s, r2\<lparr>recv_step := 2\<rparr>, [])"
    by (simp add: recv_byte_def)
  have "filled [HEADER1, HEADER2] (r2\<lparr>recv_step := 2\<rparr>)" using r2(2) by (simp add: filled_def)
  moreover have "body \<noteq> []" using body by auto
  ultimately obtain r3 where
    r3: "recv_bytes crc8 cfg body (s, r2\<lparr>recv_step := 2\<rparr>) = Some (s, r3, [])"
      "filled (HEADER1 # HEADER2 # body) r3" "recv_step r3 = 3"
    using recv_body [of "[HEADER1, HEADER2]" "r2\<lparr>recv_step := 2\<rparr>" body crc8 cfg s] body
    by (auto simp: OFFSET_LEN_def)
  obtain r4 where r4: "recv_store len r3 = Some r4" "filled (HEADER1 # HEADER2 # body @ [len]) r4"
    using recv_store_filled [OF r3(2), of len] body by (auto simp: RECV_BUF_SIZE_def)
  let ?r5 = "if len = 0 then r4\<lparr>data_len := unat len, recv_step := 5\<rparr>
    else r4\<lparr>data_len := unat len, recv_step := 4, data_cnt := 0\<rparr>"
  have "recv_byte crc8 cfg len (s, r3) = Some (s, ?r5, [])"
    using r4 r3(3) len by (simp add: recv_byte_def Let_def)
  with b1 b2 recv_bytes_append [OF r3(1), of "[len]"]
  have "recv_bytes crc8 cfg ([HEADER1, HEADER2] @ body @ [len]) (s, r) = Some (s, ?r5, [])" by simp
  with r4(2) show ?thesis by (auto simp: filled_def)
qed

text \<open>A frame of header, body, length, data and check byte from the idle state.\<close>

lemma recv_frame:
  assumes idle: "recv_step r = 0" "recv_len r = 0" and body: "length body = 20"
    and data: "length data \<le> 26"
  defines "pre \<equiv> [HEADER1, HEADER2] @ body @ [of_nat (length data)] @ data"
  shows "\<exists>r'. recv_bytes crc8 cfg (pre @ [c]) (s, r) =
      Some (fst (if c = crc8 pre then lora_frame crc8 cfg (pre @ [c] @ replicate (26 - length data) 0) s else (s, [])),
        r', snd (if c = crc8 pre then lora_frame crc8 cfg (pre @ [c] @ replicate (26 - length data) 0) s else (s, [])))
    \<and> recv_step r' = 0 \<and> recv_len r' = 0"
proof -
  let ?len = "of_nat (length data) :: u8"
  let ?h = "[HEADER1, HEADER2] @ body @ [?len]"
  have un: "unat ?len = length data" using data by (simp add: unat_of_nat)
  then have lt: "?len < 30" using data by (simp add: word_less_nat_alt)
  have z: "?len = 0 \<longleftrightarrow> data = []" using un by (metis length_0_conv unat_eq_0)
  obtain r1 where r1: "recv_bytes crc8 cfg ?h (s, r) = Some (s, r1, [])" "filled ?h r1" "data_len r1 = length data"
      "if data = [] then recv_step r1 = 5 else recv_step r1 = 4 \<and> data_cnt r1 = 0"
    using recv_head [OF idle body lt, of crc8 cfg s] z un by auto
  obtain r2 where r2: "recv_bytes crc8 cfg (?h @ data) (s, r) = Some (s, r2, [])" "filled pre r2" "recv_step r2 = 5"
  proof (cases "data = []")
    case True
    with r1 that [of r1] show ?thesis by (simp add: pre_def)
  next
    case False
    with recv_data [OF r1(2) _ False, of crc8 cfg s] r1 body data obtain r2 where
      "recv_bytes crc8 cfg data (s, r1) = Some (s, r2, [])" "filled (?h @ data) r2" "recv_step r2 = 5"
      by (auto simp: RECV_BUF_SIZE_def split: if_splits)
    with recv_bytes_append [OF r1(1), of data] that [of r2] show ?thesis by (simp add: pre_def)
  qed
  have lp: "length pre = 23 + length data" using body by (simp add: pre_def)
  from recv_store_filled [OF r2(2), of c] lp data obtain r3 where
    r3: "recv_store c r2 = Some r3" "filled (pre @ [c]) r3" by (auto simp: RECV_BUF_SIZE_def)
  then have buf: "recv_len r3 = Suc (length pre)" "take (length pre) (recv_buf r3) = pre"
      "recv_buf r3 = pre @ [c] @ replicate (26 - length data) 0"
    using lp by (simp_all add: filled_def RECV_BUF_SIZE_def)
  let ?res = "if c = crc8 pre then lora_frame crc8 cfg (pre @ [c] @ replicate (26 - length data) 0) s else (s, [])"
  have "recv_byte crc8 cfg c (s, r2) = Some (fst ?res, recv_reset r3, snd ?res)"
    using r3 r2(3) buf by (simp add: recv_byte_def split: prod.split)
  with recv_bytes_append [OF r2(1), of "[c]"] show ?thesis
    by (auto simp: pre_def recv_reset_def)
qed

lemma lora_send_frame:
  assumes "config_wf cfg" and "length data \<le> 26"
  shows "\<exists>body. length body = 20 \<and>
    lora_send crc8 cfg s fl rm cmd data (of_nat (length data)) =
      ([HEADER1, HEADER2] @ body @ [of_nat (length data)] @ data) @
      [crc8 ([HEADER1, HEADER2] @ body @ [of_nat (length data)] @ data)]"
proof -
  let ?body = "[fl, rm, msgid s, DIR_TO_SMOKE] @ take 15 (building_id cfg) @ [cmd]"
  have un: "unat (of_nat (length data) :: u8) = length data"
    using assms(2) by (simp add: unat_of_nat)
  then have "(of_nat (length data) :: u8) > 0 \<longleftrightarrow> data \<noteq> []"
    by (metis length_0_conv unat_eq_0 word_gt_0)
  then have "lora_send crc8 cfg s fl rm cmd data (of_nat (length data)) =
      ([HEADER1, HEADER2] @ ?body @ [of_nat (length data)] @ data) @
      [crc8 ([HEADER1, HEADER2] @ ?body @ [of_nat (length data)] @ data)]"
    using un by (auto simp: lora_send_def frame_head_def HEADER1_def HEADER2_def Let_def)
  moreover have "length ?body = 20" using assms(1) by (simp add: config_wf_def)
  ultimately show ?thesis by blast
qed

lemma u16_and_255: "w AND 0xff = take_bit 8 w" for w :: u16
  by (simp add: take_bit_eq_mask mask_eq_exp_minus_1)

lemma swap16_be: "unat (swap16 (of_le16 [a, b])) = unat a * 256 + unat b"
proof -
  have "swap16 (of_le16 [a, b]) = ucast b OR push_bit 8 (ucast a :: u16)"
    unfolding swap16_def of_le16_def u16_and_255 by (rule bit_eqI) (auto simp: bit_simps)
  also have "\<dots> = ucast b + push_bit 8 (ucast a)"
    by (subst disjunctive_add) (auto simp: bit_simps)
  also have "unat \<dots> = unat b + unat a * 256"
    using unat_le_255 [of a] unat_le_255 [of b]
    by (simp add: push_bit_eq_mult unat_word_ariths unsigned_ucast_eq take_bit_nat_eq_self)
  finally show ?thesis by simp
qed

section \<open>Properties\<close>

text \<open>An exclusive-or checksum and an idle receiver for the examples.\<close>

definition xor8 :: "u8 list \<Rightarrow> u8" where
  "xor8 bs = fold (XOR) bs 0"

definition recv_idle :: recv_t where
  "recv_idle = \<lparr>recv_step = 0, recv_buf = replicate RECV_BUF_SIZE 0, recv_len = 0, data_len = 0, data_cnt = 0\<rparr>"

text \<open>
  \<open>lora_search_smoke\<close> keeps the detector table a map from nonzero (floor, room) pairs
  to entries: it returns the entry of the pair, the same one when asked again, adds an entry
  only for a new pair and leaves the others alone, and returns null only when all
  \<open>SMOKE_NUM\<close> entries belong to other pairs.
\<close>

theorem lora_table_lookup:
  assumes "lora_wf s" and "(f, r) \<noteq> (0, 0)" and "lora_search_smoke f r s = (s', res)"
  shows "lora_wf s' \<and>
    (case res of
       None \<Rightarrow> s' = s \<and> smoke_num s = SMOKE_NUM \<and> (f, r) \<notin> set (lora_keys s)
     | Some i \<Rightarrow> i < smoke_num s' \<and> smoke_key (smoke_dev s' ! i) = (f, r) \<and>
         lora_search_smoke f r s' = (s', Some i) \<and>
         (\<forall>j < smoke_num s. smoke_dev s' ! j = smoke_dev s ! j))"
  using search_smoke_spec [OF assms] .

theorem lora_table_lookup_witness:
  "lora_wf (fst (lora_search_smoke 3 7 lora_state_zero))"
proof -
  obtain s' res where "lora_search_smoke 3 7 lora_state_zero = (s', res)" by fastforce
  with lora_table_lookup [OF lora_wf_zero _ this] show ?thesis by simp
qed

text \<open>
  Claim C5: a frame built by \<open>lora_send\<close> with up to 26 data bytes, fed byte by byte to an idle
  receiver, is recognised at its last byte and treated exactly once, with the frame at the
  start of the receive buffer, and the receiver is idle again.
\<close>

theorem lora_frame_received:
  assumes "config_wf cfg0" and "length data \<le> 26" and "recv_step r = 0" and "recv_len r = 0"
    and "frame = lora_send crc8 cfg0 s0 fl rm cmd data (of_nat (length data))"
    and "lora_frame crc8 cfg (frame @ replicate (26 - length data) 0) s = (s', out)"
  shows "\<exists>r'. recv_bytes crc8 cfg frame (s, r) = Some (s', r', out) \<and>
    recv_step r' = 0 \<and> recv_len r' = 0"
proof -
  obtain body where b: "length body = 20"
    "frame = ([HEADER1, HEADER2] @ body @ [of_nat (length data)] @ data) @
      [crc8 ([HEADER1, HEADER2] @ body @ [of_nat (length data)] @ data)]"
    using lora_send_frame [OF assms(1,2), of crc8 s0 fl rm cmd] assms(5) by auto
  then show ?thesis
    using recv_frame [OF assms(3,4) b(1) assms(2), of crc8 cfg
        "crc8 ([HEADER1, HEADER2] @ body @ [of_nat (length data)] @ data)" s] assms(6)
    by auto
qed

theorem lora_frame_received_witness:
  "\<exists>s' r' out. recv_bytes xor8 config_zero
      (lora_send xor8 config_zero lora_state_zero 3 7 CMD_REPORT [0, 9, 1, 2, 0, 5, 1] (of_nat (length [0, 9, 1, 2, 0, 5, 1 :: u8])))
      (lora_state_zero, recv_idle) = Some (s', r', out) \<and> recv_step r' = 0"
proof -
  let ?d = "[0, 9, 1, 2, 0, 5, 1] :: u8 list"
  let ?f = "lora_send xor8 config_zero lora_state_zero 3 7 CMD_REPORT ?d (of_nat (length ?d))"
  obtain s' out where l: "lora_frame xor8 config_zero (?f @ replicate (26 - length ?d) 0) lora_state_zero = (s', out)"
    by fastforce
  have i: "length ?d \<le> 26" "recv_step recv_idle = 0" "recv_len recv_idle = 0"
    by (simp_all add: recv_idle_def)
  show ?thesis using lora_frame_received [OF config_wf_zero i refl l] by blast
qed

text \<open>
  A report from a registered detector, or from a new one while the table has room,
  stores the big-endian readings, the two alarm bits and a fresh activity time in that
  detector's entry, takes over the message number, and answers with one frame that carries the
  thresholds.
\<close>

theorem lora_report_stored:
  assumes "lora_wf s" and "length buf = RECV_BUF_SIZE" and "take 15 (building_id cfg) = slice 6 15 buf"
    and "buf ! 21 = CMD_REPORT" and "(buf ! 2, buf ! 3) \<noteq> (0, 0)"
    and "(buf ! 2, buf ! 3) \<in> set (lora_keys s) \<or> smoke_num s < SMOKE_NUM"
    and "lora_frame crc8 cfg buf s = (s', out)"
  shows "\<exists>i < smoke_num s'. let d = smoke_dev s' ! i in
      smoke_key d = (buf ! 2, buf ! 3) \<and>
      unat (sd_smoke d) = unat (buf ! 23) * 256 + unat (buf ! 24) \<and>
      unat (sd_temperature d) = unat (buf ! 25) * 256 + unat (buf ! 26) \<and>
      unat (sd_battery d) = unat (buf ! 27) * 256 + unat (buf ! 28) \<and>
      (sd_alarm_smoke d = 1 \<longleftrightarrow> bit (buf ! 29) 0) \<and>
      (sd_alarm_temperature d = 1 \<longleftrightarrow> bit (buf ! 29) 1) \<and>
      sd_active_time d = 255 \<and> msgid s' = buf ! 4 \<and>
      out = [lora_send crc8 cfg s' (buf ! 2) (buf ! 3) 0x82 (threshold_data cfg s') 6]"
proof -
  obtain s1 res where se: "lora_search_smoke (buf ! 2) (buf ! 3) s = (s1, res)" by fastforce
  note spec = search_smoke_spec [OF assms(1,5) se]
  obtain i where i: "res = Some i" "i < smoke_num s1" "smoke_key (smoke_dev s1 ! i) = (buf ! 2, buf ! 3)"
    using spec assms(6) by (cases res) auto
  have len: "length (smoke_dev s1) = SMOKE_NUM" "smoke_num s1 \<le> SMOKE_NUM" using spec by (auto simp: lora_wf_def)
  let ?s2 = "s1\<lparr>smoke_dev := (smoke_dev s1)[i := smoke_report buf (smoke_dev s1 ! i)], msgid := buf ! 4\<rparr>"
  have s': "s' = ?s2" "out = [lora_send crc8 cfg s' (buf ! 2) (buf ! 3) 0x82 (threshold_data cfg s') 6]"
    using assms(3,4,7) se i(1) by (auto simp: lora_frame_def Let_def CMD_REPORT_def)
  have two: "slice k 2 buf = [buf ! k, buf ! Suc k]" if "Suc k < 50" for k
    using that assms(2) by (intro nth_equalityI) (auto simp: slice_def RECV_BUF_SIZE_def nth_Cons' less_2_cases_iff)
  have d: "smoke_dev s' ! i = smoke_report buf (smoke_dev s1 ! i)"
    using s' i len by simp
  have one: "(w AND 1 = (1 :: u8)) \<longleftrightarrow> bit w 0" for w
    by (simp add: and_one_eq odd_iff_mod_2_eq_one bit_0)
  have n: "i < smoke_num s'" "msgid s' = buf ! 4" using i s'(1) by simp_all
  show ?thesis
    using i n s'(2)
    by (intro exI [of _ i] conjI)
      (simp_all add: Let_def d smoke_report_def smoke_key_def two swap16_be one bit_drop_bit_eq)
qed

definition sample_report :: "u8 list" where
  "sample_report = [0xa5, 0x5a, 3, 7, 9, 1] @ replicate 15 0 @ [2, 7, 0, 9, 1, 2, 0, 5, 1] @ replicate 20 0"

theorem lora_report_stored_witness:
  "\<exists>i. unat (sd_temperature (smoke_dev (fst (lora_frame xor8 config_zero sample_report lora_state_zero)) ! i)) = 258"
proof -
  obtain s' out where l: "lora_frame xor8 config_zero sample_report lora_state_zero = (s', out)" by fastforce
  have n: "sample_report ! 2 = 3" "sample_report ! 3 = 7" "sample_report ! 21 = CMD_REPORT"
    "sample_report ! 25 = 1" "sample_report ! 26 = 2" "length sample_report = RECV_BUF_SIZE"
    "take 15 (building_id config_zero) = slice 6 15 sample_report" "smoke_num lora_state_zero < SMOKE_NUM"
    by (simp_all add: sample_report_def CMD_REPORT_def RECV_BUF_SIZE_def config_zero_def config_decode_def
        slice_def nth_append lora_state_zero_def SMOKE_NUM_def)
  show ?thesis
    using lora_report_stored [OF lora_wf_zero n(6) n(7) n(3) _ _ l] l n by (auto simp: Let_def)
qed

text \<open>
  The receiver accepts length bytes up to 29, but \<open>recv_buf\<close> has 50 bytes and a frame
  takes 24 more than its data: a frame with 27, 28 or 29 data bytes makes it store outside the
  buffer.
\<close>

theorem lora_recv_overflow:
  assumes "recv_step r = 0" and "recv_len r = 0" and "length body = 20"
    and "27 \<le> length data" and "length data \<le> 29"
  shows "recv_bytes crc8 cfg ([HEADER1, HEADER2] @ body @ [of_nat (length data)] @ data @ [c]) (s, r) = None"
proof -
  let ?len = "of_nat (length data) :: u8"
  let ?h = "[HEADER1, HEADER2] @ body @ [?len]"
  have un: "unat ?len = length data" using assms(5) by (simp add: unat_of_nat)
  then have lt: "?len < 30" "?len \<noteq> 0" using assms(4,5) by (auto simp: word_less_nat_alt)
  obtain r1 where r1: "recv_bytes crc8 cfg ?h (s, r) = Some (s, r1, [])" "filled ?h r1"
      "data_len r1 = length data" "recv_step r1 = 4" "data_cnt r1 = 0"
    using recv_head [OF assms(1-3) lt(1), of crc8 cfg s] lt(2) un by auto
  have ne: "data \<noteq> []" using assms(4) by auto
  have hd: "recv_bytes crc8 cfg (?h @ ys) (s, r) = recv_bytes crc8 cfg ys (s, r1)" for ys
    using recv_bytes_append [OF r1(1), of ys] by (cases "recv_bytes crc8 cfg ys (s, r1)") auto
  have "recv_bytes crc8 cfg (data @ [c]) (s, r1) = None"
  proof (cases "length data = 27")
    case True
    with recv_data [OF r1(2,4) ne, of crc8 cfg s] r1 assms(3) obtain r2 where
      r2: "recv_bytes crc8 cfg data (s, r1) = Some (s, r2, [])" "filled (?h @ data) r2" "recv_step r2 = 5"
      by (auto simp: RECV_BUF_SIZE_def)
    have "recv_store c r2 = None"
      by (rule recv_store_full [OF r2(2)]) (use True assms(3) in \<open>simp add: RECV_BUF_SIZE_def\<close>)
    with recv_bytes_append [OF r2(1), of "[c]"] r2(3) show ?thesis by (simp add: recv_byte_def)
  next
    case False
    with recv_data [OF r1(2,4) ne, of crc8 cfg s] r1 assms(3,4) show ?thesis
      by (intro recv_bytes_append_None) (auto simp: RECV_BUF_SIZE_def split: if_splits)
  qed
  with hd [of "data @ [c]"] show ?thesis by simp
qed

theorem lora_recv_overflow_witness:
  "recv_bytes xor8 config_zero
     ([HEADER1, HEADER2] @ replicate 20 0 @ [of_nat (length (replicate 28 (1 :: u8)))] @ replicate 28 1 @ [0])
     (lora_state_zero, recv_idle) = None"
  by (rule lora_recv_overflow) (simp_all add: recv_idle_def)

text \<open>
  The receive thread hands a byte to the receiver only after a read finds the fifo
  empty. A byte that arrives while the thread waits is received once; of two bytes that arrive
  before the thread runs, the first is lost and the second is received twice.
\<close>

theorem lora_serial_pacing:
  assumes "waiting p" and "fifo p = []" and "rx_sem p = 0"
  shows "serial_thread crc8 cfg (s, r, uart_input b p) =
      map_option (\<lambda>(s1, r1, out). (s1, r1, p\<lparr>ser_ch := b\<rparr>, out)) (recv_bytes crc8 cfg [b] (s, r)) \<and>
    serial_thread crc8 cfg (s, r, uart_input b2 (uart_input b1 p)) =
      map_option (\<lambda>(s1, r1, out). (s1, r1, p\<lparr>ser_ch := b2\<rparr>, out)) (recv_bytes crc8 cfg [b2, b2] (s, r))"
proof -
  obtain fs n w c where p: "p = \<lparr>fifo = fs, rx_sem = n, waiting = w, ser_ch = c\<rparr>" by (cases p)
  show ?thesis
    using assms unfolding p
    by (auto simp: serial_thread_def serial_iter_def uart_input_def numeral_eq_Suc Let_def
        split: option.split)
qed

theorem lora_serial_pacing_witness:
  "serial_thread xor8 config_zero
     (lora_state_zero, recv_idle, uart_input HEADER2 (uart_input HEADER1
        \<lparr>fifo = [], rx_sem = 0, waiting = True, ser_ch = 0\<rparr>)) =
   Some (lora_state_zero, recv_idle, \<lparr>fifo = [], rx_sem = 0, waiting = True, ser_ch = HEADER2\<rparr>, [])"
  using lora_serial_pacing [of "\<lparr>fifo = [], rx_sem = 0, waiting = True, ser_ch = 0\<rparr>" xor8 config_zero
      lora_state_zero recv_idle HEADER1 HEADER2 HEADER1]
  by (simp add: recv_byte_def recv_idle_def HEADER1_def HEADER2_def)

end
