(* ===== verification/Ota.thy ===== *)
theory Ota
  imports Nbiot "HOL-Library.Monad_Syntax"
begin

text \<open>
  The firmware update (\<open>applications/ota.c\<close>): the version number of the build date, the
  decision of the update thread and the functions around it. The web client, the file system
  and the download are not part of the repository: what they return is in \<open>ota_env\<close>.
\<close>

section \<open>The version of a build date\<close>

definition month_names :: "u8 list" where
  "month_names = c_bytes ''JanFebMarAprMayJunJulAugSepOctNovDec''"

text \<open>\<open>sscanf\<close> of \<open>%s\<close> and \<open>%d\<close>, with what is left of the text. \<open>None\<close> is a
  conversion that fails, which leaves the variable without a value.\<close>

definition scan_word :: "u8 list \<Rightarrow> (u8 list \<times> u8 list) option" where
  "scan_word s = (let t = dropWhile is_blank s; w = takeWhile (\<lambda>c. \<not> is_blank c) t
     in if w = [] then None else Some (w, dropWhile (\<lambda>c. \<not> is_blank c) t))"

definition scan_int :: "u8 list \<Rightarrow> (int \<times> u8 list) option" where
  "scan_int s =
     (let t = dropWhile is_blank s;
          sgn_char = t \<noteq> [] \<and> (hd t = 43 \<or> hd t = 45);
          d = (if sgn_char then tl t else t);
          ds = takeWhile is_digit d
      in if ds = [] then None
         else Some (if sgn_char \<and> hd t = 45 then - digits_value 0 ds else digits_value 0 ds, dropWhile is_digit d))"

text \<open>\<open>strstr(month_names, s_month) - month_names\<close>; \<open>None\<close> for a null result.\<close>

fun str_index :: "u8 list \<Rightarrow> u8 list \<Rightarrow> nat option" where
  "str_index pat [] = (if pat = [] then Some 0 else None)"
| "str_index pat (c # cs) =
     (if take (length pat) (c # cs) = pat then Some 0 else map_option Suc (str_index pat cs))"

text \<open>The month is read into an array of five characters; \<open>None\<close> for a date that has no such
  month, day and year.\<close>

definition ota_compile_time :: "u8 list \<Rightarrow> u32 option" where
  "ota_compile_time time =
     do {
       (s_month, t1) \<leftarrow> scan_word time;
       (if length s_month < 5 then Some () else None);
       (day, t2) \<leftarrow> scan_int t1;
       (year, t3) \<leftarrow> scan_int t2;
       i \<leftarrow> str_index s_month month_names;
       (let month = int (i div 3)
        in Some (word_of_int (year * 1000000) + word_of_int ((month + 1) * 10000) + word_of_int (day * 100) + 99))
     }"

section \<open>The update thread\<close>

definition UPDATE_OTA_PIN :: nat where "UPDATE_OTA_PIN = GET_PIN PORT_B 0"

text \<open>The results of fetching the version file, of opening and reading it, of parsing it, the
  parsed members and the build date.\<close>

record ota_env =
  get_file_ok :: bool
  open_fd :: int
  read_size :: int
  ver_root :: "(string \<Rightarrow> json_item option) option"
  build_date :: "u8 list"

record ota_state =
  ota_config :: config_t
  new_ver :: u32
  ota_running :: bool
  ota_pins :: levels

text \<open>The address of the version file and of the firmware file, each cut to its buffer.\<close>

definition ver_uri :: "config_t \<Rightarrow> u8 list" where
  "ver_uri c = take 49 (buf_string (update_uri c) @ c_bytes ''/ver.json'')"

definition fm_file :: "config_t \<Rightarrow> u8 list \<Rightarrow> u8 list" where
  "fm_file c name = take 99 (buf_string (update_uri c) @ c_bytes ''/'' @ name)"

text \<open>What is done with a parsed version file: the new state and the download, if one is
  started. \<open>None\<close> if the file name is not a string.\<close>

definition ota_version_file :: "ota_env \<Rightarrow> (string \<Rightarrow> json_item option) \<Rightarrow> ota_state \<Rightarrow>
    (ota_state \<times> u8 list list) option" where
  "ota_version_file env get s =
     (let ver' = (case get ''ver'' of None \<Rightarrow> 0 | Some i \<Rightarrow> word_of_int (valueint i)) in
      case ota_compile_time (build_date env) of None \<Rightarrow> None
      | Some built \<Rightarrow>
          if ver' > ver (ota_config s) \<and> ver' > built
          then case get ''file'' of None \<Rightarrow> Some (s, [])
            | Some f \<Rightarrow> map_option (\<lambda>name. (s\<lparr>new_ver := ver'\<rparr>, [fm_file (ota_config s) name])) (valuestring f)
          else Some (s\<lparr>ota_config := (ota_config s)\<lparr>ver := ver'\<rparr>,
                       ota_pins := set_level (ota_pins s) UPDATE_OTA_PIN True\<rparr>, []))"

definition ota_task :: "ota_env \<Rightarrow> ota_state \<Rightarrow> (ota_state \<times> u8 list list) option" where
  "ota_task env s =
     map_option (\<lambda>(s1, downloads).
         (s1\<lparr>ota_pins := set_level (ota_pins s1) UPDATE_OTA_PIN True, ota_running := False\<rparr>, downloads))
       (if get_file_ok env \<and> open_fd env \<ge> 0 \<and> read_size env \<noteq> 0
        then case ver_root env of None \<Rightarrow> Some (s, []) | Some get \<Rightarrow> ota_version_file env get s
        else Some (s, []))"

definition ota_save_ver :: "ota_state \<Rightarrow> ota_state" where
  "ota_save_ver s = s\<lparr>ota_config := (ota_config s)\<lparr>ver := new_ver s\<rparr>\<rparr>"

text \<open>\<open>ota_init\<close> returns a value only when an update is running; \<open>None\<close> is the missing return.
  The second result says whether the thread was started.\<close>

definition ota_init :: "bool \<Rightarrow> ota_state \<Rightarrow> ota_state \<times> bool \<times> int option" where
  "ota_init created s =
     (if ota_running s then (s, False, Some RT_ERROR)
      else (s\<lparr>ota_running := True, ota_pins := set_level (ota_pins s) UPDATE_OTA_PIN False\<rparr>, created, None))"

section \<open>Dates\<close>

text \<open>The text of \<open>__DATE__\<close>: month name, day padded with a blank, year. Months count from 0.\<close>

definition digit_char :: "nat \<Rightarrow> u8" where
  "digit_char k = 48 + of_nat k"

definition date_text :: "nat \<Rightarrow> nat \<Rightarrow> nat \<Rightarrow> u8 list" where
  "date_text y m d =
     take 3 (drop (3 * m) month_names) @ [32] @
     (if d < 10 then [32, digit_char d] else [digit_char (d div 10), digit_char (d mod 10)]) @ [32] @
     [digit_char (y div 1000), digit_char (y div 100 mod 10), digit_char (y div 10 mod 10), digit_char (y mod 10)]"

lemma digit_char_value:
  assumes "k < 10"
  shows "is_digit (digit_char k)" and "uint (digit_char k) = 48 + int k" and "\<not> is_blank (digit_char k)"
proof -
  have u: "unat (digit_char k) = 48 + k"
    using assms by (simp add: digit_char_def unat_word_ariths unat_of_nat)
  with assms show "is_digit (digit_char k)" by (simp add: is_digit_def word_le_nat_alt)
  show "uint (digit_char k) = 48 + int k" using u by (metis of_nat_add of_nat_numeral uint_nat)
  have ne: "digit_char k \<noteq> c" if "unat c < 48" for c :: u8 using u that by auto
  show "\<not> is_blank (digit_char k)"
    using u assms by (auto simp: is_blank_def word_le_nat_alt ne)
qed

lemma digit_char_not_sign:
  assumes "k < 10" shows "digit_char k \<noteq> 43" and "digit_char k \<noteq> 45" and "digit_char k \<noteq> 32"
proof -
  have ne: "digit_char k \<noteq> c" if "uint c < 48" for c :: u8
    using digit_char_value(2) [OF assms] that by auto
  show "digit_char k \<noteq> 43" "digit_char k \<noteq> 45" "digit_char k \<noteq> 32" by (rule ne; simp)+
qed

lemma month_name_cases:
  assumes "m < 12"
  shows "str_index (take 3 (drop (3 * m) month_names)) month_names = Some (3 * m)"
    and "length (take 3 (drop (3 * m) month_names)) = 3"
    and "list_all (\<lambda>c. \<not> is_blank c) (take 3 (drop (3 * m) month_names))"
proof -
  have "list_all (\<lambda>m. str_index (take 3 (drop (3 * m) month_names)) month_names = Some (3 * m) \<and>
      length (take 3 (drop (3 * m) month_names)) = 3 \<and>
      list_all (\<lambda>c. \<not> is_blank c) (take 3 (drop (3 * m) month_names))) [0..<12]"
    by code_simp
  then have "m < 12 \<longrightarrow> str_index (take 3 (drop (3 * m) month_names)) month_names = Some (3 * m) \<and>
      length (take 3 (drop (3 * m) month_names)) = 3 \<and>
      list_all (\<lambda>c. \<not> is_blank c) (take 3 (drop (3 * m) month_names))"
    unfolding list_all_iff by simp
  with assms show "str_index (take 3 (drop (3 * m) month_names)) month_names = Some (3 * m)"
    and "length (take 3 (drop (3 * m) month_names)) = 3"
    and "list_all (\<lambda>c. \<not> is_blank c) (take 3 (drop (3 * m) month_names))" by simp_all
qed

lemma scan_word_month:
  assumes "length w = 3" and "list_all (\<lambda>c. \<not> is_blank c) w"
  shows "scan_word (w @ 32 # r) = Some (w, 32 # r)"
proof -
  have b: "is_blank 32" by (simp add: is_blank_def)
  have d: "dropWhile is_blank (w @ 32 # r) = w @ 32 # r"
    using assms by (cases w) auto
  show ?thesis using assms b by (auto simp: scan_word_def Let_def d list_all_iff takeWhile_append2 dropWhile_append2)
qed

text \<open>A number of decimal digits that the next character ends.\<close>

lemma scan_int_digits:
  assumes "list_all (\<lambda>k. k < 10) ks" and "ks \<noteq> []" and "r = [] \<or> \<not> is_digit (hd r)"
  shows "scan_int (32 # map digit_char ks @ r) = Some (digits_value 0 (map digit_char ks), r)"
    and "scan_int (32 # 32 # map digit_char ks @ r) = Some (digits_value 0 (map digit_char ks), r)"
proof -
  obtain k l where ks: "ks = k # l" using assms(2) by (cases ks) auto
  have k: "k < 10" using assms(1) ks by simp
  have b: "is_blank 32" by (simp add: is_blank_def)
  have dg: "\<forall>c \<in> set (map digit_char ks). is_digit c"
    using assms(1) by (auto simp: list_all_iff digit_char_value)
  have e: "takeWhile is_digit r = []" "dropWhile is_digit r = r" using assms(3) by (cases r; simp)+
  have t: "takeWhile is_digit (map digit_char ks @ r) = map digit_char ks"
    using takeWhile_append2 [of "map digit_char ks" is_digit r] dg e by auto
  have d: "dropWhile is_digit (map digit_char ks @ r) = r"
    using dropWhile_append2 [of "map digit_char ks" is_digit r] dg e by auto
  have s: "dropWhile is_blank (map digit_char ks @ r) = map digit_char ks @ r"
    using k by (simp add: ks digit_char_value)
  have h: "hd (map digit_char ks @ r) \<noteq> 43" "hd (map digit_char ks @ r) \<noteq> 45"
    using k by (simp_all add: ks digit_char_not_sign)
  have ds: "dropWhile is_blank (32 # map digit_char ks @ r) = map digit_char ks @ r"
    and ds2: "dropWhile is_blank (32 # 32 # map digit_char ks @ r) = map digit_char ks @ r"
    by (simp_all only: dropWhile.simps b s if_True)
  show "scan_int (32 # map digit_char ks @ r) = Some (digits_value 0 (map digit_char ks), r)"
    and "scan_int (32 # 32 # map digit_char ks @ r) = Some (digits_value 0 (map digit_char ks), r)"
    unfolding scan_int_def Let_def ds ds2
    by (simp_all only: h if_False t d simp_thms) (simp_all add: assms(2))
qed

lemma digits_value_fold:
  "list_all (\<lambda>k. k < 10) ks \<Longrightarrow> digits_value a (map digit_char ks) = foldl (\<lambda>a k. a * 10 + int k) a ks"
  by (induction ks arbitrary: a) (simp_all add: digit_char_value)

lemma digits_value_year:
  assumes "y < 10000"
  shows "digits_value 0 (map digit_char [y div 1000, y div 100 mod 10, y div 10 mod 10, y mod 10]) = int y"
proof -
  have "list_all (\<lambda>k. k < 10) [y div 1000, y div 100 mod 10, y div 10 mod 10, y mod 10]" using assms by simp
  from digits_value_fold [OF this, of 0]
  have v: "digits_value 0 (map digit_char [y div 1000, y div 100 mod 10, y div 10 mod 10, y mod 10])
    = int (((y div 1000 * 10 + y div 100 mod 10) * 10 + y div 10 mod 10) * 10 + y mod 10)" by (simp del: list.map)
  have m: "y div (10 * k) * 10 + y div k mod 10 = y div k" for k
    by (metis div_mult2_eq div_mult_mod_eq mult.commute)
  from m [of 100] m [of 10] m [of 1] show ?thesis by (simp only: v) simp
qed

lemma blank_no_digit: "\<not> is_digit 32"
  by (simp add: is_digit_def)

lemma scan_day:
  assumes "d \<le> 31"
  shows "scan_int (32 # (if d < 10 then [32, digit_char d] else [digit_char (d div 10), digit_char (d mod 10)]) @ 32 # r)
    = Some (int d, 32 # r)"
proof (cases "d < 10")
  case True
  then show ?thesis using scan_int_digits(2) [of "[d]" "32 # r"] digits_value_fold [of "[d]" 0]
    by (simp add: blank_no_digit del: digits_value.simps)
next
  case False
  have "d div 10 < 10" using assms by simp
  moreover have "int (d div 10) * 10 + int (d mod 10) = int d"
    by (metis div_mult_mod_eq of_nat_add of_nat_mult of_nat_numeral)
  ultimately show ?thesis using scan_int_digits(1) [of "[d div 10, d mod 10]" "32 # r"] digits_value_fold [of "[d div 10, d mod 10]" 0] False
    by (simp add: blank_no_digit del: digits_value.simps)
qed

lemma ota_compile_time_date:
  assumes "m < 12" and "d \<le> 31" and "y < 10000"
  shows "ota_compile_time (date_text y m d) = Some (word_of_int (int (y * 1000000 + (m + 1) * 10000 + d * 100 + 99)))"
proof -
  have yk: "list_all (\<lambda>k. k < 10) [y div 1000, y div 100 mod 10, y div 10 mod 10, y mod 10]"
    using assms(3) by simp
  have y: "scan_int (32 # map digit_char [y div 1000, y div 100 mod 10, y div 10 mod 10, y mod 10]) = Some (int y, [])"
    using scan_int_digits(1) [OF yk, of "[]"] digits_value_year [OF assms(3)] by simp
  let ?rest = "32 # (if d < 10 then [32, digit_char d] else [digit_char (d div 10), digit_char (d mod 10)])
     @ 32 # map digit_char [y div 1000, y div 100 mod 10, y div 10 mod 10, y mod 10]"
  have dt: "date_text y m d = take 3 (drop (3 * m) month_names) @ ?rest" by (simp add: date_text_def)
  have w: "scan_word (date_text y m d) = Some (take 3 (drop (3 * m) month_names), ?rest)"
    unfolding dt by (rule scan_word_month [OF month_name_cases(2,3) [OF assms(1)]])
  note sd = scan_day [OF assms(2)]
  show ?thesis
    unfolding ota_compile_time_def w bind.bind_lunit prod.case sd y month_name_cases [OF assms(1)]
    by simp
qed

lemma unat_word_of_int_int: "unat (word_of_int (int n) :: u32) = n mod 2 ^ 32"
  using unat_of_nat [of n, where 'a = 32] by simp

lemma unat_version:
  assumes "m < 12" and "d \<le> 31" and "y \<le> 2147"
  shows "unat (word_of_int (int (y * 1000000 + (m + 1) * 10000 + d * 100 + 99)) :: u32)
    = y * 1000000 + (m + 1) * 10000 + d * 100 + 99"
proof -
  have "y * 1000000 + (m + 1) * 10000 + d * 100 + 99 < 2 ^ 32" using assms by simp
  then show ?thesis by (simp only: unat_word_of_int_int mod_less)
qed

lemma version_order:
  assumes "m < 12" "d \<le> 31" "m' < 12" "d' \<le> (31::nat)"
  shows "y * 1000000 + (m + 1) * 10000 + d * 100 + 99 < y' * 1000000 + (m' + 1) * 10000 + d' * 100 + (99::nat)
    \<longleftrightarrow> y < y' \<or> y = y' \<and> (m < m' \<or> m = m' \<and> d < d')"
  using assms by (cases y y' rule: linorder_cases; cases m m' rule: linorder_cases; simp)

text \<open>The version that \<open>ota_compile_time\<close> makes of a build date is ordered as the dates
  are: of two dates of the Gregorian years up to 2147, both have a version, and the earlier one
  has the smaller number, so the comparison with the number of the server compares dates. The
  two last decimal digits are 99, above every version number \<open>yyyymmddnn\<close> of the same day
  whose own two digits are smaller.\<close>

theorem ota_compile_time_order:
  assumes "m < 12" and "1 \<le> d" and "d \<le> 31" and "y \<le> 2147"
    and "m' < 12" and "1 \<le> d'" and "d' \<le> 31" and "y' \<le> 2147"
  shows "\<exists>v v'. ota_compile_time (date_text y m d) = Some v \<and> ota_compile_time (date_text y' m' d') = Some v' \<and>
    (v < v' \<longleftrightarrow> y < y' \<or> y = y' \<and> (m < m' \<or> m = m' \<and> d < d')) \<and>
    (\<forall>n < 99. (word_of_int (int (y * 1000000 + (m + 1) * 10000 + d * 100 + n)) :: u32) < v)"
proof -
  let ?n = "\<lambda>y m d. y * 1000000 + (m + 1) * 10000 + d * 100 + (99::nat)"
  let ?v = "\<lambda>y m d. word_of_int (int (?n y m d)) :: u32"
  have ord: "?n y m d < ?n y' m' d' \<longleftrightarrow> y < y' \<or> y = y' \<and> (m < m' \<or> m = m' \<and> d < d')"
    using assms by (intro version_order)
  have u: "unat (?v y m d) = ?n y m d" "unat (?v y' m' d') = ?n y' m' d'"
    using assms by (simp_all only: unat_version)
  have low: "(word_of_int (int (y * 1000000 + (m + 1) * 10000 + d * 100 + n)) :: u32) < ?v y m d" if "n < 99" for n
  proof -
    have "unat (word_of_int (int (y * 1000000 + (m + 1) * 10000 + d * 100 + n)) :: u32)
        \<le> y * 1000000 + (m + 1) * 10000 + d * 100 + n"
      by (simp only: unat_word_of_int_int mod_less_eq_dividend)
    then show ?thesis unfolding word_less_nat_alt u(1) using that by linarith
  qed
  have c: "ota_compile_time (date_text y m d) = Some (?v y m d)"
    "ota_compile_time (date_text y' m' d') = Some (?v y' m' d')"
    using assms by (intro ota_compile_time_date; linarith)+
  have "?v y m d < ?v y' m' d' \<longleftrightarrow> y < y' \<or> y = y' \<and> (m < m' \<or> m = m' \<and> d < d')"
    unfolding word_less_nat_alt u by (rule ord)
  with c low show ?thesis by blast
qed

theorem ota_compile_time_order_witness:
  "\<exists>v v'. ota_compile_time (date_text 2020 8 30) = Some v \<and> ota_compile_time (date_text 2020 9 1) = Some v' \<and> v < v'"
  using ota_compile_time_order [of 8 30 2020 9 1 2020] by auto

section \<open>The decision of the thread\<close>

text \<open>What the thread found: the version file was fetched, opened, read and is JSON.\<close>

definition version_file :: "ota_env \<Rightarrow> (string \<Rightarrow> json_item option) option" where
  "version_file env = (if get_file_ok env \<and> open_fd env \<ge> 0 \<and> read_size env \<noteq> 0 then ver_root env else None)"

text \<open>Claim C9. On a build of the given date, the update thread ends with the update line high again
  and the running flag clear, so that a later \<open>ota_init\<close> can start it again, whatever fails: the
  download, opening, reading or parsing of the version file, or a missing member in it; a
  \<open>file\<close> member that is no string, which the code follows as a null pointer, is excluded.
  Without a version file nothing is downloaded and nothing changes. With one, it downloads the
  file it names exactly when the version is above the configured one and above the version of
  the build, and keeps the number for \<open>ota_save_ver\<close>, which makes it the configured version; a
  newer version without a file name does nothing. Otherwise nothing is downloaded and the
  configured version becomes the version of the server, whether that is higher or lower, or 0
  when the file has none. Nothing else of the configuration changes.\<close>

theorem ota_update_decision:
  assumes "m < 12" and "d \<le> 31" and "y < 10000" and "build_date env = date_text y m d"
    and "\<forall>get f. version_file env = Some get \<longrightarrow> get ''file'' = Some f \<longrightarrow> valuestring f \<noteq> None"
  shows "\<exists>s' downloads built. ota_task env s = Some (s', downloads) \<and>
    ota_compile_time (build_date env) = Some built \<and>
    \<not> ota_running s' \<and> ota_pins s' UPDATE_OTA_PIN \<and> fst (snd (ota_init True s')) \<and>
    (case version_file env of
       None \<Rightarrow> downloads = [] \<and> ota_config s' = ota_config s \<and> new_ver s' = new_ver s
     | Some get \<Rightarrow>
       (let v = (case get ''ver'' of None \<Rightarrow> 0 | Some i \<Rightarrow> word_of_int (valueint i));
            newer = (v > ver (ota_config s) \<and> v > built);
            file = Option.bind (get ''file'') valuestring
        in downloads = (if newer then map (fm_file (ota_config s)) (case file of None \<Rightarrow> [] | Some name \<Rightarrow> [name]) else []) \<and>
          ota_config s' = (if newer then ota_config s else (ota_config s)\<lparr>ver := v\<rparr>) \<and>
          (downloads \<noteq> [] \<longrightarrow> ota_config (ota_save_ver s') = (ota_config s)\<lparr>ver := v\<rparr>)))"
proof -
  obtain built where built: "ota_compile_time (build_date env) = Some built"
    using ota_compile_time_date [OF assms(1-3)] assms(4) by simp
  show ?thesis
  proof (cases "version_file env")
    case None
    then have "ota_task env s = Some (s\<lparr>ota_pins := set_level (ota_pins s) UPDATE_OTA_PIN True, ota_running := False\<rparr>, [])"
      by (auto simp: version_file_def ota_task_def split: if_splits)
    then show ?thesis using built None by (simp add: ota_init_def)
  next
    case (Some get)
    then have root: "get_file_ok env" "open_fd env \<ge> 0" "read_size env \<noteq> 0" "ver_root env = Some get"
      by (auto simp: version_file_def split: if_splits)
    define v :: u32 where "v = (case get ''ver'' of None \<Rightarrow> 0 | Some i \<Rightarrow> word_of_int (valueint i))"
    have e: "ota_version_file env get s = (if v > ver (ota_config s) \<and> v > built
        then case get ''file'' of None \<Rightarrow> Some (s, [])
          | Some f \<Rightarrow> map_option (\<lambda>name. (s\<lparr>new_ver := v\<rparr>, [fm_file (ota_config s) name])) (valuestring f)
        else Some (s\<lparr>ota_config := (ota_config s)\<lparr>ver := v\<rparr>, ota_pins := set_level (ota_pins s) UPDATE_OTA_PIN True\<rparr>, []))"
      by (simp add: ota_version_file_def built v_def [symmetric] Let_def)
    show ?thesis
    proof (cases "get ''file''")
      case None
      then show ?thesis using root built Some
        by (simp add: ota_task_def e ota_init_def Let_def flip: v_def)
    next
      case f: (Some f)
      then obtain name where "valuestring f = Some name" using assms(5) Some f by blast
      then show ?thesis using root built Some f
        by (simp add: ota_task_def e ota_init_def ota_save_ver_def Let_def flip: v_def)
    qed
  qed
qed

definition sample_ota_env :: ota_env where
  "sample_ota_env = \<lparr>get_file_ok = True, open_fd = 3, read_size = 40,
     ver_root = Some (\<lambda>k. if k = ''ver'' then Some \<lparr>valueint = 2020100100, valuestring = None\<rparr>
       else if k = ''file'' then Some \<lparr>valueint = 0, valuestring = Some (c_bytes ''fw.rbl'')\<rparr> else None),
     build_date = date_text 2020 8 30\<rparr>"

definition sample_ota_state :: ota_state where
  "sample_ota_state = \<lparr>ota_config = config_zero, new_ver = 0, ota_running = True, ota_pins = (\<lambda>_. False)\<rparr>"

theorem ota_update_decision_witness:
  "\<exists>s'. ota_task sample_ota_env sample_ota_state = Some (s', [fm_file config_zero (c_bytes ''fw.rbl'')]) \<and>
     ver (ota_config (ota_save_ver s')) = 2020100100"
proof -
  have c: "ota_compile_time (date_text 2020 8 30) = Some 2020093099"
    by (simp add: ota_compile_time_date)
  have z: "ver config_zero = 0" by code_simp
  have e: "build_date sample_ota_env = date_text 2020 8 30" "version_file sample_ota_env = ver_root sample_ota_env"
    by (simp_all add: sample_ota_env_def version_file_def)
  have f: "\<forall>get f. version_file sample_ota_env = Some get \<longrightarrow> get ''file'' = Some f \<longrightarrow> valuestring f \<noteq> None"
    unfolding e(2) by (auto simp: sample_ota_env_def split: if_splits)
  have h: "(8 :: nat) < 12" "(30 :: nat) \<le> 31" "(2020 :: nat) < 10000" by simp_all
  note R = ota_update_decision [of 8 30 2020 sample_ota_env sample_ota_state, OF h e(1) f, unfolded e(2)]
  show ?thesis using R by (auto simp: sample_ota_env_def sample_ota_state_def c z Let_def)
qed

text \<open>When the thread cannot be created the running flag stays set, and every later \<open>ota_init\<close> is refused.\<close>

lemma ota_init_stuck:
  assumes "\<not> ota_running s" and "ota_init False s = (s', started, r)"
  shows "\<not> started \<and> ota_init created s' = (s', False, Some RT_ERROR)"
  using assms by (auto simp: ota_init_def)

end
