(* ===== verification/Rt_Ringbuffer.thy ===== *)
theory Rt_Ringbuffer
  imports Fw_Prelude
begin

text \<open>
  The ring buffer of the device drivers (\<open>rt-thread/components/drivers/src/ringbuffer.c\<close> and
  \<open>include/ipc/ringbuffer.h\<close>). Each index is a 15-bit field with a one-bit mirror, which
  tells a full buffer from an empty one. The theory gives the buffer's contents as a list,
  shows that every operation is the operation of a bounded queue on that list, and that
  \<open>rt_ringbuffer_put_force\<close> is not: one of its overwriting branches empties the buffer.
\<close>

section \<open>State\<close>

record rt_ringbuffer =
  buffer_ptr :: "u8 list"
  read_mirror :: bool
  read_index :: nat
  write_mirror :: bool
  write_index :: nat
  buffer_size :: nat

datatype rt_ringbuffer_state = RT_RINGBUFFER_EMPTY | RT_RINGBUFFER_FULL | RT_RINGBUFFER_HALFFULL

text \<open>The 15-bit index fields: stores wrap.\<close>

definition index15 :: "nat \<Rightarrow> nat" where
  "index15 n = n mod 2 ^ 15"

text \<open>\<open>memcpy\<close> of \<open>ys\<close> to position \<open>i\<close> of the pool.\<close>

definition pool_write :: "u8 list \<Rightarrow> nat \<Rightarrow> u8 list \<Rightarrow> u8 list" where
  "pool_write xs i ys = take i xs @ ys @ drop (i + length ys) xs"

section \<open>Operations\<close>

text \<open>\<open>size & ~(align - 1)\<close>, for an alignment that is a power of two.\<close>

definition RT_ALIGN_DOWN :: "nat \<Rightarrow> nat \<Rightarrow> nat" where
  "RT_ALIGN_DOWN sz align = sz - sz mod align"

definition rt_ringbuffer_status :: "rt_ringbuffer \<Rightarrow> rt_ringbuffer_state" where
  "rt_ringbuffer_status rb =
     (if read_index rb = write_index rb
      then if read_mirror rb = write_mirror rb then RT_RINGBUFFER_EMPTY else RT_RINGBUFFER_FULL
      else RT_RINGBUFFER_HALFFULL)"

definition rt_ringbuffer_data_len :: "rt_ringbuffer \<Rightarrow> nat" where
  "rt_ringbuffer_data_len rb =
     (case rt_ringbuffer_status rb of
        RT_RINGBUFFER_EMPTY \<Rightarrow> 0
      | RT_RINGBUFFER_FULL \<Rightarrow> buffer_size rb
      | RT_RINGBUFFER_HALFFULL \<Rightarrow>
          if write_index rb > read_index rb then write_index rb - read_index rb
          else buffer_size rb - (read_index rb - write_index rb))"

definition rt_ringbuffer_space_len :: "rt_ringbuffer \<Rightarrow> nat" where
  "rt_ringbuffer_space_len rb = buffer_size rb - rt_ringbuffer_data_len rb"

definition rt_ringbuffer_init :: "u8 list \<Rightarrow> nat \<Rightarrow> rt_ringbuffer" where
  "rt_ringbuffer_init pool sz =
     \<lparr>buffer_ptr = pool, read_mirror = False, read_index = 0, write_mirror = False,
      write_index = 0, buffer_size = RT_ALIGN_DOWN sz 4\<rparr>"

definition rt_ringbuffer_reset :: "rt_ringbuffer \<Rightarrow> rt_ringbuffer" where
  "rt_ringbuffer_reset rb =
     rb\<lparr>read_mirror := False, read_index := 0, write_mirror := False, write_index := 0\<rparr>"

text \<open>The tests \<open>buffer_size - write_index > length\<close> are on \<open>int\<close>.\<close>

definition rt_ringbuffer_put :: "rt_ringbuffer \<Rightarrow> u8 list \<Rightarrow> nat \<Rightarrow> rt_ringbuffer \<times> nat" where
  "rt_ringbuffer_put rb ptr len =
     (let size = rt_ringbuffer_space_len rb in
      if size = 0 then (rb, 0)
      else let len = (if size < len then size else len) in
        if int (buffer_size rb) - int (write_index rb) > int len
        then (rb\<lparr>buffer_ptr := pool_write (buffer_ptr rb) (write_index rb) (take len ptr),
                 write_index := index15 (write_index rb + len)\<rparr>, len)
        else let k = buffer_size rb - write_index rb in
          (rb\<lparr>buffer_ptr := pool_write (pool_write (buffer_ptr rb) (write_index rb) (take k ptr))
                 0 (take (len - k) (drop k ptr)),
              write_mirror := \<not> write_mirror rb,
              write_index := index15 (len - k)\<rparr>, len))"

definition rt_ringbuffer_put_force :: "rt_ringbuffer \<Rightarrow> u8 list \<Rightarrow> nat \<Rightarrow> rt_ringbuffer \<times> nat" where
  "rt_ringbuffer_put_force rb ptr0 len0 =
     (let space_length = rt_ringbuffer_space_len rb;
          (ptr, len) = (if len0 > buffer_size rb
                        then (drop (len0 - buffer_size rb) ptr0, buffer_size rb)
                        else (ptr0, len0)) in
      if int (buffer_size rb) - int (write_index rb) > int len
      then let rb1 = rb\<lparr>buffer_ptr := pool_write (buffer_ptr rb) (write_index rb) (take len ptr),
                        write_index := index15 (write_index rb + len)\<rparr>
        in (if len > space_length then rb1\<lparr>read_index := write_index rb1\<rparr> else rb1, len)
      else let k = buffer_size rb - write_index rb;
          rb1 = rb\<lparr>buffer_ptr := pool_write (pool_write (buffer_ptr rb) (write_index rb) (take k ptr))
                     0 (take (len - k) (drop k ptr)),
                   write_mirror := \<not> write_mirror rb,
                   write_index := index15 (len - k)\<rparr>
        in (if len > space_length
            then rb1\<lparr>read_mirror := \<not> read_mirror rb1, read_index := write_index rb1\<rparr>
            else rb1, len))"

text \<open>The bytes stored through \<open>ptr\<close> are the second result.\<close>

definition rt_ringbuffer_get :: "rt_ringbuffer \<Rightarrow> nat \<Rightarrow> rt_ringbuffer \<times> u8 list" where
  "rt_ringbuffer_get rb len =
     (let size = rt_ringbuffer_data_len rb in
      if size = 0 then (rb, [])
      else let len = (if size < len then size else len) in
        if int (buffer_size rb) - int (read_index rb) > int len
        then (rb\<lparr>read_index := index15 (read_index rb + len)\<rparr>,
              take len (drop (read_index rb) (buffer_ptr rb)))
        else let k = buffer_size rb - read_index rb in
          (rb\<lparr>read_mirror := \<not> read_mirror rb, read_index := index15 (len - k)\<rparr>,
           take k (drop (read_index rb) (buffer_ptr rb)) @ take (len - k) (buffer_ptr rb)))"

definition rt_ringbuffer_putchar :: "rt_ringbuffer \<Rightarrow> u8 \<Rightarrow> rt_ringbuffer \<times> nat" where
  "rt_ringbuffer_putchar rb ch =
     (if rt_ringbuffer_space_len rb = 0 then (rb, 0)
      else let rb1 = rb\<lparr>buffer_ptr := (buffer_ptr rb)[write_index rb := ch]\<rparr> in
        (if int (write_index rb1) = int (buffer_size rb1) - 1
         then rb1\<lparr>write_mirror := \<not> write_mirror rb1, write_index := 0\<rparr>
         else rb1\<lparr>write_index := index15 (write_index rb1 + 1)\<rparr>, 1))"

definition rt_ringbuffer_putchar_force :: "rt_ringbuffer \<Rightarrow> u8 \<Rightarrow> rt_ringbuffer \<times> nat" where
  "rt_ringbuffer_putchar_force rb ch =
     (let old_state = rt_ringbuffer_status rb;
          rb1 = rb\<lparr>buffer_ptr := (buffer_ptr rb)[write_index rb := ch]\<rparr> in
      if int (write_index rb1) = int (buffer_size rb1) - 1
      then let rb2 = rb1\<lparr>write_mirror := \<not> write_mirror rb1, write_index := 0\<rparr>
        in (if old_state = RT_RINGBUFFER_FULL
            then rb2\<lparr>read_mirror := \<not> read_mirror rb2, read_index := write_index rb2\<rparr>
            else rb2, 1)
      else let rb2 = rb1\<lparr>write_index := index15 (write_index rb1 + 1)\<rparr>
        in (if old_state = RT_RINGBUFFER_FULL then rb2\<lparr>read_index := write_index rb2\<rparr> else rb2, 1))"

definition rt_ringbuffer_getchar :: "rt_ringbuffer \<Rightarrow> rt_ringbuffer \<times> u8 option" where
  "rt_ringbuffer_getchar rb =
     (if rt_ringbuffer_data_len rb = 0 then (rb, None)
      else (if int (read_index rb) = int (buffer_size rb) - 1
            then rb\<lparr>read_mirror := \<not> read_mirror rb, read_index := 0\<rparr>
            else rb\<lparr>read_index := index15 (read_index rb + 1)\<rparr>,
            Some (buffer_ptr rb ! read_index rb)))"

section \<open>Contents and invariant\<close>

definition rb_wf :: "rt_ringbuffer \<Rightarrow> bool" where
  "rb_wf rb \<longleftrightarrow> buffer_size rb < 2 ^ 15 \<and> length (buffer_ptr rb) = buffer_size rb \<and>
     read_index rb < buffer_size rb \<and> write_index rb < buffer_size rb \<and>
     (if read_mirror rb = write_mirror rb then read_index rb \<le> write_index rb
      else write_index rb \<le> read_index rb)"

definition rb_data :: "rt_ringbuffer \<Rightarrow> u8 list" where
  "rb_data rb =
     (if read_mirror rb = write_mirror rb
      then drop (read_index rb) (take (write_index rb) (buffer_ptr rb))
      else drop (read_index rb) (buffer_ptr rb) @ take (write_index rb) (buffer_ptr rb))"

lemma index15_id [simp]: "n < 2 ^ 15 \<Longrightarrow> index15 n = n"
  by (simp add: index15_def)

lemma length_rb_data: "rb_wf rb \<Longrightarrow> length (rb_data rb) = rt_ringbuffer_data_len rb"
  by (auto simp: rb_wf_def rb_data_def rt_ringbuffer_data_len_def rt_ringbuffer_status_def
      split: rt_ringbuffer_state.split if_split_asm)

lemma data_len_le: "rb_wf rb \<Longrightarrow> rt_ringbuffer_data_len rb \<le> buffer_size rb"
  by (auto simp: rb_wf_def rt_ringbuffer_data_len_def rt_ringbuffer_status_def
      split: rt_ringbuffer_state.split if_split_asm)

lemma data_len_cases:
  "rb_wf rb \<Longrightarrow> rt_ringbuffer_data_len rb =
     (if read_mirror rb = write_mirror rb then write_index rb - read_index rb
      else buffer_size rb - read_index rb + write_index rb)"
  by (auto simp: rb_wf_def rt_ringbuffer_data_len_def rt_ringbuffer_status_def
      split: rt_ringbuffer_state.split if_split_asm)

lemma length_pool_write [simp]:
  "i + length ys \<le> length xs \<Longrightarrow> length (pool_write xs i ys) = length xs"
  by (simp add: pool_write_def)

lemma take_pool_write_before: "j \<le> i \<Longrightarrow> i \<le> length xs \<Longrightarrow> take j (pool_write xs i ys) = take j xs"
  by (simp add: pool_write_def min_def)

lemma drop_pool_write_after:
  "i + length ys \<le> j \<Longrightarrow> i \<le> length xs \<Longrightarrow> drop j (pool_write xs i ys) = drop j xs"
  by (simp add: pool_write_def)

lemma put_same_mirror:
  assumes wf: "rb_wf rb" and len: "len \<le> length ptr" "0 < len"
    "len \<le> buffer_size rb - (write_index rb - read_index rb)"
    and m: "read_mirror rb = write_mirror rb"
    and put: "rt_ringbuffer_put rb ptr len = (rb', n)"
  shows "rb_wf rb' \<and> n = len \<and> buffer_size rb' = buffer_size rb \<and>
    rb_data rb' = rb_data rb @ take len ptr"
proof -
  obtain N where N: "buffer_size rb = N" "length (buffer_ptr rb) = N" "N < 2 ^ 15"
    "read_index rb \<le> write_index rb" "write_index rb < N"
    using wf m by (auto simp: rb_wf_def)
  have sp: "rt_ringbuffer_space_len rb = N - (write_index rb - read_index rb)"
    using N m data_len_cases [OF wf] by (simp add: rt_ringbuffer_space_len_def)
  show ?thesis
  proof (cases "write_index rb + len < N")
    case True
    then have "rb' = rb\<lparr>buffer_ptr := pool_write (buffer_ptr rb) (write_index rb) (take len ptr),
        write_index := write_index rb + len\<rparr>" "n = len"
      using put len N by (auto simp: rt_ringbuffer_put_def sp Let_def)
    then show ?thesis
      using N True len m by (simp add: rb_wf_def rb_data_def pool_write_def)
  next
    case False
    let ?k = "N - write_index rb"
    from False have "rb' = rb\<lparr>buffer_ptr := pool_write (pool_write (buffer_ptr rb) (write_index rb)
          (take ?k ptr)) 0 (take (len - ?k) (drop ?k ptr)),
        write_mirror := \<not> write_mirror rb, write_index := len - ?k\<rparr>" "n = len"
      using put len N by (auto simp: rt_ringbuffer_put_def sp Let_def)
    moreover have "len - ?k \<le> read_index rb" "?k \<le> len" "?k + write_index rb = N"
      using len N False by linarith+
    moreover have "take ?k ptr @ take (len - ?k) (drop ?k ptr) = take len ptr"
      using \<open>?k \<le> len\<close> by (metis le_add_diff_inverse take_add)
    ultimately show ?thesis
      using N len m by (simp add: rb_wf_def rb_data_def pool_write_def)
  qed
qed

lemma put_other_mirror:
  assumes wf: "rb_wf rb" and len: "len \<le> length ptr" "0 < len"
    "len \<le> read_index rb - write_index rb"
    and m: "read_mirror rb \<noteq> write_mirror rb"
    and put: "rt_ringbuffer_put rb ptr len = (rb', n)"
  shows "rb_wf rb' \<and> n = len \<and> buffer_size rb' = buffer_size rb \<and>
    rb_data rb' = rb_data rb @ take len ptr"
proof -
  obtain N where N: "buffer_size rb = N" "length (buffer_ptr rb) = N" "N < 2 ^ 15"
    "write_index rb \<le> read_index rb" "read_index rb < N"
    using wf m by (auto simp: rb_wf_def)
  have sp: "rt_ringbuffer_space_len rb = read_index rb - write_index rb"
    using N m data_len_cases [OF wf] by (simp add: rt_ringbuffer_space_len_def)
  have "write_index rb + len < N" "read_index rb - write_index rb \<noteq> 0"
    "\<not> read_index rb - write_index rb < len" using N len by linarith+
  then have "rb' = rb\<lparr>buffer_ptr := pool_write (buffer_ptr rb) (write_index rb) (take len ptr),
      write_index := write_index rb + len\<rparr>" "n = len"
    using put len N by (auto simp: rt_ringbuffer_put_def sp Let_def)
  moreover have "write_index rb + len < N" "write_index rb + len \<le> read_index rb" using N len by linarith+
  ultimately show ?thesis
    using N len m by (simp add: rb_wf_def rb_data_def pool_write_def)
qed

lemma put_clip:
  "rt_ringbuffer_put rb ptr len = rt_ringbuffer_put rb ptr (min len (rt_ringbuffer_space_len rb))"
  by (auto simp: rt_ringbuffer_put_def Let_def min_def)

lemma put_zero:
  assumes "rb_wf rb"
  shows "rt_ringbuffer_put rb ptr 0 = (rb, 0)"
  using assms by (auto simp: rt_ringbuffer_put_def Let_def rb_wf_def pool_write_def)

lemma put_refines:
  assumes wf: "rb_wf rb" and len: "len \<le> length ptr"
    and put: "rt_ringbuffer_put rb ptr len = (rb', n)"
  shows "rb_wf rb' \<and> n = min len (rt_ringbuffer_space_len rb) \<and> buffer_size rb' = buffer_size rb \<and>
    rb_data rb' = rb_data rb @ take n ptr"
proof -
  let ?l = "min len (rt_ringbuffer_space_len rb)"
  have put': "rt_ringbuffer_put rb ptr ?l = (rb', n)" using put put_clip by metis
  have l: "?l \<le> length ptr" using len by simp
  have sp: "rt_ringbuffer_space_len rb =
      (if read_mirror rb = write_mirror rb then buffer_size rb - (write_index rb - read_index rb)
       else read_index rb - write_index rb)"
    using data_len_cases [OF wf] wf by (auto simp: rt_ringbuffer_space_len_def rb_wf_def)
  consider "?l = 0" | "0 < ?l" "read_mirror rb = write_mirror rb" | "0 < ?l" "read_mirror rb \<noteq> write_mirror rb"
    by blast
  then show ?thesis
  proof cases
    case 1
    with put' put_zero [OF wf, of ptr] wf show ?thesis by simp
  next
    case 2
    then show ?thesis using put_same_mirror [OF wf l 2(1) _ 2(2) put'] sp by simp
  next
    case 3
    then show ?thesis using put_other_mirror [OF wf l 3(1) _ 3(2) put'] sp by simp
  qed
qed

lemma get_refines:
  assumes wf: "rb_wf rb" and get: "rt_ringbuffer_get rb len = (rb', out)"
  shows "rb_wf rb' \<and> buffer_size rb' = buffer_size rb \<and>
    out = take len (rb_data rb) \<and> rb_data rb' = drop len (rb_data rb)"
proof (cases "rt_ringbuffer_data_len rb = 0")
  case True
  with length_rb_data [OF wf] get wf show ?thesis by (auto simp: rt_ringbuffer_get_def)
next
  case False
  define l where "l = min len (rt_ringbuffer_data_len rb)"
  have "take l (rb_data rb) = take len (rb_data rb)" "drop l (rb_data rb) = drop len (rb_data rb)"
    using length_rb_data [OF wf] by (auto simp: l_def min_def)
  moreover obtain N where N: "buffer_size rb = N" "length (buffer_ptr rb) = N" "N < 2 ^ 15"
    "write_index rb < N" "read_index rb < N" using wf by (auto simp: rb_wf_def)
  moreover have "rb_wf rb' \<and> buffer_size rb' = buffer_size rb \<and>
      out = take l (rb_data rb) \<and> rb_data rb' = drop l (rb_data rb)"
  proof (cases "read_index rb + l < N")
    case True
    then have "rb' = rb\<lparr>read_index := read_index rb + l\<rparr>"
      "out = take l (drop (read_index rb) (buffer_ptr rb))"
      using get N False by (auto simp: rt_ringbuffer_get_def Let_def l_def min_def split: if_splits)
    moreover have "if read_mirror rb = write_mirror rb then l \<le> write_index rb - read_index rb
        else l \<le> N - read_index rb + write_index rb"
      using data_len_cases [OF wf] N by (simp add: l_def)
    ultimately show ?thesis
      using wf N True by (auto simp: rb_wf_def rb_data_def min_def drop_take add.commute split: if_splits)
  next
    case wrap: False
    let ?k = "N - read_index rb"
    have "rb' = rb\<lparr>read_mirror := \<not> read_mirror rb, read_index := l - ?k\<rparr>"
      "out = take ?k (drop (read_index rb) (buffer_ptr rb)) @ take (l - ?k) (buffer_ptr rb)"
      using get N False wrap data_len_le [OF wf]
      by (auto simp: rt_ringbuffer_get_def Let_def l_def min_def split: if_splits)
    moreover have "read_mirror rb \<noteq> write_mirror rb" "l - ?k \<le> write_index rb" "?k \<le> l"
      using data_len_cases [OF wf] N wf wrap by (auto simp: l_def rb_wf_def split: if_splits)
    ultimately show ?thesis
      using wf N by (auto simp: rb_wf_def rb_data_def)
  qed
  ultimately show ?thesis by simp
qed

lemma putchar_eq_put:
  assumes wf: "rb_wf rb"
  shows "rt_ringbuffer_putchar rb ch = rt_ringbuffer_put rb [ch] 1"
proof (cases "rt_ringbuffer_space_len rb = 0")
  case True
  then show ?thesis by (simp add: rt_ringbuffer_putchar_def rt_ringbuffer_put_def)
next
  case False
  have w: "write_index rb < length (buffer_ptr rb)" "buffer_size rb = length (buffer_ptr rb)"
    using wf by (auto simp: rb_wf_def)
  have upd: "pool_write (buffer_ptr rb) (write_index rb) [ch] = (buffer_ptr rb)[write_index rb := ch]"
    "pool_write xs 0 [] = xs" for xs
    using w by (simp_all add: pool_write_def upd_conv_take_nth_drop)
  have "int (write_index rb) = int (buffer_size rb) - 1 \<longleftrightarrow> \<not> int (buffer_size rb) - int (write_index rb) > 1"
    using w by linarith
  with False w show ?thesis
    by (auto simp: rt_ringbuffer_putchar_def rt_ringbuffer_put_def Let_def upd index15_def)
qed

lemma getchar_eq_get:
  assumes wf: "rb_wf rb"
  shows "rt_ringbuffer_getchar rb = (let (rb', out) = rt_ringbuffer_get rb 1
    in (rb', if out = [] then None else Some (hd out)))"
proof (cases "rt_ringbuffer_data_len rb = 0")
  case True
  then show ?thesis by (simp add: rt_ringbuffer_getchar_def rt_ringbuffer_get_def)
next
  case False
  have r: "read_index rb < length (buffer_ptr rb)" "buffer_size rb = length (buffer_ptr rb)"
    using wf by (auto simp: rb_wf_def)
  have "int (read_index rb) = int (buffer_size rb) - 1 \<longleftrightarrow> \<not> int (buffer_size rb) - int (read_index rb) > 1"
    using r by linarith
  with False r show ?thesis
    by (auto simp: rt_ringbuffer_getchar_def rt_ringbuffer_get_def Let_def index15_def hd_drop_conv_nth)
qed

lemma putchar_refines:
  assumes "rb_wf rb" and "rt_ringbuffer_putchar rb ch = (rb', n)"
  shows "rb_wf rb' \<and> buffer_size rb' = buffer_size rb \<and>
    (if length (rb_data rb) < buffer_size rb then n = 1 \<and> rb_data rb' = rb_data rb @ [ch]
     else n = 0 \<and> rb' = rb)"
proof (cases "rt_ringbuffer_space_len rb = 0")
  case True
  with assms length_rb_data [of rb] show ?thesis
    by (auto simp: rt_ringbuffer_space_len_def rt_ringbuffer_putchar_def)
next
  case False
  with put_refines [of rb 1 "[ch]" rb' n] assms putchar_eq_put [of rb ch] length_rb_data [of rb]
  show ?thesis by (auto simp: rt_ringbuffer_space_len_def min_def)
qed

lemma getchar_refines:
  assumes "rb_wf rb" and "rt_ringbuffer_getchar rb = (rb', r)"
  shows "rb_wf rb' \<and> buffer_size rb' = buffer_size rb \<and>
    (case rb_data rb of [] \<Rightarrow> r = None \<and> rb' = rb | x # xs \<Rightarrow> r = Some x \<and> rb_data rb' = xs)"
proof -
  obtain rb1 out where g: "rt_ringbuffer_get rb 1 = (rb1, out)" by fastforce
  show ?thesis
    using get_refines [OF assms(1) g] g assms getchar_eq_get [OF assms(1)] length_rb_data [OF assms(1)]
    by (auto simp: Let_def rt_ringbuffer_getchar_def split: list.split)
qed

lemma rb_full_iff:
  "rb_wf rb \<Longrightarrow> rt_ringbuffer_status rb = RT_RINGBUFFER_FULL \<longleftrightarrow> length (rb_data rb) = buffer_size rb"
  by (auto simp: length_rb_data data_len_cases rt_ringbuffer_status_def rb_wf_def split: if_splits)

lemma putchar_force_not_full:
  assumes "rb_wf rb" and "rt_ringbuffer_status rb \<noteq> RT_RINGBUFFER_FULL"
  shows "rt_ringbuffer_putchar_force rb ch = rt_ringbuffer_putchar rb ch"
proof -
  have "rt_ringbuffer_space_len rb \<noteq> 0"
    using assms rb_full_iff [of rb] data_len_le [of rb] length_rb_data [of rb]
    by (simp add: rt_ringbuffer_space_len_def)
  with assms show ?thesis
    by (simp add: rt_ringbuffer_putchar_force_def rt_ringbuffer_putchar_def Let_def)
qed

lemma putchar_force_full:
  assumes wf: "rb_wf rb" and full: "rt_ringbuffer_status rb = RT_RINGBUFFER_FULL"
    and pf: "rt_ringbuffer_putchar_force rb ch = (rb', n)"
  shows "rb_wf rb' \<and> buffer_size rb' = buffer_size rb \<and> n = 1 \<and> rb_data rb' = tl (rb_data rb) @ [ch]"
proof -
  have m: "read_mirror rb \<noteq> write_mirror rb" "read_index rb = write_index rb"
    using full by (auto simp: rt_ringbuffer_status_def split: if_splits)
  have w: "write_index rb < length (buffer_ptr rb)" "buffer_size rb = length (buffer_ptr rb)"
      "length (buffer_ptr rb) < 2 ^ 15"
    using wf by (auto simp: rb_wf_def)
  have dr: "drop (write_index rb) (buffer_ptr rb) =
      buffer_ptr rb ! write_index rb # drop (Suc (write_index rb)) (buffer_ptr rb)"
    using Cons_nth_drop_Suc [OF w(1)] by simp
  show ?thesis
  proof (cases "write_index rb = length (buffer_ptr rb) - 1")
    case True
    with w have "int (write_index rb) = int (buffer_size rb) - 1" by linarith
    then have "rb' = rb\<lparr>buffer_ptr := (buffer_ptr rb)[write_index rb := ch],
        write_mirror := \<not> write_mirror rb, write_index := 0,
        read_mirror := \<not> read_mirror rb, read_index := 0\<rparr>" "n = 1"
      using pf full by (auto simp: rt_ringbuffer_putchar_force_def Let_def)
    moreover obtain xs x where "buffer_ptr rb = xs @ [x]" using w by (cases "buffer_ptr rb" rule: rev_cases) auto
    ultimately show ?thesis
      using True m w wf by (simp add: rb_wf_def rb_data_def)
  next
    case False
    with w have "int (write_index rb) \<noteq> int (buffer_size rb) - 1" by linarith
    then have "rb' = rb\<lparr>buffer_ptr := (buffer_ptr rb)[write_index rb := ch],
        write_index := Suc (write_index rb), read_index := Suc (write_index rb)\<rparr>" "n = 1"
      using pf full w by (auto simp: rt_ringbuffer_putchar_force_def Let_def)
    with False m w wf show ?thesis
      by (auto simp: rb_wf_def rb_data_def dr take_Suc_conv_app_nth)
  qed
qed

section \<open>The bounded queue interface\<close>

datatype 'a fifo_op = Push 'a | Pop

text \<open>A run of single-element operations, with what each call returned: \<open>Inl\<close> the number of
  accepted elements, \<open>Inr\<close> the removed element.\<close>

fun fifo_run :: "('s \<Rightarrow> 'a \<Rightarrow> 's \<times> nat) \<Rightarrow> ('s \<Rightarrow> 's \<times> 'a option) \<Rightarrow> 's \<Rightarrow> 'a fifo_op list \<Rightarrow>
    's \<times> (nat + 'a option) list" where
  "fifo_run push pop s [] = (s, [])"
| "fifo_run push pop s (Push x # ops) =
     (let (s1, n) = push s x; (s2, rs) = fifo_run push pop s1 ops in (s2, Inl n # rs))"
| "fifo_run push pop s (Pop # ops) =
     (let (s1, r) = pop s; (s2, rs) = fifo_run push pop s1 ops in (s2, Inr r # rs))"

definition queue_push :: "nat \<Rightarrow> 'a list \<Rightarrow> 'a \<Rightarrow> 'a list \<times> nat" where
  "queue_push cap q x = (if length q < cap then (q @ [x], 1) else (q, 0))"

definition queue_pop :: "'a list \<Rightarrow> 'a list \<times> 'a option" where
  "queue_pop q = (case q of [] \<Rightarrow> ([], None) | x # xs \<Rightarrow> (xs, Some x))"

locale bounded_fifo =
  fixes inv :: "'s \<Rightarrow> bool" and contents :: "'s \<Rightarrow> 'a list" and capacity :: "'s \<Rightarrow> nat"
    and push :: "'s \<Rightarrow> 'a \<Rightarrow> 's \<times> nat" and pop :: "'s \<Rightarrow> 's \<times> 'a option"
  assumes push_law: "inv s \<Longrightarrow> push s x = (s', n) \<Longrightarrow>
      inv s' \<and> capacity s' = capacity s \<and> queue_push (capacity s) (contents s) x = (contents s', n)"
    and pop_law: "inv s \<Longrightarrow> pop s = (s', r) \<Longrightarrow>
      inv s' \<and> capacity s' = capacity s \<and> queue_pop (contents s) = (contents s', r)"
begin

lemma run_simulates:
  "inv s \<Longrightarrow> fifo_run push pop s ops = (s', rs) \<Longrightarrow>
     inv s' \<and> capacity s' = capacity s \<and>
     fifo_run (queue_push (capacity s)) queue_pop (contents s) ops = (contents s', rs)"
proof (induction ops arbitrary: s rs)
  case (Cons op ops)
  show ?case
  proof (cases op)
    case (Push x)
    obtain s1 n s2 rs2 where e: "push s x = (s1, n)" "fifo_run push pop s1 ops = (s2, rs2)"
      by (metis surj_pair)
    with Push Cons.prems Cons.IH [of s1 rs2] push_law [OF Cons.prems(1) e(1)] show ?thesis by auto
  next
    case Pop
    obtain s1 r s2 rs2 where e: "pop s = (s1, r)" "fifo_run push pop s1 ops = (s2, rs2)"
      by (metis surj_pair)
    with Pop Cons.prems Cons.IH [of s1 rs2] pop_law [OF Cons.prems(1) e(1)] show ?thesis by auto
  qed
qed simp

end

interpretation rb: bounded_fifo rb_wf rb_data buffer_size rt_ringbuffer_putchar rt_ringbuffer_getchar
proof
  show "rb_wf s' \<and> buffer_size s' = buffer_size s \<and>
      queue_push (buffer_size s) (rb_data s) x = (rb_data s', n)"
    if "rb_wf s" "rt_ringbuffer_putchar s x = (s', n)" for s x s' n
    using putchar_refines [OF that] by (auto simp: queue_push_def)
  show "rb_wf s' \<and> buffer_size s' = buffer_size s \<and> queue_pop (rb_data s) = (rb_data s', r)"
    if "rb_wf s" "rt_ringbuffer_getchar s = (s', r)" for s s' r
    using getchar_refines [OF that] by (auto simp: queue_pop_def split: list.splits)
qed

lemma rb_wf_init:
  assumes "4 dvd sz" and "0 < sz" and "sz < 2 ^ 15" and "length pool = sz"
  shows "rb_wf (rt_ringbuffer_init pool sz) \<and> rb_data (rt_ringbuffer_init pool sz) = [] \<and>
    buffer_size (rt_ringbuffer_init pool sz) = sz"
proof -
  have "RT_ALIGN_DOWN sz 4 = sz" using assms(1) by (simp add: RT_ALIGN_DOWN_def)
  with assms show ?thesis by (simp add: rt_ringbuffer_init_def rb_wf_def rb_data_def)
qed

section \<open>Properties\<close>

text \<open>
  From \<open>rt_ringbuffer_init\<close> on a pool of aligned size, every sequence of
  \<open>rt_ringbuffer_putchar\<close> and \<open>rt_ringbuffer_getchar\<close> calls returns what a bounded
  first-in-first-out queue of that capacity returns, and keeps the index and mirror
  invariant.
\<close>

theorem ringbuffer_refines_queue:
  assumes "4 dvd sz" and "0 < sz" and "sz < 2 ^ 15" and "length pool = sz"
    and "fifo_run rt_ringbuffer_putchar rt_ringbuffer_getchar (rt_ringbuffer_init pool sz) ops = (rb', rs)"
  shows "rb_wf rb' \<and> fifo_run (queue_push sz) queue_pop [] ops = (rb_data rb', rs)"
  using rb.run_simulates [OF _ assms(5)] rb_wf_init [OF assms(1-4)] by simp

theorem ringbuffer_refines_queue_witness:
  "snd (fifo_run rt_ringbuffer_putchar rt_ringbuffer_getchar (rt_ringbuffer_init [0, 0, 0, 0] 4)
     [Push 1, Push 2, Pop, Push 3, Push 4, Push 5, Push 6, Pop, Pop]) =
   [Inl 1, Inl 1, Inr (Some 1), Inl 1, Inl 1, Inl 1, Inl 0, Inr (Some 2), Inr (Some 3)]"
proof -
  let ?ops = "[Push 1, Push 2, Pop, Push 3, Push 4, Push 5, Push 6, Pop, Pop]"
  obtain rb' rs where "fifo_run rt_ringbuffer_putchar rt_ringbuffer_getchar
      (rt_ringbuffer_init [0, 0, 0, 0] 4) ?ops = (rb', rs)" by fastforce
  with ringbuffer_refines_queue [OF _ _ _ _ this] show ?thesis
    by (simp add: queue_push_def queue_pop_def)
qed

text \<open>
  \<open>rt_ringbuffer_put\<close> appends as much of the block as fits and reports that count,
  and \<open>rt_ringbuffer_get\<close> after it removes the oldest bytes in order, whatever the split at
  the end of the pool.
\<close>

theorem ringbuffer_put_get:
  assumes "rb_wf rb" and "len \<le> length ptr"
    and "rt_ringbuffer_put rb ptr len = (rb1, n)" and "rt_ringbuffer_get rb1 k = (rb2, out)"
  shows "n = min len (rt_ringbuffer_space_len rb) \<and>
    out = take k (rb_data rb @ take n ptr) \<and> rb_data rb2 = drop k (rb_data rb @ take n ptr) \<and> rb_wf rb2"
  using put_refines [OF assms(1-3)] get_refines [OF _ assms(4)] by simp

definition rb_sample :: rt_ringbuffer where
  "rb_sample = \<lparr>buffer_ptr = [10, 11, 12, 13], read_mirror = False, read_index = 2,
     write_mirror = False, write_index = 3, buffer_size = 4\<rparr>"

lemma rb_wf_sample: "rb_wf rb_sample"
  by (simp add: rb_sample_def rb_wf_def)

lemmas rb_ops = rt_ringbuffer_put_def rt_ringbuffer_get_def rt_ringbuffer_put_force_def
  rt_ringbuffer_putchar_force_def rt_ringbuffer_space_len_def rt_ringbuffer_data_len_def
  rt_ringbuffer_status_def pool_write_def rb_data_def

theorem ringbuffer_put_get_witness:
  "snd (rt_ringbuffer_get (fst (rt_ringbuffer_put rb_sample [1, 2, 3, 4, 5] 5)) 3) = [12, 1, 2]"
proof -
  obtain rb1 n where p: "rt_ringbuffer_put rb_sample [1, 2, 3, 4, 5] 5 = (rb1, n)" by fastforce
  obtain rb2 out where g: "rt_ringbuffer_get rb1 3 = (rb2, out)" by fastforce
  from p g ringbuffer_put_get [OF rb_wf_sample _ p g] show ?thesis
    by (simp add: rb_ops rb_sample_def)
qed

text \<open>
  \<open>rt_ringbuffer_putchar_force\<close> always accepts the byte; on a full buffer it drops
  exactly the oldest byte.
\<close>

theorem ringbuffer_putchar_force:
  assumes "rb_wf rb" and "rt_ringbuffer_putchar_force rb ch = (rb', n)"
  shows "rb_wf rb' \<and> n = 1 \<and>
    rb_data rb' = (if length (rb_data rb) = buffer_size rb then tl (rb_data rb) else rb_data rb) @ [ch]"
proof (cases "rt_ringbuffer_status rb = RT_RINGBUFFER_FULL")
  case True
  with putchar_force_full [OF assms(1) True assms(2)] rb_full_iff [OF assms(1)] show ?thesis by simp
next
  case False
  with putchar_refines [of rb ch rb' n] putchar_force_not_full [OF assms(1) False, of ch] assms
    rb_full_iff [OF assms(1)] data_len_le [OF assms(1)] length_rb_data [OF assms(1)]
  show ?thesis by simp
qed

theorem ringbuffer_putchar_force_witness:
  "rb_data (fst (rt_ringbuffer_putchar_force (rb_sample\<lparr>write_mirror := True, write_index := 2\<rparr>) 9)) =
     [13, 10, 11, 9]"
proof -
  let ?rb = "rb_sample\<lparr>write_mirror := True, write_index := 2\<rparr>"
  obtain rb' n where f: "rt_ringbuffer_putchar_force ?rb 9 = (rb', n)" by fastforce
  have "rb_wf ?rb" by (simp add: rb_sample_def rb_wf_def)
  from f ringbuffer_putchar_force [OF this f] show ?thesis
    by (simp add: rb_data_def rb_sample_def)
qed

text \<open>
  When the unread data lie in one mirror and a block that fits the pool but not the
  free space wraps, \<open>rt_ringbuffer_put_force\<close> flips the read mirror as well as the write
  mirror, so the buffer reports empty: the block it says it wrote is lost, where its comment
  promises to discard the old data only.
\<close>

theorem ringbuffer_put_force_loses_block:
  assumes "rb_wf rb" and "read_mirror rb = write_mirror rb" and "len \<le> length ptr"
    and "rt_ringbuffer_space_len rb < len" and "len \<le> buffer_size rb"
    and "rt_ringbuffer_put_force rb ptr len = (rb', n)"
  shows "n = len \<and> rt_ringbuffer_status rb' = RT_RINGBUFFER_EMPTY \<and> rb_data rb' = []"
proof -
  have "buffer_size rb - write_index rb \<le> rt_ringbuffer_space_len rb"
    using assms(1,2) data_len_cases [OF assms(1)] by (auto simp: rt_ringbuffer_space_len_def rb_wf_def)
  with assms have "\<not> int (buffer_size rb) - int (write_index rb) > int len" "\<not> len > buffer_size rb"
    by linarith+
  with assms have "n = len" "read_mirror rb' = write_mirror rb'" "read_index rb' = write_index rb'"
    by (auto simp: rt_ringbuffer_put_force_def Let_def)
  then show ?thesis by (simp add: rt_ringbuffer_status_def rb_data_def)
qed

theorem ringbuffer_put_force_loses_block_witness:
  "rb_data (fst (rt_ringbuffer_put_force rb_sample [1, 2, 3, 4] 4)) = []"
proof -
  obtain rb' n where f: "rt_ringbuffer_put_force rb_sample [1, 2, 3, 4] 4 = (rb', n)" by fastforce
  from f ringbuffer_put_force_loses_block [OF rb_wf_sample _ _ _ _ f] show ?thesis
    by (simp add: rb_ops rb_sample_def)
qed

end
