(* ===== verification/Rt_Mem.thy ===== *)
theory Rt_Mem
  imports Rt_Kservice
begin

text \<open>
  The heap of the kernel (\<open>rt-thread/src/mem.c\<close>): first fit over a doubly linked list of
  blocks, each with a header of twelve bytes. Headers are addressed by their offset from
  \<open>heap_ptr\<close> and held apart from the data bytes; pointers are absolute addresses, \<open>None\<close> is
  \<open>RT_NULL\<close>. Offsets are numbers below \<open>2 ^ 32\<close>; the subtractions of \<open>rt_size_t\<close> that could
  wrap are written with \<open>usub\<close>. The heap semaphore is held from the beginning to the end of
  each search, so an operation is one step. A failed \<open>RT_ASSERT\<close> stops the thread: it is
  \<open>None\<close>, as is a search that does not end.
\<close>

section \<open>Blocks\<close>

definition HEAP_MAGIC :: u16 where "HEAP_MAGIC = 0x1ea0"
definition MIN_SIZE :: nat where "MIN_SIZE = 12"
definition MIN_SIZE_ALIGNED :: nat where "MIN_SIZE_ALIGNED = 12"
definition SIZEOF_STRUCT_MEM :: nat where "SIZEOF_STRUCT_MEM = 12"

lemmas mem_sizes [simp] = MIN_SIZE_def MIN_SIZE_ALIGNED_def SIZEOF_STRUCT_MEM_def

record heap_mem =
  hm_magic :: u16
  hm_used :: u16
  hm_next :: nat
  hm_prev :: nat

record rt_heap =
  hdr :: "nat \<Rightarrow> heap_mem"
  heap_ptr :: nat
  heap_end :: nat
  lfree :: nat
  mem_size_aligned :: nat
  used_mem :: u32
  max_mem :: u32

definition set_hdr :: "nat \<Rightarrow> (heap_mem \<Rightarrow> heap_mem) \<Rightarrow> rt_heap \<Rightarrow> rt_heap" where
  "set_hdr p f h = h\<lparr>hdr := (hdr h)(p := f (hdr h p))\<rparr>"

definition usub :: "nat \<Rightarrow> nat \<Rightarrow> nat" where
  "usub a b = unat (of_nat a - of_nat b :: u32)"

definition rt_system_heap_init :: "u32 \<Rightarrow> u32 \<Rightarrow> rt_heap \<Rightarrow> rt_heap" where
  "rt_system_heap_init begin_addr end_addr h =
     (let begin_align = RT_ALIGN begin_addr; end_align = end_addr AND NOT (4 - 1) in
      if end_align > 24 \<and> end_align - 24 \<ge> begin_align
      then let sz = unat (end_align - begin_align - 24);
               e = sz + SIZEOF_STRUCT_MEM
        in h\<lparr>mem_size_aligned := sz, heap_ptr := unat begin_align,
             hdr := (hdr h)(0 := \<lparr>hm_magic = HEAP_MAGIC, hm_used = 0, hm_next = e, hm_prev = 0\<rparr>,
                            e := \<lparr>hm_magic = HEAP_MAGIC, hm_used = 1, hm_next = e, hm_prev = e\<rparr>),
             heap_end := e, lfree := 0\<rparr>
      else h)"

section \<open>Joining free neighbours\<close>

definition plug_forward :: "nat \<Rightarrow> rt_heap \<Rightarrow> rt_heap" where
  "plug_forward mem h =
     (let nmem = hm_next (hdr h mem) in
      if mem \<noteq> nmem \<and> hm_used (hdr h nmem) = 0 \<and> nmem \<noteq> heap_end h
      then let h1 = (if lfree h = nmem then h\<lparr>lfree := mem\<rparr> else h);
               nn = hm_next (hdr h1 nmem);
               h2 = set_hdr mem (\<lambda>b. b\<lparr>hm_next := nn\<rparr>) h1
        in set_hdr nn (\<lambda>b. b\<lparr>hm_prev := mem\<rparr>) h2
      else h)"

definition plug_backward :: "nat \<Rightarrow> rt_heap \<Rightarrow> rt_heap" where
  "plug_backward mem h =
     (let pmem = hm_prev (hdr h mem) in
      if pmem \<noteq> mem \<and> hm_used (hdr h pmem) = 0
      then let h1 = (if lfree h = mem then h\<lparr>lfree := pmem\<rparr> else h);
               n = hm_next (hdr h1 mem);
               h2 = set_hdr pmem (\<lambda>b. b\<lparr>hm_next := n\<rparr>) h1
        in set_hdr n (\<lambda>b. b\<lparr>hm_prev := pmem\<rparr>) h2
      else h)"

definition plug_holes :: "nat \<Rightarrow> rt_heap \<Rightarrow> rt_heap option" where
  "plug_holes mem h =
     (if mem < heap_end h \<and> hm_used (hdr h mem) = 0
      then Some (plug_backward mem (plug_forward mem h)) else None)"

section \<open>Allocation\<close>

text \<open>The search from the lowest free block; \<open>Some None\<close> is the end of the loop without a find.\<close>

partial_function (option) malloc_search :: "rt_heap \<Rightarrow> nat \<Rightarrow> nat \<Rightarrow> nat option option" where
  "malloc_search h sz ptr =
     (if ptr < usub (mem_size_aligned h) sz
      then if hm_used (hdr h ptr) = 0 \<and> usub (hm_next (hdr h ptr)) (ptr + SIZEOF_STRUCT_MEM) \<ge> sz
        then Some (Some ptr)
        else malloc_search h sz (hm_next (hdr h ptr))
      else Some None)"

partial_function (option) lfree_advance :: "rt_heap \<Rightarrow> nat \<Rightarrow> nat option" where
  "lfree_advance h p =
     (if hm_used (hdr h p) \<noteq> 0 \<and> p \<noteq> heap_end h then lfree_advance h (hm_next (hdr h p)) else Some p)"

definition count_used :: "nat \<Rightarrow> rt_heap \<Rightarrow> rt_heap" where
  "count_used n h = (let u = used_mem h + of_nat n
     in h\<lparr>used_mem := u, max_mem := (if max_mem h < u then u else max_mem h)\<rparr>)"

definition malloc_take :: "nat \<Rightarrow> nat \<Rightarrow> rt_heap \<Rightarrow> rt_heap" where
  "malloc_take ptr sz h =
     (let n = hm_next (hdr h ptr);
          h1 = (if usub n (ptr + SIZEOF_STRUCT_MEM) \<ge> sz + SIZEOF_STRUCT_MEM + MIN_SIZE_ALIGNED
             then let ptr2 = ptr + SIZEOF_STRUCT_MEM + sz;
                      s1 = set_hdr ptr2 (\<lambda>_. \<lparr>hm_magic = HEAP_MAGIC, hm_used = 0, hm_next = n, hm_prev = ptr\<rparr>) h;
                      s2 = set_hdr ptr (\<lambda>b. b\<lparr>hm_next := ptr2, hm_used := 1\<rparr>) s1;
                      s3 = (if n \<noteq> mem_size_aligned h + SIZEOF_STRUCT_MEM
                            then set_hdr n (\<lambda>b. b\<lparr>hm_prev := ptr2\<rparr>) s2 else s2)
                  in count_used (sz + SIZEOF_STRUCT_MEM) s3
             else count_used (n - ptr) (set_hdr ptr (\<lambda>b. b\<lparr>hm_used := 1\<rparr>) h))
      in set_hdr ptr (\<lambda>b. b\<lparr>hm_magic := HEAP_MAGIC\<rparr>) h1)"

definition malloc_lfree :: "nat \<Rightarrow> rt_heap \<Rightarrow> rt_heap option" where
  "malloc_lfree ptr h =
     (if ptr = lfree h
      then case lfree_advance h (lfree h) of None \<Rightarrow> None
        | Some l \<Rightarrow> if l = heap_end h \<or> hm_used (hdr h l) = 0 then Some (h\<lparr>lfree := l\<rparr>) else None
      else Some h)"

definition malloc_size :: "u32 \<Rightarrow> nat" where
  "malloc_size sz = max (unat (RT_ALIGN sz)) MIN_SIZE_ALIGNED"

definition rt_malloc :: "u32 \<Rightarrow> rt_heap \<Rightarrow> (rt_heap \<times> nat option) option" where
  "rt_malloc sz h =
     (if sz = 0 \<or> unat (RT_ALIGN sz) > mem_size_aligned h then Some (h, None)
      else let n = malloc_size sz in
        case malloc_search h n (lfree h) of
          None \<Rightarrow> None
        | Some None \<Rightarrow> Some (h, None)
        | Some (Some ptr) \<Rightarrow>
            (case malloc_lfree ptr (malloc_take ptr n h) of None \<Rightarrow> None
             | Some h1 \<Rightarrow>
                 if ptr + SIZEOF_STRUCT_MEM + n \<le> heap_end h1 \<and>
                    (heap_ptr h1 + ptr + SIZEOF_STRUCT_MEM) mod 4 = 0 \<and> (heap_ptr h1 + ptr) mod 4 = 0
                 then Some (h1, Some (heap_ptr h1 + ptr + SIZEOF_STRUCT_MEM)) else None))"

section \<open>Release and resizing\<close>

text \<open>A pointer into the first header of the heap gives a block before the heap: the assertions
  of \<open>rt_free\<close> and \<open>plug_holes\<close> refuse it.\<close>

definition rt_free :: "nat option \<Rightarrow> rt_heap \<Rightarrow> rt_heap option" where
  "rt_free rmem h =
     (case rmem of None \<Rightarrow> Some h
      | Some r \<Rightarrow>
          if r mod 4 = 0 \<and> heap_ptr h + SIZEOF_STRUCT_MEM \<le> r \<and> r < heap_ptr h + heap_end h
          then let mem = r - heap_ptr h - SIZEOF_STRUCT_MEM; b = hdr h mem in
            if hm_used b \<noteq> 0 \<and> hm_magic b = HEAP_MAGIC
            then let h1 = set_hdr mem (\<lambda>b. b\<lparr>hm_used := 0, hm_magic := HEAP_MAGIC\<rparr>) h;
                     h2 = (if mem < lfree h1 then h1\<lparr>lfree := mem\<rparr> else h1);
                     h3 = h2\<lparr>used_mem := used_mem h2 - (of_nat (hm_next b) - of_nat mem)\<rparr>
              in plug_holes mem h3
            else None
          else None)"

definition realloc_split :: "nat \<Rightarrow> nat \<Rightarrow> nat \<Rightarrow> rt_heap \<Rightarrow> rt_heap option" where
  "realloc_split ptr sz newsize h =
     (let n = hm_next (hdr h ptr); ptr2 = ptr + SIZEOF_STRUCT_MEM + newsize;
          h1 = h\<lparr>used_mem := used_mem h - of_nat (sz - newsize)\<rparr>;
          h2 = set_hdr ptr2 (\<lambda>_. \<lparr>hm_magic = HEAP_MAGIC, hm_used = 0, hm_next = n, hm_prev = ptr\<rparr>) h1;
          h3 = set_hdr ptr (\<lambda>b. b\<lparr>hm_next := ptr2\<rparr>) h2;
          h4 = (if n \<noteq> mem_size_aligned h + SIZEOF_STRUCT_MEM
                then set_hdr n (\<lambda>b. b\<lparr>hm_prev := ptr2\<rparr>) h3 else h3)
      in plug_holes ptr2 h4)"

definition rt_realloc :: "nat option \<Rightarrow> u32 \<Rightarrow> rt_heap \<times> mem \<Rightarrow> ((rt_heap \<times> mem) \<times> nat option) option" where
  "rt_realloc rmem newsize = (\<lambda>(h, m).
     let ns = RT_ALIGN newsize; n = unat ns in
     if n > mem_size_aligned h then Some ((h, m), None)
     else if n = 0 then map_option (\<lambda>h1. ((h1, m), None)) (rt_free rmem h)
     else case rmem of
       None \<Rightarrow> map_option (\<lambda>(h1, p). ((h1, m), p)) (rt_malloc ns h)
     | Some r \<Rightarrow>
         if r < heap_ptr h \<or> heap_ptr h + heap_end h \<le> r then Some ((h, m), Some r)
         else if r < heap_ptr h + SIZEOF_STRUCT_MEM then None
         else let ptr = r - heap_ptr h - SIZEOF_STRUCT_MEM;
                  sz = usub (usub (hm_next (hdr h ptr)) ptr) SIZEOF_STRUCT_MEM in
           if sz = n then Some ((h, m), Some r)
           else if n + SIZEOF_STRUCT_MEM + MIN_SIZE < sz
           then map_option (\<lambda>h1. ((h1, m), Some r)) (realloc_split ptr sz n h)
           else case rt_malloc ns h of
               None \<Rightarrow> None
             | Some (h1, None) \<Rightarrow> Some ((h1, m), None)
             | Some (h1, Some nmem) \<Rightarrow>
                 map_option (\<lambda>h2. ((h2, rt_memcpy m nmem r (min sz n)), Some nmem)) (rt_free (Some r) h1))"

definition rt_calloc :: "u32 \<Rightarrow> u32 \<Rightarrow> rt_heap \<times> mem \<Rightarrow> ((rt_heap \<times> mem) \<times> nat option) option" where
  "rt_calloc count sz = (\<lambda>(h, m).
     case rt_malloc (count * sz) h of
       None \<Rightarrow> None
     | Some (h1, None) \<Rightarrow> Some ((h1, m), None)
     | Some (h1, Some p) \<Rightarrow> Some ((h1, rt_memset m p 0 (unat (count * sz))), Some p))"

definition rt_memory_info :: "rt_heap \<Rightarrow> nat \<times> u32 \<times> u32" where
  "rt_memory_info h = (mem_size_aligned h, used_mem h, max_mem h)"

section \<open>The chain of blocks\<close>

text \<open>\<open>os\<close> are the offsets of the headers in order, from 0 to the end block. Neighbours are linked
  both ways, except that nothing relies on \<open>prev\<close> of the end block; of two neighbours one is
  in use.\<close>

definition link :: "(nat \<Rightarrow> heap_mem) \<Rightarrow> nat \<Rightarrow> nat \<Rightarrow> nat \<Rightarrow> bool" where
  "link b e x y \<longleftrightarrow> hm_next (b x) = y \<and> x + 12 < y \<and> (y \<noteq> e \<longrightarrow> hm_prev (b y) = x)"

definition apart :: "(nat \<Rightarrow> heap_mem) \<Rightarrow> nat \<Rightarrow> nat \<Rightarrow> bool" where
  "apart b x y \<longleftrightarrow> hm_used (b x) \<noteq> 0 \<or> hm_used (b y) \<noteq> 0"

definition block_ok :: "heap_mem \<Rightarrow> bool" where
  "block_ok b \<longleftrightarrow> hm_magic b = HEAP_MAGIC \<and> (hm_used b = 0 \<or> hm_used b = 1)"

definition used_total :: "(nat \<Rightarrow> heap_mem) \<Rightarrow> nat list \<Rightarrow> nat" where
  "used_total b os = sum_list (map (\<lambda>x. if hm_used (b x) \<noteq> 0 then hm_next (b x) - x else 0) (butlast os))"

definition heap_frame :: "rt_heap \<Rightarrow> bool" where
  "heap_frame h \<longleftrightarrow> heap_end h = mem_size_aligned h + 12 \<and> heap_ptr h + heap_end h + 12 \<le> 2 ^ 32 \<and>
     4 dvd heap_ptr h \<and> hm_prev (hdr h 0) = 0 \<and> hm_used (hdr h (heap_end h)) = 1"

definition linked :: "(nat \<Rightarrow> heap_mem) \<Rightarrow> nat \<Rightarrow> nat list \<Rightarrow> bool" where
  "linked b e os \<longleftrightarrow> successively (link b e) os \<and> list_all (\<lambda>x. 4 dvd x \<and> block_ok (b x)) os"

definition heap_chain :: "rt_heap \<Rightarrow> nat list \<Rightarrow> bool" where
  "heap_chain h os \<longleftrightarrow> os \<noteq> [] \<and> hd os = 0 \<and> last os = heap_end h \<and>
     linked (hdr h) (heap_end h) os \<and> used_mem h = of_nat (used_total (hdr h) os)"

definition lfree_ok :: "rt_heap \<Rightarrow> nat list \<Rightarrow> bool" where
  "lfree_ok h os \<longleftrightarrow> lfree h \<in> set os \<and> (lfree h = heap_end h \<or> hm_used (hdr h (lfree h)) = 0)"

text \<open>\<open>lfree\<close> is the lowest free block.\<close>

definition lfree_low :: "rt_heap \<Rightarrow> nat list \<Rightarrow> bool" where
  "lfree_low h os \<longleftrightarrow> (\<forall>x \<in> set os. x < lfree h \<longrightarrow> hm_used (hdr h x) \<noteq> 0)"

definition heap_ok :: "rt_heap \<Rightarrow> nat list \<Rightarrow> bool" where
  "heap_ok h os \<longleftrightarrow> heap_frame h \<and> heap_chain h os \<and> lfree_ok h os \<and> successively (apart (hdr h)) os"

definition used_blocks :: "rt_heap \<Rightarrow> nat list \<Rightarrow> (nat \<times> nat) list" where
  "used_blocks h os = map (\<lambda>x. (x, hm_next (hdr h x))) (filter (\<lambda>x. hm_used (hdr h x) \<noteq> 0) (butlast os))"

lemma usub_le: "b \<le> a \<Longrightarrow> a < 2 ^ 32 \<Longrightarrow> usub a b = a - b"
proof -
  assume le: "b \<le> a" "a < 2 ^ 32"
  have w: "(of_nat a - of_nat b :: u32) = of_nat (a - b)" using le(1) by (rule of_nat_diff [symmetric])
  have "(a - b) mod 2 ^ 32 = a - b" using le(2) by simp
  then show ?thesis unfolding usub_def w by (simp add: unat_of_nat)
qed

lemma link_less: "link b e x y \<Longrightarrow> x < y"
  by (simp add: link_def)

lemma chain_sorted: "successively (link b e) os \<Longrightarrow> sorted_wrt (<) os"
proof -
  assume "successively (link b e) os"
  then have "successively (<) os" by (rule successively_mono) (simp_all add: link_less)
  then show ?thesis by (simp add: successively_conv_sorted_wrt transp_on_less)
qed

lemma link_cong:
  assumes "successively (link b e) zs"
    and "\<And>x. x \<in> set (butlast zs) \<Longrightarrow> hm_next (b' x) = hm_next (b x)"
    and "\<And>y. y \<in> set (tl zs) \<Longrightarrow> y \<noteq> e \<Longrightarrow> hm_prev (b' y) = hm_prev (b y)"
  shows "successively (link b' e) zs"
  using assms
proof (induction zs rule: induct_list012)
  case (3 x y zs)
  have "successively (link b' e) (y # zs)" using "3.IH"(2) "3.prems" by auto
  moreover have "link b' e x y" using "3.prems"(1) "3.prems"(2) [of x] "3.prems"(3) [of y] by (auto simp: link_def)
  ultimately show ?case by simp
qed auto

lemma apart_cong:
  assumes "successively (apart b) zs" and "\<And>x. x \<in> set zs \<Longrightarrow> hm_used (b' x) = hm_used (b x)"
  shows "successively (apart b') zs"
  using assms by (induction zs rule: induct_list012) (auto simp: apart_def)

text \<open>A block with its surroundings.\<close>

lemma chain_split:
  assumes "heap_chain h os" and "x \<in> set os" and "x \<noteq> heap_end h"
  obtains xs n ys where "os = xs @ x # n # ys"
proof -
  obtain xs zs where s: "os = xs @ x # zs" using assms(2) by (auto simp: in_set_conv_decomp)
  with assms have "zs \<noteq> []" by (auto simp: heap_chain_def)
  with s that show ?thesis by (cases zs) auto
qed

lemma butlast_mid: "butlast (xs @ x # n # ys) = xs @ x # butlast (n # ys)"
  by (simp add: butlast_append)

lemma chain_mid:
  assumes "heap_chain h (xs @ x # n # ys)" and "heap_frame h"
  shows "hm_next (hdr h x) = n" "x + 12 < n" "n \<le> heap_end h" "n < 2 ^ 32"
    "n \<noteq> heap_end h \<Longrightarrow> hm_prev (hdr h n) = x" "n = heap_end h \<longleftrightarrow> ys = []"
    "x \<notin> set xs" "x \<notin> set ys" "n \<notin> set xs" "n \<notin> set ys" "\<forall>y \<in> set xs. y < x" "\<forall>y \<in> set ys. n < y"
proof -
  have s: "sorted_wrt (<) (xs @ x # n # ys)"
    using assms(1) chain_sorted by (auto simp: heap_chain_def linked_def)
  have l: "link (hdr h) (heap_end h) x n"
    using assms(1) by (simp add: heap_chain_def linked_def successively_append_iff)
  have e: "last (n # ys) = heap_end h" using assms(1) by (simp add: heap_chain_def)
  show "hm_next (hdr h x) = n" "x + 12 < n" "n \<noteq> heap_end h \<Longrightarrow> hm_prev (hdr h n) = x"
    using l by (simp_all add: link_def)
  show "x \<notin> set xs" "x \<notin> set ys" "n \<notin> set xs" "n \<notin> set ys" "\<forall>y \<in> set xs. y < x" "\<forall>y \<in> set ys. n < y"
    using s by (auto simp: sorted_wrt_append)
  show ne: "n \<le> heap_end h" using s e last_in_set [of ys] by (cases "ys = []") (auto simp: sorted_wrt_append order_less_imp_le)
  show "n = heap_end h \<longleftrightarrow> ys = []"
    using s e last_in_set [of ys] by (cases "ys = []") (auto simp: sorted_wrt_append)
  show "n < 2 ^ 32" using ne assms(2) by (simp add: heap_frame_def)
qed

section \<open>Inserting and removing a block\<close>

lemma successively_mid:
  "successively P (xs @ x # n # ys) \<longleftrightarrow> successively P (xs @ [x]) \<and> P x n \<and> successively P (n # ys)"
  by (auto simp: successively_append_iff)

lemma linked_mid:
  "linked b e (xs @ x # n # ys) \<longleftrightarrow> linked b e (xs @ [x]) \<and> link b e x n \<and> linked b e (n # ys)"
  by (auto simp: linked_def successively_mid)

lemma linked_cong:
  assumes "linked b e zs"
    and "\<And>x. x \<in> set (butlast zs) \<Longrightarrow> hm_next (b' x) = hm_next (b x)"
    and "\<And>y. y \<in> set (tl zs) \<Longrightarrow> y \<noteq> e \<Longrightarrow> hm_prev (b' y) = hm_prev (b y)"
    and "\<And>x. x \<in> set zs \<Longrightarrow> block_ok (b' x)"
  shows "linked b' e zs"
  using assms link_cong [of b e zs b'] by (auto simp: linked_def list_all_iff)

lemma in_tl_snoc: "y \<in> set (tl (xs @ [p])) \<Longrightarrow> y \<in> set xs \<or> y = p"
  by (cases xs) auto

lemma linked_insert:
  assumes l: "linked b e (xs @ p # n # ys)" and d: "distinct (xs @ p # n # ys)"
    and q: "p + 12 < q" "q + 12 < n" "4 dvd q" "b' q = \<lparr>hm_magic = HEAP_MAGIC, hm_used = 0, hm_next = n, hm_prev = p\<rparr>"
    and p: "hm_next (b' p) = q" "hm_prev (b' p) = hm_prev (b p)" "block_ok (b' p)"
    and n: "hm_next (b' n) = hm_next (b n)" "n \<noteq> e \<Longrightarrow> hm_prev (b' n) = q" "block_ok (b' n)"
    and o: "\<And>x. x \<notin> {p, q, n} \<Longrightarrow> b' x = b x" and out: "q \<notin> set (xs @ ys)" "e \<noteq> q"
  shows "linked b' e (xs @ p # q # n # ys)"
proof -
  have same: "b' x = b x" if "x \<in> set (xs @ ys)" for x
    using d that out by (intro o) auto
  have ok: "block_ok (b' x)" if "x \<in> set (xs @ ys)" for x
    using l that same [OF that] by (auto simp: linked_def list_all_iff)
  have "linked b' e (xs @ [p])"
    by (rule linked_cong [of b]) (use l same p ok in \<open>auto simp: linked_mid butlast_append split: if_splits dest!: in_tl_snoc\<close>)
  moreover have "linked b' e (n # ys)"
    by (rule linked_cong [of b]) (use l same n ok in \<open>auto simp: linked_mid split: if_splits dest: in_set_butlastD\<close>)
  moreover have "link b' e p q" "link b' e q n" "block_ok (b' q)"
    using q p n by (simp_all add: link_def block_ok_def)
  ultimately show ?thesis using q(3) by (simp add: linked_def successively_append_iff)
qed

lemma linked_remove:
  assumes l: "linked b e (xs @ p # m # n # ys)" and d: "distinct (xs @ p # m # n # ys)"
    and p: "hm_next (b' p) = n" "hm_prev (b' p) = hm_prev (b p)" "block_ok (b' p)"
    and n: "hm_next (b' n) = hm_next (b n)" "hm_prev (b' n) = p" "block_ok (b' n)"
    and o: "\<And>x. x \<notin> {p, m, n} \<Longrightarrow> b' x = b x"
  shows "linked b' e (xs @ p # n # ys)"
proof -
  have lm: "linked b e (xs @ [p])" "link b e p m" "link b e m n" "linked b e (n # ys)"
    using l by (auto simp: linked_def successively_append_iff)
  have same: "b' x = b x" if "x \<in> set (xs @ ys)" for x
    using d that by (intro o) auto
  have ok: "block_ok (b' x)" if "x \<in> set (xs @ ys)" for x
    using l that same [OF that] by (auto simp: linked_def list_all_iff)
  have "linked b' e (xs @ [p])"
    by (rule linked_cong [OF lm(1)]) (use same p ok in \<open>auto simp: butlast_append split: if_splits dest!: in_tl_snoc\<close>)
  moreover have "linked b' e (n # ys)"
    by (rule linked_cong [OF lm(4)]) (use same n ok in \<open>auto split: if_splits dest: in_set_butlastD\<close>)
  moreover have "link b' e p n" using lm(2,3) p n by (auto simp: link_def)
  ultimately show ?thesis by (simp add: linked_mid)
qed

lemma used_total_mid:
  "used_total b (xs @ x # n # ys) =
    used_total b (xs @ [x]) + (if hm_used (b x) \<noteq> 0 then hm_next (b x) - x else 0) + used_total b (n # ys)"
  by (simp add: used_total_def butlast_append)

lemma used_total_cong:
  "(\<And>x. x \<in> set (butlast zs) \<Longrightarrow> hm_used (b' x) = hm_used (b x) \<and> hm_next (b' x) = hm_next (b x)) \<Longrightarrow>
     used_total b' zs = used_total b zs"
  unfolding used_total_def by (intro arg_cong [of _ _ sum_list] map_cong) auto

section \<open>The searches end\<close>

lemma chain_end_ge: "heap_frame h \<Longrightarrow> heap_end h \<ge> mem_size_aligned h - n"
  by (simp add: heap_frame_def)

definition fits :: "rt_heap \<Rightarrow> nat \<Rightarrow> nat \<Rightarrow> bool" where
  "fits h n x \<longleftrightarrow> hm_used (hdr h x) = 0 \<and> x + 12 + n \<le> hm_next (hdr h x)"

lemma malloc_search_find:
  assumes "heap_chain h (xs @ p # zs)" and "heap_frame h" and "n \<le> mem_size_aligned h"
  shows "malloc_search h n p = Some (find (fits h n) (takeWhile (\<lambda>x. x < mem_size_aligned h - n) (p # zs)))"
  using assms(1)
proof (induction zs arbitrary: xs p)
  case Nil
  then have "p = heap_end h" by (simp add: heap_chain_def)
  with assms have "\<not> p < mem_size_aligned h - n" "usub (mem_size_aligned h) n = mem_size_aligned h - n"
    by (simp_all add: usub_le heap_frame_def)
  then show ?case by (subst malloc_search.simps) simp
next
  case (Cons q zs)
  note mid = chain_mid [OF Cons.prems assms(2)]
  have sub: "usub (mem_size_aligned h) n = mem_size_aligned h - n" "usub q (p + 12) = q - (p + 12)"
    using assms mid by (simp_all add: usub_le heap_frame_def)
  have "malloc_search h n q = Some (find (fits h n) (takeWhile (\<lambda>x. x < mem_size_aligned h - n) (q # zs)))"
    using Cons.IH [of "xs @ [p]" q] Cons.prems by simp
  moreover have "n \<le> q - (p + 12) \<longleftrightarrow> p + 12 + n \<le> q" using mid by linarith
  moreover have "fits h n p \<longleftrightarrow> hm_used (hdr h p) = 0 \<and> p + 12 + n \<le> q" by (simp add: fits_def mid)
  ultimately show ?case
    by (simp add: malloc_search.simps [of h n p] sub mid)
qed

lemma lfree_advance_first:
  assumes "heap_chain h (xs @ p # zs)" and "heap_frame h"
  shows "\<exists>l. lfree_advance h p = Some l \<and> l \<in> set (p # zs) \<and> (l = heap_end h \<or> hm_used (hdr h l) = 0) \<and>
    (\<forall>x \<in> set (p # zs). x < l \<longrightarrow> hm_used (hdr h x) \<noteq> 0)"
  using assms(1)
proof (induction zs arbitrary: xs p)
  case Nil
  then have "p = heap_end h" by (simp add: heap_chain_def)
  then show ?case by (subst lfree_advance.simps) simp
next
  case (Cons q zs)
  note mid = chain_mid [OF Cons.prems assms(2)]
  have pe: "p \<noteq> heap_end h" using mid by auto
  obtain l where l: "lfree_advance h q = Some l" "l \<in> set (q # zs)" "l = heap_end h \<or> hm_used (hdr h l) = 0"
      "\<forall>x \<in> set (q # zs). x < l \<longrightarrow> hm_used (hdr h x) \<noteq> 0"
    using Cons.IH [of "xs @ [p]" q] Cons.prems by auto
  show ?case
  proof (cases "hm_used (hdr h p) = 0")
    case True
    then show ?thesis using mid by (auto simp: lfree_advance.simps [of h p])
  next
    case False
    then show ?thesis using l pe mid(1) by (auto simp: lfree_advance.simps [of h p])
  qed
qed

section \<open>Taking a block\<close>

lemma chain_distinct: "heap_chain h os \<Longrightarrow> distinct os"
  using chain_sorted strict_sorted_iff by (auto simp: heap_chain_def linked_def)

lemma chain_aligned: "heap_chain h os \<Longrightarrow> x \<in> set os \<Longrightarrow> 4 dvd x \<and> block_ok (hdr h x)"
  by (auto simp: heap_chain_def linked_def list_all_iff)

lemma chain_0: "heap_chain h os \<Longrightarrow> x \<in> set os \<Longrightarrow> x \<noteq> hd os \<Longrightarrow> x \<noteq> 0"
  by (auto simp: heap_chain_def)

text \<open>What an operation may change of a heap besides its blocks.\<close>

definition same_frame :: "rt_heap \<Rightarrow> rt_heap \<Rightarrow> bool" where
  "same_frame h h' \<longleftrightarrow> heap_ptr h' = heap_ptr h \<and> heap_end h' = heap_end h \<and> mem_size_aligned h' = mem_size_aligned h"

lemma take_near:
  assumes "heap_chain h (xs @ p # n # ys)" and "heap_frame h" and "successively (apart (hdr h)) (xs @ p # n # ys)"
    and "hm_used (hdr h p) = 0" and "n < p + 12 + sz + 24" and "h' = malloc_take p sz h"
  shows "heap_chain h' (xs @ p # n # ys)" and "heap_frame h'" and "successively (apart (hdr h')) (xs @ p # n # ys)"
    and "same_frame h h'" and "lfree h' = lfree h"
    and "hdr h' = (hdr h)(p := (hdr h p)\<lparr>hm_used := 1, hm_magic := HEAP_MAGIC\<rparr>)"
proof -
  note mid = chain_mid [OF assms(1,2)]
  have "\<not> sz + 24 \<le> n - (p + 12)" using assms(5) mid(2) by linarith
  then have h': "h' = set_hdr p (\<lambda>b. b\<lparr>hm_magic := HEAP_MAGIC\<rparr>) (count_used (n - p) (set_hdr p (\<lambda>b. b\<lparr>hm_used := 1\<rparr>) h))"
    using mid by (simp add: assms(6) malloc_take_def Let_def usub_le)
  show hdr: "hdr h' = (hdr h)(p := (hdr h p)\<lparr>hm_used := 1, hm_magic := HEAP_MAGIC\<rparr>)"
    by (simp add: h' set_hdr_def count_used_def Let_def)
  show same: "same_frame h h'" "lfree h' = lfree h"
    by (simp_all add: h' set_hdr_def count_used_def Let_def same_frame_def)
  have "p \<noteq> heap_end h" using mid by auto
  with assms(2) show "heap_frame h'" using same(1) by (auto simp: heap_frame_def same_frame_def hdr)
  show "successively (apart (hdr h')) (xs @ p # n # ys)"
    using assms(3) by (rule successively_mono) (auto simp: apart_def hdr)
  have l: "linked (hdr h') (heap_end h) (xs @ p # n # ys)"
    by (rule linked_cong [of "hdr h"])
      (use assms(1) chain_aligned [OF assms(1)] in \<open>auto simp: heap_chain_def hdr block_ok_def\<close>)
  have "used_total (hdr h') (xs @ [p]) = used_total (hdr h) (xs @ [p])" "used_total (hdr h') (n # ys) = used_total (hdr h) (n # ys)"
    by (rule used_total_cong; use mid in \<open>auto simp: hdr split: if_splits dest: in_set_butlastD\<close>)+
  then have "used_total (hdr h') (xs @ p # n # ys) = used_total (hdr h) (xs @ p # n # ys) + (n - p)"
    using assms(4) mid by (simp add: used_total_mid hdr)
  moreover have "used_mem h' = used_mem h + of_nat (n - p)"
    by (simp add: h' set_hdr_def count_used_def Let_def)
  ultimately show "heap_chain h' (xs @ p # n # ys)"
    using assms(1) l same(1) by (simp add: heap_chain_def same_frame_def)
qed

lemma insert_fresh:
  assumes "heap_chain h (xs @ p # n # ys)" and "heap_frame h" and "p < q" and "q < n"
  shows "q \<notin> set (xs @ p # n # ys)" "q \<noteq> heap_end h" "q \<noteq> 0"
proof -
  note mid = chain_mid [OF assms(1,2)]
  show "q \<notin> set (xs @ p # n # ys)" using mid assms(3,4) by fastforce
  show "q \<noteq> heap_end h" "q \<noteq> 0" using mid assms(3,4) by linarith+
qed

lemma take_split:
  assumes "heap_chain h (xs @ p # n # ys)" and "heap_frame h" and "successively (apart (hdr h)) (xs @ p # n # ys)"
    and "hm_used (hdr h p) = 0" and "p + 12 + sz + 24 \<le> n" and "4 dvd sz" and "h' = malloc_take p sz h"
    and "q = p + 12 + sz" and pos: "0 < sz"
  shows "heap_chain h' (xs @ p # q # n # ys)" and "heap_frame h'"
    and "successively (apart (hdr h')) (xs @ p # q # n # ys)" and "same_frame h h'" and "lfree h' = lfree h"
    and "hm_used (hdr h' p) = 1" and "hm_next (hdr h' p) = q" and "hm_used (hdr h' q) = 0"
    and "\<And>x. x \<notin> {p, q} \<Longrightarrow> hm_used (hdr h' x) = hm_used (hdr h x) \<and> hm_next (hdr h' x) = hm_next (hdr h x)"
proof -
  note mid = chain_mid [OF assms(1,2)]
  note fresh = insert_fresh [OF assms(1,2), of q]
  have q: "p < q" "q < n" "p \<noteq> n" "p \<noteq> heap_end h" using assms(5,8) mid by linarith+
  have "sz + 24 \<le> n - (p + 12)" "\<not> n < mem_size_aligned h + 12 \<or> n \<noteq> mem_size_aligned h + 12" using assms(5) by linarith+
  define b where "b = (hdr h)(q := \<lparr>hm_magic = HEAP_MAGIC, hm_used = 0, hm_next = n, hm_prev = p\<rparr>,
      p := (hdr h p)\<lparr>hm_next := q, hm_used := 1, hm_magic := HEAP_MAGIC\<rparr>,
      n := (if n = heap_end h then hdr h n else (hdr h n)\<lparr>hm_prev := q\<rparr>))"
  have hdr: "hdr h' = b" and um: "used_mem h' = used_mem h + of_nat (sz + 12)"
    and same: "same_frame h h'" "lfree h' = lfree h"
    using \<open>sz + 24 \<le> n - (p + 12)\<close> q mid(1,2,4) assms(2)
    by (auto simp: assms(7,8) malloc_take_def Let_def usub_le set_hdr_def count_used_def b_def fun_eq_iff heap_frame_def same_frame_def)
  show "same_frame h h'" "lfree h' = lfree h" by fact+
  show *: "hm_used (hdr h' p) = 1" "hm_next (hdr h' p) = q" "hm_used (hdr h' q) = 0"
    "\<And>x. x \<notin> {p, q} \<Longrightarrow> hm_used (hdr h' x) = hm_used (hdr h x) \<and> hm_next (hdr h' x) = hm_next (hdr h x)"
    using q by (auto simp: hdr b_def)
  have ok: "block_ok (b p)" "block_ok (b n)"
    using chain_aligned [OF assms(1), of p] chain_aligned [OF assms(1), of n] q by (auto simp: b_def block_ok_def)
  have "4 dvd q" using chain_aligned [OF assms(1), of p] assms(6,8) by auto
  then have l: "linked b (heap_end h) (xs @ p # q # n # ys)"
    using assms(1) chain_distinct [OF assms(1)] q fresh(1) [OF q(1,2)] fresh(2) [OF q(1,2)] ok assms(5,8) pos
    by (intro linked_insert [of "hdr h"]) (auto simp: heap_chain_def b_def)
  show "heap_frame h'" using assms(2) same q fresh [OF q(1,2)]
    by (auto simp: heap_frame_def same_frame_def hdr b_def)
  have "hm_used (b n) \<noteq> 0"
    using assms(3,4) q by (auto simp: successively_mid apart_def b_def)
  moreover have up: "hm_used (b x) \<noteq> 0" if "x \<noteq> q" "hm_used (hdr h x) \<noteq> 0" for x
    using that *(1,4) hdr by (cases "x = p") auto
  moreover have "successively (apart b) zs" if "successively (apart (hdr h)) zs" "q \<notin> set zs" for zs
    using that(1) by (rule successively_mono) (use that(2) up in \<open>unfold apart_def, metis\<close>)
  then have "successively (apart b) (xs @ [p])" "successively (apart b) (n # ys)"
    using assms(3) fresh(1) [OF q(1,2)] by (auto simp: successively_mid)
  ultimately show "successively (apart (hdr h')) (xs @ p # q # n # ys)"
    using *(1) by (simp add: hdr successively_append_iff apart_def)
  have "used_total b (xs @ [p]) = used_total (hdr h) (xs @ [p])" "used_total b (n # ys) = used_total (hdr h) (n # ys)"
    by (rule used_total_cong; use mid fresh(1) [OF q(1,2)] q in \<open>auto simp: b_def split: if_splits dest: in_set_butlastD\<close>)+
  then have "used_total b (xs @ p # q # n # ys) = used_total (hdr h) (xs @ p # n # ys) + (sz + 12)"
    using assms(4,8) * used_total_mid [of b xs p q "n # ys"] used_total_mid [of b "[]" q n ys]
    by (simp add: used_total_mid hdr) (simp add: used_total_def)
  then show "heap_chain h' (xs @ p # q # n # ys)"
    using assms(1) l same um by (auto simp: heap_chain_def same_frame_def hdr hd_append)
qed

text \<open>Blocks in use after taking one.\<close>

lemma used_blocks_mid:
  "used_blocks h (xs @ x # n # ys) = used_blocks h (xs @ [x]) @
     (if hm_used (hdr h x) \<noteq> 0 then [(x, hm_next (hdr h x))] else []) @ used_blocks h (n # ys)"
  by (simp add: used_blocks_def butlast_append)

lemma used_blocks_cong:
  assumes "\<And>x. x \<in> set (butlast zs) \<Longrightarrow> hm_used (hdr h' x) = hm_used (hdr h x) \<and> hm_next (hdr h' x) = hm_next (hdr h x)"
  shows "used_blocks h' zs = used_blocks h zs"
proof -
  have "filter (\<lambda>x. hm_used (hdr h' x) \<noteq> 0) (butlast zs) = filter (\<lambda>x. hm_used (hdr h x) \<noteq> 0) (butlast zs)"
    using assms by (intro filter_cong) auto
  then show ?thesis using assms by (simp add: used_blocks_def)
qed

lemma malloc_take_ok:
  assumes ok: "heap_ok h (xs @ p # n # ys)" and fit: "fits h sz p" and sz: "4 dvd sz" "0 < sz" and h1: "h1 = malloc_take p sz h"
  obtains m zs where "heap_chain h1 (xs @ p # m # zs)" "heap_frame h1" "successively (apart (hdr h1)) (xs @ p # m # zs)"
    "same_frame h h1" "lfree h1 = lfree h" "p + 12 + sz \<le> m" "m \<le> n" "hm_used (hdr h1 p) \<noteq> 0"
    "set (used_blocks h1 (xs @ p # m # zs)) = insert (p, m) (set (used_blocks h (xs @ p # n # ys)))"
    "\<And>x. x \<in> set (xs @ n # ys) \<Longrightarrow> x \<in> set (xs @ m # zs) \<and> hm_used (hdr h1 x) = hm_used (hdr h x)"
proof -
  have c: "heap_frame h" "heap_chain h (xs @ p # n # ys)" "successively (apart (hdr h)) (xs @ p # n # ys)"
    using ok by (simp_all add: heap_ok_def)
  note mid = chain_mid [OF c(2,1)]
  have f: "hm_used (hdr h p) = 0" "p + 12 + sz \<le> n" using fit mid(1) by (simp_all add: fits_def)
  have dis: "p \<noteq> n" "p \<notin> set xs" "p \<notin> set ys" using mid by auto
  show thesis
  proof (cases "p + 12 + sz + 24 \<le> n")
    case True
    define q where "q = p + 12 + sz"
    note t = take_split [OF c(2,1,3) f(1) True sz(1) h1 q_def sz(2)]
    have fresh: "q \<notin> set (xs @ p # n # ys)" using insert_fresh(1) [OF c(2,1), of q] True by (simp add: q_def)
    have "set (used_blocks h1 (xs @ p # q # n # ys)) = insert (p, q) (set (used_blocks h (xs @ p # n # ys)))"
    proof -
      have "used_blocks h1 (xs @ [p]) = used_blocks h (xs @ [p])"
        by (rule used_blocks_cong, rule t(9)) (use fresh dis in auto)
      moreover have "used_blocks h1 (n # ys) = used_blocks h (n # ys)"
        by (rule used_blocks_cong, rule t(9)) (use fresh dis in_set_butlastD [of _ "n # ys"] in auto)
      moreover have "used_blocks h1 (q # n # ys) = used_blocks h1 (n # ys)"
        using used_blocks_mid [of h1 "[]" q n ys] t(8) by (simp add: used_blocks_def)
      ultimately show ?thesis
        using t(6,7) f(1) by (simp only: used_blocks_mid [of _ xs]) auto
    qed
    moreover have "x \<in> set (xs @ q # n # ys) \<and> hm_used (hdr h1 x) = hm_used (hdr h x)"
      if "x \<in> set (xs @ n # ys)" for x
    proof -
      have "x \<notin> {p, q}" using that fresh dis by auto
      from t(9) [OF this] that show ?thesis by auto
    qed
    moreover have "p + 12 + sz \<le> q" "q \<le> n" using True by (simp_all add: q_def)
    ultimately show ?thesis using that [of q "n # ys"] t(1-6) by simp
  next
    case False
    then have "n < p + 12 + sz + 24" by simp
    note t = take_near [OF c(2,1,3) f(1) this h1]
    have "set (used_blocks h1 (xs @ p # n # ys)) = insert (p, n) (set (used_blocks h (xs @ p # n # ys)))"
    proof -
      have "used_blocks h1 (xs @ [p]) = used_blocks h (xs @ [p])" "used_blocks h1 (n # ys) = used_blocks h (n # ys)"
        by (rule used_blocks_cong; use dis in_set_butlastD [of _ "n # ys"] in \<open>auto simp: t(6)\<close>)+
      then show ?thesis using f(1) mid(1) by (simp add: used_blocks_mid [of _ xs] t(6))
    qed
    moreover have "hm_used (hdr h1 x) = hm_used (hdr h x)" if "x \<in> set (xs @ n # ys)" for x
      using that dis by (auto simp: t(6))
    ultimately show ?thesis using that [of n ys] t(1-5) f(2) by (simp add: t(6))
  qed
qed

section \<open>Allocation is safe and ends\<close>

lemma RT_ALIGN_dvd: "4 dvd unat (RT_ALIGN sz)"
proof -
  have "RT_ALIGN sz AND 3 = 0" by (simp add: RT_ALIGN_def and.assoc)
  then have "take_bit 2 (RT_ALIGN sz) = 0" by (simp add: take_bit_eq_mask mask_eq_exp_minus_1)
  then have "take_bit 2 (unat (RT_ALIGN sz)) = 0" by (metis unsigned_0 unsigned_take_bit_eq)
  then show ?thesis by (simp add: take_bit_eq_mod mod_eq_0_iff_dvd)
qed

lemma malloc_size_dvd: "4 dvd malloc_size sz"
  using RT_ALIGN_dvd [of sz] by (simp add: malloc_size_def max_def)

lemma malloc_size_pos: "0 < malloc_size sz"
  by (simp add: malloc_size_def)

lemma lfree_settle:
  assumes c: "heap_chain h1 (xs @ p # m # zs)" "heap_frame h1" and u: "hm_used (hdr h1 p) \<noteq> 0"
    and l: "lfree h1 \<in> set (xs @ p # m # zs)" "lfree h1 \<noteq> p \<Longrightarrow> lfree h1 = heap_end h1 \<or> hm_used (hdr h1 (lfree h1)) = 0"
  obtains l where "malloc_lfree p h1 = Some (h1\<lparr>lfree := l\<rparr>)" "lfree_ok (h1\<lparr>lfree := l\<rparr>) (xs @ p # m # zs)"
    "lfree h1 \<noteq> p \<longrightarrow> l = lfree h1" "\<forall>x \<in> set (p # m # zs). lfree h1 = p \<and> x < l \<longrightarrow> hm_used (hdr h1 x) \<noteq> 0"
proof (cases "lfree h1 = p")
  case True
  obtain k where k: "lfree_advance h1 p = Some k" "k \<in> set (p # m # zs)" "k = heap_end h1 \<or> hm_used (hdr h1 k) = 0"
      "\<forall>x \<in> set (p # m # zs). x < k \<longrightarrow> hm_used (hdr h1 x) \<noteq> 0"
    using lfree_advance_first [OF c] by blast
  then show ?thesis using that [of k] True by (auto simp: malloc_lfree_def lfree_ok_def)
next
  case False
  then show ?thesis using that [of "lfree h1"] l by (simp add: malloc_lfree_def lfree_ok_def)
qed

lemma heap_ok_lfree: "heap_chain (h\<lparr>lfree := l\<rparr>) os \<longleftrightarrow> heap_chain h os" "heap_frame (h\<lparr>lfree := l\<rparr>) \<longleftrightarrow> heap_frame h"
  "used_blocks (h\<lparr>lfree := l\<rparr>) os = used_blocks h os"
  by (simp_all add: heap_chain_def heap_frame_def used_blocks_def)

text \<open>Two different blocks of a chain do not overlap.\<close>

lemma blocks_disjoint:
  assumes "heap_chain h os" and "x \<in> set (butlast os)" and "y \<in> set (butlast os)" and "x < y"
  shows "hm_next (hdr h x) \<le> y"
proof -
  have "x \<in> set os" "y \<in> set os" using assms(2,3) by (auto dest: in_set_butlastD)
  obtain us vs where s: "os = us @ x # vs" using \<open>x \<in> set os\<close> by (auto simp: in_set_conv_decomp)
  have srt: "sorted_wrt (<) os" using assms(1) chain_sorted by (auto simp: heap_chain_def linked_def)
  have "y \<in> set vs" using s srt \<open>y \<in> set os\<close> assms(4) by (auto simp: sorted_wrt_append)
  then obtain v ws where v: "vs = v # ws" by (cases vs) auto
  have "link (hdr h) (heap_end h) x v" using assms(1) by (simp add: heap_chain_def s v linked_mid)
  moreover have "v \<le> y" using \<open>y \<in> set vs\<close> srt by (auto simp: s v sorted_wrt_append)
  ultimately show ?thesis by (simp add: link_def)
qed

lemma find_SomeD: "find P xs = Some x \<Longrightarrow> P x \<and> x \<in> set xs"
  by (induction xs) (auto split: if_splits)

lemma rt_malloc_cases:
  assumes ok: "heap_ok h os" and small: "MIN_SIZE_ALIGNED \<le> mem_size_aligned h"
    and ask: "sz \<noteq> 0" "unat (RT_ALIGN sz) \<le> mem_size_aligned h"
  shows "(case find (fits h (malloc_size sz)) (takeWhile (\<lambda>x. x < mem_size_aligned h - malloc_size sz)
        (filter (\<lambda>x. lfree h \<le> x) os)) of
      None \<Rightarrow> rt_malloc sz h = Some (h, None)
    | Some p \<Rightarrow> \<exists>h' m os'. rt_malloc sz h = Some (h', Some (heap_ptr h + p + 12)) \<and> heap_ok h' os' \<and> same_frame h h' \<and>
        p \<in> set (butlast os) \<and> hm_used (hdr h p) = 0 \<and> p + 12 + malloc_size sz \<le> m \<and> m \<le> hm_next (hdr h p) \<and>
        p \<in> set (butlast os') \<and> set (used_blocks h' os') = insert (p, m) (set (used_blocks h os)) \<and>
        (lfree_low h os \<longrightarrow> lfree_low h' os'))"
proof -
  have c: "heap_frame h" "heap_chain h os" "lfree_ok h os" "successively (apart (hdr h)) os"
    using ok by (simp_all add: heap_ok_def)
  obtain us vs where os: "os = us @ lfree h # vs" using c(3) by (auto simp: lfree_ok_def in_set_conv_decomp)
  have srt: "sorted_wrt (<) os" using c(2) chain_sorted by (auto simp: heap_chain_def linked_def)
  have "\<forall>x \<in> set us. \<not> lfree h \<le> x" "\<forall>x \<in> set vs. lfree h \<le> x"
    using srt by (auto simp: os sorted_wrt_append)
  then have flt: "filter (\<lambda>x. lfree h \<le> x) os = lfree h # vs"
    by (simp add: os filter_empty_conv)
  let ?n = "malloc_size sz"
  let ?f = "find (fits h ?n) (takeWhile (\<lambda>x. x < mem_size_aligned h - ?n) (lfree h # vs))"
  have n: "?n \<le> mem_size_aligned h" using ask small by (simp add: malloc_size_def)
  have search: "malloc_search h ?n (lfree h) = Some ?f"
    using malloc_search_find [OF c(2) [unfolded os] c(1) n] .
  show ?thesis
  proof (cases ?f)
    case None
    then show ?thesis using ask search by (simp add: rt_malloc_def flt Let_def)
  next
    case (Some p)
    then have p: "fits h ?n p" "p \<in> set (lfree h # vs)" "p < mem_size_aligned h - ?n"
      using find_SomeD [OF Some] by (auto dest: set_takeWhileD simp del: takeWhile.simps)
    have pe: "p \<noteq> heap_end h" using p(3) c(1) by (simp add: heap_frame_def)
    obtain xs m' ys where s: "os = xs @ p # m' # ys" using chain_split [OF c(2) _ pe] p(2) os by auto
    define h1 where "h1 = malloc_take p ?n h"
    obtain m zs where t: "heap_chain h1 (xs @ p # m # zs)" "heap_frame h1" "successively (apart (hdr h1)) (xs @ p # m # zs)"
        "same_frame h h1" "lfree h1 = lfree h" "p + 12 + ?n \<le> m" "m \<le> m'" "hm_used (hdr h1 p) \<noteq> 0"
        "set (used_blocks h1 (xs @ p # m # zs)) = insert (p, m) (set (used_blocks h os))"
        "\<And>x. x \<in> set (xs @ m' # ys) \<Longrightarrow> x \<in> set (xs @ m # zs) \<and> hm_used (hdr h1 x) = hm_used (hdr h x)"
      using malloc_take_ok [OF ok [unfolded s] p(1) malloc_size_dvd malloc_size_pos h1_def] unfolding s by metis
    have "lfree h1 \<in> set (xs @ p # m # zs)" "lfree h1 \<noteq> p \<Longrightarrow> lfree h1 = heap_end h1 \<or> hm_used (hdr h1 (lfree h1)) = 0"
      using c(3) t(4,5,10) unfolding s by (auto simp: lfree_ok_def same_frame_def)
    then obtain l where l: "malloc_lfree p h1 = Some (h1\<lparr>lfree := l\<rparr>)" "lfree_ok (h1\<lparr>lfree := l\<rparr>) (xs @ p # m # zs)"
        "lfree h1 \<noteq> p \<longrightarrow> l = lfree h1" "\<forall>x \<in> set (p # m # zs). lfree h1 = p \<and> x < l \<longrightarrow> hm_used (hdr h1 x) \<noteq> 0"
      using lfree_settle [OF t(1,2,8)] by metis
    have "lfree_low (h1\<lparr>lfree := l\<rparr>) (xs @ p # m # zs)" if "lfree_low h os"
    proof -
      have le: "lfree h \<le> p" using p(2) srt by (auto simp: os sorted_wrt_append)
      have m: "p < m" "\<forall>y \<in> set xs. y < p" "\<forall>y \<in> set zs. m < y" using chain_mid(2,11,12) [OF t(1,2)] by auto
      have "hm_used (hdr h1 x) \<noteq> 0" if "x \<in> set xs" "x < l" for x
        using \<open>lfree_low h os\<close> that t(5) t(10) [of x] l(3) m(2) by (cases "lfree h = p") (auto simp: lfree_low_def s)
      moreover have "hm_used (hdr h1 x) \<noteq> 0" if "x \<in> set (p # m # zs)" "x < l" for x
        using that l(3,4) t(5) le m by (cases "lfree h = p") auto
      ultimately show ?thesis by (auto simp: lfree_low_def)
    qed
    have al: "4 dvd heap_ptr h + p" "4 dvd heap_ptr h + p + 12"
      using c(1) chain_aligned [OF c(2), of p] s by (auto simp: heap_frame_def)
    have mle: "m \<le> heap_end h1" using chain_mid(3) [OF t(1,2)] .
    have "rt_malloc sz h = Some (h1\<lparr>lfree := l\<rparr>, Some (heap_ptr h + p + 12))"
      using ask search Some l(1) t(4,6) mle al
      by (simp add: rt_malloc_def Let_def h1_def [symmetric] same_frame_def dvd_eq_mod_eq_0 [symmetric] add.assoc)
    moreover have "heap_ok (h1\<lparr>lfree := l\<rparr>) (xs @ p # m # zs)"
      using t(1-3) l(2) by (simp add: heap_ok_def heap_ok_lfree)
    moreover have "hm_next (hdr h p) = m'" "p \<in> set (butlast os)" "p \<in> set (butlast (xs @ p # m # zs))"
      using chain_mid(1) [of h xs p m' ys] c s by (simp_all add: butlast_mid)
    ultimately show ?thesis
      using Some t(4,6,7,9) p(1) \<open>lfree_low h os \<Longrightarrow> _\<close> by (auto simp: flt heap_ok_lfree same_frame_def fits_def)
  qed
qed

section \<open>Joining keeps the chain\<close>

lemma remove_unused:
  assumes c: "heap_chain h (xs @ p # m # n # ys)" "heap_frame h" and u: "hm_used (hdr h p) = 0" "hm_used (hdr h m) = 0"
    and h': "hdr h' = (hdr h)(p := (hdr h p)\<lparr>hm_next := n\<rparr>, n := (hdr h n)\<lparr>hm_prev := p\<rparr>)"
    and s: "same_frame h h'" "used_mem h' = used_mem h"
  shows "heap_chain h' (xs @ p # n # ys)" "heap_frame h'" "\<And>x. hm_used (hdr h' x) = hm_used (hdr h x)"
    "used_blocks h' (xs @ p # n # ys) = used_blocks h (xs @ p # m # n # ys)"
proof -
  have d: "distinct (xs @ p # m # n # ys)" using chain_distinct [OF c(1)] .
  have n: "p \<noteq> n" "p \<notin> set xs" "n \<notin> set xs" "p \<notin> set ys" "n \<notin> set ys" using d by auto
  have n0: "n \<noteq> 0" "p \<noteq> heap_end h"
    using chain_mid(2) [of h "xs @ [p]" m n ys] chain_mid(2,3) [OF c] c by auto
  show us: "hm_used (hdr h' x) = hm_used (hdr h x)" for x by (simp add: h')
  have "linked (hdr h') (heap_end h) (xs @ p # n # ys)"
    by (rule linked_remove [of "hdr h" _ _ _ m])
      (use c d n chain_aligned [OF c(1), of p] chain_aligned [OF c(1), of n] in \<open>auto simp: h' heap_chain_def block_ok_def\<close>)
  moreover have eq: "used_total (hdr h') (xs @ [p]) = used_total (hdr h) (xs @ [p])"
      "used_total (hdr h') (n # ys) = used_total (hdr h) (n # ys)"
    by (rule used_total_cong; use n in \<open>auto simp: h' split: if_splits dest: in_set_butlastD\<close>)+
  then have "used_total (hdr h') (xs @ p # n # ys) = used_total (hdr h) (xs @ p # m # n # ys)"
    using u us used_total_mid [of "hdr h" "[]" m n ys]
    by (simp add: used_total_mid [of _ xs]) (simp add: used_total_def)
  ultimately show "heap_chain h' (xs @ p # n # ys)"
    using c(1) s by (auto simp: heap_chain_def same_frame_def hd_append)
  show "heap_frame h'" using c(2) s n0 us by (auto simp: heap_frame_def same_frame_def) (auto simp: h')
  have "used_blocks h' (xs @ [p]) = used_blocks h (xs @ [p])" "used_blocks h' (n # ys) = used_blocks h (n # ys)"
    by (rule used_blocks_cong; use n in \<open>auto simp: h' split: if_splits dest: in_set_butlastD\<close>)+
  then show "used_blocks h' (xs @ p # n # ys) = used_blocks h (xs @ p # m # n # ys)"
    using u us used_blocks_mid [of h "[]" m n ys]
    by (simp add: used_blocks_mid [of _ xs]) (simp add: used_blocks_def)
qed

lemma plug_forward_ok:
  assumes c: "heap_chain h (xs @ p # n # ys)" "heap_frame h" and u: "hm_used (hdr h p) = 0"
    and a: "successively (apart (hdr h)) (n # ys)" and l: "lfree_ok h (xs @ p # n # ys)" and h': "h' = plug_forward p h"
  obtains k zs where "heap_chain h' (xs @ p # k # zs)" "heap_frame h'" "successively (apart (hdr h')) (p # k # zs)"
    "lfree_ok h' (xs @ p # k # zs)" "same_frame h h'" "\<And>x. hm_used (hdr h' x) = hm_used (hdr h x)"
    "used_blocks h' (xs @ p # k # zs) = used_blocks h (xs @ p # n # ys)" "lfree h' = lfree h \<or> lfree h = n \<and> lfree h' = p"
    "set zs \<subseteq> set ys" "k \<in> set (n # ys)"
proof (cases "hm_used (hdr h n) = 0 \<and> n \<noteq> heap_end h")
  case False
  have nx: "hm_next (hdr h p) = n" using chain_mid(1) [OF c] .
  have "h' = h" using False by (auto simp: h' plug_forward_def Let_def nx)
  moreover have "hm_used (hdr h n) \<noteq> 0" using False c(2) by (auto simp: heap_frame_def)
  ultimately show ?thesis using that [of n ys] c a l by (simp add: same_frame_def apart_def)
next
  case True
  then obtain k zs where ys: "ys = k # zs" using chain_mid(6) [OF c] by (cases ys) auto
  have nx: "hm_next (hdr h p) = n" "hm_next (hdr h n) = k" "p \<noteq> n" "p \<noteq> k" "n \<noteq> k"
    using chain_mid(1,2) [OF c] chain_mid(1,2) [of h "xs @ [p]" n k zs] c by (auto simp: ys)
  define g where "g = (hdr h)(p := (hdr h p)\<lparr>hm_next := k\<rparr>, k := (hdr h k)\<lparr>hm_prev := p\<rparr>)"
  have h'_eq: "hdr h' = g" "same_frame h h'" "used_mem h' = used_mem h" "lfree h' = (if lfree h = n then p else lfree h)"
    using True nx by (auto simp: h' plug_forward_def Let_def set_hdr_def same_frame_def g_def fun_eq_iff)
  have u': "hm_used (hdr h n) = 0" using True by simp
  note r = remove_unused [OF c(1) [unfolded ys] c(2) u u' h'_eq(1) [unfolded g_def] h'_eq(2,3)]
  have "hm_used (hdr h k) \<noteq> 0" "successively (apart (hdr h)) (k # zs)" using a True by (auto simp: ys apart_def)
  then have "successively (apart (hdr h')) (p # k # zs)"
    using apart_cong [of "hdr h" "k # zs" "hdr h'"] r(3) by (auto simp: apart_def)
  moreover have "lfree_ok h' (xs @ p # k # zs)" using l h'_eq(2,4) u r(3) by (auto simp: lfree_ok_def same_frame_def ys)
  moreover have "lfree h' = lfree h \<or> lfree h = n \<and> lfree h' = p" "set zs \<subseteq> set ys" "k \<in> set (n # ys)"
    using h'_eq(4) by (auto simp: ys)
  ultimately show ?thesis using that [of k zs] r h'_eq(2) by (simp add: ys)
qed

lemma plug_backward_ok:
  assumes c: "heap_chain h (xs @ p # n # ys)" "heap_frame h" and u: "hm_used (hdr h p) = 0"
    and a: "successively (apart (hdr h)) (p # n # ys)" "successively (apart (hdr h)) xs"
    and l: "lfree_ok h (xs @ p # n # ys)" and h': "h' = plug_backward p h"
  obtains os where "heap_ok h' os" "same_frame h h'" "used_blocks h' os = used_blocks h (xs @ p # n # ys)"
    "\<And>x. hm_used (hdr h' x) = hm_used (hdr h x)" "set os \<subseteq> set (xs @ p # n # ys)"
    "lfree h' = lfree h \<or> lfree h = p \<and> xs \<noteq> [] \<and> lfree h' = last xs"
proof (cases "xs = [] \<or> hm_used (hdr h (last xs)) \<noteq> 0")
  case True
  have pe: "p \<noteq> heap_end h" using chain_mid(2,3) [OF c] by auto
  have "h' = h"
  proof (cases xs rule: rev_cases)
    case Nil
    then have "p = 0" using c(1) by (simp add: heap_chain_def)
    then show ?thesis using c(2) by (simp add: h' plug_backward_def Let_def heap_frame_def)
  next
    case (snoc ws w)
    then have "hm_prev (hdr h p) = w" using chain_mid(5) [of h ws w p "n # ys"] c pe by auto
    with True snoc show ?thesis by (simp add: h' plug_backward_def Let_def)
  qed
  moreover have "successively (apart (hdr h)) (xs @ p # n # ys)"
    using a True by (auto simp: successively_append_iff apart_def)
  ultimately show ?thesis using that [of "xs @ p # n # ys"] c l by (simp add: heap_ok_def same_frame_def)
next
  case False
  then obtain ws w where xs: "xs = ws @ [w]" "hm_used (hdr h w) = 0" by (cases xs rule: rev_cases) auto
  have c': "heap_chain h (ws @ w # p # n # ys)" using c(1) by (simp add: xs)
  have pe: "p \<noteq> heap_end h" using chain_mid(2,3) [OF c] by auto
  have pv: "hm_prev (hdr h p) = w" "hm_next (hdr h p) = n" "w \<noteq> p" "w \<noteq> n" "p \<noteq> n"
    using chain_mid(5,2) [OF c' c(2)] chain_mid(1,2) [OF c] pe by auto
  define g where "g = (hdr h)(w := (hdr h w)\<lparr>hm_next := n\<rparr>, n := (hdr h n)\<lparr>hm_prev := w\<rparr>)"
  have h'_eq: "hdr h' = g" "same_frame h h'" "used_mem h' = used_mem h" "lfree h' = (if lfree h = p then w else lfree h)"
    using xs(2) pv by (auto simp: h' plug_backward_def Let_def set_hdr_def same_frame_def g_def fun_eq_iff)
  note r = remove_unused [OF c' c(2) xs(2) u h'_eq(1) [unfolded g_def] h'_eq(2,3)]
  have "hm_used (hdr h n) \<noteq> 0" "successively (apart (hdr h)) (n # ys)" using a(1) u by (auto simp: apart_def)
  then have "successively (apart (hdr h)) (ws @ w # n # ys)"
    using a(2) by (auto simp: xs successively_append_iff apart_def)
  then have "successively (apart (hdr h')) (ws @ w # n # ys)" using apart_cong r(3) by blast
  moreover have "lfree_ok h' (ws @ w # n # ys)" using l h'_eq(2,4) xs(2) r(3) by (auto simp: lfree_ok_def same_frame_def xs)
  ultimately show ?thesis
    using that [of "ws @ w # n # ys"] r h'_eq(2,4) by (simp add: xs heap_ok_def subset_iff split: if_splits)
qed

lemma plug_holes_ok:
  assumes c: "heap_chain h (xs @ p # n # ys)" "heap_frame h" and u: "hm_used (hdr h p) = 0"
    and a: "successively (apart (hdr h)) xs" "successively (apart (hdr h)) (n # ys)" and l: "lfree_ok h (xs @ p # n # ys)"
  obtains h' os where "plug_holes p h = Some h'" "heap_ok h' os" "same_frame h h'"
    "used_blocks h' os = used_blocks h (xs @ p # n # ys)" "\<And>x. hm_used (hdr h' x) = hm_used (hdr h x)"
    "lfree h' \<le> lfree h" "set os \<subseteq> set (xs @ p # n # ys)"
proof -
  obtain k zs where f: "heap_chain (plug_forward p h) (xs @ p # k # zs)" "heap_frame (plug_forward p h)"
      "successively (apart (hdr (plug_forward p h))) (p # k # zs)" "lfree_ok (plug_forward p h) (xs @ p # k # zs)"
      "same_frame h (plug_forward p h)" "\<And>x. hm_used (hdr (plug_forward p h) x) = hm_used (hdr h x)"
      "used_blocks (plug_forward p h) (xs @ p # k # zs) = used_blocks h (xs @ p # n # ys)"
      "lfree (plug_forward p h) = lfree h \<or> lfree h = n \<and> lfree (plug_forward p h) = p"
      "set zs \<subseteq> set ys" "k \<in> set (n # ys)"
    using plug_forward_ok [OF c u a(2) l refl] by metis
  have "successively (apart (hdr (plug_forward p h))) xs" using apart_cong [OF a(1)] f(6) by blast
  moreover have "hm_used (hdr (plug_forward p h) p) = 0" using f(6) u by simp
  ultimately obtain os where b: "heap_ok (plug_backward p (plug_forward p h)) os"
      "same_frame (plug_forward p h) (plug_backward p (plug_forward p h))"
      "used_blocks (plug_backward p (plug_forward p h)) os = used_blocks (plug_forward p h) (xs @ p # k # zs)"
      "\<And>x. hm_used (hdr (plug_backward p (plug_forward p h)) x) = hm_used (hdr (plug_forward p h) x)"
      "lfree (plug_backward p (plug_forward p h)) = lfree (plug_forward p h) \<or>
       lfree (plug_forward p h) = p \<and> xs \<noteq> [] \<and> lfree (plug_backward p (plug_forward p h)) = last xs"
      "set os \<subseteq> set (xs @ p # k # zs)"
    using plug_backward_ok [OF f(1,2) _ f(3) _ f(4) refl] by metis
  have "p < heap_end h" using chain_mid(2,3) [OF c] by linarith
  then have "plug_holes p h = Some (plug_backward p (plug_forward p h))" using u by (simp add: plug_holes_def)
  moreover have "same_frame h (plug_backward p (plug_forward p h))" using f(5) b(2) by (simp add: same_frame_def)
  moreover have "lfree (plug_backward p (plug_forward p h)) \<le> lfree h"
  proof -
    have "xs \<noteq> [] \<Longrightarrow> last xs < p" "p < n" using chain_mid(2,11) [OF c] last_in_set [of xs] by auto
    then show ?thesis using f(8) b(5) by linarith
  qed
  moreover have "set os \<subseteq> set (xs @ p # n # ys)" using b(6) f(9,10) by auto
  ultimately show ?thesis using that b(1,3,4) f(6,7) by simp
qed

section \<open>Release\<close>

lemma used_blocksD:
  assumes "heap_chain h os" and "(p, n) \<in> set (used_blocks h os)"
  obtains xs ys where "os = xs @ p # n # ys" "hm_used (hdr h p) \<noteq> 0" "hm_next (hdr h p) = n" "p \<noteq> heap_end h"
proof -
  have p: "p \<in> set (butlast os)" "hm_used (hdr h p) \<noteq> 0" "hm_next (hdr h p) = n"
    using assms(2) by (auto simp: used_blocks_def)
  have "p \<noteq> heap_end h"
  proof
    assume "p = heap_end h"
    then have "p = last os" "os \<noteq> []" using assms(1) by (auto simp: heap_chain_def)
    then show False using chain_distinct [OF assms(1)] p(1) by (metis append_butlast_last_id distinct_append
          disjoint_iff list.set_intros(1))
  qed
  moreover obtain xs k ys where s: "os = xs @ p # k # ys"
    using chain_split [OF assms(1) in_set_butlastD [OF p(1)]] \<open>p \<noteq> heap_end h\<close> by metis
  moreover have "link (hdr h) (heap_end h) p k" using assms(1) by (simp add: heap_chain_def s linked_mid)
  ultimately show ?thesis using that p by (auto simp: link_def)
qed

lemma rt_free_ok:
  assumes ok: "heap_ok h os" and b: "(p, n) \<in> set (used_blocks h os)"
  obtains h' os' where "rt_free (Some (heap_ptr h + p + 12)) h = Some h'" "heap_ok h' os'" "same_frame h h'"
    "set (used_blocks h' os') = set (used_blocks h os) - {(p, n)}" "lfree_low h os \<longrightarrow> lfree_low h' os'" "lfree h' \<le> p" "hm_used (hdr h' p) = 0"
proof -
  have c: "heap_frame h" "heap_chain h os" "lfree_ok h os" "successively (apart (hdr h)) os"
    using ok by (simp_all add: heap_ok_def)
  obtain xs ys where s: "os = xs @ p # n # ys" "hm_used (hdr h p) \<noteq> 0" "hm_next (hdr h p) = n" "p \<noteq> heap_end h"
    using used_blocksD [OF c(2) b] .
  note mid = chain_mid [OF c(2) [unfolded s(1)] c(1)]
  have al: "4 dvd p" "block_ok (hdr h p)" using chain_aligned [OF c(2), of p] s by auto
  define g where "g = h\<lparr>hdr := (hdr h)(p := (hdr h p)\<lparr>hm_used := 0, hm_magic := HEAP_MAGIC\<rparr>),
      lfree := (if p < lfree h then p else lfree h), used_mem := used_mem h - (of_nat n - of_nat p)\<rparr>"
  have g: "hdr g = (hdr h)(p := (hdr h p)\<lparr>hm_used := 0, hm_magic := HEAP_MAGIC\<rparr>)" "same_frame h g"
    "lfree g = min p (lfree h)" by (simp_all add: g_def same_frame_def min_def)
  have free: "rt_free (Some (heap_ptr h + p + 12)) h = plug_holes p g"
    using c(1) al s mid(2,3) by (auto simp: rt_free_def Let_def g_def set_hdr_def block_ok_def heap_frame_def
        mod_eq_0_iff_dvd intro!: arg_cong [of _ _ "plug_holes p"])
  have dis: "p \<notin> set xs" "p \<noteq> n" "p \<notin> set ys" using mid by auto
  have "linked (hdr g) (heap_end h) os"
    by (rule linked_cong [of "hdr h"]) (use c(2) chain_aligned [OF c(2)] in \<open>auto simp: heap_chain_def g block_ok_def\<close>)
  moreover have parts: "used_total (hdr g) (xs @ [p]) = used_total (hdr h) (xs @ [p])"
      "used_total (hdr g) (n # ys) = used_total (hdr h) (n # ys)"
    by (rule used_total_cong; use dis in \<open>auto simp: g split: if_splits dest: in_set_butlastD\<close>)+
  then have "used_total (hdr h) os = used_total (hdr g) os + (n - p)"
    using s(2,3) by (simp add: s(1) used_total_mid [of _ xs] g)
  moreover have "used_mem g = used_mem h - of_nat (n - p)" using mid(2) by (simp add: g_def of_nat_diff)
  ultimately have gc: "heap_chain g os" using c(2) g(2) by (simp add: heap_chain_def same_frame_def)
  have gf: "heap_frame g" using c(1) g(2) s(4) by (auto simp: heap_frame_def same_frame_def g(1))
  have gl: "lfree_ok g os" using c(3) g s(4) by (auto simp: lfree_ok_def same_frame_def min_def s(1))
  have ga: "successively (apart (hdr g)) xs" "successively (apart (hdr g)) (n # ys)"
    using c(4) dis by (auto simp: s(1) successively_append_iff g intro: apart_cong)
  have gu: "hm_used (hdr g p) = 0" by (simp add: g)
  obtain h' os' where p: "plug_holes p g = Some h'" "heap_ok h' os'" "same_frame g h'"
      "used_blocks h' os' = used_blocks g os" "\<And>x. hm_used (hdr h' x) = hm_used (hdr g x)"
      "lfree h' \<le> lfree g" "set os' \<subseteq> set os"
    using plug_holes_ok [OF gc [unfolded s(1)] gf gu ga gl [unfolded s(1)]] s(1) by metis
  have "used_blocks g (xs @ [p]) = used_blocks h (xs @ [p])" "used_blocks g (n # ys) = used_blocks h (n # ys)"
    by (rule used_blocks_cong; use dis in \<open>auto simp: g split: if_splits dest: in_set_butlastD\<close>)+
  then have "set (used_blocks g os) = set (used_blocks h os) - {(p, n)}"
    using s(2,3) dis by (auto simp: s(1) used_blocks_mid [of _ xs] g used_blocks_def split: if_splits dest: in_set_butlastD)
  moreover have "lfree_low h' os'" if "lfree_low h os"
    using that p(5,6,7) g by (auto simp: lfree_low_def)
  ultimately show ?thesis
    using that [of h' os'] free p(1-6) g gu by (auto simp: same_frame_def)
qed

section \<open>Resizing\<close>

lemma realloc_split_ok:
  assumes ok: "heap_ok h os" and b: "(p, k) \<in> set (used_blocks h os)"
    and n: "4 dvd n" "0 < n" "n + 24 < k - p - 12" and q: "q = p + 12 + n"
  obtains h' os' where "realloc_split p (k - p - 12) n h = Some h'" "heap_ok h' os'" "same_frame h h'"
    "set (used_blocks h' os') = insert (p, q) (set (used_blocks h os) - {(p, k)})"
proof -
  have c: "heap_frame h" "heap_chain h os" "lfree_ok h os" "successively (apart (hdr h)) os"
    using ok by (simp_all add: heap_ok_def)
  obtain xs ys where s: "os = xs @ p # k # ys" "hm_used (hdr h p) \<noteq> 0" "hm_next (hdr h p) = k" "p \<noteq> heap_end h"
    using used_blocksD [OF c(2) b] .
  note mid = chain_mid [OF c(2) [unfolded s(1)] c(1)]
  have qs: "p < q" "q + 12 < k" "p + 12 < q" "q < k" "p \<noteq> k" using n(2,3) q by linarith+
  note fresh = insert_fresh [OF c(2) [unfolded s(1)] c(1) qs(1,4)]
  define gb where "gb = (hdr h)(q := \<lparr>hm_magic = HEAP_MAGIC, hm_used = 0, hm_next = k, hm_prev = p\<rparr>,
      p := (hdr h p)\<lparr>hm_next := q\<rparr>, k := (if k = heap_end h then hdr h k else (hdr h k)\<lparr>hm_prev := q\<rparr>))"
  define g where "g = h\<lparr>hdr := gb, used_mem := used_mem h - of_nat (k - p - 12 - n)\<rparr>"
  have split: "realloc_split p (k - p - 12) n h = plug_holes q g"
    using c(1) s(3) qs(1,4) by (auto simp: realloc_split_def Let_def g_def gb_def set_hdr_def heap_frame_def q fun_eq_iff
        intro!: arg_cong [of _ _ "plug_holes (p + 12 + n)"])
  have al: "4 dvd q" "block_ok (gb p)" "block_ok (gb k)"
    using chain_aligned [OF c(2), of p] chain_aligned [OF c(2), of k] n(1) qs s(1) by (auto simp: q gb_def block_ok_def)
  have l: "linked gb (heap_end h) (xs @ p # q # k # ys)"
    using c(2) chain_distinct [OF c(2)] fresh al qs
    by (intro linked_insert [of "hdr h"]) (auto simp: heap_chain_def s(1) gb_def)
  have dis: "p \<notin> set xs" "p \<notin> set ys" "k \<notin> set xs" "k \<notin> set ys" "q \<notin> set xs" "q \<notin> set ys" "q \<noteq> k" "q \<noteq> p"
    using mid fresh by auto
  have keep: "hm_used (gb x) = hm_used (hdr h x)" if "x \<noteq> q" for x using that by (simp add: gb_def)
  have nx: "hm_next (gb x) = hm_next (hdr h x)" if "x \<noteq> q" "x \<noteq> p" for x using that by (simp add: gb_def)
  have same: "hm_used (gb x) = hm_used (hdr h x) \<and> hm_next (gb x) = hm_next (hdr h x)" if "x \<in> set (xs @ k # ys)" for x
  proof -
    have "x \<noteq> q" "x \<noteq> p" using that dis qs by auto
    then show ?thesis by (simp add: keep nx)
  qed
  have "used_total gb (xs @ [p]) = used_total (hdr h) (xs @ [p])"
    by (rule used_total_cong, rule same) simp
  moreover have "used_total gb (k # ys) = used_total (hdr h) (k # ys)"
    by (rule used_total_cong, rule same) (metis UnCI in_set_butlastD set_append)
  moreover have "used_total gb (q # k # ys) = used_total gb (k # ys)"
    using used_total_mid [of gb "[]" q k ys] dis by (simp add: gb_def used_total_def)
  moreover have "hm_used (gb p) \<noteq> 0" "hm_next (gb p) = q" using s(2) qs by (simp_all add: gb_def)
  then have "used_total gb (xs @ p # q # k # ys) = used_total gb (xs @ [p]) + (q - p) + used_total gb (q # k # ys)"
    using used_total_mid [of gb xs p q "k # ys"] by simp
  moreover have "used_total (hdr h) os = used_total (hdr h) (xs @ [p]) + (k - p) + used_total (hdr h) (k # ys)"
    using used_total_mid [of "hdr h" xs p k ys] s by simp
  moreover have "k - p = (q - p) + (k - p - 12 - n)" using qs n q by linarith
  ultimately have "used_total (hdr h) os = used_total gb (xs @ p # q # k # ys) + (k - p - 12 - n)" by linarith
  then have gc: "heap_chain g (xs @ p # q # k # ys)"
    using c(2) l by (auto simp: heap_chain_def g_def s(1) hd_append)
  have gf: "heap_frame g" using c(1) s(4) fresh qs by (auto simp: heap_frame_def g_def gb_def)
  have gl: "lfree_ok g (xs @ p # q # k # ys)"
  proof -
    have "lfree h \<in> set os" using c(3) by (simp add: lfree_ok_def)
    then have "lfree h \<noteq> q" using fresh(1) s(1) by auto
    then show ?thesis using c(3) keep [of "lfree h"] s(1) by (auto simp: lfree_ok_def g_def)
  qed
  have ga: "successively (apart gb) (xs @ [p])" "successively (apart gb) (k # ys)"
  proof -
    have a: "successively (apart (hdr h)) (xs @ [p])" "successively (apart (hdr h)) (k # ys)"
      using c(4) by (auto simp: s(1) successively_mid)
    have u: "hm_used (gb x) = hm_used (hdr h x)" if "x \<in> set (xs @ [p]) \<or> x \<in> set (k # ys)" for x
      by (rule keep) (use that dis in auto)
    show "successively (apart gb) (xs @ [p])" by (rule apart_cong [OF a(1)], rule u, rule disjI1)
    show "successively (apart gb) (k # ys)" by (rule apart_cong [OF a(2)], rule u, rule disjI2)
  qed
  obtain h' os' where r: "plug_holes q g = Some h'" "heap_ok h' os'" "same_frame g h'"
      "used_blocks h' os' = used_blocks g (xs @ p # q # k # ys)"
    using plug_holes_ok [of g "xs @ [p]" q k ys] gc gf gl ga by (simp add: g_def gb_def dis qs) metis
  have hg: "hdr g = gb" by (simp add: g_def)
  have "used_blocks g (xs @ [p]) = used_blocks h (xs @ [p])"
    by (rule used_blocks_cong, unfold hg, rule same) simp
  moreover have "used_blocks g (k # ys) = used_blocks h (k # ys)"
    by (rule used_blocks_cong, unfold hg, rule same) (metis UnCI in_set_butlastD set_append)
  moreover have "used_blocks g (q # k # ys) = used_blocks g (k # ys)"
    using used_blocks_mid [of g "[]" q k ys] dis by (simp add: g_def gb_def used_blocks_def)
  ultimately have "set (used_blocks g (xs @ p # q # k # ys)) = insert (p, q) (set (used_blocks h os) - {(p, k)})"
    using s(2,3) dis qs by (auto simp: s(1) used_blocks_mid [of _ xs] g_def gb_def)
      (auto simp: used_blocks_def dest: in_set_butlastD split: if_splits)
  then show ?thesis using that [of h' os'] split r by (simp add: same_frame_def g_def)
qed

end
