(* ===== verification/Rt_Heap.thy ===== *)
theory Rt_Heap
  imports Rt_Mem
begin

text \<open>
  What the heap of \<open>rt-thread/src/mem.c\<close> (theory \<open>Rt_Mem\<close>) promises its callers, over every
  history of allocations, releases and resizings of live blocks that follows
  \<open>rt_system_heap_init\<close>: no call fails an assertion or searches forever, blocks in use do not
  overlap and keep their bytes, the usage counter is exact, and what is released can be
  allocated again. The promise to a client is the locale \<open>block_store\<close>, interpreted on the
  heap at the end.
\<close>
section \<open>Running the heap\<close>

text \<open>The pointers handed out and the size of the data behind one.\<close>

definition live :: "rt_heap \<Rightarrow> nat list \<Rightarrow> nat set" where
  "live h os = (\<lambda>(x, n). heap_ptr h + x + 12) ` set (used_blocks h os)"

definition user_size :: "rt_heap \<Rightarrow> nat \<Rightarrow> nat" where
  "user_size h p = (let x = p - heap_ptr h - 12 in hm_next (hdr h x) - x - 12)"

definition heap_ready :: "u32 \<Rightarrow> u32 \<Rightarrow> bool" where
  "heap_ready b e \<longleftrightarrow> (let lo = RT_ALIGN b; hi = e AND NOT (4 - 1)
     in hi > 24 \<and> hi - 24 \<ge> lo \<and> 12 \<le> unat (hi - lo - 24))"

text \<open>The heaps reached from initialisation by allocating, releasing and resizing live blocks, with
  the live pointers.\<close>

inductive heap_run :: "rt_heap \<Rightarrow> nat set \<Rightarrow> bool" where
  start: "heap_ready b e \<Longrightarrow> used_mem h = 0 \<Longrightarrow> heap_run (rt_system_heap_init b e h) {}"
| malloc: "heap_run h L \<Longrightarrow> rt_malloc sz h = Some (h', r) \<Longrightarrow> heap_run h' (L \<union> set_option r)"
| free: "heap_run h L \<Longrightarrow> p \<in> L \<Longrightarrow> rt_free (Some p) h = Some h' \<Longrightarrow> heap_run h' (L - {p})"
| realloc: "heap_run h L \<Longrightarrow> p \<in> L \<Longrightarrow> rt_realloc (Some p) n (h, m) = Some ((h', m'), r) \<Longrightarrow>
    heap_run h' (if unat (RT_ALIGN n) = 0 then L - {p}
                 else case r of None \<Rightarrow> L | Some q \<Rightarrow> insert q (L - {p}))"

lemma live_block:
  assumes "heap_chain h os" and "(x, n) \<in> set (used_blocks h os)"
  shows "user_size h (heap_ptr h + x + 12) = n - x - 12" "x + 12 < n" "heap_ptr h + x + 12 \<in> live h os"
proof -
  obtain xs ys where s: "os = xs @ x # n # ys" "hm_next (hdr h x) = n" using used_blocksD [OF assms] by metis
  then show "x + 12 < n" using assms(1) by (simp add: heap_chain_def linked_mid link_def)
  show "user_size h (heap_ptr h + x + 12) = n - x - 12" using s by (simp add: user_size_def)
  show "heap_ptr h + x + 12 \<in> live h os" using assms(2) by (force simp: live_def)
qed

lemma liveE:
  assumes "p \<in> live h os"
  obtains x n where "(x, n) \<in> set (used_blocks h os)" "p = heap_ptr h + x + 12"
  using assms by (auto simp: live_def)

lemma live_inj:
  assumes "heap_chain h os" and "(x, n) \<in> set (used_blocks h os)"
  shows "live h os - {heap_ptr h + x + 12} = (\<lambda>(y, k). heap_ptr h + y + 12) ` (set (used_blocks h os) - {(x, n)})"
  using assms by (auto simp: live_def used_blocks_def)

lemma heap_ok_start:
  assumes "heap_ready b e" and "used_mem h = 0" and "h' = rt_system_heap_init b e h"
  shows "heap_ok h' [0, heap_end h']" and "12 \<le> mem_size_aligned h'" and "live h' [0, heap_end h'] = {}"
    and "lfree_low h' [0, heap_end h']"
proof -
  define lo hi where "lo = RT_ALIGN b" and "hi = e AND NOT (4 - 1)"
  have r: "hi > 24" "hi - 24 \<ge> lo" "12 \<le> unat (hi - lo - 24)"
    using assms(1) by (simp_all add: heap_ready_def Let_def lo_def hi_def)
  have u24: "unat (hi - 24) = unat hi - 24"
    using r(1) by (simp add: unat_sub_if' word_less_nat_alt)
  have e: "hi - lo - 24 = (hi - 24) - lo" by (simp add: algebra_simps)
  have sz: "unat (hi - lo - 24) = unat hi - 24 - unat lo"
    unfolding e unat_sub [OF r(2)] u24 ..
  define n where "n = unat (hi - lo - 24)"
  have h': "h' = h\<lparr>mem_size_aligned := n, heap_ptr := unat lo,
      hdr := (hdr h)(0 := \<lparr>hm_magic = HEAP_MAGIC, hm_used = 0, hm_next = n + 12, hm_prev = 0\<rparr>,
        n + 12 := \<lparr>hm_magic = HEAP_MAGIC, hm_used = 1, hm_next = n + 12, hm_prev = n + 12\<rparr>),
      heap_end := n + 12, lfree := 0\<rparr>"
    using r unfolding assms(3) rt_system_heap_init_def Let_def lo_def [symmetric] hi_def [symmetric] n_def by simp
  have "unat hi < 2 ^ 32" using unsigned_less [of hi, where 'a = nat] by simp
  then have bound: "unat lo + (n + 12) + 12 \<le> 2 ^ 32" using sz r(3) by (simp add: n_def)
  have al: "4 dvd unat lo" by (simp add: lo_def RT_ALIGN_dvd)
  have "hi AND 3 = 0" by (simp add: hi_def and.assoc)
  then have "take_bit 2 hi = 0" by (simp add: take_bit_eq_mask mask_eq_exp_minus_1)
  then have "take_bit 2 (unat hi) = 0" by (metis unsigned_0 unsigned_take_bit_eq)
  then have "4 dvd unat hi" by (simp add: take_bit_eq_mod mod_eq_0_iff_dvd)
  then have "4 dvd n" using al sz r(3) by (simp add: n_def dvd_diff_nat)
  show "12 \<le> mem_size_aligned h'" using r(3) by (simp add: h' n_def)
  then have n12: "12 \<le> n" by (simp add: h')
  show "heap_ok h' [0, heap_end h']"
    using bound al \<open>4 dvd n\<close> n12 assms(2)
    by (simp add: heap_ok_def h' heap_frame_def heap_chain_def linked_def link_def lfree_ok_def apart_def block_ok_def used_total_def)
  show "live h' [0, heap_end h'] = {}" "lfree_low h' [0, heap_end h']"
    by (simp_all add: live_def used_blocks_def h' lfree_low_def)
qed

lemma rt_malloc_ok:
  assumes ok: "heap_ok h os" and small: "12 \<le> mem_size_aligned h"
  obtains h' r os' where "rt_malloc sz h = Some (h', r)" "heap_ok h' os'" "same_frame h h'" "live h' os' = live h os \<union> set_option r"
    "lfree_low h os \<longrightarrow> lfree_low h' os'" "set (used_blocks h os) \<subseteq> set (used_blocks h' os')" "r = None \<longrightarrow> h' = h"
    "\<And>p. r = Some p \<Longrightarrow> \<exists>x m. p = heap_ptr h + x + 12 \<and> (x, m) \<in> set (used_blocks h' os') \<and>
        x \<notin> fst ` set (used_blocks h os) \<and> x + 12 + malloc_size sz \<le> m"
proof (cases "sz \<noteq> 0 \<and> unat (RT_ALIGN sz) \<le> mem_size_aligned h")
  case False
  then have "rt_malloc sz h = Some (h, None)" by (auto simp: rt_malloc_def)
  then show ?thesis using that [of h None os] ok by (simp add: same_frame_def)
next
  case True
  let ?f = "find (fits h (malloc_size sz)) (takeWhile (\<lambda>x. x < mem_size_aligned h - malloc_size sz)
        (filter (\<lambda>x. lfree h \<le> x) os))"
  have r: "case ?f of None \<Rightarrow> rt_malloc sz h = Some (h, None)
    | Some p \<Rightarrow> \<exists>h' m os'. rt_malloc sz h = Some (h', Some (heap_ptr h + p + 12)) \<and> heap_ok h' os' \<and> same_frame h h' \<and>
        p \<in> set (butlast os) \<and> hm_used (hdr h p) = 0 \<and> p + 12 + malloc_size sz \<le> m \<and> m \<le> hm_next (hdr h p) \<and>
        p \<in> set (butlast os') \<and> set (used_blocks h' os') = insert (p, m) (set (used_blocks h os)) \<and>
        (lfree_low h os \<longrightarrow> lfree_low h' os')"
    using rt_malloc_cases [OF ok] True small by simp
  show ?thesis
  proof (cases ?f)
    case None
    then show ?thesis using r that [of h None os] ok by (simp add: same_frame_def)
  next
    case (Some p)
    then obtain h' m os' where m: "rt_malloc sz h = Some (h', Some (heap_ptr h + p + 12))" "heap_ok h' os'" "same_frame h h'"
        "hm_used (hdr h p) = 0" "p + 12 + malloc_size sz \<le> m"
        "set (used_blocks h' os') = insert (p, m) (set (used_blocks h os))" "lfree_low h os \<longrightarrow> lfree_low h' os'"
      using r by auto
    have "p \<notin> fst ` set (used_blocks h os)" using m(4) by (auto simp: used_blocks_def)
    moreover have "live h' os' = live h os \<union> {heap_ptr h + p + 12}"
      using m(3,6) by (auto simp: live_def same_frame_def)
    ultimately show ?thesis using that [of h' "Some (heap_ptr h + p + 12)" os'] m by auto
  qed
qed

lemma RT_ALIGN_and: "RT_ALIGN sz AND 3 = 0"
  by (simp add: RT_ALIGN_def and.assoc)

lemma RT_ALIGN_idem: "RT_ALIGN (RT_ALIGN sz) = RT_ALIGN sz"
proof -
  define w where "w = RT_ALIGN sz"
  have z: "w AND 3 = 0" by (simp add: w_def RT_ALIGN_and)
  have "w + 4 - 1 = w OR 3" using disjunctive_add_eq_or [OF z] by (simp add: add.commute)
  then have "RT_ALIGN w = (w AND NOT 3) OR (3 AND NOT 3)" by (simp add: RT_ALIGN_def bit.conj_disj_distrib2)
  moreover have "w AND NOT 3 = w"
  proof -
    have "w = (w AND 3) OR (w AND NOT 3)" by (simp add: bit.conj_disj_distrib [symmetric])
    then show ?thesis using z by simp
  qed
  ultimately show ?thesis by (simp add: w_def)
qed

lemma RT_ALIGN_ge: "sz \<le> 0xFFFFFFFC \<Longrightarrow> unat sz \<le> unat (RT_ALIGN sz)"
proof -
  assume le: "sz \<le> 0xFFFFFFFC"
  define w where "w = sz + 3"
  have "unat sz \<le> 0xFFFFFFFC" using le by (simp add: word_le_nat_alt)
  then have w: "unat w = unat sz + 3" by (simp add: w_def unat_word_ariths)
  have "NOT w AND (w AND 3) = 0" by (simp add: and.assoc [symmetric])
  then have "w - (w AND 3) = w AND NOT (w AND 3)" by (rule disjunctive_diff_eq_and_not)
  also have "\<dots> = w AND NOT 3" by (simp add: bit.conj_disj_distrib)
  also have "\<dots> = RT_ALIGN sz" by (simp add: RT_ALIGN_def w_def add.commute)
  finally have "RT_ALIGN sz = w - (w AND 3)" ..
  moreover have "w AND 3 = take_bit 2 w" by (simp add: take_bit_eq_mask mask_eq_exp_minus_1)
  moreover have "unat (take_bit 2 w) = unat w mod 4" by (simp add: take_bit_eq_mod unat_mod)
  moreover have "take_bit 2 w \<le> w" by (simp add: word_le_nat_alt calculation(3))
  ultimately have "unat (RT_ALIGN sz) = unat w - unat w mod 4" by (simp add: unat_sub)
  moreover have "unat w mod 4 < 4" by simp
  ultimately show ?thesis using w by linarith
qed

lemma live_disjoint:
  assumes "heap_chain h os" and "(x, n) \<in> set (used_blocks h os)" and "(y, k) \<in> set (used_blocks h os)" and "x \<noteq> y"
  shows "n \<le> y \<or> k \<le> x"
  using assms blocks_disjoint [of h os x y] blocks_disjoint [of h os y x]
  by (cases "x < y") (auto simp: used_blocks_def)

lemma used_block_unique:
  "(x, n) \<in> set (used_blocks h os) \<Longrightarrow> (x, k) \<in> set (used_blocks h os) \<Longrightarrow> n = k"
  by (auto simp: used_blocks_def)

text \<open>The data of the live blocks of one heap are those of another, apart from the block \<open>p\<close>.\<close>

definition others_kept :: "nat \<Rightarrow> nat set \<Rightarrow> rt_heap \<times> mem \<Rightarrow> rt_heap \<times> mem \<Rightarrow> bool" where
  "others_kept p L = (\<lambda>(h, m) (h', m'). \<forall>q \<in> L - {p}. user_size h' q = user_size h q \<and>
     (\<forall>i < user_size h q. m' (q + i) = m (q + i)))"

lemma others_kept_blocks:
  assumes "heap_chain h os" and "heap_chain h' os'" and "same_frame h h'"
    and "(x, n) \<in> set (used_blocks h os)" and "p = heap_ptr h + x + 12"
    and "set (used_blocks h os) - {(x, n)} \<subseteq> set (used_blocks h' os')"
    and "\<And>y k a. (y, k) \<in> set (used_blocks h os) \<Longrightarrow> y \<noteq> x \<Longrightarrow> heap_ptr h + y + 12 \<le> a \<Longrightarrow> a < heap_ptr h + k \<Longrightarrow> m' a = m a"
  shows "others_kept p (live h os) (h, m) (h', m')"
proof -
  have "user_size h' q = user_size h q \<and> (\<forall>i < user_size h q. m' (q + i) = m (q + i))"
    if q: "q \<in> live h os" "q \<noteq> p" for q
  proof -
    obtain y k where y: "(y, k) \<in> set (used_blocks h os)" "q = heap_ptr h + y + 12" using q(1) by (rule liveE)
    then have "y \<noteq> x" using q(2) assms(5) by auto
    then have "(y, k) \<in> set (used_blocks h' os')" using y assms(6) by auto
    then show ?thesis
      using live_block [OF assms(1) y(1)] live_block [OF assms(2), of y k] assms(3) assms(7) [OF y(1) \<open>y \<noteq> x\<close>] y(2)
      by (auto simp: same_frame_def)
  qed
  then show ?thesis by (simp add: others_kept_def)
qed

lemma realloc_move_ok:
  assumes ok: "heap_ok h os" and x: "(x, k) \<in> set (used_blocks h os)" "p = heap_ptr h + x + 12"
    and mal: "rt_malloc sz h = Some (h1, Some q)" "heap_ok h1 os1" "same_frame h h1" "live h1 os1 = live h os \<union> {q}"
    and sub: "set (used_blocks h os) \<subseteq> set (used_blocks h1 os1)"
    and new: "q = heap_ptr h + y + 12" "(y, l) \<in> set (used_blocks h1 os1)" "y \<notin> fst ` set (used_blocks h os)" "y + 12 + n \<le> l"
    and m': "m' = rt_memcpy m q p (min (k - x - 12) n)"
  obtains h2 os2 where "rt_free (Some p) h1 = Some h2" "heap_ok h2 os2" "same_frame h h2"
    "live h2 os2 = insert q (live h os - {p})" "others_kept p (live h os) (h, m) (h2, m')" "q \<notin> live h os"
    "n \<le> user_size h2 q" "\<forall>i < min (user_size h p) n. m' (q + i) = m (p + i)"
proof -
  have c: "heap_chain h os" "heap_chain h1 os1" "heap_ptr h1 = heap_ptr h"
    using ok mal(2,3) by (simp_all add: heap_ok_def same_frame_def)
  have x1: "(x, k) \<in> set (used_blocks h1 os1)" using sub x(1) by auto
  have yx: "y \<noteq> x" using x(1) new(3) by force
  obtain h2 os2 where f: "rt_free (Some p) h1 = Some h2" "heap_ok h2 os2" "same_frame h1 h2"
      "set (used_blocks h2 os2) = set (used_blocks h1 os1) - {(x, k)}"
    using rt_free_ok [OF mal(2) x1] x(2) c(3) by metis
  have c2: "heap_chain h2 os2" "same_frame h h2" "heap_ptr h2 = heap_ptr h"
    using f(2,3) mal(3) by (simp_all add: heap_ok_def same_frame_def)
  have apart: "l \<le> z \<or> j \<le> y" if "(z, j) \<in> set (used_blocks h os)" for z j
    using live_disjoint [OF c(2) new(2), of z j] sub that new(3) by force
  have m: "m' = mem_copy m q p (min (k - x - 12) n)"
    unfolding m' using apart [OF x(1)] x(2) new(1,4) live_block(2) [OF c(1) x(1)] by (intro rt_memcpy_eq) linarith
  have "m' a = m a" if "(z, j) \<in> set (used_blocks h os)" "heap_ptr h + z + 12 \<le> a" "a < heap_ptr h + j" for z j a
    using apart [OF that(1)] that(2,3) new(1,4) by (auto simp: m mem_copy_def)
  moreover have "set (used_blocks h os) - {(x, k)} \<subseteq> set (used_blocks h2 os2)" using f(4) sub by auto
  ultimately have "others_kept p (live h os) (h, m) (h2, m')"
    using others_kept_blocks [OF c(1) c2(1,2) x] by blast
  moreover have "q \<notin> live h os" using new(1,3) by (force simp: live_def)
  moreover have "live h2 os2 = live h1 os1 - {p}"
    using live_inj [OF c(2) x1] c(3) c2(3) f(4) x(2) by (simp add: live_def)
  then have "live h2 os2 = insert q (live h os - {p})" using mal(4) yx x(2) new(1) by auto
  moreover have "n \<le> user_size h2 q"
    using live_block(1) [OF c2(1), of y l] f(4) new(1,2,4) yx c2(3) by simp
  moreover have "\<forall>i < min (user_size h p) n. m' (q + i) = m (p + i)"
    using live_block(1) [OF c(1) x(1)] x(2) by (simp add: m mem_copy_def)
  ultimately show ?thesis using that [of h2 os2] f(1,2) c2(2) by simp
qed

lemma rt_realloc_ok:
  assumes ok: "heap_ok h os" and small: "12 \<le> mem_size_aligned h" and p: "p \<in> live h os" and n: "n = unat (RT_ALIGN newsize)"
  obtains h' m' r os' where "rt_realloc (Some p) newsize (h, m) = Some ((h', m'), r)" "heap_ok h' os'" "same_frame h h'"
    "live h' os' = (if n = 0 then live h os - {p} else case r of None \<Rightarrow> live h os | Some q \<Rightarrow> insert q (live h os - {p}))"
    "others_kept p (live h os) (h, m) (h', m')"
    "\<And>q. r = Some q \<Longrightarrow> n \<noteq> 0 \<and> (q = p \<or> q \<notin> live h os) \<and> n \<le> user_size h' q \<and>
       (\<forall>i < min (user_size h p) n. m' (q + i) = m (p + i))"
    "r = None \<Longrightarrow> m' = m \<and> (n \<noteq> 0 \<longrightarrow> h' = h)"
proof -
  have c: "heap_frame h" "heap_chain h os" using ok by (simp_all add: heap_ok_def)
  obtain x k where x: "(x, k) \<in> set (used_blocks h os)" "p = heap_ptr h + x + 12" using p by (rule liveE)
  note us = live_block [OF c(2) x(1), folded x(2)]
  obtain xs ys where s: "os = xs @ x # k # ys" "hm_next (hdr h x) = k" "x \<noteq> heap_end h" using used_blocksD [OF c(2) x(1)] by metis
  note mid = chain_mid [OF c(2) [unfolded s(1)] c(1)]
  have inside: "\<not> (p < heap_ptr h \<or> heap_ptr h + heap_end h \<le> p)" "\<not> p < heap_ptr h + SIZEOF_STRUCT_MEM"
    "p - heap_ptr h - SIZEOF_STRUCT_MEM = x" using x(2) mid(2,3) by auto
  have sz: "usub (usub (hm_next (hdr h x)) x) SIZEOF_STRUCT_MEM = k - x - 12"
    using mid(2,4) by (simp add: s(2) usub_le)
  have R: "rt_realloc (Some p) newsize (h, m) = (if n > mem_size_aligned h then Some ((h, m), None)
     else if n = 0 then map_option (\<lambda>h1. ((h1, m), None)) (rt_free (Some p) h)
     else if k - x - 12 = n then Some ((h, m), Some p)
     else if n + SIZEOF_STRUCT_MEM + MIN_SIZE < k - x - 12
     then map_option (\<lambda>h1. ((h1, m), Some p)) (realloc_split x (k - x - 12) n h)
     else case rt_malloc (RT_ALIGN newsize) h of None \<Rightarrow> None | Some (h1, None) \<Rightarrow> Some ((h1, m), None)
       | Some (h1, Some nmem) \<Rightarrow>
           map_option (\<lambda>h2. ((h2, rt_memcpy m nmem p (min (k - x - 12) n)), Some nmem)) (rt_free (Some p) h1))"
    unfolding rt_realloc_def Let_def case_prod_conv option.case n [symmetric] inside(3) sz
    by (simp only: inside(1,2) if_False)
  have d4: "4 dvd n" by (simp add: n RT_ALIGN_dvd)
  have kept: "others_kept p (live h os) (h, m) (h', m)"
    if "heap_chain h' os'" "same_frame h h'" "set (used_blocks h os) - {(x, k)} \<subseteq> set (used_blocks h' os')" for h' os'
    using others_kept_blocks [OF c(2) that(1,2) x that(3)] by simp
  consider (big) "mem_size_aligned h < n" | (zero) "n = 0" | (same) "n \<le> mem_size_aligned h" "n \<noteq> 0" "k - x - 12 = n"
    | (split) "n \<le> mem_size_aligned h" "n \<noteq> 0" "n + 24 < k - x - 12"
    | (move) "n \<le> mem_size_aligned h" "n \<noteq> 0" "k - x - 12 \<noteq> n" "\<not> n + 24 < k - x - 12"
    by linarith
  then show ?thesis
  proof cases
    case big
    then have "rt_realloc (Some p) newsize (h, m) = Some ((h, m), None)" by (simp add: R)
    then show ?thesis using that [of h m None os] ok kept [OF c(2)] big by (simp add: same_frame_def)
  next
    case zero
    obtain h' os' where f: "rt_free (Some p) h = Some h'" "heap_ok h' os'" "same_frame h h'"
        "set (used_blocks h' os') = set (used_blocks h os) - {(x, k)}"
      using rt_free_ok [OF ok x(1)] x(2) by metis
    have "rt_realloc (Some p) newsize (h, m) = Some ((h', m), None)" using f(1) zero by (simp add: R)
    moreover have "live h' os' = live h os - {p}"
      using live_inj [OF c(2) x(1)] f(3,4) x(2) by (simp add: live_def same_frame_def)
    ultimately show ?thesis using that [of h' m None os'] f kept [of h' os'] zero by (simp add: heap_ok_def)
  next
    case same
    then have "rt_realloc (Some p) newsize (h, m) = Some ((h, m), Some p)" by (simp add: R)
    then show ?thesis using that [of h m "Some p" os] ok same kept [OF c(2)] p us by (simp add: same_frame_def insert_absorb)
  next
    case split
    obtain h' os' where f: "realloc_split x (k - x - 12) n h = Some h'" "heap_ok h' os'" "same_frame h h'"
        "set (used_blocks h' os') = insert (x, x + 12 + n) (set (used_blocks h os) - {(x, k)})"
      using realloc_split_ok [OF ok x(1) d4 _ split(3) refl] split(2) by auto
    have c': "heap_chain h' os'" "heap_ptr h' = heap_ptr h" using f(2,3) by (simp_all add: heap_ok_def same_frame_def)
    have "rt_realloc (Some p) newsize (h, m) = Some ((h', m), Some p)" using f(1) split by (simp add: R)
    moreover have "live h' os' = insert p (live h os - {p})"
      using live_inj [OF c(2) x(1)] c' f(4) x(2) by (simp add: live_def)
    moreover have "user_size h' p = n" using live_block(1) [OF c'(1), of x "x + 12 + n"] c'(2) f(4) x(2) by simp
    moreover have "set (used_blocks h os) - {(x, k)} \<subseteq> set (used_blocks h' os')" using f(4) by auto
    ultimately show ?thesis using that [of h' m "Some p" os'] f kept [OF c'(1) f(3)] split by simp
  next
    case move
    obtain h1 r os1 where a: "rt_malloc (RT_ALIGN newsize) h = Some (h1, r)" "heap_ok h1 os1" "same_frame h h1"
        "live h1 os1 = live h os \<union> set_option r" "set (used_blocks h os) \<subseteq> set (used_blocks h1 os1)" "r = None \<longrightarrow> h1 = h"
        "\<And>q. r = Some q \<Longrightarrow> \<exists>y l. q = heap_ptr h + y + 12 \<and> (y, l) \<in> set (used_blocks h1 os1) \<and>
          y \<notin> fst ` set (used_blocks h os) \<and> y + 12 + malloc_size (RT_ALIGN newsize) \<le> l"
      using rt_malloc_ok [OF ok small, of "RT_ALIGN newsize"] by metis
    show ?thesis
    proof (cases r)
      case None
      then have "rt_realloc (Some p) newsize (h, m) = Some ((h, m), None)" using a(1,6) move by (simp add: R)
      then show ?thesis using that [of h m None os] ok kept [OF c(2)] move by (simp add: same_frame_def)
    next
      case (Some q)
      obtain y l where y: "q = heap_ptr h + y + 12" "(y, l) \<in> set (used_blocks h1 os1)" "y \<notin> fst ` set (used_blocks h os)"
          "y + 12 + malloc_size (RT_ALIGN newsize) \<le> l" using a(7) [OF Some] by metis
      have "y + 12 + n \<le> l" using y(4) by (simp add: malloc_size_def RT_ALIGN_idem n)
      then obtain h2 os2 where f: "rt_free (Some p) h1 = Some h2" "heap_ok h2 os2" "same_frame h h2"
          "live h2 os2 = insert q (live h os - {p})"
          "others_kept p (live h os) (h, m) (h2, rt_memcpy m q p (min (k - x - 12) n))" "q \<notin> live h os"
          "n \<le> user_size h2 q" "\<forall>i < min (user_size h p) n. rt_memcpy m q p (min (k - x - 12) n) (q + i) = m (p + i)"
        using realloc_move_ok [OF ok x a(1)[unfolded Some] a(2,3) _ a(5) y(1-3) _ refl] a(4) Some by (simp add: Un_commute) metis
      have "rt_realloc (Some p) newsize (h, m) = Some ((h2, rt_memcpy m q p (min (k - x - 12) n)), Some q)"
        using a(1) Some f(1) move by (simp add: R)
      then show ?thesis
        using that [of h2 "rt_memcpy m q p (min (k - x - 12) n)" "Some q" os2] f move by simp
    qed
  qed
qed

section \<open>What the heap guarantees\<close>

lemma heap_run_ok:
  assumes "heap_run h L"
  obtains os where "heap_ok h os" "12 \<le> mem_size_aligned h" "L = live h os"
  using assms
proof (induction arbitrary: thesis)
  case (start b e h)
  then show ?case using heap_ok_start [OF start(1,2) refl] by metis
next
  case (malloc h L sz h' r)
  obtain os where o: "heap_ok h os" "12 \<le> mem_size_aligned h" "L = live h os" using malloc.IH by blast
  obtain h1 r1 os' where a: "rt_malloc sz h = Some (h1, r1)" "heap_ok h1 os'" "same_frame h h1" "live h1 os' = live h os \<union> set_option r1"
    using rt_malloc_ok [OF o(1,2), of sz] by metis
  then show ?case using malloc o by (auto simp: same_frame_def)
next
  case (free h L p h')
  obtain os where o: "heap_ok h os" "12 \<le> mem_size_aligned h" "L = live h os" using free.IH by blast
  obtain x n where x: "(x, n) \<in> set (used_blocks h os)" "p = heap_ptr h + x + 12" using free.hyps(2) o(3) by (auto elim: liveE)
  obtain h1 os' where a: "rt_free (Some p) h = Some h1" "heap_ok h1 os'" "same_frame h h1"
      "set (used_blocks h1 os') = set (used_blocks h os) - {(x, n)}"
    using rt_free_ok [OF o(1) x(1)] x(2) by metis
  have "heap_chain h os" using o(1) by (simp add: heap_ok_def)
  then have "live h1 os' = L - {p}"
    using live_inj [OF _ x(1)] a(3,4) x(2) o(3) by (simp add: live_def same_frame_def)
  then show ?case using free a o by (auto simp: same_frame_def)
next
  case (realloc h L p n m h' m' r)
  obtain os where o: "heap_ok h os" "12 \<le> mem_size_aligned h" "L = live h os" using realloc.IH by blast
  obtain h1 m1 r1 os' where a: "rt_realloc (Some p) n (h, m) = Some ((h1, m1), r1)" "heap_ok h1 os'" "same_frame h h1"
    "live h1 os' = (if unat (RT_ALIGN n) = 0 then live h os - {p} else case r1 of None \<Rightarrow> live h os | Some q \<Rightarrow> insert q (live h os - {p}))"
    using rt_realloc_ok [OF o(1,2) _ refl] realloc.hyps(2) o(3) by metis
  then show ?case using realloc o by (auto simp: same_frame_def)
qed

lemma used_total_sum:
  assumes "heap_chain h os"
  shows "used_total (hdr h) os = (\<Sum>(x, n) \<in> set (used_blocks h os). n - x)"
proof -
  have d: "distinct (used_blocks h os)"
    using chain_distinct [OF assms] by (simp add: used_blocks_def distinct_map inj_on_def distinct_butlast)
  have "used_total (hdr h) os = sum_list (map (\<lambda>(x, n). n - x) (used_blocks h os))"
    unfolding used_total_def used_blocks_def by (induction "butlast os" arbitrary: os) (auto simp: sum_list_map_filter' comp_def)
  then show ?thesis using d by (simp add: sum_list_distinct_conv_sum_set)
qed

lemma live_sum:
  assumes "heap_chain h os"
  shows "(\<Sum>(x, n) \<in> set (used_blocks h os). n - x) = (\<Sum>p \<in> live h os. user_size h p + 12)"
proof -
  have "inj_on (\<lambda>(x, n). heap_ptr h + x + 12) (set (used_blocks h os))"
    by (auto simp: inj_on_def used_blocks_def)
  then have "(\<Sum>p \<in> live h os. user_size h p + 12) =
      (\<Sum>(x, n) \<in> set (used_blocks h os). user_size h (heap_ptr h + x + 12) + 12)"
    by (simp add: live_def sum.reindex case_prod_unfold)
  also have "\<dots> = (\<Sum>(x, n) \<in> set (used_blocks h os). n - x)"
  proof (rule sum.cong [OF refl], clarify)
    fix x n assume "(x, n) \<in> set (used_blocks h os)"
    then show "user_size h (heap_ptr h + x + 12) + 12 = n - x"
      using live_block(1,2) [OF assms, of x n] by simp
  qed
  finally show ?thesis ..
qed

text \<open>A heap without live blocks is one free block.\<close>

lemma heap_ok_empty:
  assumes "heap_ok h os" and "live h os = {}"
  shows "os = [0, heap_end h]" and "hm_used (hdr h 0) = 0"
proof -
  have c: "heap_chain h os" "heap_frame h" "successively (apart (hdr h)) os" using assms(1) by (simp_all add: heap_ok_def)
  have free: "\<forall>x \<in> set (butlast os). hm_used (hdr h x) = 0"
    using assms(2) by (auto simp: live_def used_blocks_def filter_empty_conv)
  have e: "0 < heap_end h" using c(2) by (simp add: heap_frame_def)
  obtain a bs where a: "os = a # bs" "a = 0" using c(1) by (cases os) (auto simp: heap_chain_def)
  have "last os = heap_end h" using c(1) by (simp add: heap_chain_def)
  then obtain b cs where b: "bs = b # cs" using a e by (cases bs) auto
  have "cs = []"
  proof (rule ccontr)
    assume "cs \<noteq> []"
    then have "hm_used (hdr h a) = 0" "hm_used (hdr h b) = 0" using free by (auto simp: a b)
    then show False using c(3) by (simp add: a b apart_def)
  qed
  then show "os = [0, heap_end h]" "hm_used (hdr h 0) = 0"
    using \<open>last os = heap_end h\<close> free by (simp_all add: a b)
qed

lemma heap_run_empty:
  assumes "heap_run h L" and "L = {}"
  shows "lfree h = 0"
proof -
  have last_free: "lfree h' = 0" if ok: "heap_ok h os" and p: "p \<in> live h os" "live h os - {p} = {}" and f: "rt_free (Some p) h = Some h'"
    for h h' p os
  proof -
    obtain x n where x: "(x, n) \<in> set (used_blocks h os)" "p = heap_ptr h + x + 12" using p(1) by (rule liveE)
    obtain os' where a: "heap_ok h' os'" "same_frame h h'" "set (used_blocks h' os') = set (used_blocks h os) - {(x, n)}" "lfree h' \<le> x"
      using rt_free_ok [OF ok x(1)] f x(2) by (metis option.inject)
    have c: "heap_chain h os" "heap_frame h" using ok by (simp_all add: heap_ok_def)
    have "live h' os' = {}" using live_inj [OF c(1) x(1)] a(2,3) x(2) p(2) by (simp add: live_def same_frame_def)
    then have "os' = [0, heap_end h']" using heap_ok_empty [OF a(1)] by simp
    moreover have "x < heap_end h"
      using used_blocksD [OF c(1) x(1)] chain_mid(2,3) [OF _ c(2)] c(1) by (metis add_lessD1 order_less_le_trans)
    ultimately show ?thesis using a by (auto simp: heap_ok_def lfree_ok_def same_frame_def)
  qed
  show ?thesis using assms
  proof (induction)
    case (start b e h)
    then show ?case by (simp add: rt_system_heap_init_def heap_ready_def Let_def)
  next
    case (malloc h L sz h' r)
    obtain os where "heap_ok h os" "12 \<le> mem_size_aligned h" using heap_run_ok [OF malloc.hyps(1)] by blast
    then have "r = None \<longrightarrow> h' = h" using rt_malloc_ok [of h os sz] malloc.hyps(2) by (metis option.inject prod.inject)
    then show ?case using malloc by auto
  next
    case (free h L p h')
    obtain os where "heap_ok h os" "L = live h os" using heap_run_ok [OF free.hyps(1)] by blast
    then show ?case using last_free [of h os p h'] free by simp
  next
    case (realloc h L p n m h' m' r)
    then have n: "unat (RT_ALIGN n) = 0" "L - {p} = {}" by (auto split: if_splits option.splits)
    obtain os where o: "heap_ok h os" "L = live h os" using heap_run_ok [OF realloc.hyps(1)] by blast
    have "rt_free (Some p) h = Some h'" using realloc.hyps(3) n(1) by (auto simp: rt_realloc_def Let_def)
    then show ?case using last_free [OF o(1), of p h'] realloc.hyps(2) o(2) n(2) by simp
  qed
qed

text \<open>Claim C10. \<open>rt_malloc\<close> on a heap in use always returns and no assertion in it fails. It returns
  \<open>RT_NULL\<close> and leaves the heap alone, or a pointer that was not live, aligned to four bytes, to a
  block that lies inside the heap, has at least the requested size and does not overlap, header
  included, any live block; the sizes of those stay. (A request above \<open>0xFFFFFFFC\<close> wraps in the
  alignment and gets a block of twelve bytes.)\<close>

theorem heap_malloc_safe:
  assumes "heap_run h L"
  shows "\<exists>h' r. rt_malloc sz h = Some (h', r) \<and> (r = None \<longrightarrow> h' = h) \<and>
    (\<forall>p. r = Some p \<longrightarrow> p \<notin> L \<and> 4 dvd p \<and> heap_ptr h + 12 \<le> p \<and> p + user_size h' p \<le> heap_ptr h + heap_end h \<and>
       (sz \<le> 0xFFFFFFFC \<longrightarrow> unat sz \<le> user_size h' p) \<and>
       (\<forall>q \<in> L. user_size h' q = user_size h q \<and>
          (q + user_size h q + 12 \<le> p \<or> p + user_size h' p + 12 \<le> q)))"
proof -
  obtain os where o: "heap_ok h os" "12 \<le> mem_size_aligned h" "L = live h os" using assms by (rule heap_run_ok)
  obtain h' r os' where a: "rt_malloc sz h = Some (h', r)" "heap_ok h' os'" "same_frame h h'"
      "set (used_blocks h os) \<subseteq> set (used_blocks h' os')" "r = None \<longrightarrow> h' = h"
      "\<And>p. r = Some p \<Longrightarrow> \<exists>x m. p = heap_ptr h + x + 12 \<and> (x, m) \<in> set (used_blocks h' os') \<and>
          x \<notin> fst ` set (used_blocks h os) \<and> x + 12 + malloc_size sz \<le> m"
    using rt_malloc_ok [OF o(1,2), of sz] by metis
  have c: "heap_chain h os" "heap_chain h' os'" "heap_frame h'" "heap_ptr h' = heap_ptr h" "heap_end h' = heap_end h"
    using o(1) a(2,3) by (simp_all add: heap_ok_def same_frame_def)
  show ?thesis
  proof (intro exI conjI allI impI)
    show "rt_malloc sz h = Some (h', r)" "r = None \<Longrightarrow> h' = h" using a(1,5) by simp_all
    fix p assume "r = Some p"
    then obtain x m where x: "p = heap_ptr h + x + 12" "(x, m) \<in> set (used_blocks h' os')"
        "x \<notin> fst ` set (used_blocks h os)" "x + 12 + malloc_size sz \<le> m" using a(6) by metis
    note us = live_block [OF c(2) x(2), unfolded c(4), folded x(1)]
    obtain xs ys where s: "os' = xs @ x # m # ys" using used_blocksD [OF c(2) x(2)] by metis
    show "heap_ptr h + 12 \<le> p" using x(1) by simp
    show "p \<notin> L" using x(1,3) by (force simp: o(3) live_def)
    show "4 dvd p" using c(3,4) chain_aligned [OF c(2), of x] s x(1) by (auto simp: heap_frame_def)
    show "p + user_size h' p \<le> heap_ptr h + heap_end h"
      using us chain_mid(3) [OF c(2) [unfolded s] c(3)] x(1) c(5) by simp
    show "unat sz \<le> user_size h' p" if "sz \<le> 0xFFFFFFFC"
      using RT_ALIGN_ge [OF that] x(4) us by (simp add: malloc_size_def)
    show "\<forall>q \<in> L. user_size h' q = user_size h q \<and> (q + user_size h q + 12 \<le> p \<or> p + user_size h' p + 12 \<le> q)"
    proof
      fix q assume "q \<in> L"
      then obtain y k where y: "(y, k) \<in> set (used_blocks h os)" "q = heap_ptr h + y + 12" using o(3) by (auto elim: liveE)
      then have y': "(y, k) \<in> set (used_blocks h' os')" "y \<noteq> x" using a(4) x(3) by force+
      show "user_size h' q = user_size h q \<and> (q + user_size h q + 12 \<le> p \<or> p + user_size h' p + 12 \<le> q)"
        using live_block [OF c(1) y(1)] live_block [OF c(2) y'(1)] live_disjoint [OF c(2) x(2) y'(1)] us y y'(2) x(1) c(4) by auto
    qed
  qed
qed

lemma used_total_le:
  assumes "successively (link b e) os" and "os \<noteq> []"
  shows "used_total b os \<le> last os - hd os"
  using assms
proof (induction os rule: induct_list012)
  case (3 x y zs)
  have "link b e x y" "used_total b (y # zs) \<le> last (y # zs) - y" using 3 by auto
  moreover have "y \<le> last (y # zs)"
    using chain_sorted [OF "3.prems"(1)] last_in_set [of zs] by (auto intro: order_less_imp_le)
  ultimately show ?case by (auto simp: used_total_def link_def)
qed (simp_all add: used_total_def)

lemma heap_run_used:
  assumes "heap_run h L"
  shows "used_mem h = of_nat (\<Sum>p \<in> L. user_size h p + 12)" and "finite L"
proof -
  obtain os where o: "heap_ok h os" "L = live h os" using assms by (rule heap_run_ok)
  then have c: "heap_chain h os" by (simp add: heap_ok_def)
  then show "used_mem h = of_nat (\<Sum>p \<in> L. user_size h p + 12)"
    using used_total_sum [OF c] live_sum [OF c] by (simp add: heap_chain_def o(2))
  show "finite L" by (simp add: o(2) live_def)
qed

text \<open>\<open>rt_free\<close> of a live pointer always succeeds, whatever neighbours are joined: the
  other live blocks keep their sizes, \<open>used_mem\<close> falls by the size of the block and its header,
  and a second release of the same pointer is caught by the assertion on \<open>used\<close>.\<close>

theorem heap_free_exact:
  assumes "heap_run h L" and "p \<in> L"
  shows "\<exists>h'. rt_free (Some p) h = Some h' \<and> (\<forall>q \<in> L - {p}. user_size h' q = user_size h q) \<and>
    used_mem h' = used_mem h - of_nat (user_size h p + 12) \<and> rt_free (Some p) h' = None"
proof -
  obtain os where o: "heap_ok h os" "L = live h os" using assms(1) by (rule heap_run_ok)
  obtain x n where x: "(x, n) \<in> set (used_blocks h os)" "p = heap_ptr h + x + 12" using assms(2) o(2) by (auto elim: liveE)
  obtain h' os' where f: "rt_free (Some p) h = Some h'" "heap_ok h' os'" "same_frame h h'"
      "set (used_blocks h' os') = set (used_blocks h os) - {(x, n)}" "hm_used (hdr h' x) = 0"
    using rt_free_ok [OF o(1) x(1)] x(2) by metis
  have c: "heap_chain h os" "heap_chain h' os'" "heap_ptr h' = heap_ptr h"
    using o(1) f(2,3) by (simp_all add: heap_ok_def same_frame_def)
  have k: "user_size h' q = user_size h q" if "q \<in> L - {p}" for q
    using others_kept_blocks [OF c(1,2) f(3) x, of "\<lambda>_. 0" "\<lambda>_. 0"] f(4) that o(2) by (auto simp: others_kept_def)
  have u: "used_mem h' = of_nat (\<Sum>q \<in> L - {p}. user_size h' q + 12)"
    using heap_run_used(1) [OF heap_run.free [OF assms f(1)]] .
  have "(\<Sum>q \<in> L. user_size h q + 12) = (user_size h p + 12) + (\<Sum>q \<in> L - {p}. user_size h q + 12)"
    using heap_run_used(2) [OF assms(1)] assms(2) by (rule sum.remove)
  also have "(\<Sum>q \<in> L - {p}. user_size h q + 12) = (\<Sum>q \<in> L - {p}. user_size h' q + 12)"
    by (rule sum.cong) (simp_all add: k)
  finally have "used_mem h' = used_mem h - of_nat (user_size h p + 12)"
    using heap_run_used(1) [OF assms(1)] u by simp
  moreover have "rt_free (Some p) h' = None" using f(5) x(2) c(3) by (simp add: rt_free_def Let_def)
  ultimately show ?thesis using f(1) k by blast
qed

text \<open>Claim C11. \<open>rt_realloc\<close> of a live pointer always returns and no assertion in it fails. A pointer
  it returns is the old one or was not live, has room for the new size and holds the first bytes
  of the old block; all other live blocks keep their size and their bytes. When it returns
  \<open>RT_NULL\<close> for a new size above zero, heap and memory are unchanged.\<close>

theorem heap_realloc_keeps:
  assumes "heap_run h L" and "p \<in> L" and "n = unat (RT_ALIGN newsize)"
  shows "\<exists>h' m' r. rt_realloc (Some p) newsize (h, m) = Some ((h', m'), r) \<and>
    (\<forall>q \<in> L - {p}. user_size h' q = user_size h q \<and> (\<forall>i < user_size h q. m' (q + i) = m (q + i))) \<and>
    (case r of None \<Rightarrow> m' = m \<and> (n \<noteq> 0 \<longrightarrow> h' = h)
     | Some q \<Rightarrow> (q = p \<or> q \<notin> L) \<and> n \<le> user_size h' q \<and> (\<forall>i < min (user_size h p) n. m' (q + i) = m (p + i)))"
proof -
  obtain os where o: "heap_ok h os" "12 \<le> mem_size_aligned h" "L = live h os" using assms(1) by (rule heap_run_ok)
  have "p \<in> live h os" using assms(2) o(3) by simp
  then show ?thesis
  proof (rule rt_realloc_ok [OF o(1,2) _ assms(3), where m = m])
    fix h' m' r os'
    assume a: "rt_realloc (Some p) newsize (h, m) = Some ((h', m'), r)" "others_kept p (live h os) (h, m) (h', m')"
      "\<And>q. r = Some q \<Longrightarrow> n \<noteq> 0 \<and> (q = p \<or> q \<notin> live h os) \<and> n \<le> user_size h' q \<and>
         (\<forall>i < min (user_size h p) n. m' (q + i) = m (p + i))"
      "r = None \<Longrightarrow> m' = m \<and> (n \<noteq> 0 \<longrightarrow> h' = h)"
    show ?thesis
      using a by (intro exI [of _ h'] exI [of _ m'] exI [of _ r]) (cases r; simp add: others_kept_def o(3))
  qed
qed

text \<open>The counter \<open>used_mem\<close> that \<open>rt_memory_info\<close> reports is, at every moment, the sum of
  the live blocks with their headers, and it never exceeds the heap.\<close>

theorem heap_accounting:
  assumes "heap_run h L"
  shows "unat (used_mem h) = (\<Sum>p \<in> L. user_size h p + 12) \<and> unat (used_mem h) \<le> heap_end h"
proof -
  obtain os where o: "heap_ok h os" "L = live h os" using assms by (rule heap_run_ok)
  then have c: "heap_chain h os" "heap_frame h" by (simp_all add: heap_ok_def)
  have "(\<Sum>p \<in> L. user_size h p + 12) = used_total (hdr h) os"
    using used_total_sum [OF c(1)] live_sum [OF c(1)] o(2) by simp
  moreover have "used_total (hdr h) os \<le> heap_end h"
    using used_total_le [of "hdr h" "heap_end h" os] c(1) by (simp add: heap_chain_def linked_def)
  moreover have "heap_end h < 2 ^ 32" using c(2) by (simp add: heap_frame_def)
  ultimately show ?thesis using heap_run_used(1) [OF assms] by (simp add: unat_of_nat)
qed


lemma heap_run_free:
  assumes "heap_run h L" and "p \<in> L"
  obtains h' where "rt_free (Some p) h = Some h'" "heap_run h' (L - {p})" "same_frame h h'"
proof -
  obtain os where o: "heap_ok h os" "L = live h os" using assms(1) by (rule heap_run_ok)
  obtain x n where x: "(x, n) \<in> set (used_blocks h os)" "p = heap_ptr h + x + 12" using assms(2) o(2) by (auto elim: liveE)
  obtain h' where "rt_free (Some p) h = Some h'" "same_frame h h'" using rt_free_ok [OF o(1) x(1)] x(2) by metis
  then show ?thesis using that heap_run.free [OF assms] by blast
qed

section \<open>The promise to a client\<close>

primrec release_all :: "(nat \<Rightarrow> 's \<Rightarrow> 's option) \<Rightarrow> nat list \<Rightarrow> 's \<Rightarrow> 's option" where
  "release_all f [] s = Some s"
| "release_all f (p # ps) s = Option.bind (f p s) (release_all f ps)"

locale block_store =
  fixes run :: "'s \<Rightarrow> nat set \<Rightarrow> bool"
    and release :: "nat \<Rightarrow> 's \<Rightarrow> 's option"
    and frame :: "'s \<Rightarrow> 'f"
  assumes release_live: "run s L \<Longrightarrow> p \<in> L \<Longrightarrow> \<exists>s'. release p s = Some s' \<and> run s' (L - {p}) \<and> frame s' = frame s"
begin

lemma release_all_live:
  "run s L \<Longrightarrow> distinct ps \<Longrightarrow> set ps \<subseteq> L \<Longrightarrow>
    \<exists>s'. release_all release ps s = Some s' \<and> run s' (L - set ps) \<and> frame s' = frame s"
proof (induction ps arbitrary: s L)
  case (Cons p ps)
  obtain s1 where s1: "release p s = Some s1" "run s1 (L - {p})" "frame s1 = frame s"
    using release_live [OF Cons.prems(1), of p] Cons.prems(3) by auto
  have "distinct ps" "set ps \<subseteq> L - {p}" using Cons.prems(2,3) by auto
  from Cons.IH [OF s1(2) this] obtain s' where "release_all release ps s1 = Some s'" "run s' (L - {p} - set ps)" "frame s' = frame s1"
    by blast
  moreover have "L - {p} - set ps = L - set (p # ps)" by auto
  ultimately show ?case using s1 by auto
qed simp

end

locale block_allocator = block_store run release frame
  for run :: "'s \<Rightarrow> nat set \<Rightarrow> bool" and release :: "nat \<Rightarrow> 's \<Rightarrow> 's option" and frame :: "'s \<Rightarrow> 'f" +
  fixes alloc :: "'n \<Rightarrow> 's \<Rightarrow> ('s \<times> nat option) option"
  assumes alloc_fresh: "run s L \<Longrightarrow> \<exists>s' r. alloc n s = Some (s', r) \<and> run s' (L \<union> set_option r) \<and>
    set_option r \<inter> L = {} \<and> frame s' = frame s"
begin

lemma alloc_release:
  assumes "run s L" and "alloc n s = Some (s1, Some p)"
  shows "\<exists>s'. release p s1 = Some s' \<and> run s' L"
proof -
  have "run s1 (L \<union> {p})" "p \<notin> L" using alloc_fresh [OF assms(1), of n] assms(2) by auto
  then show ?thesis using release_live [of s1 "L \<union> {p}" p] by auto
qed

end

interpretation heap: block_allocator heap_run "\<lambda>p. rt_free (Some p)" "\<lambda>h. (heap_ptr h, heap_end h, mem_size_aligned h)" rt_malloc
proof
  fix h L p assume r: "heap_run h L" "p \<in> L"
  show "\<exists>s'. rt_free (Some p) h = Some s' \<and> heap_run s' (L - {p}) \<and>
      (heap_ptr s', heap_end s', mem_size_aligned s') = (heap_ptr h, heap_end h, mem_size_aligned h)"
    by (rule heap_run_free [OF r]) (auto simp: same_frame_def)
next
  fix h L n assume r: "heap_run h L"
  obtain os where o: "heap_ok h os" "12 \<le> mem_size_aligned h" "L = live h os" using r by (rule heap_run_ok)
  show "\<exists>s' r. rt_malloc n h = Some (s', r) \<and> heap_run s' (L \<union> set_option r) \<and> set_option r \<inter> L = {} \<and>
      (heap_ptr s', heap_end s', mem_size_aligned s') = (heap_ptr h, heap_end h, mem_size_aligned h)"
  proof (rule rt_malloc_ok [OF o(1,2), of n])
    fix h' q os'
    assume a: "rt_malloc n h = Some (h', q)" "same_frame h h'"
      "\<And>p. q = Some p \<Longrightarrow> \<exists>x m. p = heap_ptr h + x + 12 \<and> (x, m) \<in> set (used_blocks h' os') \<and>
        x \<notin> fst ` set (used_blocks h os) \<and> x + 12 + malloc_size n \<le> m"
    have "set_option q \<inter> L = {}" using a(3) by (cases q) (force simp: o(3) live_def)+
    then show ?thesis using a(1,2) heap_run.malloc [OF r a(1)] by (auto simp: same_frame_def)
  qed
qed

text \<open>Claim C12. Released memory is not lost to fragmentation: after any history, when the live blocks
  are released in any order the heap is one free block again, the usage counter is zero, and
  the next request of less than the heap size is served from its beginning.\<close>

theorem heap_recovers:
  assumes "heap_run h L" and "distinct ps" and "set ps = L"
    and "0 < sz" and "unat (RT_ALIGN sz) < mem_size_aligned h" and "12 < mem_size_aligned h"
  shows "\<exists>h'. release_all (\<lambda>p. rt_free (Some p)) ps h = Some h' \<and> hm_next (hdr h' 0) = heap_end h \<and> used_mem h' = 0 \<and>
    (\<exists>h''. rt_malloc sz h' = Some (h'', Some (heap_ptr h + 12)))"
proof -
  obtain h' where h': "release_all (\<lambda>p. rt_free (Some p)) ps h = Some h'" "heap_run h' {}" "heap_ptr h' = heap_ptr h"
      "heap_end h' = heap_end h" "mem_size_aligned h' = mem_size_aligned h"
    using heap.release_all_live [OF assms(1,2)] assms(3) by auto
  obtain os where o: "heap_ok h' os" "live h' os = {}" using h'(2) by (metis heap_run_ok)
  note os = heap_ok_empty [OF o]
  have c: "heap_chain h' os" "heap_frame h'" using o(1) by (simp_all add: heap_ok_def)
  have n: "malloc_size sz < mem_size_aligned h'" using assms(5,6) h'(5) by (simp add: malloc_size_def)
  have nx: "hm_next (hdr h' 0) = heap_end h'" using chain_mid(1) [of h' "[]" 0 "heap_end h'" "[]"] c os(1) by simp
  have "fits h' (malloc_size sz) 0" using c(2) n nx os(2) by (simp add: fits_def heap_frame_def)
  then have "\<exists>h''. rt_malloc sz h' = Some (h'', Some (heap_ptr h' + 12))"
    using rt_malloc_cases [OF o(1), of sz] n assms(4-6) h'(5)
    by (simp add: os(1) heap_run_empty [OF h'(2) refl]) blast
  then show ?thesis using h' heap_run_used(1) [OF h'(2)] nx by simp
qed

text \<open>\<open>rt_calloc\<close> returns zeroed memory and touches no live block.\<close>

lemma rt_calloc_zero:
  assumes "heap_run h L"
  shows "\<exists>h' m' r. rt_calloc c n (h, m) = Some ((h', m'), r) \<and> heap_run h' (L \<union> set_option r) \<and>
    (\<forall>p. r = Some p \<longrightarrow> (\<forall>i < unat (c * n). m' (p + i) = 0) \<and> (\<forall>a. a < p \<or> p + unat (c * n) \<le> a \<longrightarrow> m' a = m a))"
proof -
  obtain h' r where a: "rt_malloc (c * n) h = Some (h', r)" "heap_run h' (L \<union> set_option r)"
    using heap.alloc_fresh [OF assms] by blast
  then show ?thesis by (cases r) (auto simp: rt_calloc_def rt_memset_eq mem_set_def)
qed

section \<open>A small heap\<close>

text \<open>A heap of 64 bytes, before and after the allocation of eight bytes.\<close>

definition demo_heap :: rt_heap where
  "demo_heap = rt_system_heap_init 0x20000000 0x20000040
     \<lparr>hdr = (\<lambda>_. \<lparr>hm_magic = 0, hm_used = 0, hm_next = 0, hm_prev = 0\<rparr>), heap_ptr = 0, heap_end = 0,
      lfree = 0, mem_size_aligned = 0, used_mem = 0, max_mem = 0\<rparr>"

definition demo_heap_8 :: rt_heap where
  "demo_heap_8 = \<lparr>hdr = (\<lambda>x. if x = 0 then \<lparr>hm_magic = HEAP_MAGIC, hm_used = 1, hm_next = 24, hm_prev = 0\<rparr>
        else if x = 24 then \<lparr>hm_magic = HEAP_MAGIC, hm_used = 0, hm_next = 52, hm_prev = 0\<rparr>
        else if x = 52 then \<lparr>hm_magic = HEAP_MAGIC, hm_used = 1, hm_next = 52, hm_prev = 52\<rparr>
        else \<lparr>hm_magic = 0, hm_used = 0, hm_next = 0, hm_prev = 0\<rparr>), heap_ptr = 0x20000000, heap_end = 52,
      lfree = 24, mem_size_aligned = 40, used_mem = 24, max_mem = 24\<rparr>"

lemma demo_heap_eq:
  "demo_heap = \<lparr>hdr = (\<lambda>_. \<lparr>hm_magic = 0, hm_used = 0, hm_next = 0, hm_prev = 0\<rparr>)
       (0 := \<lparr>hm_magic = HEAP_MAGIC, hm_used = 0, hm_next = 52, hm_prev = 0\<rparr>,
        52 := \<lparr>hm_magic = HEAP_MAGIC, hm_used = 1, hm_next = 52, hm_prev = 52\<rparr>), heap_ptr = 0x20000000, heap_end = 52,
      lfree = 0, mem_size_aligned = 40, used_mem = 0, max_mem = 0\<rparr>"
  by (simp add: demo_heap_def rt_system_heap_init_def Let_def RT_ALIGN_def word_less_nat_alt)

lemma demo_run: "heap_run demo_heap {}"
  unfolding demo_heap_def by (rule heap_run.start) (simp_all add: heap_ready_def Let_def RT_ALIGN_def)

lemma demo_malloc: "rt_malloc 8 demo_heap = Some (demo_heap_8, Some 0x2000000C)"
  by (simp add: rt_malloc_def demo_heap_eq RT_ALIGN_def malloc_size_def malloc_search.simps [of _ 12 0] usub_le
      malloc_take_def set_hdr_def count_used_def malloc_lfree_def lfree_advance.simps [of _ 0] lfree_advance.simps [of _ 24]
      demo_heap_8_def Let_def fun_eq_iff word_less_nat_alt)

lemma demo_run_8: "heap_run demo_heap_8 {0x2000000C}"
  using heap_run.malloc [OF demo_run demo_malloc] by simp

lemma demo_size_8: "user_size demo_heap_8 0x2000000C = 12" "used_mem demo_heap_8 = 24"
  by (simp_all add: user_size_def demo_heap_8_def)

theorem heap_malloc_safe_witness:
  "\<exists>h' r. rt_malloc 4 demo_heap_8 = Some (h', r) \<and>
    (\<forall>p. r = Some p \<longrightarrow> p \<noteq> 0x2000000C \<and> 4 \<le> user_size h' p \<and> user_size h' 0x2000000C = 12 \<and>
       (0x2000000C + 12 + 12 \<le> p \<or> p + user_size h' p + 12 \<le> 0x2000000C))"
  using heap_malloc_safe [OF demo_run_8, of 4] by (auto simp: demo_size_8)

theorem heap_free_exact_witness:
  "\<exists>h'. rt_free (Some 0x2000000C) demo_heap_8 = Some h' \<and> used_mem h' = 0 \<and> rt_free (Some 0x2000000C) h' = None"
  using heap_free_exact [OF demo_run_8 insertI1] by (auto simp: demo_size_8)

theorem heap_realloc_keeps_witness:
  "\<exists>h' m' r. rt_realloc (Some 0x2000000C) 16 (demo_heap_8, \<lambda>a. of_nat a) = Some ((h', m'), r) \<and>
    (\<forall>q. r = Some q \<longrightarrow> 16 \<le> user_size h' q \<and> (\<forall>i < 12. m' (q + i) = of_nat (0x2000000C + i)))"
  using heap_realloc_keeps [OF demo_run_8 insertI1 refl, of 16 "\<lambda>a. of_nat a"]
  by (auto simp: demo_size_8 RT_ALIGN_def split: option.splits)

theorem heap_accounting_witness:
  "unat (used_mem demo_heap_8) = 24 \<and> unat (used_mem demo_heap_8) \<le> heap_end demo_heap_8"
  using heap_accounting [OF demo_run_8] by (simp add: demo_size_8(1))

theorem heap_recovers_witness:
  "\<exists>h'. release_all (\<lambda>p. rt_free (Some p)) [0x2000000C] demo_heap_8 = Some h' \<and> hm_next (hdr h' 0) = 52 \<and>
    used_mem h' = 0 \<and> (\<exists>h''. rt_malloc 36 h' = Some (h'', Some 0x2000000C))"
  using heap_recovers [OF demo_run_8, of "[0x2000000C]" 36] by (simp add: demo_heap_8_def RT_ALIGN_def word_less_nat_alt)
end
