(* ===== verification/Rt_Mutex.thy ===== *)
theory Rt_Mutex
  imports Rt_Ipc
begin

text \<open>
  Mutexes of the kernel (\<open>rt-thread/src/ipc.c\<close>) with recursive holding and priority
  inheritance. Since taking a mutex changes the priority of another thread, threads are a
  store from thread numbers to control blocks and the lists hold numbers. \<open>rt_mutex_take\<close> is
  split at \<open>rt_schedule\<close>: \<open>mutex_take_resume\<close> is what the thread does when it runs again. The
  use of a null owner is the result \<open>Mx_fault\<close>. The theory shows exclusion, that priorities
  are lent and given back, and that every waiter is served in its turn.
\<close>

section \<open>State\<close>

definition RT_EINTR :: int where "RT_EINTR = 9"

record tcb =
  tcb_priority :: u8
  tcb_mask :: u32
  tcb_error :: int

type_synonym threads = "nat \<Rightarrow> tcb"

record rt_mutex =
  mx_suspend :: "nat list"
  mx_flag :: u8
  mx_value :: u16
  mx_original_priority :: u8
  mx_hold :: u8
  mx_owner :: "nat option"

datatype mutex_result =
    Mx_return int
  | Mx_suspended "int option"
  | Mx_fault

definition set_error :: "nat \<Rightarrow> int \<Rightarrow> threads \<Rightarrow> threads" where
  "set_error thr e ts = ts(thr := (ts thr)\<lparr>tcb_error := e\<rparr>)"

text \<open>\<open>RT_THREAD_CTRL_CHANGE_PRIORITY\<close>; the place in the ready queue belongs to the scheduler.\<close>

definition change_priority :: "nat \<Rightarrow> u8 \<Rightarrow> threads \<Rightarrow> threads" where
  "change_priority thr p ts = ts(thr := (ts thr)\<lparr>tcb_priority := p, tcb_mask := push_bit (unat p) 1\<rparr>)"

section \<open>The suspend list over a store\<close>

fun insert_by :: "(nat \<Rightarrow> u8) \<Rightarrow> nat \<Rightarrow> nat list \<Rightarrow> nat list" where
  "insert_by prio thread [] = [thread]"
| "insert_by prio thread (sthread # rest) =
     (if prio thread < prio sthread then thread # sthread # rest else sthread # insert_by prio thread rest)"

definition list_suspend :: "threads \<Rightarrow> nat list \<Rightarrow> nat \<Rightarrow> u8 \<Rightarrow> nat list" where
  "list_suspend ts xs thread flag =
     (if flag = RT_IPC_FLAG_FIFO then xs @ [thread]
      else if flag = RT_IPC_FLAG_PRIO then insert_by (\<lambda>t. tcb_priority (ts t)) thread xs
      else xs)"

section \<open>Operations\<close>

definition rt_mutex_init :: "u8 \<Rightarrow> rt_mutex" where
  "rt_mutex_init flag = \<lparr>mx_suspend = [], mx_flag = flag, mx_value = 1, mx_original_priority = 0xFF,
     mx_hold = 0, mx_owner = None\<rparr>"

definition rt_mutex_create :: "bool \<Rightarrow> u8 \<Rightarrow> rt_mutex option" where
  "rt_mutex_create allocated flag =
     (if allocated then Some \<lparr>mx_suspend = [], mx_flag = flag, mx_value = 1, mx_original_priority = 0xFF,
        mx_hold = 0, mx_owner = None\<rparr> else None)"

text \<open>All waiting threads are made ready with \<open>-RT_ERROR\<close>; the object is gone.\<close>

definition rt_mutex_detach :: "rt_mutex \<Rightarrow> threads \<Rightarrow> nat list \<times> threads \<times> int" where
  "rt_mutex_detach mx ts = (mx_suspend mx, fold (\<lambda>t. set_error t (- RT_ERROR)) (mx_suspend mx) ts, RT_EOK)"

definition rt_mutex_delete :: "rt_mutex \<Rightarrow> threads \<Rightarrow> nat list \<times> threads \<times> int" where
  "rt_mutex_delete mx ts = (mx_suspend mx, fold (\<lambda>t. set_error t (- RT_ERROR)) (mx_suspend mx) ts, RT_EOK)"

text \<open>From the label \<open>__again\<close> to the schedule.\<close>

definition mutex_again :: "rt_mutex \<Rightarrow> threads \<Rightarrow> int \<Rightarrow> nat \<Rightarrow> rt_mutex \<times> threads \<times> mutex_result" where
  "mutex_again mx ts time thread =
     (if mx_value mx > 0
      then (mx\<lparr>mx_value := mx_value mx - 1, mx_owner := Some thread,
               mx_original_priority := tcb_priority (ts thread), mx_hold := mx_hold mx + 1\<rparr>, ts, Mx_return RT_EOK)
      else if time = 0 then (mx, set_error thread (- RT_ETIMEOUT) ts, Mx_return (- RT_ETIMEOUT))
      else case mx_owner mx of
          None \<Rightarrow> (mx, ts, Mx_fault)
        | Some w \<Rightarrow>
            let ts1 = (if tcb_priority (ts thread) < tcb_priority (ts w)
                       then change_priority w (tcb_priority (ts thread)) ts else ts)
            in (mx\<lparr>mx_suspend := list_suspend ts1 (mx_suspend mx) thread (mx_flag mx)\<rparr>, ts1,
                Mx_suspended (if time > 0 then Some time else None)))"

definition rt_mutex_take :: "rt_mutex \<Rightarrow> threads \<Rightarrow> int \<Rightarrow> nat \<Rightarrow> rt_mutex \<times> threads \<times> mutex_result" where
  "rt_mutex_take mx ts time thread =
     (let ts1 = set_error thread RT_EOK ts in
      if mx_owner mx = Some thread then (mx\<lparr>mx_hold := mx_hold mx + 1\<rparr>, ts1, Mx_return RT_EOK)
      else mutex_again mx ts1 time thread)"

definition mutex_take_resume :: "rt_mutex \<Rightarrow> threads \<Rightarrow> int \<Rightarrow> nat \<Rightarrow> rt_mutex \<times> threads \<times> mutex_result" where
  "mutex_take_resume mx ts time thread =
     (let e = tcb_error (ts thread) in
      if e \<noteq> RT_EOK then if e = - RT_EINTR then mutex_again mx ts time thread else (mx, ts, Mx_return e)
      else (mx, ts, Mx_return RT_EOK))"

text \<open>The last result is the thread made ready.\<close>

definition rt_mutex_release :: "rt_mutex \<Rightarrow> threads \<Rightarrow> nat \<Rightarrow> rt_mutex \<times> threads \<times> int \<times> nat option" where
  "rt_mutex_release mx ts thread =
     (if mx_owner mx \<noteq> Some thread then (mx, set_error thread (- RT_ERROR) ts, - RT_ERROR, None)
      else let mx1 = mx\<lparr>mx_hold := mx_hold mx - 1\<rparr> in
        if mx_hold mx1 = 0
        then let ts1 = (if mx_original_priority mx1 \<noteq> tcb_priority (ts thread)
                        then change_priority thread (mx_original_priority mx1) ts else ts)
          in case mx_suspend mx1 of
              next # rest \<Rightarrow>
                (mx1\<lparr>mx_owner := Some next, mx_original_priority := tcb_priority (ts1 next),
                     mx_hold := mx_hold mx1 + 1, mx_suspend := rest\<rparr>, ts1, RT_EOK, Some next)
            | [] \<Rightarrow> (mx1\<lparr>mx_value := mx_value mx1 + 1, mx_owner := None, mx_original_priority := 0xFF\<rparr>,
                     ts1, RT_EOK, None)
        else (mx1, ts, RT_EOK, None))"

definition rt_mutex_control :: "rt_mutex \<Rightarrow> int \<Rightarrow> int" where
  "rt_mutex_control mx cmd = - RT_ERROR"

text \<open>The timer of a waiting thread.\<close>

definition mutex_timeout :: "rt_mutex \<Rightarrow> threads \<Rightarrow> nat \<Rightarrow> rt_mutex \<times> threads" where
  "mutex_timeout mx ts thread = (mx\<lparr>mx_suspend := remove1 thread (mx_suspend mx)\<rparr>, set_error thread (- RT_ETIMEOUT) ts)"

section \<open>Steps\<close>

text \<open>Threads that are not waiting take and release, waiting ones time out. A thread nests at most 255
  times: the counter has eight bits. With \<open>env\<close> the rest of the system may change any thread.\<close>

inductive mx_reach :: "bool \<Rightarrow> rt_mutex \<Rightarrow> threads \<Rightarrow> rt_mutex \<Rightarrow> threads \<Rightarrow> bool" for env mx0 ts0 where
  mx_init: "mx_reach env mx0 ts0 mx0 ts0"
| mx_take: "mx_reach env mx0 ts0 mx ts \<Longrightarrow> thr \<notin> set (mx_suspend mx) \<Longrightarrow>
    mx_owner mx = Some thr \<longrightarrow> mx_hold mx < 255 \<Longrightarrow>
    rt_mutex_take mx ts time thr = (mx', ts', r) \<Longrightarrow> mx_reach env mx0 ts0 mx' ts'"
| mx_release: "mx_reach env mx0 ts0 mx ts \<Longrightarrow> thr \<notin> set (mx_suspend mx) \<Longrightarrow>
    rt_mutex_release mx ts thr = (mx', ts', r, w) \<Longrightarrow> mx_reach env mx0 ts0 mx' ts'"
| mx_expire: "mx_reach env mx0 ts0 mx ts \<Longrightarrow> thr \<in> set (mx_suspend mx) \<Longrightarrow>
    mutex_timeout mx ts thr = (mx', ts') \<Longrightarrow> mx_reach env mx0 ts0 mx' ts'"
| mx_env: "env \<Longrightarrow> mx_reach env mx0 ts0 mx ts \<Longrightarrow> mx_reach env mx0 ts0 mx ts'"

definition own_ok :: "rt_mutex \<Rightarrow> bool" where
  "own_ok mx \<longleftrightarrow> distinct (mx_suspend mx) \<and>
     (case mx_owner mx of
        None \<Rightarrow> mx_value mx = 1 \<and> mx_hold mx = 0 \<and> mx_suspend mx = []
      | Some t \<Rightarrow> mx_value mx = 0 \<and> mx_hold mx \<noteq> 0 \<and> t \<notin> set (mx_suspend mx))"

lemma set_insert_by [simp]: "set (insert_by p t xs) = insert t (set xs)"
  by (induction xs) auto

lemma distinct_insert_by: "t \<notin> set xs \<Longrightarrow> distinct xs \<Longrightarrow> distinct (insert_by p t xs)"
  by (induction xs) auto

lemma set_list_suspend: "set (list_suspend ts xs t flag) \<subseteq> insert t (set xs)"
  by (auto simp: list_suspend_def)

lemma distinct_list_suspend: "t \<notin> set xs \<Longrightarrow> distinct xs \<Longrightarrow> distinct (list_suspend ts xs t flag)"
  by (simp add: list_suspend_def distinct_insert_by)

lemma u8_inc_nonzero: "w < 255 \<Longrightarrow> w + 1 \<noteq> 0" for w :: u8
  using unat_Suc_u8 [of w] by (metis nat.distinct(1) unsigned_0)

lemma own_ok_take:
  assumes "own_ok mx" and "thr \<notin> set (mx_suspend mx)" and "mx_owner mx = Some thr \<longrightarrow> mx_hold mx < 255"
    and "rt_mutex_take mx ts time thr = (mx', ts', r)"
  shows "own_ok mx'" and "r \<noteq> Mx_fault"
    and "r = Mx_return RT_EOK \<Longrightarrow> mx_owner mx' = Some thr \<and> (mx_owner mx = None \<or> mx_owner mx = Some thr)"
    and "r \<noteq> Mx_return RT_EOK \<Longrightarrow> mx_owner mx' = mx_owner mx \<and> mx_owner mx \<noteq> None \<and> mx_owner mx \<noteq> Some thr"
proof -
  consider "mx_owner mx = Some thr" | "mx_owner mx = None" | w where "mx_owner mx = Some w" "w \<noteq> thr" by (cases "mx_owner mx") auto
  then show "own_ok mx'" "r \<noteq> Mx_fault"
    "r = Mx_return RT_EOK \<Longrightarrow> mx_owner mx' = Some thr \<and> (mx_owner mx = None \<or> mx_owner mx = Some thr)"
    "r \<noteq> Mx_return RT_EOK \<Longrightarrow> mx_owner mx' = mx_owner mx \<and> mx_owner mx \<noteq> None \<and> mx_owner mx \<noteq> Some thr"
    using assms set_list_suspend [of _ "mx_suspend mx" thr "mx_flag mx"]
    by (cases; fastforce simp: own_ok_def rt_mutex_take_def mutex_again_def Let_def u8_inc_nonzero rt_codes
        distinct_list_suspend split: if_splits)+
qed

lemma own_ok_release:
  assumes "own_ok mx" and "rt_mutex_release mx ts thr = (mx', ts', r, w)"
  shows "own_ok mx'"
  using assms by (auto simp: own_ok_def rt_mutex_release_def Let_def split: if_splits list.splits option.splits)

lemma own_ok_reach: "mx_reach env (rt_mutex_init flag) ts0 mx ts \<Longrightarrow> own_ok mx"
proof (induction rule: mx_reach.induct)
  case mx_init
  then show ?case by (simp add: own_ok_def rt_mutex_init_def)
next
  case (mx_take mx ts thr time mx' ts' r)
  then show ?case by (blast intro: own_ok_take(1))
next
  case (mx_release mx ts thr mx' ts' r w)
  then show ?case by (blast intro: own_ok_release)
next
  case (mx_expire mx ts thr mx' ts')
  then show ?case by (auto simp: own_ok_def mutex_timeout_def split: option.splits dest: notin_set_remove1)
qed simp

section \<open>Priorities\<close>

abbreviation prio :: "threads \<Rightarrow> nat \<Rightarrow> u8" where
  "prio ts t \<equiv> tcb_priority (ts t)"

lemma prio_set_error [simp]: "prio (set_error t e ts) x = prio ts x"
  by (simp add: set_error_def)

lemma prio_change [simp]: "prio (change_priority t p ts) x = (if x = t then p else prio ts x)"
  by (simp add: change_priority_def)

lemma prio_change_same: "prio (if p \<noteq> prio ts t then change_priority t p ts else ts) x = (if x = t then p else prio ts x)"
  by simp

text \<open>Who does not own the mutex has its own priority; the owner has at least that of every waiter.\<close>

definition lent_ok :: "threads \<Rightarrow> rt_mutex \<Rightarrow> threads \<Rightarrow> bool" where
  "lent_ok ts0 mx ts \<longleftrightarrow> mx_flag mx = RT_IPC_FLAG_PRIO \<and> sorted (map (prio ts) (mx_suspend mx)) \<and>
     (\<forall>t. mx_owner mx \<noteq> Some t \<longrightarrow> prio ts t = prio ts0 t) \<and>
     (\<forall>w. mx_owner mx = Some w \<longrightarrow> mx_original_priority mx = prio ts0 w \<and> prio ts w \<le> prio ts0 w \<and>
        (\<forall>t \<in> set (mx_suspend mx). prio ts w \<le> prio ts t))"

lemma insert_by_sorted: "sorted (map p xs) \<Longrightarrow> sorted (map p (insert_by p t xs))"
  by (induction xs) auto

lemma sorted_map_cong: "sorted (map p xs) \<Longrightarrow> (\<And>x. x \<in> set xs \<Longrightarrow> q x = p x) \<Longrightarrow> sorted (map q xs)"
  by (simp cong: map_cong)

lemma lent_ok_wait:
  assumes lent: "lent_ok ts0 mx ts" and own: "own_ok mx" and w: "mx_owner mx = Some w" "w \<noteq> thr"
    and ts1: "ts1 = (if prio ts thr < prio ts w then change_priority w (prio ts thr) ts else ts)"
  shows "lent_ok ts0 (mx\<lparr>mx_suspend := list_suspend ts1 (mx_suspend mx) thr (mx_flag mx)\<rparr>) ts1"
proof -
  have p: "prio ts1 t = (if t = w then min (prio ts thr) (prio ts w) else prio ts t)" for t
    by (auto simp: ts1 min_def)
  have "w \<notin> set (mx_suspend mx)" using own w by (simp add: own_ok_def)
  then have same: "prio ts1 x = prio ts x" if "x \<in> set (mx_suspend mx)" for x using that p by auto
  have "sorted (map (prio ts) (mx_suspend mx))" using lent by (simp add: lent_ok_def)
  then have "sorted (map (prio ts1) (mx_suspend mx))" by (rule sorted_map_cong) (rule same)
  then have "sorted (map (prio ts1) (insert_by (prio ts1) thr (mx_suspend mx)))" by (rule insert_by_sorted)
  then show ?thesis using lent w
    by (auto simp: lent_ok_def list_suspend_def rt_codes p min_def)
qed

lemma lent_ok_take:
  assumes lent: "lent_ok ts0 mx ts" and own: "own_ok mx" and take: "rt_mutex_take mx ts time thr = (mx', ts', r)"
  shows "lent_ok ts0 mx' ts'"
proof -
  have e: "lent_ok ts0 mx (set_error thr RT_EOK ts)" using lent by (simp add: lent_ok_def)
  consider "mx_owner mx = Some thr" | "mx_owner mx = None" | w where "mx_owner mx = Some w" "w \<noteq> thr" by (cases "mx_owner mx") auto
  then show ?thesis
  proof cases
    case 1
    then show ?thesis using lent take by (auto simp: lent_ok_def rt_mutex_take_def)
  next
    case 2
    then show ?thesis using lent own take by (auto simp: lent_ok_def own_ok_def rt_mutex_take_def mutex_again_def)
  next
    case (3 w)
    then have v: "mx_value mx = 0" using own by (simp add: own_ok_def)
    show ?thesis
    proof (cases "time = 0")
      case True
      then show ?thesis using 3 v lent take by (auto simp: lent_ok_def rt_mutex_take_def mutex_again_def)
    next
      case False
      then show ?thesis using 3 v take lent_ok_wait [OF e own 3 refl] by (auto simp: rt_mutex_take_def mutex_again_def Let_def)
    qed
  qed
qed

lemma lent_ok_release:
  assumes lent: "lent_ok ts0 mx ts" and own: "own_ok mx" and rel: "rt_mutex_release mx ts thr = (mx', ts', r, w)"
  shows "lent_ok ts0 mx' ts'"
proof (cases "mx_owner mx = Some thr \<and> mx_hold mx - 1 = 0")
  case False
  then show ?thesis using lent rel by (auto simp: lent_ok_def rt_mutex_release_def Let_def split: if_splits)
next
  case True
  have orig: "mx_original_priority mx = prio ts0 thr" and others: "\<And>t. t \<noteq> thr \<Longrightarrow> prio ts t = prio ts0 t"
    using lent True by (auto simp: lent_ok_def)
  have ts': "ts' = (if mx_original_priority mx \<noteq> prio ts thr then change_priority thr (mx_original_priority mx) ts else ts)"
    using rel True by (cases "mx_suspend mx") (auto simp: rt_mutex_release_def Let_def)
  then have p: "prio ts' t = prio ts0 t" for t using orig others by simp
  have "thr \<notin> set (mx_suspend mx)" using own True by (simp add: own_ok_def)
  then have same: "prio ts' x = prio ts x" if "x \<in> set (mx_suspend mx)" for x
    using that p [of x] others [of x] by (cases "x = thr") simp_all
  have "sorted (map (prio ts) (mx_suspend mx))" using lent by (simp add: lent_ok_def)
  then have s: "sorted (map (prio ts') (mx_suspend mx))" by (rule sorted_map_cong) (rule same)
  show ?thesis
  proof (cases "mx_suspend mx")
    case Nil
    then have "mx_owner mx' = None" "mx_suspend mx' = []" "mx_flag mx' = mx_flag mx"
      using rel True by (auto simp: rt_mutex_release_def Let_def)
    then show ?thesis using lent p by (simp add: lent_ok_def)
  next
    case (Cons n rest)
    then have "mx_owner mx' = Some n" "mx_suspend mx' = rest" "mx_flag mx' = mx_flag mx" "mx_original_priority mx' = prio ts' n"
      using rel True unfolding ts' by (auto simp: rt_mutex_release_def Let_def)
    then show ?thesis using lent p s Cons by (simp add: lent_ok_def)
  qed
qed

lemma lent_ok_reach:
  assumes "mx_reach False (rt_mutex_init RT_IPC_FLAG_PRIO) ts0 mx ts"
  shows "lent_ok ts0 mx ts"
  using assms
proof (induction rule: mx_reach.induct)
  case mx_init
  then show ?case by (simp add: lent_ok_def rt_mutex_init_def)
next
  case (mx_take mx ts thr time mx' ts' r)
  then show ?case by (blast intro: lent_ok_take own_ok_reach)
next
  case (mx_release mx ts thr mx' ts' r w)
  then show ?case by (blast intro: lent_ok_release own_ok_reach)
next
  case (mx_expire mx ts thr mx' ts')
  have "sorted (map (prio ts) (remove1 thr (mx_suspend mx)))"
    using mx_expire.IH by (auto simp: lent_ok_def sorted_map_remove1)
  then show ?case using mx_expire set_remove1_subset [of thr "mx_suspend mx"]
    by (auto simp: lent_ok_def mutex_timeout_def)
qed simp

section \<open>Service\<close>

text \<open>The owner, whoever it is, releases once.\<close>

definition owner_release :: "rt_mutex \<times> threads \<Rightarrow> rt_mutex \<times> threads" where
  "owner_release = (\<lambda>(mx, ts). case mx_owner mx of None \<Rightarrow> (mx, ts)
     | Some w \<Rightarrow> (case rt_mutex_release mx ts w of (mx', ts', _, _) \<Rightarrow> (mx', ts')))"

lemma owner_release_nested:
  assumes "mx_owner mx = Some w" and "unat (mx_hold mx) = Suc (Suc n)" and "owner_release (mx, ts) = (mx', ts')"
  shows "mx_owner mx' = Some w \<and> unat (mx_hold mx') = Suc n \<and> mx_suspend mx' = mx_suspend mx"
proof -
  have nz: "mx_hold mx \<noteq> 0" using assms(2) by auto
  have u: "unat (mx_hold mx - 1) = Suc n" using unat_minus_one [OF nz] assms(2) by simp
  then have "mx_hold mx - 1 \<noteq> 0" by (metis nat.distinct(1) unsigned_0)
  then show ?thesis using assms(1,3) u by (auto simp: owner_release_def rt_mutex_release_def Let_def)
qed

lemma owner_release_last:
  assumes "mx_owner mx = Some w" and "unat (mx_hold mx) = 1" and "mx_suspend mx = t # xs" and "owner_release (mx, ts) = (mx', ts')"
  shows "mx_owner mx' = Some t \<and> unat (mx_hold mx') = 1 \<and> mx_suspend mx' = xs"
proof -
  have "mx_hold mx = 1" using assms(2) by (metis unsigned_1 unsigned_word_eqI)
  then show ?thesis using assms by (auto simp: owner_release_def rt_mutex_release_def Let_def)
qed

lemma owner_release_all:
  assumes "mx_owner mx = Some w" and "unat (mx_hold mx) = Suc n" and "mx_suspend mx = t # xs"
  shows "\<exists>mx' ts'. (owner_release ^^ Suc n) (mx, ts) = (mx', ts') \<and> mx_owner mx' = Some t \<and> unat (mx_hold mx') = 1 \<and> mx_suspend mx' = xs"
  using assms
proof (induction n arbitrary: mx ts)
  case 0
  then show ?case using owner_release_last [of mx w t xs ts] by (cases "owner_release (mx, ts)") simp
next
  case (Suc n)
  obtain mx1 ts1 where r: "owner_release (mx, ts) = (mx1, ts1)" by fastforce
  from owner_release_nested [OF Suc.prems(1,2) r] Suc.prems(3) Suc.IH [of mx1 ts1] show ?case
    unfolding funpow_Suc_right [of "Suc n"] comp_def r by simp
qed

section \<open>Properties\<close>

text \<open>Claim C19. Mutual exclusion, whatever other parts of the system do to the threads: a mutex has one
  owner or is free with nobody waiting; \<open>rt_mutex_take\<close> never reads a null owner, succeeds at
  once only for the owner or on a free mutex, and otherwise leaves the owner alone; a release
  by anyone else is refused with \<open>-RT_ERROR\<close> and changes nothing.\<close>

theorem mutex_exclusive:
  assumes "mx_reach env (rt_mutex_init flag) ts0 mx ts"
  shows "(mx_owner mx = None \<longrightarrow> mx_value mx = 1 \<and> mx_suspend mx = []) \<and> (mx_owner mx \<noteq> None \<longrightarrow> mx_value mx = 0) \<and>
    (\<forall>time thr mx' ts' r. rt_mutex_take mx ts time thr = (mx', ts', r) \<and> thr \<notin> set (mx_suspend mx) \<and>
        (mx_owner mx = Some thr \<longrightarrow> mx_hold mx < 255) \<longrightarrow>
      r \<noteq> Mx_fault \<and>
      (if mx_owner mx = None \<or> mx_owner mx = Some thr then r = Mx_return RT_EOK \<and> mx_owner mx' = Some thr
       else r \<noteq> Mx_return RT_EOK \<and> mx_owner mx' = mx_owner mx)) \<and>
    (\<forall>thr. mx_owner mx \<noteq> Some thr \<longrightarrow>
      rt_mutex_release mx ts thr = (mx, set_error thr (- RT_ERROR) ts, - RT_ERROR, None))"
proof -
  have own: "own_ok mx" using assms by (rule own_ok_reach)
  have "r \<noteq> Mx_fault \<and>
      (if mx_owner mx = None \<or> mx_owner mx = Some thr then r = Mx_return RT_EOK \<and> mx_owner mx' = Some thr
       else r \<noteq> Mx_return RT_EOK \<and> mx_owner mx' = mx_owner mx)"
    if t: "rt_mutex_take mx ts time thr = (mx', ts', r)" "thr \<notin> set (mx_suspend mx)" "mx_owner mx = Some thr \<longrightarrow> mx_hold mx < 255"
    for time thr mx' ts' r
    using own_ok_take [OF own t(2,3,1)] by (cases "r = Mx_return RT_EOK") auto
  moreover have "mx_owner mx = None \<longrightarrow> mx_value mx = 1 \<and> mx_suspend mx = []" "mx_owner mx \<noteq> None \<longrightarrow> mx_value mx = 0"
    using own by (auto simp: own_ok_def)
  moreover have "mx_owner mx \<noteq> Some thr \<longrightarrow> rt_mutex_release mx ts thr = (mx, set_error thr (- RT_ERROR) ts, - RT_ERROR, None)" for thr
    by (simp add: rt_mutex_release_def)
  ultimately show ?thesis by blast
qed

text \<open>Claim C20. On a mutex with \<open>RT_IPC_FLAG_PRIO\<close>, as long as only this mutex changes priorities, there
  is no priority inversion and no priority is kept: the owner always has at least the
  priority of every waiter, every other thread has the priority it started with, and the owner
  will get its own back, because that is what \<open>original_priority\<close> holds.\<close>

theorem mutex_priority_inheritance:
  assumes "mx_reach False (rt_mutex_init RT_IPC_FLAG_PRIO) ts0 mx ts"
  shows "(\<forall>t. mx_owner mx \<noteq> Some t \<longrightarrow> prio ts t = prio ts0 t) \<and>
    (\<forall>w. mx_owner mx = Some w \<longrightarrow> mx_original_priority mx = prio ts0 w \<and>
       list_all (\<lambda>t. prio ts w \<le> prio ts t) (mx_suspend mx))"
  using lent_ok_reach [OF assms] by (auto simp: lent_ok_def list_all_iff)

text \<open>Claim C21. Every waiter is served: when the owners release, the waiter at place \<open>k\<close> of the list owns
  the mutex after the owner's open holds and \<open>k\<close> further releases, whatever the flag.\<close>

theorem mutex_waiter_served:
  assumes "mx_reach env (rt_mutex_init flag) ts0 mx ts" and "mx_suspend mx = xs @ t # ys"
  shows "mx_owner (fst ((owner_release ^^ (unat (mx_hold mx) + length xs)) (mx, ts))) = Some t"
proof -
  have own: "own_ok mx" using assms(1) by (rule own_ok_reach)
  then obtain w where w: "mx_owner mx = Some w" "mx_hold mx \<noteq> 0" using assms(2) by (auto simp: own_ok_def split: option.splits)
  obtain n where n: "unat (mx_hold mx) = Suc n" using w(2) unat_gt_0 [of "mx_hold mx"] by (metis gr0_implies_Suc)
  have served: "mx_owner (fst ((owner_release ^^ (Suc n + length xs)) (mx, ts))) = Some t"
    if "mx_owner mx = Some w" "unat (mx_hold mx) = Suc n" "mx_suspend mx = xs @ t # ys" for mx ts w n
    using that
  proof (induction xs arbitrary: mx ts w n)
    case Nil
    then show ?case using owner_release_all [of mx w n t ys ts] by fastforce
  next
    case (Cons x xs)
    obtain mx1 ts1 where r: "(owner_release ^^ Suc n) (mx, ts) = (mx1, ts1)" "mx_owner mx1 = Some x" "unat (mx_hold mx1) = Suc 0"
        "mx_suspend mx1 = xs @ t # ys"
      using owner_release_all [OF Cons.prems(1,2), of x "xs @ t # ys" ts] Cons.prems(3) by auto
    have k: "Suc n + length (x # xs) = (Suc 0 + length xs) + Suc n" by simp
    have "(owner_release ^^ ((Suc 0 + length xs) + Suc n)) (mx, ts) = (owner_release ^^ (Suc 0 + length xs)) (mx1, ts1)"
      using r(1) by (simp only: funpow_add [of "Suc 0 + length xs" "Suc n"] comp_apply)
    then show ?case using Cons.IH [OF r(2,3,4)] unfolding k by simp
  qed
  show ?thesis using served [OF w(1) n assms(2)] n by simp
qed

text \<open>Three threads on one mutex: 1 owns it twice, 2 and then 3 wait.\<close>

definition demo_threads :: threads where
  "demo_threads = (\<lambda>t. \<lparr>tcb_priority = (if t = 1 then 10 else if t = 2 then 20 else 5), tcb_mask = 0, tcb_error = 0\<rparr>)"

definition demo_mutex :: "u8 \<Rightarrow> rt_mutex \<times> threads" where
  "demo_mutex flag =
     (let (m1, t1, _) = rt_mutex_take (rt_mutex_init flag) demo_threads 0 1;
          (m2, t2, _) = rt_mutex_take m1 t1 0 1;
          (m3, t3, _) = rt_mutex_take m2 t2 (-1) 2;
          (m4, t4, _) = rt_mutex_take m3 t3 (-1) 3
      in (m4, t4))"

lemmas demo_ops = demo_mutex_def rt_mutex_take_def mutex_again_def rt_mutex_init_def list_suspend_def demo_threads_def
  set_error_def change_priority_def rt_codes Let_def word_less_nat_alt

lemma demo_mutex_reach: "mx_reach False (rt_mutex_init flag) demo_threads (fst (demo_mutex flag)) (snd (demo_mutex flag))"
  if "flag = RT_IPC_FLAG_PRIO"
proof -
  obtain m1 t1 r1 where 1: "rt_mutex_take (rt_mutex_init flag) demo_threads 0 1 = (m1, t1, r1)" by (metis prod_cases3)
  obtain m2 t2 r2 where 2: "rt_mutex_take m1 t1 0 1 = (m2, t2, r2)" by (metis prod_cases3)
  obtain m3 t3 r3 where 3: "rt_mutex_take m2 t2 (-1) 2 = (m3, t3, r3)" by (metis prod_cases3)
  obtain m4 t4 r4 where 4: "rt_mutex_take m3 t3 (-1) 3 = (m4, t4, r4)" by (metis prod_cases3)
  have a: "mx_suspend m1 = []" "mx_hold m1 = 1" "mx_suspend m2 = []" "mx_owner m2 = Some 1" "mx_suspend m3 = [2]" "mx_owner m3 = Some 1"
    using 1 2 3 that by (auto simp: demo_ops)
  have "mx_reach False (rt_mutex_init flag) demo_threads m1 t1"
    by (rule mx_take [OF mx_init _ _ 1]) (simp_all add: rt_mutex_init_def)
  from mx_take [OF this _ _ 2] have "mx_reach False (rt_mutex_init flag) demo_threads m2 t2"
    using a by (simp add: word_less_nat_alt)
  from mx_take [OF this _ _ 3] have "mx_reach False (rt_mutex_init flag) demo_threads m3 t3" using a by simp
  from mx_take [OF this _ _ 4] have "mx_reach False (rt_mutex_init flag) demo_threads m4 t4" using a by simp
  then show ?thesis using 1 2 3 4 by (simp add: demo_mutex_def)
qed

lemmas demo_reach_prio = demo_mutex_reach [OF refl]

lemma demo_mutex_state:
  "mx_owner (fst (demo_mutex RT_IPC_FLAG_PRIO)) = Some 1" "mx_suspend (fst (demo_mutex RT_IPC_FLAG_PRIO)) = [3, 2]"
  "mx_hold (fst (demo_mutex RT_IPC_FLAG_PRIO)) = 2"
  by (simp_all add: demo_ops)

theorem mutex_exclusive_witness:
  "mx_value (fst (demo_mutex RT_IPC_FLAG_PRIO)) = 0 \<and>
   rt_mutex_release (fst (demo_mutex RT_IPC_FLAG_PRIO)) (snd (demo_mutex RT_IPC_FLAG_PRIO)) 4 =
     (fst (demo_mutex RT_IPC_FLAG_PRIO), set_error 4 (- RT_ERROR) (snd (demo_mutex RT_IPC_FLAG_PRIO)), - RT_ERROR, None)"
  using mutex_exclusive [OF demo_reach_prio] by (simp add: demo_mutex_state)

theorem mutex_priority_inheritance_witness:
  "prio (snd (demo_mutex RT_IPC_FLAG_PRIO)) 1 \<le> prio (snd (demo_mutex RT_IPC_FLAG_PRIO)) 3 \<and>
   prio (snd (demo_mutex RT_IPC_FLAG_PRIO)) 3 = 5 \<and> mx_original_priority (fst (demo_mutex RT_IPC_FLAG_PRIO)) = 10"
  using mutex_priority_inheritance [OF demo_reach_prio]
    mutex_priority_inheritance [OF demo_reach_prio, THEN conjunct1, THEN spec, of 3]
  by (simp add: demo_mutex_state demo_threads_def)

theorem mutex_waiter_served_witness:
  "mx_owner (fst ((owner_release ^^ 3) (demo_mutex RT_IPC_FLAG_PRIO))) = Some 2"
  using mutex_waiter_served [OF demo_reach_prio, of "[3]" 2 "[]"] by (simp add: demo_mutex_state)

section \<open>Limits\<close>

text \<open>With \<open>RT_IPC_FLAG_FIFO\<close> the next owner does not inherit: thread 2 owns with priority 20 while
  thread 3 waits with priority 5.\<close>

lemma mutex_fifo_inversion:
  "(case (owner_release ^^ 2) (demo_mutex RT_IPC_FLAG_FIFO) of (mx, ts) \<Rightarrow>
      mx_owner mx = Some 2 \<and> mx_suspend mx = [3] \<and> prio ts 2 = 20 \<and> prio ts 3 = 5)"
  by (simp add: demo_ops numeral_eq_Suc owner_release_def rt_mutex_release_def)

text \<open>A thread whose wait was interrupted by a signal keeps the error \<open>-RT_EINTR\<close> through the second
  wait: when the mutex is then handed to it, it queues behind itself.\<close>

lemma mutex_eintr_self_wait:
  assumes "own_ok mx" and "mx_owner mx = Some thr" and "tcb_error (ts thr) = - RT_EINTR" and "time \<noteq> 0"
    and "mx_flag mx = RT_IPC_FLAG_FIFO"
  shows "\<exists>mx' tm. mutex_take_resume mx ts time thr = (mx', ts, Mx_suspended tm) \<and> thr \<in> set (mx_suspend mx') \<and> mx_owner mx' = Some thr"
  using assms by (auto simp: mutex_take_resume_def mutex_again_def own_ok_def list_suspend_def Let_def rt_codes RT_EINTR_def)

text \<open>The hold counter wraps: the 256th nested take of the owner leaves it at zero.\<close>

lemma mutex_hold_wraps:
  assumes "mx_owner mx = Some thr" and "mx_hold mx = 255"
  shows "\<exists>mx' ts'. rt_mutex_take mx ts time thr = (mx', ts', Mx_return RT_EOK) \<and> mx_hold mx' = 0 \<and> mx_owner mx' = Some thr"
  using assms by (simp add: rt_mutex_take_def)
end
