(* ===== verification/Rt_Event.thy ===== *)
theory Rt_Event
  imports Rt_Ipc
begin

text \<open>
  Events of the kernel (\<open>rt-thread/src/ipc.c\<close>): 32 flags that threads wait for, all of a set
  (\<open>RT_EVENT_FLAG_AND\<close>) or any (\<open>RT_EVENT_FLAG_OR\<close>), with the option to clear what they received.
  \<open>rt_event_recv\<close> is split at \<open>rt_schedule\<close>; \<open>event_recv_resume\<close> is what the thread does when it
  runs again. The theory shows that no waiting thread is overlooked and that a cleared flag
  goes to one receiver.
\<close>

section \<open>State\<close>

definition RT_EVENT_FLAG_AND :: u8 where "RT_EVENT_FLAG_AND = 0x01"
definition RT_EVENT_FLAG_OR :: u8 where "RT_EVENT_FLAG_OR = 0x02"
definition RT_EVENT_FLAG_CLEAR :: u8 where "RT_EVENT_FLAG_CLEAR = 0x04"

lemmas event_flags = RT_EVENT_FLAG_AND_def RT_EVENT_FLAG_OR_def RT_EVENT_FLAG_CLEAR_def

text \<open>The control block with the two fields that only events use.\<close>

record event_thread = rt_thread +
  event_set :: u32
  event_info :: u8

record rt_event =
  ev_suspend :: "event_thread list"
  ev_flag :: u8
  ev_set :: u32

datatype event_result =
    Event_return int "u32 option"
  | Event_suspended "int option"
  | Event_assert

section \<open>Operations\<close>

definition rt_event_init :: "u8 \<Rightarrow> rt_event" where
  "rt_event_init flag = \<lparr>ev_suspend = [], ev_flag = flag, ev_set = 0\<rparr>"

definition rt_event_create :: "bool \<Rightarrow> u8 \<Rightarrow> rt_event option" where
  "rt_event_create allocated flag = (if allocated then Some \<lparr>ev_suspend = [], ev_flag = flag, ev_set = 0\<rparr> else None)"

definition rt_event_detach :: "rt_event \<Rightarrow> event_thread list \<times> int" where
  "rt_event_detach ev = (snd (rt_ipc_list_resume_all (ev_suspend ev)), RT_EOK)"

definition rt_event_delete :: "rt_event \<Rightarrow> event_thread list \<times> int" where
  "rt_event_delete ev = (snd (rt_ipc_list_resume_all (ev_suspend ev)), RT_EOK)"

text \<open>The test of one waiting thread: the thread as it is resumed, or \<open>None\<close>.\<close>

definition event_match :: "u32 \<Rightarrow> event_thread \<Rightarrow> event_thread option" where
  "event_match bits thread =
     (if event_info thread AND RT_EVENT_FLAG_AND \<noteq> 0
      then if event_set thread AND bits = event_set thread then Some thread else None
      else if event_info thread AND RT_EVENT_FLAG_OR \<noteq> 0
      then if event_set thread AND bits \<noteq> 0
        then Some (thread\<lparr>event_set := event_set thread AND bits\<rparr>) else None
      else None)"

text \<open>The walk over the waiting threads: the flags left, the threads still waiting, the threads
  resumed.\<close>

fun send_walk :: "u32 \<Rightarrow> event_thread list \<Rightarrow> u32 \<times> event_thread list \<times> event_thread list" where
  "send_walk bits [] = (bits, [], [])"
| "send_walk bits (thread # rest) =
     (case event_match bits thread of
        Some t \<Rightarrow>
          let bits1 = (if event_info t AND RT_EVENT_FLAG_CLEAR \<noteq> 0 then bits AND NOT (event_set t) else bits);
              (b, ws, rs) = send_walk bits1 rest
          in (b, ws, t # rs)
      | None \<Rightarrow> let (b, ws, rs) = send_walk bits rest in (b, thread # ws, rs))"

definition rt_event_send :: "rt_event \<Rightarrow> u32 \<Rightarrow> rt_event \<times> event_thread list \<times> int" where
  "rt_event_send ev bits =
     (if bits = 0 then (ev, [], - RT_ERROR)
      else let (b, ws, rs) = send_walk (ev_set ev OR bits) (ev_suspend ev)
        in (ev\<lparr>ev_set := b, ev_suspend := ws\<rparr>, rs, RT_EOK))"

definition rt_event_recv :: "rt_event \<Rightarrow> u32 \<Rightarrow> u8 \<Rightarrow> int \<Rightarrow> rt_thread \<Rightarrow> rt_event \<times> event_result" where
  "rt_event_recv ev bits opt timeout self =
     (if bits = 0 then (ev, Event_return (- RT_ERROR) None)
      else if opt AND RT_EVENT_FLAG_AND = 0 \<and> opt AND RT_EVENT_FLAG_OR = 0 then (ev, Event_assert)
      else let ok = (if opt AND RT_EVENT_FLAG_AND \<noteq> 0 then ev_set ev AND bits = bits else ev_set ev AND bits \<noteq> 0) in
        if ok
        then ((if opt AND RT_EVENT_FLAG_CLEAR \<noteq> 0 then ev\<lparr>ev_set := ev_set ev AND NOT bits\<rparr> else ev),
              Event_return RT_EOK (Some (ev_set ev AND bits)))
        else if timeout = 0 then (ev, Event_return (- RT_ETIMEOUT) None)
        else let thread = \<lparr>thread_id = thread_id self, current_priority = current_priority self, thread_error = RT_EOK,
                           event_set = bits, event_info = opt\<rparr>
          in (ev\<lparr>ev_suspend := rt_ipc_list_suspend (ev_suspend ev) thread (ev_flag ev)\<rparr>,
              Event_suspended (if timeout > 0 then Some timeout else None)))"

definition event_recv_resume :: "event_thread \<Rightarrow> event_result" where
  "event_recv_resume thread =
     (if thread_error thread \<noteq> RT_EOK then Event_return (thread_error thread) None
      else Event_return (thread_error thread) (Some (event_set thread)))"

definition rt_event_control :: "rt_event \<Rightarrow> int \<Rightarrow> rt_event \<times> event_thread list \<times> int" where
  "rt_event_control ev cmd =
     (if cmd = RT_IPC_CMD_RESET
      then let (xs, rs) = rt_ipc_list_resume_all (ev_suspend ev) in (ev\<lparr>ev_suspend := xs, ev_set := 0\<rparr>, rs, RT_EOK)
      else (ev, [], - RT_ERROR))"

definition event_timeout :: "rt_event \<Rightarrow> event_thread \<Rightarrow> rt_event \<times> event_thread" where
  "event_timeout ev thread =
     (ev\<lparr>ev_suspend := remove1 thread (ev_suspend ev)\<rparr>, thread\<lparr>thread_error := - RT_ETIMEOUT\<rparr>)"

section \<open>Nobody is overlooked\<close>

inductive event_reach :: "rt_event \<Rightarrow> rt_event \<Rightarrow> bool" for ev0 where
  event_init: "event_reach ev0 ev0"
| event_send: "event_reach ev0 ev \<Longrightarrow> rt_event_send ev bits = (ev', rs, r) \<Longrightarrow> event_reach ev0 ev'"
| event_recv: "event_reach ev0 ev \<Longrightarrow> rt_event_recv ev bits opt timeout thr = (ev', r) \<Longrightarrow> event_reach ev0 ev'"
| event_control: "event_reach ev0 ev \<Longrightarrow> rt_event_control ev cmd = (ev', rs, r) \<Longrightarrow> event_reach ev0 ev'"
| event_expire: "event_reach ev0 ev \<Longrightarrow> event_timeout ev thr = (ev', thr') \<Longrightarrow> event_reach ev0 ev'"

lemma and_subset: "a AND b = a \<Longrightarrow> b AND c = b \<Longrightarrow> a AND c = a" for a b c :: "'a::len word"
  by (metis and.assoc)

lemma event_match_mono:
  assumes "b AND c = b" and "event_match c t = None"
  shows "event_match b t = None"
proof -
  have "event_set t AND b = (event_set t AND c) AND b" by (subst (1) assms(1) [symmetric]) (simp add: ac_simps)
  then have "event_set t AND b \<noteq> 0 \<Longrightarrow> event_set t AND c \<noteq> 0" by auto
  then show ?thesis using assms and_subset [of "event_set t" b c] by (auto simp: event_match_def split: if_splits)
qed

text \<open>The flags a resumed thread takes away.\<close>

definition taken_bits :: "event_thread \<Rightarrow> u32" where
  "taken_bits t = (if event_info t AND RT_EVENT_FLAG_CLEAR \<noteq> 0 then event_set t else 0)"

lemma send_walk_None:
  "event_match bits t = None \<Longrightarrow> send_walk bits rest = (b, ws, rs) \<Longrightarrow> send_walk bits (t # rest) = (b, t # ws, rs)"
  by simp

lemma send_walk_Some:
  "event_match bits t = Some u \<Longrightarrow> send_walk (bits AND NOT (taken_bits u)) rest = (b, ws, rs) \<Longrightarrow>
     send_walk bits (t # rest) = (b, ws, u # rs)"
  by (simp add: taken_bits_def Let_def split: if_splits)

lemma event_match_subset: "event_match bits t = Some u \<Longrightarrow> event_set u AND bits = event_set u"
  by (auto simp: event_match_def ac_simps split: if_splits)

lemma taken_subset: "event_match bits t = Some u \<Longrightarrow> taken_bits u AND bits = taken_bits u"
  using event_match_subset [of bits t u] by (simp add: taken_bits_def)

lemma and_not_subset: "(b AND NOT c) AND b = b AND NOT c" for b c :: "'a::len word"
  by (simp add: ac_simps)

lemma and_not_disjoint: "a AND (b AND NOT c) = a \<Longrightarrow> c AND a = 0" for a b c :: "'a::len word"
  by (metis and.assoc and.commute and_zero_eq bit.conj_cancel_right)

lemma send_walk_facts:
  assumes "send_walk bits ts = (b, ws, rs)"
  shows "b = bits AND NOT (foldr (OR) (map taken_bits rs) 0) \<and>
    list_all (\<lambda>t. event_set t AND bits = event_set t) rs \<and> list_all (\<lambda>t. taken_bits t AND bits = taken_bits t) rs \<and>
    sorted_wrt (\<lambda>x y. x AND y = 0) (map taken_bits rs) \<and>
    set ws \<subseteq> set ts \<and> list_all (\<lambda>t. event_match b t = None) ws"
  using assms
proof (induction ts arbitrary: bits b ws rs)
  case (Cons t ts)
  show ?case
  proof (cases "event_match bits t")
    case None
    obtain b' ws' rs' where w: "send_walk bits ts = (b', ws', rs')" by (metis prod_cases3)
    note ih = Cons.IH [OF w]
    have "b' AND bits = b'" using ih by (simp add: and_not_subset)
    from event_match_mono [OF this None] have "event_match b' t = None" .
    then show ?thesis using Cons.prems send_walk_None [OF None w] ih by auto
  next
    case (Some u)
    define c where "c = bits AND NOT (taken_bits u)"
    obtain b' ws' rs' where w: "send_walk c ts = (b', ws', rs')" by (metis prod_cases3)
    note ih = Cons.IH [OF w]
    have e: "b = b'" "ws = ws'" "rs = u # rs'" using Cons.prems send_walk_Some [OF Some, folded c_def, OF w] by auto
    have sub: "x AND bits = x" if "x AND c = x" for x
      using that and_not_subset [of bits "taken_bits u"] and_subset [of x c bits] by (simp add: c_def)
    have "taken_bits u AND x = 0" if "x AND c = x" for x
      using and_not_disjoint [of x bits "taken_bits u"] that by (simp add: c_def)
    then have "list_all (\<lambda>t. taken_bits u AND taken_bits t = 0) rs'" using ih by (auto simp: list_all_iff)
    moreover have "b' = bits AND NOT (taken_bits u OR foldr (OR) (map taken_bits rs') 0)"
      using ih by (simp add: c_def bit.de_Morgan_disj ac_simps)
    ultimately show ?thesis
      using ih sub event_match_subset [OF Some] taken_subset [OF Some] by (auto simp: e list_all_iff)
  qed
qed simp

lemma event_reach_waits:
  assumes "event_reach (rt_event_init flag) ev"
  shows "list_all (\<lambda>t. event_match (ev_set ev) t = None) (ev_suspend ev)"
  using assms
proof (induction rule: event_reach.induct)
  case event_init
  then show ?case by (simp add: rt_event_init_def)
next
  case (event_send ev bits ev' rs r)
  obtain b ws rs' where w: "send_walk (ev_set ev OR bits) (ev_suspend ev) = (b, ws, rs')" by (metis prod_cases3)
  then show ?case using event_send send_walk_facts [OF w] by (auto simp: rt_event_send_def split: if_splits)
next
  case (event_recv ev bits opt timeout thr ev' r)
  let ?new = "\<lparr>thread_id = thread_id thr, current_priority = current_priority thr, thread_error = RT_EOK,
      event_set = bits, event_info = opt\<rparr>"
  have "set (rt_ipc_list_suspend (ev_suspend ev) ?new (ev_flag ev)) \<subseteq> insert ?new (set (ev_suspend ev))"
    by (auto simp: rt_ipc_list_suspend_def)
  moreover have "event_match (ev_set ev AND NOT bits) t = None" if "event_match (ev_set ev) t = None" for t
    using event_match_mono [OF and_not_subset that] .
  moreover have "event_match (ev_set ev) ?new = None"
    if "\<not> (if opt AND RT_EVENT_FLAG_AND \<noteq> 0 then ev_set ev AND bits = bits else ev_set ev AND bits \<noteq> 0)"
    using that by (auto simp: event_match_def and.commute split: if_splits)
  ultimately show ?case
    using event_recv by (auto simp: rt_event_recv_def Let_def list_all_iff split: if_splits)
next
  case (event_control ev cmd ev' rs r)
  then show ?case by (auto simp: rt_event_control_def resume_all_eq split: if_splits)
next
  case (event_expire ev thr ev' thr')
  then show ?case using set_remove1_subset [of thr "ev_suspend ev"] by (auto simp: event_timeout_def list_all_iff)
qed

lemma event_match_None:
  "event_match b t = None \<longleftrightarrow> (if event_info t AND RT_EVENT_FLAG_AND \<noteq> 0 then event_set t AND b \<noteq> event_set t
     else event_info t AND RT_EVENT_FLAG_OR \<noteq> 0 \<longrightarrow> event_set t AND b = 0)"
  by (simp add: event_match_def)

section \<open>Properties\<close>

text \<open>Claim C25. Whatever is sent, received, cleared, reset or timed out, in every reachable state no
  waiting thread is overlooked: a thread that waits for all of its flags misses one of them,
  and a thread that waits for any of its flags has none of them set.\<close>

theorem event_none_overlooked:
  assumes "event_reach (rt_event_init flag) ev"
  shows "list_all (\<lambda>t. if event_info t AND RT_EVENT_FLAG_AND \<noteq> 0 then event_set t AND ev_set ev \<noteq> event_set t
     else event_info t AND RT_EVENT_FLAG_OR \<noteq> 0 \<longrightarrow> event_set t AND ev_set ev = 0) (ev_suspend ev)"
  using event_reach_waits [OF assms] unfolding event_match_None .

text \<open>What a send delivers: every resumed thread receives flags that are set, threads with
  \<open>RT_EVENT_FLAG_CLEAR\<close> never receive the same flag twice in one send, and exactly the flags
  they received are removed from the event.\<close>

theorem event_send_delivers:
  assumes "bits \<noteq> 0" and "rt_event_send ev bits = (ev', rs, r)"
  shows "r = RT_EOK \<and> list_all (\<lambda>t. event_set t AND (ev_set ev OR bits) = event_set t) rs \<and>
    sorted_wrt (\<lambda>x y. taken_bits x AND taken_bits y = 0) rs \<and>
    ev_set ev' = (ev_set ev OR bits) AND NOT (foldr (\<lambda>t b. taken_bits t OR b) rs 0)"
proof -
  obtain b ws rs' where w: "send_walk (ev_set ev OR bits) (ev_suspend ev) = (b, ws, rs')" by (metis prod_cases3)
  then have "ev_set ev' = b" "rs = rs'" "r = RT_EOK" using assms by (auto simp: rt_event_send_def)
  moreover have "foldr (OR) (map taken_bits rs') 0 = foldr (\<lambda>t b. taken_bits t OR b) rs' 0" by (simp add: foldr_map comp_def)
  ultimately show ?thesis using send_walk_facts [OF w] by (simp add: sorted_wrt_map)
qed

definition demo_waiter :: "nat \<Rightarrow> u32 \<Rightarrow> u8 \<Rightarrow> event_thread" where
  "demo_waiter i bits opt = \<lparr>thread_id = i, current_priority = 9, thread_error = 0, event_set = bits, event_info = opt\<rparr>"

lemma demo_event_reach:
  "event_reach (rt_event_init 0) \<lparr>ev_suspend = [demo_waiter 1 3 5], ev_flag = 0, ev_set = 1\<rparr>"
proof -
  have 1: "rt_event_recv (rt_event_init 0) 3 5 (-1) (sample_thread 1 9) =
      (\<lparr>ev_suspend = [demo_waiter 1 3 5], ev_flag = 0, ev_set = 0\<rparr>, Event_suspended None)"
    by (simp add: rt_event_recv_def rt_event_init_def event_flags rt_ipc_list_suspend_def rt_codes demo_waiter_def sample_thread_def)
  have 2: "rt_event_send \<lparr>ev_suspend = [demo_waiter 1 3 5], ev_flag = 0, ev_set = 0\<rparr> 1 =
      (\<lparr>ev_suspend = [demo_waiter 1 3 5], ev_flag = 0, ev_set = 1\<rparr>, [], RT_EOK)"
    by (simp add: rt_event_send_def event_match_def event_flags demo_waiter_def)
  show ?thesis by (rule event_send [OF event_recv [OF event_init 1] 2])
qed

theorem event_none_overlooked_witness:
  "event_set (demo_waiter 1 3 5) AND 1 \<noteq> event_set (demo_waiter 1 3 5)"
  using event_none_overlooked [OF demo_event_reach] by (simp add: event_flags demo_waiter_def)

text \<open>Two threads want flag 1 and clear it; only the first is resumed.\<close>

theorem event_send_delivers_witness:
  "\<exists>ev'. rt_event_send \<lparr>ev_suspend = [demo_waiter 1 3 6, demo_waiter 2 1 6], ev_flag = 0, ev_set = 0\<rparr> 1 =
      (ev', [demo_waiter 1 1 6], RT_EOK) \<and> ev_set ev' = 0"
proof -
  have s: "rt_event_send \<lparr>ev_suspend = [demo_waiter 1 3 6, demo_waiter 2 1 6], ev_flag = 0, ev_set = 0\<rparr> 1 =
      (\<lparr>ev_suspend = [demo_waiter 2 1 6], ev_flag = 0, ev_set = 0\<rparr>, [demo_waiter 1 1 6], RT_EOK)"
    by (simp add: rt_event_send_def event_match_def event_flags demo_waiter_def)
  show ?thesis using event_send_delivers [OF _ s] s by simp
qed
end
