(* ===== verification/Rt_Mailbox.thy ===== *)
theory Rt_Mailbox
  imports Rt_Ipc Rt_Ringbuffer
begin

text \<open>
  Mailboxes of the kernel (\<open>rt-thread/src/ipc.c\<close>): a ring of words with a list of waiting
  receivers and one of waiting senders. \<open>rt_mb_send_wait\<close> and \<open>rt_mb_recv\<close> are split at
  \<open>rt_schedule\<close>: a call either returns or suspends its thread, and the \<open>resume\<close> functions are
  what a thread does when it runs again, with the ticks that have passed. The error field of
  the running thread itself is not kept, since the next wait resets it. The theory shows
  that a mailbox is a bounded queue and that no wake-up is lost.
\<close>

section \<open>State\<close>

definition RT_EFULL :: int where "RT_EFULL = 3"

record rt_mailbox =
  mb_suspend :: "rt_thread list"
  mb_flag :: u8
  msg_pool :: "u32 list"
  mb_size :: u16
  mb_entry :: u16
  in_offset :: u16
  out_offset :: u16
  suspend_sender :: "rt_thread list"

datatype mb_result =
    Mb_return int
  | Mb_received u32
  | Mb_suspended "int option"

text \<open>The thread a call has made ready, if any.\<close>

type_synonym woken = "rt_thread option"

section \<open>Operations\<close>

definition rt_mb_init :: "u32 list \<Rightarrow> u32 \<Rightarrow> u8 \<Rightarrow> rt_mailbox" where
  "rt_mb_init pool sz flag = \<lparr>mb_suspend = [], mb_flag = flag, msg_pool = pool, mb_size = ucast sz,
     mb_entry = 0, in_offset = 0, out_offset = 0, suspend_sender = []\<rparr>"

text \<open>The object and the pool come from the heap: \<open>pool\<close> is the memory it returned for a number of
  words.\<close>

definition rt_mb_create :: "bool \<Rightarrow> (nat \<Rightarrow> u32 list option) \<Rightarrow> u32 \<Rightarrow> u8 \<Rightarrow> rt_mailbox option" where
  "rt_mb_create allocated pool sz flag =
     (if allocated
      then case pool (unat (ucast sz :: u16)) of None \<Rightarrow> None
        | Some p \<Rightarrow> Some \<lparr>mb_suspend = [], mb_flag = flag, msg_pool = p, mb_size = ucast sz,
            mb_entry = 0, in_offset = 0, out_offset = 0, suspend_sender = []\<rparr>
      else None)"

text \<open>Both lists of waiting threads are made ready with \<open>-RT_ERROR\<close>; the object is gone.\<close>

definition rt_mb_detach :: "rt_mailbox \<Rightarrow> rt_thread list \<times> int" where
  "rt_mb_detach mb = (snd (rt_ipc_list_resume_all (mb_suspend mb)) @
     snd (rt_ipc_list_resume_all (suspend_sender mb)), RT_EOK)"

definition rt_mb_delete :: "rt_mailbox \<Rightarrow> rt_thread list \<times> int" where
  "rt_mb_delete mb = (snd (rt_ipc_list_resume_all (mb_suspend mb)) @
     snd (rt_ipc_list_resume_all (suspend_sender mb)), RT_EOK)"

definition next_offset :: "u16 \<Rightarrow> u16 \<Rightarrow> u16" where
  "next_offset off sz = (if off + 1 \<ge> sz then 0 else off + 1)"

definition wake_first :: "rt_thread list \<Rightarrow> rt_thread list \<times> woken" where
  "wake_first xs = (if xs \<noteq> [] then let (ys, thread) = rt_ipc_list_resume xs in (ys, Some thread) else (xs, None))"

definition mb_put :: "rt_mailbox \<Rightarrow> u32 \<Rightarrow> rt_mailbox \<times> mb_result \<times> woken" where
  "mb_put mb v =
     (let mb1 = mb\<lparr>msg_pool := (msg_pool mb)[unat (in_offset mb) := v],
                   in_offset := next_offset (in_offset mb) (mb_size mb), mb_entry := mb_entry mb + 1\<rparr>;
          (xs, w) = wake_first (mb_suspend mb1)
      in (mb1\<lparr>mb_suspend := xs\<rparr>, Mb_return RT_EOK, w))"

text \<open>One pass of the loop over a full mailbox.\<close>

definition mb_send_loop :: "rt_mailbox \<Rightarrow> u32 \<Rightarrow> int \<Rightarrow> rt_thread \<Rightarrow> rt_mailbox \<times> mb_result \<times> woken" where
  "mb_send_loop mb v timeout self =
     (if mb_entry mb = mb_size mb
      then let thread = self\<lparr>thread_error := RT_EOK\<rparr> in
        if timeout = 0 then (mb, Mb_return (- RT_EFULL), None)
        else (mb\<lparr>suspend_sender := rt_ipc_list_suspend (suspend_sender mb) thread (mb_flag mb)\<rparr>,
              Mb_suspended (if timeout > 0 then Some timeout else None), None)
      else mb_put mb v)"

definition rt_mb_send_wait :: "rt_mailbox \<Rightarrow> u32 \<Rightarrow> int \<Rightarrow> rt_thread \<Rightarrow> rt_mailbox \<times> mb_result \<times> woken" where
  "rt_mb_send_wait mb v timeout self =
     (if mb_entry mb = mb_size mb \<and> timeout = 0 then (mb, Mb_return (- RT_EFULL), None)
      else mb_send_loop mb v timeout self)"

definition rt_mb_send :: "rt_mailbox \<Rightarrow> u32 \<Rightarrow> rt_thread \<Rightarrow> rt_mailbox \<times> mb_result \<times> woken" where
  "rt_mb_send mb v self = rt_mb_send_wait mb v 0 self"

text \<open>What is left of a bounded wait: the subtraction is one of 32-bit words, read as signed.\<close>

definition remaining :: "int \<Rightarrow> u32 \<Rightarrow> int" where
  "remaining timeout tick_delta =
     (if timeout > 0 then let t = sint (word_of_int timeout - tick_delta :: u32) in if t < 0 then 0 else t
      else timeout)"

definition mb_send_resume :: "rt_mailbox \<Rightarrow> u32 \<Rightarrow> int \<Rightarrow> u32 \<Rightarrow> rt_thread \<Rightarrow> rt_mailbox \<times> mb_result \<times> woken" where
  "mb_send_resume mb v timeout tick_delta thread =
     (if thread_error thread \<noteq> RT_EOK then (mb, Mb_return (thread_error thread), None)
      else mb_send_loop mb v (remaining timeout tick_delta) thread)"

definition mb_get :: "rt_mailbox \<Rightarrow> rt_mailbox \<times> mb_result \<times> woken" where
  "mb_get mb =
     (let v = msg_pool mb ! unat (out_offset mb);
          mb1 = mb\<lparr>out_offset := next_offset (out_offset mb) (mb_size mb), mb_entry := mb_entry mb - 1\<rparr>;
          (xs, w) = wake_first (suspend_sender mb1)
      in (mb1\<lparr>suspend_sender := xs\<rparr>, Mb_received v, w))"

definition mb_recv_loop :: "rt_mailbox \<Rightarrow> int \<Rightarrow> rt_thread \<Rightarrow> rt_mailbox \<times> mb_result \<times> woken" where
  "mb_recv_loop mb timeout self =
     (if mb_entry mb = 0
      then let thread = self\<lparr>thread_error := RT_EOK\<rparr> in
        if timeout = 0 then (mb, Mb_return (- RT_ETIMEOUT), None)
        else (mb\<lparr>mb_suspend := rt_ipc_list_suspend (mb_suspend mb) thread (mb_flag mb)\<rparr>,
              Mb_suspended (if timeout > 0 then Some timeout else None), None)
      else mb_get mb)"

definition rt_mb_recv :: "rt_mailbox \<Rightarrow> int \<Rightarrow> rt_thread \<Rightarrow> rt_mailbox \<times> mb_result \<times> woken" where
  "rt_mb_recv mb timeout self =
     (if mb_entry mb = 0 \<and> timeout = 0 then (mb, Mb_return (- RT_ETIMEOUT), None)
      else mb_recv_loop mb timeout self)"

definition mb_recv_resume :: "rt_mailbox \<Rightarrow> int \<Rightarrow> u32 \<Rightarrow> rt_thread \<Rightarrow> rt_mailbox \<times> mb_result \<times> woken" where
  "mb_recv_resume mb timeout tick_delta thread =
     (if thread_error thread \<noteq> RT_EOK then (mb, Mb_return (thread_error thread), None)
      else mb_recv_loop mb (remaining timeout tick_delta) thread)"

definition rt_mb_control :: "rt_mailbox \<Rightarrow> int \<Rightarrow> rt_mailbox \<times> rt_thread list \<times> int" where
  "rt_mb_control mb cmd =
     (if cmd = RT_IPC_CMD_RESET
      then let (xs, r1) = rt_ipc_list_resume_all (mb_suspend mb);
               (ys, r2) = rt_ipc_list_resume_all (suspend_sender mb)
        in (mb\<lparr>mb_suspend := xs, suspend_sender := ys, mb_entry := 0, in_offset := 0, out_offset := 0\<rparr>,
            r1 @ r2, RT_EOK)
      else (mb, [], - RT_ERROR))"

section \<open>The ring as a queue\<close>

definition mb_wf :: "rt_mailbox \<Rightarrow> bool" where
  "mb_wf mb \<longleftrightarrow> 0 < mb_size mb \<and> length (msg_pool mb) = unat (mb_size mb) \<and> mb_entry mb \<le> mb_size mb \<and>
     out_offset mb < mb_size mb \<and>
     unat (in_offset mb) = (unat (out_offset mb) + unat (mb_entry mb)) mod unat (mb_size mb)"

definition mb_contents :: "rt_mailbox \<Rightarrow> u32 list" where
  "mb_contents mb = map (\<lambda>i. msg_pool mb ! ((unat (out_offset mb) + i) mod unat (mb_size mb))) [0..<unat (mb_entry mb)]"

lemma unat_next_offset: "off < sz \<Longrightarrow> unat (next_offset off sz) = (unat off + 1) mod unat sz"
proof -
  assume "off < sz"
  then have lt: "unat off < unat sz" by (simp add: word_less_nat_alt)
  moreover have "unat sz < 2 ^ 16" using unsigned_less [of sz, where 'a = nat] by simp
  ultimately have s: "unat (off + 1) = unat off + 1" by (simp add: unat_word_ariths)
  show ?thesis
  proof (cases "off + 1 \<ge> sz")
    case True
    then have "unat off + 1 = unat sz" using lt s by (simp add: word_le_nat_alt)
    then show ?thesis using True by (simp add: next_offset_def)
  next
    case False
    then have "unat off + 1 < unat sz" using s by (simp add: word_le_nat_alt)
    then show ?thesis using False s by (simp add: next_offset_def)
  qed
qed

lemma mb_wfD:
  assumes "mb_wf mb"
  shows "0 < unat (mb_size mb)" "unat (mb_entry mb) \<le> unat (mb_size mb)" "unat (out_offset mb) < unat (mb_size mb)"
    "unat (in_offset mb) < unat (mb_size mb)" "length (msg_pool mb) = unat (mb_size mb)" "unat (mb_size mb) < 2 ^ 16"
  using assms unsigned_less [of "mb_size mb", where 'a = nat]
  by (auto simp: mb_wf_def word_less_nat_alt word_le_nat_alt)

lemma length_mb_contents [simp]: "length (mb_contents mb) = unat (mb_entry mb)"
  by (simp add: mb_contents_def)

lemma ring_fresh: "j < e \<Longrightarrow> e < n \<Longrightarrow> (q + j) mod n \<noteq> (q + e) mod n" for n :: nat
proof
  assume a: "j < e" "e < n" "(q + j) mod n = (q + e) mod n"
  then have "n dvd (q + e) - (q + j)" using mod_eq_dvd_iff_nat [of "q + j" "q + e" n] by simp
  then have "n \<le> e - j" using a(1) by (intro dvd_imp_le) auto
  then show False using a(2) by simp
qed

lemma wake_first_eq: "wake_first xs = (tl xs, case xs of [] \<Rightarrow> None | t # _ \<Rightarrow> Some t)"
  by (cases xs) (simp_all add: wake_first_def rt_ipc_list_resume_def)

lemma mb_put_refines:
  assumes wf: "mb_wf mb" and room: "mb_entry mb \<noteq> mb_size mb" and put: "mb_put mb v = (mb', r, w)"
  shows "mb_wf mb'" "mb_contents mb' = mb_contents mb @ [v]" "mb_size mb' = mb_size mb" "r = Mb_return RT_EOK"
    "unat (mb_entry mb') = unat (mb_entry mb) + 1" "suspend_sender mb' = suspend_sender mb"
    "mb_suspend mb' = tl (mb_suspend mb)" "w = (case mb_suspend mb of [] \<Rightarrow> None | t # _ \<Rightarrow> Some t)"
    "mb_flag mb' = mb_flag mb"
proof -
  note d = mb_wfD [OF wf]
  let ?n = "unat (mb_size mb)" and ?e = "unat (mb_entry mb)" and ?o = "unat (out_offset mb)"
  have mb': "mb' = mb\<lparr>msg_pool := (msg_pool mb)[unat (in_offset mb) := v],
        in_offset := next_offset (in_offset mb) (mb_size mb), mb_entry := mb_entry mb + 1, mb_suspend := tl (mb_suspend mb)\<rparr>"
      and r: "r = Mb_return RT_EOK" and w: "w = (case mb_suspend mb of [] \<Rightarrow> None | t # _ \<Rightarrow> Some t)"
    using put by (simp_all add: mb_put_def Let_def wake_first_eq)
  have lt: "?e < ?n" using room d(2) by (metis le_neq_implies_less unsigned_word_eqI)
  then have e: "unat (mb_entry mb + 1) = ?e + 1" using d(6) by (simp add: unat_word_ariths)
  have i: "unat (in_offset mb) = (?o + ?e) mod ?n" using wf by (simp add: mb_wf_def)
  have "in_offset mb < mb_size mb" using d(4) by (simp add: word_less_nat_alt)
  note nx = unat_next_offset [OF this]
  show "mb_wf mb'" using wf d lt e nx i by (simp add: mb_wf_def mb' word_le_nat_alt mod_simps add.assoc)
  have "msg_pool mb ! ((?o + j) mod ?n) = (msg_pool mb)[unat (in_offset mb) := v] ! ((?o + j) mod ?n)" if "j < ?e" for j
    using ring_fresh [OF that lt, of ?o] by (metis i nth_list_update_neq)
  then show "mb_contents mb' = mb_contents mb @ [v]"
    using i d(1,4,5) by (simp add: mb_contents_def mb' e)
  show "mb_size mb' = mb_size mb" "r = Mb_return RT_EOK" "unat (mb_entry mb') = ?e + 1" "suspend_sender mb' = suspend_sender mb"
    "mb_suspend mb' = tl (mb_suspend mb)" "w = (case mb_suspend mb of [] \<Rightarrow> None | t # _ \<Rightarrow> Some t)" "mb_flag mb' = mb_flag mb"
    using r w e by (simp_all add: mb')
qed

lemma mb_get_refines:
  assumes wf: "mb_wf mb" and some: "mb_entry mb \<noteq> 0" and get: "mb_get mb = (mb', r, w)"
  shows "mb_wf mb'" "mb_contents mb \<noteq> []" "mb_contents mb' = tl (mb_contents mb)" "r = Mb_received (hd (mb_contents mb))"
    "mb_size mb' = mb_size mb" "unat (mb_entry mb) = unat (mb_entry mb') + 1" "mb_suspend mb' = mb_suspend mb"
    "suspend_sender mb' = tl (suspend_sender mb)" "w = (case suspend_sender mb of [] \<Rightarrow> None | t # _ \<Rightarrow> Some t)"
    "mb_flag mb' = mb_flag mb"
proof -
  note d = mb_wfD [OF wf]
  let ?n = "unat (mb_size mb)" and ?e = "unat (mb_entry mb)" and ?o = "unat (out_offset mb)"
  have mb': "mb' = mb\<lparr>out_offset := next_offset (out_offset mb) (mb_size mb), mb_entry := mb_entry mb - 1,
        suspend_sender := tl (suspend_sender mb)\<rparr>"
      and r: "r = Mb_received (msg_pool mb ! ?o)" and w: "w = (case suspend_sender mb of [] \<Rightarrow> None | t # _ \<Rightarrow> Some t)"
    using get by (simp_all add: mb_get_def Let_def wake_first_eq)
  have e: "?e = unat (mb_entry mb - 1) + 1"
    using some unat_minus_one [OF some] unat_gt_0 [of "mb_entry mb"] by linarith
  have "out_offset mb < mb_size mb" using d(3) by (simp add: word_less_nat_alt)
  note nx = unat_next_offset [OF this]
  have i: "unat (in_offset mb) = (?o + ?e) mod ?n" using wf by (simp add: mb_wf_def)
  show "mb_wf mb'" using d i nx e wf by (simp add: mb_wf_def mb' word_le_nat_alt word_less_nat_alt mod_simps)
  have c: "mb_contents mb = msg_pool mb ! (?o mod ?n) # map (\<lambda>i. msg_pool mb ! ((?o + Suc i) mod ?n)) [0..<unat (mb_entry mb - 1)]"
    unfolding mb_contents_def e by (simp add: upt_conv_Cons map_Suc_upt [symmetric] del: upt_Suc)
  then show "mb_contents mb \<noteq> []" "r = Mb_received (hd (mb_contents mb))" using d(3) r by simp_all
  show "mb_contents mb' = tl (mb_contents mb)"
    unfolding c by (simp add: mb_contents_def mb' nx mod_simps)
  show "mb_size mb' = mb_size mb" "?e = unat (mb_entry mb') + 1" "mb_suspend mb' = mb_suspend mb" "mb_flag mb' = mb_flag mb"
    "suspend_sender mb' = tl (suspend_sender mb)" "w = (case suspend_sender mb of [] \<Rightarrow> None | t # _ \<Rightarrow> Some t)"
    using e w by (simp_all add: mb')
qed

text \<open>The calls that do not wait, as the operations of a bounded queue.\<close>

definition mb_try_send :: "rt_thread \<Rightarrow> rt_mailbox \<Rightarrow> u32 \<Rightarrow> rt_mailbox \<times> nat" where
  "mb_try_send self mb v = (case rt_mb_send mb v self of (mb', r, _) \<Rightarrow> (mb', if r = Mb_return RT_EOK then 1 else 0))"

definition mb_try_recv :: "rt_thread \<Rightarrow> rt_mailbox \<Rightarrow> rt_mailbox \<times> u32 option" where
  "mb_try_recv self mb = (case rt_mb_recv mb 0 self of (mb', r, _) \<Rightarrow> (mb', case r of Mb_received v \<Rightarrow> Some v | _ \<Rightarrow> None))"

interpretation mb: bounded_fifo mb_wf mb_contents "\<lambda>mb. unat (mb_size mb)" "mb_try_send self" "mb_try_recv self" for self
proof
  fix s x s' n assume wf: "mb_wf s" and send: "mb_try_send self s x = (s', n)"
  show "mb_wf s' \<and> unat (mb_size s') = unat (mb_size s) \<and> queue_push (unat (mb_size s)) (mb_contents s) x = (mb_contents s', n)"
  proof (cases "mb_entry s = mb_size s")
    case True
    then show ?thesis using wf send
      by (simp add: mb_try_send_def rt_mb_send_def rt_mb_send_wait_def queue_push_def RT_EOK_def RT_EFULL_def)
  next
    case False
    obtain r w where p: "mb_put s x = (s', r, w)" "n = (if r = Mb_return RT_EOK then 1 else 0)"
      using send False
      by (auto simp: mb_try_send_def rt_mb_send_def rt_mb_send_wait_def mb_send_loop_def split: prod.splits)
    have "unat (mb_entry s) < unat (mb_size s)"
      using False mb_wfD(2) [OF wf] by (metis le_neq_implies_less unsigned_word_eqI)
    then show ?thesis using mb_put_refines [OF wf False p(1)] p(2) by (simp add: queue_push_def)
  qed
next
  fix s s' r assume wf: "mb_wf s" and recv: "mb_try_recv self s = (s', r)"
  show "mb_wf s' \<and> unat (mb_size s') = unat (mb_size s) \<and> queue_pop (mb_contents s) = (mb_contents s', r)"
  proof (cases "mb_entry s = 0")
    case True
    then show ?thesis using wf recv
      by (auto simp: mb_try_recv_def rt_mb_recv_def queue_pop_def mb_contents_def)
  next
    case False
    obtain q w where p: "mb_get s = (s', q, w)" "r = (case q of Mb_received v \<Rightarrow> Some v | _ \<Rightarrow> None)"
      using recv False by (auto simp: mb_try_recv_def rt_mb_recv_def mb_recv_loop_def split: prod.splits)
    show ?thesis using mb_get_refines [OF wf False p(1)] p(2) by (auto simp: queue_pop_def split: list.splits)
  qed
qed

lemma mb_wf_init:
  assumes "0 < sz" and "sz < 0x10000" and "length pool = unat sz"
  shows "mb_wf (rt_mb_init pool sz flag)" "mb_contents (rt_mb_init pool sz flag) = []"
    "unat (mb_size (rt_mb_init pool sz flag)) = unat sz"
proof -
  have lt: "unat sz < 0x10000" using assms(2) by (simp add: word_less_nat_alt)
  then have u: "unat (ucast sz :: u16) = unat sz" by (simp add: unsigned_ucast_eq take_bit_eq_mod)
  moreover have "0 < unat sz" using assms(1) by (simp add: word_less_nat_alt)
  ultimately show "mb_wf (rt_mb_init pool sz flag)" "mb_contents (rt_mb_init pool sz flag) = []"
    "unat (mb_size (rt_mb_init pool sz flag)) = unat sz"
    using assms(3) by (simp_all add: rt_mb_init_def mb_wf_def mb_contents_def word_less_nat_alt)
qed

section \<open>Wake-ups\<close>

text \<open>A mailbox in use: \<open>wr\<close> and \<open>ws\<close> are the receivers and senders that have been made ready and
  have not run yet. The values, timeouts and ticks of the calls are arbitrary.\<close>

inductive mb_step :: "rt_mailbox \<times> rt_thread list \<times> rt_thread list \<Rightarrow>
    rt_mailbox \<times> rt_thread list \<times> rt_thread list \<Rightarrow> bool" where
  send: "rt_mb_send_wait mb v t thr = (mb', r, w) \<Longrightarrow>
    mb_step (mb, wr, ws) (mb', (case w of None \<Rightarrow> wr | Some x \<Rightarrow> x # wr), ws)"
| recv: "rt_mb_recv mb t thr = (mb', r, w) \<Longrightarrow>
    mb_step (mb, wr, ws) (mb', wr, (case w of None \<Rightarrow> ws | Some x \<Rightarrow> x # ws))"
| send_resume: "thr \<in> set ws \<Longrightarrow> mb_send_resume mb v t dt thr = (mb', r, w) \<Longrightarrow>
    mb_step (mb, wr, ws) (mb', (case w of None \<Rightarrow> wr | Some x \<Rightarrow> x # wr), remove1 thr ws)"
| recv_resume: "thr \<in> set wr \<Longrightarrow> mb_recv_resume mb t dt thr = (mb', r, w) \<Longrightarrow>
    mb_step (mb, wr, ws) (mb', remove1 thr wr, (case w of None \<Rightarrow> ws | Some x \<Rightarrow> x # ws))"
| recv_timeout: "mb_step (mb, wr, ws) (mb\<lparr>mb_suspend := remove1 thr (mb_suspend mb)\<rparr>, wr, ws)"
| send_timeout: "mb_step (mb, wr, ws) (mb\<lparr>suspend_sender := remove1 thr (suspend_sender mb)\<rparr>, wr, ws)"

inductive mb_reach :: "rt_mailbox \<Rightarrow> rt_mailbox \<times> rt_thread list \<times> rt_thread list \<Rightarrow> bool" for mb0 where
  reach_init: "mb_reach mb0 (mb0, [], [])"
| reach_step: "mb_reach mb0 s \<Longrightarrow> mb_step s s' \<Longrightarrow> mb_reach mb0 s'"

definition waits_ok :: "rt_mailbox \<times> rt_thread list \<times> rt_thread list \<Rightarrow> bool" where
  "waits_ok = (\<lambda>(mb, wr, ws). mb_wf mb \<and>
     list_all (\<lambda>t. thread_error t = RT_EOK) (mb_suspend mb @ suspend_sender mb @ wr @ ws) \<and>
     (mb_suspend mb \<noteq> [] \<longrightarrow> unat (mb_entry mb) \<le> length wr) \<and>
     (suspend_sender mb \<noteq> [] \<longrightarrow> unat (mb_size mb) \<le> unat (mb_entry mb) + length ws))"

lemma set_suspend: "set (rt_ipc_list_suspend xs t flag) \<subseteq> insert t (set xs)"
  by (auto simp: rt_ipc_list_suspend_def)

lemma suspend_errors:
  "list_all (\<lambda>t. thread_error t = RT_EOK) xs \<Longrightarrow> thread_error t = RT_EOK \<Longrightarrow>
     list_all (\<lambda>t. thread_error t = RT_EOK) (rt_ipc_list_suspend xs t flag)"
  using set_suspend [of xs t flag] by (auto simp: list_all_iff)

lemma mb_wf_lists [simp]:
  "mb_wf (mb\<lparr>mb_suspend := xs\<rparr>) = mb_wf mb" "mb_wf (mb\<lparr>suspend_sender := xs\<rparr>) = mb_wf mb"
  by (simp_all add: mb_wf_def)

text \<open>Whoever runs the loop, a fresh caller or a thread just woken, the waits stay in order.\<close>

lemma send_loop_waits:
  assumes ok: "waits_ok (mb, wr, ws)" and s: "mb_send_loop mb v t thr = (mb', r, w)"
    and ws': "set ws' \<subseteq> set ws" "length ws \<le> length ws' + 1"
  shows "waits_ok (mb', (case w of None \<Rightarrow> wr | Some x \<Rightarrow> x # wr), ws')"
proof (cases "mb_entry mb = mb_size mb")
  case True
  have wf: "mb_wf mb" using ok by (simp add: waits_ok_def)
  have e: "list_all (\<lambda>t. thread_error t = RT_EOK) (rt_ipc_list_suspend (suspend_sender mb) (thr\<lparr>thread_error := RT_EOK\<rparr>) (mb_flag mb))"
    using ok by (intro suspend_errors) (simp_all add: waits_ok_def)
  show ?thesis using True ok s ws' e by (auto simp: mb_send_loop_def waits_ok_def list_all_iff Let_def split: if_splits)
next
  case False
  have wf: "mb_wf mb" using ok by (simp add: waits_ok_def)
  have p: "mb_put mb v = (mb', r, w)" using False s by (simp add: mb_send_loop_def)
  note put = mb_put_refines [OF wf False p]
  have "mb_suspend mb' \<noteq> [] \<Longrightarrow> mb_suspend mb \<noteq> []" using put(7) by auto
  then show ?thesis
    using ok put ws' by (cases "mb_suspend mb") (auto simp: waits_ok_def list_all_iff)
qed

lemma recv_loop_waits:
  assumes ok: "waits_ok (mb, wr, ws)" and s: "mb_recv_loop mb t thr = (mb', r, w)"
    and wr': "set wr' \<subseteq> set wr" "length wr \<le> length wr' + 1"
  shows "waits_ok (mb', wr', (case w of None \<Rightarrow> ws | Some x \<Rightarrow> x # ws))"
proof (cases "mb_entry mb = 0")
  case True
  have e: "list_all (\<lambda>t. thread_error t = RT_EOK) (rt_ipc_list_suspend (mb_suspend mb) (thr\<lparr>thread_error := RT_EOK\<rparr>) (mb_flag mb))"
    using ok by (intro suspend_errors) (simp_all add: waits_ok_def)
  show ?thesis using True ok s wr' e by (auto simp: mb_recv_loop_def waits_ok_def list_all_iff Let_def split: if_splits)
next
  case False
  have wf: "mb_wf mb" using ok by (simp add: waits_ok_def)
  have p: "mb_get mb = (mb', r, w)" using False s by (simp add: mb_recv_loop_def)
  note get = mb_get_refines [OF wf False p]
  have "suspend_sender mb' \<noteq> [] \<Longrightarrow> suspend_sender mb \<noteq> []" using get(8) by auto
  then show ?thesis
    using ok get wr' by (cases "suspend_sender mb") (auto simp: waits_ok_def list_all_iff)
qed

lemma remove1_waits: "thr \<in> set xs \<Longrightarrow> set (remove1 thr xs) \<subseteq> set xs" "thr \<in> set xs \<Longrightarrow> length xs \<le> length (remove1 thr xs) + 1"
  by (simp_all add: set_remove1_subset length_remove1)

lemma waits_error: "waits_ok (mb, wr, ws) \<Longrightarrow> thr \<in> set wr \<union> set ws \<Longrightarrow> thread_error thr = RT_EOK"
  by (auto simp: waits_ok_def list_all_iff)

lemma mb_step_waits: "mb_step s s' \<Longrightarrow> waits_ok s \<Longrightarrow> waits_ok s'"
proof (induction rule: mb_step.induct)
  case (send mb v t thr mb' r w wr ws)
  then show ?case using send_loop_waits [of mb wr ws v t thr mb' r w ws] by (auto simp: rt_mb_send_wait_def split: if_splits)
next
  case (recv mb t thr mb' r w wr ws)
  then show ?case using recv_loop_waits [of mb wr ws t thr mb' r w wr] by (auto simp: rt_mb_recv_def split: if_splits)
next
  case (send_resume thr ws mb v t dt mb' r w wr)
  then show ?case
    using send_loop_waits [OF send_resume.prems _ remove1_waits [OF send_resume.hyps(1)]] waits_error [of mb wr ws thr]
    by (simp add: mb_send_resume_def)
next
  case (recv_resume thr wr mb t dt mb' r w ws)
  then show ?case
    using recv_loop_waits [OF recv_resume.prems _ remove1_waits [OF recv_resume.hyps(1)]] waits_error [of mb wr ws thr]
    by (simp add: mb_recv_resume_def)
next
  case (recv_timeout mb wr ws thr)
  then show ?case using set_remove1_subset [of thr "mb_suspend mb"]
    by (cases "mb_suspend mb") (auto simp: waits_ok_def list_all_iff)
next
  case (send_timeout mb wr ws thr)
  then show ?case using set_remove1_subset [of thr "suspend_sender mb"]
    by (cases "suspend_sender mb") (auto simp: waits_ok_def list_all_iff)
qed

lemma mb_reach_waits:
  assumes "mb_reach mb0 s" and "waits_ok (mb0, [], [])"
  shows "waits_ok s"
  using assms by (induction rule: mb_reach.induct) (auto dest: mb_step_waits)

lemma mb_loop_size:
  "mb_send_loop mb v t thr = (mb', r, w) \<Longrightarrow> mb_size mb' = mb_size mb"
  "mb_recv_loop mb t thr = (mb', r, w) \<Longrightarrow> mb_size mb' = mb_size mb"
  by (auto simp: mb_send_loop_def mb_recv_loop_def mb_put_def mb_get_def Let_def split: if_splits prod.splits)

lemma mb_reach_size:
  assumes "mb_reach mb0 s"
  shows "mb_size (fst s) = mb_size mb0"
  using assms
proof (induction rule: mb_reach.induct)
  case (reach_step s s')
  have "mb_size (fst s') = mb_size (fst s)"
    using reach_step.hyps(2)
    by (cases rule: mb_step.cases)
      (auto simp: rt_mb_send_wait_def rt_mb_recv_def mb_send_resume_def mb_recv_resume_def dest: mb_loop_size split: if_splits)
  then show ?case using reach_step.IH by simp
qed simp

section \<open>Properties\<close>

text \<open>Claim C24. From \<open>rt_mb_init\<close> on, every sequence of \<open>rt_mb_send\<close> and non-waiting \<open>rt_mb_recv\<close> calls
  returns what a bounded first-in-first-out queue of the mailbox's size returns: mail is
  neither lost, repeated nor reordered, and the offsets stay inside the pool.\<close>

theorem mailbox_refines_queue:
  assumes "0 < sz" and "sz < 0x10000" and "length pool = unat sz"
    and "fifo_run (mb_try_send self) (mb_try_recv self) (rt_mb_init pool sz flag) ops = (mb', rs)"
  shows "mb_wf mb' \<and> fifo_run (queue_push (unat sz)) queue_pop [] ops = (mb_contents mb', rs)"
  using mb.run_simulates [OF _ assms(4)] mb_wf_init [OF assms(1-3)] by simp

theorem mailbox_refines_queue_witness:
  "snd (fifo_run (mb_try_send (sample_thread 1 9)) (mb_try_recv (sample_thread 1 9)) (rt_mb_init [0, 0] 2 0)
     [Push 7, Push 8, Push 9, Pop, Push 5, Pop, Pop, Pop]) =
   [Inl 1, Inl 1, Inl 0, Inr (Some 7), Inl 1, Inr (Some 8), Inr (Some 5), Inr None]"
proof -
  let ?ops = "[Push 7, Push 8, Push 9, Pop, Push 5, Pop, Pop, Pop]"
  obtain mb' rs where "fifo_run (mb_try_send (sample_thread 1 9)) (mb_try_recv (sample_thread 1 9))
      (rt_mb_init [0, 0] 2 0) ?ops = (mb', rs)" by fastforce
  with mailbox_refines_queue [OF _ _ _ this] show ?thesis by (simp add: queue_push_def queue_pop_def)
qed

text \<open>No wake-up of a mailbox is lost, whatever the interleaving of sends, receives, timeouts
  and woken threads: once every thread that was made ready has run, a receiver waits only if
  the mailbox is empty, and a sender waits only if it is full.\<close>

theorem mailbox_no_lost_wakeup:
  assumes "0 < sz" and "sz < 0x10000" and "length pool = unat sz"
    and "mb_reach (rt_mb_init pool sz flag) (mb, [], [])"
  shows "(mb_suspend mb \<noteq> [] \<longrightarrow> mb_contents mb = []) \<and>
    (suspend_sender mb \<noteq> [] \<longrightarrow> length (mb_contents mb) = unat sz)"
proof -
  have "waits_ok (rt_mb_init pool sz flag, [], [])"
    using mb_wf_init [OF assms(1-3), of flag] by (simp add: waits_ok_def rt_mb_init_def)
  with mb_reach_waits [OF assms(4)] have ok: "waits_ok (mb, [], [])" by simp
  have "mb_size mb = ucast sz" using mb_reach_size [OF assms(4)] by (simp add: rt_mb_init_def)
  then have "unat (mb_size mb) = unat sz" using mb_wf_init(3) [OF assms(1-3), of flag] by (simp add: rt_mb_init_def)
  then show ?thesis using ok mb_wfD(2) [of mb] by (auto simp: waits_ok_def mb_contents_def)
qed

text \<open>A receiver waits, is woken by a send, takes the mail and waits again.\<close>

lemma sample_mb_reach:
  "\<exists>mb. mb_reach (rt_mb_init [0, 0] 2 0) (mb, [], []) \<and> mb_suspend mb = [sample_thread 1 9]"
proof -
  define a where "a = rt_mb_init [0, 0] 2 0"
  define t where "t = sample_thread 1 9"
  have t: "t\<lparr>thread_error := 0\<rparr> = t" by (simp add: t_def sample_thread_def)
  define b where "b = a\<lparr>mb_suspend := [t]\<rparr>"
  define c where "c = a\<lparr>msg_pool := [7, 0], in_offset := 1, mb_entry := 1\<rparr>"
  define d where "d = a\<lparr>msg_pool := [7, 0], in_offset := 1, out_offset := 1\<rparr>"
  note ops = rt_mb_recv_def mb_recv_loop_def rt_mb_send_wait_def mb_send_loop_def mb_put_def mb_get_def mb_recv_resume_def
    remaining_def wake_first_eq rt_ipc_list_suspend_def next_offset_def rt_codes a_def rt_mb_init_def Let_def t word_le_nat_alt
  have "rt_mb_recv a (-1) t = (b, Mb_suspended None, None)" by (simp add: ops b_def)
  from mb_step.recv [OF this, of "[]" "[]"] have 1: "mb_step (a, [], []) (b, [], [])" by simp
  have "rt_mb_send_wait b 7 0 t = (c, Mb_return RT_EOK, Some t)" by (simp add: ops b_def c_def)
  from mb_step.send [OF this, of "[]" "[]"] have 2: "mb_step (b, [], []) (c, [t], [])" by simp
  have "mb_recv_resume c (-1) 0 t = (d, Mb_received 7, None)" by (simp add: ops c_def d_def) (simp add: t_def sample_thread_def)
  from mb_step.recv_resume [OF _ this, of "[t]" "[]"] have 3: "mb_step (c, [t], []) (d, [], [])" by simp
  have "rt_mb_recv d (-1) t = (d\<lparr>mb_suspend := [t]\<rparr>, Mb_suspended None, None)" by (simp add: ops d_def)
  from mb_step.recv [OF this, of "[]" "[]"] have 4: "mb_step (d, [], []) (d\<lparr>mb_suspend := [t]\<rparr>, [], [])" by simp
  have "mb_reach a (d\<lparr>mb_suspend := [t]\<rparr>, [], [])"
    by (rule reach_step [OF reach_step [OF reach_step [OF reach_step [OF reach_init 1] 2] 3] 4])
  then show ?thesis by (auto simp: a_def t_def)
qed

theorem mailbox_no_lost_wakeup_witness:
  "\<exists>mb. mb_reach (rt_mb_init [0, 0] 2 0) (mb, [], []) \<and> mb_suspend mb = [sample_thread 1 9] \<and> mb_contents mb = []"
proof -
  obtain mb where "mb_reach (rt_mb_init [0, 0] 2 0) (mb, [], [])" "mb_suspend mb = [sample_thread 1 9]"
    using sample_mb_reach by blast
  then show ?thesis using mailbox_no_lost_wakeup [of 2 "[0, 0]" 0 mb] by auto
qed

text \<open>A bounded wait stays bounded when it is resumed, and it never grows.\<close>

lemma remaining_bounded:
  assumes "0 < t" and "t < 2 ^ 31" and "dt \<le> word_of_int t"
  shows "0 \<le> remaining t dt" "remaining t dt \<le> t" "remaining t dt = t - uint dt"
proof -
  have u: "uint (word_of_int t :: u32) = t" using assms(1,2) by (simp add: uint_word_of_int_eq take_bit_int_eq_self)
  have "uint (word_of_int t - dt) = t - uint dt"
    using assms(3) u uint_sub_lem [of dt "word_of_int t"] by (simp add: word_le_def)
  moreover have d: "0 \<le> uint dt" "uint dt \<le> t" using assms(3) u by (simp_all add: word_le_def)
  moreover have "signed_take_bit 31 (t - uint dt) = t - uint dt"
    by (rule signed_take_bit_int_eq_self) (use assms(2) d in linarith)+
  ultimately have "sint (word_of_int t - dt :: u32) = t - uint dt" by (simp add: sint_uint)
  then show "0 \<le> remaining t dt" "remaining t dt \<le> t" "remaining t dt = t - uint dt"
    using assms(1) \<open>0 \<le> uint dt\<close> \<open>uint dt \<le> t\<close> by (simp_all add: remaining_def)
qed
end
