(* ===== verification/Rt_Mq.thy ===== *)
theory Rt_Mq
  imports Rt_Mailbox Rt_Kservice "HOL-Library.Multiset"
begin

text \<open>
  Message queues of the kernel (\<open>rt-thread/src/ipc.c\<close>): a pool of equal blocks, linked into a
  free list and a queue of messages by the pointer at the head of each block. A send or a
  receive has two critical sections with the copy of the message between them, so the calls
  are split there as well as at \<open>rt_schedule\<close>; between its sections a call holds its block
  privately. The heads of the blocks are \<open>mq_next\<close>, the bytes behind them are in memory. The
  theory shows that under every interleaving each block is in exactly one place, that messages
  leave in order, and that a reset gives every message back.
\<close>

section \<open>State\<close>

record rt_mq =
  mq_suspend :: "rt_thread list"
  mq_flag :: u8
  mq_pool :: nat
  mq_msg_size :: u16
  mq_max_msgs :: u16
  mq_entry :: u16
  mq_head :: "nat option"
  mq_tail :: "nat option"
  mq_free :: "nat option"
  mq_sender :: "rt_thread list"
  mq_next :: "nat \<Rightarrow> nat option"

text \<open>\<open>Mq_msg\<close> is a block the call now holds; \<open>Mq_fault\<close> is the use of a null pointer.\<close>

datatype mq_result =
    Mq_return int
  | Mq_suspended "int option"
  | Mq_msg nat
  | Mq_assert
  | Mq_fault

definition set_next :: "nat \<Rightarrow> nat option \<Rightarrow> rt_mq \<Rightarrow> rt_mq" where
  "set_next msg p mq = mq\<lparr>mq_next := (mq_next mq)(msg := p)\<rparr>"

section \<open>Set-up\<close>

definition mq_stride :: "rt_mq \<Rightarrow> nat" where
  "mq_stride mq = unat (mq_msg_size mq) + 4"

definition mq_free_block :: "nat \<Rightarrow> rt_mq \<Rightarrow> rt_mq" where
  "mq_free_block temp mq =
     (let head = mq_pool mq + temp * mq_stride mq
      in (set_next head (mq_free mq) mq)\<lparr>mq_free := Some head\<rparr>)"

definition mq_setup :: "rt_mq \<Rightarrow> rt_mq" where
  "mq_setup mq = fold mq_free_block [0..<unat (mq_max_msgs mq)] mq"

definition rt_mq_init :: "nat \<Rightarrow> u32 \<Rightarrow> u32 \<Rightarrow> u8 \<Rightarrow> (nat \<Rightarrow> nat option) \<Rightarrow> rt_mq" where
  "rt_mq_init msgpool msg_size pool_size flag heads =
     (let ms = ucast (RT_ALIGN msg_size) :: u16
      in mq_setup \<lparr>mq_suspend = [], mq_flag = flag, mq_pool = msgpool, mq_msg_size = ms,
           mq_max_msgs = ucast (pool_size div (ucast ms + 4)), mq_entry = 0, mq_head = None, mq_tail = None,
           mq_free = None, mq_sender = [], mq_next = heads\<rparr>)"

text \<open>The object and the pool come from the heap: \<open>pool\<close> is the address it returned for a number of bytes.\<close>

definition rt_mq_create :: "bool \<Rightarrow> (nat \<Rightarrow> nat option) \<Rightarrow> u32 \<Rightarrow> u32 \<Rightarrow> u8 \<Rightarrow> (nat \<Rightarrow> nat option) \<Rightarrow> rt_mq option" where
  "rt_mq_create allocated pool msg_size max_msgs flag heads =
     (if allocated
      then let ms = ucast (RT_ALIGN msg_size) :: u16; mx = ucast max_msgs :: u16 in
        (case pool ((unat ms + 4) * unat mx) of None \<Rightarrow> None
         | Some p \<Rightarrow> Some (mq_setup \<lparr>mq_suspend = [], mq_flag = flag, mq_pool = p, mq_msg_size = ms,
             mq_max_msgs = mx, mq_entry = 0, mq_head = None, mq_tail = None, mq_free = None, mq_sender = [],
             mq_next = heads\<rparr>))
      else None)"

definition rt_mq_detach :: "rt_mq \<Rightarrow> rt_thread list \<times> int" where
  "rt_mq_detach mq = (snd (rt_ipc_list_resume_all (mq_suspend mq)) @
     snd (rt_ipc_list_resume_all (mq_sender mq)), RT_EOK)"

definition rt_mq_delete :: "rt_mq \<Rightarrow> rt_thread list \<times> int" where
  "rt_mq_delete mq = (snd (rt_ipc_list_resume_all (mq_suspend mq)) @
     snd (rt_ipc_list_resume_all (mq_sender mq)), RT_EOK)"

section \<open>Sending\<close>

definition mq_send_loop :: "rt_mq \<Rightarrow> int \<Rightarrow> rt_thread \<Rightarrow> rt_mq \<times> mq_result" where
  "mq_send_loop mq timeout self =
     (case mq_free mq of
        Some msg \<Rightarrow> (mq\<lparr>mq_free := mq_next mq msg\<rparr>, Mq_msg msg)
      | None \<Rightarrow>
          let thread = self\<lparr>thread_error := RT_EOK\<rparr> in
          if timeout = 0 then (mq, Mq_return (- RT_EFULL))
          else (mq\<lparr>mq_sender := rt_ipc_list_suspend (mq_sender mq) thread (mq_flag mq)\<rparr>,
                Mq_suspended (if timeout > 0 then Some timeout else None)))"

text \<open>The call up to the first schedule or to the end of its first critical section.\<close>

definition mq_send_start :: "rt_mq \<Rightarrow> nat \<Rightarrow> int \<Rightarrow> rt_thread \<Rightarrow> rt_mq \<times> mq_result" where
  "mq_send_start mq sz timeout self =
     (if sz = 0 then (mq, Mq_assert)
      else if sz > unat (mq_msg_size mq) then (mq, Mq_return (- RT_ERROR))
      else if mq_free mq = None \<and> timeout = 0 then (mq, Mq_return (- RT_EFULL))
      else mq_send_loop mq timeout self)"

definition mq_send_resume :: "rt_mq \<Rightarrow> int \<Rightarrow> u32 \<Rightarrow> rt_thread \<Rightarrow> rt_mq \<times> mq_result" where
  "mq_send_resume mq timeout tick_delta thread =
     (if thread_error thread \<noteq> RT_EOK then (mq, Mq_return (thread_error thread))
      else mq_send_loop mq (remaining timeout tick_delta) thread)"

definition mq_send_fill :: "rt_mq \<Rightarrow> mem \<Rightarrow> nat \<Rightarrow> nat \<Rightarrow> nat \<Rightarrow> rt_mq \<times> mem" where
  "mq_send_fill mq m msg buffer sz = (set_next msg None mq, rt_memcpy m (msg + 4) buffer sz)"

definition mq_send_link :: "rt_mq \<Rightarrow> nat \<Rightarrow> rt_mq \<times> int \<times> woken" where
  "mq_send_link mq msg =
     (let mq1 = (case mq_tail mq of Some t \<Rightarrow> set_next t (Some msg) mq | None \<Rightarrow> mq);
          mq2 = mq1\<lparr>mq_tail := Some msg\<rparr>;
          mq3 = (if mq_head mq2 = None then mq2\<lparr>mq_head := Some msg\<rparr> else mq2);
          mq4 = mq3\<lparr>mq_entry := mq_entry mq3 + 1\<rparr>;
          (xs, w) = wake_first (mq_suspend mq4)
      in (mq4\<lparr>mq_suspend := xs\<rparr>, RT_EOK, w))"

text \<open>A whole call that is not disturbed between its two sections.\<close>

definition rt_mq_send_wait :: "rt_mq \<times> mem \<Rightarrow> nat \<Rightarrow> nat \<Rightarrow> int \<Rightarrow> rt_thread \<Rightarrow> (rt_mq \<times> mem) \<times> mq_result \<times> woken" where
  "rt_mq_send_wait s buffer sz timeout self =
     (let (mq, m) = s; (mq1, r) = mq_send_start mq sz timeout self in
      case r of
        Mq_msg msg \<Rightarrow> let (mq2, m2) = mq_send_fill mq1 m msg buffer sz; (mq3, e, w) = mq_send_link mq2 msg
          in ((mq3, m2), Mq_return e, w)
      | _ \<Rightarrow> ((mq1, m), r, None))"

definition rt_mq_send :: "rt_mq \<times> mem \<Rightarrow> nat \<Rightarrow> nat \<Rightarrow> rt_thread \<Rightarrow> (rt_mq \<times> mem) \<times> mq_result \<times> woken" where
  "rt_mq_send s buffer sz self = rt_mq_send_wait s buffer sz 0 self"

definition mq_urgent_start :: "rt_mq \<Rightarrow> nat \<Rightarrow> rt_mq \<times> mq_result" where
  "mq_urgent_start mq sz =
     (if sz = 0 then (mq, Mq_assert)
      else if sz > unat (mq_msg_size mq) then (mq, Mq_return (- RT_ERROR))
      else case mq_free mq of None \<Rightarrow> (mq, Mq_return (- RT_EFULL))
        | Some msg \<Rightarrow> (mq\<lparr>mq_free := mq_next mq msg\<rparr>, Mq_msg msg))"

definition mq_urgent_link :: "rt_mq \<Rightarrow> nat \<Rightarrow> rt_mq \<times> int \<times> woken" where
  "mq_urgent_link mq msg =
     (let mq1 = (set_next msg (mq_head mq) mq)\<lparr>mq_head := Some msg\<rparr>;
          mq2 = (if mq_tail mq1 = None then mq1\<lparr>mq_tail := Some msg\<rparr> else mq1);
          mq3 = mq2\<lparr>mq_entry := mq_entry mq2 + 1\<rparr>;
          (xs, w) = wake_first (mq_suspend mq3)
      in (mq3\<lparr>mq_suspend := xs\<rparr>, RT_EOK, w))"

definition rt_mq_urgent :: "rt_mq \<times> mem \<Rightarrow> nat \<Rightarrow> nat \<Rightarrow> (rt_mq \<times> mem) \<times> mq_result \<times> woken" where
  "rt_mq_urgent s buffer sz =
     (let (mq, m) = s; (mq1, r) = mq_urgent_start mq sz in
      case r of
        Mq_msg msg \<Rightarrow> let m2 = rt_memcpy m (msg + 4) buffer sz; (mq3, e, w) = mq_urgent_link mq1 msg
          in ((mq3, m2), Mq_return e, w)
      | _ \<Rightarrow> ((mq1, m), r, None))"

section \<open>Receiving\<close>

definition mq_take_head :: "rt_mq \<Rightarrow> rt_mq \<times> mq_result" where
  "mq_take_head mq =
     (case mq_head mq of None \<Rightarrow> (mq, Mq_fault)
      | Some msg \<Rightarrow>
          let mq1 = mq\<lparr>mq_head := mq_next mq msg\<rparr>;
              mq2 = (if mq_tail mq1 = Some msg then mq1\<lparr>mq_tail := None\<rparr> else mq1)
          in (mq2\<lparr>mq_entry := mq_entry mq2 - 1\<rparr>, Mq_msg msg))"

definition mq_recv_loop :: "rt_mq \<Rightarrow> int \<Rightarrow> rt_thread \<Rightarrow> rt_mq \<times> mq_result" where
  "mq_recv_loop mq timeout self =
     (if mq_entry mq = 0
      then let thread = self\<lparr>thread_error := RT_EOK\<rparr> in
        if timeout = 0 then (mq, Mq_return (- RT_ETIMEOUT))
        else (mq\<lparr>mq_suspend := rt_ipc_list_suspend (mq_suspend mq) thread (mq_flag mq)\<rparr>,
              Mq_suspended (if timeout > 0 then Some timeout else None))
      else mq_take_head mq)"

definition mq_recv_start :: "rt_mq \<Rightarrow> nat \<Rightarrow> int \<Rightarrow> rt_thread \<Rightarrow> rt_mq \<times> mq_result" where
  "mq_recv_start mq sz timeout self =
     (if sz = 0 then (mq, Mq_assert)
      else if mq_entry mq = 0 \<and> timeout = 0 then (mq, Mq_return (- RT_ETIMEOUT))
      else mq_recv_loop mq timeout self)"

definition mq_recv_resume :: "rt_mq \<Rightarrow> int \<Rightarrow> u32 \<Rightarrow> rt_thread \<Rightarrow> rt_mq \<times> mq_result" where
  "mq_recv_resume mq timeout tick_delta thread =
     (if thread_error thread \<noteq> RT_EOK then (mq, Mq_return (thread_error thread))
      else mq_recv_loop mq (remaining timeout tick_delta) thread)"

definition mq_recv_copy :: "rt_mq \<Rightarrow> mem \<Rightarrow> nat \<Rightarrow> nat \<Rightarrow> nat \<Rightarrow> mem" where
  "mq_recv_copy mq m msg buffer sz =
     rt_memcpy m buffer (msg + 4) (if sz > unat (mq_msg_size mq) then unat (mq_msg_size mq) else sz)"

definition mq_recv_free :: "rt_mq \<Rightarrow> nat \<Rightarrow> rt_mq \<times> int \<times> woken" where
  "mq_recv_free mq msg =
     (let mq1 = (set_next msg (mq_free mq) mq)\<lparr>mq_free := Some msg\<rparr>;
          (xs, w) = wake_first (mq_sender mq1)
      in (mq1\<lparr>mq_sender := xs\<rparr>, RT_EOK, w))"

definition rt_mq_recv :: "rt_mq \<times> mem \<Rightarrow> nat \<Rightarrow> nat \<Rightarrow> int \<Rightarrow> rt_thread \<Rightarrow> (rt_mq \<times> mem) \<times> mq_result \<times> woken" where
  "rt_mq_recv s buffer sz timeout self =
     (let (mq, m) = s; (mq1, r) = mq_recv_start mq sz timeout self in
      case r of
        Mq_msg msg \<Rightarrow> let m2 = mq_recv_copy mq1 m msg buffer sz; (mq3, e, w) = mq_recv_free mq1 msg
          in ((mq3, m2), Mq_return e, w)
      | _ \<Rightarrow> ((mq1, m), r, None))"

section \<open>Reset\<close>

partial_function (option) mq_drain :: "rt_mq \<Rightarrow> rt_mq option" where
  "mq_drain mq =
     (case mq_head mq of None \<Rightarrow> Some mq
      | Some msg \<Rightarrow>
          let mq1 = mq\<lparr>mq_head := mq_next mq msg\<rparr>;
              mq2 = (if mq_tail mq1 = Some msg then mq1\<lparr>mq_tail := None\<rparr> else mq1)
          in mq_drain ((set_next msg (mq_free mq2) mq2)\<lparr>mq_free := Some msg\<rparr>))"

definition rt_mq_control :: "rt_mq \<Rightarrow> int \<Rightarrow> (rt_mq \<times> rt_thread list \<times> int) option" where
  "rt_mq_control mq cmd =
     (if cmd = RT_IPC_CMD_RESET
      then let (xs, r1) = rt_ipc_list_resume_all (mq_suspend mq); (ys, r2) = rt_ipc_list_resume_all (mq_sender mq)
        in map_option (\<lambda>mq1. (mq1\<lparr>mq_entry := 0\<rparr>, r1 @ r2, RT_EOK)) (mq_drain (mq\<lparr>mq_suspend := xs, mq_sender := ys\<rparr>))
      else Some (mq, [], - RT_ERROR))"

section \<open>Chains of blocks\<close>

fun chain :: "(nat \<Rightarrow> nat option) \<Rightarrow> nat option \<Rightarrow> nat list \<Rightarrow> bool" where
  "chain n p [] \<longleftrightarrow> p = None"
| "chain n p (x # xs) \<longleftrightarrow> p = Some x \<and> chain n (n x) xs"

lemma chain_other: "x \<notin> set xs \<Longrightarrow> chain (n(x := v)) p xs = chain n p xs"
  by (induction xs arbitrary: p) auto

lemma chain_snoc:
  "chain n p (xs @ [t]) \<Longrightarrow> t \<notin> set xs \<Longrightarrow> msg \<notin> set (xs @ [t]) \<Longrightarrow> n msg = None \<Longrightarrow>
     chain (n(t := Some msg)) p (xs @ [t, msg])"
  by (induction xs arbitrary: p) auto

lemma chain_None: "chain n None xs \<longleftrightarrow> xs = []"
  by (cases xs) auto

lemma chain_Some: "chain n (Some x) xs \<longleftrightarrow> (\<exists>ys. xs = x # ys \<and> chain n (n x) ys)"
  by (cases xs) auto

text \<open>What a call does with the block it holds between its critical sections.\<close>

datatype phase = Sending | Filled | Urgent | Reading

definition mq_blocks :: "rt_mq \<Rightarrow> nat set" where
  "mq_blocks mq = (\<lambda>i. mq_pool mq + i * mq_stride mq) ` {..<unat (mq_max_msgs mq)}"

text \<open>\<open>fl\<close> is the free list, \<open>ql\<close> the queue, \<open>fly\<close> the blocks held by calls.\<close>

definition mq_ok :: "rt_mq \<Rightarrow> nat list \<Rightarrow> nat list \<Rightarrow> (nat \<times> phase) list \<Rightarrow> bool" where
  "mq_ok mq fl ql fly \<longleftrightarrow> chain (mq_next mq) (mq_free mq) fl \<and> chain (mq_next mq) (mq_head mq) ql \<and>
     mq_tail mq = (if ql = [] then None else Some (last ql)) \<and> unat (mq_entry mq) = length ql \<and>
     distinct (fl @ ql @ map fst fly) \<and> set (fl @ ql @ map fst fly) = mq_blocks mq \<and>
     (\<forall>x. (x, Filled) \<in> set fly \<longrightarrow> mq_next mq x = None)"

lemma inj_blocks: "inj_on (\<lambda>i. mq_pool mq + i * mq_stride mq) A"
  by (auto simp: inj_on_def mq_stride_def)

lemma card_blocks: "card (mq_blocks mq) = unat (mq_max_msgs mq)"
  by (simp add: mq_blocks_def card_image inj_blocks)

lemma mq_ok_length: "mq_ok mq fl ql fly \<Longrightarrow> length fl + length ql + length fly = unat (mq_max_msgs mq)"
  using distinct_card [of "fl @ ql @ map fst fly"] card_blocks [of mq] by (simp add: mq_ok_def)

lemma mq_blocks_simps [simp]:
  "mq_blocks (mq\<lparr>mq_next := n\<rparr>) = mq_blocks mq" "mq_blocks (mq\<lparr>mq_free := p\<rparr>) = mq_blocks mq"
  "mq_blocks (mq\<lparr>mq_head := p\<rparr>) = mq_blocks mq" "mq_blocks (mq\<lparr>mq_tail := p\<rparr>) = mq_blocks mq"
  "mq_blocks (mq\<lparr>mq_entry := e\<rparr>) = mq_blocks mq" "mq_blocks (mq\<lparr>mq_suspend := xs\<rparr>) = mq_blocks mq"
  "mq_blocks (mq\<lparr>mq_sender := xs\<rparr>) = mq_blocks mq"
  by (simp_all add: mq_blocks_def mq_stride_def)

lemma mq_ok_threads [simp]:
  "mq_ok (mq\<lparr>mq_suspend := xs\<rparr>) fl ql fly = mq_ok mq fl ql fly" "mq_ok (mq\<lparr>mq_sender := xs\<rparr>) fl ql fly = mq_ok mq fl ql fly"
  by (simp_all add: mq_ok_def)

lemma mq_ok_held:
  assumes "mq_ok mq fl ql fly" and "(x, ph) \<in> set fly"
  shows "x \<notin> set fl" and "x \<notin> set ql"
proof -
  have "x \<in> fst ` set fly" using assms(2) by force
  then show "x \<notin> set fl" "x \<notin> set ql" using assms(1) by (auto simp: mq_ok_def)
qed

lemma mq_ok_head: "mq_ok mq fl ql ((msg, ph) # fly) \<Longrightarrow> (x, ph') \<in> set fly \<Longrightarrow> x \<noteq> msg"
  by (force simp: mq_ok_def)

text \<open>The first critical section of a send.\<close>

lemma mq_take_free:
  assumes "mq_ok mq fl ql fly" and "mq_free mq = Some msg" and "ph \<noteq> Filled"
  shows "\<exists>fl'. fl = msg # fl' \<and> mq_ok (mq\<lparr>mq_free := mq_next mq msg\<rparr>) fl' ql ((msg, ph) # fly)"
  using assms by (auto simp: mq_ok_def chain_Some)

lemma mq_ok_fill:
  assumes "mq_ok mq fl ql fly" and "(msg, Sending) \<in> set fly"
  shows "mq_ok (set_next msg None mq) fl ql ((msg, Filled) # remove1 (msg, Sending) fly)"
proof -
  obtain as bs where s: "fly = as @ (msg, Sending) # bs" "(msg, Sending) \<notin> set as" using assms(2) by (meson split_list_first)
  then have r: "remove1 (msg, Sending) fly = as @ bs" by (simp add: remove1_append)
  show ?thesis using assms(1) s(1) unfolding r by (auto simp: mq_ok_def set_next_def chain_other)
qed

lemma mq_ok_link:
  assumes ok: "mq_ok mq fl ql ((msg, Filled) # fly)" and l: "mq_send_link mq msg = (mq', e, w)"
  shows "mq_ok mq' fl (ql @ [msg]) fly" "e = RT_EOK" "w = (case mq_suspend mq of [] \<Rightarrow> None | t # _ \<Rightarrow> Some t)"
proof -
  have "length fl + length ql + Suc (length fly) = unat (mq_max_msgs mq)" using mq_ok_length [OF ok] by simp
  moreover have "unat (mq_max_msgs mq) < 2 ^ 16" using unsigned_less [of "mq_max_msgs mq", where 'a = nat] by simp
  ultimately have "unat (mq_entry mq) + 1 < 2 ^ 16" using ok by (simp add: mq_ok_def)
  then have e: "unat (mq_entry mq + 1) = length ql + 1" using ok by (simp add: unat_word_ariths mq_ok_def)
  show "e = RT_EOK" "w = (case mq_suspend mq of [] \<Rightarrow> None | t # _ \<Rightarrow> Some t)"
    using l by (auto simp: mq_send_link_def Let_def wake_first_eq set_next_def split: option.splits if_splits)
  show "mq_ok mq' fl (ql @ [msg]) fly"
  proof (cases ql rule: rev_cases)
    case Nil
    then show ?thesis using ok e l
      by (auto simp: mq_ok_def mq_send_link_def Let_def wake_first_eq chain_None)
  next
    case (snoc zs t)
    have h: "mq_head mq \<noteq> None" "mq_tail mq = Some t" using ok snoc by (auto simp: mq_ok_def chain_None)
    then have mq': "mq' = mq\<lparr>mq_next := (mq_next mq)(t := Some msg), mq_tail := Some msg, mq_entry := mq_entry mq + 1,
        mq_suspend := tl (mq_suspend mq)\<rparr>"
      using l by (auto simp: mq_send_link_def Let_def wake_first_eq set_next_def)
    have "chain ((mq_next mq)(t := Some msg)) (mq_head mq) (zs @ [t, msg])"
      using ok snoc by (intro chain_snoc) (auto simp: mq_ok_def)
    moreover have "chain ((mq_next mq)(t := Some msg)) (mq_free mq) fl"
      using ok snoc by (subst chain_other) (auto simp: mq_ok_def)
    moreover have "distinct (fl @ (ql @ [msg]) @ map fst fly)" "set (fl @ (ql @ [msg]) @ map fst fly) = mq_blocks mq'"
      using ok by (auto simp: mq_ok_def mq')
    moreover have "((mq_next mq)(t := Some msg)) x = None" if "(x, Filled) \<in> set fly" for x
    proof -
      have "x \<notin> set ql" using mq_ok_held(2) [OF ok, of x Filled] that by simp
      then have "x \<noteq> t" using snoc by auto
      then show ?thesis using that ok by (simp add: mq_ok_def)
    qed
    ultimately show ?thesis using e snoc by (simp add: mq_ok_def mq')
  qed
qed

lemma mq_ok_urgent_link:
  assumes ok: "mq_ok mq fl ql ((msg, Urgent) # fly)" and l: "mq_urgent_link mq msg = (mq', e, w)"
  shows "mq_ok mq' fl (msg # ql) fly" "e = RT_EOK"
proof -
  have "length fl + length ql + Suc (length fly) = unat (mq_max_msgs mq)" using mq_ok_length [OF ok] by simp
  moreover have "unat (mq_max_msgs mq) < 2 ^ 16" using unsigned_less [of "mq_max_msgs mq", where 'a = nat] by simp
  ultimately have "unat (mq_entry mq) + 1 < 2 ^ 16" using ok by (simp add: mq_ok_def)
  then have e: "unat (mq_entry mq + 1) = length ql + 1" using ok by (simp add: unat_word_ariths mq_ok_def)
  have mq': "mq' = mq\<lparr>mq_next := (mq_next mq)(msg := mq_head mq), mq_head := Some msg,
      mq_tail := (if mq_tail mq = None then Some msg else mq_tail mq), mq_entry := mq_entry mq + 1, mq_suspend := tl (mq_suspend mq)\<rparr>"
    "e = RT_EOK"
    using l by (auto simp: mq_urgent_link_def Let_def wake_first_eq set_next_def)
  then show "e = RT_EOK" by simp
  have n: "msg \<notin> set fl" "msg \<notin> set ql" "\<And>x. (x, Filled) \<in> set fly \<Longrightarrow> x \<noteq> msg"
    using ok mq_ok_head [OF ok] by (auto simp: mq_ok_def)
  have "distinct (fl @ (msg # ql) @ map fst fly)" "set (fl @ (msg # ql) @ map fst fly) = mq_blocks mq'"
    using ok by (auto simp: mq_ok_def mq')
  then show "mq_ok mq' fl (msg # ql) fly" using ok e n by (simp add: mq_ok_def mq' chain_other)
qed

lemma mq_ok_take_head:
  assumes ok: "mq_ok mq fl ql fly" and e: "mq_entry mq \<noteq> 0" and t: "mq_take_head mq = (mq', r)"
  obtains msg rest where "ql = msg # rest" "r = Mq_msg msg" "mq_ok mq' fl rest ((msg, Reading) # fly)"
    "mq_next mq' = mq_next mq" "mq_msg_size mq' = mq_msg_size mq" "mq_pool mq' = mq_pool mq"
proof -
  have "length ql \<noteq> 0" using ok e by (metis mq_ok_def unsigned_eq_0_iff)
  then obtain msg rest where q: "ql = msg # rest" by (cases ql) auto
  have h: "mq_head mq = Some msg" "chain (mq_next mq) (mq_next mq msg) rest" using ok q by (simp_all add: mq_ok_def)
  have mq': "mq' = mq\<lparr>mq_head := mq_next mq msg, mq_tail := (if mq_tail mq = Some msg then None else mq_tail mq),
      mq_entry := mq_entry mq - 1\<rparr>" "r = Mq_msg msg"
    using t h by (auto simp: mq_take_head_def Let_def)
  have n: "unat (mq_entry mq - 1) = length rest" using ok q unat_minus_one [OF e] by (simp add: mq_ok_def)
  have tl: "(if mq_tail mq = Some msg then None else mq_tail mq) = (if rest = [] then None else Some (last rest))"
    using ok q by (auto simp: mq_ok_def)
  have "distinct (fl @ rest @ map fst ((msg, Reading) # fly))" "set (fl @ rest @ map fst ((msg, Reading) # fly)) = mq_blocks mq'"
    using ok q by (auto simp: mq_ok_def mq')
  then have "mq_ok mq' fl rest ((msg, Reading) # fly)" using ok n tl h by (simp add: mq_ok_def mq')
  then show ?thesis using that [OF q mq'(2)] mq'(1) by simp
qed

lemma mq_ok_recv_free:
  assumes ok: "mq_ok mq fl ql ((msg, ph) # fly)" and l: "mq_recv_free mq msg = (mq', e, w)"
  shows "mq_ok mq' (msg # fl) ql fly" "e = RT_EOK" "w = (case mq_sender mq of [] \<Rightarrow> None | t # _ \<Rightarrow> Some t)"
proof -
  have mq': "mq' = mq\<lparr>mq_next := (mq_next mq)(msg := mq_free mq), mq_free := Some msg, mq_sender := tl (mq_sender mq)\<rparr>"
      "e = RT_EOK" "w = (case mq_sender mq of [] \<Rightarrow> None | t # _ \<Rightarrow> Some t)"
    using l by (auto simp: mq_recv_free_def Let_def wake_first_eq set_next_def)
  show "e = RT_EOK" "w = (case mq_sender mq of [] \<Rightarrow> None | t # _ \<Rightarrow> Some t)" by (fact mq')+
  have n: "msg \<notin> set fl" "msg \<notin> set ql" "\<And>x. (x, Filled) \<in> set fly \<Longrightarrow> x \<noteq> msg"
    using ok mq_ok_head [OF ok] by (auto simp: mq_ok_def)
  have "distinct ((msg # fl) @ ql @ map fst fly)" "set ((msg # fl) @ ql @ map fst fly) = mq_blocks mq'"
    using ok by (auto simp: mq_ok_def mq')
  then show "mq_ok mq' (msg # fl) ql fly" using ok n by (simp add: mq_ok_def mq' chain_other)
qed

lemma mq_ok_perm: "mset fly = mset fly' \<Longrightarrow> mq_ok mq fl ql fly = mq_ok mq fl ql fly'"
proof -
  assume m: "mset fly = mset fly'"
  then have "mset (fl @ ql @ map fst fly) = mset (fl @ ql @ map fst fly')" by simp
  then have "distinct (fl @ ql @ map fst fly) = distinct (fl @ ql @ map fst fly')" by (rule mset_eq_imp_distinct_iff)
  moreover have "set fly = set fly'" using m by (rule mset_eq_setD)
  ultimately show ?thesis by (simp add: mq_ok_def)
qed

lemma mq_ok_front: "(x, ph) \<in> set fly \<Longrightarrow> mq_ok mq fl ql fly \<Longrightarrow> mq_ok mq fl ql ((x, ph) # remove1 (x, ph) fly)"
  using mq_ok_perm [of fly "(x, ph) # remove1 (x, ph) fly"] by simp

section \<open>Set-up and reset\<close>

lemma fold_free_block:
  assumes "mq_free mq = None"
  shows "chain (mq_next (fold mq_free_block [0..<k] mq)) (mq_free (fold mq_free_block [0..<k] mq))
      (map (\<lambda>i. mq_pool mq + i * mq_stride mq) (rev [0..<k])) \<and>
    (\<exists>n p. fold mq_free_block [0..<k] mq = mq\<lparr>mq_next := n, mq_free := p\<rparr>)"
proof (induction k)
  case 0
  have "\<exists>n p. mq = mq\<lparr>mq_next := n, mq_free := p\<rparr>"
    by (intro exI [of _ "mq_next mq"] exI [of _ "mq_free mq"]) simp
  then show ?case using assms by simp
next
  case (Suc k)
  let ?b = "\<lambda>i. mq_pool mq + i * mq_stride mq"
  define mk where "mk = fold mq_free_block [0..<k] mq"
  obtain n p where mk: "mk = mq\<lparr>mq_next := n, mq_free := p\<rparr>" using Suc by (auto simp: mk_def)
  have c: "chain n p (map ?b (rev [0..<k]))" using Suc by (simp add: mk_def [symmetric] mk)
  have s: "fold mq_free_block [0..<Suc k] mq = mq\<lparr>mq_next := n(?b k := p), mq_free := Some (?b k)\<rparr>"
    by (simp add: mk_def [symmetric] mk mq_free_block_def set_next_def mq_stride_def Let_def)
  have "?b k \<notin> set (map ?b (rev [0..<k]))" by (auto simp: mq_stride_def)
  then have "chain (n(?b k := p)) p (map ?b (rev [0..<k]))" using c chain_other by blast
  then show ?case unfolding s by (simp del: fun_upd_apply) (auto simp: fun_upd_same)
qed

lemma mq_ok_setup:
  assumes "mq_free mq = None" and "mq_head mq = None" and "mq_tail mq = None" and "mq_entry mq = 0"
  shows "\<exists>fl. mq_ok (mq_setup mq) fl [] []" and "mq_pool (mq_setup mq) = mq_pool mq" and "mq_msg_size (mq_setup mq) = mq_msg_size mq"
    and "mq_max_msgs (mq_setup mq) = mq_max_msgs mq"
proof -
  let ?k = "unat (mq_max_msgs mq)" and ?b = "\<lambda>i. mq_pool mq + i * mq_stride mq"
  obtain n p where s: "mq_setup mq = mq\<lparr>mq_next := n, mq_free := p\<rparr>"
    using fold_free_block [OF assms(1), of ?k] by (auto simp: mq_setup_def)
  have c: "chain n p (map ?b (rev [0..<?k]))" using fold_free_block [OF assms(1), of ?k] s by (simp add: mq_setup_def)
  have "distinct (map ?b (rev [0..<?k]))" by (simp add: distinct_map inj_blocks)
  moreover have "set (map ?b (rev [0..<?k])) = mq_blocks mq" by (auto simp: mq_blocks_def)
  ultimately have "mq_ok (mq_setup mq) (map ?b (rev [0..<?k])) [] []" using c assms by (simp add: mq_ok_def s)
  then show "\<exists>fl. mq_ok (mq_setup mq) fl [] []" ..
  show "mq_pool (mq_setup mq) = mq_pool mq" "mq_msg_size (mq_setup mq) = mq_msg_size mq" "mq_max_msgs (mq_setup mq) = mq_max_msgs mq"
    by (simp_all add: s)
qed

lemma mq_ok_drain:
  assumes "mq_ok (mq\<lparr>mq_entry := of_nat (length ql)\<rparr>) fl ql fly"
  shows "\<exists>mq'. mq_drain mq = Some mq' \<and> mq_ok (mq'\<lparr>mq_entry := 0\<rparr>) (rev ql @ fl) [] fly"
  using assms
proof (induction ql arbitrary: mq fl)
  case Nil
  then have "mq_drain mq = Some mq" by (subst mq_drain.simps) (simp add: mq_ok_def)
  then show ?case using Nil by simp
next
  case (Cons msg rest)
  define mq1 where "mq1 = mq\<lparr>mq_head := mq_next mq msg, mq_tail := (if mq_tail mq = Some msg then None else mq_tail mq),
      mq_next := (mq_next mq)(msg := mq_free mq), mq_free := Some msg\<rparr>"
  have h: "mq_head mq = Some msg" using Cons.prems by (simp add: mq_ok_def)
  have d: "mq_drain mq = mq_drain mq1"
    by (subst mq_drain.simps) (simp add: h Let_def set_next_def mq1_def)
  have e: "unat (of_nat (length (msg # rest)) :: u16) = length (msg # rest)" using Cons.prems by (simp add: mq_ok_def)
  then have e1: "unat (of_nat (length rest) :: u16) = length rest"
    by (metis Suc_leI le_unat_uoi length_Cons less_Suc_eq_le order_refl less_imp_le)
  have n: "msg \<notin> set fl" "msg \<notin> set rest" using Cons.prems by (auto simp: mq_ok_def)
  have f: "\<And>x. (x, Filled) \<in> set fly \<Longrightarrow> x \<noteq> msg" using mq_ok_held(2) [OF Cons.prems] by auto
  have t: "mq_tail mq1 = (if rest = [] then None else Some (last rest))" using Cons.prems by (auto simp: mq_ok_def mq1_def)
  have "distinct ((msg # fl) @ rest @ map fst fly)" "set ((msg # fl) @ rest @ map fst fly) = mq_blocks mq1"
    using Cons.prems by (auto simp: mq_ok_def mq1_def)
  then have "mq_ok (mq1\<lparr>mq_entry := of_nat (length rest)\<rparr>) (msg # fl) rest fly"
    using Cons.prems n f t e1 by (simp add: mq_ok_def mq1_def chain_other)
  from Cons.IH [OF this] show ?case by (simp add: d)
qed

section \<open>Interleaved calls\<close>

definition hold :: "mq_result \<Rightarrow> phase \<Rightarrow> (nat \<times> phase) list \<Rightarrow> (nat \<times> phase) list" where
  "hold r ph fly = (case r of Mq_msg msg \<Rightarrow> (msg, ph) # fly | _ \<Rightarrow> fly)"

inductive mq_reach :: "rt_mq \<Rightarrow> rt_mq \<Rightarrow> (nat \<times> phase) list \<Rightarrow> bool" for mq0 where
  mq_begin: "mq_reach mq0 mq0 []"
| send_start: "mq_reach mq0 mq fly \<Longrightarrow> mq_send_start mq sz t thr = (mq', r) \<Longrightarrow> mq_reach mq0 mq' (hold r Sending fly)"
| send_resume: "mq_reach mq0 mq fly \<Longrightarrow> mq_send_resume mq t dt thr = (mq', r) \<Longrightarrow> mq_reach mq0 mq' (hold r Sending fly)"
| send_fill: "mq_reach mq0 mq fly \<Longrightarrow> (msg, Sending) \<in> set fly \<Longrightarrow> mq_send_fill mq m msg b sz = (mq', m') \<Longrightarrow>
    mq_reach mq0 mq' ((msg, Filled) # remove1 (msg, Sending) fly)"
| send_link: "mq_reach mq0 mq fly \<Longrightarrow> (msg, Filled) \<in> set fly \<Longrightarrow> mq_send_link mq msg = (mq', e, w) \<Longrightarrow>
    mq_reach mq0 mq' (remove1 (msg, Filled) fly)"
| urgent_start: "mq_reach mq0 mq fly \<Longrightarrow> mq_urgent_start mq sz = (mq', r) \<Longrightarrow> mq_reach mq0 mq' (hold r Urgent fly)"
| urgent_link: "mq_reach mq0 mq fly \<Longrightarrow> (msg, Urgent) \<in> set fly \<Longrightarrow> mq_urgent_link mq msg = (mq', e, w) \<Longrightarrow>
    mq_reach mq0 mq' (remove1 (msg, Urgent) fly)"
| recv_start: "mq_reach mq0 mq fly \<Longrightarrow> mq_recv_start mq sz t thr = (mq', r) \<Longrightarrow> mq_reach mq0 mq' (hold r Reading fly)"
| recv_resume: "mq_reach mq0 mq fly \<Longrightarrow> mq_recv_resume mq t dt thr = (mq', r) \<Longrightarrow> mq_reach mq0 mq' (hold r Reading fly)"
| recv_free: "mq_reach mq0 mq fly \<Longrightarrow> (msg, Reading) \<in> set fly \<Longrightarrow> mq_recv_free mq msg = (mq', e, w) \<Longrightarrow>
    mq_reach mq0 mq' (remove1 (msg, Reading) fly)"
| recv_expire: "mq_reach mq0 mq fly \<Longrightarrow> mq_reach mq0 (mq\<lparr>mq_suspend := remove1 thr (mq_suspend mq)\<rparr>) fly"
| send_expire: "mq_reach mq0 mq fly \<Longrightarrow> mq_reach mq0 (mq\<lparr>mq_sender := remove1 thr (mq_sender mq)\<rparr>) fly"
| control: "mq_reach mq0 mq fly \<Longrightarrow> rt_mq_control mq cmd = Some (mq', ts, e) \<Longrightarrow> mq_reach mq0 mq' fly"

lemma mq_ok_send_loop:
  assumes "mq_ok mq fl ql fly" and "mq_send_loop mq t thr = (mq', r)"
  shows "\<exists>fl'. mq_ok mq' fl' ql (hold r Sending fly)"
proof (cases "mq_free mq")
  case None
  then show ?thesis using assms by (auto simp: mq_send_loop_def hold_def Let_def split: if_splits)
next
  case (Some msg)
  then show ?thesis using assms mq_take_free [OF assms(1) Some, of Sending] by (auto simp: mq_send_loop_def hold_def)
qed

lemma mq_ok_recv_loop:
  assumes "mq_ok mq fl ql fly" and "mq_recv_loop mq t thr = (mq', r)"
  shows "(\<exists>ql'. mq_ok mq' fl ql' (hold r Reading fly)) \<and> r \<noteq> Mq_fault"
proof (cases "mq_entry mq = 0")
  case True
  then show ?thesis using assms by (auto simp: mq_recv_loop_def hold_def Let_def split: if_splits)
next
  case False
  then have "mq_take_head mq = (mq', r)" using assms(2) by (simp add: mq_recv_loop_def)
  from mq_ok_take_head [OF assms(1) False this] obtain msg rest
    where "r = Mq_msg msg" "mq_ok mq' fl rest ((msg, Reading) # fly)" by metis
  then show ?thesis by (auto simp: hold_def)
qed

lemma mq_ok_control:
  assumes "mq_ok mq fl ql fly"
  shows "\<exists>mq' ts. rt_mq_control mq RT_IPC_CMD_RESET = Some (mq', ts, RT_EOK) \<and> mq_ok mq' (rev ql @ fl) [] fly"
proof -
  let ?mq = "mq\<lparr>mq_suspend := [], mq_sender := []\<rparr>"
  have "length ql = unat (mq_entry mq)" using assms by (simp add: mq_ok_def)
  then have "of_nat (length ql) = mq_entry mq" by simp
  then have "mq_ok (?mq\<lparr>mq_entry := of_nat (length ql)\<rparr>) fl ql fly" using assms by simp
  from mq_ok_drain [OF this] obtain mq' where d: "mq_drain ?mq = Some mq'" "mq_ok (mq'\<lparr>mq_entry := 0\<rparr>) (rev ql @ fl) [] fly" by blast
  then show ?thesis by (auto simp: rt_mq_control_def resume_all_eq)
qed

lemma mq_ok_send_start:
  assumes "mq_ok mq fl ql fly" and "mq_send_start mq sz t thr = (mq', r) \<or> mq_send_resume mq t dt thr = (mq', r)"
  shows "\<exists>fl'. mq_ok mq' fl' ql (hold r Sending fly)"
proof (cases "\<exists>t. mq_send_loop mq t thr = (mq', r)")
  case True
  then show ?thesis using mq_ok_send_loop [OF assms(1)] by blast
next
  case False
  then show ?thesis using assms by (auto simp: mq_send_start_def mq_send_resume_def hold_def split: if_splits)
qed

lemma mq_ok_recv_start:
  assumes "mq_ok mq fl ql fly" and "mq_recv_start mq sz t thr = (mq', r) \<or> mq_recv_resume mq t dt thr = (mq', r)"
  shows "\<exists>ql'. mq_ok mq' fl ql' (hold r Reading fly)"
proof (cases "\<exists>t. mq_recv_loop mq t thr = (mq', r)")
  case True
  then show ?thesis using mq_ok_recv_loop [OF assms(1)] by blast
next
  case False
  then show ?thesis using assms by (auto simp: mq_recv_start_def mq_recv_resume_def hold_def split: if_splits)
qed

lemma mq_reach_ok:
  assumes "mq_reach mq0 mq fly" and "mq_ok mq0 fl0 [] []"
  shows "\<exists>fl ql. mq_ok mq fl ql fly"
  using assms(1)
proof (induction rule: mq_reach.induct)
  case mq_begin
  then show ?case using assms(2) by blast
next
  case (send_start mq fly sz t thr mq' r)
  then show ?case using mq_ok_send_start by blast
next
  case (send_resume mq fly t dt thr mq' r)
  then show ?case using mq_ok_send_start by blast
next
  case (send_fill mq fly msg m b sz mq' m')
  then have "mq' = set_next msg None mq" by (simp add: mq_send_fill_def)
  then show ?case using send_fill mq_ok_fill by blast
next
  case (send_link mq fly msg mq' e w)
  then show ?case using mq_ok_link(1) mq_ok_front by blast
next
  case (urgent_start mq fly sz mq' r)
  then obtain fl ql where ok: "mq_ok mq fl ql fly" by blast
  then show ?case
    using urgent_start.hyps(2) mq_take_free [OF ok, of _ Urgent]
    by (fastforce simp: mq_urgent_start_def hold_def split: if_splits option.splits)
next
  case (urgent_link mq fly msg mq' e w)
  then show ?case using mq_ok_urgent_link(1) mq_ok_front by blast
next
  case (recv_start mq fly sz t thr mq' r)
  then show ?case using mq_ok_recv_start by blast
next
  case (recv_resume mq fly t dt thr mq' r)
  then show ?case using mq_ok_recv_start by blast
next
  case (recv_free mq fly msg mq' e w)
  then show ?case using mq_ok_recv_free(1) mq_ok_front by blast
next
  case (control mq fly cmd mq' ts e)
  then obtain fl ql where ok: "mq_ok mq fl ql fly" by blast
  then show ?case
    using control.hyps(2) mq_ok_control [OF ok] by (cases "cmd = RT_IPC_CMD_RESET") (auto simp: rt_mq_control_def split: prod.splits)
qed auto

text \<open>The lists read off the pointers.\<close>

primrec walk :: "(nat \<Rightarrow> nat option) \<Rightarrow> nat \<Rightarrow> nat option \<Rightarrow> nat list" where
  "walk n 0 p = []"
| "walk n (Suc k) p = (case p of None \<Rightarrow> [] | Some x \<Rightarrow> x # walk n k (n x))"

definition mq_queue :: "rt_mq \<Rightarrow> nat list" where
  "mq_queue mq = walk (mq_next mq) (unat (mq_max_msgs mq)) (mq_head mq)"

definition mq_frees :: "rt_mq \<Rightarrow> nat list" where
  "mq_frees mq = walk (mq_next mq) (unat (mq_max_msgs mq)) (mq_free mq)"

lemma walk_chain: "chain n p xs \<Longrightarrow> length xs \<le> k \<Longrightarrow> walk n k p = xs"
proof (induction xs arbitrary: p k)
  case Nil
  then show ?case by (cases k) auto
next
  case (Cons x xs)
  then show ?case by (cases k) auto
qed

lemma mq_ok_lists:
  assumes "mq_ok mq fl ql fly"
  shows "mq_queue mq = ql" and "mq_frees mq = fl"
  using mq_ok_length [OF assms] assms by (auto simp: mq_queue_def mq_frees_def mq_ok_def intro!: walk_chain)

lemma mq_ok_init: "\<exists>fl. mq_ok (rt_mq_init pool msz psz flag heads) fl [] []"
  using mq_ok_setup(1) by (simp add: rt_mq_init_def Let_def)

section \<open>Properties\<close>

text \<open>Claim C22. Under every interleaving of sends, urgent sends, receives, timeouts and resets, each
  block of the pool is in exactly one place: the free list, the queue, or the hands of one
  call; \<open>entry\<close> counts the queue, and a receive never follows a null pointer.\<close>

theorem mq_blocks_conserved:
  assumes "mq_reach (rt_mq_init pool msz psz flag heads) mq fly"
  shows "distinct (mq_frees mq @ mq_queue mq @ map fst fly) \<and> set (mq_frees mq @ mq_queue mq @ map fst fly) = mq_blocks mq \<and>
    unat (mq_entry mq) = length (mq_queue mq) \<and> (\<forall>sz t thr. snd (mq_recv_start mq sz t thr) \<noteq> Mq_fault)"
proof -
  obtain fl ql where ok: "mq_ok mq fl ql fly" using mq_reach_ok [OF assms] mq_ok_init by blast
  have "snd (mq_recv_start mq sz t thr) \<noteq> Mq_fault" for sz t thr
    using mq_ok_recv_loop [OF ok, of t thr] by (cases "mq_recv_loop mq t thr") (auto simp: mq_recv_start_def)
  then show ?thesis using ok mq_ok_lists [OF ok] by (simp add: mq_ok_def)
qed

text \<open>Where a block lies in the pool.\<close>

lemma block_bounds:
  assumes "x \<in> mq_blocks mq"
  shows "mq_pool mq \<le> x" "x + mq_stride mq \<le> mq_pool mq + unat (mq_max_msgs mq) * mq_stride mq"
proof -
  obtain i where i: "x = mq_pool mq + i * mq_stride mq" "i < unat (mq_max_msgs mq)" using assms by (auto simp: mq_blocks_def)
  then have "Suc i * mq_stride mq \<le> unat (mq_max_msgs mq) * mq_stride mq" by (intro mult_le_mono1) simp
  then show "mq_pool mq \<le> x" "x + mq_stride mq \<le> mq_pool mq + unat (mq_max_msgs mq) * mq_stride mq" using i by simp_all
qed

lemma blocks_apart:
  assumes "x \<in> mq_blocks mq" and "y \<in> mq_blocks mq" and "x \<noteq> y"
  shows "x + mq_stride mq \<le> y \<or> y + mq_stride mq \<le> x"
proof -
  obtain i j where ij: "x = mq_pool mq + i * mq_stride mq" "y = mq_pool mq + j * mq_stride mq"
    using assms(1,2) by (auto simp: mq_blocks_def)
  with assms(3) have "i < j \<or> j < i" by auto
  then have "Suc i * mq_stride mq \<le> j * mq_stride mq \<or> Suc j * mq_stride mq \<le> i * mq_stride mq"
    by (metis Suc_leI mult_le_mono1)
  then show ?thesis using ij by auto
qed

definition outside :: "rt_mq \<Rightarrow> nat \<Rightarrow> nat \<Rightarrow> bool" where
  "outside mq buffer sz \<longleftrightarrow> buffer + sz \<le> mq_pool mq \<or> mq_pool mq + unat (mq_max_msgs mq) * mq_stride mq \<le> buffer"

text \<open>The messages in the queue, each with all bytes of its block.\<close>

definition mq_data :: "rt_mq \<Rightarrow> mem \<Rightarrow> u8 list list" where
  "mq_data mq m = map (\<lambda>x. mem_bytes m (x + 4) (unat (mq_msg_size mq))) (mq_queue mq)"

lemma fill_copies:
  assumes "msg \<in> mq_blocks mq" and "sz \<le> unat (mq_msg_size mq)" and "outside mq buffer sz" and "m' = rt_memcpy m (msg + 4) buffer sz"
  shows "take sz (mem_bytes m' (msg + 4) (unat (mq_msg_size mq))) = mem_bytes m buffer sz"
    and "x \<in> mq_blocks mq \<Longrightarrow> x \<noteq> msg \<Longrightarrow> mem_bytes m' (x + 4) (unat (mq_msg_size mq)) = mem_bytes m (x + 4) (unat (mq_msg_size mq))"
proof -
  have "msg + 4 \<le> buffer \<or> buffer + sz \<le> msg + 4"
    using block_bounds [OF assms(1)] assms(2,3) by (auto simp: outside_def mq_stride_def)
  then have m': "m' = mem_copy m (msg + 4) buffer sz" unfolding assms(4) by (rule rt_memcpy_eq)
  show "take sz (mem_bytes m' (msg + 4) (unat (mq_msg_size mq))) = mem_bytes m buffer sz"
    using assms(2) by (intro nth_equalityI) (auto simp: m' mem_copy_def)
  show "mem_bytes m' (x + 4) (unat (mq_msg_size mq)) = mem_bytes m (x + 4) (unat (mq_msg_size mq))"
    if "x \<in> mq_blocks mq" "x \<noteq> msg"
    using blocks_apart [OF that(1) assms(1) that(2)] assms(2)
    by (intro nth_equalityI) (auto simp: m' mem_copy_def mq_stride_def)
qed

lemma recv_copies:
  assumes "msg \<in> mq_blocks mq" and "n = min sz (unat (mq_msg_size mq))" and "outside mq buffer n" and "m' = mq_recv_copy mq m msg buffer sz"
  shows "mem_bytes m' buffer n = take n (mem_bytes m (msg + 4) (unat (mq_msg_size mq)))"
    and "x \<in> mq_blocks mq \<Longrightarrow> mem_bytes m' (x + 4) (unat (mq_msg_size mq)) = mem_bytes m (x + 4) (unat (mq_msg_size mq))"
proof -
  have "buffer \<le> msg + 4 \<or> msg + 4 + n \<le> buffer"
    using block_bounds [OF assms(1)] assms(2,3) by (auto simp: outside_def mq_stride_def)
  then have m': "m' = mem_copy m buffer (msg + 4) n"
    using rt_memcpy_eq [of buffer "msg + 4" n m] assms(2,4) by (simp add: mq_recv_copy_def min_def split: if_splits)
  show "mem_bytes m' buffer n = take n (mem_bytes m (msg + 4) (unat (mq_msg_size mq)))"
    using assms(2) by (intro nth_equalityI) (auto simp: m' mem_copy_def)
  show "mem_bytes m' (x + 4) (unat (mq_msg_size mq)) = mem_bytes m (x + 4) (unat (mq_msg_size mq))" if "x \<in> mq_blocks mq"
    using block_bounds [OF that] assms(3)
    by (intro nth_equalityI) (auto simp: m' mem_copy_def mq_stride_def outside_def)
qed

lemma mq_send_call:
  assumes ok: "mq_ok mq fl ql fly" and sz: "0 < sz" "sz \<le> unat (mq_msg_size mq)" and room: "fl \<noteq> []" and out: "outside mq buffer sz"
  obtains mq' m' w d where "rt_mq_send_wait (mq, m) buffer sz t self = ((mq', m'), Mq_return RT_EOK, w)"
    "mq_ok mq' (tl fl) (ql @ [hd fl]) fly" "mq_data mq' m' = mq_data mq m @ [d]" "take sz d = mem_bytes m buffer sz"
proof -
  obtain msg fl' where fl: "fl = msg # fl'" using room by (cases fl) auto
  have free: "mq_free mq = Some msg" using ok fl by (simp add: mq_ok_def)
  define mq1 where "mq1 = mq\<lparr>mq_free := mq_next mq msg\<rparr>"
  have ok1: "mq_ok mq1 fl' ql ((msg, Sending) # fly)" using mq_take_free [OF ok free, of Sending] fl by (simp add: mq1_def)
  have ok2: "mq_ok (set_next msg None mq1) fl' ql ((msg, Filled) # fly)" using mq_ok_fill [OF ok1, of msg] by simp
  obtain mq3 e w where l: "mq_send_link (set_next msg None mq1) msg = (mq3, e, w)" by (metis prod_cases3)
  note link = mq_ok_link [OF ok2 l]
  define m' where "m' = rt_memcpy m (msg + 4) buffer sz"
  have call: "rt_mq_send_wait (mq, m) buffer sz t self = ((mq3, m'), Mq_return RT_EOK, w)"
    using sz free l link(2) by (simp add: rt_mq_send_wait_def mq_send_start_def mq_send_loop_def mq_send_fill_def mq1_def m'_def)
  have f: "mq_msg_size mq3 = mq_msg_size mq"
    using l by (auto simp: mq_send_link_def Let_def set_next_def mq1_def split: option.splits if_splits prod.splits)
  have in_pool: "msg \<in> mq_blocks mq" "set ql \<subseteq> mq_blocks mq" "msg \<notin> set ql" using ok fl by (auto simp: mq_ok_def)
  note c = fill_copies [OF in_pool(1) sz(2) out m'_def]
  have "mq_data mq3 m' = map (\<lambda>x. mem_bytes m (x + 4) (unat (mq_msg_size mq))) ql @ [mem_bytes m' (msg + 4) (unat (mq_msg_size mq))]"
    unfolding mq_data_def mq_ok_lists(1) [OF link(1)] f using c(2) in_pool by (auto intro!: map_cong)
  then show ?thesis
    using that [OF call _ _ c(1)] link(1) mq_ok_lists(1) [OF ok] fl by (simp add: mq_data_def)
qed

lemma mq_urgent_call:
  assumes ok: "mq_ok mq fl ql fly" and sz: "0 < sz" "sz \<le> unat (mq_msg_size mq)" and room: "fl \<noteq> []" and out: "outside mq buffer sz"
  obtains mq' m' w d where "rt_mq_urgent (mq, m) buffer sz = ((mq', m'), Mq_return RT_EOK, w)"
    "mq_ok mq' (tl fl) (hd fl # ql) fly" "mq_data mq' m' = d # mq_data mq m" "take sz d = mem_bytes m buffer sz"
proof -
  obtain msg fl' where fl: "fl = msg # fl'" using room by (cases fl) auto
  have free: "mq_free mq = Some msg" using ok fl by (simp add: mq_ok_def)
  define mq1 where "mq1 = mq\<lparr>mq_free := mq_next mq msg\<rparr>"
  have ok1: "mq_ok mq1 fl' ql ((msg, Urgent) # fly)" using mq_take_free [OF ok free, of Urgent] fl by (simp add: mq1_def)
  obtain mq3 e w where l: "mq_urgent_link mq1 msg = (mq3, e, w)" by (metis prod_cases3)
  note link = mq_ok_urgent_link [OF ok1 l]
  define m' where "m' = rt_memcpy m (msg + 4) buffer sz"
  have call: "rt_mq_urgent (mq, m) buffer sz = ((mq3, m'), Mq_return RT_EOK, w)"
    using sz free l link(2) by (simp add: rt_mq_urgent_def mq_urgent_start_def mq1_def m'_def)
  have f: "mq_msg_size mq3 = mq_msg_size mq"
    using l by (auto simp: mq_urgent_link_def Let_def set_next_def mq1_def split: if_splits prod.splits)
  have in_pool: "msg \<in> mq_blocks mq" "set ql \<subseteq> mq_blocks mq" "msg \<notin> set ql" using ok fl by (auto simp: mq_ok_def)
  note c = fill_copies [OF in_pool(1) sz(2) out m'_def]
  have "mq_data mq3 m' = mem_bytes m' (msg + 4) (unat (mq_msg_size mq)) # map (\<lambda>x. mem_bytes m (x + 4) (unat (mq_msg_size mq))) ql"
    unfolding mq_data_def mq_ok_lists(1) [OF link(1)] f using c(2) in_pool by (auto intro!: map_cong)
  then show ?thesis
    using that [OF call _ _ c(1)] link(1) mq_ok_lists(1) [OF ok] fl by (simp add: mq_data_def)
qed

lemma mq_recv_call:
  assumes ok: "mq_ok mq fl ql fly" and sz: "0 < sz" "n = min sz (unat (mq_msg_size mq))" and some: "ql \<noteq> []" and out: "outside mq buffer n"
  obtains mq' m' w d where "rt_mq_recv (mq, m) buffer sz t self = ((mq', m'), Mq_return RT_EOK, w)"
    "mq_ok mq' (hd ql # fl) (tl ql) fly" "mq_data mq m = d # mq_data mq' m'" "mem_bytes m' buffer n = take n d"
proof -
  have e: "mq_entry mq \<noteq> 0" using ok some by (auto simp: mq_ok_def)
  obtain mq1 r where th: "mq_take_head mq = (mq1, r)" by fastforce
  obtain msg rest where q: "ql = msg # rest" "r = Mq_msg msg" "mq_ok mq1 fl rest ((msg, Reading) # fly)"
      "mq_msg_size mq1 = mq_msg_size mq"
    using mq_ok_take_head [OF ok e th] by metis
  obtain mq3 x w where l: "mq_recv_free mq1 msg = (mq3, x, w)" by (metis prod_cases3)
  note fr = mq_ok_recv_free [OF q(3) l]
  define m' where "m' = mq_recv_copy mq1 m msg buffer sz"
  have call: "rt_mq_recv (mq, m) buffer sz t self = ((mq3, m'), Mq_return RT_EOK, w)"
    using sz e th q(2) l fr(2) by (simp add: rt_mq_recv_def mq_recv_start_def mq_recv_loop_def m'_def)
  have f: "mq_msg_size mq3 = mq_msg_size mq"
    using l q(4) by (auto simp: mq_recv_free_def Let_def set_next_def split: prod.splits)
  have in_pool: "msg \<in> mq_blocks mq" "set rest \<subseteq> mq_blocks mq" using ok q(1) by (auto simp: mq_ok_def)
  have "m' = mq_recv_copy mq m msg buffer sz" by (simp add: m'_def mq_recv_copy_def q(4))
  note c = recv_copies [OF in_pool(1) sz(2) out this]
  have "mq_data mq3 m' = map (\<lambda>x. mem_bytes m (x + 4) (unat (mq_msg_size mq))) rest"
    unfolding mq_data_def mq_ok_lists(1) [OF fr(1)] f using c(2) in_pool by (auto intro!: map_cong)
  then have "mq_data mq m = mem_bytes m (msg + 4) (unat (mq_msg_size mq)) # mq_data mq3 m'"
    using mq_ok_lists(1) [OF ok] q(1) by (simp add: mq_data_def)
  then show ?thesis using that [OF call _ _ c(1)] fr(1) q(1) by simp
qed

text \<open>Claim C23. Calls on a message queue in any reachable state, with a buffer outside the pool: a send
  puts the bytes of the buffer behind all messages, an urgent send before all, and a receive
  fills the buffer with the first bytes of the first message; no other message changes. A send
  without a free block returns \<open>-RT_EFULL\<close>, a receive from an empty queue \<open>-RT_ETIMEOUT\<close>, and
  both then leave queue and memory alone.\<close>

theorem mq_calls_fifo:
  assumes "mq_reach (rt_mq_init pool msz psz flag heads) mq fly" and "0 < sz" and "sz \<le> unat (mq_msg_size mq)"
    and "outside mq buffer sz"
  shows "(if mq_frees mq = [] then rt_mq_send (mq, m) buffer sz self = ((mq, m), Mq_return (- RT_EFULL), None) \<and>
          rt_mq_urgent (mq, m) buffer sz = ((mq, m), Mq_return (- RT_EFULL), None)
      else (\<exists>mq' m' w d. rt_mq_send (mq, m) buffer sz self = ((mq', m'), Mq_return RT_EOK, w) \<and>
          mq_data mq' m' = mq_data mq m @ [d] \<and> take sz d = mem_bytes m buffer sz) \<and>
        (\<exists>mq' m' w d. rt_mq_urgent (mq, m) buffer sz = ((mq', m'), Mq_return RT_EOK, w) \<and>
          mq_data mq' m' = d # mq_data mq m \<and> take sz d = mem_bytes m buffer sz)) \<and>
    (if mq_queue mq = [] then rt_mq_recv (mq, m) buffer sz 0 self = ((mq, m), Mq_return (- RT_ETIMEOUT), None)
      else \<exists>mq' m' w d. rt_mq_recv (mq, m) buffer sz 0 self = ((mq', m'), Mq_return RT_EOK, w) \<and>
        mq_data mq m = d # mq_data mq' m' \<and> mem_bytes m' buffer sz = take sz d)"
proof -
  obtain fl ql where ok: "mq_ok mq fl ql fly" using mq_reach_ok [OF assms(1)] mq_ok_init by blast
  note ls = mq_ok_lists [OF ok]
  have mn: "sz = min sz (unat (mq_msg_size mq))" using assms(3) by simp
  have full: "mq_frees mq = [] \<Longrightarrow> mq_free mq = None" using ok by (simp add: ls mq_ok_def)
  have empty: "mq_queue mq = [] \<Longrightarrow> mq_entry mq = 0" using ok by (simp add: ls mq_ok_def unsigned_eq_0_iff)
  have "mq_frees mq \<noteq> [] \<Longrightarrow> \<exists>mq' m' w d. rt_mq_send (mq, m) buffer sz self = ((mq', m'), Mq_return RT_EOK, w) \<and>
          mq_data mq' m' = mq_data mq m @ [d] \<and> take sz d = mem_bytes m buffer sz"
    using mq_send_call [OF ok assms(2,3) _ assms(4), of m 0 self] unfolding ls rt_mq_send_def by metis
  moreover have "mq_frees mq \<noteq> [] \<Longrightarrow> \<exists>mq' m' w d. rt_mq_urgent (mq, m) buffer sz = ((mq', m'), Mq_return RT_EOK, w) \<and>
          mq_data mq' m' = d # mq_data mq m \<and> take sz d = mem_bytes m buffer sz"
    using mq_urgent_call [OF ok assms(2,3) _ assms(4), of m] unfolding ls by metis
  moreover have "mq_queue mq \<noteq> [] \<Longrightarrow> \<exists>mq' m' w d. rt_mq_recv (mq, m) buffer sz 0 self = ((mq', m'), Mq_return RT_EOK, w) \<and>
        mq_data mq m = d # mq_data mq' m' \<and> mem_bytes m' buffer sz = take sz d"
    using mq_recv_call [OF ok assms(2) mn _ assms(4), of m 0 self] unfolding ls by metis
  moreover have "mq_frees mq = [] \<Longrightarrow> rt_mq_send (mq, m) buffer sz self = ((mq, m), Mq_return (- RT_EFULL), None) \<and>
      rt_mq_urgent (mq, m) buffer sz = ((mq, m), Mq_return (- RT_EFULL), None)"
    using full assms(2,3) by (simp add: rt_mq_send_def rt_mq_send_wait_def mq_send_start_def rt_mq_urgent_def mq_urgent_start_def)
  moreover have "mq_queue mq = [] \<Longrightarrow> rt_mq_recv (mq, m) buffer sz 0 self = ((mq, m), Mq_return (- RT_ETIMEOUT), None)"
    using empty assms(2) by (simp add: rt_mq_recv_def mq_recv_start_def)
  ultimately show ?thesis unfolding if_bool_eq_conj by blast
qed

text \<open>The reset of a message queue terminates in every reachable state, also while calls hold
  blocks: the loop over the messages ends, every queued block is back in the free list, and
  the blocks held by calls are not touched.\<close>

theorem mq_reset_terminates:
  assumes "mq_reach (rt_mq_init pool msz psz flag heads) mq fly"
  shows "\<exists>mq' ts. rt_mq_control mq RT_IPC_CMD_RESET = Some (mq', ts, RT_EOK) \<and> mq_queue mq' = [] \<and> mq_entry mq' = 0 \<and>
    mq_frees mq' = rev (mq_queue mq) @ mq_frees mq \<and> mq_blocks mq' = mq_blocks mq"
proof -
  obtain fl ql where ok: "mq_ok mq fl ql fly" using mq_reach_ok [OF assms] mq_ok_init by blast
  obtain mq' ts where c: "rt_mq_control mq RT_IPC_CMD_RESET = Some (mq', ts, RT_EOK)" "mq_ok mq' (rev ql @ fl) [] fly"
    using mq_ok_control [OF ok] by blast
  have "mq_entry mq' = 0" using c(2) by (simp add: mq_ok_def unsigned_eq_0_iff)
  moreover have "mq_blocks mq' = mq_blocks mq" using ok c(2) by (auto simp: mq_ok_def)
  ultimately show ?thesis using c mq_ok_lists [OF c(2)] mq_ok_lists [OF ok] by auto
qed

text \<open>A queue of three messages of four bytes, one of them sent, and a second send between its two
  critical sections.\<close>

definition demo_mq :: rt_mq where
  "demo_mq = rt_mq_init 0x1000 4 24 0 (\<lambda>_. None)"

definition demo_mq_sent :: rt_mq where
  "demo_mq_sent = (case mq_send_start demo_mq 4 0 (sample_thread 1 9) of
     (a, Mq_msg msg) \<Rightarrow> fst (mq_send_link (set_next msg None a) msg) | (a, _) \<Rightarrow> a)"

lemma upt_0_3: "[0..<3] = [0, 1, 2 :: nat]"
  by (simp add: upt_rec)

lemma walk_3: "walk n 3 p = (case p of None \<Rightarrow> [] | Some x \<Rightarrow> x # (case n x of None \<Rightarrow> [] | Some y \<Rightarrow> y #
    (case n y of None \<Rightarrow> [] | Some z \<Rightarrow> [z])))"
  by (simp add: numeral_3_eq_3 split: option.split)

lemma demo_mq_eq:
  "demo_mq = \<lparr>mq_suspend = [], mq_flag = 0, mq_pool = 0x1000, mq_msg_size = 4, mq_max_msgs = 3, mq_entry = 0,
     mq_head = None, mq_tail = None, mq_free = Some 0x1010, mq_sender = [],
     mq_next = (\<lambda>_. None)(0x1000 := None, 0x1008 := Some 0x1000, 0x1010 := Some 0x1008)\<rparr>"
  by (simp add: demo_mq_def rt_mq_init_def RT_ALIGN_def mq_setup_def mq_free_block_def set_next_def mq_stride_def
      upt_0_3 Let_def)

lemma demo_sent_eq:
  "demo_mq_sent = \<lparr>mq_suspend = [], mq_flag = 0, mq_pool = 0x1000, mq_msg_size = 4, mq_max_msgs = 3, mq_entry = 1,
     mq_head = Some 0x1010, mq_tail = Some 0x1010, mq_free = Some 0x1008, mq_sender = [],
     mq_next = (\<lambda>_. None)(0x1000 := None, 0x1008 := Some 0x1000, 0x1010 := None)\<rparr>"
  by (simp add: demo_mq_sent_def demo_mq_eq mq_send_start_def mq_send_loop_def mq_send_link_def set_next_def wake_first_def Let_def)

lemma demo_mq_reach: "mq_reach demo_mq demo_mq_sent []"
proof -
  obtain a where a: "mq_send_start demo_mq 4 0 (sample_thread 1 9) = (a, Mq_msg 0x1010)"
    by (simp add: demo_mq_eq mq_send_start_def mq_send_loop_def)
  obtain b e w where b: "mq_send_link (set_next 0x1010 None a) 0x1010 = (b, e, w)" by (metis prod_cases3)
  have "mq_reach demo_mq a [(0x1010, Sending)]" using mq_reach.send_start [OF mq_begin a] by (simp add: hold_def)
  moreover have "mq_send_fill a (\<lambda>_. 0) 0x1010 0x2000 4 = (set_next 0x1010 None a, rt_memcpy (\<lambda>_. 0) (0x1010 + 4) 0x2000 4)"
    by (simp add: mq_send_fill_def)
  ultimately have "mq_reach demo_mq (set_next 0x1010 None a) [(0x1010, Filled)]"
    using mq_reach.send_fill [of demo_mq a "[(0x1010, Sending)]"] by (metis list.set_intros(1) remove1.simps(2))
  then have "mq_reach demo_mq b []" using mq_reach.send_link [OF _ _ b, of demo_mq "[(0x1010, Filled)]"] by simp
  then show ?thesis using a b by (simp add: demo_mq_sent_def)
qed

lemmas demo_reach_sent = demo_mq_reach [unfolded demo_mq_def]

lemma demo_lists: "mq_queue demo_mq_sent = [0x1010]" "mq_frees demo_mq_sent = [0x1008, 0x1000]"
  by (simp_all add: demo_sent_eq mq_queue_def mq_frees_def walk_3)

theorem mq_blocks_conserved_witness:
  "distinct [0x1008, 0x1000, 0x1010 :: nat] \<and> set [0x1008, 0x1000, 0x1010] = mq_blocks demo_mq_sent"
  using mq_blocks_conserved [OF demo_reach_sent] by (simp add: demo_lists)

theorem mq_calls_fifo_witness:
  "\<exists>mq' m' w d. rt_mq_recv (demo_mq_sent, \<lambda>a. of_nat a) 0x2000 4 0 (sample_thread 2 9) = ((mq', m'), Mq_return RT_EOK, w) \<and>
     mq_data demo_mq_sent (\<lambda>a. of_nat a) = d # mq_data mq' m' \<and> mem_bytes m' 0x2000 4 = take 4 d"
  using mq_calls_fifo [OF demo_reach_sent, of 4 "0x2000" "\<lambda>a. of_nat a" "sample_thread 2 9"] demo_lists(1)
  by (simp add: demo_sent_eq outside_def mq_stride_def)

theorem mq_reset_terminates_witness:
  "\<exists>mq' ts. rt_mq_control demo_mq_sent RT_IPC_CMD_RESET = Some (mq', ts, RT_EOK) \<and> mq_queue mq' = [] \<and>
     mq_frees mq' = [0x1010, 0x1008, 0x1000]"
  using mq_reset_terminates [OF demo_reach_sent] by (auto simp: demo_lists)
end
