(* ===== verification/Rt_Printf.thy ===== *)
theory Rt_Printf
  imports C_Buffers "HOL-Library.Monad_Syntax"
begin

text \<open>
  Formatted output (\<open>rt_vsnprintf\<close> and its callers in \<open>rt-thread/src/kservice.c\<close>), built as the
  kernel is configured: with precision, without \<open>long long\<close> and without the \<open>0x\<close> prefix. Every
  character of the output goes through the same two statements, a store if the place is inside
  the buffer, and the advance of the place; so a conversion is the list of its characters, and
  \<open>put\<close> is what the two statements do with one. A format is given without its NUL. The
  arguments are a list; \<open>None\<close> is an argument of the wrong kind or missing, or a store outside
  the array. Widths, precisions and the counters of the loops are the 32-bit \<open>int\<close> of the code,
  \<open>str\<close> and \<open>end\<close> are 32-bit addresses, and all of them wrap. The theory shows that no format
  writes outside the given size as long as the place does not run past the end of the address
  range, and does so when it runs past it; that what arrives is the output cut to fit with its
  NUL; and that numbers read back as what was printed.
\<close>

section \<open>Numbers\<close>

text \<open>The value of an \<open>int\<close> after an operation: 32 bits, signed.\<close>

definition i32 :: "int \<Rightarrow> int" where
  "i32 n = signed_take_bit 31 n"

lemma i32_eq: "- (2 ^ 31) \<le> n \<Longrightarrow> n < 2 ^ 31 \<Longrightarrow> i32 n = n"
  unfolding i32_def by (rule signed_take_bit_int_eq_self) simp_all

lemma sint_of_nat: "sint (of_nat n :: u32) = i32 (int n)"
proof -
  have "sint (word_of_int (int n) :: u32) = i32 (int n)" unfolding i32_def by (simp only: sint_sbintrunc') simp
  then show ?thesis by simp
qed

definition ZEROPAD :: u8 where "ZEROPAD = 0x01"
definition SIGN :: u8 where "SIGN = 0x02"
definition PLUS :: u8 where "PLUS = 0x04"
definition SPACE :: u8 where "SPACE = 0x08"
definition LEFT :: u8 where "LEFT = 0x10"
definition SPECIAL :: u8 where "SPECIAL = 0x20"
definition LARGE :: u8 where "LARGE = 0x40"

lemmas print_flags = ZEROPAD_def SIGN_def PLUS_def SPACE_def LEFT_def SPECIAL_def LARGE_def

text \<open>The digit that \<open>divide\<close> takes off: base 10, and 16 for every other base.\<close>

definition divide_base :: "nat \<Rightarrow> nat" where
  "divide_base base = (if base = 10 then 10 else 16)"

definition divide_step :: "u32 \<Rightarrow> nat \<Rightarrow> nat \<times> u32" where
  "divide_step n base = (unat n mod divide_base base, of_nat (unat n div divide_base base))"

definition print_digit :: "u8 \<Rightarrow> nat \<Rightarrow> u8" where
  "print_digit type d = (if d < 10 then 48 + of_nat d
     else if type AND LARGE \<noteq> 0 then 65 + of_nat (d - 10) else 97 + of_nat (d - 10))"

text \<open>The digits in the order of \<open>tmp\<close>, lowest first.\<close>

function number_digits :: "u32 \<Rightarrow> nat \<Rightarrow> nat list" where
  "number_digits n base =
     (if n = 0 then [] else let (d, n') = divide_step n base in d # number_digits n' base)"
  by pat_completeness auto

lemma divide_step_unat [simp]: "unat (snd (divide_step n base)) = unat n div divide_base base"
proof -
  have "unat n div divide_base base \<le> unat n" by (rule div_le_dividend)
  moreover have "unat n < 2 ^ 32" using unsigned_less [of n, where 'a = nat] by simp
  ultimately have "unat n div divide_base base < 2 ^ 32" by (rule order_le_less_trans)
  then show ?thesis by (simp add: divide_step_def unsigned_of_nat take_bit_nat_eq_self)
qed

lemma divide_less: "n \<noteq> 0 \<Longrightarrow> unat (snd (divide_step n base)) < unat n"
  by (simp add: unat_gt_0 divide_base_def)

termination number_digits
  by (relation "measure (\<lambda>(n, base). unat n)") (use divide_less in \<open>auto simp: divide_step_def\<close>)

declare number_digits.simps [simp del]

lemma number_digits_octal: "number_digits n 8 = number_digits n 16"
proof (induction "unat n" arbitrary: n rule: less_induct)
  case less
  then show ?case
    using divide_less [of n 16]
    by (subst (1 2) number_digits.simps) (auto simp: divide_step_def divide_base_def)
qed

text \<open>The sign, the absolute value and the digits, in the order in which they are printed.\<close>

definition print_sign :: "u8 \<Rightarrow> u32 \<Rightarrow> u8 list" where
  "print_sign type n = (if type AND SIGN = 0 then [] else if sint n < 0 then [45]
     else if type AND PLUS \<noteq> 0 then [43] else if type AND SPACE \<noteq> 0 then [32] else [])"

definition print_value :: "u8 \<Rightarrow> u32 \<Rightarrow> u32" where
  "print_value type n = (if type AND SIGN \<noteq> 0 \<and> sint n < 0 then - n else n)"

definition print_digits :: "u8 \<Rightarrow> u32 \<Rightarrow> nat \<Rightarrow> u8 list" where
  "print_digits type n base = (if n = 0 then [48] else rev (map (print_digit type) (number_digits n base)))"

text \<open>A loop \<open>while (n-- > 0)\<close> runs \<open>n\<close> times and leaves this behind.\<close>

definition after_loop :: "int \<Rightarrow> int" where
  "after_loop n = i32 (min n 0 - 1)"

definition print_number :: "u32 \<Rightarrow> nat \<Rightarrow> int \<Rightarrow> int \<Rightarrow> u8 \<Rightarrow> u8 list" where
  "print_number num base s precision type0 =
     (let type = (if type0 AND LEFT \<noteq> 0 then type0 AND NOT ZEROPAD else type0);
          c = (if type AND ZEROPAD \<noteq> 0 then 48 else 32);
          sign = print_sign type num;
          tmp = print_digits type (print_value type num) base;
          i = int (length tmp);
          prec = max i precision;
          size0 = i32 (s - prec);
          size1 = (if type AND (ZEROPAD OR LEFT) = 0 \<and> sign \<noteq> [] \<and> size0 > 0 then size0 - 1 else size0);
          before = (if type AND (ZEROPAD OR LEFT) = 0 then replicate (nat size1) 32 else []);
          size2 = (if type AND (ZEROPAD OR LEFT) = 0 then after_loop size1 else size1);
          size3 = (if sign \<noteq> [] then i32 (size2 - 1) else size2);
          fill = (if type AND LEFT = 0 then replicate (nat size3) c else []);
          size4 = (if type AND LEFT = 0 then after_loop size3 else size3);
          zeros = replicate (nat (prec - i)) 48;
          digits = (if precision \<noteq> 0 then tmp else [])
      in before @ sign @ fill @ zeros @ digits @ replicate (nat size4) 32)"

section \<open>The format\<close>

datatype arg = Arg_int u32 | Arg_str "u8 list" | Arg_null

fun va_int :: "arg list \<Rightarrow> (u32 \<times> arg list) option" where
  "va_int (Arg_int n # as) = Some (n, as)"
| "va_int _ = None"

text \<open>A string argument; a null pointer prints as \<open>(NULL)\<close>.\<close>

fun va_str :: "arg list \<Rightarrow> (u8 list \<times> arg list) option" where
  "va_str (Arg_str s # as) = Some (s, as)"
| "va_str (Arg_null # as) = Some (c_bytes ''(NULL)'', as)"
| "va_str _ = None"

fun skip_atoi :: "int \<Rightarrow> u8 list \<Rightarrow> int \<times> u8 list" where
  "skip_atoi i [] = (i, [])"
| "skip_atoi i (c # cs) = (if is_digit c then skip_atoi (i32 (i * 10 + uint c - 48)) cs else (i, c # cs))"

text \<open>The flags after a \<open>%\<close>: \<open>- + space # 0\<close>.\<close>

fun format_flags :: "u8 \<Rightarrow> u8 list \<Rightarrow> u8 \<times> u8 list" where
  "format_flags flags [] = (flags, [])"
| "format_flags flags (c # cs) =
     (if c = 45 then format_flags (flags OR LEFT) cs
      else if c = 43 then format_flags (flags OR PLUS) cs
      else if c = 32 then format_flags (flags OR SPACE) cs
      else if c = 35 then format_flags (flags OR SPECIAL) cs
      else if c = 48 then format_flags (flags OR ZEROPAD) cs
      else (flags, c # cs))"

definition format_width :: "u8 \<Rightarrow> u8 list \<Rightarrow> arg list \<Rightarrow> (int \<times> u8 \<times> u8 list \<times> arg list) option" where
  "format_width flags fmt args =
     (case fmt of [] \<Rightarrow> Some (-1, flags, fmt, args)
      | c # cs \<Rightarrow>
        if is_digit c then (let (w, r) = skip_atoi 0 fmt in Some (w, flags, r, args))
        else if c = 42
        then do {
          (n, as) \<leftarrow> va_int args;
          Some (if sint n < 0 then (i32 (- sint n), flags OR LEFT, cs, as) else (sint n, flags, cs, as))
        }
        else Some (-1, flags, fmt, args))"

definition format_precision :: "u8 list \<Rightarrow> arg list \<Rightarrow> (int \<times> u8 list \<times> arg list) option" where
  "format_precision fmt args =
     (if fmt = [] \<or> hd fmt \<noteq> 46 then Some (-1, fmt, args)
      else case tl fmt of
          [] \<Rightarrow> Some (0, [], args)
        | c # ds \<Rightarrow>
            if is_digit c then (let (p, r) = skip_atoi 0 (tl fmt) in Some (max p 0, r, args))
            else if c = 42 then do { (n, as) \<leftarrow> va_int args; Some (max (sint n) 0, ds, as) }
            else Some (0, tl fmt, args))"

definition format_qualifier :: "u8 list \<Rightarrow> u8 \<times> u8 list" where
  "format_qualifier fmt = (case fmt of [] \<Rightarrow> (0, []) | c # cs \<Rightarrow> if c = 104 \<or> c = 108 then (c, cs) else (0, fmt))"

text \<open>The value of an integer argument after the conversions of the qualifier.\<close>

definition format_int :: "u8 \<Rightarrow> u8 \<Rightarrow> u32 \<Rightarrow> u32" where
  "format_int qualifier flags n =
     (if qualifier = 104
      then if flags AND SIGN \<noteq> 0 then scast (ucast n :: u16) else ucast (ucast n :: u16)
      else n)"

text \<open>The loops \<open>while (--n > 0)\<close> and \<open>while (len < n--)\<close>: how often they run, and the \<open>n\<close> they leave.\<close>

definition char_loop :: "int \<Rightarrow> nat \<times> int" where
  "char_loop n = (let m = i32 (n - 1) in (nat m, min m 0))"

definition string_loop :: "int \<Rightarrow> int \<Rightarrow> nat \<times> int" where
  "string_loop len n = (nat (n - len), i32 (min n len - 1))"

definition convert_char :: "u8 \<Rightarrow> int \<Rightarrow> u8 \<Rightarrow> u8 list" where
  "convert_char flags width c =
     (let (before, width1) = (if flags AND LEFT = 0 then char_loop width else (0, width));
          (behind, _) = char_loop width1
      in replicate before 32 @ [c] @ replicate behind 32)"

definition convert_string :: "u8 \<Rightarrow> int \<Rightarrow> int \<Rightarrow> u8 list \<Rightarrow> u8 list" where
  "convert_string flags width precision s =
     (let len0 = i32 (int (length s));
          len = (if precision > 0 \<and> len0 > precision then precision else len0);
          (before, width1) = (if flags AND LEFT = 0 then string_loop len width else (0, width));
          (behind, _) = string_loop len width1
      in replicate before 32 @ take (nat len) s @ replicate behind 32)"

text \<open>One conversion: what it prints, and the format and arguments left over.\<close>

definition convert :: "u8 \<Rightarrow> int \<Rightarrow> int \<Rightarrow> u8 \<Rightarrow> u8 list \<Rightarrow> arg list \<Rightarrow> (u8 list \<times> u8 list \<times> arg list) option" where
  "convert flags width precision qualifier fmt args =
     (case fmt of
        [] \<Rightarrow> Some ([37], [], args)
      | c # cs \<Rightarrow>
        if c = 99 then do { (n, as) \<leftarrow> va_int args; Some (convert_char flags width (ucast n), cs, as) }
        else if c = 115 then do { (s, as) \<leftarrow> va_str args; Some (convert_string flags width precision s, cs, as) }
        else if c = 112
        then do {
          (n, as) \<leftarrow> va_int args;
          Some (if width = -1 then print_number n 16 8 precision (flags OR ZEROPAD) else print_number n 16 width precision flags, cs, as)
        }
        else if c = 37 then Some ([37], cs, args)
        else if c \<in> {111, 88, 120, 100, 105, 117}
        then do {
          (n, as) \<leftarrow> va_int args;
          let base = (if c = 111 then 8 else if c = 88 \<or> c = 120 then 16 else 10);
          let flags1 = (if c = 88 then flags OR LARGE else if c = 100 \<or> c = 105 then flags OR SIGN else flags);
          Some (print_number (format_int qualifier flags1 n) base width precision flags1, cs, as)
        }
        else Some ([37, c], cs, args))"

definition format_spec :: "u8 list \<Rightarrow> arg list \<Rightarrow> (u8 list \<times> u8 list \<times> arg list) option" where
  "format_spec fmt args = do {
     let (flags, f1) = format_flags 0 fmt;
     (width, flags1, f2, as1) \<leftarrow> format_width flags f1 args;
     (precision, f3, as2) \<leftarrow> format_precision f2 as1;
     let (qualifier, f4) = format_qualifier f3;
     convert flags1 width precision qualifier f4 as2
   }"

text \<open>Nothing is read twice: the rest of the format is no longer than the format.\<close>

lemma skip_atoi_length: "length (snd (skip_atoi i s)) \<le> length s"
  by (induction i s rule: skip_atoi.induct) auto

lemma format_flags_length: "length (snd (format_flags f s)) \<le> length s"
  by (induction f s rule: format_flags.induct) auto

lemma format_width_length:
  assumes "format_width flags fmt args = Some (w, f, r, as)"
  shows "length r \<le> length fmt"
proof (cases fmt)
  case Nil
  then show ?thesis using assms by (simp add: format_width_def)
next
  case (Cons c cs)
  consider "is_digit c" | "\<not> is_digit c" "c = 42" | "\<not> is_digit c" "c \<noteq> 42" by blast
  then show ?thesis
  proof cases
    case 1
    then show ?thesis using assms skip_atoi_length [of 0 fmt] Cons by (simp add: format_width_def split: prod.splits)
  next
    case 2
    then show ?thesis using assms Cons by (auto simp: format_width_def bind_eq_Some_conv split: if_splits)
  next
    case 3
    then show ?thesis using assms Cons by (simp add: format_width_def)
  qed
qed

lemma format_precision_length:
  assumes "format_precision fmt args = Some (p, r, as)"
  shows "length r \<le> length fmt"
proof (cases "fmt = [] \<or> hd fmt \<noteq> 46")
  case True
  then show ?thesis using assms by (simp add: format_precision_def)
next
  case False
  then obtain cs where f: "fmt = 46 # cs" by (cases fmt) auto
  show ?thesis
  proof (cases cs)
    case Nil
    then show ?thesis using assms f by (simp add: format_precision_def)
  next
    case (Cons c ds)
    consider "is_digit c" | "\<not> is_digit c" "c = 42" | "\<not> is_digit c" "c \<noteq> 42" by blast
    then show ?thesis
    proof cases
      case 1
      then show ?thesis using assms skip_atoi_length [of 0 cs] f Cons by (simp add: format_precision_def split: prod.splits)
    next
      case 2
      then show ?thesis using assms f Cons by (auto simp: format_precision_def bind_eq_Some_conv)
    next
      case 3
      then show ?thesis using assms f Cons by (simp add: format_precision_def)
    qed
  qed
qed

lemma format_qualifier_length: "length (snd (format_qualifier fmt)) \<le> length fmt"
  by (auto simp: format_qualifier_def split: list.splits)

lemma convert_length: "convert flags w p q fmt args = Some (out, r, as) \<Longrightarrow> length r \<le> length fmt"
  by (auto simp: convert_def Let_def split: list.splits if_splits bind_splits)

lemma format_spec_length:
  assumes "format_spec fmt args = Some (out, r, as)"
  shows "length r \<le> length fmt"
proof -
  obtain flags f1 where 1: "format_flags 0 fmt = (flags, f1)" by force
  from assms 1 obtain w flags1 f2 as1 where 2: "format_width flags f1 args = Some (w, flags1, f2, as1)"
    by (auto simp: format_spec_def split: bind_splits)
  from assms 1 2 obtain p f3 as2 where 3: "format_precision f2 as1 = Some (p, f3, as2)"
    by (auto simp: format_spec_def split: bind_splits)
  obtain q f4 where 4: "format_qualifier f3 = (q, f4)" by force
  have 5: "convert flags1 w p q f4 as2 = Some (out, r, as)" using assms 1 2 3 4 by (simp add: format_spec_def)
  show ?thesis
    using format_flags_length [of 0 fmt] format_width_length [OF 2] format_precision_length [OF 3] format_qualifier_length [of f3]
      convert_length [OF 5] 1 4 by simp
qed

text \<open>The loop over the format: the characters of the whole output.\<close>

function format_loop :: "u8 list \<Rightarrow> arg list \<Rightarrow> u8 list option" where
  "format_loop fmt args =
     (case fmt of
        [] \<Rightarrow> Some []
      | c # cs \<Rightarrow>
        if c \<noteq> 37 then map_option ((#) c) (format_loop cs args)
        else case format_spec cs args of
            None \<Rightarrow> None
          | Some (out, r, as) \<Rightarrow> map_option ((@) out) (format_loop r as))"
  by pat_completeness auto

termination format_loop
  by (relation "measure (\<lambda>(fmt, args). length fmt)") (auto dest: format_spec_length)

declare format_loop.simps [simp del]

lemma format_loop_Nil [simp]: "format_loop [] args = Some []"
  by (subst format_loop.simps) simp

lemma format_loop_plain [simp]: "c \<noteq> 37 \<Longrightarrow> format_loop (c # cs) args = map_option ((#) c) (format_loop cs args)"
  by (subst format_loop.simps) simp

lemma format_loop_spec: "format_loop (37 # cs) args =
    (case format_spec cs args of None \<Rightarrow> None | Some (out, r, as) \<Rightarrow> map_option ((@) out) (format_loop r as))"
  by (subst format_loop.simps) simp

section \<open>The buffer\<close>

text \<open>The array starts at the address \<open>base\<close>. A store through a pointer finds it by the distance
  from there; \<open>None\<close> is a store to any other address.\<close>

definition store :: "u32 \<Rightarrow> u32 \<Rightarrow> u8 \<Rightarrow> u8 list \<Rightarrow> u8 list option" where
  "store base addr c buf =
     (if unat (addr - base) < length buf then Some (buf[unat (addr - base) := c]) else None)"

text \<open>\<open>if (str < end) *str = c; ++str\<close>.\<close>

definition put :: "u32 \<Rightarrow> u32 \<Rightarrow> u8 \<Rightarrow> u8 list \<times> u32 \<Rightarrow> (u8 list \<times> u32) option" where
  "put base fin c = (\<lambda>(buf, str).
     if str < fin then map_option (\<lambda>b. (b, str + 1)) (store base str c buf) else Some (buf, str + 1))"

fun put_all :: "u32 \<Rightarrow> u32 \<Rightarrow> u8 list \<Rightarrow> u8 list \<times> u32 \<Rightarrow> (u8 list \<times> u32) option" where
  "put_all base fin [] s = Some s"
| "put_all base fin (c # cs) s = Option.bind (put base fin c s) (put_all base fin cs)"

text \<open>\<open>buf + size\<close> wraps for the size \<open>-1\<close> of \<open>rt_sprintf\<close>, and \<open>end\<close> becomes the last address.\<close>

definition vsnprintf_end :: "u32 \<Rightarrow> u32 \<Rightarrow> u32 \<times> u32" where
  "vsnprintf_end base sz = (if base + sz < base then (0xffffffff, 0xffffffff - base) else (base + sz, sz))"

definition rt_vsnprintf :: "u32 \<Rightarrow> u8 list \<Rightarrow> u32 \<Rightarrow> u8 list \<Rightarrow> arg list \<Rightarrow> (u8 list \<times> int) option" where
  "rt_vsnprintf base buf size0 fmt args =
     (let (fin, sz) = vsnprintf_end base size0 in
      case format_loop fmt args of
        None \<Rightarrow> None
      | Some out \<Rightarrow>
        (case put_all base fin out (buf, base) of
           None \<Rightarrow> None
         | Some (b, str) \<Rightarrow>
           map_option (\<lambda>b'. (b', sint (str - base)))
             (if sz > 0 then store base (if str < fin then str else fin - 1) 0 b else Some b)))"

definition rt_snprintf :: "u32 \<Rightarrow> u8 list \<Rightarrow> u32 \<Rightarrow> u8 list \<Rightarrow> arg list \<Rightarrow> (u8 list \<times> int) option" where
  "rt_snprintf base buf sz fmt args = rt_vsnprintf base buf sz fmt args"

definition rt_vsprintf :: "u32 \<Rightarrow> u8 list \<Rightarrow> u8 list \<Rightarrow> arg list \<Rightarrow> (u8 list \<times> int) option" where
  "rt_vsprintf base buf fmt args = rt_vsnprintf base buf (- 1) fmt args"

definition rt_sprintf :: "u32 \<Rightarrow> u8 list \<Rightarrow> u8 list \<Rightarrow> arg list \<Rightarrow> (u8 list \<times> int) option" where
  "rt_sprintf base buf fmt args = rt_vsprintf base buf fmt args"

text \<open>The place \<open>k\<close> bytes behind the start of the array, while it does not run past the end of the
  address range.\<close>

lemma place_unat: "unat base + k < 2 ^ 32 \<Longrightarrow> unat (base + of_nat k :: u32) = unat base + k"
  by (simp add: unat_word_ariths unsigned_of_nat take_bit_nat_eq_self)

lemma place_less:
  "unat base + k < 2 ^ 32 \<Longrightarrow> unat base + n < 2 ^ 32 \<Longrightarrow> base + of_nat k < (base + of_nat n :: u32) \<longleftrightarrow> k < n"
  by (simp add: word_less_nat_alt place_unat)

lemma store_place:
  "k < 2 ^ 32 \<Longrightarrow> store base (base + of_nat k) c buf = (if k < length buf then Some (buf[k := c]) else None)"
  by (simp add: store_def unsigned_of_nat take_bit_nat_eq_self)

lemma put_place:
  assumes "unat base + w < 2 ^ 32" and "unat base + k < 2 ^ 32"
  shows "put base (base + of_nat w) c (buf, base + of_nat k) =
    (if k < w then if k < length buf then Some (buf[k := c], base + of_nat (k + 1)) else None
     else Some (buf, base + of_nat (k + 1)))"
  using assms place_less [OF assms(2,1)] store_place [of k base c buf] by (simp add: put_def algebra_simps)

lemma put_all_inside:
  assumes "w \<le> length buf" and "k + length out \<le> w" and "unat base + w < 2 ^ 32"
  shows "put_all base (base + of_nat w) out (buf, base + of_nat k) =
    Some (take k buf @ out @ drop (k + length out) buf, base + of_nat (k + length out))"
  using assms
proof (induction out arbitrary: buf k)
  case (Cons c cs)
  then have "put base (base + of_nat w) c (buf, base + of_nat k) = Some (buf[k := c], base + of_nat (k + 1))"
    by (simp add: put_place)
  moreover have "take (k + 1) (buf[k := c]) = take k buf @ [c]"
    using Cons.prems by (simp add: take_Suc_conv_app_nth)
  ultimately show ?case using Cons.IH [of "buf[k := c]" "k + 1"] Cons.prems by (simp add: drop_update_cancel)
qed simp

lemma put_all_append: "put_all base fin (xs @ ys) s = Option.bind (put_all base fin xs s) (put_all base fin ys)"
proof (induction xs arbitrary: s)
  case (Cons x xs)
  then show ?case by (cases "put base fin x s") simp_all
qed simp

lemma put_all_outside:
  "w \<le> k \<Longrightarrow> unat base + k + length out \<le> 2 ^ 32 \<Longrightarrow>
    put_all base (base + of_nat w) out (buf, base + of_nat k) = Some (buf, base + of_nat (k + length out))"
proof (induction out arbitrary: k)
  case (Cons c cs)
  then have "put base (base + of_nat w) c (buf, base + of_nat k) = Some (buf, base + of_nat (k + 1))"
    by (simp add: put_place)
  then show ?case using Cons.IH [of "k + 1"] Cons.prems by simp
qed simp

lemma put_all_eq:
  assumes "w \<le> length buf" and "unat base + w < 2 ^ 32" and "unat base + length out \<le> 2 ^ 32"
  shows "put_all base (base + of_nat w) out (buf, base) =
    Some (take w out @ drop (min w (length out)) buf, base + of_nat (length out))"
proof (cases "length out \<le> w")
  case True
  then show ?thesis using put_all_inside [OF assms(1) _ assms(2), of 0 out] by (simp add: min_def)
next
  case False
  have "put_all base (base + of_nat w) out (buf, base) =
      Option.bind (put_all base (base + of_nat w) (take w out) (buf, base)) (put_all base (base + of_nat w) (drop w out))"
    by (metis append_take_drop_id put_all_append)
  also have "\<dots> = Some (take w out @ drop w buf, base + of_nat (length out))"
    using False put_all_inside [OF assms(1) _ assms(2), of 0 "take w out"] assms(3)
    by (simp add: put_all_outside min_def)
  finally show ?thesis using False by (simp add: min_def)
qed

lemma vsnprintf_end_eq: "unat base + unat sz < 2 ^ 32 \<Longrightarrow> vsnprintf_end base sz = (base + of_nat (unat sz), sz)"
  using place_unat [of base "unat sz"] by (simp add: vsnprintf_end_def word_less_nat_alt)

lemma strcpy_at_end:
  assumes "length out < length buf"
  shows "(out @ drop (length out) buf)[length out := 0] = out @ 0 # drop (length out + 1) buf"
proof -
  have "drop (length out) buf = buf ! length out # drop (length out + 1) buf"
    using assms Cons_nth_drop_Suc [of "length out" buf] by simp
  then show ?thesis by (simp add: list_update_append)
qed

lemma vsnprintf_into:
  assumes "format_loop fmt args = Some out" and "unat sz \<le> length buf" and "unat base + length buf < 2 ^ 32"
    and "unat base + length out < 2 ^ 32"
  shows "\<exists>b. rt_vsnprintf base buf sz fmt args = Some (b, i32 (int (length out))) \<and> length b = length buf \<and>
    drop (unat sz) b = drop (unat sz) buf \<and> (0 < sz \<longrightarrow> b = snprintf_into buf (unat sz) out)"
proof -
  define w where "w = unat sz"
  have b: "unat base + w < 2 ^ 32" "w \<le> length buf" "0 < sz \<longleftrightarrow> w \<noteq> 0"
    using assms(2,3) by (simp_all add: w_def word_less_nat_alt)
  note e = vsnprintf_end_eq [of base sz, folded w_def, OF b(1)]
  note p = put_all_eq [OF b(2,1), of out]
  have r: "sint (base + of_nat (length out) - base) = i32 (int (length out))" by (simp add: sint_of_nat)
  have l: "base + of_nat (length out) < base + of_nat w \<longleftrightarrow> length out < w" by (rule place_less [OF assms(4) b(1)])
  show ?thesis
  proof (cases "w = 0")
    case True
    then show ?thesis using assms(1,4) p e r b(3) unfolding w_def [symmetric]
      by (simp add: rt_vsnprintf_def)
  next
    case pos: False
    show ?thesis
    proof (cases "length out < w")
      case True
      have "store base (base + of_nat (length out)) 0 (out @ drop (length out) buf) =
          Some (out @ 0 # drop (length out + 1) buf)"
        using True b assms(4) strcpy_at_end [of out buf] by (simp add: store_place)
      then have "rt_vsnprintf base buf sz fmt args = Some (out @ 0 # drop (length out + 1) buf, i32 (int (length out)))"
        using assms(1,4) p e r l b(3) pos True by (simp add: rt_vsnprintf_def min_def)
      moreover obtain k where "w = Suc (k + length out)"
        using True less_iff_Suc_add [of "length out" w] add.commute [of "length out"] by auto
      ultimately show ?thesis using b(2) unfolding w_def [symmetric] by (auto simp: snprintf_into_def strcpy_into_def)
    next
      case f: False
      have "take w out = take (w - 1) out @ [out ! (w - 1)]"
        using f pos take_Suc_conv_app_nth [of "w - 1" out] by simp
      then have u: "(take w out @ drop w buf)[w - 1 := 0] = take (w - 1) out @ 0 # drop w buf"
        using f pos by (simp add: list_update_append)
      have "base + of_nat w - 1 = base + of_nat (w - 1)" using pos by (simp add: of_nat_diff)
      moreover have "store base (base + of_nat (w - 1)) 0 (take w out @ drop w buf) = Some (take (w - 1) out @ 0 # drop w buf)"
        using store_place [of "w - 1" base 0 "take w out @ drop w buf"] pos b u f by simp
      ultimately have "store base (base + of_nat w - 1) 0 (take w out @ drop w buf) = Some (take (w - 1) out @ 0 # drop w buf)"
        by (simp only:)
      then have "rt_vsnprintf base buf sz fmt args = Some (take (w - 1) out @ 0 # drop w buf, i32 (int (length out)))"
        using assms(1,4) p e r l b(3) pos f by (simp add: rt_vsnprintf_def min_def)
      then show ?thesis using f pos b(2) unfolding w_def [symmetric]
        by (auto simp: snprintf_into_def strcpy_into_def min_def)
    qed
  qed
qed

text \<open>An output that runs past the end of the address range: the place is 0 again, which lies before
  \<open>end\<close>, and the next character or the NUL is stored there.\<close>

lemma vsnprintf_outside:
  assumes "format_loop fmt args = Some out" and "unat sz \<le> length buf" and "unat base + length buf < 2 ^ 32"
    and "0 < base" and "0 < sz" and "2 ^ 32 \<le> unat base + length out"
  shows "rt_vsnprintf base buf sz fmt args = None"
proof -
  define w where "w = unat sz"
  have b: "unat base + w < 2 ^ 32" "w \<le> length buf" using assms(2,3) by (simp_all add: w_def)
  note e = vsnprintf_end_eq [of base sz, folded w_def, OF b(1)]
  define n where "n = 2 ^ 32 - unat base"
  have n: "unat base + n = 2 ^ 32" "n \<le> length out" using assms(6) unsigned_less [of base, where 'a = nat] by (simp_all add: n_def)
  have "unat (base + of_nat n) = (unat base + n) mod 2 ^ 32" by (simp add: unat_word_ariths unsigned_of_nat take_bit_eq_mod mod_simps)
  then have z: "base + of_nat n = 0" using n(1) by (simp add: unat_eq_zero)
  have "- base = of_nat n" using z by (rule minus_unique)
  moreover have "n < 2 ^ 32" using assms(4) by (simp add: n_def word_less_nat_alt)
  ultimately have "unat (- base) = n" by (simp add: unsigned_of_nat take_bit_nat_eq_self)
  then have st: "store base 0 c buf' = None" if "length buf' = length buf" for c buf'
    using that assms(3) n(1) by (simp add: store_def)
  have fin: "0 < base + of_nat w" using place_unat [OF b(1)] assms(4) by (simp add: word_less_nat_alt)
  let ?b = "take w (take n out) @ drop (min w n) buf"
  have "put_all base (base + of_nat w) (take n out) (buf, base) = Some (?b, 0)"
    using put_all_eq [OF b(2,1), of "take n out"] n z by (simp add: min_def)
  then have p: "put_all base (base + of_nat w) out (buf, base) = put_all base (base + of_nat w) (drop n out) (?b, 0)"
    using put_all_append [of base "base + of_nat w" "take n out" "drop n out" "(buf, base)"] by simp
  have l: "length ?b = length buf" using b(2) n(2) by (simp add: min_def)
  show ?thesis
  proof (cases "drop n out")
    case Nil
    then show ?thesis using assms(1,5) e p fin st [OF l] by (simp add: rt_vsnprintf_def)
  next
    case (Cons c cs)
    then have "put_all base (base + of_nat w) (drop n out) (?b, 0) = None" using fin st [OF l] by (simp add: put_def)
    then show ?thesis using assms(1) e p by (simp add: rt_vsnprintf_def)
  qed
qed

text \<open>
  Claim C35: for any format and arguments that can be printed at all, with widths and precisions
  as the 32-bit numbers they are, \<open>rt_vsnprintf\<close> with a sz that the array has writes inside the
  first \<open>size\<close> bytes only, provided that the array's address and the length of the whole output
  add up to less than \<open>2 ^ 32\<close>; what arrives is the output cut to \<open>size - 1\<close> characters with a NUL
  behind it, and the result is the length of the whole output as a signed 32-bit number. An
  output that is longer than that, of an array not at address 0, makes the place wrap: the code
  writes outside the array.
\<close>

theorem vsnprintf_bounded:
  assumes "format_loop fmt args = Some out" and "unat sz \<le> length buf" and "unat base + length buf < 2 ^ 32"
  shows "(unat base + length out < 2 ^ 32 \<longrightarrow>
      (\<exists>b. rt_vsnprintf base buf sz fmt args = Some (b, i32 (int (length out))) \<and> length b = length buf \<and>
        drop (unat sz) b = drop (unat sz) buf \<and> (0 < sz \<longrightarrow> b = snprintf_into buf (unat sz) out))) \<and>
    (2 ^ 32 \<le> unat base + length out \<longrightarrow> 0 < base \<longrightarrow> 0 < sz \<longrightarrow> rt_vsnprintf base buf sz fmt args = None)"
  using vsnprintf_into [OF assms] vsnprintf_outside [OF assms] by blast

theorem vsnprintf_bounded_witness:
  "(\<exists>b. rt_vsnprintf 0x20000000 (replicate 6 0) 4 (c_bytes ''A%c%%%s'') [Arg_int 66, Arg_str (c_bytes ''CD'')] = Some (b, 5) \<and>
    length b = 6 \<and> drop 4 b = [0, 0] \<and> b = snprintf_into (replicate 6 0) 4 (c_bytes ''AB%CD''))"
proof -
  have "format_loop (c_bytes ''A%c%%%s'') [Arg_int 66, Arg_str (c_bytes ''CD'')] = Some (c_bytes ''AB%CD'')"
    by code_simp
  moreover have "replicate 6 (0 :: u8) = [0, 0, 0, 0, 0, 0]" by (simp add: numeral_eq_Suc)
  ultimately show ?thesis
    using vsnprintf_bounded [of "c_bytes ''A%c%%%s''" "[Arg_int 66, Arg_str (c_bytes ''CD'')]" "c_bytes ''AB%CD''" 4 "[0, 0, 0, 0, 0, 0]" "0x20000000"]
    by (simp add: i32_eq)
qed

section \<open>Numbers read back\<close>

lemma number_digits_nth:
  assumes "unat n < divide_base base ^ k"
  shows "number_digits n base @ replicate (k - length (number_digits n base)) 0 =
      map (\<lambda>i. unat n div divide_base base ^ i mod divide_base base) [0..<k] \<and> length (number_digits n base) \<le> k"
  using assms
proof (induction k arbitrary: n)
  case 0
  then have "n = 0" by (simp add: unat_eq_zero)
  then show ?case by (simp add: number_digits.simps)
next
  case (Suc k)
  let ?B = "divide_base base"
  show ?case
  proof (cases "n = 0")
    case True
    then show ?thesis by (simp add: number_digits.simps map_replicate_const del: upt_Suc replicate_Suc)
  next
    case False
    define n' where "n' = snd (divide_step n base)"
    have u: "unat n' = unat n div ?B" by (simp add: n'_def)
    have d: "number_digits n base = (unat n mod ?B) # number_digits n' base"
      using False by (simp add: number_digits.simps [of n] divide_step_def n'_def)
    have "unat n' < ?B ^ k" using Suc.prems u by (simp add: less_mult_imp_div_less mult.commute)
    from Suc.IH [OF this] show ?thesis
      by (simp add: d u map_upt_Suc div_mult2_eq del: upt_Suc)
  qed
qed


lemma digit_value: "d < 10 \<Longrightarrow> is_digit (print_digit t d) \<and> uint (print_digit t d) - 48 = int d"
  by (simp add: print_digit_def is_digit_def word_le_nat_alt uint_nat unat_word_ariths unsigned_of_nat take_bit_nat_eq_self)

lemma digits_value_number:
  "digits_value acc (rev (map (print_digit t) (number_digits n 10)) @ rest) =
    digits_value (acc * 10 ^ length (number_digits n 10) + int (unat n)) rest"
proof (induction "unat n" arbitrary: n acc rest rule: less_induct)
  case less
  show ?case
  proof (cases "n = 0")
    case True
    then show ?thesis by (simp add: number_digits.simps)
  next
    case False
    define n' where "n' = snd (divide_step n 10)"
    have u: "unat n' = unat n div 10" by (simp add: n'_def divide_base_def)
    have d: "number_digits n 10 = (unat n mod 10) # number_digits n' 10"
      using False by (simp add: number_digits.simps [of n] divide_step_def divide_base_def n'_def)
    have "unat n = unat n' * 10 + unat n mod 10" unfolding u by (rule div_mult_mod_eq [symmetric])
    then have "int (unat n) = int (unat n') * 10 + int (unat n mod 10)" by (metis of_nat_add of_nat_mult of_nat_numeral)
    then have v: "uint n = uint n' * 10 + int (unat n mod 10)" by simp
    show ?thesis
      using less [of n'] divide_less [OF False, of 10] digit_value [of "unat n mod 10" t]
      by (simp add: d v n'_def [symmetric] algebra_simps)
  qed
qed


text \<open>The parts of a number: blanks, the sign, zeros, digits, blanks.\<close>

lemma type_without_zeropad:
  "(t AND NOT ZEROPAD) AND LEFT = t AND LEFT" "(t AND NOT ZEROPAD) AND SIGN = t AND SIGN"
  "(t AND NOT ZEROPAD) AND PLUS = t AND PLUS" "(t AND NOT ZEROPAD) AND SPACE = t AND SPACE"
  "(t AND NOT ZEROPAD) AND LARGE = t AND LARGE" "(t AND NOT ZEROPAD) AND ZEROPAD = 0"
  by (simp_all add: print_flags and.assoc)

lemma pad_flags: "t AND (ZEROPAD OR LEFT) = 0 \<longleftrightarrow> t AND ZEROPAD = 0 \<and> t AND LEFT = 0"
  by (simp add: bit.conj_disj_distrib or_eq_0_iff)

lemma print_digit_large: "t AND LARGE = t' AND LARGE \<Longrightarrow> print_digit t = print_digit t'"
  by (simp add: print_digit_def fun_eq_iff)

lemma print_number_shape:
  assumes "precision \<noteq> 0" and "s < 2 ^ 31" and "s - max (int (length (print_digits t (print_value t n) base))) precision \<ge> 3 - 2 ^ 31"
  shows "\<exists>a b c. print_number n base s precision t =
    replicate a 32 @ print_sign t n @ replicate b 48 @ print_digits t (print_value t n) base @ replicate c 32"
proof -
  define z where "z = (if t AND LEFT \<noteq> 0 then t AND NOT ZEROPAD else t)"
  have l: "z AND LEFT = t AND LEFT" "z AND SIGN = t AND SIGN" "z AND PLUS = t AND PLUS" "z AND SPACE = t AND SPACE"
    "print_digit z = print_digit t"
    by (auto simp: z_def type_without_zeropad intro: print_digit_large)
  have z: "t AND LEFT \<noteq> 0 \<Longrightarrow> z AND ZEROPAD = 0" by (simp add: z_def type_without_zeropad)
  have m: "print_sign z n = print_sign t n" "print_value z n = print_value t n"
    "print_digits z (print_value t n) base = print_digits t (print_value t n) base"
    by (simp_all add: print_sign_def print_value_def print_digits_def l)
  note d = print_number_def [of n base s precision t, folded z_def, unfolded Let_def m, folded z_def, unfolded m]
  define rest where "rest = s - max (int (length (print_digits t (print_value t n) base))) precision"
  define zeros where "zeros = nat (max (int (length (print_digits t (print_value t n) base))) precision
    - int (length (print_digits t (print_value t n) base)))"
  let ?sign = "print_sign t n" and ?digits = "print_digits t (print_value t n) base"
  let ?size = "if ?sign \<noteq> [] then rest - 1 else rest"
  have r: "3 - 2 ^ 31 \<le> rest" "rest < 2 ^ 31" using assms(2,3) by (simp_all add: rest_def)
  then have w: "i32 rest = rest" by (intro i32_eq) simp_all
  note d' = d [folded rest_def zeros_def, unfolded pad_flags w]
  show ?thesis
  proof (cases "z AND LEFT = 0")
    case L: True
    show ?thesis
    proof (cases "z AND ZEROPAD = 0")
      case True
      then have "print_number n base s precision t =
          replicate (nat (if ?sign \<noteq> [] \<and> rest > 0 then rest - 1 else rest)) 32 @ ?sign @ replicate zeros 48 @ ?digits @ replicate 0 32"
        unfolding d' using L assms(1) r by (simp add: after_loop_def i32_eq min_def)
      then show ?thesis by blast
    next
      case False
      then have "print_number n base s precision t =
          replicate 0 32 @ ?sign @ replicate (nat ?size + zeros) 48 @ ?digits @ replicate 0 32"
        unfolding d' using L assms(1) r by (simp add: after_loop_def i32_eq min_def replicate_add)
      then show ?thesis by blast
    qed
  next
    case False
    then have "print_number n base s precision t =
        replicate 0 32 @ ?sign @ replicate zeros 48 @ ?digits @ replicate (nat ?size) 32"
      unfolding d' using assms(1) r z by (simp add: l i32_eq)
    then show ?thesis by blast
  qed
qed

lemma digits_value_zeros: "digits_value 0 (replicate b 48 @ r) = digits_value 0 r"
  by (induction b) (simp_all add: is_digit_def)

lemma digits_value_blanks: "digits_value acc (replicate c 32) = acc"
  by (cases c) (simp_all add: is_digit_def)

lemma digits_value_print: "digits_value 0 (replicate b 48 @ print_digits t n 10 @ replicate c 32) = uint n"
proof (cases "n = 0")
  case True
  then show ?thesis
    by (simp add: digits_value_zeros print_digits_def digits_value_blanks is_digit_def)
next
  case False
  then show ?thesis
    by (simp add: digits_value_zeros print_digits_def digits_value_number digits_value_blanks)
qed

lemma dropWhile_blanks: "dropWhile is_blank (replicate a 32 @ r) = dropWhile is_blank r"
  by (induction a) (simp_all add: is_blank_def)

lemma uint_abs: "sint n < 0 \<Longrightarrow> uint (- n) = - sint n" for n :: u32
proof -
  assume neg: "sint n < 0"
  have "- (2 ^ 31) \<le> sint n" using sint_ge [of n] by simp
  moreover have "- n = word_of_int (- sint n)" by simp
  ultimately show ?thesis using neg by (simp only: uint_word_of_int_eq) (simp add: take_bit_int_eq_self)
qed

lemma uint_nonneg: "0 \<le> sint n \<Longrightarrow> uint n = sint n" for n :: u32
proof -
  assume pos: "0 \<le> sint n"
  have "sint n < 2 ^ 31" using sint_lt [of n] by simp
  with pos have "uint (word_of_int (sint n) :: u32) = sint n"
    by (simp only: uint_word_of_int_eq) (simp add: take_bit_int_eq_self)
  then show ?thesis by simp
qed

lemma number_digits_less: "d \<in> set (number_digits n 10) \<Longrightarrow> d < 10"
proof (induction "unat n" arbitrary: n rule: less_induct)
  case less
  then show ?case
    using divide_less [of n 10] by (subst (asm) number_digits.simps) (auto simp: divide_step_def divide_base_def split: if_splits)
qed

lemma print_digits_digit: "c \<in> set (print_digits t n 10) \<Longrightarrow> is_digit c"
  using digit_value number_digits_less by (auto simp: print_digits_def is_digit_def split: if_splits)

lemma print_digits_Cons: "\<exists>c cs. replicate b 48 @ print_digits t n 10 @ r = c # cs \<and> is_digit c"
proof (cases "b = 0")
  case True
  have "print_digits t n 10 \<noteq> []" by (simp add: print_digits_def number_digits.simps [of n] split: prod.splits)
  then obtain c cs where c: "print_digits t n 10 = c # cs" by (cases "print_digits t n 10") auto
  then show ?thesis using True print_digits_digit [of c t n] by simp
next
  case False
  then show ?thesis by (cases b) (simp_all add: is_digit_def)
qed

lemma length_number_digits: "length (number_digits n 10) \<le> 10"
proof -
  have "unat n < 2 ^ 32" using unsigned_less [of n, where 'a = nat] by simp
  then show ?thesis using number_digits_nth [of n 10 10] by (simp add: divide_base_def)
qed

lemma length_print_digits: "1 \<le> length (print_digits t n 10) \<and> length (print_digits t n 10) \<le> 10"
proof
  show "1 \<le> length (print_digits t n 10)"
    using print_digits_Cons [of 0 t n "[]"] by (cases "print_digits t n 10") simp_all
  show "length (print_digits t n 10) \<le> 10" using length_number_digits [of n] by (simp add: print_digits_def)
qed

text \<open>What is printed in base 10 reads back, whatever the flags and the width, as long as the counter
  of the padding does not wrap.\<close>

lemma print_number_atoi:
  assumes "precision \<noteq> 0" and "s < 2 ^ 31" and "s - max 10 precision \<ge> 3 - 2 ^ 31"
  shows "atoi (print_number n 10 s precision t) = (if t AND SIGN = 0 then uint n else sint n)"
proof -
  have "s - max (int (length (print_digits t (print_value t n) 10))) precision \<ge> 3 - 2 ^ 31"
    using assms(3) length_print_digits [of t "print_value t n"] by linarith
  then obtain a b c where p: "print_number n 10 s precision t =
      replicate a 32 @ print_sign t n @ replicate b 48 @ print_digits t (print_value t n) 10 @ replicate c 32"
    using print_number_shape [OF assms(1,2)] by blast
  define r where "r = replicate b 48 @ print_digits t (print_value t n) 10 @ replicate c 32"
  have v: "digits_value 0 r = uint (print_value t n)" unfolding r_def by (rule digits_value_print)
  obtain x xs where r: "r = x # xs" "is_digit x" using print_digits_Cons unfolding r_def by blast
  then have x: "\<not> is_blank x" "x \<noteq> 45" "x \<noteq> 43" "is_blank 32" "\<not> is_blank 43" "\<not> is_blank 45"
    by (auto simp: is_digit_def is_blank_def word_le_nat_alt)
  have d: "dropWhile is_blank (print_number n 10 s precision t) = dropWhile is_blank (print_sign t n @ r)"
    unfolding p r_def [symmetric] by (rule dropWhile_blanks)
  consider "t AND SIGN \<noteq> 0" "sint n < 0" | "t AND SIGN = 0 \<or> 0 \<le> sint n" "print_sign t n = []"
    | "t AND SIGN \<noteq> 0" "0 \<le> sint n" "print_sign t n = [43]" | "t AND SIGN \<noteq> 0" "0 \<le> sint n" "print_sign t n = [32]"
    by (cases "t AND SIGN = 0"; cases "sint n < 0"; cases "t AND PLUS = 0"; cases "t AND SPACE = 0")
      (simp_all add: print_sign_def)
  then show ?thesis
  proof cases
    case 1
    then show ?thesis using v x uint_abs [of n] by (simp add: atoi_def d print_sign_def print_value_def)
  next
    case 2
    then have "print_value t n = n" by (auto simp: print_value_def)
    then show ?thesis using 2 v x uint_nonneg [of n] by (auto simp: atoi_def d r(1))
  next
    case 3
    then show ?thesis using v x uint_nonneg [of n] by (simp add: atoi_def d print_value_def)
  next
    case 4
    then show ?thesis using v x uint_nonneg [of n] by (simp add: atoi_def d print_value_def r(1))
  qed
qed


text \<open>Without a width and a precision the output is the sign and the digits.\<close>

lemma print_number_plain:
  "print_number n 10 (-1) (-1) t = print_sign t n @ print_digits t (print_value t n) 10"
  "print_number n 10 (-1) 0 t = print_sign t n"
proof -
  define z where "z = (if t AND LEFT \<noteq> 0 then t AND NOT ZEROPAD else t)"
  have l: "print_sign z n = print_sign t n" "print_value z n = print_value t n"
    "print_digits z (print_value t n) 10 = print_digits t (print_value t n) 10"
    by (auto simp: z_def print_sign_def print_value_def print_digits_def type_without_zeropad
        intro!: arg_cong [where f = rev] map_cong fun_cong [OF print_digit_large])
  note d = print_number_def [of n 10 "-1" _ t, folded z_def, unfolded Let_def l]
  show "print_number n 10 (-1) (-1) t = print_sign t n @ print_digits t (print_value t n) 10"
    using length_print_digits [of t "print_value t n"] unfolding d by (simp add: after_loop_def i32_eq)
  show "print_number n 10 (-1) 0 t = print_sign t n"
    using length_print_digits [of t "print_value t n"] unfolding d by (simp add: after_loop_def i32_eq)
qed

lemma c_string_print: "c_string (print_sign t n @ print_digits t v 10)"
  using print_digits_digit [of 0 t v] by (auto simp: c_string_def print_sign_def is_digit_def)

lemma length_print: "length (print_sign t n @ print_digits t v 10) \<le> 11"
  using length_print_digits [of t v] by (simp add: print_sign_def)

lemma buf_string_snprintf: "c_string out \<Longrightarrow> length out < sz \<Longrightarrow> buf_string (snprintf_into buf sz out) = out"
  by (simp add: snprintf_into_def buf_string_strcpy)

lemma format_decimal:
  "format_loop (c_bytes ''%d'') [Arg_int n] = Some (print_number n 10 (-1) (-1) SIGN)"
  "format_loop (c_bytes ''%u'') [Arg_int n] = Some (print_number n 10 (-1) (-1) 0)"
  by (simp_all add: c_bytes_def format_loop_spec format_spec_def format_width_def format_precision_def
      format_qualifier_def convert_def format_int_def is_digit_def Let_def print_flags of_char_of)


lemma snprintf_buffer:
  assumes "format_loop fmt args = Some out" and "c_string out" and "length out < unat sz"
    and "unat sz \<le> length buf" and "unat base + length buf < 2 ^ 32"
  shows "\<exists>b k. rt_snprintf base buf sz fmt args = Some (b, k) \<and> buf_string b = out"
proof -
  from assms(3-5) have "0 < sz" "unat base + length out < 2 ^ 32" by (simp_all add: word_less_nat_alt)
  then show ?thesis
    using vsnprintf_into [OF assms(1,4,5)] buf_string_snprintf [OF assms(2,3)] by (auto simp: rt_snprintf_def)
qed

text \<open>
  \<open>rt_snprintf\<close> with \<open>"%d"\<close> or \<open>"%u"\<close> into an array of twelve bytes or more prints every
  32-bit value, the most negative one included, so that \<open>atoi\<close> reads back the value, signed
  and unsigned; twelve bytes are never too few.
\<close>

theorem decimal_roundtrip:
  assumes "12 \<le> sz" and "unat sz \<le> length buf" and "unat base + length buf < 2 ^ 32"
  shows "(\<exists>b k. rt_snprintf base buf sz (c_bytes ''%d'') [Arg_int n] = Some (b, k) \<and> atoi (buf_string b) = sint n) \<and>
    (\<exists>b k. rt_snprintf base buf sz (c_bytes ''%u'') [Arg_int n] = Some (b, k) \<and> atoi (buf_string b) = uint n)"
proof -
  have "12 \<le> unat sz" using assms(1) by (simp add: word_le_nat_alt)
  then have c: "c_string (print_number n 10 (-1) (-1) t)" "length (print_number n 10 (-1) (-1) t) < unat sz" for t
    using length_print [of t n "print_value t n"] c_string_print [of t n "print_value t n"]
    by (simp_all add: print_number_plain)
  show ?thesis
    using snprintf_buffer [OF format_decimal(1) c assms(2,3)] snprintf_buffer [OF format_decimal(2) c assms(2,3)]
      print_number_atoi [of "-1" "-1" n SIGN] print_number_atoi [of "-1" "-1" n 0]
    by (auto simp: print_flags)
qed

theorem decimal_roundtrip_witness:
  "(\<exists>b k. rt_snprintf 1000 (replicate 12 0) 12 (c_bytes ''%d'') [Arg_int 0x80000000] = Some (b, k) \<and>
      atoi (buf_string b) = -2147483648) \<and>
    (\<exists>b k. rt_snprintf 1000 (replicate 12 0) 12 (c_bytes ''%u'') [Arg_int 0x80000000] = Some (b, k) \<and>
      atoi (buf_string b) = 2147483648)"
  using decimal_roundtrip [of 12 "replicate 12 0" 1000 "0x80000000"] by simp

section \<open>Strings\<close>

lemma convert_string_plain:
  assumes "length s < 2 ^ 31" and "p \<le> 0"
  shows "convert_string 0 (-1) p s = s"
proof -
  have "i32 (int (length s)) = int (length s)" using assms(1) by (intro i32_eq) simp_all
  then show ?thesis using assms(2) by (simp add: convert_string_def string_loop_def i32_eq)
qed

lemma format_strings:
  assumes "length a < 2 ^ 31" and "length b < 2 ^ 31"
  shows "format_loop (c_bytes ''%s%s'') [Arg_str a, Arg_str b] = Some (a @ b)"
    and "format_loop (c_bytes ''%s %s'') [Arg_str a, Arg_str b] = Some (a @ c_bytes '' '' @ b)"
  using assms by (simp_all add: c_bytes_def format_loop_spec format_spec_def format_width_def format_precision_def
      format_qualifier_def convert_def convert_string_plain is_digit_def Let_def)

section \<open>Where the conversions differ from the C library\<close>

text \<open>\<open>%o\<close> prints hexadecimal digits, because \<open>divide\<close> knows only two bases; \<open>%.0d\<close> prints nothing
  for any number; \<open>%.0s\<close> prints the whole string.\<close>

lemma octal_is_hexadecimal: "format_loop (c_bytes ''%o'') [Arg_int n] = format_loop (c_bytes ''%x'') [Arg_int n]"
  by (simp add: c_bytes_def format_loop_spec format_spec_def format_width_def format_precision_def
      format_qualifier_def convert_def format_int_def is_digit_def Let_def print_number_def print_digits_def
      number_digits_octal)

lemma precision_zero:
  "format_loop (c_bytes ''%.0d'') [Arg_int n] = Some (print_sign SIGN n)"
  "length s < 2 ^ 31 \<Longrightarrow> format_loop (c_bytes ''%.0s'') [Arg_str s] = Some s"
  by (simp_all add: c_bytes_def format_loop_spec format_spec_def format_width_def format_precision_def
      format_qualifier_def convert_def convert_string_plain format_int_def is_digit_def Let_def print_flags
      print_number_plain i32_def)

text \<open>A width of more than 31 bits wraps: \<open>%4294967295d\<close> has the width \<open>-1\<close>, and is \<open>%d\<close>. The
  width \<open>-2147483648\<close> given with \<open>*\<close> is still negative when it is negated, and the counter that is
  left of it wraps: more than two billion blanks follow the number. Three characters in fields of
  the largest width are an output longer than the address range, for which the code writes
  outside any array.\<close>

lemma width_wraps:
  "format_loop (c_bytes ''%4294967295d'') [Arg_int n] = format_loop (c_bytes ''%d'') [Arg_int n]"
  by (simp add: c_bytes_def format_loop_spec format_spec_def format_width_def format_precision_def
      format_qualifier_def convert_def is_digit_def Let_def i32_def)

lemma negated_width_stays:
  "format_width 0 (c_bytes ''*'') [Arg_int 0x80000000] = Some (- 2147483648, LEFT, [], [])"
  "print_number 7 10 (- 2147483648) (- 1) LEFT = 55 # replicate 2147483647 32"
proof -
  show "format_width 0 (c_bytes ''*'') [Arg_int 0x80000000] = Some (- 2147483648, LEFT, [], [])"
    by (simp add: c_bytes_def format_width_def is_digit_def i32_def)
  have "print_digits t 7 10 = [55]" for t
    by (simp add: print_digits_def number_digits.simps divide_step_def divide_base_def print_digit_def)
  then show "print_number 7 10 (- 2147483648) (- 1) LEFT = 55 # replicate 2147483647 32"
    by (simp add: print_number_def Let_def print_flags print_sign_def print_value_def i32_def)
qed

lemma wide_fields_leave:
  assumes "unat sz \<le> length buf" and "unat base + length buf < 2 ^ 32" and "0 < base" and "0 < sz"
  shows "rt_vsnprintf base buf sz (c_bytes ''%*c%*c%*c'') [Arg_int 0x7fffffff, Arg_int a, Arg_int 0x7fffffff, Arg_int b, Arg_int 0x7fffffff, Arg_int c] = None"
proof -
  have l: "convert_char 0 2147483647 x = replicate 2147483646 32 @ [x]" for x
    by (simp add: convert_char_def char_loop_def i32_eq)
  define big where "big = replicate 2147483646 (32 :: u8)"
  have b: "length big = 2147483646" by (simp add: big_def)
  have "format_loop (c_bytes ''%*c%*c%*c'') [Arg_int 0x7fffffff, Arg_int a, Arg_int 0x7fffffff, Arg_int b, Arg_int 0x7fffffff, Arg_int c] =
      Some (big @ ucast a # big @ ucast b # big @ [ucast c])"
    by (simp add: c_bytes_def format_loop_spec format_spec_def format_width_def format_precision_def
      format_qualifier_def convert_def is_digit_def Let_def l flip: big_def)
  from vsnprintf_outside [OF this assms] show ?thesis using b by simp
qed

end
