(* ===== verification/App_Main.thy ===== *)
theory App_Main
  imports Config Gpio
begin

text \<open>
  The start of the application (\<open>applications/main.c\<close>): the blinking LED, the reset of the modem,
  the texts of the version and of the serial number; and the mounting of the file systems
  (\<open>applications/mnt.c\<close>) over the calls of the flash abstraction layer and of the device file
  system, which are arguments.
\<close>

section \<open>The LED\<close>

definition LED0_PIN :: nat where "LED0_PIN = GET_PIN PORT_C 4"

record blink =
  blink_flag :: bool
  blink_cnt :: u8
  blink_time :: u8
  led_pins :: levels

definition set_blink_time :: "u8 \<Rightarrow> blink \<Rightarrow> blink" where
  "set_blink_time t s = s\<lparr>blink_time := t\<rparr>"

definition led_blink_timeout :: "blink \<Rightarrow> blink" where
  "led_blink_timeout s =
     (let cnt = blink_cnt s; s1 = s\<lparr>blink_cnt := cnt + 1\<rparr> in
      if cnt \<ge> blink_time s
      then let s2 = s1\<lparr>blink_cnt := 0\<rparr> in
        if blink_flag s2 then s2\<lparr>blink_flag := False, led_pins := set_level (led_pins s2) LED0_PIN True\<rparr>
        else s2\<lparr>blink_flag := True, led_pins := set_level (led_pins s2) LED0_PIN False\<rparr>
      else s1)"

text \<open>\<open>led_blink_init\<close> starts a timer of ten ticks, periodic, if one can be made.\<close>

definition led_blink_init :: "bool \<Rightarrow> (nat \<times> bool) option" where
  "led_blink_init created = (if created then Some (10, True) else None)"

section \<open>Modem reset and texts\<close>

text \<open>The writes of \<open>rt_bc28_reset\<close> in order, with the delay in milliseconds before each; the
  function has no return value.\<close>

definition rt_bc28_reset :: "levels \<Rightarrow> levels \<times> (nat \<times> nat \<times> bool) list" where
  "rt_bc28_reset l =
     (set_level (set_level (set_level l 8 False) 29 False) 29 True,
      [(0, 8, False), (0, 29, False), (100, 29, True)])"

definition MAJOR_VERSION :: "u8 list" where "MAJOR_VERSION = c_bytes ''1.2.7''"

definition main_version :: "u8 list" where "main_version = MAJOR_VERSION"

definition main_compile :: "u8 list \<Rightarrow> u8 list \<Rightarrow> u8 list" where
  "main_compile date time = snprintf_into (replicate 30 0) 30 (date @ c_bytes '' '' @ time)"

text \<open>\<open>main\<close>: the timer of the LED, then the log with the serial number made from the unique
  number of the processor. \<open>FIRE_MACHINE\<close> is the build option.\<close>

definition main_id :: "('f, 'p) config_env \<Rightarrow> u8 list" where
  "main_id env = snprintf_into (replicate 10 0) 10 (hex8 (crc32_cal env (hal_read_uniqueid (sys_mem env))))"

definition main_task :: "bool \<Rightarrow> ('f, 'p) config_env \<Rightarrow> bool \<Rightarrow> u8 list \<Rightarrow> u8 list \<Rightarrow>
    (nat \<times> bool) option \<times> u8 list list \<times> int" where
  "main_task FIRE_MACHINE env created date time =
     (led_blink_init created,
      [c_bytes ''====================================''] @
      [c_bytes ''The pkefire version:'' @ [9] @ MAJOR_VERSION] @
      [c_bytes ''last compile : '' @ date @ c_bytes ''--'' @ time] @
      (if FIRE_MACHINE then [c_bytes ''Need to connect fire machine''] else []) @
      [c_bytes ''product serial numner : '' @ buf_string (main_id env)] @
      [c_bytes ''===================================='', c_bytes ''start successful''],
      RT_EOK)"

section \<open>Mounting\<close>

text \<open>The calls that mounting makes. A device is its name.\<close>

datatype mnt_call =
    Mtd_nor_create string
  | Blk_create string
  | Dfs_mount "string option" string string
  | Statfs string
  | Dfs_mkfs string string

text \<open>Both branches of \<open>fal_mount\<close> do the same with their own device and type. The result is
  \<open>None\<close> when the name of a device that was not created is read; the calls before are lost with
  the fault.\<close>

definition fal_mount_on :: "(string option \<Rightarrow> string \<Rightarrow> string \<Rightarrow> int) \<Rightarrow> mnt_call \<Rightarrow> string option \<Rightarrow>
    string \<Rightarrow> string \<Rightarrow> mnt_call list option" where
  "fal_mount_on dfs_mount create flash_dev director ty =
     (if director = [] \<or> hd director \<noteq> CHR ''/'' then Some [create]
      else case flash_dev of None \<Rightarrow> None
        | Some name \<Rightarrow>
            if dfs_mount (Some name) director ty = 0
            then Some [create, Dfs_mount (Some name) director ty, Statfs director]
            else Some [create, Dfs_mount (Some name) director ty, Dfs_mkfs ty name])"

definition fal_mount :: "(mnt_call \<Rightarrow> string option) \<Rightarrow> (string option \<Rightarrow> string \<Rightarrow> string \<Rightarrow> int) \<Rightarrow>
    string \<Rightarrow> string \<Rightarrow> string \<Rightarrow> mnt_call list option" where
  "fal_mount create dfs_mount part director ty =
     (if ty = ''lfs''
      then fal_mount_on dfs_mount (Mtd_nor_create part) (create (Mtd_nor_create part)) director ''lfs''
      else if ty = ''elm''
      then fal_mount_on dfs_mount (Blk_create part) (create (Blk_create part)) director ''elm''
      else Some [])"

definition mnt_init :: "(mnt_call \<Rightarrow> string option) \<Rightarrow> (string option \<Rightarrow> string \<Rightarrow> string \<Rightarrow> int) \<Rightarrow>
    (mnt_call list \<times> int) option" where
  "mnt_init create dfs_mount =
     map_option (\<lambda>cs. (Dfs_mount None ''/'' ''rom'' # cs, 0))
       (fal_mount create dfs_mount ''filesystem'' ''/flash'' ''lfs'')"

section \<open>Properties\<close>

lemma led_blink_timeout_simps [simp]:
  "blink_time (led_blink_timeout s) = blink_time s"
  "blink_cnt (led_blink_timeout s) = (if blink_cnt s \<ge> blink_time s then 0 else blink_cnt s + 1)"
  "blink_flag (led_blink_timeout s) = (blink_flag s \<noteq> (blink_cnt s \<ge> blink_time s))"
  "led_pins (led_blink_timeout s) = (if blink_cnt s \<ge> blink_time s
     then set_level (led_pins s) LED0_PIN (blink_flag s) else led_pins s)"
  by (simp_all add: led_blink_timeout_def Let_def)

lemma Suc_div_mod_period:
  "Suc n mod Suc b = (if n mod Suc b = b then 0 else Suc (n mod Suc b))"
  "Suc n div Suc b = (if n mod Suc b = b then Suc (n div Suc b) else n div Suc b)"
  by (auto simp: mod_Suc div_Suc)

lemma led_blink_run:
  assumes "blink_cnt s = 0"
  shows "let s' = (led_blink_timeout ^^ n) s; p = Suc (unat (blink_time s)) in
    blink_time s' = blink_time s \<and> unat (blink_cnt s') = n mod p \<and>
    blink_flag s' = (blink_flag s \<noteq> odd (n div p)) \<and>
    led_pins s' = (if n < p then led_pins s else set_level (led_pins s) LED0_PIN (\<not> blink_flag s'))"
proof (induction n)
  case 0
  then show ?case using assms by simp
next
  case (Suc n)
  let ?s = "(led_blink_timeout ^^ n) s" and ?b = "unat (blink_time s)"
  have ih: "blink_time ?s = blink_time s" "unat (blink_cnt ?s) = n mod Suc ?b"
    "blink_flag ?s = (blink_flag s \<noteq> odd (n div Suc ?b))"
    "led_pins ?s = (if n < Suc ?b then led_pins s else set_level (led_pins s) LED0_PIN (\<not> blink_flag ?s))"
    using Suc.IH by (simp_all add: Let_def)
  have le: "n mod Suc ?b \<le> ?b" using mod_less_divisor [of "Suc ?b" n] by linarith
  have ge: "blink_cnt ?s \<ge> blink_time ?s \<longleftrightarrow> n mod Suc ?b = ?b"
    unfolding word_le_nat_alt ih(1,2) using le by linarith
  have inc: "unat (blink_cnt ?s + 1) = Suc (n mod Suc ?b)" if "n mod Suc ?b \<noteq> ?b"
  proof -
    have "unat (blink_cnt ?s) < 255"
    proof -
      have "unat (blink_time s) < 256" using unsigned_less [of "blink_time s", where 'a = nat] by simp
      with that le show ?thesis unfolding ih(2) by linarith
    qed
    then show ?thesis using ih(2) by (simp add: unat_word_ariths)
  qed
  have small: "n < Suc ?b \<longleftrightarrow> Suc n < Suc ?b" if "n mod Suc ?b \<noteq> ?b"
  proof -
    have "n \<noteq> ?b" using that by auto
    then show ?thesis by linarith
  qed
  have big: "\<not> Suc n < Suc ?b" if "n mod Suc ?b = ?b" using that le
    by (metis Suc_less_eq mod_less_eq_dividend not_less)
  show ?case
  proof (cases "n mod Suc ?b = ?b")
    case True
    then show ?thesis using ge big ih by (auto simp: Let_def Suc_div_mod_period set_level_def)
  next
    case False
    then show ?thesis using ge inc small ih by (auto simp: Let_def Suc_div_mod_period)
  qed
qed

text \<open>With the counter at zero, the timer function changes the LED on every call number
  \<open>blink_time + 1\<close>, twice that and so on, and on no other call, for every blink time of a byte, 255
  included, where the counter would wrap. After \<open>n\<close> calls the flag has changed \<open>n div (blink_time + 1)\<close>
  times and the LED pin shows it, low for a set flag.\<close>

theorem led_blink_period:
  assumes "blink_cnt s = 0"
  shows "let s' = (led_blink_timeout ^^ n) s; p = Suc (unat (blink_time s)) in
    blink_flag s' = (blink_flag s \<noteq> odd (n div p)) \<and> unat (blink_cnt s') = n mod p \<and>
    (p \<le> n \<longrightarrow> led_pins s' LED0_PIN = (\<not> blink_flag s')) \<and>
    (\<forall>q. q \<noteq> LED0_PIN \<longrightarrow> led_pins s' q = led_pins s q)"
  using led_blink_run [OF assms, of n] by (auto simp: Let_def)

theorem led_blink_period_witness:
  "let s = \<lparr>blink_flag = False, blink_cnt = 0, blink_time = 255, led_pins = (\<lambda>_. False)\<rparr> in
   blink_flag ((led_blink_timeout ^^ 256) s) \<and> \<not> blink_flag ((led_blink_timeout ^^ 255) s)"
  using led_blink_period [of "\<lparr>blink_flag = False, blink_cnt = 0, blink_time = 255, led_pins = (\<lambda>_. False)\<rparr>" 256]
    led_blink_period [of "\<lparr>blink_flag = False, blink_cnt = 0, blink_time = 255, led_pins = (\<lambda>_. False)\<rparr>" 255]
  by (simp add: Let_def)

text \<open>What mounting leaves behind, on every outcome of the calls: without the flash device
  it faults; with it, the flash file system is mounted exactly when the first attempt succeeds,
  and a failed attempt formats the device and does not try again, so that a fresh flash is
  usable only after the next start. The return value is 0 in both cases.\<close>

lemma mnt_init_outcomes:
  "mnt_init create dfs_mount =
    (case create (Mtd_nor_create ''filesystem'') of None \<Rightarrow> None
     | Some dev \<Rightarrow> Some ([Dfs_mount None ''/'' ''rom'', Mtd_nor_create ''filesystem'',
         Dfs_mount (Some dev) ''/flash'' ''lfs''] @
         (if dfs_mount (Some dev) ''/flash'' ''lfs'' = 0 then [Statfs ''/flash''] else [Dfs_mkfs ''lfs'' dev]), 0))"
  by (simp add: mnt_init_def fal_mount_def fal_mount_on_def split: option.split)

end
