(* ===== verification/Rt_Ffs.thy ===== *)
theory Rt_Ffs
  imports Fw_Prelude
begin

text \<open>
  The search for the lowest set bit in \<open>kservice.c\<close> (\<open>__rt_ffs\<close> with its table of the 256
  bytes), which the scheduler uses to find the highest ready priority. The theory shows that
  the search by bytes finds the lowest set bit of every nonzero word.
\<close>

section \<open>The lowest set bit\<close>

definition lowest_bit_bitmap :: "nat list" where
  "lowest_bit_bitmap =
    [0, 0, 1, 0, 2, 0, 1, 0, 3, 0, 1, 0, 2, 0, 1, 0,
     4, 0, 1, 0, 2, 0, 1, 0, 3, 0, 1, 0, 2, 0, 1, 0,
     5, 0, 1, 0, 2, 0, 1, 0, 3, 0, 1, 0, 2, 0, 1, 0,
     4, 0, 1, 0, 2, 0, 1, 0, 3, 0, 1, 0, 2, 0, 1, 0,
     6, 0, 1, 0, 2, 0, 1, 0, 3, 0, 1, 0, 2, 0, 1, 0,
     4, 0, 1, 0, 2, 0, 1, 0, 3, 0, 1, 0, 2, 0, 1, 0,
     5, 0, 1, 0, 2, 0, 1, 0, 3, 0, 1, 0, 2, 0, 1, 0,
     4, 0, 1, 0, 2, 0, 1, 0, 3, 0, 1, 0, 2, 0, 1, 0,
     7, 0, 1, 0, 2, 0, 1, 0, 3, 0, 1, 0, 2, 0, 1, 0,
     4, 0, 1, 0, 2, 0, 1, 0, 3, 0, 1, 0, 2, 0, 1, 0,
     5, 0, 1, 0, 2, 0, 1, 0, 3, 0, 1, 0, 2, 0, 1, 0,
     4, 0, 1, 0, 2, 0, 1, 0, 3, 0, 1, 0, 2, 0, 1, 0,
     6, 0, 1, 0, 2, 0, 1, 0, 3, 0, 1, 0, 2, 0, 1, 0,
     4, 0, 1, 0, 2, 0, 1, 0, 3, 0, 1, 0, 2, 0, 1, 0,
     5, 0, 1, 0, 2, 0, 1, 0, 3, 0, 1, 0, 2, 0, 1, 0,
     4, 0, 1, 0, 2, 0, 1, 0, 3, 0, 1, 0, 2, 0, 1, 0]"

definition rt_ffs :: "u32 \<Rightarrow> nat" where
  "rt_ffs v =
     (if v = 0 then 0
      else if v AND 0xff \<noteq> 0 then lowest_bit_bitmap ! unat (v AND 0xff) + 1
      else if v AND 0xff00 \<noteq> 0 then lowest_bit_bitmap ! unat (drop_bit 8 (v AND 0xff00)) + 9
      else if v AND 0xff0000 \<noteq> 0 then lowest_bit_bitmap ! unat (drop_bit 16 (v AND 0xff0000)) + 17
      else lowest_bit_bitmap ! unat (drop_bit 24 (v AND 0xff000000)) + 25)"

text \<open>Every entry but the first is the place of the lowest set bit of its index.\<close>

fun entries_ok :: "nat \<Rightarrow> nat list \<Rightarrow> bool" where
  "entries_ok b [] = True"
| "entries_ok b (v # vs) = (b mod (2 * 2 ^ v) = 2 ^ v \<and> entries_ok (b + 1) vs)"

lemma entries_okD: "entries_ok b vs \<Longrightarrow> i < length vs \<Longrightarrow> (b + i) mod (2 * 2 ^ (vs ! i)) = 2 ^ (vs ! i)"
proof (induction vs arbitrary: b i)
  case (Cons v vs)
  show ?case
  proof (cases i)
    case 0
    then show ?thesis using Cons.prems by simp
  next
    case (Suc k)
    then show ?thesis using Cons.IH [of "b + 1" k] Cons.prems by simp
  qed
qed simp

lemma bitmap_ok: "entries_ok 1 (tl lowest_bit_bitmap)" "length (tl lowest_bit_bitmap) = 255"
  unfolding lowest_bit_bitmap_def by simp_all

lemma bitmap_bit:
  assumes "0 < b" and "b < 256" and "j \<le> lowest_bit_bitmap ! b"
  shows "bit b j \<longleftrightarrow> j = lowest_bit_bitmap ! b"
proof -
  define v where "v = lowest_bit_bitmap ! b"
  have "tl lowest_bit_bitmap ! (b - 1) = v" using assms(1,2) bitmap_ok(2) by (simp add: nth_tl v_def)
  then have "b mod (2 * 2 ^ v) = 2 ^ v" using entries_okD [OF bitmap_ok(1), of "b - 1"] assms(1,2) bitmap_ok(2) by simp
  then have t: "take_bit (Suc v) b = 2 ^ v" by (simp add: take_bit_eq_mod)
  have "bit (take_bit (Suc v) b) j \<longleftrightarrow> bit b j" using assms(3) by (simp add: bit_take_bit_iff v_def)
  then show ?thesis using t by (simp add: bit_exp_iff v_def)
qed

lemma byte_mask: "bit (0xff :: u32) j \<longleftrightarrow> j < 8"
proof -
  have "(0xff :: u32) = mask 8" by (simp add: mask_eq_exp_minus_1)
  then show ?thesis by (simp only: bit_mask_iff) auto
qed

lemma chunk_bits:
  "bit (unat (drop_bit n (v AND push_bit n 0xff))) j \<longleftrightarrow> j < 8 \<and> bit v (n + j)" for v :: u32
proof -
  have "bit (unat (drop_bit n (v AND push_bit n 0xff))) j \<longleftrightarrow> bit (v AND push_bit n 0xff) (n + j)"
    by (simp only: bit_unsigned_iff bit_drop_bit_eq comp_apply) (auto dest: bit_imp_le_length simp: bit_and_iff)
  also have "\<dots> \<longleftrightarrow> bit v (n + j) \<and> n + j < 32 \<and> j < 8" using byte_mask [of j] by (auto simp: bit_and_iff bit_push_bit_iff)
  finally show ?thesis using bit_imp_le_length [of v "n + j"] by auto
qed

lemma nat_bits_less: "(\<And>j. bit b j \<Longrightarrow> j < n) \<Longrightarrow> b < 2 ^ n" for b :: nat
proof -
  assume "\<And>j. bit b j \<Longrightarrow> j < n"
  then have "take_bit n b = b" by (intro bit_eqI) (auto simp: bit_take_bit_iff)
  then show ?thesis by (metis take_bit_nat_less_exp)
qed

lemma chunk_less: "unat (drop_bit n (v AND push_bit n 0xff)) < 256" for v :: u32
  using nat_bits_less [of "unat (drop_bit n (v AND push_bit n 0xff))" 8] chunk_bits [of n v] by (simp del: drop_bit_and)

lemma chunk_zero: "v AND push_bit n 0xff = 0 \<Longrightarrow> j < 8 \<Longrightarrow> \<not> bit v (n + j)" for v :: u32
  using chunk_bits [of n v j] by auto

text \<open>One byte of the search: the bytes below are zero, this one is not.\<close>

lemma chunk_lowest:
  fixes v :: u32
  assumes "v AND push_bit n 0xff \<noteq> 0" and "\<And>j. j < n \<Longrightarrow> \<not> bit v j" and "k = lowest_bit_bitmap ! unat (drop_bit n (v AND push_bit n 0xff))"
    and "n \<le> 24"
  shows "bit v (n + k)" and "j < n + k \<Longrightarrow> \<not> bit v j"
proof -
  let ?b = "unat (drop_bit n (v AND push_bit n 0xff))"
  have "?b \<noteq> 0"
  proof
    assume z: "?b = 0"
    have "v AND push_bit n 0xff = 0"
    proof (rule bit_eqI)
      fix i :: nat
      show "bit (v AND push_bit n 0xff) i = bit 0 i"
        using chunk_bits [of n v "i - n"] z byte_mask [of "i - n"] by (auto simp: bit_and_iff bit_push_bit_iff)
    qed
    then show False using assms(1) by simp
  qed
  then have b: "0 < ?b" by simp
  note bb = bitmap_bit [OF b chunk_less, folded assms(3)]
  have k: "bit ?b k" using bb [of k] by simp
  then show "bit v (n + k)" using chunk_bits [of n v k] by simp
  have k8: "k < 8" using k chunk_bits [of n v k] by simp
  show "\<not> bit v j" if "j < n + k"
  proof (cases "j < n")
    case False
    then have "\<not> bit ?b (j - n)" using bb [of "j - n"] that by simp
    then show ?thesis using chunk_bits [of n v "j - n"] that False k8 by simp
  qed (use assms(2) in simp)
qed

lemma byte_masks:
  "push_bit 0 (0xff :: u32) = 0xff" "push_bit 8 (0xff :: u32) = 0xff00"
  "push_bit 16 (0xff :: u32) = 0xff0000" "push_bit 24 (0xff :: u32) = 0xff000000"
  by (simp_all add: push_bit_eq_mult)

lemma rt_ffs_zero: "rt_ffs 0 = 0"
  by (simp add: rt_ffs_def)

lemma rt_ffs_lowest:
  assumes "v \<noteq> 0"
  shows "\<exists>k. rt_ffs v = Suc k \<and> bit v k \<and> (\<forall>j < k. \<not> bit v j)"
proof -
  define m where "m n = v AND push_bit n 0xff" for n
  define c where "c n = lowest_bit_bitmap ! unat (drop_bit n (m n))" for n
  have low: "\<not> bit v j" if "m n = 0" "n \<le> j" "j < n + 8" for n j
    using chunk_zero [of v n "j - n"] that unfolding m_def by simp
  have found: "bit v (n + c n) \<and> (\<forall>j < n + c n. \<not> bit v j)" if "m n \<noteq> 0" "\<And>j. j < n \<Longrightarrow> \<not> bit v j" "n \<le> 24" for n
    using chunk_lowest [of v n "c n"] that unfolding m_def c_def by blast
  have ffs: "rt_ffs v = (if m 0 \<noteq> 0 then c 0 + 1 else if m 8 \<noteq> 0 then c 8 + 9 else if m 16 \<noteq> 0 then c 16 + 17 else c 24 + 25)"
    unfolding rt_ffs_def c_def m_def by (simp only: byte_masks assms if_False drop_bit_0 id_apply)
  show ?thesis
  proof (cases "m 0 = 0")
    case False
    then show ?thesis using found [of 0] ffs by simp
  next
    case z0: True
    have l0: "\<not> bit v j" if "j < 8" for j using low [OF z0, of j] that by simp
    show ?thesis
    proof (cases "m 8 = 0")
      case False
      then show ?thesis using found [OF False l0] z0 ffs by simp
    next
      case z8: True
      have l8: "\<not> bit v j" if "j < 16" for j using low [OF z8, of j] l0 [of j] that by (cases "j < 8") simp_all
      show ?thesis
      proof (cases "m 16 = 0")
        case False
        then show ?thesis using found [OF False l8] z0 z8 ffs by simp
      next
        case z16: True
        have l16: "\<not> bit v j" if "j < 24" for j using low [OF z16, of j] l8 [of j] that by (cases "j < 16") simp_all
        have "m 24 \<noteq> 0"
        proof
          assume z24: "m 24 = 0"
          have "\<not> bit v i" for i
            using low [OF z24, of i] l16 [of i] bit_imp_le_length [of v i] by (cases "i < 24") auto
          then have "v = 0" by (intro bit_eqI) simp
          then show False using assms by simp
        qed
        then show ?thesis using found [OF _ l16] z0 z8 z16 ffs by simp
      qed
    qed
  qed
qed

section \<open>The search of the processor\<close>

text \<open>The instructions \<open>RBIT\<close> and \<open>CLZ\<close>: the word with its bits in the reverse order, and the
  number of zeros above the highest bit set.\<close>

definition RBIT :: "u32 \<Rightarrow> u32" where
  "RBIT v = horner_sum of_bool 2 (map (bit v) (rev [0..<32]))"

definition CLZ :: "u32 \<Rightarrow> nat" where
  "CLZ v = length (takeWhile (\<lambda>i. \<not> bit v i) (rev [0..<32]))"

definition cpu_ffs :: "u32 \<Rightarrow> nat" where
  "cpu_ffs v = (if v = 0 then 0 else CLZ (RBIT v) + 1)"

lemma bit_RBIT: "bit (RBIT v) i \<longleftrightarrow> i < 32 \<and> bit v (31 - i)"
  by (auto simp: RBIT_def bit_horner_sum_bit_iff rev_nth)

lemma takeWhile_upt: "k < n \<Longrightarrow> P k \<Longrightarrow> (\<And>j. j < k \<Longrightarrow> \<not> P j) \<Longrightarrow> length (takeWhile (\<lambda>i. \<not> P i) [0..<n]) = k"
proof -
  assume *: "k < n" "P k" "\<And>j. j < k \<Longrightarrow> \<not> P j"
  have "[0..<n] = [0..<k] @ k # [Suc k..<n]"
    using *(1) upt_add_eq_append [of 0 k "n - k"] upt_conv_Cons [of k n] by simp
  then show ?thesis using *(2,3) by (simp add: takeWhile_append)
qed

lemma CLZ_RBIT:
  assumes "bit v k" and "\<And>j. j < k \<Longrightarrow> \<not> bit v j"
  shows "CLZ (RBIT v) = k"
proof -
  have "k < 32" using bit_imp_le_length [OF assms(1)] by simp
  have "rev [0..<32] = map (\<lambda>i. 31 - i) [0..<32]" by (rule nth_equalityI) (auto simp: rev_nth)
  then have "CLZ (RBIT v) = length (takeWhile (\<lambda>i. \<not> bit (RBIT v) (31 - i)) [0..<32])"
    by (simp only: CLZ_def takeWhile_map length_map comp_def)
  also have "\<dots> = k" by (rule takeWhile_upt) (use assms \<open>k < 32\<close> in \<open>auto simp: bit_RBIT\<close>)
  finally show ?thesis .
qed

text \<open>
  Claim C34: the portable search by bytes and the instruction sequence of the processor give the
  same number for every word, one more than the place of the lowest bit set, and 0 for 0.
\<close>

theorem ffs_equivalent:
  "rt_ffs v = cpu_ffs v \<and>
   (if v = 0 then rt_ffs v = 0 else bit v (rt_ffs v - 1) \<and> (\<forall>j\<in>{..<rt_ffs v - 1}. \<not> bit v j))"
proof (cases "v = 0")
  case False
  then obtain k where k: "rt_ffs v = Suc k" "bit v k" "\<forall>j < k. \<not> bit v j" using rt_ffs_lowest by blast
  then show ?thesis using False CLZ_RBIT [of v k] by (simp add: cpu_ffs_def)
qed (simp add: rt_ffs_zero cpu_ffs_def)

theorem ffs_equivalent_witness:
  "rt_ffs 0x500 = 9 \<and> cpu_ffs 0x500 = 9"
proof -
  have "rt_ffs 0x500 = 9" by (simp add: rt_ffs_def lowest_bit_bitmap_def)
  then show ?thesis using ffs_equivalent [of "0x500"] by simp
qed

end
