(* ===== verification/Rt_Sched.thy ===== *)
theory Rt_Sched
  imports Rt_Ffs
begin

text \<open>
  The scheduler of the kernel (\<open>rt-thread/src/scheduler.c\<close> without multiprocessing, 32
  priorities) and the time slice of \<open>clock.c\<close>. A thread is a number; \<open>ready_table\<close> holds the
  ready lists by priority and \<open>ready_group\<close> their bitmap; a thread is unlinked by removing it
  from the list that holds it. The switch itself is the change of \<open>current\<close>. \<open>None\<close> stands for
  an access outside the tables, the use of a list head as a thread, or the insertion of a
  thread that is still linked. Checking the stack of the next thread and hooks are left out.
  The theory shows that the bitmap is the set of nonempty lists, that the scheduler never
  fails in a well-formed state, that the highest priority runs, and that equal priorities
  take turns.
\<close>

section \<open>State\<close>

definition RT_THREAD_PRIORITY_MAX :: nat where "RT_THREAD_PRIORITY_MAX = 32"
definition RT_THREAD_INIT :: u8 where "RT_THREAD_INIT = 0x00"
definition RT_THREAD_READY :: u8 where "RT_THREAD_READY = 0x01"
definition RT_THREAD_SUSPEND :: u8 where "RT_THREAD_SUSPEND = 0x02"
definition RT_THREAD_RUNNING :: u8 where "RT_THREAD_RUNNING = 0x03"
definition RT_THREAD_CLOSE :: u8 where "RT_THREAD_CLOSE = 0x04"
definition RT_THREAD_STAT_MASK :: u8 where "RT_THREAD_STAT_MASK = 0x07"
definition RT_THREAD_STAT_YIELD :: u8 where "RT_THREAD_STAT_YIELD = 0x08"

lemmas stat_codes = RT_THREAD_INIT_def RT_THREAD_READY_def RT_THREAD_SUSPEND_def RT_THREAD_RUNNING_def
  RT_THREAD_CLOSE_def

record sthread =
  st_stat :: u8
  st_priority :: u8
  st_init_priority :: u8
  st_mask :: u32
  st_error :: int
  st_init_tick :: u32
  st_remaining_tick :: u32

record sched =
  thr :: "nat \<Rightarrow> sthread"
  ready_table :: "nat \<Rightarrow> nat list"
  ready_group :: u32
  current :: "nat option"
  cur_priority :: u8
  lock_nest :: u16
  defunct :: "nat list"

definition upd_thread :: "nat \<Rightarrow> (sthread \<Rightarrow> sthread) \<Rightarrow> sched \<Rightarrow> sched" where
  "upd_thread t f s = s\<lparr>thr := (thr s)(t := f (thr s t))\<rparr>"

definition stat_of :: "sched \<Rightarrow> nat \<Rightarrow> u8" where
  "stat_of s t = st_stat (thr s t) AND RT_THREAD_STAT_MASK"

definition set_stat :: "nat \<Rightarrow> u8 \<Rightarrow> sched \<Rightarrow> sched" where
  "set_stat t v = upd_thread t (\<lambda>x. x\<lparr>st_stat := v OR (st_stat x AND NOT RT_THREAD_STAT_MASK)\<rparr>)"

definition prio :: "sched \<Rightarrow> nat \<Rightarrow> nat" where
  "prio s t = unat (st_priority (thr s t))"

definition yielding :: "sched \<Rightarrow> nat \<Rightarrow> bool" where
  "yielding s t \<longleftrightarrow> st_stat (thr s t) AND RT_THREAD_STAT_YIELD \<noteq> 0"

section \<open>Operations\<close>

definition rt_system_scheduler_init :: "sched \<Rightarrow> sched" where
  "rt_system_scheduler_init s =
     s\<lparr>lock_nest := 0, ready_table := (\<lambda>p. if p < RT_THREAD_PRIORITY_MAX then [] else ready_table s p),
       ready_group := 0, defunct := []\<rparr>"

text \<open>\<open>rt_list_remove\<close> on the node of a thread.\<close>

definition unlink :: "nat \<Rightarrow> sched \<Rightarrow> sched" where
  "unlink t s = s\<lparr>ready_table := (\<lambda>p. remove1 t (ready_table s p)), defunct := remove1 t (defunct s)\<rparr>"

definition linked :: "sched \<Rightarrow> nat \<Rightarrow> bool" where
  "linked s t \<longleftrightarrow> t \<in> set (defunct s) \<or> (\<exists>p\<in>{..<RT_THREAD_PRIORITY_MAX}. t \<in> set (ready_table s p))"

definition get_highest_priority_thread :: "sched \<Rightarrow> (nat \<times> nat) option" where
  "get_highest_priority_thread s =
     (if ready_group s = 0 then None
      else let highest = rt_ffs (ready_group s) - 1 in
        case ready_table s highest of [] \<Rightarrow> None | t # _ \<Rightarrow> Some (t, highest))"

definition rt_schedule_insert_thread :: "nat \<Rightarrow> sched \<Rightarrow> sched option" where
  "rt_schedule_insert_thread t s =
     (if current s = Some t then Some (set_stat t RT_THREAD_RUNNING s)
      else if RT_THREAD_PRIORITY_MAX \<le> prio s t \<or> linked s t then None
      else let s1 = set_stat t RT_THREAD_READY s; p = prio s t in
        Some (s1\<lparr>ready_table := (ready_table s1)(p := ready_table s1 p @ [t]),
                 ready_group := ready_group s1 OR st_mask (thr s1 t)\<rparr>))"

definition rt_schedule_remove_thread :: "nat \<Rightarrow> sched \<Rightarrow> sched option" where
  "rt_schedule_remove_thread t s =
     (let s1 = unlink t s; p = prio s t in
      if RT_THREAD_PRIORITY_MAX \<le> p then None
      else if ready_table s1 p = [] then Some (s1\<lparr>ready_group := ready_group s1 AND NOT (st_mask (thr s1 t))\<rparr>)
      else Some s1)"

definition rt_system_scheduler_start :: "sched \<Rightarrow> sched option" where
  "rt_system_scheduler_start s =
     (case get_highest_priority_thread s of None \<Rightarrow> None
      | Some (t, _) \<Rightarrow>
        (case rt_schedule_remove_thread t (s\<lparr>current := Some t\<rparr>) of None \<Rightarrow> None
         | Some s1 \<Rightarrow> Some (upd_thread t (\<lambda>x. x\<lparr>st_stat := RT_THREAD_RUNNING\<rparr>) s1)))"

text \<open>The choice of \<open>rt_schedule\<close>: the thread to run, and whether the current one goes back to
  its ready list. The current thread stays when it is running and of a higher priority, or of
  the same priority without having used up its slice.\<close>

definition schedule_choice :: "sched \<Rightarrow> nat \<Rightarrow> nat \<Rightarrow> nat \<Rightarrow> nat \<times> bool" where
  "schedule_choice s c t highest =
     (if stat_of s c = RT_THREAD_RUNNING
      then if prio s c < highest then (c, False)
        else if prio s c = highest \<and> \<not> yielding s c then (c, False)
        else (t, True)
      else (t, False))"

definition clear_yield :: "nat \<Rightarrow> sched \<Rightarrow> sched" where
  "clear_yield c = upd_thread c (\<lambda>x. x\<lparr>st_stat := st_stat x AND NOT RT_THREAD_STAT_YIELD\<rparr>)"

definition rt_schedule :: "sched \<Rightarrow> sched option" where
  "rt_schedule s =
     (if lock_nest s \<noteq> 0 \<or> ready_group s = 0 then Some s
      else case (get_highest_priority_thread s, current s) of
        (Some (t, highest), Some c) \<Rightarrow>
          (let (to, need_insert) = schedule_choice s c t highest;
               s1 = (if need_insert then clear_yield c s else s) in
           if to \<noteq> c then
             (case (if need_insert
                    then rt_schedule_insert_thread c (s1\<lparr>cur_priority := of_nat highest, current := Some to\<rparr>)
                    else Some (s1\<lparr>cur_priority := of_nat highest, current := Some to\<rparr>)) of
                None \<Rightarrow> None
              | Some s2 \<Rightarrow> map_option (set_stat to RT_THREAD_RUNNING) (rt_schedule_remove_thread to s2))
           else map_option (set_stat c RT_THREAD_RUNNING) (rt_schedule_remove_thread c s1))
      | _ \<Rightarrow> None)"

definition rt_enter_critical :: "sched \<Rightarrow> sched" where
  "rt_enter_critical s = s\<lparr>lock_nest := lock_nest s + 1\<rparr>"

definition rt_exit_critical :: "sched \<Rightarrow> sched option" where
  "rt_exit_critical s =
     (let s1 = s\<lparr>lock_nest := lock_nest s - 1\<rparr> in
      if sint (lock_nest s1) \<le> 0
      then let s2 = s1\<lparr>lock_nest := 0\<rparr> in
        if current s2 \<noteq> None then rt_schedule s2 else Some s2
      else Some s1)"

definition rt_critical_level :: "sched \<Rightarrow> u16" where
  "rt_critical_level s = lock_nest s"

definition rt_thread_yield :: "sched \<Rightarrow> sched option" where
  "rt_thread_yield s = rt_schedule s"

text \<open>The part of \<open>rt_tick_increase\<close> that counts the time slice down.\<close>

definition tick_slice :: "sched \<Rightarrow> sched option" where
  "tick_slice s =
     (case current s of None \<Rightarrow> None
      | Some c \<Rightarrow>
        (let s1 = upd_thread c (\<lambda>x. x\<lparr>st_remaining_tick := st_remaining_tick x - 1\<rparr>) s in
         if st_remaining_tick (thr s1 c) = 0
         then rt_thread_yield (upd_thread c (\<lambda>x. x\<lparr>st_remaining_tick := st_init_tick x,
                st_stat := st_stat x OR RT_THREAD_STAT_YIELD\<rparr>) s1)
         else Some s1))"

section \<open>Invariant\<close>

definition wf_thread :: "sched \<Rightarrow> nat \<Rightarrow> bool" where
  "wf_thread s t \<longleftrightarrow> prio s t < RT_THREAD_PRIORITY_MAX \<and> st_mask (thr s t) = push_bit (prio s t) 1"

definition ready_set :: "sched \<Rightarrow> nat set" where
  "ready_set s = (\<Union>p\<in>{..<RT_THREAD_PRIORITY_MAX}. set (ready_table s p))"

text \<open>The lists and their bitmap; every linked thread is in the list of its priority.\<close>

definition lists_wf :: "sched \<Rightarrow> bool" where
  "lists_wf s \<longleftrightarrow>
     (\<forall>p < RT_THREAD_PRIORITY_MAX. (bit (ready_group s) p \<longleftrightarrow> ready_table s p \<noteq> []) \<and> distinct (ready_table s p) \<and>
        (\<forall>t \<in> set (ready_table s p). prio s t = p \<and> wf_thread s t))"

text \<open>The lists hold the ready threads, the running thread is the current one, and every
  started thread has the mask of its priority.\<close>

definition sched_inv :: "sched \<Rightarrow> bool" where
  "sched_inv s \<longleftrightarrow> lists_wf s \<and>
     (\<forall>t. t \<in> ready_set s \<longleftrightarrow> stat_of s t = RT_THREAD_READY) \<and>
     (\<forall>t. stat_of s t = RT_THREAD_RUNNING \<longrightarrow> current s = Some t) \<and>
     (\<forall>c. current s = Some c \<longrightarrow> stat_of s c \<noteq> RT_THREAD_READY) \<and>
     (\<forall>t. stat_of s t \<in> {RT_THREAD_READY, RT_THREAD_SUSPEND, RT_THREAD_RUNNING} \<longrightarrow> wf_thread s t) \<and>
     distinct (defunct s) \<and> (\<forall>t \<in> set (defunct s). stat_of s t = RT_THREAD_CLOSE)"

lemma lists_wfD:
  assumes "lists_wf s" and "p < RT_THREAD_PRIORITY_MAX"
  shows "bit (ready_group s) p \<longleftrightarrow> ready_table s p \<noteq> []" and "distinct (ready_table s p)"
    and "t \<in> set (ready_table s p) \<Longrightarrow> prio s t = p" and "t \<in> set (ready_table s p) \<Longrightarrow> wf_thread s t"
  using assms by (auto simp: lists_wf_def)

lemma in_ready_set: "lists_wf s \<Longrightarrow> t \<in> ready_set s \<longleftrightarrow> prio s t < RT_THREAD_PRIORITY_MAX \<and> t \<in> set (ready_table s (prio s t))"
  by (auto simp: ready_set_def lists_wf_def)

section \<open>Fields after the updates\<close>

lemma mask_codes [simp]:
  "(v OR (x AND NOT RT_THREAD_STAT_MASK)) AND RT_THREAD_STAT_MASK = v AND RT_THREAD_STAT_MASK"
  "(x OR RT_THREAD_STAT_YIELD) AND RT_THREAD_STAT_MASK = x AND RT_THREAD_STAT_MASK"
  "(x AND NOT RT_THREAD_STAT_YIELD) AND RT_THREAD_STAT_MASK = x AND RT_THREAD_STAT_MASK"
proof -
  show "(v OR (x AND NOT RT_THREAD_STAT_MASK)) AND RT_THREAD_STAT_MASK = v AND RT_THREAD_STAT_MASK"
    by (auto simp: bit_eq_iff bit_simps)
  have *: "RT_THREAD_STAT_YIELD AND RT_THREAD_STAT_MASK = 0" by (simp add: RT_THREAD_STAT_YIELD_def RT_THREAD_STAT_MASK_def)
  then have b: "\<not> (bit RT_THREAD_STAT_YIELD n \<and> bit RT_THREAD_STAT_MASK n)" for n
    by (metis bit_and_iff bit_0_eq bot_apply bot_bool_def)
  show "(x OR RT_THREAD_STAT_YIELD) AND RT_THREAD_STAT_MASK = x AND RT_THREAD_STAT_MASK"
    "(x AND NOT RT_THREAD_STAT_YIELD) AND RT_THREAD_STAT_MASK = x AND RT_THREAD_STAT_MASK"
    using b by (auto simp: bit_eq_iff bit_simps)
qed

lemma code_mask [simp]:
  "RT_THREAD_INIT AND RT_THREAD_STAT_MASK = RT_THREAD_INIT" "RT_THREAD_READY AND RT_THREAD_STAT_MASK = RT_THREAD_READY"
  "RT_THREAD_SUSPEND AND RT_THREAD_STAT_MASK = RT_THREAD_SUSPEND" "RT_THREAD_RUNNING AND RT_THREAD_STAT_MASK = RT_THREAD_RUNNING"
  "RT_THREAD_CLOSE AND RT_THREAD_STAT_MASK = RT_THREAD_CLOSE"
  by (simp_all add: stat_codes RT_THREAD_STAT_MASK_def)

lemma code_neq [simp]:
  "RT_THREAD_INIT \<noteq> RT_THREAD_READY" "RT_THREAD_INIT \<noteq> RT_THREAD_SUSPEND" "RT_THREAD_INIT \<noteq> RT_THREAD_RUNNING"
  "RT_THREAD_READY \<noteq> RT_THREAD_SUSPEND" "RT_THREAD_READY \<noteq> RT_THREAD_RUNNING" "RT_THREAD_READY \<noteq> RT_THREAD_CLOSE"
  "RT_THREAD_SUSPEND \<noteq> RT_THREAD_READY" "RT_THREAD_SUSPEND \<noteq> RT_THREAD_RUNNING" "RT_THREAD_SUSPEND \<noteq> RT_THREAD_CLOSE"
  "RT_THREAD_RUNNING \<noteq> RT_THREAD_READY" "RT_THREAD_RUNNING \<noteq> RT_THREAD_SUSPEND" "RT_THREAD_RUNNING \<noteq> RT_THREAD_CLOSE"
  "RT_THREAD_CLOSE \<noteq> RT_THREAD_READY" "RT_THREAD_CLOSE \<noteq> RT_THREAD_SUSPEND" "RT_THREAD_CLOSE \<noteq> RT_THREAD_RUNNING"
  "RT_THREAD_INIT \<noteq> RT_THREAD_CLOSE" "RT_THREAD_CLOSE \<noteq> RT_THREAD_INIT" "RT_THREAD_SUSPEND \<noteq> RT_THREAD_INIT"
  by (simp_all add: stat_codes)

lemma upd_thread_simps [simp]:
  "ready_table (upd_thread t f s) = ready_table s" "ready_group (upd_thread t f s) = ready_group s"
  "current (upd_thread t f s) = current s" "lock_nest (upd_thread t f s) = lock_nest s"
  "cur_priority (upd_thread t f s) = cur_priority s" "defunct (upd_thread t f s) = defunct s"
  "thr (upd_thread t f s) u = (if u = t then f (thr s t) else thr s u)"
  "ready_set (upd_thread t f s) = ready_set s" "linked (upd_thread t f s) = linked s"
  by (auto simp: upd_thread_def ready_set_def linked_def fun_eq_iff)

lemma set_stat_simps [simp]:
  "ready_table (set_stat t v s) = ready_table s" "ready_group (set_stat t v s) = ready_group s"
  "current (set_stat t v s) = current s" "lock_nest (set_stat t v s) = lock_nest s"
  "cur_priority (set_stat t v s) = cur_priority s" "defunct (set_stat t v s) = defunct s"
  "ready_set (set_stat t v s) = ready_set s" "linked (set_stat t v s) = linked s"
  "prio (set_stat t v s) u = prio s u" "wf_thread (set_stat t v s) u = wf_thread s u"
  "st_mask (thr (set_stat t v s) u) = st_mask (thr s u)"
  "st_remaining_tick (thr (set_stat t v s) u) = st_remaining_tick (thr s u)"
  "st_init_tick (thr (set_stat t v s) u) = st_init_tick (thr s u)"
  "stat_of (set_stat t v s) u = (if u = t then v AND RT_THREAD_STAT_MASK else stat_of s u)"
  by (simp_all add: set_stat_def prio_def stat_of_def wf_thread_def)

lemma clear_yield_simps [simp]:
  "ready_table (clear_yield t s) = ready_table s" "ready_group (clear_yield t s) = ready_group s"
  "current (clear_yield t s) = current s" "lock_nest (clear_yield t s) = lock_nest s"
  "defunct (clear_yield t s) = defunct s" "ready_set (clear_yield t s) = ready_set s"
  "linked (clear_yield t s) = linked s" "prio (clear_yield t s) u = prio s u"
  "wf_thread (clear_yield t s) u = wf_thread s u" "stat_of (clear_yield t s) u = stat_of s u"
  "st_mask (thr (clear_yield t s) u) = st_mask (thr s u)"
  "st_remaining_tick (thr (clear_yield t s) u) = st_remaining_tick (thr s u)"
  "st_init_tick (thr (clear_yield t s) u) = st_init_tick (thr s u)"
  by (simp_all add: clear_yield_def prio_def stat_of_def wf_thread_def)

lemma lists_wf_set_stat [simp]: "lists_wf (set_stat t v s) = lists_wf s"
  by (simp add: lists_wf_def)

lemma lists_wf_clear_yield [simp]: "lists_wf (clear_yield t s) = lists_wf s"
  by (simp add: lists_wf_def)

lemma sched_field_updates [simp]:
  "stat_of (s\<lparr>current := c\<rparr>) = stat_of s" "stat_of (s\<lparr>cur_priority := q\<rparr>) = stat_of s"
  "prio (s\<lparr>current := c\<rparr>) = prio s" "prio (s\<lparr>cur_priority := q\<rparr>) = prio s"
  "wf_thread (s\<lparr>current := c\<rparr>) = wf_thread s" "wf_thread (s\<lparr>cur_priority := q\<rparr>) = wf_thread s"
  "ready_set (s\<lparr>current := c\<rparr>) = ready_set s" "ready_set (s\<lparr>cur_priority := q\<rparr>) = ready_set s"
  "linked (s\<lparr>current := c\<rparr>) = linked s" "linked (s\<lparr>cur_priority := q\<rparr>) = linked s"
  "lists_wf (s\<lparr>current := c\<rparr>) = lists_wf s" "lists_wf (s\<lparr>cur_priority := q\<rparr>) = lists_wf s"
  by (auto simp: stat_of_def prio_def wf_thread_def ready_set_def linked_def lists_wf_def fun_eq_iff)

lemma linked_eq: "linked s t \<longleftrightarrow> t \<in> set (defunct s) \<or> t \<in> ready_set s"
  by (simp add: linked_def ready_set_def)

section \<open>The lists under the operations\<close>

lemma get_highest:
  assumes "lists_wf s" and "ready_group s \<noteq> 0"
  obtains t h rest where "get_highest_priority_thread s = Some (t, h)" and "h < RT_THREAD_PRIORITY_MAX"
    and "ready_table s h = t # rest" and "\<forall>u \<in> ready_set s. h \<le> prio s u"
proof -
  obtain h where h: "rt_ffs (ready_group s) = Suc h" "bit (ready_group s) h" "\<forall>j < h. \<not> bit (ready_group s) j"
    using rt_ffs_lowest [OF assms(2)] by blast
  have lt: "h < RT_THREAD_PRIORITY_MAX" using bit_imp_le_length [OF h(2)] by (simp add: RT_THREAD_PRIORITY_MAX_def)
  then obtain t rest where l: "ready_table s h = t # rest" using lists_wfD(1) [OF assms(1) lt] h(2) by (auto simp: neq_Nil_conv)
  have "\<forall>u \<in> ready_set s. h \<le> prio s u"
  proof
    fix u assume u: "u \<in> ready_set s"
    then have p: "prio s u < RT_THREAD_PRIORITY_MAX" "ready_table s (prio s u) \<noteq> []" using in_ready_set [OF assms(1)] by auto
    then show "h \<le> prio s u" using h(3) lists_wfD(1) [OF assms(1) p(1)] by (meson not_le)
  qed
  then show ?thesis using that [of t h rest] lt l h(1) assms(2) by (simp add: get_highest_priority_thread_def)
qed

text \<open>The state after an insertion and after a removal.\<close>

definition pushed :: "nat \<Rightarrow> sched \<Rightarrow> sched" where
  "pushed t s = (set_stat t RT_THREAD_READY s)
     \<lparr>ready_table := (ready_table s)(prio s t := ready_table s (prio s t) @ [t]),
      ready_group := ready_group s OR st_mask (thr s t)\<rparr>"

lemma insert_eq:
  "current s \<noteq> Some t \<Longrightarrow> wf_thread s t \<Longrightarrow> t \<notin> ready_set s \<Longrightarrow> t \<notin> set (defunct s) \<Longrightarrow>
     rt_schedule_insert_thread t s = Some (pushed t s)"
  by (simp add: rt_schedule_insert_thread_def pushed_def linked_eq wf_thread_def not_le Let_def)

lemma pushed_simps [simp]:
  "current (pushed t s) = current s" "lock_nest (pushed t s) = lock_nest s" "defunct (pushed t s) = defunct s"
  "cur_priority (pushed t s) = cur_priority s"
  "thr (pushed t s) u = thr (set_stat t RT_THREAD_READY s) u" "prio (pushed t s) u = prio s u"
  "stat_of (pushed t s) u = (if u = t then RT_THREAD_READY else stat_of s u)" "wf_thread (pushed t s) u = wf_thread s u"
  "ready_table (pushed t s) p = (if p = prio s t then ready_table s p @ [t] else ready_table s p)"
  "ready_group (pushed t s) = ready_group s OR st_mask (thr s t)"
proof -
  show "stat_of (pushed t s) u = (if u = t then RT_THREAD_READY else stat_of s u)"
    using set_stat_simps(14) [of t RT_THREAD_READY s u] by (simp add: pushed_def stat_of_def)
  show "prio (pushed t s) u = prio s u" "wf_thread (pushed t s) u = wf_thread s u"
    using set_stat_simps(9) [of t RT_THREAD_READY s u] set_stat_simps(10) [of t RT_THREAD_READY s u]
    by (simp_all add: pushed_def prio_def wf_thread_def)
qed (simp_all add: pushed_def)

lemma ready_set_pushed [simp]: "wf_thread s t \<Longrightarrow> ready_set (pushed t s) = insert t (ready_set s)"
  by (auto simp: ready_set_def wf_thread_def split: if_splits)

lemma bit_mask_prio: "wf_thread s t \<Longrightarrow> bit (st_mask (thr s t)) p \<longleftrightarrow> p = prio s t"
  unfolding wf_thread_def RT_THREAD_PRIORITY_MAX_def by (auto simp: push_bit_eq_mult bit_exp_iff)

lemma lists_wf_pushed:
  assumes "lists_wf s" and "wf_thread s t" and "t \<notin> ready_set s"
  shows "lists_wf (pushed t s)"
proof -
  have "t \<notin> set (ready_table s (prio s t))" using assms(2,3) by (auto simp: ready_set_def wf_thread_def)
  then show ?thesis using assms(1,2) bit_mask_prio [OF assms(2)] by (auto simp: lists_wf_def bit_or_iff split: if_splits)
qed

definition pulled :: "nat \<Rightarrow> sched \<Rightarrow> sched" where
  "pulled t s = (unlink t s)\<lparr>ready_group := ready_group s AND
     (if remove1 t (ready_table s (prio s t)) = [] then NOT (st_mask (thr s t)) else - 1)\<rparr>"

lemma unlink_simps [simp]:
  "thr (unlink t s) = thr s" "current (unlink t s) = current s" "lock_nest (unlink t s) = lock_nest s"
  "ready_group (unlink t s) = ready_group s" "defunct (unlink t s) = remove1 t (defunct s)"
  "cur_priority (unlink t s) = cur_priority s"
  "ready_table (unlink t s) p = remove1 t (ready_table s p)"
  by (simp_all add: unlink_def)

lemma remove_eq: "wf_thread s t \<Longrightarrow> rt_schedule_remove_thread t s = Some (pulled t s)"
  by (auto simp: rt_schedule_remove_thread_def pulled_def wf_thread_def Let_def not_le)

lemma pulled_simps [simp]:
  "thr (pulled t s) = thr s" "current (pulled t s) = current s" "lock_nest (pulled t s) = lock_nest s"
  "defunct (pulled t s) = remove1 t (defunct s)" "ready_table (pulled t s) p = remove1 t (ready_table s p)"
  "cur_priority (pulled t s) = cur_priority s"
  "prio (pulled t s) = prio s" "stat_of (pulled t s) = stat_of s" "wf_thread (pulled t s) = wf_thread s"
  by (auto simp: pulled_def prio_def stat_of_def wf_thread_def fun_eq_iff)

lemma ready_set_pulled: "lists_wf s \<Longrightarrow> ready_set (pulled t s) = ready_set s - {t}"
  by (auto simp: ready_set_def lists_wf_def)

lemma lists_wf_pulled:
  assumes "lists_wf s" and "wf_thread s t"
  shows "lists_wf (pulled t s)"
proof -
  have t: "t \<notin> set (ready_table s p)" if "p < RT_THREAD_PRIORITY_MAX" "p \<noteq> prio s t" for p
    using assms(1) that by (auto simp: lists_wf_def)
  have b: "bit (ready_group (pulled t s)) p \<longleftrightarrow> remove1 t (ready_table s p) \<noteq> []" if p: "p < RT_THREAD_PRIORITY_MAX" for p
  proof (cases "p = prio s t")
    case True
    then show ?thesis using lists_wfD(1) [OF assms(1) p] bit_mask_prio [OF assms(2), of p] p
      by (auto simp: pulled_def bit_and_iff bit_not_iff RT_THREAD_PRIORITY_MAX_def)
  next
    case False
    then show ?thesis using lists_wfD(1) [OF assms(1) p] bit_mask_prio [OF assms(2), of p] t [OF p False] p
      by (auto simp: pulled_def bit_and_iff bit_not_iff RT_THREAD_PRIORITY_MAX_def remove1_idem)
  qed
  then show ?thesis using assms(1) set_remove1_subset by (fastforce simp: lists_wf_def)
qed

section \<open>Scheduling\<close>

lemma sched_invD:
  assumes "sched_inv s"
  shows "lists_wf s" and "t \<in> ready_set s \<longleftrightarrow> stat_of s t = RT_THREAD_READY"
    and "stat_of s t = RT_THREAD_RUNNING \<Longrightarrow> current s = Some t" and "current s = Some t \<Longrightarrow> stat_of s t \<noteq> RT_THREAD_READY"
    and "stat_of s t \<in> {RT_THREAD_READY, RT_THREAD_SUSPEND, RT_THREAD_RUNNING} \<Longrightarrow> wf_thread s t"
    and "distinct (defunct s)" and "t \<in> set (defunct s) \<Longrightarrow> stat_of s t = RT_THREAD_CLOSE"
  using assms unfolding sched_inv_def by auto

text \<open>The current thread is better than the ready ones, or as good and not yet to give way.\<close>

definition keeps :: "sched \<Rightarrow> nat \<Rightarrow> nat \<Rightarrow> bool" where
  "keeps s c h \<longleftrightarrow> stat_of s c = RT_THREAD_RUNNING \<and> (prio s c < h \<or> prio s c = h \<and> \<not> yielding s c)"

definition preempted :: "sched \<Rightarrow> nat \<Rightarrow> nat \<Rightarrow> sched" where
  "preempted s c t = pushed c ((clear_yield c s)\<lparr>cur_priority := of_nat (prio s t), current := Some t\<rparr>)"

definition left_cpu :: "sched \<Rightarrow> nat \<Rightarrow> sched" where
  "left_cpu s t = s\<lparr>cur_priority := of_nat (prio s t), current := Some t\<rparr>"

definition switched :: "sched \<Rightarrow> nat \<Rightarrow> nat \<Rightarrow> sched" where
  "switched s c t = set_stat t RT_THREAD_RUNNING (pulled t
     (if stat_of s c = RT_THREAD_RUNNING then preempted s c t else left_cpu s t))"

lemma schedule_idle: "lock_nest s \<noteq> 0 \<or> ready_group s = 0 \<Longrightarrow> rt_schedule s = Some s"
  by (simp add: rt_schedule_def)

lemma rt_schedule_eq:
  assumes inv: "sched_inv s" and nest: "lock_nest s = 0" and cur: "current s = Some c"
    and h: "get_highest_priority_thread s = Some (t, h)" "h < RT_THREAD_PRIORITY_MAX" "ready_table s h = t # rest"
    and grp: "ready_group s \<noteq> 0"
  shows "rt_schedule s = Some (if keeps s c h then set_stat c RT_THREAD_RUNNING (pulled c s) else switched s c t)"
proof -
  have tin: "t \<in> set (ready_table s h)" using h(3) by simp
  have pt: "prio s t = h" "wf_thread s t" using lists_wfD(3,4) [OF sched_invD(1) [OF inv] h(2) tin] by auto
  have tr: "stat_of s t = RT_THREAD_READY" using sched_invD(2) [OF inv, of t] tin h(2) by (auto simp: ready_set_def)
  then have tc: "t \<noteq> c" using sched_invD(4) [OF inv cur] by auto
  show ?thesis
  proof (cases "stat_of s c = RT_THREAD_RUNNING")
    case True
    then have wc: "wf_thread s c" using sched_invD(5) [OF inv, of c] by simp
    have "c \<notin> ready_set s" "c \<notin> set (defunct s)" using True sched_invD(2,7) [OF inv, of c] by auto
    then have ins: "rt_schedule_insert_thread c ((clear_yield c s)\<lparr>cur_priority := of_nat (prio s t), current := Some t\<rparr>) =
        Some (preempted s c t)"
      unfolding preempted_def using tc wc by (intro insert_eq) simp_all
    have "rt_schedule_remove_thread t (preempted s c t) = Some (pulled t (preempted s c t))"
      by (rule remove_eq) (use pt(2) in \<open>simp add: preempted_def\<close>)
    then show ?thesis using True nest grp cur h(1) ins tc pt(1) remove_eq [OF wc]
      by (auto simp: rt_schedule_def schedule_choice_def keeps_def switched_def)
  next
    case False
    have "rt_schedule_remove_thread t (left_cpu s t) = Some (pulled t (left_cpu s t))"
      by (rule remove_eq) (use pt(2) in \<open>simp add: left_cpu_def\<close>)
    then show ?thesis using False nest grp cur h(1) tc pt(1)
      by (auto simp: rt_schedule_def schedule_choice_def keeps_def switched_def left_cpu_def)
  qed
qed

lemma preempted_simps [simp]:
  "current (preempted s c t) = Some t" "lock_nest (preempted s c t) = lock_nest s" "defunct (preempted s c t) = defunct s"
  "prio (preempted s c t) u = prio s u" "wf_thread (preempted s c t) u = wf_thread s u"
  "stat_of (preempted s c t) u = (if u = c then RT_THREAD_READY else stat_of s u)"
  "ready_table (preempted s c t) p = (if p = prio s c then ready_table s p @ [c] else ready_table s p)"
  by (simp_all add: preempted_def)

lemma left_cpu_simps [simp]:
  "current (left_cpu s t) = Some t" "lock_nest (left_cpu s t) = lock_nest s" "defunct (left_cpu s t) = defunct s"
  "prio (left_cpu s t) u = prio s u" "wf_thread (left_cpu s t) u = wf_thread s u" "stat_of (left_cpu s t) u = stat_of s u"
  "ready_table (left_cpu s t) p = ready_table s p" "ready_set (left_cpu s t) = ready_set s" "lists_wf (left_cpu s t) = lists_wf s"
  by (simp_all add: left_cpu_def)

lemma switched_simps [simp]:
  "current (switched s c t) = Some t" "lock_nest (switched s c t) = lock_nest s"
  "defunct (switched s c t) = remove1 t (defunct s)"
  "prio (switched s c t) u = prio s u" "wf_thread (switched s c t) u = wf_thread s u"
  "stat_of (switched s c t) u =
     (if u = t then RT_THREAD_RUNNING else if u = c \<and> stat_of s c = RT_THREAD_RUNNING then RT_THREAD_READY else stat_of s u)"
  "st_remaining_tick (thr (switched s c t) u) = st_remaining_tick (thr s u)"
  "st_init_tick (thr (switched s c t) u) = st_init_tick (thr s u)"
  by (simp_all add: switched_def preempted_def left_cpu_def)

lemma switched_table:
  "ready_table (switched s c t) p =
     remove1 t (if stat_of s c = RT_THREAD_RUNNING \<and> p = prio s c then ready_table s p @ [c] else ready_table s p)"
  by (simp add: switched_def)

text \<open>A switch to a ready thread keeps the lists in order.\<close>

lemma switched_lists:
  assumes inv: "sched_inv s" and t: "stat_of s t = RT_THREAD_READY"
  shows "lists_wf (switched s c t)"
    and "ready_set (switched s c t) = (if stat_of s c = RT_THREAD_RUNNING then insert c (ready_set s) else ready_set s) - {t}"
proof -
  have wt: "wf_thread s t" using sched_invD(5) [OF inv, of t] t by simp
  let ?s = "if stat_of s c = RT_THREAD_RUNNING then preempted s c t else left_cpu s t"
  have l: "lists_wf ?s \<and> ready_set ?s = (if stat_of s c = RT_THREAD_RUNNING then insert c (ready_set s) else ready_set s)"
  proof (cases "stat_of s c = RT_THREAD_RUNNING")
    case True
    have wc: "wf_thread s c" using sched_invD(5) [OF inv, of c] True by simp
    have cr: "c \<notin> ready_set s" using sched_invD(2) [OF inv, of c] True by simp
    have "lists_wf (preempted s c t)"
      unfolding preempted_def by (rule lists_wf_pushed) (use sched_invD(1) [OF inv] wc cr in simp_all)
    then show ?thesis using True wc by (simp add: preempted_def)
  qed (use sched_invD(1) [OF inv] in simp)
  have "lists_wf (pulled t ?s)" by (rule lists_wf_pulled) (use l wt in auto)
  then show "lists_wf (switched s c t)" by (simp add: switched_def)
  show "ready_set (switched s c t) = (if stat_of s c = RT_THREAD_RUNNING then insert c (ready_set s) else ready_set s) - {t}"
    using l ready_set_pulled [of ?s t] by (simp add: switched_def)
qed

lemma sched_invI:
  assumes "lists_wf s" and "\<And>t. t \<in> ready_set s \<longleftrightarrow> stat_of s t = RT_THREAD_READY"
    and "\<And>t. stat_of s t = RT_THREAD_RUNNING \<Longrightarrow> current s = Some t" and "\<And>t. current s = Some t \<Longrightarrow> stat_of s t \<noteq> RT_THREAD_READY"
    and "\<And>t. stat_of s t \<in> {RT_THREAD_READY, RT_THREAD_SUSPEND, RT_THREAD_RUNNING} \<Longrightarrow> wf_thread s t"
    and "distinct (defunct s)" and "\<And>t. t \<in> set (defunct s) \<Longrightarrow> stat_of s t = RT_THREAD_CLOSE"
  shows "sched_inv s"
  using assms unfolding sched_inv_def by blast

lemma switched_inv:
  assumes inv: "sched_inv s" and cur: "current s = Some c" and t: "stat_of s t = RT_THREAD_READY"
  shows "sched_inv (switched s c t)"
proof (rule sched_invI)
  note lists = switched_lists [OF inv t, of c]
  have tc: "t \<noteq> c" using sched_invD(4) [OF inv cur] t by auto
  have td: "t \<notin> set (defunct s)" using sched_invD(7) [OF inv, of t] t by auto
  show "lists_wf (switched s c t)" by (rule lists)
  show "u \<in> ready_set (switched s c t) \<longleftrightarrow> stat_of (switched s c t) u = RT_THREAD_READY" for u
    using sched_invD(2) [OF inv, of u] tc by (simp add: lists(2))
  show "current (switched s c t) = Some u" if "stat_of (switched s c t) u = RT_THREAD_RUNNING" for u
    using that sched_invD(3) [OF inv, of u] cur by (simp split: if_splits)
  show "stat_of (switched s c t) u \<noteq> RT_THREAD_READY" if "current (switched s c t) = Some u" for u
    using that by simp
  show "wf_thread (switched s c t) u"
    if "stat_of (switched s c t) u \<in> {RT_THREAD_READY, RT_THREAD_SUSPEND, RT_THREAD_RUNNING}" for u
    using that sched_invD(5) [OF inv, of u] t by (simp split: if_splits)
  show "distinct (defunct (switched s c t))" using sched_invD(6) [OF inv] by simp
  show "stat_of (switched s c t) u = RT_THREAD_CLOSE" if "u \<in> set (defunct (switched s c t))" for u
    using that td sched_invD(7) [OF inv, of u] by (auto simp: remove1_idem)
qed

lemma kept_inv:
  assumes inv: "sched_inv s" and c: "stat_of s c = RT_THREAD_RUNNING"
  shows "sched_inv (set_stat c RT_THREAD_RUNNING (pulled c s))"
proof (rule sched_invI)
  let ?s = "set_stat c RT_THREAD_RUNNING (pulled c s)"
  have w: "wf_thread s c" using sched_invD(5) [OF inv, of c] c by simp
  have n: "c \<notin> ready_set s" "c \<notin> set (defunct s)" using sched_invD(2,7) [OF inv, of c] c by auto
  show "lists_wf ?s" using lists_wf_pulled [OF sched_invD(1) [OF inv] w] by simp
  show "u \<in> ready_set ?s \<longleftrightarrow> stat_of ?s u = RT_THREAD_READY" for u
    using n c ready_set_pulled [OF sched_invD(1) [OF inv], of c] sched_invD(2) [OF inv, of u] by auto
  show "current ?s = Some u" if "stat_of ?s u = RT_THREAD_RUNNING" for u
    using that sched_invD(3) [OF inv, of u] sched_invD(3) [OF inv c] by (simp split: if_splits)
  show "stat_of ?s u \<noteq> RT_THREAD_READY" if "current ?s = Some u" for u
    using that sched_invD(4) [OF inv, of u] by simp
  show "wf_thread ?s u" if "stat_of ?s u \<in> {RT_THREAD_READY, RT_THREAD_SUSPEND, RT_THREAD_RUNNING}" for u
    using that sched_invD(5) [OF inv, of u] w by (simp split: if_splits)
  show "distinct (defunct ?s)" "u \<in> set (defunct ?s) \<Longrightarrow> stat_of ?s u = RT_THREAD_CLOSE" for u
    using n sched_invD(6,7) [OF inv] by (auto simp: remove1_idem)
qed

text \<open>One call of \<open>rt_schedule\<close> with the scheduler unlocked.\<close>

lemma schedule_cases:
  assumes inv: "sched_inv s" and nest: "lock_nest s = 0" and cur: "current s = Some c"
  obtains (none) "ready_set s = {}" "rt_schedule s = Some s"
    | (keep) "stat_of s c = RT_THREAD_RUNNING" "rt_schedule s = Some (set_stat c RT_THREAD_RUNNING (pulled c s))"
        "\<forall>u \<in> ready_set s. prio s c \<le> prio s u \<and> (prio s c = prio s u \<longrightarrow> \<not> yielding s c)"
    | (switch) t rest where "rt_schedule s = Some (switched s c t)" "ready_table s (prio s t) = t # rest"
        "stat_of s t = RT_THREAD_READY" "\<forall>u \<in> ready_set s. prio s t \<le> prio s u"
        "stat_of s c = RT_THREAD_RUNNING \<Longrightarrow> prio s t < prio s c \<or> prio s t = prio s c \<and> yielding s c"
proof (cases "ready_group s = 0")
  case True
  have "ready_set s = {}" using sched_invD(1) [OF inv] True by (auto simp: lists_wf_def ready_set_def)
  then show ?thesis using none schedule_idle [of s] True by simp
next
  case False
  obtain t h rest where h: "get_highest_priority_thread s = Some (t, h)" "h < RT_THREAD_PRIORITY_MAX"
    "ready_table s h = t # rest" "\<forall>u \<in> ready_set s. h \<le> prio s u"
    using get_highest [OF sched_invD(1) [OF inv] False] by blast
  have "t \<in> ready_set s" using h(2,3) by (force simp: ready_set_def)
  then have t: "prio s t = h" "stat_of s t = RT_THREAD_READY"
    using lists_wfD(3) [OF sched_invD(1) [OF inv] h(2), of t] sched_invD(2) [OF inv, of t] h(3) by auto
  note eq = rt_schedule_eq [OF inv nest cur h(1-3) False]
  show ?thesis
  proof (cases "keeps s c h")
    case True
    then show ?thesis using eq h(4) by (intro keep) (auto simp: keeps_def)
  next
    case False
    then show ?thesis using eq h t by (intro switch [of t rest]) (auto simp: keeps_def not_less)
  qed
qed

section \<open>Properties\<close>

text \<open>
  Claim C27: in every well-formed state with the scheduler unlocked, \<open>rt_schedule\<close> returns without
  touching anything outside its tables, keeps the state well-formed, and leaves a running
  thread that no ready thread precedes in priority; a thread that takes over was the first of
  its ready list, and nothing happens only when no thread is ready.
\<close>

theorem schedule_runs_highest:
  assumes "sched_inv s" and "lock_nest s = 0" and "current s = Some c"
  shows "\<exists>s' t. rt_schedule s = Some s' \<and> sched_inv s' \<and> current s' = Some t \<and>
    (stat_of s' t = RT_THREAD_RUNNING \<and> (\<forall>u. stat_of s' u = RT_THREAD_READY \<longrightarrow> prio s' t \<le> prio s' u) \<or>
     s' = s \<and> ready_group s = 0) \<and>
    (t \<noteq> c \<longrightarrow> hd (ready_table s (prio s t)) = t \<and> t \<notin> set (ready_table s' (prio s' t)))"
  using assms
proof (cases rule: schedule_cases)
  case none
  then have "ready_group s = 0"
    using sched_invD(1) [OF assms(1)] get_highest [of s] by (force simp: ready_set_def)
  then show ?thesis using none assms by simp
next
  case keep
  let ?s = "set_stat c RT_THREAD_RUNNING (pulled c s)"
  have "prio ?s c \<le> prio ?s u" if "stat_of ?s u = RT_THREAD_READY" for u
    using that keep(3) sched_invD(2) [OF assms(1), of u] by (simp split: if_splits)
  then show ?thesis using keep kept_inv [OF assms(1) keep(1)] assms(3) by (intro exI [of _ ?s] exI [of _ c]) simp
next
  case (switch t rest)
  let ?s = "switched s c t"
  have tc: "t \<noteq> c" using sched_invD(4) [OF assms(1,3)] switch(3) by auto
  have low: "prio s t \<le> prio s c" if "stat_of s c = RT_THREAD_RUNNING" using switch(5) [OF that] by auto
  have "prio ?s t \<le> prio ?s u" if "stat_of ?s u = RT_THREAD_READY" for u
    using that switch(4) low sched_invD(2) [OF assms(1), of u] by (auto split: if_splits)
  moreover have "t \<notin> set (ready_table ?s (prio ?s t))"
    using switched_lists(2) [OF assms(1) switch(3), of c] sched_invD(5) [OF assms(1), of t] switch(3)
    by (auto simp: ready_set_def wf_thread_def)
  ultimately show ?thesis using switch switched_inv [OF assms(1,3) switch(3)]
    by (intro exI [of _ ?s] exI [of _ t]) simp
qed

definition sample_sthread :: "u8 \<Rightarrow> u8 \<Rightarrow> u32 \<Rightarrow> sthread" where
  "sample_sthread stat p tick = \<lparr>st_stat = stat, st_priority = p, st_init_priority = p, st_mask = push_bit (unat p) 1,
     st_error = 0, st_init_tick = tick, st_remaining_tick = tick\<rparr>"

definition sample_sched :: sched where
  "sample_sched = \<lparr>thr = (\<lambda>_. sample_sthread RT_THREAD_INIT 31 10)(0 := sample_sthread RT_THREAD_RUNNING 5 2,
       1 := sample_sthread RT_THREAD_READY 5 3, 2 := sample_sthread RT_THREAD_READY 5 4, 3 := sample_sthread RT_THREAD_SUSPEND 3 5),
     ready_table = (\<lambda>_. [])(5 := [1, 2]), ready_group = 0x20, current = Some 0, cur_priority = 5, lock_nest = 0, defunct = []\<rparr>"

lemma sample_sched_inv: "sched_inv sample_sched"
proof (rule sched_invI)
  have bits: "bit (0x20 :: u32) p \<longleftrightarrow> p = 5" for p
  proof -
    have "(0x20 :: u32) = 2 ^ 5" by simp
    then show ?thesis by (simp only: bit_exp_iff) auto
  qed
  have t: "stat_of sample_sched u = (if u = 0 then RT_THREAD_RUNNING else if u = 1 \<or> u = 2 then RT_THREAD_READY
      else if u = 3 then RT_THREAD_SUSPEND else RT_THREAD_INIT)" for u
    by (simp add: sample_sched_def sample_sthread_def stat_of_def)
  have w: "wf_thread sample_sched u" "prio sample_sched u = (if u = 0 \<or> u = 1 \<or> u = 2 then 5 else if u = 3 then 3 else 31)" for u
    by (auto simp: sample_sched_def sample_sthread_def wf_thread_def prio_def RT_THREAD_PRIORITY_MAX_def)
  show "lists_wf sample_sched" using w bits by (auto simp: lists_wf_def sample_sched_def)
  show "u \<in> ready_set sample_sched \<longleftrightarrow> stat_of sample_sched u = RT_THREAD_READY" for u
    unfolding t by (auto simp: ready_set_def sample_sched_def RT_THREAD_PRIORITY_MAX_def)
  show "wf_thread sample_sched u" for u by (rule w)
  show "stat_of sample_sched u = RT_THREAD_RUNNING \<Longrightarrow> current sample_sched = Some u"
    "current sample_sched = Some u \<Longrightarrow> stat_of sample_sched u \<noteq> RT_THREAD_READY" for u
    unfolding t by (auto simp: sample_sched_def split: if_splits)
qed (simp_all add: sample_sched_def)

theorem schedule_runs_highest_witness:
  "\<exists>s' t. rt_schedule sample_sched = Some s' \<and> current s' = Some t \<and> sched_inv s'"
  using schedule_runs_highest [OF sample_sched_inv, of 0] by (auto simp: sample_sched_def)

section \<open>Taking turns\<close>

primrec ticks :: "nat \<Rightarrow> sched \<Rightarrow> sched option" where
  "ticks 0 s = Some s"
| "ticks (Suc n) s = Option.bind (tick_slice s) (ticks n)"

lemma ticks_add: "ticks (m + n) s = Option.bind (ticks m s) (ticks n)"
proof (induction m arbitrary: s)
  case (Suc m)
  then show ?case by (cases "tick_slice s") simp_all
qed simp

abbreviation slice_left :: "sched \<Rightarrow> nat \<Rightarrow> nat" where
  "slice_left s t \<equiv> unat (st_remaining_tick (thr s t))"

text \<open>The running thread is the first of \<open>xs\<close>, the other threads of its priority are ready in
  this order, none precedes them in priority, and all have part of their slice left.\<close>

definition turns :: "sched \<Rightarrow> nat \<Rightarrow> nat list \<Rightarrow> bool" where
  "turns s p xs \<longleftrightarrow> sched_inv s \<and> lock_nest s = 0 \<and> xs \<noteq> [] \<and> current s = Some (hd xs) \<and>
     stat_of s (hd xs) = RT_THREAD_RUNNING \<and> prio s (hd xs) = p \<and> ready_table s p = tl xs \<and>
     (\<forall>u \<in> ready_set s. p \<le> prio s u) \<and> (\<forall>u \<in> set xs. st_remaining_tick (thr s u) \<noteq> 0 \<and> st_init_tick (thr s u) \<noteq> 0)"

text \<open>A change of ticks and of the yield flag of one thread touches nothing else.\<close>

lemma upd_ticks:
  assumes "\<And>x. st_priority (f x) = st_priority x" and "\<And>x. st_mask (f x) = st_mask x"
    and "\<And>x. st_stat (f x) AND RT_THREAD_STAT_MASK = st_stat x AND RT_THREAD_STAT_MASK"
  shows "stat_of (upd_thread c f s) u = stat_of s u" and "prio (upd_thread c f s) u = prio s u"
    and "wf_thread (upd_thread c f s) u = wf_thread s u" and "lists_wf (upd_thread c f s) = lists_wf s"
    and "sched_inv (upd_thread c f s) = sched_inv s"
proof -
  show *: "stat_of (upd_thread c f s) u = stat_of s u" "prio (upd_thread c f s) u = prio s u"
    "wf_thread (upd_thread c f s) u = wf_thread s u" for u
    using assms by (simp_all add: stat_of_def prio_def wf_thread_def)
  show "lists_wf (upd_thread c f s) = lists_wf s" by (simp add: lists_wf_def *)
  then show "sched_inv (upd_thread c f s) = sched_inv s" by (simp add: sched_inv_def *)
qed

lemma tick_counts:
  assumes "turns s p (c # xs)" and "1 < slice_left s c"
  obtains s' where "tick_slice s = Some s'" and "turns s' p (c # xs)" and "slice_left s' c = slice_left s c - 1"
    and "\<And>u. u \<noteq> c \<Longrightarrow> thr s' u = thr s u" and "st_init_tick (thr s' c) = st_init_tick (thr s c)"
proof
  let ?f = "\<lambda>x. x\<lparr>st_remaining_tick := st_remaining_tick x - 1\<rparr>"
  let ?s = "upd_thread c ?f s"
  have "st_remaining_tick (thr s c) \<noteq> 0" using assms(2) by auto
  then have u: "unat (st_remaining_tick (thr s c) - 1) = slice_left s c - 1" by (rule unat_minus_one)
  then have n: "st_remaining_tick (thr s c) - 1 \<noteq> 0" using assms(2) by (metis unat_0 zero_less_diff less_irrefl)
  show "tick_slice s = Some ?s" using assms(1) n by (simp add: tick_slice_def turns_def Let_def)
  have "\<not> st_remaining_tick (thr s c) = 1" using n by auto
  then show "turns ?s p (c # xs)" using assms(1) by (auto simp: turns_def upd_ticks [of ?f])
  show "slice_left ?s c = slice_left s c - 1" using u by simp
qed simp_all

lemma yield_nonzero [simp]: "RT_THREAD_STAT_YIELD \<noteq> 0"
  by (simp add: RT_THREAD_STAT_YIELD_def)

lemma tick_expires:
  assumes T: "turns s p (c # t # xs)" and one: "slice_left s c = 1"
  obtains s' where "tick_slice s = Some s'" and "turns s' p (t # xs @ [c])"
    and "\<And>u. st_remaining_tick (thr s' u) = st_remaining_tick (thr s u) \<or> u = c"
    and "st_remaining_tick (thr s' c) = st_init_tick (thr s c)" and "\<And>u. st_init_tick (thr s' u) = st_init_tick (thr s u)"
proof -
  let ?f = "\<lambda>x. x\<lparr>st_remaining_tick := st_remaining_tick x - 1\<rparr>"
  let ?g = "\<lambda>x. x\<lparr>st_remaining_tick := st_init_tick x, st_stat := st_stat x OR RT_THREAD_STAT_YIELD\<rparr>"
  define s1 where "s1 = upd_thread c ?g (upd_thread c ?f s)"
  have e1: "st_remaining_tick (thr s c) = 1" using one by (metis unat_1 unsigned_word_eqI)
  have inv: "sched_inv s" "lock_nest s = 0" "current s = Some c" "stat_of s c = RT_THREAD_RUNNING" "prio s c = p"
    "ready_table s p = t # xs" "\<forall>u \<in> ready_set s. p \<le> prio s u" using T by (auto simp: turns_def)
  have s1: "stat_of s1 u = stat_of s u" "prio s1 u = prio s u" "sched_inv s1" "lock_nest s1 = 0" "current s1 = Some c"
    "ready_set s1 = ready_set s" "ready_table s1 = ready_table s" "yielding s1 c" for u
    using inv upd_ticks [of ?g c "upd_thread c ?f s"] upd_ticks [of ?f c s] by (simp_all add: s1_def yielding_def)
  have slice: "tick_slice s = rt_schedule s1" using inv e1 by (simp add: tick_slice_def Let_def rt_thread_yield_def s1_def)
  have pc: "p < RT_THREAD_PRIORITY_MAX" using sched_invD(5) [OF inv(1), of c] inv(4,5) by (simp add: wf_thread_def)
  then have t: "t \<in> ready_set s" "prio s t = p"
    using inv(6) lists_wfD(3) [OF sched_invD(1) [OF inv(1)] pc, of t] by (force simp: ready_set_def)+
  from s1(3-5) show ?thesis
  proof (cases rule: schedule_cases)
    case none
    then show ?thesis using t(1) s1(6) by simp
  next
    case keep
    then show ?thesis using t s1 inv(5) by fastforce
  next
    case (switch t' rest)
    have "t' \<in> ready_set s" using switch(3) sched_invD(2) [OF s1(3), of t'] s1(6) by simp
    then have "prio s t' = p" using inv(7) switch(4) t s1(2,6) by (metis le_antisym)
    then have t': "t' = t" using switch(2) inv(6) s1(2,7) by simp
    have tc: "t \<noteq> c" using sched_invD(2,4) [OF inv(1)] inv(3) t(1) by auto
    have tr: "stat_of s1 t = RT_THREAD_READY" using switch(3) t' by simp
    have "ready_table (switched s1 c t) p = xs @ [c]" using s1(1,2,7) inv(4-6) by (simp add: switched_table)
    moreover have "\<forall>u \<in> ready_set (switched s1 c t). p \<le> prio s u"
      using switched_lists(2) [OF s1(3) tr, of c] inv(5,7) s1(6) by auto
    moreover have "\<forall>u \<in> set (t # xs @ [c]). st_remaining_tick (thr s1 u) \<noteq> 0 \<and> st_init_tick (thr s1 u) \<noteq> 0"
      using T by (auto simp: turns_def s1_def)
    ultimately have "turns (switched s1 c t) p (t # xs @ [c])"
      using t(2) s1(2,4) switched_inv [OF s1(3,5) tr] by (simp add: turns_def)
    then show ?thesis using slice switch(1) that [of "switched s1 c t"] tc unfolding t' by (simp add: s1_def)
  qed
qed

lemma one_turn:
  assumes "turns s p (c # t # xs)"
  shows "(\<exists>s'. ticks (slice_left s c) s = Some s' \<and> turns s' p (t # xs @ [c]) \<and> (\<forall>u. u \<noteq> c \<longrightarrow> st_remaining_tick (thr s' u) = st_remaining_tick (thr s u))) \<and>
    (\<forall>k < slice_left s c. \<exists>s'. ticks k s = Some s' \<and> current s' = Some c)"
  using assms
proof (induction "slice_left s c" arbitrary: s)
  case 0
  then have "st_remaining_tick (thr s c) = 0" by (metis unsigned_eq_0_iff)
  then show ?case using 0(2) by (simp add: turns_def)
next
  case (Suc n)
  show ?case
  proof (cases n)
    case 0
    then have one: "slice_left s c = 1" using Suc.hyps(2) by simp
    obtain s' where s': "tick_slice s = Some s'" "turns s' p (t # xs @ [c])"
      "\<And>u. st_remaining_tick (thr s' u) = st_remaining_tick (thr s u) \<or> u = c"
      using tick_expires [OF Suc.prems one] by metis
    then have "ticks (slice_left s c) s = Some s'" using one by simp
    moreover have "\<forall>k < slice_left s c. \<exists>s'. ticks k s = Some s' \<and> current s' = Some c"
      using one Suc.prems by (simp add: turns_def)
    ultimately show ?thesis using s'(2,3) by blast
  next
    case (Suc m)
    then have "1 < slice_left s c" using Suc.hyps(2) by simp
    from tick_counts [OF Suc.prems this] obtain s1 where s1: "tick_slice s = Some s1" "turns s1 p (c # t # xs)"
      "slice_left s1 c = slice_left s c - 1" "\<And>u. u \<noteq> c \<Longrightarrow> thr s1 u = thr s u" by metis
    have n: "n = slice_left s1 c" "slice_left s c = Suc (slice_left s1 c)" using s1(3) Suc.hyps(2) by simp_all
    note IH = Suc.hyps(1) [OF n(1) s1(2)]
    have "\<exists>s'. ticks k s = Some s' \<and> current s' = Some c" if k: "k < slice_left s c" for k
    proof (cases k)
      case 0
      then show ?thesis using Suc.prems by (simp add: turns_def)
    next
      case (Suc j)
      then show ?thesis using IH k n(2) s1(1) by simp
    qed
    moreover have "\<exists>s'. ticks (slice_left s c) s = Some s' \<and> turns s' p (t # xs @ [c]) \<and>
        (\<forall>u. u \<noteq> c \<longrightarrow> st_remaining_tick (thr s' u) = st_remaining_tick (thr s u))"
      using IH s1(1,4) unfolding n(2) by auto
    ultimately show ?thesis by blast
  qed
qed

lemma turns_distinct: "turns s p (c # xs) \<Longrightarrow> c \<notin> set xs"
proof
  assume T: "turns s p (c # xs)" and c: "c \<in> set xs"
  have "p < RT_THREAD_PRIORITY_MAX" using T sched_invD(5) [of s c] by (auto simp: turns_def wf_thread_def)
  then have "c \<in> ready_set s" using T c by (auto simp: turns_def ready_set_def)
  then show False using T sched_invD(2) [of s c] by (auto simp: turns_def)
qed

text \<open>
  Claim C28: threads of the same priority take turns. When the running thread is one of the
  highest priority and none precedes it, it runs until its slice is used up, and the thread at
  place \<open>i\<close> of the ready list runs after exactly the ticks left in the slices of those before
  it; so every ready thread of that priority gets its turn, and the order is kept.
\<close>

theorem equal_priorities_take_turns:
  assumes "turns s p (c # xs)" and "i < length xs"
  shows "(\<exists>s'. ticks (slice_left s c + (\<Sum>u\<leftarrow>take i xs. slice_left s u)) s = Some s' \<and>
      current s' = Some (xs ! i) \<and> stat_of s' (xs ! i) = RT_THREAD_RUNNING \<and> turns s' p (drop i xs @ c # take i xs)) \<and>
    (\<forall>k < slice_left s c. \<exists>s'. ticks k s = Some s' \<and> current s' = Some c)"
  using assms
proof (induction i arbitrary: s c xs)
  case 0
  then obtain t ys where xs: "xs = t # ys" by (cases xs) auto
  show ?case using one_turn [OF "0.prems"(1) [unfolded xs]] by (auto simp: xs turns_def)
next
  case (Suc i)
  then obtain t ys where xs: "xs = t # ys" by (cases xs) auto
  from one_turn [OF Suc.prems(1) [unfolded xs]] obtain s1
    where s1: "ticks (slice_left s c) s = Some s1" "turns s1 p (t # ys @ [c])"
      "\<And>u. u \<noteq> c \<Longrightarrow> st_remaining_tick (thr s1 u) = st_remaining_tick (thr s u)"
      and before: "\<forall>k < slice_left s c. \<exists>s'. ticks k s = Some s' \<and> current s' = Some c" by blast
  have i: "i < length ys" using Suc.prems(2) xs by simp
  from Suc.IH [OF s1(2)] i obtain s'
    where s': "ticks (slice_left s1 t + (\<Sum>u\<leftarrow>take i (ys @ [c]). slice_left s1 u)) s1 = Some s'"
      "current s' = Some ((ys @ [c]) ! i)" "stat_of s' ((ys @ [c]) ! i) = RT_THREAD_RUNNING"
      "turns s' p (drop i (ys @ [c]) @ t # take i (ys @ [c]))" by auto
  have c: "c \<notin> set (t # ys)" using turns_distinct [OF Suc.prems(1)] xs by simp
  have "(\<Sum>u\<leftarrow>take i ys. slice_left s1 u) = (\<Sum>u\<leftarrow>take i ys. slice_left s u)"
    using c s1(3) by (intro arg_cong [of _ _ sum_list] map_cong refl) (metis in_set_takeD list.set_intros(2))
  then have "slice_left s1 t + (\<Sum>u\<leftarrow>take i (ys @ [c]). slice_left s1 u) = (\<Sum>u\<leftarrow>take (Suc i) xs. slice_left s u)"
    using i c s1(3) [of t] xs by simp
  then have "ticks (slice_left s c + (\<Sum>u\<leftarrow>take (Suc i) xs. slice_left s u)) s = Some s'"
    using s1(1) s'(1) by (simp add: ticks_add)
  then show ?case using s'(2-4) before i xs by (auto simp: nth_append)
qed

theorem equal_priorities_take_turns_witness:
  "\<exists>s'. ticks 5 sample_sched = Some s' \<and> current s' = Some 2"
proof -
  have "turns sample_sched 5 [0, 1, 2]"
    using sample_sched_inv sched_invD(2) [OF sample_sched_inv]
    by (auto simp: turns_def sample_sched_def sample_sthread_def stat_of_def prio_def ready_set_def split: if_splits)
  from equal_priorities_take_turns [OF this, of 1] show ?thesis
    by (auto simp: sample_sched_def sample_sthread_def)
qed

section \<open>Critical sections\<close>

primrec rt_exits :: "nat \<Rightarrow> sched \<Rightarrow> sched option" where
  "rt_exits 0 s = Some s"
| "rt_exits (Suc n) s = Option.bind (rt_exit_critical s) (rt_exits n)"

lemma enters_eq: "(rt_enter_critical ^^ n) s = s\<lparr>lock_nest := lock_nest s + of_nat n\<rparr>"
  by (induction n) (simp_all add: rt_enter_critical_def add.assoc add.commute)

lemma sint_of_nat_u16: "n < 32768 \<Longrightarrow> sint (of_nat n :: u16) = int n"
  by (simp add: sint_uint unsigned_of_nat signed_take_bit_int_eq_self take_bit_nat_eq_self take_bit_int_eq_self)

lemma exits_eq:
  assumes "lock_nest s = 0" and "current s \<noteq> None"
  shows "0 < n \<Longrightarrow> n \<le> 32768 \<Longrightarrow> rt_exits n (s\<lparr>lock_nest := of_nat n\<rparr>) = rt_schedule s"
proof (induction n)
  case (Suc n)
  have d: "(of_nat (Suc n) :: u16) - 1 = of_nat n" by simp
  show ?case
  proof (cases "n = 0")
    case True
    have "rt_schedule (s\<lparr>lock_nest := 0\<rparr>) = rt_schedule s" using assms(1) by (intro arg_cong [of _ _ rt_schedule]) simp
    then show ?thesis using True assms by (cases "rt_schedule s") (auto simp: rt_exit_critical_def)
  next
    case False
    then have "\<not> sint (of_nat n :: u16) \<le> 0" using Suc.prems(2) sint_of_nat_u16 [of n] by simp
    then have "rt_exit_critical (s\<lparr>lock_nest := of_nat (Suc n)\<rparr>) = Some (s\<lparr>lock_nest := of_nat n\<rparr>)"
      using d by (simp add: rt_exit_critical_def Let_def del: of_nat_Suc)
    then show ?thesis using Suc.IH Suc.prems(2) False by simp
  qed
qed simp

lemma critical_once: "lock_nest s = 0 \<Longrightarrow> current s \<noteq> None \<Longrightarrow> rt_exit_critical (rt_enter_critical s) = rt_schedule s"
  using exits_eq [of s 1] by (cases "rt_schedule s") (auto simp: rt_enter_critical_def split: bind_splits)

text \<open>
  Between \<open>rt_enter_critical\<close> and the matching \<open>rt_exit_critical\<close>, nested up to 32768
  deep, no call of \<open>rt_schedule\<close> changes anything, and the last exit does exactly one
  scheduling of the state the section was entered with.
\<close>

theorem critical_section:
  assumes "lock_nest s = 0" and "current s \<noteq> None" and "0 < n" and "n \<le> 32768"
  shows "(\<forall>k \<in> {1..n}. rt_schedule ((rt_enter_critical ^^ k) s) = Some ((rt_enter_critical ^^ k) s) \<and>
      unat (rt_critical_level ((rt_enter_critical ^^ k) s)) = k) \<and>
    rt_exits n ((rt_enter_critical ^^ n) s) = rt_schedule s"
proof -
  have u: "unat (of_nat k :: u16) = k" if "k \<in> {1..n}" for k
    using that assms(4) by (simp add: unsigned_of_nat take_bit_nat_eq_self)
  have "(of_nat k :: u16) \<noteq> 0" if "k \<in> {1..n}" for k using u [OF that] that by auto
  then show ?thesis using u assms exits_eq [OF assms(1-4)] by (auto simp: enters_eq schedule_idle rt_critical_level_def)
qed

theorem critical_section_witness:
  "rt_exits 2 (rt_enter_critical (rt_enter_critical sample_sched)) = rt_schedule sample_sched"
  using critical_section [of sample_sched 2] by (simp add: sample_sched_def numeral_2_eq_2)

text \<open>One level deeper the counter is negative and the first exit opens the section: the limit
  is not the maximum of an unsigned counter that the comment in \<open>rt_enter_critical\<close> names.\<close>

lemma critical_section_limit:
  assumes "lock_nest s = 0" and "current s \<noteq> None"
  shows "rt_exit_critical ((rt_enter_critical ^^ 32769) s) = rt_schedule s"
proof -
  have "sint (of_nat 32768 :: u16) \<le> 0" by simp
  moreover have "(of_nat 32769 :: u16) - 1 = of_nat 32768" by simp
  moreover have "rt_schedule (s\<lparr>lock_nest := 0\<rparr>) = rt_schedule s" using assms(1) by (intro arg_cong [of _ _ rt_schedule]) simp
  ultimately show ?thesis using assms unfolding enters_eq rt_exit_critical_def Let_def by auto
qed

text \<open>\<open>rt_thread_yield\<close> does not set the yield flag, so a running thread that is not at the end of
  its slice keeps the processor although threads of its own priority are ready.\<close>

lemma yield_keeps:
  assumes "sched_inv s" and "lock_nest s = 0" and "current s = Some c" and "stat_of s c = RT_THREAD_RUNNING"
    and "\<not> yielding s c" and "\<forall>u \<in> ready_set s. prio s c \<le> prio s u"
  shows "\<exists>s'. rt_thread_yield s = Some s' \<and> current s' = Some c"
  using assms(1-3)
proof (cases rule: schedule_cases)
  case (switch t rest)
  have "t \<in> ready_set s" using switch(3) sched_invD(2) [OF assms(1)] by simp
  then show ?thesis using switch(5) [OF assms(4)] assms(5,6) by force
qed (use assms(3) in \<open>simp_all add: rt_thread_yield_def\<close>)

lemma yield_keeps_sample:
  "\<exists>s'. rt_thread_yield sample_sched = Some s' \<and> current s' = Some 0 \<and> prio sample_sched 1 = prio sample_sched 0"
  using yield_keeps [OF sample_sched_inv, of 0] sched_invD(2) [OF sample_sched_inv]
  by (auto simp: sample_sched_def sample_sthread_def stat_of_def prio_def yielding_def stat_codes RT_THREAD_STAT_MASK_def
      RT_THREAD_STAT_YIELD_def ready_set_def)

end
