(* ===== verification/Rt_Timer.thy ===== *)
theory Rt_Timer
  imports Rt_Sched "HOL-Library.Monad_Syntax"
begin

text \<open>
  The timers of the kernel (\<open>rt-thread/src/timer.c\<close>, one level of list) and the tick of
  \<open>clock.c\<close>. A timer is a number; the lists hold the timers in the order in which they fire. The
  timeout functions act on the rest of the system: they are the argument \<open>cb\<close>, a function of
  the timer that fires, and \<open>wake\<close> is what \<open>rt_timer_start\<close> does to the timer thread after it
  has inserted a soft timer. A state is a pair of the rest of the system and the timers.
  \<open>None\<close> is a failed assertion, or a loop that does not end. The theory shows that a list kept
  by these operations is in the order of expiry across the wrap-around of the tick, and that
  timers fire in exactly the ticks they are set to.
\<close>

section \<open>State\<close>

definition TICK_HALF :: u32 where "TICK_HALF = 0x7fffffff"  \<comment> \<open>\<open>RT_TICK_MAX / 2\<close>\<close>
definition RT_TICK_MAX :: u32 where "RT_TICK_MAX = 0xffffffff"
definition RT_TIMER_FLAG_ACTIVATED :: u8 where "RT_TIMER_FLAG_ACTIVATED = 0x1"
definition RT_TIMER_FLAG_PERIODIC :: u8 where "RT_TIMER_FLAG_PERIODIC = 0x2"
definition RT_TIMER_FLAG_SOFT_TIMER :: u8 where "RT_TIMER_FLAG_SOFT_TIMER = 0x4"

lemmas timer_flags = RT_TIMER_FLAG_ACTIVATED_def RT_TIMER_FLAG_PERIODIC_def RT_TIMER_FLAG_SOFT_TIMER_def

record ktimer =
  tm_init_tick :: u32
  tm_timeout :: u32
  tm_flag :: u8

record timers =
  rt_tick :: u32
  tmr :: "nat \<Rightarrow> ktimer"
  hard_list :: "nat list"
  soft_list :: "nat list"

definition upd_timer :: "nat \<Rightarrow> (ktimer \<Rightarrow> ktimer) \<Rightarrow> timers \<Rightarrow> timers" where
  "upd_timer t f k = k\<lparr>tmr := (tmr k)(t := f (tmr k t))\<rparr>"

definition has_flag :: "timers \<Rightarrow> nat \<Rightarrow> u8 \<Rightarrow> bool" where
  "has_flag k t v \<longleftrightarrow> tm_flag (tmr k t) AND v \<noteq> 0"

definition deactivate :: "nat \<Rightarrow> timers \<Rightarrow> timers" where
  "deactivate t = upd_timer t (\<lambda>x. x\<lparr>tm_flag := tm_flag x AND NOT RT_TIMER_FLAG_ACTIVATED\<rparr>)"

definition activate :: "nat \<Rightarrow> timers \<Rightarrow> timers" where
  "activate t = upd_timer t (\<lambda>x. x\<lparr>tm_flag := tm_flag x OR RT_TIMER_FLAG_ACTIVATED\<rparr>)"

section \<open>Operations\<close>

definition rt_system_timer_init :: "timers \<Rightarrow> timers" where
  "rt_system_timer_init k = k\<lparr>hard_list := []\<rparr>"

text \<open>A linked timer must not be initialised again: its neighbours would keep pointing to it.\<close>

definition rt_timer_init :: "nat \<Rightarrow> u32 \<Rightarrow> u8 \<Rightarrow> timers \<Rightarrow> timers option" where
  "rt_timer_init t time flag k =
     (if t \<in> set (hard_list k) \<or> t \<in> set (soft_list k) then None
      else Some (upd_timer t (\<lambda>x. x\<lparr>tm_flag := flag AND NOT RT_TIMER_FLAG_ACTIVATED, tm_timeout := 0, tm_init_tick := time\<rparr>) k))"

definition rt_timer_list_next_timeout :: "nat list \<Rightarrow> timers \<Rightarrow> u32" where
  "rt_timer_list_next_timeout ts k = (case ts of [] \<Rightarrow> RT_TICK_MAX | t # _ \<Rightarrow> tm_timeout (tmr k t))"

definition rt_timer_next_timeout_tick :: "timers \<Rightarrow> u32" where
  "rt_timer_next_timeout_tick k = rt_timer_list_next_timeout (hard_list k) k"

definition timer_remove :: "nat \<Rightarrow> timers \<Rightarrow> timers" where
  "timer_remove t k = k\<lparr>hard_list := remove1 t (hard_list k), soft_list := remove1 t (soft_list k)\<rparr>"

text \<open>\<open>rt_timer_detach\<close> and \<open>rt_timer_delete\<close>: the timer leaves its list; the object goes.\<close>

definition rt_timer_detach :: "nat \<Rightarrow> timers \<Rightarrow> timers" where
  "rt_timer_detach t k = timer_remove t k"

definition rt_timer_delete :: "nat \<Rightarrow> timers \<Rightarrow> timers" where
  "rt_timer_delete t k = timer_remove t k"

text \<open>The place of a new timer: before the first one that expires strictly later.\<close>

fun timer_place :: "(nat \<Rightarrow> u32) \<Rightarrow> nat \<Rightarrow> nat list \<Rightarrow> nat list" where
  "timer_place to x [] = [x]"
| "timer_place to x (t # ts) =
     (if to t - to x = 0 then t # timer_place to x ts
      else if to t - to x < TICK_HALF then x # t # ts
      else t # timer_place to x ts)"

definition rt_timer_start :: "('w \<times> timers \<Rightarrow> ('w \<times> timers) option) \<Rightarrow> nat \<Rightarrow> 'w \<times> timers \<Rightarrow> ('w \<times> timers) option" where
  "rt_timer_start wake t = (\<lambda>(w, k).
     let k1 = deactivate t (timer_remove t k) in
     if \<not> tm_init_tick (tmr k1 t) < TICK_HALF then None
     else
       let k2 = upd_timer t (\<lambda>x. x\<lparr>tm_timeout := rt_tick k1 + tm_init_tick x\<rparr>) k1;
           to = (\<lambda>u. tm_timeout (tmr k2 u)) in
       if has_flag k2 t RT_TIMER_FLAG_SOFT_TIMER
       then wake (w, activate t (k2\<lparr>soft_list := timer_place to t (soft_list k2)\<rparr>))
       else Some (w, activate t (k2\<lparr>hard_list := timer_place to t (hard_list k2)\<rparr>)))"

definition rt_timer_stop :: "nat \<Rightarrow> timers \<Rightarrow> timers \<times> int" where
  "rt_timer_stop t k =
     (if \<not> has_flag k t RT_TIMER_FLAG_ACTIVATED then (k, -1) else (deactivate t (timer_remove t k), 0))"

text \<open>The commands of \<open>rt_timer_control\<close>: the argument is read for a set and written for a get.\<close>

definition rt_timer_control :: "nat \<Rightarrow> int \<Rightarrow> u32 \<Rightarrow> timers \<Rightarrow> timers \<times> u32" where
  "rt_timer_control t cmd arg k =
     (if cmd = 1 then (k, tm_init_tick (tmr k t))
      else if cmd = 0 then (upd_timer t (\<lambda>x. x\<lparr>tm_init_tick := arg\<rparr>) k, arg)
      else if cmd = 2 then (upd_timer t (\<lambda>x. x\<lparr>tm_flag := tm_flag x AND NOT RT_TIMER_FLAG_PERIODIC\<rparr>) k, arg)
      else if cmd = 3 then (upd_timer t (\<lambda>x. x\<lparr>tm_flag := tm_flag x OR RT_TIMER_FLAG_PERIODIC\<rparr>) k, arg)
      else (k, arg))"

text \<open>After the timeout function: a periodic timer that is still active starts again.\<close>

definition timer_again :: "('w \<times> timers \<Rightarrow> ('w \<times> timers) option) \<Rightarrow> nat \<Rightarrow> 'w \<times> timers \<Rightarrow> ('w \<times> timers) option" where
  "timer_again wake t = (\<lambda>(w, k).
     if has_flag k t RT_TIMER_FLAG_PERIODIC \<and> has_flag k t RT_TIMER_FLAG_ACTIVATED
     then rt_timer_start wake t (w, deactivate t k)
     else Some (w, deactivate t k))"

text \<open>The loop of \<open>rt_timer_check\<close>, with the tick it last read.\<close>

partial_function (option) timer_check_loop ::
    "('w \<times> timers \<Rightarrow> ('w \<times> timers) option) \<Rightarrow> (nat \<Rightarrow> 'w \<times> timers \<Rightarrow> ('w \<times> timers) option) \<Rightarrow> u32 \<Rightarrow>
     'w \<times> timers \<Rightarrow> ('w \<times> timers) option" where
  "timer_check_loop wake cb now s =
     (case hard_list (snd s) of
        [] \<Rightarrow> Some s
      | t # _ \<Rightarrow>
        if now - tm_timeout (tmr (snd s) t) < TICK_HALF
        then do {
          s1 \<leftarrow> cb t (fst s, timer_remove t (snd s));
          s2 \<leftarrow> timer_again wake t s1;
          timer_check_loop wake cb (rt_tick (snd s1)) s2
        }
        else Some s)"

definition rt_timer_check ::
    "('w \<times> timers \<Rightarrow> ('w \<times> timers) option) \<Rightarrow> (nat \<Rightarrow> 'w \<times> timers \<Rightarrow> ('w \<times> timers) option) \<Rightarrow>
     'w \<times> timers \<Rightarrow> ('w \<times> timers) option" where
  "rt_timer_check wake cb s = timer_check_loop wake cb (rt_tick (snd s)) s"

text \<open>The loop over the soft timers walks with a cursor, which it advances before the timer is
  unlinked and its function called; \<open>None\<close> is the head of the list. A node that is not in the
  list points to itself. \<open>enter\<close> and \<open>leave\<close> lock and unlock the scheduler.\<close>

definition soft_next :: "timers \<Rightarrow> nat \<Rightarrow> nat option" where
  "soft_next k t =
     (if t \<notin> set (soft_list k) then Some t
      else case tl (dropWhile (\<lambda>u. u \<noteq> t) (soft_list k)) of [] \<Rightarrow> None | u # _ \<Rightarrow> Some u)"

definition soft_first :: "timers \<Rightarrow> nat option" where
  "soft_first k = (case soft_list k of [] \<Rightarrow> None | t # _ \<Rightarrow> Some t)"

partial_function (option) soft_check_loop ::
    "('w \<times> timers \<Rightarrow> ('w \<times> timers) option) \<Rightarrow> (nat \<Rightarrow> 'w \<times> timers \<Rightarrow> ('w \<times> timers) option) \<Rightarrow>
     ('w \<Rightarrow> 'w) \<Rightarrow> ('w \<Rightarrow> 'w option) \<Rightarrow> u32 \<Rightarrow> nat option \<Rightarrow> 'w \<times> timers \<Rightarrow> ('w \<times> timers) option" where
  "soft_check_loop wake cb enter leave now n s =
     (case n of
        None \<Rightarrow> Some s
      | Some t \<Rightarrow>
        if now - tm_timeout (tmr (snd s) t) < TICK_HALF
        then do {
          let n' = soft_next (snd s) t;
          w1 \<leftarrow> leave (fst s);
          s2 \<leftarrow> cb t (w1, timer_remove t (snd s));
          s3 \<leftarrow> timer_again wake t (enter (fst s2), snd s2);
          soft_check_loop wake cb enter leave (rt_tick (snd s2)) n' s3
        }
        else Some s)"

definition rt_soft_timer_check ::
    "('w \<times> timers \<Rightarrow> ('w \<times> timers) option) \<Rightarrow> (nat \<Rightarrow> 'w \<times> timers \<Rightarrow> ('w \<times> timers) option) \<Rightarrow>
     ('w \<Rightarrow> 'w) \<Rightarrow> ('w \<Rightarrow> 'w option) \<Rightarrow> 'w \<times> timers \<Rightarrow> ('w \<times> timers) option" where
  "rt_soft_timer_check wake cb enter leave = (\<lambda>(w, k). do {
     (w1, k1) \<leftarrow> soft_check_loop wake cb enter leave (rt_tick k) (soft_first k) (enter w, k);
     w2 \<leftarrow> leave w1;
     Some (w2, k1)
   })"

definition rt_tick_from_millisecond :: "int \<Rightarrow> u32" where
  "rt_tick_from_millisecond ms =
     (if ms < 0 then of_int (-1)
      else of_int (1000 * (ms div 1000)) + of_int ((1000 * (ms mod 1000) + 999) div 1000))"

section \<open>Order of expiry\<close>

text \<open>The ticks from \<open>base\<close> to the expiry of a timer. In a list in order the distances grow,
  and all of them are at most half the range of the tick counter.\<close>

definition dist :: "u32 \<Rightarrow> timers \<Rightarrow> nat \<Rightarrow> nat" where
  "dist base k t = unat (tm_timeout (tmr k t) - base)"

definition hard_timer :: "timers \<Rightarrow> nat \<Rightarrow> bool" where
  "hard_timer k t \<longleftrightarrow> has_flag k t RT_TIMER_FLAG_ACTIVATED \<and> \<not> has_flag k t RT_TIMER_FLAG_SOFT_TIMER \<and>
     (has_flag k t RT_TIMER_FLAG_PERIODIC \<longrightarrow> 0 < tm_init_tick (tmr k t) \<and> tm_init_tick (tmr k t) < TICK_HALF)"

definition timers_wf :: "u32 \<Rightarrow> timers \<Rightarrow> bool" where
  "timers_wf base k \<longleftrightarrow> distinct (hard_list k) \<and> sorted (map (dist base k) (hard_list k)) \<and>
     (\<forall>t \<in> set (hard_list k). hard_timer k t \<and> dist base k t \<le> unat TICK_HALF)"

text \<open>Between two ticks: every timer of the list expires in the future, or was started with 0.\<close>

definition timers_ok :: "timers \<Rightarrow> bool" where
  "timers_ok k \<longleftrightarrow> timers_wf (rt_tick k) k \<and> (\<forall>t \<in> set (hard_list k). dist (rt_tick k) k t < unat TICK_HALF)"

lemma unat_half: "unat TICK_HALF = 0x7fffffff"
  by (simp add: TICK_HALF_def)

text \<open>Comparing two expiries within half the range.\<close>

lemma u32_diff:
  fixes a b :: u32
  assumes "unat a \<le> 0x7fffffff" and "unat b \<le> 0x7fffffff"
  shows "a - b = 0 \<longleftrightarrow> unat a = unat b"
    and "unat b < unat a \<Longrightarrow> unat a - unat b < 0x7fffffff \<Longrightarrow> a - b < TICK_HALF"
    and "unat a < unat b \<Longrightarrow> \<not> a - b < TICK_HALF"
proof -
  have m: "unat (a - b) = (if unat b \<le> unat a then unat a - unat b else unat a + 2 ^ 32 - unat b)"
    using unat_sub_if' [of a b] by simp
  show "a - b = 0 \<longleftrightarrow> unat a = unat b" by (metis right_minus_eq word_unat_eq_iff)
  show "unat b < unat a \<Longrightarrow> unat a - unat b < 0x7fffffff \<Longrightarrow> a - b < TICK_HALF"
    and "unat a < unat b \<Longrightarrow> \<not> a - b < TICK_HALF"
    using m assms by (simp_all add: word_less_nat_alt unat_half)
qed

lemma timer_place_eq:
  assumes "sorted (map d ts)" and "\<forall>t \<in> set ts. d t = unat (to t - base) \<and> d t \<le> 0x7fffffff"
    and "d x = unat (to x - base)" and "d x \<le> 0x7fffffff" and "\<forall>t \<in> set ts. d t < 0x7fffffff + d x"
  shows "timer_place to x ts = takeWhile (\<lambda>t. d t \<le> d x) ts @ x # dropWhile (\<lambda>t. d t \<le> d x) ts"
  using assms
proof (induction ts)
  case (Cons t ts)
  have e: "to t - to x = (to t - base) - (to x - base)" by simp
  have b: "unat (to t - base) \<le> 0x7fffffff" "unat (to x - base) \<le> 0x7fffffff" using Cons.prems(2-4) by auto
  have d: "d t = unat (to t - base)" using Cons.prems(2) by simp
  note u = u32_diff [OF b, folded e d Cons.prems(3)]
  have ih: "timer_place to x ts = takeWhile (\<lambda>t. d t \<le> d x) ts @ x # dropWhile (\<lambda>t. d t \<le> d x) ts"
  proof (rule Cons.IH)
    show "sorted (map d ts)" using Cons.prems(1) by simp
  qed (use Cons.prems in \<open>meson list.set_intros(2)\<close>)+
  consider "d t = d x" | "d x < d t" | "d t < d x" by linarith
  then show ?case
  proof cases
    case 1
    then show ?thesis using ih u(1) by simp
  next
    case 2
    then have "\<not> to t - to x = 0" "to t - to x < TICK_HALF"
      using u(1,2) Cons.prems(5) by auto
    then show ?thesis using 2 by simp
  next
    case 3
    then have "\<not> to t - to x < TICK_HALF" using u(3) by simp
    then show ?thesis using 3 ih by simp
  qed
qed simp

lemma sorted_dropWhile:
  fixes d :: "'a \<Rightarrow> nat"
  assumes "sorted (map d ts)"
  shows "\<forall>t \<in> set (dropWhile (\<lambda>t. d t \<le> c) ts). c < d t"
  using assms
proof (induction ts)
  case (Cons a ts)
  then show ?case by (cases "d a \<le> c") (auto simp: not_le intro: less_le_trans)
qed simp

lemma sorted_insert_place:
  fixes d :: "'a \<Rightarrow> nat"
  assumes "sorted (map d ts)"
  shows "sorted (map d (takeWhile (\<lambda>t. d t \<le> d x) ts @ x # dropWhile (\<lambda>t. d t \<le> d x) ts))"
proof -
  have "sorted (map d (takeWhile (\<lambda>t. d t \<le> d x) ts) @ map d (dropWhile (\<lambda>t. d t \<le> d x) ts))"
    using assms by (metis map_append takeWhile_dropWhile_id)
  then show ?thesis using sorted_dropWhile [OF assms, of "d x"]
    by (auto simp: sorted_append dest: set_takeWhileD intro: less_imp_le)
qed

section \<open>One tick\<close>

text \<open>A timeout function that leaves the timers alone.\<close>

definition timer_func :: "(nat \<Rightarrow> 'w \<Rightarrow> 'w option) \<Rightarrow> nat \<Rightarrow> 'w \<times> timers \<Rightarrow> ('w \<times> timers) option" where
  "timer_func f t = (\<lambda>(w, k). map_option (\<lambda>w'. (w', k)) (f t w))"

definition rt_tick_increase ::
    "('w \<Rightarrow> 'w option) \<Rightarrow> ('w \<times> timers \<Rightarrow> ('w \<times> timers) option) \<Rightarrow> (nat \<Rightarrow> 'w \<times> timers \<Rightarrow> ('w \<times> timers) option) \<Rightarrow>
     'w \<times> timers \<Rightarrow> ('w \<times> timers) option" where
  "rt_tick_increase time_slice wake cb = (\<lambda>(w, k). do {
     let k1 = k\<lparr>rt_tick := rt_tick k + 1\<rparr>;
     w1 \<leftarrow> time_slice w;
     rt_timer_check wake cb (w1, k1)
   })"

primrec fires :: "(nat \<Rightarrow> 'w \<Rightarrow> 'w option) \<Rightarrow> nat list \<Rightarrow> 'w \<Rightarrow> 'w option" where
  "fires f [] w = Some w"
| "fires f (t # ts) w = Option.bind (f t w) (fires f ts)"

definition started :: "nat \<Rightarrow> timers \<Rightarrow> timers" where
  "started t k =
     (let k1 = upd_timer t (\<lambda>x. x\<lparr>tm_timeout := rt_tick k + tm_init_tick x\<rparr>) (deactivate t (timer_remove t k))
      in activate t (k1\<lparr>hard_list := timer_place (\<lambda>u. tm_timeout (tmr k1 u)) t (hard_list k1)\<rparr>))"

text \<open>What becomes of a timer that fires.\<close>

definition expire :: "nat \<Rightarrow> timers \<Rightarrow> timers" where
  "expire t k = (if has_flag k t RT_TIMER_FLAG_PERIODIC then started t (deactivate t (timer_remove t k)) else deactivate t (timer_remove t k))"

lemma timer_upd_simps [simp]:
  "rt_tick (upd_timer t f k) = rt_tick k" "hard_list (upd_timer t f k) = hard_list k" "soft_list (upd_timer t f k) = soft_list k"
  "tmr (upd_timer t f k) u = (if u = t then f (tmr k t) else tmr k u)"
  "rt_tick (timer_remove t k) = rt_tick k" "tmr (timer_remove t k) = tmr k" "hard_list (timer_remove t k) = remove1 t (hard_list k)"
  "soft_list (timer_remove t k) = remove1 t (soft_list k)"
  by (simp_all add: upd_timer_def timer_remove_def)

lemma flag_bits [simp]:
  "(v AND NOT RT_TIMER_FLAG_ACTIVATED) AND RT_TIMER_FLAG_ACTIVATED = 0" "(v OR RT_TIMER_FLAG_ACTIVATED) AND RT_TIMER_FLAG_ACTIVATED \<noteq> 0"
  "(v AND NOT RT_TIMER_FLAG_ACTIVATED) AND RT_TIMER_FLAG_SOFT_TIMER = v AND RT_TIMER_FLAG_SOFT_TIMER"
  "(v OR RT_TIMER_FLAG_ACTIVATED) AND RT_TIMER_FLAG_SOFT_TIMER = v AND RT_TIMER_FLAG_SOFT_TIMER"
  "(v AND NOT RT_TIMER_FLAG_ACTIVATED) AND RT_TIMER_FLAG_PERIODIC = v AND RT_TIMER_FLAG_PERIODIC"
  "(v OR RT_TIMER_FLAG_ACTIVATED) AND RT_TIMER_FLAG_PERIODIC = v AND RT_TIMER_FLAG_PERIODIC"
proof -
  have a: "RT_TIMER_FLAG_ACTIVATED = 2 ^ 0" "RT_TIMER_FLAG_PERIODIC = 2 ^ 1" "RT_TIMER_FLAG_SOFT_TIMER = 2 ^ 2"
    by (simp_all add: timer_flags)
  have b: "bit RT_TIMER_FLAG_ACTIVATED i \<longleftrightarrow> i = 0" "bit RT_TIMER_FLAG_PERIODIC i \<longleftrightarrow> i = 1" "bit RT_TIMER_FLAG_SOFT_TIMER i \<longleftrightarrow> i = 2" for i
    unfolding a by (simp_all only: bit_exp_iff) auto
  show "(v AND NOT RT_TIMER_FLAG_ACTIVATED) AND RT_TIMER_FLAG_ACTIVATED = 0"
    "(v AND NOT RT_TIMER_FLAG_ACTIVATED) AND RT_TIMER_FLAG_SOFT_TIMER = v AND RT_TIMER_FLAG_SOFT_TIMER"
    "(v OR RT_TIMER_FLAG_ACTIVATED) AND RT_TIMER_FLAG_SOFT_TIMER = v AND RT_TIMER_FLAG_SOFT_TIMER"
    "(v AND NOT RT_TIMER_FLAG_ACTIVATED) AND RT_TIMER_FLAG_PERIODIC = v AND RT_TIMER_FLAG_PERIODIC"
    "(v OR RT_TIMER_FLAG_ACTIVATED) AND RT_TIMER_FLAG_PERIODIC = v AND RT_TIMER_FLAG_PERIODIC"
    by (auto intro!: bit_word_eqI simp: bit_and_iff bit_or_iff bit_not_iff b)
  have "bit ((v OR RT_TIMER_FLAG_ACTIVATED) AND RT_TIMER_FLAG_ACTIVATED) 0" by (simp add: bit_and_iff bit_or_iff b)
  then show "(v OR RT_TIMER_FLAG_ACTIVATED) AND RT_TIMER_FLAG_ACTIVATED \<noteq> 0" by (metis bit_0_eq bot_apply bot_bool_def)
qed

lemma activated_nonzero [simp]: "RT_TIMER_FLAG_ACTIVATED \<noteq> 0"
  by (simp add: timer_flags)

lemma activate_simps [simp]:
  "rt_tick (deactivate t k) = rt_tick k" "hard_list (deactivate t k) = hard_list k" "soft_list (deactivate t k) = soft_list k"
  "tm_timeout (tmr (deactivate t k) u) = tm_timeout (tmr k u)" "tm_init_tick (tmr (deactivate t k) u) = tm_init_tick (tmr k u)"
  "has_flag (deactivate t k) u RT_TIMER_FLAG_SOFT_TIMER = has_flag k u RT_TIMER_FLAG_SOFT_TIMER"
  "has_flag (deactivate t k) u RT_TIMER_FLAG_PERIODIC = has_flag k u RT_TIMER_FLAG_PERIODIC"
  "has_flag (deactivate t k) u RT_TIMER_FLAG_ACTIVATED = (u \<noteq> t \<and> has_flag k u RT_TIMER_FLAG_ACTIVATED)"
  "rt_tick (activate t k) = rt_tick k" "hard_list (activate t k) = hard_list k" "soft_list (activate t k) = soft_list k"
  "tm_timeout (tmr (activate t k) u) = tm_timeout (tmr k u)" "tm_init_tick (tmr (activate t k) u) = tm_init_tick (tmr k u)"
  "has_flag (activate t k) u RT_TIMER_FLAG_SOFT_TIMER = has_flag k u RT_TIMER_FLAG_SOFT_TIMER"
  "has_flag (activate t k) u RT_TIMER_FLAG_PERIODIC = has_flag k u RT_TIMER_FLAG_PERIODIC"
  "has_flag (activate t k) u RT_TIMER_FLAG_ACTIVATED = (u = t \<or> has_flag k u RT_TIMER_FLAG_ACTIVATED)"
  by (auto simp: deactivate_def activate_def has_flag_def)

lemma has_flag_fields [simp]:
  "has_flag (timer_remove t k) = has_flag k" "has_flag (k\<lparr>hard_list := xs\<rparr>) = has_flag k" "has_flag (k\<lparr>rt_tick := n\<rparr>) = has_flag k"
  "has_flag (upd_timer t (\<lambda>x. x\<lparr>tm_timeout := g x\<rparr>) k) = has_flag k"
  by (auto simp: has_flag_def fun_eq_iff)

lemma started_simps [simp]:
  "rt_tick (started t k) = rt_tick k" "soft_list (started t k) = remove1 t (soft_list k)"
  "tm_init_tick (tmr (started t k) u) = tm_init_tick (tmr k u)"
  "tm_timeout (tmr (started t k) u) = (if u = t then rt_tick k + tm_init_tick (tmr k t) else tm_timeout (tmr k u))"
  "has_flag (started t k) u RT_TIMER_FLAG_SOFT_TIMER = has_flag k u RT_TIMER_FLAG_SOFT_TIMER"
  "has_flag (started t k) u RT_TIMER_FLAG_PERIODIC = has_flag k u RT_TIMER_FLAG_PERIODIC"
  "has_flag (started t k) u RT_TIMER_FLAG_ACTIVATED = (u = t \<or> has_flag k u RT_TIMER_FLAG_ACTIVATED)"
  by (auto simp: started_def Let_def)

lemma rt_timer_start_hard:
  "\<not> has_flag k t RT_TIMER_FLAG_SOFT_TIMER \<Longrightarrow> tm_init_tick (tmr k t) < TICK_HALF \<Longrightarrow>
     rt_timer_start wake t (w, k) = Some (w, started t k)"
  by (simp add: rt_timer_start_def started_def Let_def)

lemma timers_wfD:
  assumes "timers_wf base k"
  shows "distinct (hard_list k)" and "sorted (map (dist base k) (hard_list k))"
    and "t \<in> set (hard_list k) \<Longrightarrow> hard_timer k t" and "t \<in> set (hard_list k) \<Longrightarrow> dist base k t \<le> 0x7fffffff"
  using assms unat_half unfolding timers_wf_def by (auto simp del: map_map)

text \<open>A timer that is not in the list and starts: it goes behind the timers that expire no later.\<close>

lemma started_wf:
  assumes wf: "timers_wf base k" and t: "t \<notin> set (hard_list k)" and d: "dist base (started t k) t \<le> 0x7fffffff"
    and far: "\<forall>u \<in> set (hard_list k). dist base k u < 0x7fffffff + dist base (started t k) t"
    and kind: "\<not> has_flag k t RT_TIMER_FLAG_SOFT_TIMER" "has_flag k t RT_TIMER_FLAG_PERIODIC \<Longrightarrow> 0 < tm_init_tick (tmr k t) \<and> tm_init_tick (tmr k t) < TICK_HALF"
  shows "timers_wf base (started t k)"
    and "hard_list (started t k) =
      takeWhile (\<lambda>u. dist base k u \<le> dist base (started t k) t) (hard_list k) @ t #
      dropWhile (\<lambda>u. dist base k u \<le> dist base (started t k) t) (hard_list k)"
    and "set (hard_list (started t k)) = insert t (set (hard_list k))"
proof -
  let ?k = "started t k" and ?to = "\<lambda>u. tm_timeout (tmr (started t k) u)"
  have same: "dist base ?k u = dist base k u" if "u \<in> set (hard_list k)" for u
    using that t by (auto simp: dist_def)
  have eqm: "map (dist base ?k) (hard_list k) = map (dist base k) (hard_list k)" using same by simp
  have "hard_list ?k = timer_place ?to t (hard_list k)"
    using t by (simp add: started_def Let_def remove1_idem)
  also have "\<dots> = takeWhile (\<lambda>u. dist base ?k u \<le> dist base ?k t) (hard_list k) @ t # dropWhile (\<lambda>u. dist base ?k u \<le> dist base ?k t) (hard_list k)"
  proof (rule timer_place_eq [where base = base])
    show "sorted (map (dist base ?k) (hard_list k))" using timers_wfD(2) [OF wf] unfolding eqm .
    show "\<forall>u \<in> set (hard_list k). dist base ?k u = unat (?to u - base) \<and> dist base ?k u \<le> 0x7fffffff"
      using same timers_wfD(4) [OF wf] unfolding dist_def by metis
    show "\<forall>u \<in> set (hard_list k). dist base ?k u < 0x7fffffff + dist base ?k t" using far same by metis
  qed (use d in \<open>simp_all only: dist_def\<close>)
  finally have l: "hard_list ?k = takeWhile (\<lambda>u. dist base ?k u \<le> dist base ?k t) (hard_list k) @ t # dropWhile (\<lambda>u. dist base ?k u \<le> dist base ?k t) (hard_list k)" .
  have "takeWhile (\<lambda>u. dist base ?k u \<le> dist base ?k t) (hard_list k) = takeWhile (\<lambda>u. dist base k u \<le> dist base ?k t) (hard_list k)"
    by (rule takeWhile_cong) (use same in auto)
  moreover have "dropWhile (\<lambda>u. dist base ?k u \<le> dist base ?k t) (hard_list k) = dropWhile (\<lambda>u. dist base k u \<le> dist base ?k t) (hard_list k)"
    by (rule dropWhile_cong) (use same in auto)
  ultimately show l2: "hard_list ?k = takeWhile (\<lambda>u. dist base k u \<le> dist base ?k t) (hard_list k) @ t # dropWhile (\<lambda>u. dist base k u \<le> dist base ?k t) (hard_list k)"
    using l by simp
  have s: "sorted (map (dist base ?k) (hard_list ?k))"
    unfolding l
  proof (rule sorted_insert_place)
    show "sorted (map (dist base ?k) (hard_list k))" using timers_wfD(2) [OF wf] unfolding eqm .
  qed
  let ?P = "\<lambda>u. dist base k u \<le> dist base ?k t"
  have split: "takeWhile ?P (hard_list k) @ dropWhile ?P (hard_list k) = hard_list k" by simp
  show set: "set (hard_list ?k) = insert t (set (hard_list k))"
  proof -
    have "set (takeWhile ?P (hard_list k)) \<union> set (dropWhile ?P (hard_list k)) = set (hard_list k)"
      by (metis set_append split)
    then show ?thesis unfolding l2 by auto
  qed
  have dl: "distinct (hard_list ?k)"
  proof -
    have "distinct (takeWhile ?P (hard_list k) @ dropWhile ?P (hard_list k))" using timers_wfD(1) [OF wf] by (metis split)
    note parts = this [unfolded distinct_append]
    moreover have "t \<notin> set (takeWhile ?P (hard_list k))" "t \<notin> set (dropWhile ?P (hard_list k))"
      using t by (auto dest: set_takeWhileD set_dropWhileD)
    ultimately show ?thesis unfolding l2 by simp
  qed
  have h: "hard_timer ?k u \<and> dist base ?k u \<le> unat TICK_HALF" if "u \<in> set (hard_list ?k)" for u
  proof (cases "u = t")
    case True
    then show ?thesis using kind d by (simp add: hard_timer_def unat_half)
  next
    case False
    then have "u \<in> set (hard_list k)" using that set by simp
    then show ?thesis using timers_wfD(3,4) [OF wf] same [of u] by (simp add: hard_timer_def unat_half)
  qed
  show "timers_wf base ?k" unfolding timers_wf_def using dl s h by blast
qed

lemma periodic_far: "0 < n \<Longrightarrow> n < TICK_HALF \<Longrightarrow> unat (b + 1 + n - b) = Suc (unat n) \<and> 2 \<le> Suc (unat n) \<and> Suc (unat n) \<le> 0x7fffffff"
proof -
  assume n: "0 < n" "n < TICK_HALF"
  have "0 < unat n" "unat n < 0x7fffffff" using n by (simp_all add: word_less_nat_alt unat_half)
  moreover have "b + 1 + n - b = n + 1" by simp
  moreover from calculation have "unat (n + 1) = Suc (unat n)" by (simp add: unat_word_ariths)
  ultimately show ?thesis by (simp add: add.commute)
qed

text \<open>The first timer of the list fires in the tick after \<open>base\<close>.\<close>

lemma expire_wf:
  assumes wf: "timers_wf base k" and l: "hard_list k = t # ts" and now: "rt_tick k = base + 1"
  shows "timers_wf base (expire t k)" and "rt_tick (expire t k) = base + 1"
    and "u \<noteq> t \<Longrightarrow> tm_timeout (tmr (expire t k) u) = tm_timeout (tmr k u)"
    and "hard_list (expire t k) = (if has_flag k t RT_TIMER_FLAG_PERIODIC
      then let d = Suc (unat (tm_init_tick (tmr k t))) in
        takeWhile (\<lambda>u. dist base k u \<le> d) ts @ t # dropWhile (\<lambda>u. dist base k u \<le> d) ts
      else ts)"
    and "has_flag k t RT_TIMER_FLAG_PERIODIC \<Longrightarrow> dist base (expire t k) t = Suc (unat (tm_init_tick (tmr k t)))"
proof -
  let ?k = "deactivate t (timer_remove t k)"
  have t: "hard_timer k t" "t \<notin> set ts" using timers_wfD(1,3) [OF wf] l by auto
  have same: "dist base ?k u = dist base k u" "hard_list ?k = ts" for u using l by (simp_all add: dist_def)
  have w: "timers_wf base ?k"
    unfolding timers_wf_def same
  proof (intro conjI ballI)
    show "distinct ts" "sorted (map (dist base k) ts)" using timers_wfD(1,2) [OF wf] l by simp_all
  next
    fix u assume u: "u \<in> set ts"
    then show "hard_timer ?k u" "dist base k u \<le> unat TICK_HALF"
      using t(2) timers_wfD(3,4) [OF wf, of u] l by (auto simp: hard_timer_def unat_half)
  qed
  have e: "expire t k = (if has_flag k t RT_TIMER_FLAG_PERIODIC then started t ?k else ?k)" by (simp add: expire_def)
  show "rt_tick (expire t k) = base + 1" "u \<noteq> t \<Longrightarrow> tm_timeout (tmr (expire t k) u) = tm_timeout (tmr k u)" using now by (simp_all add: e)
  have p: "timers_wf base (started t ?k) \<and> dist base (started t ?k) t = Suc (unat (tm_init_tick (tmr k t))) \<and>
      hard_list (started t ?k) = (let d = Suc (unat (tm_init_tick (tmr k t))) in
        takeWhile (\<lambda>u. dist base k u \<le> d) ts @ t # dropWhile (\<lambda>u. dist base k u \<le> d) ts)"
    if "has_flag k t RT_TIMER_FLAG_PERIODIC"
  proof -
    have n: "0 < tm_init_tick (tmr k t)" "tm_init_tick (tmr k t) < TICK_HALF" using t(1) that by (auto simp: hard_timer_def)
    have d: "dist base (started t ?k) t = Suc (unat (tm_init_tick (tmr k t)))" using periodic_far [OF n, of base] now by (simp add: dist_def)
    have "\<forall>u \<in> set (hard_list ?k). dist base ?k u < 0x7fffffff + dist base (started t ?k) t"
      using timers_wfD(4) [OF w] d by (metis add_Suc_right le_imp_less_Suc trans_le_add1)
    moreover have "dist base (started t ?k) t \<le> 0x7fffffff" using d periodic_far [OF n] by simp
    ultimately show ?thesis using started_wf [OF w] t same d n by (simp add: hard_timer_def Let_def)
  qed
  show "timers_wf base (expire t k)" using w p by (auto simp: e)
  show "hard_list (expire t k) = (if has_flag k t RT_TIMER_FLAG_PERIODIC
      then let d = Suc (unat (tm_init_tick (tmr k t))) in
        takeWhile (\<lambda>u. dist base k u \<le> d) ts @ t # dropWhile (\<lambda>u. dist base k u \<le> d) ts
      else ts)" using p same(2) by (auto simp: e)
  show "has_flag k t RT_TIMER_FLAG_PERIODIC \<Longrightarrow> dist base (expire t k) t = Suc (unat (tm_init_tick (tmr k t)))" using p by (simp add: e)
qed

section \<open>The loop of one tick\<close>

lemma timer_again_eq:
  assumes "hard_timer k t"
  shows "timer_again wake t (w, timer_remove t k) = Some (w, expire t k)"
  using assms by (auto simp: timer_again_def hard_timer_def expire_def intro!: rt_timer_start_hard)

text \<open>The condition of the loop in terms of the distance.\<close>

lemma due_iff:
  assumes "dist base k t \<le> 0x7fffffff"
  shows "base + 1 - tm_timeout (tmr k t) < TICK_HALF \<longleftrightarrow> dist base k t \<le> 1"
proof -
  define d where "d = tm_timeout (tmr k t) - base"
  have e: "base + 1 - tm_timeout (tmr k t) = 1 - d" by (simp add: d_def)
  have n: "dist base k t = unat d" by (simp add: dist_def d_def)
  have "unat (1 - d) = (if unat d \<le> 1 then 1 - unat d else 1 + 2 ^ 32 - unat d)"
    using unat_sub_if' [of 1 d] by simp
  then show ?thesis unfolding e n word_less_nat_alt unat_half using assms n by auto
qed

lemma hard_unchanged:
  assumes wf: "timers_wf base k" and l: "hard_list k = t # ts" and now: "rt_tick k = base + 1" and u: "u \<noteq> t"
  shows "dist base (expire t k) u = dist base k u"
  using expire_wf(3) [OF wf l now u] by (simp add: dist_def)

lemma check_loop:
  assumes "timers_wf base k" and "rt_tick k = base + 1" and "hard_list k = es @ rest"
    and "\<forall>u \<in> set es. dist base k u \<le> 1" and "\<forall>u \<in> set rest. 1 < dist base k u"
  shows "timer_check_loop wake (timer_func f) (base + 1) (w, k) = map_option (\<lambda>w'. (w', fold expire es k)) (fires f es w) \<and>
    timers_wf base (fold expire es k) \<and> rt_tick (fold expire es k) = base + 1 \<and>
    (\<forall>u \<in> set (hard_list (fold expire es k)). 1 < dist base (fold expire es k) u) \<and>
    (\<forall>u. u \<notin> set es \<longrightarrow> tmr (fold expire es k) u = tmr k u \<and> (u \<in> set rest \<longrightarrow> u \<in> set (hard_list (fold expire es k)))) \<and>
    set (hard_list (fold expire es k)) = set rest \<union> {u \<in> set es. has_flag k u RT_TIMER_FLAG_PERIODIC} \<and>
    (\<forall>u \<in> set es. has_flag k u RT_TIMER_FLAG_PERIODIC \<longrightarrow>
       u \<in> set (hard_list (fold expire es k)) \<and> has_flag (fold expire es k) u RT_TIMER_FLAG_PERIODIC \<and>
       tm_init_tick (tmr (fold expire es k) u) = tm_init_tick (tmr k u) \<and>
       dist base (fold expire es k) u = Suc (unat (tm_init_tick (tmr k u))))"
  using assms
proof (induction es arbitrary: k w rest)
  case Nil
  have "timer_check_loop wake (timer_func f) (base + 1) (w, k) = Some (w, k)"
  proof (cases rest)
    case (Cons t ts)
    then have "\<not> base + 1 - tm_timeout (tmr k t) < TICK_HALF"
      using due_iff [of base k t] timers_wfD(4) [OF Nil(1), of t] Nil(3,5) by auto
    then show ?thesis using Cons Nil(3) by (subst timer_check_loop.simps) simp
  qed (use Nil in \<open>subst timer_check_loop.simps, simp\<close>)
  then show ?case using Nil by simp
next
  case (Cons t es)
  let ?k = "expire t k"
  have l: "hard_list k = t # (es @ rest)" using Cons.prems(3) by simp
  note E = expire_wf [OF Cons.prems(1) l Cons.prems(2)]
  note U = hard_unchanged [OF Cons.prems(1) l Cons.prems(2)]
  have t: "hard_timer k t" "t \<notin> set es" "t \<notin> set rest" "dist base k t \<le> 0x7fffffff"
    using timers_wfD(1,3,4) [OF Cons.prems(1)] l by auto
  define d where "d = Suc (unat (tm_init_tick (tmr k t)))"
  define rest' where "rest' = (if has_flag k t RT_TIMER_FLAG_PERIODIC
    then takeWhile (\<lambda>u. dist base k u \<le> d) rest @ t # dropWhile (\<lambda>u. dist base k u \<le> d) rest else rest)"
  have d2: "1 < d" if "has_flag k t RT_TIMER_FLAG_PERIODIC"
    using t(1) that by (simp add: d_def hard_timer_def word_less_nat_alt)
  have es: "dist base k u \<le> d" if "u \<in> set es" for u using Cons.prems(4) that by (auto simp: d_def le_Suc_eq)
  have l': "hard_list ?k = es @ rest'"
    using E(4) takeWhile_append2 [of es "\<lambda>u. dist base k u \<le> d" rest] dropWhile_append2 [of es "\<lambda>u. dist base k u \<le> d" rest] es
    by (simp add: rest'_def Let_def flip: d_def)
  have set': "set rest' = (if has_flag k t RT_TIMER_FLAG_PERIODIC then insert t (set rest) else set rest)"
    unfolding rest'_def using arg_cong [OF takeWhile_dropWhile_id, of set "\<lambda>u. dist base k u \<le> d" rest] by (simp only: set_append list.set) (auto)
  have near: "\<forall>u \<in> set es. dist base ?k u \<le> 1" using Cons.prems(4) t(2) U by (metis list.set_intros(2))
  have far: "\<forall>u \<in> set rest'. 1 < dist base ?k u"
  proof
    fix u assume u: "u \<in> set rest'"
    show "1 < dist base ?k u"
    proof (cases "u = t")
      case True
      then have "has_flag k t RT_TIMER_FLAG_PERIODIC" using u set' t(3) by (simp split: if_splits)
      then show ?thesis using E(5) d2 True by (simp add: d_def)
    next
      case False
      then have "u \<in> set rest" using u set' by (simp split: if_splits)
      then show ?thesis using Cons.prems(5) U [OF False] by simp
    qed
  qed
  have loop: "timer_check_loop wake (timer_func f) (base + 1) (w, k) =
      Option.bind (f t w) (\<lambda>w'. timer_check_loop wake (timer_func f) (base + 1) (w', ?k))"
  proof -
    have "base + 1 - tm_timeout (tmr k t) < TICK_HALF" using due_iff [OF t(4)] Cons.prems(4) by simp
    then show ?thesis using l t(1) Cons.prems(2) timer_again_eq [OF t(1), of wake]
      by (subst timer_check_loop.simps) (cases "f t w"; simp add: timer_func_def)
  qed
  note IH = Cons.IH [OF E(1,2) l' near far]
  have tmr: "tmr ?k u = tmr k u" if "u \<noteq> t" for u
    using that by (simp add: expire_def started_def deactivate_def activate_def Let_def)
  have per: "has_flag ?k u RT_TIMER_FLAG_PERIODIC = has_flag k u RT_TIMER_FLAG_PERIODIC" "tm_init_tick (tmr ?k u) = tm_init_tick (tmr k u)" for u
    by (simp_all add: expire_def)
  show ?case
  proof (intro conjI allI ballI impI)
    show "timer_check_loop wake (timer_func f) (base + 1) (w, k) =
        map_option (\<lambda>w'. (w', fold expire (t # es) k)) (fires f (t # es) w)"
      using loop IH by (cases "f t w") simp_all
    show "timers_wf base (fold expire (t # es) k)" "rt_tick (fold expire (t # es) k) = base + 1" using IH by simp_all
    show "1 < dist base (fold expire (t # es) k) u" if "u \<in> set (hard_list (fold expire (t # es) k))" for u
      using IH that by simp
    show "tmr (fold expire (t # es) k) u = tmr k u" if "u \<notin> set (t # es)" for u using IH that tmr [of u] by simp
    show "u \<in> set (hard_list (fold expire (t # es) k))" if "u \<notin> set (t # es)" "u \<in> set rest" for u
      using IH that set' by simp
    have "set (hard_list (fold expire es ?k)) = set rest' \<union> {u \<in> set es. has_flag ?k u RT_TIMER_FLAG_PERIODIC}" using IH by blast
    also have "\<dots> = set rest \<union> {u \<in> set (t # es). has_flag k u RT_TIMER_FLAG_PERIODIC}" using set' per(1) by auto
    finally show "set (hard_list (fold expire (t # es) k)) = set rest \<union> {u \<in> set (t # es). has_flag k u RT_TIMER_FLAG_PERIODIC}" by simp
  next
    fix u assume u: "u \<in> set (t # es)" and p: "has_flag k u RT_TIMER_FLAG_PERIODIC"
    have "u \<in> set (hard_list (fold expire es ?k)) \<and> has_flag (fold expire es ?k) u RT_TIMER_FLAG_PERIODIC \<and>
       tm_init_tick (tmr (fold expire es ?k) u) = tm_init_tick (tmr k u) \<and>
       dist base (fold expire es ?k) u = Suc (unat (tm_init_tick (tmr k u)))"
    proof (cases "u \<in> set es")
      case True
      then show ?thesis using IH p per by simp
    next
      case False
      then have "u = t" using u by simp
      then show ?thesis using IH False p per [of t] set' E(5) by (simp add: has_flag_def dist_def)
    qed
    then show "u \<in> set (hard_list (fold expire (t # es) k))" "has_flag (fold expire (t # es) k) u RT_TIMER_FLAG_PERIODIC"
      "tm_init_tick (tmr (fold expire (t # es) k) u) = tm_init_tick (tmr k u)"
      "dist base (fold expire (t # es) k) u = Suc (unat (tm_init_tick (tmr k u)))" by simp_all
  qed
qed

definition due :: "timers \<Rightarrow> nat list" where
  "due k = takeWhile (\<lambda>t. dist (rt_tick k) k t \<le> 1) (hard_list k)"

definition ticked :: "timers \<Rightarrow> timers" where
  "ticked k = fold expire (due k) (k\<lparr>rt_tick := rt_tick k + 1\<rparr>)"

lemma dist_shift: "1 \<le> dist base k t \<Longrightarrow> dist (base + 1) k t = dist base k t - 1"
proof -
  assume d: "1 \<le> dist base k t"
  have "tm_timeout (tmr k t) - base \<noteq> 0" using d by (auto simp: dist_def)
  then have "unat (tm_timeout (tmr k t) - base - 1) = dist base k t - 1" unfolding dist_def by (rule unat_minus_one)
  moreover have "tm_timeout (tmr k t) - base - 1 = tm_timeout (tmr k t) - (base + 1)" by simp
  ultimately show ?thesis by (simp only: dist_def)
qed

lemma due_split:
  assumes "timers_ok k"
  obtains rest where "hard_list k = due k @ rest" and "\<forall>u \<in> set (due k). dist (rt_tick k) k u \<le> 1"
    and "\<forall>u \<in> set rest. 1 < dist (rt_tick k) k u"
proof
  let ?P = "\<lambda>t. dist (rt_tick k) k t \<le> 1"
  show "hard_list k = due k @ dropWhile ?P (hard_list k)" by (simp add: due_def)
  show "\<forall>u \<in> set (due k). dist (rt_tick k) k u \<le> 1" by (auto simp: due_def dest: set_takeWhileD)
  show "\<forall>u \<in> set (dropWhile ?P (hard_list k)). 1 < dist (rt_tick k) k u"
    using sorted_dropWhile [of "dist (rt_tick k) k" "hard_list k" 1] assms timers_wfD(2) by (auto simp: timers_ok_def)
qed

text \<open>One tick: the due timers fire, in their order; what is left is in order again.\<close>

lemma tick_step:
  assumes ok: "timers_ok k"
  shows "rt_timer_check wake (timer_func f) (w, k\<lparr>rt_tick := rt_tick k + 1\<rparr>) =
      map_option (\<lambda>w'. (w', ticked k)) (fires f (due k) w)"
    and "timers_ok (ticked k)" and "rt_tick (ticked k) = rt_tick k + 1"
    and "u \<notin> set (due k) \<Longrightarrow> tmr (ticked k) u = tmr k u"
    and "u \<in> set (hard_list (ticked k)) \<longleftrightarrow> u \<in> set (hard_list k) \<and> (u \<in> set (due k) \<longrightarrow> has_flag k u RT_TIMER_FLAG_PERIODIC)"
    and "u \<in> set (due k) \<longleftrightarrow> u \<in> set (hard_list k) \<and> dist (rt_tick k) k u \<le> 1"
    and "u \<in> set (due k) \<Longrightarrow> has_flag k u RT_TIMER_FLAG_PERIODIC \<Longrightarrow>
      has_flag (ticked k) u RT_TIMER_FLAG_PERIODIC \<and> tm_init_tick (tmr (ticked k) u) = tm_init_tick (tmr k u) \<and>
      dist (rt_tick (ticked k)) (ticked k) u = unat (tm_init_tick (tmr k u))"
    and "distinct (due k)"
proof -
  let ?b = "rt_tick k" and ?k = "k\<lparr>rt_tick := rt_tick k + 1\<rparr>"
  obtain rest where r: "hard_list k = due k @ rest" "\<forall>u \<in> set (due k). dist ?b k u \<le> 1" "\<forall>u \<in> set rest. 1 < dist ?b k u"
    using due_split [OF ok] .
  have d: "dist ?b ?k = dist ?b k" by (simp add: dist_def fun_eq_iff)
  have wf: "timers_wf ?b ?k" using ok unfolding timers_ok_def timers_wf_def hard_timer_def by (simp add: d)
  note L = check_loop [OF wf, of "due k" rest wake f, folded ticked_def, unfolded d]
  have L': "timer_check_loop wake (timer_func f) (?b + 1) (w, ?k) = map_option (\<lambda>w'. (w', ticked k)) (fires f (due k) w)"
    "timers_wf ?b (ticked k)" "rt_tick (ticked k) = ?b + 1" "\<forall>u \<in> set (hard_list (ticked k)). 1 < dist ?b (ticked k) u"
    "\<And>u. u \<notin> set (due k) \<Longrightarrow> tmr (ticked k) u = tmr k u"
    "set (hard_list (ticked k)) = set rest \<union> {u \<in> set (due k). has_flag k u RT_TIMER_FLAG_PERIODIC}"
    "\<And>u. u \<in> set (due k) \<Longrightarrow> has_flag k u RT_TIMER_FLAG_PERIODIC \<Longrightarrow> has_flag (ticked k) u RT_TIMER_FLAG_PERIODIC \<and>
       tm_init_tick (tmr (ticked k) u) = tm_init_tick (tmr k u) \<and> dist ?b (ticked k) u = Suc (unat (tm_init_tick (tmr k u)))"
    using L r by simp_all
  show "rt_timer_check wake (timer_func f) (w, ?k) = map_option (\<lambda>w'. (w', ticked k)) (fires f (due k) w)"
    using L'(1) by (simp add: rt_timer_check_def)
  show "rt_tick (ticked k) = ?b + 1" "u \<notin> set (due k) \<Longrightarrow> tmr (ticked k) u = tmr k u" using L'(3,5) by simp_all
  show dd: "distinct (due k)" using ok r(1) timers_wfD(1) [of ?b k] by (simp add: timers_ok_def)
  show "u \<in> set (due k) \<longleftrightarrow> u \<in> set (hard_list k) \<and> dist ?b k u \<le> 1" using r by fastforce
  have "distinct (hard_list k)" using ok timers_wfD(1) by (auto simp: timers_ok_def)
  then have "set (due k) \<inter> set rest = {}" using r(1) by simp
  then show "u \<in> set (hard_list (ticked k)) \<longleftrightarrow> u \<in> set (hard_list k) \<and> (u \<in> set (due k) \<longrightarrow> has_flag k u RT_TIMER_FLAG_PERIODIC)"
    using L'(6) r(1) by auto
  have sh: "dist (?b + 1) (ticked k) u = dist ?b (ticked k) u - 1" if "u \<in> set (hard_list (ticked k))" for u
    by (rule dist_shift) (use L'(4) that in fastforce)
  show "has_flag (ticked k) u RT_TIMER_FLAG_PERIODIC \<and> tm_init_tick (tmr (ticked k) u) = tm_init_tick (tmr k u) \<and>
      dist (rt_tick (ticked k)) (ticked k) u = unat (tm_init_tick (tmr k u))"
    if "u \<in> set (due k)" "has_flag k u RT_TIMER_FLAG_PERIODIC"
    using L'(3) L'(7) [OF that] sh [of u] L'(6) that by simp
  show "timers_ok (ticked k)"
  proof -
    have "map (dist (?b + 1) (ticked k)) (hard_list (ticked k)) = map (\<lambda>n. n - 1) (map (dist ?b (ticked k)) (hard_list (ticked k)))"
      using sh by simp
    moreover have "sorted (map (\<lambda>n. n - 1) ns)" if "sorted ns" for ns :: "nat list"
      using that by (induction ns) (auto simp: diff_le_mono)
    ultimately have "sorted (map (dist (?b + 1) (ticked k)) (hard_list (ticked k)))" using timers_wfD(2) [OF L'(2)] by (simp only:)
    moreover have "dist (?b + 1) (ticked k) u < unat TICK_HALF" if "u \<in> set (hard_list (ticked k))" for u
      using sh [OF that] timers_wfD(4) [OF L'(2) that] L'(4) that by (fastforce simp: unat_half)
    ultimately show ?thesis using timers_wfD(1,3) [OF L'(2)] unfolding timers_ok_def timers_wf_def L'(3) by (auto intro: less_imp_le)
  qed
qed

lemma expire_flags [simp]:
  "has_flag (expire t k) u RT_TIMER_FLAG_SOFT_TIMER = has_flag k u RT_TIMER_FLAG_SOFT_TIMER"
  "has_flag (expire t k) u RT_TIMER_FLAG_PERIODIC = has_flag k u RT_TIMER_FLAG_PERIODIC"
  by (simp_all add: expire_def)

lemma ticked_flags:
  "has_flag (ticked k) u RT_TIMER_FLAG_SOFT_TIMER = has_flag k u RT_TIMER_FLAG_SOFT_TIMER"
  "has_flag (ticked k) u RT_TIMER_FLAG_PERIODIC = has_flag k u RT_TIMER_FLAG_PERIODIC"
proof -
  have "has_flag (fold expire es k) u RT_TIMER_FLAG_SOFT_TIMER = has_flag k u RT_TIMER_FLAG_SOFT_TIMER \<and>
      has_flag (fold expire es k) u RT_TIMER_FLAG_PERIODIC = has_flag k u RT_TIMER_FLAG_PERIODIC" for es k
    by (induction es arbitrary: k) simp_all
  then show "has_flag (ticked k) u RT_TIMER_FLAG_SOFT_TIMER = has_flag k u RT_TIMER_FLAG_SOFT_TIMER"
    "has_flag (ticked k) u RT_TIMER_FLAG_PERIODIC = has_flag k u RT_TIMER_FLAG_PERIODIC"
    by (simp_all add: ticked_def)
qed

section \<open>Many ticks\<close>

primrec tick_run ::
    "('w \<Rightarrow> 'w option) \<Rightarrow> ('w \<times> timers \<Rightarrow> ('w \<times> timers) option) \<Rightarrow> (nat \<Rightarrow> 'w \<times> timers \<Rightarrow> ('w \<times> timers) option) \<Rightarrow>
     nat \<Rightarrow> 'w \<times> timers \<Rightarrow> ('w \<times> timers) option" where
  "tick_run time_slice wake cb 0 s = Some s"
| "tick_run time_slice wake cb (Suc n) s = Option.bind (rt_tick_increase time_slice wake cb s) (tick_run time_slice wake cb n)"

text \<open>A timer whose time has not come.\<close>

lemma waiting:
  assumes "timers_ok k" and "t \<in> set (hard_list k)" and "1 < dist (rt_tick k) k t"
  shows "t \<notin> set (due k)" and "t \<in> set (hard_list (ticked k))" and "tmr (ticked k) t = tmr k t"
    and "dist (rt_tick (ticked k)) (ticked k) t = dist (rt_tick k) k t - 1"
proof -
  show n: "t \<notin> set (due k)" using tick_step(6) [OF assms(1)] assms(3) by simp
  then show "t \<in> set (hard_list (ticked k))" using tick_step(5) [OF assms(1)] assms(2) by simp
  show e: "tmr (ticked k) t = tmr k t" by (rule tick_step(4) [OF assms(1) n])
  have "dist (rt_tick k + 1) k t = dist (rt_tick k) k t - 1" by (rule dist_shift) (use assms(3) in simp)
  then show "dist (rt_tick (ticked k)) (ticked k) t = dist (rt_tick k) k t - 1"
    unfolding dist_def tick_step(3) [OF assms(1)] e .
qed

text \<open>How often a timer \<open>d\<close> ticks away fires in \<open>m\<close> ticks.\<close>

definition firings :: "bool \<Rightarrow> nat \<Rightarrow> nat \<Rightarrow> nat \<Rightarrow> nat" where
  "firings periodic n d m = (if periodic then (m + n - d) div n else if d \<le> m then 1 else 0)"

definition armed_inv :: "(nat set \<Rightarrow> 'w \<Rightarrow> bool) \<Rightarrow> (nat \<Rightarrow> bool) \<Rightarrow> 'w \<Rightarrow> timers \<Rightarrow> bool" where
  "armed_inv I per w k \<longleftrightarrow> timers_ok k \<and> I (set (hard_list k)) w \<and> (\<forall>u \<in> set (hard_list k). has_flag k u RT_TIMER_FLAG_PERIODIC \<longleftrightarrow> per u)"

text \<open>What the timers need of the rest of the system: while the timers in \<open>A\<close> are armed, an
  invariant \<open>I A\<close> holds under which the time slice and the functions of the armed timers
  return; \<open>per\<close> are the periodic timers, the others are no longer armed once they have fired.\<close>

locale timer_system =
  fixes time_slice :: "'w \<Rightarrow> 'w option" and f :: "nat \<Rightarrow> 'w \<Rightarrow> 'w option" and I :: "nat set \<Rightarrow> 'w \<Rightarrow> bool" and per :: "nat \<Rightarrow> bool"
  assumes slice_ok: "I A w \<Longrightarrow> \<exists>w'. time_slice w = Some w' \<and> I A w'"
    and func_ok: "I A w \<Longrightarrow> u \<in> A \<Longrightarrow> \<exists>w'. f u w = Some w' \<and> I (if per u then A else A - {u}) w'"
begin

lemma fires_ok:
  assumes "I A w" and "distinct es" and "set es \<subseteq> A"
  shows "\<exists>w'. fires f es w = Some w' \<and> I (A - {u \<in> set es. \<not> per u}) w'"
  using assms
proof (induction es arbitrary: w A)
  case (Cons u es)
  from func_ok [OF Cons.prems(1), of u] Cons.prems(3) obtain w1
    where w1: "f u w = Some w1" "I (if per u then A else A - {u}) w1" by auto
  have "set es \<subseteq> (if per u then A else A - {u})" using Cons.prems(2,3) by auto
  from Cons.IH [OF w1(2) _ this] Cons.prems(2) obtain w2
    where "fires f es w1 = Some w2" "I ((if per u then A else A - {u}) - {v \<in> set es. \<not> per v}) w2" by auto
  moreover have "(if per u then A else A - {u}) - {v \<in> set es. \<not> per v} = A - {v \<in> set (u # es). \<not> per v}" by auto
  ultimately show ?case using w1(1) by simp
qed simp

text \<open>A tick returns and keeps the invariant.\<close>

lemma tick_ok:
  assumes "armed_inv I per w k"
  shows "\<exists>w1 w'. time_slice w = Some w1 \<and> fires f (due k) w1 = Some w' \<and>
    rt_tick_increase time_slice wake (timer_func f) (w, k) = Some (w', ticked k) \<and> armed_inv I per w' (ticked k)"
proof -
  from assms have ok: "timers_ok k" and i: "I (set (hard_list k)) w" and p: "\<And>u. u \<in> set (hard_list k) \<Longrightarrow> has_flag k u RT_TIMER_FLAG_PERIODIC = per u"
    by (auto simp: armed_inv_def)
  note step = tick_step [OF ok]
  from slice_ok [OF i] obtain w1 where w1: "time_slice w = Some w1" "I (set (hard_list k)) w1" by blast
  have sub: "set (due k) \<subseteq> set (hard_list k)" using step(6) by blast
  from fires_ok [OF w1(2) step(8) sub] obtain w'
    where w': "fires f (due k) w1 = Some w'" "I (set (hard_list k) - {u \<in> set (due k). \<not> per u}) w'" by blast
  have "set (hard_list (ticked k)) = set (hard_list k) - {u \<in> set (due k). \<not> per u}" using step(5) sub p by auto
  moreover have "has_flag (ticked k) u RT_TIMER_FLAG_PERIODIC = per u" if "u \<in> set (hard_list (ticked k))" for u
  proof (cases "u \<in> set (due k)")
    case True
    then show ?thesis using that step(5) step(7) [OF True] p by auto
  next
    case False
    then show ?thesis using that step(5) step(4) [OF False] p by (simp add: has_flag_def)
  qed
  ultimately have "armed_inv I per w' (ticked k)" using step(2) w'(2) by (simp add: armed_inv_def)
  then show ?thesis using w1(1) w'(1) step(1) [of wake f w1] by (simp add: rt_tick_increase_def)
qed

lemma run_ok:
  "armed_inv I per w k \<Longrightarrow> \<exists>w' k'. tick_run time_slice wake (timer_func f) m (w, k) = Some (w', k') \<and> armed_inv I per w' k' \<and>
     (\<forall>u. has_flag k' u RT_TIMER_FLAG_SOFT_TIMER = has_flag k u RT_TIMER_FLAG_SOFT_TIMER \<and>
       has_flag k' u RT_TIMER_FLAG_PERIODIC = has_flag k u RT_TIMER_FLAG_PERIODIC)"
proof (induction m arbitrary: w k)
  case (Suc m)
  from tick_ok [OF Suc.prems, of wake] obtain w1
    where "rt_tick_increase time_slice wake (timer_func f) (w, k) = Some (w1, ticked k)" "armed_inv I per w1 (ticked k)" by blast
  with Suc.IH [of w1 "ticked k"] show ?case by (simp add: ticked_flags)
qed simp

end

text \<open>A part \<open>obs\<close> of the system that only the timer \<open>t\<close> changes, by the function \<open>g\<close>.\<close>

locale timer_observer = timer_system +
  fixes t :: nat and obs :: "'a \<Rightarrow> 'b" and g :: "'b \<Rightarrow> 'b"
  assumes slice_obs: "I A w \<Longrightarrow> time_slice w = Some w' \<Longrightarrow> obs w' = obs w"
    and func_obs: "I A w \<Longrightarrow> u \<in> A \<Longrightarrow> f u w = Some w' \<Longrightarrow> obs w' = (if u = t then g (obs w) else obs w)"
begin

lemma fires_obs:
  assumes "I A w" and "distinct es" and "set es \<subseteq> A" and "fires f es w = Some w'"
  shows "obs w' = (if t \<in> set es then g (obs w) else obs w)"
  using assms
proof (induction es arbitrary: w A)
  case (Cons u es)
  from func_ok [OF Cons.prems(1), of u] Cons.prems(3) obtain w1
    where w1: "f u w = Some w1" "I (if per u then A else A - {u}) w1" by auto
  have "obs w' = (if t \<in> set es then g (obs w1) else obs w1)"
    by (rule Cons.IH [OF w1(2)]) (use Cons.prems w1(1) in auto)
  then show ?case using func_obs [OF Cons.prems(1) _ w1(1)] Cons.prems(2,3) by auto
qed simp

lemma tick_obs:
  assumes "armed_inv I per w k"
  shows "\<exists>w'. rt_tick_increase time_slice wake (timer_func f) (w, k) = Some (w', ticked k) \<and> armed_inv I per w' (ticked k) \<and>
    obs w' = (if t \<in> set (due k) then g (obs w) else obs w)"
proof -
  have ok: "timers_ok k" and i: "I (set (hard_list k)) w" using assms by (auto simp: armed_inv_def)
  from tick_ok [OF assms, of wake] obtain w1 w' where w: "time_slice w = Some w1" "fires f (due k) w1 = Some w'"
    "rt_tick_increase time_slice wake (timer_func f) (w, k) = Some (w', ticked k)" "armed_inv I per w' (ticked k)" by blast
  have i1: "I (set (hard_list k)) w1" using slice_ok [OF i] w(1) by auto
  have "obs w' = (if t \<in> set (due k) then g (obs w1) else obs w1)"
    by (rule fires_obs [OF i1 tick_step(8) [OF ok] _ w(2)]) (use tick_step(6) [OF ok] in blast)
  then show ?thesis using w slice_obs [OF i w(1)] by simp
qed

text \<open>A timer that is not in the list stays silent.\<close>

lemma silent:
  assumes "armed_inv I per w k" and "t \<notin> set (hard_list k)"
  shows "\<exists>w' k'. tick_run time_slice wake (timer_func f) m (w, k) = Some (w', k') \<and> armed_inv I per w' k' \<and> obs w' = obs w"
  using assms
proof (induction m arbitrary: w k)
  case (Suc m)
  have ok: "timers_ok k" using Suc.prems(1) by (simp add: armed_inv_def)
  have "t \<notin> set (due k)" using tick_step(6) [OF ok] Suc.prems(2) by simp
  with tick_obs [OF Suc.prems(1), of wake] obtain w1
    where w1: "rt_tick_increase time_slice wake (timer_func f) (w, k) = Some (w1, ticked k)" "armed_inv I per w1 (ticked k)" "obs w1 = obs w" by auto
  have "t \<notin> set (hard_list (ticked k))" using tick_step(5) [OF ok] Suc.prems(2) by simp
  with Suc.IH [OF w1(2)] w1 show ?case by simp
qed simp

lemma firings_run:
  assumes "armed_inv I per w k" and "t \<in> set (hard_list k)" and "unat (tm_init_tick (tmr k t)) = n"
    and "dist (rt_tick k) k t = d" and "0 < d" and "d \<le> n"
  shows "\<exists>w' k'. tick_run time_slice wake (timer_func f) m (w, k) = Some (w', k') \<and> armed_inv I per w' k' \<and>
    obs w' = (g ^^ firings (per t) n d m) (obs w)"
  using assms
proof (induction m arbitrary: w k d)
  case 0
  then have "n - d < n" by simp
  then show ?case using 0 by (simp add: firings_def)
next
  case (Suc m)
  have ok: "timers_ok k" and p: "has_flag k t RT_TIMER_FLAG_PERIODIC = per t"
    using Suc.prems(1,2) by (auto simp: armed_inv_def)
  note step = tick_step [OF ok]
  from tick_obs [OF Suc.prems(1), of wake] obtain w1
    where w1: "rt_tick_increase time_slice wake (timer_func f) (w, k) = Some (w1, ticked k)" "armed_inv I per w1 (ticked k)"
      "obs w1 = (if t \<in> set (due k) then g (obs w) else obs w)" by blast
  show ?case
  proof (cases "d = 1")
    case False
    then have far: "1 < dist (rt_tick k) k t" using Suc.prems(4,5) by simp
    note wt = waiting [OF ok Suc.prems(2) far]
    have "\<exists>w' k'. tick_run time_slice wake (timer_func f) m (w1, ticked k) = Some (w', k') \<and> armed_inv I per w' k' \<and>
        obs w' = (g ^^ firings (per t) n (d - 1) m) (obs w1)"
      by (rule Suc.IH [OF w1(2)]) (use wt Suc.prems far in simp_all)
    moreover have "firings (per t) n (d - 1) m = firings (per t) n d (Suc m)" using False Suc.prems(5,6) by (auto simp: firings_def)
    ultimately show ?thesis using w1 wt(1) by simp
  next
    case True
    then have du: "t \<in> set (due k)" using step(6) Suc.prems(2,4) by simp
    show ?thesis
    proof (cases "per t")
      case False
      then have "t \<notin> set (hard_list (ticked k))" using step(5) du p by simp
      from silent [OF w1(2) this, of wake m] w1 du False True show ?thesis by (simp add: firings_def)
    next
      case per: True
      note s7 = step(7) [OF du p [THEN iffD2, OF per]]
      have "\<exists>w' k'. tick_run time_slice wake (timer_func f) m (w1, ticked k) = Some (w', k') \<and> armed_inv I per w' k' \<and>
          obs w' = (g ^^ firings (per t) n n m) (obs w1)"
        by (rule Suc.IH [OF w1(2)]) (use step(5) [of t] s7 Suc.prems p per in simp_all)
      moreover have "n \<noteq> 0" using True Suc.prems(6) by simp
      then have "firings (per t) n d (Suc m) = Suc (firings (per t) n n m)" using True per div_add_self2 [of n m] by (simp add: firings_def)
      ultimately show ?thesis using w1 du by (simp add: funpow_swap1)
    qed
  qed
qed

end

section \<open>Starting a timer\<close>

lemma wf_without:
  assumes "timers_wf base k"
  shows "timers_wf base (k\<lparr>hard_list := remove1 t (hard_list k)\<rparr>)"
proof -
  have "dist base (k\<lparr>hard_list := xs\<rparr>) = dist base k" "hard_timer (k\<lparr>hard_list := xs\<rparr>) = hard_timer k" for xs
    by (simp_all add: dist_def hard_timer_def fun_eq_iff)
  then show ?thesis using assms unfolding timers_wf_def
    by (auto simp: sorted_map_remove1 distinct_remove1 dest: in_set_takeD intro: notin_set_remove1)
qed

lemma started_without: "distinct (hard_list k) \<Longrightarrow> started t (k\<lparr>hard_list := remove1 t (hard_list k)\<rparr>) = started t k"
  by (simp add: started_def timer_remove_def deactivate_def activate_def upd_timer_def Let_def remove1_idem)

lemma start_ok:
  assumes ok: "timers_ok k" and kind: "\<not> has_flag k t RT_TIMER_FLAG_SOFT_TIMER"
    and n: "0 < tm_init_tick (tmr k t)" "tm_init_tick (tmr k t) < TICK_HALF"
  shows "rt_timer_start wake t (w, k) = Some (w, started t k)" and "timers_ok (started t k)"
    and "set (hard_list (started t k)) = insert t (set (hard_list k))"
    and "dist (rt_tick k) (started t k) t = unat (tm_init_tick (tmr k t))"
    and "u \<noteq> t \<Longrightarrow> dist (rt_tick k) (started t k) u = dist (rt_tick k) k u"
proof -
  let ?b = "rt_tick k" and ?k = "k\<lparr>hard_list := remove1 t (hard_list k)\<rparr>"
  show "rt_timer_start wake t (w, k) = Some (w, started t k)" by (rule rt_timer_start_hard [OF kind n(2)])
  have wf: "timers_wf ?b k" and lt: "\<forall>u \<in> set (hard_list k). dist ?b k u < unat TICK_HALF" using ok by (auto simp: timers_ok_def)
  note wf' = wf_without [OF wf, of t]
  have st: "started t ?k = started t k" by (rule started_without [OF timers_wfD(1) [OF wf]])
  show d: "dist ?b (started t k) t = unat (tm_init_tick (tmr k t))" by (simp add: dist_def)
  show o: "u \<noteq> t \<Longrightarrow> dist ?b (started t k) u = dist ?b k u" for u by (simp add: dist_def)
  have init: "0 < unat (tm_init_tick (tmr k t))" "unat (tm_init_tick (tmr k t)) < 0x7fffffff"
    using n by (simp_all add: word_less_nat_alt unat_half)
  have nin: "t \<notin> set (hard_list ?k)" using timers_wfD(1) [OF wf] by simp
  have same: "dist ?b ?k = dist ?b k" by (simp add: dist_def fun_eq_iff)
  have le: "dist ?b (started t ?k) t \<le> 0x7fffffff" using d init by (simp add: st)
  have far: "\<forall>u \<in> set (hard_list ?k). dist ?b ?k u < 0x7fffffff + dist ?b (started t ?k) t"
    unfolding same st using timers_wfD(4) [OF wf'] d init by (fastforce simp: same)
  have kind': "\<not> has_flag ?k t RT_TIMER_FLAG_SOFT_TIMER"
    "has_flag ?k t RT_TIMER_FLAG_PERIODIC \<Longrightarrow> 0 < tm_init_tick (tmr ?k t) \<and> tm_init_tick (tmr ?k t) < TICK_HALF"
    using kind n by simp_all
  note S = started_wf [OF wf' nin le far kind', unfolded st]
  show set: "set (hard_list (started t k)) = insert t (set (hard_list k))"
    using S(3) timers_wfD(1) [OF wf] by auto
  have "dist ?b (started t k) u < unat TICK_HALF" if "u \<in> set (hard_list (started t k))" for u
  proof (cases "u = t")
    case True
    then show ?thesis using d init by (simp add: unat_half)
  next
    case False
    then show ?thesis using that lt o [OF False] set by simp
  qed
  then show "timers_ok (started t k)" using S(1) by (simp add: timers_ok_def)
qed

context timer_observer
begin

lemma start_fires:
  assumes "armed_inv I per w k" and "I (insert t (set (hard_list k))) w"
    and "\<not> has_flag k t RT_TIMER_FLAG_SOFT_TIMER" and "has_flag k t RT_TIMER_FLAG_PERIODIC \<longleftrightarrow> per t"
    and "0 < tm_init_tick (tmr k t)" and "tm_init_tick (tmr k t) < TICK_HALF"
  shows "\<exists>k1. rt_timer_start wake t (w, k) = Some (w, k1) \<and>
    (\<exists>w' k'. tick_run time_slice wake (timer_func f) m (w, k1) = Some (w', k') \<and> armed_inv I per w' k' \<and>
      obs w' = (g ^^ (if per t then m div unat (tm_init_tick (tmr k t))
        else if unat (tm_init_tick (tmr k t)) \<le> m then 1 else 0)) (obs w))"
proof -
  let ?n = "unat (tm_init_tick (tmr k t))"
  have ok: "timers_ok k" using assms(1) by (simp add: armed_inv_def)
  note S = start_ok [OF ok assms(3,5,6)]
  have n: "0 < ?n" using assms(5) by (simp add: word_less_nat_alt)
  have a: "armed_inv I per w (started t k)" using S(2,3) assms(1,2,4) by (auto simp: armed_inv_def)
  have "\<exists>w' k'. tick_run time_slice wake (timer_func f) m (w, started t k) = Some (w', k') \<and> armed_inv I per w' k' \<and>
      obs w' = (g ^^ firings (per t) ?n ?n m) (obs w)"
    by (rule firings_run [OF a]) (use S(3,4) n in simp_all)
  then show ?thesis using S(1) [of wake w]
    by (intro exI [of _ "started t k"] conjI) (simp_all only: firings_def add_diff_cancel_right')
qed

end

section \<open>Properties\<close>

text \<open>
  Claim C29: a hard timer that is started with \<open>n\<close> ticks, \<open>0 < n < RT_TICK_MAX / 2\<close>, whatever the
  value of the tick counter and whatever timers run beside it, is not called before the \<open>n\<close>-th
  tick; a one-shot timer is called in that tick and never again, a periodic one once in every
  \<open>n\<close> ticks, so \<open>m div n\<close> times in \<open>m\<close> ticks. The ticks return, and the lists stay in order. The
  rest of the system keeps the contract \<open>timer_observer\<close>: while the armed timers are in order
  with it, the time slice and their functions return, and only \<open>t\<close> changes \<open>obs\<close>.
\<close>

theorem timer_fires_on_time:
  assumes "timer_observer time_slice f I per t obs g" and "armed_inv I per w k" and "I (insert t (set (hard_list k))) w"
    and "\<not> has_flag k t RT_TIMER_FLAG_SOFT_TIMER" and "has_flag k t RT_TIMER_FLAG_PERIODIC \<longleftrightarrow> per t"
    and "0 < tm_init_tick (tmr k t)" and "tm_init_tick (tmr k t) < TICK_HALF"
  shows "\<exists>k1. rt_timer_start wake t (w, k) = Some (w, k1) \<and>
    (\<exists>w' k'. tick_run time_slice wake (timer_func f) m (w, k1) = Some (w', k') \<and> armed_inv I per w' k' \<and>
      obs w' = (g ^^ (if per t then m div unat (tm_init_tick (tmr k t))
        else if unat (tm_init_tick (tmr k t)) \<le> m then 1 else 0)) (obs w))"
  by (rule timer_observer.start_fires [OF assms])

definition sample_timers :: timers where
  "sample_timers = \<lparr>rt_tick = 0xfffffffe, tmr = (\<lambda>_. \<lparr>tm_init_tick = 3, tm_timeout = 0, tm_flag = RT_TIMER_FLAG_PERIODIC\<rparr>),
     hard_list = [], soft_list = []\<rparr>"

lemma sample_timers_ok: "timers_ok sample_timers"
  by (simp add: timers_ok_def timers_wf_def sample_timers_def)

text \<open>A counter of the calls of timer 7.\<close>

definition count_calls :: "nat \<Rightarrow> nat \<Rightarrow> nat option" where
  "count_calls u c = Some (if u = 7 then Suc c else c)"

interpretation counter: timer_observer Some count_calls "\<lambda>_ _. True" "\<lambda>_. True" 7 "\<lambda>c. c" Suc
  by unfold_locales (auto simp: count_calls_def)

theorem timer_fires_on_time_witness:
  "\<exists>k1 w' k'. rt_timer_start Some 7 (0 :: nat, sample_timers) = Some (0, k1) \<and>
     tick_run Some Some (timer_func count_calls) 10 (0, k1) = Some (w', k') \<and> w' = 3"
proof -
  have c: "has_flag sample_timers 7 RT_TIMER_FLAG_PERIODIC" "\<not> has_flag sample_timers 7 RT_TIMER_FLAG_SOFT_TIMER"
    "tm_init_tick (tmr sample_timers 7) = 3" "armed_inv (\<lambda>_ _. True) (\<lambda>_. True) (0 :: nat) sample_timers"
    using sample_timers_ok by (simp_all add: armed_inv_def) (simp_all add: sample_timers_def has_flag_def timer_flags)
  have d: "(Suc ^^ n) 0 = n" for n by (induction n) simp_all
  show ?thesis using timer_fires_on_time [OF counter.timer_observer_axioms c(4) _ c(2), of Some 10] c d
    by (simp add: TICK_HALF_def) blast
qed

text \<open>
  In every tick \<open>rt_timer_check\<close> calls exactly the timers whose time has come, each once,
  in the order in which they expire and, among equals, in which they were started; the state
  it leaves is in order again, so the loop ends in every tick.
\<close>

theorem tick_calls_due_timers:
  assumes "timers_ok k"
  shows "rt_timer_check wake (timer_func f) (w, k\<lparr>rt_tick := rt_tick k + 1\<rparr>) = map_option (\<lambda>w'. (w', ticked k)) (fires f (due k) w) \<and>
    timers_ok (ticked k) \<and> distinct (due k) \<and> sorted (map (dist (rt_tick k) k) (due k)) \<and>
    set (due k) = {t \<in> set (hard_list k). tm_timeout (tmr k t) \<in> {rt_tick k, rt_tick k + 1}} \<and>
    set (hard_list (ticked k)) = {t \<in> set (hard_list k). t \<in> set (due k) \<longrightarrow> has_flag k t RT_TIMER_FLAG_PERIODIC}"
proof -
  note s = tick_step [OF assms]
  have "dist (rt_tick k) k t \<le> 1 \<longleftrightarrow> tm_timeout (tmr k t) \<in> {rt_tick k, rt_tick k + 1}" for t
  proof -
    have "dist (rt_tick k) k t \<le> 1 \<longleftrightarrow> tm_timeout (tmr k t) - rt_tick k \<in> {0, 1}"
    proof -
      have "unat x \<le> 1 \<longleftrightarrow> x \<in> {0, 1}" for x :: u32 by (metis One_nat_def insert_iff le_Suc_eq le_zero_eq order_refl singletonD unat_0 unat_1 unsigned_word_eqI)
      then show ?thesis by (simp add: dist_def)
    qed
    also have "\<dots> \<longleftrightarrow> tm_timeout (tmr k t) \<in> {rt_tick k, rt_tick k + 1}" by (auto simp: algebra_simps)
    finally show ?thesis .
  qed
  then have "set (due k) = {t \<in> set (hard_list k). tm_timeout (tmr k t) \<in> {rt_tick k, rt_tick k + 1}}" using s(6) by auto
  moreover have "sorted (map (dist (rt_tick k) k) (due k))"
  proof -
    obtain rest where "hard_list k = due k @ rest" using due_split [OF assms] .
    then show ?thesis using assms timers_wfD(2) [of "rt_tick k" k] by (simp add: timers_ok_def sorted_append)
  qed
  moreover have "set (hard_list (ticked k)) = {t \<in> set (hard_list k). t \<in> set (due k) \<longrightarrow> has_flag k t RT_TIMER_FLAG_PERIODIC}"
    using s(5) by blast
  ultimately show ?thesis using s(1) [of wake f w] s(2,8) by blast
qed

theorem tick_calls_due_timers_witness:
  "due (started 7 sample_timers) = [] \<and> timers_ok (ticked (started 7 sample_timers))"
proof -
  have "timers_ok (started 7 sample_timers)"
    using sample_timers_ok by (rule start_ok(2)) (simp_all add: sample_timers_def has_flag_def timer_flags TICK_HALF_def)
  moreover have "due (started 7 sample_timers) = []"
    by (simp add: due_def started_def sample_timers_def dist_def Let_def upd_timer_def deactivate_def activate_def timer_remove_def)
  ultimately show ?thesis
    using tick_calls_due_timers [of "started 7 sample_timers" Some "\<lambda>_ w. Some w" "0 :: nat"] by simp
qed

section \<open>Limits\<close>

text \<open>A periodic timer of 0 ticks: once it is due, the loop of \<open>rt_timer_check\<close> does not end.\<close>

definition zero_timer :: "nat \<Rightarrow> timers \<Rightarrow> bool" where
  "zero_timer t k \<longleftrightarrow> hard_list k = [t] \<and> has_flag k t RT_TIMER_FLAG_ACTIVATED \<and> has_flag k t RT_TIMER_FLAG_PERIODIC \<and>
     \<not> has_flag k t RT_TIMER_FLAG_SOFT_TIMER \<and> tm_init_tick (tmr k t) = 0 \<and> tm_timeout (tmr k t) = rt_tick k"

lemma zero_timer_again:
  assumes "zero_timer t k"
  shows "\<exists>k'. timer_again wake t (w, timer_remove t k) = Some (w, k') \<and> zero_timer t k' \<and> rt_tick k' = rt_tick k"
proof -
  let ?k = "deactivate t (timer_remove t k)"
  have "rt_timer_start wake t (w, ?k) = Some (w, started t ?k)"
    by (rule rt_timer_start_hard) (use assms in \<open>simp_all add: zero_timer_def TICK_HALF_def\<close>)
  then have "timer_again wake t (w, timer_remove t k) = Some (w, started t ?k)"
    using assms by (simp add: timer_again_def zero_timer_def)
  moreover have "hard_list (started t ?k) = [t]" using assms by (simp add: zero_timer_def started_def Let_def)
  ultimately show ?thesis using assms by (simp add: zero_timer_def)
qed

lemma periodic_zero_loop:
  assumes "timer_check_loop wake cb now s = Some r"
  shows "cb = timer_func (\<lambda>_ w. Some w) \<Longrightarrow> \<not> (zero_timer t (snd s) \<and> now = rt_tick (snd s))"
  using assms
proof (induction rule: timer_check_loop.raw_induct [rotated, consumes 1])
  case (1 loop wake cb now s r)
  show ?case
  proof
    assume z: "zero_timer t (snd s) \<and> now = rt_tick (snd s)"
    obtain k' where k': "timer_again wake t (fst s, timer_remove t (snd s)) = Some (fst s, k')" "zero_timer t k'" "rt_tick k' = rt_tick (snd s)"
      using zero_timer_again [of t "snd s" wake "fst s"] z by blast
    then have "loop wake cb now (fst s, k') = Some r"
      using 1(2,3) z by (simp add: zero_timer_def timer_func_def TICK_HALF_def)
    from 1(1) [OF this 1(3)] k' z show False by simp
  qed
qed

lemma periodic_zero_hangs:
  "zero_timer t k \<Longrightarrow> rt_timer_check wake (timer_func (\<lambda>_ w. Some w)) (w, k) = None"
  using periodic_zero_loop [of wake "timer_func (\<lambda>_ w. Some w)" "rt_tick k" "(w, k)" _ t]
  unfolding rt_timer_check_def by (metis not_None_eq snd_conv)

text \<open>A soft timer that its predecessor stopped: the cursor already points to it. Its function is
  called although it was stopped, and as its node points to itself, the loop does not end.\<close>

lemma stale_cursor_loop:
  assumes "soft_check_loop wake cb enter leave now n s = Some r"
  shows "cb t = timer_func (\<lambda>_ w. Some w) t \<Longrightarrow> (\<forall>w. leave w = Some w) \<Longrightarrow> n = Some t \<Longrightarrow>
    \<not> has_flag (snd s) t RT_TIMER_FLAG_PERIODIC \<Longrightarrow> t \<notin> set (soft_list (snd s)) \<Longrightarrow> now = rt_tick (snd s) \<Longrightarrow>
    \<not> rt_tick (snd s) - tm_timeout (tmr (snd s) t) < TICK_HALF"
  using assms
proof (induction rule: soft_check_loop.raw_induct [rotated, consumes 1])
  case (1 loop wake cb enter leave now n s r)
  show ?case
  proof
    assume due: "rt_tick (snd s) - tm_timeout (tmr (snd s) t) < TICK_HALF"
    let ?s = "(enter (fst s), deactivate t (timer_remove t (snd s)))"
    have "loop wake cb enter leave now (Some t) ?s = Some r"
      using 1(2-) due by (simp add: timer_func_def timer_again_def soft_next_def)
    from 1(1) [OF this 1(3,4) refl] due 1(6-8) show False by simp
  qed
qed

text \<open>Two soft timers due in the same check, the function of the first stops the second.\<close>

definition stopping :: "nat \<Rightarrow> 'w \<times> timers \<Rightarrow> ('w \<times> timers) option" where
  "stopping t = (\<lambda>(w, k). Some (if t = 0 then (w, fst (rt_timer_stop 1 k)) else (w, k)))"

definition soft_sample :: timers where
  "soft_sample = \<lparr>rt_tick = 5, tmr = (\<lambda>_. \<lparr>tm_init_tick = 5, tm_timeout = 5, tm_flag = 5\<rparr>), hard_list = [], soft_list = [0, 1]\<rparr>"

lemma soft_check_hangs: "soft_check_loop wake stopping enter Some 5 (soft_first soft_sample) (w, soft_sample) = None"
proof (rule ccontr)
  assume "soft_check_loop wake stopping enter Some 5 (soft_first soft_sample) (w, soft_sample) \<noteq> None"
  then obtain r where r: "soft_check_loop wake stopping enter Some 5 (soft_first soft_sample) (w, soft_sample) = Some r" by auto
  define k where "k = deactivate 0 (fst (rt_timer_stop 1 (timer_remove 0 soft_sample)))"
  have first: "soft_first soft_sample = Some 0" "soft_next soft_sample 0 = Some 1"
    by (simp_all add: soft_first_def soft_sample_def soft_next_def)
  have due: "5 - tm_timeout (tmr soft_sample 0) < TICK_HALF" by (simp add: soft_sample_def TICK_HALF_def)
  have tick: "rt_tick (fst (rt_timer_stop 1 (timer_remove 0 soft_sample))) = 5"
    by (simp add: rt_timer_stop_def soft_sample_def)
  have "\<not> has_flag (fst (rt_timer_stop 1 (timer_remove 0 soft_sample))) 0 RT_TIMER_FLAG_PERIODIC"
    by (simp add: rt_timer_stop_def) (simp add: soft_sample_def has_flag_def timer_flags)
  then have "timer_again wake 0 (enter w, fst (rt_timer_stop 1 (timer_remove 0 soft_sample))) = Some (enter w, k)"
    by (simp add: timer_again_def k_def)
  then have "soft_check_loop wake stopping enter Some 5 (Some 1) (enter w, k) = Some r"
    using r first due tick by (subst (asm) soft_check_loop.simps) (simp add: stopping_def)
  from stale_cursor_loop [OF this, of 1] tick show False
    by (simp add: k_def rt_timer_stop_def stopping_def timer_func_def)
      (simp add: soft_sample_def has_flag_def timer_flags TICK_HALF_def fun_eq_iff deactivate_def upd_timer_def timer_remove_def)
qed

text \<open>\<open>rt_tick_from_millisecond\<close> with 1000 ticks a second is the number of milliseconds.\<close>

lemma tick_from_millisecond:
  assumes "0 \<le> ms"
  shows "rt_tick_from_millisecond ms = of_int ms"
proof -
  have "(1000 * m + 999) div 1000 = m" for m :: int by simp
  then have "rt_tick_from_millisecond ms = of_int (1000 * (ms div 1000)) + of_int (ms mod 1000)"
    unfolding rt_tick_from_millisecond_def using assms by simp
  also have "\<dots> = of_int (1000 * (ms div 1000) + ms mod 1000)" by (simp only: of_int_add)
  also have "\<dots> = of_int ms" by (simp only: mult_div_mod_eq)
  finally show ?thesis .
qed

end
