(* ===== verification/Rt_Thread.thy ===== *)
theory Rt_Thread
  imports Rt_Timer
begin

text \<open>
  Threads (\<open>rt-thread/src/thread.c\<close>) over the scheduler and the timers: starting, suspending and
  resuming a thread, sleeping, changing the priority, ending, and the cleaning of ended threads
  by the idle thread (\<open>idle.c\<close>). A state is the pair of scheduler and timers. The built-in timer
  of thread \<open>t\<close> has the number \<open>2 * t\<close>; timers of the application have odd numbers and functions
  that do not touch the scheduler. Each operation is the code up to the switch; what a thread
  does when it runs again is a definition of its own (\<open>..._return\<close>). \<open>tt\<close> is the timer thread.
  \<open>None\<close> is a failed assertion. Stacks, entry functions and the object container are left out.
  The theory shows that the operations keep scheduler and timers in order with each other, and
  that a sleeping thread is ready again in exactly the tick it asked for.
\<close>

section \<open>Operations\<close>

type_synonym kernel = "sched \<times> timers"

definition RT_ETIMEOUT_CODE :: int where "RT_ETIMEOUT_CODE = 2"

definition thread_timer :: "nat \<Rightarrow> nat" where
  "thread_timer t = 2 * t"

record thread_env =
  te_static :: "nat \<Rightarrow> bool"    \<comment> \<open>\<open>rt_object_is_systemobject\<close>\<close>
  te_cleanup :: "nat \<Rightarrow> bool"   \<comment> \<open>a cleanup function is set\<close>

definition thread_init :: "nat \<Rightarrow> u8 \<Rightarrow> u32 \<Rightarrow> kernel \<Rightarrow> kernel option" where
  "thread_init t priority tick = (\<lambda>(s, k).
     if linked s t \<or> \<not> unat priority < RT_THREAD_PRIORITY_MAX then None
     else do {
       k1 \<leftarrow> rt_timer_init (thread_timer t) 0 0 k;
       Some (upd_thread t (\<lambda>_. \<lparr>st_stat = RT_THREAD_INIT, st_priority = priority, st_init_priority = priority, st_mask = 0,
          st_error = 0, st_init_tick = tick, st_remaining_tick = tick\<rparr>) s, k1)
     })"

text \<open>\<open>rt_thread_create\<close> needs an object and a stack; the result says whether there is a thread.\<close>

definition rt_thread_create :: "bool \<Rightarrow> bool \<Rightarrow> nat \<Rightarrow> u8 \<Rightarrow> u32 \<Rightarrow> kernel \<Rightarrow> (kernel \<times> bool) option" where
  "rt_thread_create object stack t priority tick s =
     (if \<not> object \<or> \<not> stack then Some (s, False) else map_option (\<lambda>s1. (s1, True)) (thread_init t priority tick s))"

definition rt_thread_self :: "sched \<Rightarrow> nat option" where
  "rt_thread_self s = current s"

definition rt_thread_resume :: "nat \<Rightarrow> kernel \<Rightarrow> (kernel \<times> int) option" where
  "rt_thread_resume t = (\<lambda>(s, k).
     if stat_of s t \<noteq> RT_THREAD_SUSPEND then Some ((s, k), -1)
     else map_option (\<lambda>s1. ((s1, fst (rt_timer_stop (thread_timer t) k)), 0)) (rt_schedule_insert_thread t (unlink t s)))"

definition rt_thread_suspend :: "nat \<Rightarrow> kernel \<Rightarrow> (kernel \<times> int) option" where
  "rt_thread_suspend t = (\<lambda>(s, k).
     if stat_of s t \<noteq> RT_THREAD_READY \<and> stat_of s t \<noteq> RT_THREAD_RUNNING then Some ((s, k), -1)
     else if stat_of s t = RT_THREAD_RUNNING \<and> rt_thread_self s \<noteq> Some t then None
     else map_option (\<lambda>s1. ((set_stat t RT_THREAD_SUSPEND s1, fst (rt_timer_stop (thread_timer t) k)), 0))
       (rt_schedule_remove_thread t s))"

definition set_priority :: "nat \<Rightarrow> u8 \<Rightarrow> sched \<Rightarrow> sched" where
  "set_priority t p = upd_thread t (\<lambda>x. x\<lparr>st_priority := p, st_mask := push_bit (unat p) 1\<rparr>)"

definition rt_thread_startup :: "nat \<Rightarrow> kernel \<Rightarrow> kernel option" where
  "rt_thread_startup t = (\<lambda>(s, k).
     if stat_of s t \<noteq> RT_THREAD_INIT then None
     else do {
       let s1 = upd_thread t (\<lambda>x. x\<lparr>st_stat := RT_THREAD_SUSPEND\<rparr>) (set_priority t (st_init_priority (thr s t)) s);
       ((s2, k2), _) \<leftarrow> rt_thread_resume t (s1, k);
       if rt_thread_self s2 \<noteq> None then map_option (\<lambda>s3. (s3, k2)) (rt_schedule s2) else Some (s2, k2)
     })"

text \<open>The timeout function of the built-in timer.\<close>

definition rt_thread_timeout_k :: "nat \<Rightarrow> sched \<Rightarrow> sched option" where
  "rt_thread_timeout_k t s =
     (if stat_of s t \<noteq> RT_THREAD_SUSPEND then None
      else do {
        s1 \<leftarrow> rt_schedule_insert_thread t (unlink t (upd_thread t (\<lambda>x. x\<lparr>st_error := - RT_ETIMEOUT_CODE\<rparr>) s));
        rt_schedule s1
      })"

definition timer_functions :: "nat \<Rightarrow> sched \<Rightarrow> sched option" where
  "timer_functions u s = (if even u then rt_thread_timeout_k (u div 2) s else Some s)"

text \<open>The end of \<open>rt_timer_start\<close> for a soft timer.\<close>

definition timer_wake :: "nat \<Rightarrow> kernel \<Rightarrow> kernel option" where
  "timer_wake tt = (\<lambda>(s, k).
     if stat_of s tt = RT_THREAD_SUSPEND
     then do {
       ((s1, k1), _) \<leftarrow> rt_thread_resume tt (s, k);
       s2 \<leftarrow> rt_schedule s1;
       Some (s2, k1)
     }
     else Some (s, k))"

definition rt_thread_sleep :: "nat \<Rightarrow> u32 \<Rightarrow> kernel \<Rightarrow> kernel option" where
  "rt_thread_sleep tt tick = (\<lambda>(s, k).
     case rt_thread_self s of None \<Rightarrow> None
     | Some c \<Rightarrow> do {
         ((s1, k1), _) \<leftarrow> rt_thread_suspend c (s, k);
         let k2 = fst (rt_timer_control (thread_timer c) 0 tick k1);
         (s3, k3) \<leftarrow> rt_timer_start (timer_wake tt) (thread_timer c) (s1, k2);
         s4 \<leftarrow> rt_schedule s3;
         Some (s4, k3)
       })"

definition rt_thread_sleep_return :: "nat \<Rightarrow> sched \<Rightarrow> sched" where
  "rt_thread_sleep_return c s =
     (if st_error (thr s c) = - RT_ETIMEOUT_CODE then upd_thread c (\<lambda>x. x\<lparr>st_error := 0\<rparr>) s else s)"

definition rt_thread_delay :: "nat \<Rightarrow> u32 \<Rightarrow> kernel \<Rightarrow> kernel option" where
  "rt_thread_delay tt tick = rt_thread_sleep tt tick"

definition rt_thread_mdelay :: "nat \<Rightarrow> int \<Rightarrow> kernel \<Rightarrow> kernel option" where
  "rt_thread_mdelay tt ms = rt_thread_sleep tt (rt_tick_from_millisecond ms)"

text \<open>The new value of \<open>*tick\<close> is the tick at the return.\<close>

definition rt_thread_delay_until :: "nat \<Rightarrow> u32 \<Rightarrow> u32 \<Rightarrow> kernel \<Rightarrow> kernel option" where
  "rt_thread_delay_until tt last_tick inc = (\<lambda>(s, k).
     if rt_thread_self s = None then None
     else if rt_tick k - last_tick < inc then rt_thread_sleep tt (rt_tick k - last_tick + inc) (s, k)
     else Some (s, k))"

definition rt_thread_delay_until_return :: "nat \<Rightarrow> kernel \<Rightarrow> kernel \<times> u32" where
  "rt_thread_delay_until_return c = (\<lambda>(s, k). ((rt_thread_sleep_return c s, k), rt_tick k))"

text \<open>Changing the priority: a ready thread goes to the end of the list of the new one.\<close>

definition thread_change_priority :: "nat \<Rightarrow> u8 \<Rightarrow> sched \<Rightarrow> sched option" where
  "thread_change_priority t p s =
     (if stat_of s t = RT_THREAD_READY
      then do { s1 \<leftarrow> rt_schedule_remove_thread t s; rt_schedule_insert_thread t (set_priority t p s1) }
      else Some (set_priority t p s))"

text \<open>The end of a thread: what \<open>rt_thread_exit\<close>, \<open>rt_thread_detach\<close> and \<open>rt_thread_delete\<close> share.\<close>

definition close_thread :: "bool \<Rightarrow> nat \<Rightarrow> kernel \<Rightarrow> kernel" where
  "close_thread defer_free t = (\<lambda>(s, k).
     let s1 = upd_thread t (\<lambda>x. x\<lparr>st_stat := RT_THREAD_CLOSE\<rparr>) s in
     (if defer_free then s1\<lparr>defunct := t # defunct s1\<rparr> else s1, rt_timer_detach (thread_timer t) k))"

definition rt_thread_exit :: "thread_env \<Rightarrow> kernel \<Rightarrow> kernel option" where
  "rt_thread_exit env = (\<lambda>(s, k).
     case rt_thread_self s of None \<Rightarrow> None
     | Some c \<Rightarrow> do {
         s1 \<leftarrow> rt_schedule_remove_thread c s;
         let (s2, k2) = close_thread (\<not> (te_static env c \<and> \<not> te_cleanup env c)) c (s1, k);
         s3 \<leftarrow> rt_schedule s2;
         Some (s3, k2)
       })"

definition rt_thread_detach :: "thread_env \<Rightarrow> nat \<Rightarrow> kernel \<Rightarrow> kernel option" where
  "rt_thread_detach env t = (\<lambda>(s, k).
     if \<not> te_static env t then None
     else do {
       s1 \<leftarrow> (if stat_of s t \<noteq> RT_THREAD_INIT then rt_schedule_remove_thread t s else Some s);
       Some (close_thread (te_cleanup env t) t (s1, k))
     })"

definition rt_thread_delete :: "thread_env \<Rightarrow> nat \<Rightarrow> kernel \<Rightarrow> kernel option" where
  "rt_thread_delete env t = (\<lambda>(s, k).
     if te_static env t then None
     else do {
       s1 \<leftarrow> (if stat_of s t \<noteq> RT_THREAD_INIT then rt_schedule_remove_thread t s else Some s);
       Some (close_thread True t (s1, k))
     })"

definition rt_thread_control :: "thread_env \<Rightarrow> nat \<Rightarrow> int \<Rightarrow> u8 \<Rightarrow> kernel \<Rightarrow> kernel option" where
  "rt_thread_control env t cmd arg = (\<lambda>(s, k).
     if cmd = 2 then map_option (\<lambda>s1. (s1, k)) (thread_change_priority t arg s)
     else if cmd = 0 then rt_thread_startup t (s, k)
     else if cmd = 1 then rt_thread_delete env t (s, k)
     else Some (s, k))"

text \<open>\<open>rt_thread_idle_excute\<close>: the threads whose memory is given back are added to \<open>freed\<close>.\<close>

partial_function (option) rt_thread_idle_excute :: "thread_env \<Rightarrow> nat list \<Rightarrow> sched \<Rightarrow> (sched \<times> nat list) option" where
  "rt_thread_idle_excute env freed s =
     (case defunct s of
        [] \<Rightarrow> Some (s, freed)
      | t # _ \<Rightarrow> do {
          s1 \<leftarrow> rt_exit_critical (rt_enter_critical (unlink t s));
          if te_static env t then Some (s1, freed) else rt_thread_idle_excute env (freed @ [t]) s1
        })"

text \<open>One round of \<open>rt_thread_timer_entry\<close> up to the next check of the soft timers.\<close>

definition rt_thread_timer_entry :: "nat \<Rightarrow> kernel \<Rightarrow> kernel option" where
  "rt_thread_timer_entry tt = (\<lambda>(s, k).
     let next_timeout = rt_timer_list_next_timeout (soft_list k) k in
     if next_timeout = RT_TICK_MAX
     then case rt_thread_self s of None \<Rightarrow> None
       | Some c \<Rightarrow> do {
           ((s1, k1), _) \<leftarrow> rt_thread_suspend c (s, k);
           s2 \<leftarrow> rt_schedule s1;
           Some (s2, k1)
         }
     else if next_timeout - rt_tick k < TICK_HALF then rt_thread_delay tt (next_timeout - rt_tick k) (s, k)
     else Some (s, k))"

section \<open>What the operations do to the scheduler\<close>

text \<open>The states a thread has while it competes for the processor.\<close>

definition runnable :: "sched \<Rightarrow> nat \<Rightarrow> bool" where
  "runnable s t \<longleftrightarrow> stat_of s t \<in> {RT_THREAD_READY, RT_THREAD_RUNNING}"

lemma st_error_simps [simp]:
  "st_error (thr (set_stat t v s) u) = st_error (thr s u)" "st_error (thr (clear_yield t s) u) = st_error (thr s u)"
  "st_error (thr (switched s c t) u) = st_error (thr s u)"
  by (simp_all add: set_stat_def clear_yield_def switched_def preempted_def left_cpu_def)

text \<open>Scheduling never fails, and changes the state of runnable threads only.\<close>

lemma schedule_total:
  assumes inv: "sched_inv s" and cur: "current s = Some c"
  shows "\<exists>s'. rt_schedule s = Some s' \<and> sched_inv s' \<and> current s' \<noteq> None \<and> lock_nest s' = lock_nest s \<and> defunct s' = defunct s \<and>
    (\<forall>u. st_error (thr s' u) = st_error (thr s u) \<and> (runnable s u = runnable s' u) \<and> (\<not> runnable s u \<longrightarrow> stat_of s' u = stat_of s u))"
proof (cases "lock_nest s = 0")
  case False
  then show ?thesis using schedule_idle inv cur by auto
next
  case nest: True
  from inv nest cur show ?thesis
  proof (cases rule: schedule_cases)
    case none
    then show ?thesis using inv cur by auto
  next
    case keep
    have "c \<notin> set (defunct s)" using sched_invD(7) [OF inv, of c] keep(1) by auto
    then show ?thesis using keep kept_inv [OF inv keep(1)] cur by (auto simp: runnable_def remove1_idem)
  next
    case (switch t rest)
    have "t \<notin> set (defunct s)" using sched_invD(7) [OF inv, of t] switch(3) by auto
    then show ?thesis using switch switched_inv [OF inv cur switch(3)] by (auto simp: runnable_def remove1_idem)
  qed
qed

lemma upd_error [simp]:
  "stat_of (upd_thread t (\<lambda>x. x\<lparr>st_error := e\<rparr>) s) u = stat_of s u"
  "sched_inv (upd_thread t (\<lambda>x. x\<lparr>st_error := e\<rparr>) s) = sched_inv s"
  using upd_ticks [of "\<lambda>x. x\<lparr>st_error := e\<rparr>"] by simp_all

text \<open>Unlinking a thread that is not ready.\<close>

lemma unlink_free:
  assumes "t \<notin> ready_set s"
  shows "p < RT_THREAD_PRIORITY_MAX \<Longrightarrow> ready_table (unlink t s) p = ready_table s p" and "ready_set (unlink t s) = ready_set s"
    and "stat_of (unlink t s) = stat_of s" and "prio (unlink t s) = prio s" and "wf_thread (unlink t s) = wf_thread s"
    and "sched_inv s \<Longrightarrow> sched_inv (unlink t s)"
proof -
  show r: "ready_table (unlink t s) p = ready_table s p" if "p < RT_THREAD_PRIORITY_MAX" for p
    using assms that by (auto simp: ready_set_def intro!: remove1_idem)
  show rs: "ready_set (unlink t s) = ready_set s" using r by (simp add: ready_set_def)
  show f: "stat_of (unlink t s) = stat_of s" "prio (unlink t s) = prio s" "wf_thread (unlink t s) = wf_thread s"
    by (simp_all add: stat_of_def prio_def wf_thread_def fun_eq_iff)
  have "lists_wf (unlink t s) = lists_wf s" using r f by (simp add: lists_wf_def)
  then show "sched_inv s \<Longrightarrow> sched_inv (unlink t s)"
    using rs f notin_set_remove1 [of _ "defunct s" t] unfolding sched_inv_def by auto
qed

lemma pushed_inv:
  assumes inv: "sched_inv s" and t: "stat_of s t = RT_THREAD_SUSPEND" and c: "current s \<noteq> Some t"
  shows "sched_inv (pushed t s)"
proof (rule sched_invI)
  have w: "wf_thread s t" using sched_invD(5) [OF inv, of t] t by simp
  have n: "t \<notin> ready_set s" using sched_invD(2) [OF inv, of t] t by simp
  show "lists_wf (pushed t s)" by (rule lists_wf_pushed [OF sched_invD(1) [OF inv] w n])
  show "u \<in> ready_set (pushed t s) \<longleftrightarrow> stat_of (pushed t s) u = RT_THREAD_READY" for u
    using sched_invD(2) [OF inv, of u] w by simp
  show "stat_of (pushed t s) u = RT_THREAD_RUNNING \<Longrightarrow> current (pushed t s) = Some u" for u
    using sched_invD(3) [OF inv, of u] by (simp split: if_splits)
  show "current (pushed t s) = Some u \<Longrightarrow> stat_of (pushed t s) u \<noteq> RT_THREAD_READY" for u
    using sched_invD(4) [OF inv, of u] c by auto
  show "stat_of (pushed t s) u \<in> {RT_THREAD_READY, RT_THREAD_SUSPEND, RT_THREAD_RUNNING} \<Longrightarrow> wf_thread (pushed t s) u" for u
    using sched_invD(5) [OF inv, of u] w by (simp split: if_splits)
  show "distinct (defunct (pushed t s))" "u \<in> set (defunct (pushed t s)) \<Longrightarrow> stat_of (pushed t s) u = RT_THREAD_CLOSE" for u
    using sched_invD(6,7) [OF inv] t by auto
qed

lemma current_runs_inv:
  assumes inv: "sched_inv s" and t: "stat_of s t = RT_THREAD_SUSPEND" and c: "current s = Some t"
  shows "sched_inv (set_stat t RT_THREAD_RUNNING s)"
proof (rule sched_invI)
  let ?s = "set_stat t RT_THREAD_RUNNING s"
  have w: "wf_thread s t" using sched_invD(5) [OF inv, of t] t by simp
  show "lists_wf ?s" using sched_invD(1) [OF inv] by simp
  show "u \<in> ready_set ?s \<longleftrightarrow> stat_of ?s u = RT_THREAD_READY" for u
    using sched_invD(2) [OF inv, of u] t by auto
  show "stat_of ?s u = RT_THREAD_RUNNING \<Longrightarrow> current ?s = Some u" for u
    using sched_invD(3) [OF inv, of u] c by (simp split: if_splits)
  show "current ?s = Some u \<Longrightarrow> stat_of ?s u \<noteq> RT_THREAD_READY" for u using c by auto
  show "stat_of ?s u \<in> {RT_THREAD_READY, RT_THREAD_SUSPEND, RT_THREAD_RUNNING} \<Longrightarrow> wf_thread ?s u" for u
    using sched_invD(5) [OF inv, of u] w by (simp split: if_splits)
  show "distinct (defunct ?s)" "u \<in> set (defunct ?s) \<Longrightarrow> stat_of ?s u = RT_THREAD_CLOSE" for u
    using sched_invD(6,7) [OF inv] t by auto
qed

text \<open>A suspended thread goes to the end of its ready list, or stays the current one.\<close>

lemma insert_suspended:
  assumes inv: "sched_inv s" and t: "stat_of s t = RT_THREAD_SUSPEND"
  shows "\<exists>s'. rt_schedule_insert_thread t (unlink t s) = Some s' \<and> sched_inv s' \<and> current s' = current s \<and> lock_nest s' = lock_nest s \<and>
    runnable s' t \<and> (\<forall>u. st_error (thr s' u) = st_error (thr s u) \<and> (u \<noteq> t \<longrightarrow> stat_of s' u = stat_of s u)) \<and>
    (current s \<noteq> Some t \<longrightarrow> stat_of s' t = RT_THREAD_READY \<and> ready_table s' (prio s t) = ready_table s (prio s t) @ [t])"
proof -
  have w: "wf_thread s t" using sched_invD(5) [OF inv, of t] t by simp
  have n: "t \<notin> ready_set s" "t \<notin> set (defunct s)" using sched_invD(2,7) [OF inv, of t] t by auto
  let ?s = "unlink t s"
  note U = unlink_free [OF n(1)]
  have i: "sched_inv ?s" "stat_of ?s t = RT_THREAD_SUSPEND" using U(3) U(6) [OF inv] t by simp_all
  show ?thesis
  proof (cases "current s = Some t")
    case True
    then have "rt_schedule_insert_thread t ?s = Some (set_stat t RT_THREAD_RUNNING ?s)"
      by (simp add: rt_schedule_insert_thread_def)
    then show ?thesis using current_runs_inv [OF i] True U(3) by (simp add: runnable_def)
  next
    case False
    have "rt_schedule_insert_thread t ?s = Some (pushed t ?s)"
      by (rule insert_eq) (use False w n U in simp_all)
    then show ?thesis using pushed_inv [OF i] False U(1,3,4) w by (simp add: runnable_def wf_thread_def)
  qed
qed

section \<open>The contract with the timers\<close>

text \<open>A thread whose timer is armed is suspended.\<close>

definition threads_ok :: "nat set \<Rightarrow> sched \<Rightarrow> bool" where
  "threads_ok A s \<longleftrightarrow> sched_inv s \<and> current s \<noteq> None \<and> (\<forall>t. thread_timer t \<in> A \<longrightarrow> stat_of s t = RT_THREAD_SUSPEND)"

lemma upd_slice:
  assumes "sched_inv s" and "current s = Some c" and "\<And>x. st_priority (f x) = st_priority x" and "\<And>x. st_mask (f x) = st_mask x"
    and "\<And>x. st_stat (f x) AND RT_THREAD_STAT_MASK = st_stat x AND RT_THREAD_STAT_MASK" and "\<And>x. st_error (f x) = st_error x"
  shows "sched_inv (upd_thread c f s)" and "stat_of (upd_thread c f s) u = stat_of s u"
    and "st_error (thr (upd_thread c f s) u) = st_error (thr s u)" and "current (upd_thread c f s) = Some c"
  using upd_ticks [of f c s] assms by simp_all

lemma slice_total:
  assumes inv: "sched_inv s" and cur: "current s = Some c"
  shows "\<exists>s'. tick_slice s = Some s' \<and> sched_inv s' \<and> current s' \<noteq> None \<and>
    (\<forall>u. st_error (thr s' u) = st_error (thr s u) \<and> (runnable s u = runnable s' u) \<and> (\<not> runnable s u \<longrightarrow> stat_of s' u = stat_of s u))"
proof -
  let ?f = "\<lambda>x. x\<lparr>st_remaining_tick := st_remaining_tick x - 1\<rparr>"
  let ?g = "\<lambda>x. x\<lparr>st_remaining_tick := st_init_tick x, st_stat := st_stat x OR RT_THREAD_STAT_YIELD\<rparr>"
  let ?s1 = "upd_thread c ?f s"
  note F = upd_slice [OF inv cur, of ?f]
  show ?thesis
  proof (cases "st_remaining_tick (thr ?s1 c) = 0")
    case False
    then have "tick_slice s = Some ?s1" using cur by (simp add: tick_slice_def Let_def)
    then show ?thesis using F by (simp add: runnable_def)
  next
    case True
    then have e: "tick_slice s = rt_schedule (upd_thread c ?g ?s1)"
      using cur by (simp add: tick_slice_def Let_def rt_thread_yield_def)
    have G: "sched_inv (upd_thread c ?g ?s1)" "stat_of (upd_thread c ?g ?s1) u = stat_of s u"
      "st_error (thr (upd_thread c ?g ?s1) u) = st_error (thr s u)" "current (upd_thread c ?g ?s1) = Some c" for u
      using upd_slice [OF F(1) F(4), of ?g] F(2,3) by simp_all
    show ?thesis using schedule_total [OF G(1,4)] unfolding e runnable_def G(2,3) by blast
  qed
qed

lemma timeout_total:
  assumes inv: "sched_inv s" and cur: "current s \<noteq> None" and t: "stat_of s t = RT_THREAD_SUSPEND"
  shows "\<exists>s'. rt_thread_timeout_k t s = Some s' \<and> sched_inv s' \<and> current s' \<noteq> None \<and> runnable s' t \<and>
    st_error (thr s' t) = - RT_ETIMEOUT_CODE \<and>
    (\<forall>u. u \<noteq> t \<longrightarrow> st_error (thr s' u) = st_error (thr s u) \<and> runnable s u = runnable s' u \<and> (\<not> runnable s u \<longrightarrow> stat_of s' u = stat_of s u))"
proof -
  let ?s = "upd_thread t (\<lambda>x. x\<lparr>st_error := - RT_ETIMEOUT_CODE\<rparr>) s"
  have "sched_inv ?s" "stat_of ?s t = RT_THREAD_SUSPEND" using inv t by simp_all
  from insert_suspended [OF this] obtain s1 where s1: "rt_schedule_insert_thread t (unlink t ?s) = Some s1" "sched_inv s1"
    "current s1 = current s" "runnable s1 t" "st_error (thr s1 t) = - RT_ETIMEOUT_CODE"
    "\<And>u. u \<noteq> t \<Longrightarrow> st_error (thr s1 u) = st_error (thr s u) \<and> stat_of s1 u = stat_of s u" by auto
  obtain c where "current s1 = Some c" using cur s1(3) by auto
  from schedule_total [OF s1(2) this] obtain s2 where s2: "rt_schedule s1 = Some s2" "sched_inv s2" "current s2 \<noteq> None"
    "\<And>u. st_error (thr s2 u) = st_error (thr s1 u) \<and> (runnable s1 u = runnable s2 u) \<and> (\<not> runnable s1 u \<longrightarrow> stat_of s2 u = stat_of s1 u)" by blast
  have "rt_thread_timeout_k t s = Some s2" using t s1(1) s2(1) by (simp add: rt_thread_timeout_k_def)
  moreover have "runnable s1 u = runnable s u" if "u \<noteq> t" for u using s1(6) [OF that] by (simp add: runnable_def)
  ultimately show ?thesis using s1(4-6) s2(2-4) by metis
qed

text \<open>The view of thread \<open>c\<close>: competing for the processor or its state, and its error code.\<close>

definition thread_view :: "nat \<Rightarrow> sched \<Rightarrow> u8 \<times> int" where
  "thread_view c s = (if runnable s c then RT_THREAD_READY else stat_of s c, st_error (thr s c))"

lemma thread_view_eq:
  assumes "\<forall>u. st_error (thr s' u) = st_error (thr s u) \<and> (runnable s u = runnable s' u) \<and> (\<not> runnable s u \<longrightarrow> stat_of s' u = stat_of s u)"
  shows "thread_view c s' = thread_view c s"
  using assms by (simp add: thread_view_def)

lemma not_runnable: "stat_of s u = RT_THREAD_SUSPEND \<Longrightarrow> \<not> runnable s u"
  by (simp add: runnable_def)

lemma threads_slice:
  assumes "threads_ok A s"
  shows "\<exists>s'. tick_slice s = Some s' \<and> threads_ok A s' \<and> (\<forall>c. thread_view c s' = thread_view c s)"
proof -
  obtain c where c: "sched_inv s" "current s = Some c" using assms by (auto simp: threads_ok_def)
  from slice_total [OF c] obtain s' where s': "tick_slice s = Some s'" "sched_inv s'" "current s' \<noteq> None"
    "\<forall>u. st_error (thr s' u) = st_error (thr s u) \<and> (runnable s u = runnable s' u) \<and> (\<not> runnable s u \<longrightarrow> stat_of s' u = stat_of s u)" by blast
  have "stat_of s' t = RT_THREAD_SUSPEND" if "thread_timer t \<in> A" for t
    using assms that s'(4) not_runnable [of s t] by (simp add: threads_ok_def)
  then have "threads_ok A s'" using s'(2,3) by (simp add: threads_ok_def)
  then show ?thesis using s'(1) thread_view_eq [OF s'(4)] by blast
qed

lemma threads_timer:
  assumes ok: "threads_ok A s" and u: "u \<in> A"
  shows "\<exists>s'. timer_functions u s = Some s' \<and> threads_ok (if odd u \<and> p u then A else A - {u}) s' \<and>
    (\<forall>c. thread_view c s' = (if u = thread_timer c then (RT_THREAD_READY, - RT_ETIMEOUT_CODE) else thread_view c s))"
proof (cases "even u")
  case False
  then show ?thesis using ok by (auto simp: timer_functions_def threads_ok_def thread_timer_def)
next
  case True
  define t where "t = u div 2"
  have ut: "u = thread_timer t" using True by (simp add: t_def thread_timer_def)
  have t: "sched_inv s" "current s \<noteq> None" "stat_of s t = RT_THREAD_SUSPEND" using ok u by (auto simp: threads_ok_def ut)
  from timeout_total [OF t] obtain s' where s': "rt_thread_timeout_k t s = Some s'" "sched_inv s'" "current s' \<noteq> None" "runnable s' t"
    "st_error (thr s' t) = - RT_ETIMEOUT_CODE"
    "\<forall>v. v \<noteq> t \<longrightarrow> st_error (thr s' v) = st_error (thr s v) \<and> runnable s v = runnable s' v \<and> (\<not> runnable s v \<longrightarrow> stat_of s' v = stat_of s v)" by blast
  have "stat_of s' v = RT_THREAD_SUSPEND" if "thread_timer v \<in> A - {u}" for v
  proof -
    have "v \<noteq> t" "stat_of s v = RT_THREAD_SUSPEND" using that ok by (auto simp: ut threads_ok_def)
    then show ?thesis using s'(6) not_runnable [of s v] by simp
  qed
  then have "threads_ok (A - {u}) s'" using s'(2,3) by (simp add: threads_ok_def)
  moreover have "thread_view c s' = (if u = thread_timer c then (RT_THREAD_READY, - RT_ETIMEOUT_CODE) else thread_view c s)" for c
  proof (cases "c = t")
    case True
    then show ?thesis using s'(4,5) ut by (simp add: thread_view_def)
  next
    case False
    then have "u \<noteq> thread_timer c" by (simp add: ut thread_timer_def)
    then show ?thesis using s'(6) False by (simp add: thread_view_def)
  qed
  moreover have "timer_functions u s = Some s'" using s'(1) True by (simp add: timer_functions_def t_def)
  ultimately show ?thesis using True by auto
qed

interpretation sleeper: timer_observer tick_slice timer_functions threads_ok "\<lambda>u. odd u \<and> p u" "thread_timer c" "thread_view c"
  "\<lambda>_. (RT_THREAD_READY, - RT_ETIMEOUT_CODE)" for c p
proof unfold_locales
  show "\<exists>s'. tick_slice s = Some s' \<and> threads_ok A s'" if "threads_ok A s" for A s
    using threads_slice [OF that] by blast
  show "\<exists>s'. timer_functions u s = Some s' \<and> threads_ok (if odd u \<and> p u then A else A - {u}) s'" if "threads_ok A s" "u \<in> A" for A s u
    using threads_timer [OF that] by blast
  show "thread_view c s' = thread_view c s" if "threads_ok A s" "tick_slice s = Some s'" for A s s'
    using threads_slice [OF that(1)] that(2) by auto
  show "thread_view c s' = (if u = thread_timer c then (RT_THREAD_READY, - RT_ETIMEOUT_CODE) else thread_view c s)"
    if "threads_ok A s" "u \<in> A" "timer_functions u s = Some s'" for A s u s'
    using threads_timer [OF that(1,2)] that(3) by auto
qed

section \<open>Suspending and sleeping\<close>

lemma suspended_inv:
  assumes inv: "sched_inv s" and t: "runnable s t"
  shows "sched_inv (set_stat t RT_THREAD_SUSPEND (pulled t s))"
proof (rule sched_invI)
  let ?s = "set_stat t RT_THREAD_SUSPEND (pulled t s)"
  have w: "wf_thread s t" using sched_invD(5) [OF inv, of t] t by (auto simp: runnable_def)
  have d: "t \<notin> set (defunct s)" using sched_invD(7) [OF inv, of t] t by (auto simp: runnable_def)
  show "lists_wf ?s" using lists_wf_pulled [OF sched_invD(1) [OF inv] w] by simp
  show "u \<in> ready_set ?s \<longleftrightarrow> stat_of ?s u = RT_THREAD_READY" for u
    using ready_set_pulled [OF sched_invD(1) [OF inv], of t] sched_invD(2) [OF inv, of u] by auto
  show "stat_of ?s u = RT_THREAD_RUNNING \<Longrightarrow> current ?s = Some u" for u
    using sched_invD(3) [OF inv, of u] by (simp split: if_splits)
  show "current ?s = Some u \<Longrightarrow> stat_of ?s u \<noteq> RT_THREAD_READY" for u using sched_invD(4) [OF inv, of u] by simp
  show "stat_of ?s u \<in> {RT_THREAD_READY, RT_THREAD_SUSPEND, RT_THREAD_RUNNING} \<Longrightarrow> wf_thread ?s u" for u
    using sched_invD(5) [OF inv, of u] w by (simp split: if_splits)
  show "distinct (defunct ?s)" "u \<in> set (defunct ?s) \<Longrightarrow> stat_of ?s u = RT_THREAD_CLOSE" for u
    using sched_invD(6,7) [OF inv] d by (auto simp: remove1_idem)
qed

lemma timers_ok_cong:
  assumes "hard_list k' = hard_list k" and "rt_tick k' = rt_tick k" and "\<forall>u \<in> set (hard_list k). tmr k' u = tmr k u"
  shows "timers_ok k' = timers_ok k"
proof -
  have d: "dist (rt_tick k') k' u = dist (rt_tick k) k u" "hard_timer k' u = hard_timer k u" if "u \<in> set (hard_list k)" for u
    using that assms by (simp_all add: dist_def hard_timer_def has_flag_def)
  then have m: "map (dist (rt_tick k') k') (hard_list k) = map (dist (rt_tick k) k) (hard_list k)" by simp
  show ?thesis unfolding timers_ok_def timers_wf_def assms(1) m using d by auto
qed

lemma stop_ok:
  assumes "timers_ok k"
  shows "timers_ok (fst (rt_timer_stop t k))" and "set (hard_list (fst (rt_timer_stop t k))) = set (hard_list k) - {t}"
    and "rt_tick (fst (rt_timer_stop t k)) = rt_tick k" and "u \<noteq> t \<Longrightarrow> tmr (fst (rt_timer_stop t k)) u = tmr k u"
    and "has_flag (fst (rt_timer_stop t k)) u RT_TIMER_FLAG_SOFT_TIMER = has_flag k u RT_TIMER_FLAG_SOFT_TIMER"
    and "has_flag (fst (rt_timer_stop t k)) u RT_TIMER_FLAG_PERIODIC = has_flag k u RT_TIMER_FLAG_PERIODIC"
proof -
  have wf: "timers_wf (rt_tick k) k" using assms by (simp add: timers_ok_def)
  have dl: "distinct (hard_list k)" by (rule timers_wfD(1) [OF wf])
  show "rt_tick (fst (rt_timer_stop t k)) = rt_tick k" "u \<noteq> t \<Longrightarrow> tmr (fst (rt_timer_stop t k)) u = tmr k u"
    "has_flag (fst (rt_timer_stop t k)) u RT_TIMER_FLAG_SOFT_TIMER = has_flag k u RT_TIMER_FLAG_SOFT_TIMER"
    "has_flag (fst (rt_timer_stop t k)) u RT_TIMER_FLAG_PERIODIC = has_flag k u RT_TIMER_FLAG_PERIODIC"
    by (simp_all add: rt_timer_stop_def deactivate_def)
      (simp_all add: has_flag_def)
  show "set (hard_list (fst (rt_timer_stop t k))) = set (hard_list k) - {t}"
    using timers_wfD(3) [OF wf, of t] dl by (auto simp: rt_timer_stop_def hard_timer_def)
  show "timers_ok (fst (rt_timer_stop t k))"
  proof (cases "has_flag k t RT_TIMER_FLAG_ACTIVATED")
    case True
    let ?k0 = "k\<lparr>hard_list := remove1 t (hard_list k)\<rparr>" and ?k1 = "deactivate t (timer_remove t k)"
    have "timers_ok ?k1 = timers_ok ?k0"
      by (rule timers_ok_cong) (use dl in \<open>auto simp: deactivate_def\<close>)
    moreover have "timers_ok ?k0"
      using wf_without [OF wf, of t] assms dl by (auto simp: timers_ok_def dist_def)
    ultimately show ?thesis using True by (simp add: rt_timer_stop_def)
  qed (use assms in \<open>simp add: rt_timer_stop_def\<close>)
qed

text \<open>Scheduler and timers in order with each other; \<open>p\<close> are the periodic timers of the application.\<close>

definition kernel_ok :: "(nat \<Rightarrow> bool) \<Rightarrow> kernel \<Rightarrow> bool" where
  "kernel_ok p = (\<lambda>(s, k). armed_inv threads_ok (\<lambda>u. odd u \<and> p u) s k \<and>
     (\<forall>t. \<not> has_flag k (thread_timer t) RT_TIMER_FLAG_SOFT_TIMER \<and> \<not> has_flag k (thread_timer t) RT_TIMER_FLAG_PERIODIC))"

lemma kernel_okD:
  assumes "kernel_ok p (s, k)"
  shows "sched_inv s" and "current s \<noteq> None" and "timers_ok k" and "thread_timer t \<in> set (hard_list k) \<Longrightarrow> stat_of s t = RT_THREAD_SUSPEND"
    and "u \<in> set (hard_list k) \<Longrightarrow> has_flag k u RT_TIMER_FLAG_PERIODIC = (odd u \<and> p u)"
    and "\<not> has_flag k (thread_timer t) RT_TIMER_FLAG_SOFT_TIMER" and "\<not> has_flag k (thread_timer t) RT_TIMER_FLAG_PERIODIC"
  using assms by (auto simp: kernel_ok_def armed_inv_def threads_ok_def)

lemma thread_timer_inj [simp]: "thread_timer t = thread_timer u \<longleftrightarrow> t = u"
  by (simp add: thread_timer_def)

lemma even_thread_timer [simp]: "even (thread_timer t)"
  by (simp add: thread_timer_def)

text \<open>The first half of \<open>rt_thread_sleep\<close>: suspended, with the timer running.\<close>

lemma sleep_armed:
  assumes ok: "kernel_ok p (s, k)" and cur: "current s = Some c" and run: "stat_of s c = RT_THREAD_RUNNING"
    and n: "0 < n" "n < TICK_HALF"
  shows "\<exists>k3. rt_thread_sleep tt n (s, k) = map_option (\<lambda>s4. (s4, k3)) (rt_schedule (set_stat c RT_THREAD_SUSPEND (pulled c s))) \<and>
    timers_ok k3 \<and> set (hard_list k3) = insert (thread_timer c) (set (hard_list k)) \<and> tm_init_tick (tmr k3 (thread_timer c)) = n \<and>
    dist (rt_tick k3) k3 (thread_timer c) = unat n \<and>
    (\<forall>u. has_flag k3 u RT_TIMER_FLAG_SOFT_TIMER = has_flag k u RT_TIMER_FLAG_SOFT_TIMER) \<and>
    (\<forall>u. has_flag k3 u RT_TIMER_FLAG_PERIODIC = has_flag k u RT_TIMER_FLAG_PERIODIC)"
proof -
  let ?t = "thread_timer c" and ?s1 = "set_stat c RT_THREAD_SUSPEND (pulled c s)"
  define k1 where "k1 = fst (rt_timer_stop ?t k)"
  define k2 where "k2 = fst (rt_timer_control ?t 0 n k1)"
  have k2: "k2 = upd_timer ?t (\<lambda>x. x\<lparr>tm_init_tick := n\<rparr>) k1" by (simp add: k2_def rt_timer_control_def)
  note S = stop_ok [OF kernel_okD(3) [OF ok], of ?t, folded k1_def]
  have ok2: "timers_ok k2" using timers_ok_cong [of k2 k1] S(1,2) by (simp add: k2)
  have f2: "has_flag k2 u RT_TIMER_FLAG_SOFT_TIMER = has_flag k u RT_TIMER_FLAG_SOFT_TIMER"
    "has_flag k2 u RT_TIMER_FLAG_PERIODIC = has_flag k u RT_TIMER_FLAG_PERIODIC" for u
    using S(5,6) [of u] by (auto simp: k2 has_flag_def)
  have l2: "set (hard_list k2) = set (hard_list k) - {?t}" using S(2) by (simp add: k2)
  note T = start_ok [OF ok2, of ?t]
  have start: "\<not> has_flag k2 ?t RT_TIMER_FLAG_SOFT_TIMER" "0 < tm_init_tick (tmr k2 ?t)" "tm_init_tick (tmr k2 ?t) < TICK_HALF"
    using f2 kernel_okD(6) [OF ok] n by (simp_all add: k2)
  note T = T [OF start]
  have w: "wf_thread s c" using sched_invD(5) [OF kernel_okD(1) [OF ok], of c] run by simp
  have "rt_thread_suspend c (s, k) = Some ((?s1, k1), 0)"
    using run cur remove_eq [OF w] by (simp add: rt_thread_suspend_def rt_thread_self_def k1_def)
  then have "rt_thread_sleep tt n (s, k) = map_option (\<lambda>s4. (s4, started ?t k2)) (rt_schedule ?s1)"
    using T(1) [of "timer_wake tt" ?s1] cur
    by (cases "rt_schedule ?s1") (simp_all add: rt_thread_sleep_def rt_thread_self_def flip: k2_def)
  moreover have "set (hard_list (started ?t k2)) = insert ?t (set (hard_list k))" using T(3) l2 by auto
  ultimately show ?thesis using T(2,4) f2 by (intro exI [of _ "started ?t k2"]) (simp add: k2)
qed

lemma sleep_blocks:
  assumes ok: "kernel_ok p (s, k)" and nest: "lock_nest s = 0" and cur: "current s = Some c" and run: "stat_of s c = RT_THREAD_RUNNING"
    and grp: "ready_group s \<noteq> 0" and n: "0 < n" "n < TICK_HALF"
  obtains s1 k1 where "rt_thread_sleep tt n (s, k) = Some (s1, k1)" and "kernel_ok p (s1, k1)" and "current s1 \<noteq> Some c"
    and "stat_of s1 c = RT_THREAD_SUSPEND" and "thread_timer c \<in> set (hard_list k1)"
    and "tm_init_tick (tmr k1 (thread_timer c)) = n" and "dist (rt_tick k1) k1 (thread_timer c) = unat n"
proof -
  let ?s1 = "set_stat c RT_THREAD_SUSPEND (pulled c s)"
  from sleep_armed [OF ok cur run n] obtain k1 where k1:
    "rt_thread_sleep tt n (s, k) = map_option (\<lambda>s4. (s4, k1)) (rt_schedule ?s1)" "timers_ok k1"
    "set (hard_list k1) = insert (thread_timer c) (set (hard_list k))" "tm_init_tick (tmr k1 (thread_timer c)) = n"
    "dist (rt_tick k1) k1 (thread_timer c) = unat n"
    "\<And>u. has_flag k1 u RT_TIMER_FLAG_SOFT_TIMER = has_flag k u RT_TIMER_FLAG_SOFT_TIMER"
    "\<And>u. has_flag k1 u RT_TIMER_FLAG_PERIODIC = has_flag k u RT_TIMER_FLAG_PERIODIC" by blast
  note inv = kernel_okD(1) [OF ok]
  have i1: "sched_inv ?s1" by (rule suspended_inv [OF inv]) (simp add: run runnable_def)
  have c1: "current ?s1 = Some c" "lock_nest ?s1 = 0" "\<not> runnable ?s1 c" using cur nest by (simp_all add: runnable_def)
  have "ready_set s \<noteq> {}"
    using get_highest [OF sched_invD(1) [OF inv] grp] by (force simp: ready_set_def)
  moreover have "ready_set ?s1 = ready_set s"
    using ready_set_pulled [OF sched_invD(1) [OF inv], of c] sched_invD(2) [OF inv, of c] run by auto
  ultimately have ne: "ready_set ?s1 \<noteq> {}" by simp
  from schedule_total [OF i1 c1(1)] obtain s4 where s4: "rt_schedule ?s1 = Some s4" "sched_inv s4" "current s4 \<noteq> None"
    "\<forall>u. st_error (thr s4 u) = st_error (thr ?s1 u) \<and> (runnable ?s1 u = runnable s4 u) \<and> (\<not> runnable ?s1 u \<longrightarrow> stat_of s4 u = stat_of ?s1 u)" by blast
  have "current s4 \<noteq> Some c"
    using i1 c1(2,1)
  proof (cases rule: schedule_cases)
    case (switch t rest)
    have "t \<noteq> c" using switch(3) by auto
    then show ?thesis using switch(1) s4(1) by auto
  qed (use ne in auto)
  moreover have sus: "stat_of s4 u = RT_THREAD_SUSPEND" if "thread_timer u \<in> set (hard_list k1)" for u
  proof (cases "u = c")
    case True
    then show ?thesis using s4(4) c1(3) by simp
  next
    case False
    then have "thread_timer u \<in> set (hard_list k)" using that k1(3) by simp
    then have "stat_of ?s1 u = RT_THREAD_SUSPEND" using kernel_okD(4) [OF ok, of u] False by simp
    then show ?thesis using s4(4) not_runnable [of ?s1 u] by simp
  qed
  have "threads_ok (set (hard_list k1)) s4" using s4(2,3) sus by (simp add: threads_ok_def)
  moreover have "has_flag k1 u RT_TIMER_FLAG_PERIODIC = (odd u \<and> p u)" if "u \<in> set (hard_list k1)" for u
    using that kernel_okD(5) [OF ok, of u] kernel_okD(7) [OF ok, of c] k1(3,7) by auto
  ultimately have "kernel_ok p (s4, k1)" using k1(2,6,7) kernel_okD(6,7) [OF ok] by (simp add: kernel_ok_def armed_inv_def)
  then show ?thesis using that [of s4 k1] k1 s4(1) \<open>current s4 \<noteq> Some c\<close> sus [of c] by simp
qed

section \<open>Properties\<close>

text \<open>
  Claim C30: a thread that sleeps \<open>n\<close> ticks leaves the processor to another thread and stays
  suspended for the next \<open>n - 1\<close> ticks; with the \<open>n\<close>-th tick it competes for the processor again,
  whatever the other threads and timers do in these ticks, and its sleep returns without an
  error. No tick fails, and the scheduler and the timers stay in order.
\<close>

theorem sleep_wakes_on_time:
  assumes "kernel_ok p (s, k)" and "lock_nest s = 0" and "current s = Some c" and "stat_of s c = RT_THREAD_RUNNING"
    and "ready_group s \<noteq> 0" and "0 < n" and "n < TICK_HALF"
  shows "\<exists>s1 k1. rt_thread_sleep tt n (s, k) = Some (s1, k1) \<and> kernel_ok p (s1, k1) \<and> current s1 \<noteq> Some c \<and>
    (\<exists>s' k'. tick_run tick_slice (timer_wake tt) (timer_func timer_functions) m (s1, k1) = Some (s', k') \<and> kernel_ok p (s', k') \<and>
      (if m < unat n then stat_of s' c = RT_THREAD_SUSPEND
       else runnable s' c \<and> st_error (thr (rt_thread_sleep_return c s') c) = 0))"
proof -
  from sleep_blocks [OF assms, of tt] obtain s1 k1 where s1: "rt_thread_sleep tt n (s, k) = Some (s1, k1)" "kernel_ok p (s1, k1)"
    "current s1 \<noteq> Some c" "stat_of s1 c = RT_THREAD_SUSPEND" "thread_timer c \<in> set (hard_list k1)"
    "tm_init_tick (tmr k1 (thread_timer c)) = n" "dist (rt_tick k1) k1 (thread_timer c) = unat n" .
  have a: "armed_inv threads_ok (\<lambda>u. odd u \<and> p u) s1 k1" using s1(2) by (simp add: kernel_ok_def)
  have n: "0 < unat n" using assms(6) by (simp add: word_less_nat_alt)
  from sleeper.firings_run [OF a s1(5) _ s1(7) n, where wake = "timer_wake tt" and m = m] s1(6) obtain s' k'
    where r: "tick_run tick_slice (timer_wake tt) (timer_func timer_functions) m (s1, k1) = Some (s', k')"
      "armed_inv threads_ok (\<lambda>u. odd u \<and> p u) s' k'"
      "thread_view c s' = ((\<lambda>_. (RT_THREAD_READY, - RT_ETIMEOUT_CODE)) ^^ firings False (unat n) (unat n) m) (thread_view c s1)"
    by auto
  have "thread_view c s' = (if m < unat n then thread_view c s1 else (RT_THREAD_READY, - RT_ETIMEOUT_CODE))"
    using r(3) by (simp add: firings_def)
  then have v: "if m < unat n then stat_of s' c = RT_THREAD_SUSPEND
       else runnable s' c \<and> st_error (thr (rt_thread_sleep_return c s') c) = 0"
    using s1(4) not_runnable [OF s1(4)]
    by (auto simp: thread_view_def rt_thread_sleep_return_def runnable_def split: if_splits)
  from sleeper.run_ok [OF a, where wake = "timer_wake tt" and m = m] r(1)
  have "has_flag k' u RT_TIMER_FLAG_SOFT_TIMER = has_flag k1 u RT_TIMER_FLAG_SOFT_TIMER"
    "has_flag k' u RT_TIMER_FLAG_PERIODIC = has_flag k1 u RT_TIMER_FLAG_PERIODIC" for u by auto
  then have "kernel_ok p (s', k')" using r(2) s1(2) by (simp add: kernel_ok_def)
  then show ?thesis using s1(1-3) r(1) v by blast
qed

definition idle_timers :: timers where
  "idle_timers = \<lparr>rt_tick = 0xffffffff, tmr = (\<lambda>_. \<lparr>tm_init_tick = 0, tm_timeout = 0, tm_flag = 0\<rparr>), hard_list = [], soft_list = []\<rparr>"

lemma sample_kernel_ok: "kernel_ok (\<lambda>_. False) (sample_sched, idle_timers)"
proof -
  have "timers_ok idle_timers" by (simp add: timers_ok_def timers_wf_def idle_timers_def)
  then show ?thesis using sample_sched_inv
    by (simp add: kernel_ok_def armed_inv_def threads_ok_def) (simp add: sample_sched_def idle_timers_def has_flag_def)
qed

lemma sample_running: "lock_nest sample_sched = 0" "current sample_sched = Some 0" "stat_of sample_sched 0 = RT_THREAD_RUNNING"
  "ready_group sample_sched \<noteq> 0"
  by (simp_all add: sample_sched_def stat_of_def sample_sthread_def)

theorem sleep_wakes_on_time_witness:
  "\<exists>s1 k1 s' k'. rt_thread_sleep 9 100 (sample_sched, idle_timers) = Some (s1, k1) \<and>
     tick_run tick_slice (timer_wake 9) (timer_func timer_functions) 100 (s1, k1) = Some (s', k') \<and> runnable s' 0"
  using sleep_wakes_on_time [OF sample_kernel_ok sample_running, of 100 9 100] by (fastforce simp: TICK_HALF_def)

text \<open>\<open>rt_thread_delay_until\<close> is to wake the thread at \<open>*tick + inc_tick\<close>, \<open>last_tick + inc - now\<close> ticks
  from now, but it sleeps longer by twice the time that has passed since \<open>*tick\<close>.\<close>

lemma delay_until_oversleeps:
  "rt_thread_self s \<noteq> None \<Longrightarrow> rt_tick k - last_tick < inc \<Longrightarrow>
     rt_thread_delay_until tt last_tick inc (s, k) =
     rt_thread_sleep tt ((last_tick + inc - rt_tick k) + 2 * (rt_tick k - last_tick)) (s, k)"
  by (auto simp: rt_thread_delay_until_def algebra_simps)

section \<open>Changing the priority\<close>

lemma set_priority_simps [simp]:
  "ready_table (set_priority t p s) = ready_table s" "ready_group (set_priority t p s) = ready_group s"
  "current (set_priority t p s) = current s" "lock_nest (set_priority t p s) = lock_nest s" "defunct (set_priority t p s) = defunct s"
  "ready_set (set_priority t p s) = ready_set s" "stat_of (set_priority t p s) u = stat_of s u"
  "prio (set_priority t p s) u = (if u = t then unat p else prio s u)"
  by (simp_all add: set_priority_def stat_of_def prio_def)

lemma wf_set_priority: "unat p < RT_THREAD_PRIORITY_MAX \<Longrightarrow> wf_thread (set_priority t p s) u = (u = t \<or> wf_thread s u)"
  by (simp add: wf_thread_def) (simp add: set_priority_def)

lemma lists_wf_set_priority:
  assumes "lists_wf s" and "t \<notin> ready_set s" and "unat p < RT_THREAD_PRIORITY_MAX"
  shows "lists_wf (set_priority t p s)"
  using assms(1,2) wf_set_priority [OF assms(3)] by (auto simp: lists_wf_def ready_set_def)

lemma set_priority_inv:
  assumes inv: "sched_inv s" and p: "unat p < RT_THREAD_PRIORITY_MAX" and t: "stat_of s t \<noteq> RT_THREAD_READY"
  shows "sched_inv (set_priority t p s)"
proof (rule sched_invI)
  have n: "t \<notin> ready_set s" using sched_invD(2) [OF inv, of t] t by simp
  show "lists_wf (set_priority t p s)" by (rule lists_wf_set_priority [OF sched_invD(1) [OF inv] n p])
qed (use sched_invD [OF inv] wf_set_priority [OF p] in auto)

lemma requeued_inv:
  assumes inv: "sched_inv s" and p: "unat p < RT_THREAD_PRIORITY_MAX" and t: "stat_of s t = RT_THREAD_READY"
  shows "thread_change_priority t p s = Some (pushed t (set_priority t p (pulled t s)))" and "sched_inv (pushed t (set_priority t p (pulled t s)))"
proof -
  let ?s = "set_priority t p (pulled t s)"
  have w: "wf_thread s t" using sched_invD(5) [OF inv, of t] t by simp
  have c: "current s \<noteq> Some t" using sched_invD(4) [OF inv, of t] t by auto
  have d: "t \<notin> set (defunct s)" using sched_invD(7) [OF inv, of t] t by auto
  have "t \<notin> ready_set (pulled t s)" using ready_set_pulled [OF sched_invD(1) [OF inv], of t] by simp
  then have l: "lists_wf ?s" by (rule lists_wf_set_priority [OF lists_wf_pulled [OF sched_invD(1) [OF inv] w] _ p])
  have r: "ready_set ?s = ready_set s - {t}" using ready_set_pulled [OF sched_invD(1) [OF inv], of t] by simp
  have wt: "wf_thread ?s t" using wf_set_priority [OF p] by simp
  have "rt_schedule_insert_thread t ?s = Some (pushed t ?s)"
    by (rule insert_eq) (use c wt r d in \<open>simp_all add: remove1_idem\<close>)
  then show "thread_change_priority t p s = Some (pushed t ?s)" using t remove_eq [OF w] by (simp add: thread_change_priority_def)
  show "sched_inv (pushed t ?s)"
  proof (rule sched_invI)
    show "lists_wf (pushed t ?s)" by (rule lists_wf_pushed [OF l wt]) (use r in blast)
    show "u \<in> ready_set (pushed t ?s) \<longleftrightarrow> stat_of (pushed t ?s) u = RT_THREAD_READY" for u
      using sched_invD(2) [OF inv, of u] r wt by simp
    show "stat_of (pushed t ?s) u = RT_THREAD_RUNNING \<Longrightarrow> current (pushed t ?s) = Some u" for u
      using sched_invD(3) [OF inv, of u] by (simp split: if_splits)
    show "current (pushed t ?s) = Some u \<Longrightarrow> stat_of (pushed t ?s) u \<noteq> RT_THREAD_READY" for u
      using sched_invD(4) [OF inv, of u] c by auto
    show "stat_of (pushed t ?s) u \<in> {RT_THREAD_READY, RT_THREAD_SUSPEND, RT_THREAD_RUNNING} \<Longrightarrow> wf_thread (pushed t ?s) u" for u
      using sched_invD(5) [OF inv, of u] wf_set_priority [OF p, of t "pulled t s" u] by (simp split: if_splits)
    show "distinct (defunct (pushed t ?s))" "u \<in> set (defunct (pushed t ?s)) \<Longrightarrow> stat_of (pushed t ?s) u = RT_THREAD_CLOSE" for u
      using sched_invD(6,7) [OF inv] d by (auto simp: remove1_idem)
  qed
qed

text \<open>
  \<open>rt_thread_control\<close> with the command to change the priority to one below 32 never
  fails and keeps the scheduler well-formed, whatever the thread is doing; a ready thread
  leaves its list and goes behind the other threads of its new priority, whose order stays.
\<close>

theorem change_priority_correct:
  assumes "sched_inv s" and "unat p < RT_THREAD_PRIORITY_MAX"
  shows "\<exists>s'. rt_thread_control env t 2 p (s, k) = Some (s', k) \<and> sched_inv s' \<and> prio s' t = unat p \<and>
    (\<forall>u. stat_of s' u = stat_of s u) \<and> current s' = current s \<and>
    (\<forall>q < RT_THREAD_PRIORITY_MAX. ready_table s' q = removeAll t (ready_table s q) @
      (if q = unat p \<and> stat_of s t = RT_THREAD_READY then [t] else []))"
proof (cases "stat_of s t = RT_THREAD_READY")
  case True
  let ?s = "pushed t (set_priority t p (pulled t s))"
  note R = requeued_inv [OF assms True]
  have "remove1 t (ready_table s q) = removeAll t (ready_table s q)" if "q < RT_THREAD_PRIORITY_MAX" for q
    using lists_wfD(2) [OF sched_invD(1) [OF assms(1)] that] by (simp add: distinct_remove1_removeAll)
  then show ?thesis using R True by (intro exI [of _ ?s]) (auto simp: rt_thread_control_def)
next
  case False
  have "t \<notin> ready_set s" using sched_invD(2) [OF assms(1), of t] False by simp
  then have "removeAll t (ready_table s q) = ready_table s q" if "q < RT_THREAD_PRIORITY_MAX" for q
    using that by (auto simp: ready_set_def)
  then show ?thesis using set_priority_inv [OF assms False] False
    by (intro exI [of _ "set_priority t p s"]) (simp add: rt_thread_control_def thread_change_priority_def)
qed

theorem change_priority_correct_witness:
  "\<exists>s'. rt_thread_control \<lparr>te_static = \<lambda>_. True, te_cleanup = \<lambda>_. False\<rparr> 1 2 7 (sample_sched, idle_timers) = Some (s', idle_timers) \<and>
     ready_table s' 7 = [1] \<and> ready_table s' 5 = [2]"
proof -
  have "stat_of sample_sched 1 = RT_THREAD_READY" by (simp add: sample_sched_def sample_sthread_def stat_of_def)
  moreover have "ready_table sample_sched 7 = []" "ready_table sample_sched 5 = [1, 2]" by (simp_all add: sample_sched_def)
  ultimately show ?thesis
    using change_priority_correct [OF sample_sched_inv, of 7 "\<lparr>te_static = \<lambda>_. True, te_cleanup = \<lambda>_. False\<rparr>" 1 idle_timers]
    by (force simp: RT_THREAD_PRIORITY_MAX_def)
qed

section \<open>Keeping the order\<close>

lemma kernel_okI:
  assumes "sched_inv s" and "current s \<noteq> None" and "timers_ok k" and "\<And>t. thread_timer t \<in> set (hard_list k) \<Longrightarrow> stat_of s t = RT_THREAD_SUSPEND"
    and "\<And>u. u \<in> set (hard_list k) \<Longrightarrow> has_flag k u RT_TIMER_FLAG_PERIODIC = (odd u \<and> p u)"
    and "\<And>t. \<not> has_flag k (thread_timer t) RT_TIMER_FLAG_SOFT_TIMER" and "\<And>t. \<not> has_flag k (thread_timer t) RT_TIMER_FLAG_PERIODIC"
  shows "kernel_ok p (s, k)"
  using assms by (simp add: kernel_ok_def armed_inv_def threads_ok_def)

text \<open>A change of the scheduler that keeps the suspended threads with an armed timer suspended.\<close>

lemma kernel_ok_stop:
  assumes ok: "kernel_ok p (s, k)" and "sched_inv s'" and "current s' \<noteq> None"
    and "\<And>u. u \<noteq> t \<Longrightarrow> stat_of s u = RT_THREAD_SUSPEND \<Longrightarrow> stat_of s' u = RT_THREAD_SUSPEND"
  shows "kernel_ok p (s', fst (rt_timer_stop (thread_timer t) k))"
proof -
  note S = stop_ok [OF kernel_okD(3) [OF ok], of "thread_timer t"]
  show ?thesis
  proof (rule kernel_okI)
    show "stat_of s' u = RT_THREAD_SUSPEND" if "thread_timer u \<in> set (hard_list (fst (rt_timer_stop (thread_timer t) k)))" for u
      using that S(2) assms(4) [of u] kernel_okD(4) [OF ok, of u] by simp
  qed (use S assms(2,3) kernel_okD [OF ok] in auto)
qed

lemma resume_ok:
  assumes ok: "kernel_ok p (s, k)" and t: "stat_of s t = RT_THREAD_SUSPEND"
  shows "\<exists>s'. rt_thread_resume t (s, k) = Some ((s', fst (rt_timer_stop (thread_timer t) k)), 0) \<and>
    kernel_ok p (s', fst (rt_timer_stop (thread_timer t) k)) \<and> runnable s' t \<and> current s' = current s"
proof -
  from insert_suspended [OF kernel_okD(1) [OF ok] t] obtain s' where s': "rt_schedule_insert_thread t (unlink t s) = Some s'"
    "sched_inv s'" "current s' = current s" "runnable s' t" "\<And>u. u \<noteq> t \<Longrightarrow> stat_of s' u = stat_of s u" by blast
  have "kernel_ok p (s', fst (rt_timer_stop (thread_timer t) k))"
    by (rule kernel_ok_stop [OF ok s'(2)]) (use s'(3,5) kernel_okD(2) [OF ok] in simp_all)
  then show ?thesis using s' t by (simp add: rt_thread_resume_def)
qed

lemma suspend_ok:
  assumes ok: "kernel_ok p (s, k)" and t: "runnable s t"
  shows "\<exists>s'. rt_thread_suspend t (s, k) = Some ((s', fst (rt_timer_stop (thread_timer t) k)), 0) \<and>
    kernel_ok p (s', fst (rt_timer_stop (thread_timer t) k)) \<and> stat_of s' t = RT_THREAD_SUSPEND \<and> current s' = current s"
proof -
  let ?s = "set_stat t RT_THREAD_SUSPEND (pulled t s)"
  note inv = kernel_okD(1) [OF ok]
  have "wf_thread s t" using sched_invD(5) [OF inv, of t] t by (auto simp: runnable_def)
  then have "rt_thread_suspend t (s, k) = Some ((?s, fst (rt_timer_stop (thread_timer t) k)), 0)"
    using t sched_invD(3) [OF inv, of t] by (auto simp: rt_thread_suspend_def rt_thread_self_def runnable_def remove_eq)
  moreover have "kernel_ok p (?s, fst (rt_timer_stop (thread_timer t) k))"
    by (rule kernel_ok_stop [OF ok suspended_inv [OF inv t]]) (use kernel_okD(2) [OF ok] in simp_all)
  ultimately show ?thesis by simp
qed

lemma schedule_ok:
  assumes "kernel_ok p (s, k)"
  shows "\<exists>s'. rt_schedule s = Some s' \<and> kernel_ok p (s', k) \<and> (\<forall>u. runnable s u = runnable s' u \<and> (\<not> runnable s u \<longrightarrow> stat_of s' u = stat_of s u))"
proof -
  obtain c where "current s = Some c" using kernel_okD(2) [OF assms] by auto
  from schedule_total [OF kernel_okD(1) [OF assms] this] obtain s' where s': "rt_schedule s = Some s'" "sched_inv s'" "current s' \<noteq> None"
    "\<forall>u. runnable s u = runnable s' u \<and> (\<not> runnable s u \<longrightarrow> stat_of s' u = stat_of s u)" by blast
  have "stat_of s' t = RT_THREAD_SUSPEND" if "thread_timer t \<in> set (hard_list k)" for t
    using kernel_okD(4) [OF assms that] not_runnable [of s t] s'(4) by simp
  then have "kernel_ok p (s', k)" using s'(2,3) kernel_okD [OF assms] by (intro kernel_okI) auto
  then show ?thesis using s' by blast
qed

lemma startup_ok:
  assumes ok: "kernel_ok p (s, k)" and t: "stat_of s t = RT_THREAD_INIT" and pr: "unat (st_init_priority (thr s t)) < RT_THREAD_PRIORITY_MAX"
  shows "\<exists>s' k'. rt_thread_startup t (s, k) = Some (s', k') \<and> kernel_ok p (s', k') \<and> runnable s' t"
proof -
  let ?p = "st_init_priority (thr s t)"
  let ?s = "upd_thread t (\<lambda>x. x\<lparr>st_stat := RT_THREAD_SUSPEND\<rparr>) (set_priority t ?p s)"
  note inv = kernel_okD(1) [OF ok]
  have i1: "sched_inv (set_priority t ?p s)" by (rule set_priority_inv [OF inv pr]) (simp add: t)
  have st: "stat_of ?s u = (if u = t then RT_THREAD_SUSPEND else stat_of s u)" for u
  proof (cases "u = t")
    case False
    then show ?thesis using set_priority_simps(7) [of t ?p s u] by (simp add: stat_of_def)
  qed (simp add: stat_of_def)
  have f: "prio ?s u = prio (set_priority t ?p s) u" "wf_thread ?s u = wf_thread (set_priority t ?p s) u" for u
    by (auto simp: prio_def wf_thread_def)
  have l: "lists_wf ?s" using sched_invD(1) [OF i1] unfolding lists_wf_def f by simp
  have "sched_inv ?s"
  proof (rule sched_invI)
    show "lists_wf ?s" by (rule l)
    show "u \<in> ready_set ?s \<longleftrightarrow> stat_of ?s u = RT_THREAD_READY" for u
      using sched_invD(2) [OF inv, of u] t by (auto simp: st)
    show "stat_of ?s u = RT_THREAD_RUNNING \<Longrightarrow> current ?s = Some u" for u
      using sched_invD(3) [OF inv, of u] by (simp add: st split: if_splits)
    show "current ?s = Some u \<Longrightarrow> stat_of ?s u \<noteq> RT_THREAD_READY" for u
      using sched_invD(4) [OF inv, of u] by (simp add: st)
    show "stat_of ?s u \<in> {RT_THREAD_READY, RT_THREAD_SUSPEND, RT_THREAD_RUNNING} \<Longrightarrow> wf_thread ?s u" for u
      using sched_invD(5) [OF inv, of u] wf_set_priority [OF pr, of t s u] by (simp add: st f split: if_splits)
    show "distinct (defunct ?s)" "u \<in> set (defunct ?s) \<Longrightarrow> stat_of ?s u = RT_THREAD_CLOSE" for u
      using sched_invD(6,7) [OF inv] t by (auto simp: st)
  qed
  moreover have "stat_of ?s u = RT_THREAD_SUSPEND" if "thread_timer u \<in> set (hard_list k)" for u
    using kernel_okD(4) [OF ok that] by (simp add: st)
  ultimately have ok1: "kernel_ok p (?s, k)" using kernel_okD [OF ok] by (intro kernel_okI) auto
  from resume_ok [OF ok1, of t] st obtain s2 where s2: "rt_thread_resume t (?s, k) = Some ((s2, fst (rt_timer_stop (thread_timer t) k)), 0)"
    "kernel_ok p (s2, fst (rt_timer_stop (thread_timer t) k))" "runnable s2 t" by auto
  from schedule_ok [OF s2(2)] obtain s3 where s3: "rt_schedule s2 = Some s3"
    "kernel_ok p (s3, fst (rt_timer_stop (thread_timer t) k))" "runnable s2 t = runnable s3 t" by blast
  have "rt_thread_self s2 \<noteq> None" using kernel_okD(2) [OF s2(2)] by (simp add: rt_thread_self_def)
  then have "rt_thread_startup t (s, k) = Some (s3, fst (rt_timer_stop (thread_timer t) k))"
    using t s2(1) s3(1) by (simp add: rt_thread_startup_def)
  then show ?thesis using s2(3) s3(2,3) by blast
qed

lemma remove_ok:
  assumes "timers_ok k"
  shows "timers_ok (timer_remove t k)" and "set (hard_list (timer_remove t k)) = set (hard_list k) - {t}"
proof -
  have wf: "timers_wf (rt_tick k) k" using assms by (simp add: timers_ok_def)
  have dl: "distinct (hard_list k)" by (rule timers_wfD(1) [OF wf])
  let ?k0 = "k\<lparr>hard_list := remove1 t (hard_list k)\<rparr>"
  have "timers_ok (timer_remove t k) = timers_ok ?k0" by (rule timers_ok_cong) simp_all
  moreover have "timers_ok ?k0" using wf_without [OF wf, of t] assms dl by (auto simp: timers_ok_def dist_def)
  ultimately show "timers_ok (timer_remove t k)" by simp
  show "set (hard_list (timer_remove t k)) = set (hard_list k) - {t}" using dl by simp
qed

definition closed :: "bool \<Rightarrow> nat \<Rightarrow> sched \<Rightarrow> sched" where
  "closed defer_free t s = fst (close_thread defer_free t (pulled t s, idle_timers))"

lemma closed_simps [simp]:
  "current (closed b t s) = current s" "lock_nest (closed b t s) = lock_nest s" "ready_set (closed b t s) = ready_set (pulled t s)"
  "stat_of (closed b t s) u = (if u = t then RT_THREAD_CLOSE else stat_of s u)" "wf_thread (closed b t s) u = wf_thread s u"
  "lists_wf (closed b t s) = lists_wf (pulled t s)" "defunct (closed b t s) = (if b then t # remove1 t (defunct s) else remove1 t (defunct s))"
  by (auto simp: closed_def close_thread_def Let_def stat_of_def wf_thread_def prio_def ready_set_def lists_wf_def)

lemma closed_inv:
  assumes inv: "sched_inv s" and t: "runnable s t \<or> stat_of s t = RT_THREAD_SUSPEND"
  shows "sched_inv (closed b t s)"
proof (rule sched_invI)
  have w: "wf_thread s t" using sched_invD(5) [OF inv, of t] t by (auto simp: runnable_def)
  have d: "t \<notin> set (defunct s)" using sched_invD(7) [OF inv, of t] t by (auto simp: runnable_def)
  show "lists_wf (closed b t s)" using lists_wf_pulled [OF sched_invD(1) [OF inv] w] by simp
  show "u \<in> ready_set (closed b t s) \<longleftrightarrow> stat_of (closed b t s) u = RT_THREAD_READY" for u
    using ready_set_pulled [OF sched_invD(1) [OF inv], of t] sched_invD(2) [OF inv, of u] by auto
  show "stat_of (closed b t s) u = RT_THREAD_RUNNING \<Longrightarrow> current (closed b t s) = Some u" for u
    using sched_invD(3) [OF inv, of u] by (simp split: if_splits)
  show "current (closed b t s) = Some u \<Longrightarrow> stat_of (closed b t s) u \<noteq> RT_THREAD_READY" for u
    using sched_invD(4) [OF inv, of u] by simp
  show "stat_of (closed b t s) u \<in> {RT_THREAD_READY, RT_THREAD_SUSPEND, RT_THREAD_RUNNING} \<Longrightarrow> wf_thread (closed b t s) u" for u
    using sched_invD(5) [OF inv, of u] w by (simp split: if_splits)
  show "distinct (defunct (closed b t s))" "u \<in> set (defunct (closed b t s)) \<Longrightarrow> stat_of (closed b t s) u = RT_THREAD_CLOSE" for u
    using sched_invD(6,7) [OF inv] d by (auto simp: remove1_idem split: if_splits)
qed

lemma close_ok:
  assumes ok: "kernel_ok p (s, k)" and t: "runnable s t \<or> stat_of s t = RT_THREAD_SUSPEND"
  shows "kernel_ok p (closed b t s, timer_remove (thread_timer t) k)"
proof (rule kernel_okI)
  note R = remove_ok [OF kernel_okD(3) [OF ok], of "thread_timer t"]
  show "timers_ok (timer_remove (thread_timer t) k)" by (rule R(1))
  show "stat_of (closed b t s) u = RT_THREAD_SUSPEND" if "thread_timer u \<in> set (hard_list (timer_remove (thread_timer t) k))" for u
    using that unfolding R(2) using kernel_okD(4) [OF ok, of u] by auto
  show "has_flag (timer_remove (thread_timer t) k) u RT_TIMER_FLAG_PERIODIC = (odd u \<and> p u)"
    if "u \<in> set (hard_list (timer_remove (thread_timer t) k))" for u
    using that unfolding R(2) using kernel_okD(5) [OF ok, of u] by simp
qed (use closed_inv [OF kernel_okD(1) [OF ok] t] kernel_okD [OF ok] in simp_all)

lemma exit_ok:
  assumes ok: "kernel_ok p (s, k)" and cur: "current s = Some c" and run: "stat_of s c = RT_THREAD_RUNNING"
  shows "\<exists>s' k'. rt_thread_exit env (s, k) = Some (s', k') \<and> kernel_ok p (s', k') \<and> stat_of s' c = RT_THREAD_CLOSE \<and>
    thread_timer c \<notin> set (hard_list k')"
proof -
  note inv = kernel_okD(1) [OF ok]
  let ?b = "\<not> (te_static env c \<and> \<not> te_cleanup env c)"
  let ?k = "timer_remove (thread_timer c) k"
  have w: "wf_thread s c" using sched_invD(5) [OF inv, of c] run by simp
  have ok1: "kernel_ok p (closed ?b c s, ?k)" by (rule close_ok [OF ok]) (simp add: run runnable_def)
  have cl: "close_thread ?b c (pulled c s, k) = (closed ?b c s, ?k)"
    by (simp add: closed_def close_thread_def Let_def rt_timer_detach_def)
  from schedule_ok [OF ok1] obtain s' where s': "rt_schedule (closed ?b c s) = Some s'" "kernel_ok p (s', ?k)"
    "\<forall>u. \<not> runnable (closed ?b c s) u \<longrightarrow> stat_of s' u = stat_of (closed ?b c s) u" by blast
  have "\<not> runnable (closed ?b c s) c" by (simp add: runnable_def)
  then have "stat_of s' c = RT_THREAD_CLOSE" using s'(3) by simp
  moreover have "rt_thread_exit env (s, k) = Some (s', ?k)"
    using cur remove_eq [OF w] cl s'(1) by (simp add: rt_thread_exit_def rt_thread_self_def)
  moreover have "thread_timer c \<notin> set (hard_list ?k)" using remove_ok(2) [OF kernel_okD(3) [OF ok]] by simp
  ultimately show ?thesis using s'(2) by blast
qed

text \<open>A thread that was not started yet is in no list, so closing it is closing it unlinked.\<close>

definition live :: "sched \<Rightarrow> nat \<Rightarrow> bool" where
  "live s t \<longleftrightarrow> runnable s t \<or> stat_of s t = RT_THREAD_SUSPEND \<or> stat_of s t = RT_THREAD_INIT"

definition unlinked :: "nat \<Rightarrow> sched \<Rightarrow> sched" where
  "unlinked t s = (if stat_of s t \<noteq> RT_THREAD_INIT then pulled t s else s)"

lemma new_closed_inv:
  assumes inv: "sched_inv s" and init: "stat_of s t = RT_THREAD_INIT" and s1: "s1 = fst (close_thread b t (s, k))"
  shows "sched_inv s1" and "current s1 = current s" and "stat_of s1 u = (if u = t then RT_THREAD_CLOSE else stat_of s u)"
    and "b \<Longrightarrow> t \<in> set (defunct s1)"
proof -
  have f: "current s1 = current s" "ready_set s1 = ready_set s" "stat_of s1 u = (if u = t then RT_THREAD_CLOSE else stat_of s u)"
    "wf_thread s1 u = wf_thread s u" "lists_wf s1 = lists_wf s" "defunct s1 = (if b then t # defunct s else defunct s)" for u
    by (auto simp: s1 close_thread_def Let_def stat_of_def wf_thread_def prio_def ready_set_def lists_wf_def)
  have n: "t \<notin> ready_set s" "t \<notin> set (defunct s)" using sched_invD(2,7) [OF inv, of t] init by auto
  show "sched_inv s1"
  proof (rule sched_invI)
    show "lists_wf s1" using sched_invD(1) [OF inv] f by simp
    show "u \<in> ready_set s1 \<longleftrightarrow> stat_of s1 u = RT_THREAD_READY" for u
      using sched_invD(2) [OF inv, of u] n by (auto simp: f)
    show "stat_of s1 u = RT_THREAD_RUNNING \<Longrightarrow> current s1 = Some u" for u
      using sched_invD(3) [OF inv, of u] by (simp add: f split: if_splits)
    show "current s1 = Some u \<Longrightarrow> stat_of s1 u \<noteq> RT_THREAD_READY" for u
      using sched_invD(4) [OF inv, of u] by (simp add: f)
    show "stat_of s1 u \<in> {RT_THREAD_READY, RT_THREAD_SUSPEND, RT_THREAD_RUNNING} \<Longrightarrow> wf_thread s1 u" for u
      using sched_invD(5) [OF inv, of u] by (simp add: f split: if_splits)
    show "distinct (defunct s1)" "u \<in> set (defunct s1) \<Longrightarrow> stat_of s1 u = RT_THREAD_CLOSE" for u
      using sched_invD(6,7) [OF inv] n by (auto simp: f split: if_splits)
  qed
  show "current s1 = current s" "stat_of s1 u = (if u = t then RT_THREAD_CLOSE else stat_of s u)" "b \<Longrightarrow> t \<in> set (defunct s1)"
    using f by simp_all
qed

lemma closing_ok:
  assumes ok: "kernel_ok p (s, k)" and t: "live s t"
  shows "kernel_ok p (close_thread b t (unlinked t s, k)) \<and> stat_of (fst (close_thread b t (unlinked t s, k))) t = RT_THREAD_CLOSE \<and>
    current (fst (close_thread b t (unlinked t s, k))) = current s \<and> (b \<longrightarrow> t \<in> set (defunct (fst (close_thread b t (unlinked t s, k))))) \<and>
    thread_timer t \<notin> set (hard_list (snd (close_thread b t (unlinked t s, k))))"
proof -
  let ?k = "timer_remove (thread_timer t) k"
  note R = remove_ok [OF kernel_okD(3) [OF ok], of "thread_timer t"]
  show ?thesis
  proof (cases "stat_of s t = RT_THREAD_INIT")
    case False
    then have c: "close_thread b t (unlinked t s, k) = (closed b t s, ?k)"
      by (simp add: unlinked_def closed_def close_thread_def Let_def rt_timer_detach_def)
    have "kernel_ok p (closed b t s, ?k)" using close_ok [OF ok] t False by (auto simp: live_def)
    then show ?thesis unfolding c using R(2) by simp
  next
    case init: True
    define s1 where "s1 = fst (close_thread b t (s, k))"
    have c: "close_thread b t (unlinked t s, k) = (s1, ?k)"
      using init by (simp add: s1_def unlinked_def close_thread_def Let_def rt_timer_detach_def)
    note N = new_closed_inv [OF kernel_okD(1) [OF ok] init s1_def]
    have "stat_of s1 u = RT_THREAD_SUSPEND" if "thread_timer u \<in> set (hard_list ?k)" for u
      using that unfolding R(2) using kernel_okD(4) [OF ok, of u] by (auto simp: N(3))
    moreover have "has_flag ?k u RT_TIMER_FLAG_PERIODIC = (odd u \<and> p u)" if "u \<in> set (hard_list ?k)" for u
      using that unfolding R(2) using kernel_okD(5) [OF ok, of u] by simp
    ultimately have "kernel_ok p (s1, ?k)" using R(1) kernel_okD [OF ok] N(1,2) by (intro kernel_okI) simp_all
    then show ?thesis unfolding c using N R(2) by simp
  qed
qed

lemma remove_unlinked:
  assumes "sched_inv s" and "live s t"
  shows "(if stat_of s t \<noteq> RT_THREAD_INIT then rt_schedule_remove_thread t s else Some s) = Some (unlinked t s)"
proof (cases "stat_of s t = RT_THREAD_INIT")
  case False
  then have "wf_thread s t" using sched_invD(5) [OF assms(1), of t] assms(2) by (auto simp: live_def runnable_def)
  then show ?thesis using False remove_eq by (simp add: unlinked_def)
qed (simp add: unlinked_def)

lemma detach_ok:
  assumes ok: "kernel_ok p (s, k)" and t: "live s t"
  shows "te_static env t \<Longrightarrow> \<exists>s' k'. rt_thread_detach env t (s, k) = Some (s', k') \<and> kernel_ok p (s', k') \<and>
      stat_of s' t = RT_THREAD_CLOSE \<and> thread_timer t \<notin> set (hard_list k')"
    and "\<not> te_static env t \<Longrightarrow> \<exists>s' k'. rt_thread_delete env t (s, k) = Some (s', k') \<and> kernel_ok p (s', k') \<and>
      stat_of s' t = RT_THREAD_CLOSE \<and> t \<in> set (defunct s') \<and> thread_timer t \<notin> set (hard_list k')"
proof -
  note r = remove_unlinked [OF kernel_okD(1) [OF ok] t]
  note c = closing_ok [OF ok t]
  show "te_static env t \<Longrightarrow> \<exists>s' k'. rt_thread_detach env t (s, k) = Some (s', k') \<and> kernel_ok p (s', k') \<and>
      stat_of s' t = RT_THREAD_CLOSE \<and> thread_timer t \<notin> set (hard_list k')"
    using c [of "te_cleanup env t"] unfolding rt_thread_detach_def prod.case r
    by (cases "close_thread (te_cleanup env t) t (unlinked t s, k)") simp
  show "\<not> te_static env t \<Longrightarrow> \<exists>s' k'. rt_thread_delete env t (s, k) = Some (s', k') \<and> kernel_ok p (s', k') \<and>
      stat_of s' t = RT_THREAD_CLOSE \<and> t \<in> set (defunct s') \<and> thread_timer t \<notin> set (hard_list k')"
    using c [of True] unfolding rt_thread_delete_def prod.case r
    by (cases "close_thread True t (unlinked t s, k)") simp
qed

lemma priority_ok:
  assumes ok: "kernel_ok p (s, k)" and pr: "unat q < RT_THREAD_PRIORITY_MAX"
  shows "\<exists>s'. thread_change_priority t q s = Some s' \<and> kernel_ok p (s', k) \<and> prio s' t = unat q"
proof -
  note inv = kernel_okD(1) [OF ok]
  obtain s' where s': "thread_change_priority t q s = Some s'" "sched_inv s'" "current s' = current s" "\<And>u. stat_of s' u = stat_of s u"
    "prio s' t = unat q"
  proof (cases "stat_of s t = RT_THREAD_READY")
    case True
    then show ?thesis using requeued_inv [OF inv pr True] that [of "pushed t (set_priority t q (pulled t s))"] by auto
  next
    case False
    then show ?thesis using set_priority_inv [OF inv pr False] that [of "set_priority t q s"] by (simp add: thread_change_priority_def)
  qed
  then have "kernel_ok p (s', k)" using kernel_okD [OF ok] by (intro kernel_okI) auto
  then show ?thesis using s' by blast
qed

lemma sleep_ok:
  assumes ok: "kernel_ok p (s, k)" and cur: "current s = Some c" and run: "stat_of s c = RT_THREAD_RUNNING"
    and n: "0 < n" "n < TICK_HALF"
  shows "\<exists>s' k'. rt_thread_sleep tt n (s, k) = Some (s', k') \<and> kernel_ok p (s', k') \<and> stat_of s' c = RT_THREAD_SUSPEND \<and>
    thread_timer c \<in> set (hard_list k')"
proof -
  let ?s1 = "set_stat c RT_THREAD_SUSPEND (pulled c s)"
  from sleep_armed [OF ok cur run n] obtain k1 where k1:
    "rt_thread_sleep tt n (s, k) = map_option (\<lambda>s4. (s4, k1)) (rt_schedule ?s1)" "timers_ok k1"
    "set (hard_list k1) = insert (thread_timer c) (set (hard_list k))"
    "\<And>u. has_flag k1 u RT_TIMER_FLAG_SOFT_TIMER = has_flag k u RT_TIMER_FLAG_SOFT_TIMER"
    "\<And>u. has_flag k1 u RT_TIMER_FLAG_PERIODIC = has_flag k u RT_TIMER_FLAG_PERIODIC" by blast
  have "kernel_ok p (?s1, k1)"
  proof (rule kernel_okI)
    show "sched_inv ?s1" by (rule suspended_inv [OF kernel_okD(1) [OF ok]]) (simp add: run runnable_def)
    show "stat_of ?s1 u = RT_THREAD_SUSPEND" if "thread_timer u \<in> set (hard_list k1)" for u
      using that kernel_okD(4) [OF ok, of u] k1(3) by auto
    show "has_flag k1 u RT_TIMER_FLAG_PERIODIC = (odd u \<and> p u)" if "u \<in> set (hard_list k1)" for u
      using that kernel_okD(5) [OF ok, of u] kernel_okD(7) [OF ok, of c] k1(3,5) by auto
  qed (use k1(2,4,5) kernel_okD [OF ok] cur in simp_all)
  from schedule_ok [OF this] obtain s' where "rt_schedule ?s1 = Some s'" "kernel_ok p (s', k1)"
    "\<forall>u. \<not> runnable ?s1 u \<longrightarrow> stat_of s' u = stat_of ?s1 u" by blast
  then show ?thesis using k1(1,3) by (simp add: runnable_def)
qed

lemma control_ok:
  assumes ok: "kernel_ok p (s, k)" and "cmd = 2 \<longrightarrow> unat q < RT_THREAD_PRIORITY_MAX"
    and "cmd = 0 \<longrightarrow> stat_of s t = RT_THREAD_INIT \<and> unat (st_init_priority (thr s t)) < RT_THREAD_PRIORITY_MAX"
    and "cmd = 1 \<longrightarrow> live s t \<and> \<not> te_static env t"
  shows "\<exists>s' k'. rt_thread_control env t cmd q (s, k) = Some (s', k') \<and> kernel_ok p (s', k') \<and>
        (cmd = 2 \<longrightarrow> prio s' t = unat q) \<and> (cmd = 0 \<longrightarrow> runnable s' t) \<and>
        (cmd = 1 \<longrightarrow> stat_of s' t = RT_THREAD_CLOSE \<and> thread_timer t \<notin> set (hard_list k')) \<and>
        (cmd \<notin> {0, 1, 2} \<longrightarrow> (s', k') = (s, k))"
proof -
  consider "cmd = 2" | "cmd = 0" | "cmd = 1" | "cmd \<notin> {0, 1, 2}" by auto
  then show ?thesis
  proof cases
    case 1
    then show ?thesis using priority_ok [OF ok, of q t] assms(2) by (auto simp: rt_thread_control_def)
  next
    case 2
    then show ?thesis using startup_ok [OF ok, of t] assms(3) by (simp add: rt_thread_control_def)
  next
    case 3
    then show ?thesis using detach_ok(2) [OF ok, of t env] assms(4) by (auto simp: rt_thread_control_def)
  next
    case 4
    then show ?thesis using ok by (simp add: rt_thread_control_def)
  qed
qed

text \<open>
  Claim C31: in a kernel whose scheduler and timers are in order, resuming, suspending, starting, sleeping,
  ending, detaching, deleting and controlling a thread never fail and keep the order: a thread
  with an armed timer is suspended, so no timeout function meets a failed assertion. Resuming and suspending hold for any thread, one that is in no state for it is
  left alone with an error code; sleeping is for the running thread and fewer ticks than half
  the range, starting for a new thread with a priority below 32, ending for the running one;
  deleting (a created thread) and detaching (a static one) for every thread that has not ended, new,
  ready, running or suspended, and \<open>rt_thread_control\<close> for its three commands under these
  conditions and for every other number. A thread that has ended, in whichever way, has no armed
  timer.
\<close>

theorem thread_operations_keep_order:
  assumes ok: "kernel_ok p (s, k)"
  shows "(\<exists>s' k' r. rt_thread_resume t (s, k) = Some ((s', k'), r) \<and> kernel_ok p (s', k') \<and>
      (if stat_of s t = RT_THREAD_SUSPEND then r = 0 \<and> runnable s' t \<and> thread_timer t \<notin> set (hard_list k')
       else r = - 1 \<and> (s', k') = (s, k))) \<and>
    (\<exists>s' k' r. rt_thread_suspend t (s, k) = Some ((s', k'), r) \<and> kernel_ok p (s', k') \<and>
      (if runnable s t then r = 0 \<and> stat_of s' t = RT_THREAD_SUSPEND else r = - 1 \<and> (s', k') = (s, k))) \<and>
    (stat_of s t = RT_THREAD_INIT \<longrightarrow> unat (st_init_priority (thr s t)) < RT_THREAD_PRIORITY_MAX \<longrightarrow>
      (\<exists>s' k'. rt_thread_startup t (s, k) = Some (s', k') \<and> kernel_ok p (s', k') \<and> runnable s' t)) \<and>
    (\<forall>c. current s = Some c \<longrightarrow> stat_of s c = RT_THREAD_RUNNING \<longrightarrow>
      (\<exists>s' k'. rt_thread_exit env (s, k) = Some (s', k') \<and> kernel_ok p (s', k') \<and> stat_of s' c = RT_THREAD_CLOSE \<and>
        thread_timer c \<notin> set (hard_list k'))) \<and>
    (\<forall>c n. current s = Some c \<longrightarrow> stat_of s c = RT_THREAD_RUNNING \<longrightarrow> 0 < n \<longrightarrow> n < TICK_HALF \<longrightarrow>
      (\<exists>s' k'. rt_thread_sleep tt n (s, k) = Some (s', k') \<and> kernel_ok p (s', k') \<and> stat_of s' c = RT_THREAD_SUSPEND \<and>
        thread_timer c \<in> set (hard_list k'))) \<and>
    (live s t \<longrightarrow> te_static env t \<longrightarrow>
      (\<exists>s' k'. rt_thread_detach env t (s, k) = Some (s', k') \<and> kernel_ok p (s', k') \<and>
        stat_of s' t = RT_THREAD_CLOSE \<and> thread_timer t \<notin> set (hard_list k'))) \<and>
    (live s t \<longrightarrow> \<not> te_static env t \<longrightarrow>
      (\<exists>s' k'. rt_thread_delete env t (s, k) = Some (s', k') \<and> kernel_ok p (s', k') \<and>
        stat_of s' t = RT_THREAD_CLOSE \<and> t \<in> set (defunct s') \<and> thread_timer t \<notin> set (hard_list k'))) \<and>
    (\<forall>cmd q. (cmd = 2 \<longrightarrow> unat q < RT_THREAD_PRIORITY_MAX) \<longrightarrow>
      (cmd = 0 \<longrightarrow> stat_of s t = RT_THREAD_INIT \<and> unat (st_init_priority (thr s t)) < RT_THREAD_PRIORITY_MAX) \<longrightarrow>
      (cmd = 1 \<longrightarrow> live s t \<and> \<not> te_static env t) \<longrightarrow>
      (\<exists>s' k'. rt_thread_control env t cmd q (s, k) = Some (s', k') \<and> kernel_ok p (s', k') \<and>
        (cmd = 2 \<longrightarrow> prio s' t = unat q) \<and> (cmd = 0 \<longrightarrow> runnable s' t) \<and>
        (cmd = 1 \<longrightarrow> stat_of s' t = RT_THREAD_CLOSE \<and> thread_timer t \<notin> set (hard_list k')) \<and>
        (cmd \<notin> {0, 1, 2} \<longrightarrow> (s', k') = (s, k))))"
proof (intro conjI impI allI)
  show "\<exists>s' k' r. rt_thread_resume t (s, k) = Some ((s', k'), r) \<and> kernel_ok p (s', k') \<and>
      (if stat_of s t = RT_THREAD_SUSPEND then r = 0 \<and> runnable s' t \<and> thread_timer t \<notin> set (hard_list k')
       else r = - 1 \<and> (s', k') = (s, k))"
  proof (cases "stat_of s t = RT_THREAD_SUSPEND")
    case True
    from resume_ok [OF ok True] stop_ok(2) [OF kernel_okD(3) [OF ok], of "thread_timer t"] True show ?thesis by fastforce
  qed (use ok in \<open>simp add: rt_thread_resume_def\<close>)
  show "\<exists>s' k' r. rt_thread_suspend t (s, k) = Some ((s', k'), r) \<and> kernel_ok p (s', k') \<and>
      (if runnable s t then r = 0 \<and> stat_of s' t = RT_THREAD_SUSPEND else r = - 1 \<and> (s', k') = (s, k))"
  proof (cases "runnable s t")
    case True
    from suspend_ok [OF ok True] True show ?thesis by fastforce
  qed (use ok in \<open>simp add: rt_thread_suspend_def runnable_def\<close>)
  fix cmd :: int and q :: u8
  assume a: "cmd = 2 \<longrightarrow> unat q < RT_THREAD_PRIORITY_MAX"
    "cmd = 0 \<longrightarrow> stat_of s t = RT_THREAD_INIT \<and> unat (st_init_priority (thr s t)) < RT_THREAD_PRIORITY_MAX"
    "cmd = 1 \<longrightarrow> live s t \<and> \<not> te_static env t"
  show "\<exists>s' k'. rt_thread_control env t cmd q (s, k) = Some (s', k') \<and> kernel_ok p (s', k') \<and>
        (cmd = 2 \<longrightarrow> prio s' t = unat q) \<and> (cmd = 0 \<longrightarrow> runnable s' t) \<and>
        (cmd = 1 \<longrightarrow> stat_of s' t = RT_THREAD_CLOSE \<and> thread_timer t \<notin> set (hard_list k')) \<and>
        (cmd \<notin> {0, 1, 2} \<longrightarrow> (s', k') = (s, k))"
    by (rule control_ok [OF ok a])
qed (use startup_ok [OF ok] exit_ok [OF ok] sleep_ok [OF ok] detach_ok [OF ok] in blast)+

theorem thread_operations_keep_order_witness:
  "(\<exists>s' k'. rt_thread_resume 3 (sample_sched, idle_timers) = Some ((s', k'), 0) \<and> runnable s' 3) \<and>
    (\<exists>s' k'. rt_thread_delete \<lparr>te_static = \<lambda>_. False, te_cleanup = \<lambda>_. False\<rparr> 3 (sample_sched, idle_timers) = Some (s', k') \<and> 3 \<in> set (defunct s'))"
proof -
  have s: "stat_of sample_sched 3 = RT_THREAD_SUSPEND" by (simp add: sample_sched_def sample_sthread_def stat_of_def)
  then have "live sample_sched 3" by (simp add: live_def)
  then show ?thesis
    using thread_operations_keep_order [OF sample_kernel_ok, of 3 "\<lparr>te_static = \<lambda>_. False, te_cleanup = \<lambda>_. False\<rparr>" undefined] s by auto
qed

section \<open>Cleaning up\<close>

lemma clean_one:
  assumes inv: "sched_inv s" and cur: "current s \<noteq> None" and nest: "lock_nest s = 0" and d: "defunct s = t # ts"
  shows "\<exists>s1. rt_exit_critical (rt_enter_critical (unlink t s)) = Some s1 \<and> sched_inv s1 \<and> current s1 \<noteq> None \<and> lock_nest s1 = 0 \<and> defunct s1 = ts"
proof -
  let ?s = "unlink t s"
  have "t \<notin> ready_set s" using sched_invD(2,7) [OF inv, of t] d by auto
  then have i: "sched_inv ?s" using unlink_free(6) inv by blast
  obtain c where c: "current ?s = Some c" using cur by auto
  have "rt_exit_critical (rt_enter_critical ?s) = rt_schedule ?s"
    using critical_once [of ?s] nest c by simp
  with schedule_total [OF i c] d nest show ?thesis by auto
qed

text \<open>
  Claim C32: one call of \<open>rt_thread_idle_excute\<close> by a running system returns and gives back the memory
  of every ended thread in the list up to the first one that is a static object, in the order of
  the list, and leaves the rest; with no static thread in it the list ends empty.
\<close>

theorem idle_frees_ended_threads:
  assumes "sched_inv s" and "current s \<noteq> None" and "lock_nest s = 0"
  shows "\<exists>s'. rt_thread_idle_excute env freed s = Some (s', freed @ takeWhile (\<lambda>t. \<not> te_static env t) (defunct s)) \<and>
    defunct s' = tl (dropWhile (\<lambda>t. \<not> te_static env t) (defunct s)) \<and> sched_inv s'"
  using assms
proof (induction "defunct s" arbitrary: s freed)
  case Nil
  then show ?case by (subst rt_thread_idle_excute.simps) (simp flip: Nil(1))
next
  case (Cons t ts)
  from clean_one [OF Cons.prems Cons.hyps(2) [symmetric]] obtain s1
    where s1: "rt_exit_critical (rt_enter_critical (unlink t s)) = Some s1" "sched_inv s1" "current s1 \<noteq> None" "lock_nest s1 = 0" "defunct s1 = ts"
    by blast
  show ?case
  proof (cases "te_static env t")
    case True
    then show ?thesis using s1 by (subst rt_thread_idle_excute.simps) (simp flip: Cons.hyps(2))
  next
    case False
    from Cons.hyps(1) [OF s1(5) [symmetric] s1(2-4), of "freed @ [t]"] False s1(1,5) show ?thesis
      by (subst rt_thread_idle_excute.simps) (simp flip: Cons.hyps(2))
  qed
qed

theorem idle_frees_ended_threads_witness:
  "\<exists>s'. rt_thread_idle_excute \<lparr>te_static = \<lambda>_. False, te_cleanup = \<lambda>_. False\<rparr> [] (closed True 3 sample_sched) = Some (s', [3])"
proof -
  have "stat_of sample_sched 3 = RT_THREAD_SUSPEND" by (simp add: sample_sched_def sample_sthread_def stat_of_def)
  then have "sched_inv (closed True 3 sample_sched)" by (intro closed_inv [OF sample_sched_inv]) simp
  moreover have "defunct (closed True 3 sample_sched) = [3]" by (simp add: sample_sched_def)
  ultimately show ?thesis
    using idle_frees_ended_threads [of "closed True 3 sample_sched" "\<lparr>te_static = \<lambda>_. False, te_cleanup = \<lambda>_. False\<rparr>" "[]"]
    by (auto simp: sample_running)
qed

end
