(* ===== verification/Led_Timer.thy ===== *)
theory Led_Timer
  imports App_Main Rt_Thread
begin

text \<open>
  The blinking LED on the kernel: the periodic timer that \<open>led_blink_init\<close> of
  \<open>applications/main.c\<close> creates, among the timers of the sleeping threads. The state is the
  scheduler with the LED, and the timers; timer 1 is the one of the LED. The theory puts the
  property of the timer function and the one of the timers together: at which tick since the
  start of the timer the LED changes.
\<close>

definition LED_TIMER :: nat where "LED_TIMER = 1"

definition led_slice :: "sched \<times> blink \<Rightarrow> (sched \<times> blink) option" where
  "led_slice = (\<lambda>(s, b). map_option (\<lambda>s'. (s', b)) (tick_slice s))"

definition led_functions :: "nat \<Rightarrow> sched \<times> blink \<Rightarrow> (sched \<times> blink) option" where
  "led_functions u = (\<lambda>(s, b).
     if u = LED_TIMER then Some (s, led_blink_timeout b) else map_option (\<lambda>s'. (s', b)) (timer_functions u s))"

text \<open>Creating and starting the timer, when there is memory for it.\<close>

definition led_blink_start :: "bool \<Rightarrow> ('w \<times> timers \<Rightarrow> ('w \<times> timers) option) \<Rightarrow> 'w \<times> timers \<Rightarrow> ('w \<times> timers) option" where
  "led_blink_start created wake = (\<lambda>(w, k).
     case led_blink_init created of
       None \<Rightarrow> Some (w, k)
     | Some (n, periodic) \<Rightarrow>
         Option.bind (rt_timer_init LED_TIMER (of_nat n) (if periodic then RT_TIMER_FLAG_PERIODIC else 0) k)
           (\<lambda>k1. rt_timer_start wake LED_TIMER (w, k1)))"

definition led_ok :: "nat set \<Rightarrow> sched \<times> blink \<Rightarrow> bool" where
  "led_ok A = (\<lambda>(s, b). threads_ok A s)"

interpretation led: timer_observer led_slice led_functions led_ok "\<lambda>u. odd u \<and> p u \<or> u = LED_TIMER" LED_TIMER snd led_blink_timeout for p
proof unfold_locales
  show "\<exists>w'. led_slice w = Some w' \<and> led_ok A w'" if "led_ok A w" for A w
    using that threads_slice [of A "fst w"] by (auto simp: led_ok_def led_slice_def split: prod.splits)
  show "snd w' = snd w" if "led_ok A w" "led_slice w = Some w'" for A w w'
    using that by (auto simp: led_slice_def split: prod.splits)
  show "\<exists>w'. led_functions u w = Some w' \<and> led_ok (if odd u \<and> p u \<or> u = LED_TIMER then A else A - {u}) w'" if "led_ok A w" "u \<in> A" for A w u
  proof (cases "u = LED_TIMER")
    case True
    then show ?thesis using that by (auto simp: led_ok_def led_functions_def split: prod.splits)
  next
    case False
    then show ?thesis using that threads_timer [of A "fst w" u p] by (auto simp: led_ok_def led_functions_def split: prod.splits)
  qed
  show "snd w' = (if u = LED_TIMER then led_blink_timeout (snd w) else snd w)" if "led_functions u w = Some w'" for u w w'
    using that by (auto simp: led_functions_def split: prod.splits if_splits)
qed

lemma led_start_flags:
  assumes "u \<in> set (hard_list k)" and "LED_TIMER \<notin> set (hard_list k)"
  shows "has_flag (upd_timer LED_TIMER f k) u v = has_flag k u v"
  using assms by (auto simp: has_flag_def)

text \<open>
  Claim C33: once \<open>led_blink_init\<close> has started its timer in a kernel in order, the system goes on
  ticking without a failure, and after \<open>m\<close> ticks the LED has changed \<open>(m div 10) div (blink_time + 1)\<close>
  times: its period is ten ticks times the blink time plus one, whatever the threads and the
  other timers do.
\<close>

theorem led_blinks_in_time:
  assumes ok: "kernel_ok p (s, k)" and free: "LED_TIMER \<notin> set (hard_list k)" "LED_TIMER \<notin> set (soft_list k)" and zero: "blink_cnt b = 0"
  shows "\<exists>k1 s' b' k'. led_blink_start True wake ((s, b), k) = Some ((s, b), k1) \<and>
    tick_run led_slice wake (timer_func led_functions) m ((s, b), k1) = Some ((s', b'), k') \<and>
    blink_flag b' = (blink_flag b \<noteq> odd (m div 10 div Suc (unat (blink_time b)))) \<and>
    (10 * Suc (unat (blink_time b)) \<le> m \<longrightarrow> led_pins b' LED0_PIN = (\<not> blink_flag b'))"
proof -
  let ?f = "\<lambda>x. x\<lparr>tm_flag := RT_TIMER_FLAG_PERIODIC AND NOT RT_TIMER_FLAG_ACTIVATED, tm_timeout := 0, tm_init_tick := 10\<rparr>"
  let ?k = "upd_timer LED_TIMER ?f k"
  have init: "rt_timer_init LED_TIMER 10 RT_TIMER_FLAG_PERIODIC k = Some ?k" using free by (simp add: rt_timer_init_def)
  have tok: "timers_ok ?k" using timers_ok_cong [of ?k k] kernel_okD(3) [OF ok] free by auto
  have per: "has_flag ?k u RT_TIMER_FLAG_PERIODIC = (odd u \<and> p u \<or> u = LED_TIMER)" if "u \<in> set (hard_list ?k)" for u
    using that free kernel_okD(5) [OF ok, of u] led_start_flags [of u k ?f] by auto
  have th: "threads_ok (set (hard_list k)) s" using ok by (simp add: kernel_ok_def armed_inv_def)
  have a: "armed_inv led_ok (\<lambda>u. odd u \<and> p u \<or> u = LED_TIMER) (s, b) ?k"
    using tok per th by (simp add: armed_inv_def led_ok_def)
  have i: "led_ok (insert LED_TIMER (set (hard_list ?k))) (s, b)"
    using th by (auto simp: led_ok_def threads_ok_def thread_timer_def LED_TIMER_def)
  have fl: "\<not> has_flag ?k LED_TIMER RT_TIMER_FLAG_SOFT_TIMER" "has_flag ?k LED_TIMER RT_TIMER_FLAG_PERIODIC = (odd LED_TIMER \<and> p LED_TIMER \<or> LED_TIMER = LED_TIMER)"
    "0 < tm_init_tick (tmr ?k LED_TIMER)" "tm_init_tick (tmr ?k LED_TIMER) < TICK_HALF" "tm_init_tick (tmr ?k LED_TIMER) = 10"
    by (simp_all add: has_flag_def timer_flags TICK_HALF_def)
  from led.start_fires [OF a i fl(1-4), where wake = wake and m = m] obtain k1 w' k'
    where r: "rt_timer_start wake LED_TIMER ((s, b), ?k) = Some ((s, b), k1)"
      "tick_run led_slice wake (timer_func led_functions) m ((s, b), k1) = Some (w', k')" "snd w' = (led_blink_timeout ^^ (m div 10)) b"
    using fl(5) by auto
  have start: "led_blink_start True wake ((s, b), k) = Some ((s, b), k1)"
    using init r(1) by (simp add: led_blink_start_def led_blink_init_def)
  let ?b = "(led_blink_timeout ^^ (m div 10)) b" and ?p = "Suc (unat (blink_time b))"
  have B: "blink_flag ?b = (blink_flag b \<noteq> odd (m div 10 div ?p))"
    "led_pins ?b = (if m div 10 < ?p then led_pins b else set_level (led_pins b) LED0_PIN (\<not> blink_flag ?b))"
    using led_blink_run [OF zero, of "m div 10"] by (simp_all add: Let_def)
  have "led_pins ?b LED0_PIN = (\<not> blink_flag ?b)" if "10 * ?p \<le> m"
  proof -
    have "?p \<le> m div 10" using that by (simp add: less_eq_div_iff_mult_less_eq)
    then show ?thesis using B(2) by simp
  qed
  then show ?thesis using start r(2,3) B(1) by (cases w') auto
qed

theorem led_blinks_in_time_witness:
  "\<exists>k1 s' b' k'. led_blink_start True Some ((sample_sched, \<lparr>blink_flag = False, blink_cnt = 0, blink_time = 50, led_pins = (\<lambda>_. False)\<rparr>), idle_timers) =
       Some ((sample_sched, \<lparr>blink_flag = False, blink_cnt = 0, blink_time = 50, led_pins = (\<lambda>_. False)\<rparr>), k1) \<and>
     tick_run led_slice Some (timer_func led_functions) 510
       ((sample_sched, \<lparr>blink_flag = False, blink_cnt = 0, blink_time = 50, led_pins = (\<lambda>_. False)\<rparr>), k1) = Some ((s', b'), k') \<and>
     blink_flag b'"
proof -
  have "LED_TIMER \<notin> set (hard_list idle_timers)" "LED_TIMER \<notin> set (soft_list idle_timers)" by (simp_all add: idle_timers_def)
  from led_blinks_in_time [OF sample_kernel_ok this, of "\<lparr>blink_flag = False, blink_cnt = 0, blink_time = 50, led_pins = (\<lambda>_. False)\<rparr>" Some 510]
  show ?thesis by auto
qed

end
