(* ===== verification/Msh.thy ===== *)
theory Msh
  imports Config
begin

text \<open>
  The command line of the shell (\<open>rt-thread/components/finsh/msh.c\<close>): cutting a line into its
  arguments, finding the command and running it. The line is \<open>len\<close> bytes of memory from the
  address \<open>cmd\<close> on; \<open>ptr\<close> and \<open>position\<close> of the code always move together, so one number \<open>p\<close>
  stands for both. The table of commands, which the linker puts together, is a list of names
  with what they stand for. Running a script is an argument, since it needs the file system; of
  the completion of names, what the file system answers is one. The theory shows that a line
  written from arguments, plain or in quotes, is cut into exactly these arguments, that the
  commands of \<open>config.c\<close> receive what was typed, and that completing a name keeps the line
  in order as long as the names fit.
\<close>

section \<open>Cutting the line\<close>

definition FINSH_ARG_MAX :: nat where "FINSH_ARG_MAX = 10"

definition is_sep :: "u8 \<Rightarrow> bool" where
  "is_sep c \<longleftrightarrow> c = 32 \<or> c = 9"

function msh_strip :: "nat \<Rightarrow> nat \<Rightarrow> mem \<Rightarrow> nat \<Rightarrow> mem \<times> nat" where
  "msh_strip cmd len m p =
     (if is_sep (m (cmd + p)) \<and> p < len then msh_strip cmd len (m(cmd + p := 0)) (p + 1) else (m, p))"
  by pat_completeness auto
termination by (relation "measure (\<lambda>(cmd, len, m, p). len - p)") auto

function msh_word :: "nat \<Rightarrow> nat \<Rightarrow> mem \<Rightarrow> nat \<Rightarrow> nat" where
  "msh_word cmd len m p = (if \<not> is_sep (m (cmd + p)) \<and> p < len then msh_word cmd len m (p + 1) else p)"
  by pat_completeness auto
termination by (relation "measure (\<lambda>(cmd, len, m, p). len - p)") auto

function msh_string :: "nat \<Rightarrow> nat \<Rightarrow> mem \<Rightarrow> nat \<Rightarrow> nat" where
  "msh_string cmd len m p =
     (if m (cmd + p) \<noteq> 34 \<and> p < len
      then msh_string cmd len m ((if m (cmd + p) = 92 \<and> m (cmd + p + 1) = 34 then p + 1 else p) + 1)
      else p)"
  by pat_completeness auto
termination by (relation "measure (\<lambda>(cmd, len, m, p). len - p)") auto

declare msh_strip.simps [simp del] msh_word.simps [simp del] msh_string.simps [simp del]

lemma msh_strip_ge: "p \<le> snd (msh_strip cmd len m p)"
proof (induction cmd len m p rule: msh_strip.induct)
  case (1 cmd len m p)
  then show ?case by (subst msh_strip.simps) (auto simp: fun_upd_def)
qed

lemma msh_word_ge: "p \<le> msh_word cmd len m p"
proof (induction cmd len m p rule: msh_word.induct)
  case (1 cmd len m p)
  then show ?case by (subst msh_word.simps) auto
qed

lemma msh_string_ge: "p \<le> msh_string cmd len m p"
proof (induction cmd len m p rule: msh_string.induct)
  case (1 cmd len m p)
  then show ?case by (subst msh_string.simps) (auto split: if_splits)
qed

lemma msh_strip_stop: "snd (msh_strip cmd len m p) < len \<Longrightarrow> \<not> is_sep (fst (msh_strip cmd len m p) (cmd + snd (msh_strip cmd len m p)))"
proof (induction cmd len m p rule: msh_strip.induct)
  case (1 cmd len m p)
  show ?case
  proof (cases "is_sep (m (cmd + p)) \<and> p < len")
    case True
    then show ?thesis using 1 by (simp add: msh_strip.simps [of cmd len m p] fun_upd_def)
  next
    case False
    have e: "msh_strip cmd len m p = (m, p)" using False by (subst msh_strip.simps) auto
    show ?thesis using False 1(2) unfolding e by auto
  qed
qed

lemma msh_word_gr: "\<not> is_sep (m (cmd + p)) \<Longrightarrow> p < len \<Longrightarrow> p < msh_word cmd len m p"
  using msh_word_ge [of "p + 1" cmd len m] by (subst msh_word.simps) simp

text \<open>The arguments are the addresses in \<open>argv\<close>; the loop ends at the end of the line or with
  too many arguments.\<close>

function msh_split_loop :: "nat \<Rightarrow> nat \<Rightarrow> mem \<Rightarrow> nat \<Rightarrow> nat list \<Rightarrow> mem \<times> nat list" where
  "msh_split_loop cmd len m p argv =
     (if p < len
      then let (m1, p1) = msh_strip cmd len m p in
        if FINSH_ARG_MAX \<le> length argv \<or> len \<le> p1 then (m1, argv)
        else if m1 (cmd + p1) = 34
        then let p3 = msh_string cmd len m1 (p1 + 1) in
          if len \<le> p3 then (m1, argv @ [cmd + p1 + 1])
          else msh_split_loop cmd len (m1(cmd + p3 := 0)) (p3 + 1) (argv @ [cmd + p1 + 1])
        else let p2 = msh_word cmd len m1 p1 in
          if len \<le> p2 then (m1, argv @ [cmd + p1])
          else msh_split_loop cmd len m1 p2 (argv @ [cmd + p1])
      else (m, argv))"
  by pat_completeness auto

termination
proof (relation "measure (\<lambda>(cmd, len, m, p, argv). len - p)")
  fix cmd len p p1 p3 :: nat and m m1 :: mem and argv :: "nat list" and x
  assume a: "p < len" "x = msh_strip cmd len m p" "(m1, p1) = x" "\<not> (FINSH_ARG_MAX \<le> length argv \<or> len \<le> p1)"
  have p: "p \<le> p1" using msh_strip_ge [of p cmd len m] a(2,3) by (metis snd_conv)
  {
    assume "p3 = msh_string cmd len m1 (p1 + 1)"
    then show "((cmd, len, m1(cmd + p3 := 0), p3 + 1, argv @ [cmd + p1 + 1]), cmd, len, m, p, argv)
        \<in> measure (\<lambda>(cmd, len, m, p, argv). len - p)"
      using a p msh_string_ge [of "p1 + 1" cmd len m1] by (auto simp: less_diff_conv)
  next
    fix p2 assume "p2 = msh_word cmd len m1 p1"
    moreover have "\<not> is_sep (m1 (cmd + p1))" using msh_strip_stop [of cmd len m p] a(2-4) by (metis fst_conv linorder_not_le snd_conv)
    ultimately show "((cmd, len, m1, p2, argv @ [cmd + p1]), cmd, len, m, p, argv)
        \<in> measure (\<lambda>(cmd, len, m, p, argv). len - p)"
      using a p msh_word_gr [of m1 cmd p1 len] by (auto simp: less_diff_conv)
  }
qed simp

declare msh_split_loop.simps [simp del]

definition msh_split :: "mem \<Rightarrow> nat \<Rightarrow> nat \<Rightarrow> mem \<times> nat list" where
  "msh_split m cmd len = msh_split_loop cmd len m 0 []"


section \<open>Running a command\<close>

text \<open>\<open>strncmp (name, cmd, n) == 0\<close> for a name without its NUL.\<close>

fun name_equal :: "u8 list \<Rightarrow> mem \<Rightarrow> nat \<Rightarrow> nat \<Rightarrow> bool" where
  "name_equal name m a 0 = True"
| "name_equal [] m a (Suc n) = (m a = 0)"
| "name_equal (c # cs) m a (Suc n) = (m a = c \<and> name_equal cs m (a + 1) n)"

definition CMD_PREFIX :: "u8 list" where "CMD_PREFIX = c_bytes ''__cmd_''"

fun msh_get_cmd :: "(u8 list \<times> 'f) list \<Rightarrow> mem \<Rightarrow> nat \<Rightarrow> nat \<Rightarrow> 'f option" where
  "msh_get_cmd [] m cmd n = None"
| "msh_get_cmd ((name, f) # rest) m cmd n =
     (if take 6 name \<noteq> CMD_PREFIX then msh_get_cmd rest m cmd n
      else if name_equal (drop 6 name) m cmd n \<and> length (drop 6 name) = n then Some f
      else msh_get_cmd rest m cmd n)"

text \<open>What the line comes to: a call of a command with its arguments, a script, nothing, or the
  message that there is no such command.\<close>

datatype 'f msh_result = Msh_nothing | Msh_call 'f mem "nat list" | Msh_script | Msh_not_found

definition msh_exec_cmd :: "(u8 list \<times> 'f) list \<Rightarrow> mem \<Rightarrow> nat \<Rightarrow> nat \<Rightarrow> 'f msh_result option" where
  "msh_exec_cmd table m cmd len =
     (let cmd0_size = msh_word cmd len m 0 in
      if cmd0_size = 0 then None
      else case msh_get_cmd table m cmd cmd0_size of
          None \<Rightarrow> None
        | Some f \<Rightarrow> (let (m1, argv) = msh_split m cmd len in if argv = [] then None else Some (Msh_call f m1 argv)))"

text \<open>The blanks at the beginning are skipped as long as there are any, even behind the line.\<close>

partial_function (option) msh_skip :: "mem \<Rightarrow> nat \<Rightarrow> nat option" where
  "msh_skip m cmd = (if is_sep (m cmd) then msh_skip m (cmd + 1) else Some cmd)"

definition msh_exec :: "(u8 list \<times> 'f) list \<Rightarrow> (u8 list \<Rightarrow> bool) \<Rightarrow> mem \<Rightarrow> nat \<Rightarrow> u32 \<Rightarrow> 'f msh_result option" where
  "msh_exec table script m cmd len =
     (case msh_skip m cmd of
        None \<Rightarrow> None
      | Some cmd1 \<Rightarrow>
        (let len1 = unat (len - of_nat (cmd1 - cmd)) in
         if len1 = 0 then Some Msh_nothing
         else case msh_exec_cmd table m cmd1 len1 of
             Some r \<Rightarrow> Some r
           | None \<Rightarrow> if script (mem_bytes m cmd1 len1) then Some Msh_script else Some Msh_not_found))"

section \<open>Lines written from arguments\<close>

text \<open>An argument is written plain or in quotes; before each stand blanks.\<close>

fun arg_text :: "bool \<Rightarrow> u8 list \<Rightarrow> u8 list" where
  "arg_text quoted s = (if quoted then 34 # s @ [34] else s)"

fun arg_ok :: "bool \<Rightarrow> u8 list \<Rightarrow> bool" where
  "arg_ok quoted s \<longleftrightarrow> 0 \<notin> set s \<and>
     (if quoted then 34 \<notin> set s \<and> 92 \<notin> set s
      else s \<noteq> [] \<and> hd s \<noteq> 34 \<and> (\<forall>c \<in> set s. \<not> is_sep c))"

fun line_text :: "(u8 list \<times> bool \<times> u8 list) list \<Rightarrow> u8 list \<Rightarrow> u8 list" where
  "line_text [] trail = trail"
| "line_text ((sep, q, s) # ws) trail = sep @ arg_text q s @ line_text ws trail"

text \<open>Blanks are needed after a plain argument.\<close>

fun line_ok :: "(u8 list \<times> bool \<times> u8 list) list \<Rightarrow> u8 list \<Rightarrow> bool" where
  "line_ok [] trail \<longleftrightarrow> (\<forall>c \<in> set trail. is_sep c)"
| "line_ok ((sep, q, s) # ws) trail \<longleftrightarrow> (\<forall>c \<in> set sep. is_sep c) \<and> arg_ok q s \<and> line_ok ws trail \<and>
     (q \<or> (case ws of [] \<Rightarrow> True | (sep', _, _) # _ \<Rightarrow> sep' \<noteq> []))"

text \<open>The bytes from an address on.\<close>

primrec bytes_at :: "mem \<Rightarrow> nat \<Rightarrow> u8 list \<Rightarrow> bool" where
  "bytes_at m a [] \<longleftrightarrow> True"
| "bytes_at m a (x # xs) \<longleftrightarrow> m a = x \<and> bytes_at m (Suc a) xs"

lemma bytes_at_append [simp]: "bytes_at m a (xs @ ys) \<longleftrightarrow> bytes_at m a xs \<and> bytes_at m (a + length xs) ys"
  by (induction xs arbitrary: a) auto

lemma bytes_at_frame: "bytes_at m a xs \<Longrightarrow> (\<And>b. a \<le> b \<Longrightarrow> b < a + length xs \<Longrightarrow> m' b = m b) \<Longrightarrow> bytes_at m' a xs"
  by (induction xs arbitrary: a) auto

lemma cstr_bytes_at: "cstr m a xs \<longleftrightarrow> bytes_at m a xs \<and> m (a + length xs) = 0 \<and> 0 \<notin> set xs"
  by (induction xs arbitrary: a) auto

lemma bytes_at_mem: "bytes_at m a xs \<Longrightarrow> mem_bytes m a (length xs) = xs"
  by (induction xs arbitrary: a) (auto simp: mem_bytes_Suc)

lemma mem_set_Suc: "mem_set (m(a := v)) (Suc a) v n = mem_set m a v (Suc n)"
  by (auto simp: mem_set_def fun_eq_iff)

lemma msh_strip_eq:
  assumes "bytes_at m (cmd + p) (sep @ rest)" and "\<forall>c \<in> set sep. is_sep c" and "rest = [] \<or> \<not> is_sep (hd rest)"
    and "p + length (sep @ rest) = len"
  shows "msh_strip cmd len m p = (mem_set m (cmd + p) 0 (length sep), p + length sep)"
  using assms
proof (induction sep arbitrary: m p)
  case Nil
  then have "\<not> (is_sep (m (cmd + p)) \<and> p < len)" by (cases rest) auto
  then show ?case by (subst msh_strip.simps) auto
next
  case (Cons c sep)
  then have "msh_strip cmd len m p = msh_strip cmd len (m(cmd + p := 0)) (p + 1)" by (subst msh_strip.simps) simp
  also have "\<dots> = (mem_set (m(cmd + p := 0)) (cmd + (p + 1)) 0 (length sep), p + 1 + length sep)"
    using Cons.prems by (intro Cons.IH) (auto elim!: bytes_at_frame)
  finally show ?case by (simp add: mem_set_Suc)
qed

lemma msh_word_eq:
  assumes "bytes_at m (cmd + p) (w @ rest)" and "\<forall>c \<in> set w. \<not> is_sep c" and "rest = [] \<or> is_sep (hd rest)"
    and "p + length (w @ rest) = len"
  shows "msh_word cmd len m p = p + length w"
  using assms
proof (induction w arbitrary: p)
  case Nil
  then have "\<not> (\<not> is_sep (m (cmd + p)) \<and> p < len)" by (cases rest) auto
  then show ?case by (subst msh_word.simps) auto
next
  case (Cons c w)
  then have "msh_word cmd len m p = msh_word cmd len m (p + 1)" by (subst msh_word.simps) simp
  also have "\<dots> = p + 1 + length w" using Cons.prems by (intro Cons.IH) auto
  finally show ?case by simp
qed

lemma msh_string_eq:
  assumes "bytes_at m (cmd + p) (s @ 34 # rest)" and "34 \<notin> set s" and "92 \<notin> set s" and "p + length (s @ 34 # rest) = len"
  shows "msh_string cmd len m p = p + length s"
  using assms
proof (induction s arbitrary: p)
  case Nil
  then show ?case by (subst msh_string.simps) simp
next
  case (Cons c s)
  then have "msh_string cmd len m p = msh_string cmd len m (p + 1)" by (subst msh_string.simps) auto
  also have "\<dots> = p + 1 + length s" using Cons.prems by (intro Cons.IH) auto
  finally show ?case by simp
qed

text \<open>What the loop does with the rest of a line: the new arguments are the strings written there,
  nothing before and behind is changed, and a blank at the beginning becomes the end of the
  argument before it.\<close>

definition splits :: "nat \<Rightarrow> nat \<Rightarrow> mem \<Rightarrow> nat \<Rightarrow> nat list \<Rightarrow> u8 list \<Rightarrow> u8 list list \<Rightarrow> bool" where
  "splits cmd len m p argv text ss \<longleftrightarrow>
     (\<exists>m' new. msh_split_loop cmd len m p argv = (m', argv @ new) \<and> list_all2 (cstr m') new ss \<and>
        (\<forall>a. a < cmd + p \<or> cmd + len \<le> a \<longrightarrow> m' a = m a) \<and>
        (text = [] \<or> is_sep (hd text) \<longrightarrow> m' (cmd + p) = 0))"

lemma splits_blanks:
  assumes "bytes_at m (cmd + p) trail" and "p + length trail = len" and "m (cmd + len) = 0" and "\<forall>c \<in> set trail. is_sep c"
  shows "splits cmd len m p argv trail []"
proof (cases "p < len")
  case True
  have "msh_strip cmd len m p = (mem_set m (cmd + p) 0 (length trail), p + length trail)"
    using msh_strip_eq [of m cmd p trail "[]" len] assms by simp
  then show ?thesis using True assms(2) by (auto simp: splits_def msh_split_loop.simps [of cmd len m p] mem_set_def)
next
  case False
  then show ?thesis using assms by (auto simp: splits_def msh_split_loop.simps [of cmd len m p])
qed


lemma splits_quoted:
  assumes bytes: "bytes_at m (cmd + p) (sep @ 34 # s @ 34 # rest)" and len: "p + length (sep @ 34 # s @ 34 # rest) = len"
    and sep: "\<forall>c \<in> set sep. is_sep c" and s: "0 \<notin> set s" "34 \<notin> set s" "92 \<notin> set s" and argv: "length argv < FINSH_ARG_MAX"
    and rest: "\<And>m' argv'. bytes_at m' (cmd + (p + length sep + length s + 2)) rest \<Longrightarrow> m' (cmd + len) = m (cmd + len) \<Longrightarrow>
      length argv' = length argv + 1 \<Longrightarrow> splits cmd len m' (p + length sep + length s + 2) argv' rest ss"
  shows "splits cmd len m p argv (sep @ 34 # s @ 34 # rest) (s # ss)"
proof -
  define m1 where "m1 = mem_set m (cmd + p) 0 (length sep)"
  define p1 where "p1 = p + length sep"
  define m2 where "m2 = m1(cmd + (p1 + 1 + length s) := 0)"
  have q: "\<not> is_sep 34" by (simp add: is_sep_def)
  have strip: "msh_strip cmd len m p = (m1, p1)"
    unfolding m1_def p1_def using bytes len sep q by (intro msh_strip_eq [of _ _ _ _ "34 # s @ 34 # rest"]) auto
  have b1: "bytes_at m1 (cmd + p1) (34 # s @ 34 # rest)"
    using bytes by (auto simp: m1_def p1_def mem_set_def add.assoc elim!: bytes_at_frame)
  have st: "msh_string cmd len m1 (p1 + 1) = p1 + 1 + length s"
    using b1 len s by (intro msh_string_eq [of _ _ _ _ rest]) (auto simp: p1_def)
  have loop: "msh_split_loop cmd len m p argv = msh_split_loop cmd len m2 (p1 + length s + 2) (argv @ [cmd + p1 + 1])"
    using strip st b1 len argv by (subst msh_split_loop.simps) (simp add: p1_def m2_def Let_def)
  have "bytes_at m1 (cmd + (p1 + 1)) s" "bytes_at m1 (cmd + (p1 + length s + 2)) rest"
    using b1 by (simp_all add: add.assoc)
  then have b2: "bytes_at m2 (cmd + (p1 + 1)) s" "bytes_at m2 (cmd + (p1 + length s + 2)) rest"
    by (auto simp: m2_def intro: bytes_at_frame)
  have "m2 (cmd + len) = m (cmd + len)" using len by (auto simp: m2_def m1_def p1_def mem_set_def)
  with rest [of m2 "argv @ [cmd + p1 + 1]"] b2(2) have "splits cmd len m2 (p1 + length s + 2) (argv @ [cmd + p1 + 1]) rest ss"
    by (simp add: p1_def)
  then obtain m' new where r: "msh_split_loop cmd len m2 (p1 + length s + 2) (argv @ [cmd + p1 + 1]) = (m', argv @ [cmd + p1 + 1] @ new)"
      "list_all2 (cstr m') new ss" "\<And>a. a < cmd + (p1 + length s + 2) \<or> cmd + len \<le> a \<Longrightarrow> m' a = m2 a"
    unfolding splits_def by auto
  have "bytes_at m' (cmd + (p1 + 1)) s" using b2(1) r(3) by (auto elim!: bytes_at_frame)
  moreover have "m' (cmd + p1 + 1 + length s) = 0" using r(3) by (simp add: m2_def)
  ultimately have "cstr m' (cmd + p1 + 1) s" using s(1) by (simp add: cstr_bytes_at)
  moreover have "m' a = m a" if "a < cmd + p \<or> cmd + len \<le> a" for a
    using that len r(3) [of a] by (auto simp: m2_def m1_def p1_def mem_set_def)
  moreover have "m' (cmd + p) = 0" if "sep \<noteq> []"
    using that r(3) [of "cmd + p"] by (auto simp: m2_def m1_def p1_def mem_set_def)
  ultimately show ?thesis
    unfolding splits_def using loop r(1,2) q by (intro exI [of _ m'] exI [of _ "(cmd + p1 + 1) # new"]) (cases sep; auto)
qed

lemma splits_plain:
  assumes bytes: "bytes_at m (cmd + p) (sep @ s @ rest)" and len: "p + length (sep @ s @ rest) = len"
    and sep: "\<forall>c \<in> set sep. is_sep c" and s: "0 \<notin> set s" "s \<noteq> []" "hd s \<noteq> 34" "\<forall>c \<in> set s. \<not> is_sep c"
    and after: "rest = [] \<or> is_sep (hd rest)" and nul: "m (cmd + len) = 0" and argv: "length argv < FINSH_ARG_MAX"
    and rest: "\<And>m' argv'. bytes_at m' (cmd + (p + length sep + length s)) rest \<Longrightarrow> m' (cmd + len) = 0 \<Longrightarrow>
      length argv' = length argv + 1 \<Longrightarrow> splits cmd len m' (p + length sep + length s) argv' rest ss"
    and none: "rest = [] \<Longrightarrow> ss = []"
  shows "splits cmd len m p argv (sep @ s @ rest) (s # ss)"
proof -
  define m1 where "m1 = mem_set m (cmd + p) 0 (length sep)"
  define p1 where "p1 = p + length sep"
  obtain c cs where c: "s = c # cs" "\<not> is_sep c" "c \<noteq> 34" using s(2-4) by (cases s) auto
  have strip: "msh_strip cmd len m p = (m1, p1)"
    unfolding m1_def p1_def using bytes len sep c by (intro msh_strip_eq [of _ _ _ _ "s @ rest"]) auto
  have b1: "bytes_at m1 (cmd + p1) (s @ rest)"
    using bytes by (auto simp: m1_def p1_def mem_set_def add.assoc elim!: bytes_at_frame)
  have w: "msh_word cmd len m1 p1 = p1 + length s"
    using b1 len s(4) after by (intro msh_word_eq) (auto simp: p1_def)
  have nul1: "m1 (cmd + len) = 0" using len nul by (auto simp: m1_def mem_set_def)
  obtain m' new where r: "msh_split_loop cmd len m p argv = (m', argv @ (cmd + p1) # new)" "list_all2 (cstr m') new ss"
      "\<And>a. a < cmd + (p1 + length s) \<or> cmd + len \<le> a \<Longrightarrow> m' a = m1 a" "m' (cmd + (p1 + length s)) = 0"
  proof (cases "rest = []")
    case True
    then have "msh_split_loop cmd len m p argv = (m1, argv @ [cmd + p1])"
      using strip w b1 c len argv by (subst msh_split_loop.simps) (simp add: p1_def)
    moreover have "cmd + (p1 + length s) = cmd + len" using len True by (simp add: p1_def)
    ultimately show thesis using that [of m1 "[]"] none True nul1 by simp
  next
    case False
    then have loop: "msh_split_loop cmd len m p argv = msh_split_loop cmd len m1 (p1 + length s) (argv @ [cmd + p1])"
      using strip w b1 c len argv by (subst msh_split_loop.simps) (auto simp: p1_def)
    have "splits cmd len m1 (p1 + length s) (argv @ [cmd + p1]) rest ss"
      using rest [of m1 "argv @ [cmd + p1]"] b1 nul1 by (simp add: p1_def add.assoc)
    then show thesis using that loop after False unfolding splits_def by auto
  qed
  have "bytes_at m' (cmd + p1) s" using b1 r(3) by (auto elim!: bytes_at_frame)
  then have "cstr m' (cmd + p1) s" using s(1) r(4) by (simp add: cstr_bytes_at add.assoc)
  moreover have "m' a = m a" if "a < cmd + p \<or> cmd + len \<le> a" for a
    using that len r(3) [of a] by (auto simp: m1_def p1_def mem_set_def)
  moreover have "m' (cmd + p) = 0" if "sep \<noteq> []"
    using that r(3) [of "cmd + p"] by (auto simp: m1_def p1_def mem_set_def)
  ultimately show ?thesis
    unfolding splits_def using r(1,2) c by (intro exI [of _ m'] exI [of _ "(cmd + p1) # new"]) (cases sep; auto)
qed


lemma hd_line_text: "ws \<noteq> [] \<Longrightarrow> fst (hd ws) \<noteq> [] \<Longrightarrow> line_ok ws trail \<Longrightarrow> line_text ws trail = [] \<or> is_sep (hd (line_text ws trail))"
  by (cases ws) (auto simp: hd_append)

lemma splits_line:
  assumes "bytes_at m (cmd + p) (line_text ws trail)" and "p + length (line_text ws trail) = len" and "m (cmd + len) = 0"
    and "line_ok ws trail" and "length argv + length ws \<le> FINSH_ARG_MAX"
  shows "splits cmd len m p argv (line_text ws trail) (map (\<lambda>(_, _, s). s) ws)"
  using assms
proof (induction ws arbitrary: m p argv)
  case Nil
  then show ?case by (simp add: splits_blanks)
next
  case (Cons w ws)
  obtain sep q s where w: "w = (sep, q, s)" by (cases w)
  show ?case
  proof (cases q)
    case True
    have "splits cmd len m p argv (sep @ 34 # s @ 34 # line_text ws trail) (s # map (\<lambda>(_, _, s). s) ws)"
      using Cons.prems w True by (intro splits_quoted Cons.IH) auto
    then show ?thesis using w True by simp
  next
    case False
    have "line_text ws trail = [] \<or> is_sep (hd (line_text ws trail))"
      using Cons.prems(4) w False hd_line_text [of ws trail] by (cases ws; cases trail) (auto simp: neq_Nil_conv)
    moreover have "line_text ws trail = [] \<Longrightarrow> ws = []"
      using Cons.prems(4) w False by (cases ws) auto
    ultimately have "splits cmd len m p argv (sep @ s @ line_text ws trail) (s # map (\<lambda>(_, _, s). s) ws)"
      using Cons.prems w False by (intro splits_plain Cons.IH) auto
    then show ?thesis using w False by simp
  qed
qed

text \<open>
  Claim C40: a line of up to ten arguments, each written plain or in quotes and with blanks
  between them, is cut into exactly these arguments: the addresses that \<open>msh_split\<close> returns hold
  them as strings, in order, and nothing outside the line has changed. A plain argument has no
  blank, a quoted one no quote and no backslash.
\<close>

theorem msh_split_roundtrip:
  assumes "bytes_at m cmd (line_text ws trail)" and "m (cmd + length (line_text ws trail)) = 0"
    and "line_ok ws trail" and "length ws \<le> FINSH_ARG_MAX"
  shows "\<exists>m' argv. msh_split m cmd (length (line_text ws trail)) = (m', argv) \<and> list_all2 (cstr m') argv (map (\<lambda>(_, _, s). s) ws) \<and>
    (\<forall>a. a < cmd \<or> cmd + length (line_text ws trail) \<le> a \<longrightarrow> m' a = m a)"
  using splits_line [of m cmd 0 ws trail "length (line_text ws trail)" "[]"] assms
  unfolding splits_def msh_split_def by auto


theorem msh_split_roundtrip_witness:
  "\<exists>m' argv. msh_split (\<lambda>a. if a < 9 then [97, 32, 32, 34, 98, 32, 99, 34, 32] ! a else 0) 0 9 = (m', argv) \<and>
    list_all2 (cstr m') argv [c_bytes ''a'', c_bytes ''b c''] \<and>
    (\<forall>a. a < 0 \<or> 9 \<le> a \<longrightarrow> m' a = (if a < 9 then [97, 32, 32, 34, 98, 32, 99, 34, 32] ! a else 0))"
proof -
  let ?m = "\<lambda>a. if a < 9 then [97, 32, 32, 34, 98, 32, 99, 34, 32] ! a else (0 :: u8)"
  let ?ws = "[([], False, c_bytes ''a''), (c_bytes ''  '', True, c_bytes ''b c'')]"
  have t: "line_text ?ws (c_bytes '' '') = [97, 32, 32, 34, 98, 32, 99, 34, 32]" by (simp add: c_bytes_def)
  have "bytes_at ?m 0 (line_text ?ws (c_bytes '' ''))" unfolding t by (simp add: nth_Cons')
  moreover have "line_ok ?ws (c_bytes '' '')" by (simp add: c_bytes_def is_sep_def)
  moreover have l: "length [97, 32, 32, 34, 98, 32, 99, 34, 32 :: u8] = 9" by simp
  ultimately show ?thesis
    using msh_split_roundtrip [of ?m 0 ?ws "c_bytes '' ''"] unfolding t l by (simp add: FINSH_ARG_MAX_def)
qed

section \<open>From the line to the command\<close>

lemma name_equal_bytes: "bytes_at m a xs \<Longrightarrow> length name = length xs \<Longrightarrow> name_equal name m a (length xs) \<longleftrightarrow> name = xs"
proof (induction xs arbitrary: a name)
  case (Cons x xs)
  then show ?case by (cases name) auto
qed simp

text \<open>The first entry for a name.\<close>

lemma msh_get_cmd_eq:
  assumes "bytes_at m cmd name"
  shows "msh_get_cmd table m cmd (length name) = map_of table (CMD_PREFIX @ name)"
proof (induction table)
  case (Cons e table)
  obtain n f where e: "e = (n, f)" by (cases e)
  have "length CMD_PREFIX = 6" by (simp add: CMD_PREFIX_def)
  then have "CMD_PREFIX @ name = n \<longleftrightarrow> take 6 n = CMD_PREFIX \<and> drop 6 n = name"
    using append_eq_conv_conj [of CMD_PREFIX name n] by auto
  moreover have "name_equal (drop 6 n) m cmd (length name) \<and> length (drop 6 n) = length name \<longleftrightarrow> drop 6 n = name"
    using name_equal_bytes [OF assms, of "drop 6 n"] by blast
  ultimately show ?case using Cons.IH by (auto simp: e simp del: length_drop)
qed simp

text \<open>The program does not run past a line whose first argument is a plain word.\<close>

lemma msh_exec_cmd_line:
  assumes "bytes_at m cmd (line_text (([], False, name) # ws) trail)" and "len = length (line_text (([], False, name) # ws) trail)"
    and "m (cmd + len) = 0" and "line_ok (([], False, name) # ws) trail" and "length ws < FINSH_ARG_MAX"
  shows "case map_of table (CMD_PREFIX @ name) of
      None \<Rightarrow> msh_exec_cmd table m cmd len = None
    | Some f \<Rightarrow> \<exists>m' argv. msh_exec_cmd table m cmd len = Some (Msh_call f m' argv) \<and>
        list_all2 (cstr m') argv (name # map (\<lambda>(_, _, s). s) ws)"
proof -
  let ?rest = "line_text ws trail"
  have r: "?rest = [] \<or> is_sep (hd ?rest)"
    using assms(4) hd_line_text [of ws trail] by (cases ws; cases trail) (auto simp: neq_Nil_conv)
  have "msh_word cmd len m 0 = length name"
    using msh_word_eq [of m cmd 0 name ?rest len] assms(1,2,4) r by simp
  moreover have "name \<noteq> []" "bytes_at m cmd name" using assms(1,4) by auto
  moreover obtain m' argv where s: "msh_split m cmd len = (m', argv)" "list_all2 (cstr m') argv (name # map (\<lambda>(_, _, s). s) ws)"
    using splits_line [of m cmd 0 "([], False, name) # ws" trail len "[]"] assms
    unfolding splits_def msh_split_def by auto
  moreover have "argv \<noteq> []" using s(2) by auto
  ultimately show ?thesis by (simp add: msh_exec_cmd_def msh_get_cmd_eq split: option.splits)
qed

lemma msh_skip_blanks:
  assumes "bytes_at m cmd (lead @ [c])" and "\<forall>x \<in> set lead. is_sep x" and "\<not> is_sep c"
  shows "msh_skip m cmd = Some (cmd + length lead)"
  using assms
proof (induction lead arbitrary: cmd)
  case Nil
  then show ?case by (subst msh_skip.simps) simp
next
  case (Cons x lead)
  then show ?case by (subst msh_skip.simps) simp
qed

lemma msh_exec_line:
  assumes "bytes_at m cmd line" and "line = lead @ line_text (([], False, name) # ws) trail" and "m (cmd + length line) = 0"
    and "\<forall>c \<in> set lead. is_sep c" and "line_ok (([], False, name) # ws) trail" and "length ws < FINSH_ARG_MAX"
    and "length line < 2 ^ 32"
  shows "case map_of table (CMD_PREFIX @ name) of
      None \<Rightarrow> msh_exec table script m cmd (of_nat (length line)) =
        Some (if script (drop (length lead) line) then Msh_script else Msh_not_found)
    | Some f \<Rightarrow> \<exists>m' argv. msh_exec table script m cmd (of_nat (length line)) = Some (Msh_call f m' argv) \<and>
        list_all2 (cstr m') argv (name # map (\<lambda>(_, _, s). s) ws)"
proof -
  let ?text = "line_text (([], False, name) # ws) trail"
  define cmd1 where "cmd1 = cmd + length lead"
  define len1 where "len1 = length ?text"
  obtain c cs where name: "name = c # cs" "\<not> is_sep c" using assms(5) by (cases name) auto
  have skip: "msh_skip m cmd = Some cmd1"
    using msh_skip_blanks [of m cmd lead c] assms(1,2,4) name by (simp add: cmd1_def)
  have b: "bytes_at m cmd1 ?text" using assms(1) unfolding assms(2) cmd1_def by simp
  have n: "m (cmd1 + len1) = 0" using assms(3) unfolding assms(2) cmd1_def len1_def by (simp add: add.assoc)
  have "(of_nat (length line) - of_nat (cmd1 - cmd) :: u32) = of_nat len1"
    unfolding assms(2) cmd1_def len1_def by simp
  moreover have "len1 < 2 ^ 32" "len1 \<noteq> 0" using assms(7) name unfolding assms(2) len1_def by simp_all
  ultimately have len: "unat (of_nat (length line) - of_nat (cmd1 - cmd) :: u32) = len1" "len1 \<noteq> 0"
    by (simp_all add: unsigned_of_nat take_bit_nat_eq_self)
  have "mem_bytes m cmd1 len1 = drop (length lead) line"
    using bytes_at_mem [OF b] unfolding assms(2) len1_def by simp
  then show ?thesis
    using msh_exec_cmd_line [OF b len1_def n assms(5,6), of table] len
    by (auto simp: msh_exec_def skip Let_def split: option.splits)
qed


text \<open>
  \<open>msh_exec\<close> on a typed line, with blanks before, between and behind its words, calls the
  command with the name of the first word, with all words as its arguments; when the table
  has no such command it says so, unless the line names a script.
\<close>

theorem msh_exec_calls:
  assumes "bytes_at m cmd line" and "line = lead @ line_text (([], False, name) # ws) trail" and "m (cmd + length line) = 0"
    and "\<forall>c \<in> set lead. is_sep c" and "line_ok (([], False, name) # ws) trail" and "length ws < FINSH_ARG_MAX"
    and "length line < 2 ^ 32"
  shows "case map_of table (CMD_PREFIX @ name) of
      None \<Rightarrow> msh_exec table script m cmd (of_nat (length line)) =
        Some (if script (drop (length lead) line) then Msh_script else Msh_not_found)
    | Some f \<Rightarrow> \<exists>m' argv. msh_exec table script m cmd (of_nat (length line)) = Some (Msh_call f m' argv) \<and>
        list_all2 (cstr m') argv (name # map (\<lambda>(_, _, s). s) ws)"
  by (rule msh_exec_line [OF assms])

theorem msh_exec_calls_witness:
  "\<exists>m' argv. msh_exec [(CMD_PREFIX @ c_bytes ''ps'', 3 :: nat)] (\<lambda>_. False)
      (\<lambda>a. if a < 6 then c_bytes '' ps -m'' ! a else 0) 0 6 = Some (Msh_call 3 m' argv) \<and>
    list_all2 (cstr m') argv [c_bytes ''ps'', c_bytes ''-m'']"
proof -
  let ?m = "\<lambda>a. if a < 6 then c_bytes '' ps -m'' ! a else (0 :: u8)"
  have l: "c_bytes '' ps -m'' = [32, 112, 115, 32, 45, 109]" "c_bytes ''ps'' = [112, 115]" "c_bytes ''-m'' = [45, 109]"
    by (simp_all add: c_bytes_def)
  have "bytes_at ?m 0 (c_bytes '' ps -m'')" unfolding l by (simp add: nth_Cons')
  moreover have "c_bytes '' ps -m'' = [32] @ line_text (([], False, c_bytes ''ps'') # [([32], False, c_bytes ''-m'')]) []"
    unfolding l by simp
  moreover have "line_ok (([], False, c_bytes ''ps'') # [([32], False, c_bytes ''-m'')]) []"
    unfolding l by (simp add: is_sep_def)
  ultimately show ?thesis
    using msh_exec_calls [of ?m 0 "c_bytes '' ps -m''" "[32]" "c_bytes ''ps''" "[([32], False, c_bytes ''-m'')]" "[]"
        "[(CMD_PREFIX @ c_bytes ''ps'', 3 :: nat)]" "\<lambda>_. False"]
    by (simp add: is_sep_def FINSH_ARG_MAX_def)
qed

section \<open>The commands of the configuration\<close>

text \<open>What \<open>MSH_CMD_EXPORT\<close> exports from \<open>config.c\<close>. \<open>None\<close>: the command writes behind the
  configuration.\<close>

datatype shell_cmd = Change config_cmd | Set_update_uri | Mqtt_list

fun run_shell_cmd :: "shell_cmd \<Rightarrow> u8 list list \<Rightarrow> config_t \<Rightarrow> config_t option" where
  "run_shell_cmd (Change k) argv c = Some (run_cmd k argv c)"
| "run_shell_cmd Set_update_uri argv c = config_set_update_uri argv c"
| "run_shell_cmd Mqtt_list argv c = Some c"

definition config_table :: "(u8 list \<times> shell_cmd) list" where
  "config_table = map (\<lambda>(name, k). (CMD_PREFIX @ c_bytes name, k))
    [(''config_set_host'', Change Set_host), (''config_set_user'', Change Set_user), (''config_set_passwd'', Change Set_passwd),
     (''config_set_id'', Change Set_id), (''config_set_publish_topic'', Change Set_publish_topic),
     (''config_set_subscribe_topic'', Change Set_subscribe_topic), (''config_set_buildingid'', Change Set_buildingid),
     (''config_mqtt_list'', Mqtt_list), (''config_set_connect'', Change Set_connect), (''config_set_smoke'', Change Set_smoke),
     (''config_set_lora_freq'', Change Set_lora_freq), (''config_set_lora_updatetime'', Change Set_lora_updatetime),
     (''config_set_update_uri'', Set_update_uri)]"

text \<open>The command reads its arguments as strings.\<close>

definition arg_string :: "mem \<Rightarrow> nat \<Rightarrow> u8 list option" where
  "arg_string m a = map_option (mem_bytes m a) (rt_strlen m a)"

definition config_shell :: "(u8 list \<Rightarrow> bool) \<Rightarrow> mem \<Rightarrow> nat \<Rightarrow> u32 \<Rightarrow> config_t \<Rightarrow> config_t option" where
  "config_shell script m cmd len c =
     (case msh_exec config_table script m cmd len of
        Some (Msh_call k m' argv) \<Rightarrow> Option.bind (those (map (arg_string m') argv)) (\<lambda>args. run_shell_cmd k args c)
      | Some _ \<Rightarrow> Some c
      | None \<Rightarrow> None)"

lemma arg_strings: "list_all2 (cstr m) argv ss \<Longrightarrow> those (map (arg_string m) argv) = Some ss"
  by (induction argv ss rule: list_all2_induct) (simp_all add: arg_string_def rt_strlen_cstr cstr_bytes)

lemma config_shell_line:
  assumes "bytes_at m cmd line" and "line = lead @ line_text (([], False, name) # ws) trail" and "m (cmd + length line) = 0"
    and "\<forall>c \<in> set lead. is_sep c" and "line_ok (([], False, name) # ws) trail" and "length ws < FINSH_ARG_MAX"
    and "length line < 2 ^ 32"
  shows "config_shell script m cmd (of_nat (length line)) c =
    (case map_of config_table (CMD_PREFIX @ name) of None \<Rightarrow> Some c | Some k \<Rightarrow> run_shell_cmd k (name # map (\<lambda>(_, _, s). s) ws) c)"
  using msh_exec_line [OF assms, of config_table script]
  by (auto simp: config_shell_def split: option.splits dest!: arg_strings)

section \<open>Completing a name\<close>

text \<open>What the file system answers to \<open>msh_auto_complete_path\<close>: whether there is memory for its
  buffer of 256 bytes, the working directory, and the names in a directory, \<open>None\<close> if it cannot be
  opened. Paths and names are given without their NUL.\<close>

record dfs =
  fs_memory :: bool
  fs_cwd :: "u8 list"
  fs_dir :: "u8 list \<Rightarrow> u8 list list option"

fun str_common :: "u8 list \<Rightarrow> u8 list \<Rightarrow> nat" where
  "str_common (x # xs) (y # ys) = (if x = y then Suc (str_common xs ys) else 0)"
| "str_common _ _ = 0"

text \<open>The loop over the names that begin with the prefix: the first of them, and \<open>min_length\<close>.\<close>

fun complete_names :: "u8 list \<Rightarrow> u8 list list \<Rightarrow> u8 list option \<times> nat \<Rightarrow> u8 list option \<times> nat" where
  "complete_names prefix [] st = st"
| "complete_names prefix (c # cs) (name, n) =
     (if take (length prefix) c = prefix
      then let (name1, n1) = (if n = 0 then (Some c, length c) else (name, n));
               len = (case name1 of None \<Rightarrow> 0 | Some s \<Rightarrow> str_common s c)
           in complete_names prefix cs (name1, if len < n1 then len else n1)
      else complete_names prefix cs (name, n))"

text \<open>The place behind the last \<open>/\<close> of a path, and the directory that is opened.\<close>

definition path_index :: "u8 list \<Rightarrow> nat" where
  "path_index path = length path - length (takeWhile (\<lambda>c. c \<noteq> 47) (rev path))"

definition complete_dir :: "dfs \<Rightarrow> u8 list \<Rightarrow> u8 list option" where
  "complete_dir fs path =
     (if path \<noteq> [] \<and> hd path = 47 then Some (take (path_index path) path)
      else if fs_cwd fs = [] then None
      else Some (fs_cwd fs @ (if List.last (fs_cwd fs) \<noteq> 47 then [47] else []) @ take (path_index path) path))"

text \<open>The path begins \<open>k\<close> bytes behind the start of the line. \<open>None\<close>: an access outside the line or
  the buffer.\<close>

definition msh_auto_complete_path :: "dfs \<Rightarrow> u8 list \<Rightarrow> nat \<Rightarrow> u8 list option" where
  "msh_auto_complete_path fs line k =
     (let path = buf_string (drop k line); place = k + path_index path; word = drop (path_index path) path in
      if \<not> fs_memory fs then Some line
      else case complete_dir fs path of
          None \<Rightarrow> None
        | Some dir \<Rightarrow>
          if length dir \<ge> 256 then None
          else case fs_dir fs dir of
              None \<Rightarrow> Some line
            | Some names \<Rightarrow>
              if word = [] then Some line
              else case complete_names word names (None, 0) of
                  (None, _) \<Rightarrow> Some line
                | (Some name, n) \<Rightarrow>
                  if n = 0 then Some line
                  else if length name < 256 \<and> place + n < length line
                  then Some ((take place line @ take n name @ drop (place + n) line)[place + n := 0])
                  else None)"

text \<open>Backwards from the NUL to the last blank, but not to the first character.\<close>

fun last_blank :: "u8 list \<Rightarrow> nat \<Rightarrow> nat option" where
  "last_blank line 0 = None"
| "last_blank line (Suc n) = (if line ! Suc n = 32 then Some (Suc n) else last_blank line n)"

definition complete_command :: "(u8 list \<times> 'a) list \<Rightarrow> u8 list \<Rightarrow> u8 list option" where
  "complete_command table line =
     (if \<not> terminated line then None
      else case complete_names (buf_string line)
          (map (\<lambda>(name, _). drop 6 name) (filter (\<lambda>(name, _). take 6 name = CMD_PREFIX) table)) (None, 0) of
          (None, _) \<Rightarrow> Some line
        | (Some name, n) \<Rightarrow> if n \<le> length line then Some (strncpy_into line name n) else None)"

definition msh_auto_complete :: "dfs \<Rightarrow> (u8 list \<times> 'a) list \<Rightarrow> u8 list \<Rightarrow> u8 list option" where
  "msh_auto_complete fs table line =
     (if line = [] then None
      else if hd line = 0 then Some line
      else if \<not> terminated line then None
      else Option.bind
        (case last_blank line (length (buf_string line)) of
           None \<Rightarrow> Some line
         | Some n \<Rightarrow> msh_auto_complete_path fs line (n + 1))
        (complete_command table))"

text \<open>A line that holds a text, with zeros behind it.\<close>

definition clean_line :: "u8 list \<Rightarrow> bool" where
  "clean_line l \<longleftrightarrow> terminated l \<and> (\<forall>c \<in> set (drop (length (buf_string l)) l). c = 0)"

lemma buf_string_less: "terminated l \<Longrightarrow> length (buf_string l) < length l"
  unfolding terminated_def buf_string_def by (induction l) auto

lemma buf_string_text: "c_string t \<Longrightarrow> buf_string (t @ replicate n 0) = t"
  by (cases n) (simp_all add: buf_string_append, simp add: buf_string_def takeWhile_no_zero)

lemma clean_lineI: "c_string t \<Longrightarrow> 0 < n \<Longrightarrow> clean_line (t @ replicate n 0)"
  by (simp add: clean_line_def buf_string_text terminated_def)

lemma clean_lineE:
  assumes "clean_line l"
  obtains t n where "l = t @ replicate n 0" and "c_string t" and "0 < n" and "buf_string l = t" and "length l = length t + n"
proof -
  let ?t = "buf_string l" and ?n = "length l - length (buf_string l)"
  have lt: "length ?t < length l" using assms by (simp add: clean_line_def buf_string_less)
  have "take (length ?t) l = ?t" by (simp add: buf_string_def takeWhile_eq_take [symmetric])
  moreover have "drop (length ?t) l = replicate ?n 0"
    using assms by (intro replicate_eqI) (simp_all add: clean_line_def)
  ultimately have "l = ?t @ replicate ?n 0" by (metis append_take_drop_id)
  moreover have "c_string ?t" by (auto simp: c_string_def buf_string_def dest: set_takeWhileD)
  ultimately show ?thesis using that [of ?t ?n] lt by simp
qed

lemma str_common_prefix: "take (length p) a = p \<Longrightarrow> take (length p) b = p \<Longrightarrow> length p \<le> str_common a b"
proof (induction p arbitrary: a b)
  case (Cons x p)
  then show ?case by (cases a; cases b) auto
qed simp

lemma str_common_le: "str_common a b \<le> length a"
  by (induction a b rule: str_common.induct) auto

lemma complete_names_result:
  assumes "p \<noteq> []" and "complete_names p names st = (name, n)" and "set names \<subseteq> N"
    and "st = (None, 0) \<or> (\<exists>s k. st = (Some s, k) \<and> s \<in> N \<and> take (length p) s = p \<and> length p \<le> k \<and> k \<le> length s)"
  shows "name = None \<or> (\<exists>s. name = Some s \<and> s \<in> N \<and> take (length p) s = p \<and> length p \<le> n \<and> n \<le> length s)"
  using assms(2-4)
proof (induction names arbitrary: st)
  case (Cons c cs)
  obtain o' k where st: "st = (o', k)" by (cases st)
  show ?case
  proof (cases "take (length p) c = p")
    case False
    then show ?thesis using Cons.IH [of st] Cons.prems st by simp
  next
    case True
    have pos: "0 < length p" using assms(1) by simp
    define st1 where "st1 = (if k = 0 then (Some c, length c) else (o', k))"
    have 1: "\<exists>s j. st1 = (Some s, j) \<and> s \<in> N \<and> take (length p) s = p \<and> length p \<le> j \<and> j \<le> length s"
    proof (cases "k = 0")
      case t: True
      then have "st1 = (Some c, length c)" by (simp add: st1_def)
      moreover have "length p \<le> length c" using str_common_prefix [OF True True] str_common_le [of c c] by linarith
      ultimately show ?thesis using Cons.prems(2) True by auto
    next
      case False
      then show ?thesis using Cons.prems(3) st by (simp add: st1_def)
    qed
    then obtain s j where s: "st1 = (Some s, j)" "s \<in> N" "take (length p) s = p" "length p \<le> j" "j \<le> length s" by blast
    have c: "length p \<le> str_common s c" by (rule str_common_prefix [OF s(3) True])
    have "complete_names p (c # cs) st = complete_names p cs (Some s, if str_common s c < j then str_common s c else j)"
      using True s(1) unfolding st by (simp add: st1_def Let_def split: if_splits)
    then show ?thesis using Cons.IH [of "(Some s, if str_common s c < j then str_common s c else j)"] Cons.prems(1,2) s c str_common_le [of s c]
      by auto
  qed
qed auto

text \<open>The names of the commands fit into the line, and so does every file name that can complete
  the path behind the last blank.\<close>

definition names_fit :: "(u8 list \<times> 'a) list \<Rightarrow> bool" where
  "names_fit table \<longleftrightarrow> (\<forall>(name, _) \<in> set table. c_string name \<and> length name < 206)"

definition path_fits :: "dfs \<Rightarrow> u8 list \<Rightarrow> bool" where
  "path_fits fs line =
     (case last_blank line (length (buf_string line)) of
        None \<Rightarrow> True
      | Some j \<Rightarrow>
        (let path = buf_string (drop (j + 1) line); word = drop (path_index path) path in
         case complete_dir fs path of
           None \<Rightarrow> False
         | Some dir \<Rightarrow> length dir < 256 \<and>
             (case fs_dir fs dir of
                None \<Rightarrow> True
              | Some names \<Rightarrow> \<forall>name \<in> set names. take (length word) name = word \<longrightarrow>
                  c_string name \<and> length name < 256 \<and> j + 1 + path_index path + length name < length line)))"

lemma last_blank_less: "last_blank line n = Some j \<Longrightarrow> j \<le> n \<and> line ! j = 32"
  by (induction n) (auto split: if_splits)

lemma path_index_le: "path_index path \<le> length path"
  by (simp add: path_index_def)

text \<open>The end of the text is replaced by the beginning of a name.\<close>

lemma overwrite_clean:
  assumes "line = t @ replicate n 0" and "c_string t" and "c_string name" and "place \<le> length t" and "length t \<le> place + k"
    and "place + k < length line" and "k \<le> length name"
  shows "(take place line @ take k name @ drop (place + k) line)[place + k := 0] =
      (take place t @ take k name) @ replicate (length line - (place + k)) 0"
    and "clean_line ((take place t @ take k name) @ replicate (length line - (place + k)) 0)"
proof -
  have "take place line = take place t" "drop (place + k) line = replicate (length line - (place + k)) 0"
    "length (take place t @ take k name) = place + k" using assms by simp_all
  moreover have "(replicate m (0 :: u8))[0 := 0] = replicate m 0" for m by (cases m) simp_all
  ultimately show "(take place line @ take k name @ drop (place + k) line)[place + k := 0] =
      (take place t @ take k name) @ replicate (length line - (place + k)) 0"
    using assms(6) by (simp add: list_update_append)
  have "c_string (take place t @ take k name)" using assms(2,3) by (auto simp: c_string_def dest: in_set_takeD)
  then show "clean_line ((take place t @ take k name) @ replicate (length line - (place + k)) 0)"
    using assms(6) by (intro clean_lineI) simp_all
qed

lemma complete_path_clean:
  assumes "clean_line line" and "path_fits fs line" and "last_blank line (length (buf_string line)) = Some j"
  shows "\<exists>l. msh_auto_complete_path fs line (j + 1) = Some l \<and> clean_line l \<and> length l = length line \<and> hd l = hd line"
proof -
  obtain t n where t: "line = t @ replicate n 0" "c_string t" "0 < n" "buf_string line = t" "length line = length t + n"
    using clean_lineE [OF assms(1)] by blast
  have j: "j < length t"
  proof -
    have "j \<le> length t" "line ! j = 32" using last_blank_less [OF assms(3)] t(4) by simp_all
    moreover have "line ! length t = 0" using t(1,3) by (simp add: nth_append)
    ultimately show ?thesis by (cases "j = length t") auto
  qed
  define path where "path = drop (j + 1) t"
  define place where "place = j + 1 + path_index path"
  define word where "word = drop (path_index path) path"
  have "c_string path" using t(2) by (auto simp: path_def c_string_def dest: in_set_dropD)
  then have p: "buf_string (drop (j + 1) line) = path" using j t(1) by (simp add: path_def buf_string_text)
  have len: "place + length word = length t" using path_index_le [of path] j by (simp add: place_def word_def path_def)
  note F = assms(2) [unfolded path_fits_def assms(3) option.case p Let_def, folded word_def place_def]
  obtain dir where dir: "complete_dir fs path = Some dir" "length dir < 256" using F by (auto split: option.splits)
  have m: "msh_auto_complete_path fs line (j + 1) = (if \<not> fs_memory fs then Some line
      else case fs_dir fs dir of None \<Rightarrow> Some line | Some names \<Rightarrow> if word = [] then Some line
        else case complete_names word names (None, 0) of (None, _) \<Rightarrow> Some line
          | (Some name, n) \<Rightarrow> if n = 0 then Some line else if length name < 256 \<and> place + n < length line
            then Some ((take place line @ take n name @ drop (place + n) line)[place + n := 0]) else None)"
    using dir unfolding msh_auto_complete_path_def p Let_def word_def place_def by (simp cong: option.case_cong)
  show ?thesis
  proof (cases "fs_memory fs \<and> word \<noteq> [] \<and> fs_dir fs dir \<noteq> None")
    case False
    then show ?thesis using assms(1) unfolding m by (auto split: option.split)
  next
    case True
    then obtain names where names: "fs_dir fs dir = Some names" "word \<noteq> []" "fs_memory fs" by blast
    obtain r k where r: "complete_names word names (None, 0) = (r, k)" by fastforce
    consider "r = None" | name where "r = Some name" "name \<in> set names" "take (length word) name = word" "length word \<le> k" "k \<le> length name"
      using complete_names_result [OF names(2) r subset_refl] by auto
    then show ?thesis
    proof cases
      case 1
      then show ?thesis using assms(1) names r unfolding m by simp
    next
      case (2 name)
      have f: "c_string name" "length name < 256" "place + length name < length line" using F dir names(1) 2(2,3) by simp_all
      have k: "k \<noteq> 0" "place + k < length line" "length t \<le> place + k" using names(2) 2(4,5) f(3) len length_greater_0_conv [of word] by linarith+
      have "(take place line @ take k name @ drop (place + k) line)[place + k := 0] =
          (take place t @ take k name) @ replicate (length line - (place + k)) 0"
        and "clean_line ((take place t @ take k name) @ replicate (length line - (place + k)) 0)"
        using overwrite_clean [OF t(1,2) f(1) _ k(3,2) 2(5)] len by simp_all
      moreover have "hd (take place t @ take k name) = hd line" using len j t(1) by (cases t) (simp_all add: place_def)
      moreover have "take place t \<noteq> []" using j by (auto simp: place_def)
      ultimately show ?thesis using names r 2 f k len unfolding m by simp
    qed
  qed
qed

lemma complete_command_clean:
  assumes "clean_line line" and "names_fit table" and "length line = 200" and "buf_string line \<noteq> []"
  shows "\<exists>l. complete_command table line = Some l \<and> clean_line l \<and> length l = 200"
proof -
  obtain t n where t: "line = t @ replicate n 0" "c_string t" "0 < n" "buf_string line = t" "length line = length t + n"
    using clean_lineE [OF assms(1)] by blast
  define names where "names = map (\<lambda>(name, _). drop 6 name) (filter (\<lambda>(name, _). take 6 name = CMD_PREFIX) table)"
  obtain r k where r: "complete_names t names (None, 0) = (r, k)" by fastforce
  have e: "complete_command table line = (case (r, k) of (None, _) \<Rightarrow> Some line
      | (Some name, n) \<Rightarrow> if n \<le> length line then Some (strncpy_into line name n) else None)"
    using assms(1) by (simp add: complete_command_def clean_line_def t(4) r flip: names_def)
  consider "r = None" | name where "r = Some name" "name \<in> set names" "take (length t) name = t" "length t \<le> k" "k \<le> length name"
    using complete_names_result [OF _ r subset_refl] assms(4) t(4) by auto
  then show ?thesis
  proof cases
    case 1
    then show ?thesis using e assms(1,3) by simp
  next
    case (2 name)
    have "c_string name" "length name < 200"
      using assms(2) 2(2) by (auto simp: names_def names_fit_def c_string_def dest: in_set_dropD)
    moreover have "drop k line = replicate (200 - k) 0" using 2(4) t(1,5) assms(3) by simp
    moreover have "c_string (take k name)" using c_string_take [OF \<open>c_string name\<close>] .
    ultimately have "strncpy_into line name k = take k name @ replicate (200 - k) 0" "clean_line (take k name @ replicate (200 - k) 0)"
      using 2(5) by (simp_all add: strncpy_into_def clean_lineI)
    then show ?thesis using e 2 assms(3) \<open>length name < 200\<close> by simp
  qed
qed

text \<open>Completing a clean line keeps it clean.\<close>

lemma auto_complete_clean:
  assumes "clean_line line" and "names_fit table" and "path_fits fs line" and "length line = 200"
  shows "\<exists>l. msh_auto_complete fs table line = Some l \<and> clean_line l \<and> length l = 200"
proof (cases "hd line = 0")
  case True
  then show ?thesis using assms(1,4) by (auto simp: msh_auto_complete_def)
next
  case False
  have ne: "line \<noteq> []" using assms(4) by auto
  have "\<exists>l1. (case last_blank line (length (buf_string line)) of None \<Rightarrow> Some line
      | Some n \<Rightarrow> msh_auto_complete_path fs line (n + 1)) = Some l1 \<and> clean_line l1 \<and> length l1 = 200 \<and> hd l1 = hd line"
    using complete_path_clean [OF assms(1,3)] assms(1,4) by (auto split: option.split)
  then obtain l1 where l1: "(case last_blank line (length (buf_string line)) of None \<Rightarrow> Some line
      | Some n \<Rightarrow> msh_auto_complete_path fs line (n + 1)) = Some l1" "clean_line l1" "length l1 = 200" "hd l1 = hd line" by blast
  have "buf_string l1 \<noteq> []" using l1(3,4) False by (cases l1) (auto simp: buf_string_def)
  then obtain l where "complete_command table l1 = Some l" "clean_line l" "length l = 200"
    using complete_command_clean [OF l1(2) assms(2) l1(3)] by blast
  then show ?thesis using False ne assms(1) l1(1) by (simp add: msh_auto_complete_def clean_line_def)
qed

text \<open>On a full line without a NUL the completion runs past it. A file name that does not fit behind
  what is typed is copied all the same.\<close>

lemma complete_full_line: "0 \<notin> set line \<Longrightarrow> msh_auto_complete fs table line = None"
  by (cases line) (auto simp: msh_auto_complete_def terminated_def)

lemma long_name_overruns:
  "msh_auto_complete \<lparr>fs_memory = True, fs_cwd = [47], fs_dir = (\<lambda>_. Some [replicate 250 97])\<rparr> ([] :: (u8 list \<times> nat) list)
    (c_bytes ''ls a'' @ replicate 196 0) = None"
  by code_simp

end
