(* ===== verification/Finsh.thy ===== *)
theory Finsh
  imports Msh
begin

text \<open>
  The shell thread (\<open>rt-thread/components/finsh/shell.c\<close>, \<open>shell.h\<close>): the line editor with its
  cursor keys and history, and the password. A state is the structure \<open>finsh_shell\<close> without the
  device and the prompt; \<open>line\<close> has 200 bytes, \<open>line_position\<close> and
  \<open>line_curpos\<close> are 16-bit numbers. One step is one character read; its result is the state and
  the line handed to \<open>msh_exec\<close>, if any. What is printed is left out, but printing the line
  from a place on reads it up to a NUL. Completing a name with the tabulator is an argument,
  \<open>msh_auto_complete\<close> in the firmware. \<open>None\<close> is an access outside the arrays. The theory shows
  that the keys edit a text with a cursor, that no access is outside the arrays as long as
  line and names are not too long, that typed commands reach the configuration, and that the
  log-in opens on the password only.
\<close>

section \<open>State\<close>

definition FINSH_CMD_SIZE :: nat where "FINSH_CMD_SIZE = 200"
definition FINSH_HISTORY_LINES :: nat where "FINSH_HISTORY_LINES = 5"
definition FINSH_PASSWORD_MIN :: nat where "FINSH_PASSWORD_MIN = 4"
definition FINSH_PASSWORD_MAX :: nat where "FINSH_PASSWORD_MAX = 8"

definition FINSH_DEFAULT_PASSWORD :: "u8 list" where "FINSH_DEFAULT_PASSWORD = c_bytes ''9527''"

lemmas finsh_sizes [simp] = FINSH_CMD_SIZE_def FINSH_HISTORY_LINES_def FINSH_PASSWORD_MIN_def FINSH_PASSWORD_MAX_def

datatype input_stat = WAIT_NORMAL | WAIT_SPEC_KEY | WAIT_FUNC_KEY

record finsh_shell =
  sh_stat :: input_stat
  echo_mode :: bool
  current_history :: nat
  history_count :: nat
  cmd_history :: "u8 list list"
  sh_line :: "u8 list"
  line_position :: nat
  line_curpos :: nat
  sh_password :: "u8 list"

text \<open>Sixteen-bit counters.\<close>

definition inc16 :: "nat \<Rightarrow> nat" where "inc16 n = (n + 1) mod 65536"
definition dec16 :: "nat \<Rightarrow> nat" where "dec16 n = (n + 65535) mod 65536"

definition move_bytes :: "nat \<Rightarrow> nat \<Rightarrow> nat \<Rightarrow> u8 list \<Rightarrow> u8 list option" where
  "move_bytes dst src n line =
     (if dst + n \<le> length line \<and> src + n \<le> length line
      then Some (take dst line @ take n (drop src line) @ drop (dst + n) line) else None)"

definition put_byte :: "nat \<Rightarrow> u8 \<Rightarrow> u8 list \<Rightarrow> u8 list option" where
  "put_byte i c line = (if i < length line then Some (line[i := c]) else None)"

text \<open>\<open>strlen\<close> of the line, and whether \<open>rt_kprintf ("%s", &line[i])\<close> finds a NUL.\<close>

definition line_length :: "u8 list \<Rightarrow> nat option" where
  "line_length line = (if terminated line then Some (length (buf_string line)) else None)"

definition prints_from :: "nat \<Rightarrow> u8 list \<Rightarrow> bool" where
  "prints_from i line \<longleftrightarrow> terminated (drop i line)"

section \<open>History\<close>

definition line_copy :: "finsh_shell \<Rightarrow> u8 list" where
  "line_copy s = take (line_position s) (sh_line s) @ replicate (FINSH_CMD_SIZE - line_position s) 0"

definition shell_push_history :: "finsh_shell \<Rightarrow> finsh_shell" where
  "shell_push_history s =
     (let s1 =
        (if line_position s = 0 then s
         else if history_count s \<ge> FINSH_HISTORY_LINES
         then if cmd_history s ! (FINSH_HISTORY_LINES - 1) \<noteq> sh_line s
           then s\<lparr>cmd_history := drop 1 (cmd_history s) @ [line_copy s], history_count := FINSH_HISTORY_LINES\<rparr>
           else s
         else if history_count s = 0 \<or> cmd_history s ! (history_count s - 1) \<noteq> sh_line s
         then s\<lparr>cmd_history := (cmd_history s)[history_count s := line_copy s], history_count := history_count s + 1\<rparr>
         else s)
      in s1\<lparr>current_history := history_count s1\<rparr>)"

definition show_history :: "finsh_shell \<Rightarrow> finsh_shell option" where
  "show_history s =
     (if current_history s < length (cmd_history s)
      then let l = cmd_history s ! current_history s in
        map_option (\<lambda>n. s\<lparr>sh_line := l, line_position := n, line_curpos := n\<rparr>) (line_length l)
      else None)"

definition up_key :: "finsh_shell \<Rightarrow> finsh_shell option" where
  "up_key s = (if current_history s > 0 then show_history (s\<lparr>current_history := current_history s - 1\<rparr>) else Some s)"

definition down_key :: "finsh_shell \<Rightarrow> finsh_shell option" where
  "down_key s =
     (if int (current_history s) < int (history_count s) - 1
      then show_history (s\<lparr>current_history := current_history s + 1\<rparr>)
      else if history_count s \<noteq> 0 then show_history (s\<lparr>current_history := history_count s - 1\<rparr>)
      else Some s)"

section \<open>One character\<close>

definition left_key :: "finsh_shell \<Rightarrow> finsh_shell" where
  "left_key s = (if line_curpos s \<noteq> 0 then s\<lparr>line_curpos := dec16 (line_curpos s)\<rparr> else s)"

definition right_key :: "finsh_shell \<Rightarrow> finsh_shell" where
  "right_key s = (if line_curpos s < line_position s then s\<lparr>line_curpos := inc16 (line_curpos s)\<rparr> else s)"

definition backspace_key :: "finsh_shell \<Rightarrow> finsh_shell option" where
  "backspace_key s =
     (if line_curpos s = 0 then Some s
      else
        let pos = dec16 (line_position s); cur = dec16 (line_curpos s) in
        case (if pos > cur then move_bytes cur (cur + 1) (pos - cur) (sh_line s) else Some (sh_line s)) of
          None \<Rightarrow> None
        | Some l \<Rightarrow>
          (case put_byte pos 0 l of
             None \<Rightarrow> None
           | Some l' \<Rightarrow>
             if pos > cur \<and> \<not> prints_from cur l' then None
             else Some (s\<lparr>sh_line := l', line_position := pos, line_curpos := cur\<rparr>)))"

definition tab_key :: "(u8 list \<Rightarrow> u8 list option) \<Rightarrow> finsh_shell \<Rightarrow> finsh_shell option" where
  "tab_key complete s =
     (case complete (sh_line s) of
        None \<Rightarrow> None
      | Some l \<Rightarrow> map_option (\<lambda>n. s\<lparr>sh_line := l, line_position := n, line_curpos := n\<rparr>) (line_length l))"

definition clear_line :: "finsh_shell \<Rightarrow> finsh_shell" where
  "clear_line s = s\<lparr>sh_line := replicate FINSH_CMD_SIZE 0, line_position := 0, line_curpos := 0\<rparr>"

definition char_key :: "u8 \<Rightarrow> finsh_shell \<Rightarrow> finsh_shell option" where
  "char_key c s0 =
     (let s = (if line_position s0 \<ge> FINSH_CMD_SIZE then s0\<lparr>line_position := 0\<rparr> else s0);
          pos = line_position s; cur = line_curpos s
      in case (if cur < pos
               then Option.bind (move_bytes (cur + 1) cur (pos - cur) (sh_line s)) (put_byte cur c)
               else put_byte pos c (sh_line s)) of
          None \<Rightarrow> None
        | Some l \<Rightarrow>
            let pos1 = inc16 pos; cur1 = inc16 cur in
            if cur < pos \<and> echo_mode s \<and> \<not> prints_from cur l then None
            else Some (if pos1 \<ge> FINSH_CMD_SIZE
              then s\<lparr>sh_line := l, line_position := 0, line_curpos := 0\<rparr>
              else s\<lparr>sh_line := l, line_position := pos1, line_curpos := cur1\<rparr>))"

text \<open>The line given to \<open>msh_exec\<close> is the array and the number of its bytes in use.\<close>

type_synonym finsh_out = "(u8 list \<times> nat) option"

definition quiet :: "finsh_shell option \<Rightarrow> (finsh_shell \<times> finsh_out) option" where
  "quiet = map_option (\<lambda>s. (s, None))"

definition finsh_plain :: "(u8 list \<Rightarrow> u8 list option) \<Rightarrow> int \<Rightarrow> finsh_shell \<Rightarrow> (finsh_shell \<times> finsh_out) option" where
  "finsh_plain complete ch s =
     (if ch = 0 \<or> ch = 255 then quiet (Some s)
      else if ch = 9 then quiet (tab_key complete s)
      else if ch = 127 \<or> ch = 8 then quiet (backspace_key s)
      else if ch = 13 \<or> ch = 10
      then let s1 = shell_push_history s in Some (clear_line s1, Some (sh_line s1, line_position s1))
      else quiet (char_key (word_of_int ch) s))"

definition finsh_char :: "(u8 list \<Rightarrow> u8 list option) \<Rightarrow> int \<Rightarrow> finsh_shell \<Rightarrow> (finsh_shell \<times> finsh_out) option" where
  "finsh_char complete ch s =
     (if ch < 0 then quiet (Some s)
      else if ch = 27 then quiet (Some (s\<lparr>sh_stat := WAIT_SPEC_KEY\<rparr>))
      else case sh_stat s of
          WAIT_SPEC_KEY \<Rightarrow>
            if ch = 91 then quiet (Some (s\<lparr>sh_stat := WAIT_FUNC_KEY\<rparr>))
            else finsh_plain complete ch (s\<lparr>sh_stat := WAIT_NORMAL\<rparr>)
        | WAIT_FUNC_KEY \<Rightarrow>
            let s1 = s\<lparr>sh_stat := WAIT_NORMAL\<rparr> in
            if ch = 65 then quiet (up_key s1)
            else if ch = 66 then quiet (down_key s1)
            else if ch = 68 then quiet (Some (left_key s1))
            else if ch = 67 then quiet (Some (right_key s1))
            else finsh_plain complete ch s1
        | WAIT_NORMAL \<Rightarrow> finsh_plain complete ch s)"

fun finsh_run :: "(u8 list \<Rightarrow> u8 list option) \<Rightarrow> int list \<Rightarrow> finsh_shell \<Rightarrow> (finsh_shell \<times> (u8 list \<times> nat) list) option" where
  "finsh_run complete [] s = Some (s, [])"
| "finsh_run complete (ch # chs) s =
     (case finsh_char complete ch s of None \<Rightarrow> None
      | Some (s1, out) \<Rightarrow>
        (case finsh_run complete chs s1 of None \<Rightarrow> None
         | Some (s2, outs) \<Rightarrow> Some (s2, (case out of None \<Rightarrow> outs | Some l \<Rightarrow> l # outs))))"

section \<open>The line as a text with a cursor\<close>

text \<open>\<open>edits s l r\<close>: the text is \<open>l @ r\<close> with the cursor between them, and the array behind it is zero.\<close>

definition edits :: "finsh_shell \<Rightarrow> u8 list \<Rightarrow> u8 list \<Rightarrow> bool" where
  "edits s l r \<longleftrightarrow> sh_stat s = WAIT_NORMAL \<and> line_curpos s = length l \<and> line_position s = length l + length r \<and>
     length l + length r < FINSH_CMD_SIZE \<and> sh_line s = l @ r @ replicate (FINSH_CMD_SIZE - (length l + length r)) 0"

lemma dec16_eq: "0 < n \<Longrightarrow> n < 65536 \<Longrightarrow> dec16 n = n - 1"
  by (simp add: dec16_def mod_if)

lemma inc16_eq: "n < 65535 \<Longrightarrow> inc16 n = n + 1"
  by (simp add: inc16_def)

definition same_history :: "finsh_shell \<Rightarrow> finsh_shell \<Rightarrow> bool" where
  "same_history s s' \<longleftrightarrow> cmd_history s = cmd_history s' \<and> history_count s = history_count s' \<and> current_history s = current_history s'"

lemma prints_text: "i \<le> length xs \<Longrightarrow> 0 < n \<Longrightarrow> prints_from i (xs @ replicate n 0)"
  by (simp add: prints_from_def terminated_def)

datatype key = K_char u8 | K_left | K_right | K_back

definition typable :: "u8 \<Rightarrow> bool" where
  "typable c \<longleftrightarrow> c \<notin> {0, 8, 9, 10, 13, 27, 127, 255}"

fun key_codes :: "key \<Rightarrow> int list" where
  "key_codes (K_char c) = [uint c]"
| "key_codes K_left = [27, 91, 68]"
| "key_codes K_right = [27, 91, 67]"
| "key_codes K_back = [127]"

fun edit_key :: "key \<Rightarrow> u8 list \<times> u8 list \<Rightarrow> u8 list \<times> u8 list" where
  "edit_key (K_char c) (l, r) = (l @ [c], r)"
| "edit_key K_left (l, r) = (if l = [] then (l, r) else (butlast l, List.last l # r))"
| "edit_key K_right (l, r) = (if r = [] then (l, r) else (l @ [hd r], tl r))"
| "edit_key K_back (l, r) = (butlast l, r)"

fun key_typable :: "key \<Rightarrow> bool" where
  "key_typable (K_char c) = typable c"
| "key_typable _ = True"

fun key_size :: "key \<Rightarrow> nat" where
  "key_size (K_char c) = 1"
| "key_size _ = 0"

lemma char_key_eq: "line_position s < 200 \<Longrightarrow> char_key c s =
    (case (if line_curpos s < line_position s
       then Option.bind (move_bytes (line_curpos s + 1) (line_curpos s) (line_position s - line_curpos s) (sh_line s)) (put_byte (line_curpos s) c)
       else put_byte (line_position s) c (sh_line s)) of None \<Rightarrow> None
     | Some l \<Rightarrow> if line_curpos s < line_position s \<and> echo_mode s \<and> \<not> prints_from (line_curpos s) l then None
        else Some (if inc16 (line_position s) \<ge> 200 then s\<lparr>sh_line := l, line_position := 0, line_curpos := 0\<rparr>
          else s\<lparr>sh_line := l, line_position := inc16 (line_position s), line_curpos := inc16 (line_curpos s)\<rparr>))"
  unfolding char_key_def finsh_sizes by (simp add: Let_def cong: option.case_cong)

lemma insert_byte:
  "(if length l < length l + length r
    then Option.bind (move_bytes (length l + 1) (length l) (length l + length r - length l) (l @ r @ 0 # z)) (put_byte (length l) c)
    else put_byte (length l + length r) c (l @ r @ 0 # z)) = Some (l @ c # r @ z)"
  by (cases r) (simp_all add: move_bytes_def put_byte_def list_update_append)

lemma char_key_edits:
  assumes "edits s l r" and "length l + length r + 1 < 200"
  shows "\<exists>s'. char_key c s = Some s' \<and> edits s' (l @ [c]) r \<and> same_history s' s"
proof -
  define n where "n = 199 - (length l + length r)"
  have z: "replicate (200 - (length l + length r)) (0 :: u8) = 0 # replicate n 0"
    using assms(2) by (simp add: n_def Suc_diff_Suc flip: replicate_Suc)
  have e: "sh_stat s = WAIT_NORMAL" "line_curpos s = length l" "line_position s = length l + length r" "sh_line s = l @ r @ 0 # replicate n 0"
    using assms(1) z by (simp_all add: edits_def)
  have i: "inc16 (length l + length r) = length l + length r + 1" "inc16 (length l) = length l + 1"
    using assms(2) by (simp_all add: inc16_eq)
  have p: "line_position s < 200" using e(3) assms(2) by simp
  have "prints_from (length l) ((l @ c # r) @ replicate n 0)" using assms(2) by (intro prints_text) (simp_all add: n_def)
  then have "char_key c s = Some (s\<lparr>sh_line := l @ c # r @ replicate n 0, line_position := length l + length r + 1, line_curpos := length l + 1\<rparr>)"
    unfolding char_key_eq [OF p] e(2-4) insert_byte i using assms(2) by simp
  then show ?thesis using e assms(2) by (simp add: edits_def n_def same_history_def)
qed

lemma backspace_key_eq: "line_curpos s \<noteq> 0 \<Longrightarrow> backspace_key s =
    Option.bind (Option.bind (if dec16 (line_position s) > dec16 (line_curpos s)
        then move_bytes (dec16 (line_curpos s)) (dec16 (line_curpos s) + 1) (dec16 (line_position s) - dec16 (line_curpos s)) (sh_line s)
        else Some (sh_line s)) (put_byte (dec16 (line_position s)) 0))
      (\<lambda>l. if dec16 (line_position s) > dec16 (line_curpos s) \<and> \<not> prints_from (dec16 (line_curpos s)) l then None
        else Some (s\<lparr>sh_line := l, line_position := dec16 (line_position s), line_curpos := dec16 (line_curpos s)\<rparr>))"
  by (simp add: backspace_key_def Let_def split: option.split)

lemma delete_byte:
  "(if length l + length r > length l
    then move_bytes (length l) (length l + 1) (length l + length r - length l) (l @ x # r @ z)
    else Some (l @ x # r @ z)) = Some (l @ r @ List.last (x # r) # z)"
proof (cases r rule: rev_cases)
  case (snoc r0 y)
  then show ?thesis by (simp add: move_bytes_def)
qed simp

lemma backspace_key_edits:
  assumes "edits s l r"
  shows "\<exists>s'. backspace_key s = Some s' \<and> edits s' (butlast l) r \<and> same_history s' s"
proof (cases l rule: rev_cases)
  case Nil
  then show ?thesis using assms by (simp add: backspace_key_def edits_def same_history_def)
next
  case (snoc l0 x)
  define n where "n = 200 - (length l + length r)"
  have e: "sh_stat s = WAIT_NORMAL" "line_curpos s = Suc (length l0)" "line_position s = Suc (length l0 + length r)"
      "sh_line s = l0 @ x # r @ replicate n 0" "length l0 + length r < 199"
    using assms snoc by (simp_all add: edits_def n_def)
  have d: "dec16 (Suc (length l0)) = length l0" "dec16 (Suc (length l0 + length r)) = length l0 + length r"
    using e(5) by (simp_all add: dec16_eq)
  have c: "line_curpos s \<noteq> 0" by (simp add: e(2))
  have "prints_from (length l0) ((l0 @ r) @ replicate (Suc n) 0)" by (intro prints_text) simp_all
  then have p: "prints_from (length l0) (l0 @ r @ 0 # replicate n 0)" by simp
  have "backspace_key s = Some (s\<lparr>sh_line := l0 @ r @ 0 # replicate n 0, line_position := length l0 + length r, line_curpos := length l0\<rparr>)"
    unfolding backspace_key_eq [OF c] e(2-4) d delete_byte using p by (simp add: put_byte_def list_update_append)
  moreover have "0 # replicate n 0 = replicate (200 - (length l0 + length r)) (0 :: u8)"
    using e(5) snoc by (simp add: n_def Suc_diff_Suc flip: replicate_Suc)
  ultimately show ?thesis using e snoc by (simp add: edits_def same_history_def)
qed


lemma uint_neq: "c \<noteq> word_of_int k \<Longrightarrow> uint c \<noteq> k" for c :: u8
  by auto

lemma typable_codes: "typable c \<Longrightarrow> uint c \<notin> {0, 8, 9, 10, 13, 27, 127, 255}"
  by (auto simp: typable_def intro!: uint_neq)

lemma key_edits:
  assumes "edits s l r" and "key_typable k" and "length l + length r + key_size k < 200"
  shows "\<exists>s'. finsh_run complete (key_codes k) s = Some (s', []) \<and> edits s' (fst (edit_key k (l, r))) (snd (edit_key k (l, r)))"
proof -
  have n: "sh_stat s = WAIT_NORMAL" using assms(1) by (simp add: edits_def)
  show ?thesis
  proof (cases k)
    case (K_char c)
    then have "uint c \<notin> {0, 8, 9, 10, 13, 27, 127, 255}" "0 \<le> uint c" using assms(2) typable_codes by simp_all
    moreover obtain s' where "char_key c s = Some s'" "edits s' (l @ [c]) r" using char_key_edits [OF assms(1)] assms(3) K_char by auto
    ultimately show ?thesis using n K_char by (simp add: finsh_char_def finsh_plain_def quiet_def)
  next
    case K_left
    have "edits (left_key (s\<lparr>sh_stat := WAIT_NORMAL\<rparr>)) (fst (edit_key K_left (l, r))) (snd (edit_key K_left (l, r)))"
      using assms(1) by (cases l rule: rev_cases) (auto simp: edits_def left_key_def dec16_eq)
    then show ?thesis using n K_left by (simp add: finsh_char_def quiet_def)
  next
    case K_right
    have "edits (right_key (s\<lparr>sh_stat := WAIT_NORMAL\<rparr>)) (fst (edit_key K_right (l, r))) (snd (edit_key K_right (l, r)))"
      using assms(1) by (cases r) (auto simp: edits_def right_key_def inc16_eq)
    then show ?thesis using n K_right by (simp add: finsh_char_def quiet_def)
  next
    case K_back
    then show ?thesis using n backspace_key_edits [OF assms(1)] by (auto simp: finsh_char_def finsh_plain_def quiet_def)
  qed
qed

lemma finsh_run_append:
  "finsh_run complete (xs @ ys) s = (case finsh_run complete xs s of None \<Rightarrow> None
    | Some (s1, o1) \<Rightarrow> map_option (\<lambda>(s2, o2). (s2, o1 @ o2)) (finsh_run complete ys s1))"
  by (induction xs arbitrary: s) (auto split: option.splits simp: option.map_id)

lemma edit_key_size: "length (fst (edit_key k (l, r))) + length (snd (edit_key k (l, r))) \<le> length l + length r + key_size k"
  by (cases k; cases l rule: rev_cases; cases r) auto

text \<open>Typing a list of keys edits the text as the keys say.\<close>

lemma keys_edit:
  assumes "edits s l r" and "\<forall>k \<in> set ks. key_typable k" and "length l + length r + sum_list (map key_size ks) < 200"
  shows "\<exists>s' l' r'. finsh_run complete (concat (map key_codes ks)) s = Some (s', []) \<and> edits s' l' r' \<and> fold edit_key ks (l, r) = (l', r')"
  using assms
proof (induction ks arbitrary: s l r)
  case (Cons k ks)
  obtain l1 r1 where k: "edit_key k (l, r) = (l1, r1)" by fastforce
  obtain s1 where s1: "finsh_run complete (key_codes k) s = Some (s1, [])" "edits s1 l1 r1"
    using key_edits [OF Cons.prems(1), of k complete] Cons.prems(2,3) k by auto
  have "length l1 + length r1 + sum_list (map key_size ks) < 200"
    using edit_key_size [of k l r] Cons.prems(3) k by simp
  from Cons.IH [OF s1(2) _ this] Cons.prems(2)
  obtain s' l' r' where "finsh_run complete (concat (map key_codes ks)) s1 = Some (s', [])" "edits s' l' r'" "fold edit_key ks (l1, r1) = (l', r')"
    by auto
  then show ?case using s1 k by (simp add: finsh_run_append)
qed simp

lemma enter_edits:
  assumes "edits s l r"
  shows "\<exists>s'. finsh_run complete [13] s = Some (s', [(l @ r @ replicate (200 - length (l @ r)) 0, length (l @ r))]) \<and> edits s' [] []"
proof -
  let ?s = "shell_push_history s"
  have "sh_line ?s = sh_line s" "line_position ?s = line_position s" "sh_stat ?s = sh_stat s"
    by (simp_all add: shell_push_history_def Let_def)
  then show ?thesis
    using assms by (simp add: finsh_char_def finsh_plain_def quiet_def edits_def clear_line_def Let_def)
qed

lemma shell_line:
  assumes "edits s [] []" and "\<forall>k \<in> set ks. key_typable k" and "sum_list (map key_size ks) < 200" and "fold edit_key ks ([], []) = (l, r)"
  shows "\<exists>s'. finsh_run complete (concat (map key_codes ks) @ [13]) s =
      Some (s', [(l @ r @ replicate (200 - length (l @ r)) 0, length (l @ r))]) \<and> edits s' [] []"
proof -
  obtain s1 where "finsh_run complete (concat (map key_codes ks)) s = Some (s1, [])" "edits s1 l r"
    using keys_edit [OF assms(1,2), of complete] assms(3,4) by auto
  then show ?thesis using enter_edits [of s1 l r complete] by (auto simp: finsh_run_append)
qed


text \<open>
  Claim C37: the line editor of the shell is a text with a cursor. From an empty line, printable
  characters, cursor keys and deletions with no more than 199 characters in all lead to the text
  that the abstract editor makes of them, and the return key hands exactly this text to
  \<open>msh_exec\<close>, with zeros behind it, and empties the line.
\<close>

theorem shell_edits_text:
  assumes "edits s [] []" and "\<forall>k \<in> set ks. key_typable k" and "sum_list (map key_size ks) < 200" and "fold edit_key ks ([], []) = (l, r)"
  shows "\<exists>s'. finsh_run complete (concat (map key_codes ks) @ [13]) s =
      Some (s', [(l @ r @ replicate (200 - length (l @ r)) 0, length (l @ r))]) \<and> edits s' [] []"
  by (rule shell_line [OF assms])

definition sample_shell :: finsh_shell where
  "sample_shell = \<lparr>sh_stat = WAIT_NORMAL, echo_mode = True, current_history = 0, history_count = 0, cmd_history = replicate 5 (replicate 200 0),
     sh_line = replicate 200 0, line_position = 0, line_curpos = 0, sh_password = replicate 8 0\<rparr>"

lemma sample_shell: "edits sample_shell [] []"
  by (simp add: edits_def sample_shell_def)

theorem shell_edits_text_witness:
  "\<exists>s'. finsh_run Some (concat (map key_codes [K_char 97, K_char 99, K_left, K_char 98, K_right, K_char 120, K_back]) @ [13]) sample_shell =
      Some (s', [(c_bytes ''abc'' @ replicate 197 0, 3)]) \<and> edits s' [] []"
proof -
  have "\<forall>k \<in> set [K_char 97, K_char 99, K_left, K_char 98, K_right, K_char 120, K_back]. key_typable k"
    by (simp add: typable_def)
  then show ?thesis
    using shell_edits_text [OF sample_shell, of "[K_char 97, K_char 99, K_left, K_char 98, K_right, K_char 120, K_back]" "c_bytes ''abc''" "[]"]
    by (simp add: c_bytes_def numeral_3_eq_3 del: finsh_run.simps)
qed

section \<open>No access outside the arrays\<close>

text \<open>The line holds a text with zeros behind it, and so do the lines of the history.\<close>

definition history_ok :: "finsh_shell \<Rightarrow> bool" where
  "history_ok s \<longleftrightarrow> length (cmd_history s) = FINSH_HISTORY_LINES \<and> history_count s \<le> FINSH_HISTORY_LINES \<and>
     current_history s \<le> history_count s \<and> (\<forall>h \<in> set (cmd_history s). length h = FINSH_CMD_SIZE \<and> clean_line h)"

definition shell_ok :: "finsh_shell \<Rightarrow> bool" where
  "shell_ok s \<longleftrightarrow> length (sh_line s) = FINSH_CMD_SIZE \<and> clean_line (sh_line s) \<and> line_position s = length (buf_string (sh_line s)) \<and>
     line_curpos s \<le> line_position s \<and> history_ok s"

text \<open>The line that goes to \<open>msh_exec\<close>.\<close>

definition out_ok :: "finsh_out \<Rightarrow> bool" where
  "out_ok out \<longleftrightarrow> (case out of None \<Rightarrow> True
     | Some (l, n) \<Rightarrow> length l = FINSH_CMD_SIZE \<and> clean_line l \<and> n = length (buf_string l) \<and> n < FINSH_CMD_SIZE)"

text \<open>A key is a character of the line, or the tabulator, when it is no part of a control sequence.
  It fits: a character is not the 200th of the line, and the names that the tabulator can put
  into the line are not too long for it.\<close>

definition plain_key :: "finsh_shell \<Rightarrow> int \<Rightarrow> bool" where
  "plain_key s ch \<longleftrightarrow> 0 \<le> ch \<and> ch \<noteq> 27 \<and> \<not> (sh_stat s = WAIT_SPEC_KEY \<and> ch = 91) \<and>
     \<not> (sh_stat s = WAIT_FUNC_KEY \<and> ch \<in> {65, 66, 67, 68})"

definition key_fits :: "dfs \<Rightarrow> finsh_shell \<Rightarrow> int \<Rightarrow> bool" where
  "key_fits fs s ch \<longleftrightarrow> (plain_key s ch \<longrightarrow>
     (ch \<notin> {0, 8, 9, 10, 13, 127, 255} \<longrightarrow> line_position s < FINSH_CMD_SIZE - 1) \<and> (ch = 9 \<longrightarrow> path_fits fs (sh_line s)))"

fun keys_fit :: "dfs \<Rightarrow> (u8 list \<times> 'a) list \<Rightarrow> int list \<Rightarrow> finsh_shell \<Rightarrow> bool" where
  "keys_fit fs table [] s = True"
| "keys_fit fs table (ch # chs) s =
     (ch < 256 \<and> key_fits fs s ch \<and>
      (case finsh_char (msh_auto_complete fs table) ch s of None \<Rightarrow> True | Some (s1, _) \<Rightarrow> keys_fit fs table chs s1))"

lemma shell_ok_edits:
  assumes "shell_ok s" and "sh_stat s = WAIT_NORMAL"
  shows "\<exists>l r. edits s l r \<and> c_string (l @ r) \<and> length (l @ r) = line_position s"
proof -
  obtain t n where t: "sh_line s = t @ replicate n 0" "c_string t" "0 < n" "buf_string (sh_line s) = t" "length (sh_line s) = length t + n"
    using clean_lineE [of "sh_line s"] assms(1) by (auto simp: shell_ok_def)
  let ?l = "take (line_curpos s) t" and ?r = "drop (line_curpos s) t"
  have "t @ z = ?l @ ?r @ z" for z by (simp flip: append_assoc)
  then have "sh_line s = ?l @ ?r @ replicate n 0" unfolding t(1) .
  then have "edits s ?l ?r" using assms t(3-5) by (simp add: edits_def shell_ok_def)
  then show ?thesis using t(2,4) assms(1) by (intro exI [of _ ?l] exI [of _ ?r]) (simp add: shell_ok_def)
qed

lemma edits_shell_ok:
  assumes "edits s l r" and "c_string (l @ r)" and "history_ok s"
  shows "shell_ok s"
proof -
  let ?n = "200 - (length l + length r)"
  have e: "sh_line s = (l @ r) @ replicate ?n 0" "0 < ?n" using assms(1) by (simp_all add: edits_def)
  then have "clean_line (sh_line s)" "buf_string (sh_line s) = l @ r"
    using clean_lineI [OF assms(2), of ?n] buf_string_text [OF assms(2), of ?n] by simp_all
  then show ?thesis using assms by (simp add: shell_ok_def edits_def)
qed

lemma show_history_ok:
  assumes "shell_ok s" and "current_history s < history_count s"
  shows "\<exists>s'. show_history s = Some s' \<and> shell_ok s'"
proof -
  let ?l = "cmd_history s ! current_history s"
  have i: "current_history s < length (cmd_history s)" using assms by (simp add: shell_ok_def history_ok_def)
  then have "?l \<in> set (cmd_history s)" by simp
  then have l: "length ?l = 200" "clean_line ?l" using assms(1) by (auto simp: shell_ok_def history_ok_def)
  then show ?thesis using assms(1) i
    by (simp add: show_history_def line_length_def shell_ok_def history_ok_def clean_line_def [of ?l] Let_def)
qed

lemma history_keys_ok:
  assumes "shell_ok s"
  shows "\<exists>s'. up_key s = Some s' \<and> shell_ok s'" and "\<exists>s'. down_key s = Some s' \<and> shell_ok s'"
proof -
  have c: "shell_ok (s\<lparr>current_history := i\<rparr>)" if "i \<le> history_count s" for i
    using assms that by (simp add: shell_ok_def history_ok_def)
  have le: "current_history s \<le> history_count s" using assms by (simp add: shell_ok_def history_ok_def)
  show "\<exists>s'. up_key s = Some s' \<and> shell_ok s'"
  proof (cases "current_history s = 0")
    case False
    then show ?thesis using le show_history_ok [OF c, of "current_history s - 1"] by (simp add: up_key_def)
  qed (use assms in \<open>simp add: up_key_def\<close>)
  show "\<exists>s'. down_key s = Some s' \<and> shell_ok s'"
  proof (cases "history_count s = 0")
    case True
    then show ?thesis using assms le by (simp add: down_key_def)
  next
    case False
    then show ?thesis
      using show_history_ok [OF c, of "current_history s + 1"] show_history_ok [OF c, of "history_count s - 1"]
      by (simp add: down_key_def)
  qed
qed

lemma tab_key_ok:
  assumes "names_fit table" and "shell_ok s" and "path_fits fs (sh_line s)"
  shows "\<exists>s'. tab_key (msh_auto_complete fs table) s = Some s' \<and> shell_ok s'"
proof -
  obtain l where l: "msh_auto_complete fs table (sh_line s) = Some l" "clean_line l" "length l = 200"
    using auto_complete_clean [OF _ assms(1,3)] assms(2) by (auto simp: shell_ok_def)
  then show ?thesis using assms(2) by (simp add: tab_key_def line_length_def shell_ok_def history_ok_def clean_line_def [of l])
qed

lemma position_less: "shell_ok s \<Longrightarrow> line_position s < 200"
  using buf_string_less [of "sh_line s"] by (auto simp: shell_ok_def clean_line_def)

lemma cursor_keys_ok:
  assumes "shell_ok s"
  shows "shell_ok (left_key s)" "shell_ok (right_key s)"
  using assms position_less [OF assms]
  by (auto simp: shell_ok_def history_ok_def left_key_def right_key_def dec16_def inc16_def mod_if)

lemma backspace_key_ok:
  assumes "shell_ok s" and "sh_stat s = WAIT_NORMAL"
  shows "\<exists>s'. backspace_key s = Some s' \<and> shell_ok s'"
proof -
  obtain l r where e: "edits s l r" "c_string (l @ r)" using shell_ok_edits [OF assms] by blast
  obtain s' where s': "backspace_key s = Some s'" "edits s' (butlast l) r" "same_history s' s"
    using backspace_key_edits [OF e(1)] by blast
  have "c_string (butlast l @ r)" using e(2) by (auto simp: c_string_def dest: in_set_butlastD)
  moreover have "history_ok s'" using s'(3) assms(1) by (simp add: same_history_def shell_ok_def history_ok_def)
  ultimately show ?thesis using edits_shell_ok [OF s'(2)] s'(1) by blast
qed

lemma char_key_ok:
  assumes "shell_ok s" and "sh_stat s = WAIT_NORMAL" and "line_position s < 199" and "c \<noteq> 0"
  shows "\<exists>s'. char_key c s = Some s' \<and> shell_ok s'"
proof -
  obtain l r where e: "edits s l r" "c_string (l @ r)" "length (l @ r) = line_position s" using shell_ok_edits [OF assms(1,2)] by blast
  obtain s' where s': "char_key c s = Some s'" "edits s' (l @ [c]) r" "same_history s' s"
    using char_key_edits [OF e(1), of c] e(3) assms(3) by auto
  have "c_string ((l @ [c]) @ r)" using e(2) assms(4) by (auto simp: c_string_def)
  moreover have "history_ok s'" using s'(3) assms(1) by (simp add: same_history_def shell_ok_def history_ok_def)
  ultimately show ?thesis using edits_shell_ok [OF s'(2)] s'(1) by blast
qed

lemma line_copy_ok:
  assumes "shell_ok s"
  shows "length (line_copy s) = 200 \<and> clean_line (line_copy s)"
proof -
  obtain t n where t: "sh_line s = t @ replicate n 0" "c_string t" "0 < n" "buf_string (sh_line s) = t" "length (sh_line s) = length t + n"
    using clean_lineE [of "sh_line s"] assms by (auto simp: shell_ok_def)
  then have "line_copy s = t @ replicate (200 - length t) 0" "length t < 200" using assms by (simp_all add: shell_ok_def line_copy_def)
  then show ?thesis using clean_lineI [OF t(2), of "200 - length t"] by simp
qed

lemma push_history_ok:
  assumes "shell_ok s"
  shows "shell_ok (shell_push_history s) \<and> sh_line (shell_push_history s) = sh_line s \<and>
    line_position (shell_push_history s) = line_position s \<and> sh_stat (shell_push_history s) = sh_stat s"
  using assms line_copy_ok [OF assms]
  by (auto simp: shell_push_history_def shell_ok_def history_ok_def Let_def dest: in_set_dropD dest!: subsetD [OF set_update_subset_insert])

lemma clear_line_ok: "shell_ok s \<Longrightarrow> shell_ok (clear_line s)"
  using clean_lineI [of "[]" 200] buf_string_text [of "[]" 200]
  by (simp add: shell_ok_def history_ok_def clear_line_def c_string_def)

lemma stat_ok: "shell_ok (s\<lparr>sh_stat := t\<rparr>) \<longleftrightarrow> shell_ok s"
  by (simp add: shell_ok_def history_ok_def)

lemma quiet_ok: "\<exists>s'. x = Some s' \<and> shell_ok s' \<Longrightarrow> \<exists>s' out. quiet x = Some (s', out) \<and> shell_ok s' \<and> out_ok out"
  by (auto simp: quiet_def out_ok_def)

lemma finsh_plain_ok:
  assumes "names_fit table" and "shell_ok s" and "sh_stat s = WAIT_NORMAL" and "0 \<le> ch" and "ch < 256"
    and "ch \<notin> {0, 8, 9, 10, 13, 127, 255} \<longrightarrow> line_position s < 199" and "ch = 9 \<longrightarrow> path_fits fs (sh_line s)"
  shows "\<exists>s' out. finsh_plain (msh_auto_complete fs table) ch s = Some (s', out) \<and> shell_ok s' \<and> out_ok out"
proof -
  consider "ch = 0 \<or> ch = 255" | "ch = 9" | "ch = 127 \<or> ch = 8" | "ch = 13 \<or> ch = 10" | "ch \<notin> {0, 255, 9, 127, 8, 13, 10}" by auto
  then show ?thesis
  proof cases
    case 1
    then show ?thesis using quiet_ok [of "Some s"] assms(2) by (auto simp: finsh_plain_def)
  next
    case 2
    then show ?thesis using quiet_ok [OF tab_key_ok [OF assms(1,2)]] assms(7) by (simp add: finsh_plain_def)
  next
    case 3
    then show ?thesis using quiet_ok [OF backspace_key_ok [OF assms(2,3)]] by (auto simp: finsh_plain_def)
  next
    case 4
    let ?s = "shell_push_history s"
    have e: "finsh_plain (msh_auto_complete fs table) ch s = Some (clear_line ?s, Some (sh_line ?s, line_position ?s))"
      using 4 by (auto simp: finsh_plain_def Let_def)
    have ok: "shell_ok ?s" using push_history_ok [OF assms(2)] by blast
    then show ?thesis using clear_line_ok [of ?s] position_less [OF ok] unfolding e by (simp add: out_ok_def shell_ok_def)
  next
    case 5
    have "(word_of_int ch :: u8) \<noteq> 0"
    proof
      assume "(word_of_int ch :: u8) = 0"
      then have "uint (word_of_int ch :: u8) = 0" by simp
      then show False using 5 assms(4,5) by (simp add: uint_word_of_int)
    qed
    then show ?thesis using 5 assms(6) quiet_ok [OF char_key_ok [OF assms(2,3)]] by (simp add: finsh_plain_def)
  qed
qed

lemma finsh_char_ok:
  assumes "names_fit table" and "shell_ok s" and "ch < 256" and "key_fits fs s ch"
  shows "\<exists>s' out. finsh_char (msh_auto_complete fs table) ch s = Some (s', out) \<and> shell_ok s' \<and> out_ok out"
proof -
  let ?n = "s\<lparr>sh_stat := WAIT_NORMAL\<rparr>"
  have n: "shell_ok (s\<lparr>sh_stat := t\<rparr>)" for t using assms(2) by (simp add: stat_ok)
  note q = quiet_ok [of "Some _", simplified]
  have p: "\<exists>s' out. finsh_plain (msh_auto_complete fs table) ch ?n = Some (s', out) \<and> shell_ok s' \<and> out_ok out" if "plain_key s ch"
    by (rule finsh_plain_ok [OF assms(1) n]) (use that assms(3,4) in \<open>simp_all add: key_fits_def plain_key_def\<close>)
  consider "ch < 0" | "ch = 27" | "\<not> ch < 0" "ch \<noteq> 27" "sh_stat s = WAIT_NORMAL" | "\<not> ch < 0" "ch \<noteq> 27" "sh_stat s = WAIT_SPEC_KEY"
    | "\<not> ch < 0" "ch \<noteq> 27" "sh_stat s = WAIT_FUNC_KEY" by (cases "sh_stat s") blast+
  then show ?thesis
  proof cases
    case 1
    then show ?thesis using q [of s] assms(2) by (simp add: finsh_char_def)
  next
    case 2
    then show ?thesis using q [OF n] by (simp add: finsh_char_def)
  next
    case 3
    then have e: "?n = s" by simp
    show ?thesis using 3 p [unfolded e] by (simp add: finsh_char_def plain_key_def)
  next
    case 4
    then show ?thesis using q [OF n] p by (cases "ch = 91") (simp_all add: finsh_char_def plain_key_def)
  next
    case 5
    show ?thesis
    proof (cases "ch \<in> {65, 66, 67, 68}")
      case True
      then show ?thesis using 5 quiet_ok [OF history_keys_ok(1) [OF n]] quiet_ok [OF history_keys_ok(2) [OF n]]
          q [OF cursor_keys_ok(1) [OF n]] q [OF cursor_keys_ok(2) [OF n]]
        by (auto simp: finsh_char_def Let_def)
    next
      case False
      then show ?thesis using 5 p by (simp add: finsh_char_def plain_key_def Let_def)
    qed
  qed
qed

text \<open>
  Claim C38: whatever bytes arrive, control sequences, the keys of the history and the completion of
  names included, the shell reads and writes inside its arrays only, the echo included, as long as
  no line gets a 200th character and no file name in reach of the completion is too long for
  the rest of the line or the path too long for its buffer; the names of the commands have fewer
  than 200 characters. The line is at all times a text with zeros behind it, its counters are the
  length of the text and a place in it, and every line handed to \<open>msh_exec\<close> is such a line with
  its length. (What happens beyond: \<open>long_line_leaves_rest\<close>, \<open>long_line_runs_out\<close>,
  \<open>long_name_overruns\<close>.)
\<close>

theorem shell_stays_inside:
  assumes "names_fit table" and "shell_ok s" and "keys_fit fs table chs s"
  shows "\<exists>s' outs. finsh_run (msh_auto_complete fs table) chs s = Some (s', outs) \<and> shell_ok s' \<and>
    (\<forall>o' \<in> set outs. out_ok (Some o'))"
  using assms(2,3)
proof (induction chs arbitrary: s)
  case (Cons ch chs)
  obtain s1 out where 1: "finsh_char (msh_auto_complete fs table) ch s = Some (s1, out)" "shell_ok s1" "out_ok out"
    using finsh_char_ok [OF assms(1) Cons.prems(1), of ch fs] Cons.prems(2) by auto
  obtain s2 outs where 2: "finsh_run (msh_auto_complete fs table) chs s1 = Some (s2, outs)" "shell_ok s2" "\<forall>o' \<in> set outs. out_ok (Some o')"
    using Cons.IH [OF 1(2)] Cons.prems(2) 1(1) by auto
  show ?case using 1 2 by (auto split: option.split)
qed simp

lemma sample_shell_ok: "shell_ok sample_shell"
  using clean_lineI [of "[]" 200] buf_string_text [of "[]" 200]
  by (simp add: shell_ok_def history_ok_def sample_shell_def c_string_def)

definition sample_dfs :: dfs where
  "sample_dfs = \<lparr>fs_memory = True, fs_cwd = [47], fs_dir = (\<lambda>_. Some [c_bytes ''flash'', c_bytes ''rom''])\<rparr>"

definition typed_shell :: finsh_shell where
  "typed_shell = sample_shell\<lparr>sh_line := c_bytes ''ls f'' @ replicate 196 0, line_position := 4, line_curpos := 4\<rparr>"

theorem shell_stays_inside_witness:
  "\<exists>s' outs. finsh_run (msh_auto_complete sample_dfs [(CMD_PREFIX @ c_bytes ''list'', 1 :: nat)]) [27, 91, 68, 9] typed_shell =
      Some (s', outs) \<and> shell_ok s' \<and> (\<forall>o' \<in> set outs. out_ok (Some o'))"
proof -
  let ?t = "[108, 115, 32, 102] :: u8 list"
  have t: "c_bytes ''ls f'' = ?t" "c_string ?t" by (simp_all add: c_bytes_def c_string_def)
  have "names_fit [(CMD_PREFIX @ c_bytes ''list'', 1 :: nat)]"
    by (simp add: names_fit_def CMD_PREFIX_def c_bytes_def c_string_def)
  moreover have "edits typed_shell ?t []" by (simp add: edits_def typed_shell_def sample_shell_def t)
  then have "shell_ok typed_shell"
    using edits_shell_ok [of typed_shell ?t "[]"] sample_shell_ok t by (simp add: shell_ok_def history_ok_def typed_shell_def)
  moreover have b: "buf_string (102 # replicate 196 0) = [102]" "buf_string (?t @ replicate 196 0) = ?t"
    using buf_string_text [of "[102]" 196] buf_string_text [OF t(2), of 196] by (simp_all add: c_string_def)
  have "last_blank (?t @ replicate 196 0) (Suc (Suc (Suc (Suc 0)))) = Some (Suc (Suc 0))" by simp
  then have "last_blank (?t @ replicate 196 0) (length (buf_string (?t @ replicate 196 0))) = Some 2" unfolding b(2) by simp
  then have "path_fits sample_dfs (?t @ replicate 196 0)"
    using b(1) by (simp add: path_fits_def sample_dfs_def complete_dir_def path_index_def c_bytes_def c_string_def Let_def)
  then have "keys_fit sample_dfs [(CMD_PREFIX @ c_bytes ''list'', 1 :: nat)] [27, 91, 68, 9] typed_shell"
    by (simp add: key_fits_def plain_key_def finsh_char_def quiet_def left_key_def typed_shell_def sample_shell_def t split: option.split)
  ultimately show ?thesis by (rule shell_stays_inside)
qed

section \<open>From the keys to the configuration\<close>

lemma typed_keys_line:
  assumes "edits s [] []" and "\<forall>k \<in> set ks. key_typable k" and "sum_list (map key_size ks) < 200" and "fold edit_key ks ([], []) = (l, r)"
    and "l @ r = lead @ line_text (([], False, name) # ws) trail" and "\<forall>c \<in> set lead. is_sep c"
    and "line_ok (([], False, name) # ws) trail" and "length ws < FINSH_ARG_MAX"
  shows "\<exists>s' line n. finsh_run complete (concat (map key_codes ks) @ [13]) s = Some (s', [(line, n)]) \<and> edits s' [] [] \<and>
    (\<forall>m cmd. bytes_at m cmd line \<longrightarrow> config_shell script m cmd (of_nat n) c =
      (case map_of config_table (CMD_PREFIX @ name) of None \<Rightarrow> Some c | Some k \<Rightarrow> run_shell_cmd k (name # map (\<lambda>(_, _, s). s) ws) c))"
proof -
  obtain s' where s': "finsh_run complete (concat (map key_codes ks) @ [13]) s =
      Some (s', [(l @ r @ replicate (200 - length (l @ r)) 0, length (l @ r))])" "edits s' [] []"
    using shell_line [OF assms(1-4), of complete] by blast
  have len: "length (l @ r) < 200" using keys_edit [OF assms(1,2)] assms(3,4) by (auto simp: edits_def)
  have "config_shell script m cmd (of_nat (length (l @ r))) c =
      (case map_of config_table (CMD_PREFIX @ name) of None \<Rightarrow> Some c | Some k \<Rightarrow> run_shell_cmd k (name # map (\<lambda>(_, _, s). s) ws) c)"
    if "bytes_at m cmd (l @ r @ replicate (200 - length (l @ r)) 0)" for m cmd
  proof (rule config_shell_line [OF _ assms(5) _ assms(6-8)])
    obtain n where "replicate (200 - length (l @ r)) (0 :: u8) = 0 # replicate n 0"
      using len by (metis Suc_diff_Suc replicate_Suc)
    then show "bytes_at m cmd (l @ r)" "m (cmd + length (l @ r)) = 0" using that by (simp_all add: add.assoc)
    show "length (l @ r) < 2 ^ 32" using len by simp
  qed
  then show ?thesis using s' by blast
qed


text \<open>
  Claim C36: what is typed at the shell reaches the configuration. When fewer than 200 characters
  are typed, with cursor keys and deletions between them, and the edited text is the
  name of one of the 13 commands that \<open>config.c\<close> exports, followed by at most nine arguments, plain
  or in quotes, the return key makes the shell call \<open>msh_exec\<close> once, and the configuration
  becomes what the command makes of it with exactly these arguments, wherever the line lies in
  memory; no result means that \<open>config_set_update_uri\<close> copies its argument past the structure.
\<close>

theorem typed_keys_configure:
  assumes "edits s [] []" and "\<forall>k \<in> set ks. key_typable k" and "sum_list (map key_size ks) < 200" and "fold edit_key ks ([], []) = (l, r)"
    and "l @ r = lead @ line_text (([], False, name) # ws) trail" and "\<forall>c \<in> set lead. is_sep c"
    and "line_ok (([], False, name) # ws) trail" and "length ws < FINSH_ARG_MAX" and "map_of config_table (CMD_PREFIX @ name) = Some k"
  shows "\<exists>s' line n. finsh_run complete (concat (map key_codes ks) @ [13]) s = Some (s', [(line, n)]) \<and> edits s' [] [] \<and>
    (\<forall>m cmd. bytes_at m cmd line \<longrightarrow> config_shell script m cmd (of_nat n) c = run_shell_cmd k (name # map (\<lambda>(_, _, s). s) ws) c)"
  using typed_keys_line [OF assms(1-8), of complete script c] assms(9) by simp

theorem typed_keys_configure_witness:
  "\<exists>s' line n. finsh_run Some (concat (map key_codes (map K_char (c_bytes ''config_set_id x7''))) @ [13]) sample_shell = Some (s', [(line, n)]) \<and>
    edits s' [] [] \<and> (\<forall>m cmd. bytes_at m cmd line \<longrightarrow>
      config_shell (\<lambda>_. False) m cmd (of_nat n) config_zero = Some (config_set_id [c_bytes ''config_set_id'', c_bytes ''x7''] config_zero))"
proof -
  let ?t = "c_bytes ''config_set_id x7''"
  have t: "?t = [99, 111, 110, 102, 105, 103, 95, 115, 101, 116, 95, 105, 100, 32, 120, 55]"
    "c_bytes ''config_set_id'' = [99, 111, 110, 102, 105, 103, 95, 115, 101, 116, 95, 105, 100]" "c_bytes ''x7'' = [120, 55]"
    by (simp_all add: c_bytes_def)
  have f: "\<forall>k \<in> set (map K_char ?t). key_typable k" "sum_list (map key_size (map K_char ?t)) < 200"
    "fold edit_key (map K_char ?t) ([], []) = (?t, [])"
    "?t @ [] = [] @ line_text (([], False, c_bytes ''config_set_id'') # [([32], False, c_bytes ''x7'')]) []"
    "\<forall>c \<in> set []. is_sep c"
    "line_ok (([], False, c_bytes ''config_set_id'') # [([32], False, c_bytes ''x7'')]) []"
    "length [([32 :: u8], False, c_bytes ''x7'')] < FINSH_ARG_MAX"
    unfolding t by (simp_all add: typable_def is_sep_def FINSH_ARG_MAX_def)
  have k: "map_of config_table (CMD_PREFIX @ c_bytes ''config_set_id'') = Some (Change Set_id)" by code_simp
  show ?thesis
    using typed_keys_configure [OF sample_shell f k, of Some "\<lambda>_. False" config_zero]
    by (simp only: run_shell_cmd.simps run_cmd.simps list.map prod.case)
qed


section \<open>A line that is too long\<close>

text \<open>After the 200th character the counters start again but the characters stay in the array: the
  next command is followed by the old text instead of a NUL, so its last argument runs on.\<close>

lemma long_line_leaves_rest:
  assumes "edits s l []" and "length l = 199" and "typable c" and "typable d"
  shows "\<exists>s'. finsh_run complete [uint c, uint d, 13] s = Some (s', [(d # tl l @ [c], 1)])"
proof -
  obtain x xs where l: "l = x # xs" using assms(2) by (cases l) auto
  have e: "sh_stat s = WAIT_NORMAL" "line_curpos s = 199" "line_position s = 199" "sh_line s = l @ [0]"
    using assms(1,2) by (simp_all add: edits_def)
  have p: "line_position s < 200" using e by simp
  define s1 where "s1 = s\<lparr>sh_line := l @ [c], line_position := 0, line_curpos := 0\<rparr>"
  have 1: "char_key c s = Some s1"
    unfolding char_key_eq [OF p] e(2-4) s1_def using assms(2) by (simp add: put_byte_def inc16_eq list_update_append)
  define s2 where "s2 = s1\<lparr>sh_line := d # xs @ [c], line_position := 1, line_curpos := 1\<rparr>"
  have p1: "line_position s1 < 200" by (simp add: s1_def)
  have 2: "char_key d s1 = Some s2"
    unfolding char_key_eq [OF p1] by (simp add: s1_def s2_def put_byte_def inc16_eq l)
  have n: "sh_stat s1 = WAIT_NORMAL" "sh_stat s2 = WAIT_NORMAL" using e(1) by (simp_all add: s1_def s2_def)
  have h: "sh_line (shell_push_history s2) = d # xs @ [c]" "line_position (shell_push_history s2) = 1"
    by (simp_all add: shell_push_history_def Let_def s2_def)
  have "uint c \<notin> {0, 8, 9, 10, 13, 27, 127, 255}" "0 \<le> uint c" "uint d \<notin> {0, 8, 9, 10, 13, 27, 127, 255}" "0 \<le> uint d"
    using typable_codes assms(3,4) by simp_all
  then show ?thesis
    using 1 2 e(1) n h l by (simp add: finsh_char_def finsh_plain_def quiet_def Let_def)
qed

text \<open>On such a line, which holds no NUL, the tabulator reads past the array; so does the echo of the
  200th character when it is inserted before others.\<close>

lemma long_line_runs_out:
  assumes "length (sh_line s) = 200" and "0 \<notin> set (sh_line s)"
  shows "tab_key (msh_auto_complete fs table) s = None"
  using complete_full_line [OF assms(2), of fs table] by (simp add: tab_key_def)

lemma full_insert_runs_out:
  assumes "edits s l r" and "length (l @ r) = 199" and "r \<noteq> []" and "c_string (l @ r)" and "c \<noteq> 0" and "echo_mode s"
  shows "char_key c s = None"
proof -
  have e: "line_curpos s = length l" "line_position s = length l + length r" "sh_line s = l @ r @ 0 # []" "line_position s < 200"
    using assms(1,2) by (simp_all add: edits_def)
  have "\<not> prints_from (length l) (l @ c # r @ [])" using assms(4,5) by (auto simp: prints_from_def terminated_def c_string_def)
  then show ?thesis using assms(3,6) e(1) unfolding char_key_eq [OF e(4)] e(1-3) insert_byte by simp
qed

section \<open>The password\<close>

definition finsh_set_password :: "u8 list \<Rightarrow> finsh_shell \<Rightarrow> finsh_shell \<times> int" where
  "finsh_set_password pw s =
     (if length pw < FINSH_PASSWORD_MIN \<or> length pw > FINSH_PASSWORD_MAX then (s, - RT_ERROR)
      else (s\<lparr>sh_password := strncpy_into (sh_password s) pw FINSH_PASSWORD_MAX\<rparr>, RT_EOK))"

text \<open>One character of the log-in: the entry and its length, and whether the entry is finished.\<close>

definition auth_char :: "int \<Rightarrow> u8 list \<times> nat \<Rightarrow> (u8 list \<times> nat) \<times> bool" where
  "auth_char ch = (\<lambda>(pw, cur_pos).
     if 32 \<le> ch \<and> ch \<le> 126 \<and> cur_pos < FINSH_PASSWORD_MAX then ((pw[cur_pos := word_of_int ch], cur_pos + 1), False)
     else if ch = 8 \<and> cur_pos > 0 then ((pw[cur_pos - 1 := 0], cur_pos - 1), False)
     else ((pw, cur_pos), ch = 13 \<or> ch = 10))"

text \<open>\<open>finsh_wait_auth\<close> on the characters that arrive; the result is what is left of them after the
  log-in; the echo and the pause after a wrong entry are left out. Both arrays have eight bytes,
  so \<open>rt_strncmp\<close> compares the strings in them.\<close>

fun auth_loop :: "u8 list \<Rightarrow> int list \<Rightarrow> u8 list \<times> nat \<Rightarrow> int list option" where
  "auth_loop pw [] st = None"
| "auth_loop pw (ch # chs) st =
     (let (st1, input_finish) = auth_char ch st in
      if \<not> input_finish then auth_loop pw chs st1
      else if buf_string pw = buf_string (fst st1) then Some chs
      else auth_loop pw chs (replicate FINSH_PASSWORD_MAX 0, 0))"

definition finsh_wait_auth :: "finsh_shell \<Rightarrow> int list \<Rightarrow> int list option" where
  "finsh_wait_auth s chs =
     (case line_length (sh_password s) of
        None \<Rightarrow> None
      | Some n \<Rightarrow> if n = 0 then Some chs else auth_loop (sh_password s) chs (replicate FINSH_PASSWORD_MAX 0, 0))"

text \<open>The entry as a text: characters beyond the eighth are ignored.\<close>

fun entry_edit :: "int \<Rightarrow> u8 list \<Rightarrow> u8 list" where
  "entry_edit ch t = (if 32 \<le> ch \<and> ch \<le> 126 then (if length t < FINSH_PASSWORD_MAX then t @ [word_of_int ch] else t)
     else if ch = 8 then butlast t else t)"

definition entry_of :: "u8 list \<Rightarrow> u8 list \<times> nat" where
  "entry_of t = (t @ replicate (FINSH_PASSWORD_MAX - length t) 0, length t)"

lemma entry_of_open: "length t < 8 \<Longrightarrow> entry_of t = (t @ 0 # replicate (7 - length t) 0, length t)"
  by (simp add: entry_of_def Suc_diff_le flip: replicate_Suc)

lemma auth_char_entry:
  assumes "length t \<le> 8" and "ch \<noteq> 13" and "ch \<noteq> 10"
  shows "auth_char ch (entry_of t) = (entry_of (entry_edit ch t), False)"
proof (cases "32 \<le> ch \<and> ch \<le> 126 \<and> length t < 8")
  case True
  then show ?thesis by (simp add: entry_of_open auth_char_def list_update_append) (simp add: entry_of_def)
next
  case other: False
  show ?thesis
  proof (cases "ch = 8 \<and> t \<noteq> []")
    case True
    then obtain u x where "t = u @ [x]" by (cases t rule: rev_cases) auto
    then show ?thesis using True assms(1)
      by (simp add: auth_char_def entry_of_def list_update_append Suc_diff_le flip: replicate_Suc)
  next
    case False
    then show ?thesis using assms other by (auto simp: auth_char_def entry_of_def)
  qed
qed

lemma entry_edit_length: "length t \<le> 8 \<Longrightarrow> length (entry_edit ch t) \<le> 8"
  by auto

lemma auth_loop_entry:
  assumes "length t \<le> 8" and "\<forall>ch \<in> set line. ch \<noteq> 13 \<and> ch \<noteq> 10"
  shows "auth_loop pw (line @ rest) (entry_of t) = auth_loop pw rest (entry_of (fold entry_edit line t))"
  using assms
proof (induction line arbitrary: t)
  case (Cons ch line)
  then show ?case using Cons.IH [OF entry_edit_length, of t ch] auth_char_entry [of t ch]
    by (simp del: entry_edit.simps)
qed simp

lemma entry_of_password:
  assumes "length t \<le> 8" and "0 \<notin> set t"
  shows "buf_string (fst (entry_of t)) = t"
proof -
  have "takeWhile (\<lambda>c. c \<noteq> 0) t = t" using assms(2) by (intro takeWhile_eq_all_conv [THEN iffD2]) auto
  then show ?thesis using assms by (cases "8 - length t") (auto simp: entry_of_def buf_string_def takeWhile_append)
qed

lemma entry_edit_no_nul:
  assumes "0 \<notin> set t" shows "0 \<notin> set (entry_edit ch t)"
proof -
  have "(word_of_int ch :: u8) \<noteq> 0" if "32 \<le> ch" "ch \<le> 126"
  proof
    assume "(word_of_int ch :: u8) = 0"
    then have "uint (word_of_int ch :: u8) = 0" by simp
    then show False using that by (simp add: uint_word_of_int)
  qed
  then show ?thesis using assms by (auto dest: in_set_butlastD)
qed

lemma entry_fold:
  "length t \<le> 8 \<and> 0 \<notin> set t \<Longrightarrow> length (fold entry_edit line t) \<le> 8 \<and> 0 \<notin> set (fold entry_edit line t)"
proof (induction line arbitrary: t)
  case (Cons ch line)
  then show ?case using Cons.IH [of "entry_edit ch t"] entry_edit_length [of t ch] entry_edit_no_nul [of t ch]
    by (simp del: entry_edit.simps)
qed simp

text \<open>One attempt: the shell opens exactly when the entry is the password.\<close>

lemma auth_attempt:
  assumes "\<forall>ch \<in> set line. ch \<noteq> 13 \<and> ch \<noteq> 10" and "ret \<in> {13, 10}"
  shows "auth_loop pw (line @ ret # rest) (entry_of []) =
    (if buf_string pw = fold entry_edit line [] then Some rest else auth_loop pw rest (entry_of []))"
proof -
  let ?t = "fold entry_edit line []"
  have t: "length ?t \<le> 8" "0 \<notin> set ?t" using entry_fold [of "[]" line] by simp_all
  have "auth_char ret (entry_of ?t) = (entry_of ?t, True)"
    using assms(2) by (auto simp: auth_char_def entry_of_def)
  then show ?thesis
    using auth_loop_entry [OF _ assms(1), of "[]" pw "ret # rest"] entry_of_password [OF t]
    by (simp add: entry_of_def)
qed

fun attempts_fail :: "u8 list \<Rightarrow> int list list \<Rightarrow> bool" where
  "attempts_fail pw lines = (\<forall>line \<in> set lines. (\<forall>ch \<in> set line. ch \<noteq> 13 \<and> ch \<noteq> 10) \<and> fold entry_edit line [] \<noteq> pw)"

lemma auth_attempts:
  assumes "attempts_fail (buf_string pw) lines"
  shows "auth_loop pw (concat (map (\<lambda>l. l @ [13]) lines) @ rest) (entry_of []) = auth_loop pw rest (entry_of [])"
  using assms
proof (induction lines)
  case (Cons l lines)
  then show ?case
    using auth_attempt [of l 13 pw "concat (map (\<lambda>l. l @ [13]) lines) @ rest"] by auto
qed simp

text \<open>
  Claim C39: the log-in of the shell. After a password of four to seven characters is set, the shell
  stays closed over any number of attempts whose edited entry is not the password, and opens with the
  first one whose entry is: what is left of the input then goes to the shell. (Seven is the largest length that
  works: see \<open>password_of_eight\<close>.)
\<close>

theorem login_needs_password:
  assumes "length (sh_password s) = 8" and "c_string p" and "4 \<le> length p" and "length p \<le> 7"
    and "attempts_fail p lines" and "\<forall>ch \<in> set good. ch \<noteq> 13 \<and> ch \<noteq> 10" and "fold entry_edit good [] = p"
  shows "\<exists>s'. finsh_set_password p s = (s', RT_EOK) \<and>
    finsh_wait_auth s' (concat (map (\<lambda>l. l @ [13]) lines)) = None \<and>
    finsh_wait_auth s' (concat (map (\<lambda>l. l @ [13]) lines) @ good @ 13 # rest) = Some rest"
proof -
  define s' where "s' = s\<lparr>sh_password := strncpy_into (sh_password s) p 8\<rparr>"
  have p: "sh_password s' = p @ 0 # replicate (7 - length p) 0"
    using assms(1,4) by (simp add: s'_def strncpy_into_def Suc_diff_le flip: replicate_Suc)
  have b: "buf_string (sh_password s') = p" unfolding p by (rule buf_string_append [OF assms(2)])
  have n: "line_length (sh_password s') = Some (length p)"
    using b unfolding line_length_def by (simp add: p terminated_def)
  have p0: "p \<noteq> []" using assms(3) by auto
  have e: "(replicate 8 0, 0) = entry_of []" by (simp add: entry_of_def)
  have f: "attempts_fail (buf_string (sh_password s')) lines" using assms(5) b by simp
  have "finsh_wait_auth s' (concat (map (\<lambda>l. l @ [13]) lines)) = None"
    using auth_attempts [OF f, of "[]"] n p0 unfolding finsh_wait_auth_def by (simp add: e [symmetric])
  moreover have "finsh_wait_auth s' (concat (map (\<lambda>l. l @ [13]) lines) @ good @ 13 # rest) = Some rest"
    using auth_attempts [OF f, of "good @ 13 # rest"] auth_attempt [OF assms(6), of 13 "sh_password s'" rest] n p0 assms(7) b
    unfolding finsh_wait_auth_def by (simp add: e [symmetric])
  ultimately show ?thesis using assms(3,4) by (auto simp: finsh_set_password_def s'_def)
qed

text \<open>A password of eight characters is accepted, but the array holds no NUL then: \<open>rt_strlen\<close> of the
  log-in runs past it.\<close>

lemma password_of_eight:
  assumes "length (sh_password s) = 8" and "0 \<notin> set p" and "length p = 8"
  shows "\<exists>s'. finsh_set_password p s = (s', RT_EOK) \<and> finsh_wait_auth s' chs = None"
  using assms by (simp add: finsh_set_password_def finsh_wait_auth_def line_length_def strncpy_into_def terminated_def)

theorem login_needs_password_witness:
  "\<exists>s'. finsh_set_password (c_bytes ''9527'') sample_shell = (s', RT_EOK) \<and>
    finsh_wait_auth s' [48, 48, 13] = None \<and> finsh_wait_auth s' ([48, 48, 13] @ [57, 53, 48, 8, 50, 55, 13, 108]) = Some [108]"
proof -
  have "attempts_fail [57, 53, 50, 55] [[48, 48]]" by simp
  then show ?thesis
    using login_needs_password [of sample_shell "c_bytes ''9527''" "[[48, 48]]" "[57, 53, 48, 8, 50, 55]" "[108]"]
    by (simp add: sample_shell_def c_bytes_def c_string_def del: attempts_fail.simps)
qed

text \<open>What the shell thread does before its loop: without a password the default one is set.\<close>

definition finsh_login :: "finsh_shell \<Rightarrow> int list \<Rightarrow> (finsh_shell \<times> int list) option" where
  "finsh_login s chs =
     (case line_length (sh_password s) of
        None \<Rightarrow> None
      | Some n \<Rightarrow>
         let s1 = (if n = 0 then fst (finsh_set_password FINSH_DEFAULT_PASSWORD s) else s)
         in map_option (Pair s1) (finsh_wait_auth s1 chs))"

lemma finsh_login_default:
  "finsh_login sample_shell [57, 53, 50, 55, 13, 108] = Some (sample_shell\<lparr>sh_password := c_bytes ''9527'' @ [0, 0, 0, 0]\<rparr>, [108])"
  by code_simp

end
