(* ===== verification/Rt_Mempool.thy ===== *)
theory Rt_Mempool
  imports Rt_Heap Rt_Mq
begin

text \<open>
  Memory pools of the kernel (\<open>rt-thread/src/mempool.c\<close>): blocks of one size, each behind a word
  that links it into the free list or, while it is handed out, names its pool. The pools are
  named by the address of their structure, and the words in front of the blocks are one map, so
  that several pools share a memory. \<open>rt_mp_alloc\<close> is cut at \<open>rt_schedule\<close>: the call up to there
  and \<open>mp_alloc_resume\<close>. \<open>None\<close> is a failed assertion or a null pointer that is followed. The
  theory shows that a block has one owner, that no block is lost, that no waiting thread is
  left beside a free block, and that a pool is an allocator like the heap.
\<close>

section \<open>State\<close>

record rt_mempool =
  mp_start :: u32
  mp_size :: u32
  mp_block_size :: u32
  mp_list :: "nat option"
  mp_total :: u32
  mp_free_count :: u32
  mp_waiting :: "rt_thread list"

record mp_world =
  pools :: "nat \<Rightarrow> rt_mempool option"
  head_word :: "nat \<Rightarrow> nat option"

datatype mp_result = Mp_return "nat option" | Mp_suspended "int option"

section \<open>Set-up\<close>

text \<open>\<open>block_ptr + offset * (block_size + sizeof(rt_uint8_t *))\<close> in 32 bits.\<close>

definition block_at :: "u32 \<Rightarrow> u32 \<Rightarrow> u32 \<Rightarrow> nat" where
  "block_at start bs offset = unat (start + offset * (bs + 4))"

definition mp_link :: "u32 \<Rightarrow> u32 \<Rightarrow> u32 \<Rightarrow> (nat \<Rightarrow> nat option) \<Rightarrow> nat \<Rightarrow> nat option" where
  "mp_link start bs n hw =
     (fold (\<lambda>i hw. hw(block_at start bs (of_nat i) := Some (block_at start bs (of_nat i + 1)))) [0..<unat n] hw)
       (block_at start bs (n - 1) := None)"

definition rt_mp_init :: "nat \<Rightarrow> u32 \<Rightarrow> u32 \<Rightarrow> u32 \<Rightarrow> mp_world \<Rightarrow> mp_world option" where
  "rt_mp_init a start sz block_size w =
     (let bs = RT_ALIGN block_size; sz' = sz AND NOT (4 - 1) in
      if start = 0 \<or> sz = 0 \<or> block_size = 0 \<or> bs + 4 = 0 then None
      else let n = sz' div (bs + 4) in
        Some (w\<lparr>pools := (pools w)(a := Some \<lparr>mp_start = start, mp_size = sz', mp_block_size = bs, mp_list = Some (unat start),
              mp_total = n, mp_free_count = n, mp_waiting = []\<rparr>),
            head_word := mp_link start bs n (head_word w)\<rparr>))"

text \<open>The structure and the area come from the heap; \<open>obj\<close> is what \<open>rt_object_allocate\<close> returned.\<close>

definition rt_mp_create :: "nat option \<Rightarrow> u32 \<Rightarrow> u32 \<Rightarrow> mp_world \<Rightarrow> rt_heap \<Rightarrow> (mp_world \<times> rt_heap \<times> nat option) option" where
  "rt_mp_create obj block_count block_size w h =
     (if block_count = 0 \<or> block_size = 0 then None
      else case obj of None \<Rightarrow> Some (w, h, None)
        | Some a \<Rightarrow> let bs = RT_ALIGN block_size in
           (case rt_malloc ((bs + 4) * block_count) h of
              None \<Rightarrow> None
            | Some (h1, None) \<Rightarrow> Some (w, h1, None)
            | Some (h1, Some p) \<Rightarrow>
                let start = of_nat p in
                Some (w\<lparr>pools := (pools w)(a := Some \<lparr>mp_start = start, mp_size = (bs + 4) * block_count,
                      mp_block_size = bs, mp_list = Some (unat start), mp_total = block_count, mp_free_count = block_count,
                      mp_waiting = []\<rparr>),
                    head_word := mp_link start bs block_count (head_word w)\<rparr>, h1, Some a)))"

text \<open>Detaching and deleting: the threads made ready, and the area given back.\<close>

definition rt_mp_detach :: "nat \<Rightarrow> mp_world \<Rightarrow> (mp_world \<times> rt_thread list \<times> int) option" where
  "rt_mp_detach a w = map_option (\<lambda>p.
     (w\<lparr>pools := (pools w)(a := None)\<rparr>, snd (rt_ipc_list_resume_all (mp_waiting p)), RT_EOK)) (pools w a)"

definition rt_mp_delete :: "nat \<Rightarrow> mp_world \<Rightarrow> rt_heap \<Rightarrow> (mp_world \<times> rt_heap \<times> rt_thread list \<times> int) option" where
  "rt_mp_delete a w h =
     (case pools w a of None \<Rightarrow> None
      | Some p \<Rightarrow> map_option (\<lambda>h1. (w\<lparr>pools := (pools w)(a := None)\<rparr>, h1,
          snd (rt_ipc_list_resume_all (mp_waiting p)), RT_EOK)) (rt_free (Some (unat (mp_start p))) h))"

section \<open>Allocating and releasing\<close>

definition mp_alloc_loop :: "nat \<Rightarrow> int \<Rightarrow> rt_thread \<Rightarrow> mp_world \<Rightarrow> (mp_world \<times> mp_result) option" where
  "mp_alloc_loop a time self w =
     (case pools w a of None \<Rightarrow> None
      | Some p \<Rightarrow>
          if mp_free_count p = 0
          then if time = 0 then Some (w, Mp_return None)
            else let thread = self\<lparr>thread_error := RT_EOK\<rparr> in
              Some (w\<lparr>pools := (pools w)(a := Some (p\<lparr>mp_waiting := thread # mp_waiting p\<rparr>))\<rparr>,
                Mp_suspended (if time > 0 then Some time else None))
          else case mp_list p of None \<Rightarrow> None
            | Some b \<Rightarrow>
                Some (w\<lparr>pools := (pools w)(a := Some (p\<lparr>mp_free_count := mp_free_count p - 1, mp_list := head_word w b\<rparr>)),
                    head_word := (head_word w)(b := Some a)\<rparr>, Mp_return (Some (b + 4))))"

definition rt_mp_alloc :: "nat \<Rightarrow> int \<Rightarrow> rt_thread \<Rightarrow> mp_world \<Rightarrow> (mp_world \<times> mp_result) option" where
  "rt_mp_alloc a time self w = mp_alloc_loop a time self w"

definition mp_alloc_resume :: "nat \<Rightarrow> int \<Rightarrow> u32 \<Rightarrow> rt_thread \<Rightarrow> mp_world \<Rightarrow> (mp_world \<times> mp_result) option" where
  "mp_alloc_resume a time tick_delta thread w =
     (if thread_error thread \<noteq> RT_EOK then Some (w, Mp_return None)
      else mp_alloc_loop a (remaining time tick_delta) thread w)"

definition rt_mp_free :: "nat option \<Rightarrow> mp_world \<Rightarrow> (mp_world \<times> woken) option" where
  "rt_mp_free block w =
     (case block of None \<Rightarrow> Some (w, None)
      | Some b \<Rightarrow> if b < 4 then None
        else (case head_word w (b - 4) of None \<Rightarrow> None
          | Some a \<Rightarrow>
             (case pools w a of None \<Rightarrow> None
              | Some p \<Rightarrow> let (xs, t) = wake_first (mp_waiting p) in
                  Some (w\<lparr>pools := (pools w)(a := Some (p\<lparr>mp_free_count := mp_free_count p + 1, mp_list := Some (b - 4),
                        mp_waiting := xs\<rparr>)),
                      head_word := (head_word w)(b - 4 := mp_list p)\<rparr>,
                    map_option (\<lambda>t. t\<lparr>thread_error := RT_EOK\<rparr>) t))))"

text \<open>The timer of a waiting thread ends its wait.\<close>

definition mp_timeout :: "nat \<Rightarrow> rt_thread \<Rightarrow> mp_world \<Rightarrow> (mp_world \<times> rt_thread) option" where
  "mp_timeout a t w = map_option (\<lambda>p.
     (w\<lparr>pools := (pools w)(a := Some (p\<lparr>mp_waiting := remove1 t (mp_waiting p)\<rparr>))\<rparr>, t\<lparr>thread_error := - RT_ETIMEOUT\<rparr>)) (pools w a)"

section \<open>The blocks of a pool\<close>

definition mp_stride :: "rt_mempool \<Rightarrow> nat" where
  "mp_stride p = unat (mp_block_size p) + 4"

definition mp_area :: "rt_mempool \<Rightarrow> nat set" where
  "mp_area p = {unat (mp_start p) ..< unat (mp_start p) + unat (mp_total p) * mp_stride p}"

definition mp_blocks :: "rt_mempool \<Rightarrow> nat set" where
  "mp_blocks p = (\<lambda>i. unat (mp_start p) + i * mp_stride p) ` {..<unat (mp_total p)}"

definition mp_fits :: "rt_mempool \<Rightarrow> bool" where
  "mp_fits p \<longleftrightarrow> 0 < unat (mp_start p) \<and> unat (mp_start p) + unat (mp_total p) * mp_stride p < 2 ^ 32"

text \<open>\<open>fl\<close> is the free list, \<open>lv\<close> the blocks handed out.\<close>

definition pool_ok :: "(nat \<Rightarrow> nat option) \<Rightarrow> nat \<Rightarrow> rt_mempool \<Rightarrow> nat list \<Rightarrow> nat list \<Rightarrow> bool" where
  "pool_ok hw a p fl lv \<longleftrightarrow> Rt_Mq.chain hw (mp_list p) fl \<and> unat (mp_free_count p) = length fl \<and>
     distinct (fl @ lv) \<and> set (fl @ lv) = mp_blocks p \<and> (\<forall>b \<in> set lv. hw b = Some a)"

lemma inj_mp_blocks: "inj_on (\<lambda>i. unat (mp_start p) + i * mp_stride p) A"
  by (auto simp: inj_on_def mp_stride_def)

lemma card_mp_blocks: "card (mp_blocks p) = unat (mp_total p)"
  by (simp add: mp_blocks_def card_image inj_mp_blocks)

lemma mp_blocks_area: "mp_blocks p \<subseteq> mp_area p"
proof
  fix b assume "b \<in> mp_blocks p"
  then obtain i where i: "i < unat (mp_total p)" "b = unat (mp_start p) + i * mp_stride p" by (auto simp: mp_blocks_def)
  have "i * mp_stride p + mp_stride p \<le> unat (mp_total p) * mp_stride p"
    using i(1) mult_le_mono1 [of "Suc i" "unat (mp_total p)" "mp_stride p"] by simp
  moreover have "0 < mp_stride p" by (simp add: mp_stride_def)
  ultimately have "i * mp_stride p < unat (mp_total p) * mp_stride p" by linarith
  then show "b \<in> mp_area p" using i(2) by (simp add: mp_area_def del: mult_less_cancel2)
qed

lemma pool_ok_count: "pool_ok hw a p fl lv \<Longrightarrow> unat (mp_free_count p) + length lv = unat (mp_total p)"
  using card_mp_blocks [of p] distinct_card [of "fl @ lv"] by (simp add: pool_ok_def)

lemma pool_ok_cong:
  assumes "pool_ok hw a p fl lv" and "\<And>b. b \<in> mp_blocks p \<Longrightarrow> hw' b = hw b"
  shows "pool_ok hw' a p fl lv"
proof -
  have "Rt_Mq.chain hw' q xs = Rt_Mq.chain hw q xs" if "set xs \<subseteq> mp_blocks p" for q xs
    using that assms(2) by (induction xs arbitrary: q) auto
  moreover have "set fl \<subseteq> mp_blocks p" "set lv \<subseteq> mp_blocks p" using assms(1) by (auto simp: pool_ok_def)
  ultimately show ?thesis using assms by (auto simp: pool_ok_def)
qed

lemma pool_ok_take:
  assumes "pool_ok hw a p fl lv" and "mp_free_count p \<noteq> 0"
  shows "\<exists>b fl'. mp_list p = Some b \<and> fl = b # fl' \<and>
    pool_ok (hw(b := Some a)) a (p\<lparr>mp_free_count := mp_free_count p - 1, mp_list := hw b\<rparr>) fl' (b # lv)"
proof -
  have "unat (mp_free_count p) \<noteq> 0" using assms(2) by (simp add: unat_eq_0)
  then obtain b fl' where fl: "fl = b # fl'" using assms(1) by (cases fl) (auto simp: pool_ok_def)
  have "unat (mp_free_count p - 1) = unat (mp_free_count p) - 1" using assms(2) by (rule unat_minus_one)
  then show ?thesis using assms(1) fl
    by (auto simp: pool_ok_def chain_other mp_blocks_def mp_stride_def)
qed

lemma pool_ok_give:
  assumes "pool_ok hw a p fl lv" and "b \<in> set lv"
  shows "pool_ok (hw(b := mp_list p)) a (p\<lparr>mp_free_count := mp_free_count p + 1, mp_list := Some b, mp_waiting := xs\<rparr>)
    (b # fl) (remove1 b lv)"
proof -
  have "0 < length lv" using assms(2) by auto
  then have "unat (mp_free_count p) + 1 \<le> unat (mp_total p)" using pool_ok_count [OF assms(1)] by linarith
  moreover have "unat (mp_total p) < 2 ^ 32" using unsigned_less [of "mp_total p", where 'a = nat] by simp
  ultimately have "unat (mp_free_count p + 1) = unat (mp_free_count p) + 1" by (simp add: unat_word_ariths)
  moreover have "b \<notin> set fl" using assms by (auto simp: pool_ok_def)
  ultimately show ?thesis using assms
    by (auto simp: pool_ok_def chain_other mp_blocks_def mp_stride_def distinct_remove1 set_remove1_eq)
qed

section \<open>Building the free list\<close>

lemma unat_stride:
  assumes "bs + 4 \<noteq> (0 :: u32)" and "4 dvd unat bs"
  shows "unat (bs + 4) = unat bs + 4"
proof -
  obtain q where q: "unat bs = 4 * q" using assms(2) by blast
  have "unat bs < 2 ^ 32" using unsigned_less [of bs, where 'a = nat] by simp
  moreover have "q \<noteq> 2 ^ 30 - 1"
  proof
    assume "q = 2 ^ 30 - 1"
    then have "unat (bs + 4) = 0" using q by (simp add: unat_word_ariths)
    then show False using assms(1) by (simp add: unat_eq_0)
  qed
  ultimately have "unat bs + 4 < 2 ^ 32" using q by simp
  then show ?thesis by (simp add: unat_word_ariths)
qed

lemma block_at_linear:
  assumes "bs + 4 \<noteq> 0" and "4 dvd unat bs" and "unat start + k * (unat bs + 4) < 2 ^ 32"
  shows "block_at start bs (of_nat k) = unat start + k * (unat bs + 4)"
proof -
  have "start + of_nat k * (bs + 4) = of_nat (unat start + k * unat (bs + 4))" by simp
  then have "unat (start + of_nat k * (bs + 4)) = (unat start + k * (unat bs + 4)) mod 2 ^ 32"
    unfolding unat_stride [OF assms(1,2)] by (simp only: unat_of_nat) simp
  then show ?thesis using assms(3) by (simp add: block_at_def)
qed

lemma fold_link:
  assumes "inj_on f {..<n}" and "i < n"
  shows "fold (\<lambda>i hw. hw(f i := Some (f (i + 1)))) [0..<n] hw (f i) = Some (f (i + 1))"
  using assms
proof (induction n)
  case (Suc n)
  have "f i \<noteq> f n" if "i < n" using inj_onD [OF Suc.prems(1), of i n] that by auto
  moreover have "inj_on f {..<n}" using Suc.prems(1) by (rule inj_on_subset) auto
  ultimately show ?case using Suc.IH Suc.prems(2) by (auto simp: less_Suc_eq)
qed simp

lemma fold_link_other:
  "b \<notin> f ` {..<n} \<Longrightarrow> fold (\<lambda>i hw. hw(f i := Some (f (i + 1)))) [0..<n] hw b = hw b"
  by (induction n) (auto simp: lessThan_Suc)

lemma chain_link:
  assumes "\<And>i. k \<le> i \<Longrightarrow> i + 1 < n \<Longrightarrow> hw (f i) = Some (f (i + 1))" and "hw (f (n - 1)) = None" and "k < n"
  shows "Rt_Mq.chain hw (Some (f k)) (map f [k..<n])"
  using assms
proof (induction "n - k" arbitrary: k)
  case (Suc m)
  show ?case
  proof (cases "k + 1 = n")
    case True
    then have "[k..<n] = [k]" by auto
    then show ?thesis using Suc.prems(2) True by auto
  next
    case False
    then have "Rt_Mq.chain hw (Some (f (k + 1))) (map f [k + 1..<n])" using Suc by (intro Suc.hyps(1)) auto
    moreover have "[k..<n] = k # [k + 1..<n]" using Suc.prems(3) by (simp add: upt_conv_Cons)
    ultimately show ?thesis using Suc.prems(1) [of k] Suc.prems(3) False by simp
  qed
qed simp

text \<open>A pool without a block makes the code write in front of it.\<close>

lemma pool_ok_fresh:
  assumes "bs + 4 \<noteq> 0" and "4 dvd unat bs" and "0 < unat n" and "unat start + unat n * (unat bs + 4) < 2 ^ 32"
    and "mp_start p = start" "mp_block_size p = bs" "mp_list p = Some (unat start)" "mp_total p = n" "mp_free_count p = n"
  shows "\<exists>fl. pool_ok (mp_link start bs n hw) a p fl [] \<and> (\<forall>b. b \<notin> mp_blocks p \<longrightarrow> mp_link start bs n hw b = hw b)"
proof -
  let ?f = "\<lambda>i. block_at start bs (of_nat i)"
  have f: "?f i = unat start + i * (unat bs + 4)" if "i \<le> unat n" for i
  proof (rule block_at_linear [OF assms(1,2)])
    show "unat start + i * (unat bs + 4) < 2 ^ 32"
      using assms(4) mult_le_mono1 [OF that, of "unat bs + 4"] by linarith
  qed
  have inj: "inj_on ?f {..<unat n}" by (rule inj_onI) (simp add: f)
  have im: "?f ` {..<unat n} = mp_blocks p" using assms(5,6,8) by (auto simp: mp_blocks_def mp_stride_def f image_def)
  define hw1 where "hw1 = fold (\<lambda>i hw. hw(?f i := Some (?f (i + 1)))) [0..<unat n] hw"
  have n1: "n - 1 = of_nat (unat n - 1)" using assms(3) by (simp add: of_nat_diff)
  have hw: "mp_link start bs n hw = hw1(?f (unat n - 1) := None)"
    unfolding mp_link_def hw1_def n1 by (simp add: add.commute)
  have "Rt_Mq.chain (hw1(?f (unat n - 1) := None)) (Some (?f 0)) (map ?f [0..<unat n])"
  proof (rule chain_link [where f = ?f])
    fix i assume i: "i + 1 < unat n"
    have "?f i \<noteq> ?f (unat n - 1)" using inj_onD [OF inj, of i "unat n - 1"] i by auto
    then show "(hw1(?f (unat n - 1) := None)) (?f i) = Some (?f (i + 1))"
      using fold_link [OF inj, of i hw] i by (simp add: hw1_def)
  qed (use assms(3) in simp_all)
  moreover have "?f 0 = unat start" by (simp add: block_at_def)
  moreover have "set (map ?f [0..<unat n]) = mp_blocks p" using im by (simp add: lessThan_atLeast0)
  moreover have "distinct (map ?f [0..<unat n])" using inj by (simp add: distinct_map lessThan_atLeast0)
  ultimately have "pool_ok (mp_link start bs n hw) a p (map ?f [0..<unat n]) []"
    using assms(5-9) by (simp add: pool_ok_def hw)
  moreover have "mp_link start bs n hw b = hw b" if "b \<notin> mp_blocks p" for b
  proof -
    have "b \<noteq> ?f (unat n - 1)" using that assms(3) im by (metis diff_less image_eqI lessThan_iff zero_less_one)
    then show ?thesis using fold_link_other [of b ?f "unat n" hw] that im by (simp add: hw hw1_def)
  qed
  ultimately show ?thesis by blast
qed

section \<open>Several pools\<close>

text \<open>\<open>L a\<close> are the pointers that pool \<open>a\<close> handed out and did not get back; \<open>R a\<close> the threads that
  a release made ready and that have not run since. A pool is set up on an area of its own that
  has room for a block; it is detached when no woken thread will come back to it.\<close>

inductive mp_run :: "mp_world \<Rightarrow> (nat \<Rightarrow> nat set) \<Rightarrow> (nat \<Rightarrow> rt_thread list) \<Rightarrow> bool" where
  start: "pools w = (\<lambda>_. None) \<Longrightarrow> mp_run w (\<lambda>_. {}) (\<lambda>_. [])"
| init: "mp_run w L R \<Longrightarrow> rt_mp_init a start sz bs w = Some w' \<Longrightarrow> pools w a = None \<Longrightarrow> pools w' a = Some p \<Longrightarrow>
    mp_total p \<noteq> 0 \<Longrightarrow> mp_fits p \<Longrightarrow> (\<And>b q. pools w b = Some q \<Longrightarrow> mp_area p \<inter> mp_area q = {}) \<Longrightarrow> mp_run w' L R"
| create: "mp_run w L R \<Longrightarrow> rt_mp_create obj n bs w h = Some (w', h', Some a) \<Longrightarrow> pools w a = None \<Longrightarrow> pools w' a = Some p \<Longrightarrow>
    mp_block_size p + 4 \<noteq> 0 \<Longrightarrow> mp_fits p \<Longrightarrow> (\<And>b q. pools w b = Some q \<Longrightarrow> mp_area p \<inter> mp_area q = {}) \<Longrightarrow> mp_run w' L R"
| alloc: "mp_run w L R \<Longrightarrow> rt_mp_alloc a time t w = Some (w', r) \<Longrightarrow>
    mp_run w' (case r of Mp_return (Some b) \<Rightarrow> L(a := insert b (L a)) | _ \<Rightarrow> L) R"
| resume: "mp_run w L R \<Longrightarrow> t \<in> set (R a) \<Longrightarrow> mp_alloc_resume a time d t w = Some (w', r) \<Longrightarrow>
    mp_run w' (case r of Mp_return (Some b) \<Rightarrow> L(a := insert b (L a)) | _ \<Rightarrow> L) (R(a := remove1 t (R a)))"
| free: "mp_run w L R \<Longrightarrow> b \<in> L a \<Longrightarrow> rt_mp_free (Some b) w = Some (w', t) \<Longrightarrow>
    mp_run w' (L(a := L a - {b})) (R(a := R a @ (case t of None \<Rightarrow> [] | Some t \<Rightarrow> [t])))"
| timeout: "mp_run w L R \<Longrightarrow> pools w a = Some p \<Longrightarrow> t \<in> set (mp_waiting p) \<Longrightarrow> mp_timeout a t w = Some (w', t') \<Longrightarrow> mp_run w' L R"
| detach: "mp_run w L R \<Longrightarrow> R a = [] \<Longrightarrow> rt_mp_detach a w = Some (w', ts, e) \<Longrightarrow> mp_run w' (L(a := {})) R"

definition world_ok :: "mp_world \<Rightarrow> (nat \<Rightarrow> nat set) \<Rightarrow> bool" where
  "world_ok w L \<longleftrightarrow>
     (\<forall>a p. pools w a = Some p \<longrightarrow> mp_fits p \<and> (\<exists>fl lv. pool_ok (head_word w) a p fl lv \<and> L a = (\<lambda>b. b + 4) ` set lv)) \<and>
     (\<forall>a. pools w a = None \<longrightarrow> L a = {}) \<and>
     (\<forall>a b p q. pools w a = Some p \<longrightarrow> pools w b = Some q \<longrightarrow> a \<noteq> b \<longrightarrow> mp_area p \<inter> mp_area q = {})"

definition same_shape :: "rt_mempool \<Rightarrow> rt_mempool \<Rightarrow> bool" where
  "same_shape p q \<longleftrightarrow> mp_start p = mp_start q \<and> mp_total p = mp_total q \<and> mp_block_size p = mp_block_size q"

lemma same_shape_eqs: "same_shape p q \<Longrightarrow> mp_blocks p = mp_blocks q \<and> mp_area p = mp_area q \<and> mp_fits p = mp_fits q"
  by (simp add: same_shape_def mp_blocks_def mp_area_def mp_fits_def mp_stride_def)

lemma world_okE:
  assumes "world_ok w L" and "pools w a = Some p"
  obtains fl lv where "mp_fits p" "pool_ok (head_word w) a p fl lv" "L a = (\<lambda>b. b + 4) ` set lv"
  using assms unfolding world_ok_def by blast

lemma other_blocks: "b \<in> mp_blocks q \<Longrightarrow> mp_area p \<inter> mp_area q = {} \<Longrightarrow> b \<notin> mp_blocks p"
  using mp_blocks_area by blast

text \<open>What one pool does, the others do not notice.\<close>

lemma world_ok_put:
  assumes ok: "world_ok w L" and p: "pool_ok hw' a p fl lv" "mp_fits p"
    and frame: "\<And>b. b \<notin> mp_blocks p \<Longrightarrow> hw' b = head_word w b"
    and apart: "\<And>b q. pools w b = Some q \<Longrightarrow> b \<noteq> a \<Longrightarrow> mp_area p \<inter> mp_area q = {}"
  shows "world_ok (w\<lparr>pools := (pools w)(a := Some p), head_word := hw'\<rparr>) (L(a := (\<lambda>b. b + 4) ` set lv))"
proof -
  have other: "pool_ok hw' c q fl lv" if "pools w c = Some q" "c \<noteq> a" "pool_ok (head_word w) c q fl lv" for c q fl lv
    using pool_ok_cong [OF that(3)] frame other_blocks [OF _ apart [OF that(1,2)]] by blast
  show ?thesis
    unfolding world_ok_def
  proof (intro conjI allI impI)
    fix c q assume c: "pools (w\<lparr>pools := (pools w)(a := Some p), head_word := hw'\<rparr>) c = Some q"
    show "mp_fits q" using c p(2) ok by (auto simp: world_ok_def split: if_splits)
    show "\<exists>fl lv'. pool_ok (head_word (w\<lparr>pools := (pools w)(a := Some p), head_word := hw'\<rparr>)) c q fl lv' \<and>
        (L(a := (\<lambda>b. b + 4) ` set lv)) c = (\<lambda>b. b + 4) ` set lv'"
    proof (cases "c = a")
      case True
      then show ?thesis using c p(1) by auto
    next
      case False
      then have q: "pools w c = Some q" using c by simp
      obtain fl' lv' where "pool_ok (head_word w) c q fl' lv'" "L c = (\<lambda>b. b + 4) ` set lv'" using ok q by (rule world_okE)
      then show ?thesis using other [OF q False] False by (intro exI [of _ fl'] exI [of _ lv']) simp
    qed
  next
    fix c assume "pools (w\<lparr>pools := (pools w)(a := Some p), head_word := hw'\<rparr>) c = None"
    then show "(L(a := (\<lambda>b. b + 4) ` set lv)) c = {}" using ok by (simp add: world_ok_def split: if_splits)
  next
    fix c d q r assume c: "pools (w\<lparr>pools := (pools w)(a := Some p), head_word := hw'\<rparr>) c = Some q"
      "pools (w\<lparr>pools := (pools w)(a := Some p), head_word := hw'\<rparr>) d = Some r" "c \<noteq> d"
    show "mp_area q \<inter> mp_area r = {}"
    proof (cases "c = a \<or> d = a")
      case True
      then show ?thesis using c apart [of c q] apart [of d r] by (auto simp: Int_commute)
    next
      case False
      then show ?thesis using c ok by (simp add: world_ok_def)
    qed
  qed
qed

lemma world_ok_upd:
  assumes "world_ok w L" and "pools w a = Some p" and "same_shape p' p" and "pool_ok hw' a p' fl lv"
    and "\<And>b. b \<notin> mp_blocks p \<Longrightarrow> hw' b = head_word w b"
  shows "world_ok (w\<lparr>pools := (pools w)(a := Some p'), head_word := hw'\<rparr>) (L(a := (\<lambda>b. b + 4) ` set lv))"
proof (rule world_ok_put [OF assms(1,4)])
  show "mp_fits p'" using same_shape_eqs [OF assms(3)] assms(1,2) by (auto simp: world_ok_def)
  show "hw' b = head_word w b" if "b \<notin> mp_blocks p'" for b using that same_shape_eqs [OF assms(3)] assms(5) by simp
  show "mp_area p' \<inter> mp_area q = {}" if "pools w b = Some q" "b \<noteq> a" for b q
    using that same_shape_eqs [OF assms(3)] assms(1,2) unfolding world_ok_def by metis
qed

lemma world_ok_same:
  "world_ok w L \<Longrightarrow> pools w a = Some p \<Longrightarrow> world_ok (w\<lparr>pools := (pools w)(a := Some (p\<lparr>mp_waiting := xs\<rparr>))\<rparr>) L"
proof -
  assume a: "world_ok w L" "pools w a = Some p"
  obtain fl lv where p: "pool_ok (head_word w) a p fl lv" "L a = (\<lambda>b. b + 4) ` set lv" using a by (rule world_okE)
  have "pool_ok (head_word w) a (p\<lparr>mp_waiting := xs\<rparr>) fl lv" using p(1) by (simp add: pool_ok_def mp_blocks_def mp_stride_def)
  from world_ok_upd [OF a _ this] have "world_ok (w\<lparr>pools := (pools w)(a := Some (p\<lparr>mp_waiting := xs\<rparr>)), head_word := head_word w\<rparr>)
      (L(a := (\<lambda>b. b + 4) ` set lv))"
    by (simp add: same_shape_def)
  then show ?thesis using p(2) by (simp add: fun_upd_idem)
qed

lemma pool_pointers:
  assumes "world_ok w L" and "pools w a = Some p"
  shows "finite (L a)" and "unat (mp_free_count p) + card (L a) = unat (mp_total p)" and "b \<in> L a \<Longrightarrow> 4 \<le> b \<and> b - 4 \<in> mp_blocks p"
proof -
  obtain fl lv where p: "pool_ok (head_word w) a p fl lv" "L a = (\<lambda>b. b + 4) ` set lv" using assms by (rule world_okE)
  show "finite (L a)" by (simp add: p(2))
  have "card (L a) = length lv" using p(1) by (simp add: p(2) card_image pool_ok_def distinct_card)
  then show "unat (mp_free_count p) + card (L a) = unat (mp_total p)" using pool_ok_count [OF p(1)] by simp
  show "b \<in> L a \<Longrightarrow> 4 \<le> b \<and> b - 4 \<in> mp_blocks p" using p by (auto simp: pool_ok_def)
qed

text \<open>An allocation: a free block changes hands, or there is none.\<close>

lemma mp_alloc_ok:
  assumes ok: "world_ok w L" and p: "pools w a = Some p"
  obtains (block) b p' w' where "mp_alloc_loop a time t w = Some (w', Mp_return (Some (b + 4)))" "b \<in> mp_blocks p" "b + 4 \<notin> L a"
      "mp_free_count p \<noteq> 0" "pools w' = (pools w)(a := Some p')" "mp_free_count p' = mp_free_count p - 1" "mp_waiting p' = mp_waiting p"
      "same_shape p' p" "world_ok w' (L(a := insert (b + 4) (L a)))"
    | (none) "mp_free_count p = 0" "time = 0" "mp_alloc_loop a time t w = Some (w, Mp_return None)"
    | (wait) r xs where "mp_free_count p = 0" "time \<noteq> 0" "mp_alloc_loop a time t w =
        Some (w\<lparr>pools := (pools w)(a := Some (p\<lparr>mp_waiting := xs\<rparr>))\<rparr>, Mp_suspended r)"
        "world_ok (w\<lparr>pools := (pools w)(a := Some (p\<lparr>mp_waiting := xs\<rparr>))\<rparr>) L"
proof (cases "mp_free_count p = 0")
  case True
  then show ?thesis
    using none wait [OF True _ _ world_ok_same [OF ok p]] by (cases "time = 0") (simp_all add: mp_alloc_loop_def p)
next
  case False
  obtain fl lv where l: "pool_ok (head_word w) a p fl lv" "L a = (\<lambda>b. b + 4) ` set lv" using ok p by (rule world_okE)
  define p' where "p' b = p\<lparr>mp_free_count := mp_free_count p - 1, mp_list := head_word w b\<rparr>" for b
  obtain b fl' where b: "mp_list p = Some b" "fl = b # fl'" "pool_ok ((head_word w)(b := Some a)) a (p' b) fl' (b # lv)"
    using pool_ok_take [OF l(1) False] unfolding p'_def by blast
  have in_p: "b \<in> mp_blocks p" "b \<notin> set lv" using l(1) b(2) by (auto simp: pool_ok_def)
  define w' where "w' = w\<lparr>pools := (pools w)(a := Some (p' b)), head_word := (head_word w)(b := Some a)\<rparr>"
  have "world_ok w' (L(a := (\<lambda>b. b + 4) ` set (b # lv)))"
    unfolding w'_def by (rule world_ok_upd [OF ok p _ b(3)]) (use in_p in \<open>auto simp: p'_def same_shape_def\<close>)
  then have "world_ok w' (L(a := insert (b + 4) (L a)))" by (simp add: l(2))
  moreover have "b + 4 \<notin> L a" using in_p(2) by (auto simp: l(2))
  moreover have "mp_alloc_loop a time t w = Some (w', Mp_return (Some (b + 4)))"
    using False b(1) by (simp add: mp_alloc_loop_def p w'_def p'_def)
  ultimately show ?thesis
    using block [of w' b "p' b"] False in_p(1) by (simp add: w'_def p'_def same_shape_def)
qed

lemma mp_free_ok:
  assumes ok: "world_ok w L" and b: "b \<in> L a"
  obtains p w' p' where "pools w a = Some p" "rt_mp_free (Some b) w = Some (w', map_option (\<lambda>t. t\<lparr>thread_error := RT_EOK\<rparr>)
        (case mp_waiting p of [] \<Rightarrow> None | t # _ \<Rightarrow> Some t))" "pools w' = (pools w)(a := Some p')" "same_shape p' p"
      "mp_free_count p' = mp_free_count p + 1" "mp_waiting p' = tl (mp_waiting p)" "world_ok w' (L(a := L a - {b}))"
proof -
  obtain p where p: "pools w a = Some p" using ok b unfolding world_ok_def by fastforce
  obtain fl lv where l: "pool_ok (head_word w) a p fl lv" "L a = (\<lambda>b. b + 4) ` set lv" using ok p by (rule world_okE)
  obtain x where x: "b = x + 4" "x \<in> set lv" using b l(2) by auto
  have hx: "head_word w x = Some a" "x \<in> mp_blocks p" using l(1) x(2) by (auto simp: pool_ok_def)
  define p' where "p' = p\<lparr>mp_free_count := mp_free_count p + 1, mp_list := Some x, mp_waiting := tl (mp_waiting p)\<rparr>"
  define w' where "w' = w\<lparr>pools := (pools w)(a := Some p'), head_word := (head_word w)(x := mp_list p)\<rparr>"
  have "world_ok w' (L(a := (\<lambda>b. b + 4) ` set (remove1 x lv)))"
    unfolding w'_def by (rule world_ok_upd [OF ok p _ pool_ok_give [OF l(1) x(2), of "tl (mp_waiting p)", folded p'_def]])
      (use hx(2) in \<open>auto simp: p'_def same_shape_def\<close>)
  moreover have "(\<lambda>b. b + 4) ` set (remove1 x lv) = L a - {b}"
    using l by (auto simp: x(1) pool_ok_def set_remove1_eq)
  ultimately have "world_ok w' (L(a := L a - {b}))" by simp
  then show ?thesis
    using that [OF p _ _ _ _ _, of w' p'] p hx(1)
    by (simp add: rt_mp_free_def x(1) wake_first_eq w'_def p'_def same_shape_def)
qed

definition pool_waits :: "mp_world \<Rightarrow> (nat \<Rightarrow> rt_thread list) \<Rightarrow> bool" where
  "pool_waits w R \<longleftrightarrow> (\<forall>a. \<forall>t \<in> set (R a). thread_error t = RT_EOK) \<and>
     (\<forall>a p. pools w a = Some p \<longrightarrow> mp_waiting p \<noteq> [] \<longrightarrow> unat (mp_free_count p) \<le> length (R a))"

lemma pool_waits_upd:
  assumes "pool_waits w R" and "pools w' = (pools w)(a := Some p)" and "mp_waiting p \<noteq> [] \<Longrightarrow> unat (mp_free_count p) \<le> length xs"
    and "\<forall>t \<in> set xs. thread_error t = RT_EOK"
  shows "pool_waits w' (R(a := xs))"
  using assms by (auto simp: pool_waits_def split: if_splits)

lemma world_ok_new:
  assumes "world_ok w L" and "pools w a = None" and "mp_fits p" and "mp_total p \<noteq> 0" and "mp_block_size p + 4 \<noteq> 0"
    and "4 dvd unat (mp_block_size p)" and "mp_list p = Some (unat (mp_start p))" and "mp_free_count p = mp_total p"
    and "\<And>b q. pools w b = Some q \<Longrightarrow> mp_area p \<inter> mp_area q = {}"
  shows "world_ok (w\<lparr>pools := (pools w)(a := Some p),
    head_word := mp_link (mp_start p) (mp_block_size p) (mp_total p) (head_word w)\<rparr>) L"
proof -
  have "0 < unat (mp_total p)" using assms(4) unat_gt_0 by blast
  then obtain fl where fl: "pool_ok (mp_link (mp_start p) (mp_block_size p) (mp_total p) (head_word w)) a p fl []"
      "\<And>b. b \<notin> mp_blocks p \<Longrightarrow> mp_link (mp_start p) (mp_block_size p) (mp_total p) (head_word w) b = head_word w b"
    using pool_ok_fresh [OF assms(5,6) _ _ refl refl assms(7) refl assms(8)] assms(3) unfolding mp_fits_def mp_stride_def by blast
  have "L a = {}" using assms(1,2) by (simp add: world_ok_def)
  then show ?thesis using world_ok_put [OF assms(1) fl(1) assms(3) fl(2) assms(9)] by (simp add: fun_upd_idem)
qed

lemma mp_alloc_run:
  assumes ok: "world_ok w L" and w: "pool_waits w R" and a: "mp_alloc_loop a time t w = Some (w', r)"
    and xs: "xs = R a \<or> (\<exists>u \<in> set (R a). xs = remove1 u (R a))"
  shows "world_ok w' (case r of Mp_return (Some b) \<Rightarrow> L(a := insert b (L a)) | _ \<Rightarrow> L) \<and> pool_waits w' (R(a := xs))"
proof -
  obtain p where p: "pools w a = Some p" using a by (cases "pools w a") (simp_all add: mp_alloc_loop_def)
  have e: "\<forall>t \<in> set xs. thread_error t = RT_EOK" using w xs set_remove1_subset unfolding pool_waits_def by fast
  have len: "length (R a) - 1 \<le> length xs" using xs by (auto simp: length_remove1)
  show ?thesis
  proof (rule mp_alloc_ok [OF ok p, of time t])
    fix b p' w1
    assume h: "mp_alloc_loop a time t w = Some (w1, Mp_return (Some (b + 4)))" "mp_free_count p \<noteq> 0" "pools w1 = (pools w)(a := Some p')"
      "mp_free_count p' = mp_free_count p - 1" "mp_waiting p' = mp_waiting p" "world_ok w1 (L(a := insert (b + 4) (L a)))"
    have "unat (mp_free_count p') \<le> length xs" if "mp_waiting p' \<noteq> []"
    proof -
      have "unat (mp_free_count p) \<le> length (R a)" using w p that h(5) by (simp add: pool_waits_def)
      then show ?thesis using unat_minus_one [OF h(2)] h(4) len by simp
    qed
    then have "pool_waits w1 (R(a := xs))" using pool_waits_upd [OF w h(3) _ e] by blast
    then show ?thesis using a h(1,6) by auto
  next
    assume h: "mp_free_count p = 0" "mp_alloc_loop a time t w = Some (w, Mp_return None)"
    have "pool_waits w (R(a := xs))" by (rule pool_waits_upd [where w' = w and p = p, OF w _ _ e]) (use p h(1) in \<open>auto simp: fun_upd_idem\<close>)
    then show ?thesis using a h(2) ok by auto
  next
    fix r' ys
    assume h: "mp_free_count p = 0" "mp_alloc_loop a time t w =
        Some (w\<lparr>pools := (pools w)(a := Some (p\<lparr>mp_waiting := ys\<rparr>))\<rparr>, Mp_suspended r')"
      "world_ok (w\<lparr>pools := (pools w)(a := Some (p\<lparr>mp_waiting := ys\<rparr>))\<rparr>) L"
    have "pool_waits (w\<lparr>pools := (pools w)(a := Some (p\<lparr>mp_waiting := ys\<rparr>))\<rparr>) (R(a := xs))"
      by (rule pool_waits_upd [where p = "p\<lparr>mp_waiting := ys\<rparr>", OF w _ _ e]) (use h(1) in auto)
    then show ?thesis using a h(2,3) by auto
  qed
qed

lemma mp_free_run:
  assumes ok: "world_ok w L" and w: "pool_waits w R" and b: "b \<in> L a" and f: "rt_mp_free (Some b) w = Some (w', t)"
  shows "world_ok w' (L(a := L a - {b})) \<and> pool_waits w' (R(a := R a @ (case t of None \<Rightarrow> [] | Some t \<Rightarrow> [t])))"
proof (rule mp_free_ok [OF ok b])
  fix p w1 p'
  assume h: "pools w a = Some p" "rt_mp_free (Some b) w = Some (w1, map_option (\<lambda>t. t\<lparr>thread_error := RT_EOK\<rparr>)
        (case mp_waiting p of [] \<Rightarrow> None | t # _ \<Rightarrow> Some t))" "pools w1 = (pools w)(a := Some p')"
    "mp_free_count p' = mp_free_count p + 1" "mp_waiting p' = tl (mp_waiting p)" "world_ok w1 (L(a := L a - {b}))"
  let ?ts = "case t of None \<Rightarrow> [] | Some t \<Rightarrow> [t]"
  have t: "w1 = w'" "t = map_option (\<lambda>t. t\<lparr>thread_error := RT_EOK\<rparr>) (case mp_waiting p of [] \<Rightarrow> None | t # _ \<Rightarrow> Some t)"
    using f h(2) by simp_all
  have "unat (mp_free_count p + 1) \<le> unat (mp_free_count p) + 1" by (simp add: unat_word_ariths)
  moreover have "unat (mp_free_count p) \<le> length (R a)" if "mp_waiting p \<noteq> []"
    using that w h(1) by (simp add: pool_waits_def)
  ultimately have "unat (mp_free_count p') \<le> length (R a @ ?ts)" if "mp_waiting p' \<noteq> []"
    using that by (cases "mp_waiting p") (auto simp: h(4,5) t(2))
  moreover have "\<forall>t \<in> set (R a @ ?ts). thread_error t = RT_EOK"
    using w by (auto simp: pool_waits_def t(2) split: option.splits list.splits)
  ultimately have "pool_waits w1 (R(a := R a @ ?ts))" using pool_waits_upd [OF w h(3)] by blast
  then show ?thesis using h(6) by (simp add: t(1))
qed

lemma world_ok_drop: "world_ok w L \<Longrightarrow> world_ok (w\<lparr>pools := (pools w)(a := None)\<rparr>) (L(a := {}))"
  unfolding world_ok_def by (intro conjI allI impI) (simp_all split: if_splits)

lemma mp_run_inv: "mp_run w L R \<Longrightarrow> world_ok w L \<and> pool_waits w R"
proof (induction rule: mp_run.induct)
  case (start w)
  then show ?case by (simp add: world_ok_def pool_waits_def)
next
  case (init w L R a start sz bs w' p)
  let ?bs = "RT_ALIGN bs" and ?n = "(sz AND NOT (4 - 1)) div (RT_ALIGN bs + 4)"
  have i: "?bs + 4 \<noteq> 0" "p = \<lparr>mp_start = start, mp_size = sz AND NOT (4 - 1), mp_block_size = ?bs, mp_list = Some (unat start),
      mp_total = ?n, mp_free_count = ?n, mp_waiting = []\<rparr>"
    "w' = w\<lparr>pools := (pools w)(a := Some p), head_word := mp_link start ?bs ?n (head_word w)\<rparr>"
    using init.hyps(2,4) by (auto simp: rt_mp_init_def Let_def split: if_splits)
  have "world_ok (w\<lparr>pools := (pools w)(a := Some p), head_word := mp_link (mp_start p) (mp_block_size p) (mp_total p) (head_word w)\<rparr>) L"
    by (rule world_ok_new [OF _ init.hyps(3,6,5) _ _ _ _ init.hyps(7)]) (use init.IH i(1) RT_ALIGN_dvd in \<open>simp_all add: i(2)\<close>)
  moreover have "pool_waits w' (R(a := R a))"
    by (rule pool_waits_upd [where w = w and p = p]) (use init.IH in \<open>auto simp: i(3) pool_waits_def\<close>, simp add: i(2))
  ultimately show ?case by (simp add: i(2,3))
next
  case (alloc w L R a time t w' r)
  then show ?case using mp_alloc_run [of w L R a time t w' r "R a"] by (simp add: rt_mp_alloc_def)
next
  case (resume w L R t a time d w' r)
  have "thread_error t = RT_EOK" using resume by (auto simp: pool_waits_def)
  then have "mp_alloc_loop a (remaining time d) t w = Some (w', r)" using resume.hyps(3) by (simp add: mp_alloc_resume_def)
  then show ?case using mp_alloc_run [of w L R a "remaining time d" t w' r "remove1 t (R a)"] resume by blast
next
  case (free w L R b a w' t)
  then show ?case using mp_free_run by blast
next
  case (timeout w L R a p t w' t')
  have w': "w' = w\<lparr>pools := (pools w)(a := Some (p\<lparr>mp_waiting := remove1 t (mp_waiting p)\<rparr>))\<rparr>"
    using timeout.hyps(2,4) by (simp add: mp_timeout_def)
  have "mp_waiting p \<noteq> []" using timeout.hyps(3) by auto
  then have "unat (mp_free_count p) \<le> length (R a)" using timeout.IH timeout.hyps(2) by (simp add: pool_waits_def)
  then have "pool_waits w' (R(a := R a))"
    by (intro pool_waits_upd [where w = w and p = "p\<lparr>mp_waiting := remove1 t (mp_waiting p)\<rparr>"])
      (use timeout.IH timeout.hyps(2,3) in \<open>auto simp: w' pool_waits_def\<close>)
  then show ?case using world_ok_same timeout.IH timeout.hyps(2) by (simp add: w')
next
  case (detach w L R a w' ts e)
  then have w': "w' = w\<lparr>pools := (pools w)(a := None)\<rparr>" by (auto simp: rt_mp_detach_def)
  show ?case using world_ok_drop [of w L a] detach.IH by (simp add: w' pool_waits_def fun_upd_def)
next
  case (create w L R obj n bs h w' h' a p)
  let ?bs = "RT_ALIGN bs"
  obtain q where i: "n \<noteq> 0" "p = \<lparr>mp_start = of_nat q, mp_size = (?bs + 4) * n, mp_block_size = ?bs, mp_list = Some (unat (of_nat q :: u32)),
      mp_total = n, mp_free_count = n, mp_waiting = []\<rparr>"
    "w' = w\<lparr>pools := (pools w)(a := Some p), head_word := mp_link (of_nat q) ?bs n (head_word w)\<rparr>"
    using create.hyps(2,4) by (auto simp: rt_mp_create_def Let_def split: if_splits option.splits)
  have "world_ok (w\<lparr>pools := (pools w)(a := Some p), head_word := mp_link (mp_start p) (mp_block_size p) (mp_total p) (head_word w)\<rparr>) L"
    by (rule world_ok_new [OF _ create.hyps(3,6) _ create.hyps(5) _ _ _ create.hyps(7)]) (use create.IH i(1) RT_ALIGN_dvd in \<open>simp_all add: i(2)\<close>)
  moreover have "pool_waits w' (R(a := R a))"
    by (rule pool_waits_upd [where w = w and p = p]) (use create.IH in \<open>auto simp: i(3) pool_waits_def\<close>, simp add: i(2))
  ultimately show ?case by (simp add: i(2,3))
qed

section \<open>Properties\<close>

lemma mp_block_bounds:
  assumes "x \<in> mp_blocks p" and "y \<in> mp_blocks p" and "x \<noteq> y"
  shows "x + mp_stride p \<le> y \<or> y + mp_stride p \<le> x"
proof -
  obtain i j where ij: "x = unat (mp_start p) + i * mp_stride p" "y = unat (mp_start p) + j * mp_stride p"
    using assms(1,2) by (auto simp: mp_blocks_def)
  have "Suc k * mp_stride p \<le> l * mp_stride p" if "k < l" for k l
    using that by (intro mult_le_mono1) simp
  then show ?thesis using ij assms(3) nat_neq_iff [of i j] by fastforce
qed

lemma mp_block_inside: "x \<in> mp_blocks p \<Longrightarrow> unat (mp_start p) \<le> x \<and> x + mp_stride p \<le> unat (mp_start p) + unat (mp_total p) * mp_stride p"
proof -
  assume "x \<in> mp_blocks p"
  then obtain i where i: "i < unat (mp_total p)" "x = unat (mp_start p) + i * mp_stride p" by (auto simp: mp_blocks_def)
  have "Suc i * mp_stride p \<le> unat (mp_total p) * mp_stride p" using i(1) by (intro mult_le_mono1) simp
  then show ?thesis using i(2) by simp
qed

lemma mp_alloc_fresh:
  assumes ok: "world_ok w L" and p: "pools w a = Some p" and x: "x \<in> mp_blocks p" "x + 4 \<notin> L a"
    and q: "pools w c = Some q" "b \<in> L c"
  shows "x + 4 + unat (mp_block_size p) \<le> b - 4 \<or> b + unat (mp_block_size q) \<le> x"
proof -
  have b: "4 \<le> b" "b - 4 \<in> mp_blocks q" using pool_pointers(3) [OF ok q] by simp_all
  show ?thesis
  proof (cases "c = a")
    case True
    then have "q = p" using p q(1) by simp
    then show ?thesis using mp_block_bounds [OF x(1), of "b - 4"] b x(2) q(2) True by (fastforce simp: mp_stride_def)
  next
    case False
    have "x \<in> mp_area p" "b - 4 \<in> mp_area q" using x(1) b(2) mp_blocks_area by blast+
    moreover have "mp_area p \<inter> mp_area q = {}" using ok p q(1) False unfolding world_ok_def by metis
    ultimately show ?thesis
      using mp_block_inside [OF x(1)] mp_block_inside [OF b(2)] b(1) by (force simp: mp_area_def mp_stride_def)
  qed
qed

text \<open>
  Claim C13: memory pools. Whatever threads allocate, wait, time out, release and set up in any
  order, on any number of pools, in every pool the free count and the blocks handed out add up to
  the total; a thread waits beside a free block only if at least as many woken threads are still
  to run; an allocation fails no assertion, and either gives a block of the pool, of the size
  asked for, that overlaps no block handed out by this or another pool, or all blocks are handed
  out; and every block handed out can be released.
\<close>

theorem pool_blocks_conserved:
  assumes "mp_run w L R" and "pools w a = Some p"
  shows "unat (mp_free_count p) + card (L a) = unat (mp_total p) \<and>
    (mp_waiting p \<noteq> [] \<longrightarrow> unat (mp_free_count p) \<le> length (R a)) \<and>
    (\<exists>w' r. rt_mp_alloc a time t w = Some (w', r) \<and>
       (\<forall>b. r = Mp_return (Some b) \<longrightarrow>
          unat (mp_start p) + 4 \<le> b \<and> b + unat (mp_block_size p) \<le> unat (mp_start p) + unat (mp_total p) * (unat (mp_block_size p) + 4) \<and>
          (\<forall>c q x. pools w c = Some q \<longrightarrow> x \<in> L c \<longrightarrow>
             b + unat (mp_block_size p) \<le> x - 4 \<or> x + unat (mp_block_size q) \<le> b - 4)) \<and>
       ((\<forall>b. r \<noteq> Mp_return (Some b)) \<longrightarrow> card (L a) = unat (mp_total p))) \<and>
    (\<forall>b \<in> L a. \<exists>w' u. rt_mp_free (Some b) w = Some (w', u))"
proof -
  have ok: "world_ok w L" and w: "pool_waits w R" using mp_run_inv [OF assms(1)] by simp_all
  have "\<exists>w' r. rt_mp_alloc a time t w = Some (w', r) \<and>
       (\<forall>b. r = Mp_return (Some b) \<longrightarrow>
          unat (mp_start p) + 4 \<le> b \<and> b + unat (mp_block_size p) \<le> unat (mp_start p) + unat (mp_total p) * (unat (mp_block_size p) + 4) \<and>
          (\<forall>c q x. pools w c = Some q \<longrightarrow> x \<in> L c \<longrightarrow>
             b + unat (mp_block_size p) \<le> x - 4 \<or> x + unat (mp_block_size q) \<le> b - 4)) \<and>
       ((\<forall>b. r \<noteq> Mp_return (Some b)) \<longrightarrow> card (L a) = unat (mp_total p))"
  proof (rule mp_alloc_ok [OF ok assms(2), of time t], goal_cases)
    case (1 x p' w')
    then show ?case
      using mp_alloc_fresh [OF ok assms(2) 1(2,3)] mp_block_inside [OF 1(2)] by (fastforce simp: rt_mp_alloc_def mp_stride_def)
  qed (use pool_pointers(2) [OF ok assms(2)] in \<open>auto simp: rt_mp_alloc_def\<close>)
  moreover have "\<exists>w' u. rt_mp_free (Some b) w = Some (w', u)" if "b \<in> L a" for b by (rule mp_free_ok [OF ok that]) blast
  ultimately show ?thesis using pool_pointers(2) [OF ok assms(2)] w assms(2) by (simp add: pool_waits_def)
qed

section \<open>The promise to a client\<close>

text \<open>One pool of the world as an allocator, seen by a client that does not wait.\<close>

definition pool_run :: "nat \<Rightarrow> mp_world \<Rightarrow> nat set \<Rightarrow> bool" where
  "pool_run a w S \<longleftrightarrow> (\<exists>L R. mp_run w L R \<and> pools w a \<noteq> None \<and> L a = S)"

definition pool_get :: "nat \<Rightarrow> rt_thread \<Rightarrow> mp_world \<Rightarrow> (mp_world \<times> nat option) option" where
  "pool_get a t w = map_option (\<lambda>(w', r). (w', case r of Mp_return q \<Rightarrow> q | Mp_suspended _ \<Rightarrow> None)) (rt_mp_alloc a 0 t w)"

definition pool_put :: "nat \<Rightarrow> mp_world \<Rightarrow> mp_world option" where
  "pool_put b w = map_option fst (rt_mp_free (Some b) w)"

definition pool_frame :: "nat \<Rightarrow> mp_world \<Rightarrow> (u32 \<times> u32 \<times> u32) option" where
  "pool_frame a w = map_option (\<lambda>p. (mp_start p, mp_total p, mp_block_size p)) (pools w a)"

interpretation pool: block_allocator "pool_run a" pool_put "pool_frame a" "pool_get a" for a
proof
  fix w S b assume r: "pool_run a w S" "b \<in> S"
  obtain L R where m: "mp_run w L R" "L a = S" using r(1) by (auto simp: pool_run_def)
  have ok: "world_ok w L" using mp_run_inv [OF m(1)] by simp
  show "\<exists>w'. pool_put b w = Some w' \<and> pool_run a w' (S - {b}) \<and> pool_frame a w' = pool_frame a w"
  proof (rule mp_free_ok [OF ok, of b a], goal_cases)
    case 1
    then show ?case using r(2) m(2) by simp
  next
    case (2 p w' p')
    then show ?case using mp_run.free [OF m(1) _ 2(2), of a] r(2) m(2)
      by (auto simp: pool_put_def pool_run_def pool_frame_def same_shape_def fun_upd_def)
  qed
next
  fix w S t assume r: "pool_run a w S"
  obtain L R p where m: "mp_run w L R" "L a = S" "pools w a = Some p" using r by (auto simp: pool_run_def)
  have ok: "world_ok w L" using mp_run_inv [OF m(1)] by simp
  show "\<exists>w' q. pool_get a t w = Some (w', q) \<and> pool_run a w' (S \<union> set_option q) \<and> set_option q \<inter> S = {} \<and>
      pool_frame a w' = pool_frame a w"
  proof (rule mp_alloc_ok [OF ok m(3), of 0 t], goal_cases)
    case (1 x p' w')
    then show ?case using mp_run.alloc [OF m(1), of a 0 t w' "Mp_return (Some (x + 4))"] m(2,3)
      by (auto simp: pool_get_def pool_run_def pool_frame_def rt_mp_alloc_def same_shape_def)
  next
    case 2
    then show ?case using r by (simp add: pool_get_def rt_mp_alloc_def)
  qed simp
qed

text \<open>When the blocks handed out are released, in any order, all blocks are free again.\<close>

lemma pool_recovers:
  assumes "pool_run a w S" and "distinct bs" and "set bs = S"
  shows "\<exists>w' p. release_all pool_put bs w = Some w' \<and> pools w' a = Some p \<and> mp_free_count p = mp_total p"
proof -
  obtain w' where w': "release_all pool_put bs w = Some w'" "pool_run a w' {}"
    using pool.release_all_live [OF assms(1,2)] assms(3) by auto
  then obtain L R p where "mp_run w' L R" "L a = {}" "pools w' a = Some p" by (auto simp: pool_run_def)
  then show ?thesis using w'(1) pool_pointers(2) [of w' L a p] mp_run_inv [of w' L R] by (auto simp: word_unat_eq_iff)
qed

section \<open>Where the code does not keep its promise\<close>

text \<open>An area without room for one block: the terminating NULL goes in front of the area.\<close>

lemma small_pool_writes_outside:
  "\<exists>w'. rt_mp_init a 0x20000010 8 16 w = Some w' \<and> head_word w' 0x1FFFFFFC = None \<and>
    (\<forall>x. x \<noteq> 0x1FFFFFFC \<longrightarrow> head_word w' x = head_word w x)"
  by (simp add: rt_mp_init_def RT_ALIGN_def mp_link_def block_at_def Let_def)

text \<open>The size of the area of a created pool wraps: here 16 bytes for more than 2 to the 28 blocks.\<close>

lemma created_pool_too_small:
  assumes "rt_malloc 16 h = Some (h', Some q)"
  shows "\<exists>w' p. rt_mp_create (Some a) 0x10000001 12 w h = Some (w', h', Some a) \<and> pools w' a = Some p \<and>
    mp_size p = 16 \<and> mp_total p = 0x10000001 \<and> mp_free_count p = 0x10000001"
proof -
  have e: "(RT_ALIGN 12 + 4) * 0x10000001 = 16" by (simp add: RT_ALIGN_def)
  show ?thesis unfolding rt_mp_create_def Let_def option.case e using assms by simp
qed

text \<open>Waiting threads are put at the front of the list: the last to wait is the first to be woken.\<close>

lemma pool_wakes_last:
  assumes "pools w a = Some p" and "mp_waiting p = t # ts" and "head_word w b = Some a"
  shows "\<exists>w'. rt_mp_free (Some (b + 4)) w = Some (w', Some (t\<lparr>thread_error := RT_EOK\<rparr>))"
    and "mp_free_count p = 0 \<Longrightarrow> time \<noteq> 0 \<Longrightarrow> \<exists>w' r p'. rt_mp_alloc a time u w = Some (w', r) \<and> pools w' a = Some p' \<and>
      mp_waiting p' = u\<lparr>thread_error := RT_EOK\<rparr> # t # ts"
  using assms by (simp_all add: rt_mp_free_def rt_mp_alloc_def mp_alloc_loop_def wake_first_eq)

section \<open>An instance\<close>

definition demo_pool :: rt_mempool where
  "demo_pool = \<lparr>mp_start = 0x20000000, mp_size = 64, mp_block_size = 12, mp_list = Some 0x20000000, mp_total = 4,
     mp_free_count = 4, mp_waiting = []\<rparr>"

definition demo_world :: mp_world where
  "demo_world = \<lparr>pools = (\<lambda>_. None)(7 := Some demo_pool), head_word = mp_link 0x20000000 12 4 (\<lambda>_. None)\<rparr>"

lemma demo_world_run: "mp_run demo_world (\<lambda>_. {}) (\<lambda>_. [])"
proof (rule mp_run.init [OF mp_run.start, where w = "\<lparr>pools = \<lambda>_. None, head_word = \<lambda>_. None\<rparr>" and a = 7 and p = demo_pool])
  show "rt_mp_init 7 0x20000000 64 10 \<lparr>pools = \<lambda>_. None, head_word = \<lambda>_. None\<rparr> = Some demo_world"
    by (simp add: rt_mp_init_def RT_ALIGN_def demo_world_def demo_pool_def Let_def)
qed (simp_all add: demo_world_def demo_pool_def mp_fits_def mp_stride_def)

theorem pool_blocks_conserved_witness:
  "\<exists>w' r. rt_mp_alloc 7 0 (sample_thread 1 9) demo_world = Some (w', r) \<and>
    (\<forall>b. r = Mp_return (Some b) \<longrightarrow> 0x20000004 \<le> b \<and> b + 12 \<le> 0x20000040) \<and> (\<exists>b. r = Mp_return (Some b))"
proof -
  have "pools demo_world 7 = Some demo_pool" by (simp add: demo_world_def)
  from pool_blocks_conserved [OF demo_world_run this, of 0 "sample_thread 1 9"]
  show ?thesis by (auto simp: demo_pool_def)
qed

end
