(* ===== verification/Rt_List.thy ===== *)
theory Rt_List
  imports Fw_Prelude
begin

text \<open>
  The linked lists of the kernel (\<open>rt-thread/include/rtservice.h\<close>). A node is an address; the
  pointers of all nodes are two maps. A doubly linked list is a ring through its head, a singly
  linked list ends at the null pointer. The assignments are made in the order of the code, since
  the nodes named may coincide. The theory shows that on a well-formed ring the operations are
  those on the list of its nodes (\<open>ring\<close>), which is how the other theories see a kernel list, and
  that they leave every ring over other nodes alone.
\<close>

section \<open>Doubly linked lists\<close>

record links =
  nxt :: "nat \<Rightarrow> nat"
  prv :: "nat \<Rightarrow> nat"

definition set_nxt :: "nat \<Rightarrow> nat \<Rightarrow> links \<Rightarrow> links" where
  "set_nxt a b k = k\<lparr>nxt := (nxt k)(a := b)\<rparr>"

definition set_prv :: "nat \<Rightarrow> nat \<Rightarrow> links \<Rightarrow> links" where
  "set_prv a b k = k\<lparr>prv := (prv k)(a := b)\<rparr>"

lemma set_links [simp]:
  "nxt (set_nxt a b k) = (nxt k)(a := b)" "prv (set_nxt a b k) = prv k"
  "nxt (set_prv a b k) = nxt k" "prv (set_prv a b k) = (prv k)(a := b)"
  by (simp_all add: set_nxt_def set_prv_def)

definition rt_list_init :: "nat \<Rightarrow> links \<Rightarrow> links" where
  "rt_list_init l k = set_nxt l l (set_prv l l k)"

definition rt_list_insert_after :: "nat \<Rightarrow> nat \<Rightarrow> links \<Rightarrow> links" where
  "rt_list_insert_after l n k =
     (let k1 = set_prv (nxt k l) n k; k2 = set_nxt n (nxt k1 l) k1; k3 = set_nxt l n k2 in set_prv n l k3)"

definition rt_list_insert_before :: "nat \<Rightarrow> nat \<Rightarrow> links \<Rightarrow> links" where
  "rt_list_insert_before l n k =
     (let k1 = set_nxt (prv k l) n k; k2 = set_prv n (prv k1 l) k1; k3 = set_prv l n k2 in set_nxt n l k3)"

definition rt_list_remove :: "nat \<Rightarrow> links \<Rightarrow> links" where
  "rt_list_remove n k =
     (let k1 = set_prv (nxt k n) (prv k n) k; k2 = set_nxt (prv k1 n) (nxt k1 n) k1 in set_nxt n n (set_prv n n k2))"

definition rt_list_isempty :: "nat \<Rightarrow> links \<Rightarrow> bool" where
  "rt_list_isempty l k \<longleftrightarrow> nxt k l = l"

partial_function (option) list_len_loop :: "links \<Rightarrow> nat \<Rightarrow> nat \<Rightarrow> u32 \<Rightarrow> u32 option" where
  "list_len_loop k l p n = (if nxt k p \<noteq> l then list_len_loop k l (nxt k p) (n + 1) else Some n)"

definition rt_list_len :: "nat \<Rightarrow> links \<Rightarrow> u32 option" where
  "rt_list_len l k = list_len_loop k l l 0"

text \<open>\<open>rt_list_for_each\<close> with a search in its body: the first node that fits, from \<open>pos\<close> on.\<close>

partial_function (option) list_search :: "(nat \<Rightarrow> bool) \<Rightarrow> links \<Rightarrow> nat \<Rightarrow> nat \<Rightarrow> nat option option" where
  "list_search fits k head pos =
     (if pos = head then Some None
      else if fits pos then Some (Some pos)
      else list_search fits k head (nxt k pos))"

section \<open>Rings\<close>

fun linked_path :: "links \<Rightarrow> nat list \<Rightarrow> bool" where
  "linked_path k (x # y # zs) \<longleftrightarrow> nxt k x = y \<and> prv k y = x \<and> linked_path k (y # zs)"
| "linked_path k _ \<longleftrightarrow> True"

definition ring :: "links \<Rightarrow> nat \<Rightarrow> nat list \<Rightarrow> bool" where
  "ring k h xs \<longleftrightarrow> distinct (h # xs) \<and> linked_path k (h # xs @ [h])"

lemma linked_path_append:
  "linked_path k (xs @ y # zs) \<longleftrightarrow> linked_path k (xs @ [y]) \<and> linked_path k (y # zs)"
proof (induction xs)
  case (Cons x xs)
  then show ?case by (cases xs) simp_all
qed simp

lemma linked_path_cong:
  "(\<And>x. x \<in> set (butlast xs) \<Longrightarrow> nxt k' x = nxt k x) \<Longrightarrow> (\<And>x. x \<in> set (tl xs) \<Longrightarrow> prv k' x = prv k x) \<Longrightarrow>
    linked_path k' xs = linked_path k xs"
  by (induction k xs rule: linked_path.induct) auto

lemma ring_cong:
  "(\<And>x. x \<in> set (h # xs) \<Longrightarrow> nxt k' x = nxt k x \<and> prv k' x = prv k x) \<Longrightarrow> ring k' h xs = ring k h xs"
  unfolding ring_def by (subst linked_path_cong [of _ k' k]) (auto dest: in_set_butlastD)

lemma ring_next: "ring k h xs \<Longrightarrow> nxt k h = hd (xs @ [h])"
  by (cases xs) (simp_all add: ring_def)

lemma ring_prev: "ring k h xs \<Longrightarrow> prv k h = last (h # xs)"
proof -
  assume r: "ring k h xs"
  obtain us p where u: "h # xs = us @ [p]" by (cases "h # xs" rule: rev_cases) auto
  then have "linked_path k (us @ p # [h])" using r unfolding ring_def by (metis append.assoc append_Cons append_Nil)
  then show ?thesis using linked_path_append [of k us p "[h]"] u by (metis last_snoc linked_path.simps(1))
qed

lemma ring_mid:
  assumes "ring k h (xs @ ys)"
  shows "nxt k (last (h # xs)) = hd (ys @ [h])" and "prv k (hd (ys @ [h])) = last (h # xs)"
proof -
  obtain us p where u: "h # xs = us @ [p]" by (cases "h # xs" rule: rev_cases) auto
  obtain q vs where v: "ys @ [h] = q # vs" by (cases "ys @ [h]") auto
  have "linked_path k (us @ p # q # vs)" using assms u v unfolding ring_def by (metis append.assoc append_Cons append_Nil)
  then have "linked_path k (p # q # vs)" using linked_path_append [of k us p "q # vs"] by blast
  then show "nxt k (last (h # xs)) = hd (ys @ [h])" "prv k (hd (ys @ [h])) = last (h # xs)" using u v by simp_all
qed

lemma ring_init: "ring (rt_list_init l k) l []"
  by (simp add: ring_def rt_list_init_def)

lemma ring_insert:
  assumes r: "ring k h (xs @ ys)" and n: "n \<notin> set (h # xs @ ys)"
    and k': "\<And>x. nxt k' x = (if x = n then hd (ys @ [h]) else if x = last (h # xs) then n else nxt k x)"
      "\<And>x. prv k' x = (if x = n then last (h # xs) else if x = hd (ys @ [h]) then n else prv k x)"
  shows "ring k' h (xs @ n # ys)"
proof -
  obtain us p where u: "h # xs = us @ [p]" by (cases "h # xs" rule: rev_cases) auto
  obtain q vs where v: "ys @ [h] = q # vs" by (cases "ys @ [h]") auto
  have e: "h # (xs @ ys) @ [h] = us @ p # q # vs" using u v by (metis append.assoc append_Cons append_Nil)
  have d: "distinct (h # xs @ ys)" "linked_path k (us @ p # q # vs)" using r e by (simp_all add: ring_def)
  have dp: "p \<notin> set us" "n \<noteq> p" "n \<notin> set us" "n \<noteq> q" "n \<notin> set vs" "p \<notin> set (butlast (q # vs))" "q \<notin> set (tl (us @ [p]))" "q \<notin> set vs"
    "n \<notin> set (tl (us @ [p]))"
  proof -
    have "distinct (us @ [p] @ ys)" using d(1) u by (metis append.assoc append_Cons)
    then show "p \<notin> set us" "p \<notin> set (butlast (q # vs))" using v by (auto simp flip: v)
    show "n \<noteq> p" "n \<notin> set us" using n u by (metis append.assoc append_Cons in_set_conv_decomp set_append UnI1 UnI2 list.set_intros(1))+
    have "set (q # vs) \<subseteq> set (h # xs @ ys)" unfolding v [symmetric] by auto
    then show "n \<noteq> q" "n \<notin> set vs" using n by auto
    have t: "tl (us @ [p]) = xs" using u by (metis list.sel(3))
    then show "n \<notin> set (tl (us @ [p]))" using n by simp
    from t show "q \<notin> set (tl (us @ [p]))" using d(1) v by (cases ys) auto
    show "q \<notin> set vs" using d(1) v by (cases ys) auto
  qed
  have l: "last (h # xs) = p" "hd (ys @ [h]) = q" using u v by simp_all
  have new: "nxt k' x = (if x = n then q else if x = p then n else nxt k x)"
    "prv k' x = (if x = n then p else if x = q then n else prv k x)" for x
    unfolding k' l by simp_all
  have "linked_path k (us @ [p])" "linked_path k (q # vs)"
    using d(2) linked_path_append [of k us p "q # vs"] by (cases vs; simp)+
  moreover have "linked_path k' (us @ [p]) = linked_path k (us @ [p])"
    by (rule linked_path_cong) (use dp in \<open>auto simp: new\<close>)
  moreover have "linked_path k' (q # vs) = linked_path k (q # vs)"
    by (rule linked_path_cong) (use dp in \<open>auto simp: new split: if_splits dest: in_set_butlastD\<close>)
  ultimately have "linked_path k' (us @ p # n # q # vs)"
    using dp by (subst linked_path_append) (simp add: new)
  moreover have "h # (xs @ n # ys) @ [h] = us @ p # n # q # vs" using u v by (metis append.assoc append_Cons append_Nil)
  ultimately show ?thesis using d(1) n by (simp add: ring_def)
qed

lemma ring_insert_after:
  assumes "ring k h (xs @ ys)" and "n \<notin> set (h # xs @ ys)" and "l = last (h # xs)"
  shows "ring (rt_list_insert_after l n k) h (xs @ n # ys)"
proof (rule ring_insert [OF assms(1,2)])
  have m: "nxt k l = hd (ys @ [h])" "prv k (hd (ys @ [h])) = l" using ring_mid [OF assms(1)] assms(3) by simp_all
  have "l \<in> set (h # xs)" unfolding assms(3) by (rule last_in_set) simp
  then have "l \<noteq> n" using assms(2) by auto
  then show "nxt (rt_list_insert_after l n k) x = (if x = n then hd (ys @ [h]) else if x = last (h # xs) then n else nxt k x)"
    "prv (rt_list_insert_after l n k) x = (if x = n then last (h # xs) else if x = hd (ys @ [h]) then n else prv k x)" for x
    unfolding assms(3) [symmetric] by (simp_all add: rt_list_insert_after_def Let_def m)
qed

lemma ring_insert_before:
  assumes "ring k h (xs @ ys)" and "n \<notin> set (h # xs @ ys)" and "l = hd (ys @ [h])"
  shows "ring (rt_list_insert_before l n k) h (xs @ n # ys)"
proof (rule ring_insert [OF assms(1,2)])
  have m: "nxt k (last (h # xs)) = l" "prv k l = last (h # xs)" using ring_mid [OF assms(1)] assms(3) by simp_all
  have "l \<in> set (ys @ [h])" unfolding assms(3) by (rule list.set_sel(1)) simp
  then have "l \<noteq> n" using assms(2) by auto
  then show "nxt (rt_list_insert_before l n k) x = (if x = n then hd (ys @ [h]) else if x = last (h # xs) then n else nxt k x)"
    "prv (rt_list_insert_before l n k) x = (if x = n then last (h # xs) else if x = hd (ys @ [h]) then n else prv k x)" for x
    unfolding assms(3) [symmetric] by (simp_all add: rt_list_insert_before_def Let_def m)
qed

lemma ring_remove:
  assumes "ring k h (xs @ n # ys)"
  shows "ring (rt_list_remove n k) h (xs @ ys)" and "ring (rt_list_remove n k) n []"
proof -
  let ?k = "rt_list_remove n k"
  obtain us p where u: "h # xs = us @ [p]" by (cases "h # xs" rule: rev_cases) auto
  obtain q vs where v: "ys @ [h] = q # vs" by (cases "ys @ [h]") auto
  have e: "h # (xs @ n # ys) @ [h] = us @ p # n # q # vs" using u v by (metis append.assoc append_Cons append_Nil)
  have d: "distinct (h # xs @ n # ys)" "linked_path k (us @ p # n # q # vs)" using assms e by (simp_all add: ring_def)
  have p: "linked_path k (us @ [p])" "nxt k p = n" "prv k n = p" "nxt k n = q" "prv k q = n" "linked_path k (q # vs)"
    using d(2) linked_path_append [of k us p "n # q # vs"] by simp_all
  have dp: "n \<noteq> p" "n \<notin> set us" "n \<noteq> q" "n \<notin> set vs" "p \<notin> set us" "p \<notin> set (butlast (q # vs))" "q \<notin> set (tl (us @ [p]))"
    "q \<notin> set vs" "n \<notin> set (tl (us @ [p]))"
  proof -
    have x: "distinct (us @ [p] @ n # ys)" using d(1) u by (metis append.assoc append_Cons)
    then show "n \<noteq> p" "n \<notin> set us" "p \<notin> set us" "p \<notin> set (butlast (q # vs))" using v by (auto simp flip: v)
    have "set (q # vs) \<subseteq> set (h # ys)" unfolding v [symmetric] by auto
    then show "n \<noteq> q" "n \<notin> set vs" using d(1) by auto
    have t: "tl (us @ [p]) = xs" using u by (metis list.sel(3))
    then show "n \<notin> set (tl (us @ [p]))" using d(1) by simp
    from t show "q \<notin> set (tl (us @ [p]))" using d(1) v by (cases ys) auto
    show "q \<notin> set vs" using d(1) v by (cases ys) auto
  qed
  have new: "nxt ?k x = (if x = n then n else if x = p then q else nxt k x)"
    "prv ?k x = (if x = n then n else if x = q then p else prv k x)" for x
    using dp p by (simp_all add: rt_list_remove_def Let_def)
  have "linked_path ?k (us @ [p]) = linked_path k (us @ [p])"
    by (rule linked_path_cong) (use dp in \<open>auto simp: new\<close>)
  moreover have "linked_path ?k (q # vs) = linked_path k (q # vs)"
    by (rule linked_path_cong) (use dp in \<open>auto simp: new split: if_splits dest: in_set_butlastD\<close>)
  ultimately have "linked_path ?k (us @ p # q # vs)"
    using dp p by (subst linked_path_append) (simp add: new)
  moreover have "h # (xs @ ys) @ [h] = us @ p # q # vs" using u v by (metis append.assoc append_Cons append_Nil)
  ultimately show "ring ?k h (xs @ ys)" using d(1) by (simp add: ring_def)
  show "ring ?k n []" by (simp add: ring_def new)
qed

lemma ring_remove_in:
  assumes "ring k h xs" and "n \<in> set xs"
  shows "ring (rt_list_remove n k) h (remove1 n xs)" and "ring (rt_list_remove n k) n []"
proof -
  obtain as bs where s: "xs = as @ n # bs" "n \<notin> set as" using assms(2) by (meson split_list_first)
  then show "ring (rt_list_remove n k) h (remove1 n xs)" "ring (rt_list_remove n k) n []"
    using ring_remove [of k h as n bs] assms(1) by (simp_all add: remove1_append)
qed

text \<open>Other rings.\<close>

lemma ring_insert_after_other:
  assumes "ring k h (xs @ ys)" and "l = last (h # xs)" and "ring k g zs" and "set (g # zs) \<inter> set (n # h # xs @ ys) = {}"
  shows "ring (rt_list_insert_after l n k) g zs"
proof -
  have m: "nxt k l = hd (ys @ [h])" using ring_mid [OF assms(1)] assms(2) by simp
  have "l \<in> set (h # xs)" unfolding assms(2) by (rule last_in_set) simp
  moreover have "hd (ys @ [h]) \<in> set (ys @ [h])" by (rule list.set_sel(1)) simp
  ultimately have "x \<noteq> l \<and> x \<noteq> n \<and> x \<noteq> hd (ys @ [h])" if "x \<in> set (g # zs)" for x using that assms(4) by fastforce
  then show ?thesis using assms(3) by (subst ring_cong [of _ _ _ k]) (auto simp: rt_list_insert_after_def Let_def m)
qed

lemma ring_remove_other:
  assumes "ring k h xs" and "n \<in> set xs" and "ring k g zs" and "set (g # zs) \<inter> set (h # xs) = {}"
  shows "ring (rt_list_remove n k) g zs"
proof -
  obtain as bs where s: "xs = as @ n # bs" using assms(2) by (meson split_list)
  have "nxt k n = hd (bs @ [h])" "prv k n = last (h # as)"
    using ring_mid [of k h "as @ [n]" bs] ring_mid [of k h as "n # bs"] assms(1) s by simp_all
  moreover have "hd (bs @ [h]) \<in> set (bs @ [h])" by (rule list.set_sel(1)) simp
  moreover have "last (h # as) \<in> set (h # as)" by (rule last_in_set) simp
  ultimately have m: "nxt k n \<in> set (h # xs)" "prv k n \<in> set (h # xs)" using s by auto
  have "x \<noteq> n \<and> x \<noteq> nxt k n \<and> x \<noteq> prv k n" if "x \<in> set (g # zs)" for x using that assms(2,4) m by fastforce
  then show ?thesis using assms(3) m by (subst ring_cong [of _ _ _ k]) (auto simp: rt_list_remove_def Let_def)
qed

section \<open>Reading a ring\<close>

lemma ring_isempty: "ring k h xs \<Longrightarrow> rt_list_isempty h k \<longleftrightarrow> xs = []"
  using ring_next [of k h xs] by (cases xs) (auto simp: rt_list_isempty_def ring_def)

lemma list_search_suffix:
  assumes "ring k h (xs @ ys)"
  shows "list_search fits k h (hd (ys @ [h])) = Some (find fits ys)"
  using assms
proof (induction ys arbitrary: xs)
  case Nil
  show ?case by (subst list_search.simps) simp
next
  case (Cons y ys)
  have r: "ring k h ((xs @ [y]) @ ys)" using Cons.prems by simp
  have "y \<noteq> h" using Cons.prems by (auto simp: ring_def)
  moreover have "nxt k y = hd (ys @ [h])" using ring_mid(1) [OF r] by simp
  ultimately show ?case using Cons.IH [OF r] by (subst list_search.simps) simp
qed

lemma list_search_ring: "ring k h xs \<Longrightarrow> list_search fits k h (nxt k h) = Some (find fits xs)"
  using list_search_suffix [of k h "[]" xs fits] ring_next [of k h xs] by simp

lemma list_len_suffix:
  assumes "ring k h (xs @ ys)"
  shows "list_len_loop k h (last (h # xs)) n = Some (n + of_nat (length ys))"
  using assms
proof (induction ys arbitrary: xs n)
  case Nil
  then show ?case using ring_mid(1) [of k h xs "[]"] by (subst list_len_loop.simps) simp
next
  case (Cons y ys)
  have r: "ring k h ((xs @ [y]) @ ys)" using Cons.prems by simp
  have "y \<noteq> h" using Cons.prems by (auto simp: ring_def)
  moreover have "nxt k (last (h # xs)) = y" using ring_mid(1) [OF Cons.prems] by simp
  ultimately show ?case using Cons.IH [OF r, of "n + 1"] by (subst list_len_loop.simps) (simp add: algebra_simps)
qed

lemma ring_len: "ring k h xs \<Longrightarrow> rt_list_len h k = Some (of_nat (length xs))"
  using list_len_suffix [of k h "[]" xs 0] by (simp add: rt_list_len_def)

text \<open>
  On a well-formed ring with head \<open>h\<close> over the nodes \<open>xs\<close>, inserting after or before the
  head puts a new node to the front or the end, inserting behind or before a node puts it next to
  that node, removing a node takes it out and leaves it as an empty list of its own, the length is
  counted modulo \<open>2 ^ 32\<close>, and the list does not say it is empty; rings over other nodes stay.
\<close>

theorem list_operations_refine:
  assumes "ring k h (xs @ m # ys)" and "n \<notin> set (h # xs @ m # ys)"
    and "ring k g zs" and "set (g # zs) \<inter> set (n # h # xs @ m # ys) = {}"
  shows "ring (rt_list_insert_after h n k) h (n # xs @ m # ys) \<and>
    ring (rt_list_insert_before h n k) h (xs @ m # ys @ [n]) \<and>
    ring (rt_list_insert_after m n k) h (xs @ m # n # ys) \<and>
    ring (rt_list_insert_before m n k) h (xs @ n # m # ys) \<and>
    ring (rt_list_remove m k) h (xs @ ys) \<and> ring (rt_list_remove m k) m [] \<and>
    rt_list_len h k = Some (of_nat (length (xs @ m # ys))) \<and> \<not> rt_list_isempty h k \<and>
    ring (rt_list_insert_after m n k) g zs \<and> ring (rt_list_remove m k) g zs"
proof -
  have r: "ring k h ((xs @ [m]) @ ys)" "ring k h ((xs @ m # ys) @ [])" using assms(1) by simp_all
  have n: "n \<notin> set (h # (xs @ [m]) @ ys)" "n \<notin> set (h # (xs @ m # ys) @ [])" using assms(2) by auto
  have o': "set (g # zs) \<inter> set (n # h # (xs @ [m]) @ ys) = {}" "set (g # zs) \<inter> set (h # xs @ m # ys) = {}" using assms(4) by auto
  show ?thesis
    using ring_insert_after [of k h "[]" "xs @ m # ys" n h] ring_insert_before [OF r(2) n(2), of h] ring_insert_after [OF r(1) n(1), of m]
      ring_insert_before [OF assms(1,2), of m] ring_remove [OF assms(1)] ring_len [OF assms(1)] ring_isempty [OF assms(1)]
      ring_insert_after_other [OF r(1) _ assms(3) o'(1), of m] ring_remove_other [OF assms(1) _ assms(3) o'(2), of m] assms(1,2)
    by simp
qed

section \<open>Singly linked lists\<close>

text \<open>A node is an address or null; \<open>None\<close> as the result of an operation is a null pointer followed.\<close>

type_synonym slinks = "nat \<Rightarrow> nat option"

definition rt_slist_init :: "nat \<Rightarrow> slinks \<Rightarrow> slinks" where
  "rt_slist_init l k = k(l := None)"

partial_function (option) slist_last :: "slinks \<Rightarrow> nat \<Rightarrow> nat option" where
  "slist_last k node = (case k node of None \<Rightarrow> Some node | Some p \<Rightarrow> slist_last k p)"

definition rt_slist_append :: "nat \<Rightarrow> nat \<Rightarrow> slinks \<Rightarrow> slinks option" where
  "rt_slist_append l n k = map_option (\<lambda>node. (k(node := Some n))(n := None)) (slist_last k l)"

definition rt_slist_insert :: "nat \<Rightarrow> nat \<Rightarrow> slinks \<Rightarrow> slinks" where
  "rt_slist_insert l n k = (let k1 = k(n := k l) in k1(l := Some n))"

partial_function (option) slist_len_loop :: "slinks \<Rightarrow> nat option \<Rightarrow> u32 \<Rightarrow> u32 option" where
  "slist_len_loop k p n = (case p of None \<Rightarrow> Some n | Some q \<Rightarrow> slist_len_loop k (k q) (n + 1))"

definition rt_slist_len :: "nat \<Rightarrow> slinks \<Rightarrow> u32 option" where
  "rt_slist_len l k = slist_len_loop k (k l) 0"

partial_function (option) slist_before :: "slinks \<Rightarrow> nat \<Rightarrow> nat \<Rightarrow> nat option" where
  "slist_before k n node =
     (case k node of None \<Rightarrow> Some node | Some p \<Rightarrow> if p \<noteq> n then slist_before k n p else Some node)"

definition rt_slist_remove :: "nat \<Rightarrow> nat \<Rightarrow> slinks \<Rightarrow> slinks option" where
  "rt_slist_remove l n k =
     map_option (\<lambda>node. case k node of None \<Rightarrow> k | Some p \<Rightarrow> k(node := k p)) (slist_before k n l)"

definition rt_slist_first :: "nat \<Rightarrow> slinks \<Rightarrow> nat option" where "rt_slist_first l k = k l"
definition rt_slist_tail :: "nat \<Rightarrow> slinks \<Rightarrow> nat option" where "rt_slist_tail l k = slist_last k l"
definition rt_slist_next :: "nat \<Rightarrow> slinks \<Rightarrow> nat option" where "rt_slist_next n k = k n"
definition rt_slist_isempty :: "nat \<Rightarrow> slinks \<Rightarrow> bool" where "rt_slist_isempty l k \<longleftrightarrow> k l = None"

fun spath :: "slinks \<Rightarrow> nat \<Rightarrow> nat list \<Rightarrow> bool" where
  "spath k x [] \<longleftrightarrow> True"
| "spath k x (y # ys) \<longleftrightarrow> k x = Some y \<and> spath k y ys"

definition slist :: "slinks \<Rightarrow> nat \<Rightarrow> nat list \<Rightarrow> bool" where
  "slist k l xs \<longleftrightarrow> distinct (l # xs) \<and> spath k l xs \<and> k (last (l # xs)) = None"

lemma spath_cong: "(\<And>y. y \<in> set (butlast (x # xs)) \<Longrightarrow> k' y = k y) \<Longrightarrow> spath k' x xs = spath k x xs"
  by (induction k x xs rule: spath.induct) auto

lemma spath_append: "spath k x (xs @ ys) \<longleftrightarrow> spath k x xs \<and> spath k (last (x # xs)) ys"
  by (induction xs arbitrary: x) auto

lemma slist_last_path: "spath k x xs \<Longrightarrow> k (last (x # xs)) = None \<Longrightarrow> slist_last k x = Some (last (x # xs))"
proof (induction xs arbitrary: x)
  case Nil
  then show ?case by (subst slist_last.simps) simp
next
  case (Cons y xs)
  then show ?case by (subst slist_last.simps) simp
qed

lemma slist_len_path: "spath k x xs \<Longrightarrow> k (last (x # xs)) = None \<Longrightarrow> slist_len_loop k (k x) n = Some (n + of_nat (length xs))"
proof (induction xs arbitrary: x n)
  case Nil
  then show ?case by (subst slist_len_loop.simps) simp
next
  case (Cons y xs)
  then show ?case using Cons.IH [of y "n + 1"] by (subst slist_len_loop.simps) (simp add: algebra_simps)
qed

lemma slist_before_path:
  assumes "spath k x (us @ n # vs)" and "n \<notin> set us"
  shows "slist_before k n x = Some (last (x # us))"
  using assms
proof (induction us arbitrary: x)
  case Nil
  then show ?case by (subst slist_before.simps) simp
next
  case (Cons y us)
  then show ?case by (subst slist_before.simps) auto
qed

lemma slist_before_absent:
  assumes "spath k x xs" and "n \<notin> set xs" and "k (last (x # xs)) = None"
  shows "slist_before k n x = Some (last (x # xs))"
  using assms
proof (induction xs arbitrary: x)
  case Nil
  then show ?case by (subst slist_before.simps) simp
next
  case (Cons y xs)
  then show ?case by (subst slist_before.simps) auto
qed

text \<open>The operations on a singly linked list are those on the list of its nodes.\<close>

lemma slist_insert: "slist k l xs \<Longrightarrow> n \<notin> set (l # xs) \<Longrightarrow> slist (rt_slist_insert l n k) l (n # xs)"
proof -
  assume a: "slist k l xs" "n \<notin> set (l # xs)"
  have "spath (rt_slist_insert l n k) n xs"
  proof (cases xs)
    case (Cons y ys)
    have "spath (rt_slist_insert l n k) y ys = spath k y ys"
      by (rule spath_cong) (use a Cons in \<open>auto simp: rt_slist_insert_def slist_def split: if_splits dest: in_set_butlastD\<close>)
    then show ?thesis using a Cons by (auto simp: rt_slist_insert_def slist_def)
  qed simp
  moreover have "xs \<noteq> [] \<Longrightarrow> last xs \<noteq> l \<and> last xs \<noteq> n" using a last_in_set [of xs] by (auto simp: slist_def)
  ultimately show ?thesis using a by (auto simp: slist_def rt_slist_insert_def)
qed

lemma slist_append: "slist k l xs \<Longrightarrow> n \<notin> set (l # xs) \<Longrightarrow> \<exists>k'. rt_slist_append l n k = Some k' \<and> slist k' l (xs @ [n])"
proof -
  assume a: "slist k l xs" "n \<notin> set (l # xs)"
  let ?p = "last (l # xs)" let ?k = "(k(?p := Some n))(n := None)"
  have e: "rt_slist_append l n k = Some ?k" using slist_last_path [of k l xs] a(1) by (simp add: rt_slist_append_def slist_def)
  have p: "?p \<in> set (l # xs)" by (rule last_in_set) simp
  have "?p \<notin> set (butlast (l # xs))" using a(1) distinct_butlast unfolding slist_def
    by (metis append_butlast_last_id distinct_append disjoint_insert(1) list.discI list.set(2))
  then have "spath ?k l xs = spath k l xs"
    by (intro spath_cong) (use a in \<open>auto split: if_splits dest: in_set_butlastD\<close>)
  then have "slist ?k l (xs @ [n])" using a p by (auto simp: slist_def spath_append)
  then show ?thesis using e by blast
qed

lemma slist_remove:
  assumes "slist k l xs"
  shows "\<exists>k'. rt_slist_remove l n k = Some k' \<and> slist k' l (remove1 n xs)"
proof (cases "n \<in> set xs")
  case False
  then show ?thesis using slist_before_absent [of k l xs n] assms
    by (auto simp: rt_slist_remove_def slist_def remove1_idem split: option.splits)
next
  case True
  then obtain us vs where s: "xs = us @ n # vs" "n \<notin> set us" by (meson split_list_first)
  let ?p = "last (l # us)" let ?k = "k(?p := k n)"
  have sp: "spath k l us" "k ?p = Some n" "spath k n vs" "k (last (n # vs)) = None"
    using assms s by (auto simp: slist_def spath_append)
  have e: "rt_slist_remove l n k = Some ?k"
    using slist_before_path [of k l us n vs] assms s sp(2) by (simp add: rt_slist_remove_def slist_def)
  have d: "distinct ((l # us) @ n # vs)" using assms s by (simp add: slist_def)
  have p: "?p \<in> set (l # us)" by (rule last_in_set) simp
  have "?p \<notin> set (butlast (l # us))" using d
    by (metis append_butlast_last_id distinct_append disjoint_insert(1) list.discI list.set(2))
  then have "spath ?k l us = spath k l us" by (intro spath_cong) auto
  moreover have pv: "?p \<notin> set (n # vs)" using d p by auto
  then have "spath ?k ?p vs"
  proof (cases vs)
    case (Cons v ws)
    have "spath ?k v ws = spath k v ws" by (rule spath_cong) (use pv Cons in \<open>auto split: if_splits dest: in_set_butlastD\<close>)
    then show ?thesis using sp(3) Cons by simp
  qed simp
  moreover have "?k (last (?p # vs)) = None"
  proof (cases "vs = []")
    case False
    then have "last (l # us) \<noteq> last vs" using pv last_in_set [OF False] by auto
    then show ?thesis using sp(4) False by simp
  qed (use sp(4) in simp)
  ultimately have "slist ?k l (us @ vs)" using d sp(1) by (auto simp: slist_def spath_append)
  then show ?thesis using e s by (simp add: remove1_append)
qed

lemma slist_reads:
  assumes "slist k l xs"
  shows "rt_slist_len l k = Some (of_nat (length xs))" and "rt_slist_tail l k = Some (last (l # xs))"
    and "rt_slist_first l k = (if xs = [] then None else Some (hd xs))" and "rt_slist_isempty l k \<longleftrightarrow> xs = []"
  using assms slist_len_path [of k l xs 0] slist_last_path [of k l xs]
  by (cases xs; simp add: slist_def rt_slist_len_def rt_slist_tail_def rt_slist_first_def rt_slist_isempty_def)+

section \<open>An instance\<close>

definition demo_links :: links where
  "demo_links = fold (\<lambda>n. rt_list_insert_before 1 n) [2, 3] (rt_list_init 1 (rt_list_init 9 \<lparr>nxt = id, prv = id\<rparr>))"

theorem list_operations_refine_witness:
  "ring (rt_list_insert_after 2 4 demo_links) 1 [2, 4, 3] \<and> ring (rt_list_remove 2 demo_links) 9 []"
proof -
  have "ring demo_links 1 ([] @ 2 # [3])" "ring demo_links 9 []"
    by (simp_all add: ring_def demo_links_def rt_list_init_def rt_list_insert_before_def Let_def)
  then show ?thesis using list_operations_refine [of demo_links 1 "[]" 2 "[3]" 4 9 "[]"] by simp
qed

end
