(* ===== verification/Rt_Object.thy ===== *)
theory Rt_Object
  imports Rt_List C_Buffers Rt_Heap
begin

text \<open>
  Kernel objects (\<open>rt-thread/src/object.c\<close>): one container per class of objects, with the list of
  the objects of the class. An object is named by the address of its structure, which also stands
  for its list node; the list heads inside the table of containers are named by their index, so no
  object has an address below the number of containers. Objects are static, or allocated from the
  heap of \<open>mem.c\<close>. \<open>None\<close> is a failed assertion, or a search that never returns. The theory shows
  that each object is in the list of its own class and in no other, and that a search by name
  finds the newest object of the class with that name.
\<close>

section \<open>Classes and containers\<close>

definition RT_NAME_MAX :: nat where "RT_NAME_MAX = 8"
definition RT_Object_Class_Device :: u8 where "RT_Object_Class_Device = 9"
definition RT_Object_Class_Unknown :: u8 where "RT_Object_Class_Unknown = 12"
definition RT_Object_Class_Static :: u8 where "RT_Object_Class_Static = 0x80"
definition RT_Object_Info_Unknown :: nat where "RT_Object_Info_Unknown = 9"

lemmas object_codes [simp] = RT_NAME_MAX_def RT_Object_Class_Unknown_def RT_Object_Info_Unknown_def

record rt_object =
  ob_name :: "u8 list"
  ob_type :: u8
  ob_flag :: u8

record obj_world =
  obj_at :: "nat \<Rightarrow> rt_object"
  obj_links :: links

text \<open>The classes of the table: thread, semaphore, mutex, event, mailbox, message queue, memory
  pool, device and timer. Memory heaps and modules are not configured.\<close>

definition rt_object_container :: "u8 list" where
  "rt_object_container = [1, 2, 3, 4, 5, 6, 8, 9, 10]"

definition rt_object_get_information :: "u8 \<Rightarrow> nat option" where
  "rt_object_get_information ty = find (\<lambda>index. rt_object_container ! index = ty) [0..<RT_Object_Info_Unknown]"

definition object_lists_init :: "links \<Rightarrow> links" where
  "object_lists_init k = fold rt_list_init [0..<RT_Object_Info_Unknown] k"

section \<open>Operations\<close>

definition rt_object_init :: "nat \<Rightarrow> u8 \<Rightarrow> u8 list \<Rightarrow> obj_world \<Rightarrow> obj_world option" where
  "rt_object_init object ty name w =
     (case rt_object_get_information ty of None \<Rightarrow> None
      | Some i \<Rightarrow>
         (case list_search (\<lambda>obj. obj = object) (obj_links w) i (nxt (obj_links w) i) of
            Some None \<Rightarrow>
              Some (w\<lparr>obj_at := (obj_at w)(object := (obj_at w object)\<lparr>ob_type := ty OR RT_Object_Class_Static,
                    ob_name := strncpy_into (ob_name (obj_at w object)) name RT_NAME_MAX\<rparr>),
                  obj_links := rt_list_insert_after i object (obj_links w)\<rparr>)
          | _ \<Rightarrow> None))"

definition rt_object_detach :: "nat \<Rightarrow> obj_world \<Rightarrow> obj_world" where
  "rt_object_detach object w =
     w\<lparr>obj_at := (obj_at w)(object := (obj_at w object)\<lparr>ob_type := 0\<rparr>), obj_links := rt_list_remove object (obj_links w)\<rparr>"

text \<open>\<open>object_size\<close> is the size of the structure of each class.\<close>

definition rt_object_allocate :: "(nat \<Rightarrow> u32) \<Rightarrow> u8 \<Rightarrow> u8 list \<Rightarrow> obj_world \<times> rt_heap \<Rightarrow> ((obj_world \<times> rt_heap) \<times> nat option) option" where
  "rt_object_allocate object_size ty name = (\<lambda>(w, h).
     case rt_object_get_information ty of None \<Rightarrow> None
     | Some i \<Rightarrow>
        (case rt_malloc (object_size i) h of
           None \<Rightarrow> None
         | Some (h1, None) \<Rightarrow> Some ((w, h1), None)
         | Some (h1, Some object) \<Rightarrow>
             let cleared = \<lparr>ob_name = replicate RT_NAME_MAX 0, ob_type = 0, ob_flag = 0\<rparr>;
                 k = set_nxt object 0 (set_prv object 0 (obj_links w))
             in Some ((w\<lparr>obj_at := (obj_at w)(object := cleared\<lparr>ob_type := ty, ob_flag := 0,
                     ob_name := strncpy_into (ob_name cleared) name RT_NAME_MAX\<rparr>),
                   obj_links := rt_list_insert_after i object k\<rparr>, h1), Some object)))"

definition rt_object_delete :: "nat \<Rightarrow> obj_world \<times> rt_heap \<Rightarrow> (obj_world \<times> rt_heap) option" where
  "rt_object_delete object = (\<lambda>(w, h).
     if ob_type (obj_at w object) AND RT_Object_Class_Static \<noteq> 0 then None
     else map_option (Pair (w\<lparr>obj_at := (obj_at w)(object := (obj_at w object)\<lparr>ob_type := 0\<rparr>),
         obj_links := rt_list_remove object (obj_links w)\<rparr>)) (rt_free (Some object) h))"

definition rt_object_is_systemobject :: "nat \<Rightarrow> obj_world \<Rightarrow> bool" where
  "rt_object_is_systemobject object w \<longleftrightarrow> ob_type (obj_at w object) AND RT_Object_Class_Static \<noteq> 0"

definition rt_object_get_type :: "nat \<Rightarrow> obj_world \<Rightarrow> u8" where
  "rt_object_get_type object w = ob_type (obj_at w object) AND NOT RT_Object_Class_Static"

text \<open>\<open>rt_strncmp (object->name, name, RT_NAME_MAX) == 0\<close>.\<close>

definition name_is :: "u8 list \<Rightarrow> obj_world \<Rightarrow> nat \<Rightarrow> bool" where
  "name_is name w object \<longleftrightarrow> buf_string (ob_name (obj_at w object)) = take RT_NAME_MAX name"

definition rt_object_find :: "u8 list option \<Rightarrow> u8 \<Rightarrow> obj_world \<Rightarrow> nat option option" where
  "rt_object_find name ty w =
     (case name of None \<Rightarrow> Some None
      | Some nm \<Rightarrow> if ty > RT_Object_Class_Unknown then Some None
         else (case rt_object_get_information ty of None \<Rightarrow> None
           | Some i \<Rightarrow> list_search (name_is nm w) (obj_links w) i (nxt (obj_links w) i)))"

section \<open>The containers in use\<close>

text \<open>\<open>reg i\<close> are the objects in container \<open>i\<close>, the newest first, \<open>L\<close> the live blocks of the heap. A
  static object is set up outside the heap, when no container holds it.\<close>

definition in_heap :: "rt_heap \<Rightarrow> nat \<Rightarrow> bool" where
  "in_heap h a \<longleftrightarrow> heap_ptr h \<le> a \<and> a < heap_ptr h + heap_end h"

inductive obj_run :: "obj_world \<Rightarrow> rt_heap \<Rightarrow> nat set \<Rightarrow> (nat \<Rightarrow> nat list) \<Rightarrow> bool" where
  start: "heap_run h L \<Longrightarrow> obj_links w = object_lists_init k \<Longrightarrow> obj_run w h L (\<lambda>_. [])"
| init: "obj_run w h L reg \<Longrightarrow> 9 \<le> a \<Longrightarrow> \<not> in_heap h a \<Longrightarrow> (\<And>j. a \<notin> set (reg j)) \<Longrightarrow> length (ob_name (obj_at w a)) = RT_NAME_MAX \<Longrightarrow>
    rt_object_get_information ty = Some i \<Longrightarrow> rt_object_init a ty name w = Some w' \<Longrightarrow> obj_run w' h L (reg(i := a # reg i))"
| detach: "obj_run w h L reg \<Longrightarrow> a \<in> set (reg i) \<Longrightarrow> obj_run (rt_object_detach a w) h L (reg(i := remove1 a (reg i)))"
| allocate: "obj_run w h L reg \<Longrightarrow> rt_object_get_information ty = Some i \<Longrightarrow>
    rt_object_allocate object_size ty name (w, h) = Some ((w', h'), r) \<Longrightarrow>
    obj_run w' h' (L \<union> set_option r) (case r of None \<Rightarrow> reg | Some a \<Rightarrow> reg(i := a # reg i))"
| delete: "obj_run w h L reg \<Longrightarrow> a \<in> set (reg i) \<Longrightarrow> rt_object_delete a (w, h) = Some (w', h') \<Longrightarrow>
    obj_run w' h' (L - {a}) (reg(i := remove1 a (reg i)))"
| other: "obj_run w h L reg \<Longrightarrow> rt_malloc sz h = Some (h', r) \<Longrightarrow> obj_run w h' (L \<union> set_option r) reg"

lemma in_heap_same: "heap_ptr h' = heap_ptr h \<Longrightarrow> heap_end h' = heap_end h \<Longrightarrow> in_heap h' = in_heap h"
  by (simp add: in_heap_def fun_eq_iff)

text \<open>The state of the containers. An object of the heap is a live block.\<close>

definition obj_ok :: "obj_world \<Rightarrow> (nat \<Rightarrow> nat list) \<Rightarrow> bool" where
  "obj_ok w reg \<longleftrightarrow> (\<forall>i < 9. ring (obj_links w) i (reg i)) \<and> (\<forall>a i j. a \<in> set (reg i) \<longrightarrow> a \<in> set (reg j) \<longrightarrow> i = j) \<and>
     (\<forall>i \<ge> 9. reg i = []) \<and>
     (\<forall>i. \<forall>a \<in> set (reg i). 9 \<le> a \<and> rt_object_get_type a w = rt_object_container ! i \<and> length (ob_name (obj_at w a)) = 8)"

definition live_ok :: "obj_world \<Rightarrow> rt_heap \<Rightarrow> nat set \<Rightarrow> (nat \<Rightarrow> nat list) \<Rightarrow> bool" where
  "live_ok w h L reg \<longleftrightarrow> heap_run h L \<and> (\<forall>i. \<forall>a \<in> set (reg i). if rt_object_is_systemobject a w then \<not> in_heap h a else a \<in> L)"

lemma get_information:
  assumes "rt_object_get_information ty = Some i"
  shows "i < 9" and "rt_object_container ! i = ty"
  using assms by (auto simp: rt_object_get_information_def find_Some_iff)

lemma class_not_static: "i < 9 \<Longrightarrow> rt_object_container ! i AND RT_Object_Class_Static = 0"
proof -
  assume "i < 9"
  then have "i \<in> {0, 1, 2, 3, 4, 5, 6, 7, 8}" by auto
  then show ?thesis by (auto simp: rt_object_container_def RT_Object_Class_Static_def)
qed

lemma class_index: "i < 9 \<Longrightarrow> rt_object_get_information (rt_object_container ! i) = Some i"
proof -
  assume "i < 9"
  then have "i \<in> {0, 1, 2, 3, 4, 5, 6, 7, 8}" by auto
  then show ?thesis by (auto simp: rt_object_container_def rt_object_get_information_def upt_rec)
qed

lemma heap_run_range:
  assumes "heap_run h L" and "a \<in> L"
  shows "in_heap h a" and "12 \<le> a"
proof -
  obtain h' where "rt_free (Some a) h = Some h'" using heap.release_live [OF assms] by blast
  then show "in_heap h a" "12 \<le> a" by (auto simp: rt_free_def in_heap_def SIZEOF_STRUCT_MEM_def Let_def split: if_splits)
qed

lemma obj_okD:
  assumes "obj_ok w reg"
  shows "i < 9 \<Longrightarrow> ring (obj_links w) i (reg i)" and "a \<in> set (reg i) \<Longrightarrow> a \<in> set (reg j) \<Longrightarrow> i = j" and "a \<in> set (reg i) \<Longrightarrow> i < 9"
    and "a \<in> set (reg i) \<Longrightarrow> 9 \<le> a \<and> rt_object_get_type a w = rt_object_container ! i \<and> length (ob_name (obj_at w a)) = 8"
proof -
  show "i < 9" if "a \<in> set (reg i)" using assms that by (cases "i < 9") (simp_all add: obj_ok_def)
  show "i = j" if "a \<in> set (reg i)" "a \<in> set (reg j)" using assms that by (simp add: obj_ok_def)
qed (use assms in \<open>simp_all add: obj_ok_def\<close>)

lemma obj_okI:
  assumes "\<And>i. i < 9 \<Longrightarrow> ring (obj_links w) i (reg i)" and "\<And>a i j. a \<in> set (reg i) \<Longrightarrow> a \<in> set (reg j) \<Longrightarrow> i = j"
    and "\<And>i. 9 \<le> i \<Longrightarrow> reg i = []"
    and "\<And>a i. a \<in> set (reg i) \<Longrightarrow> 9 \<le> a \<and> rt_object_get_type a w = rt_object_container ! i \<and> length (ob_name (obj_at w a)) = 8"
  shows "obj_ok w reg"
  unfolding obj_ok_def using assms by blast

lemma obj_insert:
  assumes ok: "obj_ok w reg" and i: "i < 9" and a: "9 \<le> a" "\<And>j. a \<notin> set (reg j)"
    and w': "obj_at w' = (obj_at w)(a := ob)" "obj_links w' = rt_list_insert_after i a k'"
    and k': "\<And>x. x \<noteq> a \<Longrightarrow> nxt k' x = nxt (obj_links w) x \<and> prv k' x = prv (obj_links w) x"
    and ob: "ob_type ob AND NOT RT_Object_Class_Static = rt_object_container ! i" "length (ob_name ob) = 8"
  shows "obj_ok w' (reg(i := a # reg i))"
proof -
  have r: "ring k' j (reg j)" if "j < 9" for j
  proof -
    have "ring (obj_links w) j (reg j)" using ok that by (simp add: obj_ok_def)
    then show ?thesis using k' a that by (subst ring_cong [of _ _ _ "obj_links w"]) fastforce+
  qed
  have "ring (obj_links w') j ((reg(i := a # reg i)) j)" if j: "j < 9" for j
  proof (cases "j = i")
    case True
    have "a \<noteq> i" using a(1) i by simp
    then show ?thesis using ring_insert_after [of k' i "[]" "reg i" a i] r [OF i] a(2) True by (simp add: w'(2))
  next
    case False
    have o': "set (reg j) \<inter> set (reg i) = {}" "\<And>x. x \<in> set (reg j) \<Longrightarrow> 9 \<le> x" "\<And>x. x \<in> set (reg i) \<Longrightarrow> 9 \<le> x"
      using obj_okD(2,4) [OF ok] False by blast+
    have "set (j # reg j) \<inter> set (a # i # [] @ reg i) = {}" using o' a i j False by force
    then show ?thesis
      using ring_insert_after_other [of k' i "[]" "reg i" i j "reg j" a] r [OF i] r [OF j] False by (simp add: w'(2))
  qed
  then show ?thesis
  proof (rule obj_okI)
    fix b p q assume "b \<in> set ((reg(i := a # reg i)) p)" "b \<in> set ((reg(i := a # reg i)) q)"
    then show "p = q" using obj_okD(2) [OF ok, of b] a(2) by (cases "b = a") (auto split: if_splits)
  next
    fix b p assume b: "b \<in> set ((reg(i := a # reg i)) p)"
    show "9 \<le> b \<and> rt_object_get_type b w' = rt_object_container ! p \<and> length (ob_name (obj_at w' b)) = 8"
    proof (cases "b = a")
      case True
      then have "p = i" using b a(2) by (auto split: if_splits)
      then show ?thesis using True a(1) ob by (simp add: w'(1) rt_object_get_type_def)
    next
      case False
      then have "b \<in> set (reg p)" using b by (auto split: if_splits)
      then show ?thesis using obj_okD(4) [OF ok, of b p] False by (simp add: w'(1) rt_object_get_type_def)
    qed
  qed (use ok i in \<open>auto simp: obj_ok_def\<close>)
qed

lemma obj_remove:
  assumes ok: "obj_ok w reg" and a: "a \<in> set (reg i)"
    and w': "obj_at w' = (obj_at w)(a := ob)" "obj_links w' = rt_list_remove a (obj_links w)"
  shows "obj_ok w' (reg(i := remove1 a (reg i)))"
proof -
  have i: "i < 9" using obj_okD(3) [OF ok a] .
  have r: "ring (obj_links w) j (reg j)" if "j < 9" for j using ok that by (simp add: obj_ok_def)
  have rings: "ring (obj_links w') j ((reg(i := remove1 a (reg i))) j)" if j: "j < 9" for j
  proof (cases "j = i")
    case True
    then show ?thesis using ring_remove_in(1) [OF r [OF i] a] by (simp add: w'(2))
  next
    case False
    have o': "set (reg j) \<inter> set (reg i) = {}" "\<And>x. x \<in> set (reg j) \<Longrightarrow> 9 \<le> x" "\<And>x. x \<in> set (reg i) \<Longrightarrow> 9 \<le> x"
      using obj_okD(2,4) [OF ok] False by blast+
    have "set (j # reg j) \<inter> set (i # reg i) = {}" using o' i j False by force
    then show ?thesis using ring_remove_other [OF r [OF i] a r [OF j]] False by (simp add: w'(2))
  qed
  have sr: "set (remove1 a (reg i)) = set (reg i) - {a}" using r [OF i] by (simp add: ring_def)
  have e: "b \<in> set (reg p) \<and> b \<noteq> a" if "b \<in> set ((reg(i := remove1 a (reg i))) p)" for b p
    using that sr obj_okD(2) [OF ok a, of p] by (auto split: if_splits)
  show ?thesis
  proof (rule obj_okI)
    fix b p assume "b \<in> set ((reg(i := remove1 a (reg i))) p)"
    then show "9 \<le> b \<and> rt_object_get_type b w' = rt_object_container ! p \<and> length (ob_name (obj_at w' b)) = 8"
      using e [of b p] obj_okD(4) [OF ok, of b p] by (simp add: w'(1) rt_object_get_type_def)
  next
    fix b p q assume "b \<in> set ((reg(i := remove1 a (reg i))) p)" "b \<in> set ((reg(i := remove1 a (reg i))) q)"
    then show "p = q" using e obj_okD(2) [OF ok, of b p q] by blast
  next
    fix p :: nat assume "9 \<le> p"
    then show "(reg(i := remove1 a (reg i))) p = []" using i ok by (simp add: obj_ok_def)
  qed (rule rings)
qed

lemma lists_init:
  assumes "i < n"
  shows "ring (fold rt_list_init [0..<n] k) i []"
  using assms
proof (induction n)
  case (Suc n)
  have e: "fold rt_list_init [0..<Suc n] k = rt_list_init n (fold rt_list_init [0..<n] k)" by simp
  show ?case
  proof (cases "i = n")
    case True
    then show ?thesis using ring_init unfolding e by blast
  next
    case False
    then have r: "ring (fold rt_list_init [0..<n] k) i []" using Suc by simp
    have "ring (rt_list_init n (fold rt_list_init [0..<n] k)) i [] = ring (fold rt_list_init [0..<n] k) i []"
      using False by (intro ring_cong) (simp add: rt_list_init_def)
    then show ?thesis using r unfolding e by simp
  qed
qed simp

text \<open>The search of \<open>rt_object_init\<close> returns, and finds the object exactly when it is in the list.\<close>

lemma object_init_eq:
  assumes ok: "obj_ok w reg" and i: "rt_object_get_information ty = Some i" and a: "a \<notin> set (reg i)"
  shows "rt_object_init a ty name w = Some (w\<lparr>obj_at := (obj_at w)(a := (obj_at w a)\<lparr>ob_type := ty OR RT_Object_Class_Static,
      ob_name := strncpy_into (ob_name (obj_at w a)) name RT_NAME_MAX\<rparr>), obj_links := rt_list_insert_after i a (obj_links w)\<rparr>)"
proof -
  have "find (\<lambda>x. x = a) (reg i) = None" using a by (auto simp: find_None_iff)
  then show ?thesis using list_search_ring [OF obj_okD(1) [OF ok get_information(1) [OF i]], of "\<lambda>x. x = a"] i
    by (simp add: rt_object_init_def)
qed

lemma class_or_static: "i < 9 \<Longrightarrow> (rt_object_container ! i OR RT_Object_Class_Static) AND NOT RT_Object_Class_Static = rt_object_container ! i"
proof -
  assume "i < 9"
  then have "i \<in> {0, 1, 2, 3, 4, 5, 6, 7, 8}" by auto
  then show ?thesis by (auto simp: rt_object_container_def RT_Object_Class_Static_def)
qed

lemma class_and_not_static: "i < 9 \<Longrightarrow> rt_object_container ! i AND NOT RT_Object_Class_Static = rt_object_container ! i"
proof -
  assume "i < 9"
  then have "i \<in> {0, 1, 2, 3, 4, 5, 6, 7, 8}" by auto
  then show ?thesis by (auto simp: rt_object_container_def RT_Object_Class_Static_def)
qed

lemma static_bit: "(ty OR RT_Object_Class_Static) AND RT_Object_Class_Static \<noteq> 0"
proof
  assume "(ty OR RT_Object_Class_Static) AND RT_Object_Class_Static = 0"
  then have "bit ((ty OR RT_Object_Class_Static) AND RT_Object_Class_Static) 7 = bit (0 :: u8) 7" by simp
  then show False by (simp add: bit_and_iff bit_or_iff RT_Object_Class_Static_def)
qed

text \<open>An allocated object is a fresh block of the heap.\<close>

lemma object_allocate_cases:
  assumes "heap_run h L" and "rt_object_allocate object_size ty name (w, h) = Some ((w', h'), r)" and "rt_object_get_information ty = Some i"
  obtains (none) "r = None" "w' = w" "heap_run h' L" "heap_ptr h' = heap_ptr h \<and> heap_end h' = heap_end h"
    | (some) a where "r = Some a" "heap_run h' (insert a L)" "a \<notin> L" "heap_ptr h' = heap_ptr h \<and> heap_end h' = heap_end h"
        "in_heap h a" "9 \<le> a"
        "w' = w\<lparr>obj_at := (obj_at w)(a := \<lparr>ob_name = strncpy_into (replicate 8 0) name 8, ob_type = ty, ob_flag = 0\<rparr>),
           obj_links := rt_list_insert_after i a (set_nxt a 0 (set_prv a 0 (obj_links w)))\<rparr>"
proof -
  obtain h1 q where m: "rt_malloc (object_size i) h = Some (h1, q)" "heap_run h1 (L \<union> set_option q)" "set_option q \<inter> L = {}"
      "heap_ptr h1 = heap_ptr h" "heap_end h1 = heap_end h"
    using heap.alloc_fresh [OF assms(1), of "object_size i"] by auto
  show thesis
  proof (cases q)
    case None
    then show thesis using none m assms(2,3) by (simp add: rt_object_allocate_def)
  next
    case (Some a)
    have l: "heap_run h1 (insert a L)" using m(2) Some by simp
    have "in_heap h1 a" "12 \<le> a" using heap_run_range [OF l] by simp_all
    then show thesis using some [of a] m assms(2,3) Some l by (simp add: rt_object_allocate_def Let_def in_heap_def)
  qed
qed

lemma obj_run_inv: "obj_run w h L reg \<Longrightarrow> obj_ok w reg \<and> live_ok w h L reg"
proof (induction rule: obj_run.induct)
  case (start h L w k)
  then show ?case using lists_init by (simp add: obj_ok_def live_ok_def object_lists_init_def)
next
  case (init w h L reg a ty i name w')
  have ok: "obj_ok w reg" "live_ok w h L reg" using init.IH by simp_all
  note e = object_init_eq [OF ok(1) init.hyps(6,4), of name]
  note i = get_information [OF init.hyps(6)]
  have "obj_ok w' (reg(i := a # reg i))"
    by (rule obj_insert [OF ok(1) i(1) init.hyps(2,4), of w' "obj_at w' a" "obj_links w"])
      (use e init.hyps(5,7) class_or_static [OF i(1)] i(2) in auto)
  moreover have "live_ok w' h L (reg(i := a # reg i))"
    using ok(2) init.hyps(3,4) e init.hyps(7) static_bit by (auto simp: live_ok_def rt_object_is_systemobject_def)
  ultimately show ?case by blast
next
  case (detach w h L reg a i)
  have ok: "obj_ok w reg" "live_ok w h L reg" using detach.IH by simp_all
  have d: "distinct (reg i)" using obj_okD(1,3) [OF ok(1)] detach.hyps(2) by (auto simp: ring_def)
  have u: "j = i" if "a \<in> set (reg j)" for j using obj_okD(2) [OF ok(1) detach.hyps(2) that] by simp
  have "obj_ok (rt_object_detach a w) (reg(i := remove1 a (reg i)))"
    by (rule obj_remove [OF ok(1) detach.hyps(2)]) (simp_all add: rt_object_detach_def)
  moreover have "live_ok (rt_object_detach a w) h L (reg(i := remove1 a (reg i)))"
    using ok(2) d u by (auto simp: live_ok_def rt_object_is_systemobject_def rt_object_detach_def)
  ultimately show ?case by blast
next
  case (allocate w h L reg ty i object_size name w' h' r)
  have ok: "obj_ok w reg" "live_ok w h L reg" using allocate.IH by simp_all
  have l: "heap_run h L" using ok(2) by (simp add: live_ok_def)
  note i = get_information [OF allocate.hyps(2)]
  show ?case
  proof (rule object_allocate_cases [OF l allocate.hyps(3,2)], goal_cases)
    case 1
    then show ?case using ok in_heap_same [of h' h] by (simp add: live_ok_def)
  next
    case (2 a)
    have fresh: "a \<notin> set (reg j)" for j using ok(2) 2(3,5) by (auto simp: live_ok_def split: if_splits)
    have "obj_ok w' (reg(i := a # reg i))"
      by (rule obj_insert [OF ok(1) i(1) 2(6) fresh, of w' "obj_at w' a" "set_nxt a 0 (set_prv a 0 (obj_links w))"])
        (use 2(7) class_and_not_static [OF i(1)] i(2) in auto)
    moreover have "live_ok w' h' (insert a L) (reg(i := a # reg i))"
      using ok(2) fresh 2(2,3,7) class_not_static [OF i(1)] i(2) in_heap_same [of h' h] 2(4)
      by (auto simp: live_ok_def rt_object_is_systemobject_def split: if_splits)
    moreover have "L \<union> set_option (Some a) = insert a L" by simp
    ultimately show ?case unfolding 2(1) option.case by metis
  qed
next
  case (delete w h L reg a i w' h')
  have ok: "obj_ok w reg" "live_ok w h L reg" using delete.IH by simp_all
  have u: "j = i" if "a \<in> set (reg j)" for j using obj_okD(2) [OF ok(1) delete.hyps(2) that] by simp
  have d: "distinct (reg i)" using obj_okD(1,3) [OF ok(1)] delete.hyps(2) by (auto simp: ring_def)
  have s: "\<not> rt_object_is_systemobject a w" "rt_free (Some a) h = Some h'" and w': "w' = rt_object_detach a w"
    using delete.hyps(3) by (auto simp: rt_object_delete_def rt_object_is_systemobject_def rt_object_detach_def split: if_splits)
  have a: "a \<in> L" "heap_run h L" using ok(2) s(1) delete.hyps(2) by (auto simp: live_ok_def)
  then obtain "heap_run h' (L - {a})" "heap_ptr h' = heap_ptr h" "heap_end h' = heap_end h"
    using heap.release_live [OF a(2,1)] s(2) by auto
  moreover have "obj_ok w' (reg(i := remove1 a (reg i)))"
    by (rule obj_remove [OF ok(1) delete.hyps(2)]) (simp_all add: w' rt_object_detach_def)
  moreover have "live_ok w' h' (L - {a}) (reg(i := remove1 a (reg i)))"
    using ok(2) d u in_heap_same [of h' h] calculation(1-3)
    by (auto simp: live_ok_def rt_object_is_systemobject_def w' rt_object_detach_def split: if_splits)
  ultimately show ?case by blast
next
  case (other w h L reg sz h' r)
  have l: "heap_run h L" using other.IH by (simp add: live_ok_def)
  then have "heap_run h' (L \<union> set_option r)" "heap_ptr h' = heap_ptr h" "heap_end h' = heap_end h"
    using heap.alloc_fresh [OF l, of sz] other.hyps(2) by auto
  then show ?case using other.IH in_heap_same [of h' h] by (auto simp: live_ok_def split: if_splits)
qed

section \<open>Properties\<close>

lemma find_newest: "find P xs = Some a \<Longrightarrow> \<exists>us vs. xs = us @ a # vs \<and> P a \<and> (\<forall>b \<in> set us. \<not> P b)"
proof (induction xs)
  case (Cons x xs)
  show ?case
  proof (cases "P x")
    case True
    then show ?thesis using Cons.prems by (intro exI [of _ "[]"] exI [of _ xs]) auto
  next
    case False
    then obtain us vs where "xs = us @ a # vs" "P a" "\<forall>b \<in> set us. \<not> P b" using Cons by auto
    then show ?thesis using False by (intro exI [of _ "x # us"] exI [of _ vs]) auto
  qed
qed simp

lemma object_find_ok:
  assumes "obj_ok w reg" and "i < 9"
  shows "rt_object_find (Some name) (rt_object_container ! i) w = Some (find (name_is name w) (reg i))"
proof -
  have "i \<in> {0, 1, 2, 3, 4, 5, 6, 7, 8}" using assms(2) by auto
  then have "\<not> rt_object_container ! i > RT_Object_Class_Unknown" by (auto simp: rt_object_container_def)
  then show ?thesis using class_index [OF assms(2)] list_search_ring [OF obj_okD(1) [OF assms]]
    by (simp add: rt_object_find_def)
qed

text \<open>
  Claim C15: kernel objects. After any sequence of initialisations, detachings, allocations and
  deletions, with other use of the heap between them, a search by name in a class always returns;
  it finds an object of that class whose name agrees in its first eight characters, none newer in
  the class does, and it finds nothing only if no object of the class has the name. The object
  found is in no other container; when it is static it cannot be deleted and lies outside the heap,
  when it is not, deleting it succeeds and gives its memory back.
\<close>

theorem object_search_correct:
  assumes "obj_run w h L reg" and "i < 9"
  shows "\<exists>r. rt_object_find (Some name) (rt_object_container ! i) w = Some r \<and>
    (r = None \<longrightarrow> (\<forall>a \<in> set (reg i). \<not> name_is name w a)) \<and>
    (\<forall>a. r = Some a \<longrightarrow> name_is name w a \<and> rt_object_get_type a w = rt_object_container ! i \<and>
       (\<exists>newer older. reg i = newer @ a # older \<and> (\<forall>b \<in> set newer. \<not> name_is name w b)) \<and>
       (\<forall>j. j \<noteq> i \<longrightarrow> a \<notin> set (reg j)) \<and>
       (if rt_object_is_systemobject a w then \<not> in_heap h a \<and> rt_object_delete a (w, h) = None
        else \<exists>w' h'. rt_object_delete a (w, h) = Some (w', h') \<and> heap_run h' (L - {a}) \<and>
          obj_ok w' (reg(i := remove1 a (reg i)))))"
proof -
  have ok: "obj_ok w reg" "live_ok w h L reg" using obj_run_inv [OF assms(1)] by simp_all
  have one: "rt_object_get_type a w = rt_object_container ! i \<and> (\<forall>j. j \<noteq> i \<longrightarrow> a \<notin> set (reg j)) \<and>
       (if rt_object_is_systemobject a w then \<not> in_heap h a \<and> rt_object_delete a (w, h) = None
        else \<exists>w' h'. rt_object_delete a (w, h) = Some (w', h') \<and> heap_run h' (L - {a}) \<and> obj_ok w' (reg(i := remove1 a (reg i))))"
    if a: "a \<in> set (reg i)" for a
  proof -
    have "\<exists>w' h'. rt_object_delete a (w, h) = Some (w', h') \<and> heap_run h' (L - {a}) \<and> obj_ok w' (reg(i := remove1 a (reg i)))"
      if s: "\<not> rt_object_is_systemobject a w"
    proof -
      have l: "heap_run h L" "a \<in> L" using ok(2) a s by (auto simp: live_ok_def)
      obtain h' where h': "rt_free (Some a) h = Some h'" "heap_run h' (L - {a})" using heap.release_live [OF l] by blast
      have d: "rt_object_delete a (w, h) = Some (rt_object_detach a w, h')"
        using h'(1) s by (simp add: rt_object_delete_def rt_object_is_systemobject_def rt_object_detach_def)
      show ?thesis using d h'(2) obj_run_inv [OF obj_run.delete [OF assms(1) a d]] by blast
    qed
    moreover have "\<not> in_heap h a \<and> rt_object_delete a (w, h) = None" if "rt_object_is_systemobject a w"
      using that ok(2) a by (auto simp: live_ok_def rt_object_delete_def rt_object_is_systemobject_def)
    ultimately show ?thesis using obj_okD(2,4) [OF ok(1) a] by auto
  qed
  show ?thesis
  proof (cases "find (name_is name w) (reg i)")
    case None
    have n: "\<forall>a \<in> set (reg i). \<not> name_is name w a" using None find_None_iff [of "name_is name w" "reg i"] by blast
    have "rt_object_find (Some name) (rt_object_container ! i) w = Some None"
      using object_find_ok [OF ok(1) assms(2), of name] None by simp
    then show ?thesis using n by (intro exI [of _ None]) blast
  next
    case (Some a)
    then obtain us vs where s: "reg i = us @ a # vs" "name_is name w a" "\<forall>b \<in> set us. \<not> name_is name w b"
      using find_newest by fast
    then have "a \<in> set (reg i)" by simp
    from one [OF this] s(2) have o': "name_is name w a" "rt_object_get_type a w = rt_object_container ! i" "\<forall>j. j \<noteq> i \<longrightarrow> a \<notin> set (reg j)"
      "if rt_object_is_systemobject a w then \<not> in_heap h a \<and> rt_object_delete a (w, h) = None
       else \<exists>w' h'. rt_object_delete a (w, h) = Some (w', h') \<and> heap_run h' (L - {a}) \<and> obj_ok w' (reg(i := remove1 a (reg i)))"
      by blast+
    have p: "\<exists>newer older. reg i = newer @ a # older \<and> (\<forall>b \<in> set newer. \<not> name_is name w b)" using s(1,3) by blast
    have f: "rt_object_find (Some name) (rt_object_container ! i) w = Some (Some a)"
      using object_find_ok [OF ok(1) assms(2), of name] Some by simp
    show ?thesis unfolding f option.inject by (intro exI [of _ "Some a"]) (use o' p in \<open>simp only: option.inject option.distinct simp_thms all_simps\<close>)
  qed
qed

section \<open>Where the code does not keep its promise\<close>

text \<open>A class number that is in range but has no container is no class to search in: the assertion
  fails instead of nothing being found (0 is the unused class, 7 memory heaps, 11 modules, 12 is
  \<open>RT_Object_Class_Unknown\<close>).\<close>

lemma find_in_missing_class:
  "ty \<in> {0, 7, 11, 12} \<Longrightarrow> rt_object_find (Some name) ty w = None" and "rt_object_find (Some name) 13 w = Some None"
  by (auto simp: rt_object_find_def rt_object_get_information_def rt_object_container_def upt_rec)

text \<open>Names are compared in eight characters: a second object whose name only begins the same is
  found under the name of the first.\<close>

lemma long_names_agree: "take 8 name = take 8 name' \<Longrightarrow> name_is name w a = name_is name' w a"
  by (simp add: name_is_def)

text \<open>The check against initialising an object twice looks in the list of the new class only. An
  object initialised again in another class closes the two lists into one without its first head:
  a search for a name that is not there never returns.\<close>

lemma cycle_search:
  assumes "list_search hit k h pos = Some r"
  shows "\<forall>x \<in> C. nxt k x \<in> C \<and> \<not> hit x \<and> x \<noteq> h \<Longrightarrow> pos \<notin> C"
  using assms
proof (induction rule: list_search.raw_induct [rotated, consumes 1])
  case (1 search hit k h pos r)
  show ?case
  proof
    assume c: "pos \<in> C"
    then have "search hit k h (nxt k pos) = Some r" using 1(2,3) by (simp split: if_splits)
    from 1(1) [OF this 1(3)] c 1(3) show False by blast
  qed
qed

lemma second_class_hangs:
  assumes "ring (obj_links w) 0 [a]" and "ring (obj_links w) 1 []" and "a > 1"
    and "\<not> name_is name w' a" and "\<not> name_is name w' 1" and "rt_object_init a 2 nm w = Some w'"
  shows "rt_object_find (Some name) 1 w' = None"
proof -
  let ?k = "rt_list_insert_after 1 a (obj_links w)"
  have k: "obj_links w' = ?k"
    using assms(6) class_index [of 1] by (auto simp: rt_object_init_def rt_object_container_def split: option.splits)
  have n: "nxt ?k 0 = a" "nxt ?k a = 1" "nxt ?k 1 = a"
    using assms(1-3) ring_next [OF assms(1)] ring_next [OF assms(2)] by (simp_all add: rt_list_insert_after_def Let_def)
  have "list_search (name_is name w') ?k 0 a \<noteq> Some r" for r
    using cycle_search [of "name_is name w'" ?k 0 a r "{1, a}"] n assms(3-5) by auto
  then have "list_search (name_is name w') ?k 0 a = None" by (cases "list_search (name_is name w') ?k 0 a") auto
  then show ?thesis using n(1) k
    by (simp add: rt_object_find_def rt_object_get_information_def rt_object_container_def upt_rec)
qed

section \<open>An instance\<close>

definition demo_objects :: obj_world where
  "demo_objects = \<lparr>obj_at = (\<lambda>_. \<lparr>ob_name = replicate 8 0, ob_type = 0, ob_flag = 0\<rparr>),
     obj_links = object_lists_init \<lparr>nxt = (\<lambda>_. 0), prv = (\<lambda>_. 0)\<rparr>\<rparr>"

definition demo_console :: obj_world where
  "demo_console = demo_objects\<lparr>obj_at := (obj_at demo_objects)(256 := \<lparr>ob_name = c_bytes ''uart1'' @ replicate 3 0, ob_type = 0x89, ob_flag = 0\<rparr>),
     obj_links := rt_list_insert_after 7 256 (obj_links demo_objects)\<rparr>"

lemma demo_console_run: "obj_run demo_console demo_heap {} ((\<lambda>_. [])(7 := [256]))"
proof -
  have s: "obj_run demo_objects demo_heap {} (\<lambda>_. [])" by (rule obj_run.start [OF demo_run]) (simp add: demo_objects_def)
  have i: "rt_object_get_information 9 = Some 7" by (simp add: rt_object_get_information_def rt_object_container_def upt_rec)
  have e: "rt_object_init 256 9 (c_bytes ''uart1'') demo_objects = Some demo_console"
    using object_init_eq [OF _ i, of demo_objects "\<lambda>_. []" 256 "c_bytes ''uart1''"] obj_run_inv [OF s]
    by (simp add: demo_console_def demo_objects_def RT_Object_Class_Static_def strncpy_into_def c_bytes_def)
  have "\<not> in_heap demo_heap 256" by (simp add: in_heap_def demo_heap_eq)
  then show ?thesis using obj_run.init [OF s _ _ _ _ i e] by (simp add: demo_objects_def)
qed

theorem object_search_correct_witness:
  "rt_object_find (Some (c_bytes ''uart1'')) 9 demo_console = Some (Some 256)"
proof -
  have n: "name_is (c_bytes ''uart1'') demo_console 256"
    by (simp add: name_is_def demo_console_def c_bytes_def buf_string_def takeWhile_append numeral_3_eq_3)
  have "rt_object_container ! 7 = 9" by (simp add: rt_object_container_def)
  then show ?thesis
    using object_search_correct [OF demo_console_run, of 7 "c_bytes ''uart1''"] n by (fastforce simp: Cons_eq_append_conv)
qed

end
