(* ===== verification/Rt_Device.thy ===== *)
theory Rt_Device
  imports Rt_Object Rt_Mailbox
begin

text \<open>
  Devices (\<open>rt-thread/src/device.c\<close>): a kernel object with the functions of its driver. A device
  in use is its structure without the object part (\<open>rt_device\<close>) and the data of the driver; the
  functions of the driver work on both and may be missing. \<open>None\<close> is a failed assertion, here or
  in the driver. \<open>ty\<close> is the type of the object, which every operation checks. The theory shows
  that the number of users is counted, that a stand-alone device has one user, and that the
  driver is opened and closed when it must be.
\<close>

section \<open>State and drivers\<close>

definition RT_DEVICE_FLAG_STANDALONE :: u16 where "RT_DEVICE_FLAG_STANDALONE = 0x008"
definition RT_DEVICE_FLAG_ACTIVATED :: u16 where "RT_DEVICE_FLAG_ACTIVATED = 0x010"
definition RT_DEVICE_OFLAG_CLOSE :: u16 where "RT_DEVICE_OFLAG_CLOSE = 0x000"
definition RT_DEVICE_OFLAG_OPEN :: u16 where "RT_DEVICE_OFLAG_OPEN = 0x008"
definition RT_DEVICE_OFLAG_MASK :: u16 where "RT_DEVICE_OFLAG_MASK = 0xf0f"
definition RT_ENOSYS :: int where "RT_ENOSYS = 6"
definition RT_EBUSY :: int where "RT_EBUSY = 7"

record rt_device =
  dev_flag :: u16
  open_flag :: u16
  ref_count :: u8
  rx_indicate :: bool
  tx_complete :: bool

type_synonym 'd dev = "rt_device \<times> 'd"

record ('d, 'a) device_ops =
  device_init :: "('d dev \<Rightarrow> ('d dev \<times> int) option) option"
  device_open :: "(u16 \<Rightarrow> 'd dev \<Rightarrow> ('d dev \<times> int) option) option"
  device_close :: "('d dev \<Rightarrow> ('d dev \<times> int) option) option"
  device_read :: "(nat \<Rightarrow> 'd dev \<Rightarrow> ('d dev \<times> u8 list) option) option"
  device_write :: "(u8 list \<Rightarrow> 'd dev \<Rightarrow> ('d dev \<times> nat) option) option"
  device_control :: "(int \<Rightarrow> 'a \<Rightarrow> 'd dev \<Rightarrow> ('d dev \<times> int) option) option"

definition has :: "u16 \<Rightarrow> u16 \<Rightarrow> bool" where
  "has flags f \<longleftrightarrow> flags AND f \<noteq> 0"

section \<open>Registration\<close>

definition rt_device_find :: "u8 list \<Rightarrow> obj_world \<Rightarrow> nat option option" where
  "rt_device_find name w =
     (case rt_object_get_information RT_Object_Class_Device of None \<Rightarrow> None
      | Some i \<Rightarrow> list_search (name_is name w) (obj_links w) i (nxt (obj_links w) i))"

text \<open>\<open>devs\<close> are the structures behind the objects.\<close>

definition rt_device_register :: "nat option \<Rightarrow> u8 list \<Rightarrow> u16 \<Rightarrow> obj_world \<times> (nat \<Rightarrow> rt_device) \<Rightarrow> ((obj_world \<times> (nat \<Rightarrow> rt_device)) \<times> int) option" where
  "rt_device_register dev name flags = (\<lambda>(w, devs).
     case dev of None \<Rightarrow> Some ((w, devs), - RT_ERROR)
     | Some a \<Rightarrow>
        (case rt_device_find name w of
           None \<Rightarrow> None
         | Some (Some _) \<Rightarrow> Some ((w, devs), - RT_ERROR)
         | Some None \<Rightarrow> map_option (\<lambda>w1. ((w1, devs(a := (devs a)\<lparr>dev_flag := flags, ref_count := 0, open_flag := 0\<rparr>)), RT_EOK))
             (rt_object_init a RT_Object_Class_Device name w)))"

definition rt_device_unregister :: "nat \<Rightarrow> obj_world \<Rightarrow> (obj_world \<times> int) option" where
  "rt_device_unregister dev w =
     (if rt_object_get_type dev w = RT_Object_Class_Device \<and> rt_object_is_systemobject dev w
      then Some (rt_object_detach dev w, RT_EOK) else None)"

text \<open>\<open>device_size\<close> is the size of the structure; the new device is not registered.\<close>

definition rt_device_create :: "u32 \<Rightarrow> u32 \<Rightarrow> obj_world \<times> rt_heap \<Rightarrow> ((obj_world \<times> rt_heap) \<times> nat option) option" where
  "rt_device_create device_size attach_size = (\<lambda>(w, h).
     case rt_malloc (RT_ALIGN device_size + RT_ALIGN attach_size) h of
       None \<Rightarrow> None
     | Some (h1, None) \<Rightarrow> Some ((w, h1), None)
     | Some (h1, Some p) \<Rightarrow>
         Some ((w\<lparr>obj_at := (obj_at w)(p := \<lparr>ob_name = replicate RT_NAME_MAX 0, ob_type = 0, ob_flag = 0\<rparr>),
             obj_links := set_nxt p 0 (set_prv p 0 (obj_links w))\<rparr>, h1), Some p))"

definition rt_device_destroy :: "nat \<Rightarrow> obj_world \<times> rt_heap \<Rightarrow> (obj_world \<times> rt_heap) option" where
  "rt_device_destroy dev = (\<lambda>(w, h).
     if rt_object_get_type dev w = RT_Object_Class_Device \<and> \<not> rt_object_is_systemobject dev w
     then map_option (Pair (rt_object_detach dev w)) (rt_free (Some dev) h) else None)"

section \<open>Opening and closing\<close>

definition set_activated :: "'d dev \<Rightarrow> 'd dev" where
  "set_activated = (\<lambda>(v, s). (v\<lparr>dev_flag := dev_flag v OR RT_DEVICE_FLAG_ACTIVATED\<rparr>, s))"

definition rt_device_init :: "('d, 'a) device_ops \<Rightarrow> 'd dev \<Rightarrow> ('d dev \<times> int) option" where
  "rt_device_init ops d =
     (case device_init ops of None \<Rightarrow> Some (d, RT_EOK)
      | Some f \<Rightarrow> if \<not> has (dev_flag (fst d)) RT_DEVICE_FLAG_ACTIVATED
          then map_option (\<lambda>(d1, result). if result \<noteq> RT_EOK then (d1, result) else (set_activated d1, result)) (f d)
          else Some (d, RT_EOK))"

definition open_activate :: "('d, 'a) device_ops \<Rightarrow> 'd dev \<Rightarrow> ('d dev \<times> int) option" where
  "open_activate ops d =
     (if \<not> has (dev_flag (fst d)) RT_DEVICE_FLAG_ACTIVATED
      then (case device_init ops of None \<Rightarrow> Some (set_activated d, RT_EOK)
        | Some f \<Rightarrow> map_option (\<lambda>(d1, result). if result \<noteq> RT_EOK then (d1, result) else (set_activated d1, result)) (f d))
      else Some (d, RT_EOK))"

definition open_finish :: "'d dev \<times> int \<Rightarrow> ('d dev \<times> int) option" where
  "open_finish = (\<lambda>((v, s), result).
     if result = RT_EOK \<or> result = - RT_ENOSYS
     then let v1 = v\<lparr>open_flag := open_flag v OR RT_DEVICE_OFLAG_OPEN, ref_count := ref_count v + 1\<rparr>
       in if ref_count v1 = 0 then None else Some ((v1, s), result)
     else Some ((v, s), result))"

definition rt_device_open :: "('d, 'a) device_ops \<Rightarrow> u8 \<Rightarrow> u16 \<Rightarrow> 'd dev \<Rightarrow> ('d dev \<times> int) option" where
  "rt_device_open ops ty oflag d =
     (if ty \<noteq> RT_Object_Class_Device then None
      else case open_activate ops d of None \<Rightarrow> None
        | Some ((v, s), result) \<Rightarrow>
            if result \<noteq> RT_EOK then Some ((v, s), result)
            else if has (dev_flag v) RT_DEVICE_FLAG_STANDALONE \<and> has (open_flag v) RT_DEVICE_OFLAG_OPEN
            then Some ((v, s), - RT_EBUSY)
            else (case device_open ops of
                None \<Rightarrow> open_finish ((v\<lparr>open_flag := oflag AND RT_DEVICE_OFLAG_MASK\<rparr>, s), result)
              | Some f \<Rightarrow> Option.bind (f oflag (v, s)) open_finish))"

definition close_finish :: "'d dev \<times> int \<Rightarrow> 'd dev \<times> int" where
  "close_finish = (\<lambda>((v, s), result).
     if result = RT_EOK \<or> result = - RT_ENOSYS then ((v\<lparr>open_flag := RT_DEVICE_OFLAG_CLOSE\<rparr>, s), result)
     else ((v, s), result))"

definition rt_device_close :: "('d, 'a) device_ops \<Rightarrow> u8 \<Rightarrow> 'd dev \<Rightarrow> ('d dev \<times> int) option" where
  "rt_device_close ops ty = (\<lambda>(v, s).
     if ty \<noteq> RT_Object_Class_Device then None
     else if ref_count v = 0 then Some ((v, s), - RT_ERROR)
     else let v1 = v\<lparr>ref_count := ref_count v - 1\<rparr> in
       if ref_count v1 \<noteq> 0 then Some ((v1, s), RT_EOK)
       else (case device_close ops of None \<Rightarrow> Some (close_finish ((v1, s), RT_EOK))
         | Some f \<Rightarrow> map_option close_finish (f (v1, s))))"

section \<open>Reading, writing, control\<close>

definition rt_device_read :: "('d, 'a) device_ops \<Rightarrow> u8 \<Rightarrow> nat \<Rightarrow> 'd dev \<Rightarrow> ('d dev \<times> u8 list) option" where
  "rt_device_read ops ty sz d =
     (if ty \<noteq> RT_Object_Class_Device then None
      else if ref_count (fst d) = 0 then Some (d, [])
      else case device_read ops of None \<Rightarrow> Some (d, []) | Some f \<Rightarrow> f sz d)"

definition rt_device_write :: "('d, 'a) device_ops \<Rightarrow> u8 \<Rightarrow> u8 list \<Rightarrow> 'd dev \<Rightarrow> ('d dev \<times> nat) option" where
  "rt_device_write ops ty buffer d =
     (if ty \<noteq> RT_Object_Class_Device then None
      else if ref_count (fst d) = 0 then Some (d, 0)
      else case device_write ops of None \<Rightarrow> Some (d, 0) | Some f \<Rightarrow> f buffer d)"

definition rt_device_control :: "('d, 'a) device_ops \<Rightarrow> u8 \<Rightarrow> int \<Rightarrow> 'a \<Rightarrow> 'd dev \<Rightarrow> ('d dev \<times> int) option" where
  "rt_device_control ops ty cmd arg d =
     (if ty \<noteq> RT_Object_Class_Device then None
      else case device_control ops of None \<Rightarrow> Some (d, - RT_ENOSYS) | Some f \<Rightarrow> f cmd arg d)"

definition rt_device_set_rx_indicate :: "u8 \<Rightarrow> bool \<Rightarrow> 'd dev \<Rightarrow> ('d dev \<times> int) option" where
  "rt_device_set_rx_indicate ty rx_ind = (\<lambda>(v, s).
     if ty \<noteq> RT_Object_Class_Device then None else Some ((v\<lparr>rx_indicate := rx_ind\<rparr>, s), RT_EOK))"

definition rt_device_set_tx_complete :: "u8 \<Rightarrow> bool \<Rightarrow> 'd dev \<Rightarrow> ('d dev \<times> int) option" where
  "rt_device_set_tx_complete ty tx_done = (\<lambda>(v, s).
     if ty \<noteq> RT_Object_Class_Device then None else Some ((v\<lparr>tx_complete := tx_done\<rparr>, s), RT_EOK))"

section \<open>Counting the users\<close>

text \<open>What the users of a device do, and how many of them have it open. A user that opened it
  closes it once.\<close>

inductive dev_run :: "('d, 'a) device_ops \<Rightarrow> 'd dev \<Rightarrow> nat \<Rightarrow> 'd dev \<Rightarrow> bool" for ops d0 where
  start: "ref_count (fst d0) = 0 \<Longrightarrow> open_flag (fst d0) = 0 \<Longrightarrow> dev_run ops d0 0 d0"
| acquire: "dev_run ops d0 n d \<Longrightarrow> rt_device_open ops RT_Object_Class_Device oflag d = Some (d', e) \<Longrightarrow>
    dev_run ops d0 (if e = RT_EOK \<or> e = - RT_ENOSYS then n + 1 else n) d'"
| drop: "dev_run ops d0 n d \<Longrightarrow> 0 < n \<Longrightarrow> rt_device_close ops RT_Object_Class_Device d = Some (d', e) \<Longrightarrow> dev_run ops d0 (n - 1) d'"
| prepare: "dev_run ops d0 n d \<Longrightarrow> rt_device_init ops d = Some (d', e) \<Longrightarrow> dev_run ops d0 n d'"
| get: "dev_run ops d0 n d \<Longrightarrow> rt_device_read ops RT_Object_Class_Device sz d = Some (d', bs) \<Longrightarrow> dev_run ops d0 n d'"
| put: "dev_run ops d0 n d \<Longrightarrow> rt_device_write ops RT_Object_Class_Device bs d = Some (d', k) \<Longrightarrow> dev_run ops d0 n d'"
| ctrl: "dev_run ops d0 n d \<Longrightarrow> rt_device_control ops RT_Object_Class_Device cmd arg d = Some (d', e) \<Longrightarrow> dev_run ops d0 n d'"
| indicate: "dev_run ops d0 n d \<Longrightarrow> rt_device_set_rx_indicate RT_Object_Class_Device b d = Some (d', e) \<Longrightarrow> dev_run ops d0 n d'"
| complete: "dev_run ops d0 n d \<Longrightarrow> rt_device_set_tx_complete RT_Object_Class_Device b d = Some (d', e) \<Longrightarrow> dev_run ops d0 n d'"

text \<open>What a driver promises: it keeps the user count and the two flags that \<open>device.c\<close> relies on,
  and its functions other than open and close keep the mark that the device is open. Setting it up must
  not fail with \<open>-RT_ENOSYS\<close>, which \<open>rt_device_open\<close> returns also for a device that it opened.\<close>

definition same_use :: "'d dev \<Rightarrow> 'd dev \<Rightarrow> bool" where
  "same_use d' d \<longleftrightarrow> ref_count (fst d') = ref_count (fst d) \<and>
     (\<forall>f \<in> {RT_DEVICE_FLAG_STANDALONE, RT_DEVICE_FLAG_ACTIVATED}. has (dev_flag (fst d')) f = has (dev_flag (fst d)) f)"

definition same_open :: "'d dev \<Rightarrow> 'd dev \<Rightarrow> bool" where
  "same_open d' d \<longleftrightarrow> same_use d' d \<and> has (open_flag (fst d')) RT_DEVICE_OFLAG_OPEN = has (open_flag (fst d)) RT_DEVICE_OFLAG_OPEN"

definition counted :: "nat \<Rightarrow> 'd dev \<Rightarrow> bool" where
  "counted n d \<longleftrightarrow> unat (ref_count (fst d)) = n \<and> (0 < n \<longleftrightarrow> has (open_flag (fst d)) RT_DEVICE_OFLAG_OPEN) \<and>
     (0 < n \<longrightarrow> has (dev_flag (fst d)) RT_DEVICE_FLAG_ACTIVATED) \<and>
     (has (dev_flag (fst d)) RT_DEVICE_FLAG_STANDALONE \<longrightarrow> n \<le> 1)"

lemma counted_same: "counted n d \<Longrightarrow> same_open d' d \<Longrightarrow> counted n d'"
  by (simp add: counted_def same_open_def same_use_def)

lemma has_or:
  "has (x OR RT_DEVICE_OFLAG_OPEN) RT_DEVICE_OFLAG_OPEN" "has (x OR RT_DEVICE_FLAG_ACTIVATED) RT_DEVICE_FLAG_ACTIVATED"
  "has (x OR RT_DEVICE_FLAG_ACTIVATED) RT_DEVICE_FLAG_STANDALONE = has x RT_DEVICE_FLAG_STANDALONE"
  "\<not> has RT_DEVICE_OFLAG_CLOSE f"
proof -
  have "(x OR 8) AND 8 \<noteq> 0"
  proof
    assume "(x OR 8) AND 8 = 0"
    then have "bit ((x OR 8) AND 8) 3 = bit (0 :: u16) 3" by simp
    then show False by (simp add: bit_and_iff bit_or_iff)
  qed
  moreover have "(x OR 16) AND 16 \<noteq> 0"
  proof
    assume "(x OR 16) AND 16 = 0"
    then have "bit ((x OR 16) AND 16) 4 = bit (0 :: u16) 4" by simp
    then show False by (simp add: bit_and_iff bit_or_iff)
  qed
  ultimately show "has (x OR RT_DEVICE_OFLAG_OPEN) RT_DEVICE_OFLAG_OPEN" "has (x OR RT_DEVICE_FLAG_ACTIVATED) RT_DEVICE_FLAG_ACTIVATED"
    by (simp_all add: has_def RT_DEVICE_OFLAG_OPEN_def RT_DEVICE_FLAG_ACTIVATED_def)
qed (simp_all add: has_def RT_DEVICE_FLAG_ACTIVATED_def RT_DEVICE_FLAG_STANDALONE_def RT_DEVICE_OFLAG_CLOSE_def bit.conj_disj_distrib2)

lemma unat_inc8: "(n :: u8) + 1 \<noteq> 0 \<Longrightarrow> unat (n + 1) = unat n + 1"
  by (metis Suc_eq_plus1 add.commute unatSuc)

lemma unat_dec8: "(n :: u8) \<noteq> 0 \<Longrightarrow> unat (n - 1) = unat n - 1"
  by (rule unat_minus_one)

locale device_driver =
  fixes ops :: "('d, 'a) device_ops"
  assumes init_keeps: "device_init ops = Some f \<Longrightarrow> f d = Some (d', e) \<Longrightarrow> same_open d' d \<and> e \<noteq> - RT_ENOSYS"
    and open_keeps: "device_open ops = Some g \<Longrightarrow> g oflag d = Some (d', e) \<Longrightarrow>
      (if e = RT_EOK \<or> e = - RT_ENOSYS then same_use d' d else same_open d' d)"
    and close_keeps: "device_close ops = Some f \<Longrightarrow> f d = Some (d', e) \<Longrightarrow> same_use d' d \<and> (e = RT_EOK \<or> e = - RT_ENOSYS)"
    and read_keeps: "device_read ops = Some r \<Longrightarrow> r sz d = Some (d', bs) \<Longrightarrow> same_open d' d"
    and write_keeps: "device_write ops = Some w \<Longrightarrow> w bs d = Some (d', k) \<Longrightarrow> same_open d' d"
    and control_keeps: "device_control ops = Some c \<Longrightarrow> c cmd arg d = Some (d', e) \<Longrightarrow> same_open d' d"
begin

lemma init_step: "device_init ops = Some f \<Longrightarrow> f d = Some (d1, r) \<Longrightarrow> counted n d \<Longrightarrow> counted n d1 \<and> r \<noteq> - RT_ENOSYS"
  using counted_same init_keeps by blast

lemma activated: "counted n x \<Longrightarrow> counted n (set_activated x)" "has (dev_flag (fst (set_activated x))) RT_DEVICE_FLAG_ACTIVATED"
  by (cases x; simp add: counted_def set_activated_def has_or)+

lemma activate_counted:
  assumes "counted n d" and "open_activate ops d = Some (d', e)"
  shows "counted n d' \<and> (e = RT_EOK \<longrightarrow> has (dev_flag (fst d')) RT_DEVICE_FLAG_ACTIVATED) \<and> e \<noteq> - RT_ENOSYS"
proof (cases "device_init ops")
  case None
  then show ?thesis using assms activated(1) [of n d] activated(2) [of d] by (auto simp: open_activate_def RT_EOK_def RT_ENOSYS_def split: if_splits)
next
  case (Some f)
  show ?thesis
  proof (cases "has (dev_flag (fst d)) RT_DEVICE_FLAG_ACTIVATED")
    case True
    then show ?thesis using assms by (simp add: open_activate_def RT_EOK_def RT_ENOSYS_def)
  next
    case False
    then obtain d1 r where f: "f d = Some (d1, r)" "(d', e) = (if r \<noteq> RT_EOK then (d1, r) else (set_activated d1, r))"
      using assms(2) Some by (auto simp: open_activate_def split: if_splits)
    then show ?thesis using init_step [OF Some f(1) assms(1)] activated(1) [of n d1] activated(2) [of d1] by (auto split: if_splits)
  qed
qed

lemma open_counted:
  assumes c: "counted n d" and o': "rt_device_open ops RT_Object_Class_Device oflag d = Some (d', e)"
  shows "counted (if e = RT_EOK \<or> e = - RT_ENOSYS then n + 1 else n) d'"
proof -
  obtain v s r where a: "open_activate ops d = Some ((v, s), r)"
    using o' by (auto simp: rt_device_open_def split: if_splits option.splits)
  have c1: "counted n (v, s)" "r = RT_EOK \<Longrightarrow> has (dev_flag v) RT_DEVICE_FLAG_ACTIVATED" "r \<noteq> - RT_ENOSYS"
    using activate_counted [OF c a] by simp_all
  show ?thesis
  proof (cases "r = RT_EOK \<and> \<not> (has (dev_flag v) RT_DEVICE_FLAG_STANDALONE \<and> has (open_flag v) RT_DEVICE_OFLAG_OPEN)")
    case False
    then have "d' = (v, s)" "e \<noteq> RT_EOK" "e \<noteq> - RT_ENOSYS"
      using o' a c1(3) by (auto simp: rt_device_open_def RT_EOK_def RT_ENOSYS_def RT_EBUSY_def split: if_splits)
    then show ?thesis using c1(1) by simp
  next
    case True
    obtain d1 r1 where f: "open_finish (d1, r1) = Some (d', e)"
      "if r1 = RT_EOK \<or> r1 = - RT_ENOSYS then same_use d1 (v, s) else same_open d1 (v, s)"
    proof (cases "device_open ops")
      case None
      then show thesis using that [of "(v\<lparr>open_flag := oflag AND RT_DEVICE_OFLAG_MASK\<rparr>, s)" r] o' a True
        by (simp add: rt_device_open_def same_use_def)
    next
      case (Some f)
      then obtain d1 r1 where "f oflag (v, s) = Some (d1, r1)" "open_finish (d1, r1) = Some (d', e)"
        using o' a True by (auto simp: rt_device_open_def split: Option.bind_splits)
      then show thesis using that open_keeps [OF Some] by blast
    qed
    show ?thesis
    proof (cases "r1 = RT_EOK \<or> r1 = - RT_ENOSYS")
      case False
      then show ?thesis using f counted_same [OF c1(1)] by (auto simp: open_finish_def Let_def split: prod.splits)
    next
      case g: True
      obtain v1 s1 where d1: "d1 = (v1, s1)" by (cases d1)
      have u: "ref_count v1 = ref_count v" "has (dev_flag v1) RT_DEVICE_FLAG_STANDALONE = has (dev_flag v) RT_DEVICE_FLAG_STANDALONE"
        "has (dev_flag v1) RT_DEVICE_FLAG_ACTIVATED = has (dev_flag v) RT_DEVICE_FLAG_ACTIVATED"
        using f(2) g by (simp_all add: same_use_def d1)
      have e: "e = r1" "ref_count v1 + 1 \<noteq> 0" "d' = (v1\<lparr>open_flag := open_flag v1 OR RT_DEVICE_OFLAG_OPEN, ref_count := ref_count v1 + 1\<rparr>, s1)"
        using f(1) g by (simp_all add: open_finish_def d1 Let_def split: if_splits)
      then show ?thesis using c1 True u g unat_inc8 [OF e(2)] by (auto simp: counted_def has_or)
    qed
  qed
qed

lemma close_counted:
  assumes c: "counted n d" and n: "0 < n" and o': "rt_device_close ops RT_Object_Class_Device d = Some (d', e)"
  shows "counted (n - 1) d'"
proof -
  obtain v s where d: "d = (v, s)" by (cases d)
  have rc: "ref_count v \<noteq> 0" using c n by (auto simp: counted_def d)
  define v1 where "v1 = v\<lparr>ref_count := ref_count v - 1\<rparr>"
  have u: "unat (ref_count v1) = n - 1" using unat_dec8 [OF rc] c by (simp add: v1_def counted_def d)
  show ?thesis
  proof (cases "ref_count v1 = 0")
    case False
    then have "d' = (v1, s)" "0 < n - 1" using o' rc u unat_gt_0 [of "ref_count v1"] by (auto simp: rt_device_close_def d v1_def Let_def)
    then show ?thesis using c u by (auto simp: counted_def d v1_def)
  next
    case True
    obtain d1 r1 where "d' = fst (close_finish (d1, r1))" "same_use d1 (v1, s)" "r1 = RT_EOK \<or> r1 = - RT_ENOSYS"
    proof (cases "device_close ops")
      case None
      then show thesis using that [of "(v1, s)" RT_EOK] o' rc True
        by (simp add: rt_device_close_def d v1_def Let_def same_use_def)
    next
      case (Some f)
      then obtain d1 r1 where "f (v1, s) = Some (d1, r1)" "(d', e) = close_finish (d1, r1)"
        using o' rc True by (auto simp: rt_device_close_def d v1_def Let_def)
      then show thesis using that close_keeps [OF Some] by (metis fst_conv)
    qed
    then show ?thesis using c u True by (auto simp: counted_def close_finish_def same_use_def has_or d v1_def split: prod.splits)
  qed
qed

lemma users_counted: "dev_run ops d0 n d \<Longrightarrow> counted n d"
proof (induction rule: dev_run.induct)
  case start
  then show ?case by (simp add: counted_def has_def)
next
  case (acquire n d oflag d' e)
  then show ?case using open_counted by blast
next
  case (drop n d d' e)
  then show ?case using close_counted by blast
next
  case (prepare n d d' e)
  show ?case
  proof (cases "device_init ops = None \<or> has (dev_flag (fst d)) RT_DEVICE_FLAG_ACTIVATED")
    case True
    then show ?thesis using prepare.IH prepare.hyps(2) by (auto simp: rt_device_init_def split: option.splits)
  next
    case False
    then obtain f d1 r where f: "device_init ops = Some f" "f d = Some (d1, r)" "(d', e) = (if r \<noteq> RT_EOK then (d1, r) else (set_activated d1, r))"
      using prepare.hyps(2) by (auto simp: rt_device_init_def split: if_splits)
    then show ?thesis using init_step [OF f(1,2) prepare.IH] activated(1) [of n d1] activated(2) [of d1] by (auto split: if_splits)
  qed
next
  case (get n d sz d' bs)
  then show ?case using counted_same [OF get.IH read_keeps] by (auto simp: rt_device_read_def split: if_splits option.splits)
next
  case (put n d bs d' k)
  then show ?case using counted_same [OF put.IH write_keeps] by (auto simp: rt_device_write_def split: if_splits option.splits)
next
  case (ctrl n d cmd arg d' e)
  then show ?case using counted_same [OF ctrl.IH control_keeps] by (auto simp: rt_device_control_def split: if_splits option.splits)
next
  case (indicate n d b d' e)
  then show ?case by (cases d) (auto simp: rt_device_set_rx_indicate_def counted_def)
next
  case (complete n d b d' e)
  then show ?case by (cases d) (auto simp: rt_device_set_tx_complete_def counted_def)
qed

text \<open>A stand-alone device in use is busy for everybody else; any device takes 255 users.\<close>

lemma standalone_busy:
  assumes "dev_run ops d0 n d" and "has (dev_flag (fst d)) RT_DEVICE_FLAG_STANDALONE" and "0 < n"
  shows "rt_device_open ops RT_Object_Class_Device oflag d = Some (d, - RT_EBUSY)"
  using users_counted [OF assms(1)] assms(2,3)
  by (cases d) (auto simp: counted_def rt_device_open_def open_activate_def)

end

section \<open>Where the code does not keep its promise\<close>

text \<open>The 256th user fails an assertion: the count has eight bits.\<close>

lemma open_finish_limit: "ref_count v = 255 \<Longrightarrow> open_finish ((v, s), RT_EOK) = None"
  by (simp add: open_finish_def)

text \<open>When the driver refuses to close, the user count is 0 but the device stays marked as open: a
  stand-alone device is then busy for ever, since it cannot be closed again.\<close>

lemma failed_close_stays_busy:
  assumes "device_close ops = Some (\<lambda>d. Some (d, - RT_ERROR))" and "ref_count v = 1" and "has (open_flag v) RT_DEVICE_OFLAG_OPEN"
    and "has (dev_flag v) RT_DEVICE_FLAG_STANDALONE" and "has (dev_flag v) RT_DEVICE_FLAG_ACTIVATED"
  shows "\<exists>v'. rt_device_close ops RT_Object_Class_Device (v, s) = Some ((v', s), - RT_ERROR) \<and>
    rt_device_open ops RT_Object_Class_Device oflag (v', s) = Some ((v', s), - RT_EBUSY) \<and>
    rt_device_close ops RT_Object_Class_Device (v', s) = Some ((v', s), - RT_ERROR)"
  using assms
  by (auto simp: rt_device_close_def rt_device_open_def open_activate_def close_finish_def RT_ERROR_def RT_EOK_def RT_ENOSYS_def)

text \<open>A device that came from \<open>rt_device_create\<close> can never be destroyed: unregistered it is no device,
  registered it is a static object, and unregistered again it is no device.\<close>

lemma device_never_destroyed:
  shows "rt_device_create ds as (w, h) = Some ((w1, h1), Some a) \<Longrightarrow> rt_device_destroy a (w1, h') = None"
    and "rt_device_register (Some a) name flags (w, devs) = Some ((w2, devs'), RT_EOK) \<Longrightarrow> rt_device_destroy a (w2, h') = None"
    and "rt_device_unregister a w = Some (w3, e) \<Longrightarrow> rt_device_destroy a (w3, h') = None"
proof -
  show "rt_device_create ds as (w, h) = Some ((w1, h1), Some a) \<Longrightarrow> rt_device_destroy a (w1, h') = None"
    by (auto simp: rt_device_create_def rt_device_destroy_def rt_object_get_type_def RT_Object_Class_Device_def split: option.splits)
  have "rt_object_is_systemobject a w2" if "rt_object_init a ty name w = Some w2" for ty
    using that static_bit [of ty] by (auto simp: rt_object_init_def rt_object_is_systemobject_def split: option.splits)
  then show "rt_device_register (Some a) name flags (w, devs) = Some ((w2, devs'), RT_EOK) \<Longrightarrow> rt_device_destroy a (w2, h') = None"
    by (auto simp: rt_device_register_def rt_device_destroy_def RT_EOK_def RT_ERROR_def split: option.splits)
  show "rt_device_unregister a w = Some (w3, e) \<Longrightarrow> rt_device_destroy a (w3, h') = None"
    by (auto simp: rt_device_unregister_def rt_device_destroy_def rt_object_detach_def rt_object_get_type_def
        RT_Object_Class_Device_def split: if_splits)
qed

end
