(* ===== verification/Rt_Dataqueue.thy ===== *)
theory Rt_Dataqueue
  imports Rt_Mailbox Rt_Heap
begin

text \<open>
  Completions and data queues of the device drivers (\<open>components/drivers/src/completion.c\<close> and
  \<open>dataqueue.c\<close>). A completion is a flag and the one thread that waits for it; a data queue is a
  ring of pointers to data, with 16-bit indices that count up and are reduced only when the ring is
  accessed, and with two lists of waiting threads. The calls that may wait are cut at
  \<open>rt_schedule\<close>. \<open>None\<close> is a failed assertion, a null pointer that is followed or a division by
  zero. The theory shows that the queue is first in, first out and that no wake-up is lost as
  long as the indices have not overflowed, and that it loses data once they have.
\<close>

section \<open>Completions\<close>

definition RT_COMPLETED :: u32 where "RT_COMPLETED = 1"
definition RT_UNCOMPLETED :: u32 where "RT_UNCOMPLETED = 0"

record rt_completion =
  cp_flag :: u32
  cp_waiting :: "rt_thread list"

datatype wait_result = Wait_return int | Wait_suspended "int option"

definition rt_completion_init :: rt_completion where
  "rt_completion_init = \<lparr>cp_flag = RT_UNCOMPLETED, cp_waiting = []\<rparr>"

definition rt_completion_wait :: "rt_completion \<Rightarrow> int \<Rightarrow> rt_thread \<Rightarrow> (rt_completion \<times> wait_result) option" where
  "rt_completion_wait c timeout self =
     (if cp_flag c \<noteq> RT_COMPLETED
      then if cp_waiting c \<noteq> [] then None
        else if timeout = 0 then Some (c, Wait_return (- RT_ETIMEOUT))
        else let thread = self\<lparr>thread_error := RT_EOK\<rparr> in
          Some (c\<lparr>cp_waiting := cp_waiting c @ [thread]\<rparr>, Wait_suspended (if timeout > 0 then Some timeout else None))
      else Some (c\<lparr>cp_flag := RT_UNCOMPLETED\<rparr>, Wait_return RT_EOK))"

definition completion_resume :: "rt_completion \<Rightarrow> rt_thread \<Rightarrow> rt_completion \<times> int" where
  "completion_resume c thread = (c\<lparr>cp_flag := RT_UNCOMPLETED\<rparr>, thread_error thread)"

definition rt_completion_done :: "rt_completion \<Rightarrow> rt_completion \<times> woken" where
  "rt_completion_done c =
     (if cp_flag c = RT_COMPLETED then (c, None)
      else let (xs, w) = wake_first (cp_waiting c) in (c\<lparr>cp_flag := RT_COMPLETED, cp_waiting := xs\<rparr>, w))"

definition completion_timeout :: "rt_thread \<Rightarrow> rt_completion \<Rightarrow> rt_completion \<times> rt_thread" where
  "completion_timeout t c = (c\<lparr>cp_waiting := remove1 t (cp_waiting c)\<rparr>, t\<lparr>thread_error := - RT_ETIMEOUT\<rparr>)"

section \<open>Data queues\<close>

definition RT_EEMPTY :: int where "RT_EEMPTY = 4"
definition RT_ENOMEM :: int where "RT_ENOMEM = 5"
definition RT_DATAQUEUE_EVENT_POP :: u32 where "RT_DATAQUEUE_EVENT_POP = 1"
definition RT_DATAQUEUE_EVENT_PUSH :: u32 where "RT_DATAQUEUE_EVENT_PUSH = 2"
definition RT_DATAQUEUE_EVENT_LWM :: u32 where "RT_DATAQUEUE_EVENT_LWM = 3"

text \<open>A pointer and a length.\<close>

type_synonym rt_data_item = "nat \<times> u32"

text \<open>\<open>dq_notify\<close>: there is a function to be told of events. No function reads \<open>waiting_lwm\<close>.\<close>

record rt_data_queue =
  dq_size :: u16
  dq_lwm :: u16
  dq_get :: u16
  dq_put :: u16
  dq_queue :: "rt_data_item list option"
  dq_push_list :: "rt_thread list"
  dq_pop_list :: "rt_thread list"
  dq_notify :: bool

text \<open>\<open>Dq_item\<close> is a pop that returns \<open>RT_EOK\<close>.\<close>

datatype dq_result = Dq_return int | Dq_item rt_data_item | Dq_suspended "int option"

text \<open>The queue, what the call does, the thread it makes ready, and the event it reports.\<close>

type_synonym dq_step = "rt_data_queue \<times> dq_result \<times> woken \<times> u32 option"

text \<open>The indices are promoted to \<open>int\<close> before they are subtracted.\<close>

definition dq_used :: "rt_data_queue \<Rightarrow> int" where
  "dq_used q = uint (dq_put q) - uint (dq_get q)"

definition rt_data_queue_init :: "u16 \<Rightarrow> u16 \<Rightarrow> bool \<Rightarrow> rt_heap \<Rightarrow> (rt_data_queue \<times> rt_heap \<times> int) option" where
  "rt_data_queue_init sz lwm evt_notify h =
     map_option (\<lambda>(h1, p).
       (\<lparr>dq_size = sz, dq_lwm = lwm, dq_get = 0, dq_put = 0,
          dq_queue = map_option (\<lambda>_. replicate (unat sz) (0, 0)) p, dq_push_list = [], dq_pop_list = [], dq_notify = evt_notify\<rparr>,
        h1, if p = None then - RT_ENOMEM else RT_EOK))
       (rt_malloc (8 * ucast sz) h)"

definition dq_store :: "rt_data_queue \<Rightarrow> rt_data_item \<Rightarrow> dq_step option" where
  "dq_store q item =
     (case dq_queue q of None \<Rightarrow> None
      | Some items \<Rightarrow> if dq_size q = 0 then None
          else let q1 = q\<lparr>dq_queue := Some (items[unat (dq_put q mod dq_size q) := item]), dq_put := dq_put q + 1\<rparr>;
              (xs, w) = wake_first (dq_pop_list q1)
            in Some (q1\<lparr>dq_pop_list := xs\<rparr>, Dq_return RT_EOK, w,
                 if w = None \<and> dq_notify q1 then Some RT_DATAQUEUE_EVENT_PUSH else None))"

definition rt_data_queue_push :: "rt_data_queue \<Rightarrow> rt_data_item \<Rightarrow> int \<Rightarrow> rt_thread \<Rightarrow> dq_step option" where
  "rt_data_queue_push q item timeout self =
     (if dq_used q = uint (dq_size q)
      then if timeout = 0 then Some (q, Dq_return (- RT_ETIMEOUT), None, None)
        else let thread = self\<lparr>thread_error := RT_EOK\<rparr> in
          Some (q\<lparr>dq_push_list := dq_push_list q @ [thread]\<rparr>, Dq_suspended (if timeout > 0 then Some timeout else None), None, None)
      else dq_store q item)"

text \<open>A woken thread waits for its whole time again.\<close>

definition dq_push_resume :: "rt_data_queue \<Rightarrow> rt_data_item \<Rightarrow> int \<Rightarrow> rt_thread \<Rightarrow> dq_step option" where
  "dq_push_resume q item timeout thread =
     (if thread_error thread \<noteq> RT_EOK then Some (q, Dq_return (thread_error thread), None, None)
      else rt_data_queue_push q item timeout thread)"

definition dq_fetch :: "rt_data_queue \<Rightarrow> dq_step option" where
  "dq_fetch q =
     (case dq_queue q of None \<Rightarrow> None
      | Some items \<Rightarrow> if dq_size q = 0 then None
          else let item = items ! unat (dq_get q mod dq_size q); q1 = q\<lparr>dq_get := dq_get q + 1\<rparr>
            in if dq_used q1 \<le> uint (dq_lwm q1)
               then let (xs, w) = wake_first (dq_push_list q1)
                 in Some (q1\<lparr>dq_push_list := xs\<rparr>, Dq_item item, w, if dq_notify q1 then Some RT_DATAQUEUE_EVENT_LWM else None)
               else Some (q1, Dq_item item, None, if dq_notify q1 then Some RT_DATAQUEUE_EVENT_POP else None))"

definition rt_data_queue_pop :: "rt_data_queue \<Rightarrow> int \<Rightarrow> rt_thread \<Rightarrow> dq_step option" where
  "rt_data_queue_pop q timeout self =
     (if dq_get q = dq_put q
      then if timeout = 0 then Some (q, Dq_return (- RT_ETIMEOUT), None, None)
        else let thread = self\<lparr>thread_error := RT_EOK\<rparr> in
          Some (q\<lparr>dq_pop_list := dq_pop_list q @ [thread]\<rparr>, Dq_suspended (if timeout > 0 then Some timeout else None), None, None)
      else dq_fetch q)"

definition dq_pop_resume :: "rt_data_queue \<Rightarrow> int \<Rightarrow> rt_thread \<Rightarrow> dq_step option" where
  "dq_pop_resume q timeout thread =
     (if thread_error thread \<noteq> RT_EOK then Some (q, Dq_return (thread_error thread), None, None)
      else rt_data_queue_pop q timeout thread)"

definition rt_data_queue_peak :: "rt_data_queue \<Rightarrow> (int + rt_data_item) option" where
  "rt_data_queue_peak q =
     (if dq_get q = dq_put q then Some (Inl (- RT_EEMPTY))
      else case dq_queue q of None \<Rightarrow> None
        | Some items \<Rightarrow> if dq_size q = 0 then None else Some (Inr (items ! unat (dq_get q mod dq_size q))))"

text \<open>All waiting threads are made ready with an error; the data stay.\<close>

definition rt_data_queue_reset :: "rt_data_queue \<Rightarrow> rt_data_queue \<times> rt_thread list" where
  "rt_data_queue_reset q =
     (let (xs, ts) = rt_ipc_list_resume_all (dq_pop_list q); (ys, us) = rt_ipc_list_resume_all (dq_push_list q)
      in (q\<lparr>dq_pop_list := xs, dq_push_list := ys\<rparr>, ts @ us))"

section \<open>A completion is reported once\<close>

text \<open>With one waiting thread at a time, a completion that is done is what the next wait returns; a second
  \<open>done\<close> before that is the same completion.\<close>

lemma done_then_wait:
  assumes "cp_waiting c = []" and "rt_completion_done c = (c1, w)"
  shows "w = None" and "rt_completion_done c1 = (c1, None)"
    and "rt_completion_wait c1 timeout self = Some (c1\<lparr>cp_flag := RT_UNCOMPLETED\<rparr>, Wait_return RT_EOK)"
  using assms by (auto simp: rt_completion_done_def rt_completion_wait_def wake_first_def split: if_splits)

lemma wait_then_done:
  assumes "rt_completion_wait c timeout self = Some (c1, Wait_suspended tm)"
  shows "\<exists>c2. rt_completion_done c1 = (c2, Some (self\<lparr>thread_error := RT_EOK\<rparr>)) \<and>
    completion_resume c2 (self\<lparr>thread_error := RT_EOK\<rparr>) = (\<lparr>cp_flag = RT_UNCOMPLETED, cp_waiting = [], \<dots> = rt_completion.more c\<rparr>, RT_EOK)"
  using assms
  by (auto simp: rt_completion_wait_def rt_completion_done_def completion_resume_def wake_first_def rt_ipc_list_resume_def Let_def
      split: if_splits)

text \<open>A completion that arrives after the wait has timed out and before the thread runs is lost: the
  thread returns \<open>-RT_ETIMEOUT\<close> and clears the flag.\<close>

lemma late_completion_lost:
  assumes "rt_completion_wait c timeout self = Some (c1, Wait_suspended tm)"
    and "completion_timeout (self\<lparr>thread_error := RT_EOK\<rparr>) c1 = (c2, t)" and "rt_completion_done c2 = (c3, w)"
  shows "w = None" and "completion_resume c3 t = (c4, e) \<Longrightarrow> e = - RT_ETIMEOUT \<and> cp_flag c4 = RT_UNCOMPLETED"
  using assms
  by (auto simp: rt_completion_wait_def completion_timeout_def rt_completion_done_def completion_resume_def wake_first_def Let_def
      split: if_splits)

section \<open>First in, first out\<close>

text \<open>A queue in use: what was pushed and what was popped so far, and the threads that were made ready
  and have not run since, \<open>wr\<close> to pop and \<open>ws\<close> to push. The items, times and threads are arbitrary.\<close>

type_synonym dq_state = "rt_data_queue \<times> rt_data_item list \<times> rt_data_item list \<times> rt_thread list \<times> rt_thread list"

definition woken_list :: "woken \<Rightarrow> rt_thread list" where
  "woken_list w = (case w of None \<Rightarrow> [] | Some t \<Rightarrow> [t])"

definition stored :: "rt_data_item \<Rightarrow> dq_result \<Rightarrow> rt_data_item list" where
  "stored item r = (if r = Dq_return RT_EOK then [item] else [])"

definition fetched :: "dq_result \<Rightarrow> rt_data_item list" where
  "fetched r = (case r of Dq_item item \<Rightarrow> [item] | _ \<Rightarrow> [])"

inductive dq_run :: "rt_data_queue \<Rightarrow> dq_state \<Rightarrow> bool" for q0 where
  start: "dq_run q0 (q0, [], [], [], [])"
| push: "dq_run q0 (q, ins, outs, wr, ws) \<Longrightarrow> rt_data_queue_push q item tm t = Some (q', r, w, ev) \<Longrightarrow>
    dq_run q0 (q', ins @ stored item r, outs, wr @ woken_list w, ws)"
| pop: "dq_run q0 (q, ins, outs, wr, ws) \<Longrightarrow> rt_data_queue_pop q tm t = Some (q', r, w, ev) \<Longrightarrow>
    dq_run q0 (q', ins, outs @ fetched r, wr, ws @ woken_list w)"
| push_woken: "dq_run q0 (q, ins, outs, wr, ws) \<Longrightarrow> t \<in> set ws \<Longrightarrow> dq_push_resume q item tm t = Some (q', r, w, ev) \<Longrightarrow>
    dq_run q0 (q', ins @ stored item r, outs, wr @ woken_list w, remove1 t ws)"
| pop_woken: "dq_run q0 (q, ins, outs, wr, ws) \<Longrightarrow> t \<in> set wr \<Longrightarrow> dq_pop_resume q tm t = Some (q', r, w, ev) \<Longrightarrow>
    dq_run q0 (q', ins, outs @ fetched r, remove1 t wr, ws @ woken_list w)"
| pop_timeout: "dq_run q0 (q, ins, outs, wr, ws) \<Longrightarrow> dq_run q0 (q\<lparr>dq_pop_list := remove1 t (dq_pop_list q)\<rparr>, ins, outs, wr, ws)"
| push_timeout: "dq_run q0 (q, ins, outs, wr, ws) \<Longrightarrow> dq_run q0 (q\<lparr>dq_push_list := remove1 t (dq_push_list q)\<rparr>, ins, outs, wr, ws)"

definition dq_contents :: "rt_data_queue \<Rightarrow> rt_data_item list" where
  "dq_contents q = (case dq_queue q of None \<Rightarrow> []
     | Some items \<Rightarrow> map (\<lambda>i. items ! (i mod unat (dq_size q))) [unat (dq_get q)..<unat (dq_put q)])"

text \<open>The ring in order, before the indices overflow.\<close>

definition dq_ok :: "rt_data_queue \<Rightarrow> bool" where
  "dq_ok q \<longleftrightarrow> (\<exists>items. dq_queue q = Some items \<and> length items = unat (dq_size q)) \<and> 0 < unat (dq_size q) \<and>
     unat (dq_get q) \<le> unat (dq_put q) \<and> unat (dq_put q) - unat (dq_get q) \<le> unat (dq_size q)"

definition dq_waits :: "rt_data_queue \<Rightarrow> rt_thread list \<Rightarrow> rt_thread list \<Rightarrow> bool" where
  "dq_waits q wr ws \<longleftrightarrow> list_all (\<lambda>t. thread_error t = RT_EOK) (dq_pop_list q @ dq_push_list q @ wr @ ws) \<and>
     (dq_pop_list q \<noteq> [] \<longrightarrow> length (dq_contents q) \<le> length wr) \<and>
     (dq_push_list q \<noteq> [] \<longrightarrow> unat (dq_lwm q) < length (dq_contents q) + length ws)"

lemma mod_apart: "i < j \<Longrightarrow> j < i + n \<Longrightarrow> j mod n \<noteq> i mod (n :: nat)"
proof
  assume a: "i < j" "j < i + n" "j mod n = i mod n"
  then have "n dvd j - i" using mod_eq_dvd_iff_nat [of i j n] by simp
  then show False using a(1,2) by (auto dest: dvd_imp_le)
qed

lemma contents_update [simp]:
  "dq_contents (q\<lparr>dq_push_list := xs\<rparr>) = dq_contents q" "dq_contents (q\<lparr>dq_pop_list := xs\<rparr>) = dq_contents q"
  "dq_ok (q\<lparr>dq_push_list := xs\<rparr>) = dq_ok q" "dq_ok (q\<lparr>dq_pop_list := xs\<rparr>) = dq_ok q"
  by (simp_all add: dq_contents_def dq_ok_def split: option.splits)

lemma length_contents: "dq_ok q \<Longrightarrow> length (dq_contents q) = unat (dq_put q) - unat (dq_get q)"
  by (auto simp: dq_contents_def dq_ok_def)

lemma used_contents: "dq_ok q \<Longrightarrow> dq_used q = int (length (dq_contents q))"
  by (simp add: length_contents dq_used_def of_nat_diff dq_ok_def)

lemma full_iff: "dq_ok q \<Longrightarrow> dq_used q = uint (dq_size q) \<longleftrightarrow> length (dq_contents q) = unat (dq_size q)"
  by (metis used_contents of_nat_eq_iff uint_nat)

lemma empty_iff: "dq_ok q \<Longrightarrow> dq_get q = dq_put q \<longleftrightarrow> dq_contents q = []"
  using length_contents [of q] by (auto simp: dq_ok_def length_0_conv [symmetric] word_unat_eq_iff simp del: length_0_conv)

lemma size_nz: "dq_ok q \<Longrightarrow> dq_size q \<noteq> 0"
  by (auto simp: dq_ok_def)

lemma store_some: "dq_ok q \<Longrightarrow> \<exists>q' r w ev. dq_store q x = Some (q', r, w, ev)"
  by (auto simp: dq_store_def dq_ok_def Let_def wake_first_eq)

lemma fetch_some: "dq_ok q \<Longrightarrow> \<exists>q' r w ev. dq_fetch q = Some (q', r, w, ev)"
  by (auto simp: dq_fetch_def dq_ok_def Let_def wake_first_eq)

lemma store_ok:
  assumes ok: "dq_ok q" and room: "length (dq_contents q) \<noteq> unat (dq_size q)" and nw: "unat (dq_put q) + 1 < 2 ^ 16"
    and s: "dq_store q item = Some (q', r, w, ev)"
  shows "dq_ok q'" "dq_contents q' = dq_contents q @ [item]" "r = Dq_return RT_EOK" "unat (dq_put q') = unat (dq_put q) + 1"
    "w = (case dq_pop_list q of [] \<Rightarrow> None | t # _ \<Rightarrow> Some t)" "dq_pop_list q' = tl (dq_pop_list q)"
    "dq_push_list q' = dq_push_list q" "dq_size q' = dq_size q" "dq_lwm q' = dq_lwm q"
proof -
  obtain items where it: "dq_queue q = Some items" "length items = unat (dq_size q)" using ok by (auto simp: dq_ok_def)
  have q': "q' = q\<lparr>dq_queue := Some (items[unat (dq_put q) mod unat (dq_size q) := item]), dq_put := dq_put q + 1,
      dq_pop_list := tl (dq_pop_list q)\<rparr>"
    and rw: "r = Dq_return RT_EOK" "w = (case dq_pop_list q of [] \<Rightarrow> None | t # _ \<Rightarrow> Some t)"
    using s it(1) size_nz [OF ok] by (simp_all add: dq_store_def Let_def wake_first_eq unat_mod split: prod.splits)
  have p: "unat (dq_put q + 1) = unat (dq_put q) + 1" using nw by (simp add: unat_word_ariths)
  have lt: "unat (dq_put q) - unat (dq_get q) < unat (dq_size q)" "unat (dq_get q) \<le> unat (dq_put q)" "0 < unat (dq_size q)"
    using ok room by (auto simp: dq_ok_def length_contents)
  show "dq_ok q'" using ok it p lt by (auto simp: q' dq_ok_def)
  have "items[unat (dq_put q) mod unat (dq_size q) := item] ! (i mod unat (dq_size q)) = items ! (i mod unat (dq_size q))"
    if "unat (dq_get q) \<le> i" "i < unat (dq_put q)" for i
    using mod_apart [of i "unat (dq_put q)" "unat (dq_size q)"] that lt by (simp add: nth_list_update_neq)
  then show "dq_contents q' = dq_contents q @ [item]"
    using it lt p by (simp add: q' dq_contents_def)
  show "unat (dq_put q') = unat (dq_put q) + 1" using p by (simp add: q')
qed (use s size_nz [OF ok] in \<open>auto simp: dq_store_def Let_def wake_first_eq split: option.splits list.splits\<close>)

lemma fetch_ok:
  assumes ok: "dq_ok q" and ne: "dq_contents q \<noteq> []" and s: "dq_fetch q = Some (q', r, w, ev)"
  shows "dq_ok q'" "\<exists>item. r = Dq_item item \<and> dq_contents q = item # dq_contents q'" "dq_put q' = dq_put q"
    "dq_pop_list q' = dq_pop_list q" "dq_size q' = dq_size q" "dq_lwm q' = dq_lwm q"
    "if length (dq_contents q) \<le> unat (dq_lwm q) + 1
     then w = (case dq_push_list q of [] \<Rightarrow> None | t # _ \<Rightarrow> Some t) \<and> dq_push_list q' = tl (dq_push_list q)
     else w = None \<and> dq_push_list q' = dq_push_list q"
proof -
  obtain items where it: "dq_queue q = Some items" "length items = unat (dq_size q)" using ok by (auto simp: dq_ok_def)
  define q1 where "q1 = q\<lparr>dq_get := dq_get q + 1\<rparr>"
  have lt: "unat (dq_get q) < unat (dq_put q)" using ne length_contents [OF ok] by (cases "dq_contents q") auto
  then have g: "unat (dq_get q + 1) = unat (dq_get q) + 1"
    using unsigned_less [of "dq_put q", where 'a = nat] by (simp add: unat_word_ariths)
  have ok1: "dq_ok q1" using ok lt g by (auto simp: q1_def dq_ok_def)
  have c1: "dq_contents q = items ! unat (dq_get q mod dq_size q) # dq_contents q1"
    using it lt g by (simp add: q1_def dq_contents_def upt_conv_Cons unat_mod)
  have le: "dq_used q1 \<le> uint (dq_lwm q1) \<longleftrightarrow> length (dq_contents q) \<le> unat (dq_lwm q) + 1"
    using used_contents [OF ok1] c1 by (simp add: q1_def uint_nat del: of_nat_unat)
  have r: "Some (q', r, w, ev) = (if length (dq_contents q) \<le> unat (dq_lwm q) + 1
      then Some (q1\<lparr>dq_push_list := tl (dq_push_list q)\<rparr>, Dq_item (items ! unat (dq_get q mod dq_size q)),
        case dq_push_list q of [] \<Rightarrow> None | t # _ \<Rightarrow> Some t, if dq_notify q then Some RT_DATAQUEUE_EVENT_LWM else None)
      else Some (q1, Dq_item (items ! unat (dq_get q mod dq_size q)), None, if dq_notify q then Some RT_DATAQUEUE_EVENT_POP else None))"
    using s it(1) size_nz [OF ok] le [unfolded q1_def] by (simp add: dq_fetch_def Let_def wake_first_eq q1_def split: if_splits)
  show "dq_ok q'" "\<exists>item. r = Dq_item item \<and> dq_contents q = item # dq_contents q'"
    using r ok1 c1 by (auto split: if_splits)
  show "dq_put q' = dq_put q" "dq_pop_list q' = dq_pop_list q" "dq_size q' = dq_size q" "dq_lwm q' = dq_lwm q"
    using r by (auto simp: q1_def split: if_splits)
  show "if length (dq_contents q) \<le> unat (dq_lwm q) + 1
     then w = (case dq_push_list q of [] \<Rightarrow> None | t # _ \<Rightarrow> Some t) \<and> dq_push_list q' = tl (dq_push_list q)
     else w = None \<and> dq_push_list q' = dq_push_list q"
    using r by (auto simp: q1_def split: if_splits)
qed

lemma push_step_inv:
  assumes ok: "dq_ok q" and wt: "dq_waits q wr ws" and lwm: "dq_lwm q < dq_size q" and nw: "unat (dq_put q) + length (stored item r) < 2 ^ 16"
    and ws': "set ws' \<subseteq> set ws" "length ws \<le> length ws' + 1"
    and s: "rt_data_queue_push q item tm t = Some (q', r, w, ev)"
  shows "dq_ok q' \<and> dq_contents q' = dq_contents q @ stored item r \<and> unat (dq_put q') = unat (dq_put q) + length (stored item r) \<and>
    dq_size q' = dq_size q \<and> dq_lwm q' = dq_lwm q \<and> dq_waits q' (wr @ woken_list w) ws'"
proof (cases "length (dq_contents q) = unat (dq_size q)")
  case True
  then have full: "dq_used q = uint (dq_size q)" using full_iff [OF ok] by simp
  have "unat (dq_lwm q) < length (dq_contents q)" using lwm True by (simp add: word_less_nat_alt)
  then show ?thesis using s full ok wt ws'(1)
    by (auto simp: rt_data_queue_push_def stored_def dq_waits_def woken_list_def list_all_iff RT_EOK_def RT_ETIMEOUT_def Let_def split: if_splits)
next
  case False
  then have "dq_used q \<noteq> uint (dq_size q)" using full_iff [OF ok] by simp
  then have st: "dq_store q item = Some (q', r, w, ev)" using s by (simp add: rt_data_queue_push_def)
  then have "r = Dq_return RT_EOK" by (auto simp: dq_store_def Let_def split: option.splits if_splits prod.splits)
  then have nw1: "unat (dq_put q) + 1 < 2 ^ 16" using nw by (simp add: stored_def)
  note f = store_ok [OF ok False nw1 st]
  have "dq_waits q' (wr @ woken_list w) ws'"
    using wt ws' f by (cases "dq_pop_list q") (auto simp: dq_waits_def woken_list_def list_all_iff)
  then show ?thesis using f by (simp add: stored_def)
qed

lemma pop_step_inv:
  assumes ok: "dq_ok q" and wt: "dq_waits q wr ws"
    and wr': "set wr' \<subseteq> set wr" "length wr \<le> length wr' + 1"
    and s: "rt_data_queue_pop q tm t = Some (q', r, w, ev)"
  shows "dq_ok q' \<and> dq_contents q = fetched r @ dq_contents q' \<and> dq_put q' = dq_put q \<and>
    dq_size q' = dq_size q \<and> dq_lwm q' = dq_lwm q \<and> dq_waits q' wr' (ws @ woken_list w)"
proof (cases "dq_contents q = []")
  case True
  then have "dq_get q = dq_put q" using empty_iff [OF ok] by simp
  then show ?thesis using s True ok wt wr'(1)
    by (auto simp: rt_data_queue_pop_def fetched_def dq_waits_def woken_list_def list_all_iff RT_EOK_def Let_def split: if_splits)
next
  case False
  then have st: "dq_fetch q = Some (q', r, w, ev)" using s empty_iff [OF ok] by (simp add: rt_data_queue_pop_def)
  note f = fetch_ok [OF ok False st]
  obtain item where i: "r = Dq_item item" "dq_contents q = item # dq_contents q'" using f(2) by blast
  have "dq_waits q' wr' (ws @ woken_list w)"
  proof (cases "length (dq_contents q) \<le> unat (dq_lwm q) + 1")
    case True
    then show ?thesis using wt wr' f i by (cases "dq_push_list q") (auto simp: dq_waits_def woken_list_def list_all_iff)
  next
    case False
    then show ?thesis using wt wr' f i by (auto simp: dq_waits_def woken_list_def list_all_iff)
  qed
  then show ?thesis using f i by (simp add: fetched_def)
qed

lemma woken_error: "dq_waits q wr ws \<Longrightarrow> t \<in> set wr \<union> set ws \<Longrightarrow> thread_error t = RT_EOK"
  by (auto simp: dq_waits_def list_all_iff)

lemma remove1_one: "length xs \<le> length (remove1 x xs) + 1"
  by (induction xs) auto

lemma waits_timeout:
  "dq_waits q wr ws \<Longrightarrow> dq_waits (q\<lparr>dq_pop_list := remove1 t (dq_pop_list q)\<rparr>) wr ws"
  "dq_waits q wr ws \<Longrightarrow> dq_waits (q\<lparr>dq_push_list := remove1 t (dq_push_list q)\<rparr>) wr ws"
  by (auto simp: dq_waits_def list_all_iff dest: notin_set_remove1 [THEN contrapos_nn, rotated] set_mp [OF set_remove1_subset])

lemma dq_run_inv:
  assumes "dq_run q0 s" and "dq_ok q0" and "dq_contents q0 = []" "dq_put q0 = 0" "dq_pop_list q0 = []" "dq_push_list q0 = []"
    and lwm: "dq_lwm q0 < dq_size q0"
  shows "length (fst (snd s)) < 2 ^ 16 \<Longrightarrow> (case s of (q, ins, outs, wr, ws) \<Rightarrow> dq_ok q \<and> ins = outs @ dq_contents q \<and>
    unat (dq_put q) = length ins \<and> dq_size q = dq_size q0 \<and> dq_lwm q = dq_lwm q0 \<and> dq_waits q wr ws)"
  using assms(1)
proof (induction rule: dq_run.induct)
  case start
  then show ?case using assms by (simp add: dq_waits_def)
next
  case (push q ins outs wr ws item tm t q' r w ev)
  then show ?case using push_step_inv [of q wr ws item r ws tm t q' w ev] lwm by simp
next
  case (pop q ins outs wr ws tm t q' r w ev)
  then show ?case using pop_step_inv [of q wr ws wr tm t q' r w ev] by simp
next
  case (push_woken q ins outs wr ws t item tm q' r w ev)
  then have "rt_data_queue_push q item tm t = Some (q', r, w, ev)" using woken_error [of q wr ws t] by (simp add: dq_push_resume_def)
  then show ?case using push_woken push_step_inv [of q wr ws item r "remove1 t ws" tm t q' w ev] lwm remove1_one [of ws t] set_remove1_subset [of t ws] by simp
next
  case (pop_woken q ins outs wr ws t tm q' r w ev)
  then have "rt_data_queue_pop q tm t = Some (q', r, w, ev)" using woken_error [of q wr ws t] by (simp add: dq_pop_resume_def)
  then show ?case using pop_woken pop_step_inv [of q wr ws "remove1 t wr" tm t q' r w ev] remove1_one [of wr t] set_remove1_subset [of t wr] by simp
next
  case (pop_timeout q ins outs wr ws t)
  then show ?case using waits_timeout by simp
next
  case (push_timeout q ins outs wr ws t)
  then show ?case using waits_timeout by simp
qed

lemma init_ok:
  assumes "rt_data_queue_init sz lwm nt h = Some (q0, h', RT_EOK)" and "0 < sz"
  shows "dq_ok q0" "dq_contents q0 = []" "dq_put q0 = 0" "dq_get q0 = 0" "dq_pop_list q0 = []" "dq_push_list q0 = []"
    "dq_lwm q0 = lwm" "dq_size q0 = sz" "dq_queue q0 \<noteq> None"
  using assms by (auto simp: rt_data_queue_init_def dq_ok_def dq_contents_def RT_EOK_def RT_ENOMEM_def word_less_nat_alt split: if_splits)

text \<open>Claim C18. A data queue is first in, first out, whatever the interleaving of pushes, pops, timeouts
  and woken threads: what was pushed is what was popped and what is in the ring, which never holds
  more than its size; and no wake-up is lost: once every woken thread has run, a thread waits to
  pop only if the ring is empty and waits to push only if it holds more than the low-water mark.
  This is so until 65535 items have been pushed.\<close>

theorem data_queue_fifo:
  assumes "rt_data_queue_init sz lwm nt h = Some (q0, h', RT_EOK)" and "0 < sz" and "lwm < sz"
    and "dq_run q0 (q, ins, outs, wr, ws)" and "length ins < 2 ^ 16"
  shows "ins = outs @ dq_contents q \<and> length (dq_contents q) \<le> unat sz \<and>
    (wr = [] \<longrightarrow> dq_pop_list q \<noteq> [] \<longrightarrow> dq_contents q = []) \<and>
    (ws = [] \<longrightarrow> dq_push_list q \<noteq> [] \<longrightarrow> unat lwm < length (dq_contents q))"
proof -
  note i = init_ok [OF assms(1,2)]
  have f: "dq_ok q" "ins = outs @ dq_contents q" "dq_size q = sz" "dq_lwm q = lwm" "dq_waits q wr ws"
    using dq_run_inv [OF assms(4) i(1,2,3,5,6)] assms(3,5) i(7,8) by simp_all
  have "length (dq_contents q) \<le> unat sz" using f(1,3) length_contents [OF f(1)] by (simp add: dq_ok_def)
  moreover have "wr = [] \<Longrightarrow> dq_pop_list q \<noteq> [] \<Longrightarrow> dq_contents q = []"
    and "ws = [] \<Longrightarrow> dq_push_list q \<noteq> [] \<Longrightarrow> unat lwm < length (dq_contents q)"
    using f(4,5) by (simp_all add: dq_waits_def)
  ultimately show ?thesis using f(2) by blast
qed

section \<open>Overflow of the indices\<close>

text \<open>A queue whose items are popped as they come: the indices reach their end.\<close>

lemma push_pop_run:
  assumes "rt_data_queue_init sz lwm nt h = Some (q0, h', RT_EOK)" and "0 < sz"
  shows "n < 2 ^ 16 \<Longrightarrow> \<exists>q. dq_run q0 (q, replicate n x, replicate n x, [], []) \<and> dq_ok q \<and> unat (dq_put q) = n \<and> unat (dq_get q) = n \<and>
    dq_pop_list q = [] \<and> dq_push_list q = [] \<and> dq_size q = sz"
proof (induction n)
  case 0
  then show ?case using init_ok [OF assms] dq_run.start [of q0] by auto
next
  case (Suc n)
  then obtain q where q: "dq_run q0 (q, replicate n x, replicate n x, [], [])" "dq_ok q" "unat (dq_put q) = n" "unat (dq_get q) = n"
    "dq_pop_list q = []" "dq_push_list q = []" "dq_size q = sz" by auto
  have e: "dq_contents q = []" using length_contents [OF q(2)] q(3,4) by simp
  have room: "length (dq_contents q) \<noteq> unat (dq_size q)" using e q(2) by (simp add: dq_ok_def)
  obtain q1 r w ev where p1: "rt_data_queue_push q x 0 (sample_thread 1 9) = Some (q1, r, w, ev)" "dq_store q x = Some (q1, r, w, ev)"
    using store_some [OF q(2), of x] room full_iff [OF q(2)] by (auto simp: rt_data_queue_push_def)
  note f1 = store_ok [OF q(2) room _ p1(2)]
  have nw: "unat (dq_put q) + 1 < 2 ^ 16" using Suc.prems q(3) by simp
  have c1: "dq_contents q1 = [x]" using f1(2) [OF nw] e by simp
  have w: "w = None" using f1(5) [OF nw] q(5) by simp
  have run1: "dq_run q0 (q1, replicate n x @ [x], replicate n x, [], [])"
    using dq_run.push [OF q(1) p1(1)] f1(3) [OF nw] w by (simp add: stored_def woken_list_def)
  obtain q2 r2 w2 ev2 where p2: "rt_data_queue_pop q1 0 (sample_thread 1 9) = Some (q2, r2, w2, ev2)" "dq_fetch q1 = Some (q2, r2, w2, ev2)"
    using fetch_some [OF f1(1) [OF nw]] c1 empty_iff [OF f1(1) [OF nw]] by (auto simp: rt_data_queue_pop_def)
  note f2 = fetch_ok [OF f1(1) [OF nw] _ p2(2)]
  have ne: "dq_contents q1 \<noteq> []" using c1 by simp
  have r2: "r2 = Dq_item x" "dq_contents q2 = []" using f2(2) [OF ne] c1 by auto
  have "w2 = None" "dq_push_list q2 = []" using f2(7) [OF ne] f1(7) [OF nw] q(6) by (auto split: if_splits)
  then have "dq_run q0 (q2, replicate n x @ [x], replicate n x @ [x], [], [])"
    using dq_run.pop [OF run1 p2(1)] r2 by (simp add: fetched_def woken_list_def)
  moreover have "unat (dq_put q2) = Suc n" using f2(3) [OF ne] f1(4) [OF nw] q(3) by simp
  moreover have "unat (dq_get q2) = Suc n" using calculation(2) r2(2) length_contents [OF f2(1) [OF ne]] f2(1) [OF ne] by (simp add: dq_ok_def)
  moreover have "dq_pop_list q2 = []" "dq_size q2 = sz" using f2(4,5) [OF ne] f1(6,8) [OF nw] q(5,7) by simp_all
  ultimately show ?case using f2(1) [OF ne] \<open>dq_push_list q2 = []\<close> by (intro exI [of _ q2]) (simp add: replicate_append_same)
qed

text \<open>Past the end, the difference of the indices is negative and never the size.\<close>

lemma overflow_pushes:
  assumes "dq_run q0 (q, ins, outs, [], [])" and "unat (dq_put q) = 2 ^ 16 - 1" "unat (dq_get q) = 2 ^ 16 - 1"
    and "dq_size q \<noteq> 0" "dq_queue q \<noteq> None" "dq_pop_list q = []"
  shows "k < 2 ^ 16 \<Longrightarrow> \<exists>q'. dq_run q0 (q', ins @ replicate k x, outs, [], []) \<and> unat (dq_put q') = (2 ^ 16 - 1 + k) mod 2 ^ 16 \<and>
    dq_get q' = dq_get q \<and> dq_size q' = dq_size q \<and> dq_queue q' \<noteq> None \<and> dq_pop_list q' = []"
proof (induction k)
  case 0
  then show ?case using assms by auto
next
  case (Suc k)
  then obtain q' where q': "dq_run q0 (q', ins @ replicate k x, outs, [], [])" "unat (dq_put q') = (2 ^ 16 - 1 + k) mod 2 ^ 16"
    "dq_get q' = dq_get q" "dq_size q' = dq_size q" "dq_queue q' \<noteq> None" "dq_pop_list q' = []" by auto
  have "unat (dq_put q') \<le> unat (dq_get q')"
    using unsigned_less [of "dq_put q'", where 'a = nat] assms(3) q'(3) by simp
  then have "dq_used q' \<le> 0" by (simp add: dq_used_def uint_nat del: of_nat_unat)
  moreover have "0 < uint (dq_size q')" using assms(4) q'(4) by (simp add: uint_nat unat_gt_0 del: of_nat_unat)
  ultimately have "dq_used q' \<noteq> uint (dq_size q')" by linarith
  then obtain q2 where q2: "rt_data_queue_push q' x 0 (sample_thread 1 9) = Some (q2, Dq_return RT_EOK, None, if dq_notify q' then Some RT_DATAQUEUE_EVENT_PUSH else None)"
    "dq_put q2 = dq_put q' + 1" "dq_get q2 = dq_get q'" "dq_size q2 = dq_size q'" "dq_queue q2 \<noteq> None" "dq_pop_list q2 = []"
    using q'(4-6) assms(4) by (auto simp: rt_data_queue_push_def dq_store_def Let_def wake_first_eq)
  have "dq_run q0 (q2, (ins @ replicate k x) @ [x], outs, [], [])"
    using dq_run.push [OF q'(1) q2(1)] by (simp add: stored_def woken_list_def)
  moreover have "unat (dq_put q2) = (2 ^ 16 - 1 + Suc k) mod 2 ^ 16" using q2(2) q'(2) by (simp add: unat_word_ariths mod_simps)
  ultimately show ?case using q2 q' by (intro exI [of _ q2]) (simp add: replicate_append_same)
qed

text \<open>So a queue in ordinary use comes to accept more than it holds, with nobody waiting; the items in
  front are overwritten.\<close>

lemma data_queue_overruns:
  assumes "rt_data_queue_init sz lwm nt h = Some (q0, h', RT_EOK)" and "0 < sz" and "unat sz + 1 < 2 ^ 16"
  shows "\<exists>q ins outs. dq_run q0 (q, ins, outs, [], []) \<and> length ins = length outs + unat sz + 1"
proof -
  obtain n :: nat where n: "n = 2 ^ 16 - 1" by simp
  then have "n < 2 ^ 16" by simp
  from push_pop_run [OF assms(1,2) this, of "(0, 0)"]
  obtain q where q: "dq_run q0 (q, replicate n (0, 0), replicate n (0, 0), [], [])" "dq_ok q"
    "unat (dq_put q) = n" "unat (dq_get q) = n" "dq_pop_list q = []" by blast
  have "dq_size q \<noteq> 0" "dq_queue q \<noteq> None" using q(2) by (auto simp: dq_ok_def)
  from overflow_pushes [OF q(1) q(3,4) [unfolded n] this q(5) assms(3), of "(0, 0)"] obtain q' where
    "dq_run q0 (q', replicate n (0, 0) @ replicate (unat sz + 1) (0, 0), replicate n (0, 0), [], [])" by blast
  moreover have "length (replicate n (0 :: nat, 0 :: u32) @ replicate (unat sz + 1) (0, 0)) = length (replicate n (0 :: nat, 0 :: u32)) + unat sz + 1"
    by (simp only: length_append length_replicate add.assoc)
  ultimately show ?thesis by blast
qed

text \<open>A queue of one slot: a second push waits, a pop wakes it, and it pushes.\<close>

definition sample_dq :: rt_data_queue where
  "sample_dq = \<lparr>dq_size = 1, dq_lwm = 0, dq_get = 0, dq_put = 0, dq_queue = Some [(0, 0)], dq_push_list = [], dq_pop_list = [], dq_notify = True\<rparr>"

lemma sample_dq_init: "rt_data_queue_init 1 0 True demo_heap = Some (sample_dq, demo_heap_8, RT_EOK)"
  by (simp add: rt_data_queue_init_def demo_malloc sample_dq_def)

lemma sample_dq_run:
  defines "t \<equiv> sample_thread 2 9"
  shows "\<exists>q. dq_run sample_dq (q, [(7, 3), (8, 4)], [(7, 3)], [], []) \<and> dq_push_list q = [t]"
proof -
  have t: "t\<lparr>thread_error := 0\<rparr> = t" "thread_error t = 0" by (simp_all add: t_def sample_thread_def)
  define q1 where "q1 = sample_dq\<lparr>dq_put := 1, dq_queue := Some [(7, 3)]\<rparr>"
  define q2 where "q2 = q1\<lparr>dq_get := 1\<rparr>"
  define q3 where "q3 = q2\<lparr>dq_put := 2, dq_queue := Some [(8, 4)]\<rparr>"
  note ops = rt_data_queue_push_def rt_data_queue_pop_def dq_push_resume_def dq_store_def dq_fetch_def dq_used_def sample_dq_def q1_def q2_def q3_def
    wake_first_eq Let_def t rt_codes
  have "rt_data_queue_push sample_dq (7, 3) (-1) t = Some (q1, Dq_return RT_EOK, None, Some RT_DATAQUEUE_EVENT_PUSH)" by (simp add: ops)
  from dq_run.push [OF dq_run.start this] have 1: "dq_run sample_dq (q1, [(7, 3)], [], [], [])" by (simp add: stored_def woken_list_def)
  have "rt_data_queue_push q1 (8, 4) (-1) t = Some (q1\<lparr>dq_push_list := [t]\<rparr>, Dq_suspended None, None, None)" by (simp add: ops)
  from dq_run.push [OF 1 this] have 2: "dq_run sample_dq (q1\<lparr>dq_push_list := [t]\<rparr>, [(7, 3)], [], [], [])"
    by (simp add: stored_def woken_list_def)
  have "rt_data_queue_pop (q1\<lparr>dq_push_list := [t]\<rparr>) 0 t = Some (q2, Dq_item (7, 3), Some t, Some RT_DATAQUEUE_EVENT_LWM)" by (simp add: ops)
  from dq_run.pop [OF 2 this] have 3: "dq_run sample_dq (q2, [(7, 3)], [(7, 3)], [], [t])" by (simp add: fetched_def woken_list_def)
  have "dq_push_resume q2 (8, 4) (-1) t = Some (q3, Dq_return RT_EOK, None, Some RT_DATAQUEUE_EVENT_PUSH)" by (simp add: ops)
  from dq_run.push_woken [OF 3 _ this] have 4: "dq_run sample_dq (q3, [(7, 3), (8, 4)], [(7, 3)], [], [])"
    by (simp add: stored_def woken_list_def)
  have "rt_data_queue_push q3 (9, 5) (-1) t = Some (q3\<lparr>dq_push_list := [t]\<rparr>, Dq_suspended None, None, None)" by (simp add: ops)
  from dq_run.push [OF 4 this] have "dq_run sample_dq (q3\<lparr>dq_push_list := [t]\<rparr>, [(7, 3), (8, 4)], [(7, 3)], [], [])"
    by (simp add: stored_def woken_list_def)
  then show ?thesis by (intro exI [of _ "q3\<lparr>dq_push_list := [t]\<rparr>"]) simp
qed

theorem data_queue_fifo_witness:
  "\<exists>q. dq_run sample_dq (q, [(7, 3), (8, 4)], [(7, 3)], [], []) \<and> dq_contents q = [(8, 4)] \<and> dq_push_list q \<noteq> []"
proof -
  obtain q where q: "dq_run sample_dq (q, [(7, 3), (8, 4)], [(7, 3)], [], [])" "dq_push_list q = [sample_thread 2 9]"
    using sample_dq_run by blast
  show ?thesis using data_queue_fifo [OF sample_dq_init _ _ q(1)] q by auto
qed

end
