(* ===== verification/Rt_Serial.thy ===== *)
theory Rt_Serial
  imports Rt_Device Rt_Dataqueue
begin

text \<open>
  The serial driver (\<open>components/drivers/serial/serial.c\<close>) and the UART driver below it
  (\<open>libraries/HAL_Drivers/drv_usart.c\<close>). The serial driver is generic in the functions of the
  UART driver, which read the structure of the serial device and change only the hardware. The
  theory has the modes polling, interrupt, and reception by DMA into the receive fifo; \<open>None\<close> is a failed
  assertion, a null pointer that is followed, an access outside the fifo, a call that does not return, or
  one of the two DMA modes that \<open>Rt_Serial_Dma\<close> has (reception without a buffer, transmission), which
  no device of this configuration uses. The theory shows that the receive fifo is a queue that drops its
  oldest byte when it is full, that an interrupt hands over each byte once, that the users of
  a serial device are counted, and what opening it twice does to the reception.
\<close>

section \<open>Configuration and state\<close>

definition RT_DEVICE_FLAG_SUSPENDED :: u16 where "RT_DEVICE_FLAG_SUSPENDED = 0x020"
definition RT_DEVICE_FLAG_STREAM :: u16 where "RT_DEVICE_FLAG_STREAM = 0x040"
definition RT_DEVICE_FLAG_INT_RX :: u16 where "RT_DEVICE_FLAG_INT_RX = 0x100"
definition RT_DEVICE_FLAG_DMA_RX :: u16 where "RT_DEVICE_FLAG_DMA_RX = 0x200"
definition RT_DEVICE_FLAG_INT_TX :: u16 where "RT_DEVICE_FLAG_INT_TX = 0x400"
definition RT_DEVICE_FLAG_DMA_TX :: u16 where "RT_DEVICE_FLAG_DMA_TX = 0x800"
definition RT_DEVICE_FLAG_RDWR :: u16 where "RT_DEVICE_FLAG_RDWR = 0x003"
definition RT_DEVICE_CTRL_RESUME :: int where "RT_DEVICE_CTRL_RESUME = 0x01"
definition RT_DEVICE_CTRL_SUSPEND :: int where "RT_DEVICE_CTRL_SUSPEND = 0x02"
definition RT_DEVICE_CTRL_CONFIG :: int where "RT_DEVICE_CTRL_CONFIG = 0x03"
definition RT_DEVICE_CTRL_SET_INT :: int where "RT_DEVICE_CTRL_SET_INT = 0x10"
definition RT_DEVICE_CTRL_CLR_INT :: int where "RT_DEVICE_CTRL_CLR_INT = 0x11"
definition RT_EIO :: int where "RT_EIO = 8"
definition RT_SERIAL_EVENT_RX_IND :: nat where "RT_SERIAL_EVENT_RX_IND = 1"
definition RT_SERIAL_EVENT_TX_DONE :: nat where "RT_SERIAL_EVENT_TX_DONE = 2"
definition RT_SERIAL_EVENT_RX_DMADONE :: nat where "RT_SERIAL_EVENT_RX_DMADONE = 3"
definition RT_SERIAL_EVENT_TX_DMADONE :: nat where "RT_SERIAL_EVENT_TX_DMADONE = 4"

record serial_configure =
  baud_rate :: u32
  data_bits :: "4 word"
  stop_bits :: "2 word"
  cfg_parity :: "2 word"
  bit_order :: "1 word"
  cfg_invert :: "1 word"
  bufsz :: u16

definition RT_SERIAL_CONFIG_DEFAULT :: serial_configure where
  "RT_SERIAL_CONFIG_DEFAULT = \<lparr>baud_rate = 115200, data_bits = 8, stop_bits = 0, cfg_parity = 0, bit_order = 0, cfg_invert = 0, bufsz = 512\<rparr>"

text \<open>\<open>fifo_addr\<close> is the block from the heap; the buffer lies behind the structure in it.\<close>

record rx_fifo =
  fifo_addr :: nat
  fifo_buffer :: "u8 list"
  put_index :: u16
  get_index :: u16
  is_full :: bool

text \<open>\<open>serial_rx\<close> and \<open>serial_tx\<close> with \<open>None\<close> for the null pointer; \<open>'h\<close> is the hardware, and the
  heap is that of the kernel. What \<open>_serial_check_buffer_size\<close> prints is not part of the state.\<close>

record 'h rt_serial =
  ser_config :: serial_configure
  serial_rx :: "rx_fifo option"
  serial_tx :: "(nat \<times> rt_completion) option"
  ser_heap :: rt_heap
  ser_hw :: 'h

datatype serial_arg = Arg_config "serial_configure option" | Arg_int nat

record 'h rt_uart_ops =
  uart_configure :: "(serial_configure \<Rightarrow> 'h rt_serial \<Rightarrow> 'h \<times> int) option"
  uart_control :: "int \<Rightarrow> serial_arg \<Rightarrow> 'h rt_serial \<Rightarrow> 'h \<times> int"
  uart_putc :: "u8 \<Rightarrow> 'h rt_serial \<Rightarrow> 'h \<times> int"
  uart_getc :: "'h rt_serial \<Rightarrow> 'h \<times> int"

definition set_hw :: "'h rt_serial \<Rightarrow> 'h \<times> int \<Rightarrow> 'h rt_serial" where
  "set_hw s r = s\<lparr>ser_hw := fst r\<rparr>"

section \<open>The receive fifo\<close>

text \<open>One byte in: the body of the loop of the receive interrupt.\<close>

definition wrap_index :: "u16 \<Rightarrow> u16 \<Rightarrow> u16" where
  "wrap_index sz i = (if i \<ge> sz then 0 else i)"

definition fifo_put :: "u16 \<Rightarrow> u8 \<Rightarrow> rx_fifo \<Rightarrow> rx_fifo option" where
  "fifo_put sz ch f =
     (if unat (put_index f) < length (fifo_buffer f)
      then let f1 = f\<lparr>fifo_buffer := (fifo_buffer f)[unat (put_index f) := ch], put_index := wrap_index sz (put_index f + 1)\<rparr>
        in Some (if put_index f1 = get_index f1 then f1\<lparr>get_index := wrap_index sz (get_index f1 + 1), is_full := True\<rparr> else f1)
      else None)"

fun serial_int_rx :: "u16 \<Rightarrow> nat \<Rightarrow> rx_fifo \<Rightarrow> (rx_fifo \<times> u8 list) option" where
  "serial_int_rx sz 0 f = Some (f, [])"
| "serial_int_rx sz (Suc n) f =
     (if get_index f = put_index f \<and> \<not> is_full f then Some (f, [])
      else if unat (get_index f) < length (fifo_buffer f)
      then let ch = fifo_buffer f ! unat (get_index f) in
        map_option (\<lambda>(f2, data). (f2, ch # data)) (serial_int_rx sz n (f\<lparr>get_index := wrap_index sz (get_index f + 1), is_full := False\<rparr>))
      else None)"

definition fifo_calc_recved_len :: "u16 \<Rightarrow> rx_fifo \<Rightarrow> nat" where
  "fifo_calc_recved_len sz f =
     (if put_index f = get_index f then (if \<not> is_full f then 0 else unat sz)
      else if put_index f > get_index f then unat (put_index f) - unat (get_index f)
      else unat (word_of_int (uint sz - (uint (get_index f) - uint (put_index f))) :: u32))"

definition dma_recv_update_get_index :: "u16 \<Rightarrow> nat \<Rightarrow> rx_fifo \<Rightarrow> rx_fifo option" where
  "dma_recv_update_get_index sz len f =
     (if len \<le> fifo_calc_recved_len sz f
      then let f1 = (if is_full f \<and> len \<noteq> 0 then f\<lparr>is_full := False\<rparr> else f);
          f2 = f1\<lparr>get_index := get_index f1 + of_nat len\<rparr>
        in Some (if get_index f2 \<ge> sz then f2\<lparr>get_index := get_index f2 mod sz\<rparr> else f2)
      else None)"

definition dma_recv_update_put_index :: "u16 \<Rightarrow> nat \<Rightarrow> rx_fifo \<Rightarrow> rx_fifo" where
  "dma_recv_update_put_index sz len f =
     (let put = put_index f + of_nat len;
          f1 = (if get_index f \<le> put_index f
            then if put \<ge> sz then let f1 = f\<lparr>put_index := put mod sz\<rparr> in if put_index f1 \<ge> get_index f1 then f1\<lparr>is_full := True\<rparr> else f1
              else f\<lparr>put_index := put\<rparr>
            else if put \<ge> get_index f then f\<lparr>put_index := if put \<ge> sz then put mod sz else put, is_full := True\<rparr>
              else f\<lparr>put_index := put\<rparr>)
      in if is_full f1 then f1\<lparr>get_index := put_index f1\<rparr> else f1)"

definition serial_dma_rx :: "u16 \<Rightarrow> nat \<Rightarrow> rx_fifo \<Rightarrow> (rx_fifo \<times> u8 list) option" where
  "serial_dma_rx sz n f =
     (let fifo_recved_len = fifo_calc_recved_len sz f; recv_len = (if n < fifo_recved_len then n else fifo_recved_len); g = unat (get_index f);
          data = (if g + recv_len < unat sz then take recv_len (drop g (fifo_buffer f))
            else take (unat sz - g) (drop g (fifo_buffer f)) @ take (recv_len + g - unat sz) (fifo_buffer f))
      in map_option (\<lambda>f1. (f1, data)) (dma_recv_update_get_index sz recv_len f))"

section \<open>Polling and transmission\<close>

fun serial_poll_rx :: "'h rt_uart_ops \<Rightarrow> nat \<Rightarrow> 'h rt_serial \<Rightarrow> 'h rt_serial \<times> u8 list" where
  "serial_poll_rx ops 0 s = (s, [])"
| "serial_poll_rx ops (Suc n) s =
     (let r = uart_getc ops s; ch = snd r; s1 = set_hw s r in
      if ch = -1 then (s1, [])
      else if ch = 10 then (s1, [word_of_int ch])
      else let (s2, data) = serial_poll_rx ops n s1 in (s2, word_of_int ch # data))"

fun serial_poll_tx :: "'h rt_uart_ops \<Rightarrow> u16 \<Rightarrow> u8 list \<Rightarrow> 'h rt_serial \<Rightarrow> 'h rt_serial" where
  "serial_poll_tx ops oflag [] s = s"
| "serial_poll_tx ops oflag (c # data) s =
     (let s1 = (if c = 10 \<and> has oflag RT_DEVICE_FLAG_STREAM then set_hw s (uart_putc ops 13 s) else s)
      in serial_poll_tx ops oflag data (set_hw s1 (uart_putc ops c s1)))"

text \<open>The wait for the transmitter, which was busy: \<open>idle\<close> is what the hardware does until its
  transmit interrupt, \<open>self\<close> the thread that waits.\<close>

definition tx_wait :: "('h \<Rightarrow> 'h) \<Rightarrow> rt_thread \<Rightarrow> 'h rt_serial \<Rightarrow> 'h rt_serial option" where
  "tx_wait idle self s =
     (case serial_tx s of None \<Rightarrow> None
      | Some (p, c) \<Rightarrow>
         (case rt_completion_wait c RT_WAITING_FOREVER self of
            None \<Rightarrow> None
          | Some (c1, Wait_return _) \<Rightarrow> Some (s\<lparr>serial_tx := Some (p, c1)\<rparr>)
          | Some (c1, Wait_suspended _) \<Rightarrow>
             (case rt_completion_done c1 of
                (c2, Some t) \<Rightarrow> Some (s\<lparr>serial_tx := Some (p, fst (completion_resume c2 t)), ser_hw := idle (ser_hw s)\<rparr>)
              | (c2, None) \<Rightarrow> None)))"

partial_function (option) serial_int_tx :: "'h rt_uart_ops \<Rightarrow> ('h \<Rightarrow> 'h) \<Rightarrow> rt_thread \<Rightarrow> u8 list \<Rightarrow> 'h rt_serial \<Rightarrow> 'h rt_serial option" where
  "serial_int_tx ops idle self data s =
     (case data of [] \<Rightarrow> Some s
      | c # rest \<Rightarrow>
          let r = uart_putc ops c s; s1 = set_hw s r in
          if snd r = -1 then Option.bind (tx_wait idle self s1) (serial_int_tx ops idle self data)
          else serial_int_tx ops idle self rest s1)"

section \<open>The device functions\<close>

definition rt_serial_init :: "'h rt_uart_ops \<Rightarrow> 'h rt_serial dev \<Rightarrow> 'h rt_serial dev \<times> int" where
  "rt_serial_init ops = (\<lambda>(v, s).
     let s1 = s\<lparr>serial_rx := None, serial_tx := None\<rparr> in
     case uart_configure ops of None \<Rightarrow> ((v, s1), RT_EOK)
     | Some f \<Rightarrow> let r = f (ser_config s1) s1 in ((v, set_hw s1 r), snd r))"

definition set_oflag :: "u16 \<Rightarrow> 'h rt_serial dev \<Rightarrow> 'h rt_serial dev" where
  "set_oflag fl = (\<lambda>(v, s). (v\<lparr>open_flag := open_flag v OR fl\<rparr>, s))"

definition clr_oflag :: "u16 \<Rightarrow> 'h rt_serial dev \<Rightarrow> 'h rt_serial dev" where
  "clr_oflag fl = (\<lambda>(v, s). (v\<lparr>open_flag := open_flag v AND NOT fl\<rparr>, s))"

definition ll_control :: "'h rt_uart_ops \<Rightarrow> int \<Rightarrow> u16 \<Rightarrow> 'h rt_serial dev \<Rightarrow> 'h rt_serial dev" where
  "ll_control ops cmd fl = (\<lambda>(v, s). (v, set_hw s (uart_control ops cmd (Arg_int (unat fl)) s)))"

text \<open>Allocating the fifo: 12 bytes and the buffer.\<close>

definition new_rx_fifo :: "'h rt_serial \<Rightarrow> 'h rt_serial option" where
  "new_rx_fifo s =
     (case rt_malloc (12 + ucast (bufsz (ser_config s))) (ser_heap s) of
        Some (h, Some p) \<Rightarrow> Some (s\<lparr>ser_heap := h, serial_rx := Some \<lparr>fifo_addr = p,
            fifo_buffer = replicate (unat (bufsz (ser_config s))) 0, put_index = 0, get_index = 0, is_full = False\<rparr>\<rparr>)
      | _ \<Rightarrow> None)"

definition open_rx :: "'h rt_uart_ops \<Rightarrow> u16 \<Rightarrow> 'h rt_serial dev \<Rightarrow> 'h rt_serial dev option" where
  "open_rx ops oflag = (\<lambda>(v, s).
     if serial_rx s = None
     then if has oflag RT_DEVICE_FLAG_INT_RX
       then map_option (\<lambda>s1. ll_control ops RT_DEVICE_CTRL_SET_INT RT_DEVICE_FLAG_INT_RX (set_oflag RT_DEVICE_FLAG_INT_RX (v, s1))) (new_rx_fifo s)
       else if has oflag RT_DEVICE_FLAG_DMA_RX
       then if bufsz (ser_config s) = 0 then None
         else map_option (\<lambda>s1. set_oflag RT_DEVICE_FLAG_DMA_RX (ll_control ops RT_DEVICE_CTRL_CONFIG RT_DEVICE_FLAG_DMA_RX (v, s1))) (new_rx_fifo s)
       else Some (v, s)
     else Some (if has oflag RT_DEVICE_FLAG_INT_RX then set_oflag RT_DEVICE_FLAG_INT_RX (v, s)
       else if has oflag RT_DEVICE_FLAG_DMA_RX then set_oflag RT_DEVICE_FLAG_DMA_RX (v, s) else (v, s)))"

definition open_tx :: "'h rt_uart_ops \<Rightarrow> u16 \<Rightarrow> 'h rt_serial dev \<Rightarrow> 'h rt_serial dev option" where
  "open_tx ops oflag = (\<lambda>(v, s).
     if serial_tx s = None
     then if has oflag RT_DEVICE_FLAG_INT_TX
       then (case rt_malloc 12 (ser_heap s) of
           Some (h, Some p) \<Rightarrow> Some (ll_control ops RT_DEVICE_CTRL_SET_INT RT_DEVICE_FLAG_INT_TX
             (set_oflag RT_DEVICE_FLAG_INT_TX (v, s\<lparr>ser_heap := h, serial_tx := Some (p, rt_completion_init)\<rparr>)))
         | _ \<Rightarrow> None)
       else if has oflag RT_DEVICE_FLAG_DMA_TX then None
       else Some (v, s)
     else if has oflag RT_DEVICE_FLAG_INT_TX then Some (set_oflag RT_DEVICE_FLAG_INT_TX (v, s))
       else if has oflag RT_DEVICE_FLAG_DMA_TX then None else Some (v, s))"

definition rt_serial_open :: "'h rt_uart_ops \<Rightarrow> u16 \<Rightarrow> 'h rt_serial dev \<Rightarrow> ('h rt_serial dev \<times> int) option" where
  "rt_serial_open ops oflag = (\<lambda>(v, s).
     if has oflag RT_DEVICE_FLAG_DMA_RX \<and> \<not> has (dev_flag v) RT_DEVICE_FLAG_DMA_RX then Some ((v, s), - RT_EIO)
     else if has oflag RT_DEVICE_FLAG_DMA_TX \<and> \<not> has (dev_flag v) RT_DEVICE_FLAG_DMA_TX then Some ((v, s), - RT_EIO)
     else if has oflag RT_DEVICE_FLAG_INT_RX \<and> \<not> has (dev_flag v) RT_DEVICE_FLAG_INT_RX then Some ((v, s), - RT_EIO)
     else if has oflag RT_DEVICE_FLAG_INT_TX \<and> \<not> has (dev_flag v) RT_DEVICE_FLAG_INT_TX then Some ((v, s), - RT_EIO)
     else let stream_flag = (if has oflag RT_DEVICE_FLAG_STREAM \<or> has (open_flag v) RT_DEVICE_FLAG_STREAM then RT_DEVICE_FLAG_STREAM else 0)
       in map_option (\<lambda>d. (set_oflag stream_flag d, RT_EOK))
           (Option.bind (open_rx ops oflag (v\<lparr>open_flag := oflag AND 0xff\<rparr>, s)) (open_tx ops oflag)))"

definition close_rx :: "'h rt_uart_ops \<Rightarrow> 'h rt_serial dev \<Rightarrow> 'h rt_serial dev option" where
  "close_rx ops = (\<lambda>(v, s).
     if has (open_flag v) RT_DEVICE_FLAG_INT_RX
     then (case serial_rx s of None \<Rightarrow> None
       | Some f \<Rightarrow> map_option (\<lambda>h. ll_control ops RT_DEVICE_CTRL_CLR_INT RT_DEVICE_FLAG_INT_RX
            (clr_oflag RT_DEVICE_FLAG_INT_RX (v, s\<lparr>ser_heap := h, serial_rx := None\<rparr>))) (rt_free (Some (fifo_addr f)) (ser_heap s)))
     else if has (open_flag v) RT_DEVICE_FLAG_DMA_RX
     then if bufsz (ser_config s) = 0 then None
       else (case serial_rx s of None \<Rightarrow> None
         | Some f \<Rightarrow> map_option (\<lambda>h. let (v1, s1) = ll_control ops RT_DEVICE_CTRL_CLR_INT RT_DEVICE_FLAG_DMA_RX (v, s\<lparr>ser_heap := h\<rparr>)
             in clr_oflag RT_DEVICE_FLAG_DMA_RX (v1, s1\<lparr>serial_rx := None\<rparr>)) (rt_free (Some (fifo_addr f)) (ser_heap s)))
     else Some (v, s))"

definition close_tx :: "'h rt_uart_ops \<Rightarrow> 'h rt_serial dev \<Rightarrow> 'h rt_serial dev option" where
  "close_tx ops = (\<lambda>(v, s).
     if has (open_flag v) RT_DEVICE_FLAG_INT_TX
     then (case serial_tx s of None \<Rightarrow> None
       | Some (p, c) \<Rightarrow> map_option (\<lambda>h. ll_control ops RT_DEVICE_CTRL_CLR_INT RT_DEVICE_FLAG_INT_TX
            (clr_oflag RT_DEVICE_FLAG_INT_TX (v, s\<lparr>ser_heap := h, serial_tx := None\<rparr>))) (rt_free (Some p) (ser_heap s)))
     else if has (open_flag v) RT_DEVICE_FLAG_DMA_TX then None
     else Some (v, s))"

definition rt_serial_close :: "'h rt_uart_ops \<Rightarrow> 'h rt_serial dev \<Rightarrow> ('h rt_serial dev \<times> int) option" where
  "rt_serial_close ops d =
     (if ref_count (fst d) > 1 then Some (d, RT_EOK)
      else map_option (\<lambda>d. (d, RT_EOK)) (Option.bind (close_rx ops d) (close_tx ops)))"

definition set_rx :: "'h rt_serial \<Rightarrow> rx_fifo \<Rightarrow> 'h rt_serial" where
  "set_rx s f = s\<lparr>serial_rx := Some f\<rparr>"

definition rt_serial_read :: "'h rt_uart_ops \<Rightarrow> nat \<Rightarrow> 'h rt_serial dev \<Rightarrow> ('h rt_serial dev \<times> u8 list) option" where
  "rt_serial_read ops n = (\<lambda>(v, s).
     if n = 0 then Some ((v, s), [])
     else if has (open_flag v) RT_DEVICE_FLAG_INT_RX
     then Option.bind (serial_rx s) (\<lambda>f. map_option (\<lambda>(f1, data). ((v, set_rx s f1), data)) (serial_int_rx (bufsz (ser_config s)) n f))
     else if has (open_flag v) RT_DEVICE_FLAG_DMA_RX
     then if bufsz (ser_config s) = 0 then None
       else Option.bind (serial_rx s) (\<lambda>f. map_option (\<lambda>(f1, data). ((v, set_rx s f1), data)) (serial_dma_rx (bufsz (ser_config s)) n f))
     else let (s1, data) = serial_poll_rx ops n s in Some ((v, s1), data))"

definition rt_serial_write :: "'h rt_uart_ops \<Rightarrow> ('h \<Rightarrow> 'h) \<Rightarrow> rt_thread \<Rightarrow> u8 list \<Rightarrow> 'h rt_serial dev \<Rightarrow> ('h rt_serial dev \<times> nat) option" where
  "rt_serial_write ops idle self data = (\<lambda>(v, s).
     if data = [] then Some ((v, s), 0)
     else if has (open_flag v) RT_DEVICE_FLAG_INT_TX
     then if serial_tx s = None then None else map_option (\<lambda>s1. ((v, s1), length data)) (serial_int_tx ops idle self data s)
     else if has (open_flag v) RT_DEVICE_FLAG_DMA_TX then None
     else Some ((v, serial_poll_tx ops (open_flag v) data s), length data))"

text \<open>The command \<open>FIONREAD\<close>, whose number the C library gives, stores \<open>fifo_calc_recved_len\<close> behind its
  argument and changes nothing.\<close>

definition rt_serial_control :: "'h rt_uart_ops \<Rightarrow> int \<Rightarrow> int \<Rightarrow> serial_arg \<Rightarrow> 'h rt_serial dev \<Rightarrow> ('h rt_serial dev \<times> int) option" where
  "rt_serial_control ops FIONREAD cmd args = (\<lambda>(v, s).
     if cmd = RT_DEVICE_CTRL_SUSPEND then Some ((v\<lparr>dev_flag := dev_flag v OR RT_DEVICE_FLAG_SUSPENDED\<rparr>, s), RT_EOK)
     else if cmd = RT_DEVICE_CTRL_RESUME then Some ((v\<lparr>dev_flag := dev_flag v AND NOT RT_DEVICE_FLAG_SUSPENDED\<rparr>, s), RT_EOK)
     else if cmd = RT_DEVICE_CTRL_CONFIG
     then (case args of
         Arg_int n \<Rightarrow> None
       | Arg_config None \<Rightarrow> Some ((v, s), RT_EOK)
       | Arg_config (Some pconfig) \<Rightarrow>
           if bufsz pconfig \<noteq> bufsz (ser_config s) \<and> ref_count v \<noteq> 0 then Some ((v, s), RT_EBUSY)
           else let s1 = s\<lparr>ser_config := pconfig\<rparr> in
             if ref_count v \<noteq> 0 then map_option (\<lambda>f. ((v, set_hw s1 (f pconfig s1)), RT_EOK)) (uart_configure ops)
             else Some ((v, s1), RT_EOK))
     else if cmd = FIONREAD then (if serial_rx s = None then None else Some ((v, s), RT_EOK))
     else let r = uart_control ops cmd args s in Some ((v, set_hw s r), snd r))"

definition serial_ops :: "'h rt_uart_ops \<Rightarrow> ('h \<Rightarrow> 'h) \<Rightarrow> rt_thread \<Rightarrow> int \<Rightarrow> ('h rt_serial, serial_arg) device_ops" where
  "serial_ops ops idle self FIONREAD = \<lparr>device_init = Some (\<lambda>d. Some (rt_serial_init ops d)), device_open = Some (rt_serial_open ops),
     device_close = Some (rt_serial_close ops), device_read = Some (rt_serial_read ops),
     device_write = Some (rt_serial_write ops idle self), device_control = Some (rt_serial_control ops FIONREAD)\<rparr>"

definition rt_hw_serial_register :: "nat option \<Rightarrow> u8 list \<Rightarrow> u16 \<Rightarrow> obj_world \<times> (nat \<Rightarrow> rt_device) \<Rightarrow> ((obj_world \<times> (nat \<Rightarrow> rt_device)) \<times> int) option" where
  "rt_hw_serial_register serial name flag = (\<lambda>(w, devs).
     case serial of None \<Rightarrow> None
     | Some a \<Rightarrow> rt_device_register (Some a) name flag (w, devs(a := (devs a)\<lparr>rx_indicate := False, tx_complete := False\<rparr>)))"

section \<open>The interrupt of the serial device\<close>

partial_function (option) isr_rx :: "'h rt_uart_ops \<Rightarrow> 'h rt_serial \<Rightarrow> 'h rt_serial option" where
  "isr_rx ops s =
     (let r = uart_getc ops s; s1 = set_hw s r in
      if snd r = -1 then Some s1
      else Option.bind (serial_rx s1) (\<lambda>f. Option.bind (fifo_put (bufsz (ser_config s1)) (word_of_int (snd r)) f)
        (\<lambda>f1. isr_rx ops (set_rx s1 f1))))"

definition isr_rx_length :: "u16 \<Rightarrow> rx_fifo \<Rightarrow> nat" where
  "isr_rx_length sz f =
     (if put_index f \<ge> get_index f then unat (put_index f) - unat (get_index f)
      else unat (word_of_int (uint sz - (uint (get_index f) - uint (put_index f))) :: u32))"

text \<open>The results are the length that \<open>rx_indicate\<close> is called with, if it is, and the thread made ready.\<close>

definition rt_hw_serial_isr :: "'h rt_uart_ops \<Rightarrow> nat \<Rightarrow> 'h rt_serial dev \<Rightarrow> ('h rt_serial dev \<times> nat option \<times> woken) option" where
  "rt_hw_serial_isr ops event = (\<lambda>(v, s).
     if event mod 256 = RT_SERIAL_EVENT_RX_IND
     then if serial_rx s = None then None
       else Option.bind (isr_rx ops s) (\<lambda>s1. map_option (\<lambda>f.
           ((v, s1), let rx_length = isr_rx_length (bufsz (ser_config s1)) f in if rx_indicate v \<and> rx_length \<noteq> 0 then Some rx_length else None, None))
         (serial_rx s1))
     else if event mod 256 = RT_SERIAL_EVENT_TX_DONE
     then map_option (\<lambda>(p, c). let (c1, w) = rt_completion_done c in ((v, s\<lparr>serial_tx := Some (p, c1)\<rparr>), None, w)) (serial_tx s)
     else if event mod 256 = RT_SERIAL_EVENT_TX_DMADONE then None
     else if event mod 256 = RT_SERIAL_EVENT_RX_DMADONE
     then if bufsz (ser_config s) = 0 then None
       else map_option (\<lambda>f. let f1 = dma_recv_update_put_index (bufsz (ser_config s)) (event div 256) f in
           ((v, set_rx s f1), if rx_indicate v then Some (fifo_calc_recved_len (bufsz (ser_config s)) f1) else None, None)) (serial_rx s)
     else Some ((v, s), None, None))"

section \<open>The UART driver\<close>

text \<open>Of the hardware: what the driver asks of \<open>HAL_UART_Init\<close>, the status and the data register, the
  bytes sent, and the two enables of the receive interrupt.\<close>

datatype uart_word_length = UART_WORDLENGTH_8B | UART_WORDLENGTH_9B
datatype uart_stop_bits = UART_STOPBITS_1 | UART_STOPBITS_2
datatype uart_parity = UART_PARITY_NONE | UART_PARITY_EVEN | UART_PARITY_ODD

record stm32_uart =
  init_baud_rate :: u32
  init_word_length :: uart_word_length
  init_stop_bits :: uart_stop_bits
  init_parity :: uart_parity
  uart_sr :: u16
  uart_dr :: u8
  uart_sent :: "u8 list"
  uart_irq :: bool
  uart_it_rxne :: bool

definition UART_FLAG_RXNE :: u16 where "UART_FLAG_RXNE = 0x20"
definition UART_FLAG_TC :: u16 where "UART_FLAG_TC = 0x40"
definition UART_FLAG_ORE :: u16 where "UART_FLAG_ORE = 0x08"

text \<open>Reading the data register clears these flags.\<close>

definition UART_FLAGS_READ :: u16 where "UART_FLAGS_READ = 0x3F"

text \<open>\<open>hal\<close> is what \<open>HAL_UART_Init\<close> makes of the hardware, and whether it returns \<open>HAL_OK\<close>.\<close>

definition stm32_configure :: "(stm32_uart \<Rightarrow> stm32_uart \<times> bool) \<Rightarrow> serial_configure \<Rightarrow> stm32_uart rt_serial \<Rightarrow> stm32_uart \<times> int" where
  "stm32_configure hal cfg s =
     (let (u, ok) = hal ((ser_hw s)\<lparr>init_baud_rate := baud_rate cfg,
           init_word_length := (if data_bits cfg = 9 then UART_WORDLENGTH_9B else UART_WORDLENGTH_8B),
           init_stop_bits := (if stop_bits cfg = 1 then UART_STOPBITS_2 else UART_STOPBITS_1),
           init_parity := (if cfg_parity cfg = 1 then UART_PARITY_ODD else if cfg_parity cfg = 2 then UART_PARITY_EVEN else UART_PARITY_NONE)\<rparr>)
      in if \<not> ok then (u, - RT_ERROR) else (u, RT_EOK))"

text \<open>\<open>dma\<close> is \<open>stm32_dma_config\<close>.\<close>

definition stm32_control :: "(serial_arg \<Rightarrow> stm32_uart rt_serial \<Rightarrow> stm32_uart) \<Rightarrow> int \<Rightarrow> serial_arg \<Rightarrow> stm32_uart rt_serial \<Rightarrow> stm32_uart \<times> int" where
  "stm32_control dma cmd arg s =
     (if cmd = RT_DEVICE_CTRL_CLR_INT then ((ser_hw s)\<lparr>uart_irq := False, uart_it_rxne := False\<rparr>, RT_EOK)
      else if cmd = RT_DEVICE_CTRL_SET_INT then ((ser_hw s)\<lparr>uart_irq := True, uart_it_rxne := True\<rparr>, RT_EOK)
      else if cmd = RT_DEVICE_CTRL_CONFIG then (dma arg s, RT_EOK)
      else (ser_hw s, RT_EOK))"

text \<open>The function waits until the byte is sent and the flag is set again.\<close>

definition stm32_putc :: "u8 \<Rightarrow> stm32_uart rt_serial \<Rightarrow> stm32_uart \<times> int" where
  "stm32_putc c s =
     (let u = (ser_hw s)\<lparr>uart_sr := uart_sr (ser_hw s) AND NOT UART_FLAG_TC\<rparr>
      in (u\<lparr>uart_sent := uart_sent u @ [c], uart_sr := uart_sr u OR UART_FLAG_TC\<rparr>, 1))"

definition stm32_getc :: "stm32_uart rt_serial \<Rightarrow> stm32_uart \<times> int" where
  "stm32_getc s =
     (let u = ser_hw s in
      if has (uart_sr u) UART_FLAG_RXNE then (u\<lparr>uart_sr := uart_sr u AND NOT UART_FLAGS_READ\<rparr>, uint (uart_dr u)) else (u, -1))"

definition stm32_uart_ops :: "(stm32_uart \<Rightarrow> stm32_uart \<times> bool) \<Rightarrow> (serial_arg \<Rightarrow> stm32_uart rt_serial \<Rightarrow> stm32_uart) \<Rightarrow> stm32_uart rt_uart_ops" where
  "stm32_uart_ops hal dma = \<lparr>uart_configure = Some (stm32_configure hal), uart_control = stm32_control dma,
     uart_putc = stm32_putc, uart_getc = stm32_getc\<rparr>"

text \<open>No UART of this configuration has DMA (\<open>uart_dma_flag\<close> is 0). The last branch clears what
  may have raised the interrupt: the error flags by reading the two registers, the others by writing.\<close>

definition uart_isr :: "stm32_uart rt_uart_ops \<Rightarrow> stm32_uart rt_serial dev \<Rightarrow> (stm32_uart rt_serial dev \<times> nat option \<times> woken) option" where
  "uart_isr ops = (\<lambda>(v, s).
     let u = ser_hw s in
     if has (uart_sr u) UART_FLAG_RXNE \<and> uart_it_rxne u then rt_hw_serial_isr ops RT_SERIAL_EVENT_RX_IND (v, s)
     else if has (uart_sr u) UART_FLAG_TC
     then if has (open_flag v) RT_DEVICE_FLAG_DMA_TX then None
       else Some ((v, s\<lparr>ser_hw := u\<lparr>uart_sr := uart_sr u AND NOT UART_FLAG_TC\<rparr>\<rparr>), None, None)
     else Some ((v, s\<lparr>ser_hw := u\<lparr>uart_sr := uart_sr u AND NOT (UART_FLAGS_READ OR 0x300)\<rparr>\<rparr>), None, None))"

text \<open>A byte comes in on the line; with the last one unread it is lost.\<close>

definition uart_receive :: "u8 \<Rightarrow> stm32_uart \<Rightarrow> stm32_uart" where
  "uart_receive b u =
     (if has (uart_sr u) UART_FLAG_RXNE then u\<lparr>uart_sr := uart_sr u OR UART_FLAG_ORE\<rparr>
      else u\<lparr>uart_dr := b, uart_sr := uart_sr u OR UART_FLAG_RXNE\<rparr>)"

text \<open>The table of UARTs: the address of the device, its name and its DMA flags.\<close>

fun rt_hw_usart_init :: "(nat \<times> u8 list \<times> u16) list \<Rightarrow> (obj_world \<times> (nat \<Rightarrow> rt_device)) \<times> (nat \<Rightarrow> serial_configure) \<Rightarrow>
    ((obj_world \<times> (nat \<Rightarrow> rt_device)) \<times> (nat \<Rightarrow> serial_configure)) option" where
  "rt_hw_usart_init [] st = Some st"
| "rt_hw_usart_init ((a, name, uart_dma_flag) # objs) (w, configs) =
     (case rt_hw_serial_register (Some a) name
         (RT_DEVICE_FLAG_RDWR OR RT_DEVICE_FLAG_INT_RX OR RT_DEVICE_FLAG_INT_TX OR uart_dma_flag) w of
        None \<Rightarrow> None
      | Some (w1, result) \<Rightarrow> if result = RT_EOK then rt_hw_usart_init objs (w1, configs(a := RT_SERIAL_CONFIG_DEFAULT)) else None)"

section \<open>The fifo as a queue\<close>

text \<open>The bytes from the get index on, and the state of a fifo of at least two bytes in interrupt
  mode: it never holds more than its size less one.\<close>

definition ring_list :: "nat \<Rightarrow> u8 list \<Rightarrow> nat \<Rightarrow> nat \<Rightarrow> u8 list" where
  "ring_list n buf g k = map (\<lambda>i. buf ! ((g + i) mod n)) [0..<k]"

definition fifo_contents :: "u16 \<Rightarrow> rx_fifo \<Rightarrow> u8 list" where
  "fifo_contents sz f = ring_list (unat sz) (fifo_buffer f) (unat (get_index f))
     ((unat (put_index f) + unat sz - unat (get_index f)) mod unat sz)"

definition fifo_ok :: "u16 \<Rightarrow> rx_fifo \<Rightarrow> bool" where
  "fifo_ok sz f \<longleftrightarrow> 1 < unat sz \<and> length (fifo_buffer f) = unat sz \<and> put_index f < sz \<and> get_index f < sz \<and>
     (put_index f = get_index f \<longrightarrow> \<not> is_full f)"

definition drop_oldest :: "nat \<Rightarrow> u8 list \<Rightarrow> u8 list" where
  "drop_oldest cap q = drop (length q - cap) q"

lemma drop_oldest_full: "length q = n \<Longrightarrow> 0 < n \<Longrightarrow> drop_oldest (n - 1) q = tl q"
  by (simp add: drop_oldest_def drop_Suc)

lemma unat_wrap:
  assumes "i < (sz :: u16)"
  shows "unat (wrap_index sz (i + 1)) = (unat i + 1) mod unat sz"
proof -
  have lt: "unat i < unat sz" using assms by (simp add: word_less_nat_alt)
  moreover have "unat sz < 2 ^ 16" using unsigned_less [of sz, where 'a = nat] by simp
  ultimately have "unat (i + 1) = unat i + 1" by (simp add: unat_word_ariths)
  then show ?thesis using lt by (auto simp: wrap_index_def word_le_nat_alt le_Suc_eq mod_Suc split: if_splits)
qed

lemma wrap_less: "i < (sz :: u16) \<Longrightarrow> wrap_index sz (i + 1) < sz"
  using unat_wrap [of i sz] by (simp add: word_less_nat_alt)

lemma ring_snoc:
  assumes "k < n" and "length buf = n"
  shows "ring_list n (buf[(g + k) mod n := b]) g (Suc k) = ring_list n buf g k @ [b]"
proof -
  have "buf[(g + k) mod n := b] ! ((g + i) mod n) = buf ! ((g + i) mod n)" if "i < k" for i
    using mod_apart [of "g + i" "g + k" n] that assms(1) by (simp add: nth_list_update_neq)
  then show ?thesis using assms by (simp add: ring_list_def)
qed

lemma ring_tl: "ring_list n buf ((g + 1) mod n) k = tl (ring_list n buf g (Suc k))"
proof -
  have "[0..<Suc k] = 0 # map Suc [0..<k]" by (simp add: upt_conv_Cons map_Suc_upt)
  then show ?thesis by (simp add: ring_list_def mod_simps)
qed

lemma fifo_ring_length: "length (ring_list n buf g k) = k"
  by (simp add: ring_list_def)

text \<open>The put index follows the get index by the length.\<close>

lemma ring_dist: "g < n \<Longrightarrow> k < n \<Longrightarrow> ((g + k) mod n + n - g) mod n = (k :: nat)"
  by (cases "g + k < n") (simp_all add: mod_if)

lemma ring_back: "g < n \<Longrightarrow> p < n \<Longrightarrow> (g + (p + n - g) mod n) mod n = (p :: nat)"
proof (cases "g \<le> p")
  case True
  assume a: "g < n" "p < n"
  have "p + n - g = (p - g) + n" using True a by simp
  moreover have "((p - g) + n) mod n = p - g" using a by simp
  ultimately show ?thesis using a True by simp
qed (simp add: mod_if)

lemma fifo_okD:
  assumes "fifo_ok sz f"
  obtains k where "k < unat sz" "unat (put_index f) = (unat (get_index f) + k) mod unat sz" "length (fifo_contents sz f) = k"
    "fifo_contents sz f = ring_list (unat sz) (fifo_buffer f) (unat (get_index f)) k"
    "unat (get_index f) < unat sz" "length (fifo_buffer f) = unat sz" "1 < unat sz"
proof -
  let ?k = "(unat (put_index f) + unat sz - unat (get_index f)) mod unat sz"
  have lt: "unat (put_index f) < unat sz" "unat (get_index f) < unat sz" "1 < unat sz"
    using assms by (simp_all add: fifo_ok_def word_less_nat_alt)
  show thesis by (rule that [of ?k]) (use lt assms in \<open>simp_all add: ring_back fifo_contents_def fifo_ring_length fifo_ok_def\<close>)
qed

lemma contents_ring:
  assumes "unat (get_index f) < unat sz" and "k < unat sz" and "unat (put_index f) = (unat (get_index f) + k) mod unat sz"
  shows "fifo_contents sz f = ring_list (unat sz) (fifo_buffer f) (unat (get_index f)) k"
  using ring_dist [OF assms(1,2)] by (simp add: fifo_contents_def assms(3))

lemma fifo_put_queue:
  assumes ok: "fifo_ok sz f"
  obtains f1 where "fifo_put sz b f = Some f1" "fifo_ok sz f1" "fifo_contents sz f1 = drop_oldest (unat sz - 1) (fifo_contents sz f @ [b])"
proof -
  obtain k where k: "k < unat sz" "unat (put_index f) = (unat (get_index f) + k) mod unat sz" "length (fifo_contents sz f) = k"
    "fifo_contents sz f = ring_list (unat sz) (fifo_buffer f) (unat (get_index f)) k"
    "unat (get_index f) < unat sz" "length (fifo_buffer f) = unat sz" "1 < unat sz"
    using ok by (rule fifo_okD)
  define f1 where "f1 = f\<lparr>fifo_buffer := (fifo_buffer f)[unat (put_index f) := b], put_index := wrap_index sz (put_index f + 1)\<rparr>"
  have lt: "put_index f < sz" "get_index f < sz" using ok by (simp_all add: fifo_ok_def)
  have p1: "unat (put_index f1) = (unat (get_index f) + Suc k) mod unat sz"
    using unat_wrap [OF lt(1)] k(2) by (simp add: f1_def mod_simps)
  have s: "ring_list (unat sz) (fifo_buffer f1) (unat (get_index f)) (Suc k) = fifo_contents sz f @ [b]"
    using ring_snoc [OF k(1,6), of "unat (get_index f)" b] by (simp add: f1_def k(2,4))
  have room: "unat (put_index f) < length (fifo_buffer f)" using lt(1) k(6) by (simp add: word_less_nat_alt)
  show thesis
  proof (cases "Suc k = unat sz")
    case True
    have e: "put_index f1 = get_index f1"
    proof -
      have "unat (put_index f1) = unat (get_index f)" using p1 k(5) by (simp add: True)
      then show ?thesis by (simp add: f1_def word_unat_eq_iff)
    qed
    define f2 where "f2 = f1\<lparr>get_index := wrap_index sz (get_index f1 + 1), is_full := True\<rparr>"
    have g2: "unat (get_index f2) = (unat (get_index f) + 1) mod unat sz" using unat_wrap [OF lt(2)] by (simp add: f2_def f1_def)
    have c: "fifo_contents sz f2 = ring_list (unat sz) (fifo_buffer f2) (unat (get_index f2)) k"
    proof (rule contents_ring)
      show "unat (get_index f2) < unat sz" using g2 k(7) by simp
      have "unat (put_index f2) = (unat (get_index f) + Suc k) mod unat sz" using p1 by (simp add: f2_def)
      then show "unat (put_index f2) = (unat (get_index f2) + k) mod unat sz" by (simp add: g2 mod_simps)
    qed (rule k(1))
    have "\<dots> = tl (fifo_contents sz f @ [b])" using ring_tl [of "unat sz" "fifo_buffer f1" "unat (get_index f)" k] s
      by (simp add: g2) (simp add: f2_def)
    then have "fifo_contents sz f2 = drop_oldest (unat sz - 1) (fifo_contents sz f @ [b])"
      using c drop_oldest_full [of "fifo_contents sz f @ [b]" "unat sz"] k(3,7) True by simp
    moreover have "fifo_ok sz f2"
    proof -
      have "put_index f2 \<noteq> get_index f2"
      proof
        assume "put_index f2 = get_index f2"
        then have "unat (get_index f) mod unat sz = (unat (get_index f) + 1) mod unat sz"
          using g2 p1 True by (simp add: f2_def)
        then show False using mod_apart [of "unat (get_index f)" "unat (get_index f) + 1" "unat sz"] k(7) by simp
      qed
      then show ?thesis using k lt wrap_less by (simp add: fifo_ok_def f2_def f1_def)
    qed
    moreover have "fifo_put sz b f = Some f2" using room e by (simp add: fifo_put_def f1_def [symmetric] f2_def Let_def)
    ultimately show thesis using that by blast
  next
    case False
    then have sk: "Suc k < unat sz" using k(1) by simp
    have ne: "put_index f1 \<noteq> get_index f1"
    proof
      assume "put_index f1 = get_index f1"
      then have "(unat (get_index f) + Suc k) mod unat sz = unat (get_index f) mod unat sz" using p1 k(5) by (simp add: f1_def)
      then show False using mod_apart [of "unat (get_index f)" "unat (get_index f) + Suc k" "unat sz"] sk by simp
    qed
    have "fifo_contents sz f1 = ring_list (unat sz) (fifo_buffer f1) (unat (get_index f1)) (Suc k)"
      using p1 sk k(5) by (intro contents_ring) (simp_all add: f1_def)
    then have "fifo_contents sz f1 = fifo_contents sz f @ [b]" using s by (simp add: f1_def)
    moreover have "fifo_ok sz f1" using ne k lt wrap_less by (simp add: fifo_ok_def f1_def)
    moreover have "fifo_put sz b f = Some f1" using room ne by (simp add: fifo_put_def f1_def [symmetric] Let_def)
    ultimately show thesis using that k(3) sk by (simp add: drop_oldest_def)
  qed
qed

lemma int_rx_queue:
  assumes "fifo_ok sz f"
  shows "\<exists>f1. serial_int_rx sz n f = Some (f1, take n (fifo_contents sz f)) \<and> fifo_ok sz f1 \<and>
    fifo_contents sz f1 = drop n (fifo_contents sz f)"
  using assms
proof (induction n arbitrary: f)
  case (Suc n)
  obtain k where k: "k < unat sz" "unat (put_index f) = (unat (get_index f) + k) mod unat sz" "length (fifo_contents sz f) = k"
    "fifo_contents sz f = ring_list (unat sz) (fifo_buffer f) (unat (get_index f)) k"
    "unat (get_index f) < unat sz" "length (fifo_buffer f) = unat sz" "1 < unat sz"
    using Suc.prems by (rule fifo_okD)
  have lt: "put_index f < sz" "get_index f < sz" using Suc.prems by (simp_all add: fifo_ok_def)
  show ?case
  proof (cases k)
    case 0
    then have "get_index f = put_index f" using k(2,5) by (simp add: word_unat_eq_iff)
    then show ?thesis using Suc.prems k(3) 0 by (simp add: fifo_ok_def)
  next
    case (Suc j)
    have ne: "get_index f \<noteq> put_index f"
    proof
      assume "get_index f = put_index f"
      then have "unat (get_index f) mod unat sz = (unat (get_index f) + k) mod unat sz" using k(2,5) by simp
      then show False using mod_apart [of "unat (get_index f)" "unat (get_index f) + k" "unat sz"] k(1) Suc by simp
    qed
    define f1 where "f1 = f\<lparr>get_index := wrap_index sz (get_index f + 1), is_full := False\<rparr>"
    have g1: "unat (get_index f1) = (unat (get_index f) + 1) mod unat sz" using unat_wrap [OF lt(2)] by (simp add: f1_def)
    have c1: "fifo_contents sz f1 = ring_list (unat sz) (fifo_buffer f1) (unat (get_index f1)) j"
    proof (rule contents_ring)
      show "unat (put_index f1) = (unat (get_index f1) + j) mod unat sz" using k(2) Suc by (simp add: g1 mod_simps) (simp add: f1_def)
    qed (use k g1 Suc in simp_all)
    have "ring_list (unat sz) (fifo_buffer f1) (unat (get_index f1)) j = tl (fifo_contents sz f)"
      using ring_tl [of "unat sz" "fifo_buffer f" "unat (get_index f)" j] k(4) Suc by (simp add: g1) (simp add: f1_def)
    then have tl: "fifo_contents sz f1 = tl (fifo_contents sz f)" using c1 by simp
    have hd: "fifo_contents sz f = fifo_buffer f ! unat (get_index f) # fifo_contents sz f1"
    proof -
      have "hd (fifo_contents sz f) = fifo_buffer f ! unat (get_index f)"
        using k(4,5) Suc by (simp add: ring_list_def upt_conv_Cons del: upt_Suc)
      moreover have "fifo_contents sz f \<noteq> []" using k(3) Suc by auto
      ultimately show ?thesis using tl by (metis list.collapse)
    qed
    have "fifo_ok sz f1" using Suc.prems wrap_less [OF lt(2)] by (simp add: fifo_ok_def f1_def)
    then obtain f2 where f2: "serial_int_rx sz n f1 = Some (f2, take n (fifo_contents sz f1))" "fifo_ok sz f2"
      "fifo_contents sz f2 = drop n (fifo_contents sz f1)" using Suc.IH by blast
    have "serial_int_rx sz (Suc n) f = Some (f2, fifo_buffer f ! unat (get_index f) # take n (fifo_contents sz f1))"
      using ne k(5,6) f2(1) by (simp add: f1_def)
    then show ?thesis using f2 hd by simp
  qed
qed simp

lemma recved_len_queue:
  assumes "fifo_ok sz f"
  shows "fifo_calc_recved_len sz f = length (fifo_contents sz f)" and "isr_rx_length sz f = length (fifo_contents sz f)"
proof -
  have lt: "unat (put_index f) < unat sz" "unat (get_index f) < unat sz"
    using assms by (simp_all add: fifo_ok_def word_less_nat_alt)
  have l: "length (fifo_contents sz f) = (if unat (get_index f) \<le> unat (put_index f) then unat (put_index f) - unat (get_index f)
      else unat (put_index f) + unat sz - unat (get_index f))"
    using lt by (auto simp: fifo_contents_def fifo_ring_length mod_if)
  have w: "unat (word_of_int (uint sz - (uint (get_index f) - uint (put_index f))) :: u32) = unat (put_index f) + unat sz - unat (get_index f)"
    if "unat (put_index f) < unat (get_index f)"
  proof -
    have "uint sz - (uint (get_index f) - uint (put_index f)) = int (unat (put_index f) + unat sz - unat (get_index f))"
      using that lt by (simp add: uint_nat del: of_nat_unat)
    moreover have "unat (put_index f) + unat sz - unat (get_index f) < 2 ^ 32"
      using that unsigned_less [of sz, where 'a = nat] by simp
    ultimately show ?thesis by (simp only: of_int_of_nat_eq unat_of_nat) simp
  qed
  show "fifo_calc_recved_len sz f = length (fifo_contents sz f)" "isr_rx_length sz f = length (fifo_contents sz f)"
    using assms w by (auto simp: fifo_calc_recved_len_def isr_rx_length_def l word_less_nat_alt word_le_nat_alt fifo_ok_def word_unat_eq_iff)
qed

section \<open>Sequences of bytes and reads\<close>

datatype serial_io = Byte u8 | Fetch nat

text \<open>What the interrupt and the readers do to the fifo, and the queue that they see: it holds one byte
  less than the buffer, and when it is full the oldest byte goes.\<close>

fun fifo_io :: "u16 \<Rightarrow> serial_io list \<Rightarrow> rx_fifo \<Rightarrow> (rx_fifo \<times> u8 list list) option" where
  "fifo_io sz [] f = Some (f, [])"
| "fifo_io sz (Byte b # ops) f = Option.bind (fifo_put sz b f) (fifo_io sz ops)"
| "fifo_io sz (Fetch n # ops) f = Option.bind (serial_int_rx sz n f)
     (\<lambda>(f1, data). map_option (\<lambda>(f2, outs). (f2, data # outs)) (fifo_io sz ops f1))"

fun queue_io :: "nat \<Rightarrow> serial_io list \<Rightarrow> u8 list \<Rightarrow> u8 list \<times> u8 list list" where
  "queue_io cap [] q = (q, [])"
| "queue_io cap (Byte b # ops) q = queue_io cap ops (drop_oldest cap (q @ [b]))"
| "queue_io cap (Fetch n # ops) q = (let (q1, outs) = queue_io cap ops (drop n q) in (q1, take n q # outs))"

lemma fifo_io_queue:
  "fifo_ok sz f \<Longrightarrow> \<exists>f1 outs. fifo_io sz ops f = Some (f1, outs) \<and> fifo_ok sz f1 \<and>
     queue_io (unat sz - 1) ops (fifo_contents sz f) = (fifo_contents sz f1, outs)"
proof (induction ops arbitrary: f)
  case (Cons io ops)
  show ?case
  proof (cases io)
    case (Byte b)
    obtain f1 where "fifo_put sz b f = Some f1" "fifo_ok sz f1" "fifo_contents sz f1 = drop_oldest (unat sz - 1) (fifo_contents sz f @ [b])"
      using Cons.prems by (rule fifo_put_queue)
    then show ?thesis using Cons.IH [of f1] Byte by auto
  next
    case (Fetch n)
    obtain f1 where f1: "serial_int_rx sz n f = Some (f1, take n (fifo_contents sz f))" "fifo_ok sz f1"
      "fifo_contents sz f1 = drop n (fifo_contents sz f)" using int_rx_queue [OF Cons.prems] by blast
    then show ?thesis using Cons.IH [OF f1(2)] Fetch by (auto simp: f1(3))
  qed
qed auto

lemma fresh_fifo:
  assumes "new_rx_fifo s = Some s1" and "1 < bufsz (ser_config s)"
  shows "\<exists>f. serial_rx s1 = Some f \<and> fifo_ok (bufsz (ser_config s)) f \<and> fifo_contents (bufsz (ser_config s)) f = [] \<and>
    ser_config s1 = ser_config s"
  using assms by (auto simp: new_rx_fifo_def fifo_ok_def fifo_contents_def ring_list_def word_less_nat_alt split: option.splits)

text \<open>So no access leaves the buffer, every read returns the oldest bytes there are, in order, and the
  lengths that the driver reports are those of the queue.\<close>

lemma serial_fifo_refines_queue:
  assumes "new_rx_fifo s = Some s1" and "bufsz (ser_config s) = sz" and "1 < sz" and "serial_rx s1 = Some f0"
  shows "\<exists>f outs. fifo_io sz ops f0 = Some (f, outs) \<and> queue_io (unat sz - 1) ops [] = (fifo_contents sz f, outs) \<and>
    fifo_calc_recved_len sz f = length (fifo_contents sz f) \<and> isr_rx_length sz f = length (fifo_contents sz f)"
proof -
  have f0: "fifo_ok sz f0" "fifo_contents sz f0 = []" using fresh_fifo [OF assms(1)] assms(2-4) by auto
  then show ?thesis using fifo_io_queue [OF f0(1), of ops] recved_len_queue by metis
qed

section \<open>The UART below the serial device\<close>

lemma flag_cleared: "f AND m = f \<Longrightarrow> (x AND NOT m) AND f = (0 :: u16)"
proof (rule bit_word_eqI)
  fix i assume "f AND m = f"
  then have "bit f i \<Longrightarrow> bit m i" by (metis bit_and_iff)
  then show "bit ((x AND NOT m) AND f) i = bit (0 :: u16) i" by (auto simp: bit_and_iff bit_not_iff)
qed

lemma flag_set: "(x OR f) AND f = (f :: u16)"
  by (rule bit_word_eqI) (auto simp: bit_and_iff bit_or_iff)

lemma flag_kept: "a AND f = 0 \<Longrightarrow> ((x AND NOT a) OR a) AND f = x AND (f :: u16)"
proof (rule bit_word_eqI)
  fix i assume "a AND f = 0"
  then have "\<not> (bit a i \<and> bit f i)" by (metis bit_0_eq bit_and_iff bot_apply bot_bool_def)
  then show "bit (((x AND NOT a) OR a) AND f) i = bit (x AND f) i"
    by (auto simp: bit_and_iff bit_or_iff bit_not_iff dest: bit_imp_le_length)
qed

lemma read_flags: "\<not> has (x AND NOT UART_FLAGS_READ) UART_FLAG_RXNE"
  using flag_cleared [of UART_FLAG_RXNE UART_FLAGS_READ x] by (simp add: has_def UART_FLAGS_READ_def UART_FLAG_RXNE_def)

lemma receive_flag: "has (x OR UART_FLAG_RXNE) UART_FLAG_RXNE"
  unfolding has_def flag_set by (simp add: UART_FLAG_RXNE_def)

lemma putc_flags: "has ((x AND NOT UART_FLAG_TC) OR UART_FLAG_TC) UART_FLAG_RXNE = has x UART_FLAG_RXNE"
  unfolding has_def by (subst flag_kept) (simp_all add: UART_FLAG_TC_def UART_FLAG_RXNE_def)

lemma stm32_fields [simp]:
  "uart_configure (stm32_uart_ops hal dma) = Some (stm32_configure hal)" "uart_control (stm32_uart_ops hal dma) = stm32_control dma"
  "uart_putc (stm32_uart_ops hal dma) = stm32_putc" "uart_getc (stm32_uart_ops hal dma) = stm32_getc"
  by (simp_all add: stm32_uart_ops_def)

text \<open>The loop of the interrupt takes the one byte that the receiver has.\<close>

lemma isr_rx_byte:
  assumes "has (uart_sr (ser_hw s)) UART_FLAG_RXNE" and "serial_rx s = Some f" and "fifo_put (bufsz (ser_config s)) (uart_dr (ser_hw s)) f = Some f1"
  shows "isr_rx (stm32_uart_ops hal dma) s =
    Some (s\<lparr>ser_hw := (ser_hw s)\<lparr>uart_sr := uart_sr (ser_hw s) AND NOT UART_FLAGS_READ\<rparr>, serial_rx := Some f1\<rparr>)"
proof -
  define s1 where "s1 = s\<lparr>ser_hw := (ser_hw s)\<lparr>uart_sr := uart_sr (ser_hw s) AND NOT UART_FLAGS_READ\<rparr>, serial_rx := Some f1\<rparr>"
  have "stm32_getc s1 = (ser_hw s1, -1)" using read_flags by (simp add: stm32_getc_def Let_def s1_def)
  then have end_: "isr_rx (stm32_uart_ops hal dma) s1 = Some s1" by (simp add: isr_rx.simps [of _ s1] Let_def set_hw_def)
  have "stm32_getc s = (ser_hw s1, uint (uart_dr (ser_hw s)))" using assms(1) by (simp add: stm32_getc_def Let_def s1_def)
  moreover have "uint (uart_dr (ser_hw s)) \<noteq> -1" using uint_nonnegative [of "uart_dr (ser_hw s)"] by linarith
  ultimately have "isr_rx (stm32_uart_ops hal dma) s = isr_rx (stm32_uart_ops hal dma) s1"
    using assms(2,3) by (subst isr_rx.simps) (simp add: Let_def set_hw_def set_rx_def s1_def)
  then show ?thesis using end_ s1_def by simp
qed

definition rx_ready :: "stm32_uart rt_serial dev \<Rightarrow> u8 list \<Rightarrow> bool" where
  "rx_ready = (\<lambda>(v, s) q. ref_count v \<noteq> 0 \<and> has (open_flag v) RT_DEVICE_FLAG_INT_RX \<and> \<not> has (open_flag v) RT_DEVICE_FLAG_INT_TX \<and>
     \<not> has (open_flag v) RT_DEVICE_FLAG_DMA_TX \<and> uart_irq (ser_hw s) \<and> uart_it_rxne (ser_hw s) \<and>
     \<not> has (uart_sr (ser_hw s)) UART_FLAG_RXNE \<and>
     (\<exists>f. serial_rx s = Some f \<and> fifo_ok (bufsz (ser_config s)) f \<and> fifo_contents (bufsz (ser_config s)) f = q))"

text \<open>A byte on the line of an open device: the interrupt puts it into the fifo and reports the length.\<close>

lemma uart_isr_byte:
  assumes "rx_ready (v, s) q" and q1_def: "q1 = drop_oldest (unat (bufsz (ser_config s)) - 1) (q @ [b])"
  shows "\<exists>s1. uart_isr (stm32_uart_ops hal dma) (v, s\<lparr>ser_hw := uart_receive b (ser_hw s)\<rparr>) =
      Some ((v, s1), if rx_indicate v then Some (length q1) else None, None) \<and>
    rx_ready (v, s1) q1 \<and> ser_config s1 = ser_config s \<and> uart_sent (ser_hw s1) = uart_sent (ser_hw s)"
proof -
  let ?sz = "bufsz (ser_config s)"
  obtain f where f: "serial_rx s = Some f" "fifo_ok ?sz f" "fifo_contents ?sz f = q"
    using assms(1) by (auto simp: rx_ready_def)
  obtain f1 where f1: "fifo_put ?sz b f = Some f1" "fifo_ok ?sz f1" "fifo_contents ?sz f1 = q1"
    using fifo_put_queue [OF f(2)] unfolding f(3) q1_def by blast
  have u: "uart_receive b (ser_hw s) = (ser_hw s)\<lparr>uart_dr := b, uart_sr := uart_sr (ser_hw s) OR UART_FLAG_RXNE\<rparr>"
    using assms(1) by (simp add: uart_receive_def rx_ready_def)
  define s0 where "s0 = s\<lparr>ser_hw := uart_receive b (ser_hw s)\<rparr>"
  define s1 where "s1 = s0\<lparr>ser_hw := (ser_hw s0)\<lparr>uart_sr := uart_sr (ser_hw s0) AND NOT UART_FLAGS_READ\<rparr>, serial_rx := Some f1\<rparr>"
  have i: "isr_rx (stm32_uart_ops hal dma) s0 = Some s1"
    unfolding s1_def by (rule isr_rx_byte) (use f(1) f1(1) receive_flag in \<open>simp_all add: s0_def u\<close>)
  have "length q1 \<noteq> 0" using f(2) by (auto simp: q1_def drop_oldest_def fifo_ok_def word_less_nat_alt)
  then have "rt_hw_serial_isr (stm32_uart_ops hal dma) RT_SERIAL_EVENT_RX_IND (v, s0) =
      Some ((v, s1), if rx_indicate v then Some (length q1) else None, None)"
    using i f(1) recved_len_queue(2) [OF f1(2)] f1(3)
    by (simp add: rt_hw_serial_isr_def RT_SERIAL_EVENT_RX_IND_def Let_def s1_def s0_def)
  then have "uart_isr (stm32_uart_ops hal dma) (v, s0) = Some ((v, s1), if rx_indicate v then Some (length q1) else None, None)"
    using assms(1) receive_flag by (simp add: uart_isr_def Let_def s0_def u rx_ready_def)
  moreover have "rx_ready (v, s1) q1" using assms(1) f1 read_flags by (simp add: rx_ready_def s1_def s0_def u)
  ultimately show ?thesis unfolding s0_def [symmetric] by (intro exI [of _ s1]) (simp add: s1_def s0_def u)
qed

definition crlf :: "bool \<Rightarrow> u8 list \<Rightarrow> u8 list" where
  "crlf stream data = concat (map (\<lambda>c. if c = 10 \<and> stream then [13, c] else [c]) data)"

lemma poll_tx_sent:
  "\<exists>u. serial_poll_tx (stm32_uart_ops hal dma) oflag data s = s\<lparr>ser_hw := u\<rparr> \<and>
     uart_sent u = uart_sent (ser_hw s) @ crlf (has oflag RT_DEVICE_FLAG_STREAM) data \<and> uart_irq u = uart_irq (ser_hw s) \<and>
     uart_it_rxne u = uart_it_rxne (ser_hw s) \<and> has (uart_sr u) UART_FLAG_RXNE = has (uart_sr (ser_hw s)) UART_FLAG_RXNE"
proof (induction data arbitrary: s)
  case Nil
  then show ?case by (intro exI [of _ "ser_hw s"]) (simp add: crlf_def)
next
  case (Cons c data)
  have put: "\<exists>u. set_hw s (stm32_putc c s) = s\<lparr>ser_hw := u\<rparr> \<and> uart_sent u = uart_sent (ser_hw s) @ [c] \<and> uart_irq u = uart_irq (ser_hw s) \<and>
     uart_it_rxne u = uart_it_rxne (ser_hw s) \<and> has (uart_sr u) UART_FLAG_RXNE = has (uart_sr (ser_hw s)) UART_FLAG_RXNE"
    for c and s :: "stm32_uart rt_serial"
    by (rule exI [of _ "fst (stm32_putc c s)"]) (simp add: set_hw_def stm32_putc_def Let_def putc_flags)
  define s1 where "s1 = (if c = 10 \<and> has oflag RT_DEVICE_FLAG_STREAM then set_hw s (stm32_putc 13 s) else s)"
  have 1: "\<exists>u. s1 = s\<lparr>ser_hw := u\<rparr> \<and> uart_sent u = uart_sent (ser_hw s) @ (if c = 10 \<and> has oflag RT_DEVICE_FLAG_STREAM then [13] else []) \<and>
     uart_irq u = uart_irq (ser_hw s) \<and> uart_it_rxne u = uart_it_rxne (ser_hw s) \<and>
     has (uart_sr u) UART_FLAG_RXNE = has (uart_sr (ser_hw s)) UART_FLAG_RXNE"
  proof (cases "c = 10 \<and> has oflag RT_DEVICE_FLAG_STREAM")
    case False
    then show ?thesis by (intro exI [of _ "ser_hw s"]) (auto simp: s1_def)
  qed (use put [of s 13] in \<open>simp add: s1_def\<close>)
  obtain u2 where 2: "set_hw s1 (stm32_putc c s1) = s1\<lparr>ser_hw := u2\<rparr>" "uart_sent u2 = uart_sent (ser_hw s1) @ [c]" "uart_irq u2 = uart_irq (ser_hw s1)"
    "uart_it_rxne u2 = uart_it_rxne (ser_hw s1)" "has (uart_sr u2) UART_FLAG_RXNE = has (uart_sr (ser_hw s1)) UART_FLAG_RXNE"
    using put by blast
  have eq: "serial_poll_tx (stm32_uart_ops hal dma) oflag (c # data) s = serial_poll_tx (stm32_uart_ops hal dma) oflag data (s1\<lparr>ser_hw := u2\<rparr>)"
    unfolding 2(1) [symmetric] by (simp add: s1_def Let_def)
  obtain u where u: "serial_poll_tx (stm32_uart_ops hal dma) oflag data (s1\<lparr>ser_hw := u2\<rparr>) = s1\<lparr>ser_hw := u2, ser_hw := u\<rparr>"
    "uart_sent u = uart_sent u2 @ crlf (has oflag RT_DEVICE_FLAG_STREAM) data" "uart_irq u = uart_irq u2" "uart_it_rxne u = uart_it_rxne u2"
    "has (uart_sr u) UART_FLAG_RXNE = has (uart_sr u2) UART_FLAG_RXNE"
    using Cons.IH [of "s1\<lparr>ser_hw := u2\<rparr>"] by auto
  obtain u1 where 3: "s1 = s\<lparr>ser_hw := u1\<rparr>" "uart_sent u1 = uart_sent (ser_hw s) @ (if c = 10 \<and> has oflag RT_DEVICE_FLAG_STREAM then [13] else [])"
     "uart_irq u1 = uart_irq (ser_hw s)" "uart_it_rxne u1 = uart_it_rxne (ser_hw s)"
     "has (uart_sr u1) UART_FLAG_RXNE = has (uart_sr (ser_hw s)) UART_FLAG_RXNE" using 1 by blast
  show ?case unfolding eq u(1) by (rule exI [of _ u]) (simp add: u(2-5) 2(2-5) 3 crlf_def)
qed

section \<open>The serial driver as a driver of a device\<close>

lemma flag_or_other: "a AND f = 0 \<Longrightarrow> has (x OR a) f = has x f"
  by (simp add: has_def bit.conj_disj_distrib2)

lemma flag_not_other: "a AND f = 0 \<Longrightarrow> has (x AND NOT a) f = has x f"
proof -
  assume a: "a AND f = 0"
  have "(x AND NOT a) AND f = x AND f"
  proof (rule bit_word_eqI)
    fix i
    have "\<not> (bit a i \<and> bit f i)" using a by (metis bit_0_eq bit_and_iff bot_apply bot_bool_def)
    then show "bit ((x AND NOT a) AND f) i = bit (x AND f) i" by (auto simp: bit_and_iff bit_not_iff dest: bit_imp_le_length)
  qed
  then show ?thesis by (simp add: has_def)
qed

lemma suspended_other:
  assumes "f \<in> {RT_DEVICE_FLAG_STANDALONE, RT_DEVICE_FLAG_ACTIVATED}"
  shows "has (x OR RT_DEVICE_FLAG_SUSPENDED) f = has x f" "has (x AND NOT RT_DEVICE_FLAG_SUSPENDED) f = has x f"
proof -
  have a: "RT_DEVICE_FLAG_SUSPENDED AND f = 0"
    using assms by (auto simp: RT_DEVICE_FLAG_SUSPENDED_def RT_DEVICE_FLAG_STANDALONE_def RT_DEVICE_FLAG_ACTIVATED_def)
  show "has (x OR RT_DEVICE_FLAG_SUSPENDED) f = has x f" using a by (rule flag_or_other)
  show "has (x AND NOT RT_DEVICE_FLAG_SUSPENDED) f = has x f" using a by (rule flag_not_other)
qed

lemma configure_result: "snd (stm32_configure hal cfg s) \<noteq> - RT_ENOSYS"
  unfolding stm32_configure_def Let_def case_prod_beta by (simp only: if_distrib [of snd] snd_conv RT_ENOSYS_def RT_ERROR_def RT_EOK_def) simp

definition same_dev :: "'d dev \<Rightarrow> 'd dev \<Rightarrow> bool" where
  "same_dev d' d \<longleftrightarrow> ref_count (fst d') = ref_count (fst d) \<and> dev_flag (fst d') = dev_flag (fst d)"

lemma same_dev_use: "same_dev d' d \<Longrightarrow> same_use d' d"
  by (simp add: same_dev_def same_use_def)

lemma set_same: "same_dev (set_oflag fl d) d" "same_dev (clr_oflag fl d) d" "same_dev (ll_control ops cmd fl d) d"
  by (cases d; simp add: same_dev_def set_oflag_def clr_oflag_def ll_control_def)+

lemma same_trans: "same_dev a b \<Longrightarrow> same_dev b c \<Longrightarrow> same_dev a c"
  by (simp add: same_dev_def)

lemma same_mem: "same_dev (v, s') (v, s)" "same_dev (v\<lparr>open_flag := x\<rparr>, s') (v, s)"
  by (simp_all add: same_dev_def)

lemma open_parts_same:
  "open_rx ops oflag d = Some d' \<Longrightarrow> same_dev d' d" "open_tx ops oflag d = Some d' \<Longrightarrow> same_dev d' d"
  by (cases d; auto simp: open_rx_def open_tx_def ll_control_def set_oflag_def same_dev_def split: if_splits option.splits)+

lemma close_parts_same:
  "close_rx ops d = Some d' \<Longrightarrow> same_dev d' d" "close_tx ops d = Some d' \<Longrightarrow> same_dev d' d"
  by (cases d; auto simp: close_rx_def close_tx_def ll_control_def clr_oflag_def same_dev_def split: if_splits option.splits)+

lemma serial_open_cases:
  assumes "rt_serial_open ops oflag (v, s) = Some (d', e)"
  shows "e = - RT_EIO \<and> d' = (v, s) \<or> e = RT_EOK \<and> (\<exists>d1 d2. open_rx ops oflag (v\<lparr>open_flag := oflag AND 0xff\<rparr>, s) = Some d1 \<and>
    open_tx ops oflag d1 = Some d2 \<and>
    d' = set_oflag (if has oflag RT_DEVICE_FLAG_STREAM \<or> has (open_flag v) RT_DEVICE_FLAG_STREAM then RT_DEVICE_FLAG_STREAM else 0) d2)"
proof (cases "Option.bind (open_rx ops oflag (v\<lparr>open_flag := oflag AND 0xff\<rparr>, s)) (open_tx ops oflag)")
  case None
  then show ?thesis using assms by (simp add: rt_serial_open_def Let_def split: if_split_asm)
next
  case (Some d2)
  then obtain d1 where d1: "open_rx ops oflag (v\<lparr>open_flag := oflag AND 0xff\<rparr>, s) = Some d1" "open_tx ops oflag d1 = Some d2"
    by (auto simp: bind_eq_Some_conv)
  have "e = - RT_EIO \<and> d' = (v, s) \<or> e = RT_EOK \<and>
    d' = set_oflag (if has oflag RT_DEVICE_FLAG_STREAM \<or> has (open_flag v) RT_DEVICE_FLAG_STREAM then RT_DEVICE_FLAG_STREAM else 0) d2"
    using assms by (auto simp: rt_serial_open_def Let_def Some split: if_split_asm)
  then show ?thesis using d1 by blast
qed

lemma read_fst: "rt_serial_read ops n (v, s) = Some (d', bs) \<Longrightarrow> fst d' = v"
  by (auto simp: rt_serial_read_def bind_eq_Some_conv split: if_split_asm prod.split_asm)

lemma write_fst: "rt_serial_write ops idle self bs (v, s) = Some (d', k) \<Longrightarrow> fst d' = v"
  by (auto simp: rt_serial_write_def split: if_split_asm)

lemma control_fst: "rt_serial_control ops fionread cmd arg (v, s) = Some (d', e) \<Longrightarrow>
    fst d' = v \<or> fst d' = v\<lparr>dev_flag := dev_flag v OR RT_DEVICE_FLAG_SUSPENDED\<rparr> \<or> fst d' = v\<lparr>dev_flag := dev_flag v AND NOT RT_DEVICE_FLAG_SUSPENDED\<rparr>"
  by (auto simp: rt_serial_control_def Let_def split: if_split_asm serial_arg.split_asm option.split_asm)

interpretation serial_dev: device_driver "serial_ops (stm32_uart_ops hal dma) idle self fionread" for hal dma idle self fionread
proof (unfold_locales, goal_cases)
  case (1 f d d' e)
  then show ?case
    by (cases d) (auto simp: serial_ops_def rt_serial_init_def configure_result same_open_def same_use_def Let_def)
next
  case (2 g oflag d d' e)
  then have o': "rt_serial_open (stm32_uart_ops hal dma) oflag d = Some (d', e)" by (simp add: serial_ops_def)
  obtain v s where d: "d = (v, s)" by (cases d)
  show ?case
  proof (cases "e = RT_EOK")
    case True
    then obtain d1 d2 fl where p: "open_rx (stm32_uart_ops hal dma) oflag (v\<lparr>open_flag := oflag AND 0xff\<rparr>, s) = Some d1"
        "open_tx (stm32_uart_ops hal dma) oflag d1 = Some d2" "d' = set_oflag fl d2"
      using serial_open_cases [OF o' [unfolded d]] by (auto simp: RT_EOK_def RT_EIO_def)
    have "same_dev d' d"
      using open_parts_same(1) [OF p(1)] open_parts_same(2) [OF p(2)] set_same(1) [of fl d2] by (simp add: same_dev_def p(3) d)
    then show ?thesis using True same_dev_use [of d' d] by simp
  next
    case False
    then have "d' = d" "e = - RT_EIO" using serial_open_cases [OF o' [unfolded d]] d by auto
    then show ?thesis by (simp add: RT_EIO_def RT_ENOSYS_def RT_EOK_def same_open_def same_use_def)
  qed
next
  case (3 f d d' e)
  then have "rt_serial_close (stm32_uart_ops hal dma) d = Some (d', e)" by (simp add: serial_ops_def)
  then have "e = RT_EOK \<and> (d' = d \<or> (\<exists>d1. close_rx (stm32_uart_ops hal dma) d = Some d1 \<and> close_tx (stm32_uart_ops hal dma) d1 = Some d'))"
    by (auto simp: rt_serial_close_def bind_eq_Some_conv split: if_split_asm)
  then have "e = RT_EOK \<and> same_dev d' d" using close_parts_same same_trans by (metis same_dev_def)
  then show ?case using same_dev_use by blast
next
  case (4 r sz d d' bs)
  then show ?case using read_fst [of "stm32_uart_ops hal dma" sz "fst d" "snd d" d' bs] by (simp add: serial_ops_def same_open_def same_use_def)
next
  case (5 w bs d d' k)
  then show ?case using write_fst [of "stm32_uart_ops hal dma" idle self bs "fst d" "snd d" d' k] by (simp add: serial_ops_def same_open_def same_use_def)
next
  case (6 c cmd arg d d' e)
  then show ?case
    using control_fst [of "stm32_uart_ops hal dma" fionread cmd arg "fst d" "snd d" d' e] by (auto simp: serial_ops_def same_open_def same_use_def suspended_other)
qed

text \<open>Claim C16. The users of a serial device are counted, whatever they do to it and in whatever order:
  after any sequence of opening, closing, reading, writing, setting up and control the count is
  the number of users who have it open, the device is marked as open exactly when there is
  one, it was activated by then, and a stand-alone device has at most one, every other opener
  being told that it is busy.\<close>

theorem serial_users_counted:
  assumes "dev_run (serial_ops (stm32_uart_ops hal dma) idle self fionread) d0 n d"
  shows "unat (ref_count (fst d)) = n \<and> (0 < n \<longleftrightarrow> has (open_flag (fst d)) RT_DEVICE_OFLAG_OPEN) \<and>
    (0 < n \<longrightarrow> has (dev_flag (fst d)) RT_DEVICE_FLAG_ACTIVATED) \<and>
    (has (dev_flag (fst d)) RT_DEVICE_FLAG_STANDALONE \<longrightarrow> n \<le> 1 \<and> (0 < n \<longrightarrow>
       rt_device_open (serial_ops (stm32_uart_ops hal dma) idle self fionread) RT_Object_Class_Device oflag d = Some (d, - RT_EBUSY)))"
  using serial_dev.users_counted [OF assms] serial_dev.standalone_busy [OF assms] by (auto simp: counted_def)

section \<open>A serial line in use\<close>

text \<open>Bytes come in on the line, and the users of the device read and write; the results are what was
  read and the lengths that were reported.\<close>

datatype line_io = Arrive u8 | Take nat | Send "u8 list"

definition line_arrives :: "stm32_uart rt_uart_ops \<Rightarrow> u8 \<Rightarrow> stm32_uart rt_serial dev \<Rightarrow> (stm32_uart rt_serial dev \<times> nat option \<times> woken) option" where
  "line_arrives ops b = (\<lambda>(v, s).
     let s1 = s\<lparr>ser_hw := uart_receive b (ser_hw s)\<rparr> in
     if uart_irq (ser_hw s1) \<and> uart_it_rxne (ser_hw s1) then uart_isr ops (v, s1) else Some ((v, s1), None, None))"

fun uart_link :: "stm32_uart rt_uart_ops \<Rightarrow> (stm32_uart rt_serial, serial_arg) device_ops \<Rightarrow> line_io list \<Rightarrow> stm32_uart rt_serial dev \<Rightarrow>
    (stm32_uart rt_serial dev \<times> u8 list list \<times> nat list) option" where
  "uart_link ops dops [] d = Some (d, [], [])"
| "uart_link ops dops (Arrive b # ios) d = Option.bind (line_arrives ops b d)
     (\<lambda>(d1, n, _). map_option (\<lambda>(d2, outs, ns). (d2, outs, (case n of None \<Rightarrow> ns | Some n \<Rightarrow> n # ns))) (uart_link ops dops ios d1))"
| "uart_link ops dops (Take n # ios) d = Option.bind (rt_device_read dops RT_Object_Class_Device n d)
     (\<lambda>(d1, data). map_option (\<lambda>(d2, outs, ns). (d2, data # outs, ns)) (uart_link ops dops ios d1))"
| "uart_link ops dops (Send data # ios) d = Option.bind (rt_device_write dops RT_Object_Class_Device data d)
     (\<lambda>(d1, k). uart_link ops dops ios d1)"

text \<open>The queue that is behind it, and what is on the line.\<close>

fun link_spec :: "nat \<Rightarrow> line_io list \<Rightarrow> u8 list \<Rightarrow> u8 list \<times> u8 list list \<times> nat list" where
  "link_spec cap [] q = (q, [], [])"
| "link_spec cap (Arrive b # ios) q = (let q1 = drop_oldest cap (q @ [b]); (q2, outs, ns) = link_spec cap ios q1 in (q2, outs, length q1 # ns))"
| "link_spec cap (Take n # ios) q = (let (q2, outs, ns) = link_spec cap ios (drop n q) in (q2, take n q # outs, ns))"
| "link_spec cap (Send data # ios) q = link_spec cap ios q"

fun arrived :: "line_io list \<Rightarrow> u8 list" where
  "arrived [] = []"
| "arrived (Arrive b # ios) = b # arrived ios"
| "arrived (Take n # ios) = arrived ios"
| "arrived (Send data # ios) = arrived ios"

fun sent :: "bool \<Rightarrow> line_io list \<Rightarrow> u8 list" where
  "sent stream [] = []"
| "sent stream (Send data # ios) = crlf stream data @ sent stream ios"
| "sent stream (Arrive b # ios) = sent stream ios"
| "sent stream (Take n # ios) = sent stream ios"

lemma link_spec_lossless:
  "length q + length (arrived ios) \<le> cap \<Longrightarrow> link_spec cap ios q = (q1, outs, ns) \<Longrightarrow> concat outs @ q1 = q @ arrived ios"
proof (induction ios arbitrary: q outs ns)
  case (Cons io ios)
  show ?case
  proof (cases io)
    case (Arrive b)
    then have "drop_oldest cap (q @ [b]) = q @ [b]" using Cons.prems(1) by (simp add: drop_oldest_def)
    then show ?thesis using Cons.prems Arrive Cons.IH [of "q @ [b]" outs] by (auto simp: Let_def split: prod.splits)
  next
    case (Take n)
    then obtain outs' where o': "link_spec cap ios (drop n q) = (q1, outs', ns)" "outs = take n q # outs'"
      using Cons.prems(2) by (auto simp: Let_def split: prod.splits)
    have "concat outs' @ q1 = drop n q @ arrived ios" using Cons.IH [of "drop n q" outs' ns] o'(1) Cons.prems(1) Take by simp
    then show ?thesis using o'(2) Take by (metis append.assoc append_take_drop_id arrived.simps(3) concat.simps(2))
  next
    case (Send data)
    then show ?thesis using Cons by simp
  qed
qed simp

lemma serial_ops_fields:
  "device_read (serial_ops ops idle self fionread) = Some (rt_serial_read ops)"
  "device_write (serial_ops ops idle self fionread) = Some (rt_serial_write ops idle self)"
  "device_open (serial_ops ops idle self fionread) = Some (rt_serial_open ops)"
  "device_init (serial_ops ops idle self fionread) = Some (\<lambda>d. Some (rt_serial_init ops d))"
  by (simp_all add: serial_ops_def)

lemma link_read:
  assumes "rx_ready (v, s) q"
  shows "\<exists>s1. rt_device_read (serial_ops ops idle self fionread) RT_Object_Class_Device n (v, s) = Some ((v, s1), take n q) \<and>
    rx_ready (v, s1) (drop n q) \<and> ser_config s1 = ser_config s \<and> ser_hw s1 = ser_hw s"
proof -
  obtain f where f: "serial_rx s = Some f" "fifo_ok (bufsz (ser_config s)) f" "fifo_contents (bufsz (ser_config s)) f = q"
    "ref_count v \<noteq> 0" "has (open_flag v) RT_DEVICE_FLAG_INT_RX" using assms by (auto simp: rx_ready_def)
  obtain f1 where f1: "serial_int_rx (bufsz (ser_config s)) n f = Some (f1, take n q)" "fifo_ok (bufsz (ser_config s)) f1"
    "fifo_contents (bufsz (ser_config s)) f1 = drop n q" using int_rx_queue [OF f(2), of n] f(3) by auto
  show ?thesis
  proof (cases "n = 0")
    case True
    then show ?thesis using f assms by (simp add: rt_device_read_def serial_ops_fields rt_serial_read_def)
  next
    case False
    then show ?thesis using f f1 assms
      by (intro exI [of _ "set_rx s f1"]) (simp add: rt_device_read_def serial_ops_fields rt_serial_read_def rx_ready_def set_rx_def)
  qed
qed

lemma link_write:
  assumes "rx_ready (v, s) q"
  shows "\<exists>s1 k. rt_device_write (serial_ops (stm32_uart_ops hal dma) idle self fionread) RT_Object_Class_Device data (v, s) = Some ((v, s1), k) \<and>
    rx_ready (v, s1) q \<and> ser_config s1 = ser_config s \<and>
    uart_sent (ser_hw s1) = uart_sent (ser_hw s) @ crlf (has (open_flag v) RT_DEVICE_FLAG_STREAM) data"
proof (cases "data = []")
  case True
  then show ?thesis using assms by (simp add: rt_device_write_def serial_ops_fields rt_serial_write_def rx_ready_def crlf_def)
next
  case False
  obtain u where u: "serial_poll_tx (stm32_uart_ops hal dma) (open_flag v) data s = s\<lparr>ser_hw := u\<rparr>"
    "uart_sent u = uart_sent (ser_hw s) @ crlf (has (open_flag v) RT_DEVICE_FLAG_STREAM) data" "uart_irq u = uart_irq (ser_hw s)"
    "uart_it_rxne u = uart_it_rxne (ser_hw s)" "has (uart_sr u) UART_FLAG_RXNE = has (uart_sr (ser_hw s)) UART_FLAG_RXNE"
    using poll_tx_sent by blast
  then show ?thesis using assms False
    by (intro exI [of _ "s\<lparr>ser_hw := u\<rparr>"] exI [of _ "length data"])
      (simp add: rt_device_write_def serial_ops_fields rt_serial_write_def rx_ready_def)
qed

lemma link_arrives:
  assumes "rx_ready (v, s) q" and "q1 = drop_oldest (unat (bufsz (ser_config s)) - 1) (q @ [b])"
  shows "\<exists>s1. line_arrives (stm32_uart_ops hal dma) b (v, s) = Some ((v, s1), if rx_indicate v then Some (length q1) else None, None) \<and>
    rx_ready (v, s1) q1 \<and> ser_config s1 = ser_config s \<and> uart_sent (ser_hw s1) = uart_sent (ser_hw s)"
proof -
  have "uart_irq (uart_receive b (ser_hw s))" "uart_it_rxne (uart_receive b (ser_hw s))"
    using assms(1) by (simp_all add: rx_ready_def uart_receive_def)
  then show ?thesis using uart_isr_byte [OF assms, of hal dma] by (simp add: line_arrives_def Let_def)
qed

lemma link_queue:
  assumes "rx_ready (v, s) q" and "bufsz (ser_config s) = sz"
  shows "\<exists>s1 q1 outs ns. uart_link (stm32_uart_ops hal dma) (serial_ops (stm32_uart_ops hal dma) idle self fionread) ios (v, s) =
      Some ((v, s1), outs, if rx_indicate v then ns else []) \<and> link_spec (unat sz - 1) ios q = (q1, outs, ns) \<and> rx_ready (v, s1) q1 \<and>
    bufsz (ser_config s1) = sz \<and> uart_sent (ser_hw s1) = uart_sent (ser_hw s) @ sent (has (open_flag v) RT_DEVICE_FLAG_STREAM) ios"
  using assms
proof (induction ios arbitrary: s q)
  case Nil
  then show ?case by auto
next
  case (Cons io ios)
  show ?case
  proof (cases io)
    case (Arrive b)
    define q1 where "q1 = drop_oldest (unat sz - 1) (q @ [b])"
    obtain s1 where s1: "line_arrives (stm32_uart_ops hal dma) b (v, s) = Some ((v, s1), if rx_indicate v then Some (length q1) else None, None)"
      "rx_ready (v, s1) q1" "ser_config s1 = ser_config s" "uart_sent (ser_hw s1) = uart_sent (ser_hw s)"
      using link_arrives [OF Cons.prems(1), of q1 b] Cons.prems(2) q1_def by blast
    have "bufsz (ser_config s1) = sz" using s1(3) Cons.prems(2) by simp
    from Cons.IH [OF s1(2) this] obtain s2 q2 outs ns where i:
      "uart_link (stm32_uart_ops hal dma) (serial_ops (stm32_uart_ops hal dma) idle self fionread) ios (v, s1) =
        Some ((v, s2), outs, if rx_indicate v then ns else [])" "link_spec (unat sz - 1) ios q1 = (q2, outs, ns)" "rx_ready (v, s2) q2"
      "bufsz (ser_config s2) = sz" "uart_sent (ser_hw s2) = uart_sent (ser_hw s1) @ sent (has (open_flag v) RT_DEVICE_FLAG_STREAM) ios" by blast
    have "link_spec (unat sz - 1) (Arrive b # ios) q = (q2, outs, length q1 # ns)" using i(2) by (simp add: q1_def Let_def)
    then show ?thesis using i(1,3-5) s1(1,4)
      by (intro exI [of _ s2] exI [of _ q2] exI [of _ outs] exI [of _ "length q1 # ns"]) (simp add: Arrive del: link_spec.simps)
  next
    case (Take n)
    obtain s1 where s1: "rt_device_read (serial_ops (stm32_uart_ops hal dma) idle self fionread) RT_Object_Class_Device n (v, s) = Some ((v, s1), take n q)"
      "rx_ready (v, s1) (drop n q)" "ser_config s1 = ser_config s" "ser_hw s1 = ser_hw s" using link_read [OF Cons.prems(1)] by blast
    have "bufsz (ser_config s1) = sz" using s1(3) Cons.prems(2) by simp
    from Cons.IH [OF s1(2) this] obtain s2 q2 outs ns where i:
      "uart_link (stm32_uart_ops hal dma) (serial_ops (stm32_uart_ops hal dma) idle self fionread) ios (v, s1) =
        Some ((v, s2), outs, if rx_indicate v then ns else [])" "link_spec (unat sz - 1) ios (drop n q) = (q2, outs, ns)" "rx_ready (v, s2) q2"
      "bufsz (ser_config s2) = sz" "uart_sent (ser_hw s2) = uart_sent (ser_hw s1) @ sent (has (open_flag v) RT_DEVICE_FLAG_STREAM) ios" by blast
    then show ?thesis using s1(1,4)
      by (intro exI [of _ s2] exI [of _ q2] exI [of _ "take n q # outs"] exI [of _ ns]) (simp add: Take)
  next
    case (Send data)
    obtain s1 k where s1: "rt_device_write (serial_ops (stm32_uart_ops hal dma) idle self fionread) RT_Object_Class_Device data (v, s) = Some ((v, s1), k)"
      "rx_ready (v, s1) q" "ser_config s1 = ser_config s"
      "uart_sent (ser_hw s1) = uart_sent (ser_hw s) @ crlf (has (open_flag v) RT_DEVICE_FLAG_STREAM) data" using link_write [OF Cons.prems(1)] by blast
    have "bufsz (ser_config s1) = sz" using s1(3) Cons.prems(2) by simp
    from Cons.IH [OF s1(2) this] obtain s2 q2 outs ns where i:
      "uart_link (stm32_uart_ops hal dma) (serial_ops (stm32_uart_ops hal dma) idle self fionread) ios (v, s1) =
        Some ((v, s2), outs, if rx_indicate v then ns else [])" "link_spec (unat sz - 1) ios q = (q2, outs, ns)" "rx_ready (v, s2) q2"
      "bufsz (ser_config s2) = sz" "uart_sent (ser_hw s2) = uart_sent (ser_hw s1) @ sent (has (open_flag v) RT_DEVICE_FLAG_STREAM) ios" by blast
    then show ?thesis using s1(1,4)
      by (intro exI [of _ s2] exI [of _ q2] exI [of _ "outs"] exI [of _ ns]) (simp add: Send)
  qed
qed

text \<open>Opening for reception by interrupt makes the device ready, its fifo empty.\<close>

lemma activate_keeps:
  assumes "open_activate (serial_ops ops idle self fionread) (v, s) = Some ((v1, s1), r)"
  shows "serial_rx s = None \<Longrightarrow> serial_rx s1 = None" "serial_tx s = None \<Longrightarrow> serial_tx s1 = None" "ser_config s1 = ser_config s"
    "open_flag v1 = open_flag v" "rx_indicate v1 = rx_indicate v"
  using assms by (auto simp: open_activate_def serial_ops_fields rt_serial_init_def set_hw_def set_activated_def Let_def split: if_splits option.splits)

lemma low_flags: "f AND 0xff = 0 \<Longrightarrow> \<not> has (x AND 0xff) f"
proof -
  assume a: "f AND 0xff = 0"
  have "(x AND 0xff) AND f = x AND (f AND 0xff)" by (simp add: ac_simps)
  then show ?thesis using a by (simp add: has_def)
qed

lemma open_rx_ready:
  assumes o': "rt_device_open (serial_ops (stm32_uart_ops hal dma) idle self fionread) RT_Object_Class_Device oflag (v0, s0) = Some ((v, s), RT_EOK)"
    and fl: "has oflag RT_DEVICE_FLAG_INT_RX" "\<not> has oflag RT_DEVICE_FLAG_INT_TX" "\<not> has oflag RT_DEVICE_FLAG_DMA_TX"
    and s0: "serial_rx s0 = None" "serial_tx s0 = None" "1 < bufsz (ser_config s0)" and hw: "\<not> has (uart_sr (ser_hw s)) UART_FLAG_RXNE"
  shows "rx_ready (v, s) [] \<and> ser_config s = ser_config s0 \<and>
    has (open_flag v) RT_DEVICE_FLAG_STREAM = (has oflag RT_DEVICE_FLAG_STREAM \<or> has (open_flag v0) RT_DEVICE_FLAG_STREAM)"
proof -
  let ?ops = "stm32_uart_ops hal dma"
  obtain v1 s1 where a: "open_activate (serial_ops ?ops idle self fionread) (v0, s0) = Some ((v1, s1), RT_EOK)"
    and f: "Option.bind (rt_serial_open ?ops oflag (v1, s1)) open_finish = Some ((v, s), RT_EOK)"
    using o' by (auto simp: rt_device_open_def serial_ops_fields RT_EOK_def RT_EBUSY_def split: if_splits option.splits)
  have k: "serial_rx s1 = None" "serial_tx s1 = None" "ser_config s1 = ser_config s0" "open_flag v1 = open_flag v0" using activate_keeps [OF a] s0 by simp_all
  obtain v2 s2 where o2: "rt_serial_open ?ops oflag (v1, s1) = Some ((v2, s2), RT_EOK)"
    and v: "v = v2\<lparr>open_flag := open_flag v2 OR RT_DEVICE_OFLAG_OPEN, ref_count := ref_count v2 + 1\<rparr>" "s = s2" "ref_count v2 + 1 \<noteq> 0"
  proof -
    obtain v2 s2 e where o2: "rt_serial_open ?ops oflag (v1, s1) = Some ((v2, s2), e)" "open_finish ((v2, s2), e) = Some ((v, s), RT_EOK)"
      using f by (auto simp: bind_eq_Some_conv)
    then have "e = RT_EOK" by (auto simp: open_finish_def Let_def split: if_split_asm)
    then show thesis using o2 that by (auto simp: open_finish_def Let_def split: if_split_asm)
  qed
  obtain d1 d2 where p: "open_rx ?ops oflag (v1\<lparr>open_flag := oflag AND 0xff\<rparr>, s1) = Some d1" "open_tx ?ops oflag d1 = Some d2"
    "(v2, s2) = set_oflag (if has oflag RT_DEVICE_FLAG_STREAM \<or> has (open_flag v1) RT_DEVICE_FLAG_STREAM then RT_DEVICE_FLAG_STREAM else 0) d2"
    using serial_open_cases [OF o2] by (auto simp: RT_EOK_def RT_EIO_def)
  obtain s3 where s3: "new_rx_fifo s1 = Some s3" "d1 = ll_control ?ops RT_DEVICE_CTRL_SET_INT RT_DEVICE_FLAG_INT_RX
      (set_oflag RT_DEVICE_FLAG_INT_RX (v1\<lparr>open_flag := oflag AND 0xff\<rparr>, s3))"
    using p(1) fl(1) k(1) by (auto simp: open_rx_def)
  obtain g where g: "serial_rx s3 = Some g" "fifo_ok (bufsz (ser_config s1)) g" "fifo_contents (bufsz (ser_config s1)) g = []" "ser_config s3 = ser_config s1"
    using fresh_fifo [OF s3(1)] s0(3) k(3) by auto
  have t3: "serial_tx s3 = None" using s3(1) k(2) by (auto simp: new_rx_fifo_def split: option.splits)
  have d2: "d2 = d1" using p(2) fl(2,3) t3 by (simp add: open_tx_def s3(2) ll_control_def set_oflag_def set_hw_def)
  define st where "st = (if has oflag RT_DEVICE_FLAG_STREAM \<or> has (open_flag v1) RT_DEVICE_FLAG_STREAM then RT_DEVICE_FLAG_STREAM else 0)"
  have of2: "open_flag v = (((oflag AND 0xff) OR RT_DEVICE_FLAG_INT_RX) OR st) OR RT_DEVICE_OFLAG_OPEN"
    using p(3) by (simp add: v(1) d2 s3(2) ll_control_def set_oflag_def st_def)
  have st: "st AND RT_DEVICE_FLAG_INT_RX = 0" "st AND RT_DEVICE_FLAG_INT_TX = 0" "st AND RT_DEVICE_FLAG_DMA_TX = 0"
    by (simp_all add: st_def RT_DEVICE_FLAG_STREAM_def RT_DEVICE_FLAG_INT_RX_def RT_DEVICE_FLAG_INT_TX_def RT_DEVICE_FLAG_DMA_TX_def)
  have op: "RT_DEVICE_OFLAG_OPEN AND RT_DEVICE_FLAG_INT_RX = 0" "RT_DEVICE_OFLAG_OPEN AND RT_DEVICE_FLAG_INT_TX = 0" "RT_DEVICE_OFLAG_OPEN AND RT_DEVICE_FLAG_DMA_TX = 0"
    "RT_DEVICE_FLAG_INT_RX AND RT_DEVICE_FLAG_INT_TX = 0" "RT_DEVICE_FLAG_INT_RX AND RT_DEVICE_FLAG_DMA_TX = 0"
    "RT_DEVICE_FLAG_INT_TX AND 0xff = 0" "RT_DEVICE_FLAG_DMA_TX AND 0xff = 0"
    by (simp_all add: RT_DEVICE_OFLAG_OPEN_def RT_DEVICE_FLAG_INT_RX_def RT_DEVICE_FLAG_INT_TX_def RT_DEVICE_FLAG_DMA_TX_def)
  have "has ((oflag AND 0xff) OR RT_DEVICE_FLAG_INT_RX) RT_DEVICE_FLAG_INT_RX" by (simp add: has_def flag_set RT_DEVICE_FLAG_INT_RX_def)
  then have flags: "has (open_flag v) RT_DEVICE_FLAG_INT_RX" "\<not> has (open_flag v) RT_DEVICE_FLAG_INT_TX" "\<not> has (open_flag v) RT_DEVICE_FLAG_DMA_TX"
    using low_flags [OF op(6)] low_flags [OF op(7)]
    by (simp_all add: of2 flag_or_other [OF op(1)] flag_or_other [OF op(2)] flag_or_other [OF op(3)] flag_or_other [OF op(4)] flag_or_other [OF op(5)]
        flag_or_other [OF st(1)] flag_or_other [OF st(2)] flag_or_other [OF st(3)])
  have "s = set_hw s3 (stm32_control dma RT_DEVICE_CTRL_SET_INT (Arg_int (unat RT_DEVICE_FLAG_INT_RX)) s3)"
    using p(3) by (simp add: v(2) d2 s3(2) ll_control_def set_oflag_def)
  then have "serial_rx s = Some g" "ser_config s = ser_config s1" "uart_irq (ser_hw s)" "uart_it_rxne (ser_hw s)"
    using g by (simp_all add: set_hw_def stm32_control_def RT_DEVICE_CTRL_SET_INT_def RT_DEVICE_CTRL_CLR_INT_def)
  moreover have "has (open_flag v) RT_DEVICE_FLAG_STREAM = (has oflag RT_DEVICE_FLAG_STREAM \<or> has (open_flag v0) RT_DEVICE_FLAG_STREAM)"
  proof -
    have "has x RT_DEVICE_FLAG_STREAM = has (x AND 0xff) RT_DEVICE_FLAG_STREAM" for x
      by (simp add: has_def RT_DEVICE_FLAG_STREAM_def and.assoc)
    then have "has (((oflag AND 0xff) OR RT_DEVICE_FLAG_INT_RX) OR st) RT_DEVICE_FLAG_STREAM = (has oflag RT_DEVICE_FLAG_STREAM \<or> has st RT_DEVICE_FLAG_STREAM)"
      by (cases "st = 0") (auto simp: has_def st_def bit.conj_disj_distrib2 RT_DEVICE_FLAG_STREAM_def RT_DEVICE_FLAG_INT_RX_def split: if_splits)
    then show ?thesis using flag_or_other [of RT_DEVICE_OFLAG_OPEN RT_DEVICE_FLAG_STREAM] k(4)
      by (auto simp: of2 st_def has_def RT_DEVICE_OFLAG_OPEN_def RT_DEVICE_FLAG_STREAM_def)
  qed
  ultimately show ?thesis using flags hw g k(3) v by (simp add: rx_ready_def)
qed

text \<open>Claim C17. A serial line opened for reception by interrupt is a queue behind a wire: whatever comes in,
  is read and is written, in whatever order, no interrupt and no call fails, every read returns the
  oldest bytes that came in, in order, each byte is reported with the length of the queue when
  it came, the queue keeps the last \<open>bufsz - 1\<close> bytes, so nothing is lost until more come in, and
  what is written goes out in order, with a carriage return before each line feed in stream mode.\<close>

theorem serial_link_is_queue:
  assumes "rt_device_open (serial_ops (stm32_uart_ops hal dma) idle self fionread) RT_Object_Class_Device oflag (v0, s0) = Some ((v, s), RT_EOK)"
    and "has oflag RT_DEVICE_FLAG_INT_RX" and "\<not> has oflag RT_DEVICE_FLAG_INT_TX" and "\<not> has oflag RT_DEVICE_FLAG_DMA_TX"
    and "serial_rx s0 = None" and "serial_tx s0 = None" and "bufsz (ser_config s0) = sz" and "1 < sz"
    and "\<not> has (uart_sr (ser_hw s)) UART_FLAG_RXNE"
  shows "\<exists>s1 f q outs ns. uart_link (stm32_uart_ops hal dma) (serial_ops (stm32_uart_ops hal dma) idle self fionread) ios (v, s) =
      Some ((v, s1), outs, if rx_indicate v then ns else []) \<and> link_spec (unat sz - 1) ios [] = (q, outs, ns) \<and>
    serial_rx s1 = Some f \<and> fifo_contents sz f = q \<and>
    uart_sent (ser_hw s1) = uart_sent (ser_hw s) @ sent (has (open_flag v) RT_DEVICE_FLAG_STREAM) ios \<and>
    (length (arrived ios) < unat sz \<longrightarrow> concat outs @ q = arrived ios)"
proof -
  have "1 < bufsz (ser_config s0)" using assms(7,8) by simp
  from open_rx_ready [OF assms(1-6) this assms(9)] obtain s1 q outs ns where l: "uart_link (stm32_uart_ops hal dma) (serial_ops (stm32_uart_ops hal dma) idle self fionread) ios (v, s) =
      Some ((v, s1), outs, if rx_indicate v then ns else [])" "link_spec (unat sz - 1) ios [] = (q, outs, ns)" "rx_ready (v, s1) q" "bufsz (ser_config s1) = sz"
      "uart_sent (ser_hw s1) = uart_sent (ser_hw s) @ sent (has (open_flag v) RT_DEVICE_FLAG_STREAM) ios"
    using link_queue [of v s "[]" sz hal dma idle self fionread ios] assms(7) by fastforce
  obtain f where "serial_rx s1 = Some f" "fifo_contents sz f = q" using l(3,4) by (auto simp: rx_ready_def)
  then show ?thesis using l(1,2,5) link_spec_lossless [of "[]" ios "unat sz - 1" q outs ns] by auto
qed

section \<open>A small line\<close>

definition sample_serial :: "rx_fifo option \<Rightarrow> 'h \<Rightarrow> 'h rt_serial" where
  "sample_serial f u = \<lparr>ser_config = RT_SERIAL_CONFIG_DEFAULT\<lparr>bufsz := 4\<rparr>, serial_rx = f, serial_tx = None, ser_heap = demo_heap, ser_hw = u\<rparr>"

definition sample_uart :: stm32_uart where
  "sample_uart = \<lparr>init_baud_rate = 0, init_word_length = UART_WORDLENGTH_8B, init_stop_bits = UART_STOPBITS_1, init_parity = UART_PARITY_NONE,
     uart_sr = 0xC0, uart_dr = 0, uart_sent = [], uart_irq = False, uart_it_rxne = False\<rparr>"

definition sample_dev :: rt_device where
  "sample_dev = \<lparr>dev_flag = 0x51B, open_flag = 0, ref_count = 0, rx_indicate = True, tx_complete = False\<rparr>"

definition sample_uops :: "stm32_uart rt_uart_ops" where
  "sample_uops = stm32_uart_ops (\<lambda>u. (u, True)) (\<lambda>_ s. ser_hw s)"

lemma demo_malloc_16: "\<exists>h. rt_malloc 16 demo_heap = Some (h, Some 0x2000000C)"
  by (simp add: rt_malloc_def demo_heap_eq RT_ALIGN_def malloc_size_def malloc_search.simps [of _ 16 0] usub_le
      malloc_take_def set_hdr_def count_used_def malloc_lfree_def lfree_advance.simps Let_def word_less_nat_alt)

lemma sample_flags:
  "\<not> has 0x51B RT_DEVICE_FLAG_DMA_RX" "\<not> has 0x51B RT_DEVICE_FLAG_DMA_TX" "has 0x51B RT_DEVICE_FLAG_INT_RX" "has 0x51B RT_DEVICE_FLAG_ACTIVATED"
  "has 0x51B RT_DEVICE_FLAG_STANDALONE" "has 0x140 RT_DEVICE_FLAG_INT_RX" "has 0x140 RT_DEVICE_FLAG_STREAM"
  "\<not> has 0x140 RT_DEVICE_FLAG_INT_TX" "\<not> has 0x140 RT_DEVICE_FLAG_DMA_TX" "\<not> has 0x140 RT_DEVICE_FLAG_DMA_RX" "\<not> has 0 f" "\<not> has 0xC0 UART_FLAG_RXNE"
  "has 0x148 RT_DEVICE_FLAG_STREAM"
  by (simp_all add: has_def RT_DEVICE_FLAG_DMA_RX_def RT_DEVICE_FLAG_DMA_TX_def RT_DEVICE_FLAG_INT_RX_def RT_DEVICE_FLAG_INT_TX_def
      RT_DEVICE_FLAG_ACTIVATED_def RT_DEVICE_FLAG_STANDALONE_def RT_DEVICE_FLAG_STREAM_def UART_FLAG_RXNE_def)

lemma sample_open:
  "\<exists>s. rt_device_open (serial_ops sample_uops id (sample_thread 1 9) 0) RT_Object_Class_Device 0x140 (sample_dev, sample_serial None sample_uart) =
     Some ((sample_dev\<lparr>open_flag := 0x148, ref_count := 1\<rparr>, s), RT_EOK) \<and> uart_sr (ser_hw s) = 0xC0 \<and> uart_sent (ser_hw s) = []"
  using demo_malloc_16
  by (auto simp: rt_device_open_def open_activate_def serial_ops_fields rt_serial_open_def open_rx_def open_tx_def new_rx_fifo_def has_def
      sample_dev_def sample_serial_def sample_uart_def sample_uops_def ll_control_def set_oflag_def set_hw_def stm32_control_def open_finish_def Let_def
      RT_SERIAL_CONFIG_DEFAULT_def
      RT_DEVICE_CTRL_SET_INT_def RT_DEVICE_CTRL_CLR_INT_def RT_DEVICE_FLAG_STREAM_def RT_DEVICE_FLAG_INT_RX_def RT_DEVICE_OFLAG_OPEN_def
      RT_DEVICE_FLAG_DMA_RX_def RT_DEVICE_FLAG_DMA_TX_def RT_DEVICE_FLAG_INT_TX_def RT_DEVICE_FLAG_ACTIVATED_def RT_DEVICE_FLAG_STANDALONE_def)

theorem serial_link_is_queue_witness:
  "\<exists>v s s1. rt_device_open (serial_ops sample_uops id (sample_thread 1 9) 0) RT_Object_Class_Device 0x140
      (sample_dev, sample_serial None sample_uart) = Some ((v, s), RT_EOK) \<and>
    uart_link sample_uops (serial_ops sample_uops id (sample_thread 1 9) 0)
      [Arrive 1, Arrive 2, Arrive 3, Arrive 4, Take 2, Send [10], Take 5] (v, s) = Some ((v, s1), [[2, 3], [4]], [1, 2, 3, 3]) \<and>
    uart_sent (ser_hw s1) = [13, 10]"
proof -
  obtain s where s: "rt_device_open (serial_ops sample_uops id (sample_thread 1 9) 0) RT_Object_Class_Device 0x140 (sample_dev, sample_serial None sample_uart) =
     Some ((sample_dev\<lparr>open_flag := 0x148, ref_count := 1\<rparr>, s), RT_EOK)" "uart_sr (ser_hw s) = 0xC0" "uart_sent (ser_hw s) = []"
    using sample_open by blast
  show ?thesis
    using serial_link_is_queue [OF s(1) [unfolded sample_uops_def], of 4 "[Arrive 1, Arrive 2, Arrive 3, Arrive 4, Take 2, Send [10], Take 5]"] s
    by (auto simp: sample_flags sample_serial_def RT_SERIAL_CONFIG_DEFAULT_def drop_oldest_def crlf_def sample_dev_def Let_def sample_uops_def [symmetric])
qed

theorem serial_users_counted_witness:
  "\<exists>d. dev_run (serial_ops sample_uops id (sample_thread 1 9) 0) (sample_dev, sample_serial None sample_uart) 1 d \<and>
    ref_count (fst d) = 1 \<and> rt_device_open (serial_ops sample_uops id (sample_thread 1 9) 0) RT_Object_Class_Device 0x140 d = Some (d, - RT_EBUSY)"
proof -
  obtain s where "rt_device_open (serial_ops sample_uops id (sample_thread 1 9) 0) RT_Object_Class_Device 0x140 (sample_dev, sample_serial None sample_uart) =
     Some ((sample_dev\<lparr>open_flag := 0x148, ref_count := 1\<rparr>, s), RT_EOK)"
    using sample_open by blast
  from dev_run.acquire [OF dev_run.start this]
  have r: "dev_run (serial_ops sample_uops id (sample_thread 1 9) 0) (sample_dev, sample_serial None sample_uart) 1 (sample_dev\<lparr>open_flag := 0x148, ref_count := 1\<rparr>, s)"
    by (simp add: sample_dev_def)
  show ?thesis using serial_users_counted [OF r [unfolded sample_uops_def], of "0x140"] r
    by (intro exI [of _ "(sample_dev\<lparr>open_flag := 0x148, ref_count := 1\<rparr>, s)"]) (simp add: sample_dev_def sample_flags sample_uops_def)
qed

section \<open>Reading in DMA mode\<close>

lemma ring_flat:
  assumes "g < n" and "k \<le> n" and "length buf = n"
  shows "ring_list n buf g k = (if g + k < n then take k (drop g buf) else take (n - g) (drop g buf) @ take (k + g - n) buf)"
proof (rule nth_equalityI)
  show "length (ring_list n buf g k) = length (if g + k < n then take k (drop g buf) else take (n - g) (drop g buf) @ take (k + g - n) buf)"
    using assms by (simp add: fifo_ring_length)
next
  fix i assume i: "i < length (ring_list n buf g k)"
  then have ik: "i < k" by (simp add: fifo_ring_length)
  show "ring_list n buf g k ! i = (if g + k < n then take k (drop g buf) else take (n - g) (drop g buf) @ take (k + g - n) buf) ! i"
  proof (cases "g + i < n")
    case True
    then have "i < n - g" by simp
    then show ?thesis using True assms ik by (simp add: ring_list_def nth_append)
  next
    case False
    then have "(g + i) mod n = i - (n - g)" using assms ik by (simp add: mod_if add.commute)
    moreover have "\<not> i < n - g" using False by simp
    ultimately show ?thesis using False assms ik by (simp add: ring_list_def nth_append)
  qed
qed

lemma ring_take_drop:
  "j \<le> k \<Longrightarrow> ring_list n buf g j = take j (ring_list n buf g k)"
  "j \<le> k \<Longrightarrow> ring_list n buf ((g + j) mod n) (k - j) = drop j (ring_list n buf g k)"
  by (auto simp: ring_list_def intro!: nth_equalityI) (simp add: mod_simps add.assoc)

text \<open>The read copies the same bytes in one or two pieces. The get index has 16 bits, so the buffer
  must not be longer than 32768 bytes.\<close>

lemma dma_rx_queue:
  assumes ok: "fifo_ok sz f" and sz: "unat sz \<le> 2 ^ 15"
  shows "\<exists>f1. serial_dma_rx sz n f = Some (f1, take n (fifo_contents sz f)) \<and> fifo_ok sz f1 \<and> fifo_contents sz f1 = drop n (fifo_contents sz f)"
proof -
  obtain k where k: "k < unat sz" "unat (put_index f) = (unat (get_index f) + k) mod unat sz" "length (fifo_contents sz f) = k"
    "fifo_contents sz f = ring_list (unat sz) (fifo_buffer f) (unat (get_index f)) k"
    "unat (get_index f) < unat sz" "length (fifo_buffer f) = unat sz" "1 < unat sz"
    using ok by (rule fifo_okD)
  define j where "j = min n k"
  have rl: "fifo_calc_recved_len sz f = k" using recved_len_queue(1) [OF ok] k(3) by simp
  have j: "(if n < k then n else k) = j" "j \<le> k" "j < unat sz" using k(1) by (auto simp: j_def)
  have nf: "\<not> is_full f \<or> k \<noteq> 0" using ok k(2,5) by (cases k) (auto simp: fifo_ok_def word_unat_eq_iff)
  define f1 where "f1 = (if is_full f \<and> j \<noteq> 0 then f\<lparr>is_full := False\<rparr> else f)"
  define f2 where "f2 = (let f2 = f1\<lparr>get_index := get_index f1 + of_nat j\<rparr> in if get_index f2 \<ge> sz then f2\<lparr>get_index := get_index f2 mod sz\<rparr> else f2)"
  have u: "dma_recv_update_get_index sz j f = Some f2"
    using j(2) by (simp add: dma_recv_update_get_index_def rl f1_def f2_def Let_def)
  have data: "(if unat (get_index f) + j < unat sz then take j (drop (unat (get_index f)) (fifo_buffer f))
      else take (unat sz - unat (get_index f)) (drop (unat (get_index f)) (fifo_buffer f)) @ take (j + unat (get_index f) - unat sz) (fifo_buffer f)) =
    take j (fifo_contents sz f)"
    using ring_flat [OF k(5) less_imp_le [OF j(3)] k(6)] ring_take_drop(1) [OF j(2)] k(4) by (simp add: add.commute)
  have tk: "take j (fifo_contents sz f) = take n (fifo_contents sz f)" "drop j (fifo_contents sz f) = drop n (fifo_contents sz f)"
    using k(3) by (auto simp: j_def min_def)
  have e: "serial_dma_rx sz n f = Some (f2, take n (fifo_contents sz f))"
    unfolding serial_dma_rx_def Let_def rl j(1) u data tk(1) by simp
  have g1: "unat (get_index f + of_nat j) = unat (get_index f) + j"
    using j(3) k(5) sz by (simp add: unat_word_ariths unat_of_nat)
  have g2: "unat (get_index f2) = (unat (get_index f) + j) mod unat sz" "put_index f2 = put_index f" "fifo_buffer f2 = fifo_buffer f"
    using g1 by (auto simp: f2_def f1_def Let_def unat_mod word_le_nat_alt)
  have c: "fifo_contents sz f2 = ring_list (unat sz) (fifo_buffer f2) (unat (get_index f2)) (k - j)"
  proof (rule contents_ring)
    have "((unat (get_index f) + j) mod unat sz + (k - j)) mod unat sz = (unat (get_index f) + j + (k - j)) mod unat sz"
      by (simp only: mod_add_left_eq)
    then show "unat (put_index f2) = (unat (get_index f2) + (k - j)) mod unat sz" using k(2) j(2) by (simp add: g2)
  qed (use k(1,7) in \<open>simp_all add: g2\<close>)
  have "ring_list (unat sz) (fifo_buffer f) ((unat (get_index f) + j) mod unat sz) (k - j) = drop n (fifo_contents sz f)"
    using ring_take_drop(2) [OF j(2)] k(4) tk(2) by simp
  moreover have "fifo_ok sz f2"
  proof -
    have "put_index f2 = get_index f2 \<Longrightarrow> \<not> is_full f2"
    proof
      assume a: "put_index f2 = get_index f2" "is_full f2"
      have "j = k"
      proof (rule ccontr)
        assume "j \<noteq> k"
        then have "(unat (get_index f) + k) mod unat sz \<noteq> (unat (get_index f) + j) mod unat sz"
          using mod_apart [of "unat (get_index f) + j" "unat (get_index f) + k" "unat sz"] j(2) k(1) by simp
        then show False using a(1) g2(1,2) k(2) by simp
      qed
      moreover have "is_full f2 = is_full f1" by (auto simp: f2_def Let_def)
      ultimately show False using a(2) nf by (auto simp: f1_def split: if_split_asm)
    qed
    moreover have "get_index f2 < sz" using g2(1) k(7) by (simp add: word_less_nat_alt)
    ultimately show ?thesis using ok g2(2,3) by (simp add: fifo_ok_def)
  qed
  ultimately show ?thesis using e c by (intro exI [of _ f2]) (simp add: g2)
qed

section \<open>Where the driver does not keep its promise\<close>

lemma int_flags_apart:
  "RT_DEVICE_OFLAG_OPEN AND RT_DEVICE_FLAG_INT_RX = 0" "RT_DEVICE_OFLAG_OPEN AND RT_DEVICE_FLAG_DMA_RX = 0"
  "RT_DEVICE_FLAG_STREAM AND RT_DEVICE_FLAG_INT_RX = 0" "RT_DEVICE_FLAG_STREAM AND RT_DEVICE_FLAG_DMA_RX = 0"
  "RT_DEVICE_FLAG_INT_RX AND 0xff = 0" "RT_DEVICE_FLAG_DMA_RX AND 0xff = 0"
  by (simp_all add: RT_DEVICE_OFLAG_OPEN_def RT_DEVICE_FLAG_INT_RX_def RT_DEVICE_FLAG_STREAM_def RT_DEVICE_FLAG_DMA_RX_def)

text \<open>A second user who opens the device without asking for interrupts takes the mode from the first:
  reads poll an empty receiver, whatever the fifo holds, and closing the device leaves the fifo
  allocated and the receive interrupt on.\<close>

lemma second_open_stops_reception:
  assumes r: "rx_ready (v, s) q" and tx: "serial_tx s = None" and act: "has (dev_flag v) RT_DEVICE_FLAG_ACTIVATED"
    and o': "rt_device_open (serial_ops (stm32_uart_ops hal dma) idle self fionread) RT_Object_Class_Device 0 (v, s) = Some ((v1, s1), RT_EOK)"
  shows "s1 = s \<and> rt_device_read (serial_ops (stm32_uart_ops hal dma) idle self fionread) RT_Object_Class_Device n (v1, s) = Some ((v1, s), []) \<and>
    rt_serial_close (stm32_uart_ops hal dma) (v1\<lparr>ref_count := 0\<rparr>, s) = Some ((v1\<lparr>ref_count := 0\<rparr>, s), RT_EOK)"
proof -
  have no: "\<not> has 0 f" for f by (simp add: has_def)
  have rx: "serial_rx s \<noteq> None" "\<not> has (uart_sr (ser_hw s)) UART_FLAG_RXNE" using r by (auto simp: rx_ready_def)
  define st where "st = (if has (open_flag v) RT_DEVICE_FLAG_STREAM then RT_DEVICE_FLAG_STREAM else 0)"
  have "rt_serial_open (stm32_uart_ops hal dma) 0 (v, s) = Some ((v\<lparr>open_flag := st\<rparr>, s), RT_EOK)"
    using rx(1) tx by (simp add: rt_serial_open_def open_rx_def open_tx_def no set_oflag_def st_def Let_def)
  then have v1: "s1 = s" "v1 = v\<lparr>open_flag := st OR RT_DEVICE_OFLAG_OPEN, ref_count := ref_count v + 1\<rparr>" "ref_count v1 \<noteq> 0"
    using o' act by (auto simp: rt_device_open_def open_activate_def serial_ops_fields open_finish_def Let_def RT_EOK_def RT_EBUSY_def split: if_split_asm)
  have fl: "\<not> has (open_flag v1) RT_DEVICE_FLAG_INT_RX" "\<not> has (open_flag v1) RT_DEVICE_FLAG_DMA_RX"
    "\<not> has (open_flag v1) RT_DEVICE_FLAG_INT_TX" "\<not> has (open_flag v1) RT_DEVICE_FLAG_DMA_TX"
    by (simp_all add: v1(2) st_def has_def RT_DEVICE_OFLAG_OPEN_def RT_DEVICE_FLAG_INT_RX_def RT_DEVICE_FLAG_STREAM_def RT_DEVICE_FLAG_DMA_RX_def
        RT_DEVICE_FLAG_INT_TX_def RT_DEVICE_FLAG_DMA_TX_def)
  have "serial_poll_rx (stm32_uart_ops hal dma) n s = (s, [])"
    using rx(2) by (cases n) (simp_all add: stm32_getc_def set_hw_def Let_def)
  then show ?thesis using v1 fl
    by (simp add: rt_device_read_def serial_ops_fields rt_serial_read_def rt_serial_close_def close_rx_def close_tx_def)
qed

text \<open>A device opened for transmission by interrupt alone: \<open>stm32_control\<close> does not look at its argument
  and turns the receive interrupt on, so that the first byte that comes in fails an assertion.\<close>

lemma transmit_only_asserts:
  assumes o': "rt_serial_open (stm32_uart_ops hal dma) RT_DEVICE_FLAG_INT_TX (v0, s0) = Some ((v, s), RT_EOK)"
    and s0: "serial_rx s0 = None" "serial_tx s0 = None" and hw: "\<not> has (uart_sr (ser_hw s)) UART_FLAG_RXNE"
  shows "line_arrives (stm32_uart_ops hal dma) b (v, s) = None"
proof -
  have f: "\<not> has RT_DEVICE_FLAG_INT_TX RT_DEVICE_FLAG_INT_RX" "\<not> has RT_DEVICE_FLAG_INT_TX RT_DEVICE_FLAG_DMA_RX" "has RT_DEVICE_FLAG_INT_TX RT_DEVICE_FLAG_INT_TX"
    by (simp_all add: has_def RT_DEVICE_FLAG_INT_TX_def RT_DEVICE_FLAG_INT_RX_def RT_DEVICE_FLAG_DMA_RX_def)
  obtain d2 fl where "open_tx (stm32_uart_ops hal dma) RT_DEVICE_FLAG_INT_TX (v0\<lparr>open_flag := RT_DEVICE_FLAG_INT_TX AND 0xff\<rparr>, s0) = Some d2" "(v, s) = set_oflag fl d2"
    using serial_open_cases [OF o'] s0(1) by (auto simp: open_rx_def f RT_EOK_def RT_EIO_def)
  then have "serial_rx s = None" "uart_irq (ser_hw s)" "uart_it_rxne (ser_hw s)"
    using s0 by (auto simp: open_tx_def f ll_control_def set_oflag_def set_hw_def stm32_control_def RT_DEVICE_CTRL_SET_INT_def RT_DEVICE_CTRL_CLR_INT_def
        split: option.splits)
  then show ?thesis using hw receive_flag
    by (simp add: line_arrives_def uart_receive_def uart_isr_def rt_hw_serial_isr_def RT_SERIAL_EVENT_RX_IND_def Let_def)
qed

text \<open>Closing takes the fifo away before it turns the interrupt off: a byte in between fails the same
  assertion.\<close>

lemma close_window_asserts:
  assumes "rx_ready (v, s) q" and "rt_free (Some a) (ser_heap s) = Some h"
  shows "line_arrives (stm32_uart_ops hal dma) b (v, s\<lparr>ser_heap := h, serial_rx := None\<rparr>) = None"
  using assms receive_flag
  by (simp add: rx_ready_def line_arrives_def uart_receive_def uart_isr_def rt_hw_serial_isr_def RT_SERIAL_EVENT_RX_IND_def Let_def)

text \<open>A new buffer size for an open device is refused with a positive code, which a caller that tests
  for negative codes takes for success.\<close>

lemma busy_is_positive:
  assumes "bufsz c \<noteq> bufsz (ser_config s)" and "ref_count v \<noteq> 0"
  shows "\<exists>e > 0. rt_device_control (serial_ops ops idle self fionread) RT_Object_Class_Device RT_DEVICE_CTRL_CONFIG (Arg_config (Some c)) (v, s) = Some ((v, s), e)"
  using assms
  by (simp add: rt_device_control_def serial_ops_def rt_serial_control_def RT_DEVICE_CTRL_CONFIG_def RT_DEVICE_CTRL_SUSPEND_def
      RT_DEVICE_CTRL_RESUME_def RT_EBUSY_def)

text \<open>With no buffer the first byte is written behind the allocated block, with a buffer of one byte no
  byte is ever reported.\<close>

lemma small_buffers:
  assumes "new_rx_fifo s = Some s1" and "serial_rx s1 = Some f"
  shows "bufsz (ser_config s) = 0 \<Longrightarrow> fifo_put 0 b f = None"
    and "bufsz (ser_config s) = 1 \<Longrightarrow> fifo_put 1 b f = Some f1 \<Longrightarrow> isr_rx_length 1 f1 = 0"
  using assms by (auto simp: new_rx_fifo_def fifo_put_def wrap_index_def isr_rx_length_def Let_def split: option.splits)

text \<open>With a buffer of more than 32768 bytes the get index of a DMA read overflows its 16 bits.\<close>

lemma long_buffer_overflows:
  "dma_recv_update_get_index 0xC000 0x8000 \<lparr>fifo_addr = a, fifo_buffer = buf, put_index = 0x7000, get_index = 0xB000, is_full = False\<rparr> =
     Some \<lparr>fifo_addr = a, fifo_buffer = buf, put_index = 0x7000, get_index = 0x3000, is_full = False\<rparr>"
  "(0xB000 + 0x8000) mod 0xC000 = (0x7000 :: nat)"
  by (simp_all add: dma_recv_update_get_index_def fifo_calc_recved_len_def Let_def)

end
