(* ===== verification/Lora_Line.thy ===== *)
theory Lora_Line
  imports Lora Rt_Serial
begin

text \<open>
  The LoRa reader of the application (\<open>lora.c\<close>) on the serial device of the kernel
  (\<open>serial.c\<close>, \<open>drv_usart.c\<close>, \<open>device.c\<close>): the set-up of the line by \<open>lora_uart_init\<close>, the
  interrupt that ends in \<open>uart_input\<close>, and the thread whose reads go through \<open>rt_device_read\<close>. The
  theory shows that a frame that one board writes to its line is treated once by the board at
  the other end, if its reader runs between two bytes, which nothing in the code ensures.
\<close>

section \<open>The composed system\<close>

definition lora_serial_config :: serial_configure where
  "lora_serial_config = RT_SERIAL_CONFIG_DEFAULT\<lparr>baud_rate := 9600, data_bits := 8, stop_bits := 0, bufsz := 128, cfg_parity := 0\<rparr>"

text \<open>The part of \<open>lora_uart_init\<close> that sets up the device; the second result is what opening
  returned, which the code does not look at.\<close>

definition lora_line_open :: "('h rt_serial, serial_arg) device_ops \<Rightarrow> 'h rt_serial dev \<Rightarrow> ('h rt_serial dev \<times> int) option" where
  "lora_line_open dops d =
     Option.bind (rt_device_control dops RT_Object_Class_Device RT_DEVICE_CTRL_CONFIG (Arg_config (Some lora_serial_config)) d)
       (\<lambda>(d1, _). Option.bind (rt_device_open dops RT_Object_Class_Device RT_DEVICE_FLAG_INT_RX d1)
         (\<lambda>(d2, e). map_option (\<lambda>(d3, _). (d3, e)) (rt_device_set_rx_indicate RT_Object_Class_Device True d2)))"

text \<open>The callback of the interrupt.\<close>

definition uart_signal :: "serial_t \<Rightarrow> serial_t" where
  "uart_signal p = (if waiting p then p\<lparr>waiting := False\<rparr> else p\<lparr>rx_sem := rx_sem p + 1\<rparr>)"

text \<open>The thread of \<open>serial_thread_entry\<close>, until it waits on the semaphore. Of \<open>serial_t\<close> it uses the
  semaphore and \<open>ch\<close>; the fifo is that of the device.\<close>

type_synonym line_state = "stm32_uart rt_serial dev \<times> lora_state_t \<times> recv_t \<times> serial_t"

partial_function (option) line_thread :: "(u8 list \<Rightarrow> u8) \<Rightarrow> config_t \<Rightarrow> (stm32_uart rt_serial, serial_arg) device_ops \<Rightarrow> line_state \<Rightarrow>
    (line_state \<times> u8 list list) option" where
  "line_thread crc8 cfg dops st =
     (case st of (d, s, r, p) \<Rightarrow>
       if waiting p then Some (st, [])
       else Option.bind (rt_device_read dops RT_Object_Class_Device 1 d) (\<lambda>(d1, data).
         if length data = 1 then line_thread crc8 cfg dops (d1, s, r, p\<lparr>ser_ch := hd data\<rparr>)
         else Option.bind (recv_byte crc8 cfg (ser_ch p) (s, r)) (\<lambda>(s1, r1, out).
           Option.bind (line_thread crc8 cfg dops (d1, s1, r1, if rx_sem p > 0 then p\<lparr>rx_sem := rx_sem p - 1\<rparr> else p\<lparr>waiting := True\<rparr>))
             (\<lambda>(st2, outs). Some (st2, out @ outs)))))"

text \<open>Bytes that come in one at a time, the thread running to its wait after each: a condition on the
  timing, which the code does not ensure.\<close>

fun line_bytes :: "(u8 list \<Rightarrow> u8) \<Rightarrow> config_t \<Rightarrow> stm32_uart rt_uart_ops \<Rightarrow> (stm32_uart rt_serial, serial_arg) device_ops \<Rightarrow> u8 list \<Rightarrow> line_state \<Rightarrow>
    (line_state \<times> u8 list list) option" where
  "line_bytes crc8 cfg uops dops [] st = Some (st, [])"
| "line_bytes crc8 cfg uops dops (b # bs) (d, s, r, p) =
     Option.bind (line_arrives uops b d) (\<lambda>(d1, n, _).
       Option.bind (line_thread crc8 cfg dops (d1, s, r, if n = None then p else uart_signal p)) (\<lambda>(st2, outs).
         map_option (\<lambda>(st3, outs3). (st3, outs @ outs3)) (line_bytes crc8 cfg uops dops bs st2)))"

section \<open>One byte and many\<close>

definition idle_reader :: "serial_t \<Rightarrow> bool" where
  "idle_reader p \<longleftrightarrow> waiting p \<and> rx_sem p = 0"

lemma line_thread_byte:
  assumes "rx_ready (v, t) [b]" and "\<not> waiting p" and "rx_sem p = 0" and "recv_byte crc8 cfg b (s, r) = Some (s1, r1, out)"
  shows "\<exists>t1. line_thread crc8 cfg (serial_ops uops idle self fionread) ((v, t), s, r, p) =
      Some (((v, t1), s1, r1, p\<lparr>ser_ch := b, waiting := True\<rparr>), out) \<and> rx_ready (v, t1) [] \<and> ser_config t1 = ser_config t"
proof -
  let ?dops = "serial_ops uops idle self fionread"
  obtain t1 where t1: "rt_device_read ?dops RT_Object_Class_Device 1 (v, t) = Some ((v, t1), [b])" "rx_ready (v, t1) []" "ser_config t1 = ser_config t"
    using link_read [OF assms(1), of uops idle self fionread 1] by auto
  obtain t2 where t2: "rt_device_read ?dops RT_Object_Class_Device 1 (v, t1) = Some ((v, t2), [])" "rx_ready (v, t2) []" "ser_config t2 = ser_config t1"
    using link_read [OF t1(2), of uops idle self fionread 1] by auto
  have "line_thread crc8 cfg ?dops ((v, t2), s1, r1, p\<lparr>ser_ch := b, waiting := True\<rparr>) = Some (((v, t2), s1, r1, p\<lparr>ser_ch := b, waiting := True\<rparr>), [])"
    by (subst line_thread.simps) simp
  then have "line_thread crc8 cfg ?dops ((v, t1), s, r, p\<lparr>ser_ch := b\<rparr>) = Some (((v, t2), s1, r1, p\<lparr>ser_ch := b, waiting := True\<rparr>), out)"
    using t2(1) assms(2-4) by (subst line_thread.simps) simp
  then have "line_thread crc8 cfg ?dops ((v, t), s, r, p) = Some (((v, t2), s1, r1, p\<lparr>ser_ch := b, waiting := True\<rparr>), out)"
    using t1(1) assms(2) by (subst line_thread.simps) simp
  then show ?thesis using t2(2,3) t1(3) by auto
qed

text \<open>So the bytes of the line are the bytes of the receiver.\<close>

lemma line_bytes_received:
  assumes "rx_ready (v, t) []" and "bufsz (ser_config t) = sz" "1 < sz" and "rx_indicate v" and "idle_reader p"
    and "recv_bytes crc8 cfg bs (s, r) = Some (s', r', out)"
  shows "\<exists>t' p'. line_bytes crc8 cfg (stm32_uart_ops hal dma) (serial_ops (stm32_uart_ops hal dma) idle self fionread) bs ((v, t), s, r, p) =
      Some (((v, t'), s', r', p'), out) \<and> rx_ready (v, t') [] \<and> idle_reader p'"
  using assms
proof (induction bs arbitrary: t p s r out)
  case Nil
  then show ?case by auto
next
  case (Cons b bs)
  obtain s1 r1 out1 out2 where b: "recv_byte crc8 cfg b (s, r) = Some (s1, r1, out1)" "recv_bytes crc8 cfg bs (s1, r1) = Some (s', r', out2)" "out = out1 @ out2"
    using Cons.prems(6) by (auto split: option.splits)
  have q: "[b] = drop_oldest (unat (bufsz (ser_config t)) - 1) ([] @ [b])"
    using Cons.prems(2,3) by (simp add: drop_oldest_def word_less_nat_alt)
  obtain t1 where t1: "line_arrives (stm32_uart_ops hal dma) b (v, t) = Some ((v, t1), Some 1, None)" "rx_ready (v, t1) [b]" "ser_config t1 = ser_config t"
    using link_arrives [OF Cons.prems(1) q, of hal dma] Cons.prems(4) by auto
  have p: "\<not> waiting (uart_signal p)" "rx_sem (uart_signal p) = 0" using Cons.prems(5) by (simp_all add: uart_signal_def idle_reader_def)
  obtain t2 where t2: "line_thread crc8 cfg (serial_ops (stm32_uart_ops hal dma) idle self fionread) ((v, t1), s, r, uart_signal p) =
      Some (((v, t2), s1, r1, (uart_signal p)\<lparr>ser_ch := b, waiting := True\<rparr>), out1)" "rx_ready (v, t2) []" "ser_config t2 = ser_config t1"
    using line_thread_byte [OF t1(2) p b(1)] by blast
  have i: "idle_reader ((uart_signal p)\<lparr>ser_ch := b, waiting := True\<rparr>)" using p(2) by (simp add: idle_reader_def)
  have sz: "bufsz (ser_config t2) = sz" using t2(3) t1(3) Cons.prems(2) by simp
  obtain t3 p3 where "line_bytes crc8 cfg (stm32_uart_ops hal dma) (serial_ops (stm32_uart_ops hal dma) idle self fionread) bs
      ((v, t2), s1, r1, (uart_signal p)\<lparr>ser_ch := b, waiting := True\<rparr>) = Some (((v, t3), s', r', p3), out2)" "rx_ready (v, t3) []" "idle_reader p3"
    using Cons.IH [OF t2(2) sz Cons.prems(3,4) i b(2)] by blast
  then show ?case using t1(1) t2(1) b(3) by (intro exI [of _ t3] exI [of _ p3]) simp
qed

section \<open>From one board to the other\<close>

text \<open>A serial device that nobody has opened yet.\<close>

definition unused_line :: "'h rt_serial dev \<Rightarrow> bool" where
  "unused_line = (\<lambda>(v, t). ref_count v = 0 \<and> open_flag v = 0 \<and> serial_rx t = None \<and> serial_tx t = None)"

lemma line_open_ready:
  assumes o': "lora_line_open (serial_ops (stm32_uart_ops hal dma) idle self fionread) (v0, t0) = Some ((v, t), RT_EOK)"
    and u: "unused_line (v0, t0)" and hw: "\<not> has (uart_sr (ser_hw t)) UART_FLAG_RXNE"
  shows "rx_ready (v, t) []" "bufsz (ser_config t) = 128" "rx_indicate v" "\<not> has (open_flag v) RT_DEVICE_FLAG_STREAM"
proof -
  let ?dops = "serial_ops (stm32_uart_ops hal dma) idle self fionread"
  define t1 where "t1 = t0\<lparr>ser_config := lora_serial_config\<rparr>"
  have c: "rt_device_control ?dops RT_Object_Class_Device RT_DEVICE_CTRL_CONFIG (Arg_config (Some lora_serial_config)) (v0, t0) = Some ((v0, t1), RT_EOK)"
    using u by (simp add: rt_device_control_def serial_ops_def rt_serial_control_def RT_DEVICE_CTRL_CONFIG_def RT_DEVICE_CTRL_SUSPEND_def
        RT_DEVICE_CTRL_RESUME_def unused_line_def t1_def)
  obtain v2 where o2: "rt_device_open ?dops RT_Object_Class_Device RT_DEVICE_FLAG_INT_RX (v0, t1) = Some ((v2, t), RT_EOK)" "v = v2\<lparr>rx_indicate := True\<rparr>"
    using o' by (auto simp: lora_line_open_def c bind_eq_Some_conv rt_device_set_rx_indicate_def)
  have f: "has RT_DEVICE_FLAG_INT_RX RT_DEVICE_FLAG_INT_RX" "\<not> has RT_DEVICE_FLAG_INT_RX RT_DEVICE_FLAG_INT_TX" "\<not> has RT_DEVICE_FLAG_INT_RX RT_DEVICE_FLAG_DMA_TX"
    "\<not> has RT_DEVICE_FLAG_INT_RX RT_DEVICE_FLAG_STREAM" "\<not> has 0 RT_DEVICE_FLAG_STREAM"
    by (simp_all add: has_def RT_DEVICE_FLAG_INT_RX_def RT_DEVICE_FLAG_INT_TX_def RT_DEVICE_FLAG_DMA_TX_def RT_DEVICE_FLAG_STREAM_def)
  have t1: "serial_rx t1 = None" "serial_tx t1 = None" "bufsz (ser_config t1) = 128" "1 < bufsz (ser_config t1)"
    using u by (simp_all add: t1_def unused_line_def lora_serial_config_def)
  from open_rx_ready [OF o2(1) f(1-3) t1(1,2,4) hw]
  have "rx_ready (v2, t) []" "ser_config t = ser_config t1" "\<not> has (open_flag v2) RT_DEVICE_FLAG_STREAM"
    using f(4,5) u by (simp_all add: unused_line_def)
  then show "rx_ready (v, t) []" "bufsz (ser_config t) = 128" "rx_indicate v" "\<not> has (open_flag v) RT_DEVICE_FLAG_STREAM"
    using t1(3) by (simp_all add: o2(2) rx_ready_def)
qed

lemma crlf_plain: "crlf False data = data"
  by (induction data) (simp_all add: crlf_def)

text \<open>Claim C6. A frame with at most 26 data bytes that one board sends through its serial device
  arrives at another whose reader keeps up: what \<open>rt_device_write\<close> puts on the line is the frame, and when
  its bytes come in one after the other at a board whose line was opened by \<open>lora_uart_init\<close>, and
  after each of them the reading thread runs until it waits again (\<open>line_bytes\<close>), then through the
  interrupt, the fifo, the callback, the semaphore and \<open>rt_device_read\<close> the reader treats the frame
  exactly once and waits for the next one. Nothing in the code makes the thread run between two
  bytes: \<open>lora_serial_pacing\<close> shows that bytes are lost when two come in before it runs.\<close>

theorem lora_frame_over_the_line:
  assumes "lora_line_open (serial_ops (stm32_uart_ops hal dma) idle self fionread) (v0, t0) = Some ((v, t), RT_EOK)"
    and "unused_line (v0, t0)" and "\<not> has (uart_sr (ser_hw t)) UART_FLAG_RXNE"
    and "lora_line_open (serial_ops (stm32_uart_ops hal' dma') idle' self' fionread') (v0', t0') = Some ((v', t'), RT_EOK)"
    and "unused_line (v0', t0')" and "\<not> has (uart_sr (ser_hw t')) UART_FLAG_RXNE"
    and "config_wf cfg" and "length data \<le> 26" and "frame = lora_send crc8 cfg s fl rm cmd data (of_nat (length data))"
    and "lora_frame crc8 cfg' (frame @ replicate (26 - length data) 0) s' = (s1, out)"
    and "recv_step r = 0" and "recv_len r = 0" and "idle_reader p"
  shows "\<exists>t1 k line. rt_device_write (serial_ops (stm32_uart_ops hal dma) idle self fionread) RT_Object_Class_Device frame (v, t) = Some ((v, t1), k) \<and>
    uart_sent (ser_hw t1) = uart_sent (ser_hw t) @ line \<and>
    (\<exists>t2 r1 p1. line_bytes crc8 cfg' (stm32_uart_ops hal' dma') (serial_ops (stm32_uart_ops hal' dma') idle' self' fionread') line ((v', t'), s', r, p) =
      Some (((v', t2), s1, r1, p1), out) \<and> recv_step r1 = 0 \<and> recv_len r1 = 0 \<and> idle_reader p1)"
proof -
  note tx = line_open_ready [OF assms(1-3)] and rx = line_open_ready [OF assms(4-6)]
  obtain t1 k where t1: "rt_device_write (serial_ops (stm32_uart_ops hal dma) idle self fionread) RT_Object_Class_Device frame (v, t) = Some ((v, t1), k)"
    "uart_sent (ser_hw t1) = uart_sent (ser_hw t) @ frame"
    using link_write [OF tx(1), of hal dma idle self fionread frame] tx(4) by (auto simp: crlf_plain)
  obtain body where b: "length body = 20"
    "frame = ([HEADER1, HEADER2] @ body @ [of_nat (length data)] @ data) @ [crc8 ([HEADER1, HEADER2] @ body @ [of_nat (length data)] @ data)]"
    using lora_send_frame [OF assms(7,8), of crc8 s fl rm cmd] assms(9) by auto
  obtain r1 where r1: "recv_bytes crc8 cfg' frame (s', r) = Some (s1, r1, out)" "recv_step r1 = 0" "recv_len r1 = 0"
    using recv_frame [OF assms(11,12) b(1) assms(8), of crc8 cfg' "crc8 ([HEADER1, HEADER2] @ body @ [of_nat (length data)] @ data)" s'] b(2) assms(10) by auto
  obtain t2 p1 where "line_bytes crc8 cfg' (stm32_uart_ops hal' dma') (serial_ops (stm32_uart_ops hal' dma') idle' self' fionread') frame ((v', t'), s', r, p) =
      Some (((v', t2), s1, r1, p1), out)" "idle_reader p1"
    using line_bytes_received [OF rx(1,2) _ rx(3) assms(13) r1(1), of hal' dma' idle' self' fionread'] by auto
  then show ?thesis using t1 r1(2,3) by blast
qed

section \<open>Two boards\<close>

definition line_heap :: rt_heap where
  "line_heap = rt_system_heap_init 0x20000000 0x20000100
     \<lparr>hdr = (\<lambda>_. \<lparr>hm_magic = 0, hm_used = 0, hm_next = 0, hm_prev = 0\<rparr>), heap_ptr = 0, heap_end = 0,
      lfree = 0, mem_size_aligned = 0, used_mem = 0, max_mem = 0\<rparr>"

lemma line_heap_eq:
  "line_heap = \<lparr>hdr = (\<lambda>_. \<lparr>hm_magic = 0, hm_used = 0, hm_next = 0, hm_prev = 0\<rparr>)
       (0 := \<lparr>hm_magic = HEAP_MAGIC, hm_used = 0, hm_next = 244, hm_prev = 0\<rparr>,
        244 := \<lparr>hm_magic = HEAP_MAGIC, hm_used = 1, hm_next = 244, hm_prev = 244\<rparr>), heap_ptr = 0x20000000, heap_end = 244,
      lfree = 0, mem_size_aligned = 232, used_mem = 0, max_mem = 0\<rparr>"
  by (simp add: line_heap_def rt_system_heap_init_def Let_def RT_ALIGN_def word_less_nat_alt)

lemma line_malloc: "\<exists>h. rt_malloc 140 line_heap = Some (h, Some 0x2000000C)"
  by (simp add: rt_malloc_def line_heap_eq RT_ALIGN_def malloc_size_def malloc_search.simps [of _ 140 0] usub_le
      malloc_take_def set_hdr_def count_used_def malloc_lfree_def lfree_advance.simps Let_def word_less_nat_alt)

definition line_dev :: "stm32_uart rt_serial dev" where
  "line_dev = (\<lparr>dev_flag = 0x503, open_flag = 0, ref_count = 0, rx_indicate = False, tx_complete = False\<rparr>,
     \<lparr>ser_config = RT_SERIAL_CONFIG_DEFAULT, serial_rx = None, serial_tx = None, ser_heap = line_heap, ser_hw = sample_uart\<rparr>)"

abbreviation sample_dops :: "(stm32_uart rt_serial, serial_arg) device_ops" where
  "sample_dops \<equiv> serial_ops sample_uops id (sample_thread 1 9) 0"

lemma line_open_sample:
  "\<exists>v t. lora_line_open sample_dops line_dev = Some ((v, t), RT_EOK) \<and> uart_sr (ser_hw t) = 0xC0"
  using line_malloc
  by (auto simp: lora_line_open_def rt_device_control_def rt_serial_control_def serial_ops_def rt_device_set_rx_indicate_def
      rt_device_open_def open_activate_def rt_serial_init_def stm32_configure_def set_activated_def
      rt_serial_open_def open_rx_def open_tx_def new_rx_fifo_def has_def line_dev_def lora_serial_config_def
      sample_uart_def sample_uops_def stm32_uart_ops_def ll_control_def set_oflag_def set_hw_def stm32_control_def open_finish_def Let_def
      RT_SERIAL_CONFIG_DEFAULT_def RT_DEVICE_CTRL_CONFIG_def RT_DEVICE_CTRL_SUSPEND_def RT_DEVICE_CTRL_RESUME_def
      RT_DEVICE_CTRL_SET_INT_def RT_DEVICE_CTRL_CLR_INT_def RT_DEVICE_FLAG_STREAM_def RT_DEVICE_FLAG_INT_RX_def RT_DEVICE_OFLAG_OPEN_def
      RT_DEVICE_FLAG_DMA_RX_def RT_DEVICE_FLAG_DMA_TX_def RT_DEVICE_FLAG_INT_TX_def RT_DEVICE_FLAG_ACTIVATED_def RT_DEVICE_FLAG_STANDALONE_def)

theorem lora_frame_over_the_line_witness:
  "\<exists>v t t1 k line st r1 out. lora_line_open sample_dops line_dev = Some ((v, t), RT_EOK) \<and>
    rt_device_write sample_dops RT_Object_Class_Device
      (lora_send xor8 config_zero lora_state_zero 3 7 CMD_REPORT [0, 9, 1, 2, 0, 5, 1] (of_nat (length [0, 9, 1, 2, 0, 5, 1 :: u8]))) (v, t) = Some ((v, t1), k) \<and>
    uart_sent (ser_hw t1) = uart_sent (ser_hw t) @ line \<and>
    line_bytes xor8 config_zero sample_uops sample_dops line ((v, t), lora_state_zero, recv_idle, \<lparr>fifo = [], rx_sem = 0, waiting = True, ser_ch = 0\<rparr>) = Some (st, out) \<and>
    recv_step (fst (snd (snd st))) = 0"
proof -
  let ?d = "[0, 9, 1, 2, 0, 5, 1] :: u8 list"
  let ?f = "lora_send xor8 config_zero lora_state_zero 3 7 CMD_REPORT ?d (of_nat (length ?d))"
  obtain v t where o': "lora_line_open sample_dops line_dev = Some ((v, t), RT_EOK)" "uart_sr (ser_hw t) = 0xC0"
    using line_open_sample by blast
  obtain v0 t0 where d: "line_dev = (v0, t0)" by (cases line_dev)
  have u: "unused_line (v0, t0)" "\<not> has (uart_sr (ser_hw t)) UART_FLAG_RXNE"
    using o'(2) by (simp_all add: d [symmetric] line_dev_def unused_line_def has_def UART_FLAG_RXNE_def)
  obtain s' out where l: "lora_frame xor8 config_zero (?f @ replicate (26 - length ?d) 0) lora_state_zero = (s', out)" by fastforce
  have i: "length ?d \<le> 26" "recv_step recv_idle = 0" "recv_len recv_idle = 0" "idle_reader \<lparr>fifo = [], rx_sem = 0, waiting = True, ser_ch = 0\<rparr>"
    by (simp_all add: recv_idle_def idle_reader_def)
  note op = o'(1) [unfolded d sample_uops_def]
  from lora_frame_over_the_line [OF op u op u config_wf_zero i(1) refl l i(2-4)]
  show ?thesis using o'(1) unfolding sample_uops_def [symmetric] by force
qed

end
