(* ===== verification/Rt_Serial_Dma.thy ===== *)
theory Rt_Serial_Dma
  imports Rt_Serial
begin

text \<open>
  The DMA modes of the serial driver (\<open>serial.c\<close>) and of the UART driver (\<open>drv_usart.c\<close>) that
  \<open>Rt_Serial\<close> leaves out: transmission, in which a write passes its buffer to a data queue and the
  interrupt takes the next buffer from it; reception without a fifo; and the interrupts by which
  the UART driver follows the circular transfer into the receive fifo. A write is cut where the code
  enables interrupts and at \<open>rt_schedule\<close>. \<open>None\<close> is a failed assertion or a null pointer that is
  followed. The theory shows that the line receives every byte in order while the reader keeps up,
  that writes go out once and in order when each writer gets to its check in time, and what happens
  otherwise.
\<close>

section \<open>Transmission\<close>

definition RT_SERIAL_DMA_RX :: nat where "RT_SERIAL_DMA_RX = 1"
definition RT_SERIAL_DMA_TX :: nat where "RT_SERIAL_DMA_TX = 2"

record tx_dma =
  tx_dma_addr :: nat
  tx_activated :: bool
  tx_queue :: rt_data_queue

text \<open>A serial device whose transmitter is in this mode, or not in use: \<open>serial_tx\<close> of the serial
  device is the null pointer as far as the interrupt mode is concerned.\<close>

type_synonym 'h dma_dev = "'h rt_serial dev \<times> tx_dma option"

text \<open>The result of \<open>rt_data_queue_init\<close> is not looked at.\<close>

definition open_tx_dma :: "'h rt_uart_ops \<Rightarrow> 'h dma_dev \<Rightarrow> 'h dma_dev option" where
  "open_tx_dma ops = (\<lambda>((v, s), t).
     case t of Some _ \<Rightarrow> Some (set_oflag RT_DEVICE_FLAG_DMA_TX (v, s), t)
     | None \<Rightarrow>
        (case rt_malloc 40 (ser_heap s) of
           Some (h1, Some p) \<Rightarrow> map_option (\<lambda>(q, h2, result).
               (ll_control ops RT_DEVICE_CTRL_CONFIG RT_DEVICE_FLAG_DMA_TX (set_oflag RT_DEVICE_FLAG_DMA_TX (v, s\<lparr>ser_heap := h2\<rparr>)),
                Some \<lparr>tx_dma_addr = p, tx_activated = False, tx_queue = q\<rparr>))
             (rt_data_queue_init 8 4 False h1)
         | _ \<Rightarrow> None))"

definition close_tx_dma :: "'h dma_dev \<Rightarrow> 'h dma_dev option" where
  "close_tx_dma = (\<lambda>((v, s), t).
     case t of None \<Rightarrow> None
     | Some d \<Rightarrow> map_option (\<lambda>h. (clr_oflag RT_DEVICE_FLAG_DMA_TX (v, s\<lparr>ser_heap := h\<rparr>), None)) (rt_free (Some (tx_dma_addr d)) (ser_heap s)))"

text \<open>A write: the push, which may wait, the check whether a transfer is running, and then, if the
  check says so, the transfer. The result of the write is the length or 0.\<close>

type_synonym tx_step = "tx_dma \<times> dq_result \<times> woken"

definition in_queue :: "dq_step option \<Rightarrow> tx_dma \<Rightarrow> tx_step option" where
  "in_queue st d = map_option (\<lambda>(q, r, w, ev). (d\<lparr>tx_queue := q\<rparr>, r, w)) st"

definition dma_tx_push :: "rt_thread \<Rightarrow> rt_data_item \<Rightarrow> tx_dma \<Rightarrow> tx_step option" where
  "dma_tx_push self item d = in_queue (rt_data_queue_push (tx_queue d) item RT_WAITING_FOREVER self) d"

definition dma_tx_push_resume :: "rt_thread \<Rightarrow> rt_data_item \<Rightarrow> tx_dma \<Rightarrow> tx_step option" where
  "dma_tx_push_resume thread item d = in_queue (dq_push_resume (tx_queue d) item RT_WAITING_FOREVER thread) d"

definition dma_tx_activate :: "tx_dma \<Rightarrow> tx_dma \<times> bool" where
  "dma_tx_activate d = (if \<not> tx_activated d then (d\<lparr>tx_activated := True\<rparr>, True) else (d, False))"

definition dma_tx_result :: "rt_data_item \<Rightarrow> dq_result \<Rightarrow> u32" where
  "dma_tx_result item r = (if r = Dq_return RT_EOK then snd item else 0)"

text \<open>The interrupt at the end of a transfer. The second result is the pointer that \<open>tx_complete\<close> is called with, if
  it is set: \<open>None\<close> stands for a variable that nothing was stored in.\<close>

definition dma_tx_done :: "(rt_data_item \<Rightarrow> 'h \<Rightarrow> 'h) \<Rightarrow> rt_thread \<Rightarrow> tx_dma \<times> 'h \<Rightarrow> ((tx_dma \<times> 'h) \<times> nat option \<times> woken) option" where
  "dma_tx_done transmit self = (\<lambda>(d, h).
     Option.bind (rt_data_queue_pop (tx_queue d) 0 self) (\<lambda>(q, r, w, ev).
     Option.bind (rt_data_queue_peak q) (\<lambda>nxt_item.
       let last_data_ptr = (case r of Dq_item item \<Rightarrow> Some (fst item) | _ \<Rightarrow> None) in
       Some (case nxt_item of Inr item \<Rightarrow> (d\<lparr>tx_queue := q, tx_activated := True\<rparr>, transmit item h)
               | Inl _ \<Rightarrow> (d\<lparr>tx_queue := q, tx_activated := False\<rparr>, h), last_data_ptr, w))))"

section \<open>Reception without a fifo\<close>

text \<open>With \<open>bufsz\<close> 0 the receiver is a flag in a block from the heap; opening it tells the UART driver nothing.\<close>

definition open_rx_dma :: "'h rt_serial dev \<Rightarrow> ('h rt_serial dev \<times> nat \<times> bool) option" where
  "open_rx_dma = (\<lambda>(v, s).
     case rt_malloc 4 (ser_heap s) of
       Some (h, Some p) \<Rightarrow> Some (set_oflag RT_DEVICE_FLAG_DMA_RX (v, s\<lparr>ser_heap := h\<rparr>), p, False)
     | _ \<Rightarrow> None)"

definition close_rx_dma :: "'h rt_uart_ops \<Rightarrow> nat \<Rightarrow> 'h rt_serial dev \<Rightarrow> 'h rt_serial dev option" where
  "close_rx_dma ops rx = (\<lambda>(v, s).
     map_option (\<lambda>h. clr_oflag RT_DEVICE_FLAG_DMA_RX (ll_control ops RT_DEVICE_CTRL_CLR_INT RT_DEVICE_FLAG_DMA_RX (v, s\<lparr>ser_heap := h\<rparr>)))
       (rt_free (Some rx) (ser_heap s)))"

text \<open>A read passes its buffer to the transfer and returns the length at once; \<open>busy\<close>
  is the field \<open>activated\<close>. The results are the length and the error.\<close>

definition serial_dma_read :: "(rt_data_item \<Rightarrow> 'h \<Rightarrow> 'h) \<Rightarrow> rt_data_item \<Rightarrow> bool \<times> 'h \<Rightarrow> (bool \<times> 'h) \<times> u32 \<times> int" where
  "serial_dma_read transmit item = (\<lambda>(busy, h).
     if \<not> busy then ((True, transmit item h), snd item, RT_EOK) else ((busy, h), 0, - RT_EBUSY))"

text \<open>\<open>callback\<close> is what \<open>rx_indicate\<close> does, which runs before the flag is cleared.\<close>

definition serial_dma_rx_done :: "(nat \<Rightarrow> bool \<times> 'h \<Rightarrow> bool \<times> 'h) option \<Rightarrow> nat \<Rightarrow> bool \<times> 'h \<Rightarrow> (bool \<times> 'h) option" where
  "serial_dma_rx_done rx_ind len st =
     (case rx_ind of None \<Rightarrow> None | Some callback \<Rightarrow> Some (False, snd (callback len st)))"

section \<open>The UART driver\<close>

text \<open>\<open>hal\<close> is \<open>HAL_UART_Transmit_DMA\<close>, which takes a length of 16 bits.\<close>

definition stm32_dma_transmit :: "(nat \<times> u16 \<Rightarrow> 'h \<Rightarrow> 'h \<times> bool) \<Rightarrow> nat \<Rightarrow> rt_data_item \<Rightarrow> 'h \<Rightarrow> 'h \<times> u32" where
  "stm32_dma_transmit hal direction item h =
     (if snd item = 0 then (h, 0)
      else if RT_SERIAL_DMA_TX = direction
      then let (h1, ok) = hal (fst item, ucast (snd item)) h in (h1, if ok then snd item else 0)
      else (h, 0))"

text \<open>The transfer into the fifo: what is left of it, which the hardware counts down and loads again, and
  the position up to which it was reported.\<close>

record dma_position =
  dma_counter :: u32
  last_index :: u32

type_synonym 'h dma_line = "'h rt_serial dev \<times> dma_position"

definition dma_report :: "'h rt_uart_ops \<Rightarrow> u32 \<Rightarrow> u32 \<Rightarrow> 'h dma_line \<Rightarrow> ('h dma_line \<times> nat option) option" where
  "dma_report ops recv_total_index len = (\<lambda>(d, pos).
     if len \<noteq> 0
     then map_option (\<lambda>(d1, ind, w). ((d1, pos\<lparr>last_index := recv_total_index\<rparr>), ind))
       (rt_hw_serial_isr ops (unat (0x03 OR push_bit 8 len)) d)
     else Some ((d, pos\<lparr>last_index := recv_total_index\<rparr>), None))"

text \<open>The branch of \<open>uart_isr\<close> for an idle line, and the interrupt of the transfer itself.\<close>

definition uart_idle_isr :: "'h rt_uart_ops \<Rightarrow> 'h dma_line \<Rightarrow> ('h dma_line \<times> nat option) option" where
  "uart_idle_isr ops = (\<lambda>((v, s), pos).
     let recv_total_index = ucast (bufsz (ser_config s)) - dma_counter pos; recv_len = recv_total_index - last_index pos
     in dma_report ops recv_total_index recv_len ((v, s), pos))"

definition dma_isr :: "'h rt_uart_ops \<Rightarrow> bool \<Rightarrow> 'h dma_line \<Rightarrow> ('h dma_line \<times> nat option) option" where
  "dma_isr ops enabled = (\<lambda>((v, s), pos).
     if enabled
     then let recv_total_index = ucast (bufsz (ser_config s)) - dma_counter pos;
         recv_len = (if recv_total_index = 0 then ucast (bufsz (ser_config s)) - last_index pos else recv_total_index - last_index pos)
       in dma_report ops recv_total_index recv_len ((v, s), pos)
     else Some (((v, s), pos), None))"

text \<open>A byte comes in: the hardware stores it and goes on to the next place.\<close>

definition dma_store :: "u8 \<Rightarrow> 'h dma_line \<Rightarrow> 'h dma_line option" where
  "dma_store b = (\<lambda>((v, s), pos).
     map_option (\<lambda>f. ((v, set_rx s (f\<lparr>fifo_buffer := (fifo_buffer f)[unat (ucast (bufsz (ser_config s)) - dma_counter pos) := b]\<rparr>)),
        pos\<lparr>dma_counter := if dma_counter pos = 1 then ucast (bufsz (ser_config s)) else dma_counter pos - 1\<rparr>)) (serial_rx s))"

section \<open>The line in DMA mode is a queue\<close>

text \<open>\<open>k\<close> bytes are reported and not read, \<open>p\<close> have come in behind them and are not reported.\<close>

definition dma_tracks :: "u16 \<Rightarrow> rx_fifo \<Rightarrow> dma_position \<Rightarrow> nat \<Rightarrow> nat \<Rightarrow> bool" where
  "dma_tracks sz f pos k p \<longleftrightarrow> 1 < unat sz \<and> unat sz \<le> 2 ^ 15 \<and> length (fifo_buffer f) = unat sz \<and>
     unat (get_index f) < unat sz \<and> unat (put_index f) = (unat (get_index f) + k) mod unat sz \<and> k + p \<le> unat sz \<and>
     (is_full f \<longleftrightarrow> k = unat sz) \<and> last_index pos = ucast (put_index f) \<and> unat (put_index f) + p \<le> unat sz \<and>
     dma_counter pos = of_nat (unat sz - (unat (put_index f) + p) mod unat sz)"

lemma unat_ucast_16_32: "unat (ucast (w :: u16) :: u32) = unat w"
  by (simp add: unsigned_ucast_eq take_bit_nat_eq_self_iff) (use unsigned_less [of w, where 'a = nat] in simp)

definition dma_bytes :: "u16 \<Rightarrow> rx_fifo \<Rightarrow> nat \<Rightarrow> u8 list" where
  "dma_bytes sz f n = ring_list (unat sz) (fifo_buffer f) (unat (get_index f)) n"

lemma tracks_len:
  assumes t: "dma_tracks sz f pos k p"
  shows "fifo_calc_recved_len sz f = k"
proof (cases "k = unat sz")
  case True
  then show ?thesis using t by (simp add: dma_tracks_def fifo_calc_recved_len_def word_unat_eq_iff)
next
  case False
  have k: "k < unat sz" "unat (get_index f) < unat sz" "unat (put_index f) = (unat (get_index f) + k) mod unat sz"
    using t False by (auto simp: dma_tracks_def)
  have "put_index f < sz" using k(2,3) t by (simp add: word_less_nat_alt dma_tracks_def)
  then have "fifo_ok sz f" using t False k(2) by (simp add: dma_tracks_def fifo_ok_def word_less_nat_alt)
  from recved_len_queue(1) [OF this] show ?thesis
    using contents_ring [OF k(2,1,3)] by (simp add: fifo_ring_length)
qed

lemma tracks_total:
  assumes t: "dma_tracks sz f pos k p"
  shows "unat (ucast sz - dma_counter pos) = (unat (put_index f) + p) mod unat sz"
    and "0 < p \<Longrightarrow> (if ucast sz - dma_counter pos = 0 then ucast sz - last_index pos else ucast sz - dma_counter pos - last_index pos) = of_nat p"
    and "p = 0 \<or> dma_counter pos \<noteq> ucast sz \<Longrightarrow> ucast sz - dma_counter pos - last_index pos = of_nat p"
proof -
  let ?t = "ucast sz - dma_counter pos" and ?i = "(unat (put_index f) + p) mod unat sz"
  have b: "unat sz \<le> 2 ^ 15" "1 < unat sz" "unat (put_index f) + p \<le> unat sz" "unat (put_index f) < unat sz"
    "last_index pos = ucast (put_index f)" using t by (auto simp: dma_tracks_def)
  have i: "?i < unat sz" using b(2) by simp
  have c: "?t = of_nat ?i"
  proof -
    have "dma_counter pos = of_nat (unat sz) - of_nat ?i" using t i by (simp add: dma_tracks_def of_nat_diff)
    moreover have "(ucast sz :: u32) = of_nat (unat sz)" by simp
    ultimately show ?thesis by (simp del: of_nat_unat)
  qed
  have "?i < 2 ^ 32" using i b(1) by simp
  then show u: "unat ?t = ?i" using c by (simp add: unat_of_nat)
  have ends: "unat (put_index f) + p = unat sz \<or> ?i = unat (put_index f) + p" using b(3) by (auto simp: mod_if)
  have sub: "(of_nat n :: u32) - ucast (put_index f) = of_nat (n - unat (put_index f))" if "unat (put_index f) \<le> n" for n
    using that by (simp add: of_nat_diff)
  have z: "?t = 0 \<longleftrightarrow> ?i = 0" using u by (simp add: word_unat_eq_iff)
  show "(if ?t = 0 then ucast sz - last_index pos else ?t - last_index pos) = of_nat p" if "0 < p"
  proof (cases "unat (put_index f) + p = unat sz")
    case True
    have "(ucast sz :: u32) = of_nat (unat (put_index f) + p)" by (simp only: True of_nat_unat)
    moreover have "p = unat sz - unat (put_index f)" using True by simp
    ultimately show ?thesis using True z sub [of "unat sz"] b(3,5) by simp
  next
    case False
    then have i': "?i = unat (put_index f) + p" using ends by simp
    then show ?thesis using that z sub [of "unat (put_index f) + p"] b(5) c by simp
  qed
  show "?t - last_index pos = of_nat p" if g: "p = 0 \<or> dma_counter pos \<noteq> ucast sz"
  proof -
    have "?i = unat (put_index f) + p"
    proof (rule ccontr)
      assume "?i \<noteq> unat (put_index f) + p"
      then have e: "unat (put_index f) + p = unat sz" using ends by simp
      then have "dma_counter pos = ucast sz" using t by (simp add: dma_tracks_def)
      then show False using g e b(4) by simp
    qed
    then show ?thesis using sub [of "unat (put_index f) + p"] b(5) c by simp
  qed
qed

lemma update_put_tracks:
  assumes t: "dma_tracks sz f pos k p" and p: "0 < p" and f1: "f1 = dma_recv_update_put_index sz p f"
  shows "dma_tracks sz f1 (pos\<lparr>last_index := ucast sz - dma_counter pos\<rparr>) (k + p) 0" and "dma_bytes sz f1 n = dma_bytes sz f n"
proof -
  let ?g = "unat (get_index f)" and ?p = "unat (put_index f)"
  have b: "unat sz \<le> 2 ^ 15" "1 < unat sz" "?p + p \<le> unat sz" "?p < unat sz" "?g < unat sz" "k + p \<le> unat sz" "\<not> is_full f"
    "?p = (?g + k) mod unat sz" using t p by (auto simp: dma_tracks_def)
  have put: "unat (put_index f + of_nat p) = ?p + p" using b(1,3) by (simp add: unat_word_ariths unat_of_nat)
  have k: "k = (if ?g \<le> ?p then ?p - ?g else ?p + unat sz - ?g)" using b(4,5,6,8) p by (auto simp: mod_if split: if_splits)
  have p1: "unat (put_index f1) = (?p + p) mod unat sz" "is_full f1 \<longleftrightarrow> k + p = unat sz" "get_index f1 = get_index f" "fifo_buffer f1 = fifo_buffer f"
  proof -
    have u: "put_index f + of_nat p \<ge> sz \<longleftrightarrow> ?p + p = unat sz" "get_index f \<le> put_index f \<longleftrightarrow> ?g \<le> ?p"
      "put_index f + of_nat p \<ge> get_index f \<longleftrightarrow> ?g \<le> ?p + p"
      "unat ((put_index f + of_nat p) mod sz) = (?p + p) mod unat sz"
      "(put_index f + of_nat p) mod sz \<ge> get_index f \<longleftrightarrow> ?g \<le> (?p + p) mod unat sz"
      using put b(3) by (auto simp: word_le_nat_alt unat_mod)
    note d = f1 dma_recv_update_put_index_def Let_def u b(7)
    consider "?g \<le> ?p" "?p + p = unat sz" "?g = 0" | "?g \<le> ?p" "?p + p = unat sz" "?g \<noteq> 0" | "?g \<le> ?p" "?p + p < unat sz"
      | "\<not> ?g \<le> ?p" "?p + p = ?g" | "\<not> ?g \<le> ?p" "?p + p < ?g"
      using b(3,6) k by fastforce
    then show "unat (put_index f1) = (?p + p) mod unat sz" "is_full f1 \<longleftrightarrow> k + p = unat sz" "get_index f1 = get_index f" "fifo_buffer f1 = fifo_buffer f"
      by (cases; use b(1-7) put k p in \<open>simp add: d word_unat_eq_iff\<close>)+
  qed
  show "dma_bytes sz f1 n = dma_bytes sz f n" by (simp add: dma_bytes_def p1)
  have tot: "ucast sz - dma_counter pos = ucast (put_index f1)"
    using tracks_total(1) [OF t] p1(1) by (simp add: word_unat_eq_iff unat_ucast_16_32)
  show "dma_tracks sz f1 (pos\<lparr>last_index := ucast sz - dma_counter pos\<rparr>) (k + p) 0"
    using t p1 b tot by (simp add: dma_tracks_def mod_simps add.assoc)
qed

lemma read_tracks:
  assumes t: "dma_tracks sz f pos k p"
  shows "\<exists>f1. serial_dma_rx sz n f = Some (f1, take n (dma_bytes sz f k)) \<and> dma_tracks sz f1 pos (k - n) p \<and>
    dma_bytes sz f1 (k - n + p) = drop (min n k) (dma_bytes sz f (k + p))"
proof -
  let ?g = "unat (get_index f)"
  define j where "j = min n k"
  have b: "unat sz \<le> 2 ^ 15" "1 < unat sz" "?g < unat sz" "k \<le> unat sz" "length (fifo_buffer f) = unat sz" "is_full f \<longleftrightarrow> k = unat sz"
    using t by (auto simp: dma_tracks_def)
  have j: "(if n < k then n else k) = j" "j \<le> k" "j \<le> unat sz" using b(4) by (auto simp: j_def)
  define f1 where "f1 = (if is_full f \<and> j \<noteq> 0 then f\<lparr>is_full := False\<rparr> else f)"
  define f2 where "f2 = (let f2 = f1\<lparr>get_index := get_index f1 + of_nat j\<rparr> in if get_index f2 \<ge> sz then f2\<lparr>get_index := get_index f2 mod sz\<rparr> else f2)"
  have u: "dma_recv_update_get_index sz j f = Some f2"
    using j(2) by (simp add: dma_recv_update_get_index_def tracks_len [OF t] f1_def f2_def Let_def)
  have data: "(if ?g + j < unat sz then take j (drop ?g (fifo_buffer f))
      else take (unat sz - ?g) (drop ?g (fifo_buffer f)) @ take (j + ?g - unat sz) (fifo_buffer f)) = take j (dma_bytes sz f k)"
    using ring_flat [OF b(3) j(3) b(5)] ring_take_drop(1) [OF j(2)] by (simp add: dma_bytes_def add.commute)
  have tk: "take j (dma_bytes sz f k) = take n (dma_bytes sz f k)" by (auto simp: j_def min_def dma_bytes_def fifo_ring_length)
  have e: "serial_dma_rx sz n f = Some (f2, take n (dma_bytes sz f k))"
    unfolding serial_dma_rx_def Let_def tracks_len [OF t] j(1) u data tk by simp
  have g1: "unat (get_index f + of_nat j) = ?g + j" using j(3) b(1,3) by (simp add: unat_word_ariths unat_of_nat)
  have g2: "unat (get_index f2) = (?g + j) mod unat sz" "put_index f2 = put_index f" "fifo_buffer f2 = fifo_buffer f"
    "is_full f2 \<longleftrightarrow> is_full f \<and> j = 0"
    using g1 by (auto simp: f2_def f1_def Let_def unat_mod word_le_nat_alt)
  have "((?g + j) mod unat sz + (k - j)) mod unat sz = (?g + j + (k - j)) mod unat sz" by (simp only: mod_add_left_eq)
  then have "dma_tracks sz f2 pos (k - j) p" using t g2 b j(2) by (auto simp: dma_tracks_def)
  moreover have "k - n + p = k + p - j" "k - j = k - n" using j(2) by (auto simp: j_def)
  moreover have "dma_bytes sz f2 (k + p - j) = drop (min n k) (dma_bytes sz f (k + p))"
    using ring_take_drop(2) [of j "k + p" "unat sz" "fifo_buffer f" ?g] j(2) by (simp add: dma_bytes_def g2 j_def)
  ultimately show ?thesis using e by (intro exI [of _ f2]) simp
qed

lemma store_tracks:
  assumes t: "dma_tracks sz f pos k p" and room: "k + p < unat sz" and g: "p = 0 \<or> dma_counter pos \<noteq> ucast sz"
    and f1: "f1 = f\<lparr>fifo_buffer := (fifo_buffer f)[unat (ucast sz - dma_counter pos) := b]\<rparr>"
    and pos1: "pos1 = pos\<lparr>dma_counter := if dma_counter pos = 1 then ucast sz else dma_counter pos - 1\<rparr>"
  shows "dma_tracks sz f1 pos1 k (Suc p)" and "dma_bytes sz f1 (Suc (k + p)) = dma_bytes sz f (k + p) @ [b]"
proof -
  let ?g = "unat (get_index f)" and ?p = "unat (put_index f)"
  have b: "unat sz \<le> 2 ^ 15" "1 < unat sz" "?p + p \<le> unat sz" "?p < unat sz" "length (fifo_buffer f) = unat sz"
    "?p = (?g + k) mod unat sz" "dma_counter pos = of_nat (unat sz - (?p + p) mod unat sz)"
    using t by (auto simp: dma_tracks_def)
  have i: "(?p + p) mod unat sz = ?p + p" "?p + p < unat sz"
  proof -
    have "?p + p \<noteq> unat sz" using g b(4,7) by auto
    then show "?p + p < unat sz" "(?p + p) mod unat sz = ?p + p" using b(3) by simp_all
  qed
  have "(?g + (k + p)) mod unat sz = ?p + p" using i(1) b(6) by (metis add.assoc mod_add_left_eq)
  then show "dma_bytes sz f1 (Suc (k + p)) = dma_bytes sz f (k + p) @ [b]"
    using ring_snoc [OF room b(5), of ?g b] tracks_total(1) [OF t] i(1) by (simp add: dma_bytes_def f1)
  have c: "dma_counter pos1 = of_nat (unat sz - (?p + Suc p) mod unat sz)"
  proof (cases "?p + Suc p = unat sz")
    case True
    then have "unat sz - (?p + p) = 1" by simp
    then have "dma_counter pos = 1" by (simp only: b(7) i(1) of_nat_1)
    then show ?thesis using True by (simp add: pos1)
  next
    case False
    then have lt: "?p + Suc p < unat sz" using i(2) by simp
    have "dma_counter pos \<noteq> 1"
    proof
      define m where "m = unat sz - (?p + p)"
      assume "dma_counter pos = 1"
      then have "(of_nat m :: u32) = 1" using b(7) i(1) by (simp add: m_def)
      then have "unat (of_nat m :: u32) = 1" by simp
      moreover have "m < 2 ^ 32" "1 < m" using lt b(1) by (simp_all add: m_def)
      ultimately show False by (simp add: unat_of_nat)
    qed
    moreover have "dma_counter pos - 1 = of_nat (unat sz - (?p + Suc p))"
      using lt b(7) i(1) by (simp add: of_nat_diff)
    ultimately show ?thesis using lt by (simp add: pos1)
  qed
  show "dma_tracks sz f1 pos1 k (Suc p)" using t room i(2) c by (simp add: dma_tracks_def f1 pos1)
qed

lemma event_parts:
  assumes "p < 2 ^ 24"
  shows "unat (0x03 OR push_bit 8 (of_nat p :: u32)) mod 256 = 3" and "unat (0x03 OR push_bit 8 (of_nat p :: u32)) div 256 = p"
proof -
  have "unat (push_bit 8 (of_nat p :: u32)) = push_bit 8 p"
    using assms by (simp add: push_bit_eq_mult unat_word_ariths unat_of_nat mod_simps)
  then have u: "unat (0x03 OR push_bit 8 (of_nat p :: u32)) = 3 OR push_bit 8 p" by (simp add: unsigned_or_eq)
  have "take_bit 8 (3 OR push_bit 8 p) = 3" "drop_bit 8 (3 OR push_bit 8 p) = p"
    by (simp_all add: take_bit_push_bit drop_bit_push_bit)
  then show "unat (0x03 OR push_bit 8 (of_nat p :: u32)) mod 256 = 3" "unat (0x03 OR push_bit 8 (of_nat p :: u32)) div 256 = p"
    by (simp_all add: u take_bit_eq_mod drop_bit_eq_div)
qed

text \<open>What may happen to the line: a byte comes in while there is room and the end of the buffer is
  reported first, the line falls idle when that has been done, the transfer interrupts because
  something came in, and anyone reads. \<open>ins\<close> came in, \<open>outs\<close> was read, and \<open>p\<close> bytes are not reported.\<close>

inductive dma_run :: "'h rt_uart_ops \<Rightarrow> 'h dma_line \<Rightarrow> 'h dma_line \<Rightarrow> u8 list \<Rightarrow> u8 list \<Rightarrow> nat \<Rightarrow> bool" for ops L0 where
  start: "dma_run ops L0 L0 [] [] 0"
| arrive: "dma_run ops L0 ((v, s), pos) ins outs p \<Longrightarrow> length ins < length outs + unat (bufsz (ser_config s)) \<Longrightarrow>
    p = 0 \<or> dma_counter pos \<noteq> ucast (bufsz (ser_config s)) \<Longrightarrow> dma_store b ((v, s), pos) = Some L \<Longrightarrow> dma_run ops L0 L (ins @ [b]) outs (Suc p)"
| idle: "dma_run ops L0 ((v, s), pos) ins outs p \<Longrightarrow> p = 0 \<or> dma_counter pos \<noteq> ucast (bufsz (ser_config s)) \<Longrightarrow>
    uart_idle_isr ops ((v, s), pos) = Some (L, ind) \<Longrightarrow> dma_run ops L0 L ins outs 0"
| transfer: "dma_run ops L0 ((v, s), pos) ins outs p \<Longrightarrow> 0 < p \<Longrightarrow> dma_isr ops True ((v, s), pos) = Some (L, ind) \<Longrightarrow>
    dma_run ops L0 L ins outs 0"
| fetch: "dma_run ops L0 ((v, s), pos) ins outs p \<Longrightarrow> rt_serial_read ops n (v, s) = Some (d, data) \<Longrightarrow>
    dma_run ops L0 (d, pos) ins (outs @ data) p"

definition dma_line_ok :: "rt_device \<Rightarrow> u16 \<Rightarrow> 'h dma_line \<Rightarrow> u8 list \<Rightarrow> u8 list \<Rightarrow> nat \<Rightarrow> bool" where
  "dma_line_ok v sz L ins outs p \<longleftrightarrow> (\<exists>s pos f k. L = ((v, s), pos) \<and> bufsz (ser_config s) = sz \<and> serial_rx s = Some f \<and>
     dma_tracks sz f pos k p \<and> ins = outs @ dma_bytes sz f (k + p))"

lemma report_ok:
  assumes "serial_rx s = Some f" and "bufsz (ser_config s) = sz" and t: "dma_tracks sz f pos k p" and ins: "ins = outs @ dma_bytes sz f (k + p)"
  shows "\<exists>L. dma_report ops (ucast sz - dma_counter pos) (of_nat p) ((v, s), pos) = Some (L, if p \<noteq> 0 \<and> rx_indicate v then Some (k + p) else None) \<and>
    dma_line_ok v sz L ins outs 0"
proof (cases "p = 0")
  case True
  have "last_index pos = ucast sz - dma_counter pos"
    using tracks_total(1) [OF t] t True by (simp add: word_unat_eq_iff unat_ucast_16_32 dma_tracks_def)
  then have "pos\<lparr>last_index := ucast sz - dma_counter pos\<rparr> = pos" by (simp flip: \<open>last_index pos = _\<close>)
  then show ?thesis using assms True by (auto simp: dma_report_def dma_line_ok_def)
next
  case False
  define f1 where "f1 = dma_recv_update_put_index sz p f"
  have p: "p < 2 ^ 24" "(of_nat p :: u32) \<noteq> 0" "0 < p" "sz \<noteq> 0"
  proof -
    show "p < 2 ^ 24" using t by (simp add: dma_tracks_def)
    then have "unat (of_nat p :: u32) = p" by (simp add: unat_of_nat)
    then show "(of_nat p :: u32) \<noteq> 0" using False by auto
  qed (use False t in \<open>auto simp: dma_tracks_def\<close>)
  note u = update_put_tracks [OF t p(3) f1_def]
  have "rt_hw_serial_isr ops (unat (0x03 OR push_bit 8 (of_nat p :: u32))) (v, s) =
      Some ((v, set_rx s f1), if rx_indicate v then Some (k + p) else None, None)"
    using assms(1,2) p event_parts [OF p(1)] tracks_len [OF u(1)]
    by (simp add: rt_hw_serial_isr_def RT_SERIAL_EVENT_RX_IND_def RT_SERIAL_EVENT_TX_DONE_def RT_SERIAL_EVENT_TX_DMADONE_def
        RT_SERIAL_EVENT_RX_DMADONE_def f1_def Let_def)
  then show ?thesis using p(2) False assms(1,2) u ins
    by (auto simp: dma_report_def dma_line_ok_def set_rx_def intro!: exI [of _ f1])
qed

lemma line_arrive:
  assumes ok: "dma_line_ok v sz ((v, s), pos) ins outs p" and "length ins < length outs + unat sz"
    and "p = 0 \<or> dma_counter pos \<noteq> ucast sz" and st: "dma_store b ((v, s), pos) = Some L"
  shows "dma_line_ok v sz L (ins @ [b]) outs (Suc p)"
proof -
  obtain f k where f: "bufsz (ser_config s) = sz" "serial_rx s = Some f" "dma_tracks sz f pos k p" "ins = outs @ dma_bytes sz f (k + p)"
    using ok by (auto simp: dma_line_ok_def)
  have "k + p < unat sz" using assms(2) f(4) by (simp add: dma_bytes_def fifo_ring_length)
  note u = store_tracks [OF f(3) this assms(3) refl refl, of b]
  show ?thesis using st u f by (auto simp: dma_store_def dma_line_ok_def set_rx_def intro!: exI [of _ k])
qed

lemma line_interrupts:
  assumes ok: "dma_line_ok v sz ((v, s), pos) ins outs p"
  shows "p = 0 \<or> dma_counter pos \<noteq> ucast sz \<Longrightarrow> \<exists>L. uart_idle_isr ops ((v, s), pos) =
      Some (L, if p \<noteq> 0 \<and> rx_indicate v then Some (length ins - length outs) else None) \<and> dma_line_ok v sz L ins outs 0"
    and "0 < p \<Longrightarrow> \<exists>L. dma_isr ops True ((v, s), pos) =
      Some (L, if rx_indicate v then Some (length ins - length outs) else None) \<and> dma_line_ok v sz L ins outs 0"
proof -
  obtain f k where f: "bufsz (ser_config s) = sz" "serial_rx s = Some f" "dma_tracks sz f pos k p" "ins = outs @ dma_bytes sz f (k + p)"
    using ok by (auto simp: dma_line_ok_def)
  have l: "length ins - length outs = k + p" using f(4) by (simp add: dma_bytes_def fifo_ring_length)
  note r = report_ok [OF f(2,1,3,4), of ops v] and t = tracks_total(2,3) [OF f(3)]
  show "\<exists>L. uart_idle_isr ops ((v, s), pos) = Some (L, if p \<noteq> 0 \<and> rx_indicate v then Some (length ins - length outs) else None) \<and>
      dma_line_ok v sz L ins outs 0" if g: "p = 0 \<or> dma_counter pos \<noteq> ucast sz"
  proof -
    have "uart_idle_isr ops ((v, s), pos) = dma_report ops (ucast sz - dma_counter pos) (of_nat p) ((v, s), pos)"
      using t(2) [OF g] by (simp add: uart_idle_isr_def f(1) Let_def)
    then show ?thesis using r by (simp only: l)
  qed
  show "\<exists>L. dma_isr ops True ((v, s), pos) = Some (L, if rx_indicate v then Some (length ins - length outs) else None) \<and>
      dma_line_ok v sz L ins outs 0" if g: "0 < p"
  proof -
    have "dma_isr ops True ((v, s), pos) = dma_report ops (ucast sz - dma_counter pos) (of_nat p) ((v, s), pos)"
      using t(1) [OF g] by (simp only: dma_isr_def f(1) Let_def if_True prod.case)
    then show ?thesis using r g by (simp only: l) simp
  qed
qed

lemma line_read:
  assumes ok: "dma_line_ok v sz ((v, s), pos) ins outs p" and m: "has (open_flag v) RT_DEVICE_FLAG_DMA_RX" "\<not> has (open_flag v) RT_DEVICE_FLAG_INT_RX"
  shows "\<exists>d. rt_serial_read ops n (v, s) = Some (d, take n (drop (length outs) (take (length ins - p) ins))) \<and>
    dma_line_ok v sz (d, pos) ins (outs @ take n (drop (length outs) (take (length ins - p) ins))) p"
proof -
  obtain f k where f: "bufsz (ser_config s) = sz" "serial_rx s = Some f" "dma_tracks sz f pos k p" "ins = outs @ dma_bytes sz f (k + p)"
    using ok by (auto simp: dma_line_ok_def)
  have q: "drop (length outs) (take (length ins - p) ins) = dma_bytes sz f k"
    using f(4) ring_take_drop(1) [of k "k + p" "unat sz" "fifo_buffer f" "unat (get_index f)"] by (simp add: dma_bytes_def fifo_ring_length)
  show ?thesis
  proof (cases "n = 0")
    case True
    then show ?thesis using ok by (simp add: rt_serial_read_def)
  next
    case False
    obtain f1 where f1: "serial_dma_rx sz n f = Some (f1, take n (dma_bytes sz f k))" "dma_tracks sz f1 pos (k - n) p"
      "dma_bytes sz f1 (k - n + p) = drop (min n k) (dma_bytes sz f (k + p))" using read_tracks [OF f(3)] by blast
    have "sz \<noteq> 0" using f(3) by (auto simp: dma_tracks_def)
    then have r: "rt_serial_read ops n (v, s) = Some ((v, set_rx s f1), take n (dma_bytes sz f k))"
      using False m f(1,2) f1(1) by (simp add: rt_serial_read_def)
    have "take n (dma_bytes sz f k) = take (min n k) (dma_bytes sz f (k + p))"
      using ring_take_drop(1) [of k "k + p" "unat sz" "fifo_buffer f" "unat (get_index f)"] by (simp add: dma_bytes_def)
    then have "ins = (outs @ take n (dma_bytes sz f k)) @ dma_bytes sz f1 (k - n + p)"
      using f(4) f1(3) by simp
    then have "dma_line_ok v sz ((v, set_rx s f1), pos) ins (outs @ take n (dma_bytes sz f k)) p"
      using f(1) f1(2) unfolding dma_line_ok_def set_rx_def
      by (intro exI [of _ "s\<lparr>serial_rx := Some f1\<rparr>"] exI [of _ pos] exI [of _ f1] exI [of _ "k - n"]) simp
    then show ?thesis unfolding q using r by blast
  qed
qed

lemma dma_run_ok:
  assumes "dma_run ops L0 L ins outs p" and "dma_line_ok v sz L0 [] [] 0"
    and m: "has (open_flag v) RT_DEVICE_FLAG_DMA_RX" "\<not> has (open_flag v) RT_DEVICE_FLAG_INT_RX"
  shows "dma_line_ok v sz L ins outs p"
  using assms(1,2)
proof (induction rule: dma_run.induct)
  case (arrive v' s pos ins outs p b L)
  then have "v' = v" "bufsz (ser_config s) = sz" by (auto simp: dma_line_ok_def)
  then show ?case using line_arrive arrive by metis
next
  case (idle v' s pos ins outs p L ind)
  then have e: "v' = v" "bufsz (ser_config s) = sz" by (auto simp: dma_line_ok_def)
  show ?case using line_interrupts(1) [of v sz s pos ins outs p ops] idle e by auto
next
  case (transfer v' s pos ins outs p L ind)
  then have e: "v' = v" by (auto simp: dma_line_ok_def)
  show ?case using line_interrupts(2) [of v sz s pos ins outs p ops] transfer e by auto
next
  case (fetch v' s pos ins outs p n d data)
  then have e: "v' = v" by (auto simp: dma_line_ok_def)
  show ?case using line_read [of v sz s pos ins outs p ops n] fetch e m by auto
qed simp

lemma dma_flags_apart:
  "RT_DEVICE_FLAG_DMA_RX AND RT_DEVICE_FLAG_INT_RX = 0" "RT_DEVICE_FLAG_INT_TX AND RT_DEVICE_FLAG_INT_RX = 0"
  "RT_DEVICE_FLAG_INT_TX AND RT_DEVICE_FLAG_DMA_RX = 0" "RT_DEVICE_FLAG_DMA_RX AND RT_DEVICE_FLAG_DMA_RX \<noteq> 0"
  by (simp_all add: RT_DEVICE_FLAG_INT_RX_def RT_DEVICE_FLAG_INT_TX_def RT_DEVICE_FLAG_DMA_RX_def)

lemma open_dma_ready:
  assumes o': "rt_serial_open ops oflag (v0, s0) = Some ((v, s), RT_EOK)" and "serial_rx s0 = None"
    and fl: "has oflag RT_DEVICE_FLAG_DMA_RX" "\<not> has oflag RT_DEVICE_FLAG_INT_RX" and sz: "bufsz (ser_config s0) = sz" "1 < sz" "unat sz \<le> 2 ^ 15"
  shows "dma_line_ok v sz ((v, s), \<lparr>dma_counter = ucast sz, last_index = 0\<rparr>) [] [] 0"
    and "has (open_flag v) RT_DEVICE_FLAG_DMA_RX \<and> \<not> has (open_flag v) RT_DEVICE_FLAG_INT_RX"
proof -
  obtain d1 d2 where p: "open_rx ops oflag (v0\<lparr>open_flag := oflag AND 0xff\<rparr>, s0) = Some d1" "open_tx ops oflag d1 = Some d2"
    "(v, s) = set_oflag (if has oflag RT_DEVICE_FLAG_STREAM \<or> has (open_flag v0) RT_DEVICE_FLAG_STREAM then RT_DEVICE_FLAG_STREAM else 0) d2"
    using serial_open_cases [OF o'] by (auto simp: RT_EOK_def RT_EIO_def)
  obtain s1 where s1: "new_rx_fifo s0 = Some s1"
    "d1 = set_oflag RT_DEVICE_FLAG_DMA_RX (ll_control ops RT_DEVICE_CTRL_CONFIG RT_DEVICE_FLAG_DMA_RX (v0\<lparr>open_flag := oflag AND 0xff\<rparr>, s1))"
    using p(1) assms(2) fl sz by (auto simp: open_rx_def split: if_splits)
  obtain g where g: "serial_rx s1 = Some g" "fifo_buffer g = replicate (unat sz) 0" "put_index g = 0" "get_index g = 0" "\<not> is_full g"
    "ser_config s1 = ser_config s0"
    using s1(1) sz(1) by (auto simp: new_rx_fifo_def split: option.splits)
  have d2: "serial_rx (snd d2) = Some g \<and> ser_config (snd d2) = ser_config s0"
    using p(2) g by (auto simp: s1(2) open_tx_def set_oflag_def ll_control_def set_hw_def split: if_splits option.splits)
  then have s: "serial_rx s = Some g" "bufsz (ser_config s) = sz" using p(3) sz(1) by (auto simp: set_oflag_def split: prod.splits)
  have "dma_tracks sz g \<lparr>dma_counter = ucast sz, last_index = 0\<rparr> 0 0"
    using g sz(2,3) by (auto simp: dma_tracks_def word_less_nat_alt)
  then show "dma_line_ok v sz ((v, s), \<lparr>dma_counter = ucast sz, last_index = 0\<rparr>) [] [] 0"
    using s by (auto simp: dma_line_ok_def dma_bytes_def ring_list_def intro!: exI [of _ 0])
  show "has (open_flag v) RT_DEVICE_FLAG_DMA_RX \<and> \<not> has (open_flag v) RT_DEVICE_FLAG_INT_RX"
  proof -
    have o1: "open_flag (fst d1) = (oflag AND 0xff) OR RT_DEVICE_FLAG_DMA_RX"
      by (simp add: s1(2) set_oflag_def ll_control_def)
    have "open_flag (fst d2) = open_flag (fst d1) \<or> open_flag (fst d2) = open_flag (fst d1) OR RT_DEVICE_FLAG_INT_TX"
      using p(2) by (auto simp: open_tx_def set_oflag_def ll_control_def split: prod.splits if_splits option.splits)
    moreover have "has ((oflag AND 0xff) OR RT_DEVICE_FLAG_DMA_RX) RT_DEVICE_FLAG_DMA_RX"
      by (simp add: has_def flag_set RT_DEVICE_FLAG_DMA_RX_def)
    ultimately have "has (open_flag (fst d2)) RT_DEVICE_FLAG_DMA_RX \<and> \<not> has (open_flag (fst d2)) RT_DEVICE_FLAG_INT_RX"
      by (auto simp: o1 flag_or_other [OF dma_flags_apart(1)] flag_or_other [OF dma_flags_apart(2)] flag_or_other [OF dma_flags_apart(3)]
          low_flags [OF int_flags_apart(5)])
    moreover have "open_flag v = open_flag (fst d2) OR RT_DEVICE_FLAG_STREAM \<or> open_flag v = open_flag (fst d2)"
      using p(3) by (auto simp: set_oflag_def split: prod.splits if_splits)
    ultimately show ?thesis by (auto simp: flag_or_other [OF int_flags_apart(3)] flag_or_other [OF int_flags_apart(4)])
  qed
qed

text \<open>Claim C14. A serial line opened for reception by DMA loses and reorders nothing: whatever comes in, is
  reported by either interrupt and is read, in whatever order, while no more than \<open>bufsz\<close> bytes are unread and
  the end of the buffer is reported before it is passed, what was read is the first part of what
  came in, every read succeeds with the oldest reported bytes, every interrupt succeeds and makes
  everything that came in readable, and the callback is told how much that is.\<close>

theorem dma_line_in_order:
  assumes "rt_serial_open ops oflag (v0, s0) = Some ((v, s), RT_EOK)" and "serial_rx s0 = None"
    and "has oflag RT_DEVICE_FLAG_DMA_RX" and "\<not> has oflag RT_DEVICE_FLAG_INT_RX"
    and "bufsz (ser_config s0) = sz" and "1 < sz" and "unat sz \<le> 2 ^ 15"
    and "dma_run ops ((v, s), \<lparr>dma_counter = ucast sz, last_index = 0\<rparr>) ((v1, s1), pos) ins outs p"
  shows "outs = take (length outs) (take (length ins - p) ins) \<and> length ins - length outs \<le> unat sz \<and>
    (\<exists>d. rt_serial_read ops n (v1, s1) = Some (d, take n (drop (length outs) (take (length ins - p) ins)))) \<and>
    (0 < p \<longrightarrow> (\<exists>L. dma_isr ops True ((v1, s1), pos) = Some (L, if rx_indicate v then Some (length ins - length outs) else None) \<and>
       dma_run ops ((v, s), \<lparr>dma_counter = ucast sz, last_index = 0\<rparr>) L ins outs 0)) \<and>
    (p = 0 \<or> dma_counter pos \<noteq> ucast sz \<longrightarrow> (\<exists>L. uart_idle_isr ops ((v1, s1), pos) =
         Some (L, if p \<noteq> 0 \<and> rx_indicate v then Some (length ins - length outs) else None) \<and>
       dma_run ops ((v, s), \<lparr>dma_counter = ucast sz, last_index = 0\<rparr>) L ins outs 0))"
proof -
  note i = open_dma_ready [OF assms(1-7)]
  have ok: "dma_line_ok v sz ((v1, s1), pos) ins outs p" using dma_run_ok [OF assms(8) i(1)] i(2) by blast
  then have v1: "v1 = v" and b: "bufsz (ser_config s1) = sz" by (auto simp: dma_line_ok_def)
  obtain f k where f: "dma_tracks sz f pos k p" "ins = outs @ dma_bytes sz f (k + p)" using ok by (auto simp: dma_line_ok_def)
  have l: "length ins = length outs + (k + p)" using f(2) by (simp add: dma_bytes_def fifo_ring_length)
  then have "outs = take (length outs) (take (length ins - p) ins)" "length ins - length outs \<le> unat sz"
    using f by (auto simp: dma_tracks_def min_def)
  then show ?thesis
    using line_read [OF ok [unfolded v1], of ops n] line_interrupts [OF ok [unfolded v1], of ops] i(2)
      dma_run.transfer [OF assms(8)] dma_run.idle [OF assms(8)] v1 b by fastforce
qed

section \<open>Writes go out in order\<close>

text \<open>A transmitter at work: the driver, what was pushed, the writer that has pushed and not yet checked,
  the transfer that is to be started, the transfers started, and the pointers reported complete.\<close>

type_synonym tx_state = "tx_dma \<times> rt_data_item list \<times> rt_data_item option \<times> rt_data_item option \<times> rt_data_item list \<times> nat option list"

definition tx_pushed :: "rt_data_item \<Rightarrow> dq_result \<Rightarrow> rt_data_item option" where
  "tx_pushed item r = (if r = Dq_return RT_EOK then Some item else None)"

text \<open>Anyone writes, waits and times out at any time but between the push and the check of another writer, and
  transfers end in any order with that, but the last one not before a writer has made its check.\<close>

inductive dma_writes :: "tx_dma \<Rightarrow> tx_state \<Rightarrow> bool" for d0 where
  start: "dma_writes d0 (d0, [], None, None, [], [])"
| push: "dma_writes d0 (d, ins, None, st, log, rep) \<Longrightarrow> dma_tx_push self item d = Some (d', r, w) \<Longrightarrow>
    dma_writes d0 (d', ins @ stored item r, tx_pushed item r, st, log, rep)"
| woken: "dma_writes d0 (d, ins, None, st, log, rep) \<Longrightarrow> dma_tx_push_resume t item d = Some (d', r, w) \<Longrightarrow>
    dma_writes d0 (d', ins @ stored item r, tx_pushed item r, st, log, rep)"
| expire: "dma_writes d0 (d, ins, pe, st, log, rep) \<Longrightarrow>
    dma_writes d0 (d\<lparr>tx_queue := (tx_queue d)\<lparr>dq_push_list := remove1 t (dq_push_list (tx_queue d))\<rparr>\<rparr>, ins, pe, st, log, rep)"
| check: "dma_writes d0 (d, ins, Some item, st, log, rep) \<Longrightarrow> dma_tx_activate d = (d', go) \<Longrightarrow>
    dma_writes d0 (d', ins, None, if go then Some item else st, log, rep)"
| launch: "dma_writes d0 (d, ins, pe, Some item, log, rep) \<Longrightarrow> dma_writes d0 (d, ins, pe, None, log @ [item], rep)"
| finish: "dma_writes d0 (d, ins, pe, None, log, rep) \<Longrightarrow> length rep < length log \<Longrightarrow> pe = None \<or> 1 < length (dq_contents (tx_queue d)) \<Longrightarrow>
    dma_tx_done (\<lambda>item h. h @ [item]) self (d, log) = Some ((d', log'), ptr, w) \<Longrightarrow> dma_writes d0 (d', ins, pe, None, log', rep @ [ptr])"

fun tx_ok :: "tx_state \<Rightarrow> bool" where
  "tx_ok (d, ins, pe, st, log, rep) \<longleftrightarrow> dq_ok (tx_queue d) \<and> unat (dq_put (tx_queue d)) = length ins \<and>
     length rep = length ins - length (dq_contents (tx_queue d)) \<and>
     (\<exists>fin. ins = fin @ dq_contents (tx_queue d) \<and> rep = map (\<lambda>x. Some (fst x)) fin \<and>
       (if tx_activated d then \<exists>x xs. dq_contents (tx_queue d) = x # xs \<and> (if st = None then log = fin @ [x] else st = Some x \<and> log = fin)
        else st = None \<and> log = fin \<and> dq_contents (tx_queue d) = (case pe of None \<Rightarrow> [] | Some x \<Rightarrow> [x])))"

lemma push_cases:
  assumes ok: "dq_ok q" and nw: "unat (dq_put q) + length (stored item r) < 2 ^ 16" and s: "rt_data_queue_push q item tm t = Some (q', r, w, ev)"
  shows "dq_ok q'" "dq_contents q' = dq_contents q @ stored item r" "unat (dq_put q') = unat (dq_put q) + length (stored item r)"
proof (atomize (full), cases "length (dq_contents q) = unat (dq_size q)")
  case True
  then have "dq_used q = uint (dq_size q)" using full_iff [OF ok] by simp
  then show "dq_ok q' \<and> dq_contents q' = dq_contents q @ stored item r \<and> unat (dq_put q') = unat (dq_put q) + length (stored item r)"
    using s ok by (auto simp: rt_data_queue_push_def stored_def RT_EOK_def RT_ETIMEOUT_def Let_def split: if_splits)
next
  case False
  then have st: "dq_store q item = Some (q', r, w, ev)" using s full_iff [OF ok] by (simp add: rt_data_queue_push_def)
  then have "r = Dq_return RT_EOK" by (auto simp: dq_store_def Let_def split: option.splits if_splits prod.splits)
  then have "stored item r = [item]" by (simp add: stored_def)
  then show "dq_ok q' \<and> dq_contents q' = dq_contents q @ stored item r \<and> unat (dq_put q') = unat (dq_put q) + length (stored item r)"
    using store_ok [OF ok False _ st] nw by simp
qed

lemma tx_push_ok:
  assumes t: "tx_ok (d, ins, None, st, log, rep)" and nw: "length (ins @ stored item r) < 2 ^ 16"
    and q: "rt_data_queue_push (tx_queue d) item tm self = Some (q, r, w, ev)"
  shows "tx_ok (d\<lparr>tx_queue := q\<rparr>, ins @ stored item r, tx_pushed item r, st, log, rep)"
proof -
  have "dq_ok (tx_queue d)" "unat (dq_put (tx_queue d)) = length ins" using t by simp_all
  then have p: "dq_ok q" "dq_contents q = dq_contents (tx_queue d) @ stored item r" "unat (dq_put q) = length (ins @ stored item r)"
    using push_cases [OF _ _ q] nw by simp_all
  then show ?thesis using t by (auto simp: tx_pushed_def stored_def split: if_splits)
qed

lemma peak_ok:
  assumes ok: "dq_ok q"
  shows "rt_data_queue_peak q = Some (case dq_contents q of [] \<Rightarrow> Inl (- RT_EEMPTY) | x # xs \<Rightarrow> Inr x)"
proof (cases "dq_contents q")
  case Nil
  then show ?thesis using empty_iff [OF ok] by (simp add: rt_data_queue_peak_def)
next
  case (Cons x xs)
  then obtain q' r w ev where s: "dq_fetch q = Some (q', r, w, ev)" using fetch_some [OF ok] by blast
  obtain items where "dq_queue q = Some items" "dq_size q \<noteq> 0" using ok size_nz [OF ok] by (auto simp: dq_ok_def)
  moreover have "r = Dq_item x" using fetch_ok(2) [OF ok _ s] Cons by auto
  ultimately have "items ! unat (dq_get q mod dq_size q) = x"
    using s by (auto simp: dq_fetch_def Let_def split: if_splits prod.splits)
  then show ?thesis using empty_iff [OF ok] Cons \<open>dq_queue q = Some items\<close> \<open>dq_size q \<noteq> 0\<close> by (simp add: rt_data_queue_peak_def)
qed

lemma done_ok:
  assumes ok: "dq_ok (tx_queue d)" and c: "dq_contents (tx_queue d) = x # xs"
  shows "\<exists>q w. dma_tx_done transmit self (d, h) = Some (case xs of [] \<Rightarrow> (d\<lparr>tx_queue := q, tx_activated := False\<rparr>, h)
      | y # ys \<Rightarrow> (d\<lparr>tx_queue := q, tx_activated := True\<rparr>, transmit y h), Some (fst x), w) \<and>
    dq_ok q \<and> dq_contents q = xs \<and> dq_put q = dq_put (tx_queue d)"
proof -
  obtain q r w ev where s: "dq_fetch (tx_queue d) = Some (q, r, w, ev)" using fetch_some [OF ok] by blast
  have ne: "dq_contents (tx_queue d) \<noteq> []" using c by simp
  note f = fetch_ok [OF ok ne s]
  have r: "r = Dq_item x" "dq_contents q = xs" using f(2) c by auto
  have "rt_data_queue_pop (tx_queue d) 0 self = Some (q, r, w, ev)" using s ne empty_iff [OF ok] by (simp add: rt_data_queue_pop_def)
  then show ?thesis using f(1,3) r peak_ok [OF f(1)]
    by (intro exI [of _ q] exI [of _ w]) (cases xs; simp add: dma_tx_done_def Let_def)
qed

declare tx_ok.simps [simp del]

lemma dma_writes_ok:
  assumes "dma_writes d0 s" and "tx_ok (d0, [], None, None, [], [])"
  shows "length (fst (snd s)) < 2 ^ 16 \<Longrightarrow> tx_ok s"
  using assms
proof (induction rule: dma_writes.induct)
  case (push d ins st log rep self item d' r w)
  then obtain q ev where q: "rt_data_queue_push (tx_queue d) item RT_WAITING_FOREVER self = Some (q, r, w, ev)" "d' = d\<lparr>tx_queue := q\<rparr>"
    by (auto simp: dma_tx_push_def in_queue_def)
  have "tx_ok (d, ins, None, st, log, rep)" using push by simp
  from tx_push_ok [OF this _ q(1)] show ?case using push.prems by (simp only: q(2) fst_conv snd_conv)
next
  case (woken d ins st log rep t item d' r w)
  then have ok: "tx_ok (d, ins, None, st, log, rep)" by simp
  obtain q ev where q: "dq_push_resume (tx_queue d) item RT_WAITING_FOREVER t = Some (q, r, w, ev)" "d' = d\<lparr>tx_queue := q\<rparr>"
    using woken.hyps by (auto simp: dma_tx_push_resume_def in_queue_def)
  show ?case
  proof (cases "thread_error t = RT_EOK")
    case True
    then have "rt_data_queue_push (tx_queue d) item RT_WAITING_FOREVER t = Some (q, r, w, ev)" using q(1) by (simp add: dq_push_resume_def)
    from tx_push_ok [OF ok _ this] show ?thesis using woken.prems by (simp only: q(2) fst_conv snd_conv)
  next
    case False
    then show ?thesis using ok q by (auto simp: dq_push_resume_def tx_pushed_def stored_def)
  qed
next
  case (check d ins item st log rep d' go)
  then have "tx_ok (d, ins, Some item, st, log, rep)" by simp
  then show ?case using check.hyps(2) by (auto simp: dma_tx_activate_def tx_ok.simps split: if_splits)
next
  case (expire d ins pe st log rep t)
  then have "tx_ok (d, ins, pe, st, log, rep)" by simp
  then show ?case by (simp add: tx_ok.simps cong: if_cong split del: if_split)
next
  case (launch d ins pe item log rep)
  then have "tx_ok (d, ins, pe, Some item, log, rep)" by simp
  then show ?case by (auto simp: tx_ok.simps split: if_splits)
next
  case (finish d ins pe log rep self d' log' ptr w)
  then have ok: "tx_ok (d, ins, pe, None, log, rep)" by simp
  obtain x xs where c: "dq_contents (tx_queue d) = x # xs" "tx_activated d"
    using ok finish.hyps(2) by (cases "tx_activated d") (auto simp: tx_ok.simps)
  obtain q where q: "dma_tx_done (\<lambda>item h. h @ [item]) self (d, log) = Some (case xs of [] \<Rightarrow> (d\<lparr>tx_queue := q, tx_activated := False\<rparr>, log)
      | y # ys \<Rightarrow> (d\<lparr>tx_queue := q, tx_activated := True\<rparr>, log @ [y]), Some (fst x), w)"
    "dq_ok q" "dq_contents q = xs" "dq_put q = dq_put (tx_queue d)"
    using done_ok [of d x xs "\<lambda>item h. h @ [item]" self log] ok c finish.hyps(4) by (force simp: tx_ok.simps)
  show ?case
  proof (cases xs)
    case Nil
    then show ?thesis using ok c q finish.hyps(3,4) by (auto simp: tx_ok.simps)
  next
    case (Cons y ys)
    then show ?thesis using ok c q finish.hyps(4) by (auto simp: tx_ok.simps)
  qed
qed simp

text \<open>With each writer checking before another pushes and before its own bytes are out, transmission by
  DMA sends every write exactly once and in order: the transfers started are the first writes, one
  at a time, each is reported with its own pointer, a write that is not yet sent has a running
  transfer, a transfer to be started or a check ahead of it, the interrupt at the end of a transfer
  never fails, and with no transfer active and no check open everything is sent and reported. This
  is so until 65535 writes.\<close>

theorem dma_writes_in_order:
  assumes "open_tx_dma ops ((v0, s0), None) = Some (dev, Some d0)" and "dq_queue (tx_queue d0) \<noteq> None"
    and "dma_writes d0 (d, ins, pe, st, log, rep)" and "length ins < 2 ^ 16"
  shows "log = take (length log) ins \<and> rep = map (\<lambda>x. Some (fst x)) (take (length rep) ins) \<and>
    length rep \<le> length log \<and> length log \<le> length rep + 1 \<and>
    (length log < length ins \<longrightarrow> length rep < length log \<or> st \<noteq> None \<or> pe \<noteq> None) \<and>
    (length rep < length log \<longrightarrow> dma_tx_done (\<lambda>item h. h @ [item]) self (d, log) \<noteq> None) \<and>
    (\<not> tx_activated d \<and> pe = None \<longrightarrow> log = ins \<and> length rep = length ins)"
proof -
  obtain q0 h1 h2 e where i: "rt_data_queue_init 8 4 False h1 = Some (q0, h2, e)" "tx_queue d0 = q0" "\<not> tx_activated d0"
    using assms(1) by (auto simp: open_tx_dma_def split: option.splits prod.splits)
  have "e = RT_EOK" using i(1) assms(2) [unfolded i(2)] by (auto simp: rt_data_queue_init_def split: if_splits)
  then have "tx_ok (d0, [], None, None, [], [])" using init_ok [of 8 4 False h1 q0 h2] i by (simp add: tx_ok.simps)
  then have ok: "tx_ok (d, ins, pe, st, log, rep)" using dma_writes_ok [OF assms(3)] assms(4) by simp
  then obtain fin where f: "ins = fin @ dq_contents (tx_queue d)" "rep = map (\<lambda>x. Some (fst x)) fin" "dq_ok (tx_queue d)"
    by (auto simp: tx_ok.simps)
  show ?thesis
  proof (cases "tx_activated d")
    case True
    then obtain x xs where x: "dq_contents (tx_queue d) = x # xs" "if st = None then log = fin @ [x] else st = Some x \<and> log = fin"
      using ok f by (auto simp: tx_ok.simps)
    then show ?thesis using f True done_ok [OF f(3) x(1), of "\<lambda>item h. h @ [item]" self log] by (auto split: if_splits)
  next
    case False
    then show ?thesis using ok f by (cases pe) (auto simp: tx_ok.simps)
  qed
qed

section \<open>Where the order is lost\<close>

text \<open>Push and check are two critical sections. When a second writer pushes between them, its buffer is sent
  twice, the first one never, and both are reported as sent.\<close>

lemma push_room:
  assumes "dq_ok (tx_queue d)" and "length (dq_contents (tx_queue d)) < unat (dq_size (tx_queue d))" and "unat (dq_put (tx_queue d)) + 1 < 2 ^ 16"
  shows "\<exists>q w. dma_tx_push self item d = Some (d\<lparr>tx_queue := q\<rparr>, Dq_return RT_EOK, w) \<and> dq_ok q \<and>
    dq_contents q = dq_contents (tx_queue d) @ [item] \<and> unat (dq_put q) = unat (dq_put (tx_queue d)) + 1 \<and> dq_size q = dq_size (tx_queue d)"
proof -
  have ne: "length (dq_contents (tx_queue d)) \<noteq> unat (dq_size (tx_queue d))" using assms(2) by simp
  obtain q r w ev where s: "dq_store (tx_queue d) item = Some (q, r, w, ev)" using store_some [OF assms(1)] by blast
  then have "rt_data_queue_push (tx_queue d) item RT_WAITING_FOREVER self = Some (q, r, w, ev)"
    using full_iff [OF assms(1)] ne by (simp add: rt_data_queue_push_def)
  then show ?thesis using store_ok [OF assms(1) ne assms(3) s]
    by (intro exI [of _ q] exI [of _ w]) (simp add: dma_tx_push_def in_queue_def)
qed

lemma done_next:
  assumes "dq_ok (tx_queue d)" and "dq_contents (tx_queue d) = x # y # ys" and "tx_activated d"
  shows "\<exists>q w. dma_tx_done transmit self (d, h) = Some ((d\<lparr>tx_queue := q\<rparr>, transmit y h), Some (fst x), w) \<and> dq_ok q \<and> dq_contents q = y # ys"
proof -
  have "d\<lparr>tx_queue := q, tx_activated := True\<rparr> = d\<lparr>tx_queue := q\<rparr>" for q using assms(3) by (cases d) simp
  then show ?thesis using done_ok [OF assms(1,2), of transmit self h] by auto
qed

lemma done_end:
  assumes "dq_ok (tx_queue d)" and "dq_contents (tx_queue d) = [x]"
  shows "\<exists>q w. dma_tx_done transmit self (d, h) = Some ((d\<lparr>tx_queue := q, tx_activated := False\<rparr>, h), Some (fst x), w) \<and> dq_ok q \<and> dq_contents q = []"
  using done_ok [OF assms, of transmit self h] by auto

lemma second_writer_overtakes:
  assumes ok: "dq_ok (tx_queue d)" "dq_contents (tx_queue d) = []" "1 < unat (dq_size (tx_queue d))" "unat (dq_put (tx_queue d)) + 2 < 2 ^ 16"
    and idle: "\<not> tx_activated d"
  shows "\<exists>d1 d2 d3 d4 d5 w1 w2 w4 w5. dma_tx_push t1 a d = Some (d1, Dq_return RT_EOK, w1) \<and> dma_tx_push t2 b d1 = Some (d2, Dq_return RT_EOK, w2) \<and>
    dma_tx_activate d2 = (d3, True) \<and> dma_tx_activate d3 = (d3, False) \<and>
    dma_tx_done (\<lambda>item h. h @ [item]) self (d3, [b]) = Some ((d4, [b, b]), Some (fst a), w4) \<and>
    dma_tx_done (\<lambda>item h. h @ [item]) self (d4, [b, b]) = Some ((d5, [b, b]), Some (fst b), w5) \<and> dq_contents (tx_queue d5) = []"
proof -
  obtain q1 w1 where p1: "dma_tx_push t1 a d = Some (d\<lparr>tx_queue := q1\<rparr>, Dq_return RT_EOK, w1)" "dq_ok q1" "dq_contents q1 = [a]"
    "unat (dq_put q1) = unat (dq_put (tx_queue d)) + 1" "dq_size q1 = dq_size (tx_queue d)"
    using push_room [OF ok(1), of t1 a] ok by auto
  obtain q2 w2 where p2: "dma_tx_push t2 b (d\<lparr>tx_queue := q1\<rparr>) = Some (d\<lparr>tx_queue := q2\<rparr>, Dq_return RT_EOK, w2)" "dq_ok q2" "dq_contents q2 = [a, b]"
    using push_room [of "d\<lparr>tx_queue := q1\<rparr>" t2 b] p1 ok by auto
  define e where "e = d\<lparr>tx_queue := q2, tx_activated := True\<rparr>"
  obtain q3 w3 where d3: "dma_tx_done (\<lambda>item h. h @ [item]) self (e, [b]) = Some ((e\<lparr>tx_queue := q3\<rparr>, [b, b]), Some (fst a), w3)"
    "dq_ok q3" "dq_contents q3 = [b]"
    using done_next [of e a b "[]" "\<lambda>item h. h @ [item]" self "[b]"] p2 by (auto simp: e_def)
  obtain q4 w4 where d4: "dma_tx_done (\<lambda>item h. h @ [item]) self (e\<lparr>tx_queue := q3\<rparr>, [b, b]) =
      Some ((e\<lparr>tx_queue := q4, tx_activated := False\<rparr>, [b, b]), Some (fst b), w4)" "dq_contents q4 = []"
    using done_end [of "e\<lparr>tx_queue := q3\<rparr>" b "\<lambda>item h. h @ [item]" self "[b, b]"] d3 by auto
  have act: "dma_tx_activate (d\<lparr>tx_queue := q2\<rparr>) = (e, True)" "dma_tx_activate e = (e, False)"
    using idle by (simp_all add: dma_tx_activate_def e_def)
  have "dq_contents (tx_queue (e\<lparr>tx_queue := q4, tx_activated := False\<rparr>)) = []" using d4(2) by simp
  then show ?thesis using p1(1) p2(1) d3(1) d4(1) act by blast
qed

text \<open>A single writer that is held up between push and check until its buffer is out sends it a second
  time, and the report of that is a pointer that nothing was stored in.\<close>

lemma held_up_writer_repeats:
  assumes ok: "dq_ok (tx_queue d)" "dq_contents (tx_queue d) = [a]" "1 < unat (dq_size (tx_queue d))" "unat (dq_put (tx_queue d)) + 1 < 2 ^ 16"
    and act: "tx_activated d"
  shows "\<exists>d1 d2 d3 d4 w1 w2 w3. dma_tx_push t b d = Some (d1, Dq_return RT_EOK, w1) \<and>
    dma_tx_done (\<lambda>item h. h @ [item]) self (d1, [a]) = Some ((d2, [a, b]), Some (fst a), w2) \<and>
    dma_tx_done (\<lambda>item h. h @ [item]) self (d2, [a, b]) = Some ((d3, [a, b]), Some (fst b), w3) \<and>
    dma_tx_activate d3 = (d4, True) \<and> dma_tx_done (\<lambda>item h. h @ [item]) self (d4, [a, b, b]) = Some ((d3, [a, b, b]), None, None)"
proof -
  obtain q1 w1 where p1: "dma_tx_push t b d = Some (d\<lparr>tx_queue := q1\<rparr>, Dq_return RT_EOK, w1)" "dq_ok q1" "dq_contents q1 = [a, b]"
    using push_room [OF ok(1), of t b] ok by auto
  obtain q2 w2 where d2: "dma_tx_done (\<lambda>item h. h @ [item]) self (d\<lparr>tx_queue := q1\<rparr>, [a]) = Some ((d\<lparr>tx_queue := q2\<rparr>, [a, b]), Some (fst a), w2)"
    "dq_ok q2" "dq_contents q2 = [b]"
    using done_next [of "d\<lparr>tx_queue := q1\<rparr>" a b "[]" "\<lambda>item h. h @ [item]" self "[a]"] p1 act by auto
  obtain q3 w3 where d3: "dma_tx_done (\<lambda>item h. h @ [item]) self (d\<lparr>tx_queue := q2\<rparr>, [a, b]) =
      Some ((d\<lparr>tx_queue := q3, tx_activated := False\<rparr>, [a, b]), Some (fst b), w3)" "dq_ok q3" "dq_contents q3 = []"
    using done_end [of "d\<lparr>tx_queue := q2\<rparr>" b "\<lambda>item h. h @ [item]" self "[a, b]"] d2 by auto
  have "rt_data_queue_pop q3 0 self = Some (q3, Dq_return (- RT_ETIMEOUT), None, None)" "rt_data_queue_peak q3 = Some (Inl (- RT_EEMPTY))"
    using empty_iff [OF d3(2)] d3(3) peak_ok [OF d3(2)] by (simp_all add: rt_data_queue_pop_def)
  then have "dma_tx_done (\<lambda>item h. h @ [item]) self (d\<lparr>tx_queue := q3, tx_activated := True\<rparr>, [a, b, b]) =
      Some ((d\<lparr>tx_queue := q3, tx_activated := False\<rparr>, [a, b, b]), None, None)" by (simp add: dma_tx_done_def)
  moreover have "dma_tx_activate (d\<lparr>tx_queue := q3, tx_activated := False\<rparr>) = (d\<lparr>tx_queue := q3, tx_activated := True\<rparr>, True)"
    by (simp add: dma_tx_activate_def)
  ultimately show ?thesis using p1(1) d2(1) d3(1) by blast
qed

section \<open>Other things that go wrong\<close>

text \<open>Closing gives back the driver's structure but not the ring of its data queue, so every time the
  device is opened and closed the heap has one block more in use.\<close>

lemma closed_queue_leaks:
  assumes "heap_run (ser_heap s) L" and "open_tx_dma ops ((v, s), None) = Some (dev, Some d)" and "dq_queue (tx_queue d) \<noteq> None"
    and "close_tx_dma (dev, Some d) = Some ((v1, s1), None)"
  shows "\<exists>ring. ring \<notin> L \<and> heap_run (ser_heap s1) (insert ring L)"
proof -
  obtain h1 p h2 ring e where o: "rt_malloc 40 (ser_heap s) = Some (h1, Some p)" "rt_malloc 64 h1 = Some (h2, ring)"
    "tx_dma_addr d = p" "ser_heap (snd dev) = h2" "ring \<noteq> None"
    using assms(2,3) by (auto simp: open_tx_dma_def rt_data_queue_init_def ll_control_def set_oflag_def set_hw_def split: option.splits)
  have a: "heap_run h1 (L \<union> {p})" "p \<notin> L" using heap.alloc_fresh [OF assms(1), of 40] o(1) by auto
  obtain r where r: "ring = Some r" using o(5) by blast
  have b: "heap_run h2 (L \<union> {p} \<union> {r})" "r \<notin> L \<union> {p}" using heap.alloc_fresh [OF a(1), of 64] o(2) r by (auto simp: insert_commute)
  have "rt_free (Some p) h2 = Some (ser_heap s1)"
    using assms(4) o(3,4) by (auto simp: close_tx_dma_def clr_oflag_def split: prod.splits)
  then have "heap_run (ser_heap s1) (L \<union> {p} \<union> {r} - {p})" using heap_run.free [OF b(1)] by blast
  moreover have "L \<union> {p} \<union> {r} - {p} = insert r L" using a(2) b(2) by auto
  ultimately show ?thesis using b(2) by auto
qed

text \<open>The receiver without a fifo gives back what it took.\<close>

lemma rx_dma_memory:
  assumes "heap_run (ser_heap s) L" and "open_rx_dma (v, s) = Some (d, rx, busy)"
  shows "\<exists>v1 s1. close_rx_dma ops rx d = Some (v1, s1) \<and> heap_run (ser_heap s1) L"
proof -
  obtain h where h: "rt_malloc 4 (ser_heap s) = Some (h, Some rx)" "d = set_oflag RT_DEVICE_FLAG_DMA_RX (v, s\<lparr>ser_heap := h\<rparr>)"
    using assms(2) by (auto simp: open_rx_dma_def split: option.splits)
  obtain h1 where "rt_free (Some rx) h = Some h1" "heap_run h1 L" using heap.alloc_release [OF assms(1) h(1)] by auto
  then show ?thesis by (simp add: close_rx_dma_def h(2) set_oflag_def ll_control_def clr_oflag_def set_hw_def)
qed

text \<open>\<open>last_index\<close> is never set back. A line closed after 100 bytes and opened again tells its reader, after
  one byte, of a full buffer.\<close>

definition fresh_line :: "rx_fifo \<Rightarrow> 'h rt_serial \<Rightarrow> bool" where
  "fresh_line f s \<longleftrightarrow> serial_rx s = Some f \<and> put_index f = 0 \<and> get_index f = 0 \<and> \<not> is_full f \<and> bufsz (ser_config s) = 512"

lemma reopened_line_misreports:
  assumes "fresh_line f s" and "rx_indicate v"
  shows "\<exists>L. uart_idle_isr ops ((v, s), \<lparr>dma_counter = 511, last_index = 100\<rparr>) = Some (L, Some 512)"
  using assms
  by (simp add: fresh_line_def uart_idle_isr_def dma_report_def rt_hw_serial_isr_def dma_recv_update_put_index_def fifo_calc_recved_len_def
      RT_SERIAL_EVENT_RX_IND_def RT_SERIAL_EVENT_TX_DONE_def RT_SERIAL_EVENT_TX_DMADONE_def RT_SERIAL_EVENT_RX_DMADONE_def Let_def)

text \<open>When the interrupt for the first half is late and comes with the one for the end, each of the two
  calls of \<open>dma_isr\<close> reports the whole buffer, the second with nothing new in it.\<close>

lemma late_half_reported_twice:
  assumes "fresh_line f s" and "rx_indicate v"
  shows "\<exists>L. dma_isr ops True ((v, s), \<lparr>dma_counter = 512, last_index = 0\<rparr>) = Some (L, Some 512) \<and> snd L = \<lparr>dma_counter = 512, last_index = 0\<rparr>"
  using assms
  by (simp add: fresh_line_def dma_isr_def dma_report_def rt_hw_serial_isr_def dma_recv_update_put_index_def fifo_calc_recved_len_def
      RT_SERIAL_EVENT_RX_IND_def RT_SERIAL_EVENT_TX_DONE_def RT_SERIAL_EVENT_TX_DMADONE_def RT_SERIAL_EVENT_RX_DMADONE_def Let_def)

text \<open>Without a fifo the UART driver starts no transfer, so a read returns its length with nothing read and
  every later read is refused; and where a transfer does end, a read from the callback is refused too.\<close>

lemma read_starts_nothing:
  "serial_dma_read (\<lambda>item h. fst (stm32_dma_transmit hal RT_SERIAL_DMA_RX item h)) item (False, h) = ((True, h), snd item, RT_EOK)"
  "serial_dma_read transmit item (True, h) = ((True, h), 0, - RT_EBUSY)"
  by (simp_all add: serial_dma_read_def stm32_dma_transmit_def RT_SERIAL_DMA_RX_def RT_SERIAL_DMA_TX_def)

section \<open>Samples\<close>

definition sample_dma_line :: "rx_fifo \<Rightarrow> u32 \<Rightarrow> rt_heap \<Rightarrow> stm32_uart dma_line" where
  "sample_dma_line f n h = ((sample_dev\<lparr>dev_flag := 0x71B, open_flag := 0x200\<rparr>, (sample_serial (Some f) sample_uart)\<lparr>ser_heap := h\<rparr>),
     \<lparr>dma_counter = n, last_index = 0\<rparr>)"

lemma sample_dma_open:
  "\<exists>h. rt_serial_open sample_uops 0x200 (sample_dev\<lparr>dev_flag := 0x71B\<rparr>, sample_serial None sample_uart) =
     Some (fst (sample_dma_line \<lparr>fifo_addr = 0x2000000C, fifo_buffer = replicate 4 0, put_index = 0, get_index = 0, is_full = False\<rparr> 4 h), RT_EOK)"
  using demo_malloc_16
  by (auto simp: rt_serial_open_def open_rx_def open_tx_def new_rx_fifo_def has_def
      sample_dev_def sample_serial_def sample_uart_def sample_uops_def ll_control_def set_oflag_def set_hw_def stm32_control_def Let_def
      RT_SERIAL_CONFIG_DEFAULT_def sample_dma_line_def stm32_uart_ops_def
      RT_DEVICE_CTRL_SET_INT_def RT_DEVICE_CTRL_CLR_INT_def RT_DEVICE_CTRL_CONFIG_def RT_DEVICE_FLAG_STREAM_def RT_DEVICE_FLAG_INT_RX_def
      RT_DEVICE_FLAG_DMA_RX_def RT_DEVICE_FLAG_DMA_TX_def RT_DEVICE_FLAG_INT_TX_def)

definition tx_heap :: rt_heap where
  "tx_heap = rt_system_heap_init 0x20000000 0x20000100
     \<lparr>hdr = (\<lambda>_. \<lparr>hm_magic = 0, hm_used = 0, hm_next = 0, hm_prev = 0\<rparr>), heap_ptr = 0, heap_end = 0,
      lfree = 0, mem_size_aligned = 0, used_mem = 0, max_mem = 0\<rparr>"

definition tx_heap_40 :: rt_heap where
  "tx_heap_40 = \<lparr>hdr = (\<lambda>x. if x = 0 then \<lparr>hm_magic = HEAP_MAGIC, hm_used = 1, hm_next = 52, hm_prev = 0\<rparr>
       else if x = 52 then \<lparr>hm_magic = HEAP_MAGIC, hm_used = 0, hm_next = 244, hm_prev = 0\<rparr>
       else if x = 244 then \<lparr>hm_magic = HEAP_MAGIC, hm_used = 1, hm_next = 244, hm_prev = 244\<rparr>
       else \<lparr>hm_magic = 0, hm_used = 0, hm_next = 0, hm_prev = 0\<rparr>), heap_ptr = 0x20000000, heap_end = 244,
      lfree = 52, mem_size_aligned = 232, used_mem = 52, max_mem = 52\<rparr>"

lemma tx_heap_eq:
  "tx_heap = \<lparr>hdr = (\<lambda>_. \<lparr>hm_magic = 0, hm_used = 0, hm_next = 0, hm_prev = 0\<rparr>)
       (0 := \<lparr>hm_magic = HEAP_MAGIC, hm_used = 0, hm_next = 244, hm_prev = 0\<rparr>,
        244 := \<lparr>hm_magic = HEAP_MAGIC, hm_used = 1, hm_next = 244, hm_prev = 244\<rparr>), heap_ptr = 0x20000000, heap_end = 244,
      lfree = 0, mem_size_aligned = 232, used_mem = 0, max_mem = 0\<rparr>"
  by (simp add: tx_heap_def rt_system_heap_init_def Let_def RT_ALIGN_def word_less_nat_alt)

lemma tx_malloc_40: "rt_malloc 40 tx_heap = Some (tx_heap_40, Some 0x2000000C)"
  by (simp add: rt_malloc_def tx_heap_eq RT_ALIGN_def malloc_size_def malloc_search.simps [of _ 40 0] usub_le
      malloc_take_def set_hdr_def count_used_def malloc_lfree_def lfree_advance.simps [of _ 0] lfree_advance.simps [of _ 52]
      tx_heap_40_def Let_def fun_eq_iff word_less_nat_alt)

lemma tx_malloc_64: "\<exists>h. rt_malloc 64 tx_heap_40 = Some (h, Some 0x20000040)"
  by (simp add: rt_malloc_def tx_heap_40_def RT_ALIGN_def malloc_size_def malloc_search.simps [of _ 64 52] usub_le
      malloc_take_def set_hdr_def count_used_def malloc_lfree_def lfree_advance.simps Let_def word_less_nat_alt)

text \<open>One byte comes in on the line and is reported.\<close>

theorem dma_line_in_order_witness:
  "\<exists>v s v1 s1 pos L. rt_serial_open sample_uops 0x200 (sample_dev\<lparr>dev_flag := 0x71B\<rparr>, sample_serial None sample_uart) = Some ((v, s), RT_EOK) \<and>
    dma_run sample_uops ((v, s), \<lparr>dma_counter = 4, last_index = 0\<rparr>) ((v1, s1), pos) [7] [] 1 \<and>
    dma_isr sample_uops True ((v1, s1), pos) = Some (L, Some 1)"
proof -
  define f where "f = \<lparr>fifo_addr = 0x2000000C, fifo_buffer = replicate 4 0, put_index = 0, get_index = 0, is_full = False\<rparr>"
  obtain h v s where o': "rt_serial_open sample_uops 0x200 (sample_dev\<lparr>dev_flag := 0x71B\<rparr>, sample_serial None sample_uart) = Some ((v, s), RT_EOK)"
    "sample_dma_line f 4 h = ((v, s), \<lparr>dma_counter = 4, last_index = 0\<rparr>)"
    using sample_dma_open by (force simp: f_def sample_dma_line_def)
  have s: "serial_rx s = Some f" "bufsz (ser_config s) = 4" "rx_indicate v"
    using o'(2) by (auto simp: sample_dma_line_def sample_serial_def sample_dev_def)
  obtain v1 s1 pos where st: "dma_store 7 ((v, s), \<lparr>dma_counter = 4, last_index = 0\<rparr>) = Some ((v1, s1), pos)"
    using s by (auto simp: dma_store_def)
  have r: "dma_run sample_uops ((v, s), \<lparr>dma_counter = 4, last_index = 0\<rparr>) ((v1, s1), pos) [7] [] 1"
    using dma_run.arrive [OF dma_run.start _ _ st, of sample_uops] s by simp
  have fl: "has 0x200 RT_DEVICE_FLAG_DMA_RX" "\<not> has 0x200 RT_DEVICE_FLAG_INT_RX"
    by (simp_all add: has_def RT_DEVICE_FLAG_DMA_RX_def RT_DEVICE_FLAG_INT_RX_def)
  have "serial_rx (sample_serial None sample_uart) = None" "bufsz (ser_config (sample_serial None sample_uart)) = 4"
    by (simp_all add: sample_serial_def)
  from dma_line_in_order [OF o'(1) this(1) fl this(2), of v1 s1 pos "[7]" "[]" 1 0] obtain L where
    "dma_isr sample_uops True ((v1, s1), pos) = Some (L, Some 1)" using r s(3) by auto
  then show ?thesis using o'(1) r by blast
qed

definition sample_tx_dma :: tx_dma where
  "sample_tx_dma = \<lparr>tx_dma_addr = 0x2000000C, tx_activated = False,
     tx_queue = \<lparr>dq_size = 8, dq_lwm = 4, dq_get = 0, dq_put = 0, dq_queue = Some (replicate 8 (0, 0)), dq_push_list = [], dq_pop_list = [],
       dq_notify = False\<rparr>\<rparr>"

lemma sample_tx_open:
  "\<exists>dev. open_tx_dma sample_uops ((sample_dev, (sample_serial None sample_uart)\<lparr>ser_heap := tx_heap\<rparr>), None) = Some (dev, Some sample_tx_dma)"
  using tx_malloc_64 by (auto simp: open_tx_dma_def sample_serial_def tx_malloc_40 rt_data_queue_init_def sample_tx_dma_def)

text \<open>One write, its check and its transfer.\<close>

lemma sample_tx_run:
  "\<exists>d. dma_writes sample_tx_dma (d, [(0x20000100, 3)], None, None, [(0x20000100, 3)], []) \<and> tx_activated d"
proof -
  let ?item = "(0x20000100, 3) :: rt_data_item"
  obtain d w where p: "dma_tx_push (sample_thread 1 9) ?item sample_tx_dma = Some (d, Dq_return RT_EOK, w)" "\<not> tx_activated d"
    by (simp add: dma_tx_push_def in_queue_def rt_data_queue_push_def dq_used_def dq_store_def sample_tx_dma_def wake_first_eq)
  from dma_writes.push [OF dma_writes.start p(1)]
  have "dma_writes sample_tx_dma (d, [?item], Some ?item, None, [], [])" by (simp add: stored_def tx_pushed_def)
  from dma_writes.check [OF this, of "d\<lparr>tx_activated := True\<rparr>" True] p(2)
  have "dma_writes sample_tx_dma (d\<lparr>tx_activated := True\<rparr>, [?item], None, Some ?item, [], [])" by (simp add: dma_tx_activate_def)
  from dma_writes.launch [OF this] show ?thesis by (intro exI [of _ "d\<lparr>tx_activated := True\<rparr>"]) simp
qed

theorem dma_writes_in_order_witness:
  "\<exists>d. dma_writes sample_tx_dma (d, [(0x20000100, 3)], None, None, [(0x20000100, 3)], []) \<and>
    dma_tx_done (\<lambda>item h. h @ [item]) (sample_thread 1 9) (d, [(0x20000100, 3)]) \<noteq> None"
proof -
  obtain d where d: "dma_writes sample_tx_dma (d, [(0x20000100, 3)], None, None, [(0x20000100, 3)], [])" using sample_tx_run by blast
  obtain dev where o': "open_tx_dma sample_uops ((sample_dev, (sample_serial None sample_uart)\<lparr>ser_heap := tx_heap\<rparr>), None) = Some (dev, Some sample_tx_dma)"
    using sample_tx_open by blast
  have "dq_queue (tx_queue sample_tx_dma) \<noteq> None" by (simp add: sample_tx_dma_def)
  from dma_writes_in_order [OF o' this d, of "sample_thread 1 9"] d show ?thesis by auto
qed

end
