(* ===== verification/Spec2Isabelle.thy ===== *)
theory Spec2Isabelle
  imports Fire_Alarm Lora Ota Rt_Ringbuffer Rt_Heap Rt_Mutex Rt_Event Rt_Mq Rt_Printf Led_Timer Finsh Rt_Mempool Lora_Line Rt_Serial_Dma
begin

text \<open>
  Verification of the fire door controller (\<open>src/stm32f401-st-nucleo\<close>).

  THE PROGRAM. A microcontroller holds the emergency exit of a building locked and opens it on
  an emergency switch, a key, the signal of a fire machine or a command of the server. It runs
  the RT-Thread kernel (\<open>rt-thread/src\<close>) with the application in \<open>applications\<close>. The threads of
  the application share global structures and call each other:
  \<open>extio_task\<close> scans inputs, keys and supervised lines and drives the relays; \<open>misc_task\<close> reads
  what the scan found, opens and locks the door, raises the alarms, publishes through \<open>nb-iot.c\<close>
  and saves the configuration; \<open>nb-iot.c\<close> treats the commands of the server, which change the
  configuration and request the door; the thread of \<open>lora.c\<close> receives the frames of the smoke
  detectors; \<open>ota.c\<close> decides about firmware updates; \<open>config.c\<close> keeps the configuration in
  flash; \<open>main.c\<close> and \<open>mnt.c\<close> start the system. All of them sleep, wait and send through the
  kernel: scheduler, threads, timers, semaphores, mutexes, events, mailboxes, message queues,
  heap, memory pools, and the string and memory routines. The radio is reached through a serial
  device: the kernel's device layer, the serial driver with its receive fifo, and the driver of the
  UART. The shell thread reads keys, asks for the password
  and calls the commands that \<open>config.c\<close> exports.

  THEORIES. The name of a definition is the name in the code where HOL allows it; a part of a
  function has a name of its own and is mapped to the lines of the part.
  \<open>Fw_Prelude\<close>: machine integers, rewrite collections, list and iteration lemmas.
  \<open>Rt_Kservice\<close> (\<open>kservice.c\<close>, memory and strings on a byte memory), \<open>C_Buffers\<close> (the same on
  arrays, \<open>atoi\<close>, byte images), \<open>Rt_Printf\<close> (\<open>kservice.c\<close>, formatted output), \<open>Rt_Ffs\<close>
  (\<open>__rt_ffs\<close>), \<open>Rt_Sched\<close> (\<open>scheduler.c\<close>), \<open>Rt_Timer\<close> (\<open>timer.c\<close>, \<open>clock.c\<close>), \<open>Rt_Thread\<close>
  (\<open>thread.c\<close>, \<open>idle.c\<close>), \<open>Rt_Ipc\<close> (\<open>ipc.c\<close>: suspension lists and semaphores), \<open>Rt_Mutex\<close>,
  \<open>Rt_Event\<close>, \<open>Rt_Mailbox\<close>, \<open>Rt_Mq\<close> (\<open>ipc.c\<close>), \<open>Rt_Mem\<close> and \<open>Rt_Heap\<close> (\<open>mem.c\<close>),
  \<open>Rt_Ringbuffer\<close> (\<open>components/drivers/src/ringbuffer.c\<close>), \<open>Rt_List\<close> (the lists of
  \<open>rtservice.h\<close>), \<open>Rt_Object\<close> (\<open>object.c\<close>), \<open>Rt_Mempool\<close> (\<open>mempool.c\<close>), \<open>Rt_Device\<close> (\<open>device.c\<close>),
  \<open>Rt_Dataqueue\<close> (\<open>completion.c\<close> and \<open>dataqueue.c\<close> of \<open>components/drivers/src\<close>), \<open>Rt_Serial\<close>
  (\<open>components/drivers/serial/serial.c\<close> and \<open>libraries/HAL_Drivers/drv_usart.c\<close>), \<open>Rt_Serial_Dma\<close>
  (their DMA modes).
  \<open>Gpio\<close> (pins), \<open>Hal\<close> (\<open>hal.c\<close>), \<open>Config\<close> (\<open>config.c\<close>), \<open>Extio\<close> (\<open>extio.c\<close>), \<open>Factory\<close>
  (\<open>factory_test.c\<close>), \<open>Nbiot\<close> (\<open>nb-iot.c\<close>), \<open>Misc\<close> (\<open>misc.c\<close>), \<open>Lora\<close> (\<open>lora.c\<close>), \<open>Ota\<close>
  (\<open>ota.c\<close>), \<open>App_Main\<close> (\<open>main.c\<close>, \<open>mnt.c\<close>), \<open>Msh\<close> and \<open>Finsh\<close> (the shell in
  \<open>rt-thread/components/finsh\<close>: command line; line editor, history and log-in). \<open>Fire_Alarm\<close> joins the scan and the control,
  \<open>Led_Timer\<close> the LED of the application and the timers of the kernel, \<open>Lora_Line\<close> the reader of
  \<open>lora.c\<close> and the serial device; this theory joins the
  emergency line with the alarm and the printed texts with the kernel's printing.

  HOW STATE AND OPERATIONS CORRESPOND. A structure is a record with the fields of the code; the
  globals of a file are one record; a function is a function from the state to the new state
  and the result. A pin write goes through the parameter \<open>wr\<close>, a read through \<open>rd\<close>. A failed
  assertion, a null pointer that would be followed, an access outside a table or an array, and
  a loop without end are the value \<open>None\<close> (\<open>Mx_fault\<close> in \<open>Rt_Mutex\<close>). A call that waits is cut at
  \<open>rt_schedule\<close>: one definition up to the switch, one for what the thread does when it runs
  again (\<open>..._return\<close>, \<open>..._resume\<close>); between the cuts any other operation may come. Message
  queues are also cut where the code enables interrupts. A thread, a timer or a block is named
  by a number or an address, a kernel list is the list of these names, and unlinking a node
  removes it from the list that holds it; \<open>Rt_List\<close> shows that the pointer operations on a ring are
  these operations on the sequence of its nodes, and \<open>Rt_Object\<close> keeps its containers as such rings.
  A device is a record of flags and the state of its driver, and a driver a record of its operations.

  WHAT THE LEMMAS SHOW.
  Kernel, from below: the routines of \<open>Rt_Kservice\<close> are their byte-wise references;
  \<open>Rt_Ffs\<close> finds the lowest bit; \<open>Rt_Sched\<close> keeps the bitmap equal to the nonempty lists
  (\<open>sched_inv\<close>), runs the highest priority and lets equals take turns; \<open>Rt_Timer\<close> keeps the
  lists in the order of expiry modulo \<open>2 ^ 32\<close> (\<open>timers_wf\<close>) and fires in exactly the ticks asked
  for; \<open>Rt_Thread\<close> joins both (\<open>kernel_ok\<close>). The objects of \<open>ipc.c\<close> each have an invariant of
  reachable states: permits are conserved, a mutex has one owner and inherits priority, no
  event is overlooked, no wake-up is lost, each message block is in one place; mailboxes and
  ring buffers refine a bounded queue. \<open>Rt_Heap\<close> keeps the partition of the heap into blocks, and
  \<open>Rt_Mempool\<close> that of a pool. A search in \<open>Rt_Object\<close> finds what is registered. A data queue is
  first in, first out until its indices overflow. The users of a device are counted whatever they
  do, and a serial line is a queue of the last bytes that came in; in DMA mode it
  loses nothing while its reader keeps up, and writes go out in order while each writer gets to its
  check in time.
  Application: the debouncing is the one-channel debouncer on each channel; the configuration
  survives a restart; a frame built by the sender is accepted by the receiver, also when it
  goes byte by byte over the serial line and through the interrupts of the other board; commands change
  what they may change; the door opens on each reason, stays open for 100 iterations and is
  locked again; the emergency line raises the alarm from the pin to the relays. The shell edits
  a text with a cursor, stays inside its arrays as long as lines and completed names fit, opens on
  the password only, and what is typed reaches the configuration as the arguments of the command.
  Formatted output stays inside its buffer until the 32-bit place wraps.
  Where the code does not do what it means to, a lemma shows the behaviour on a concrete input
  (for example \<open>delay_until_oversleeps\<close>, \<open>soft_check_hangs\<close>, \<open>glitches_accumulate\<close>).

  INTERFACES. \<open>bounded_fifo\<close> (a queue of bounded length; \<open>Rt_Ringbuffer\<close>, and \<open>Rt_Mailbox\<close> as a
  second provider), \<open>block_store\<close> (\<open>Rt_Heap\<close>) and \<open>block_allocator\<close> (\<open>Rt_Heap\<close>, and
  \<open>Rt_Mempool\<close> as a second provider), \<open>device_driver\<close> (what \<open>Rt_Device\<close> needs of a driver; provided
  by the serial driver in \<open>Rt_Serial\<close>), \<open>timer_system\<close> and
  \<open>timer_observer\<close> (what the timers need of the functions they call; provided by the threads in
  \<open>Rt_Thread\<close> and by LED and threads in \<open>Led_Timer\<close>), \<open>config_command\<close> (what every shell command
  of \<open>Config\<close> keeps), \<open>low_counter\<close> (keys and supervised lines of \<open>Extio\<close>).

  LOOPS. Loops over data are structural recursion. The format loop of \<open>Rt_Printf\<close> and the digit
  loop end by a measure. Loops that can run without end are \<open>partial_function (option)\<close>: string
  scans past a missing NUL, the search of the heap, the checks of the timers, the clean-up of
  the idle thread, walks over pointer lists, sending with a transmit interrupt, the reading thread of
  the radio; that they return is part of the property that uses them. No definition
  takes fuel. Bounds are those of the code: 32 priorities, timeouts below half the range of the
  tick, 24 inputs, 8 outputs, 20 detectors, 50 bytes of receive buffer,
  200 characters of command line, 10 arguments.

  PARAMETERS. The flash abstraction layer, the checksum, MQTT, JSON, web client and network
  device packages and the C library are not in the repository: what they return is in the
  environment records (\<open>config_env\<close>, \<open>nb_env\<close>, \<open>ota_env\<close>) or an argument, with laws as named
  hypotheses where a property needs them (\<open>fal_law\<close>). The status of the UART hardware, what waiting for
  it does and what the STM32 library answers to an initialisation are arguments of \<open>Rt_Serial\<close>; what
  the file system answers to the completion of a path is one of \<open>Msh\<close> (\<open>dfs\<close>).

  NOT MODELLED. Interrupt masking itself: a section with interrupts disabled is one step. Hooks,
  stacks and their check, console output and logs. The other
  memory managers (slab and heaps of several areas); of the serial and UART drivers the set-up of the DMA hardware and
  the operations of the file system; the file system, network and driver frameworks that the application only
  calls; scripts and built-in commands of the shell; the
  STM32 libraries and start-up code, which end in registers; the copies of the repository
  under \<open>dist\<close> and \<open>applications/backup\<close>.
\<close>

section \<open>From the emergency line to the alarm\<close>

text \<open>Claim C1. An emergency switch that holds its line low for eleven or more rounds of
  \<open>extio_task\<close>, with both keys up, opens the door at the next iteration of \<open>misc_task\<close> and
  raises the main alarm and all eight alarm relays, from any well-formed state of the board
  with a locked door; while connected, the opening is reported with cause 2.\<close>

theorem emergency_raises_alarm:
  assumes "wr_pin env = set_level" and "extio_wf x" and "\<not> e EXTIO_EMERGENCY"
    and "e EXTIO_SET_KEY_PIN" and "e EXTIO_DOOR_KEY_PIN"
    and "k_sta (x_key x) = [0, 0]" and "k_time (x_key x) = [0, 0]" and "11 \<le> n"
    and "(extio_round (FIRE_MACHINE env) set_level (\<lambda>e p. e p) ^^ n) (x, e) = (x', e')"
    and "ext w = x'" and "pins w = e'"
    and "run_stop_flag (misc w) \<noteq> 0" and "\<not> door_open (misc w)"
    and "misc_iter env w = (w', out)"
  shows "pins w' EXTIO_DOOR_OPEN \<and> pins w' EXTIO_MAIN_ALARM \<and> out_byte (x_output (ext w')) = [255] \<and>
    (mqtt_connect_sta (nb env) \<noteq> 0 \<longrightarrow> (\<exists>msg \<in> set out. (''cause'', JNum 2) \<in> set msg))"
proof -
  have "alarm_pending 0 (x, e)" using assms(2-7) by (simp add: alarm_pending_def)
  from alarm_pending_rounds [OF this, of n "FIRE_MACHINE env"]
  have p: "extio_wf x'" "k_sta (x_key x') = [0, 0]" "is_check x' EXTIO_CHECK_EMERGENCY"
    using assms(8) by (simp_all add: assms(9) alarm_pending_def)
  define m where "m = misc (misc_read_inputs w)"
  have m: "\<not> key_open m" "emergency_open m"
    using p by (simp_all add: m_def misc_read_inputs_def assms(10) key_sta_def)
  then have c: "misc_open_request m" "open_cause m 0 = 2" "open_alarms m"
    by (simp_all add: misc_open_request_def open_cause_def open_alarms_def)
  have k: "key_sta (ext w) EXTIO_SET_KEY = EXTIO_KEY_RELEASE" using p by (simp add: assms(10) key_sta_def)
  show ?thesis
    using open_iter [OF assms(1,12,13) _ k m_def c(1) assms(14)] p c by (simp add: assms(10))
qed

theorem emergency_raises_alarm_witness:
  "pins (fst (misc_iter (level_env True) (sample_world\<lparr>
     ext := fst ((extio_round (FIRE_MACHINE (level_env True)) set_level (\<lambda>e p. e p) ^^ 11)
       (extio_zero, (\<lambda>_. True)(EXTIO_EMERGENCY := False))),
     pins := snd ((extio_round (FIRE_MACHINE (level_env True)) set_level (\<lambda>e p. e p) ^^ 11)
       (extio_zero, (\<lambda>_. True)(EXTIO_EMERGENCY := False)))\<rparr>))) EXTIO_MAIN_ALARM"
proof -
  define e where "e = (\<lambda>_. True)(EXTIO_EMERGENCY := False)"
  let ?r = "(extio_round (FIRE_MACHINE (level_env True)) set_level (\<lambda>e p. e p) ^^ 11) (extio_zero, e)"
  let ?w = "sample_world\<lparr>ext := fst ?r, pins := snd ?r\<rparr>"
  obtain w' out where i: "misc_iter (level_env True) ?w = (w', out)" by fastforce
  have h: "wr_pin (level_env True) = set_level" "\<not> e EXTIO_EMERGENCY" "e EXTIO_SET_KEY_PIN" "e EXTIO_DOOR_KEY_PIN"
    "k_sta (x_key extio_zero) = [0, 0]" "k_time (x_key extio_zero) = [0, 0]"
    "run_stop_flag (misc ?w) \<noteq> 0" "\<not> door_open (misc ?w)"
    by (simp_all add: e_def level_env_def pin_defs extio_zero_def EXTIO_KEY_MAX_def numeral_2_eq_2
        sample_world_def misc_zero_def)
  have "11 \<le> (11::nat)" by simp
  from emergency_raises_alarm [OF h(1) extio_wf_init h(2-6) this _ _ _ h(7,8) i, of "fst ?r" "snd ?r"] i
  show ?thesis unfolding e_def [symmetric] by simp
qed

section \<open>The texts the kernel prints for the application\<close>

text \<open>The texts of the application model are what \<open>rt_snprintf\<close> leaves in the buffers: the
  subscribed topic of \<open>nb_iot\<close> and the compile time of \<open>main\<close>.\<close>

lemma c_string_buf_string: "c_string (buf_string b)"
  by (auto simp: c_string_def buf_string_def dest: set_takeWhileD)

lemma topic_printed:
  assumes "config_wf cfg" and "50 \<le> length buf" and "unat base + length buf + 200 < 2 ^ 32"
  shows "\<exists>b k. rt_snprintf base buf 50 (c_bytes ''%s%s'')
      [Arg_str (buf_string (subscribe_topic (mqtt cfg))), Arg_str (buf_string (building_id cfg))] = Some (b, k) \<and>
    buf_string b = subscribe_name cfg"
proof -
  let ?a = "buf_string (subscribe_topic (mqtt cfg))" and ?b = "buf_string (building_id cfg)"
  have "length ?a \<le> length (subscribe_topic (mqtt cfg))" "length ?b \<le> length (building_id cfg)"
    by (simp_all add: buf_string_def length_takeWhile_le)
  then have l: "length ?a \<le> 100" "length ?b \<le> 20" using assms(1) by (simp_all add: config_wf_def)
  then have f: "format_loop (c_bytes ''%s%s'') [Arg_str ?a, Arg_str ?b] = Some (?a @ ?b)" by (intro format_strings) simp_all
  have "c_string (?a @ ?b)"
    using c_string_buf_string [of "subscribe_topic (mqtt cfg)"] c_string_buf_string [of "building_id cfg"]
    by (simp add: c_string_def)
  then have "buf_string (snprintf_into buf 50 (?a @ ?b)) = subscribe_name cfg"
    by (simp add: snprintf_into_def buf_string_strcpy c_string_take subscribe_name_def del: take_append)
  then show ?thesis
    using vsnprintf_into [OF f, of 50 buf base] l assms by (auto simp: rt_snprintf_def)
qed

lemma compile_printed:
  assumes "unat base + 30 < 2 ^ 32" and "unat base + (length date + 1 + length time) < 2 ^ 31"
  shows "rt_snprintf base (replicate 30 0) 30 (c_bytes ''%s %s'') [Arg_str date, Arg_str time] =
    Some (main_compile date time, int (length date + 1 + length time))"
proof -
  have f: "format_loop (c_bytes ''%s %s'') [Arg_str date, Arg_str time] = Some (date @ c_bytes '' '' @ time)"
    using assms(2) by (intro format_strings) simp_all
  show ?thesis
    using vsnprintf_into [OF f, of 30 "replicate 30 0" base] assms
    by (auto simp: rt_snprintf_def main_compile_def i32_eq)
qed

end
